(* ===== verification/Prelude.thy ===== *)
theory Prelude
  imports Main "HOL-Library.Word" "HOL-Library.Char_ord"
begin

unbundle bit_operations_syntax

text \<open>
  Shared vocabulary of the development: the machine types of the C sources,
  the result type of fallible kernel code, the C-string view of a character
  list with the pointer-scanning loop all lexers share, little-endian words in
  byte memory, and the generic lemmas the component theories use.
\<close>

named_theorems cstr_simps "C-string access and scanning"
named_theorems mem_simps "byte memory"

section \<open>Machine types\<close>

type_synonym u8 = "8 word"
type_synonym u16 = "16 word"
type_synonym u32 = "32 word"
type_synonym u64 = "64 word"

text \<open>Kernel memory: every 32-bit address holds a byte.\<close>

type_synonym mem = "u32 \<Rightarrow> u8"

lemma unat_bound: "unat (w :: 'a::len word) < 2 ^ LENGTH('a)"
  by (rule unsigned_less)

lemma unat_of_nat_small: "n < 2 ^ LENGTH('a) \<Longrightarrow> unat (of_nat n :: 'a::len word) = n"
  by (simp add: unat_of_nat take_bit_nat_eq_self)

lemma sint_of_nat_small: "n < 2 ^ 31 \<Longrightarrow> sint (of_nat n :: u32) = int n"
  by (simp add: signed_of_nat signed_take_bit_int_eq_self)

lemma sint_nonneg:
  fixes w :: u32
  assumes "0 \<le> sint w"
  shows "sint w = int (unat w)" "unat w < 2 ^ 31"
proof -
  have "sint w = uint w - 2 ^ 32 * of_bool (bit (uint w) 31)"
    using signed_take_bit_eq_take_bit_minus [of 31 "uint w"] uint_bounded [of w]
    by (simp add: sint_uint take_bit_int_eq_self)
  moreover have "uint w < 2 ^ 32" using uint_bounded [of w] by simp
  ultimately have "\<not> bit (uint w) 31" "sint w = uint w - 2 ^ 32 * of_bool (bit (uint w) 31)" using assms by fastforce+
  then have u: "uint w = sint w" by (simp only: of_bool_eq mult_zero_right diff_zero)
  moreover have "sint w < 2 ^ 31" using sint_lt [of w] by simp
  ultimately have "uint w < int (2 ^ 31)" by simp
  then show "unat w < 2 ^ 31" unfolding unat_eq_nat_uint using nat_less_iff [of "uint w"] by simp
  show "sint w = int (unat w)" using u by simp
qed

lemma unat_neg_one: "unat (- 1 :: 'a::len word) = 2 ^ LENGTH('a) - 1"
  by (metis mask_eq_exp_minus_1 mask_eq_iff unsigned_minus_1_eq_mask)

section \<open>Results of fallible code\<close>

text \<open>
  \<open>Panic\<close> is the kernel's \<open>panic(msg)\<close>, which never returns; \<open>Blocked\<close> is a
  call that would put the calling process to sleep; \<open>Fault\<close> a dereference of NULL
  or past an array; \<open>OutOfFuel\<close> the end of the fuel a loop was given, never reached
  where a theorem says so.
\<close>

datatype kerr = Panic string | Blocked | Fault | OutOfFuel

type_synonym 'a res = "kerr + 'a"

definition rbind :: "'e + 'a \<Rightarrow> ('a \<Rightarrow> 'e + 'b) \<Rightarrow> 'e + 'b" where
  "rbind m f = (case m of Inl e \<Rightarrow> Inl e | Inr x \<Rightarrow> f x)"

lemma rbind_Inl [simp]: "rbind (Inl e) f = Inl e"
  and rbind_Inr [simp]: "rbind (Inr x) f = f x"
  by (simp_all add: rbind_def)

lemma rbind_eq_Inr: "rbind m f = Inr y \<longleftrightarrow> (\<exists>x. m = Inr x \<and> f x = Inr y)"
  by (cases m) simp_all

lemma rbind_pair_Inr: "rbind m (\<lambda>(x, y). f x y) = Inr z \<longleftrightarrow> (\<exists>x y. m = Inr (x, y) \<and> f x y = Inr z)"
  by (auto simp: rbind_eq_Inr)

lemma rbind_eq_InrE:
  assumes "rbind m f = Inr y"
  obtains x where "m = Inr x" and "f x = Inr y"
  using assms by (auto simp: rbind_eq_Inr)

lemma rbind_ext: "(\<And>x. m = Inr x \<Longrightarrow> f x = g x) \<Longrightarrow> rbind m f = rbind m g"
  by (cases m) simp_all

lemma rbind_fcong:
  "m = m' \<Longrightarrow> (\<And>x. m' = Inr x \<Longrightarrow> f x = g x) \<Longrightarrow> rbind m f = rbind m' g"
  by (cases m') simp_all

lemma rbind_cong [cong]: "m = m' \<Longrightarrow> rbind m f = rbind m' f"
  by simp

text \<open>What holds of the result, if there is one: the weakest precondition of a call.\<close>

definition post :: "'e + 'a \<Rightarrow> ('a \<Rightarrow> bool) \<Rightarrow> bool" where
  "post m P \<longleftrightarrow> (\<forall>x. m = Inr x \<longrightarrow> P x)"

lemma post_simps [simp]:
  "post (Inl e) P" "post (Inr x) P = P x" "post (rbind m f) P = post m (\<lambda>x. post (f x) P)"
  by (auto simp: post_def rbind_eq_Inr)

lemma postI: "(\<And>x. m = Inr x \<Longrightarrow> P x) \<Longrightarrow> post m P"
  by (simp add: post_def)

lemma postD: "post m P \<Longrightarrow> m = Inr x \<Longrightarrow> P x"
  by (simp add: post_def)

lemma post_mono: "post m P \<Longrightarrow> (\<And>x. m = Inr x \<Longrightarrow> P x \<Longrightarrow> Q x) \<Longrightarrow> post m Q"
  by (simp add: post_def)

section \<open>C strings as character lists\<close>

text \<open>
  A NUL-terminated \<open>char*\<close> is a character list and an index into it; reading at
  or past the end of the list yields the terminator.
\<close>

abbreviation NUL :: char where "NUL \<equiv> CHR 0x00"

definition chr_at :: "string \<Rightarrow> nat \<Rightarrow> char" where
  "chr_at s i = (if i < length s then s ! i else NUL)"

lemma chr_at_in [cstr_simps]: "i < length s \<Longrightarrow> chr_at s i = s ! i"
  and chr_at_out [cstr_simps]: "length s \<le> i \<Longrightarrow> chr_at s i = NUL"
  by (simp_all add: chr_at_def)

text \<open>The loop \<open>while (P(*p)) p++;\<close>, for a test \<open>P\<close> the terminator fails.\<close>

function scan_while :: "(char \<Rightarrow> bool) \<Rightarrow> string \<Rightarrow> nat \<Rightarrow> nat" where
  "scan_while P s i =
     (if i < length s \<and> P (chr_at s i) then scan_while P s (Suc i) else i)"
  by pat_completeness auto
termination by (relation "measure (\<lambda>(P, s, i). length s - i)") auto

declare scan_while.simps [simp del]

lemma scan_while_unfold:
  "\<not> P NUL \<Longrightarrow> scan_while P s i = (if P (chr_at s i) then scan_while P s (Suc i) else i)"
  by (subst scan_while.simps) (auto simp: chr_at_def)

lemma scan_while_takeWhile [cstr_simps]:
  "scan_while P s i = i + length (takeWhile P (drop i s))"
proof (induction P s i rule: scan_while.induct)
  case (1 P s i)
  show ?case
  proof (cases "i < length s")
    case True
    then have d: "takeWhile P (drop i s)
        = (if P (s ! i) then s ! i # takeWhile P (drop (Suc i) s) else [])"
      by (metis Cons_nth_drop_Suc takeWhile.simps(2))
    show ?thesis
    proof (cases "P (s ! i)")
      case P: True
      then have "scan_while P s i = scan_while P s (Suc i)"
        using True by (simp add: scan_while.simps [of P s i] chr_at_def)
      also have "\<dots> = Suc i + length (takeWhile P (drop (Suc i) s))"
        by (rule "1.IH") (use P True in \<open>simp add: chr_at_def\<close>)
      finally show ?thesis using P by (simp only: d) simp
    next
      case P: False
      then have "scan_while P s i = i"
        using True by (simp add: scan_while.simps [of P s i] chr_at_def)
      then show ?thesis using P by (simp only: d) simp
    qed
  next
    case False
    then show ?thesis by (subst scan_while.simps) simp
  qed
qed

lemma scan_while_ge: "i \<le> scan_while P s i"
  by (simp add: scan_while_takeWhile)

lemma scan_while_gt: "i < length s \<Longrightarrow> P (s ! i) \<Longrightarrow> i < scan_while P s i"
  using scan_while_ge [of "Suc i" P s] by (simp add: scan_while.simps [of P s i] chr_at_def)

lemma scan_while_le: "i \<le> length s \<Longrightarrow> scan_while P s i \<le> length s"
  using length_takeWhile_le [of P "drop i s"] by (simp add: scan_while_takeWhile)

lemma scan_while_stops: "scan_while P s i < length s \<Longrightarrow> \<not> P (s ! scan_while P s i)"
  using nth_length_takeWhile [of P "drop i s"]
  by (auto simp: scan_while_takeWhile)

lemma scan_while_holds:
  assumes "i \<le> j" and "j < scan_while P s i"
  shows "P (s ! j)"
proof -
  from assms have j: "j - i < length (takeWhile P (drop i s))"
    by (simp add: scan_while_takeWhile)
  then have "P (takeWhile P (drop i s) ! (j - i))"
    using set_takeWhileD [OF nth_mem [OF j]] by simp
  moreover have "i + (j - i) < length s"
    using j length_takeWhile_le [of P "drop i s"] by (simp add: less_le_trans)
  ultimately show ?thesis using assms(1) j by (simp add: takeWhile_nth)
qed

section \<open>Little-endian words in byte memory\<close>

definition load32 :: "mem \<Rightarrow> u32 \<Rightarrow> u32" where
  "load32 m a = ucast (m a) OR push_bit 8 (ucast (m (a + 1)))
     OR push_bit 16 (ucast (m (a + 2))) OR push_bit 24 (ucast (m (a + 3)))"

definition store32 :: "u32 \<Rightarrow> u32 \<Rightarrow> mem \<Rightarrow> mem" where
  "store32 a w m = m(a := ucast w, a + 1 := ucast (drop_bit 8 w),
     a + 2 := ucast (drop_bit 16 w), a + 3 := ucast (drop_bit 24 w))"

lemma le_bytes_join:
  fixes w :: u32
  shows "(ucast (ucast w :: u8) :: u32) OR push_bit 8 (ucast (ucast (drop_bit 8 w) :: u8))
    OR push_bit 16 (ucast (ucast (drop_bit 16 w) :: u8))
    OR push_bit 24 (ucast (ucast (drop_bit 24 w) :: u8)) = w"
proof (rule bit_word_eqI)
  fix n assume "n < LENGTH(32)"
  then consider "n < 8" | "8 \<le> n" "n < 16" | "16 \<le> n" "n < 24" | "24 \<le> n" "n < 32"
    by fastforce
  then show "bit ((ucast (ucast w :: u8) :: u32) OR push_bit 8 (ucast (ucast (drop_bit 8 w) :: u8))
    OR push_bit 16 (ucast (ucast (drop_bit 16 w) :: u8))
    OR push_bit 24 (ucast (ucast (drop_bit 24 w) :: u8))) n = bit w n"
    by cases (auto simp: bit_simps)
qed

lemma load_store32 [simp]: "load32 (store32 a w m) a = w"
  by (simp add: load32_def store32_def le_bytes_join)

section \<open>Tables of slots\<close>

text \<open>
  Descriptor tables, file tables and process tables are arrays scanned from
  index 0 for a free slot.
\<close>

fun first_index :: "('a \<Rightarrow> bool) \<Rightarrow> 'a list \<Rightarrow> nat option" where
  "first_index P [] = None"
| "first_index P (x # xs) = (if P x then Some 0 else map_option Suc (first_index P xs))"

lemma first_index_Some:
  "first_index P xs = Some i \<Longrightarrow> i < length xs \<and> P (xs ! i) \<and> (\<forall>j<i. \<not> P (xs ! j))"
proof (induction xs arbitrary: i)
  case (Cons x xs)
  show ?case
  proof (cases "P x")
    case False
    then obtain k where "first_index P xs = Some k" "i = Suc k" using Cons.prems by auto
    then show ?thesis using Cons.IH False by (auto simp: nth_Cons split: nat.splits)
  qed (use Cons.prems in auto)
qed simp

lemma first_index_None: "first_index P xs = None \<longleftrightarrow> (\<forall>x\<in>set xs. \<not> P x)"
  by (induction xs) auto

lemma first_index_hit:
  "i < length xs \<Longrightarrow> P (xs ! i) \<Longrightarrow> (\<And>j. j < i \<Longrightarrow> \<not> P (xs ! j)) \<Longrightarrow> first_index P xs = Some i"
proof (induction xs arbitrary: i)
  case (Cons x xs)
  show ?case
  proof (cases i)
    case 0
    then show ?thesis using Cons.prems by simp
  next
    case (Suc k)
    have "first_index P xs = Some k"
    proof (rule Cons.IH)
      fix j assume "j < k"
      then show "\<not> P (xs ! j)" using Cons.prems(3) [of "Suc j"] Suc by simp
    qed (use Cons.prems Suc in auto)
    moreover have "\<not> P x" using Cons.prems(3) [of 0] Suc by simp
    ultimately show ?thesis using Suc by simp
  qed
qed simp

fun used :: "'a option list \<Rightarrow> nat" where
  "used [] = 0"
| "used (x # t) = (if x = None then 0 else 1) + used t"

lemma used_update:
  "i < length t \<Longrightarrow> used (t[i := x]) + (if t ! i = None then 0 else 1)
     = used t + (if x = None then 0 else 1)"
proof (induction t arbitrary: i)
  case (Cons y t)
  show ?case
  proof (cases i)
    case (Suc k)
    then have "used (t[k := x]) + (if t ! k = None then 0 else 1) = used t + (if x = None then 0 else 1)"
      using Cons by simp
    then show ?thesis using Suc by simp
  qed simp
qed simp

lemma used_fill: "i < length t \<Longrightarrow> t ! i = None \<Longrightarrow> used (t[i := Some x]) = Suc (used t)"
  using used_update [of i t "Some x"] by simp

lemma used_clear: "i < length t \<Longrightarrow> t ! i = Some x \<Longrightarrow> Suc (used (t[i := None])) = used t"
  using used_update [of i t None] by simp

lemma used_all: "\<forall>x\<in>set t. x \<noteq> None \<Longrightarrow> used t = length t"
  by (induction t) auto

lemma used_less_free: "used t < length t \<Longrightarrow> \<exists>i. first_index (\<lambda>x. x = None) t = Some i"
  using first_index_None [of "\<lambda>x. x = None" t] used_all [of t] by fastforce

lemma nth_upd: "i < length xs \<Longrightarrow> xs[j := y] ! i = (if i = j then y else xs ! i)"
  by (cases "i = j") simp_all

section \<open>Counting\<close>

text \<open>The number of counted threads when one thread moves.\<close>

lemma counted_in:
  assumes "t < N" "\<not> P (f t)" "P x"
  shows "card {u. u < N \<and> P ((f(t := x)) u)} = Suc (card {u. u < (N :: nat) \<and> P (f u)})"
proof -
  have "{u. u < N \<and> P ((f(t := x)) u)} = insert t {u. u < N \<and> P (f u)}" using assms by auto
  then show ?thesis using assms by simp
qed

lemma counted_out:
  assumes "t < N" "P (f t)" "\<not> P x"
  shows "Suc (card {u. u < N \<and> P ((f(t := x)) u)}) = card {u. u < (N :: nat) \<and> P (f u)}"
proof -
  have "{u. u < N \<and> P (f u)} = insert t {u. u < N \<and> P ((f(t := x)) u)}" using assms by auto
  then show ?thesis using assms by simp
qed

lemma counted_same:
  assumes "P (f t) = P x"
  shows "{u. u < N \<and> P ((f(t := x)) u)} = {u. u < (N :: nat) \<and> P (f u)}"
  using assms by auto

end
