(* ===== verification/CString.thy ===== *)
theory CString
  imports Prelude
begin

text \<open>
  The kernel's memory and string primitives (string.c) over byte memory, with
  32-bit pointers that wrap around, and the user library's own copies
  (ulib.c). The inline assembly \<open>rep stosb\<close> and \<open>rep stosl\<close> of x86.h are the
  loops they perform. The properties say what each routine leaves in memory:
  in particular that the kernel's \<open>memmove\<close> is right for overlapping ranges
  and that the user library's is not.
\<close>

section \<open>string.c\<close>

fun stosb :: "u32 \<Rightarrow> u8 \<Rightarrow> nat \<Rightarrow> mem \<Rightarrow> mem" where
  "stosb a c 0 m = m"
| "stosb a c (Suc k) m = stosb (a + 1) c k (m(a := c))"

fun stosl :: "u32 \<Rightarrow> u32 \<Rightarrow> nat \<Rightarrow> mem \<Rightarrow> mem" where
  "stosl a w 0 m = m"
| "stosl a w (Suc k) m = stosl (a + 4) w k (store32 a w m)"

definition memset :: "u32 \<Rightarrow> u32 \<Rightarrow> u32 \<Rightarrow> mem \<Rightarrow> mem" where
  "memset dst c n m =
     (if dst mod 4 = 0 \<and> n mod 4 = 0
      then let c = c AND 0xFF in
           stosl dst (push_bit 24 c OR push_bit 16 c OR push_bit 8 c OR c) (unat (n div 4)) m
      else stosb dst (ucast c) (unat n) m)"

fun memcmp_loop :: "u32 \<Rightarrow> u32 \<Rightarrow> nat \<Rightarrow> mem \<Rightarrow> int" where
  "memcmp_loop s1 s2 0 m = 0"
| "memcmp_loop s1 s2 (Suc n) m =
     (if m s1 \<noteq> m s2 then int (unat (m s1)) - int (unat (m s2))
      else memcmp_loop (s1 + 1) (s2 + 1) n m)"

definition memcmp :: "u32 \<Rightarrow> u32 \<Rightarrow> u32 \<Rightarrow> mem \<Rightarrow> int" where
  "memcmp v1 v2 n m = memcmp_loop v1 v2 (unat n) m"

text \<open>\<open>while(n-- > 0) *d++ = *s++\<close> and \<open>while(n-- > 0) *--d = *--s\<close>.\<close>

fun copy_up :: "u32 \<Rightarrow> u32 \<Rightarrow> nat \<Rightarrow> mem \<Rightarrow> mem" where
  "copy_up d s 0 m = m"
| "copy_up d s (Suc n) m = copy_up (d + 1) (s + 1) n (m(d := m s))"

fun copy_down :: "u32 \<Rightarrow> u32 \<Rightarrow> nat \<Rightarrow> mem \<Rightarrow> mem" where
  "copy_down d s 0 m = m"
| "copy_down d s (Suc n) m = copy_down (d - 1) (s - 1) n (m(d - 1 := m (s - 1)))"

definition memmove :: "u32 \<Rightarrow> u32 \<Rightarrow> u32 \<Rightarrow> mem \<Rightarrow> mem" where
  "memmove d s n m =
     (if s < d \<and> s + n > d then copy_down (d + n) (s + n) (unat n) m
      else copy_up d s (unat n) m)"

definition memcpy :: "u32 \<Rightarrow> u32 \<Rightarrow> u32 \<Rightarrow> mem \<Rightarrow> mem" where
  "memcpy dst src n m = memmove dst src n m"

fun strncmp :: "u32 \<Rightarrow> u32 \<Rightarrow> nat \<Rightarrow> mem \<Rightarrow> int" where
  "strncmp p q 0 m = 0"
| "strncmp p q (Suc n) m =
     (if m p \<noteq> 0 \<and> m p = m q then strncmp (p + 1) (q + 1) n m
      else int (unat (m p)) - int (unat (m q)))"

text \<open>
  \<open>strncpy\<close>: the copying loop stops after the terminator it has copied; the
  second loop pads with zeros.
\<close>

fun strncpy_loop :: "u32 \<Rightarrow> u32 \<Rightarrow> nat \<Rightarrow> mem \<Rightarrow> mem" where
  "strncpy_loop s t 0 m = m"
| "strncpy_loop s t (Suc n) m =
     (let c = m t; m' = m(s := c) in
      if c \<noteq> 0 then strncpy_loop (s + 1) (t + 1) n m' else stosb (s + 1) 0 n m')"

definition strncpy :: "u32 \<Rightarrow> u32 \<Rightarrow> int \<Rightarrow> mem \<Rightarrow> mem" where
  "strncpy s t n m = strncpy_loop s t (nat n) m"

text \<open>
  \<open>safestrcpy\<close>: the argument of the loop is the value of \<open>n\<close> after \<open>--n\<close>; on
  leaving it the byte at \<open>s\<close> becomes zero, one past a terminator just copied.
\<close>

fun safestrcpy_loop :: "u32 \<Rightarrow> u32 \<Rightarrow> nat \<Rightarrow> mem \<Rightarrow> mem" where
  "safestrcpy_loop s t 0 m = m(s := 0)"
| "safestrcpy_loop s t (Suc n) m =
     (let c = m t; m' = m(s := c) in
      if c \<noteq> 0 then safestrcpy_loop (s + 1) (t + 1) n m' else m'(s + 1 := 0))"

definition safestrcpy :: "u32 \<Rightarrow> u32 \<Rightarrow> int \<Rightarrow> mem \<Rightarrow> mem" where
  "safestrcpy s t n m = (if n \<le> 0 then m else safestrcpy_loop s t (nat (n - 1)) m)"

partial_function (option) strlen_loop :: "u32 \<Rightarrow> nat \<Rightarrow> mem \<Rightarrow> nat option" where
  "strlen_loop s n m = (if m (s + of_nat n) = 0 then Some n else strlen_loop s (Suc n) m)"

definition strlen :: "u32 \<Rightarrow> mem \<Rightarrow> nat option" where
  "strlen s m = strlen_loop s 0 m"

section \<open>ulib.c\<close>

definition ulib_memmove :: "u32 \<Rightarrow> u32 \<Rightarrow> int \<Rightarrow> mem \<Rightarrow> mem" where
  "ulib_memmove vdst vsrc n m = copy_up vdst vsrc (nat n) m"

definition ulib_memset :: "u32 \<Rightarrow> u32 \<Rightarrow> u32 \<Rightarrow> mem \<Rightarrow> mem" where
  "ulib_memset dst c n m = stosb dst (ucast c) (unat n) m"

partial_function (option) strcpy :: "u32 \<Rightarrow> u32 \<Rightarrow> mem \<Rightarrow> mem option" where
  "strcpy s t m =
     (let c = m t; m' = m(s := c) in if c \<noteq> 0 then strcpy (s + 1) (t + 1) m' else Some m')"

partial_function (option) strcmp :: "u32 \<Rightarrow> u32 \<Rightarrow> mem \<Rightarrow> int option" where
  "strcmp p q m =
     (if m p \<noteq> 0 \<and> m p = m q then strcmp (p + 1) (q + 1) m
      else Some (int (unat (m p)) - int (unat (m q))))"

partial_function (option) strchr :: "u32 \<Rightarrow> u8 \<Rightarrow> mem \<Rightarrow> u32 option" where
  "strchr s c m =
     (if m s = 0 then Some 0 else if m s = c then Some s else strchr (s + 1) c m)"

text \<open>\<open>atoi\<close> on a C string; the accumulator is a 32-bit \<open>int\<close>.\<close>

fun atoi_loop :: "string \<Rightarrow> u32 \<Rightarrow> u32" where
  "atoi_loop [] n = n"
| "atoi_loop (c # s) n =
     (if CHR ''0'' \<le> c \<and> c \<le> CHR ''9''
      then atoi_loop s (n * 10 + of_char c - of_char CHR ''0'') else n)"

definition atoi :: "string \<Rightarrow> u32" where
  "atoi s = atoi_loop s 0"

section \<open>What they compute\<close>

text \<open>The bytes of the C string at \<open>p\<close>, at most \<open>n\<close> of them.\<close>

fun cstr :: "nat \<Rightarrow> u32 \<Rightarrow> mem \<Rightarrow> u8 list" where
  "cstr 0 p m = []"
| "cstr (Suc n) p m = (if m p = 0 then [] else m p # cstr n (p + 1) m)"

lemma off_Suc:
  fixes x a :: u32
  shows "unat (x - a) < Suc k \<longleftrightarrow> x = a \<or> unat (x - (a + 1)) < k \<and> x \<noteq> a"
proof (cases "x = a")
  case False
  then have nz: "x - a \<noteq> 0" by simp
  have "x - (a + 1) = (x - a) - 1" by simp
  then have "unat (x - (a + 1)) = unat (x - a) - 1"
    by (simp only: unat_minus_one [OF nz])
  moreover have "0 < unat (x - a)" using nz by (simp add: unat_gt_0)
  ultimately have "unat (x - (a + 1)) = unat (x - a) - 1" "0 < unat (x - a)" .
  then show ?thesis using False by linarith
qed simp

lemma stosb_apply [mem_simps]:
  "stosb a c k m x = (if unat (x - a) < k then c else m x)"
proof (induction a c k m rule: stosb.induct)
  case (2 a c k m)
  then show ?case by (simp only: stosb.simps off_Suc) auto
qed simp

lemma store32_apply:
  "store32 a w m x = (if x = a + 3 then ucast (drop_bit 24 w)
     else if x = a + 2 then ucast (drop_bit 16 w)
     else if x = a + 1 then ucast (drop_bit 8 w)
     else if x = a then ucast w else m x)"
  by (auto simp: store32_def)

text \<open>\<open>memset\<close> fills exactly the range, on both of its paths.\<close>

lemma store32_same_bytes:
  fixes c :: u32
  assumes "c = c AND 0xFF"
  shows "store32 a (push_bit 24 c OR push_bit 16 c OR push_bit 8 c OR c) m x
    = (if unat (x - a) < 4 then ucast c else m x)"
proof -
  let ?w = "push_bit 24 c OR push_bit 16 c OR push_bit 8 c OR c"
  have hi: "\<not> bit c k" if "8 \<le> k" for k
  proof
    assume "bit c k"
    then have "bit (c AND 0xFF) k" using assms by simp
    then have "bit (0xFF :: u32) k" by (simp add: bit_and_iff)
    moreover have "(0xFF :: u32) = mask 8" by (simp add: mask_eq_exp_minus_1)
    ultimately show False using that by (simp add: bit_mask_iff)
  qed
  have b: "(ucast ?w :: u8) = ucast c" "(ucast (drop_bit 8 ?w) :: u8) = ucast c"
    "(ucast (drop_bit 16 ?w) :: u8) = ucast c" "(ucast (drop_bit 24 ?w) :: u8) = ucast c"
    by (rule bit_word_eqI, auto simp: bit_simps hi)+
  have "unat (x - a) < 4 \<longleftrightarrow> x = a \<or> x = a + 1 \<or> x = a + 2 \<or> x = a + 3"
    using off_Suc [of x a 3] off_Suc [of x "a + 1" 2] off_Suc [of x "a + 2" 1]
      off_Suc [of x "a + 3" 0]
    by (auto simp: numeral_eq_Suc add.assoc)
  then show ?thesis unfolding store32_apply b by auto
qed

lemma stosl_fill:
  fixes c :: u32
  assumes "c = c AND 0xFF"
  shows "stosl a (push_bit 24 c OR push_bit 16 c OR push_bit 8 c OR c) k m x
    = (if k > 0 \<and> unat (x - a) < 4 * k then ucast c else m x)"
proof (induction k arbitrary: a m)
  case (Suc k)
  let ?w = "push_bit 24 c OR push_bit 16 c OR push_bit 8 c OR c"
  have shift: "unat (x - a) < 4 * Suc k \<longleftrightarrow> unat (x - a) < 4 \<or> unat (x - (a + 4)) < 4 * k"
    if "\<not> unat (x - a) < 4"
  proof -
    have "(4 :: u32) \<le> x - a" using that by (simp add: word_le_nat_alt)
    then have "unat (x - a - 4) = unat (x - a) - 4" by (simp add: unat_sub)
    moreover have "x - (a + 4) = x - a - 4" by simp
    ultimately show ?thesis using that by (simp only:) auto
  qed
  have "stosl a ?w (Suc k) m x = stosl (a + 4) ?w k (store32 a ?w m) x" by simp
  also have "\<dots> = (if k > 0 \<and> unat (x - (a + 4)) < 4 * k then ucast c
      else if unat (x - a) < 4 then ucast c else m x)"
    by (simp only: Suc.IH store32_same_bytes [OF assms])
  also have "\<dots> = (if Suc k > 0 \<and> unat (x - a) < 4 * Suc k then ucast c else m x)"
    using shift by (cases "k = 0"; cases "unat (x - a) < 4") auto
  finally show ?case .
qed simp

lemma memset_apply [mem_simps]:
  "memset dst c n m x = (if x - dst < n then ucast c else m x)"
proof (cases "dst mod 4 = 0 \<and> n mod 4 = 0")
  case True
  have c: "ucast (c AND 0xFF) = (ucast c :: u8)"
  proof (rule bit_word_eqI)
    fix k assume k: "k < LENGTH(8)"
    have "(0xFF :: u32) = mask 8" by (simp add: mask_eq_exp_minus_1)
    then have "bit (0xFF :: u32) k"
      by (simp only: bit_mask_iff) (use k in simp)
    then show "bit (ucast (c AND 0xFF) :: u8) k = bit (ucast c :: u8) k"
      using k by (simp only: bit_simps) simp
  qed
  have n: "4 * unat (n div 4) = unat n"
  proof -
    have "unat (n mod 4) = 0" using True by simp
    then have "unat n mod 4 = 0" by (simp only: unat_mod) simp
    then have "4 * (unat n div 4) = unat n" by presburger
    then show ?thesis by (simp add: unat_div)
  qed
  then have "unat (n div 4) = 0 \<Longrightarrow> unat n = 0" by simp
  then show ?thesis
    using True stosl_fill [of "c AND 0xFF" dst "unat (n div 4)" m x]
    by (auto simp: memset_def Let_def c n word_less_nat_alt)
next
  case False
  then show ?thesis by (auto simp: memset_def stosb_apply word_less_nat_alt)
qed

text \<open>The two copying loops, and \<open>memmove\<close> on overlapping ranges.\<close>

lemma copy_up_apply:
  "\<not> (0 < unat (d - s) \<and> unat (d - s) < n) \<Longrightarrow>
   copy_up d s n m x = (if unat (x - d) < n then m (s + (x - d)) else m x)"
proof (induction n arbitrary: d s m)
  case (Suc n)
  have eq: "(d + 1) - (s + 1) = d - s" by simp
  have away: "s + (x - d) \<noteq> d" if "unat (x - d) < Suc n" "x \<noteq> d"
  proof
    assume "s + (x - d) = d"
    then have "x - d = d - s" by (simp add: algebra_simps)
    then show False using that Suc.prems by (auto simp: unat_gt_0)
  qed
  have "copy_up d s (Suc n) m x
      = (if unat (x - (d + 1)) < n then (m(d := m s)) (s + 1 + (x - (d + 1)))
         else (m(d := m s)) x)"
    using Suc.prems by (simp only: copy_up.simps) (rule Suc.IH, simp only: eq, auto)
  also have "s + 1 + (x - (d + 1)) = s + (x - d)" by simp
  also have "(if unat (x - (d + 1)) < n then (m(d := m s)) (s + (x - d)) else (m(d := m s)) x)
      = (if unat (x - d) < Suc n then m (s + (x - d)) else m x)"
    unfolding off_Suc using away by (cases "x = d") (auto simp: off_Suc)
  finally show ?case .
qed simp

lemma copy_down_apply:
  "\<not> (0 < unat (s - d) \<and> unat (s - d) < n) \<Longrightarrow> n \<le> 2 ^ 32 \<Longrightarrow>
   copy_down d s n m x =
     (if unat (x - (d - of_nat n)) < n then m (s - of_nat n + (x - (d - of_nat n))) else m x)"
proof (induction n arbitrary: d s m)
  case (Suc n)
  let ?D = "d - of_nat (Suc n)" and ?S = "s - of_nat (Suc n)"
  have eq: "(s - 1) - (d - 1) = s - d" "d - 1 - of_nat n = ?D" "s - 1 - of_nat n = ?S" by simp_all
  have "copy_down d s (Suc n) m x
      = (if unat (x - ?D) < n then (m(d - 1 := m (s - 1))) (?S + (x - ?D))
         else (m(d - 1 := m (s - 1))) x)"
  proof -
    have "\<not> (0 < unat (s - 1 - (d - 1)) \<and> unat (s - 1 - (d - 1)) < n)" "n \<le> 2 ^ 32"
      using Suc.prems by (simp_all only: eq) (cases "unat (s - d) = 0", auto)
    from Suc.IH [OF this, of "m(d - 1 := m (s - 1))"] show ?thesis
      by (simp only: copy_down.simps eq)
  qed
  also have "\<dots> = (if unat (x - ?D) < Suc n then m (?S + (x - ?D)) else m x)"
  proof -
    have last: "unat (x - ?D) = n \<longleftrightarrow> x = d - 1"
    proof
      assume "unat (x - ?D) = n"
      then have "(of_nat (unat (x - ?D)) :: u32) = of_nat n" by (simp only:)
      then have "x - ?D = of_nat n" by (simp only: of_nat_unat ucast_id)
      then show "x = d - 1" by (simp add: algebra_simps)
    next
      assume "x = d - 1"
      then have "x - ?D = of_nat n" by simp
      then show "unat (x - ?D) = n"
        using Suc.prems(2) by (simp only:) (simp add: unat_of_nat_small)
    qed
    have away: "?S + (x - ?D) \<noteq> d - 1" if "unat (x - ?D) < n"
    proof
      assume "?S + (x - ?D) = d - 1"
      then have e: "s - d = of_nat n - (x - ?D)" by (simp add: algebra_simps)
      have "x - ?D \<le> of_nat n" using that Suc.prems(2)
        by (simp add: word_le_nat_alt unat_of_nat_small)
      then have "unat (s - d) = unat (of_nat n :: u32) - unat (x - ?D)"
        by (simp only: e unat_sub)
      then have "unat (s - d) = n - unat (x - ?D)"
        using Suc.prems(2) by (simp add: unat_of_nat_small)
      then show False using that Suc.prems(1) by auto
    qed
    have at_last: "?S + (x - ?D) = s - 1" if "x = d - 1" using that by simp
    show ?thesis
      using last away at_last less_Suc_eq [of "unat (x - ?D)" n] by auto
  qed
  finally show ?case .
qed simp

lemma memmove_apply:
  assumes "unat dst + unat n \<le> 2 ^ 32" and "unat src + unat n \<le> 2 ^ 32"
  shows "memmove dst src n m x = (if x - dst < n then m (src + (x - dst)) else m x)"
proof (cases "src < dst \<and> src + n > dst")
  case True
  have "unat (src - dst) = 2 ^ 32 + unat src - unat dst"
    using True by (simp add: unat_sub_if_size word_size word_less_nat_alt)
  then have "unat n \<le> unat (src - dst)" using assms by linarith
  then have "\<not> (0 < unat ((src + n) - (dst + n)) \<and> unat ((src + n) - (dst + n)) < unat n)"
    by simp
  moreover have "unat n \<le> 2 ^ 32" using unat_bound [of n] by simp
  ultimately show ?thesis
    using True copy_down_apply [of "src + n" "dst + n" "unat n" m x]
    by (simp add: memmove_def word_less_nat_alt)
next
  case False
  have "\<not> (0 < unat (dst - src) \<and> unat (dst - src) < unat n)"
  proof (cases "src < dst")
    case True
    then have d: "unat (dst - src) = unat dst - unat src"
      by (simp add: unat_sub word_le_nat_alt word_less_nat_alt)
    show ?thesis
    proof (cases "unat src + unat n = 2 ^ 32")
      case True then show ?thesis using assms d by auto
    next
      case False
      then have "unat (src + n) = unat src + unat n"
        using assms by (simp add: unat_word_ariths)
      then show ?thesis using True d \<open>\<not> (src < dst \<and> src + n > dst)\<close>
        by (simp add: word_less_nat_alt)
    qed
  next
    case False
    then have "dst = src \<or> dst < src" by auto
    then have "dst = src \<or> unat (dst - src) = 2 ^ 32 + unat dst - unat src"
      by (auto simp: unat_sub_if_size word_size word_less_nat_alt word_le_nat_alt)
    then show ?thesis using assms False by (auto simp: word_less_nat_alt)
  qed
  from copy_up_apply [OF this, of m x] False show ?thesis
    by (auto simp: memmove_def word_less_nat_alt)
qed

text \<open>Comparison and copying of bounded strings.\<close>

lemma byte_diff_zero: "int (unat a) - int (unat b) = 0 \<longleftrightarrow> (a :: u8) = b"
  by (simp add: word_unat_eq_iff del: of_nat_unat)

lemma strncmp_zero_iff: "strncmp p q n m = 0 \<longleftrightarrow> cstr n p m = cstr n q m"
proof (induction n arbitrary: p q)
  case (Suc n)
  show ?case
  proof (cases "m p \<noteq> 0 \<and> m p = m q")
    case True
    then show ?thesis using Suc.IH [of "p + 1" "q + 1"] by simp
  next
    case False
    then have "strncmp p q (Suc n) m = 0 \<longleftrightarrow> m p = m q"
      by (simp only: strncmp.simps if_False byte_diff_zero)
    then show ?thesis using False by auto
  qed
qed simp

lemma cstr_no_NUL: "b \<in> set (cstr n p m) \<Longrightarrow> b \<noteq> 0"
  by (induction n p m rule: cstr.induct) (auto split: if_splits)

lemma length_cstr: "length (cstr n p m) \<le> n"
  by (induction n p m rule: cstr.induct) auto

lemma cstr_cong: "(\<And>i. i < n \<Longrightarrow> m (p + of_nat i) = m' (p + of_nat i)) \<Longrightarrow> cstr n p m = cstr n p m'"
proof (induction n arbitrary: p)
  case (Suc n)
  have "m (p + 1 + of_nat i) = m' (p + 1 + of_nat i)" if "i < n" for i
    using Suc.prems [of "Suc i"] that by (simp add: algebra_simps)
  then show ?case using Suc.IH [of "p + 1"] Suc.prems [of 0] by simp
qed simp

text \<open>The two ranges of \<open>n\<close> bytes at \<open>s\<close> and \<open>t\<close> do not meet.\<close>

definition apart :: "nat \<Rightarrow> u32 \<Rightarrow> u32 \<Rightarrow> bool" where
  "apart n s t \<longleftrightarrow> n \<le> unat (s - t) \<and> n \<le> unat (t - s)"

lemma strncpy_loop_frame:
  "n \<le> unat (x - s) \<Longrightarrow> strncpy_loop s t n m x = m x"
proof (induction n arbitrary: s t m)
  case (Suc n)
  then have x: "x \<noteq> s" "n \<le> unat (x - (s + 1))"
    using off_Suc [of x s n] by auto
  have "strncpy_loop (s + 1) (t + 1) n (m(s := m t)) x = (m(s := m t)) x"
    by (rule Suc.IH) (rule x)
  then show ?case using x by (simp add: Let_def stosb_apply)
qed simp

lemma strncpy_loop_byte:
  assumes "i < n" and "apart n s t" and "n \<le> 2 ^ 31"
  shows "strncpy_loop s t n m (s + of_nat i)
    = (if i < length (cstr n t m) then cstr n t m ! i else 0)"
  using assms
proof (induction n arbitrary: s t m i)
  case (Suc n)
  let ?m = "m(s := m t)"
  have st: "s - (t + 1) = (s - t) - 1" "t - (s + 1) = (t - s) - 1" by simp_all
  have nz: "s - t \<noteq> 0" "t - s \<noteq> 0" using Suc.prems(2) by (auto simp: apart_def)
  have ap: "apart n (s + 1) (t + 1)" using Suc.prems(2) by (simp add: apart_def)
  have same: "cstr n (t + 1) ?m = cstr n (t + 1) m"
  proof (rule cstr_cong)
    fix j assume j: "j < n"
    have "s \<noteq> t + 1 + of_nat j"
    proof
      assume "s = t + 1 + of_nat j"
      then have "s - t = of_nat (Suc j)" by simp
      then have "unat (s - t) = Suc j"
        using j Suc.prems(3) by (simp only:) (rule unat_of_nat_small, simp)
      then show False using Suc.prems(2) j by (simp add: apart_def)
    qed
    then show "?m (t + 1 + of_nat j) = m (t + 1 + of_nat j)" by simp
  qed
  have self: "strncpy_loop (s + 1) (t + 1) n m' s = m' s" for m'
  proof (rule strncpy_loop_frame)
    have "s - (s + 1) = -1" by simp
    then have "unat (s - (s + 1)) = 2 ^ 32 - 1" by (simp only: unat_neg_one) simp
    then show "n \<le> unat (s - (s + 1))" using Suc.prems(3) by simp
  qed
  have selfz: "stosb (s + 1) 0 n m' s = m' s" for m'
  proof -
    have "s - (s + 1) = -1" by simp
    then have "unat (s - (s + 1)) = 2 ^ 32 - 1" by (simp only: unat_neg_one) simp
    then show ?thesis using Suc.prems(3) by (simp add: stosb_apply)
  qed
  show ?case
  proof (cases i)
    case 0
    then show ?thesis by (simp add: Let_def self selfz)
  next
    case (Suc j)
    then have j: "j < n" "s + of_nat i = s + 1 + of_nat j" using Suc.prems(1) by simp_all
    show ?thesis
    proof (cases "m t = 0")
      case True
      have "unat (of_nat j :: u32) = j" using j Suc.prems(3) by (simp add: unat_of_nat_small)
      then show ?thesis using True j by (simp add: Let_def stosb_apply)
    next
      case False
      have "strncpy_loop (s + 1) (t + 1) n ?m (s + 1 + of_nat j)
          = (if j < length (cstr n (t + 1) ?m) then cstr n (t + 1) ?m ! j else 0)"
        by (rule Suc.IH) (use j ap Suc.prems(3) in auto)
      then show ?thesis
        unfolding same j(2) using False \<open>i = Suc j\<close>
        by (simp add: Let_def del: add.assoc of_nat_Suc)
    qed
  qed
qed simp

lemma strncpy_loop_source:
  assumes "apart n s t" and "n \<le> 2 ^ 31"
  shows "cstr n t (strncpy_loop s t n m) = cstr n t m"
proof (rule cstr_cong)
  fix i assume i: "i < n"
  have "n \<le> unat (t + of_nat i - s)"
  proof -
    have iu: "unat (of_nat i :: u32) = i" using i assms(2) by (simp add: unat_of_nat_small)
    have st: "s \<noteq> t" using i assms(1) by (auto simp: apart_def)
    then have "unat (s - t) + unat (t - s) = 2 ^ 32"
      using unat_bound [of s] unat_bound [of t]
      by (simp add: unat_sub_if_size word_size word_unat_eq_iff)
    then have "unat (t - s) + unat (of_nat i :: u32) < 2 ^ 32"
      using assms(1) i iu by (simp add: apart_def)
    then have "unat (t - s + of_nat i) = unat (t - s) + i"
      using iu by (simp add: unat_word_ariths)
    moreover have "t + of_nat i - s = t - s + of_nat i" by simp
    ultimately show ?thesis using assms(1) by (simp only: apart_def) linarith
  qed
  then show "strncpy_loop s t n m (t + of_nat i) = m (t + of_nat i)"
    by (rule strncpy_loop_frame)
qed

lemma cstr_by_bytes:
  "(\<And>i. i < n \<Longrightarrow> m (p + of_nat i) = (if i < length bs then bs ! i else 0)) \<Longrightarrow>
   (\<And>b. b \<in> set bs \<Longrightarrow> b \<noteq> 0) \<Longrightarrow> length bs \<le> n \<Longrightarrow> cstr n p m = bs"
proof (induction n arbitrary: p bs)
  case (Suc n)
  show ?case
  proof (cases bs)
    case Nil
    then show ?thesis using Suc.prems(1) [of 0] by simp
  next
    case (Cons b bs')
    have "cstr n (p + 1) m = bs'"
    proof (rule Suc.IH)
      fix i assume "i < n"
      then show "m (p + 1 + of_nat i) = (if i < length bs' then bs' ! i else 0)"
        using Suc.prems(1) [of "Suc i"] Cons by (simp add: add.assoc)
    qed (use Suc.prems Cons in auto)
    then show ?thesis using Suc.prems(1) [of 0] Suc.prems(2) Cons by simp
  qed
qed simp

section \<open>Properties\<close>

text \<open>The \<open>n\<close> bytes at \<open>p\<close>.\<close>

definition bytes :: "nat \<Rightarrow> u32 \<Rightarrow> mem \<Rightarrow> u8 list" where
  "bytes n p m = map (\<lambda>i. m (p + of_nat i)) [0..<n]"

text \<open>
  The kernel's \<open>memmove\<close> leaves at the destination the bytes the source held,
  whether or not the two ranges overlap, and changes no byte outside the
  destination, for ranges that do not run past the top of the address space.
\<close>

theorem memmove_correct:
  assumes "unat dst + unat n \<le> 2 ^ 32" and "unat src + unat n \<le> 2 ^ 32"
  shows "bytes (unat n) dst (memmove dst src n m) = bytes (unat n) src m
    \<and> (\<forall>x. n \<le> x - dst \<longrightarrow> memmove dst src n m x = m x)"
proof -
  have "memmove dst src n m (dst + of_nat i) = m (src + of_nat i)" if "i < unat n" for i
  proof -
    have "unat (of_nat i :: u32) = i"
      using that unat_bound [of n] by (intro unat_of_nat_small) linarith
    then have "(of_nat i :: u32) < n" using that by (simp add: word_less_nat_alt)
    then show ?thesis by (simp add: memmove_apply [OF assms])
  qed
  then show ?thesis by (auto simp: bytes_def memmove_apply [OF assms])
qed

lemma memmove_correct_witness:
  "bytes 3 11 (memmove 11 10 3 (\<lambda>a. ucast a)) = [10, 11, 12]"
proof -
  have "bytes 3 10 (\<lambda>a. ucast a) = [10, 11, 12]" by (simp add: bytes_def upt_rec)
  then show ?thesis using memmove_correct [of 11 3 10 "\<lambda>a. ucast a"] by simp
qed

text \<open>
  A name stored with \<open>strncpy\<close> is found again: comparing the copy with the
  original over the same length gives 0, for fields that do not overlap. This is
  what \<open>dirlink\<close> and \<open>dirlookup\<close> need of \<open>strncpy\<close> and \<open>strncmp\<close>.
\<close>

theorem strncpy_strncmp:
  assumes "apart n s t" and "n \<le> 2 ^ 31"
  shows "strncmp t s n (strncpy s t (int n) m) = 0"
proof -
  have "cstr n s (strncpy_loop s t n m) = cstr n t m"
    by (rule cstr_by_bytes)
      (use assms in \<open>auto simp: strncpy_loop_byte length_cstr dest: cstr_no_NUL\<close>)
  then show ?thesis
    using strncpy_loop_source [OF assms]
    by (simp add: strncmp_zero_iff strncpy_def)
qed

lemma strncpy_strncmp_witness:
  "strncmp 200 100 14 (strncpy 100 200 (int 14) (\<lambda>a. if a < 203 then 97 else 0)) = 0"
  by (rule strncpy_strncmp) (simp_all add: apart_def)

text \<open>
  The user library's \<open>memmove\<close> copies upwards only: moving a range one byte
  up does not move it but fills the destination with its first byte.
\<close>

theorem ulib_memmove_smears:
  assumes "i < n" and "n < 2 ^ 31"
  shows "ulib_memmove (s + 1) s (int n) m (s + 1 + of_nat i) = m s"
proof -
  have fill: "copy_up (s + 1) s n m x = (if unat (x - (s + 1)) < n then m s else m x)"
    if "n < 2 ^ 31" for n s m and x :: u32
    using that
  proof (induction n arbitrary: s m)
    case (Suc n)
    have "s - (s + 1) = -1" by simp
    then have "unat (s - (s + 1)) = 2 ^ 32 - 1" by (simp only: unat_neg_one) simp
    then show ?case
      using Suc by (simp only: copy_up.simps off_Suc) auto
  qed simp
  have "unat (of_nat i :: u32) = i" using assms by (intro unat_of_nat_small) simp
  then show ?thesis using assms by (simp add: ulib_memmove_def fill)
qed

lemma ulib_memmove_smears_witness:
  "ulib_memmove (10 + 1) 10 (int 3) (\<lambda>a. ucast a) (10 + 1 + of_nat 2) = 10"
  using ulib_memmove_smears [of 2 3 10 "\<lambda>a. ucast a"] by simp

end
