(* ===== verification/Tokenizers.thy ===== *)
theory Tokenizers
  imports Prelude
begin

text \<open>
  The tokenizers of the three shell exercises (tokenizer.h of bash/base,
  bash/io and bash/pipe). A \<open>char*\<close> into the line is an index, the singly linked
  token list is a list, and \<open>malloc\<close> is assumed to succeed, as the code does.
  Each is proved equal to a lexer on the list of characters.
\<close>

section \<open>The loops shared by the three versions\<close>

definition is_ws :: "char \<Rightarrow> bool" where
  "is_ws c \<longleftrightarrow> c = CHR '' '' \<or> c = CHR 0x09 \<or> c = CHR 0x0A"

definition in_word :: "char \<Rightarrow> bool" where
  "in_word c \<longleftrightarrow> c \<noteq> NUL \<and> \<not> is_ws c"

record 'tok tokenizer =
  token_count :: nat
  head :: "'tok list"

lemma drop_scan: "drop (scan_while P s i) s = dropWhile P (drop i s)"
  by (simp add: scan_while_takeWhile dropWhile_eq_drop add.commute)

lemma take_scan: "take (scan_while P s i - i) (drop i s) = takeWhile P (drop i s)"
  by (simp add: scan_while_takeWhile takeWhile_eq_take [symmetric])

lemma chr_at_drop: "chr_at s i = (case drop i s of [] \<Rightarrow> NUL | c # _ \<Rightarrow> c)"
  by (cases "i < length s") (auto simp: chr_at_def Cons_nth_drop_Suc [symmetric])

lemma drop_Suc_eq: "drop i s = c # r \<Longrightarrow> drop (Suc i) s = r"
  by (metis drop_Suc list.sel(3) tl_drop)

lemma chr_at_not_NUL: "chr_at s i \<noteq> NUL \<Longrightarrow> i < length s"
  by (auto simp: chr_at_def split: if_splits)

lemma not_NUL_class [simp]: "\<not> is_ws NUL" "\<not> in_word NUL"
  by (simp_all add: is_ws_def in_word_def)

section \<open>bash/base\<close>

record token_base =
  start_b :: nat
  len_b :: nat

function TokenizerInit_base_loop ::
    "string \<Rightarrow> nat \<Rightarrow> nat \<Rightarrow> token_base list \<Rightarrow> token_base tokenizer" where
  "TokenizerInit_base_loop line i count acc =
     (let start = scan_while is_ws line i in
      if chr_at line start = NUL then \<lparr>token_count = count, head = acc\<rparr>
      else let i' = scan_while in_word line start in
           TokenizerInit_base_loop line i' (count + 1)
             (acc @ [\<lparr>start_b = start, len_b = i' - start\<rparr>]))"
  by pat_completeness auto

lemma word_advances:
  assumes "chr_at line (scan_while is_ws line i) \<noteq> NUL"
  shows "i < scan_while in_word line (scan_while is_ws line i)"
    and "i < length line"
proof -
  let ?j = "scan_while is_ws line i"
  from assms have j: "?j < length line" by (rule chr_at_not_NUL)
  then have "\<not> is_ws (line ! ?j)" by (rule scan_while_stops)
  with assms j have w: "in_word (line ! ?j)" by (simp add: in_word_def chr_at_def)
  have "?j < scan_while in_word line ?j" using j w by (rule scan_while_gt)
  then show "i < scan_while in_word line ?j"
    using scan_while_ge [of i is_ws line] by linarith
  show "i < length line" using j scan_while_ge [of i is_ws line] by linarith
qed

termination TokenizerInit_base_loop
  by (relation "measure (\<lambda>(line, i, _). length line - i)")
    (auto dest: word_advances intro: diff_less_mono2)

declare TokenizerInit_base_loop.simps [simp del]

definition TokenizerInit_base :: "string \<Rightarrow> token_base tokenizer" where
  "TokenizerInit_base line = TokenizerInit_base_loop line 0 0 []"

section \<open>bash/io and bash/pipe\<close>

datatype TokenType = TT_WORD | TT_INFILE | TT_OUTFILE | TT_PIPE

record token =
  start :: nat
  len :: nat
  ttype :: TokenType

text \<open>One token of bash/io starting at \<open>st\<close>: the \<open>switch\<close> on its first character.\<close>

definition next_token_io :: "string \<Rightarrow> nat \<Rightarrow> token \<times> nat" where
  "next_token_io line st =
     (let (ty, i') =
        (if chr_at line st = CHR ''<'' then (TT_INFILE, st + 1)
         else if chr_at line st = CHR ''>'' then (TT_OUTFILE, st + 1)
         else (TT_WORD, scan_while in_word line (st + 1)))
      in (\<lparr>start = st, len = i' - st, ttype = ty\<rparr>, i'))"

definition next_token_pipe :: "string \<Rightarrow> nat \<Rightarrow> token \<times> nat" where
  "next_token_pipe line st =
     (let (ty, i') =
        (if chr_at line st = CHR ''<'' then (TT_INFILE, st + 1)
         else if chr_at line st = CHR ''>'' then (TT_OUTFILE, st + 1)
         else if chr_at line st = CHR ''|'' then (TT_PIPE, st + 1)
         else (TT_WORD, scan_while in_word line (st + 1)))
      in (\<lparr>start = st, len = i' - st, ttype = ty\<rparr>, i'))"

lemma next_token_advances:
  "st < snd (next_token_io line st)" "st < snd (next_token_pipe line st)"
  using scan_while_ge [of "st + 1" in_word line]
  by (auto simp: next_token_io_def next_token_pipe_def Let_def)

function TokenizerInit_io_loop ::
    "string \<Rightarrow> nat \<Rightarrow> nat \<Rightarrow> token list \<Rightarrow> token tokenizer" where
  "TokenizerInit_io_loop line i count acc =
     (let st = scan_while is_ws line i in
      if chr_at line st = NUL then \<lparr>token_count = count, head = acc\<rparr>
      else TokenizerInit_io_loop line (snd (next_token_io line st)) (count + 1)
             (acc @ [fst (next_token_io line st)]))"
  by pat_completeness auto

lemma loop_decreases:
  assumes "chr_at line (scan_while is_ws line i) \<noteq> NUL" and "scan_while is_ws line i < k"
  shows "length line - k < length line - i"
  using chr_at_not_NUL [OF assms(1)] assms(2) scan_while_ge [of i is_ws line] by linarith

termination TokenizerInit_io_loop
  by (relation "measure (\<lambda>(line, i, _). length line - i)")
    (auto intro: loop_decreases next_token_advances)

function TokenizerInit_pipe_loop ::
    "string \<Rightarrow> nat \<Rightarrow> nat \<Rightarrow> token list \<Rightarrow> token tokenizer" where
  "TokenizerInit_pipe_loop line i count acc =
     (let st = scan_while is_ws line i in
      if chr_at line st = NUL then \<lparr>token_count = count, head = acc\<rparr>
      else TokenizerInit_pipe_loop line (snd (next_token_pipe line st)) (count + 1)
             (acc @ [fst (next_token_pipe line st)]))"
  by pat_completeness auto
termination TokenizerInit_pipe_loop
  by (relation "measure (\<lambda>(line, i, _). length line - i)")
    (auto intro: loop_decreases next_token_advances)

declare TokenizerInit_io_loop.simps [simp del] TokenizerInit_pipe_loop.simps [simp del]

definition TokenizerInit_io :: "string \<Rightarrow> token tokenizer" where
  "TokenizerInit_io line = TokenizerInit_io_loop line 0 0 []"

definition TokenizerInit_pipe :: "string \<Rightarrow> token tokenizer" where
  "TokenizerInit_pipe line = TokenizerInit_pipe_loop line 0 0 []"

section \<open>Reference lexers\<close>

text \<open>
  The lexers on character lists: skip blanks, then take an operator character
  or a word, up to the end of the line or an embedded NUL.
\<close>

function words_of :: "string \<Rightarrow> string list" where
  "words_of s =
     (case dropWhile is_ws s of [] \<Rightarrow> []
      | c # r \<Rightarrow> if c = NUL then []
                else takeWhile in_word (c # r) # words_of (dropWhile in_word r))"
  by pat_completeness auto

lemma dropWhile_shrinks: "dropWhile P s = c # r \<Longrightarrow> length (dropWhile Q r) < length s"
  by (metis dropWhile_eq_drop length_Cons length_drop less_Suc_eq_le diff_le_self
      order.strict_trans2 le_imp_less_Suc length_dropWhile_le)

termination words_of
  by (relation "measure length") (auto dest: dropWhile_shrinks)

fun operators :: "bool \<Rightarrow> char \<Rightarrow> TokenType option" where
  "operators pipes c =
     (if c = CHR ''<'' then Some TT_INFILE
      else if c = CHR ''>'' then Some TT_OUTFILE
      else if pipes \<and> c = CHR ''|'' then Some TT_PIPE else None)"

function lexer :: "bool \<Rightarrow> string \<Rightarrow> (TokenType \<times> string) list" where
  "lexer pipes s =
     (case dropWhile is_ws s of [] \<Rightarrow> []
      | c # r \<Rightarrow> if c = NUL then []
         else case operators pipes c of
           Some ty \<Rightarrow> (ty, [c]) # lexer pipes r
         | None \<Rightarrow> (TT_WORD, c # takeWhile in_word r) # lexer pipes (dropWhile in_word r))"
  by pat_completeness auto
termination lexer
  by (relation "measure (\<lambda>(_, s). length s)")
    (auto dest: dropWhile_shrinks [where Q = "\<lambda>_. False"] dropWhile_shrinks)

declare words_of.simps [simp del] lexer.simps [simp del]

definition text_of :: "string \<Rightarrow> token \<Rightarrow> string" where
  "text_of line t = take (len t) (drop (start t) line)"

definition lexeme :: "string \<Rightarrow> token \<Rightarrow> TokenType \<times> string" where
  "lexeme line t = (ttype t, text_of line t)"

definition text_b :: "string \<Rightarrow> token_base \<Rightarrow> string" where
  "text_b line t = take (len_b t) (drop (start_b t) line)"

text \<open>The list of characters at the position where the loop finds its next token.\<close>

lemma at_token:
  assumes "st = scan_while is_ws line i"
  shows "chr_at line st = (case dropWhile is_ws (drop i line) of [] \<Rightarrow> NUL | c # _ \<Rightarrow> c)"
    and "drop st line = dropWhile is_ws (drop i line)"
  using assms by (simp_all add: chr_at_drop drop_scan)

lemma TokenizerInit_base_loop_words:
  "\<exists>toks. TokenizerInit_base_loop line i count acc
      = \<lparr>token_count = count + length toks, head = acc @ toks\<rparr>
    \<and> map (text_b line) toks = words_of (drop i line)"
proof (induction line i count acc rule: TokenizerInit_base_loop.induct)
  case (1 line i count acc)
  define st where "st = scan_while is_ws line i"
  note tok = at_token [OF st_def]
  show ?case
  proof (cases "chr_at line st = NUL")
    case True
    then have "words_of (drop i line) = []"
      unfolding tok
      by (subst words_of.simps) (cases "dropWhile is_ws (drop i line)", simp_all del: dropWhile_eq_Nil_conv)
    with True show ?thesis
      by (subst TokenizerInit_base_loop.simps) (simp add: st_def)
  next
    case False
    define i' where "i' = scan_while in_word line st"
    then obtain c r where cr: "dropWhile is_ws (drop i line) = c # r" "c \<noteq> NUL"
      using False tok(1) by (auto split: list.splits)
    then have c: "in_word c" by (metis in_word_def dropWhile_eq_Cons_conv)
    have "words_of (drop i line) = takeWhile in_word (c # r) # words_of (dropWhile in_word r)"
      using cr by (subst words_of.simps) simp
    moreover have "takeWhile in_word (c # r) = take (i' - st) (drop st line)"
      using take_scan [of in_word line st] by (simp only: tok(2) cr(1) i'_def)
    moreover have "drop i' line = dropWhile in_word r"
      unfolding i'_def by (simp add: drop_scan tok cr c)
    ultimately have w: "words_of (drop i line)
        = text_b line \<lparr>start_b = st, len_b = i' - st\<rparr> # words_of (drop i' line)"
      by (simp add: text_b_def)
    from 1 [OF st_def] False obtain toks where
      "TokenizerInit_base_loop line i' (count + 1) (acc @ [\<lparr>start_b = st, len_b = i' - st\<rparr>])
        = \<lparr>token_count = count + 1 + length toks,
           head = (acc @ [\<lparr>start_b = st, len_b = i' - st\<rparr>]) @ toks\<rparr>"
      "map (text_b line) toks = words_of (drop i' line)"
      unfolding i'_def by blast
    then show ?thesis
      using False w by (subst TokenizerInit_base_loop.simps)
        (auto simp: Let_def st_def [symmetric] i'_def [symmetric]
          intro!: exI [of _ "\<lparr>start_b = st, len_b = i' - st\<rparr> # toks"])
  qed
qed

text \<open>One token of the lexer is one step of either loop.\<close>

lemma next_token_lex:
  assumes st: "st = scan_while is_ws line i" and "chr_at line st \<noteq> NUL"
    and nt: "(t, i') = (if pipes then next_token_pipe line st else next_token_io line st)"
  shows "lexer pipes (drop i line) = lexeme line t # lexer pipes (drop i' line)"
proof -
  note tok = at_token [OF st]
  obtain c r where cr: "dropWhile is_ws (drop i line) = c # r" "c \<noteq> NUL"
    using assms(2) tok(1) by (auto split: list.splits)
  then have c: "chr_at line st = c" and d: "drop st line = c # r"
    using tok by simp_all
  then have d1: "drop (Suc st) line = r" by (simp add: drop_Suc_eq)
  show ?thesis
  proof (cases "operators pipes c")
    case None
    then have "(t, i') = (\<lparr>start = st, len = scan_while in_word line (st + 1) - st,
        ttype = TT_WORD\<rparr>, scan_while in_word line (st + 1))"
      using nt c by (auto simp: next_token_pipe_def next_token_io_def split: if_splits)
    moreover have "take (scan_while in_word line (st + 1) - st) (drop st line)
        = c # takeWhile in_word r"
    proof -
      have "scan_while in_word line (st + 1) - st = Suc (length (takeWhile in_word r))"
        by (simp add: scan_while_takeWhile d1)
      then show ?thesis by (simp add: d takeWhile_eq_take [symmetric])
    qed
    moreover have "drop (scan_while in_word line (st + 1)) line = dropWhile in_word r"
      by (simp add: drop_scan d1)
    ultimately show ?thesis
      using None cr by (subst lexer.simps) (simp add: lexeme_def text_of_def)
  next
    case (Some ty)
    then have "(t, i') = (\<lparr>start = st, len = 1, ttype = ty\<rparr>, st + 1)"
      using nt c by (auto simp: next_token_pipe_def next_token_io_def split: if_splits)
    then show ?thesis
      using Some cr d d1 by (subst lexer.simps) (simp add: lexeme_def text_of_def)
  qed
qed

lemma lex_end:
  "chr_at line (scan_while is_ws line i) = NUL \<Longrightarrow> lexer pipes (drop i line) = []"
  by (subst lexer.simps) (cases "dropWhile is_ws (drop i line)", simp_all add: at_token(1) [OF refl] del: dropWhile_eq_Nil_conv)

lemma TokenizerInit_io_loop_lex:
  "\<exists>toks. TokenizerInit_io_loop line i count acc
      = \<lparr>token_count = count + length toks, head = acc @ toks\<rparr>
    \<and> map (lexeme line) toks = lexer False (drop i line)"
proof (induction line i count acc rule: TokenizerInit_io_loop.induct)
  case (1 line i count acc)
  let ?st = "scan_while is_ws line i"
  obtain t i' where t: "next_token_io line ?st = (t, i')" by fastforce
  show ?case
  proof (cases "chr_at line ?st = NUL")
    case True
    then show ?thesis
      by (subst TokenizerInit_io_loop.simps) (simp add: lex_end)
  next
    case False
    from 1 [OF refl False] t obtain toks where
      "TokenizerInit_io_loop line i' (count + 1) (acc @ [t])
        = \<lparr>token_count = count + 1 + length toks, head = (acc @ [t]) @ toks\<rparr>"
      "map (lexeme line) toks = lexer False (drop i' line)" by auto
    then show ?thesis
      using False t next_token_lex [of ?st line i t i' False]
      by (subst TokenizerInit_io_loop.simps) (auto simp: Let_def intro!: exI [of _ "t # toks"])
  qed
qed

lemma TokenizerInit_pipe_loop_lex:
  "\<exists>toks. TokenizerInit_pipe_loop line i count acc
      = \<lparr>token_count = count + length toks, head = acc @ toks\<rparr>
    \<and> map (lexeme line) toks = lexer True (drop i line)"
proof (induction line i count acc rule: TokenizerInit_pipe_loop.induct)
  case (1 line i count acc)
  let ?st = "scan_while is_ws line i"
  obtain t i' where t: "next_token_pipe line ?st = (t, i')" by fastforce
  show ?case
  proof (cases "chr_at line ?st = NUL")
    case True
    then show ?thesis
      by (subst TokenizerInit_pipe_loop.simps) (simp add: lex_end)
  next
    case False
    from 1 [OF refl False] t obtain toks where
      "TokenizerInit_pipe_loop line i' (count + 1) (acc @ [t])
        = \<lparr>token_count = count + 1 + length toks, head = (acc @ [t]) @ toks\<rparr>"
      "map (lexeme line) toks = lexer True (drop i' line)" by auto
    then show ?thesis
      using False t next_token_lex [of ?st line i t i' True]
      by (subst TokenizerInit_pipe_loop.simps) (auto simp: Let_def intro!: exI [of _ "t # toks"])
  qed
qed

section \<open>Properties\<close>

text \<open>
  The tokenizer of bash/base splits every line into its words: the tokens
  point at the maximal runs of characters other than blank, tab and newline, in
  order, and \<open>token_count\<close> is their number.
\<close>

theorem TokenizerInit_base_words:
  "map (text_b line) (head (TokenizerInit_base line)) = words_of line
   \<and> token_count (TokenizerInit_base line) = length (words_of line)"
proof -
  obtain toks where "TokenizerInit_base line = \<lparr>token_count = length toks, head = toks\<rparr>"
    "map (text_b line) toks = words_of line"
    using TokenizerInit_base_loop_words [of line 0 0 "[]"] by (auto simp: TokenizerInit_base_def)
  then show ?thesis by (metis length_map tokenizer.select_convs)
qed

text \<open>
  The tokenizer of bash/io is the lexer with the operators \<open><\<close> and \<open>>\<close>: types
  and texts of its tokens are those of the reference lexer, and \<open>token_count\<close> is
  their number.
\<close>

theorem TokenizerInit_io_lex:
  "map (lexeme line) (head (TokenizerInit_io line)) = lexer False line
   \<and> token_count (TokenizerInit_io line) = length (lexer False line)"
proof -
  obtain toks where "TokenizerInit_io line = \<lparr>token_count = length toks, head = toks\<rparr>"
    "map (lexeme line) toks = lexer False line"
    using TokenizerInit_io_loop_lex [of line 0 0 "[]"] by (auto simp: TokenizerInit_io_def)
  then show ?thesis by (metis length_map tokenizer.select_convs)
qed

text \<open>The same for bash/pipe, whose lexer also knows the operator \<open>|\<close>.\<close>

theorem TokenizerInit_pipe_lex:
  "map (lexeme line) (head (TokenizerInit_pipe line)) = lexer True line
   \<and> token_count (TokenizerInit_pipe line) = length (lexer True line)"
proof -
  obtain toks where "TokenizerInit_pipe line = \<lparr>token_count = length toks, head = toks\<rparr>"
    "map (lexeme line) toks = lexer True line"
    using TokenizerInit_pipe_loop_lex [of line 0 0 "[]"] by (auto simp: TokenizerInit_pipe_def)
  then show ?thesis by (metis length_map tokenizer.select_convs)
qed

end
