(* ===== verification/Bash.thy ===== *)
theory Bash
  imports Tokenizers
begin

text \<open>
  The three shells (bash.h of bash/base, bash/io, bash/pipe) on top of their
  tokenizers. Descriptor tables are POSIX tables: a list of optional objects,
  \<open>open\<close>, \<open>dup\<close> and \<open>pipe\<close> take the lowest free index. What the machine
  provides is a parameter: \<open>can_open path flags\<close> tells whether \<open>open\<close> succeeds
  and \<open>runs argv\<close> whether \<open>execvp\<close> replaces the process. A child that \<open>execvp\<close>
  does not replace returns from \<open>Exec\<close> into the shell's main loop.
\<close>

section \<open>POSIX descriptor tables\<close>

datatype fobj = StdIn | StdOut | StdErr | FileObj string nat | PipeR nat | PipeW nat

type_synonym fdtab = "fobj option list"

definition fd_get :: "int \<Rightarrow> fdtab \<Rightarrow> fobj option" where
  "fd_get fd t = (if 0 \<le> fd \<and> nat fd < length t then t ! nat fd else None)"

definition fd_alloc :: "fobj \<Rightarrow> fdtab \<Rightarrow> int \<times> fdtab" where
  "fd_alloc x t = (case first_index (\<lambda>y. y = None) t of None \<Rightarrow> (- 1, t)
     | Some i \<Rightarrow> (int i, t[i := Some x]))"

definition fd_close :: "int \<Rightarrow> fdtab \<Rightarrow> fdtab" where
  "fd_close fd t = (if 0 \<le> fd then t[nat fd := None] else t)"

definition fd_dup :: "int \<Rightarrow> fdtab \<Rightarrow> int \<times> fdtab" where
  "fd_dup old t = (case fd_get old t of None \<Rightarrow> (- 1, t) | Some x \<Rightarrow> fd_alloc x t)"

definition fd_dup2 :: "int \<Rightarrow> int \<Rightarrow> fdtab \<Rightarrow> fdtab" where
  "fd_dup2 old new t = (case fd_get old t of None \<Rightarrow> t
     | Some x \<Rightarrow> if 0 \<le> new then t[nat new := Some x] else t)"

definition fd_pipe :: "nat \<Rightarrow> fdtab \<Rightarrow> ((int \<times> int) \<times> fdtab) option" where
  "fd_pipe k t =
     (let (r, t1) = fd_alloc (PipeR k) t; (w, t2) = fd_alloc (PipeW k) t1
      in if r = - 1 \<or> w = - 1 then None else Some ((r, w), t2))"

definition STDIN_FILENO :: int where "STDIN_FILENO = 0"
definition STDOUT_FILENO :: int where "STDOUT_FILENO = 1"
definition O_RDONLY :: nat where "O_RDONLY = 0"
definition O_WRONLY :: nat where "O_WRONLY = 1"
definition O_CREAT :: nat where "O_CREAT = 64"

section \<open>bash/base\<close>

text \<open>What became of a child: it runs a program, or it is back in the shell's loop.\<close>

datatype fate = Runs "string list" fdtab | BackInShell fdtab string

definition COMMAND_NF :: string where "COMMAND_NF = ''Command not found'' @ [CHR 0x0A]"
definition IO_ERROR :: string where "IO_ERROR = ''I/O error'' @ [CHR 0x0A]"
definition SYNTAX_ERROR :: string where "SYNTAX_ERROR = ''Syntax error'' @ [CHR 0x0A]"

text \<open>
  \<open>argv\<close> arrays: \<open>argc + 1\<close> pointers, \<open>None\<close> being NULL. A NULL token followed is
  a fault, the outer \<open>None\<close>.
\<close>

fun GetArgv_base_loop :: "string \<Rightarrow> token_base list \<Rightarrow> nat \<Rightarrow> string list option" where
  "GetArgv_base_loop line ts 0 = Some []"
| "GetArgv_base_loop line [] (Suc n) = None"
| "GetArgv_base_loop line (t # ts) (Suc n) =
     map_option (Cons (text_b line t)) (GetArgv_base_loop line ts n)"

definition GetArgv_base :: "string \<Rightarrow> token_base tokenizer \<Rightarrow> string option list option" where
  "GetArgv_base line tk =
     map_option (\<lambda>args. map Some args @ [None])
       (GetArgv_base_loop line (head tk) (token_count tk))"

text \<open>The arguments a program sees: the array up to its first NULL.\<close>

definition args_of :: "string option list \<Rightarrow> string list" where
  "args_of argv = map the (takeWhile (\<lambda>a. a \<noteq> None) argv)"

definition Exec_base ::
    "(string list \<Rightarrow> bool) \<Rightarrow> string \<Rightarrow> token_base tokenizer \<Rightarrow> fdtab \<Rightarrow> fate list option" where
  "Exec_base runs line tk t =
     (if token_count tk = 0 then Some []
      else case GetArgv_base line tk of None \<Rightarrow> None
        | Some argv \<Rightarrow>
            if runs (args_of argv) then Some [Runs (args_of argv) t]
            else Some [BackInShell t COMMAND_NF])"

section \<open>Descriptors managed by bash/io and bash/pipe\<close>

record FdManager =
  used_std :: int
  saved_std :: int
  opened_fd :: int

definition posix_open ::
    "(string \<Rightarrow> nat \<Rightarrow> bool) \<Rightarrow> string \<Rightarrow> nat \<Rightarrow> fdtab \<Rightarrow> int \<times> fdtab" where
  "posix_open can_open path flags t =
     (if can_open path flags then fd_alloc (FileObj path flags) t else (- 1, t))"

text \<open>\<open>Dup\<close> of bash/pipe and the successful half of \<open>Dup\<close> of bash/io.\<close>

definition Dup :: "FdManager \<Rightarrow> fdtab \<Rightarrow> FdManager \<times> fdtab" where
  "Dup m t = (let (s, t) = fd_dup (used_std m) t; m = m\<lparr>saved_std := s\<rparr>
              in (m, fd_dup2 (opened_fd m) (used_std m) t))"

definition DupWithOpen ::
    "(string \<Rightarrow> nat \<Rightarrow> bool) \<Rightarrow> FdManager \<Rightarrow> bool \<Rightarrow> string \<Rightarrow> nat \<Rightarrow> fdtab
      \<Rightarrow> FdManager \<times> bool \<times> fdtab" where
  "DupWithOpen can_open m io_error path flags t =
     (let (fd, t) = posix_open can_open path flags t; m = m\<lparr>opened_fd := fd\<rparr>
      in if opened_fd m = - 1 then (m, True, t)
         else let (s, t) = fd_dup (used_std m) t; m = m\<lparr>saved_std := s\<rparr>
              in (m, io_error, fd_dup2 (opened_fd m) (used_std m) t))"

definition ResetStdIO :: "FdManager \<Rightarrow> fdtab \<Rightarrow> fdtab" where
  "ResetStdIO m t =
     (let t = (if saved_std m \<noteq> - 1
               then fd_close (saved_std m) (fd_dup2 (saved_std m) (used_std m) t) else t)
      in if opened_fd m \<noteq> - 1 then fd_close (opened_fd m) t else t)"

definition PreparePath :: "string \<Rightarrow> token \<Rightarrow> string" where
  "PreparePath line t = text_of line t"

section \<open>bash/io\<close>

text \<open>\<open>CheckIOSyntax\<close> sees the token and its \<open>next\<close>: (syntax error, changed).\<close>

definition CheckIOSyntax :: "token list \<Rightarrow> bool \<Rightarrow> bool \<Rightarrow> bool \<times> bool" where
  "CheckIOSyntax next_toks syntax_error token_changed =
     ((if token_changed \<or> next_toks = [] \<or> ttype (hd next_toks) \<noteq> TT_WORD then True
       else syntax_error), True)"

fun CheckSyntax_loop :: "token list \<Rightarrow> bool \<Rightarrow> bool \<Rightarrow> bool \<Rightarrow> bool" where
  "CheckSyntax_loop [] err outc inc = err"
| "CheckSyntax_loop (t # ts) err outc inc =
     (case ttype t of
        TT_INFILE \<Rightarrow> let (err, inc) = CheckIOSyntax ts err inc in CheckSyntax_loop ts err outc inc
      | TT_OUTFILE \<Rightarrow> let (err, outc) = CheckIOSyntax ts err outc in CheckSyntax_loop ts err outc inc
      | _ \<Rightarrow> CheckSyntax_loop ts err outc inc)"

definition CheckSyntax :: "token tokenizer \<Rightarrow> bool \<Rightarrow> bool" where
  "CheckSyntax tk err = CheckSyntax_loop (head tk) err False False"

text \<open>
  \<open>CheckIOAndOpenFiles\<close>: after \<open><\<close> the walk continues at the file name, which is
  then counted as an argument; after \<open>>\<close> it continues behind the file name.
\<close>

fun CheckIOAndOpenFiles ::
    "(string \<Rightarrow> nat \<Rightarrow> bool) \<Rightarrow> string \<Rightarrow> token list \<Rightarrow> nat \<Rightarrow> FdManager \<Rightarrow> FdManager
      \<Rightarrow> bool \<Rightarrow> fdtab \<Rightarrow> (nat \<times> FdManager \<times> FdManager \<times> bool \<times> fdtab) option" where
  "CheckIOAndOpenFiles co line [] argc im om err t = Some (argc, im, om, err, t)"
| "CheckIOAndOpenFiles co line (x # ts) argc im om err t =
     (case ttype x of
        TT_INFILE \<Rightarrow>
          (case ts of [] \<Rightarrow> None
           | f # _ \<Rightarrow>
             let (im, err, t) = DupWithOpen co im err (PreparePath line f) O_RDONLY t
             in CheckIOAndOpenFiles co line ts argc im om err t)
      | TT_OUTFILE \<Rightarrow>
          (case ts of [] \<Rightarrow> None
           | f # ts' \<Rightarrow>
             let (om, err, t) = DupWithOpen co om err (PreparePath line f) (O_WRONLY + O_CREAT) t
             in CheckIOAndOpenFiles co line ts' argc im om err t)
      | _ \<Rightarrow> CheckIOAndOpenFiles co line ts (argc + 1) im om err t)"

text \<open>
  \<open>GetArgv\<close> of bash/io: the words written from index 0 on into an array of
  \<open>argc + 1\<close> NULL pointers. \<open>None\<close> is a NULL dereference or a write past the array.
\<close>

fun GetArgv_io_words :: "string \<Rightarrow> token list \<Rightarrow> string list option" where
  "GetArgv_io_words line [] = Some []"
| "GetArgv_io_words line (x # ts) =
     (if ttype x \<noteq> TT_WORD then (case ts of [] \<Rightarrow> None | _ # ts' \<Rightarrow> GetArgv_io_words line ts')
      else map_option (Cons (text_of line x)) (GetArgv_io_words line ts))"

definition GetArgv_io :: "string \<Rightarrow> token tokenizer \<Rightarrow> nat \<Rightarrow> string option list option" where
  "GetArgv_io line tk argc =
     (case GetArgv_io_words line (head tk) of None \<Rightarrow> None
      | Some ws \<Rightarrow> if length ws \<le> argc + 1
                  then Some (map Some ws @ replicate (argc + 1 - length ws) None) else None)"

text \<open>
  The clean-up loop \<open>for (i = 0; i < token_count; ++i) free(argv[i])\<close>: \<open>None\<close> when
  it reads a slot the array does not have.
\<close>

definition free_argv :: "nat \<Rightarrow> string option list \<Rightarrow> unit option" where
  "free_argv n argv = (if n \<le> length argv then Some () else None)"

definition Exec_io ::
    "(string \<Rightarrow> nat \<Rightarrow> bool) \<Rightarrow> (string list \<Rightarrow> bool) \<Rightarrow> string \<Rightarrow> token tokenizer \<Rightarrow> fdtab
      \<Rightarrow> fate list option" where
  "Exec_io can_open runs line tk t =
     (if token_count tk = 0 then Some []
      else if CheckSyntax tk False then Some [BackInShell t SYNTAX_ERROR]
      else
        (case CheckIOAndOpenFiles can_open line (head tk) 0
            \<lparr>used_std = STDIN_FILENO, saved_std = - 1, opened_fd = - 1\<rparr>
            \<lparr>used_std = STDOUT_FILENO, saved_std = - 1, opened_fd = - 1\<rparr> False t of
           None \<Rightarrow> None
         | Some (argc, im, om, io_error, t) \<Rightarrow>
             if io_error
             then Some [BackInShell (ResetStdIO om (ResetStdIO im t)) IO_ERROR]
             else
               (case GetArgv_io line tk argc of None \<Rightarrow> None
                | Some argv \<Rightarrow>
                    if runs (args_of argv) then Some [Runs (args_of argv) t]
                    else map_option
                      (\<lambda>_. [BackInShell (ResetStdIO om (ResetStdIO im t)) COMMAND_NF])
                      (free_argv (token_count tk) argv))))"

text \<open>
  The clean-up of bash/io after a failed \<open>execvp\<close> runs over \<open>token_count\<close> slots of
  an array of \<open>argc + 1\<close>: with an output redirection it reads past the array.
\<close>

lemma Exec_io_frees_past_argv:
  "Exec_io (\<lambda>_ _. True) (\<lambda>_. False) ''a > b'' (TokenizerInit_io ''a > b'')
     [Some StdIn, Some StdOut, None, None, None] = None"
  by code_simp

text \<open>A command \<open>execvp\<close> cannot run leaves the child in the shell's main loop.\<close>

lemma Exec_base_child_survives:
  "token_count tk \<noteq> 0 \<Longrightarrow> GetArgv_base line tk = Some argv \<Longrightarrow>
   Exec_base (\<lambda>_. False) line tk t = Some [BackInShell t COMMAND_NF]"
  by (simp add: Exec_base_def)

end
