(* ===== verification/Bash_Pipe.thy ===== *)
theory Bash_Pipe
  imports Bash
begin

text \<open>
  The pipeline shell (bash/pipe/bash.h): splitting a token list into commands,
  validating redirections, and starting one child per command. A pointer to a
  token is the list of the tokens from it on; the outer \<open>None\<close> of an option is
  a NULL dereference or a failed \<open>assert\<close>.
\<close>

section \<open>Commands of a line\<close>

fun IsCommandEnd :: "token list \<Rightarrow> bool" where
  "IsCommandEnd [] = True"
| "IsCommandEnd (t # _) = (ttype t = TT_PIPE)"

fun GetArgc :: "token list \<Rightarrow> nat option" where
  "GetArgc [] = Some 0"
| "GetArgc (t # ts) =
     (if IsCommandEnd (t # ts) then Some 0
      else case ttype t of
        TT_WORD \<Rightarrow> map_option Suc (GetArgc ts)
      | _ \<Rightarrow> (case ts of [] \<Rightarrow> None | _ # ts' \<Rightarrow> GetArgc ts'))"

fun GetArgv_words :: "string \<Rightarrow> token list \<Rightarrow> string list option" where
  "GetArgv_words line [] = Some []"
| "GetArgv_words line (t # ts) =
     (if IsCommandEnd (t # ts) then Some []
      else case ttype t of
        TT_WORD \<Rightarrow> map_option (Cons (text_of line t)) (GetArgv_words line ts)
      | _ \<Rightarrow> (case ts of [] \<Rightarrow> None | _ # ts' \<Rightarrow> GetArgv_words line ts'))"

text \<open>\<open>calloc(argc + 1)\<close> filled from 0; a write past the array is \<open>None\<close>.\<close>

definition GetArgv :: "string \<Rightarrow> token list \<Rightarrow> string option list option" where
  "GetArgv line command =
     (case GetArgc command of None \<Rightarrow> None
      | Some argc \<Rightarrow>
          (case GetArgv_words line command of None \<Rightarrow> None
           | Some ws \<Rightarrow> if length ws \<le> argc + 1
                       then Some (map Some ws @ replicate (argc + 1 - length ws) None)
                       else None))"

text \<open>The first loop of \<open>SplitInCommands\<close> counts the commands, the second finds them.\<close>

fun count_pipes :: "token list \<Rightarrow> nat" where
  "count_pipes [] = 0"
| "count_pipes (t # ts) = (if ttype t = TT_PIPE then Suc (count_pipes ts) else count_pipes ts)"

fun split_loop :: "token list \<Rightarrow> token list list option" where
  "split_loop [] = Some []"
| "split_loop (t # ts) =
     (if ttype t = TT_PIPE
      then if ts = [] \<or> ttype (hd ts) = TT_PIPE then None
           else map_option (Cons ts) (split_loop ts)
      else split_loop ts)"

datatype split_result = SplitSyntaxError | Commands "token list list" nat

definition SplitInCommands :: "token list \<Rightarrow> split_result option" where
  "SplitInCommands toks =
     (let commands_cnt = 1 + count_pipes toks in
      case toks of [] \<Rightarrow> None
      | t # _ \<Rightarrow>
          if ttype t = TT_PIPE then Some SplitSyntaxError
          else case split_loop toks of None \<Rightarrow> Some SplitSyntaxError
            | Some rest \<Rightarrow> Some (Commands (toks # rest) commands_cnt))"

definition ValidateIOSyntax :: "token list \<Rightarrow> bool \<Rightarrow> bool \<Rightarrow> bool \<Rightarrow> bool \<times> bool" where
  "ValidateIOSyntax next_toks syntax_error token_changed permitted =
     ((if \<not> permitted \<or> token_changed \<or> next_toks = [] \<or> ttype (hd next_toks) \<noteq> TT_WORD
       then True else syntax_error), True)"

fun ValidateCommand_loop :: "token list \<Rightarrow> bool \<Rightarrow> bool \<Rightarrow> bool \<Rightarrow> bool \<Rightarrow> bool \<Rightarrow> bool" where
  "ValidateCommand_loop [] err outc inc fstc lstc = err"
| "ValidateCommand_loop (t # ts) err outc inc fstc lstc =
     (if IsCommandEnd (t # ts) \<or> err then err
      else case ttype t of
        TT_INFILE \<Rightarrow> let (err, inc) = ValidateIOSyntax ts err inc fstc
                     in ValidateCommand_loop ts err outc inc fstc lstc
      | TT_OUTFILE \<Rightarrow> let (err, outc) = ValidateIOSyntax ts err outc lstc
                      in ValidateCommand_loop ts err outc inc fstc lstc
      | _ \<Rightarrow> ValidateCommand_loop ts err outc inc fstc lstc)"

definition ValidateCommandSyntax :: "token list \<Rightarrow> bool \<Rightarrow> bool \<Rightarrow> bool \<Rightarrow> bool" where
  "ValidateCommandSyntax command err fstc lstc =
     ValidateCommand_loop command err False False fstc lstc"

fun ValidateIOAndOpenFile_loop ::
    "(string \<Rightarrow> nat \<Rightarrow> bool) \<Rightarrow> string \<Rightarrow> token list \<Rightarrow> FdManager \<Rightarrow> bool \<Rightarrow> bool \<Rightarrow> bool
      \<Rightarrow> fdtab \<Rightarrow> (FdManager \<times> bool \<times> fdtab) option" where
  "ValidateIOAndOpenFile_loop co line [] m err fstc lstc t = Some (m, err, t)"
| "ValidateIOAndOpenFile_loop co line (x # ts) m err fstc lstc t =
     (if IsCommandEnd (x # ts) then Some (m, err, t)
      else case ttype x of
        TT_INFILE \<Rightarrow>
          (case ts of [] \<Rightarrow> None
           | f # ts' \<Rightarrow>
             let (m, err, t) = (if fstc then DupWithOpen co m err (PreparePath line f) O_RDONLY t
                                else (m, err, t))
             in ValidateIOAndOpenFile_loop co line ts' m err fstc lstc t)
      | TT_OUTFILE \<Rightarrow>
          (case ts of [] \<Rightarrow> None
           | f # ts' \<Rightarrow>
             let (m, err, t) = (if lstc then DupWithOpen co m err (PreparePath line f)
                                  (O_WRONLY + O_CREAT) t else (m, err, t))
             in ValidateIOAndOpenFile_loop co line ts' m err fstc lstc t)
      | _ \<Rightarrow> ValidateIOAndOpenFile_loop co line ts m err fstc lstc t)"

definition ValidateIOAndOpenFile ::
    "(string \<Rightarrow> nat \<Rightarrow> bool) \<Rightarrow> string \<Rightarrow> token list \<Rightarrow> FdManager \<Rightarrow> bool \<Rightarrow> bool \<Rightarrow> bool
      \<Rightarrow> fdtab \<Rightarrow> (FdManager \<times> bool \<times> fdtab) option" where
  "ValidateIOAndOpenFile co line command m io_error fstc lstc t =
     (if io_error then Some (m, io_error, t)
      else ValidateIOAndOpenFile_loop co line command m io_error fstc lstc t)"

section \<open>Exec\<close>

text \<open>The branch of the child that runs command \<open>i\<close> of \<open>n\<close>.\<close>

definition run_child ::
    "(string \<Rightarrow> nat \<Rightarrow> bool) \<Rightarrow> (string list \<Rightarrow> bool) \<Rightarrow> string \<Rightarrow> token list list \<Rightarrow> nat \<Rightarrow> nat
      \<Rightarrow> int \<Rightarrow> int \<Rightarrow> fdtab \<Rightarrow> fate option" where
  "run_child co runs line commands n i in_fd pipe_w t =
     (let im = \<lparr>used_std = STDIN_FILENO, saved_std = - 1, opened_fd = in_fd\<rparr>;
          om = \<lparr>used_std = STDOUT_FILENO, saved_std = - 1, opened_fd = pipe_w\<rparr>
      in case (if i = 0 then ValidateIOAndOpenFile co line (commands ! 0) im False True False t
               else let (im, t) = Dup im t in Some (im, False, t)) of
           None \<Rightarrow> None
         | Some (im, io_error, t) \<Rightarrow>
             if io_error then Some (BackInShell (ResetStdIO om (ResetStdIO im t)) IO_ERROR)
             else case (if i = n - 1
                        then ValidateIOAndOpenFile co line (commands ! (n - 1)) om False False True t
                        else let (om, t) = Dup om t in Some (om, False, t)) of
               None \<Rightarrow> None
             | Some (om, io_error, t) \<Rightarrow>
                 if io_error then Some (BackInShell (ResetStdIO om (ResetStdIO im t)) IO_ERROR)
                 else case GetArgv line (commands ! i) of
                   None \<Rightarrow> None
                 | Some argv \<Rightarrow>
                     if runs (args_of argv) then Some (Runs (args_of argv) t)
                     else Some (BackInShell (ResetStdIO om (ResetStdIO im t)) COMMAND_NF))"

text \<open>What \<open>Exec\<close> did: the parent's message, the fates of its children, its table.\<close>

record exec_result =
  printed :: string
  children :: "fate list"
  parent_fds :: fdtab

text \<open>The loop over the commands; pipe \<open>i\<close> of this line is numbered \<open>base + i\<close>.\<close>

function Exec_loop ::
    "(string \<Rightarrow> nat \<Rightarrow> bool) \<Rightarrow> (string list \<Rightarrow> bool) \<Rightarrow> string \<Rightarrow> token list list \<Rightarrow> nat \<Rightarrow> nat
      \<Rightarrow> nat \<Rightarrow> int \<Rightarrow> fdtab \<Rightarrow> fate list \<Rightarrow> exec_result option" where
  "Exec_loop co runs line commands n base i in_fd t kids =
     (if i < n
      then (case fd_pipe (base + i) t of
          None \<Rightarrow> Some \<lparr>printed = ''cannot do pipe'', children = kids, parent_fds = t\<rparr>
        | Some ((r, w), t) \<Rightarrow>
            (case run_child co runs line commands n i in_fd w t of
               None \<Rightarrow> None
             | Some kid \<Rightarrow>
                 Exec_loop co runs line commands n base (i + 1) r (fd_close w t) (kids @ [kid])))
      else Some \<lparr>printed = [], children = kids, parent_fds = t\<rparr>)"
  by pat_completeness auto
termination by (relation "measure (\<lambda>(_, _, _, _, n, _, i, _). n - i)") auto

declare Exec_loop.simps [simp del]

text \<open>The loop that validates every command, stopping at the first error.\<close>

fun Validate_all :: "token list list \<Rightarrow> nat \<Rightarrow> nat \<Rightarrow> bool \<Rightarrow> bool" where
  "Validate_all [] i n err = err"
| "Validate_all (c # cs) i n err =
     (if err then err
      else Validate_all cs (i + 1) n (ValidateCommandSyntax c err (i = 0) (i = n - 1)))"

definition Exec ::
    "(string \<Rightarrow> nat \<Rightarrow> bool) \<Rightarrow> (string list \<Rightarrow> bool) \<Rightarrow> string \<Rightarrow> nat \<Rightarrow> token tokenizer \<Rightarrow> fdtab
      \<Rightarrow> exec_result option" where
  "Exec co runs line base tk t =
     (if token_count tk = 0 then Some \<lparr>printed = [], children = [], parent_fds = t\<rparr>
      else case SplitInCommands (head tk) of
        None \<Rightarrow> None
      | Some SplitSyntaxError \<Rightarrow>
          Some \<lparr>printed = SYNTAX_ERROR, children = [], parent_fds = t\<rparr>
      | Some (Commands commands n) \<Rightarrow>
          if Validate_all commands 0 n False
          then Some \<lparr>printed = SYNTAX_ERROR, children = [], parent_fds = t\<rparr>
          else Exec_loop co runs line commands n base 0 STDIN_FILENO t [])"

section \<open>The grammar the exercise asks for\<close>

text \<open>
  A line is a sequence of commands separated by pipes, none of them empty. Every
  redirection is followed by a file name; only the first command may redirect its
  input and only the last one its output, and each at most once.
\<close>

fun splitp :: "token list \<Rightarrow> token list list" where
  "splitp [] = [[]]"
| "splitp (t # ts) =
     (if ttype t = TT_PIPE then [] # splitp ts
      else (t # hd (splitp ts)) # tl (splitp ts))"

fun redirs_named :: "token list \<Rightarrow> bool" where
  "redirs_named [] = True"
| "redirs_named [t] = (ttype t = TT_WORD)"
| "redirs_named (t # u # ts) =
     ((ttype t = TT_WORD \<or> ttype u = TT_WORD) \<and> redirs_named (u # ts))"

definition how_many :: "TokenType \<Rightarrow> token list \<Rightarrow> nat" where
  "how_many ty ts = length (filter (\<lambda>t. ttype t = ty) ts)"

definition valid_command :: "token list \<Rightarrow> bool \<Rightarrow> bool \<Rightarrow> bool" where
  "valid_command c fstc lstc \<longleftrightarrow> redirs_named c
     \<and> how_many TT_INFILE c \<le> (if fstc then 1 else 0)
     \<and> how_many TT_OUTFILE c \<le> (if lstc then 1 else 0)"

definition valid_pipeline :: "token list \<Rightarrow> bool" where
  "valid_pipeline toks \<longleftrightarrow>
     (let cs = splitp toks; n = length cs in
      \<forall>i<n. cs ! i \<noteq> [] \<and> valid_command (cs ! i) (i = 0) (i = n - 1))"

section \<open>Splitting and validation meet the grammar\<close>

fun seg :: "token list \<Rightarrow> token list" where
  "seg [] = []"
| "seg (t # ts) = (if ttype t = TT_PIPE then [] else t # seg ts)"

lemma splitp_ne [simp]: "splitp ts \<noteq> []"
  by (cases ts) auto

lemma hd_splitp [simp]: "hd (splitp ts) = seg ts"
  by (induction ts) auto

lemma splitp_seg: "splitp ts = seg ts # tl (splitp ts)"
  by (metis hd_splitp list.collapse splitp_ne)

lemma length_splitp: "length (splitp ts) = Suc (count_pipes ts)"
  by (induction ts) (auto simp: Suc_diff_Suc length_tl)

lemma seg_empty: "seg ts = [] \<longleftrightarrow> ts = [] \<or> ttype (hd ts) = TT_PIPE"
  by (cases ts) auto

lemma split_loop_spec:
  "split_loop ts = (if [] \<in> set (tl (splitp ts)) then None else split_loop ts)
   \<and> (split_loop ts = None \<longleftrightarrow> [] \<in> set (tl (splitp ts)))
   \<and> (\<forall>rest. split_loop ts = Some rest \<longrightarrow> map seg rest = tl (splitp ts))"
proof (induction ts)
  case (Cons t ts)
  have "set (splitp ts) = insert (seg ts) (set (tl (splitp ts)))"
    by (subst splitp_seg) simp
  then show ?case
    using Cons splitp_seg [of ts]
    by (cases "seg ts = []")
      (auto simp: seg_empty [symmetric] simp del: splitp.simps(2) split: if_splits
        simp: splitp.simps(2) [of t ts])
qed simp

lemma SplitInCommands_spec:
  assumes "toks \<noteq> []"
  shows "if [] \<in> set (splitp toks) then SplitInCommands toks = Some SplitSyntaxError
    else \<exists>cs. SplitInCommands toks = Some (Commands cs (length (splitp toks)))
      \<and> map seg cs = splitp toks"
proof -
  obtain t ts where t: "toks = t # ts" using assms by (cases toks) auto
  have "set (splitp toks) = insert (seg toks) (set (tl (splitp toks)))"
    by (subst splitp_seg) simp
  moreover have "SplitInCommands toks
      = (if seg toks = [] then Some SplitSyntaxError
         else case split_loop toks of None \<Rightarrow> Some SplitSyntaxError
           | Some rest \<Rightarrow> Some (Commands (toks # rest) (length (splitp toks))))"
    unfolding t
    by (simp add: SplitInCommands_def length_splitp split: option.split
        del: splitp.simps split_loop.simps)
  moreover have "map seg (toks # rest) = splitp toks" if "split_loop toks = Some rest" for rest
    using that split_loop_spec [of toks] splitp_seg [of toks] by simp
  ultimately show ?thesis
    using split_loop_spec [of toks]
    by (cases "split_loop toks"; cases "seg toks = []") force+
qed

lemma redirs_named_Cons:
  "redirs_named (t # ts) \<longleftrightarrow>
     (ttype t \<noteq> TT_WORD \<longrightarrow> ts \<noteq> [] \<and> ttype (hd ts) = TT_WORD) \<and> redirs_named ts"
  by (cases ts) auto

lemma hd_seg_word: "seg ts \<noteq> [] \<and> ttype (hd (seg ts)) = TT_WORD \<longleftrightarrow> ts \<noteq> [] \<and> ttype (hd ts) = TT_WORD"
  by (cases ts) auto

lemma ValidateCommand_err: "ValidateCommand_loop ts True outc inc f l"
  by (induction ts arbitrary: outc inc) (auto simp: Let_def)

lemma ValidateCommand_loop_spec:
  "\<not> ValidateCommand_loop ts False outc inc f l \<longleftrightarrow>
     redirs_named (seg ts)
     \<and> how_many TT_INFILE (seg ts) \<le> (if f then 1 else 0)
     \<and> how_many TT_OUTFILE (seg ts) \<le> (if l then 1 else 0)
     \<and> (inc \<longrightarrow> how_many TT_INFILE (seg ts) = 0)
     \<and> (outc \<longrightarrow> how_many TT_OUTFILE (seg ts) = 0)"
proof (induction ts arbitrary: outc inc)
  case Nil
  then show ?case by (simp add: how_many_def)
next
  case (Cons t ts)
  note hw = hd_seg_word [of ts]
  show ?case
  proof (cases "ttype t")
    case TT_WORD
    then show ?thesis using Cons by (simp add: redirs_named_Cons how_many_def)
  next
    case TT_INFILE
    then show ?thesis using Cons hw
      by (cases "f \<and> \<not> inc \<and> ts \<noteq> [] \<and> ttype (hd ts) = TT_WORD")
        (auto simp: redirs_named_Cons how_many_def ValidateIOSyntax_def ValidateCommand_err)
  next
    case TT_OUTFILE
    then show ?thesis using Cons hw
      by (cases "l \<and> \<not> outc \<and> ts \<noteq> [] \<and> ttype (hd ts) = TT_WORD")
        (auto simp: redirs_named_Cons how_many_def ValidateIOSyntax_def ValidateCommand_err)
  next
    case TT_PIPE
    then show ?thesis by (simp add: how_many_def)
  qed
qed

lemma ValidateCommandSyntax_spec:
  "ValidateCommandSyntax c False f l \<longleftrightarrow> \<not> valid_command (seg c) f l"
  using ValidateCommand_loop_spec [of c False False f l]
  by (auto simp: ValidateCommandSyntax_def valid_command_def)

lemma Validate_all_spec:
  "Validate_all cs i n err \<longleftrightarrow>
     err \<or> (\<exists>k<length cs. \<not> valid_command (seg (cs ! k)) (i + k = 0) (i + k = n - 1))"
proof (induction cs arbitrary: i err)
  case (Cons c cs)
  have "(\<exists>k<length (c # cs). \<not> valid_command (seg ((c # cs) ! k)) (i + k = 0) (i + k = n - 1))
      \<longleftrightarrow> \<not> valid_command (seg c) (i = 0) (i = n - 1)
        \<or> (\<exists>k<length cs. \<not> valid_command (seg (cs ! k)) (Suc i + k = 0) (Suc i + k = n - 1))"
    by (auto simp: less_Suc_eq_0_disj)
  then show ?case
    using Cons.IH [of "Suc i"] by (cases err) (simp_all add: ValidateCommandSyntax_spec)
qed simp

section \<open>No command faults once it is validated\<close>

lemma GetArgc_ok: "redirs_named (seg c) \<Longrightarrow> \<exists>n. GetArgc c = Some n"
proof (induction c rule: GetArgc.induct)
  case (2 t ts)
  show ?case
  proof (cases "ttype t")
    case TT_WORD
    then show ?thesis using 2 by (auto simp: redirs_named_Cons)
  next
    case TT_INFILE
    then show ?thesis using 2 by (cases ts) (auto simp: redirs_named_Cons split: if_splits)
  next
    case TT_OUTFILE
    then show ?thesis using 2 by (cases ts) (auto simp: redirs_named_Cons split: if_splits)
  qed simp
qed simp

text \<open>The arguments of a command: its words that are not file names of redirections.\<close>

fun args_spec :: "token list \<Rightarrow> token list" where
  "args_spec [] = []"
| "args_spec (t # ts) = (if ttype t = TT_WORD then t # args_spec ts else args_spec (tl ts))"

lemma GetArgv_words_ok:
  "redirs_named (seg c) \<Longrightarrow>
     GetArgv_words line c = Some (map (text_of line) (args_spec (seg c)))
     \<and> GetArgc c = Some (length (args_spec (seg c)))"
proof (induction c rule: GetArgc.induct)
  case (2 t ts)
  show ?case
  proof (cases "ttype t")
    case TT_WORD
    then show ?thesis using 2 by (auto simp: redirs_named_Cons)
  next
    case TT_INFILE
    then show ?thesis using 2 by (cases ts) (auto simp: redirs_named_Cons split: if_splits)
  next
    case TT_OUTFILE
    then show ?thesis using 2 by (cases ts) (auto simp: redirs_named_Cons split: if_splits)
  qed simp
qed simp

lemma args_of_Some [simp]: "args_of (map Some ws @ [None]) = ws"
  by (induction ws) (auto simp: args_of_def)

lemma args_of_comp [simp]: "args_of (map (Some \<circ> f) ws @ [None]) = map f ws"
  using args_of_Some [of "map f ws"] by simp

lemma GetArgv_ok:
  "redirs_named (seg c) \<Longrightarrow>
     GetArgv line c = Some (map Some (map (text_of line) (args_spec (seg c))) @ [None])"
  by (simp add: GetArgv_def GetArgv_words_ok)

fun file_after :: "TokenType \<Rightarrow> token list \<Rightarrow> token option" where
  "file_after ty [] = None"
| "file_after ty (t # ts) = (if ttype t = ty then (case ts of [] \<Rightarrow> None | u # _ \<Rightarrow> Some u)
                             else file_after ty ts)"

lemma how_many_simps [simp]:
  "how_many ty [] = 0"
  "how_many ty (t # ts) = (if ttype t = ty then Suc (how_many ty ts) else how_many ty ts)"
  by (simp_all add: how_many_def)

lemma file_after_none: "how_many ty ts = 0 \<Longrightarrow> file_after ty ts = None"
  by (induction ts) (auto split: if_splits)

text \<open>On a valid command the walk opens the redirected file, if there is one, and no other.\<close>

lemma ValidateIO_skip:
  "redirs_named (seg c) \<Longrightarrow> f \<longrightarrow> how_many TT_INFILE (seg c) = 0 \<Longrightarrow>
   l \<longrightarrow> how_many TT_OUTFILE (seg c) = 0 \<Longrightarrow>
   ValidateIOAndOpenFile_loop co line c m err f l t = Some (m, err, t)"
proof (induction c rule: GetArgc.induct)
  case (2 x ts)
  show ?case
  proof (cases "ttype x")
    case TT_WORD
    then show ?thesis using 2 by (auto simp: redirs_named_Cons)
  next
    case TT_INFILE
    then show ?thesis using 2 by (cases ts) (auto simp: redirs_named_Cons split: if_splits)
  next
    case TT_OUTFILE
    then show ?thesis using 2 by (cases ts) (auto simp: redirs_named_Cons split: if_splits)
  qed simp
qed simp

lemma ValidateIO_in:
  "redirs_named (seg c) \<Longrightarrow> how_many TT_INFILE (seg c) \<le> 1 \<Longrightarrow>
   ValidateIOAndOpenFile_loop co line c m err True False t
     = Some (case file_after TT_INFILE (seg c) of None \<Rightarrow> (m, err, t)
             | Some u \<Rightarrow> DupWithOpen co m err (PreparePath line u) O_RDONLY t)"
proof (induction c rule: GetArgc.induct)
  case (2 x ts)
  show ?case
  proof (cases "ttype x")
    case TT_WORD
    then show ?thesis using 2 by (auto simp: redirs_named_Cons)
  next
    case TT_INFILE
    then show ?thesis using 2
      by (cases ts) (auto simp: redirs_named_Cons ValidateIO_skip split: if_splits prod.splits)
  next
    case TT_OUTFILE
    then show ?thesis using 2 by (cases ts) (auto simp: redirs_named_Cons split: if_splits)
  qed simp
qed simp

lemma ValidateIO_out:
  "redirs_named (seg c) \<Longrightarrow> how_many TT_OUTFILE (seg c) \<le> 1 \<Longrightarrow>
   ValidateIOAndOpenFile_loop co line c m err False True t
     = Some (case file_after TT_OUTFILE (seg c) of None \<Rightarrow> (m, err, t)
             | Some u \<Rightarrow> DupWithOpen co m err (PreparePath line u) (O_WRONLY + O_CREAT) t)"
proof (induction c rule: GetArgc.induct)
  case (2 x ts)
  show ?case
  proof (cases "ttype x")
    case TT_WORD
    then show ?thesis using 2 by (auto simp: redirs_named_Cons)
  next
    case TT_OUTFILE
    then show ?thesis using 2
      by (cases ts) (auto simp: redirs_named_Cons ValidateIO_skip split: if_splits prod.splits)
  next
    case TT_INFILE
    then show ?thesis using 2 by (cases ts) (auto simp: redirs_named_Cons split: if_splits)
  qed simp
qed simp

section \<open>Descriptor tables with room\<close>

text \<open>\<open>keeps u t t'\<close>: every open descriptor of \<open>t\<close> except \<open>u\<close> is the same in \<open>t'\<close>.\<close>

definition keeps :: "int \<Rightarrow> fdtab \<Rightarrow> fdtab \<Rightarrow> bool" where
  "keeps u t t' \<longleftrightarrow> length t' = length t
     \<and> (\<forall>fd x. fd \<noteq> u \<longrightarrow> fd_get fd t = Some x \<longrightarrow> fd_get fd t' = Some x)"

lemma keeps_refl [simp]: "keeps u t t"
  by (simp add: keeps_def)

lemma keeps_trans: "keeps u t t' \<Longrightarrow> keeps u t' t'' \<Longrightarrow> keeps u t t''"
  by (simp add: keeps_def)

lemma keeps_get: "keeps u t t' \<Longrightarrow> fd \<noteq> u \<Longrightarrow> fd_get fd t = Some x \<Longrightarrow> fd_get fd t' = Some x"
  by (simp add: keeps_def)

lemma fd_alloc_ok:
  "used t < length t \<Longrightarrow> \<exists>i. fd_alloc x t = (int i, t[i := Some x]) \<and> i < length t \<and> t ! i = None"
  using used_less_free [of t] first_index_Some [of "\<lambda>y. y = None" t]
  by (auto simp: fd_alloc_def)

lemma fd_alloc_keeps: "keeps u t (snd (fd_alloc x t))"
  using first_index_Some [of "\<lambda>y. y = None" t]
  by (auto simp: fd_alloc_def keeps_def fd_get_def nth_list_update split: option.splits if_splits)

lemma fd_dup_keeps: "keeps u t (snd (fd_dup fd t))"
  by (auto simp: fd_dup_def fd_alloc_keeps split: option.splits)

lemma fd_dup2_keeps: "keeps u t (fd_dup2 fd u t)"
  by (auto simp: fd_dup2_def keeps_def fd_get_def nth_list_update split: option.splits)

lemma fd_dup2_get: "fd_get fd t = Some x \<Longrightarrow> 0 \<le> u \<Longrightarrow> nat u < length t \<Longrightarrow> fd_get u (fd_dup2 fd u t) = Some x"
  by (simp add: fd_dup2_def fd_get_def)

lemma fd_get_len: "fd_get u t = Some y \<Longrightarrow> 0 \<le> u \<and> nat u < length t"
  by (simp add: fd_get_def split: if_splits)

lemma used_le_length: "used t \<le> length t"
  by (induction t) auto

lemma used_fd_alloc: "used (snd (fd_alloc x t)) \<le> Suc (used t)"
  using first_index_Some [of "\<lambda>y. y = None" t] used_fill [of _ t x]
  by (auto simp: fd_alloc_def split: option.splits)

lemma used_fd_dup: "used (snd (fd_dup fd t)) \<le> Suc (used t)"
  using used_fd_alloc by (auto simp: fd_dup_def le_SucI split: option.splits)

lemma used_fd_dup2: "fd_get u t = Some y \<Longrightarrow> used (fd_dup2 fd u t) = used t"
  using used_update [of "nat u" t] by (force simp: fd_dup2_def fd_get_def split: option.splits if_splits)

lemma used_Dup:
  assumes "fd_get (used_std m) t = Some y"
  shows "used (snd (Dup m t)) \<le> Suc (used t)"
proof -
  obtain s t1 where d: "fd_dup (used_std m) t = (s, t1)" by fastforce
  have "used t1 \<le> Suc (used t)" using used_fd_dup [of "used_std m" t] d by simp
  moreover have "used (fd_dup2 (opened_fd m) (used_std m) t1) = used t1"
  proof -
    have "length t1 = length t" using fd_dup_keeps [of 0 t "used_std m"] d by (simp add: keeps_def)
    have "fd_get (used_std m) t1 = Some y"
      using fd_dup_keeps [of "- 1" t "used_std m"] d assms keeps_get [of "- 1" t t1 "used_std m" y]
        fd_get_len [OF assms] by fastforce
    then show ?thesis by (rule used_fd_dup2)
  qed
  ultimately show ?thesis by (simp add: Dup_def d)
qed

lemma Dup_wires:
  assumes "fd_get (opened_fd m) t = Some x" "fd_get (used_std m) t = Some y"
    and "opened_fd m \<noteq> used_std m"
  shows "fd_get (used_std m) (snd (Dup m t)) = Some x" and "keeps (used_std m) t (snd (Dup m t))"
proof -
  obtain s t1 where d: "fd_dup (used_std m) t = (s, t1)" by fastforce
  then have k: "keeps (used_std m) t t1" by (metis fd_dup_keeps snd_conv)
  have "fd_get (opened_fd m) t1 = Some x"
    by (rule keeps_get [OF k assms(3) assms(1)])
  moreover have "length t1 = length t" using k by (simp add: keeps_def)
  ultimately show "fd_get (used_std m) (snd (Dup m t)) = Some x"
    using fd_get_len [OF assms(2)] by (simp add: Dup_def d fd_dup2_get)
  show "keeps (used_std m) t (snd (Dup m t))"
    using keeps_trans [OF k fd_dup2_keeps] by (simp add: Dup_def d)
qed

lemma DupWithOpen_wires:
  assumes "used t < length t" and "fd_get (used_std m) t = Some y" and "co path flags"
  shows "\<exists>m' t'. DupWithOpen co m err path flags t = (m', err, t')
    \<and> fd_get (used_std m) t' = Some (FileObj path flags) \<and> keeps (used_std m) t t'
    \<and> used t' \<le> used t + 2"
proof -
  let ?u = "used_std m"
  obtain i where i: "fd_alloc (FileObj path flags) t = (int i, t[i := Some (FileObj path flags)])"
    "i < length t" "t ! i = None"
    using fd_alloc_ok [OF assms(1)] by blast
  let ?t1 = "t[i := Some (FileObj path flags)]"
  obtain s t2 where d: "fd_dup ?u ?t1 = (s, t2)" by fastforce
  have k1: "keeps ?u t ?t1" using fd_alloc_keeps [of ?u t "FileObj path flags"] i by simp
  have k2: "keeps ?u ?t1 t2" by (metis d fd_dup_keeps snd_conv)
  have "fd_get (int i) t = None" using i by (simp add: fd_get_def)
  then have "int i \<noteq> ?u" using assms(2) by auto
  moreover have "fd_get (int i) ?t1 = Some (FileObj path flags)" using i by (simp add: fd_get_def)
  ultimately have "fd_get (int i) t2 = Some (FileObj path flags)"
    using keeps_get [OF k2] by blast
  moreover have "used (fd_dup2 (int i) ?u t2) \<le> used t + 2"
  proof -
    have "fd_get ?u ?t1 = Some y"
      using fd_alloc_keeps [of "- 1" t "FileObj path flags"] i assms(2) fd_get_len [OF assms(2)]
        keeps_get [of "- 1" t ?t1 ?u y] by simp
    then have "fd_get ?u t2 = Some y"
      using fd_dup_keeps [of "- 1" ?t1 ?u] d keeps_get [of "- 1" ?t1 t2 ?u y] fd_get_len [OF assms(2)] by simp
    moreover have "used t2 \<le> Suc (used ?t1)" using used_fd_dup [of ?u ?t1] d by simp
    ultimately show ?thesis using used_fill [OF i(2,3)] used_fd_dup2 by simp
  qed
  ultimately show ?thesis
    using fd_get_len [OF assms(2)] assms(3) i d k2 keeps_trans [OF k1 keeps_trans [OF k2 fd_dup2_keeps]]
    by (simp add: DupWithOpen_def posix_open_def fd_dup2_get keeps_def)
qed

lemma fd_pipe_ok:
  assumes "used t + 2 \<le> length t"
  shows "\<exists>r w. fd_pipe k t = Some ((int r, int w), t[r := Some (PipeR k), w := Some (PipeW k)])
    \<and> r \<noteq> w \<and> r < length t \<and> w < length t \<and> t ! r = None \<and> t ! w = None"
proof -
  obtain r where r: "fd_alloc (PipeR k) t = (int r, t[r := Some (PipeR k)])" "r < length t" "t ! r = None"
    using fd_alloc_ok [of t "PipeR k"] assms by auto
  have "used (t[r := Some (PipeR k)]) < length (t[r := Some (PipeR k)])"
    using used_fill [OF r(2,3)] assms by simp
  from fd_alloc_ok [OF this, of "PipeW k"] obtain w where
    w: "fd_alloc (PipeW k) (t[r := Some (PipeR k)]) = (int w, t[r := Some (PipeR k), w := Some (PipeW k)])"
    "w < length t" "t[r := Some (PipeR k)] ! w = None" by auto
  then have "w \<noteq> r" "t ! w = None" using r by (auto simp: nth_list_update split: if_splits)
  then show ?thesis using r w by (auto simp: fd_pipe_def)
qed

section \<open>The wiring of a pipeline\<close>

definition accepts_all :: "string \<Rightarrow> nat \<Rightarrow> bool" where
  "accepts_all path flags = True"

text \<open>What the exercise asks of command \<open>i\<close> of \<open>n\<close>.\<close>

definition wants_stdin :: "string \<Rightarrow> token list \<Rightarrow> nat \<Rightarrow> nat \<Rightarrow> fobj" where
  "wants_stdin line c base i =
     (if i = 0 then (case file_after TT_INFILE c of None \<Rightarrow> StdIn
                     | Some f \<Rightarrow> FileObj (text_of line f) O_RDONLY)
      else PipeR (base + i - 1))"

definition wants_stdout :: "string \<Rightarrow> token list \<Rightarrow> nat \<Rightarrow> nat \<Rightarrow> nat \<Rightarrow> fobj" where
  "wants_stdout line c base i n =
     (if i = n - 1 then (case file_after TT_OUTFILE c of None \<Rightarrow> StdOut
                     | Some f \<Rightarrow> FileObj (text_of line f) (O_WRONLY + O_CREAT))
      else PipeW (base + i))"

definition wired :: "string \<Rightarrow> token list \<Rightarrow> nat \<Rightarrow> nat \<Rightarrow> nat \<Rightarrow> fate \<Rightarrow> bool" where
  "wired line c base i n kid \<longleftrightarrow>
     (\<exists>t. kid = Runs (map (text_of line) (args_spec c)) t
        \<and> fd_get STDIN_FILENO t = Some (wants_stdin line c base i)
        \<and> fd_get STDOUT_FILENO t = Some (wants_stdout line c base i n))"

lemma stdin_step:
  assumes v: "valid_command (seg c) (i = 0) (i = n - 1)" and room: "used t < length t"
    and inp: "fd_get in_fd t = Some (if i = 0 then StdIn else PipeR (base + i - 1))"
    and std: "fd_get 0 t = Some StdIn" "i \<noteq> 0 \<longrightarrow> in_fd \<noteq> 0"
  shows "\<exists>m' t'. (if i = 0 then ValidateIOAndOpenFile accepts_all line c
            \<lparr>used_std = 0, saved_std = - 1, opened_fd = in_fd\<rparr> False True False t
          else let (im, t) = Dup \<lparr>used_std = 0, saved_std = - 1, opened_fd = in_fd\<rparr> t in Some (im, False, t))
        = Some (m', False, t')
      \<and> fd_get 0 t' = Some (wants_stdin line (seg c) base i) \<and> keeps 0 t t' \<and> used t' \<le> used t + 2"
proof (cases "i = 0")
  case True
  from v have *: "redirs_named (seg c)" "how_many TT_INFILE (seg c) \<le> 1"
    using True by (auto simp: valid_command_def)
  note dw = DupWithOpen_wires [OF room, of "\<lparr>used_std = 0, saved_std = - 1, opened_fd = in_fd\<rparr>"
      StdIn accepts_all _ O_RDONLY False]
  show ?thesis
  proof (cases "file_after TT_INFILE (seg c)")
    case None
    then show ?thesis using True std
      by (simp add: ValidateIOAndOpenFile_def ValidateIO_in [OF *] wants_stdin_def)
  next
    case (Some f)
    then show ?thesis using True std dw [of "PreparePath line f"]
      by (auto simp: ValidateIOAndOpenFile_def ValidateIO_in [OF *] wants_stdin_def
          accepts_all_def PreparePath_def)
  qed
next
  case False
  let ?m = "\<lparr>used_std = 0, saved_std = - 1, opened_fd = in_fd\<rparr>"
  obtain m' t' where d: "Dup ?m t = (m', t')" by fastforce
  have "fd_get 0 t' = Some (PipeR (base + i - 1))" "keeps 0 t t'" "used t' \<le> Suc (used t)"
    using Dup_wires [of ?m t "PipeR (base + i - 1)" StdIn] used_Dup [of ?m t] inp std False d by auto
  then show ?thesis using False d by (simp add: wants_stdin_def)
qed

lemma stdout_step:
  assumes v: "valid_command (seg c) (i = 0) (i = n - 1)" and room: "used t < length t"
    and out: "fd_get pw t = Some (PipeW (base + i))" and std: "fd_get 1 t = Some StdOut"
  shows "\<exists>m' t'. (if i = n - 1 then ValidateIOAndOpenFile accepts_all line c
            \<lparr>used_std = 1, saved_std = - 1, opened_fd = pw\<rparr> False False True t
          else let (om, t) = Dup \<lparr>used_std = 1, saved_std = - 1, opened_fd = pw\<rparr> t in Some (om, False, t))
        = Some (m', False, t')
      \<and> fd_get 1 t' = Some (wants_stdout line (seg c) base i n) \<and> keeps 1 t t'"
proof (cases "i = n - 1")
  case True
  from v have *: "redirs_named (seg c)" "how_many TT_OUTFILE (seg c) \<le> 1"
    using True by (auto simp: valid_command_def)
  note dw = DupWithOpen_wires [OF room, of "\<lparr>used_std = 1, saved_std = - 1, opened_fd = pw\<rparr>"
      StdOut accepts_all _ "O_WRONLY + O_CREAT" False]
  show ?thesis
  proof (cases "file_after TT_OUTFILE (seg c)")
    case None
    then show ?thesis using True std
      by (simp add: ValidateIOAndOpenFile_def ValidateIO_out [OF *] wants_stdout_def)
  next
    case (Some f)
    then show ?thesis using True std dw [of "PreparePath line f"]
      by (auto simp: ValidateIOAndOpenFile_def ValidateIO_out [OF *] wants_stdout_def
          accepts_all_def PreparePath_def)
  qed
next
  case False
  let ?m = "\<lparr>used_std = 1, saved_std = - 1, opened_fd = pw\<rparr>"
  obtain m' t' where d: "Dup ?m t = (m', t')" by fastforce
  have "pw \<noteq> 1" using out std by auto
  then have "fd_get 1 t' = Some (PipeW (base + i))" "keeps 1 t t'"
    using Dup_wires [of ?m t "PipeW (base + i)" StdOut] out std d by auto
  then show ?thesis using False d by (simp add: wants_stdout_def)
qed

lemma run_child_wired:
  assumes v: "valid_command (seg (cs ! i)) (i = 0) (i = n - 1)" and i: "i < n"
    and room: "used t + 3 \<le> length t"
    and inp: "fd_get in_fd t = Some (if i = 0 then StdIn else PipeR (base + i - 1))"
    and std: "fd_get 0 t = Some StdIn" "i \<noteq> 0 \<longrightarrow> in_fd \<noteq> 0" "fd_get 1 t = Some StdOut"
    and out: "fd_get pw t = Some (PipeW (base + i))"
  shows "\<exists>kid. run_child accepts_all (\<lambda>_. True) line cs n i in_fd pw t = Some kid
    \<and> wired line (seg (cs ! i)) base i n kid"
proof -
  have room1: "used t < length t" using room by simp
  obtain m' t' where s: "(if i = 0 then ValidateIOAndOpenFile accepts_all line (cs ! 0)
            \<lparr>used_std = 0, saved_std = - 1, opened_fd = in_fd\<rparr> False True False t
          else let (im, t) = Dup \<lparr>used_std = 0, saved_std = - 1, opened_fd = in_fd\<rparr> t in Some (im, False, t))
        = Some (m', False, t')"
      "fd_get 0 t' = Some (wants_stdin line (seg (cs ! i)) base i)" "keeps 0 t t'" "used t' \<le> used t + 2"
    using stdin_step [OF v room1 inp std(1,2), where line = line] by (auto split: if_splits)
  have pw: "pw \<noteq> 0" using out std(1) by auto
  have room2: "used t' < length t'" using s(3,4) room by (simp add: keeps_def)
  have "fd_get pw t' = Some (PipeW (base + i))" "fd_get 1 t' = Some StdOut"
    using keeps_get [OF s(3)] out std pw by auto
  from stdout_step [OF v room2 this, where line = line] obtain m'' t'' where
    o: "(if i = n - 1 then ValidateIOAndOpenFile accepts_all line (cs ! (n - 1))
            \<lparr>used_std = 1, saved_std = - 1, opened_fd = pw\<rparr> False False True t'
          else let (om, t) = Dup \<lparr>used_std = 1, saved_std = - 1, opened_fd = pw\<rparr> t' in Some (om, False, t))
        = Some (m'', False, t'')"
      "fd_get 1 t'' = Some (wants_stdout line (seg (cs ! i)) base i n)" "keeps 1 t' t''"
    by (auto split: if_splits)
  have "fd_get 0 t'' = Some (wants_stdin line (seg (cs ! i)) base i)"
    using keeps_get [OF o(3) _ s(2)] by simp
  moreover have "redirs_named (seg (cs ! i))" using v by (simp add: valid_command_def)
  ultimately show ?thesis
    unfolding run_child_def STDIN_FILENO_def STDOUT_FILENO_def
    by (simp add: s(1) o(1,2) GetArgv_ok wired_def STDIN_FILENO_def STDOUT_FILENO_def
        del: One_nat_def)
qed

definition all_wired :: "string \<Rightarrow> token list list \<Rightarrow> nat \<Rightarrow> nat \<Rightarrow> fate list \<Rightarrow> bool" where
  "all_wired line cs base n kids \<longleftrightarrow>
     (\<forall>i<length kids. wired line (seg (cs ! i)) base i n (kids ! i))"

lemma Exec_loop_wired:
  assumes v: "\<forall>i<n. valid_command (seg (cs ! i)) (i = 0) (i = n - 1)"
    and room: "used t + (n - i) + 4 \<le> length t" and i: "i \<le> n"
    and inp: "fd_get in_fd t = Some (if i = 0 then StdIn else PipeR (base + i - 1))"
    and std: "fd_get 0 t = Some StdIn" "i \<noteq> 0 \<longrightarrow> in_fd \<noteq> 0" "fd_get 1 t = Some StdOut"
    and kids: "length kids = i" "all_wired line cs base n kids"
  shows "\<exists>r. Exec_loop accepts_all (\<lambda>_. True) line cs n base i in_fd t kids = Some r
    \<and> printed r = [] \<and> length (children r) = n \<and> all_wired line cs base n (children r)
    \<and> used (parent_fds r) = used t + (n - i)"
  using room i inp std kids
proof (induction "n - i" arbitrary: i in_fd t kids)
  case 0
  then show ?case by (subst Exec_loop.simps) auto
next
  case (Suc k)
  then have i: "i < n" by simp
  obtain r w where p: "fd_pipe (base + i) t
      = Some ((int r, int w), t[r := Some (PipeR (base + i)), w := Some (PipeW (base + i))])"
    and rw: "r \<noteq> w" "r < length t" "w < length t" "t ! r = None" "t ! w = None"
    using fd_pipe_ok [of t "base + i"] Suc.prems(1) by auto
  let ?t = "t[r := Some (PipeR (base + i)), w := Some (PipeW (base + i))]"
  have keep: "fd_get fd ?t = Some x" if "fd_get fd t = Some x" for fd x
    using that rw by (auto simp: fd_get_def nth_list_update split: if_splits)
  have u: "used ?t = used t + 2"
    using rw by (simp add: used_fill nth_list_update)
  have "valid_command (seg (cs ! i)) (i = 0) (i = n - 1)" using v i by blast
  moreover have "used ?t + 3 \<le> length ?t" using u Suc.prems(1) i by simp
  moreover have "fd_get (int w) ?t = Some (PipeW (base + i))" using rw by (simp add: fd_get_def)
  ultimately obtain kid where kid:
    "run_child accepts_all (\<lambda>_. True) line cs n i in_fd (int w) ?t = Some kid"
    "wired line (seg (cs ! i)) base i n kid"
    using run_child_wired [where in_fd = in_fd and t = ?t] keep Suc.prems i by meson
  let ?t' = "fd_close (int w) ?t"
  have t': "?t' = t[r := Some (PipeR (base + i))]"
    using rw by (intro nth_equalityI) (auto simp: fd_close_def nth_list_update)
  have "used ?t' = Suc (used t)" using rw by (simp add: t' used_fill)
  moreover have "fd_get fd ?t' = Some x" if "fd_get fd t = Some x" for fd x
    using that rw by (auto simp: t' fd_get_def nth_list_update split: if_splits)
  moreover have "fd_get (int r) ?t' = Some (PipeR (base + i))" using rw by (simp add: t' fd_get_def)
  moreover have "int r \<noteq> 0" using rw Suc.prems(4) by (cases r) (auto simp: fd_get_def split: if_splits)
  moreover have "all_wired line cs base n (kids @ [kid])"
    using Suc.prems(7,8) kid(2) by (auto simp: all_wired_def nth_append less_Suc_eq)
  ultimately have "\<exists>x. Exec_loop accepts_all (\<lambda>_. True) line cs n base (i + 1) (int r) ?t' (kids @ [kid]) = Some x
    \<and> printed x = [] \<and> length (children x) = n \<and> all_wired line cs base n (children x)
    \<and> used (parent_fds x) = used ?t' + (n - (i + 1))"
    using Suc.hyps Suc.prems by (intro Suc.hyps(1)) (auto simp: t')
  then show ?case
    using i p kid(1) \<open>used ?t' = Suc (used t)\<close> by (subst Exec_loop.simps) auto
qed

section \<open>Exec as a whole\<close>

lemma Exec_loop_not_syntax:
  "Exec_loop co runs line cs n base i in_fd t kids = Some r \<Longrightarrow> printed r \<noteq> SYNTAX_ERROR"
proof (induction "n - i" arbitrary: i in_fd t kids)
  case 0
  then show ?case by (subst (asm) Exec_loop.simps) (auto simp: SYNTAX_ERROR_def)
next
  case (Suc k)
  then have "k = n - (i + 1)" by simp
  note IH = Suc.hyps(1) [OF this]
  have i: "i < n" using Suc.hyps(2) by simp
  show ?case
  proof (cases "fd_pipe (base + i) t")
    case None
    then show ?thesis using Suc.prems i
      by (subst (asm) Exec_loop.simps) (auto simp: SYNTAX_ERROR_def)
  next
    case (Some p)
    obtain r' w t' where p: "p = ((r', w), t')" by (metis prod.exhaust)
    show ?thesis
      using Suc.prems i Some p IH
      by (subst (asm) Exec_loop.simps) (simp split: option.splits)
  qed
qed

lemma Validate_split:
  assumes "map seg cs = splitp toks" and "[] \<notin> set (splitp toks)"
  shows "Validate_all cs 0 (length (splitp toks)) False \<longleftrightarrow> \<not> valid_pipeline toks"
proof -
  have l: "length cs = length (splitp toks)" by (metis assms(1) length_map)
  have "splitp toks ! i = seg (cs ! i)" if "i < length cs" for i
    using that by (metis assms(1) nth_map)
  moreover have "splitp toks ! i \<noteq> []" if "i < length cs" for i
    using assms(2) that l by (metis nth_mem)
  ultimately show ?thesis
    by (auto simp: Validate_all_spec valid_pipeline_def Let_def l)
qed

lemma not_valid_empty: "[] \<in> set (splitp toks) \<Longrightarrow> \<not> valid_pipeline toks"
  by (auto simp: valid_pipeline_def Let_def in_set_conv_nth)

lemma seg_nth: "map seg cs = splitp toks \<Longrightarrow> i < length (splitp toks) \<Longrightarrow> seg (cs ! i) = splitp toks ! i"
  by (metis length_map nth_map)

lemma tokens_counted: "token_count (TokenizerInit_pipe line) = length (head (TokenizerInit_pipe line))"
proof -
  obtain toks where "TokenizerInit_pipe line = \<lparr>token_count = length toks, head = toks\<rparr>"
    using TokenizerInit_pipe_loop_lex [of line 0 0 "[]"] by (auto simp: TokenizerInit_pipe_def)
  then show ?thesis by simp
qed

text \<open>
  C30. The pipeline shell reports a syntax error exactly for the lines outside its
  grammar: an empty command, a redirection without a file name, an input
  redirection after the first command or an output redirection before the last
  one, or the same redirection twice.
\<close>

theorem Exec_syntax_error_iff:
  "(\<exists>r. Exec co runs line base (TokenizerInit_pipe line) t = Some r \<and> printed r = SYNTAX_ERROR
      \<and> children r = [])
   \<longleftrightarrow> head (TokenizerInit_pipe line) \<noteq> [] \<and> \<not> valid_pipeline (head (TokenizerInit_pipe line))"
proof (cases "head (TokenizerInit_pipe line) = []")
  case True
  then show ?thesis by (simp add: Exec_def tokens_counted SYNTAX_ERROR_def)
next
  case False
  let ?toks = "head (TokenizerInit_pipe line)"
  show ?thesis
  proof (cases "[] \<in> set (splitp ?toks)")
    case True
    then show ?thesis using False SplitInCommands_spec [OF False] not_valid_empty
      by (simp add: Exec_def tokens_counted)
  next
    case no: False
    then obtain cs where cs: "SplitInCommands ?toks = Some (Commands cs (length (splitp ?toks)))"
      "map seg cs = splitp ?toks" using SplitInCommands_spec [OF False] by auto
    then show ?thesis using False Validate_split [OF cs(2) no] Exec_loop_not_syntax
      by (auto simp: Exec_def tokens_counted)
  qed
qed

lemma Exec_valid:
  assumes "valid_pipeline (head (TokenizerInit_pipe line))" "head (TokenizerInit_pipe line) \<noteq> []"
  shows "\<exists>cs. map seg cs = splitp (head (TokenizerInit_pipe line))
    \<and> Exec co runs line base (TokenizerInit_pipe line) t
      = Exec_loop co runs line cs (length (splitp (head (TokenizerInit_pipe line)))) base 0 STDIN_FILENO t []"
proof -
  let ?toks = "head (TokenizerInit_pipe line)"
  have no: "[] \<notin> set (splitp ?toks)" using assms(1) not_valid_empty by blast
  then obtain cs where cs: "SplitInCommands ?toks = Some (Commands cs (length (splitp ?toks)))"
    "map seg cs = splitp ?toks" using SplitInCommands_spec [OF assms(2)] by auto
  then have "\<not> Validate_all cs 0 (length (splitp ?toks)) False"
    using Validate_split [OF cs(2) no] assms(1) by simp
  with cs assms(2) show ?thesis by (auto simp: Exec_def tokens_counted)
qed

lemma Exec_runs_pipeline:
  assumes "valid_pipeline (head (TokenizerInit_pipe line))" "head (TokenizerInit_pipe line) \<noteq> []"
    and "fd_get 0 t = Some StdIn" "fd_get 1 t = Some StdOut"
    and "used t + length (splitp (head (TokenizerInit_pipe line))) + 4 \<le> length t"
  shows "\<exists>r. Exec accepts_all (\<lambda>_. True) line base (TokenizerInit_pipe line) t = Some r
    \<and> printed r = [] \<and> length (children r) = length (splitp (head (TokenizerInit_pipe line)))
    \<and> (\<forall>i<length (children r). wired line (splitp (head (TokenizerInit_pipe line)) ! i) base i
          (length (splitp (head (TokenizerInit_pipe line)))) (children r ! i))
    \<and> used (parent_fds r) = used t + length (splitp (head (TokenizerInit_pipe line)))"
proof -
  let ?n = "length (splitp (head (TokenizerInit_pipe line)))"
  obtain cs where cs: "map seg cs = splitp (head (TokenizerInit_pipe line))"
    "Exec accepts_all (\<lambda>_. True) line base (TokenizerInit_pipe line) t
      = Exec_loop accepts_all (\<lambda>_. True) line cs ?n base 0 STDIN_FILENO t []"
    using Exec_valid [OF assms(1,2)] by blast
  have "\<forall>i<?n. valid_command (seg (cs ! i)) (i = 0) (i = ?n - 1)"
    using assms(1) by (simp add: valid_pipeline_def Let_def seg_nth [OF cs(1)])
  from Exec_loop_wired [OF this, of t 0 STDIN_FILENO base "[]" line] assms cs(2) obtain r where
    "Exec accepts_all (\<lambda>_. True) line base (TokenizerInit_pipe line) t = Some r"
    "printed r = []" "length (children r) = ?n" "all_wired line cs base ?n (children r)"
    "used (parent_fds r) = used t + ?n"
    by (auto simp: all_wired_def STDIN_FILENO_def)
  then show ?thesis by (simp add: all_wired_def seg_nth [OF cs(1)])
qed

text \<open>
  C29. A valid pipeline is wired as it is written: when every open and exec
  succeeds and the descriptor table has room, \<open>Exec\<close> starts one child per command;
  child \<open>i\<close> runs the words of command \<open>i\<close>, reads from the file of a \<open><\<close> (the first
  command) or from the pipe of command \<open>i - 1\<close>, and writes to the file of a \<open>>\<close> (the
  last command) or to its own pipe.
\<close>

theorem Exec_wires_pipeline:
  assumes "valid_pipeline (head (TokenizerInit_pipe line))" "head (TokenizerInit_pipe line) \<noteq> []"
    and "fd_get 0 t = Some StdIn" "fd_get 1 t = Some StdOut"
    and "used t + length (splitp (head (TokenizerInit_pipe line))) + 4 \<le> length t"
  shows "\<exists>r. Exec accepts_all (\<lambda>_. True) line base (TokenizerInit_pipe line) t = Some r
    \<and> printed r = [] \<and> length (children r) = length (splitp (head (TokenizerInit_pipe line)))
    \<and> (\<forall>i<length (children r). wired line (splitp (head (TokenizerInit_pipe line)) ! i) base i
          (length (splitp (head (TokenizerInit_pipe line)))) (children r ! i))"
  using Exec_runs_pipeline [OF assms] by blast

theorem Exec_wires_pipeline_witness:
  "valid_pipeline (head (TokenizerInit_pipe ''a < b | c > d''))
   \<and> (\<exists>r. Exec accepts_all (\<lambda>_. True) ''a < b | c > d'' 0 (TokenizerInit_pipe ''a < b | c > d'')
       (Some StdIn # Some StdOut # replicate 8 None) = Some r \<and> length (children r) = 2)"
proof -
  let ?l = "''a < b | c > d''"
  let ?t = "Some StdIn # Some StdOut # replicate 8 None"
  have v: "valid_pipeline (head (TokenizerInit_pipe ?l))" by code_simp
  have ne: "head (TokenizerInit_pipe ?l) \<noteq> []" by code_simp
  have n: "length (splitp (head (TokenizerInit_pipe ?l))) = 2" by code_simp
  have s: "fd_get 0 ?t = Some StdIn" "fd_get 1 ?t = Some StdOut" by (simp_all add: fd_get_def)
  have "used ?t + 2 + 4 \<le> length ?t" by (simp add: numeral_eq_Suc)
  then show ?thesis using Exec_wires_pipeline [OF v ne s, of 0] v by (auto simp only: n)
qed

text \<open>
  The shell leaks descriptors: after a valid pipeline of \<open>n\<close> commands the
  parent's table holds \<open>n\<close> more open descriptors than before, the read end of every
  pipe it made, although it closes every write end.
\<close>

theorem Exec_leaks_read_ends:
  assumes "valid_pipeline (head (TokenizerInit_pipe line))" "head (TokenizerInit_pipe line) \<noteq> []"
    and "fd_get 0 t = Some StdIn" "fd_get 1 t = Some StdOut"
    and "used t + length (splitp (head (TokenizerInit_pipe line))) + 4 \<le> length t"
  shows "\<exists>r. Exec accepts_all (\<lambda>_. True) line base (TokenizerInit_pipe line) t = Some r
    \<and> used (parent_fds r) = used t + length (splitp (head (TokenizerInit_pipe line)))"
  using Exec_runs_pipeline [OF assms] by blast

theorem Exec_leaks_read_ends_witness:
  "\<exists>r. Exec accepts_all (\<lambda>_. True) ''a | b'' 0 (TokenizerInit_pipe ''a | b'')
       (Some StdIn # Some StdOut # replicate 8 None) = Some r \<and> used (parent_fds r) = 4"
proof -
  let ?l = "''a | b''"
  let ?t = "Some StdIn # Some StdOut # replicate 8 None"
  have v: "valid_pipeline (head (TokenizerInit_pipe ?l))" by code_simp
  have ne: "head (TokenizerInit_pipe ?l) \<noteq> []" by code_simp
  have n: "length (splitp (head (TokenizerInit_pipe ?l))) = 2" by code_simp
  have s: "fd_get 0 ?t = Some StdIn" "fd_get 1 ?t = Some StdOut" by (simp_all add: fd_get_def)
  have "used ?t = 2" by (simp add: numeral_eq_Suc)
  then show ?thesis using Exec_leaks_read_ends [OF v ne s, of 0] by (simp add: n numeral_eq_Suc)
qed

end
