(* ===== verification/Ring.thy ===== *)
theory Ring
  imports Prelude
begin

text \<open>
  Ring buffers indexed by free-running 32-bit counters, as the kernel's pipes
  and its console input use them: a byte at counter \<open>c\<close> lives in slot
  \<open>c mod N\<close>, and the counters wrap around. The locale \<open>ring_buffer\<close> is what their
  clients rely on; the pipe and the console interpret it.
\<close>

section \<open>Contents of a ring\<close>

definition ring_contents :: "nat \<Rightarrow> 'a list \<Rightarrow> u32 \<Rightarrow> u32 \<Rightarrow> 'a list" where
  "ring_contents N buf r w = map (\<lambda>k. buf ! (unat (r + of_nat k) mod N)) [0..<unat (w - r)]"

lemma length_ring_contents [simp]: "length (ring_contents N buf r w) = unat (w - r)"
  by (simp add: ring_contents_def)

lemma ring_contents_nth:
  "k < unat (w - r) \<Longrightarrow> ring_contents N buf r w ! k = buf ! (unat (r + of_nat k) mod N)"
  by (simp add: ring_contents_def)

lemma unat_add_mod:
  fixes r :: u32
  assumes "N dvd 2 ^ 32"
  shows "unat (r + of_nat k) mod N = (unat r + k) mod N"
proof -
  have "unat (r + of_nat k) = (unat r + k) mod 2 ^ 32"
    by (simp add: unat_word_ariths unat_of_nat mod_add_right_eq take_bit_eq_mod)
  then show ?thesis using assms by (simp add: mod_mod_cancel)
qed

lemma slots_apart:
  assumes "j < k" and "k < N"
  shows "((r :: nat) + j) mod N \<noteq> (r + k) mod N"
proof
  assume "(r + j) mod N = (r + k) mod N"
  then have "N dvd (r + k) - (r + j)"
    using assms(1) mod_eq_dvd_iff_nat [of "r + j" "r + k" N] by simp
  then have "N dvd k - j" using assms(1) by simp
  then show False using assms by (auto dest: dvd_imp_le)
qed

lemma unat_Suc_diff:
  fixes w r :: u32
  assumes "unat (w - r) < N" and "N < 2 ^ 32"
  shows "unat (w + 1 - r) = Suc (unat (w - r))"
proof -
  have e: "w + 1 - r = 1 + (w - r)" by simp
  have "1 + (w - r) \<noteq> 0"
  proof
    assume "1 + (w - r) = 0"
    then have "w - r = - 1" by (metis add_eq_0_iff)
    then have "unat (w - r) = 2 ^ 32 - 1" by (simp add: unat_neg_one)
    then show False using assms by simp
  qed
  then show ?thesis unfolding e by (rule unatSuc)
qed

text \<open>Storing at the write counter appends, loading at the read counter takes the head.\<close>

lemma ring_put:
  assumes "unat (w - r) < N" "N < 2 ^ 32" "N dvd 2 ^ 32" "length buf = N"
  shows "ring_contents N (buf[unat w mod N := x]) r (w + 1) = ring_contents N buf r w @ [x]"
proof (rule nth_equalityI)
  note s = unat_Suc_diff [OF assms(1,2)]
  show "length (ring_contents N (buf[unat w mod N := x]) r (w + 1))
      = length (ring_contents N buf r w @ [x])" by (simp add: s)
  fix k assume "k < length (ring_contents N (buf[unat w mod N := x]) r (w + 1))"
  then have k: "k < Suc (unat (w - r))" by (simp only: length_ring_contents s)
  have w: "unat w mod N = (unat r + unat (w - r)) mod N"
    using unat_add_mod [OF assms(3), of r "unat (w - r)"] by (simp add: of_nat_unat)
  have "N \<noteq> 0" using assms(1) by simp
  show "ring_contents N (buf[unat w mod N := x]) r (w + 1) ! k = (ring_contents N buf r w @ [x]) ! k"
  proof (cases "k = unat (w - r)")
    case True
    then show ?thesis using k \<open>N \<noteq> 0\<close> assms(4)
      by (simp add: ring_contents_nth s nth_append w unat_add_mod [OF assms(3)])
  next
    case False
    then have "k < unat (w - r)" using k by simp
    moreover from this have "(unat r + k) mod N \<noteq> (unat r + unat (w - r)) mod N"
      by (rule slots_apart) (rule assms(1))
    ultimately show ?thesis using k
      by (simp add: ring_contents_nth s nth_append w unat_add_mod [OF assms(3)])
  qed
qed

lemma ring_get:
  assumes "r \<noteq> w"
  shows "ring_contents N buf r w = buf ! (unat r mod N) # ring_contents N buf (r + 1) w"
proof (rule nth_equalityI)
  have "w - r \<noteq> 0" using assms by simp
  then have s: "unat (w - r) = Suc (unat (w - (r + 1)))"
    using unat_minus_one [of "w - r"] unat_gt_0 [of "w - r"] by (simp add: algebra_simps)
  show "length (ring_contents N buf r w)
      = length (buf ! (unat r mod N) # ring_contents N buf (r + 1) w)"
    by (simp add: s)
  fix k assume "k < length (ring_contents N buf r w)"
  then show "ring_contents N buf r w ! k
      = (buf ! (unat r mod N) # ring_contents N buf (r + 1) w) ! k"
    by (cases k) (simp_all add: ring_contents_nth s add.assoc)
qed

lemma ring_unput:
  assumes "r \<noteq> w"
  shows "ring_contents N buf r (w - 1) = butlast (ring_contents N buf r w)"
proof (rule nth_equalityI)
  have "w - r \<noteq> 0" using assms by simp
  then have s: "unat (w - 1 - r) = unat (w - r) - 1"
    using unat_minus_one [of "w - r"] by (simp add: algebra_simps)
  show "length (ring_contents N buf r (w - 1)) = length (butlast (ring_contents N buf r w))"
    by (simp add: s)
  fix k assume "k < length (ring_contents N buf r (w - 1))"
  then show "ring_contents N buf r (w - 1) ! k = butlast (ring_contents N buf r w) ! k"
    by (simp add: ring_contents_nth s nth_butlast)
qed

lemma ring_empty: "ring_contents N buf r w = [] \<longleftrightarrow> r = w"
  by (metis length_0_conv length_ring_contents unat_eq_zero right_minus_eq)

lemma ring_full:
  assumes "unat (w - r) \<le> N" "N < 2 ^ 32"
  shows "w = r + of_nat N \<longleftrightarrow> length (ring_contents N buf r w) = N"
proof -
  have "unat (of_nat N :: u32) = N" using assms(2) by (intro unat_of_nat_small) simp
  then show ?thesis
    by (metis add_diff_cancel_left' diff_add_cancel add.commute length_ring_contents of_nat_unat ucast_id)
qed

section \<open>The interface of a byte queue\<close>

locale ring_buffer =
  fixes put :: "'a \<Rightarrow> 'q \<Rightarrow> 'q"
    and get :: "'q \<Rightarrow> 'a \<times> 'q"
    and contents :: "'q \<Rightarrow> 'a list"
    and inv :: "'q \<Rightarrow> bool"
    and cap :: nat
  assumes put_contents: "inv q \<Longrightarrow> length (contents q) < cap \<Longrightarrow> contents (put x q) = contents q @ [x]"
    and put_inv: "inv q \<Longrightarrow> length (contents q) < cap \<Longrightarrow> inv (put x q)"
    and get_contents: "inv q \<Longrightarrow> contents q \<noteq> [] \<Longrightarrow> contents q = fst (get q) # contents (snd (get q))"
    and get_inv: "inv q \<Longrightarrow> contents q \<noteq> [] \<Longrightarrow> inv (snd (get q))"
begin

fun put_all :: "'a list \<Rightarrow> 'q \<Rightarrow> 'q" where
  "put_all [] q = q"
| "put_all (x # xs) q = put_all xs (put x q)"

fun get_many :: "nat \<Rightarrow> 'q \<Rightarrow> 'a list \<times> 'q" where
  "get_many 0 q = ([], q)"
| "get_many (Suc n) q = (let (x, q) = get q; (xs, q) = get_many n q in (x # xs, q))"

lemma put_all_contents:
  "inv q \<Longrightarrow> length (contents q) + length xs \<le> cap \<Longrightarrow>
     contents (put_all xs q) = contents q @ xs \<and> inv (put_all xs q)"
  by (induction xs arbitrary: q) (simp_all add: put_contents put_inv)

lemma get_many_contents:
  "inv q \<Longrightarrow> n \<le> length (contents q) \<Longrightarrow>
     fst (get_many n q) @ contents (snd (get_many n q)) = contents q
     \<and> length (fst (get_many n q)) = n \<and> inv (snd (get_many n q))"
proof (induction n arbitrary: q)
  case (Suc n)
  obtain x q1 where g: "get q = (x, q1)" by fastforce
  have ne: "contents q \<noteq> []" using Suc.prems by auto
  have c: "contents q = x # contents q1" and i: "inv q1"
    using get_contents [OF Suc.prems(1) ne] get_inv [OF Suc.prems(1) ne] g by simp_all
  with Suc.IH [OF i] Suc.prems(2) show ?case
    by (simp add: g split: prod.split) force
qed simp

text \<open>What goes in comes out, in order.\<close>

lemma put_then_get:
  assumes "inv q" "contents q = []" "length xs \<le> cap"
  shows "fst (get_many (length xs) (put_all xs q)) = xs"
proof -
  have c: "contents (put_all xs q) = xs" "inv (put_all xs q)"
    using put_all_contents [OF assms(1)] assms(2,3) by simp_all
  then show ?thesis using get_many_contents [OF c(2), of "length xs"]
    by (metis append_eq_append_conv append_Nil2 le_refl)
qed

end

end
