(* ===== verification/Pipe.thy ===== *)
theory Pipe
  imports Ring
begin

text \<open>
  Kernel pipes (pipe.c). \<open>pipewrite\<close> and \<open>piperead\<close> run under the pipe's lock and
  give it up only in \<open>sleep\<close>, so what happens between two sleeps is atomic: one
  segment per \<open>sleep\<close> or return, and a step relation interleaves the segments of
  any number of processes. \<open>wakeup\<close> makes every sleeper of a channel runnable,
  as proved of \<open>wakeup1\<close> in the process theory. The user buffer a writer reads
  from is the list of bytes it holds when the call starts.
\<close>

section \<open>pipe.c\<close>

definition PIPESIZE :: nat where "PIPESIZE = 512"

record pipe =
  data :: "u8 list"
  nread :: u32
  nwrite :: u32
  readopen :: bool
  writeopen :: bool

definition pipe_init :: "u8 list \<Rightarrow> pipe" where
  "pipe_init page = \<lparr>data = page, nread = 0, nwrite = 0, readopen = True, writeopen = True\<rparr>"

text \<open>The two array accesses \<open>data[nwrite++ % PIPESIZE] = c\<close> and \<open>data[nread++ % PIPESIZE]\<close>.\<close>

definition pipe_put :: "u8 \<Rightarrow> pipe \<Rightarrow> pipe" where
  "pipe_put c p = p\<lparr>data := (data p)[unat (nwrite p) mod PIPESIZE := c], nwrite := nwrite p + 1\<rparr>"

definition pipe_get :: "pipe \<Rightarrow> u8 \<times> pipe" where
  "pipe_get p = (data p ! (unat (nread p) mod PIPESIZE), p\<lparr>nread := nread p + 1\<rparr>)"

text \<open>What a segment of \<open>pipewrite\<close> ends with; the list is what is left of \<open>addr[i..n)\<close>.\<close>

datatype wresult = WDone | WBroken "u8 list" | WSleeps "u8 list"

fun pipewrite_loop :: "bool \<Rightarrow> u8 list \<Rightarrow> pipe \<Rightarrow> wresult \<times> pipe" where
  "pipewrite_loop killed [] p = (WDone, p)"
| "pipewrite_loop killed (c # cs) p =
     (if nwrite p = nread p + of_nat PIPESIZE
      then (if \<not> readopen p \<or> killed then (WBroken (c # cs), p) else (WSleeps (c # cs), p))
      else pipewrite_loop killed cs (pipe_put c p))"

datatype rresult = RDone "u8 list" | RKilled | RSleeps

fun piperead_copy :: "nat \<Rightarrow> pipe \<Rightarrow> u8 list \<times> pipe" where
  "piperead_copy 0 p = ([], p)"
| "piperead_copy (Suc n) p =
     (if nread p = nwrite p then ([], p)
      else let (c, p) = pipe_get p; (cs, p) = piperead_copy n p in (c # cs, p))"

definition piperead :: "bool \<Rightarrow> nat \<Rightarrow> pipe \<Rightarrow> rresult \<times> pipe" where
  "piperead killed n p =
     (if nread p = nwrite p \<and> writeopen p
      then (if killed then (RKilled, p) else (RSleeps, p))
      else let (cs, p) = piperead_copy n p in (RDone cs, p))"

text \<open>The flag tells whether the page of the pipe is freed.\<close>

definition pipeclose :: "pipe \<Rightarrow> bool \<Rightarrow> pipe \<times> bool" where
  "pipeclose p writable =
     (let p = (if writable then p\<lparr>writeopen := False\<rparr> else p\<lparr>readopen := False\<rparr>)
      in (p, \<not> readopen p \<and> \<not> writeopen p))"

section \<open>A pipe is a ring buffer\<close>

definition pipe_contents :: "pipe \<Rightarrow> u8 list" where
  "pipe_contents p = ring_contents PIPESIZE (data p) (nread p) (nwrite p)"

definition pipe_ok :: "pipe \<Rightarrow> bool" where
  "pipe_ok p \<longleftrightarrow> length (data p) = PIPESIZE \<and> length (pipe_contents p) \<le> PIPESIZE"

interpretation pipe_ring: ring_buffer pipe_put pipe_get pipe_contents pipe_ok PIPESIZE
proof unfold_locales
  fix q :: pipe and x
  assume q: "pipe_ok q" and room: "length (pipe_contents q) < PIPESIZE"
  then show c: "pipe_contents (pipe_put x q) = pipe_contents q @ [x]"
    by (simp add: pipe_contents_def pipe_put_def pipe_ok_def PIPESIZE_def ring_put)
  show "pipe_ok (pipe_put x q)"
    using q room c by (simp add: pipe_ok_def) (simp add: pipe_put_def)
next
  fix q :: pipe
  assume q: "pipe_ok q" and ne: "pipe_contents q \<noteq> []"
  then have "nread q \<noteq> nwrite q" by (simp add: pipe_contents_def ring_empty)
  then show c: "pipe_contents q = fst (pipe_get q) # pipe_contents (snd (pipe_get q))"
    by (simp add: pipe_contents_def pipe_get_def ring_get)
  then have "length (pipe_contents q) = Suc (length (pipe_contents (snd (pipe_get q))))"
    by (metis length_Cons)
  then show "pipe_ok (snd (pipe_get q))"
    using q by (simp add: pipe_ok_def) (simp add: pipe_get_def)
qed

lemma pipe_full:
  assumes "pipe_ok p"
  shows "nwrite p = nread p + of_nat PIPESIZE \<longleftrightarrow> length (pipe_contents p) = PIPESIZE"
proof -
  have "PIPESIZE < 2 ^ 32" by (simp add: PIPESIZE_def)
  then show ?thesis
    using ring_full [of "nwrite p" "nread p" PIPESIZE "data p"] assms
    by (simp add: pipe_ok_def pipe_contents_def)
qed

lemma pipe_empty: "nread p = nwrite p \<longleftrightarrow> pipe_contents p = []"
  by (simp add: pipe_contents_def ring_empty)

lemma pipe_put_flags [simp]:
  "readopen (pipe_put c p) = readopen p" "writeopen (pipe_put c p) = writeopen p"
  by (simp_all add: pipe_put_def)

lemma put_all_flags [simp]:
  "readopen (pipe_ring.put_all cs p) = readopen p"
  "writeopen (pipe_ring.put_all cs p) = writeopen p"
  by (induction cs arbitrary: p) simp_all

text \<open>A segment of \<open>pipewrite\<close> stores what fits and stops at the first byte that does not.\<close>

lemma pipewrite_loop_spec:
  "pipe_ok p \<Longrightarrow> pipewrite_loop killed cs p =
     (let room = PIPESIZE - length (pipe_contents p) in
      (if length cs \<le> room then WDone
       else if \<not> readopen p \<or> killed then WBroken (drop room cs) else WSleeps (drop room cs),
       pipe_ring.put_all (take room cs) p))"
proof (induction cs arbitrary: p)
  case Nil
  then show ?case by simp
next
  case (Cons c cs)
  show ?case
  proof (cases "length (pipe_contents p) = PIPESIZE")
    case True
    then show ?thesis using pipe_full [OF Cons.prems] by simp
  next
    case False
    then have room: "length (pipe_contents p) < PIPESIZE"
      using Cons.prems by (simp add: pipe_ok_def)
    then obtain k where k: "PIPESIZE - length (pipe_contents p) = Suc k"
      by (metis Suc_diff_Suc)
    have "pipe_contents (pipe_put c p) = pipe_contents p @ [c]" "pipe_ok (pipe_put c p)"
      using pipe_ring.put_contents [OF Cons.prems room] pipe_ring.put_inv [OF Cons.prems room] by simp_all
    moreover have "PIPESIZE - Suc (length (pipe_contents p)) = k" using k by simp
    ultimately show ?thesis
      using Cons.IH [of "pipe_put c p"] pipe_full [OF Cons.prems] False k by simp
  qed
qed

lemma piperead_copy_spec:
  "pipe_ok p \<Longrightarrow> piperead_copy n p =
     pipe_ring.get_many (min n (length (pipe_contents p))) p"
proof (induction n arbitrary: p)
  case (Suc n)
  show ?case
  proof (cases "pipe_contents p = []")
    case True
    then show ?thesis by (simp add: pipe_empty)
  next
    case False
    obtain c p1 where g: "pipe_get p = (c, p1)" by fastforce
    have "pipe_contents p = c # pipe_contents p1" "pipe_ok p1"
      using pipe_ring.get_contents [OF Suc.prems False] pipe_ring.get_inv [OF Suc.prems False] g by simp_all
    then show ?thesis using Suc.IH [of p1] False by (simp add: pipe_empty g)
  qed
qed simp

section \<open>Processes sharing a pipe\<close>

text \<open>
  What a process does with the pipe: nothing, a call that holds or waits for the
  lock, or a call asleep on \<open>&p->nwrite\<close> (writers) or \<open>&p->nread\<close> (readers).
\<close>

datatype pact = PIdle | Writing "u8 list" | WAsleep "u8 list" | Reading nat | RAsleep nat

record psys =
  the_pipe :: pipe
  act :: "nat \<Rightarrow> pact"
  killed :: "nat \<Rightarrow> bool"
  sent :: "u8 list"
  got :: "u8 list"
  cut :: bool

definition wake_readers :: "(nat \<Rightarrow> pact) \<Rightarrow> nat \<Rightarrow> pact" where
  "wake_readers a = (\<lambda>q. case a q of RAsleep n \<Rightarrow> Reading n | x \<Rightarrow> x)"

definition wake_writers :: "(nat \<Rightarrow> pact) \<Rightarrow> nat \<Rightarrow> pact" where
  "wake_writers a = (\<lambda>q. case a q of WAsleep cs \<Rightarrow> Writing cs | x \<Rightarrow> x)"

definition run_again :: "pact \<Rightarrow> pact" where
  "run_again a = (case a of WAsleep cs \<Rightarrow> Writing cs | RAsleep n \<Rightarrow> Reading n | x \<Rightarrow> x)"

text \<open>One segment of a call, with the wakeups it issues.\<close>

definition write_segment :: "nat \<Rightarrow> u8 list \<Rightarrow> psys \<Rightarrow> psys" where
  "write_segment q cs s =
     (case pipewrite_loop (killed s q) cs (the_pipe s) of
        (WDone, p) \<Rightarrow> s\<lparr>the_pipe := p, sent := sent s @ cs,
            act := wake_readers ((act s)(q := PIdle))\<rparr>
      | (WSleeps r, p) \<Rightarrow> s\<lparr>the_pipe := p, sent := sent s @ take (length cs - length r) cs,
            act := (wake_readers (act s))(q := WAsleep r)\<rparr>
      | (WBroken r, p) \<Rightarrow> s\<lparr>the_pipe := p, sent := sent s @ take (length cs - length r) cs,
            act := (act s)(q := PIdle), cut := cut s \<or> readopen p\<rparr>)"

definition read_segment :: "nat \<Rightarrow> nat \<Rightarrow> psys \<Rightarrow> psys" where
  "read_segment q n s =
     (case piperead (killed s q) n (the_pipe s) of
        (RDone cs, p) \<Rightarrow> s\<lparr>the_pipe := p, got := got s @ cs,
            act := wake_writers ((act s)(q := PIdle))\<rparr>
      | (RSleeps, p) \<Rightarrow> s\<lparr>the_pipe := p, act := (act s)(q := RAsleep n)\<rparr>
      | (RKilled, p) \<Rightarrow> s\<lparr>the_pipe := p, act := (act s)(q := PIdle)\<rparr>)"

fun reads :: "pact \<Rightarrow> bool" where
  "reads (Reading n) = True"
| "reads (RAsleep n) = True"
| "reads _ = False"

fun writes :: "pact \<Rightarrow> bool" where
  "writes (Writing cs) = True"
| "writes (WAsleep cs) = True"
| "writes _ = False"

text \<open>
  A call starts on an open end only, and an end is closed when no call uses it:
  the file layer counts references.
\<close>

inductive pipe_step :: "psys \<Rightarrow> psys \<Rightarrow> bool" where
  start_write: "act s q = PIdle \<Longrightarrow> writeopen (the_pipe s) \<Longrightarrow>
    pipe_step s (s\<lparr>act := (act s)(q := Writing cs)\<rparr>)"
| start_read: "act s q = PIdle \<Longrightarrow> readopen (the_pipe s) \<Longrightarrow>
    pipe_step s (s\<lparr>act := (act s)(q := Reading n)\<rparr>)"
| write_seg: "act s q = Writing cs \<Longrightarrow> pipe_step s (write_segment q cs s)"
| read_seg: "act s q = Reading n \<Longrightarrow> pipe_step s (read_segment q n s)"
| close_write: "\<forall>q. \<not> writes (act s q) \<Longrightarrow>
    pipe_step s (s\<lparr>the_pipe := fst (pipeclose (the_pipe s) True), act := wake_readers (act s)\<rparr>)"
| close_read: "\<forall>q. \<not> reads (act s q) \<Longrightarrow>
    pipe_step s (s\<lparr>the_pipe := fst (pipeclose (the_pipe s) False), act := wake_writers (act s)\<rparr>)"
| kill_proc: "pipe_step s (s\<lparr>killed := (killed s)(q := True), act := (act s)(q := run_again (act s q))\<rparr>)"

definition psys_init :: "u8 list \<Rightarrow> psys" where
  "psys_init page = \<lparr>the_pipe = pipe_init page, act = (\<lambda>_. PIdle), killed = (\<lambda>_. False),
     sent = [], got = [], cut = False\<rparr>"

definition pipe_reach :: "psys \<Rightarrow> bool" where
  "pipe_reach s \<longleftrightarrow> (\<exists>page. length page = PIPESIZE \<and> pipe_step\<^sup>*\<^sup>* (psys_init page) s)"

section \<open>Invariants\<close>

lemma pipe_contents_close [simp]: "pipe_contents (fst (pipeclose p w)) = pipe_contents p"
  by (simp add: pipeclose_def pipe_contents_def)

lemma pipe_ok_close [simp]: "pipe_ok (fst (pipeclose p w)) = pipe_ok p"
  by (simp add: pipe_ok_def) (simp add: pipeclose_def)

lemma pipe_close_flags [simp]:
  "readopen (fst (pipeclose p True)) = readopen p" "\<not> writeopen (fst (pipeclose p True))"
  "writeopen (fst (pipeclose p False)) = writeopen p" "\<not> readopen (fst (pipeclose p False))"
  by (simp_all add: pipeclose_def)

lemma get_many_flags [simp]:
  "readopen (snd (pipe_ring.get_many n p)) = readopen p"
  "writeopen (snd (pipe_ring.get_many n p)) = writeopen p"
  by (induction n arbitrary: p) (simp_all add: pipe_get_def Let_def split_def)

text \<open>What the two segments do to the queue of bytes.\<close>

lemma write_segment_queue:
  assumes "pipe_ok (the_pipe s)" and "write_segment q cs s = s'"
  shows "pipe_ok (the_pipe s')" and "got s' = got s" and "killed s' = killed s"
    and "\<exists>k. sent s' = sent s @ take k cs
      \<and> pipe_contents (the_pipe s') = pipe_contents (the_pipe s) @ take k cs"
    and "readopen (the_pipe s') = readopen (the_pipe s)"
    and "writeopen (the_pipe s') = writeopen (the_pipe s)"
proof -
  let ?room = "PIPESIZE - length (pipe_contents (the_pipe s))"
  have fit: "length (pipe_contents (the_pipe s)) + length (take ?room cs) \<le> PIPESIZE"
    using assms(1) by (auto simp: pipe_ok_def)
  note pa = pipe_ring.put_all_contents [OF assms(1) fit]
  have t: "take (length cs - length (drop ?room cs)) cs = take ?room cs"
    by (cases "length cs \<le> ?room") auto
  show "pipe_ok (the_pipe s')" "got s' = got s" "killed s' = killed s"
    "readopen (the_pipe s') = readopen (the_pipe s)" "writeopen (the_pipe s') = writeopen (the_pipe s)"
    using pa by (auto simp: write_segment_def pipewrite_loop_spec [OF assms(1)] Let_def
        assms(2) [symmetric])
  show "\<exists>k. sent s' = sent s @ take k cs
      \<and> pipe_contents (the_pipe s') = pipe_contents (the_pipe s) @ take k cs"
    using pa t by (intro exI [of _ ?room])
      (auto simp: write_segment_def pipewrite_loop_spec [OF assms(1)] Let_def assms(2) [symmetric])
qed

lemma read_segment_queue:
  assumes "pipe_ok (the_pipe s)" and "read_segment q n s = s'"
  shows "pipe_ok (the_pipe s')" and "sent s' = sent s" and "killed s' = killed s"
    and "\<exists>cs. got s' = got s @ cs \<and> pipe_contents (the_pipe s) = cs @ pipe_contents (the_pipe s')"
    and "readopen (the_pipe s') = readopen (the_pipe s)"
    and "writeopen (the_pipe s') = writeopen (the_pipe s)"
proof -
  let ?k = "min n (length (pipe_contents (the_pipe s)))"
  obtain cs p where g: "pipe_ring.get_many ?k (the_pipe s) = (cs, p)" by fastforce
  have "cs @ pipe_contents p = pipe_contents (the_pipe s)" "pipe_ok p"
    "readopen p = readopen (the_pipe s)" "writeopen p = writeopen (the_pipe s)"
    using pipe_ring.get_many_contents [OF assms(1), of ?k] g
      get_many_flags [of ?k "the_pipe s"] by auto
  with g show "pipe_ok (the_pipe s')" "sent s' = sent s" "killed s' = killed s"
    "\<exists>cs. got s' = got s @ cs \<and> pipe_contents (the_pipe s) = cs @ pipe_contents (the_pipe s')"
    "readopen (the_pipe s') = readopen (the_pipe s)" "writeopen (the_pipe s') = writeopen (the_pipe s)"
    using assms(1) by (auto simp: read_segment_def piperead_def piperead_copy_spec [OF assms(1)]
        assms(2) [symmetric])
qed

definition queue_inv :: "psys \<Rightarrow> bool" where
  "queue_inv s \<longleftrightarrow> pipe_ok (the_pipe s) \<and> sent s = got s @ pipe_contents (the_pipe s)"

lemma queue_inv_init: "length page = PIPESIZE \<Longrightarrow> queue_inv (psys_init page)"
  by (simp add: queue_inv_def psys_init_def pipe_ok_def pipe_contents_def pipe_init_def ring_contents_def)

lemma queue_inv_step: "pipe_step s s' \<Longrightarrow> queue_inv s \<Longrightarrow> queue_inv s'"
proof (induction rule: pipe_step.induct)
  case (write_seg s q cs)
  then show ?case using write_segment_queue [OF _ refl, of s q cs] by (auto simp: queue_inv_def)
next
  case (read_seg s q n)
  then show ?case using read_segment_queue [OF _ refl, of s q n] by (force simp: queue_inv_def)
qed (auto simp: queue_inv_def)

lemma reach_queue_inv: "pipe_reach s \<Longrightarrow> queue_inv s"
  unfolding pipe_reach_def
  by (auto elim!: rtranclp_induct intro: queue_inv_init queue_inv_step)

text \<open>
  Who sleeps and why: a reader sleeps on an empty pipe that can still be written,
  a writer on a full one that can still be read, unless a killed writer was cut
  short (it returns -1 on a full pipe without waking the readers).
\<close>

definition sleep_inv :: "psys \<Rightarrow> bool" where
  "sleep_inv s \<longleftrightarrow>
     (\<forall>q. reads (act s q) \<longrightarrow> readopen (the_pipe s)) \<and>
     (\<not> cut s \<longrightarrow> (\<forall>q n. act s q = RAsleep n \<longrightarrow>
        pipe_contents (the_pipe s) = [] \<and> writeopen (the_pipe s))) \<and>
     (\<forall>q cs. act s q = WAsleep cs \<longrightarrow>
        length (pipe_contents (the_pipe s)) = PIPESIZE \<and> readopen (the_pipe s))"

lemma wake_cases [simp]:
  "wake_readers a q \<noteq> RAsleep n" "wake_writers a q \<noteq> WAsleep cs"
  "wake_readers a q = WAsleep cs \<longleftrightarrow> a q = WAsleep cs"
  "wake_writers a q = RAsleep n \<longleftrightarrow> a q = RAsleep n"
  "reads (wake_readers a q) = reads (a q)" "reads (wake_writers a q) = reads (a q)"
  by (cases "a q"; simp add: wake_readers_def wake_writers_def)+

lemma run_again_cases [simp]:
  "run_again a \<noteq> RAsleep n" "run_again a \<noteq> WAsleep cs" "reads (run_again a) = reads a"
  by (cases a; simp add: run_again_def)+

text \<open>On a full pipe a writer stores nothing, on an empty one a reader takes nothing.\<close>

lemma put_nothing: "take (PIPESIZE - PIPESIZE) cs = []"
  by simp

lemma write_segment_acts:
  assumes "pipe_ok (the_pipe s)" and s': "s' = write_segment q cs s"
  shows "(act s' q = PIdle \<and> (\<forall>p. p \<noteq> q \<longrightarrow> act s' p = wake_readers (act s) p) \<and> cut s' = cut s)
    \<or> (act s' q = PIdle \<and> (\<forall>p. p \<noteq> q \<longrightarrow> act s' p = act s p)
        \<and> cut s' = (cut s \<or> readopen (the_pipe s)))
    \<or> ((\<exists>r. act s' q = WAsleep r) \<and> (\<forall>p. p \<noteq> q \<longrightarrow> act s' p = wake_readers (act s) p)
        \<and> cut s' = cut s \<and> readopen (the_pipe s)
        \<and> length (pipe_contents (the_pipe s')) = PIPESIZE)"
proof -
  let ?room = "PIPESIZE - length (pipe_contents (the_pipe s))"
  have fit: "length (pipe_contents (the_pipe s)) + length (take ?room cs) \<le> PIPESIZE"
    using assms(1) by (auto simp: pipe_ok_def)
  note pa = pipe_ring.put_all_contents [OF assms(1) fit]
  have "length (pipe_contents (pipe_ring.put_all (take ?room cs) (the_pipe s))) = PIPESIZE"
    if "\<not> length cs \<le> ?room"
    using pa that assms(1) by (auto simp: pipe_ok_def)
  then show ?thesis
    by (auto simp: s' write_segment_def pipewrite_loop_spec [OF assms(1)] Let_def wake_readers_def)
qed

lemma sleep_inv_write:
  assumes a: "act s q = Writing cs" and q: "queue_inv s" and i: "sleep_inv s"
  shows "sleep_inv (write_segment q cs s)"
proof -
  let ?s' = "write_segment q cs s"
  have ok: "pipe_ok (the_pipe s)" using q by (simp add: queue_inv_def)
  note wq = write_segment_queue [OF ok refl, of q cs]
  have full: "length (pipe_contents (the_pipe ?s')) = PIPESIZE"
    if "length (pipe_contents (the_pipe s)) = PIPESIZE"
    using wq(1,4) that by (auto simp: pipe_ok_def)
  have same: "reads (act ?s' p) \<Longrightarrow> reads (act s p)" for p
    using write_segment_acts [OF ok refl, of q cs] by (cases "p = q") auto
  have ws: "act ?s' p = WAsleep r \<Longrightarrow> p \<noteq> q \<Longrightarrow> act s p = WAsleep r" for p r
    using write_segment_acts [OF ok refl, of q cs] by auto
  have rs: "act ?s' p = RAsleep n \<Longrightarrow> act s p = RAsleep n \<and> cut ?s' = (cut s \<or> readopen (the_pipe s))" for p n
    using write_segment_acts [OF ok refl, of q cs] by (cases "p = q") auto
  show ?thesis
    unfolding sleep_inv_def
  proof (intro conjI allI impI)
    fix p assume "reads (act ?s' p)"
    then show "readopen (the_pipe ?s')" using same i wq(5) by (auto simp: sleep_inv_def)
  next
    fix p n assume "\<not> cut ?s'" "act ?s' p = RAsleep n"
    then have "act s p = RAsleep n" "\<not> readopen (the_pipe s)" using rs by auto
    then have False using i unfolding sleep_inv_def by (metis reads.simps(2))
    then show "pipe_contents (the_pipe ?s') = []" "writeopen (the_pipe ?s')" by simp_all
  next
    fix p r assume w: "act ?s' p = WAsleep r"
    show "length (pipe_contents (the_pipe ?s')) = PIPESIZE" "readopen (the_pipe ?s')"
      using w ws [of p r] i full wq(5) write_segment_acts [OF ok refl, of q cs]
      by (cases "p = q"; auto simp: sleep_inv_def)+
  qed
qed

lemma sleep_inv_read:
  assumes a: "act s q = Reading n" and q: "queue_inv s" and i: "sleep_inv s"
  shows "sleep_inv (read_segment q n s)"
proof -
  let ?s' = "read_segment q n s"
  have ok: "pipe_ok (the_pipe s)" using q by (simp add: queue_inv_def)
  note rq = read_segment_queue [OF ok refl, of q n]
  have ro: "readopen (the_pipe s)" using i a unfolding sleep_inv_def by (metis reads.simps(1))
  show ?thesis
  proof (cases "pipe_contents (the_pipe s) = [] \<and> writeopen (the_pipe s)")
    case True
    then show ?thesis using i ro ok
      by (auto simp: read_segment_def piperead_def pipe_empty sleep_inv_def)
  next
    case False
    then have acts: "act ?s' = wake_writers ((act s)(q := PIdle))" and c: "cut ?s' = cut s"
      by (auto simp: read_segment_def piperead_def pipe_empty split: prod.splits)
    have "reads (act ?s' p) \<Longrightarrow> readopen (the_pipe ?s')" for p using ro rq(5) by simp
    moreover have "\<not> (act ?s' p = RAsleep k \<and> \<not> cut ?s')" for p k
      using i False c by (auto simp: acts sleep_inv_def)
    moreover have "act ?s' p \<noteq> WAsleep r" for p r by (simp add: acts)
    ultimately show ?thesis unfolding sleep_inv_def by blast
  qed
qed

lemma sleep_inv_step: "pipe_step s s' \<Longrightarrow> queue_inv s \<Longrightarrow> sleep_inv s \<Longrightarrow> sleep_inv s'"
proof (induction rule: pipe_step.induct)
  case (write_seg s q cs)
  then show ?case by (blast intro: sleep_inv_write)
next
  case (read_seg s q n)
  then show ?case by (blast intro: sleep_inv_read)
next
  case (close_write s)
  then show ?case by (auto simp: sleep_inv_def)
next
  case (close_read s)
  then show ?case by (fastforce simp: sleep_inv_def)
next
  case (kill_proc s q)
  then show ?case by (auto simp: sleep_inv_def)
qed (auto simp: sleep_inv_def)

lemma reach_sleep_inv: "pipe_reach s \<Longrightarrow> sleep_inv s"
proof -
  assume "pipe_reach s"
  then obtain page where page: "length page = PIPESIZE" "pipe_step\<^sup>*\<^sup>* (psys_init page) s"
    by (auto simp: pipe_reach_def)
  from page(2) have "queue_inv s \<and> sleep_inv s"
  proof (induction rule: rtranclp_induct)
    case base
    then show ?case using page(1) by (simp add: queue_inv_init) (simp add: sleep_inv_def psys_init_def)
  next
    case (step y z)
    then show ?case by (blast intro: queue_inv_step sleep_inv_step)
  qed
  then show ?thesis ..
qed

section \<open>Properties\<close>

text \<open>
  C23. A pipe is a first-in first-out queue for any interleaving of any number of
  readers and writers, kills and closes: the bytes readers have got, followed by the
  bytes in the buffer, are exactly the bytes writers have stored, in order, and
  the buffer never holds more than \<open>PIPESIZE\<close>, also when the counters wrap.
\<close>

theorem pipe_fifo:
  assumes "pipe_reach s"
  shows "sent s = got s @ pipe_contents (the_pipe s)
    \<and> length (pipe_contents (the_pipe s)) \<le> PIPESIZE"
  using reach_queue_inv [OF assms] by (simp add: queue_inv_def pipe_ok_def)

lemma reach_start: "length page = PIPESIZE \<Longrightarrow> pipe_reach (psys_init page)"
  by (auto simp: pipe_reach_def)

lemma pipe_reach_step: "pipe_reach s \<Longrightarrow> pipe_step s s' \<Longrightarrow> pipe_reach s'"
  by (auto simp: pipe_reach_def)

definition page0 :: "u8 list" where "page0 = replicate PIPESIZE 0"

lemma start_ok [simp]: "pipe_ok (the_pipe (psys_init page0))" "pipe_contents (the_pipe (psys_init page0)) = []"
  by (simp_all add: psys_init_def pipe_ok_def pipe_contents_def pipe_init_def ring_contents_def page0_def)

definition psys_written :: psys where
  "psys_written = write_segment 1 [7, 8] ((psys_init page0)\<lparr>act := (act (psys_init page0))(1 := Writing [7, 8])\<rparr>)"

lemma reach_written: "pipe_reach psys_written"
proof -
  have "pipe_reach ((psys_init page0)\<lparr>act := (act (psys_init page0))(1 := Writing [7, 8])\<rparr>)"
    by (rule pipe_reach_step [OF reach_start pipe_step.start_write])
      (simp_all add: page0_def psys_init_def pipe_init_def)
  then show ?thesis unfolding psys_written_def
    by (rule pipe_reach_step) (rule pipe_step.write_seg, simp)
qed

theorem pipe_fifo_witness:
  "sent psys_written = got psys_written @ pipe_contents (the_pipe psys_written)
   \<and> sent psys_written = [7, 8]"
proof -
  have "sent psys_written = [7, 8]"
    by (simp add: psys_written_def write_segment_def pipewrite_loop_spec PIPESIZE_def
        del: pipewrite_loop.simps) (simp add: psys_init_def)
  then show ?thesis using pipe_fifo [OF reach_written] by simp
qed

text \<open>
  C27. No wakeup is lost: as long as no killed writer was cut short, a process
  asleep in \<open>piperead\<close> faces an empty pipe with an open write end and a process
  asleep in \<open>pipewrite\<close> a full pipe with an open read end.
\<close>

theorem pipe_no_lost_wakeup:
  assumes "pipe_reach s" and "\<not> cut s"
  shows "(act s q = RAsleep n \<longrightarrow> pipe_contents (the_pipe s) = [] \<and> writeopen (the_pipe s))
    \<and> (act s q = WAsleep cs \<longrightarrow> length (pipe_contents (the_pipe s)) = PIPESIZE \<and> readopen (the_pipe s))"
  using reach_sleep_inv [OF assms(1)] assms(2) by (auto simp: sleep_inv_def)

definition psys_waiting :: psys where
  "psys_waiting = read_segment 2 1 ((psys_init page0)\<lparr>act := (act (psys_init page0))(2 := Reading 1)\<rparr>)"

lemma reach_waiting: "pipe_reach psys_waiting"
proof -
  have "pipe_reach ((psys_init page0)\<lparr>act := (act (psys_init page0))(2 := Reading 1)\<rparr>)"
    by (rule pipe_reach_step [OF reach_start pipe_step.start_read])
      (simp_all add: page0_def psys_init_def pipe_init_def)
  then show ?thesis unfolding psys_waiting_def
    by (rule pipe_reach_step) (rule pipe_step.read_seg, simp)
qed

lemma psys_waiting_eq: "psys_waiting = (psys_init page0)\<lparr>act := (\<lambda>_. PIdle)(2 := RAsleep 1)\<rparr>"
  by (simp add: psys_waiting_def read_segment_def piperead_def psys_init_def pipe_init_def)

theorem pipe_no_lost_wakeup_witness:
  "act psys_waiting 2 = RAsleep 1 \<and> pipe_contents (the_pipe psys_waiting) = []
   \<and> writeopen (the_pipe psys_waiting)"
proof -
  have "\<not> cut psys_waiting" "act psys_waiting 2 = RAsleep 1"
    by (simp_all add: psys_waiting_eq psys_init_def)
  then show ?thesis using pipe_no_lost_wakeup [OF reach_waiting, of 2 1] by simp
qed

text \<open>
  With a killed writer a wakeup is lost: from a reader asleep on the empty
  pipe, a killed process that is already in \<open>pipewrite\<close> with more than \<open>PIPESIZE\<close>
  bytes fills the buffer and returns -1 without a \<open>wakeup\<close>; the reader sleeps on
  with a full buffer.
\<close>

theorem pipe_killed_writer_loses_wakeup:
  "\<exists>s. pipe_reach s \<and> act s 2 = RAsleep 1 \<and> length (pipe_contents (the_pipe s)) = PIPESIZE
     \<and> (\<forall>q cs. act s q \<noteq> Writing cs)"
proof -
  let ?cs = "replicate 513 (1 :: u8)"
  let ?s1 = "psys_waiting\<lparr>act := (act psys_waiting)(3 := Writing ?cs)\<rparr>"
  let ?s2 = "?s1\<lparr>killed := (killed ?s1)(3 := True), act := (act ?s1)(3 := run_again (act ?s1 3))\<rparr>"
  let ?s3 = "write_segment 3 ?cs ?s2"
  have ok: "pipe_ok (the_pipe ?s2)" "pipe_contents (the_pipe ?s2) = []"
    by (simp_all add: psys_waiting_eq)
  have "pipe_reach ?s1"
    by (rule pipe_reach_step [OF reach_waiting pipe_step.start_write])
      (simp_all add: psys_waiting_eq psys_init_def pipe_init_def)
  then have "pipe_reach ?s2" by (rule pipe_reach_step) (rule pipe_step.kill_proc)
  then have "pipe_reach ?s3"
    by (rule pipe_reach_step) (rule pipe_step.write_seg, simp add: run_again_def)
  moreover have "pipewrite_loop True ?cs (the_pipe ?s2)
      = (WBroken (drop PIPESIZE ?cs), pipe_ring.put_all (take PIPESIZE ?cs) (the_pipe ?s2))"
    using pipewrite_loop_spec [OF ok(1), of True ?cs] ok(2) by (simp add: PIPESIZE_def)
  moreover from this have "act ?s3 = (act ?s2)(3 := PIdle)"
    "the_pipe ?s3 = pipe_ring.put_all (take PIPESIZE ?cs) (the_pipe ?s2)"
    by (simp_all add: write_segment_def)
  moreover have "length (pipe_contents (pipe_ring.put_all (take PIPESIZE ?cs) (the_pipe ?s2))) = PIPESIZE"
    using pipe_ring.put_all_contents [OF ok(1), of "take PIPESIZE ?cs"] ok(2) by (simp add: PIPESIZE_def)
  ultimately show ?thesis
    by (intro exI [of _ ?s3]) (simp add: psys_waiting_eq)
qed

end
