(* ===== verification/Mutex.thy ===== *)
theory Mutex
  imports Prelude
begin

text \<open>
  What every lock of the repository promises, as a locale: threads enter the
  critical section one at a time, only when the lock is free, entering takes the
  lock and only a thread inside gives it back. The user-space spin lock, the
  kernel's spinlocks and its sleep locks interpret it.
\<close>

locale mutex =
  fixes init :: "'s \<Rightarrow> bool"
    and step :: "'s \<Rightarrow> 's \<Rightarrow> bool"
    and inside :: "'s \<Rightarrow> nat \<Rightarrow> bool"
    and held :: "'s \<Rightarrow> bool"
  assumes init_out: "init s \<Longrightarrow> \<not> inside s t"
    and enter_free: "step s s' \<Longrightarrow> \<not> inside s t \<Longrightarrow> inside s' t \<Longrightarrow> \<not> held s"
    and enter_takes: "step s s' \<Longrightarrow> \<not> inside s t \<Longrightarrow> inside s' t \<Longrightarrow> held s'"
    and enter_one: "step s s' \<Longrightarrow> \<not> inside s t \<Longrightarrow> inside s' t \<Longrightarrow> u \<noteq> t \<Longrightarrow> inside s' u = inside s u"
    and leave_gives: "step s s' \<Longrightarrow> held s \<Longrightarrow> \<not> held s' \<Longrightarrow> inside s t \<Longrightarrow>
      \<forall>u. inside s u \<longrightarrow> u = t \<Longrightarrow> \<not> inside s' t"
begin

definition reach :: "'s \<Rightarrow> bool" where
  "reach s \<longleftrightarrow> (\<exists>s0. init s0 \<and> step\<^sup>*\<^sup>* s0 s)"

definition excl :: "'s \<Rightarrow> bool" where
  "excl s \<longleftrightarrow> (\<forall>t u. inside s t \<longrightarrow> inside s u \<longrightarrow> t = u) \<and> ((\<exists>t. inside s t) \<longrightarrow> held s)"

lemma excl_init: "init s \<Longrightarrow> excl s"
  by (simp add: excl_def init_out)

lemma excl_step:
  assumes st: "step s s'" and ex: "excl s"
  shows "excl s'"
proof (cases "\<exists>t. \<not> inside s t \<and> inside s' t")
  case True
  then obtain t where t: "\<not> inside s t" "inside s' t" by blast
  then have "\<not> held s" "held s'" using enter_free enter_takes st by blast+
  then have "\<not> inside s u" for u using ex by (auto simp: excl_def)
  then have "inside s' u \<longleftrightarrow> u = t" for u using enter_one [OF st t] t(2) by auto
  then show ?thesis using \<open>held s'\<close> by (auto simp: excl_def)
next
  case False
  then have sub: "inside s' u \<Longrightarrow> inside s u" for u by blast
  then have one: "inside s' t \<Longrightarrow> inside s' u \<Longrightarrow> t = u" for t u using ex by (auto simp: excl_def)
  moreover have "held s'" if t: "inside s' t" for t
  proof (rule ccontr)
    assume "\<not> held s'"
    moreover have "inside s t" "held s" "\<forall>u. inside s u \<longrightarrow> u = t"
      using ex sub [OF t] by (auto simp: excl_def)
    ultimately show False using leave_gives [OF st] t by blast
  qed
  ultimately show ?thesis by (auto simp: excl_def)
qed

lemma reach_excl: "reach s \<Longrightarrow> excl s"
proof -
  assume "reach s"
  then obtain s0 where "init s0" "step\<^sup>*\<^sup>* s0 s" by (auto simp: reach_def)
  from this(2,1) show ?thesis
    by (induction rule: rtranclp_induct) (auto intro: excl_init excl_step)
qed

theorem mutual_exclusion: "reach s \<Longrightarrow> inside s t \<Longrightarrow> inside s u \<Longrightarrow> t = u"
  using reach_excl by (auto simp: excl_def)

theorem inside_held: "reach s \<Longrightarrow> inside s t \<Longrightarrow> held s"
  using reach_excl by (auto simp: excl_def)

lemma reach_init: "init s \<Longrightarrow> reach s"
  by (auto simp: reach_def)

lemma reach_step: "reach s \<Longrightarrow> step s s' \<Longrightarrow> reach s'"
  by (auto simp: reach_def intro: rtranclp.rtrancl_into_rtrancl)

end

end
