(* ===== verification/Atomics.thy ===== *)
theory Atomics
  imports Mutex
begin

text \<open>
  The locks of atomic/ (spinlock, rwlock, seqlock) over the atomic operations of
  atomic.h. Every instruction that touches shared memory is one step of a
  thread; the barriers and the locked instructions make memory sequentially
  consistent, so an execution is an interleaving of such steps.
\<close>

section \<open>atomic.h\<close>

definition AtomicAdd :: "u64 \<Rightarrow> u64 \<Rightarrow> u64" where "AtomicAdd a v = a + v"
definition AtomicSub :: "u64 \<Rightarrow> u64 \<Rightarrow> u64" where "AtomicSub a v = a - v"
definition AtomicLoad :: "u64 \<Rightarrow> u64" where "AtomicLoad a = a"

text \<open>The new value of the atomic and the result.\<close>

definition AtomicXchg :: "u64 \<Rightarrow> u64 \<Rightarrow> u64 \<times> u64" where
  "AtomicXchg a v = (v, a)"

text \<open>(atomic, *expected, result)\<close>

definition AtomicCas :: "u64 \<Rightarrow> u64 \<Rightarrow> u64 \<Rightarrow> u64 \<times> u64 \<times> bool" where
  "AtomicCas a expected v = (if a = expected then (v, expected, True) else (a, a, False))"

section \<open>spinlock.h\<close>

datatype spin_pc = SOut | SSpin | SCrit

record spin =
  locked :: u64
  spc :: "nat \<Rightarrow> spin_pc"

definition SpinLock_Init :: "spin \<Rightarrow> bool" where
  "SpinLock_Init s \<longleftrightarrow> locked s = 0 \<and> spc s = (\<lambda>_. SOut)"

text \<open>One turn of the loop of \<open>SpinLock_Lock\<close>, and \<open>SpinLock_Unlock\<close>.\<close>

definition SpinLock_Lock :: "nat \<Rightarrow> spin \<Rightarrow> spin" where
  "SpinLock_Lock t s = (let (a, old) = AtomicXchg (locked s) 1 in
     s\<lparr>locked := a, spc := (spc s)(t := if old \<noteq> 0 then SSpin else SCrit)\<rparr>)"

definition SpinLock_Unlock :: "nat \<Rightarrow> spin \<Rightarrow> spin" where
  "SpinLock_Unlock t s = (let (a, old) = AtomicXchg (locked s) 0 in
     s\<lparr>locked := a, spc := (spc s)(t := SOut)\<rparr>)"

inductive spin_step :: "spin \<Rightarrow> spin \<Rightarrow> bool" where
  lock: "spc s t \<noteq> SCrit \<Longrightarrow> spin_step s (SpinLock_Lock t s)"
| unlock: "spc s t = SCrit \<Longrightarrow> spin_step s (SpinLock_Unlock t s)"

inductive_cases spin_stepE: "spin_step s s'"

lemma spin_fields [simp]:
  "locked (SpinLock_Lock t s) = 1"
  "spc (SpinLock_Lock t s) = (spc s)(t := if locked s \<noteq> 0 then SSpin else SCrit)"
  "locked (SpinLock_Unlock t s) = 0"
  "spc (SpinLock_Unlock t s) = (spc s)(t := SOut)"
  by (simp_all add: SpinLock_Lock_def SpinLock_Unlock_def AtomicXchg_def)

interpretation spin: mutex SpinLock_Init spin_step "\<lambda>s t. spc s t = SCrit" "\<lambda>s. locked s \<noteq> 0"
proof unfold_locales
  fix s t assume "SpinLock_Init s" then show "spc s t \<noteq> SCrit" by (simp add: SpinLock_Init_def)
next
  fix s s' t assume "spin_step s s'" "spc s t \<noteq> SCrit" "spc s' t = SCrit"
  then show "\<not> locked s \<noteq> 0" by (elim spin_stepE) (simp_all split: if_splits)
next
  fix s s' t assume "spin_step s s'" "spc s t \<noteq> SCrit" "spc s' t = SCrit"
  then show "locked s' \<noteq> 0" by (elim spin_stepE) (simp_all split: if_splits)
next
  fix s s' t u assume "spin_step s s'" "spc s t \<noteq> SCrit" "spc s' t = SCrit" "u \<noteq> t"
  then show "(spc s' u = SCrit) = (spc s u = SCrit)" by (elim spin_stepE) (simp_all split: if_splits)
next
  fix s s' t
  assume st: "spin_step s s'" and free: "\<not> locked s' \<noteq> 0"
    and one: "\<forall>u. spc s u = SCrit \<longrightarrow> u = t"
  from st show "spc s' t \<noteq> SCrit"
  proof (cases rule: spin_step.cases)
    case (lock v)
    then show ?thesis using free by simp
  next
    case (unlock v)
    then have "v = t" using one by blast
    then show ?thesis using unlock by simp
  qed
qed

section \<open>rwlock.h\<close>

text \<open>
  A thread of the read-write lock: outside; a reader spinning on the writer's
  flag, about to count itself, about to check the flag again, about to uncount
  itself, inside; a writer spinning on the spin lock, draining readers, inside.
\<close>

datatype rw_pc = Out | RSpin | RAdd | RCheck | RUndo | RIn | WSpin | WDrain | WIn

record rwlock =
  write_m :: u64
  readers_cnt :: u64
  rpc :: "nat \<Rightarrow> rw_pc"

definition RwLock_Init :: "rwlock \<Rightarrow> bool" where
  "RwLock_Init s \<longleftrightarrow> write_m s = 0 \<and> readers_cnt s = 0 \<and> rpc s = (\<lambda>_. Out)"

definition goto :: "nat \<Rightarrow> rw_pc \<Rightarrow> rwlock \<Rightarrow> rwlock" where
  "goto t p s = s\<lparr>rpc := (rpc s)(t := p)\<rparr>"

text \<open>Each function is the next access of its thread, as its program counter says.\<close>

definition RwLock_ReadLock :: "nat \<Rightarrow> rwlock \<Rightarrow> rwlock" where
  "RwLock_ReadLock t s =
     (case rpc s t of
        Out \<Rightarrow> goto t RSpin s
      | RSpin \<Rightarrow> if AtomicLoad (write_m s) \<noteq> 0 then s else goto t RAdd s
      | RAdd \<Rightarrow> goto t RCheck (s\<lparr>readers_cnt := AtomicAdd (readers_cnt s) 1\<rparr>)
      | RCheck \<Rightarrow> if AtomicLoad (write_m s) = 0 then goto t RIn s else goto t RUndo s
      | RUndo \<Rightarrow> goto t RSpin (s\<lparr>readers_cnt := AtomicSub (readers_cnt s) 1\<rparr>)
      | _ \<Rightarrow> s)"

definition RwLock_ReadUnlock :: "nat \<Rightarrow> rwlock \<Rightarrow> rwlock" where
  "RwLock_ReadUnlock t s =
     (if rpc s t = RIn then goto t Out (s\<lparr>readers_cnt := AtomicSub (readers_cnt s) 1\<rparr>) else s)"

definition RwLock_WriteLock :: "nat \<Rightarrow> rwlock \<Rightarrow> rwlock" where
  "RwLock_WriteLock t s =
     (case rpc s t of
        Out \<Rightarrow> goto t WSpin s
      | WSpin \<Rightarrow> let (a, old) = AtomicXchg (write_m s) 1 in
                 goto t (if old \<noteq> 0 then WSpin else WDrain) (s\<lparr>write_m := a\<rparr>)
      | WDrain \<Rightarrow> if AtomicLoad (readers_cnt s) \<noteq> 0 then s else goto t WIn s
      | _ \<Rightarrow> s)"

definition RwLock_WriteUnlock :: "nat \<Rightarrow> rwlock \<Rightarrow> rwlock" where
  "RwLock_WriteUnlock t s =
     (if rpc s t = WIn then goto t Out (s\<lparr>write_m := fst (AtomicXchg (write_m s) 0)\<rparr>) else s)"

text \<open>Threads are numbered below \<open>N\<close>.\<close>

inductive rw_step :: "nat \<Rightarrow> rwlock \<Rightarrow> rwlock \<Rightarrow> bool" for N where
  read_lock: "t < N \<Longrightarrow> rw_step N s (RwLock_ReadLock t s)"
| read_unlock: "t < N \<Longrightarrow> rw_step N s (RwLock_ReadUnlock t s)"
| write_lock: "t < N \<Longrightarrow> rw_step N s (RwLock_WriteLock t s)"
| write_unlock: "t < N \<Longrightarrow> rw_step N s (RwLock_WriteUnlock t s)"

definition counts :: "rw_pc \<Rightarrow> bool" where
  "counts p \<longleftrightarrow> p = RCheck \<or> p = RUndo \<or> p = RIn"

definition owns :: "rw_pc \<Rightarrow> bool" where
  "owns p \<longleftrightarrow> p = WDrain \<or> p = WIn"

definition rw_inv :: "nat \<Rightarrow> rwlock \<Rightarrow> bool" where
  "rw_inv N s \<longleftrightarrow>
     readers_cnt s = of_nat (card {t. t < N \<and> counts (rpc s t)})
     \<and> (\<forall>t. owns (rpc s t) \<longrightarrow> write_m s \<noteq> 0)
     \<and> (\<forall>t u. owns (rpc s t) \<longrightarrow> owns (rpc s u) \<longrightarrow> t = u)
     \<and> (\<forall>t u. rpc s t = WIn \<longrightarrow> rpc s u \<noteq> RIn)
     \<and> (\<forall>t. rpc s t \<noteq> Out \<longrightarrow> t < N)"

lemma counts_simps [simp]: "counts RCheck" "counts RUndo" "counts RIn" "\<not> counts Out"
  "\<not> counts RSpin" "\<not> counts RAdd" "\<not> counts WSpin" "\<not> counts WDrain" "\<not> counts WIn"
  and owns_simps [simp]: "owns WDrain" "owns WIn" "\<not> owns Out" "\<not> owns RSpin" "\<not> owns RAdd"
  "\<not> owns RCheck" "\<not> owns RUndo" "\<not> owns RIn" "\<not> owns WSpin"
  by (simp_all add: counts_def owns_def)

text \<open>One move of a thread keeps the invariant if the counters follow it.\<close>

lemma rw_move:
  assumes i: "rw_inv N s" and t: "t < N"
    and cnt: "readers_cnt s' = readers_cnt s + (if counts p then 1 else 0) - (if counts (rpc s t) then 1 else 0)"
    and pc: "rpc s' = (rpc s)(t := p)"
    and wm: "\<forall>u. u \<noteq> t \<longrightarrow> owns (rpc s u) \<longrightarrow> write_m s' \<noteq> 0"
    and own: "owns p \<Longrightarrow> write_m s' \<noteq> 0 \<and> (\<forall>u. u \<noteq> t \<longrightarrow> \<not> owns (rpc s u))"
    and win: "p = WIn \<Longrightarrow> \<forall>u. rpc s u \<noteq> RIn" and rin: "p = RIn \<Longrightarrow> \<forall>u. rpc s u \<noteq> WIn"
  shows "rw_inv N s'"
proof -
  have c0: "readers_cnt s = of_nat (card {u. u < N \<and> counts (rpc s u)})"
    using i by (simp add: rw_inv_def)
  have "readers_cnt s' = of_nat (card {u. u < N \<and> counts (rpc s' u)})"
  proof (cases "counts p = counts (rpc s t)")
    case True
    then show ?thesis using cnt c0 counted_same [of counts "rpc s" t p N] by (simp add: pc)
  next
    case False
    then consider "counts p" "\<not> counts (rpc s t)" | "\<not> counts p" "counts (rpc s t)" by blast
    then show ?thesis
    proof cases
      case 1
      then show ?thesis using cnt c0 counted_in [OF t, of counts "rpc s" p]
        by (simp add: pc add.commute)
    next
      case 2
      have "(of_nat (Suc (card {u. u < N \<and> counts (rpc s' u)})) :: u64)
          = of_nat (card {u. u < N \<and> counts (rpc s u)})"
        using counted_out [of t N counts "rpc s" p, OF t 2(2,1)] by (simp only: pc)
      moreover have "readers_cnt s' + 1 = readers_cnt s" using 2 cnt by simp
      ultimately have "readers_cnt s' + 1 = of_nat (card {u. u < N \<and> counts (rpc s' u)}) + 1"
        using c0 by (simp add: add.commute)
      then show ?thesis by (simp only: add_right_cancel)
    qed
  qed
  moreover have "owns (rpc s' u) \<longrightarrow> write_m s' \<noteq> 0" for u
    using wm own by (auto simp: pc)
  moreover have "owns (rpc s' u) \<longrightarrow> owns (rpc s' v) \<longrightarrow> u = v" for u v
    using i own by (auto simp: pc rw_inv_def)
  moreover have "rpc s' u = WIn \<longrightarrow> rpc s' v \<noteq> RIn" for u v
    using i win rin by (auto simp: pc rw_inv_def)
  moreover have "rpc s' u \<noteq> Out \<longrightarrow> u < N" for u
    using i t by (auto simp: pc rw_inv_def)
  ultimately show ?thesis unfolding rw_inv_def by blast
qed

lemma goto_simps [simp]:
  "rpc (goto t p s) = (rpc s)(t := p)" "write_m (goto t p s) = write_m s"
  "readers_cnt (goto t p s) = readers_cnt s"
  by (simp_all add: goto_def)

lemma no_reader_inside:
  assumes "rw_inv N s" "N < 2 ^ 64" "readers_cnt s = 0"
  shows "rpc s u \<noteq> RIn"
proof
  assume u: "rpc s u = RIn"
  have "card {t. t < N \<and> counts (rpc s t)} \<le> card {..<N}" by (rule card_mono) auto
  then have "card {t. t < N \<and> counts (rpc s t)} < 2 ^ 64" using assms(2) by simp
  moreover have "(of_nat (card {t. t < N \<and> counts (rpc s t)}) :: u64) = 0"
    using assms(1,3) by (simp add: rw_inv_def)
  ultimately have "card {t. t < N \<and> counts (rpc s t)} = 0"
    using unat_of_nat_small [where 'a = 64] by fastforce
  moreover have "u < N" using assms(1) u by (force simp: rw_inv_def)
  ultimately show False using u by auto
qed

lemma rw_inv_ReadLock:
  assumes i: "rw_inv N s" and t: "t < N"
  shows "rw_inv N (RwLock_ReadLock t s)"
proof (cases "rpc s t")
  case RCheck
  have "\<not> owns (rpc s u)" if "write_m s = 0" for u using i that by (auto simp: rw_inv_def)
  then have "rpc s u \<noteq> WIn" if "write_m s = 0" for u using that by (metis owns_simps(2))
  then show ?thesis using RCheck i
    by (intro rw_move [OF i t, where p = "if write_m s = 0 then RIn else RUndo"])
      (auto simp: RwLock_ReadLock_def AtomicLoad_def rw_inv_def split: if_splits)
next
  case Out
  show ?thesis using i by (rule rw_move [OF _ t, where p = RSpin])
      (use Out i in \<open>auto simp: RwLock_ReadLock_def rw_inv_def\<close>)
next
  case RSpin
  show ?thesis using i RSpin
  proof (cases "write_m s = 0")
    case True
    show ?thesis using i by (rule rw_move [OF _ t, where p = RAdd])
      (use RSpin True i in \<open>auto simp: RwLock_ReadLock_def AtomicLoad_def rw_inv_def\<close>)
  qed (simp add: RwLock_ReadLock_def AtomicLoad_def)
next
  case RAdd
  show ?thesis using i by (rule rw_move [OF _ t, where p = RCheck])
      (use RAdd i in \<open>auto simp: RwLock_ReadLock_def AtomicAdd_def rw_inv_def\<close>)
next
  case RUndo
  show ?thesis using i by (rule rw_move [OF _ t, where p = RSpin])
      (use RUndo i in \<open>auto simp: RwLock_ReadLock_def AtomicSub_def rw_inv_def\<close>)
qed (use i in \<open>simp_all add: RwLock_ReadLock_def\<close>)

lemma rw_inv_WriteLock:
  assumes i: "rw_inv N s" and t: "t < N" and N: "N < 2 ^ 64"
  shows "rw_inv N (RwLock_WriteLock t s)"
proof (cases "rpc s t")
  case Out
  show ?thesis using i by (rule rw_move [OF _ t, where p = WSpin])
      (use Out i in \<open>auto simp: RwLock_WriteLock_def rw_inv_def\<close>)
next
  case WSpin
  have "\<not> owns (rpc s u)" if "write_m s = 0" for u using i that by (auto simp: rw_inv_def)
  then show ?thesis using WSpin i
    by (intro rw_move [OF i t, where p = "if write_m s \<noteq> 0 then WSpin else WDrain"])
      (auto simp: RwLock_WriteLock_def AtomicXchg_def split: if_splits)
next
  case WDrain
  show ?thesis
  proof (cases "readers_cnt s = 0")
    case True
    have w: "write_m s \<noteq> 0" "\<forall>u. u \<noteq> t \<longrightarrow> \<not> owns (rpc s u)"
      using i WDrain unfolding rw_inv_def by (metis owns_simps(1))+
    show ?thesis using no_reader_inside [OF i N True] w WDrain True
      by (intro rw_move [OF i t, where p = WIn]) (auto simp: RwLock_WriteLock_def AtomicLoad_def)
  qed (use i WDrain in \<open>simp add: RwLock_WriteLock_def AtomicLoad_def\<close>)
qed (use i in \<open>simp_all add: RwLock_WriteLock_def\<close>)

lemma rw_inv_unlock:
  assumes i: "rw_inv N s" and t: "t < N"
  shows "rw_inv N (RwLock_ReadUnlock t s)" and "rw_inv N (RwLock_WriteUnlock t s)"
proof -
  show "rw_inv N (RwLock_ReadUnlock t s)"
  proof (cases "rpc s t = RIn")
    case True
    show ?thesis using i by (rule rw_move [OF _ t, where p = Out])
      (use True i in \<open>auto simp: RwLock_ReadUnlock_def AtomicSub_def rw_inv_def\<close>)
  qed (use i in \<open>simp add: RwLock_ReadUnlock_def\<close>)
  show "rw_inv N (RwLock_WriteUnlock t s)"
  proof (cases "rpc s t = WIn")
    case True
    have "\<forall>u. u \<noteq> t \<longrightarrow> \<not> owns (rpc s u)"
      using i True unfolding rw_inv_def by (metis owns_simps(2))
    then show ?thesis using True
      by (intro rw_move [OF i t, where p = Out]) (auto simp: RwLock_WriteUnlock_def)
  qed (use i in \<open>simp add: RwLock_WriteUnlock_def\<close>)
qed

lemma rw_reach_inv:
  assumes "RwLock_Init s0" "(rw_step N)\<^sup>*\<^sup>* s0 s" "N < 2 ^ 64"
  shows "rw_inv N s"
  using assms(2)
proof (induction rule: rtranclp_induct)
  case base
  then show ?case using assms(1) by (simp add: RwLock_Init_def rw_inv_def)
next
  case (step y z)
  from step.hyps(2) step.IH show ?case
    by (cases rule: rw_step.cases)
      (auto intro: rw_inv_ReadLock rw_inv_WriteLock rw_inv_unlock assms(3))
qed

text \<open>
  C25. The read-write lock of atomic/rwlock excludes: with fewer than 2^64 threads,
  whatever the interleaving, a thread inside the write section is alone there
  and no reader is inside the read section.
\<close>

theorem rwlock_excludes:
  assumes "RwLock_Init s0" "(rw_step N)\<^sup>*\<^sup>* s0 s" "N < 2 ^ 64" "rpc s t = WIn" "u \<noteq> t"
  shows "rpc s u \<noteq> WIn \<and> rpc s u \<noteq> RIn"
  using rw_reach_inv [OF assms(1-3)] assms(4,5) unfolding rw_inv_def by (metis owns_simps(2))

definition rw0 :: rwlock where
  "rw0 = \<lparr>write_m = 0, readers_cnt = 0, rpc = (\<lambda>_. Out)\<rparr>"

theorem rwlock_excludes_witness:
  "rpc (RwLock_WriteLock 0 (RwLock_WriteLock 0 (RwLock_WriteLock 0 rw0))) 0 = WIn
   \<and> rpc (RwLock_WriteLock 0 (RwLock_WriteLock 0 (RwLock_WriteLock 0 rw0))) 1 \<noteq> RIn"
proof -
  let ?s = "RwLock_WriteLock 0 (RwLock_WriteLock 0 (RwLock_WriteLock 0 rw0))"
  have i: "RwLock_Init rw0" by (simp add: RwLock_Init_def rw0_def)
  have r: "(rw_step 2)\<^sup>*\<^sup>* rw0 ?s"
    by (meson rtranclp.rtrancl_into_rtrancl rtranclp.rtrancl_refl rw_step.write_lock zero_less_numeral)
  have w: "rpc ?s 0 = WIn"
    by (simp add: RwLock_WriteLock_def rw0_def goto_def AtomicXchg_def AtomicLoad_def)
  show ?thesis using rwlock_excludes [OF i r _ w, of 1] w by simp
qed

section \<open>seqlock.h\<close>

text \<open>
  Two words of data under a sequence lock, as in its test program. A writer takes
  the spin lock, increments the sequence number, stores the two words, increments
  it again and releases; a reader loads the number, the two words, and the number
  again. \<open>versions\<close> is a ghost: the number of increments so far, not reduced
  modulo 2^64.
\<close>

datatype seq_pc = QOut
  | QSpin u64 u64 | QBegin u64 u64 | QFirst u64 u64 | QSecond u64 | QEnd | QRelease
  | QRead1 u64 nat | QRead2 u64 nat u64 | QCheck u64 nat u64 u64 | QGot u64 u64 | QRetry

record seqlock =
  slock :: u64
  atomic_seq :: u64
  data1 :: u64
  data2 :: u64
  qpc :: "nat \<Rightarrow> seq_pc"
  versions :: nat

definition SeqLock_Init :: "seqlock \<Rightarrow> bool" where
  "SeqLock_Init s \<longleftrightarrow> slock s = 0 \<and> atomic_seq s = 0 \<and> versions s = 0 \<and> qpc s = (\<lambda>_. QOut)"

definition qgoto :: "nat \<Rightarrow> seq_pc \<Rightarrow> seqlock \<Rightarrow> seqlock" where
  "qgoto t p s = s\<lparr>qpc := (qpc s)(t := p)\<rparr>"

definition bump :: "seqlock \<Rightarrow> seqlock" where
  "bump s = s\<lparr>atomic_seq := AtomicAdd (atomic_seq s) 1, versions := versions s + 1\<rparr>"

text \<open>\<open>SeqLock_WriteLock\<close>, the writer's two stores, \<open>SeqLock_WriteUnlock\<close>.\<close>

definition SeqLock_WriteLock :: "nat \<Rightarrow> seqlock \<Rightarrow> seqlock" where
  "SeqLock_WriteLock t s =
     (case qpc s t of
        QSpin a b \<Rightarrow> let (l, old) = AtomicXchg (slock s) 1 in
          qgoto t (if old \<noteq> 0 then QSpin a b else QBegin a b) (s\<lparr>slock := l\<rparr>)
      | QBegin a b \<Rightarrow> qgoto t (QFirst a b) (bump s)
      | _ \<Rightarrow> s)"

definition write_data :: "nat \<Rightarrow> seqlock \<Rightarrow> seqlock" where
  "write_data t s =
     (case qpc s t of
        QFirst a b \<Rightarrow> qgoto t (QSecond b) (s\<lparr>data1 := a\<rparr>)
      | QSecond b \<Rightarrow> qgoto t QEnd (s\<lparr>data2 := b\<rparr>)
      | _ \<Rightarrow> s)"

definition SeqLock_WriteUnlock :: "nat \<Rightarrow> seqlock \<Rightarrow> seqlock" where
  "SeqLock_WriteUnlock t s =
     (case qpc s t of
        QEnd \<Rightarrow> qgoto t QRelease (bump s)
      | QRelease \<Rightarrow> qgoto t QOut (s\<lparr>slock := fst (AtomicXchg (slock s) 0)\<rparr>)
      | _ \<Rightarrow> s)"

definition SeqLock_ReadLock :: "nat \<Rightarrow> seqlock \<Rightarrow> seqlock" where
  "SeqLock_ReadLock t s =
     (if qpc s t = QOut \<or> qpc s t = QRetry
      then qgoto t (QRead1 (AtomicLoad (atomic_seq s)) (versions s)) s else s)"

definition read_data :: "nat \<Rightarrow> seqlock \<Rightarrow> seqlock" where
  "read_data t s =
     (case qpc s t of
        QRead1 n v \<Rightarrow> qgoto t (QRead2 n v (data1 s)) s
      | QRead2 n v a \<Rightarrow> qgoto t (QCheck n v a (data2 s)) s
      | _ \<Rightarrow> s)"

definition SeqLock_ReadUnlock :: "nat \<Rightarrow> seqlock \<Rightarrow> seqlock" where
  "SeqLock_ReadUnlock t s =
     (case qpc s t of
        QCheck n v a b \<Rightarrow>
          let e = AtomicLoad (atomic_seq s) in
          qgoto t (if e = n \<and> n AND 1 = 0 then QGot a b else QRetry) s
      | _ \<Rightarrow> s)"

inductive seq_step :: "seqlock \<Rightarrow> seqlock \<Rightarrow> bool" where
  want_write: "qpc s t = QOut \<Longrightarrow> seq_step s (qgoto t (QSpin a b) s)"
| write_lock: "seq_step s (SeqLock_WriteLock t s)"
| write_data: "seq_step s (write_data t s)"
| write_unlock: "seq_step s (SeqLock_WriteUnlock t s)"
| read_lock: "seq_step s (SeqLock_ReadLock t s)"
| read_data: "seq_step s (read_data t s)"
| read_unlock: "seq_step s (SeqLock_ReadUnlock t s)"
| read_done: "qpc s t = QGot a b \<Longrightarrow> seq_step s (qgoto t QOut s)"

text \<open>The writer inside: before its first increment, between the two, after the second.\<close>

definition early :: "seq_pc \<Rightarrow> bool" where
  "early p \<longleftrightarrow> (\<exists>a b. p = QBegin a b) \<or> p = QRelease"

definition middle :: "seq_pc \<Rightarrow> bool" where
  "middle p \<longleftrightarrow> (\<exists>a b. p = QFirst a b) \<or> (\<exists>b. p = QSecond b) \<or> p = QEnd"

text \<open>What a reader has seen so far is current while the version is the one it started with.\<close>

definition seen_ok :: "seqlock \<Rightarrow> seq_pc \<Rightarrow> bool" where
  "seen_ok s p =
     (case p of
        QRead1 n v \<Rightarrow> n = of_nat v \<and> v \<le> versions s
      | QRead2 n v a \<Rightarrow> n = of_nat v \<and> v \<le> versions s
          \<and> (v = versions s \<and> even v \<longrightarrow> a = data1 s)
      | QCheck n v a b \<Rightarrow> n = of_nat v \<and> v \<le> versions s
          \<and> (v = versions s \<and> even v \<longrightarrow> a = data1 s \<and> b = data2 s)
      | _ \<Rightarrow> True)"

definition seq_inv :: "seqlock \<Rightarrow> bool" where
  "seq_inv s \<longleftrightarrow> atomic_seq s = of_nat (versions s)
     \<and> (\<forall>t. early (qpc s t) \<or> middle (qpc s t) \<longrightarrow> slock s \<noteq> 0)
     \<and> (\<forall>t u. early (qpc s t) \<or> middle (qpc s t) \<longrightarrow> early (qpc s u) \<or> middle (qpc s u) \<longrightarrow> t = u)
     \<and> (odd (versions s) \<longleftrightarrow> (\<exists>t. middle (qpc s t)))
     \<and> (\<forall>t. seen_ok s (qpc s t))"

lemma pc_class [simp]:
  "early (QBegin a b)" "early QRelease" "\<not> early QOut" "\<not> early (QSpin a b)" "\<not> early (QFirst a b)"
  "\<not> early (QSecond b)" "\<not> early QEnd" "\<not> early (QRead1 n v)" "\<not> early (QRead2 n v a)"
  "\<not> early (QCheck n v a b)" "\<not> early (QGot a b)" "\<not> early QRetry"
  "middle (QFirst a b)" "middle (QSecond b)" "middle QEnd" "\<not> middle (QBegin a b)"
  "\<not> middle QRelease" "\<not> middle QOut" "\<not> middle (QSpin a b)" "\<not> middle (QRead1 n v)"
  "\<not> middle (QRead2 n v a)" "\<not> middle (QCheck n v a b)" "\<not> middle (QGot a b)" "\<not> middle QRetry"
  by (simp_all add: early_def middle_def)

lemma qgoto_simps [simp]:
  "qpc (qgoto t p s) = (qpc s)(t := p)" "slock (qgoto t p s) = slock s"
  "atomic_seq (qgoto t p s) = atomic_seq s" "versions (qgoto t p s) = versions s"
  "data1 (qgoto t p s) = data1 s" "data2 (qgoto t p s) = data2 s"
  by (simp_all add: qgoto_def)

text \<open>A step that moves one thread without touching the lock, its number or its data.\<close>

lemma seq_move:
  assumes i: "seq_inv s" and "early p = early (qpc s t)" "middle p = middle (qpc s t)" "seen_ok s p"
  shows "seq_inv (qgoto t p s)"
proof -
  have e: "early (((qpc s)(t := p)) u) = early (qpc s u)" "middle (((qpc s)(t := p)) u) = middle (qpc s u)" for u
    using assms(2,3) by simp_all
  have "seen_ok (qgoto t p s) q = seen_ok s q" for q
    by (cases q) (simp_all add: seen_ok_def)
  moreover have "seen_ok s (((qpc s)(t := p)) u)" for u using i assms(4) by (simp add: seq_inv_def)
  ultimately show ?thesis using i unfolding seq_inv_def qgoto_simps e by blast
qed

text \<open>A step of a thread no other thread is inside with.\<close>

lemma seq_own_move:
  assumes i: "seq_inv s" and alone: "\<forall>u. u \<noteq> t \<longrightarrow> \<not> early (qpc s u) \<and> \<not> middle (qpc s u)"
    and pc: "qpc s' = (qpc s)(t := p)" and num: "atomic_seq s' = of_nat (versions s')"
    and lk: "early p \<or> middle p \<Longrightarrow> slock s' \<noteq> 0"
    and par: "odd (versions s') \<longleftrightarrow> middle p" and no: "seen_ok s' p"
    and v: "versions s' > versions s \<or> versions s' = versions s
        \<and> (odd (versions s) \<or> data1 s' = data1 s \<and> data2 s' = data2 s)"
  shows "seq_inv s'"
proof -
  have "seen_ok s' q" if "seen_ok s q" for q
    using that v by (cases q) (auto simp: seen_ok_def)
  then have "\<forall>u. seen_ok s' (qpc s' u)" using i no by (simp add: seq_inv_def pc)
  moreover have "\<forall>u. early (qpc s' u) \<or> middle (qpc s' u) \<longrightarrow> slock s' \<noteq> 0"
    using alone lk by (simp add: pc)
  moreover have "early (qpc s' a) \<or> middle (qpc s' a) \<Longrightarrow> a = t" for a
    using alone by (cases "a = t") (simp_all add: pc)
  moreover have "(\<exists>u. middle (qpc s' u)) \<longleftrightarrow> middle p"
    using alone by (auto simp: pc)
  ultimately show ?thesis using num par unfolding seq_inv_def by blast
qed

lemma alone_owner:
  assumes "seq_inv s" "early (qpc s t) \<or> middle (qpc s t)"
  shows "\<forall>u. u \<noteq> t \<longrightarrow> \<not> early (qpc s u) \<and> \<not> middle (qpc s u)"
  using assms unfolding seq_inv_def by blast

lemma parity_owner:
  assumes "seq_inv s" "early (qpc s t) \<or> middle (qpc s t)"
  shows "odd (versions s) \<longleftrightarrow> middle (qpc s t)"
  using alone_owner [OF assms] assms(1) unfolding seq_inv_def by metis

lemma alone_free:
  assumes "seq_inv s" "slock s = 0"
  shows "\<not> early (qpc s u) \<and> \<not> middle (qpc s u)" and "even (versions s)"
  using assms unfolding seq_inv_def by blast+

lemma num_of: "seq_inv s \<Longrightarrow> atomic_seq s = of_nat (versions s)"
  by (simp add: seq_inv_def)

lemma lock_of: "seq_inv s \<Longrightarrow> early (qpc s t) \<or> middle (qpc s t) \<Longrightarrow> slock s \<noteq> 0"
  unfolding seq_inv_def by blast

lemma bump_simps [simp]:
  "qpc (bump s) = qpc s" "slock (bump s) = slock s" "versions (bump s) = Suc (versions s)"
  "data1 (bump s) = data1 s" "data2 (bump s) = data2 s" "atomic_seq (bump s) = atomic_seq s + 1"
  by (simp_all add: bump_def AtomicAdd_def)

lemma seen_ok_writers [simp]:
  "seen_ok s QOut" "seen_ok s (QSpin a b)" "seen_ok s (QBegin a b)" "seen_ok s (QFirst a b)"
  "seen_ok s (QSecond b)" "seen_ok s QEnd" "seen_ok s QRelease" "seen_ok s QRetry" "seen_ok s (QGot a b)"
  by (simp_all add: seen_ok_def)

lemma seq_inv_write_lock:
  assumes i: "seq_inv s" shows "seq_inv (SeqLock_WriteLock t s)"
proof (cases "qpc s t")
  case (QSpin a b)
  show ?thesis
  proof (cases "slock s = 0")
    case True
    show ?thesis
      using QSpin True alone_free [OF i True] num_of [OF i]
      by (intro seq_own_move [OF i, of t _ "QBegin a b"])
        (auto simp: SeqLock_WriteLock_def AtomicXchg_def)
  next
    case False
    have "seq_inv (qgoto t (QSpin a b) (s\<lparr>slock := 1\<rparr>))"
    proof -
      have "seq_inv (s\<lparr>slock := 1\<rparr>)"
      proof -
        have "seen_ok (s\<lparr>slock := 1\<rparr>) q = seen_ok s q" for q by (cases q) (simp_all add: seen_ok_def)
        then show ?thesis using i by (simp add: seq_inv_def)
      qed
      then show ?thesis using QSpin by (intro seq_move) simp_all
    qed
    then show ?thesis using QSpin False by (simp add: SeqLock_WriteLock_def AtomicXchg_def)
  qed
next
  case (QBegin a b)
  have o: "early (qpc s t) \<or> middle (qpc s t)" using QBegin by simp
  show ?thesis
    using QBegin num_of [OF i] parity_owner [OF i o] lock_of [OF i o]
    by (intro seq_own_move [OF i alone_owner [OF i o], of _ "QFirst a b"])
      (auto simp: SeqLock_WriteLock_def)
qed (use i in \<open>simp_all add: SeqLock_WriteLock_def\<close>)

lemma seq_inv_write_data:
  assumes i: "seq_inv s" shows "seq_inv (write_data t s)"
proof (cases "qpc s t")
  case (QFirst a b)
  have o: "early (qpc s t) \<or> middle (qpc s t)" using QFirst by simp
  show ?thesis
    using QFirst num_of [OF i] parity_owner [OF i o] lock_of [OF i o]
    by (intro seq_own_move [OF i alone_owner [OF i o], of _ "QSecond b"])
      (auto simp: write_data_def)
next
  case (QSecond b)
  have o: "early (qpc s t) \<or> middle (qpc s t)" using QSecond by simp
  show ?thesis
    using QSecond num_of [OF i] parity_owner [OF i o] lock_of [OF i o]
    by (intro seq_own_move [OF i alone_owner [OF i o], of _ QEnd])
      (auto simp: write_data_def)
qed (use i in \<open>simp_all add: write_data_def\<close>)

lemma seq_inv_write_unlock:
  assumes i: "seq_inv s" shows "seq_inv (SeqLock_WriteUnlock t s)"
proof (cases "qpc s t")
  case QEnd
  have o: "early (qpc s t) \<or> middle (qpc s t)" using QEnd by simp
  show ?thesis
    using QEnd num_of [OF i] parity_owner [OF i o] lock_of [OF i o]
    by (intro seq_own_move [OF i alone_owner [OF i o], of _ QRelease])
      (auto simp: SeqLock_WriteUnlock_def)
next
  case QRelease
  have o: "early (qpc s t) \<or> middle (qpc s t)" using QRelease by simp
  show ?thesis
    using QRelease num_of [OF i] parity_owner [OF i o]
    by (intro seq_own_move [OF i alone_owner [OF i o], of _ QOut])
      (auto simp: SeqLock_WriteUnlock_def)
qed (use i in \<open>simp_all add: SeqLock_WriteUnlock_def\<close>)

lemma seen_of: "seq_inv s \<Longrightarrow> seen_ok s (qpc s t)"
  by (simp add: seq_inv_def)

lemma seq_inv_readers:
  assumes i: "seq_inv s"
  shows "seq_inv (SeqLock_ReadLock t s)" and "seq_inv (read_data t s)"
    and "seq_inv (SeqLock_ReadUnlock t s)"
proof -
  show "seq_inv (SeqLock_ReadLock t s)"
    using i num_of [OF i] seq_move [OF i, of "QRead1 (atomic_seq s) (versions s)" t]
    by (auto simp: SeqLock_ReadLock_def AtomicLoad_def seen_ok_def)
  show "seq_inv (read_data t s)"
    using i seen_of [OF i, of t]
    by (cases "qpc s t") (auto simp: read_data_def seen_ok_def intro!: seq_move)
  show "seq_inv (SeqLock_ReadUnlock t s)"
    using i by (cases "qpc s t") (auto simp: SeqLock_ReadUnlock_def Let_def intro!: seq_move)
qed

lemma seq_inv_step: "seq_step s s' \<Longrightarrow> seq_inv s \<Longrightarrow> seq_inv s'"
proof (induction rule: seq_step.induct)
  case (want_write s t a b)
  then show ?case by (intro seq_move) simp_all
next
  case (read_done s t a b)
  then show ?case by (intro seq_move) simp_all
qed (auto intro: seq_inv_write_lock seq_inv_write_data seq_inv_write_unlock seq_inv_readers)

lemma seq_reach_inv:
  assumes "SeqLock_Init s0" "seq_step\<^sup>*\<^sup>* s0 s" shows "seq_inv s"
  using assms(2)
proof (induction rule: rtranclp_induct)
  case base
  then show ?case using assms(1) by (simp add: SeqLock_Init_def seq_inv_def)
qed (auto intro: seq_inv_step)

text \<open>
  C26. A reader of the sequence lock that \<open>SeqLock_ReadUnlock\<close> lets go has an atomic
  snapshot: its two words are the two words in memory at that moment, and no
  writer is between its two increments. The number wraps at 2^64, so this is for
  executions with fewer increments.
\<close>

theorem seqlock_snapshot:
  assumes "SeqLock_Init s0" "seq_step\<^sup>*\<^sup>* s0 s" "versions s < 2 ^ 64"
    and "qpc s t = QCheck n v a b" "qpc (SeqLock_ReadUnlock t s) t = QGot a b"
  shows "a = data1 s \<and> b = data2 s \<and> (\<forall>u. \<not> middle (qpc s u))"
proof -
  have i: "seq_inv s" by (rule seq_reach_inv [OF assms(1,2)])
  have c: "atomic_seq s = n" "n AND 1 = 0"
    using assms(4,5) by (auto simp: SeqLock_ReadUnlock_def AtomicLoad_def split: if_splits)
  have n: "n = of_nat v" "v \<le> versions s"
    "v = versions s \<and> even v \<longrightarrow> a = data1 s \<and> b = data2 s"
  proof -
    have "seen_ok s (QCheck n v a b)" using seen_of [OF i, of t] by (simp only: assms(4))
    then show "n = of_nat v" "v \<le> versions s"
      "v = versions s \<and> even v \<longrightarrow> a = data1 s \<and> b = data2 s"
      unfolding seen_ok_def by auto
  qed
  have "unat (of_nat (versions s) :: u64) = versions s" "unat (of_nat v :: u64) = v"
    using assms(3) n(2) by (simp_all add: unat_of_nat_small)
  then have v: "v = versions s" using c(1) n(1) num_of [OF i] by metis
  have "even n" using c(2) by (simp add: and_one_eq even_iff_mod_2_eq_zero)
  then have "even v" using n(1) by simp
  then show ?thesis using n(3) v i unfolding seq_inv_def by blast
qed

definition sq0 :: seqlock where
  "sq0 = \<lparr>slock = 0, atomic_seq = 0, data1 = 5, data2 = 6, qpc = (\<lambda>_. QOut), versions = 0\<rparr>"

theorem seqlock_snapshot_witness:
  "qpc (SeqLock_ReadUnlock 1 (read_data 1 (read_data 1 (SeqLock_ReadLock 1 sq0)))) 1 = QGot 5 6
   \<and> data1 (read_data 1 (read_data 1 (SeqLock_ReadLock 1 sq0))) = 5"
proof -
  let ?s = "read_data 1 (read_data 1 (SeqLock_ReadLock 1 sq0))"
  have i: "SeqLock_Init sq0" by (simp add: SeqLock_Init_def sq0_def)
  have r: "seq_step\<^sup>*\<^sup>* sq0 ?s"
    by (meson rtranclp.rtrancl_into_rtrancl rtranclp.rtrancl_refl seq_step.read_data seq_step.read_lock)
  have c: "qpc ?s 1 = QCheck 0 0 5 6"
    by (simp add: read_data_def SeqLock_ReadLock_def sq0_def AtomicLoad_def)
  have g: "qpc (SeqLock_ReadUnlock 1 ?s) 1 = QGot 5 6"
    using c by (simp add: SeqLock_ReadUnlock_def AtomicLoad_def read_data_def SeqLock_ReadLock_def sq0_def)
  have "versions ?s < 2 ^ 64" by (simp add: read_data_def SeqLock_ReadLock_def sq0_def)
  from seqlock_snapshot [OF i r this c g] show ?thesis using g by simp
qed

text \<open>
  The spin lock of atomic/spinlock is a mutex: two threads past \<open>SpinLock_Lock\<close>
  and not yet past \<open>SpinLock_Unlock\<close> are the same thread, and the lock word is not 0.
\<close>

theorem SpinLock_mutual_exclusion:
  assumes "SpinLock_Init s0" "spin_step\<^sup>*\<^sup>* s0 s" "spc s t = SCrit" "spc s u = SCrit"
  shows "t = u \<and> locked s \<noteq> 0"
proof -
  have "spin.reach s" using assms(1,2) by (auto simp: spin.reach_def)
  then show ?thesis using spin.mutual_exclusion spin.inside_held assms(3,4) by blast
qed

theorem SpinLock_mutual_exclusion_witness:
  "spc (SpinLock_Lock 4 \<lparr>locked = 0, spc = (\<lambda>_. SOut)\<rparr>) 4 = SCrit
   \<and> locked (SpinLock_Lock 4 \<lparr>locked = 0, spc = (\<lambda>_. SOut)\<rparr>) \<noteq> 0"
proof -
  let ?s0 = "\<lparr>locked = 0, spc = (\<lambda>_. SOut)\<rparr>"
  have "spin_step\<^sup>*\<^sup>* ?s0 (SpinLock_Lock 4 ?s0)"
    by (intro r_into_rtranclp spin_step.lock) simp
  then show ?thesis
    using SpinLock_mutual_exclusion [of ?s0 "SpinLock_Lock 4 ?s0" 4 4] by (simp add: SpinLock_Init_def)
qed

end
