(* ===== verification/KLocks.thy ===== *)
theory KLocks
  imports Mutex
begin

text \<open>
  The kernel's spinlocks (spinlock.c) and sleep locks (sleeplock.c). A spinlock is
  modelled with every access to shared memory as one step of a CPU, together
  with the CPU's interrupt flag and its \<open>pushcli\<close> nesting; a sleep lock with one
  step per critical section of the spinlock inside it. Both interpret the
  locale \<open>mutex\<close>.
\<close>

section \<open>pushcli and popcli\<close>

record cpu =
  fl_if :: bool
  ncli :: int
  intena :: bool

definition pushcli :: "cpu \<Rightarrow> cpu" where
  "pushcli c =
     (let eflags_if = fl_if c; c = c\<lparr>fl_if := False\<rparr>;
          c = (if ncli c = 0 then c\<lparr>intena := eflags_if\<rparr> else c)
      in c\<lparr>ncli := ncli c + 1\<rparr>)"

definition popcli :: "cpu \<Rightarrow> cpu res" where
  "popcli c =
     (if fl_if c then Inl (Panic ''popcli - interruptible'')
      else let c = c\<lparr>ncli := ncli c - 1\<rparr> in
           if ncli c < 0 then Inl (Panic ''popcli'')
           else if ncli c = 0 \<and> intena c then Inr (c\<lparr>fl_if := True\<rparr>) else Inr c)"

text \<open>A sequence of calls, \<open>True\<close> for \<open>pushcli\<close>.\<close>

fun cli_run :: "bool list \<Rightarrow> cpu \<Rightarrow> cpu res" where
  "cli_run [] c = Inr c"
| "cli_run (b # bs) c = (if b then cli_run bs (pushcli c) else rbind (popcli c) (cli_run bs))"

fun balanced_from :: "nat \<Rightarrow> bool list \<Rightarrow> bool" where
  "balanced_from d [] = (d = 0)"
| "balanced_from d (True # bs) = balanced_from (Suc d) bs"
| "balanced_from d (False # bs) = (case d of 0 \<Rightarrow> False | Suc d' \<Rightarrow> balanced_from d' bs)"

lemma cli_run_balanced:
  "balanced_from d bs \<Longrightarrow> 0 < d \<Longrightarrow> \<not> fl_if c \<Longrightarrow> ncli c = int d \<Longrightarrow>
     \<exists>c'. cli_run bs c = Inr c' \<and> ncli c' = 0 \<and> fl_if c' = intena c"
  "balanced_from 0 bs \<Longrightarrow> ncli c = 0 \<Longrightarrow>
     \<exists>c'. cli_run bs c = Inr c' \<and> ncli c' = 0 \<and> fl_if c' = fl_if c"
proof (induction bs arbitrary: c d)
  case (Cons b bs)
  {
    case 1
    show ?case
    proof (cases b)
      case True
      then show ?thesis using 1 Cons.IH(1) [of "Suc d" "pushcli c"] by (simp add: pushcli_def Let_def)
    next
      case False
      then obtain d' where d': "d = Suc d'" "balanced_from d' bs" using 1 by (cases d) auto
      let ?c = "if d' = 0 \<and> intena c then c\<lparr>ncli := int d', fl_if := True\<rparr> else c\<lparr>ncli := int d'\<rparr>"
      have p: "popcli c = Inr ?c" using 1 d'(1) by (simp add: popcli_def Let_def)
      show ?thesis
      proof (cases "d' = 0")
        case True
        then show ?thesis using Cons.IH(2) [of ?c] d' p False 1 by (auto split: if_splits)
      next
        case False
        then show ?thesis using Cons.IH(1) [of d' ?c] d' p \<open>\<not> b\<close> 1 by simp
      qed
    qed
  next
    case 2
    then show ?case
      using Cons.IH(1) [of 1 "pushcli c"] by (cases b) (simp_all add: pushcli_def Let_def)
  }
qed simp_all

section \<open>spinlock.c\<close>

text \<open>
  Where a CPU is: outside; in \<open>acquire\<close> before the two loads of \<open>holding\<close>, spinning
  on \<open>xchg\<close>, owning the word but not yet recorded in \<open>lk->cpu\<close>; inside; in \<open>release\<close>
  before the two loads, before clearing \<open>lk->cpu\<close>, before clearing the word, before
  \<open>popcli\<close>; or in \<open>panic\<close>.
\<close>

datatype lk_pc = KOut | ALoad | ACpu | ASpin | ASet | KIn | RLoad | RCpu | RClear | RWord | RPop
  | KPanic string

record klock =
  locked :: u32
  lk_cpu :: "nat option"
  cpus :: "nat \<Rightarrow> cpu"
  kpc :: "nat \<Rightarrow> lk_pc"

definition initlock :: "klock \<Rightarrow> klock" where
  "initlock s = s\<lparr>locked := 0, lk_cpu := None\<rparr>"

definition klock_init :: "klock \<Rightarrow> bool" where
  "klock_init s \<longleftrightarrow> (\<exists>s1. s = initlock s1) \<and> kpc s = (\<lambda>_. KOut) \<and> (\<forall>c. ncli (cpus s c) = 0)"

definition at_pc :: "nat \<Rightarrow> lk_pc \<Rightarrow> klock \<Rightarrow> klock" where
  "at_pc c p s = s\<lparr>kpc := (kpc s)(c := p)\<rparr>"

definition acquire :: "nat \<Rightarrow> klock \<Rightarrow> klock" where
  "acquire c s =
     (case kpc s c of
        KOut \<Rightarrow> at_pc c ALoad (s\<lparr>cpus := (cpus s)(c := pushcli (cpus s c))\<rparr>)
      | ALoad \<Rightarrow> at_pc c (if locked s \<noteq> 0 then ACpu else ASpin) s
      | ACpu \<Rightarrow> at_pc c (if lk_cpu s = Some c then KPanic ''acquire'' else ASpin) s
      | ASpin \<Rightarrow> at_pc c (if locked s \<noteq> 0 then ASpin else ASet) (s\<lparr>locked := 1\<rparr>)
      | ASet \<Rightarrow> at_pc c KIn (s\<lparr>lk_cpu := Some c\<rparr>)
      | _ \<Rightarrow> s)"

definition release :: "nat \<Rightarrow> klock \<Rightarrow> klock" where
  "release c s =
     (case kpc s c of
        KIn \<Rightarrow> at_pc c RLoad s
      | RLoad \<Rightarrow> at_pc c (if locked s \<noteq> 0 then RCpu else KPanic ''release'') s
      | RCpu \<Rightarrow> at_pc c (if lk_cpu s = Some c then RClear else KPanic ''release'') s
      | RClear \<Rightarrow> at_pc c RWord (s\<lparr>lk_cpu := None\<rparr>)
      | RWord \<Rightarrow> at_pc c RPop (s\<lparr>locked := 0\<rparr>)
      | RPop \<Rightarrow> (case popcli (cpus s c) of
            Inl (Panic m) \<Rightarrow> at_pc c (KPanic m) s
          | Inl _ \<Rightarrow> s
          | Inr k \<Rightarrow> at_pc c KOut (s\<lparr>cpus := (cpus s)(c := k)\<rparr>))
      | _ \<Rightarrow> s)"

inductive klock_step :: "klock \<Rightarrow> klock \<Rightarrow> bool" where
  acquire: "klock_step s (acquire c s)"
| release: "klock_step s (release c s)"

inductive_cases klock_stepE: "klock_step s s'"

definition owner :: "lk_pc \<Rightarrow> bool" where
  "owner p \<longleftrightarrow> p \<in> {ASet, KIn, RLoad, RCpu, RClear, RWord}"

text \<open>The positions at which \<open>lk->cpu\<close> names the CPU.\<close>

definition recorded :: "lk_pc \<Rightarrow> bool" where
  "recorded p \<longleftrightarrow> p \<in> {KIn, RLoad, RCpu, RClear}"

lemma at_pc_simps [simp]:
  "locked (at_pc c p s) = locked s" "lk_cpu (at_pc c p s) = lk_cpu s"
  "cpus (at_pc c p s) = cpus s" "kpc (at_pc c p s) = (kpc s)(c := p)"
  by (simp_all add: at_pc_def)

lemma owner_simps [simp]:
  "owner ASet" "owner KIn" "owner RLoad" "owner RCpu" "owner RClear" "owner RWord"
  "\<not> owner KOut" "\<not> owner ALoad" "\<not> owner ACpu" "\<not> owner ASpin" "\<not> owner RPop" "\<not> owner (KPanic m)"
  by (simp_all add: owner_def)

lemma recorded_simps [simp]:
  "recorded KIn" "recorded RLoad" "recorded RCpu" "recorded RClear" "\<not> recorded ASet" "\<not> recorded RWord"
  "\<not> recorded KOut" "\<not> recorded ALoad" "\<not> recorded ACpu" "\<not> recorded ASpin" "\<not> recorded RPop"
  "\<not> recorded (KPanic m)"
  by (simp_all add: recorded_def)

text \<open>
  One step of CPU \<open>c\<close>: nobody else's position changes, the word changes from 0 to 1
  when it becomes owner and to 0 only when it stops being owner.
\<close>

lemma klock_step_pc:
  assumes "klock_step s s'"
  shows "\<exists>c. (\<forall>d. d \<noteq> c \<longrightarrow> kpc s' d = kpc s d \<and> cpus s' d = cpus s d)
    \<and> (\<not> owner (kpc s c) \<longrightarrow> owner (kpc s' c) \<longrightarrow> locked s = 0 \<and> locked s' \<noteq> 0)
    \<and> (owner (kpc s c) \<longrightarrow> owner (kpc s' c) \<longrightarrow> locked s' = locked s)
    \<and> (\<not> owner (kpc s c) \<longrightarrow> \<not> owner (kpc s' c) \<longrightarrow> locked s \<noteq> 0 \<longrightarrow> locked s' \<noteq> 0)"
  using assms
proof (cases rule: klock_step.cases)
  case (acquire c)
  then show ?thesis
    by (intro exI [of _ c]) (cases "kpc s c"; simp add: acquire_def)
next
  case (release c)
  then show ?thesis
    by (intro exI [of _ c])
      (cases "kpc s c"; cases "popcli (cpus s c)"; simp add: release_def split: kerr.split)
qed

interpretation klk: mutex klock_init klock_step "\<lambda>s c. owner (kpc s c)" "\<lambda>s. locked s \<noteq> 0"
proof unfold_locales
  fix s c assume "klock_init s" then show "\<not> owner (kpc s c)" by (simp add: klock_init_def)
next
  fix s s' t assume st: "klock_step s s'" and t: "\<not> owner (kpc s t)" "owner (kpc s' t)"
  then show "\<not> locked s \<noteq> 0" "locked s' \<noteq> 0" using klock_step_pc [OF st] by metis+
next
  fix s s' t u assume st: "klock_step s s'" and t: "\<not> owner (kpc s t)" "owner (kpc s' t)" "u \<noteq> t"
  then show "owner (kpc s' u) = owner (kpc s u)" using klock_step_pc [OF st] by metis
next
  fix s s' t
  assume st: "klock_step s s'" and l: "locked s \<noteq> 0" "\<not> locked s' \<noteq> 0"
    and one: "\<forall>u. owner (kpc s u) \<longrightarrow> u = t"
  then show "\<not> owner (kpc s' t)" using klock_step_pc [OF st] by metis
qed

section \<open>Panics, interrupts and the recorded CPU\<close>

definition klock_inv :: "klock \<Rightarrow> bool" where
  "klock_inv s \<longleftrightarrow> klk.excl s
     \<and> (\<forall>c. lk_cpu s = Some c \<longleftrightarrow> recorded (kpc s c))
     \<and> (\<forall>c m. kpc s c \<noteq> KPanic m)
     \<and> (\<forall>c. if kpc s c = KOut then ncli (cpus s c) = 0
            else ncli (cpus s c) = 1 \<and> \<not> fl_if (cpus s c))"

lemma klock_inv_acquire:
  assumes i: "klock_inv s" shows "klock_inv (acquire c s)"
proof -
  have x: "klk.excl (acquire c s)"
    using i klk.excl_step [OF klock_step.acquire] by (simp add: klock_inv_def)
  have r: "recorded p \<Longrightarrow> owner p" for p by (cases p) simp_all
  have none: "lk_cpu s = None" if "kpc s c = ASet"
  proof (cases "lk_cpu s")
    case (Some d)
    then have "owner (kpc s d)" "recorded (kpc s d)" using i r by (auto simp: klock_inv_def)
    moreover have "owner (kpc s c)" using that by simp
    ultimately have "d = c" using i unfolding klock_inv_def klk.excl_def by blast
    then show ?thesis using \<open>recorded (kpc s d)\<close> that by simp
  qed
  show ?thesis
  proof (cases "kpc s c")
    case ASet
    then have "\<not> recorded (kpc s d)" for d using i none by (simp add: klock_inv_def)
    then show ?thesis using i x ASet by (auto simp: klock_inv_def acquire_def)
  qed (use i x in \<open>auto simp: klock_inv_def acquire_def pushcli_def Let_def\<close>)
qed

lemma klock_inv_release:
  assumes i: "klock_inv s" shows "klock_inv (release c s)"
proof -
  have x: "klk.excl (release c s)"
    using i klk.excl_step [OF klock_step.release] by (simp add: klock_inv_def)
  show ?thesis
  proof (cases "kpc s c")
    case RLoad
    have "locked s \<noteq> 0" using i RLoad unfolding klock_inv_def klk.excl_def by (metis owner_simps(3))
    then show ?thesis using i x RLoad by (auto simp: klock_inv_def release_def)
  next
    case RClear
    then have "lk_cpu s = Some c" using i by (simp add: klock_inv_def)
    then have "d \<noteq> c \<Longrightarrow> \<not> recorded (kpc s d)" for d using i unfolding klock_inv_def by fastforce
    then show ?thesis using i x RClear by (auto simp: klock_inv_def release_def)
  next
    case RPop
    have "ncli (cpus s c) = 1" "\<not> fl_if (cpus s c)" using i RPop by (auto simp: klock_inv_def)
    then have "popcli (cpus s c) = Inr ((cpus s c)\<lparr>ncli := 0, fl_if := intena (cpus s c)\<rparr>)"
      by (simp add: popcli_def Let_def)
    then show ?thesis using i x RPop by (auto simp: klock_inv_def release_def)
  qed (use i x in \<open>auto simp: klock_inv_def release_def\<close>)
qed

lemma klock_reach_inv:
  assumes "klock_init s0" "klock_step\<^sup>*\<^sup>* s0 s" shows "klock_inv s"
  using assms(2)
proof (induction rule: rtranclp_induct)
  case base
  have "klk.excl s0" by (rule klk.excl_init [OF assms(1)])
  moreover have "lk_cpu s0 = None" "kpc s0 = (\<lambda>_. KOut)" "\<forall>c. ncli (cpus s0 c) = 0"
    using assms(1) by (auto simp: klock_init_def initlock_def)
  ultimately show ?case by (simp add: klock_inv_def)
next
  case (step y z)
  from step.hyps(2) step.IH show ?case
    by (cases rule: klock_step.cases) (auto intro: klock_inv_acquire klock_inv_release)
qed

section \<open>sleeplock.c\<close>

text \<open>
  A process and a sleep lock: outside, in \<open>acquiresleep\<close> (runnable, or asleep on the
  lock), inside. Each step is a critical section of the inner spinlock.
\<close>

datatype sl_pc = LOut | LWant | LAsleep | LIn

record sleeplock =
  slocked :: u32
  spid :: nat
  lpc :: "nat \<Rightarrow> sl_pc"

definition initsleeplock :: "sleeplock \<Rightarrow> sleeplock" where
  "initsleeplock s = s\<lparr>slocked := 0, spid := 0\<rparr>"

definition sleeplock_init :: "sleeplock \<Rightarrow> bool" where
  "sleeplock_init s \<longleftrightarrow> (\<exists>s1. s = initsleeplock s1) \<and> lpc s = (\<lambda>_. LOut)"

definition acquiresleep :: "nat \<Rightarrow> sleeplock \<Rightarrow> sleeplock" where
  "acquiresleep p s =
     (if slocked s \<noteq> 0 then s\<lparr>lpc := (lpc s)(p := LAsleep)\<rparr>
      else s\<lparr>slocked := 1, spid := p, lpc := (lpc s)(p := LIn)\<rparr>)"

definition releasesleep :: "nat \<Rightarrow> sleeplock \<Rightarrow> sleeplock" where
  "releasesleep p s =
     s\<lparr>slocked := 0, spid := 0,
       lpc := (\<lambda>q. if q = p then LOut else if lpc s q = LAsleep then LWant else lpc s q)\<rparr>"

definition holdingsleep :: "sleeplock \<Rightarrow> bool" where
  "holdingsleep s \<longleftrightarrow> slocked s \<noteq> 0"

inductive sleeplock_step :: "sleeplock \<Rightarrow> sleeplock \<Rightarrow> bool" where
  enter: "lpc s p = LOut \<or> lpc s p = LWant \<Longrightarrow> sleeplock_step s (acquiresleep p s)"
| leave: "lpc s p = LIn \<Longrightarrow> sleeplock_step s (releasesleep p s)"

lemma acquiresleep_simps [simp]:
  "slocked (acquiresleep p s) \<noteq> 0"
  "lpc (acquiresleep p s) = (lpc s)(p := if slocked s \<noteq> 0 then LAsleep else LIn)"
  "slocked (releasesleep p s) = 0"
  "lpc (releasesleep p s) = (\<lambda>q. if q = p then LOut else if lpc s q = LAsleep then LWant else lpc s q)"
  by (simp_all add: acquiresleep_def releasesleep_def)

interpretation slp: mutex sleeplock_init sleeplock_step "\<lambda>s p. lpc s p = LIn" holdingsleep
proof unfold_locales
  fix s t assume "sleeplock_init s" then show "lpc s t \<noteq> LIn" by (simp add: sleeplock_init_def)
next
  fix s s' t assume "sleeplock_step s s'" "lpc s t \<noteq> LIn" "lpc s' t = LIn"
  then show "\<not> holdingsleep s" "holdingsleep s'"
    by (cases rule: sleeplock_step.cases; simp add: holdingsleep_def split: if_splits)+
next
  fix s s' t u assume "sleeplock_step s s'" "lpc s t \<noteq> LIn" "lpc s' t = LIn" "u \<noteq> t"
  then show "(lpc s' u = LIn) = (lpc s u = LIn)"
    by (cases rule: sleeplock_step.cases) (simp_all split: if_splits)
next
  fix s s' t
  assume st: "sleeplock_step s s'" and f: "\<not> holdingsleep s'" and one: "\<forall>u. lpc s u = LIn \<longrightarrow> u = t"
  from st show "lpc s' t \<noteq> LIn"
  proof (cases rule: sleeplock_step.cases)
    case (enter p)
    then show ?thesis using f by (simp add: holdingsleep_def)
  next
    case (leave p)
    then have "p = t" using one by blast
    then show ?thesis using leave by simp
  qed
qed

lemma sleeplock_asleep_held:
  assumes "sleeplock_init s0" "sleeplock_step\<^sup>*\<^sup>* s0 s"
  shows "lpc s p = LAsleep \<longrightarrow> (\<exists>q. lpc s q = LIn)"
proof -
  from assms(2) have "(\<exists>p. lpc s p = LAsleep) \<or> slocked s \<noteq> 0 \<longrightarrow> (\<exists>q. lpc s q = LIn)"
  proof (induction rule: rtranclp_induct)
    case base
    then show ?case using assms(1) by (auto simp: sleeplock_init_def initsleeplock_def)
  next
    case (step y z)
    from step.hyps(2) show ?case
    proof (cases rule: sleeplock_step.cases)
      case (enter p)
      show ?thesis
      proof (cases "slocked y = 0")
        case True
        then have "lpc z p = LIn" using enter by simp
        then show ?thesis by blast
      next
        case False
        then obtain q where q: "lpc y q = LIn" using step.IH by blast
        then have "lpc z q = LIn" using enter by auto
        then show ?thesis by blast
      qed
    next
      case (leave p)
      have "slp.reach y" using assms(1) step.hyps(1) by (auto simp: slp.reach_def)
      then show ?thesis using leave by (auto split: if_splits)
    qed
  qed
  then show ?thesis by blast
qed

section \<open>Properties\<close>

text \<open>
  C24. The kernel's spinlock is safe, access by access and for any number of CPUs:
  at most one CPU is between its \<open>xchg\<close> and its final store, such a CPU runs with
  interrupts off, no CPU ever panics in \<open>acquire\<close>, \<open>release\<close> or \<open>popcli\<close> (although
  \<open>holding\<close> reads \<open>locked\<close> and \<open>cpu\<close> in two unsynchronised loads).
\<close>

theorem spinlock_safe:
  assumes "klock_init s0" "klock_step\<^sup>*\<^sup>* s0 s"
  shows "kpc s c \<noteq> KPanic m
    \<and> (owner (kpc s c) \<longrightarrow> locked s \<noteq> 0 \<and> \<not> fl_if (cpus s c) \<and> (\<forall>d. owner (kpc s d) \<longrightarrow> d = c))"
proof -
  have i: "klock_inv s" by (rule klock_reach_inv [OF assms])
  then have "owner (kpc s c) \<longrightarrow> \<not> fl_if (cpus s c)" unfolding klock_inv_def by (metis owner_simps(7))
  then show ?thesis using i unfolding klock_inv_def klk.excl_def by blast
qed

definition klock0 :: klock where
  "klock0 = \<lparr>locked = 0, lk_cpu = None, cpus = (\<lambda>_. \<lparr>fl_if = True, ncli = 0, intena = False\<rparr>), kpc = (\<lambda>_. KOut)\<rparr>"

theorem spinlock_safe_witness:
  "kpc (acquire 0 (acquire 0 (acquire 0 klock0))) 0 = ASet
   \<and> locked (acquire 0 (acquire 0 (acquire 0 klock0))) \<noteq> 0"
proof -
  let ?s = "acquire 0 (acquire 0 (acquire 0 klock0))"
  have i: "klock_init klock0"
    unfolding klock_init_def by (rule conjI, rule exI [of _ klock0]) (simp_all add: initlock_def klock0_def)
  have r: "klock_step\<^sup>*\<^sup>* klock0 ?s"
    by (meson klock_step.acquire rtranclp.rtrancl_into_rtrancl rtranclp.rtrancl_refl)
  have p: "kpc ?s 0 = ASet" by (simp add: acquire_def klock0_def at_pc_def)
  then have "owner (kpc ?s 0)" by simp
  then show ?thesis using spinlock_safe [OF i r, of 0] p by blast
qed

text \<open>
  \<open>pushcli\<close> and \<open>popcli\<close> match: any bracketed sequence of calls runs without a
  panic and leaves the interrupt flag as it found it, with no nesting left.
\<close>

theorem cli_balanced:
  assumes "balanced_from 0 bs" "ncli c = 0"
  shows "\<exists>c'. cli_run bs c = Inr c' \<and> ncli c' = 0 \<and> fl_if c' = fl_if c"
  by (rule cli_run_balanced(2) [OF assms])

theorem cli_balanced_witness:
  "\<exists>c'. cli_run [True, True, False, False] \<lparr>fl_if = True, ncli = 0, intena = False\<rparr> = Inr c' \<and> fl_if c'"
  using cli_balanced [of "[True, True, False, False]" "\<lparr>fl_if = True, ncli = 0, intena = False\<rparr>"] by auto

text \<open>
  C28. A sleep lock is a mutex and wakes its waiters: two processes inside are the
  same one, the lock is then held, and a process asleep on it always has somebody
  inside to wake it up.
\<close>

theorem sleeplock_safe:
  assumes "sleeplock_init s0" "sleeplock_step\<^sup>*\<^sup>* s0 s"
  shows "(lpc s p = LIn \<and> lpc s q = LIn \<longrightarrow> p = q) \<and> (lpc s p = LIn \<longrightarrow> holdingsleep s)
    \<and> (lpc s p = LAsleep \<longrightarrow> (\<exists>q. lpc s q = LIn))"
proof -
  have "slp.reach s" using assms by (auto simp: slp.reach_def)
  then show ?thesis
    using slp.mutual_exclusion slp.inside_held sleeplock_asleep_held [OF assms] by blast
qed

theorem sleeplock_safe_witness:
  "holdingsleep (acquiresleep 7 \<lparr>slocked = 0, spid = 0, lpc = (\<lambda>_. LOut)\<rparr>)"
proof -
  let ?s = "\<lparr>slocked = 0, spid = 0, lpc = (\<lambda>_. LOut)\<rparr>"
  have i: "sleeplock_init ?s"
    unfolding sleeplock_init_def by (rule conjI, rule exI [of _ ?s]) (simp_all add: initsleeplock_def)
  have r: "sleeplock_step\<^sup>*\<^sup>* ?s (acquiresleep 7 ?s)"
    by (intro r_into_rtranclp sleeplock_step.enter) simp
  show ?thesis using sleeplock_safe [OF i r, of 7 7] by simp
qed

end
