(* ===== verification/Kalloc.thy ===== *)
theory Kalloc
  imports CString
begin

text \<open>
  The physical page allocator (kalloc.c): free pages form a singly linked list
  threaded through their own first words. It is refined to a stack of pages; the
  locale \<open>page_allocator\<close> is what the users of pages (page tables, pipes, kernel
  stacks) rely on. The allocator's spinlock is verified in the theory of kernel
  locks; a call here is what runs under it.
\<close>

section \<open>Layout\<close>

definition PGSIZE :: u32 where "PGSIZE = 4096"
definition KERNBASE :: u32 where "KERNBASE = 0x80000000"
definition PHYSTOP :: u32 where "PHYSTOP = 0xE000000"

definition V2P :: "u32 \<Rightarrow> u32" where "V2P a = a - KERNBASE"
definition P2V :: "u32 \<Rightarrow> u32" where "P2V a = a + KERNBASE"

definition PGROUNDUP :: "u32 \<Rightarrow> u32" where
  "PGROUNDUP sz = (sz + PGSIZE - 1) AND NOT (PGSIZE - 1)"

definition PGROUNDDOWN :: "u32 \<Rightarrow> u32" where
  "PGROUNDDOWN a = a AND NOT (PGSIZE - 1)"

lemma V2P_P2V [simp]: "V2P (P2V a) = a" "P2V (V2P a) = a"
  by (simp_all add: V2P_def P2V_def)

section \<open>kalloc.c\<close>

text \<open>The linker symbol \<open>end\<close> is the parameter \<open>kend\<close>.\<close>

record kmem =
  kbytes :: mem
  use_lock :: bool
  freelist :: u32

definition kfree :: "u32 \<Rightarrow> u32 \<Rightarrow> kmem \<Rightarrow> kmem res" where
  "kfree kend v k =
     (if v mod PGSIZE \<noteq> 0 \<or> v < kend \<or> V2P v \<ge> PHYSTOP then Inl (Panic ''kfree'')
      else Inr (k\<lparr>kbytes := store32 v (freelist k) (memset v 1 PGSIZE (kbytes k)), freelist := v\<rparr>))"

definition kalloc :: "kmem \<Rightarrow> u32 \<times> kmem" where
  "kalloc k =
     (let r = freelist k in
      (r, if r \<noteq> 0 then k\<lparr>freelist := load32 (kbytes k) r\<rparr> else k))"

function freerange_loop :: "u32 \<Rightarrow> u32 \<Rightarrow> u32 \<Rightarrow> kmem \<Rightarrow> kmem res" where
  "freerange_loop kend p vend k =
     (if p + PGSIZE \<le> vend
      then (case kfree kend p k of Inl e \<Rightarrow> Inl e
            | Inr k \<Rightarrow> freerange_loop kend (p + PGSIZE) vend k)
      else Inr k)"
  by pat_completeness auto

text \<open>A page that \<open>kfree\<close> accepts lies in the kernel's map of physical memory.\<close>

definition kpage :: "u32 \<Rightarrow> u32 \<Rightarrow> bool" where
  "kpage kend v \<longleftrightarrow> v mod PGSIZE = 0 \<and> kend \<le> v \<and> V2P v < PHYSTOP"

lemma kfree_panics: "kfree kend v k = Inl e \<longleftrightarrow> \<not> kpage kend v \<and> e = Panic ''kfree''"
  by (auto simp: kfree_def kpage_def not_le not_less)

lemma kfree_ok: "kpage kend v \<Longrightarrow> kfree kend v k
    = Inr (k\<lparr>kbytes := store32 v (freelist k) (memset v 1 PGSIZE (kbytes k)), freelist := v\<rparr>)"
  by (auto simp: kfree_def kpage_def not_le not_less)

lemma kpage_range:
  assumes "kpage kend v"
  shows "0x80000000 \<le> unat v" and "unat v < 0x8E000000"
proof -
  have "unat (V2P v) < 0xE000000"
    using assms by (simp add: kpage_def word_less_nat_alt PHYSTOP_def)
  moreover have "unat v = (unat (V2P v) + 0x80000000) mod 2 ^ 32"
  proof -
    have "unat (V2P v + 0x80000000) = (unat (V2P v) + 0x80000000) mod 2 ^ 32"
      by (simp add: unat_word_ariths)
    then show ?thesis by (simp add: V2P_def KERNBASE_def)
  qed
  ultimately show "0x80000000 \<le> unat v" "unat v < 0x8E000000" by simp_all
qed

termination freerange_loop
proof (relation "measure (\<lambda>(_, p, _, _). 2 ^ 32 - unat p)")
  fix kend p vend k k'
  assume "p + PGSIZE \<le> vend" "kfree kend p k = Inr k'"
  then have "kpage kend p" by (metis kfree_panics sum.distinct(1) Inl_inject not_Some_eq) 
  then have "unat p < 0x8E000000" by (rule kpage_range)
  then have "unat (p + PGSIZE) = unat p + 4096"
    by (simp add: PGSIZE_def unat_word_ariths)
  then show "((kend, p + PGSIZE, vend, k'), (kend, p, vend, k)) \<in> measure (\<lambda>(_, p, _, _). 2 ^ 32 - unat p)"
    using unat_bound [of p] by simp
qed simp

declare freerange_loop.simps [simp del]

definition freerange :: "u32 \<Rightarrow> u32 \<Rightarrow> u32 \<Rightarrow> kmem \<Rightarrow> kmem res" where
  "freerange kend vstart vend k = freerange_loop kend (PGROUNDUP vstart) vend k"

definition kinit1 :: "u32 \<Rightarrow> u32 \<Rightarrow> u32 \<Rightarrow> kmem \<Rightarrow> kmem res" where
  "kinit1 kend vstart vend k = freerange kend vstart vend (k\<lparr>use_lock := False\<rparr>)"

definition kinit2 :: "u32 \<Rightarrow> u32 \<Rightarrow> u32 \<Rightarrow> kmem \<Rightarrow> kmem res" where
  "kinit2 kend vstart vend k =
     rbind (freerange kend vstart vend k) (\<lambda>k. Inr (k\<lparr>use_lock := True\<rparr>))"

section \<open>Pages are disjoint\<close>

definition in_page :: "u32 \<Rightarrow> u32 \<Rightarrow> bool" where
  "in_page p x \<longleftrightarrow> x - p < PGSIZE"

lemma aligned_unat: "(p :: u32) mod PGSIZE = 0 \<longleftrightarrow> unat p mod 4096 = 0"
  by (simp add: PGSIZE_def word_unat_eq_iff unat_mod)

lemma in_page_div:
  assumes "p mod PGSIZE = 0"
  shows "in_page p x \<longleftrightarrow> unat x div 4096 = unat p div 4096"
proof -
  obtain j where j: "unat p = 4096 * j" using assms by (auto simp: aligned_unat)
  have b: "unat p < 2 ^ 32" "unat x < 2 ^ 32" using unat_bound [of p] unat_bound [of x] by simp_all
  then have j2: "j < 2 ^ 20" using j by simp
  have m: "unat (x - p) = (if unat p \<le> unat x then unat x - unat p else unat x + 2 ^ 32 - unat p)"
    by (simp add: unat_sub_if_size word_size)
  show ?thesis
  proof (cases "unat p \<le> unat x")
    case True
    have "unat x - 4096 * j < 4096 \<longleftrightarrow> unat x div 4096 = j"
      using True j by (auto simp: div_nat_eqI intro: div_nat_eqI)
    then show ?thesis using True m j by (simp add: in_page_def word_less_nat_alt PGSIZE_def)
  next
    case False
    then have "unat x div 4096 < j" using j by (simp add: less_mult_imp_div_less)
    moreover have "\<not> unat (x - p) < 4096" using False m j j2 b by simp
    ultimately show ?thesis using j by (simp add: in_page_def word_less_nat_alt PGSIZE_def)
  qed
qed

lemma pages_disjoint:
  "p mod PGSIZE = 0 \<Longrightarrow> q mod PGSIZE = 0 \<Longrightarrow> in_page p x \<Longrightarrow> in_page q x \<Longrightarrow> p = q"
  by (simp add: in_page_div aligned_unat)
    (metis (no_types) add.right_neutral mult_div_mod_eq unsigned_word_eqI)

lemma pages_apart:
  assumes "p mod PGSIZE = 0" "q mod PGSIZE = 0" "p \<noteq> q" "in_page p x"
  shows "\<not> in_page q x"
  using pages_disjoint [OF assms(1,2,4)] assms(3) by metis

section \<open>The free list is a stack of pages\<close>

text \<open>\<open>flist m hd ps\<close>: from \<open>hd\<close> the \<open>next\<close> pointers in memory run through \<open>ps\<close> to 0.\<close>

fun flist :: "mem \<Rightarrow> u32 \<Rightarrow> u32 list \<Rightarrow> bool" where
  "flist m h [] = (h = 0)"
| "flist m h (p # ps) = (h = p \<and> flist m (load32 m p) ps)"

definition kmem_ok :: "u32 \<Rightarrow> kmem \<Rightarrow> u32 list \<Rightarrow> bool" where
  "kmem_ok kend k ps \<longleftrightarrow> flist (kbytes k) (freelist k) ps \<and> distinct ps \<and> (\<forall>p\<in>set ps. kpage kend p)"

text \<open>The list as a function of the state, for states where it ends within \<open>n\<close> pages.\<close>

lemma flist_determines: "flist m h ps \<Longrightarrow> flist m h qs \<Longrightarrow> 0 \<notin> set ps \<Longrightarrow> 0 \<notin> set qs \<Longrightarrow> ps = qs"
proof (induction ps arbitrary: h qs)
  case Nil
  then show ?case by (cases qs) auto
next
  case (Cons p ps)
  then show ?case by (cases qs) auto
qed

lemma kpage_not_zero: "kpage kend p \<Longrightarrow> p \<noteq> 0"
  using kpage_range(1) [of kend p] by auto

lemma kpage_aligned: "kpage kend p \<Longrightarrow> p mod PGSIZE = 0"
  by (simp add: kpage_def)

lemma word_in_page: "in_page p p" "in_page p (p + 1)" "in_page p (p + 2)" "in_page p (p + 3)"
  by (simp_all add: in_page_def PGSIZE_def)

lemma load32_cong:
  assumes "\<And>x. in_page p x \<Longrightarrow> m' x = m x"
  shows "load32 m' p = load32 m p"
  using assms word_in_page [of p] by (simp add: load32_def)

text \<open>Memory changes outside the free pages leave the list alone.\<close>

lemma flist_cong:
  assumes "\<And>p x. p \<in> set ps \<Longrightarrow> in_page p x \<Longrightarrow> m' x = m x"
  shows "flist m' h ps = flist m h ps"
  using assms
proof (induction ps arbitrary: h)
  case (Cons p ps)
  have "load32 m' p = load32 m p" by (rule load32_cong, rule Cons.prems [of p]) simp_all
  moreover have "flist m' (load32 m p) ps = flist m (load32 m p) ps"
    by (rule Cons.IH, rule Cons.prems) auto
  ultimately show ?case by simp
qed simp

lemma store32_outside: "\<not> in_page p x \<Longrightarrow> store32 p w m x = m x"
  using word_in_page [of p] by (auto simp: store32_def)

lemma memset_outside: "\<not> in_page p x \<Longrightarrow> memset p c PGSIZE m x = m x"
  by (simp add: memset_apply in_page_def)

text \<open>The functional specification of \<open>kfree\<close> and \<open>kalloc\<close>: push and pop.\<close>

lemma kfree_push:
  assumes ok: "kmem_ok kend k ps" and v: "kpage kend v" "v \<notin> set ps"
  shows "\<exists>k'. kfree kend v k = Inr k' \<and> kmem_ok kend k' (v # ps)
    \<and> (\<forall>x. \<not> in_page v x \<longrightarrow> kbytes k' x = kbytes k x)"
proof -
  let ?k = "k\<lparr>kbytes := store32 v (freelist k) (memset v 1 PGSIZE (kbytes k)), freelist := v\<rparr>"
  have out: "kbytes ?k x = kbytes k x" if "\<not> in_page v x" for x
    using that by (simp add: store32_outside memset_outside)
  have "flist (kbytes ?k) (freelist k) ps = flist (kbytes k) (freelist k) ps"
  proof (rule flist_cong)
    fix p x assume p: "p \<in> set ps" "in_page p x"
    then have "kpage kend p" "p \<noteq> v" using ok v by (auto simp: kmem_ok_def)
    then have "\<not> in_page v x" using pages_disjoint p v(1) kpage_aligned by blast
    then show "kbytes ?k x = kbytes k x" by (rule out)
  qed
  then have "kmem_ok kend ?k (v # ps)" using ok v by (simp add: kmem_ok_def)
  then show ?thesis using out kfree_ok [OF v(1)] by blast
qed

lemma kalloc_pop:
  assumes "kmem_ok kend k ps"
  shows "(case ps of [] \<Rightarrow> kalloc k = (0, k)
     | p # qs \<Rightarrow> fst (kalloc k) = p \<and> kmem_ok kend (snd (kalloc k)) qs
         \<and> kbytes (snd (kalloc k)) = kbytes k)"
  using assms kpage_not_zero by (cases ps) (auto simp: kmem_ok_def kalloc_def Let_def)

section \<open>The interface of a page allocator\<close>

locale page_allocator =
  fixes alloc :: "'s \<Rightarrow> u32 \<times> 's"
    and free :: "u32 \<Rightarrow> 's \<Rightarrow> 's res"
    and pool :: "'s \<Rightarrow> u32 set \<Rightarrow> bool"
    and bytes_of :: "'s \<Rightarrow> mem"
    and page :: "u32 \<Rightarrow> bool"
  assumes page_nonzero: "page p \<Longrightarrow> p \<noteq> 0"
    and page_aligned: "page p \<Longrightarrow> p mod PGSIZE = 0"
    and pool_pages: "pool s F \<Longrightarrow> p \<in> F \<Longrightarrow> page p"
    and alloc_some: "pool s F \<Longrightarrow> F \<noteq> {} \<Longrightarrow>
      fst (alloc s) \<in> F \<and> pool (snd (alloc s)) (F - {fst (alloc s)})"
    and alloc_none: "pool s {} \<Longrightarrow> alloc s = (0, s)"
    and alloc_bytes: "pool s F \<Longrightarrow> bytes_of (snd (alloc s)) = bytes_of s"
    and free_ok: "pool s F \<Longrightarrow> page p \<Longrightarrow> p \<notin> F \<Longrightarrow>
      \<exists>s'. free p s = Inr s' \<and> pool s' (insert p F)
        \<and> (\<forall>x. \<not> in_page p x \<longrightarrow> bytes_of s' x = bytes_of s x)"
begin

lemma alloc_zero: "pool s F \<Longrightarrow> fst (alloc s) = 0 \<longleftrightarrow> F = {}"
  using alloc_some alloc_none pool_pages page_nonzero by (metis fst_conv)

text \<open>Any number of allocations returns different pages, all from the pool.\<close>

fun alloc_many :: "nat \<Rightarrow> 's \<Rightarrow> u32 list \<times> 's" where
  "alloc_many 0 s = ([], s)"
| "alloc_many (Suc n) s = (let (p, s) = alloc s; (ps, s) = alloc_many n s in (p # ps, s))"

lemma alloc_many_distinct:
  assumes "pool s F" and "finite F" and "n \<le> card F"
  shows "distinct (fst (alloc_many n s)) \<and> set (fst (alloc_many n s)) \<subseteq> F
    \<and> pool (snd (alloc_many n s)) (F - set (fst (alloc_many n s)))"
  using assms
proof (induction n arbitrary: s F)
  case (Suc n)
  obtain p s1 where a: "alloc s = (p, s1)" by fastforce
  obtain ps s2 where b: "alloc_many n s1 = (ps, s2)" by fastforce
  have "F \<noteq> {}" using Suc.prems(3) by auto
  then have p: "p \<in> F" "pool s1 (F - {p})" using alloc_some [OF Suc.prems(1)] a by simp_all
  moreover have "n \<le> card (F - {p})" using p(1) Suc.prems(2,3) by simp
  ultimately have "distinct ps \<and> set ps \<subseteq> F - {p} \<and> pool s2 (F - {p} - set ps)"
    using Suc.IH [of s1 "F - {p}"] Suc.prems(2) b by simp
  moreover have "F - {p} - set ps = F - insert p (set ps)" by auto
  ultimately show ?case using a b p(1) by auto
qed simp

end

definition kpool :: "u32 \<Rightarrow> kmem \<Rightarrow> u32 set \<Rightarrow> bool" where
  "kpool kend k F \<longleftrightarrow> (\<exists>ps. set ps = F \<and> kmem_ok kend k ps)"

interpretation kpages: page_allocator kalloc "kfree kend" "kpool kend" kbytes "kpage kend" for kend
proof unfold_locales
  fix k F assume "kpool kend k F" "F \<noteq> {}"
  then obtain ps where ps: "set ps = F" "kmem_ok kend k ps" by (auto simp: kpool_def)
  then obtain p qs where "ps = p # qs" using \<open>F \<noteq> {}\<close> by (cases ps) auto
  then show "fst (kalloc k) \<in> F \<and> kpool kend (snd (kalloc k)) (F - {fst (kalloc k)})"
    using kalloc_pop [OF ps(2)] ps by (fastforce simp: kpool_def kmem_ok_def)
next
  fix k assume "kpool kend k {}"
  then show "kalloc k = (0, k)" using kalloc_pop [of kend k "[]"] by (auto simp: kpool_def)
next
  fix k F assume "kpool kend k F"
  then show "kbytes (snd (kalloc k)) = kbytes k"
    by (auto simp: kpool_def kalloc_def Let_def)
next
  fix k F p assume "kpool kend k F" and p: "kpage kend p" "p \<notin> F"
  then obtain ps where ps: "set ps = F" "kmem_ok kend k ps" by (auto simp: kpool_def)
  have "p \<notin> set ps" using ps(1) p(2) by simp
  from kfree_push [OF ps(2) p(1) this] show "\<exists>s'. kfree kend p k = Inr s' \<and> kpool kend s' (insert p F)
      \<and> (\<forall>x. \<not> in_page p x \<longrightarrow> kbytes s' x = kbytes k x)"
    using ps(1) by (metis kpool_def list.simps(15))
qed (auto simp: kpool_def kmem_ok_def kpage_not_zero kpage_aligned)

section \<open>Properties\<close>

definition pages_between :: "u32 \<Rightarrow> u32 \<Rightarrow> u32 set" where
  "pages_between lo hi = {p. p mod PGSIZE = 0 \<and> lo \<le> p \<and> unat p + 4096 \<le> unat hi}"

lemma pages_between_empty: "\<not> unat lo + 4096 \<le> unat hi \<Longrightarrow> pages_between lo hi = {}"
  by (auto simp: pages_between_def word_le_nat_alt)

lemma pages_between_step:
  assumes "lo mod PGSIZE = 0" "unat lo + 4096 \<le> unat hi"
  shows "pages_between lo hi = insert lo (pages_between (lo + PGSIZE) hi)"
    and "lo \<notin> pages_between (lo + PGSIZE) hi"
proof -
  have b: "unat hi < 2 ^ 32" using unat_bound [of hi] by simp
  then have s: "unat (lo + PGSIZE) = unat lo + 4096"
    using assms(2) by (simp add: PGSIZE_def unat_word_ariths)
  have "p = lo \<or> lo + PGSIZE \<le> p" if p: "p mod PGSIZE = 0" "lo \<le> p" for p
  proof -
    obtain i j where ij: "unat p = 4096 * i" "unat lo = 4096 * j"
      using p(1) assms(1) by (auto simp: aligned_unat dvd_def)
    then have "j \<le> i" using p(2) by (simp add: word_le_nat_alt)
    then have "unat p = unat lo \<or> unat lo + 4096 \<le> unat p"
      unfolding ij by (cases "i = j") auto
    then show ?thesis using s by (auto simp: word_le_nat_alt intro: unsigned_word_eqI)
  qed
  note split = this
  show "pages_between lo hi = insert lo (pages_between (lo + PGSIZE) hi)"
  proof (intro set_eqI iffI)
    fix x assume "x \<in> pages_between lo hi"
    then show "x \<in> insert lo (pages_between (lo + PGSIZE) hi)"
      using split [of x] by (simp only: pages_between_def mem_Collect_eq insert_iff) metis
  next
    fix x assume "x \<in> insert lo (pages_between (lo + PGSIZE) hi)"
    moreover have "lo \<le> x" if "lo + PGSIZE \<le> x" using that s by (simp add: word_le_nat_alt)
    ultimately show "x \<in> pages_between lo hi"
      using assms by (simp only: pages_between_def mem_Collect_eq insert_iff) (metis order_refl)
  qed
  show "lo \<notin> pages_between (lo + PGSIZE) hi"
    using s by (auto simp: pages_between_def word_le_nat_alt)
qed

lemma freerange_loop_pool:
  assumes "p mod PGSIZE = 0" "kend \<le> p" "KERNBASE \<le> p" "unat vend \<le> 0x8E000000"
    and "unat p + 4096 < 2 ^ 32"
    and "kpool kend k F" "F \<inter> pages_between p vend = {}"
  shows "\<exists>k'. freerange_loop kend p vend k = Inr k' \<and> kpool kend k' (F \<union> pages_between p vend)"
  using assms
proof (induction kend p vend k arbitrary: F rule: freerange_loop.induct)
  case (1 kend p vend k)
  have b: "unat p < 2 ^ 32" using unat_bound [of p] by simp
  show ?case
  proof (cases "unat p + 4096 \<le> unat vend")
    case True
    have s: "unat (p + PGSIZE) = unat p + 4096"
      using True unat_bound [of vend] by (simp add: PGSIZE_def unat_word_ariths)
    then have le: "p + PGSIZE \<le> vend" using True by (simp add: word_le_nat_alt)
    have kp: "kpage kend p"
    proof -
      have "unat (V2P p) = unat p - 0x80000000"
        using "1.prems"(3) by (simp add: V2P_def KERNBASE_def unat_sub)
      then have "V2P p < PHYSTOP"
        using True "1.prems"(4) by (simp add: word_less_nat_alt PHYSTOP_def)
      then show ?thesis using "1.prems" by (simp add: kpage_def)
    qed
    note pb = pages_between_step [OF "1.prems"(1) True]
    have "p \<notin> F" using "1.prems"(7) pb(1) by auto
    from kpages.free_ok [OF "1.prems"(6) kp this] obtain k1 where
      k1: "kfree kend p k = Inr k1" "kpool kend k1 (insert p F)" by blast
    have "\<exists>k'. freerange_loop kend (p + PGSIZE) vend k1 = Inr k'
        \<and> kpool kend k' (insert p F \<union> pages_between (p + PGSIZE) vend)"
    proof (rule "1.IH" [OF le k1(1)])
      show "(p + PGSIZE) mod PGSIZE = 0" using "1.prems"(1) s by (simp add: aligned_unat)
      show "kend \<le> p + PGSIZE" "KERNBASE \<le> p + PGSIZE"
        using "1.prems"(2,3) s by (simp_all add: word_le_nat_alt)
      show "insert p F \<inter> pages_between (p + PGSIZE) vend = {}"
        using "1.prems"(7) pb by auto
      show "unat (p + PGSIZE) + 4096 < 2 ^ 32" using True s "1.prems"(4) by simp
    qed (use "1.prems"(4) k1(2) in auto)
    then show ?thesis using le k1(1) pb(1) by (subst freerange_loop.simps) simp
  next
    case False
    have "unat (p + PGSIZE) = unat p + 4096"
      using "1.prems"(5) by (simp add: PGSIZE_def unat_word_ariths)
    then have "\<not> p + PGSIZE \<le> vend" using False by (simp add: word_le_nat_alt)
    then show ?thesis using "1.prems"(6) pages_between_empty [OF False]
      by (subst freerange_loop.simps) simp
  qed
qed

lemma PGROUNDUP_mod: "PGROUNDUP x mod PGSIZE = 0"
proof -
  have "PGROUNDUP x AND (PGSIZE - 1) = 0"
    by (simp add: PGROUNDUP_def and.assoc)
  moreover have "(PGSIZE - 1) = mask 12" by (simp add: PGSIZE_def mask_eq_exp_minus_1)
  moreover have "y mod PGSIZE = y AND mask 12" for y :: u32
    by (simp add: PGSIZE_def take_bit_eq_mask [symmetric] take_bit_eq_mod)
  ultimately show ?thesis by simp
qed

text \<open>
  Boot fills the pool with exactly the pages of the range: \<open>freerange\<close> (and so
  \<open>kinit1\<close> and \<open>kinit2\<close>) does not panic on a range of kernel pages, and afterwards the
  free pages are those from before and the whole, page-aligned pages that fit into it.
\<close>

theorem freerange_pool:
  assumes "kend \<le> PGROUNDUP vstart" "KERNBASE \<le> PGROUNDUP vstart"
    and "unat (PGROUNDUP vstart) + 4096 < 2 ^ 32" "unat vend \<le> 0x8E000000"
    and "kpool kend k F" "F \<inter> pages_between (PGROUNDUP vstart) vend = {}"
  shows "\<exists>k'. freerange kend vstart vend k = Inr k'
    \<and> kpool kend k' (F \<union> pages_between (PGROUNDUP vstart) vend)"
  using freerange_loop_pool [OF PGROUNDUP_mod assms(1,2,4,3,5,6)] by (simp add: freerange_def)

theorem freerange_pool_witness:
  "\<exists>k'. freerange 0x80100000 0x80100001 0x80103000 \<lparr>kbytes = (\<lambda>_. 0), use_lock = False, freelist = 0\<rparr>
      = Inr k' \<and> kpool 0x80100000 k' (pages_between 0x80101000 0x80103000)"
proof -
  let ?k = "\<lparr>kbytes = (\<lambda>_. 0), use_lock = False, freelist = 0\<rparr>"
  have p: "PGROUNDUP 0x80100001 = 0x80101000" by (simp add: PGROUNDUP_def PGSIZE_def)
  have "kpool 0x80100000 ?k {}"
    by (simp add: kpool_def kmem_ok_def)
  then show ?thesis
    using freerange_pool [where kend = "0x80100000" and vstart = "0x80100001" and vend = "0x80103000"
        and k = ?k and F = "{}"] by (simp add: p KERNBASE_def)
qed

text \<open>
  \<open>kfree\<close> and \<open>kalloc\<close> are push and pop on the stack of free pages: freeing a
  page panics exactly when the address is not a kernel page, otherwise the next \<open>kalloc\<close>
  returns it and leaves the free list as it was before; the free list lives in the
  free pages, so no byte outside the freed page changes.
\<close>

theorem kalloc_after_kfree:
  assumes "kmem_ok kend k ps" "v \<notin> set ps"
  shows "(kfree kend v k = Inl (Panic ''kfree'') \<longleftrightarrow> \<not> kpage kend v)
    \<and> (kpage kend v \<longrightarrow> (\<exists>k'. kfree kend v k = Inr k' \<and> fst (kalloc k') = v
         \<and> kmem_ok kend (snd (kalloc k')) ps
         \<and> (\<forall>x. \<not> in_page v x \<longrightarrow> kbytes (snd (kalloc k')) x = kbytes k x)))"
proof -
  have "\<exists>k'. kfree kend v k = Inr k' \<and> fst (kalloc k') = v
         \<and> kmem_ok kend (snd (kalloc k')) ps
         \<and> (\<forall>x. \<not> in_page v x \<longrightarrow> kbytes (snd (kalloc k')) x = kbytes k x)" if v: "kpage kend v"
    using kfree_push [OF assms(1) v assms(2)] kalloc_pop [of kend _ "v # ps"] by fastforce
  then show ?thesis by (simp add: kfree_panics)
qed

theorem kalloc_after_kfree_witness:
  "\<exists>k'. kfree 0x80100000 0x80200000 \<lparr>kbytes = (\<lambda>_. 0), use_lock = True, freelist = 0\<rparr> = Inr k'
     \<and> fst (kalloc k') = 0x80200000"
proof -
  let ?k = "\<lparr>kbytes = (\<lambda>_. 0), use_lock = True, freelist = 0\<rparr>"
  have "kmem_ok 0x80100000 ?k []" by (simp add: kmem_ok_def)
  moreover have "kpage 0x80100000 0x80200000"
    by (simp add: kpage_def V2P_def PHYSTOP_def KERNBASE_def PGSIZE_def)
  ultimately show ?thesis using kalloc_after_kfree [where kend = "0x80100000" and k = ?k
        and ps = "[]" and v = "0x80200000"] by auto
qed

text \<open>
  Pages handed out are different: \<open>n\<close> calls of \<open>kalloc\<close> on a pool of at least \<open>n\<close>
  pages return \<open>n\<close> different non-null pages of the pool, which leave it.
\<close>

theorem kalloc_distinct:
  assumes "kpool kend k F" "finite F" "n \<le> card F"
  shows "distinct (fst (kpages.alloc_many n k)) \<and> 0 \<notin> set (fst (kpages.alloc_many n k))
    \<and> kpool kend (snd (kpages.alloc_many n k)) (F - set (fst (kpages.alloc_many n k)))"
  using kpages.alloc_many_distinct [OF assms] kpages.pool_pages [OF assms(1)] kpage_not_zero by blast

theorem kalloc_distinct_witness:
  "distinct (fst (kpages.alloc_many 1 \<lparr>kbytes = (\<lambda>_. 0), use_lock = True, freelist = 0x80200000\<rparr>))"
proof -
  let ?k = "\<lparr>kbytes = (\<lambda>_. 0), use_lock = True, freelist = 0x80200000\<rparr>"
  have "kpage 0x80100000 0x80200000"
    by (simp add: kpage_def V2P_def PHYSTOP_def KERNBASE_def PGSIZE_def)
  then have "kmem_ok 0x80100000 ?k [0x80200000]" by (simp add: kmem_ok_def load32_def)
  then have "kpool 0x80100000 ?k {0x80200000}" unfolding kpool_def by (intro exI [of _ "[0x80200000]"]) simp
  then show ?thesis using kalloc_distinct [where kend = "0x80100000" and k = ?k
        and F = "{0x80200000}" and n = 1] by simp
qed

end
