(* ===== verification/VM.thy ===== *)
theory VM
  imports Kalloc
begin

text \<open>
  Virtual memory (vm.c): two-level x86 page tables stored in kernel memory and
  read and written through \<open>load32\<close> and \<open>store32\<close>, over the page allocator. A
  kernel virtual address of physical memory is \<open>P2V pa\<close>. Loops over pages carry
  fuel; 2^20 is the number of pages of the address space.
\<close>

section \<open>mmu.h\<close>

definition PDX :: "u32 \<Rightarrow> u32" where "PDX va = drop_bit 22 va AND 0x3FF"
definition PTX :: "u32 \<Rightarrow> u32" where "PTX va = drop_bit 12 va AND 0x3FF"
definition PGADDR :: "u32 \<Rightarrow> u32 \<Rightarrow> u32 \<Rightarrow> u32" where
  "PGADDR d t off = push_bit 22 d OR push_bit 12 t OR off"

definition PTE_P :: u32 where "PTE_P = 0x001"
definition PTE_W :: u32 where "PTE_W = 0x002"
definition PTE_U :: u32 where "PTE_U = 0x004"

definition PTE_ADDR :: "u32 \<Rightarrow> u32" where "PTE_ADDR pte = pte AND NOT 0xFFF"
definition PTE_FLAGS :: "u32 \<Rightarrow> u32" where "PTE_FLAGS pte = pte AND 0xFFF"

definition EXTMEM :: u32 where "EXTMEM = 0x100000"
definition DEVSPACE :: u32 where "DEVSPACE = 0xFE000000"
definition KERNLINK :: u32 where "KERNLINK = KERNBASE + EXTMEM"

definition page_fuel :: nat where "page_fuel = 2 ^ 20"

section \<open>vm.c\<close>

definition present :: "u32 \<Rightarrow> bool" where
  "present e \<longleftrightarrow> e AND PTE_P \<noteq> 0"

text \<open>The address of the entry, 0 for NULL.\<close>

definition walkpgdir :: "u32 \<Rightarrow> u32 \<Rightarrow> bool \<Rightarrow> kmem \<Rightarrow> u32 \<times> kmem" where
  "walkpgdir pgdir va alloc k =
     (let pde = pgdir + 4 * PDX va; e = load32 (kbytes k) pde in
      if present e then (P2V (PTE_ADDR e) + 4 * PTX va, k)
      else if \<not> alloc then (0, k)
      else let (pgtab, k) = kalloc k in
        if pgtab = 0 then (0, k)
        else let m = memset pgtab 0 PGSIZE (kbytes k);
                 m = store32 pde (V2P pgtab OR PTE_P OR PTE_W OR PTE_U) m
             in (pgtab + 4 * PTX va, k\<lparr>kbytes := m\<rparr>))"

text \<open>\<open>Inr (False, k)\<close> is the return value -1.\<close>

fun mappages_loop :: "nat \<Rightarrow> u32 \<Rightarrow> u32 \<Rightarrow> u32 \<Rightarrow> u32 \<Rightarrow> u32 \<Rightarrow> kmem \<Rightarrow> (bool \<times> kmem) res" where
  "mappages_loop 0 pgdir a lst pa perm k = Inl OutOfFuel"
| "mappages_loop (Suc n) pgdir a lst pa perm k =
     (let (pte, k) = walkpgdir pgdir a True k in
      if pte = 0 then Inr (False, k)
      else if present (load32 (kbytes k) pte) then Inl (Panic ''remap'')
      else let k = k\<lparr>kbytes := store32 pte (pa OR perm OR PTE_P) (kbytes k)\<rparr> in
        if a = lst then Inr (True, k)
        else mappages_loop n pgdir (a + PGSIZE) lst (pa + PGSIZE) perm k)"

definition mappages :: "u32 \<Rightarrow> u32 \<Rightarrow> u32 \<Rightarrow> u32 \<Rightarrow> u32 \<Rightarrow> kmem \<Rightarrow> (bool \<times> kmem) res" where
  "mappages pgdir va sz pa perm k =
     mappages_loop page_fuel pgdir (PGROUNDDOWN va) (PGROUNDDOWN (va + sz - 1)) pa perm k"

fun deallocuvm_loop :: "nat \<Rightarrow> u32 \<Rightarrow> u32 \<Rightarrow> u32 \<Rightarrow> u32 \<Rightarrow> kmem \<Rightarrow> kmem res" where
  "deallocuvm_loop 0 kend pgdir a oldsz k = Inl OutOfFuel"
| "deallocuvm_loop (Suc n) kend pgdir a oldsz k =
     (if a < oldsz
      then let (pte, k) = walkpgdir pgdir a False k in
        if pte = 0
        then deallocuvm_loop n kend pgdir (PGADDR (PDX a + 1) 0 0 - PGSIZE + PGSIZE) oldsz k
        else if present (load32 (kbytes k) pte)
        then let pa = PTE_ADDR (load32 (kbytes k) pte) in
          if pa = 0 then Inl (Panic ''kfree'')
          else rbind (kfree kend (P2V pa) k)
            (\<lambda>k. deallocuvm_loop n kend pgdir (a + PGSIZE) oldsz
                   (k\<lparr>kbytes := store32 pte 0 (kbytes k)\<rparr>))
        else deallocuvm_loop n kend pgdir (a + PGSIZE) oldsz k
      else Inr k)"

definition deallocuvm :: "u32 \<Rightarrow> u32 \<Rightarrow> u32 \<Rightarrow> u32 \<Rightarrow> kmem \<Rightarrow> (u32 \<times> kmem) res" where
  "deallocuvm kend pgdir oldsz newsz k =
     (if newsz \<ge> oldsz then Inr (oldsz, k)
      else rbind (deallocuvm_loop (Suc page_fuel) kend pgdir (PGROUNDUP newsz) oldsz k)
             (\<lambda>k. Inr (newsz, k)))"

fun allocuvm_loop :: "nat \<Rightarrow> u32 \<Rightarrow> u32 \<Rightarrow> u32 \<Rightarrow> u32 \<Rightarrow> u32 \<Rightarrow> kmem \<Rightarrow> (u32 \<times> kmem) res" where
  "allocuvm_loop 0 kend pgdir a oldsz newsz k = Inl OutOfFuel"
| "allocuvm_loop (Suc n) kend pgdir a oldsz newsz k =
     (if a < newsz
      then let (mem, k) = kalloc k in
        if mem = 0
        then rbind (deallocuvm kend pgdir newsz oldsz k) (\<lambda>(_, k). Inr (0, k))
        else let k = k\<lparr>kbytes := memset mem 0 PGSIZE (kbytes k)\<rparr> in
          rbind (mappages pgdir a PGSIZE (V2P mem) (PTE_W OR PTE_U) k) (\<lambda>(ok, k).
            if \<not> ok
            then rbind (deallocuvm kend pgdir newsz oldsz k)
                   (\<lambda>(_, k). rbind (kfree kend mem k) (\<lambda>k. Inr (0, k)))
            else allocuvm_loop n kend pgdir (a + PGSIZE) oldsz newsz k)
      else Inr (newsz, k))"

definition allocuvm :: "u32 \<Rightarrow> u32 \<Rightarrow> u32 \<Rightarrow> u32 \<Rightarrow> kmem \<Rightarrow> (u32 \<times> kmem) res" where
  "allocuvm kend pgdir oldsz newsz k =
     (if newsz \<ge> KERNBASE then Inr (0, k)
      else if newsz < oldsz then Inr (oldsz, k)
      else allocuvm_loop (Suc page_fuel) kend pgdir (PGROUNDUP oldsz) oldsz newsz k)"

text \<open>The loop over the \<open>NPDENTRIES\<close> directory entries, from entry \<open>i\<close> on.\<close>

fun freevm_loop :: "nat \<Rightarrow> u32 \<Rightarrow> u32 \<Rightarrow> u32 \<Rightarrow> kmem \<Rightarrow> kmem res" where
  "freevm_loop 0 kend pgdir i k = Inr k"
| "freevm_loop (Suc n) kend pgdir i k =
     (let e = load32 (kbytes k) (pgdir + 4 * i) in
      if present e
      then rbind (kfree kend (P2V (PTE_ADDR e)) k) (freevm_loop n kend pgdir (i + 1))
      else freevm_loop n kend pgdir (i + 1) k)"

definition freevm :: "u32 \<Rightarrow> u32 \<Rightarrow> kmem \<Rightarrow> kmem res" where
  "freevm kend pgdir k =
     (if pgdir = 0 then Inl (Panic ''freevm: no pgdir'')
      else rbind (deallocuvm kend pgdir KERNBASE 0 k) (\<lambda>(_, k).
           rbind (freevm_loop 1024 kend pgdir 0 k) (kfree kend pgdir)))"

text \<open>The table \<open>kmap\<close>; \<open>kdata\<close> is the linker symbol \<open>data\<close>.\<close>

record kmap =
  virt :: u32
  phys_start :: u32
  phys_end :: u32
  kperm :: u32

definition kmaps :: "u32 \<Rightarrow> kmap list" where
  "kmaps kdata =
    [\<lparr>virt = KERNBASE, phys_start = 0, phys_end = EXTMEM, kperm = PTE_W\<rparr>,
     \<lparr>virt = KERNLINK, phys_start = V2P KERNLINK, phys_end = V2P kdata, kperm = 0\<rparr>,
     \<lparr>virt = kdata, phys_start = V2P kdata, phys_end = PHYSTOP, kperm = PTE_W\<rparr>,
     \<lparr>virt = DEVSPACE, phys_start = DEVSPACE, phys_end = 0, kperm = PTE_W\<rparr>]"

fun setupkvm_loop :: "u32 \<Rightarrow> u32 \<Rightarrow> kmap list \<Rightarrow> kmem \<Rightarrow> (u32 \<times> kmem) res" where
  "setupkvm_loop kend pgdir [] k = Inr (pgdir, k)"
| "setupkvm_loop kend pgdir (e # es) k =
     rbind (mappages pgdir (virt e) (phys_end e - phys_start e) (phys_start e) (kperm e) k)
       (\<lambda>(ok, k). if \<not> ok then rbind (freevm kend pgdir k) (\<lambda>k. Inr (0, k))
                  else setupkvm_loop kend pgdir es k)"

definition setupkvm :: "u32 \<Rightarrow> u32 \<Rightarrow> kmem \<Rightarrow> (u32 \<times> kmem) res" where
  "setupkvm kend kdata k =
     (let (pgdir, k) = kalloc k in
      if pgdir = 0 then Inr (0, k)
      else let k = k\<lparr>kbytes := memset pgdir 0 PGSIZE (kbytes k)\<rparr> in
        if P2V PHYSTOP > DEVSPACE then Inl (Panic ''PHYSTOP too high'')
        else setupkvm_loop kend pgdir (kmaps kdata) k)"

text \<open>\<open>init\<close> is a kernel address, the start of the embedded program.\<close>

definition inituvm :: "u32 \<Rightarrow> u32 \<Rightarrow> u32 \<Rightarrow> kmem \<Rightarrow> kmem res" where
  "inituvm pgdir init sz k =
     (if sz \<ge> PGSIZE then Inl (Panic ''inituvm: more than a page'')
      else let (mem, k) = kalloc k in
           if mem = 0 then Inl Fault
           else let k = k\<lparr>kbytes := memset mem 0 PGSIZE (kbytes k)\<rparr>
           in rbind (mappages pgdir 0 PGSIZE (V2P mem) (PTE_W OR PTE_U) k) (\<lambda>(_, k).
                Inr (k\<lparr>kbytes := memmove mem init sz (kbytes k)\<rparr>)))"

definition clearpteu :: "u32 \<Rightarrow> u32 \<Rightarrow> kmem \<Rightarrow> kmem res" where
  "clearpteu pgdir uva k =
     (let (pte, k) = walkpgdir pgdir uva False k in
      if pte = 0 then Inl (Panic ''clearpteu'')
      else Inr (k\<lparr>kbytes := store32 pte (load32 (kbytes k) pte AND NOT PTE_U) (kbytes k)\<rparr>))"

fun copyuvm_loop :: "nat \<Rightarrow> u32 \<Rightarrow> u32 \<Rightarrow> u32 \<Rightarrow> u32 \<Rightarrow> u32 \<Rightarrow> kmem \<Rightarrow> (u32 \<times> kmem) res" where
  "copyuvm_loop 0 kend pgdir d i sz k = Inl OutOfFuel"
| "copyuvm_loop (Suc n) kend pgdir d i sz k =
     (if i < sz
      then let (pte, k) = walkpgdir pgdir i False k in
        if pte = 0 then Inl (Panic ''copyuvm: pte should exist'')
        else let e = load32 (kbytes k) pte in
          if \<not> present e then Inl (Panic ''copyuvm: page not present'')
          else let pa = PTE_ADDR e; flags = PTE_FLAGS e; (mem, k) = kalloc k in
            if mem = 0 then rbind (freevm kend d k) (\<lambda>k. Inr (0, k))
            else let k = k\<lparr>kbytes := memmove mem (P2V pa) PGSIZE (kbytes k)\<rparr> in
              rbind (mappages d i PGSIZE (V2P mem) flags k) (\<lambda>(ok, k).
                if \<not> ok then rbind (freevm kend d k) (\<lambda>k. Inr (0, k))
                else copyuvm_loop n kend pgdir d (i + PGSIZE) sz k)
      else Inr (d, k))"

definition copyuvm :: "u32 \<Rightarrow> u32 \<Rightarrow> u32 \<Rightarrow> u32 \<Rightarrow> kmem \<Rightarrow> (u32 \<times> kmem) res" where
  "copyuvm kend kdata pgdir sz k =
     rbind (setupkvm kend kdata k) (\<lambda>(d, k).
       if d = 0 then Inr (0, k) else copyuvm_loop (Suc page_fuel) kend pgdir d 0 sz k)"

text \<open>A missing page table makes \<open>uva2ka\<close> dereference NULL.\<close>

definition uva2ka :: "u32 \<Rightarrow> u32 \<Rightarrow> kmem \<Rightarrow> u32 res" where
  "uva2ka pgdir uva k =
     (let (pte, k) = walkpgdir pgdir uva False k in
      if pte = 0 then Inl Fault
      else let e = load32 (kbytes k) pte in
        if e AND PTE_P = 0 then Inr 0
        else if e AND PTE_U = 0 then Inr 0
        else Inr (P2V (PTE_ADDR e)))"

text \<open>The kernel buffer \<open>p\<close> is an address, as in the code.\<close>

function copyout :: "u32 \<Rightarrow> u32 \<Rightarrow> u32 \<Rightarrow> u32 \<Rightarrow> kmem \<Rightarrow> (bool \<times> kmem) res" where
  "copyout pgdir va buf len k =
     (if len > 0
      then let va0 = PGROUNDDOWN va in
        rbind (uva2ka pgdir va0 k) (\<lambda>pa0.
          if pa0 = 0 then Inr (False, k)
          else let n = PGSIZE - (va - va0);
                   n = (if n > len then len else n);
                   k = k\<lparr>kbytes := memmove (pa0 + (va - va0)) buf n (kbytes k)\<rparr>
               in copyout pgdir (va0 + PGSIZE) (buf + n) (len - n) k)
      else Inr (True, k))"
  by pat_completeness auto

section \<open>Words in memory that do not overlap\<close>

lemma unat_add_mod4: "unat (a + b :: u32) mod 4 = (unat a + unat b) mod 4"
proof -
  have "unat (a + b) = (unat a + unat b) mod 2 ^ 32" by (simp add: unat_word_ariths)
  moreover have "(n mod 2 ^ 32) mod 4 = n mod 4" for n :: nat by (rule mod_mod_cancel) simp
  ultimately show ?thesis by simp
qed

definition word_aligned :: "u32 \<Rightarrow> bool" where
  "word_aligned a \<longleftrightarrow> unat a mod 4 = 0"

lemma aligned_add_mod4:
  assumes "word_aligned a" shows "unat (a + i) mod 4 = unat i mod 4"
proof -
  obtain q where "unat a = 4 * q" using assms by (auto simp: word_aligned_def)
  then show ?thesis using unat_add_mod4 [of a i] by simp
qed

lemma bytes_apart:
  assumes "word_aligned a" "word_aligned b" "a \<noteq> b" "i \<in> {0, 1, 2, 3}" "j \<in> {0, 1, 2, 3}"
  shows "a + i \<noteq> b + (j :: u32)"
proof
  assume e: "a + i = b + j"
  have "unat i < 4" "unat j < 4" using assms(4,5) by auto
  moreover have "unat (a + i) mod 4 = unat i mod 4" "unat (b + j) mod 4 = unat j mod 4"
    by (rule aligned_add_mod4 [OF assms(1)], rule aligned_add_mod4 [OF assms(2)])
  ultimately have "i = j" using e by (simp add: word_unat_eq_iff)
  then show False using e assms(3) by simp
qed

lemma load_store_other:
  assumes "word_aligned a" "word_aligned b" "a \<noteq> b"
  shows "load32 (store32 a w m) b = load32 m b"
proof -
  have "store32 a w m (b + j) = m (b + j)" if "j \<in> {0, 1, 2, 3}" for j
  proof -
    have "a + 0 \<noteq> b + j" "a + 1 \<noteq> b + j" "a + 2 \<noteq> b + j" "a + 3 \<noteq> b + j"
      using bytes_apart [OF assms _ that] by blast+
    then show ?thesis unfolding store32_def by simp
  qed
  from this [of 0] this [of 1] this [of 2] this [of 3] show ?thesis
    by (simp add: load32_def)
qed

text \<open>Entry \<open>i\<close> of the table in page \<open>p\<close>.\<close>

lemma entry_unat: "i < 0x400 \<Longrightarrow> unat (4 * i :: u32) = 4 * unat i"
  by (simp add: word_less_nat_alt unat_word_ariths)

lemma entry_in_page: "i < 0x400 \<Longrightarrow> in_page p (p + 4 * i)"
  using entry_unat [of i] by (simp add: in_page_def word_less_nat_alt PGSIZE_def)

lemma entry_inj: "i < 0x400 \<Longrightarrow> j < 0x400 \<Longrightarrow> p + 4 * i = p + 4 * (j :: u32) \<longleftrightarrow> i = j"
  using entry_unat [of i] entry_unat [of j] by (metis add_left_imp_eq mult_left_cancel unsigned_word_eqI zero_neq_numeral)

lemma entry_aligned:
  assumes "p mod PGSIZE = 0" "i < 0x400"
  shows "word_aligned (p + 4 * i)"
proof -
  have "4096 dvd unat p" using assms(1) by (auto simp: aligned_unat)
  then have "4 dvd unat p" by (rule dvd_trans [rotated]) simp
  then have "word_aligned p" by (simp add: word_aligned_def)
  then show ?thesis
    using aligned_add_mod4 [of p "4 * i"] entry_unat [OF assms(2)] by (simp add: word_aligned_def)
qed

lemma index_bounds: "PDX va < 0x400" "PTX va < 0x400"
proof -
  have "x AND 0x3FF < 0x400" for x :: u32
  proof -
    have "x AND 0x3FF = take_bit 10 x" by (simp add: take_bit_eq_mask mask_eq_exp_minus_1)
    moreover have "unat (take_bit 10 x) < 2 ^ 10"
      by (simp only: unsigned_take_bit_eq take_bit_nat_less_exp)
    ultimately show ?thesis by (simp add: word_less_nat_alt)
  qed
  then show "PDX va < 0x400" "PTX va < 0x400" by (simp_all add: PDX_def PTX_def)
qed

lemma same_page_index: "PDX va = PDX vb \<and> PTX va = PTX vb \<longleftrightarrow> PGROUNDDOWN va = PGROUNDDOWN vb"
proof -
  have m: "(0x3FF :: u32) = mask 10" "PGSIZE - 1 = mask 12" "(0xFFF :: u32) = mask 12"
    by (simp_all add: mask_eq_exp_minus_1 PGSIZE_def)
  show ?thesis
  proof
    assume a: "PDX va = PDX vb \<and> PTX va = PTX vb"
    show "PGROUNDDOWN va = PGROUNDDOWN vb"
    proof (rule bit_word_eqI)
      fix n assume n: "n < LENGTH(32)"
      have "bit (PDX va) (n - 22) = bit (PDX vb) (n - 22)" "bit (PTX va) (n - 12) = bit (PTX vb) (n - 12)"
        using a by simp_all
      then show "bit (PGROUNDDOWN va) n = bit (PGROUNDDOWN vb) n"
        using n by (cases "n < 12"; cases "n < 22")
          (auto simp: PGROUNDDOWN_def PDX_def PTX_def m bit_simps)
    qed
  next
    assume a: "PGROUNDDOWN va = PGROUNDDOWN vb"
    have b: "bit va n = bit vb n" if "12 \<le> n" for n
    proof (cases "n < 32")
      case True
      have "bit (PGROUNDDOWN va) n = bit (PGROUNDDOWN vb) n" using a by simp
      then show ?thesis using that True by (simp add: PGROUNDDOWN_def m bit_simps)
    qed (simp add: bit_simps impossible_bit)
    show "PDX va = PDX vb \<and> PTX va = PTX vb"
      unfolding PDX_def PTX_def m
      by (intro conjI bit_word_eqI) (auto simp: bit_simps b)
  qed
qed

section \<open>Well-formed page tables\<close>

definition pde_of :: "u32 \<Rightarrow> mem \<Rightarrow> u32 \<Rightarrow> u32" where
  "pde_of pgdir m i = load32 m (pgdir + 4 * i)"

definition table_of :: "u32 \<Rightarrow> mem \<Rightarrow> u32 \<Rightarrow> u32" where
  "table_of pgdir m i = P2V (PTE_ADDR (pde_of pgdir m i))"

text \<open>The entry of \<open>va\<close>, 0 (not present) when there is no table for it.\<close>

definition pte_of :: "u32 \<Rightarrow> mem \<Rightarrow> u32 \<Rightarrow> u32" where
  "pte_of pgdir m va =
     (if present (pde_of pgdir m (PDX va)) then load32 m (table_of pgdir m (PDX va) + 4 * PTX va) else 0)"

text \<open>The directory, its tables and the free pages \<open>F\<close> are different kernel pages.\<close>

definition pt_ok :: "u32 \<Rightarrow> kmem \<Rightarrow> u32 \<Rightarrow> u32 set \<Rightarrow> bool" where
  "pt_ok kend k pgdir F \<longleftrightarrow> kpage kend pgdir \<and> kpool kend k F \<and> pgdir \<notin> F
     \<and> (\<forall>i<0x400. present (pde_of pgdir (kbytes k) i) \<longrightarrow>
          kpage kend (table_of pgdir (kbytes k) i) \<and> table_of pgdir (kbytes k) i \<noteq> pgdir
          \<and> table_of pgdir (kbytes k) i \<notin> F)
     \<and> (\<forall>i<0x400. \<forall>j<0x400. present (pde_of pgdir (kbytes k) i) \<longrightarrow> present (pde_of pgdir (kbytes k) j) \<longrightarrow>
          table_of pgdir (kbytes k) i = table_of pgdir (kbytes k) j \<longrightarrow> i = j)"

lemma pt_okD:
  assumes "pt_ok kend k pgdir F"
  shows "kpage kend pgdir" "kpool kend k F" "pgdir \<notin> F"
    "\<And>i. i < 0x400 \<Longrightarrow> present (pde_of pgdir (kbytes k) i) \<Longrightarrow>
      kpage kend (table_of pgdir (kbytes k) i) \<and> table_of pgdir (kbytes k) i \<noteq> pgdir
      \<and> table_of pgdir (kbytes k) i \<notin> F"
    "\<And>i j. i < 0x400 \<Longrightarrow> j < 0x400 \<Longrightarrow> present (pde_of pgdir (kbytes k) i) \<Longrightarrow>
      present (pde_of pgdir (kbytes k) j) \<Longrightarrow>
      table_of pgdir (kbytes k) i = table_of pgdir (kbytes k) j \<Longrightarrow> i = j"
  using assms unfolding pt_ok_def by blast+

lemma present_or_P [simp]: "present (e OR PTE_P)"
proof -
  have "bit ((e OR PTE_P) AND PTE_P) 0" by (simp add: bit_simps PTE_P_def)
  then show ?thesis unfolding present_def by (metis bit_0_eq bot_apply bot_bool_def)
qed

lemma present_zero [simp]: "\<not> present 0"
  by (simp add: present_def)

text \<open>What is in memory words outside a page that is written.\<close>

lemma entry_load_outside:
  assumes "q mod PGSIZE = 0" "p mod PGSIZE = 0" "q \<noteq> p" "i < 0x400" "\<And>x. \<not> in_page p x \<Longrightarrow> m' x = m x"
  shows "load32 m' (q + 4 * i) = load32 m (q + 4 * i)"
proof -
  have b: "unat i < 1024" using assms(4) by (simp add: word_less_nat_alt)
  have in_q: "in_page q (q + 4 * i + j)" if "unat j < 4" for j
  proof -
    have "unat (4 * i + j) = 4 * unat i + unat j"
      using that b entry_unat [OF assms(4)] by (simp add: unat_word_ariths)
    then show ?thesis using that b by (simp add: in_page_def word_less_nat_alt PGSIZE_def add.assoc)
  qed
  have "m' (q + 4 * i + j) = m (q + 4 * i + j)" if "unat j < 4" for j
    by (rule assms(5), rule pages_apart [OF assms(1-3) in_q [OF that]])
  from this [of 0] this [of 1] this [of 2] this [of 3] show ?thesis
    by (simp add: load32_def)
qed

lemma entry_store_outside:
  assumes "p mod PGSIZE = 0" "i < 0x400" "\<not> in_page p x"
  shows "store32 (p + 4 * i) w m x = m x"
proof -
  have b: "unat i < 1024" using assms(2) by (simp add: word_less_nat_alt)
  have "in_page p (p + 4 * i + j)" if "unat j < 4" for j
  proof -
    have "unat (4 * i + j) = 4 * unat i + unat j"
      using that b entry_unat [OF assms(2)] by (simp add: unat_word_ariths)
    then show ?thesis using that b by (simp add: in_page_def word_less_nat_alt PGSIZE_def add.assoc)
  qed
  from this [of 0] this [of 1] this [of 2] this [of 3]
  have "x \<noteq> p + 4 * i" "x \<noteq> p + 4 * i + 1" "x \<noteq> p + 4 * i + 2" "x \<noteq> p + 4 * i + 3"
    using assms(3) by auto
  then show ?thesis by (simp add: store32_def)
qed

text \<open>The page allocator does not notice writes outside the free pages.\<close>

lemma kpool_outside:
  assumes "kpool kend k F" "\<And>p x. p \<in> F \<Longrightarrow> in_page p x \<Longrightarrow> m x = kbytes k x"
  shows "kpool kend (k\<lparr>kbytes := m\<rparr>) F"
proof -
  obtain ps where ps: "set ps = F" "kmem_ok kend k ps" using assms(1) by (auto simp: kpool_def)
  have "flist m (freelist k) ps = flist (kbytes k) (freelist k) ps"
    by (rule flist_cong) (use assms(2) ps(1) in auto)
  then show ?thesis using ps by (auto simp: kpool_def kmem_ok_def)
qed

lemma kpool_page_outside:
  assumes "kpool kend k F" "kpage kend p" "p \<notin> F" "\<And>x. \<not> in_page p x \<Longrightarrow> m x = kbytes k x"
  shows "kpool kend (k\<lparr>kbytes := m\<rparr>) F"
proof (rule kpool_outside [OF assms(1)])
  fix q x assume q: "q \<in> F" "in_page q x"
  then have "kpage kend q" using kpages.pool_pages [OF assms(1)] by blast
  then have "\<not> in_page p x" using q assms(2,3) pages_disjoint kpage_aligned by blast
  then show "m x = kbytes k x" by (rule assms(4))
qed

text \<open>Storing an entry of an existing table changes the mapping of that page only.\<close>

lemma store_pte:
  fixes e vb :: u32
  assumes ok: "pt_ok kend k pgdir F" and pr: "present (pde_of pgdir (kbytes k) (PDX va))"
  defines "m' \<equiv> store32 (table_of pgdir (kbytes k) (PDX va) + 4 * PTX va) e (kbytes k)"
  shows "pt_ok kend (k\<lparr>kbytes := m'\<rparr>) pgdir F"
    and "pte_of pgdir m' vb = (if PGROUNDDOWN vb = PGROUNDDOWN va then e else pte_of pgdir (kbytes k) vb)"
    and "\<And>x. \<not> in_page (table_of pgdir (kbytes k) (PDX va)) x \<Longrightarrow> m' x = kbytes k x"
proof -
  let ?T = "table_of pgdir (kbytes k)"
  note D = pt_okD [OF ok]
  have T: "kpage kend (?T (PDX va))" "?T (PDX va) \<noteq> pgdir" "?T (PDX va) \<notin> F"
    using D(4) [OF index_bounds(1) pr] by simp_all
  have al: "?T (PDX va) mod PGSIZE = 0" "pgdir mod PGSIZE = 0"
    using T(1) D(1) kpage_aligned by blast+
  show out: "\<And>x. \<not> in_page (?T (PDX va)) x \<Longrightarrow> m' x = kbytes k x"
    using entry_store_outside [OF al(1) index_bounds(2)] by (simp add: m'_def)
  have pde: "pde_of pgdir m' i = pde_of pgdir (kbytes k) i" if "i < 0x400" for i
    unfolding pde_of_def by (rule entry_load_outside [OF al(2,1) T(2) [symmetric] that out])
  then have tab: "table_of pgdir m' i = ?T i" if "i < 0x400" for i
    using that by (simp add: table_of_def)
  have "kpool kend (k\<lparr>kbytes := m'\<rparr>) F"
    by (rule kpool_page_outside [OF D(2) T(1,3) out])
  then show "pt_ok kend (k\<lparr>kbytes := m'\<rparr>) pgdir F"
    using D by (simp add: pt_ok_def pde tab)
  show "pte_of pgdir m' vb = (if PGROUNDDOWN vb = PGROUNDDOWN va then e else pte_of pgdir (kbytes k) vb)"
  proof (cases "present (pde_of pgdir (kbytes k) (PDX vb))")
    case prb: True
    have alb: "?T (PDX vb) mod PGSIZE = 0"
      using D(4) [OF index_bounds(1) prb] kpage_aligned by blast
    consider "PDX vb = PDX va" "PTX vb = PTX va" | "PDX vb = PDX va" "PTX vb \<noteq> PTX va" | "PDX vb \<noteq> PDX va"
      by blast
    then show ?thesis
    proof cases
      case 1
      then have "PGROUNDDOWN vb = PGROUNDDOWN va" using same_page_index by blast
      then show ?thesis using pr
        by (simp add: pte_of_def pde tab index_bounds 1) (simp add: m'_def)
    next
      case 2
      then have "PGROUNDDOWN vb \<noteq> PGROUNDDOWN va" using same_page_index by blast
      moreover have "load32 m' (?T (PDX va) + 4 * PTX vb) = load32 (kbytes k) (?T (PDX va) + 4 * PTX vb)"
        unfolding m'_def
        using entry_inj [OF index_bounds(2) index_bounds(2), of _ va vb] 2(2)
        by (intro load_store_other entry_aligned [OF al(1) index_bounds(2)]) auto
      ultimately show ?thesis using pr by (simp add: pte_of_def pde tab index_bounds 2(1))
    next
      case 3
      then have "PGROUNDDOWN vb \<noteq> PGROUNDDOWN va" using same_page_index by blast
      moreover have "?T (PDX vb) \<noteq> ?T (PDX va)"
        using D(5) [OF index_bounds(1) index_bounds(1) prb pr] 3 by blast
      then have "load32 m' (?T (PDX vb) + 4 * PTX vb) = load32 (kbytes k) (?T (PDX vb) + 4 * PTX vb)"
        by (rule entry_load_outside [OF alb al(1) _ index_bounds(2) out])
      ultimately show ?thesis using prb by (simp add: pte_of_def pde tab index_bounds)
    qed
  next
    case False
    then have "PGROUNDDOWN vb \<noteq> PGROUNDDOWN va" using pr same_page_index by metis
    then show ?thesis using False by (simp add: pte_of_def pde index_bounds)
  qed
qed

section \<open>walkpgdir and mappages\<close>

text \<open>The pages a page table may write: its own and the free ones.\<close>

definition pt_pages :: "u32 \<Rightarrow> mem \<Rightarrow> u32 set \<Rightarrow> u32 set" where
  "pt_pages pgdir m F = insert pgdir F \<union> {table_of pgdir m i | i. i < 0x400 \<and> present (pde_of pgdir m i)}"

definition pt_frame :: "u32 \<Rightarrow> mem \<Rightarrow> u32 set \<Rightarrow> mem \<Rightarrow> u32 set \<Rightarrow> bool" where
  "pt_frame pgdir m F m' F' \<longleftrightarrow> F' \<subseteq> F \<and> pt_pages pgdir m' F' \<subseteq> pt_pages pgdir m F
     \<and> (\<forall>x. (\<forall>p\<in>pt_pages pgdir m F. \<not> in_page p x) \<longrightarrow> m' x = m x)"

lemma pt_frame_refl [simp]: "pt_frame pgdir m F m F"
  by (simp add: pt_frame_def)

lemma pt_frame_trans:
  assumes "pt_frame pgdir m F m1 F1" "pt_frame pgdir m1 F1 m2 F2"
  shows "pt_frame pgdir m F m2 F2"
  using assms unfolding pt_frame_def by (metis subset_iff)

lemma pt_pages_cong:
  assumes "\<And>i. i < 0x400 \<Longrightarrow> pde_of pgdir m' i = pde_of pgdir m i"
  shows "pt_pages pgdir m' F = pt_pages pgdir m F"
proof -
  have "i < 0x400 \<and> present (pde_of pgdir m' i) \<longleftrightarrow> i < 0x400 \<and> present (pde_of pgdir m i)" for i
    using assms [of i] by auto
  moreover have "i < 0x400 \<Longrightarrow> table_of pgdir m' i = table_of pgdir m i" for i
    using assms [of i] by (simp add: table_of_def)
  ultimately have "(\<exists>i. x = table_of pgdir m' i \<and> i < 0x400 \<and> present (pde_of pgdir m' i))
      \<longleftrightarrow> (\<exists>i. x = table_of pgdir m i \<and> i < 0x400 \<and> present (pde_of pgdir m i))" for x
    by (intro ex_cong1) metis
  then show ?thesis unfolding pt_pages_def by presburger
qed

lemma table_in_pages:
  "i < 0x400 \<Longrightarrow> present (pde_of pgdir m i) \<Longrightarrow> table_of pgdir m i \<in> pt_pages pgdir m F"
  by (auto simp: pt_pages_def)

lemma mod_page_mask: "(y :: u32) mod PGSIZE = y AND mask 12"
  by (simp add: PGSIZE_def take_bit_eq_mask [symmetric] take_bit_eq_mod)

lemma PTE_ADDR_or:
  assumes "x mod PGSIZE = 0" "f AND NOT 0xFFF = 0"
  shows "PTE_ADDR (x OR f) = x"
proof -
  have m: "(0xFFF :: u32) = mask 12" by (simp add: mask_eq_exp_minus_1)
  have x: "x AND mask 12 = 0" using assms(1) mod_page_mask by metis
  have "bit x n \<Longrightarrow> \<not> n < 12" for n
  proof -
    have "\<not> bit (x AND mask 12) n" using x by simp
    then show "bit x n \<Longrightarrow> \<not> n < 12" by (auto simp: bit_simps dest: bit_imp_le_length)
  qed
  then have "x AND NOT 0xFFF = x"
    unfolding m by (intro bit_word_eqI) (auto simp: bit_simps)
  then show ?thesis using assms(2) by (simp add: PTE_ADDR_def bit.conj_disj_distrib2)
qed

lemma V2P_aligned: "x mod PGSIZE = 0 \<Longrightarrow> V2P x mod PGSIZE = 0"
proof -
  assume "x mod PGSIZE = 0"
  then obtain q where q: "unat x = 4096 * q" by (auto simp: aligned_unat dvd_def)
  have "unat (V2P x) = (unat x + 2 ^ 31) mod 2 ^ 32"
  proof -
    have "V2P x = x + 0x80000000" by (simp add: V2P_def KERNBASE_def)
    then show ?thesis by (simp add: unat_word_ariths)
  qed
  also have "\<dots> = 4096 * ((q + 2 ^ 19) mod 2 ^ 20)"
    unfolding q using mult_mod_right [of 4096 "q + 2 ^ 19" "2 ^ 20"] by simp
  finally show ?thesis by (simp add: aligned_unat)
qed

lemma new_pde: "x mod PGSIZE = 0 \<Longrightarrow> PTE_ADDR (V2P x OR PTE_P OR PTE_W OR PTE_U) = V2P x
    \<and> present (V2P x OR PTE_P OR PTE_W OR PTE_U)"
proof -
  assume "x mod PGSIZE = 0"
  then have "PTE_ADDR (V2P x OR (PTE_P OR PTE_W OR PTE_U)) = V2P x"
    by (intro PTE_ADDR_or V2P_aligned) (simp_all add: PTE_P_def PTE_W_def PTE_U_def)
  moreover have "V2P x OR PTE_P OR PTE_W OR PTE_U = (V2P x OR PTE_W OR PTE_U) OR PTE_P"
    by (simp add: ac_simps)
  ultimately show ?thesis by (metis or.assoc present_or_P)
qed

text \<open>A fresh table in a free page leaves every mapping as it was.\<close>

lemma new_table:
  assumes ok: "pt_ok kend k pgdir F" and pg: "fst (kalloc k) = pg" "pg \<in> F"
    and k1: "snd (kalloc k) = k1" and i0: "i0 < 0x400" and np: "\<not> present (pde_of pgdir (kbytes k) i0)"
  defines "m' \<equiv> store32 (pgdir + 4 * i0) (V2P pg OR PTE_P OR PTE_W OR PTE_U) (memset pg 0 PGSIZE (kbytes k))"
  shows "pt_ok kend (k1\<lparr>kbytes := m'\<rparr>) pgdir (F - {pg})"
    and "pt_frame pgdir (kbytes k) F m' (F - {pg})"
    and "present (pde_of pgdir m' i0)" and "table_of pgdir m' i0 = pg"
    and "pte_of pgdir m' vb = pte_of pgdir (kbytes k) vb"
proof -
  note D = pt_okD [OF ok]
  let ?m = "kbytes k"
  have al: "pgdir mod PGSIZE = 0" "pg mod PGSIZE = 0" "kpage kend pg"
    using D(1) kpages.pool_pages [OF D(2) pg(2)] kpage_aligned by blast+
  have ne: "pg \<noteq> pgdir" using pg(2) D(3) by blast
  have p1: "kpool kend k1 (F - {pg})" and b1: "kbytes k1 = ?m"
    using kpages.alloc_some [OF D(2)] kpages.alloc_bytes [OF D(2)] pg k1 by auto
  let ?m1 = "memset pg 0 PGSIZE ?m"
  have out1: "\<not> in_page pg x \<Longrightarrow> ?m1 x = ?m x" for x by (rule memset_outside)
  have out2: "\<not> in_page pgdir x \<Longrightarrow> m' x = ?m1 x" for x
    unfolding m'_def by (rule entry_store_outside [OF al(1) i0])
  have pde1: "load32 ?m1 (pgdir + 4 * i) = pde_of pgdir ?m i" if "i < 0x400" for i
    unfolding pde_of_def by (rule entry_load_outside [OF al(1,2) ne [symmetric] that out1])
  have self: "pde_of pgdir m' i0 = V2P pg OR PTE_P OR PTE_W OR PTE_U"
    by (simp add: pde_of_def m'_def)
  have other: "pde_of pgdir m' i = pde_of pgdir ?m i" if "i < 0x400" "i \<noteq> i0" for i
    using pde1 [OF that(1)] that entry_inj [OF i0 that(1)]
    by (simp add: pde_of_def m'_def load_store_other entry_aligned [OF al(1)] i0)
  show pr: "present (pde_of pgdir m' i0)" using new_pde [OF al(2)] self by simp
  show tab0: "table_of pgdir m' i0 = pg" using new_pde [OF al(2)] by (simp add: table_of_def self)
  have tab: "table_of pgdir m' i = table_of pgdir ?m i" if "i < 0x400" "i \<noteq> i0" for i
    using other [OF that] by (simp add: table_of_def)
  have Told: "kpage kend (table_of pgdir ?m i)" "table_of pgdir ?m i \<noteq> pgdir"
      "table_of pgdir ?m i \<noteq> pg" "table_of pgdir ?m i \<notin> F"
    if "i < 0x400" "present (pde_of pgdir ?m i)" for i
    using D(4) [OF that] pg(2) by auto
  have "kpool kend (k1\<lparr>kbytes := m'\<rparr>) (F - {pg})"
  proof (rule kpool_outside [OF p1])
    fix q x assume q: "q \<in> F - {pg}" "in_page q x"
    then have "kpage kend q" "q \<noteq> pgdir" using kpages.pool_pages [OF D(2)] D(3) by blast+
    then have "\<not> in_page pg x" "\<not> in_page pgdir x"
      using q pages_apart [OF kpage_aligned al(2) _ q(2)] pages_apart [OF kpage_aligned al(1) _ q(2)]
      by simp_all
    then show "m' x = kbytes k1 x" using out1 out2 b1 by simp
  qed
  moreover have "kpage kend (table_of pgdir m' i) \<and> table_of pgdir m' i \<noteq> pgdir
      \<and> table_of pgdir m' i \<notin> F - {pg}" if i: "i < 0x400" "present (pde_of pgdir m' i)" for i
  proof (cases "i = i0")
    case True
    then show ?thesis using tab0 al(3) ne by simp
  next
    case False
    then show ?thesis using Told [of i] i by (simp add: other tab)
  qed
  moreover have "i = j" if ij: "i < 0x400" "j < 0x400" "present (pde_of pgdir m' i)"
      "present (pde_of pgdir m' j)" "table_of pgdir m' i = table_of pgdir m' j" for i j
  proof -
    have a: "l = i0" if "l < 0x400" "present (pde_of pgdir m' l)" "table_of pgdir m' l = pg" for l
    proof (rule ccontr)
      assume "l \<noteq> i0"
      then show False using that Told(3) [of l] by (simp add: other tab)
    qed
    show ?thesis
    proof (cases "i = i0 \<or> j = i0")
      case True
      then show ?thesis using a [OF ij(1,3)] a [OF ij(2,4)] ij(5) tab0 by auto
    next
      case False
      then show ?thesis using D(5) [OF ij(1,2)] ij by (simp add: other tab)
    qed
  qed
  moreover have kb: "kbytes (k1\<lparr>kbytes := m'\<rparr>) = m'" by simp
  ultimately show "pt_ok kend (k1\<lparr>kbytes := m'\<rparr>) pgdir (F - {pg})"
    unfolding pt_ok_def kb using D(1,3) by blast
  show "pt_frame pgdir ?m F m' (F - {pg})"
    unfolding pt_frame_def
  proof (intro conjI allI impI)
    show "pt_pages pgdir m' (F - {pg}) \<subseteq> pt_pages pgdir ?m F"
      using tab0 tab other pg(2) by (auto simp: pt_pages_def) metis
    fix x assume x: "\<forall>p\<in>pt_pages pgdir ?m F. \<not> in_page p x"
    then have "\<not> in_page pgdir x" "\<not> in_page pg x" using pg(2) by (auto simp: pt_pages_def)
    then show "m' x = ?m x" using out1 out2 by simp
  qed blast
  show "pte_of pgdir m' vb = pte_of pgdir ?m vb"
  proof (cases "PDX vb = i0")
    case True
    have "load32 ?m1 (pg + 4 * PTX vb) = 0"
    proof -
      have b: "unat (PTX vb) < 1024" using index_bounds(2) [of vb] by (simp add: word_less_nat_alt)
      have "?m1 (pg + 4 * PTX vb + j) = 0" if "unat j < 4" for j
      proof -
        have "unat (4 * PTX vb + j) = 4 * unat (PTX vb) + unat j"
          using that b entry_unat [OF index_bounds(2), of vb] by (simp add: unat_word_ariths)
        then have "in_page pg (pg + 4 * PTX vb + j)"
          using that b by (simp add: in_page_def word_less_nat_alt PGSIZE_def add.assoc)
        then show ?thesis by (simp add: memset_apply in_page_def)
      qed
      from this [of 0] this [of 1] this [of 2] this [of 3] show ?thesis by (simp add: load32_def)
    qed
    moreover have "load32 m' (pg + 4 * PTX vb) = load32 ?m1 (pg + 4 * PTX vb)"
      by (rule entry_load_outside [OF al(2,1) ne index_bounds(2) out2])
    ultimately show ?thesis using np pr tab0 True by (simp add: pte_of_def)
  next
    case False
    show ?thesis
    proof (cases "present (pde_of pgdir ?m (PDX vb))")
      case prb: True
      let ?q = "table_of pgdir ?m (PDX vb)"
      note Tq = Told [OF index_bounds(1) prb]
      have alq: "?q mod PGSIZE = 0" by (rule kpage_aligned [OF Tq(1)])
      have "load32 m' (?q + 4 * PTX vb) = load32 ?m1 (?q + 4 * PTX vb)"
        by (rule entry_load_outside [OF alq al(1) Tq(2) index_bounds(2) out2])
      also have "\<dots> = load32 ?m (?q + 4 * PTX vb)"
        by (rule entry_load_outside [OF alq al(2) Tq(3) index_bounds(2) out1])
      finally show ?thesis
        using False by (simp add: pte_of_def other tab index_bounds)
    qed (simp add: pte_of_def other [OF index_bounds(1) False])
  qed
qed

lemma walkpgdir_alloc:
  assumes ok: "pt_ok kend k pgdir F" and w: "walkpgdir pgdir va True k = (pte, k')"
  shows "(pte = 0 \<and> k' = k \<and> F = {}) \<or>
    (pte \<noteq> 0 \<and> (\<exists>F'. pt_ok kend k' pgdir F' \<and> pt_frame pgdir (kbytes k) F (kbytes k') F'
       \<and> present (pde_of pgdir (kbytes k') (PDX va))
       \<and> pte = table_of pgdir (kbytes k') (PDX va) + 4 * PTX va
       \<and> (\<forall>vb. pte_of pgdir (kbytes k') vb = pte_of pgdir (kbytes k) vb)))"
proof -
  note D = pt_okD [OF ok]
  have nz: "p + 4 * PTX va \<noteq> 0" if p: "kpage kend p" for p
  proof
    assume z: "p + 4 * PTX va = 0"
    have "in_page p (p + 4 * PTX va)" by (rule entry_in_page [OF index_bounds(2)])
    then have "unat p div 4096 = 0" using z in_page_div [OF kpage_aligned [OF p]] by simp
    then show False using kpage_range(1) [OF p] by simp
  qed
  show ?thesis
  proof (cases "present (pde_of pgdir (kbytes k) (PDX va))")
    case True
    then have "pte = table_of pgdir (kbytes k) (PDX va) + 4 * PTX va" "k' = k"
      using w by (auto simp: walkpgdir_def table_of_def pde_of_def)
    then show ?thesis using True ok D(4) [OF index_bounds(1) True] nz by fastforce
  next
    case np: False
    obtain pg k1 where a: "kalloc k = (pg, k1)" by fastforce
    show ?thesis
    proof (cases "F = {}")
      case True
      then have "kalloc k = (0, k)" using kpages.alloc_none D(2) by blast
      then show ?thesis using w np True by (simp add: walkpgdir_def pde_of_def)
    next
      case False
      then have pgF: "pg \<in> F" using kpages.alloc_some [OF D(2)] a by auto
      then have pz: "kpage kend pg" "pg \<noteq> 0"
        using kpages.pool_pages [OF D(2)] kpage_not_zero by blast+
      have b1: "kbytes k1 = kbytes k" using kpages.alloc_bytes [OF D(2)] a by simp
      let ?m' = "store32 (pgdir + 4 * PDX va) (V2P pg OR PTE_P OR PTE_W OR PTE_U) (memset pg 0 PGSIZE (kbytes k))"
      have e: "pte = pg + 4 * PTX va" "k' = k1\<lparr>kbytes := ?m'\<rparr>"
        using w np a pz b1 by (simp_all add: walkpgdir_def pde_of_def Let_def)
      have fs: "fst (kalloc k) = pg" "snd (kalloc k) = k1" using a by simp_all
      note nt = new_table [OF ok fs(1) pgF fs(2) index_bounds(1) np]
      show ?thesis
        using nt nz [OF pz(1)] e by (intro disjI2 conjI exI [of _ "F - {pg}"]) (simp_all only: kmem.simps kmem.select_convs kmem.update_convs, simp_all)
    qed
  qed
qed

text \<open>The page offset of \<open>vb\<close> from \<open>a\<close>.\<close>

definition page_diff :: "u32 \<Rightarrow> u32 \<Rightarrow> u32" where
  "page_diff a vb = PGROUNDDOWN vb - a"

lemma PGROUNDDOWN_mod: "PGROUNDDOWN x mod PGSIZE = 0"
proof -
  have "PGROUNDDOWN x AND (PGSIZE - 1) = 0" by (simp add: PGROUNDDOWN_def and.assoc)
  moreover have "PGSIZE - 1 = mask 12" by (simp add: PGSIZE_def mask_eq_exp_minus_1)
  ultimately show ?thesis by (simp add: mod_page_mask)
qed

lemma unat_dvd_diff: "x mod PGSIZE = 0 \<Longrightarrow> y mod PGSIZE = 0 \<Longrightarrow> 4096 dvd unat (x - y :: u32)"
proof -
  assume a: "x mod PGSIZE = 0" "y mod PGSIZE = 0"
  obtain i j where i: "unat x = 4096 * i" and j: "unat y = 4096 * j"
    using a by (auto simp: aligned_unat dvd_def)
  have "unat (x - y) = (if unat y \<le> unat x then unat x - unat y else unat x + 2 ^ 32 - unat y)"
    by (simp add: unat_sub_if_size word_size)
  then show ?thesis unfolding i j by (auto intro!: dvd_diff_nat dvd_add)
qed

lemma add_page_mod: "x mod PGSIZE = 0 \<Longrightarrow> (x + PGSIZE) mod PGSIZE = 0"
proof -
  assume "x mod PGSIZE = 0"
  then obtain q where q: "unat x = 4096 * q" by (auto simp: aligned_unat dvd_def)
  have "unat (x + PGSIZE) = (unat x + 4096) mod 2 ^ 32" by (simp add: unat_word_ariths PGSIZE_def)
  also have "\<dots> = (4096 * (q + 1)) mod (4096 * 2 ^ 20)"
  proof -
    have "unat x + 4096 = 4096 * (q + 1)" "(2 :: nat) ^ 32 = 4096 * 2 ^ 20" using q by simp_all
    then show ?thesis by (simp only:)
  qed
  also have "\<dots> = 4096 * ((q + 1) mod 2 ^ 20)" by (rule mult_mod_right [symmetric])
  finally show ?thesis by (simp add: aligned_unat)
qed

lemma page_diff_step:
  assumes "a mod PGSIZE = 0" "PGROUNDDOWN vb \<noteq> a"
  shows "unat (page_diff a vb) = unat (page_diff (a + PGSIZE) vb) + 4096"
    and "page_diff a vb = page_diff (a + PGSIZE) vb + PGSIZE"
proof -
  let ?d = "PGROUNDDOWN vb - a"
  have "4096 dvd unat ?d" by (rule unat_dvd_diff [OF PGROUNDDOWN_mod assms(1)])
  moreover have "unat ?d \<noteq> 0" using assms(2) by (simp add: unat_eq_zero)
  ultimately have "4096 \<le> unat ?d" by (simp add: dvd_imp_le)
  then have "PGSIZE \<le> ?d" by (simp add: PGSIZE_def word_le_nat_alt)
  then have "unat (?d - PGSIZE) = unat ?d - 4096" by (simp add: unat_sub PGSIZE_def)
  moreover have "page_diff (a + PGSIZE) vb = ?d - PGSIZE" by (simp add: page_diff_def)
  ultimately show "unat (page_diff a vb) = unat (page_diff (a + PGSIZE) vb) + 4096"
    "page_diff a vb = page_diff (a + PGSIZE) vb + PGSIZE"
    using \<open>4096 \<le> unat ?d\<close> by (simp_all add: page_diff_def diff_diff_eq)
qed

lemma page_diff_self:
  "PGROUNDDOWN vb = a \<Longrightarrow> page_diff a vb = 0"
  "PGROUNDDOWN vb = a \<Longrightarrow> unat (page_diff (a + PGSIZE) vb) = 2 ^ 32 - 4096"
  by (simp_all add: page_diff_def PGSIZE_def)

lemma PGROUNDDOWN_aligned: "a mod PGSIZE = 0 \<Longrightarrow> PGROUNDDOWN a = a"
  using PTE_ADDR_or [of a 0] by (simp add: PTE_ADDR_def PGROUNDDOWN_def PGSIZE_def)

lemma offset_small:
  assumes "n < 2 ^ 20" shows "unat (of_nat n * PGSIZE) = n * 4096"
proof -
  have "n * 4096 < 2 ^ 32" using assms by simp
  then have "unat (of_nat (n * 4096) :: u32) = n * 4096" by (intro unat_of_nat_small) simp
  then show ?thesis by (simp add: PGSIZE_def)
qed

lemma mappages_loop_maps:
  assumes "pt_ok kend k pgdir F" "a mod PGSIZE = 0" "lst = a + of_nat n * PGSIZE" "n < N" "n < 2 ^ 20"
    and "\<forall>vb. unat (page_diff a vb) \<le> n * 4096 \<longrightarrow> \<not> present (pte_of pgdir (kbytes k) vb)"
  shows "\<exists>b k' F'. mappages_loop N pgdir a lst pa pm k = Inr (b, k') \<and> pt_ok kend k' pgdir F'
    \<and> pt_frame pgdir (kbytes k) F (kbytes k') F' \<and> (b = False \<longrightarrow> F' = {})
    \<and> (\<forall>vb. n * 4096 < unat (page_diff a vb) \<longrightarrow> pte_of pgdir (kbytes k') vb = pte_of pgdir (kbytes k) vb)
    \<and> (b \<longrightarrow> (\<forall>vb. unat (page_diff a vb) \<le> n * 4096 \<longrightarrow>
          pte_of pgdir (kbytes k') vb = (pa + page_diff a vb) OR pm OR PTE_P))"
  using assms
proof (induction N arbitrary: n a pa k F)
  case (Suc N)
  note aa = PGROUNDDOWN_aligned [OF Suc.prems(2)]
  obtain pte k1 where w: "walkpgdir pgdir a True k = (pte, k1)" by fastforce
  show ?case
  proof (cases "pte = 0")
    case True
    then have "k1 = k" "F = {}" using walkpgdir_alloc [OF Suc.prems(1) w] by auto
    then show ?thesis using w True Suc.prems(1)
      by (intro exI [of _ False] exI [of _ k] exI [of _ F]) simp
  next
    case False
    then obtain F1 where F1: "pt_ok kend k1 pgdir F1" "pt_frame pgdir (kbytes k) F (kbytes k1) F1"
      "present (pde_of pgdir (kbytes k1) (PDX a))"
      "pte = table_of pgdir (kbytes k1) (PDX a) + 4 * PTX a"
      "\<And>vb. pte_of pgdir (kbytes k1) vb = pte_of pgdir (kbytes k) vb"
      using walkpgdir_alloc [OF Suc.prems(1) w] by blast
    have old: "load32 (kbytes k1) pte = pte_of pgdir (kbytes k) a"
    proof -
      have "load32 (kbytes k1) pte = pte_of pgdir (kbytes k1) a" using F1(3,4) by (simp add: pte_of_def)
      then show ?thesis by (simp only: F1(5))
    qed
    have "\<not> present (load32 (kbytes k1) pte)"
      unfolding old using Suc.prems(6) aa by (simp add: page_diff_def)
    let ?m2 = "store32 pte (pa OR pm OR PTE_P) (kbytes k1)"
    let ?k2 = "k1\<lparr>kbytes := ?m2\<rparr>"
    note st = store_pte [OF F1(1,3), where e = "pa OR pm OR PTE_P", folded F1(4)]
    have fr: "pt_frame pgdir (kbytes k) F ?m2 F1"
    proof (rule pt_frame_trans [OF F1(2)])
      have "pde_of pgdir ?m2 i = pde_of pgdir (kbytes k1) i" if "i < 0x400" for i
      proof -
        note D = pt_okD [OF F1(1)]
        have T: "kpage kend (table_of pgdir (kbytes k1) (PDX a))" "table_of pgdir (kbytes k1) (PDX a) \<noteq> pgdir"
          using D(4) [OF index_bounds(1) F1(3)] by simp_all
        show ?thesis unfolding pde_of_def
          by (rule entry_load_outside [OF kpage_aligned [OF D(1)] kpage_aligned [OF T(1)] T(2) [symmetric] that st(3)])
      qed
      then have "pt_pages pgdir ?m2 F1 = pt_pages pgdir (kbytes k1) F1" by (rule pt_pages_cong)
      then show "pt_frame pgdir (kbytes k1) F1 ?m2 F1"
        using st(3) table_in_pages [OF index_bounds(1) F1(3)] by (simp add: pt_frame_def)
    qed
    have m2: "pte_of pgdir ?m2 vb = (if PGROUNDDOWN vb = a then pa OR pm OR PTE_P else pte_of pgdir (kbytes k) vb)" for vb
      using st(2) [of vb] by (simp add: aa F1(5))
    have go: "mappages_loop (Suc N) pgdir a lst pa pm k = (if a = lst then Inr (True, ?k2)
        else mappages_loop N pgdir (a + PGSIZE) lst (pa + PGSIZE) pm ?k2)"
      using w False \<open>\<not> present _\<close> by simp
    show ?thesis
    proof (cases n)
      case 0
      then have "a = lst" using Suc.prems(3) by simp
      moreover have "n * 4096 < unat (page_diff a vb) \<longleftrightarrow> PGROUNDDOWN vb \<noteq> a" for vb
        using 0 by (auto simp: page_diff_def unat_gt_0)
      ultimately show ?thesis
        using go st(1) fr m2 0 by (intro exI [of _ True] exI [of _ ?k2] exI [of _ F1])
          (auto simp: not_less [symmetric] page_diff_def)
    next
      case (Suc n')
      have "a \<noteq> lst"
      proof
        assume "a = lst"
        then have "unat (of_nat n * PGSIZE) = 0" using Suc.prems(3) by simp
        then show False using offset_small [OF Suc.prems(5)] Suc by simp
      qed
      note step = page_diff_step [OF Suc.prems(2)]
      have small: "n' * 4096 < 2 ^ 32 - 4096" using Suc.prems(5) Suc by simp
      have IH: "\<exists>b k' F'. mappages_loop N pgdir (a + PGSIZE) lst (pa + PGSIZE) pm ?k2 = Inr (b, k') \<and> pt_ok kend k' pgdir F'
        \<and> pt_frame pgdir (kbytes ?k2) F1 (kbytes k') F' \<and> (b = False \<longrightarrow> F' = {})
        \<and> (\<forall>vb. n' * 4096 < unat (page_diff (a + PGSIZE) vb) \<longrightarrow> pte_of pgdir (kbytes k') vb = pte_of pgdir (kbytes ?k2) vb)
        \<and> (b \<longrightarrow> (\<forall>vb. unat (page_diff (a + PGSIZE) vb) \<le> n' * 4096 \<longrightarrow>
          pte_of pgdir (kbytes k') vb = (pa + PGSIZE + page_diff (a + PGSIZE) vb) OR pm OR PTE_P))"
      proof (rule Suc.IH)
        show "pt_ok kend ?k2 pgdir F1" by (rule st(1))
        show "(a + PGSIZE) mod PGSIZE = 0" by (rule add_page_mod [OF Suc.prems(2)])
        show "lst = a + PGSIZE + of_nat n' * PGSIZE" using Suc.prems(3) Suc by (simp add: algebra_simps)
        show "\<forall>vb. unat (page_diff (a + PGSIZE) vb) \<le> n' * 4096 \<longrightarrow> \<not> present (pte_of pgdir (kbytes ?k2) vb)"
        proof (intro allI impI)
          fix vb assume v: "unat (page_diff (a + PGSIZE) vb) \<le> n' * 4096"
          then have ne: "PGROUNDDOWN vb \<noteq> a" using page_diff_self(2) [of vb a] small by auto
          then have "unat (page_diff a vb) \<le> n * 4096" using step [OF ne] v Suc by simp
          then show "\<not> present (pte_of pgdir (kbytes ?k2) vb)" using Suc.prems(6) ne m2 by simp
        qed
      qed (use Suc.prems Suc in auto)
      then obtain b k' F' where R: "mappages_loop N pgdir (a + PGSIZE) lst (pa + PGSIZE) pm ?k2 = Inr (b, k')"
        "pt_ok kend k' pgdir F'" "pt_frame pgdir ?m2 F1 (kbytes k') F'" "b = False \<longrightarrow> F' = {}"
        "\<And>vb. n' * 4096 < unat (page_diff (a + PGSIZE) vb) \<Longrightarrow> pte_of pgdir (kbytes k') vb = pte_of pgdir ?m2 vb"
        "\<And>vb. b \<Longrightarrow> unat (page_diff (a + PGSIZE) vb) \<le> n' * 4096 \<Longrightarrow>
          pte_of pgdir (kbytes k') vb = (pa + PGSIZE + page_diff (a + PGSIZE) vb) OR pm OR PTE_P" by auto
      have "pte_of pgdir (kbytes k') vb = pte_of pgdir (kbytes k) vb"
        if "n * 4096 < unat (page_diff a vb)" for vb
      proof -
        have ne: "PGROUNDDOWN vb \<noteq> a" using that page_diff_self(1) [of vb a] by auto
        then show ?thesis using step [OF ne] that Suc R(5) [of vb] m2 [of vb] by simp
      qed
      moreover have "pte_of pgdir (kbytes k') vb = (pa + page_diff a vb) OR pm OR PTE_P"
        if b: "b" and "unat (page_diff a vb) \<le> n * 4096" for vb
      proof (cases "PGROUNDDOWN vb = a")
        case True
        then show ?thesis using R(5) [of vb] page_diff_self [OF True] small m2 [of vb] by simp
      next
        case ne: False
        then show ?thesis using step [OF ne] that Suc R(6) [OF b, of vb] by (simp add: ac_simps)
      qed
      ultimately show ?thesis
        using go \<open>a \<noteq> lst\<close> R(1-4) pt_frame_trans [OF fr R(3)]
        by (intro exI [of _ b] exI [of _ k'] exI [of _ F']) simp
    qed
  qed
qed simp

lemma PGROUNDDOWN_offset: "va - PGROUNDDOWN va < PGSIZE"
proof -
  have m: "PGSIZE - 1 = mask 12" by (simp add: PGSIZE_def mask_eq_exp_minus_1)
  have "NOT va AND (va AND NOT (mask 12)) = 0" by (rule bit_word_eqI) (simp add: bit_simps)
  then have "va - (va AND NOT (mask 12)) = va AND NOT (va AND NOT (mask 12))"
    by (rule disjunctive_diff_eq_and_not)
  also have "\<dots> = va AND mask 12" by (rule bit_word_eqI) (auto simp: bit_simps)
  finally have "va - PGROUNDDOWN va = va AND mask 12"
    unfolding PGROUNDDOWN_def m .
  moreover have "unat (take_bit 12 va) < 2 ^ 12"
    by (simp only: unsigned_take_bit_eq take_bit_nat_less_exp)
  ultimately show ?thesis
    by (simp add: take_bit_eq_mask [symmetric] word_less_nat_alt PGSIZE_def)
qed

termination copyout
proof (relation "measure (\<lambda>(_, _, _, len, _). unat len)")
  fix pgdir va buf len :: u32 and k va0 pa0 n n' k'
  assume len: "0 < len" and va0: "va0 = PGROUNDDOWN va" and n: "n = PGSIZE - (va - va0)"
    and n': "n' = (if len < n then len else n)"
  have "va - va0 < PGSIZE" unfolding va0 by (rule PGROUNDDOWN_offset)
  then have "n \<noteq> 0" unfolding n by auto
  then have nz: "0 < n'" "n' \<le> len" using len by (auto simp: n' word_neq_0_conv)
  then have "unat (len - n') = unat len - unat n'" by (simp add: unat_sub)
  moreover have "0 < unat n'" "unat n' \<le> unat len"
    using nz by (simp_all add: word_less_nat_alt word_le_nat_alt)
  ultimately show "((pgdir, va0 + PGSIZE, buf + n', len - n', k'), (pgdir, va, buf, len, k))
      \<in> measure (\<lambda>(_, _, _, len, _). unat len)" by simp
qed simp

declare copyout.simps [simp del]

section \<open>Properties\<close>

text \<open>
  \<open>mappages\<close> maps exactly what it is asked to: on a well-formed page table in
  which no page of the range is mapped it never panics, and when it returns 0 every
  page of \<open>[va, va + size)\<close> is mapped to the physical page at the same offset from
  \<open>pa\<close> with the given permissions, every other page is mapped as before, and the page
  table is well-formed again (its tables and the free pages are different pages); it
  fails only when no free page is left, and then no page outside the range changes.
\<close>

theorem mappages_maps:
  assumes "pt_ok kend k pgdir F"
    and "\<forall>vb. page_diff (PGROUNDDOWN va) vb \<le> PGROUNDDOWN (va + sz - 1) - PGROUNDDOWN va \<longrightarrow>
      \<not> present (pte_of pgdir (kbytes k) vb)"
  shows "\<exists>b k' F'. mappages pgdir va sz pa pm k = Inr (b, k') \<and> pt_ok kend k' pgdir F' \<and> F' \<subseteq> F
    \<and> (b = False \<longrightarrow> F' = {})
    \<and> (\<forall>vb. \<not> page_diff (PGROUNDDOWN va) vb \<le> PGROUNDDOWN (va + sz - 1) - PGROUNDDOWN va \<longrightarrow>
          pte_of pgdir (kbytes k') vb = pte_of pgdir (kbytes k) vb)
    \<and> (b \<longrightarrow> (\<forall>vb. page_diff (PGROUNDDOWN va) vb \<le> PGROUNDDOWN (va + sz - 1) - PGROUNDDOWN va \<longrightarrow>
          pte_of pgdir (kbytes k') vb = (pa + page_diff (PGROUNDDOWN va) vb) OR pm OR PTE_P))"
proof -
  let ?a = "PGROUNDDOWN va" and ?l = "PGROUNDDOWN (va + sz - 1)"
  have "4096 dvd unat (?l - ?a)" by (rule unat_dvd_diff [OF PGROUNDDOWN_mod PGROUNDDOWN_mod])
  then obtain n where n: "unat (?l - ?a) = n * 4096" by (auto simp: dvd_def mult.commute)
  then have "n * 4096 < 2 ^ 32" using unat_bound [of "?l - ?a"] by simp
  then have n20: "n < 2 ^ 20" by simp
  have "unat (of_nat n * PGSIZE) = unat (?l - ?a)" using offset_small [OF n20] n by simp
  then have "?l - ?a = of_nat n * PGSIZE" by (metis unsigned_word_eqI)
  then have l: "?l = ?a + of_nat n * PGSIZE" by (simp add: algebra_simps)
  have le: "page_diff ?a vb \<le> ?l - ?a \<longleftrightarrow> unat (page_diff ?a vb) \<le> n * 4096" for vb
    by (simp add: word_le_nat_alt n)
  have "n < page_fuel" using n20 by (simp add: page_fuel_def)
  from mappages_loop_maps [OF assms(1) PGROUNDDOWN_mod l this n20, of pa pm] assms(2)
  show ?thesis unfolding mappages_def le pt_frame_def not_le by blast
qed

definition vm0 :: kmem where
  "vm0 = \<lparr>kbytes = (\<lambda>_. 0), use_lock = True, freelist = 0x80300000\<rparr>"

lemma pt_ok_vm0: "pt_ok 0x80100000 vm0 0x80200000 {0x80300000}"
proof -
  have l: "load32 (\<lambda>_. 0) a = 0" for a by (simp add: load32_def)
  have kp: "kpage 0x80100000 0x80200000" "kpage 0x80100000 0x80300000"
    by (simp_all add: kpage_def V2P_def PHYSTOP_def KERNBASE_def PGSIZE_def)
  then have "kmem_ok 0x80100000 vm0 [0x80300000]" by (simp add: kmem_ok_def vm0_def l)
  then have "kpool 0x80100000 vm0 {0x80300000}"
    unfolding kpool_def by (intro exI [of _ "[0x80300000]"]) simp
  then show ?thesis using kp by (simp add: pt_ok_def pde_of_def vm0_def l)
qed

theorem mappages_maps_witness:
  "\<exists>b k'. mappages 0x80200000 0x1234 0x2000 0x400000 PTE_W vm0 = Inr (b, k')
     \<and> (b \<longrightarrow> pte_of 0x80200000 (kbytes k') 0x2345 = 0x401003)"
proof -
  have d: "PGROUNDDOWN 0x1234 = 0x1000" "PGROUNDDOWN (0x1234 + 0x2000 - 1) = 0x3000"
    "PGROUNDDOWN 0x2345 = 0x2000"
    by (simp_all add: PGROUNDDOWN_def PGSIZE_def)
  have z: "pte_of 0x80200000 (kbytes vm0) vb = 0" for vb
    by (simp add: pte_of_def pde_of_def vm0_def load32_def)
  have pd: "page_diff (PGROUNDDOWN 0x1234) 0x2345 = 0x1000" by (simp only: page_diff_def d) simp
  have le: "page_diff (PGROUNDDOWN 0x1234) 0x2345 \<le> PGROUNDDOWN (0x1234 + 0x2000 - 1) - PGROUNDDOWN 0x1234"
    by (simp only: pd) (simp only: d, simp)
  have e: "(0x400000 + 0x1000) OR PTE_W OR PTE_P = 0x401003" by (simp add: PTE_W_def PTE_P_def)
  have "\<forall>vb. page_diff (PGROUNDDOWN 0x1234) vb \<le> PGROUNDDOWN (0x1234 + 0x2000 - 1) - PGROUNDDOWN 0x1234
      \<longrightarrow> \<not> present (pte_of 0x80200000 (kbytes vm0) vb)"
    by (simp only: z present_zero) simp
  from mappages_maps [OF pt_ok_vm0 this, of "0x400000" PTE_W] obtain b k' where
    r: "mappages 0x80200000 0x1234 0x2000 0x400000 PTE_W vm0 = Inr (b, k')"
    "b \<longrightarrow> (\<forall>vb. page_diff (PGROUNDDOWN 0x1234) vb \<le> PGROUNDDOWN (0x1234 + 0x2000 - 1) - PGROUNDDOWN 0x1234
      \<longrightarrow> pte_of 0x80200000 (kbytes k') vb = (0x400000 + page_diff (PGROUNDDOWN 0x1234) vb) OR PTE_W OR PTE_P)"
    by blast
  have "b \<longrightarrow> pte_of 0x80200000 (kbytes k') 0x2345 = 0x401003"
    using r(2) le pd e by metis
  with r(1) show ?thesis by blast
qed

end
