(* ===== verification/Proc.thy ===== *)
theory Proc
  imports VM
begin

text \<open>
  Processes (proc.c): the process table and the operations on it. Each function
  below is what runs under \<open>ptable.lock\<close> without a break, so the step relation
  that interleaves them over all CPUs is the table's history. A process is the index
  of its slot; NULL is \<open>None\<close>.
\<close>

section \<open>proc.h\<close>

definition NPROC :: nat where "NPROC = 64"

datatype procstate = UNUSED | EMBRYO | SLEEPING | RUNNABLE | RUNNING | ZOMBIE

text \<open>x86.h; the paddings are left out.\<close>

record trapframe =
  edi :: u32
  esi :: u32
  ebp :: u32
  oesp :: u32
  ebx :: u32
  edx :: u32
  ecx :: u32
  eax :: u32
  gs :: u16
  fs :: u16
  es :: u16
  ds :: u16
  trapno :: u32
  err :: u32
  eip :: u32
  cs :: u16
  eflags :: u32
  esp :: u32
  ss :: u16

definition zero_tf :: trapframe where
  "zero_tf = \<lparr>edi = 0, esi = 0, ebp = 0, oesp = 0, ebx = 0, edx = 0, ecx = 0, eax = 0, gs = 0, fs = 0,
     es = 0, ds = 0, trapno = 0, err = 0, eip = 0, cs = 0, eflags = 0, esp = 0, ss = 0\<rparr>"

text \<open>Channels: a process (\<open>wait\<close>), the tick counter, any other kernel address.\<close>

datatype chan = ChProc nat | ChTicks | ChAddr nat

text \<open>
  \<open>tf\<close> and \<open>alarm_tf\<close> are the contents behind the code's pointers, the top of the
  kernel stack and the page \<open>trap\<close> allocates for an alarm.
\<close>

record proc =
  sz :: u32
  pgdir :: u32
  kstack :: u32
  pstate :: procstate
  pid :: int
  parent :: "nat option"
  tf :: trapframe
  chan :: "chan option"
  killed :: bool
  pname :: string
  ofile :: "nat option list"
  cwd :: "nat option"
  alarm_interval :: int
  alarm_ticks :: int
  alarm_handler :: u32
  alarm_in_handler :: bool
  alarm_tf :: "trapframe option"

record ptable =
  procs :: "proc list"
  nextpid :: int
  initproc :: nat

definition upd :: "nat \<Rightarrow> (proc \<Rightarrow> proc) \<Rightarrow> ptable \<Rightarrow> ptable" where
  "upd i f t = t\<lparr>procs := (procs t)[i := f (procs t ! i)]\<rparr>"

abbreviation st :: "ptable \<Rightarrow> nat \<Rightarrow> procstate" where
  "st t i \<equiv> pstate (procs t ! i)"

section \<open>proc.c\<close>

text \<open>The part of \<open>allocproc\<close> under the lock: the first UNUSED slot becomes an EMBRYO.\<close>

definition allocproc :: "ptable \<Rightarrow> (nat \<times> ptable) option" where
  "allocproc t =
     (case first_index (\<lambda>p. pstate p = UNUSED) (procs t) of
        None \<Rightarrow> None
      | Some i \<Rightarrow> Some (i, (upd i (\<lambda>p. p\<lparr>pstate := EMBRYO, pid := nextpid t,
          alarm_interval := 0, alarm_ticks := 0, alarm_handler := 0, alarm_in_handler := False,
          alarm_tf := None\<rparr>) t)\<lparr>nextpid := nextpid t + 1\<rparr>))"

text \<open>The two ways an EMBRYO ends: no memory, or \<open>fork\<close> sets its parent and lets it run.\<close>

definition alloc_failed :: "nat \<Rightarrow> ptable \<Rightarrow> ptable" where
  "alloc_failed i t = upd i (\<lambda>p. p\<lparr>kstack := 0, pstate := UNUSED\<rparr>) t"

definition fork_parent :: "nat \<Rightarrow> nat \<Rightarrow> ptable \<Rightarrow> ptable" where
  "fork_parent cur i t =
     upd i (\<lambda>p. p\<lparr>sz := sz (procs t ! cur), parent := Some cur,
       tf := (tf (procs t ! cur))\<lparr>eax := 0\<rparr>,
       ofile := map2 (\<lambda>f g. if f \<noteq> None then f else g) (ofile (procs t ! cur)) (ofile p),
       cwd := cwd (procs t ! cur), alarm_interval := 0,
       alarm_ticks := 0, alarm_handler := 0, alarm_in_handler := False, alarm_tf := None,
       pname := pname (procs t ! cur)\<rparr>) t"

definition set_runnable :: "nat \<Rightarrow> ptable \<Rightarrow> ptable" where
  "set_runnable i t = upd i (\<lambda>p. p\<lparr>pstate := RUNNABLE\<rparr>) t"

definition wakeup1 :: "chan option \<Rightarrow> ptable \<Rightarrow> ptable" where
  "wakeup1 ch t = t\<lparr>procs := map (\<lambda>p. if pstate p = SLEEPING \<and> chan p = ch
     then p\<lparr>pstate := RUNNABLE\<rparr> else p) (procs t)\<rparr>"

definition wakeup :: "chan \<Rightarrow> ptable \<Rightarrow> ptable" where
  "wakeup ch t = wakeup1 (Some ch) t"

definition kill :: "int \<Rightarrow> ptable \<Rightarrow> int \<times> ptable" where
  "kill n t =
     (case first_index (\<lambda>p. pid p = n) (procs t) of
        None \<Rightarrow> (- 1, t)
      | Some i \<Rightarrow> (0, upd i (\<lambda>p. p\<lparr>killed := True,
          pstate := if pstate p = SLEEPING then RUNNABLE else pstate p\<rparr>) t))"

definition sleep :: "nat \<Rightarrow> chan \<Rightarrow> ptable \<Rightarrow> ptable" where
  "sleep cur ch t = upd cur (\<lambda>p. p\<lparr>chan := Some ch, pstate := SLEEPING\<rparr>) t"

definition yield :: "nat \<Rightarrow> ptable \<Rightarrow> ptable" where
  "yield cur t = upd cur (\<lambda>p. p\<lparr>pstate := RUNNABLE\<rparr>) t"

text \<open>
  The scheduler switches to a process; back in \<open>sched\<close>, a process that slept clears
  its channel before it releases the lock.
\<close>

definition run_proc :: "nat \<Rightarrow> ptable \<Rightarrow> ptable" where
  "run_proc i t = upd i (\<lambda>p. p\<lparr>pstate := RUNNING, chan := None\<rparr>) t"

text \<open>The files an exiting process drops, one \<open>fileclose\<close> each, then its directory.\<close>

definition exit_close :: "nat \<Rightarrow> ptable \<Rightarrow> ptable" where
  "exit_close cur t = upd cur (\<lambda>p. p\<lparr>ofile := map (\<lambda>_. None) (ofile p), cwd := None\<rparr>) t"

text \<open>The loop of \<open>exit\<close> that passes the children of \<open>cur\<close> to init, slot after slot.\<close>

fun reparent :: "nat list \<Rightarrow> nat \<Rightarrow> ptable \<Rightarrow> ptable" where
  "reparent [] cur t = t"
| "reparent (i # is) cur t =
     (if parent (procs t ! i) = Some cur
      then let t = upd i (\<lambda>p. p\<lparr>parent := Some (initproc t)\<rparr>) t;
               t = (if st t i = ZOMBIE then wakeup1 (Some (ChProc (initproc t))) t else t)
           in reparent is cur t
      else reparent is cur t)"

text \<open>\<open>exit\<close> from \<open>acquire(&ptable.lock)\<close> on; \<open>wakeup1(curproc->parent)\<close>.\<close>

definition exit_zombie :: "nat \<Rightarrow> ptable \<Rightarrow> ptable res" where
  "exit_zombie cur t =
     (if cur = initproc t then Inl (Panic ''init exiting'')
      else let t = wakeup1 (map_option ChProc (parent (procs t ! cur))) t;
               t = reparent [0..<length (procs t)] cur t
           in Inr (upd cur (\<lambda>p. p\<lparr>pstate := ZOMBIE\<rparr>) t))"

text \<open>One scan of \<open>wait\<close>: reap a child, return -1, or go to sleep.\<close>

datatype wait_result = Reaped int nat | NoChildren | WaitSleeps

definition wait_scan :: "nat \<Rightarrow> ptable \<Rightarrow> wait_result \<times> ptable" where
  "wait_scan cur t =
     (case first_index (\<lambda>p. parent p = Some cur \<and> pstate p = ZOMBIE) (procs t) of
        Some i \<Rightarrow> (Reaped (pid (procs t ! i)) i,
           upd i (\<lambda>p. p\<lparr>kstack := 0, pid := 0, parent := None, pname := [], killed := False,
             pstate := UNUSED\<rparr>) t)
      | None \<Rightarrow>
          if (\<forall>p\<in>set (procs t). parent p \<noteq> Some cur) \<or> killed (procs t ! cur)
          then (NoChildren, t)
          else (WaitSleeps, sleep cur (ChProc cur) t))"

section \<open>The step relation\<close>

text \<open>
  \<open>on_cpu c\<close> is the process CPU \<open>c\<close> runs; \<open>forking p\<close> the slot that \<open>p\<close> has allocated
  in a \<open>fork\<close> that is under way. While it is, \<open>p\<close> may be preempted but does not
  exit, wait, sleep or fork again, as the code of \<open>fork\<close> shows.
\<close>

record psys =
  tab :: ptable
  on_cpu :: "nat \<Rightarrow> nat option"
  forking :: "nat \<Rightarrow> nat option"

inductive proc_step :: "psys \<Rightarrow> psys \<Rightarrow> bool" where
  fork_alloc: "on_cpu s c = Some p \<Longrightarrow> forking s p = None \<Longrightarrow> allocproc (tab s) = Some (i, t) \<Longrightarrow>
    proc_step s (s\<lparr>tab := t, forking := (forking s)(p := Some i)\<rparr>)"
| fork_fail: "on_cpu s c = Some p \<Longrightarrow> forking s p = Some i \<Longrightarrow> parent (procs (tab s) ! i) = None \<Longrightarrow>
    proc_step s (s\<lparr>tab := alloc_failed i (tab s), forking := (forking s)(p := None)\<rparr>)"
| fork_set: "on_cpu s c = Some p \<Longrightarrow> forking s p = Some i \<Longrightarrow>
    proc_step s (s\<lparr>tab := fork_parent p i (tab s)\<rparr>)"
| fork_done: "on_cpu s c = Some p \<Longrightarrow> forking s p = Some i \<Longrightarrow> parent (procs (tab s) ! i) = Some p \<Longrightarrow>
    proc_step s (s\<lparr>tab := set_runnable i (tab s), forking := (forking s)(p := None)\<rparr>)"
| closes: "on_cpu s c = Some p \<Longrightarrow> forking s p = None \<Longrightarrow> proc_step s (s\<lparr>tab := exit_close p (tab s)\<rparr>)"
| exit: "on_cpu s c = Some p \<Longrightarrow> forking s p = None \<Longrightarrow> exit_zombie p (tab s) = Inr t \<Longrightarrow>
    proc_step s (s\<lparr>tab := t, on_cpu := (on_cpu s)(c := None)\<rparr>)"
| wait_returns: "on_cpu s c = Some p \<Longrightarrow> forking s p = None \<Longrightarrow> wait_scan p (tab s) = (r, t) \<Longrightarrow>
    r \<noteq> WaitSleeps \<Longrightarrow> proc_step s (s\<lparr>tab := t\<rparr>)"
| wait_sleeps: "on_cpu s c = Some p \<Longrightarrow> forking s p = None \<Longrightarrow> wait_scan p (tab s) = (WaitSleeps, t) \<Longrightarrow>
    proc_step s (s\<lparr>tab := t, on_cpu := (on_cpu s)(c := None)\<rparr>)"
| sleeps: "on_cpu s c = Some p \<Longrightarrow> forking s p = None \<Longrightarrow> \<forall>q. ch \<noteq> ChProc q \<Longrightarrow>
    proc_step s (s\<lparr>tab := sleep p ch (tab s), on_cpu := (on_cpu s)(c := None)\<rparr>)"
| wakes: "proc_step s (s\<lparr>tab := wakeup ch (tab s)\<rparr>)"
| kills: "proc_step s (s\<lparr>tab := snd (kill n (tab s))\<rparr>)"
| yields: "on_cpu s c = Some p \<Longrightarrow>
    proc_step s (s\<lparr>tab := yield p (tab s), on_cpu := (on_cpu s)(c := None)\<rparr>)"
| schedules: "on_cpu s c = None \<Longrightarrow> i < length (procs (tab s)) \<Longrightarrow> st (tab s) i = RUNNABLE \<Longrightarrow>
    proc_step s (s\<lparr>tab := run_proc i (tab s), on_cpu := (on_cpu s)(c := Some i)\<rparr>)"

section \<open>Boot, growproc and fork over kernel memory\<close>

definition NOFILE :: nat where "NOFILE = 16"

definition zero_proc :: proc where
  "zero_proc = \<lparr>sz = 0, pgdir = 0, kstack = 0, pstate = UNUSED, pid = 0, parent = None, tf = zero_tf,
     chan = None, killed = False, pname = [], ofile = replicate NOFILE None, cwd = None,
     alarm_interval = 0, alarm_ticks = 0, alarm_handler = 0, alarm_in_handler = False, alarm_tf = None\<rparr>"

definition ptable_zero :: ptable where
  "ptable_zero = \<lparr>procs = replicate NPROC zero_proc, nextpid = 1, initproc = 0\<rparr>"

text \<open>The table's part of \<open>userinit\<close>; segments 3 and 4 are the user code and data.\<close>

definition first_proc :: "nat \<Rightarrow> u32 \<Rightarrow> nat \<Rightarrow> ptable \<Rightarrow> ptable" where
  "first_proc i pd root t =
     set_runnable i (upd i (\<lambda>p. p\<lparr>pgdir := pd, sz := PGSIZE,
       tf := zero_tf\<lparr>cs := push_bit 3 3 OR 3, ds := push_bit 3 4 OR 3, es := push_bit 3 4 OR 3,
         ss := push_bit 3 4 OR 3, eflags := 0x200, esp := PGSIZE, eip := 0\<rparr>,
       pname := ''initcode'', cwd := Some root\<rparr>) (t\<lparr>initproc := i\<rparr>))"

text \<open>The kernel stack of a new process.\<close>

definition alloc_kstack :: "nat \<Rightarrow> kmem \<Rightarrow> ptable \<Rightarrow> bool \<times> kmem \<times> ptable" where
  "alloc_kstack i k t =
     (let (ks, k) = kalloc k; t = upd i (\<lambda>p. p\<lparr>kstack := ks\<rparr>) t in
      if ks = 0 then (False, k, alloc_failed i t) else (True, k, t))"

definition userinit :: "u32 \<Rightarrow> u32 \<Rightarrow> u32 \<Rightarrow> u32 \<Rightarrow> nat \<Rightarrow> kmem \<Rightarrow> ptable \<Rightarrow> (kmem \<times> ptable) res" where
  "userinit kend kdata code csz root k t =
     (case allocproc t of None \<Rightarrow> Inl Fault
      | Some (i, t) \<Rightarrow>
          let (ok, k, t) = alloc_kstack i k t in
          if \<not> ok then Inl Fault
          else rbind (setupkvm kend kdata k) (\<lambda>(pd, k).
            if pd = 0 then Inl (Panic ''userinit: out of memory?'')
            else rbind (inituvm pd code csz k) (\<lambda>k. Inr (k, first_proc i pd root t))))"

definition growproc :: "u32 \<Rightarrow> nat \<Rightarrow> u32 \<Rightarrow> kmem \<Rightarrow> ptable \<Rightarrow> (bool \<times> kmem \<times> ptable) res" where
  "growproc kend cur n k t =
     (let p = procs t ! cur;
          r = (if 0 <s n then allocuvm kend (pgdir p) (sz p) (sz p + n) k
               else if n <s 0 then deallocuvm kend (pgdir p) (sz p) (sz p + n) k
               else Inr (sz p, k))
      in rbind r (\<lambda>(newsz, k).
           if n \<noteq> 0 \<and> newsz = 0 then Inr (False, k, t)
           else Inr (True, k, upd cur (\<lambda>p. p\<lparr>sz := newsz\<rparr>) t)))"

text \<open>The steps of \<open>fork\<close> in their order, with nothing in between.\<close>

definition fork :: "u32 \<Rightarrow> u32 \<Rightarrow> nat \<Rightarrow> kmem \<Rightarrow> ptable \<Rightarrow> (int \<times> kmem \<times> ptable) res" where
  "fork kend kdata cur k t =
     (case allocproc t of None \<Rightarrow> Inr (- 1, k, t)
      | Some (i, t) \<Rightarrow>
          let (ok, k, t) = alloc_kstack i k t in
          if \<not> ok then Inr (- 1, k, t)
          else rbind (copyuvm kend kdata (pgdir (procs t ! cur)) (sz (procs t ! cur)) k) (\<lambda>(pd, k).
            let t = upd i (\<lambda>p. p\<lparr>pgdir := pd\<rparr>) t in
            if pd = 0
            then rbind (kfree kend (kstack (procs t ! i)) k) (\<lambda>k. Inr (- 1, k, alloc_failed i t))
            else Inr (pid (procs t ! i), k, set_runnable i (fork_parent cur i t))))"

text \<open>The state \<open>userinit\<close> leaves: init is runnable, every CPU idle.\<close>

definition psys_boot :: "u32 \<Rightarrow> nat \<Rightarrow> psys" where
  "psys_boot pd root = \<lparr>tab = first_proc 0 pd root (snd (the (allocproc ptable_zero))),
     on_cpu = (\<lambda>_. None), forking = (\<lambda>_. None)\<rparr>"

section \<open>What each operation does to a slot\<close>

lemma upd_simps [simp]:
  "length (procs (upd i f t)) = length (procs t)" "initproc (upd i f t) = initproc t"
  "nextpid (upd i f t) = nextpid t"
  by (simp_all add: upd_def)

lemma upd_nth: "i < length (procs t) \<Longrightarrow>
    procs (upd i f t) ! j = (if j = i then f (procs t ! i) else procs t ! j)"
  by (simp add: upd_def)

lemma wakeup1_simps [simp]:
  "length (procs (wakeup1 ch t)) = length (procs t)" "initproc (wakeup1 ch t) = initproc t"
  "nextpid (wakeup1 ch t) = nextpid t"
  by (simp_all add: wakeup1_def)

lemma wakeup1_nth: "j < length (procs t) \<Longrightarrow>
    procs (wakeup1 ch t) ! j = (if st t j = SLEEPING \<and> chan (procs t ! j) = ch
      then (procs t ! j)\<lparr>pstate := RUNNABLE\<rparr> else procs t ! j)"
  by (simp add: wakeup1_def)

definition reparented :: "nat set \<Rightarrow> nat \<Rightarrow> ptable \<Rightarrow> nat \<Rightarrow> proc" where
  "reparented S cur t j = (procs t ! j)
     \<lparr>parent := if j \<in> S \<and> parent (procs t ! j) = Some cur then Some (initproc t) else parent (procs t ! j),
      pstate := if st t j = SLEEPING \<and> chan (procs t ! j) = Some (ChProc (initproc t))
          \<and> (\<exists>i\<in>S. parent (procs t ! i) = Some cur \<and> st t i = ZOMBIE)
        then RUNNABLE else st t j\<rparr>"

lemma reparent_spec:
  fixes t :: ptable
  assumes "distinct xs" "\<forall>i\<in>set xs. i < length (procs t)" "initproc t \<noteq> cur"
  shows "length (procs (reparent xs cur t)) = length (procs t)
    \<and> initproc (reparent xs cur t) = initproc t \<and> nextpid (reparent xs cur t) = nextpid t
    \<and> (\<forall>j<length (procs t). procs (reparent xs cur t) ! j = reparented (set xs) cur t j)"
  using assms
proof (induction xs arbitrary: t)
  case Nil
  then show ?case by (simp add: reparented_def)
next
  case (Cons i xs)
  define t1 where "t1 = upd i (\<lambda>p. p\<lparr>parent := Some (initproc t)\<rparr>) t"
  define t2 where "t2 = (if st t1 i = ZOMBIE then wakeup1 (Some (ChProc (initproc t))) t1 else t1)"
  have i: "i < length (procs t)" "i \<notin> set xs" using Cons.prems by auto
  have l1: "initproc t1 = initproc t" by (simp add: t1_def)
  have l2: "length (procs t2) = length (procs t)" "initproc t2 = initproc t" "nextpid t2 = nextpid t"
    by (simp_all add: t1_def t2_def)
  show ?case
  proof (cases "parent (procs t ! i) = Some cur")
    case False
    have "reparented (set xs) cur t j = reparented (set (i # xs)) cur t j" for j
      using False by (auto simp: reparented_def)
    moreover have "reparent (i # xs) cur t = reparent xs cur t" using False by simp
    ultimately show ?thesis using Cons.IH [of t] Cons.prems by auto
  next
    case True
    have e: "reparent (i # xs) cur t = reparent xs cur t2"
      using True by (simp add: Let_def t2_def t1_def)
    have n: "procs t2 ! l = (procs t ! l)\<lparr>parent := if l = i then Some (initproc t) else parent (procs t ! l),
        pstate := if st t i = ZOMBIE \<and> st t l = SLEEPING \<and> chan (procs t ! l) = Some (ChProc (initproc t))
          then RUNNABLE else st t l\<rparr>" if "l < length (procs t)" for l
      using that i(1) by (auto simp: t2_def t1_def wakeup1_nth upd_nth)
    have ex: "(\<exists>l\<in>set xs. parent (procs t2 ! l) = Some cur \<and> st t2 l = ZOMBIE)
        \<longleftrightarrow> (\<exists>l\<in>set xs. parent (procs t ! l) = Some cur \<and> st t l = ZOMBIE)"
    proof (rule bex_cong [OF refl])
      fix l assume "l \<in> set xs"
      then have "l < length (procs t)" "l \<noteq> i" using Cons.prems i by auto
      then show "(parent (procs t2 ! l) = Some cur \<and> st t2 l = ZOMBIE)
          = (parent (procs t ! l) = Some cur \<and> st t l = ZOMBIE)" by (simp add: n)
    qed
    have "reparented (set xs) cur t2 j = reparented (set (i # xs)) cur t j" if j: "j < length (procs t)" for j
    proof -
      let ?I = "Some (ChProc (initproc t))"
      have f: "parent (procs t2 ! j) = (if j = i then Some (initproc t) else parent (procs t ! j))"
        "st t2 j = (if st t i = ZOMBIE \<and> st t j = SLEEPING \<and> chan (procs t ! j) = ?I then RUNNABLE else st t j)"
        "chan (procs t2 ! j) = chan (procs t ! j)"
        "(procs t2 ! j)\<lparr>parent := A, pstate := B\<rparr> = (procs t ! j)\<lparr>parent := A, pstate := B\<rparr>" for A B
        by (simp_all only: n [OF j] proc.select_convs proc.update_convs) simp_all
      have A: "(if j \<in> set xs \<and> parent (procs t2 ! j) = Some cur then Some (initproc t) else parent (procs t2 ! j))
          = (if j \<in> set (i # xs) \<and> parent (procs t ! j) = Some cur then Some (initproc t) else parent (procs t ! j))"
        using True i Cons.prems(3) by (auto simp: f)
      have B: "(if st t2 j = SLEEPING \<and> chan (procs t2 ! j) = ?I
            \<and> (\<exists>l\<in>set xs. parent (procs t ! l) = Some cur \<and> st t l = ZOMBIE) then RUNNABLE else st t2 j)
          = (if st t j = SLEEPING \<and> chan (procs t ! j) = ?I
            \<and> (\<exists>l\<in>set (i # xs). parent (procs t ! l) = Some cur \<and> st t l = ZOMBIE) then RUNNABLE else st t j)"
        using True unfolding f(2,3) by (cases "st t i = ZOMBIE") simp_all
      show ?thesis unfolding reparented_def ex l2 A B f(4) ..
    qed
    moreover have "length (procs (reparent xs cur t2)) = length (procs t2)
        \<and> initproc (reparent xs cur t2) = initproc t2 \<and> nextpid (reparent xs cur t2) = nextpid t2
        \<and> (\<forall>j<length (procs t2). procs (reparent xs cur t2) ! j = reparented (set xs) cur t2 j)"
      by (rule Cons.IH) (use Cons.prems l2 in simp_all)
    ultimately show ?thesis unfolding e l2 by simp
  qed
qed

text \<open>The slots after \<open>exit\<close>.\<close>

lemma exit_zombie_spec:
  assumes "exit_zombie cur t = Inr t'" "cur < length (procs t)"
  shows "cur \<noteq> initproc t \<and> length (procs t') = length (procs t) \<and> initproc t' = initproc t \<and> nextpid t' = nextpid t
    \<and> (\<forall>j<length (procs t). procs t' ! j = (procs t ! j)
        \<lparr>parent := if parent (procs t ! j) = Some cur then Some (initproc t) else parent (procs t ! j),
         pstate := if j = cur then ZOMBIE
           else if st t j = SLEEPING \<and> (chan (procs t ! j) = map_option ChProc (parent (procs t ! cur))
             \<or> chan (procs t ! j) = Some (ChProc (initproc t))
               \<and> (\<exists>i<length (procs t). parent (procs t ! i) = Some cur \<and> st t i = ZOMBIE))
           then RUNNABLE else st t j\<rparr>)"
proof -
  define t1 where "t1 = wakeup1 (map_option ChProc (parent (procs t ! cur))) t"
  define t2 where "t2 = reparent [0..<length (procs t)] cur t1"
  have ne: "cur \<noteq> initproc t" using assms(1) by (auto simp: exit_zombie_def)
  have t': "t' = upd cur (\<lambda>p. p\<lparr>pstate := ZOMBIE\<rparr>) t2"
    using assms(1) ne by (simp add: exit_zombie_def Let_def t1_def t2_def)
  have l1: "length (procs t1) = length (procs t)" "initproc t1 = initproc t" "nextpid t1 = nextpid t"
    by (simp_all add: t1_def)
  have n1: "procs t1 ! j = (procs t ! j)\<lparr>pstate := if st t j = SLEEPING
      \<and> chan (procs t ! j) = map_option ChProc (parent (procs t ! cur)) then RUNNABLE else st t j\<rparr>"
    if "j < length (procs t)" for j
    using that by (simp add: t1_def wakeup1_nth)
  have ex: "(\<exists>i\<in>{0..<length (procs t)}. parent (procs t1 ! i) = Some cur \<and> st t1 i = ZOMBIE)
      \<longleftrightarrow> (\<exists>i<length (procs t). parent (procs t ! i) = Some cur \<and> st t i = ZOMBIE)"
  proof -
    have "(parent (procs t1 ! i) = Some cur \<and> st t1 i = ZOMBIE)
        = (parent (procs t ! i) = Some cur \<and> st t i = ZOMBIE)" if "i < length (procs t)" for i
      using that by (simp add: n1)
    then show ?thesis by auto
  qed
  have r: "length (procs t2) = length (procs t1) \<and> initproc t2 = initproc t1 \<and> nextpid t2 = nextpid t1
    \<and> (\<forall>j<length (procs t1). procs t2 ! j = reparented (set [0..<length (procs t)]) cur t1 j)"
    unfolding t2_def by (rule reparent_spec) (use l1 ne in simp_all)
  then have l2: "length (procs t2) = length (procs t)" "initproc t2 = initproc t" "nextpid t2 = nextpid t"
    using l1 by simp_all
  let ?Z = "\<exists>i<length (procs t). parent (procs t ! i) = Some cur \<and> st t i = ZOMBIE"
  let ?pc = "map_option ChProc (parent (procs t ! cur))"
  have n2: "procs t2 ! j = (procs t ! j)
        \<lparr>parent := if parent (procs t ! j) = Some cur then Some (initproc t) else parent (procs t ! j),
         pstate := if st t j = SLEEPING \<and> (chan (procs t ! j) = ?pc
             \<or> chan (procs t ! j) = Some (ChProc (initproc t)) \<and> ?Z)
           then RUNNABLE else st t j\<rparr>" if j: "j < length (procs t)" for j
  proof -
    have e: "procs t2 ! j = reparented {0..<length (procs t)} cur t1 j"
      using r j l1 by simp
    have f: "parent (procs t1 ! j) = parent (procs t ! j)" "chan (procs t1 ! j) = chan (procs t ! j)"
      "st t1 j = (if st t j = SLEEPING \<and> chan (procs t ! j) = ?pc then RUNNABLE else st t j)"
      "(procs t1 ! j)\<lparr>parent := A, pstate := B\<rparr> = (procs t ! j)\<lparr>parent := A, pstate := B\<rparr>" for A B
      by (simp_all only: n1 [OF j] proc.select_convs proc.update_convs) simp_all
    have B: "(if st t1 j = SLEEPING \<and> chan (procs t1 ! j) = Some (ChProc (initproc t)) \<and> ?Z then RUNNABLE else st t1 j)
        = (if st t j = SLEEPING \<and> (chan (procs t ! j) = ?pc
             \<or> chan (procs t ! j) = Some (ChProc (initproc t)) \<and> ?Z) then RUNNABLE else st t j)"
      by (auto simp: f)
    have A: "(if j \<in> {0..<length (procs t)} \<and> parent (procs t1 ! j) = Some cur then Some (initproc t) else parent (procs t1 ! j))
        = (if parent (procs t ! j) = Some cur then Some (initproc t) else parent (procs t ! j))"
      using j by (simp add: f)
    show ?thesis unfolding e reparented_def ex l1 A B f(4) ..
  qed
  have t'n: "procs t' ! j = (if j = cur then (procs t2 ! cur)\<lparr>pstate := ZOMBIE\<rparr> else procs t2 ! j)" for j
    unfolding t' using assms(2) l2 by (simp add: upd_nth)
  have "procs t' ! j = (procs t ! j)
        \<lparr>parent := if parent (procs t ! j) = Some cur then Some (initproc t) else parent (procs t ! j),
         pstate := if j = cur then ZOMBIE
           else if st t j = SLEEPING \<and> (chan (procs t ! j) = ?pc
             \<or> chan (procs t ! j) = Some (ChProc (initproc t)) \<and> ?Z)
           then RUNNABLE else st t j\<rparr>" if j: "j < length (procs t)" for j
    unfolding t'n by (cases "j = cur") (simp_all only: n2 [OF j] n2 [OF assms(2)] if_True if_False refl, simp)
  then show ?thesis using ne l2 by (simp add: t')
qed

section \<open>Invariants\<close>

definition alive :: "procstate \<Rightarrow> bool" where
  "alive s \<longleftrightarrow> s = SLEEPING \<or> s = RUNNABLE \<or> s = RUNNING"

lemma alive_simps [simp]: "alive SLEEPING" "alive RUNNABLE" "alive RUNNING"
  "\<not> alive UNUSED" "\<not> alive EMBRYO" "\<not> alive ZOMBIE"
  by (simp_all add: alive_def)

text \<open>The process tree: init lives, every parent lives, only init and unfinished forks have none.\<close>

definition tree_inv :: "ptable \<Rightarrow> bool" where
  "tree_inv t \<longleftrightarrow> length (procs t) = NPROC \<and> initproc t < NPROC \<and> alive (st t (initproc t))
     \<and> parent (procs t ! initproc t) = None
     \<and> (\<forall>i<NPROC. \<forall>q. parent (procs t ! i) = Some q \<longrightarrow> q < NPROC \<and> q \<noteq> i \<and> alive (st t q))
     \<and> (\<forall>i<NPROC. st t i = UNUSED \<longrightarrow> parent (procs t ! i) = None)
     \<and> (\<forall>i<NPROC. st t i \<noteq> UNUSED \<longrightarrow> st t i \<noteq> EMBRYO \<longrightarrow> i \<noteq> initproc t \<longrightarrow> parent (procs t ! i) \<noteq> None)"

definition pid_inv :: "ptable \<Rightarrow> bool" where
  "pid_inv t \<longleftrightarrow> 0 < nextpid t
     \<and> (\<forall>i<NPROC. st t i \<noteq> UNUSED \<longrightarrow> 0 < pid (procs t ! i) \<and> pid (procs t ! i) < nextpid t)
     \<and> (\<forall>i<NPROC. \<forall>j<NPROC. st t i \<noteq> UNUSED \<longrightarrow> st t j \<noteq> UNUSED \<longrightarrow>
          pid (procs t ! i) = pid (procs t ! j) \<longrightarrow> i = j)"

definition wait_inv :: "ptable \<Rightarrow> bool" where
  "wait_inv t \<longleftrightarrow> (\<forall>p<NPROC. st t p = SLEEPING \<longrightarrow> chan (procs t ! p) = Some (ChProc p) \<longrightarrow>
     (\<exists>i<NPROC. parent (procs t ! i) = Some p)
     \<and> (\<forall>i<NPROC. parent (procs t ! i) = Some p \<longrightarrow> st t i \<noteq> ZOMBIE))"

definition cpu_inv :: "psys \<Rightarrow> bool" where
  "cpu_inv s \<longleftrightarrow>
     (\<forall>c p. on_cpu s c = Some p \<longrightarrow> p < NPROC \<and> st (tab s) p = RUNNING)
     \<and> (\<forall>c d p. on_cpu s c = Some p \<longrightarrow> on_cpu s d = Some p \<longrightarrow> c = d)
     \<and> (\<forall>p<NPROC. st (tab s) p = RUNNING \<longrightarrow> (\<exists>c. on_cpu s c = Some p))"

definition fork_inv :: "psys \<Rightarrow> bool" where
  "fork_inv s \<longleftrightarrow>
     (\<forall>p i. forking s p = Some i \<longrightarrow> p < NPROC \<and> i < NPROC \<and> st (tab s) i = EMBRYO
        \<and> (parent (procs (tab s) ! i) = None \<or> parent (procs (tab s) ! i) = Some p)
        \<and> (st (tab s) p = RUNNING \<or> st (tab s) p = RUNNABLE))
     \<and> (\<forall>p q i. forking s p = Some i \<longrightarrow> forking s q = Some i \<longrightarrow> p = q)
     \<and> (\<forall>i<NPROC. st (tab s) i = EMBRYO \<longrightarrow> (\<exists>p. forking s p = Some i))"

text \<open>Steps that only move processes between the three states of living ones.\<close>

definition same_shape :: "ptable \<Rightarrow> ptable \<Rightarrow> bool" where
  "same_shape t t' \<longleftrightarrow> length (procs t') = length (procs t) \<and> initproc t' = initproc t \<and> nextpid t' = nextpid t
     \<and> (\<forall>i<length (procs t). parent (procs t' ! i) = parent (procs t ! i) \<and> pid (procs t' ! i) = pid (procs t ! i)
          \<and> (st t' i = st t i \<or> alive (st t' i) \<and> alive (st t i)))"

lemma same_shape_class:
  assumes "same_shape t t'" "i < length (procs t)"
  shows "alive (st t' i) = alive (st t i)" "st t' i = UNUSED \<longleftrightarrow> st t i = UNUSED"
    "st t' i = EMBRYO \<longleftrightarrow> st t i = EMBRYO" "st t' i = ZOMBIE \<longleftrightarrow> st t i = ZOMBIE"
    "parent (procs t' ! i) = parent (procs t ! i)" "pid (procs t' ! i) = pid (procs t ! i)"
  using assms unfolding same_shape_def by (auto simp: alive_def)

lemma tree_invD:
  assumes "tree_inv t"
  shows "length (procs t) = NPROC" "initproc t < NPROC" "alive (st t (initproc t))"
    "parent (procs t ! initproc t) = None"
    "\<And>j q. j < NPROC \<Longrightarrow> parent (procs t ! j) = Some q \<Longrightarrow> q < NPROC \<and> q \<noteq> j \<and> alive (st t q)"
    "\<And>j. j < NPROC \<Longrightarrow> st t j = UNUSED \<Longrightarrow> parent (procs t ! j) = None"
    "\<And>j. j < NPROC \<Longrightarrow> st t j \<noteq> UNUSED \<Longrightarrow> st t j \<noteq> EMBRYO \<Longrightarrow> j \<noteq> initproc t \<Longrightarrow> parent (procs t ! j) \<noteq> None"
  using assms unfolding tree_inv_def by blast+

lemma tree_inv_same: "same_shape t t' \<Longrightarrow> tree_inv t \<Longrightarrow> tree_inv t'"
proof -
  assume s: "same_shape t t'" and i: "tree_inv t"
  have l: "length (procs t) = NPROC" "length (procs t') = NPROC" "initproc t' = initproc t"
    using s i by (auto simp: same_shape_def tree_inv_def)
  note c = same_shape_class [OF s, unfolded l]
  show ?thesis using i l c unfolding tree_inv_def by metis
qed

lemma pid_inv_same: "same_shape t t' \<Longrightarrow> tree_inv t \<Longrightarrow> pid_inv t \<Longrightarrow> pid_inv t'"
proof -
  assume s: "same_shape t t'" and i: "tree_inv t" "pid_inv t"
  have l: "length (procs t) = NPROC" "nextpid t' = nextpid t"
    using s i by (auto simp: same_shape_def tree_inv_def)
  note c = same_shape_class [OF s, unfolded l]
  show ?thesis using i(2) l c unfolding pid_inv_def by metis
qed

text \<open>A wakeup can only help, and a process falls asleep in \<open>wait\<close> by itself.\<close>

lemma wait_inv_same:
  assumes s: "same_shape t t'" and i: "tree_inv t" "wait_inv t"
    and sl: "\<And>p. p < NPROC \<Longrightarrow> st t' p = SLEEPING \<Longrightarrow> chan (procs t' ! p) = Some (ChProc p) \<Longrightarrow>
      st t p = SLEEPING \<and> chan (procs t ! p) = Some (ChProc p)"
  shows "wait_inv t'"
proof -
  have l: "length (procs t) = NPROC" using i by (simp add: tree_inv_def)
  note c = same_shape_class [OF s, unfolded l]
  show ?thesis using i(2) c sl unfolding wait_inv_def by metis
qed

lemma fork_inv_same:
  assumes s: "same_shape (tab s1) (tab s2)" and i: "tree_inv (tab s1)" "fork_inv s1"
    and f: "forking s2 = forking s1"
    and r: "\<And>p i. forking s1 p = Some i \<Longrightarrow> st (tab s2) p = RUNNING \<or> st (tab s2) p = RUNNABLE"
  shows "fork_inv s2"
proof -
  have l: "length (procs (tab s1)) = NPROC" using i by (simp add: tree_inv_def)
  note c = same_shape_class [OF s, unfolded l]
  show ?thesis
    unfolding fork_inv_def f
  proof (intro conjI [rotated])
    show "\<forall>p q i. forking s1 p = Some i \<longrightarrow> forking s1 q = Some i \<longrightarrow> p = q"
      using i(2) unfolding fork_inv_def by blast
    show "\<forall>i<NPROC. st (tab s2) i = EMBRYO \<longrightarrow> (\<exists>p. forking s1 p = Some i)"
      using i(2) c(3) unfolding fork_inv_def by blast
    show "\<forall>p i. forking s1 p = Some i \<longrightarrow> p < NPROC \<and> i < NPROC \<and> st (tab s2) i = EMBRYO
        \<and> (parent (procs (tab s2) ! i) = None \<or> parent (procs (tab s2) ! i) = Some p)
        \<and> (st (tab s2) p = RUNNING \<or> st (tab s2) p = RUNNABLE)"
    proof (intro allI impI)
      fix p i' assume g: "forking s1 p = Some i'"
      then have h: "p < NPROC" "i' < NPROC" "st (tab s1) i' = EMBRYO"
        "parent (procs (tab s1) ! i') = None \<or> parent (procs (tab s1) ! i') = Some p"
        using i(2) unfolding fork_inv_def by blast+
      show "p < NPROC \<and> i' < NPROC \<and> st (tab s2) i' = EMBRYO
        \<and> (parent (procs (tab s2) ! i') = None \<or> parent (procs (tab s2) ! i') = Some p)
        \<and> (st (tab s2) p = RUNNING \<or> st (tab s2) p = RUNNABLE)"
        using h r [OF g] c(3) [OF h(2)] c(5) [OF h(2)] by simp
    qed
  qed
qed

definition proc_inv :: "psys \<Rightarrow> bool" where
  "proc_inv s \<longleftrightarrow> tree_inv (tab s) \<and> pid_inv (tab s) \<and> wait_inv (tab s) \<and> cpu_inv s \<and> fork_inv s"

lemma boot_slots:
  fixes pd :: u32 and root :: nat
  defines "t \<equiv> tab (psys_boot pd root)"
  shows "length (procs t) = NPROC" "initproc t = 0" "nextpid t = 2"
    "i < NPROC \<Longrightarrow> st t i = (if i = 0 then RUNNABLE else UNUSED)"
    "i < NPROC \<Longrightarrow> pid (procs t ! i) = (if i = 0 then 1 else 0)"
    "i < NPROC \<Longrightarrow> parent (procs t ! i) = None"
proof -
  have a: "first_index (\<lambda>p. pstate p = UNUSED) (procs ptable_zero) = Some 0"
    by (rule first_index_hit) (simp_all add: ptable_zero_def zero_proc_def NPROC_def)
  have l: "length (procs ptable_zero) = NPROC" "0 < NPROC" by (simp_all add: ptable_zero_def NPROC_def)
  have z: "procs ptable_zero ! j = zero_proc" if "j < NPROC" for j using that by (simp add: ptable_zero_def)
  show "length (procs t) = NPROC" "initproc t = 0" "nextpid t = 2"
    using a l by (simp_all add: t_def psys_boot_def first_proc_def allocproc_def set_runnable_def upd_def)
      (simp add: ptable_zero_def)
  have t: "procs t = (replicate NPROC zero_proc)[0 := procs t ! 0]"
    using a l by (simp add: t_def psys_boot_def first_proc_def allocproc_def set_runnable_def upd_def)
      (simp add: ptable_zero_def)
  have t0: "st t 0 = RUNNABLE" "pid (procs t ! 0) = 1" "parent (procs t ! 0) = None"
    using a l z [OF l(2)]
    by (simp_all add: t_def psys_boot_def first_proc_def allocproc_def set_runnable_def upd_def)
      (simp_all add: ptable_zero_def zero_proc_def)
  have ti: "procs t ! i = zero_proc" if "i < NPROC" "i \<noteq> 0" for i
  proof -
    have "procs t ! i = (replicate NPROC zero_proc)[0 := procs t ! 0] ! i" using t by metis
    then show ?thesis using that by simp
  qed
  show "st t i = (if i = 0 then RUNNABLE else UNUSED)" "pid (procs t ! i) = (if i = 0 then 1 else 0)"
    "parent (procs t ! i) = None" if "i < NPROC"
    using t0 ti [OF that] by (cases "i = 0"; simp add: zero_proc_def)+
qed

lemma proc_inv_boot: "proc_inv (psys_boot pd root)"
proof -
  note B = boot_slots [where pd = pd and root = root]
  have n: "on_cpu (psys_boot pd root) = (\<lambda>_. None)" "forking (psys_boot pd root) = (\<lambda>_. None)" "0 < NPROC"
    by (simp_all add: psys_boot_def NPROC_def)
  show ?thesis
    unfolding proc_inv_def
  proof (intro conjI)
    show "tree_inv (tab (psys_boot pd root))" unfolding tree_inv_def by (simp add: n B)
    show "pid_inv (tab (psys_boot pd root))" unfolding pid_inv_def by (simp add: n B)
    show "wait_inv (tab (psys_boot pd root))" unfolding wait_inv_def by (simp add: B)
    show "cpu_inv (psys_boot pd root)" unfolding cpu_inv_def by (simp add: n B)
    show "fork_inv (psys_boot pd root)" unfolding fork_inv_def by (simp add: n B)
  qed
qed

section \<open>Every step keeps the invariants\<close>

lemma len_tab: "tree_inv t \<Longrightarrow> length (procs t) = NPROC"
  by (simp add: tree_inv_def)

text \<open>Steps that move one running or runnable process.\<close>

lemma same_shape_upd:
  assumes "i < length (procs t)" "alive (st t i)" "alive (pstate (f (procs t ! i)))"
    "parent (f (procs t ! i)) = parent (procs t ! i)" "pid (f (procs t ! i)) = pid (procs t ! i)"
  shows "same_shape t (upd i f t)"
  using assms by (auto simp: same_shape_def upd_nth)

lemma same_shape_wakeup1: "same_shape t (wakeup1 ch t)"
  by (auto simp: same_shape_def wakeup1_nth)

lemma cpu_inv_drop:
  assumes i: "cpu_inv s" and c: "on_cpu s c = Some p"
    and t: "st t p \<noteq> RUNNING"
      "\<And>j. j < NPROC \<Longrightarrow> j \<noteq> p \<Longrightarrow> st t j = RUNNING \<longleftrightarrow> st (tab s) j = RUNNING"
    and s': "tab s' = t" "on_cpu s' = (on_cpu s)(c := None)"
  shows "cpu_inv s'"
proof -
  have other: "on_cpu s d = Some p \<Longrightarrow> d = c" for d using i(1) c unfolding cpu_inv_def by blast
  have on: "on_cpu s' d = Some q \<longleftrightarrow> d \<noteq> c \<and> on_cpu s d = Some q" for d q
    by (simp add: s')
  show ?thesis
    unfolding cpu_inv_def on s'(1)
  proof (intro conjI allI impI)
    fix d q assume q: "d \<noteq> c \<and> on_cpu s d = Some q"
    then show "q < NPROC" using i(1) unfolding cpu_inv_def by blast
    have "q \<noteq> p" using other q by blast
    then show "st t q = RUNNING" using q t(2) i(1) unfolding cpu_inv_def by blast
  next
    fix d e q assume "d \<noteq> c \<and> on_cpu s d = Some q" "e \<noteq> c \<and> on_cpu s e = Some q"
    then show "d = e" using i(1) unfolding cpu_inv_def by blast
  next
    fix q assume q: "q < NPROC" "st t q = RUNNING"
    then have "q \<noteq> p" using t(1) by auto
    then have "st (tab s) q = RUNNING" using t(2) q by blast
    then obtain d where d: "on_cpu s d = Some q" using i(1) q(1) unfolding cpu_inv_def by blast
    then have "d \<noteq> c" using c \<open>q \<noteq> p\<close> by auto
    then show "\<exists>d. d \<noteq> c \<and> on_cpu s d = Some q" using d by blast
  qed
qed

lemma cpu_inv_keep:
  assumes i: "cpu_inv s" and t: "\<And>j. j < NPROC \<Longrightarrow> st (tab s') j = RUNNING \<longleftrightarrow> st (tab s) j = RUNNING"
    and c: "on_cpu s' = on_cpu s"
  shows "cpu_inv s'"
  using i t unfolding cpu_inv_def c by blast

lemma cpuD: "cpu_inv s \<Longrightarrow> on_cpu s c = Some p \<Longrightarrow> p < NPROC \<and> st (tab s) p = RUNNING"
  unfolding cpu_inv_def by blast

lemma forkD: "fork_inv s \<Longrightarrow> forking s p = Some i \<Longrightarrow> p < NPROC \<and> i < NPROC \<and> st (tab s) i = EMBRYO
    \<and> (parent (procs (tab s) ! i) = None \<or> parent (procs (tab s) ! i) = Some p)
    \<and> (st (tab s) p = RUNNING \<or> st (tab s) p = RUNNABLE)"
  unfolding fork_inv_def by blast

lemma proc_invD:
  assumes "proc_inv s"
  shows "tree_inv (tab s)" "pid_inv (tab s)" "wait_inv (tab s)" "cpu_inv s" "fork_inv s"
    "length (procs (tab s)) = NPROC"
  using assms unfolding proc_inv_def tree_inv_def by blast+

lemma proc_inv_move:
  assumes i: "proc_inv s" and sh: "same_shape (tab s) (tab s')" and f: "forking s' = forking s"
    and w: "wait_inv (tab s')" and c: "cpu_inv s'"
    and r: "\<And>p i. forking s p = Some i \<Longrightarrow> st (tab s') p = RUNNING \<or> st (tab s') p = RUNNABLE"
  shows "proc_inv s'"
  using tree_inv_same [OF sh] pid_inv_same [OF sh] fork_inv_same [OF sh] proc_invD [OF i] w c r f
  by (simp add: proc_inv_def)

lemma fork_state: "fork_inv s \<Longrightarrow> forking s p = Some i \<Longrightarrow> st (tab s) p = RUNNING \<or> st (tab s) p = RUNNABLE"
  unfolding fork_inv_def by blast

lemma inv_sleep:
  assumes i: "proc_inv s" and c: "on_cpu s c = Some p" "forking s p = None"
    and w: "wait_inv (sleep p ch (tab s))"
  shows "proc_inv (s\<lparr>tab := sleep p ch (tab s), on_cpu := (on_cpu s)(c := None)\<rparr>)"
proof -
  note I = proc_invD [OF i]
  have p: "p < NPROC" "st (tab s) p = RUNNING" using cpuD [OF I(4) c(1)] by auto
  have n: "procs (sleep p ch (tab s)) ! j = (if j = p then (procs (tab s) ! p)\<lparr>chan := Some ch, pstate := SLEEPING\<rparr>
      else procs (tab s) ! j)" for j using p I(6) by (simp add: sleep_def upd_nth)
  show ?thesis
  proof (rule proc_inv_move [OF i])
    show "same_shape (tab s) (tab (s\<lparr>tab := sleep p ch (tab s), on_cpu := (on_cpu s)(c := None)\<rparr>))"
      unfolding sleep_def psys.select_convs psys.update_convs
      by (simp, rule same_shape_upd) (simp_all add: p I(6))
    show "cpu_inv (s\<lparr>tab := sleep p ch (tab s), on_cpu := (on_cpu s)(c := None)\<rparr>)"
      by (rule cpu_inv_drop [OF I(4) c(1), of "sleep p ch (tab s)"]) (simp_all add: n)
    fix q j assume f: "forking s q = Some j"
    then have "q \<noteq> p" using c(2) by auto
    then show "st (tab (s\<lparr>tab := sleep p ch (tab s), on_cpu := (on_cpu s)(c := None)\<rparr>)) q = RUNNING
        \<or> st (tab (s\<lparr>tab := sleep p ch (tab s), on_cpu := (on_cpu s)(c := None)\<rparr>)) q = RUNNABLE"
      using fork_state [OF I(5) f] by (simp add: n)
  qed (simp_all add: w)
qed

lemma inv_sleeps:
  assumes i: "proc_inv s" and c: "on_cpu s c = Some p" "forking s p = None" and ch: "\<forall>q. ch \<noteq> ChProc q"
  shows "proc_inv (s\<lparr>tab := sleep p ch (tab s), on_cpu := (on_cpu s)(c := None)\<rparr>)"
proof (rule inv_sleep [OF i c])
  note I = proc_invD [OF i]
  have p: "p < NPROC" "st (tab s) p = RUNNING" using cpuD [OF I(4) c(1)] by auto
  have n: "procs (sleep p ch (tab s)) ! j = (if j = p then (procs (tab s) ! p)\<lparr>chan := Some ch, pstate := SLEEPING\<rparr>
      else procs (tab s) ! j)" for j using p I(6) by (simp add: sleep_def upd_nth)
  have sh: "same_shape (tab s) (sleep p ch (tab s))"
    unfolding sleep_def by (rule same_shape_upd) (simp_all add: p I(6))
  show "wait_inv (sleep p ch (tab s))"
    by (rule wait_inv_same [OF sh I(1,3)]) (use ch in \<open>simp add: n split: if_splits\<close>)+
qed

lemma inv_wait_sleeps:
  assumes i: "proc_inv s" and c: "on_cpu s c = Some p" "forking s p = None"
    and w: "wait_scan p (tab s) = (WaitSleeps, t)"
  shows "proc_inv (s\<lparr>tab := t, on_cpu := (on_cpu s)(c := None)\<rparr>)"
proof -
  note I = proc_invD [OF i]
  have p: "p < NPROC" "st (tab s) p = RUNNING" using cpuD [OF I(4) c(1)] by auto
  from w have t: "t = sleep p (ChProc p) (tab s)"
    and no: "first_index (\<lambda>q. parent q = Some p \<and> pstate q = ZOMBIE) (procs (tab s)) = None"
    and kid: "\<exists>q\<in>set (procs (tab s)). parent q = Some p"
    by (auto simp: wait_scan_def split: option.splits if_splits)
  have n: "procs t ! j = (if j = p then (procs (tab s) ! p)\<lparr>chan := Some (ChProc p), pstate := SLEEPING\<rparr>
      else procs (tab s) ! j)" for j using p I(6) by (simp add: t sleep_def upd_nth)
  have z: "st (tab s) j \<noteq> ZOMBIE" if "j < NPROC" "parent (procs (tab s) ! j) = Some p" for j
    using no that I(6) nth_mem [of j "procs (tab s)"] by (auto simp: first_index_None)
  obtain k where k: "k < NPROC" "parent (procs (tab s) ! k) = Some p"
    using kid I(6) by (auto simp: in_set_conv_nth)
  have par: "parent (procs t ! j) = parent (procs (tab s) ! j)" for j by (simp add: n)
  have zz: "st t j = ZOMBIE \<Longrightarrow> st (tab s) j = ZOMBIE" for j by (simp add: n split: if_splits)
  have "wait_inv t"
    unfolding wait_inv_def
  proof (intro allI impI)
    fix q assume q: "q < NPROC" "st t q = SLEEPING" "chan (procs t ! q) = Some (ChProc q)"
    show "(\<exists>j<NPROC. parent (procs t ! j) = Some q) \<and> (\<forall>j<NPROC. parent (procs t ! j) = Some q \<longrightarrow> st t j \<noteq> ZOMBIE)"
    proof (cases "q = p")
      case True
      then show ?thesis using k z zz by (auto simp: par)
    next
      case False
      then have "st (tab s) q = SLEEPING" "chan (procs (tab s) ! q) = Some (ChProc q)" using q by (simp_all add: n)
      then have "(\<exists>j<NPROC. parent (procs (tab s) ! j) = Some q)
          \<and> (\<forall>j<NPROC. parent (procs (tab s) ! j) = Some q \<longrightarrow> st (tab s) j \<noteq> ZOMBIE)"
        using I(3) q(1) unfolding wait_inv_def by blast
      then show ?thesis using zz unfolding par by blast
    qed
  qed
  then show ?thesis using inv_sleep [OF i c] unfolding t by blast
qed

lemma inv_wakes:
  assumes i: "proc_inv s" shows "proc_inv (s\<lparr>tab := wakeup ch (tab s)\<rparr>)"
proof -
  note I = proc_invD [OF i]
  have n: "j < NPROC \<Longrightarrow> st (wakeup ch (tab s)) j = (if st (tab s) j = SLEEPING \<and> chan (procs (tab s) ! j) = Some ch
      then RUNNABLE else st (tab s) j) \<and> chan (procs (wakeup ch (tab s)) ! j) = chan (procs (tab s) ! j)" for j
    using I(6) by (simp add: wakeup_def wakeup1_nth)
  have sh: "same_shape (tab s) (wakeup ch (tab s))" unfolding wakeup_def by (rule same_shape_wakeup1)
  have w: "wait_inv (wakeup ch (tab s))"
    by (rule wait_inv_same [OF sh I(1,3)]) (use n in \<open>simp split: if_splits\<close>)+
  show ?thesis
  proof (rule proc_inv_move [OF i])
    show "cpu_inv (s\<lparr>tab := wakeup ch (tab s)\<rparr>)" by (rule cpu_inv_keep [OF I(4)]) (simp_all add: n)
    fix p j assume f: "forking s p = Some j"
    have "p < NPROC" using forkD [OF I(5) f] by blast
    then show "st (tab (s\<lparr>tab := wakeup ch (tab s)\<rparr>)) p = RUNNING \<or> st (tab (s\<lparr>tab := wakeup ch (tab s)\<rparr>)) p = RUNNABLE"
      using fork_state [OF I(5) f] n by simp
  qed (simp_all add: sh w)
qed

lemma inv_kills:
  assumes i: "proc_inv s" shows "proc_inv (s\<lparr>tab := snd (kill m (tab s))\<rparr>)"
proof (cases "first_index (\<lambda>p. pid p = m) (procs (tab s))")
  case None
  then show ?thesis using i by (simp add: kill_def)
next
  case (Some k)
  note I = proc_invD [OF i]
  define t where "t = snd (kill m (tab s))"
  have k: "k < NPROC" using Some I(6) by (auto dest: first_index_Some)
  have n: "procs t ! j = (if j = k then (procs (tab s) ! k)\<lparr>killed := True,
      pstate := if st (tab s) k = SLEEPING then RUNNABLE else st (tab s) k\<rparr> else procs (tab s) ! j)" for j
    using Some k I(6) by (simp add: t_def kill_def upd_nth)
  have len: "length (procs t) = NPROC" "initproc t = initproc (tab s)" "nextpid t = nextpid (tab s)"
    using Some I(6) by (simp_all add: t_def kill_def)
  have sh: "same_shape (tab s) t" by (simp add: same_shape_def len I(6) n)
  have w: "wait_inv t"
    by (rule wait_inv_same [OF sh I(1,3)]) (simp_all add: n split: if_splits)
  have "proc_inv (s\<lparr>tab := t\<rparr>)"
  proof (rule proc_inv_move [OF i])
    show "cpu_inv (s\<lparr>tab := t\<rparr>)" by (rule cpu_inv_keep [OF I(4)]) (simp_all add: n)
    fix p j assume f: "forking s p = Some j"
    show "st (tab (s\<lparr>tab := t\<rparr>)) p = RUNNING \<or> st (tab (s\<lparr>tab := t\<rparr>)) p = RUNNABLE"
      using fork_state [OF I(5) f] by (auto simp: n)
  qed (simp_all add: sh w)
  then show ?thesis by (simp add: t_def)
qed

lemma inv_yields:
  assumes i: "proc_inv s" and c: "on_cpu s c = Some p"
  shows "proc_inv (s\<lparr>tab := yield p (tab s), on_cpu := (on_cpu s)(c := None)\<rparr>)"
proof -
  note I = proc_invD [OF i]
  have p: "p < NPROC" "st (tab s) p = RUNNING" using cpuD [OF I(4) c] by auto
  have n: "procs (yield p (tab s)) ! j = (if j = p then (procs (tab s) ! p)\<lparr>pstate := RUNNABLE\<rparr>
      else procs (tab s) ! j)" for j using p I(6) by (simp add: yield_def upd_nth)
  have sh: "same_shape (tab s) (yield p (tab s))"
    unfolding yield_def by (rule same_shape_upd) (simp_all add: p I(6))
  have w: "wait_inv (yield p (tab s))"
    by (rule wait_inv_same [OF sh I(1,3)]) (simp_all add: n split: if_splits)
  show ?thesis
  proof (rule proc_inv_move [OF i])
    show "cpu_inv (s\<lparr>tab := yield p (tab s), on_cpu := (on_cpu s)(c := None)\<rparr>)"
      by (rule cpu_inv_drop [OF I(4) c, of "yield p (tab s)"]) (simp_all add: n)
    fix q j assume f: "forking s q = Some j"
    show "st (tab (s\<lparr>tab := yield p (tab s), on_cpu := (on_cpu s)(c := None)\<rparr>)) q = RUNNING
        \<or> st (tab (s\<lparr>tab := yield p (tab s), on_cpu := (on_cpu s)(c := None)\<rparr>)) q = RUNNABLE"
      using fork_state [OF I(5) f] by (simp add: n)
  qed (simp_all add: sh w)
qed

lemma inv_schedules:
  assumes i: "proc_inv s" and c: "on_cpu s c = None" and k: "k < length (procs (tab s))" "st (tab s) k = RUNNABLE"
  shows "proc_inv (s\<lparr>tab := run_proc k (tab s), on_cpu := (on_cpu s)(c := Some k)\<rparr>)"
proof -
  note I = proc_invD [OF i]
  have n: "procs (run_proc k (tab s)) ! j = (if j = k then (procs (tab s) ! k)\<lparr>pstate := RUNNING, chan := None\<rparr>
      else procs (tab s) ! j)" for j using k by (simp add: run_proc_def upd_nth)
  have sh: "same_shape (tab s) (run_proc k (tab s))"
    unfolding run_proc_def by (rule same_shape_upd) (simp_all add: k)
  have w: "wait_inv (run_proc k (tab s))"
    by (rule wait_inv_same [OF sh I(1,3)]) (simp_all add: n split: if_splits)
  have nr: "on_cpu s d \<noteq> Some k" for d using cpuD [OF I(4)] k(2) by fastforce
  define s' where "s' = s\<lparr>tab := run_proc k (tab s), on_cpu := (on_cpu s)(c := Some k)\<rparr>"
  have tb: "tab s' = run_proc k (tab s)" by (simp add: s'_def)
  have on: "on_cpu s' d = Some q \<longleftrightarrow> d = c \<and> q = k \<or> d \<noteq> c \<and> on_cpu s d = Some q" for d q
    by (auto simp: s'_def)
  have "cpu_inv s'"
    unfolding cpu_inv_def tb on
  proof (intro conjI allI impI)
    fix d q assume "d = c \<and> q = k \<or> d \<noteq> c \<and> on_cpu s d = Some q"
    then have *: "q = k \<or> on_cpu s d = Some q" by blast
    then show "q < NPROC" using cpuD [OF I(4)] k(1) I(6) by auto
    show "st (run_proc k (tab s)) q = RUNNING" using * cpuD [OF I(4)] by (auto simp: n)
  next
    fix d e q assume "d = c \<and> q = k \<or> d \<noteq> c \<and> on_cpu s d = Some q" "e = c \<and> q = k \<or> e \<noteq> c \<and> on_cpu s e = Some q"
    then show "d = e" using nr I(4) unfolding cpu_inv_def by blast
  next
    fix q assume q: "q < NPROC" "st (run_proc k (tab s)) q = RUNNING"
    show "\<exists>d. d = c \<and> q = k \<or> d \<noteq> c \<and> on_cpu s d = Some q"
    proof (cases "q = k")
      case False
      then have "st (tab s) q = RUNNING" using q(2) by (simp add: n)
      then obtain d where d: "on_cpu s d = Some q" using I(4) q(1) unfolding cpu_inv_def by blast
      then show ?thesis using c by (intro exI [of _ d]) auto
    qed blast
  qed
  then have cp: "cpu_inv (s\<lparr>tab := run_proc k (tab s), on_cpu := (on_cpu s)(c := Some k)\<rparr>)" by (simp add: s'_def)
  show ?thesis
  proof (rule proc_inv_move [OF i])
    fix q j assume f: "forking s q = Some j"
    show "st (tab (s\<lparr>tab := run_proc k (tab s), on_cpu := (on_cpu s)(c := Some k)\<rparr>)) q = RUNNING
        \<or> st (tab (s\<lparr>tab := run_proc k (tab s), on_cpu := (on_cpu s)(c := Some k)\<rparr>)) q = RUNNABLE"
      using fork_state [OF I(5) f] by (simp add: n)
  qed (simp_all add: sh w cp)
qed

text \<open>Steps that change one slot, which is not a living process.\<close>

definition slot_change :: "nat \<Rightarrow> ptable \<Rightarrow> ptable \<Rightarrow> bool" where
  "slot_change k t t' \<longleftrightarrow> k < NPROC \<and> \<not> alive (st t k) \<and> st t' k \<noteq> RUNNING \<and> st t' k \<noteq> SLEEPING \<and> st t' k \<noteq> ZOMBIE
     \<and> length (procs t') = length (procs t) \<and> initproc t' = initproc t
     \<and> (\<forall>j. j \<noteq> k \<longrightarrow> procs t' ! j = procs t ! j)"

lemma slot_change_upd:
  assumes "k < NPROC" "length (procs t) = NPROC" "\<not> alive (st t k)"
    "pstate (f (procs t ! k)) \<in> {UNUSED, EMBRYO, RUNNABLE}"
  shows "slot_change k t (upd k f t)"
  using assms by (auto simp: slot_change_def upd_nth)

lemma tree_inv_slot:
  assumes c: "slot_change k t t'" and i: "tree_inv t"
    and n: "\<And>q. parent (procs t' ! k) = Some q \<Longrightarrow> q < NPROC \<and> alive (st t q)"
      "st t' k = UNUSED \<Longrightarrow> parent (procs t' ! k) = None" "st t' k = RUNNABLE \<Longrightarrow> parent (procs t' ! k) \<noteq> None"
  shows "tree_inv t'"
proof -
  have c': "k < NPROC" "\<not> alive (st t k)" "length (procs t') = length (procs t)" "initproc t' = initproc t"
    "\<And>j. j \<noteq> k \<Longrightarrow> procs t' ! j = procs t ! j" "st t' k \<noteq> RUNNING" "st t' k \<noteq> SLEEPING" "st t' k \<noteq> ZOMBIE"
    using c unfolding slot_change_def by blast+
  note I = tree_invD [OF i]
  have al: "alive (st t q) \<Longrightarrow> alive (st t' q)" for q using c'(2,5) by (cases "q = k") auto
  have k: "st t' k = UNUSED \<or> st t' k = EMBRYO \<or> st t' k = RUNNABLE" using c'(6-8) by (cases "st t' k") auto
  show ?thesis
    unfolding tree_inv_def
  proof (intro conjI allI impI)
    show "length (procs t') = NPROC" "initproc t' < NPROC" "alive (st t' (initproc t'))"
      using I al c'(3,4) by auto
    show "parent (procs t' ! initproc t') = None"
      using I(3,4) c'(2) c'(5) [of "initproc t"] unfolding c'(4) by (cases "initproc t = k") auto
    fix j q assume "j < NPROC" "parent (procs t' ! j) = Some q"
    then have "q < NPROC \<and> q \<noteq> j \<and> alive (st t q)"
      using I(5) [of j q] n(1) [of q] c'(2) c'(5) [of j] by (cases "j = k") auto
    then show "q < NPROC" "q \<noteq> j" "alive (st t' q)" using al by auto
  next
    fix j assume "j < NPROC" "st t' j = UNUSED"
    then show "parent (procs t' ! j) = None"
      using I(6) [of j] n(2) c'(5) [of j] by (cases "j = k") auto
  next
    fix j assume "j < NPROC" "st t' j \<noteq> UNUSED" "st t' j \<noteq> EMBRYO" "j \<noteq> initproc t'"
    then show "parent (procs t' ! j) \<noteq> None"
      using I(7) [of j] n(3) c'(4) c'(5) [of j] k by (cases "j = k") auto
  qed
qed

lemma pid_inv_slot:
  assumes c: "slot_change k t t'" and i: "pid_inv t" and n: "nextpid t \<le> nextpid t'"
    "st t' k \<noteq> UNUSED \<Longrightarrow> st t k \<noteq> UNUSED \<and> pid (procs t' ! k) = pid (procs t ! k)
       \<or> pid (procs t' ! k) = nextpid t \<and> nextpid t < nextpid t'"
  shows "pid_inv t'"
proof -
  have c': "\<And>j. j \<noteq> k \<Longrightarrow> procs t' ! j = procs t ! j" "k < NPROC"
    using c unfolding slot_change_def by blast+
  have P: "st t j \<noteq> UNUSED \<Longrightarrow> j < NPROC \<Longrightarrow> 0 < pid (procs t ! j) \<and> pid (procs t ! j) < nextpid t" for j
    using i unfolding pid_inv_def by blast
  have np: "0 < nextpid t" using i unfolding pid_inv_def by blast
  show ?thesis
    unfolding pid_inv_def
  proof (intro conjI allI impI)
    show "0 < nextpid t'" using np n(1) by simp
    fix j assume j: "j < NPROC" "st t' j \<noteq> UNUSED"
    have "0 < pid (procs t' ! j) \<and> pid (procs t' ! j) < nextpid t'"
      using j P [of j] n np c'(1) [of j] by (cases "j = k") auto
    then show "0 < pid (procs t' ! j)" "pid (procs t' ! j) < nextpid t'" by auto
  next
    fix j l assume jl: "j < NPROC" "l < NPROC" "st t' j \<noteq> UNUSED" "st t' l \<noteq> UNUSED"
      "pid (procs t' ! j) = pid (procs t' ! l)"
    have uni: "st t a \<noteq> UNUSED \<Longrightarrow> st t b \<noteq> UNUSED \<Longrightarrow> a < NPROC \<Longrightarrow> b < NPROC \<Longrightarrow>
        pid (procs t ! a) = pid (procs t ! b) \<Longrightarrow> a = b" for a b
      using i unfolding pid_inv_def by blast
    have other: "False" if "b \<noteq> k" "b < NPROC" "st t' b \<noteq> UNUSED" "st t' k \<noteq> UNUSED"
        "pid (procs t' ! b) = pid (procs t' ! k)" for b
    proof -
      have b: "st t b \<noteq> UNUSED" "pid (procs t ! b) = pid (procs t' ! k)" using that c'(1) [of b] by auto
      show False using n(2) [OF that(4)] b uni [of b k] P [of b] that(1,2) c'(2) by auto
    qed
    show "j = l"
    proof (cases "j = k \<or> l = k")
      case True
      then show ?thesis using other [of j] other [of l] jl by metis
    next
      case False
      then show ?thesis using uni jl c'(1) by metis
    qed
  qed
qed

lemma wait_inv_slot:
  assumes c: "slot_change k t t'" and i: "wait_inv t"
    and n: "\<And>q. parent (procs t ! k) = Some q \<Longrightarrow> st t q \<noteq> SLEEPING \<or> parent (procs t' ! k) = Some q"
  shows "wait_inv t'"
  unfolding wait_inv_def
proof (intro allI impI)
  have c': "\<And>j. j \<noteq> k \<Longrightarrow> procs t' ! j = procs t ! j" "k < NPROC" "st t' k \<noteq> SLEEPING" "st t' k \<noteq> ZOMBIE"
    using c unfolding slot_change_def by blast+
  fix p assume p: "p < NPROC" "st t' p = SLEEPING" "chan (procs t' ! p) = Some (ChProc p)"
  then have "p \<noteq> k" using c'(3) by auto
  then have s: "st t p = SLEEPING" "chan (procs t ! p) = Some (ChProc p)" using p c'(1) by auto
  obtain a where a: "a < NPROC" "parent (procs t ! a) = Some p"
    and z: "\<And>b. b < NPROC \<Longrightarrow> parent (procs t ! b) = Some p \<Longrightarrow> st t b \<noteq> ZOMBIE"
    using i p(1) s unfolding wait_inv_def by blast
  have "parent (procs t' ! a) = Some p" using a n [of p] s(1) c'(1) by (cases "a = k") auto
  moreover have "parent (procs t' ! b) = Some p \<Longrightarrow> b < NPROC \<Longrightarrow> st t' b \<noteq> ZOMBIE" for b
    using z [of b] c'(1) [of b] c'(4) by (cases "b = k") auto
  ultimately show "(\<exists>b<NPROC. parent (procs t' ! b) = Some p) \<and> (\<forall>b<NPROC. parent (procs t' ! b) = Some p \<longrightarrow> st t' b \<noteq> ZOMBIE)"
    using a(1) by blast
qed

lemma cpu_inv_slot:
  assumes c: "slot_change k (tab s) (tab s')" and i: "cpu_inv s" and o: "on_cpu s' = on_cpu s"
  shows "cpu_inv s'"
proof (rule cpu_inv_keep [OF i _ o])
  fix j assume "j < NPROC"
  show "st (tab s') j = RUNNING \<longleftrightarrow> st (tab s) j = RUNNING"
    using c unfolding slot_change_def by (cases "j = k") auto
qed

lemma inv_fork_alloc:
  assumes i: "proc_inv s" and c: "on_cpu s c = Some p" "forking s p = None"
    and a: "allocproc (tab s) = Some (k, t)"
  shows "proc_inv (s\<lparr>tab := t, forking := (forking s)(p := Some k)\<rparr>)"
proof -
  note I = proc_invD [OF i]
  have p: "p < NPROC" "st (tab s) p = RUNNING" using cpuD [OF I(4) c(1)] by auto
  have fi: "first_index (\<lambda>p. pstate p = UNUSED) (procs (tab s)) = Some k"
    using a by (auto simp: allocproc_def split: option.splits)
  then have k: "k < NPROC" "st (tab s) k = UNUSED" using first_index_Some [OF fi] I(6) by auto
  have par: "parent (procs (tab s) ! k) = None" using I(1) k unfolding tree_inv_def by blast
  have n: "procs t ! j = (if j = k then (procs (tab s) ! k)\<lparr>pstate := EMBRYO, pid := nextpid (tab s),
      alarm_interval := 0, alarm_ticks := 0, alarm_handler := 0, alarm_in_handler := False, alarm_tf := None\<rparr>
      else procs (tab s) ! j)" for j
    using a fi k I(6) by (auto simp: allocproc_def upd_nth)
  have t: "length (procs t) = length (procs (tab s))" "initproc t = initproc (tab s)" "nextpid t = nextpid (tab s) + 1"
    using a fi by (auto simp: allocproc_def)
  have sc: "slot_change k (tab s) t" using k t by (simp add: slot_change_def n)
  define s' where "s' = s\<lparr>tab := t, forking := (forking s)(p := Some k)\<rparr>"
  have s': "tab s' = t" "on_cpu s' = on_cpu s"
    "\<And>q l. forking s' q = Some l \<longleftrightarrow> q = p \<and> l = k \<or> q \<noteq> p \<and> forking s q = Some l" by (auto simp: s'_def)
  have "fork_inv s'"
    unfolding fork_inv_def s'
  proof (intro conjI allI impI)
    fix q l assume "q = p \<and> l = k \<or> q \<noteq> p \<and> forking s q = Some l"
    then have "q < NPROC \<and> l < NPROC \<and> st t l = EMBRYO
      \<and> (parent (procs t ! l) = None \<or> parent (procs t ! l) = Some q) \<and> (st t q = RUNNING \<or> st t q = RUNNABLE)"
    proof
      assume "q = p \<and> l = k"
      then show ?thesis using p k par by (auto simp: n)
    next
      assume "q \<noteq> p \<and> forking s q = Some l"
      then show ?thesis using forkD [OF I(5), of q l] k by (auto simp: n)
    qed
    then show "q < NPROC" "l < NPROC" "st t l = EMBRYO"
      "parent (procs t ! l) = None \<or> parent (procs t ! l) = Some q" "st t q = RUNNING \<or> st t q = RUNNABLE" by auto
  next
    fix q r l assume *: "q = p \<and> l = k \<or> q \<noteq> p \<and> forking s q = Some l" "r = p \<and> l = k \<or> r \<noteq> p \<and> forking s r = Some l"
    have nk: "forking s u \<noteq> Some k" for u using forkD [OF I(5), of u k] k by auto
    show "q = r" using * nk I(5) unfolding fork_inv_def by blast
  next
    fix l assume l: "l < NPROC" "st t l = EMBRYO"
    show "\<exists>q. q = p \<and> l = k \<or> q \<noteq> p \<and> forking s q = Some l"
    proof (cases "l = k")
      case False
      then have "st (tab s) l = EMBRYO" using l by (simp add: n)
      then obtain q where "forking s q = Some l" using I(5) l(1) unfolding fork_inv_def by blast
      then show ?thesis using c(2) by (intro exI [of _ q]) auto
    qed blast
  qed
  moreover have "tree_inv t" by (rule tree_inv_slot [OF sc I(1)]) (simp_all add: n par)
  moreover have "pid_inv t" by (rule pid_inv_slot [OF sc I(2)]) (simp_all add: n t)
  moreover have "wait_inv t" by (rule wait_inv_slot [OF sc I(3)]) (simp add: par)
  moreover have "cpu_inv s'" by (rule cpu_inv_slot [of k s]) (simp_all add: s' sc I(4))
  ultimately show ?thesis unfolding proc_inv_def s'_def [symmetric] by (simp add: s')
qed

text \<open>The three steps of a \<open>fork\<close> that has its slot.\<close>

lemma fork_slot:
  assumes i: "proc_inv s" and c: "on_cpu s c = Some p" and f: "forking s p = Some k"
  shows "p < NPROC" "st (tab s) p = RUNNING" "k < NPROC" "st (tab s) k = EMBRYO" "p \<noteq> k"
    "parent (procs (tab s) ! k) = None \<or> parent (procs (tab s) ! k) = Some p"
  using cpuD [OF proc_invD(4) [OF i] c] forkD [OF proc_invD(5) [OF i] f] by auto

lemma fork_inv_end:
  assumes i: "proc_inv s" and f: "forking s p = Some k" and sc: "slot_change k (tab s) (tab s')"
    and n: "st (tab s') k \<noteq> EMBRYO" and s': "forking s' = (forking s)(p := None)"
  shows "fork_inv s'"
proof -
  note I = proc_invD [OF i]
  have fk: "\<And>q l. forking s' q = Some l \<longleftrightarrow> q \<noteq> p \<and> forking s q = Some l" by (auto simp: s')
  have c: "\<And>j. j \<noteq> k \<Longrightarrow> procs (tab s') ! j = procs (tab s) ! j" using sc unfolding slot_change_def by blast
  have uniq: "forking s q = Some k \<Longrightarrow> q = p" for q using I(5) f unfolding fork_inv_def by blast
  show ?thesis
    unfolding fork_inv_def fk
  proof (intro conjI [rotated] allI impI)
    fix q l assume g: "q \<noteq> p \<and> forking s q = Some l"
    then have "l \<noteq> k" using uniq by auto
    moreover have "q \<noteq> k"
    proof
      assume "q = k"
      then have "st (tab s) k = RUNNING \<or> st (tab s) k = RUNNABLE" using g fork_state [OF I(5)] by blast
      moreover have "st (tab s) k = EMBRYO" using forkD [OF I(5) f] by blast
      ultimately show False by simp
    qed
    ultimately show "q < NPROC" "l < NPROC" "st (tab s') l = EMBRYO"
      "parent (procs (tab s') ! l) = None \<or> parent (procs (tab s') ! l) = Some q"
      "st (tab s') q = RUNNING \<or> st (tab s') q = RUNNABLE"
      using forkD [OF I(5), of q l] g c by auto
  next
    fix q r l assume "q \<noteq> p \<and> forking s q = Some l" "r \<noteq> p \<and> forking s r = Some l"
    then show "q = r" using I(5) unfolding fork_inv_def by blast
  next
    fix l assume l: "l < NPROC" "st (tab s') l = EMBRYO"
    then have "l \<noteq> k" using n by auto
    then have "st (tab s) l = EMBRYO" using l c by simp
    then obtain q where q: "forking s q = Some l" using I(5) l(1) unfolding fork_inv_def by blast
    then have "q \<noteq> p" using f \<open>l \<noteq> k\<close> by auto
    then show "\<exists>q. q \<noteq> p \<and> forking s q = Some l" using q by blast
  qed
qed

lemma inv_fork_fail:
  assumes i: "proc_inv s" and c: "on_cpu s c = Some p" and f: "forking s p = Some k"
    and par: "parent (procs (tab s) ! k) = None"
  shows "proc_inv (s\<lparr>tab := alloc_failed k (tab s), forking := (forking s)(p := None)\<rparr>)"
proof -
  note I = proc_invD [OF i] and F = fork_slot [OF i c f]
  have n: "procs (alloc_failed k (tab s)) ! k = (procs (tab s) ! k)\<lparr>kstack := 0, pstate := UNUSED\<rparr>"
    using F I(6) by (simp add: alloc_failed_def upd_nth)
  have sc: "slot_change k (tab s) (alloc_failed k (tab s))"
    unfolding alloc_failed_def by (rule slot_change_upd) (simp_all add: F I(6))
  have np: "nextpid (alloc_failed k (tab s)) = nextpid (tab s)" by (simp add: alloc_failed_def)
  have "fork_inv (s\<lparr>tab := alloc_failed k (tab s), forking := (forking s)(p := None)\<rparr>)"
    by (rule fork_inv_end [OF i f]) (simp_all add: sc n)
  moreover have "tree_inv (alloc_failed k (tab s))" by (rule tree_inv_slot [OF sc I(1)]) (simp_all add: n par)
  moreover have "pid_inv (alloc_failed k (tab s))" by (rule pid_inv_slot [OF sc I(2)]) (simp_all add: n np)
  moreover have "wait_inv (alloc_failed k (tab s))" by (rule wait_inv_slot [OF sc I(3)]) (simp add: par)
  moreover have "cpu_inv (s\<lparr>tab := alloc_failed k (tab s), forking := (forking s)(p := None)\<rparr>)"
    by (rule cpu_inv_slot [of k s]) (simp_all add: sc I(4))
  ultimately show ?thesis by (simp add: proc_inv_def)
qed

lemma inv_fork_done:
  assumes i: "proc_inv s" and c: "on_cpu s c = Some p" and f: "forking s p = Some k"
    and par: "parent (procs (tab s) ! k) = Some p"
  shows "proc_inv (s\<lparr>tab := set_runnable k (tab s), forking := (forking s)(p := None)\<rparr>)"
proof -
  note I = proc_invD [OF i] and F = fork_slot [OF i c f]
  have n: "procs (set_runnable k (tab s)) ! k = (procs (tab s) ! k)\<lparr>pstate := RUNNABLE\<rparr>"
    using F I(6) by (simp add: set_runnable_def upd_nth)
  have sc: "slot_change k (tab s) (set_runnable k (tab s))"
    unfolding set_runnable_def by (rule slot_change_upd) (simp_all add: F I(6))
  have np: "nextpid (set_runnable k (tab s)) = nextpid (tab s)" by (simp add: set_runnable_def)
  have "fork_inv (s\<lparr>tab := set_runnable k (tab s), forking := (forking s)(p := None)\<rparr>)"
    by (rule fork_inv_end [OF i f]) (simp_all add: sc n)
  moreover have "tree_inv (set_runnable k (tab s))"
    by (rule tree_inv_slot [OF sc I(1)]) (use F in \<open>simp_all add: n par\<close>)
  moreover have "pid_inv (set_runnable k (tab s))" by (rule pid_inv_slot [OF sc I(2)]) (simp_all add: n np F)
  moreover have "wait_inv (set_runnable k (tab s))" by (rule wait_inv_slot [OF sc I(3)]) (simp add: n)
  moreover have "cpu_inv (s\<lparr>tab := set_runnable k (tab s), forking := (forking s)(p := None)\<rparr>)"
    by (rule cpu_inv_slot [of k s]) (simp_all add: sc I(4))
  ultimately show ?thesis by (simp add: proc_inv_def)
qed

lemma inv_fork_set:
  assumes i: "proc_inv s" and c: "on_cpu s c = Some p" and f: "forking s p = Some k"
  shows "proc_inv (s\<lparr>tab := fork_parent p k (tab s)\<rparr>)"
proof -
  note I = proc_invD [OF i] and F = fork_slot [OF i c f]
  let ?t = "fork_parent p k (tab s)"
  have n: "st ?t k = EMBRYO" "parent (procs ?t ! k) = Some p" "pid (procs ?t ! k) = pid (procs (tab s) ! k)"
    using F I(6) by (simp_all add: fork_parent_def upd_nth)
  have sc: "slot_change k (tab s) ?t"
    unfolding fork_parent_def by (rule slot_change_upd) (simp_all add: F I(6))
  have ot: "\<And>j. j \<noteq> k \<Longrightarrow> procs ?t ! j = procs (tab s) ! j" using sc unfolding slot_change_def by blast
  have np: "nextpid ?t = nextpid (tab s)" by (simp add: fork_parent_def)
  have "fork_inv (s\<lparr>tab := ?t\<rparr>)"
    unfolding fork_inv_def psys.select_convs psys.update_convs
  proof (intro conjI [rotated] allI impI)
    fix q l assume g: "forking (s\<lparr>tab := ?t\<rparr>) q = Some l"
    then have D: "q < NPROC \<and> l < NPROC \<and> st (tab s) l = EMBRYO
        \<and> (parent (procs (tab s) ! l) = None \<or> parent (procs (tab s) ! l) = Some q)
        \<and> (st (tab s) q = RUNNING \<or> st (tab s) q = RUNNABLE)" using forkD [OF I(5), of q l] by simp
    have lk: "l = k \<Longrightarrow> q = p" using I(5) f g unfolding fork_inv_def by simp
    have "q \<noteq> k" using D F(4) by auto
    then show "q < NPROC" "l < NPROC" "st (tab (s\<lparr>tab := ?t\<rparr>)) l = EMBRYO"
      "parent (procs (tab (s\<lparr>tab := ?t\<rparr>)) ! l) = None \<or> parent (procs (tab (s\<lparr>tab := ?t\<rparr>)) ! l) = Some q"
      "st (tab (s\<lparr>tab := ?t\<rparr>)) q = RUNNING \<or> st (tab (s\<lparr>tab := ?t\<rparr>)) q = RUNNABLE"
      using D lk n ot by (cases "l = k"; simp)+
  next
    fix q r l assume "forking (s\<lparr>tab := ?t\<rparr>) q = Some l" "forking (s\<lparr>tab := ?t\<rparr>) r = Some l"
    then show "q = r" using I(5) unfolding fork_inv_def by simp
  next
    fix l assume "l < NPROC" "st (tab (s\<lparr>tab := ?t\<rparr>)) l = EMBRYO"
    then have "st (tab s) l = EMBRYO" using F(4) ot by (cases "l = k") simp_all
    then show "\<exists>q. forking (s\<lparr>tab := ?t\<rparr>) q = Some l"
      using I(5) \<open>l < NPROC\<close> unfolding fork_inv_def by simp
  qed
  moreover have "tree_inv ?t" by (rule tree_inv_slot [OF sc I(1)]) (use F in \<open>simp_all add: n\<close>)
  moreover have "pid_inv ?t" by (rule pid_inv_slot [OF sc I(2)]) (simp_all add: n np F)
  moreover have "wait_inv ?t" by (rule wait_inv_slot [OF sc I(3)]) (use F in \<open>auto simp: n\<close>)
  moreover have "cpu_inv (s\<lparr>tab := ?t\<rparr>)" by (rule cpu_inv_slot [of k s]) (simp_all add: sc I(4))
  ultimately show ?thesis by (simp add: proc_inv_def)
qed

lemma wait_scan_reaped:
  assumes "wait_scan p t = (Reaped n k, t')"
  shows "k < length (procs t)" "st t k = ZOMBIE" "parent (procs t ! k) = Some p" "n = pid (procs t ! k)"
    "t' = upd k (\<lambda>p. p\<lparr>kstack := 0, pid := 0, parent := None, pname := [], killed := False,
       pstate := UNUSED\<rparr>) t"
proof -
  have fi: "first_index (\<lambda>q. parent q = Some p \<and> pstate q = ZOMBIE) (procs t) = Some k"
    using assms by (auto simp: wait_scan_def split: option.splits if_splits)
  then show "k < length (procs t)" "st t k = ZOMBIE" "parent (procs t ! k) = Some p"
    using first_index_Some [OF fi] by auto
  show "n = pid (procs t ! k)" "t' = upd k (\<lambda>p. p\<lparr>kstack := 0, pid := 0, parent := None, pname := [],
      killed := False, pstate := UNUSED\<rparr>) t"
    using assms fi by (auto simp: wait_scan_def)
qed

lemma inv_wait_returns:
  assumes i: "proc_inv s" and c: "on_cpu s c = Some p"
    and w: "wait_scan p (tab s) = (r, t)" "r \<noteq> WaitSleeps"
  shows "proc_inv (s\<lparr>tab := t\<rparr>)"
proof (cases r)
  case (Reaped m k)
  note I = proc_invD [OF i] and W = wait_scan_reaped [OF w(1) [unfolded Reaped]]
  have p: "p < NPROC" "st (tab s) p = RUNNING" using cpuD [OF I(4) c] by auto
  have k: "k < NPROC" using W(1) I(6) by simp
  have n: "st t k = UNUSED" "parent (procs t ! k) = None" "nextpid t = nextpid (tab s)"
    using W(1) unfolding W(5) by (simp_all add: upd_nth)
  have sc: "slot_change k (tab s) t"
    unfolding W(5) by (rule slot_change_upd) (simp_all add: k I(6) W(2))
  have ot: "\<And>j. j \<noteq> k \<Longrightarrow> procs t ! j = procs (tab s) ! j" using sc unfolding slot_change_def by blast
  have "fork_inv (s\<lparr>tab := t\<rparr>)"
    unfolding fork_inv_def psys.select_convs psys.update_convs
  proof (intro conjI [rotated] allI impI)
    fix q l assume g: "forking (s\<lparr>tab := t\<rparr>) q = Some l"
    then have D: "q < NPROC \<and> l < NPROC \<and> st (tab s) l = EMBRYO
        \<and> (parent (procs (tab s) ! l) = None \<or> parent (procs (tab s) ! l) = Some q)
        \<and> (st (tab s) q = RUNNING \<or> st (tab s) q = RUNNABLE)" using forkD [OF I(5), of q l] by simp
    have "q \<noteq> k" "l \<noteq> k" using D W(2) by auto
    then show "q < NPROC" "l < NPROC" "st (tab (s\<lparr>tab := t\<rparr>)) l = EMBRYO"
      "parent (procs (tab (s\<lparr>tab := t\<rparr>)) ! l) = None \<or> parent (procs (tab (s\<lparr>tab := t\<rparr>)) ! l) = Some q"
      "st (tab (s\<lparr>tab := t\<rparr>)) q = RUNNING \<or> st (tab (s\<lparr>tab := t\<rparr>)) q = RUNNABLE"
      using D ot by simp_all
  next
    fix q r l assume "forking (s\<lparr>tab := t\<rparr>) q = Some l" "forking (s\<lparr>tab := t\<rparr>) r = Some l"
    then show "q = r" using I(5) unfolding fork_inv_def by simp
  next
    fix l assume "l < NPROC" "st (tab (s\<lparr>tab := t\<rparr>)) l = EMBRYO"
    then have "st (tab s) l = EMBRYO" using n(1) ot by (cases "l = k") simp_all
    then show "\<exists>q. forking (s\<lparr>tab := t\<rparr>) q = Some l"
      using I(5) \<open>l < NPROC\<close> unfolding fork_inv_def by simp
  qed
  moreover have "tree_inv t" by (rule tree_inv_slot [OF sc I(1)]) (simp_all add: n)
  moreover have "pid_inv t" by (rule pid_inv_slot [OF sc I(2)]) (simp_all add: n)
  moreover have "wait_inv t" by (rule wait_inv_slot [OF sc I(3)]) (simp add: W(3) p(2))
  moreover have "cpu_inv (s\<lparr>tab := t\<rparr>)" by (rule cpu_inv_slot [of k s]) (simp_all add: sc I(4))
  ultimately show ?thesis by (simp add: proc_inv_def)
next
  case NoChildren
  then have "t = tab s" using w(1) by (auto simp: wait_scan_def split: option.splits if_splits)
  then show ?thesis using i by simp
qed (use w(2) in blast)

lemma inv_exit:
  assumes i: "proc_inv s" and c: "on_cpu s c = Some p" "forking s p = None"
    and e: "exit_zombie p (tab s) = Inr t"
  shows "proc_inv (s\<lparr>tab := t, on_cpu := (on_cpu s)(c := None)\<rparr>)"
proof -
  note I = proc_invD [OF i]
  have p: "p < NPROC" "st (tab s) p = RUNNING" using cpuD [OF I(4) c(1)] by auto
  note spec = exit_zombie_spec [OF e, unfolded I(6), OF p(1)]
  have ne: "p \<noteq> initproc (tab s)" and len: "length (procs t) = NPROC" "initproc t = initproc (tab s)"
    "nextpid t = nextpid (tab s)" using spec by blast+
  let ?woken = "\<lambda>j. chan (procs (tab s) ! j) = map_option ChProc (parent (procs (tab s) ! p))
      \<or> chan (procs (tab s) ! j) = Some (ChProc (initproc (tab s)))
        \<and> (\<exists>i<NPROC. parent (procs (tab s) ! i) = Some p \<and> st (tab s) i = ZOMBIE)"
  have n: "procs t ! j = (procs (tab s) ! j)
      \<lparr>parent := if parent (procs (tab s) ! j) = Some p then Some (initproc (tab s)) else parent (procs (tab s) ! j),
       pstate := if j = p then ZOMBIE else if st (tab s) j = SLEEPING \<and> ?woken j then RUNNABLE else st (tab s) j\<rparr>"
    if "j < NPROC" for j using spec that by blast
  have par: "parent (procs t ! j) = (if parent (procs (tab s) ! j) = Some p then Some (initproc (tab s))
      else parent (procs (tab s) ! j))" if "j < NPROC" for j using n [OF that] by simp
  have stt: "st t j = (if j = p then ZOMBIE else if st (tab s) j = SLEEPING \<and> ?woken j then RUNNABLE else st (tab s) j)"
    if "j < NPROC" for j using n [OF that] by simp
  have pd: "pid (procs t ! j) = pid (procs (tab s) ! j)" and ch: "chan (procs t ! j) = chan (procs (tab s) ! j)"
    if "j < NPROC" for j using n [OF that] by simp_all
  have old: "st t j = UNUSED \<longleftrightarrow> st (tab s) j = UNUSED" "st t j = EMBRYO \<longleftrightarrow> st (tab s) j = EMBRYO"
    "st t j = RUNNING \<longleftrightarrow> j \<noteq> p \<and> st (tab s) j = RUNNING" "alive (st t j) \<longleftrightarrow> j \<noteq> p \<and> alive (st (tab s) j)"
    "st t j = SLEEPING \<longleftrightarrow> st (tab s) j = SLEEPING \<and> \<not> ?woken j"
    "st t j = ZOMBIE \<longleftrightarrow> j = p \<or> st (tab s) j = ZOMBIE" if "j < NPROC" for j
    unfolding stt [OF that] using p(2) by (auto simp: alive_def)
  have T: "initproc (tab s) < NPROC" "alive (st (tab s) (initproc (tab s)))"
    "\<And>j q. j < NPROC \<Longrightarrow> parent (procs (tab s) ! j) = Some q \<Longrightarrow> q < NPROC \<and> q \<noteq> j \<and> alive (st (tab s) q)"
    "\<And>j. j < NPROC \<Longrightarrow> st (tab s) j = UNUSED \<Longrightarrow> parent (procs (tab s) ! j) = None"
    "\<And>j. j < NPROC \<Longrightarrow> st (tab s) j \<noteq> UNUSED \<Longrightarrow> st (tab s) j \<noteq> EMBRYO \<Longrightarrow> j \<noteq> initproc (tab s) \<Longrightarrow>
       parent (procs (tab s) ! j) \<noteq> None" "parent (procs (tab s) ! initproc (tab s)) = None"
    using I(1) unfolding tree_inv_def by blast+
  have tree: "tree_inv t"
    unfolding tree_inv_def len
  proof (intro conjI allI impI)
    show "NPROC = NPROC" ..
    show "initproc (tab s) < NPROC" "alive (st t (initproc (tab s)))" using T(1,2) ne by (simp_all add: old)
    show "parent (procs t ! initproc (tab s)) = None" using T(1,6) by (simp add: par)
    fix j q assume j: "j < NPROC" "parent (procs t ! j) = Some q"
    have "q < NPROC \<and> q \<noteq> j \<and> q \<noteq> p \<and> alive (st (tab s) q)"
      using j(2) T(1,2,6) T(3) [OF j(1)] ne unfolding par [OF j(1)] by (auto split: if_splits)
    then show "q < NPROC" "q \<noteq> j" "alive (st t q)" by (simp_all add: old)
  next
    fix j assume "j < NPROC" "st t j = UNUSED"
    then show "parent (procs t ! j) = None" using T(4) by (simp add: old par)
  next
    fix j assume "j < NPROC" "st t j \<noteq> UNUSED" "st t j \<noteq> EMBRYO" "j \<noteq> initproc (tab s)"
    then show "parent (procs t ! j) \<noteq> None" using T(5) by (simp add: old par)
  qed
  have pids: "pid_inv t"
    using I(2) unfolding pid_inv_def len by (simp add: old pd)
  obtain pp where pp: "parent (procs (tab s) ! p) = Some pp" using T(5) [OF p(1)] p(2) ne by auto
  have wait: "wait_inv t"
    unfolding wait_inv_def
  proof (intro allI impI)
    fix q assume q: "q < NPROC" "st t q = SLEEPING" "chan (procs t ! q) = Some (ChProc q)"
    then have s: "st (tab s) q = SLEEPING" "\<not> ?woken q" "chan (procs (tab s) ! q) = Some (ChProc q)"
      using old(5) ch by simp_all
    then have qp: "q \<noteq> pp" and qi: "q = initproc (tab s) \<Longrightarrow> j < NPROC \<Longrightarrow> parent (procs (tab s) ! j) = Some p \<Longrightarrow>
        st (tab s) j \<noteq> ZOMBIE" for j using pp by auto
    have np: "q \<noteq> p" using s(1) p(2) by auto
    obtain a where a: "a < NPROC" "parent (procs (tab s) ! a) = Some q"
      and z: "\<And>b. b < NPROC \<Longrightarrow> parent (procs (tab s) ! b) = Some q \<Longrightarrow> st (tab s) b \<noteq> ZOMBIE"
      using I(3) q(1) s(1,3) unfolding wait_inv_def by blast
    have "parent (procs t ! a) = Some q" using a np by (simp add: par)
    moreover have "st t b \<noteq> ZOMBIE" if b: "b < NPROC" "parent (procs t ! b) = Some q" for b
    proof (cases "parent (procs (tab s) ! b) = Some p")
      case True
      then have "q = initproc (tab s)" using b by (simp add: par)
      moreover have "b \<noteq> p" using True T(3) [OF b(1) True] by blast
      ultimately show ?thesis using qi [OF _ b(1) True] by (simp add: old b)
    next
      case False
      then have "parent (procs (tab s) ! b) = Some q" using b by (simp add: par)
      moreover from this have "b \<noteq> p" using pp qp by auto
      ultimately show ?thesis using z [OF b(1)] by (simp add: old b)
    qed
    ultimately show "(\<exists>b<NPROC. parent (procs t ! b) = Some q)
        \<and> (\<forall>b<NPROC. parent (procs t ! b) = Some q \<longrightarrow> st t b \<noteq> ZOMBIE)" using a(1) by blast
  qed
  have cpu: "cpu_inv (s\<lparr>tab := t, on_cpu := (on_cpu s)(c := None)\<rparr>)"
    by (rule cpu_inv_drop [OF I(4) c(1), of t]) (simp_all add: old p)
  have nf: "forking s q = Some l \<Longrightarrow> q \<noteq> p" for q l using c(2) by auto
  have "fork_inv (s\<lparr>tab := t, on_cpu := (on_cpu s)(c := None)\<rparr>)"
    unfolding fork_inv_def psys.select_convs psys.update_convs
  proof (intro conjI [rotated] allI impI)
    fix q l assume "forking (s\<lparr>tab := t, on_cpu := (on_cpu s)(c := None)\<rparr>) q = Some l"
    then have g: "forking s q = Some l" by simp
    note D = forkD [OF I(5) g]
    have "st t q = RUNNING \<or> st t q = RUNNABLE" using D nf [OF g] by (simp add: stt)
    moreover have "parent (procs t ! l) = None \<or> parent (procs t ! l) = Some q" using D nf [OF g] by (auto simp: par)
    ultimately show "q < NPROC" "l < NPROC" "st (tab (s\<lparr>tab := t, on_cpu := (on_cpu s)(c := None)\<rparr>)) l = EMBRYO"
      "parent (procs (tab (s\<lparr>tab := t, on_cpu := (on_cpu s)(c := None)\<rparr>)) ! l) = None
        \<or> parent (procs (tab (s\<lparr>tab := t, on_cpu := (on_cpu s)(c := None)\<rparr>)) ! l) = Some q"
      "st (tab (s\<lparr>tab := t, on_cpu := (on_cpu s)(c := None)\<rparr>)) q = RUNNING
        \<or> st (tab (s\<lparr>tab := t, on_cpu := (on_cpu s)(c := None)\<rparr>)) q = RUNNABLE"
      using D by (simp_all add: old)
  next
    fix q r l assume "forking (s\<lparr>tab := t, on_cpu := (on_cpu s)(c := None)\<rparr>) q = Some l"
      "forking (s\<lparr>tab := t, on_cpu := (on_cpu s)(c := None)\<rparr>) r = Some l"
    then show "q = r" using I(5) unfolding fork_inv_def by simp
  next
    fix l assume "l < NPROC" "st (tab (s\<lparr>tab := t, on_cpu := (on_cpu s)(c := None)\<rparr>)) l = EMBRYO"
    then show "\<exists>q. forking (s\<lparr>tab := t, on_cpu := (on_cpu s)(c := None)\<rparr>) q = Some l"
      using I(5) unfolding fork_inv_def by (simp add: old)
  qed
  then show ?thesis using tree pids wait cpu by (simp add: proc_inv_def)
qed

lemma inv_closes:
  assumes i: "proc_inv s" and c: "on_cpu s c = Some p"
  shows "proc_inv (s\<lparr>tab := exit_close p (tab s)\<rparr>)"
proof -
  note I = proc_invD [OF i]
  have p: "p < NPROC" "st (tab s) p = RUNNING" using cpuD [OF I(4) c] by auto
  have n: "procs (exit_close p (tab s)) ! j = (if j = p then (procs (tab s) ! p)
      \<lparr>ofile := map (\<lambda>_. None) (ofile (procs (tab s) ! p)), cwd := None\<rparr> else procs (tab s) ! j)" for j
    using p I(6) by (simp add: exit_close_def upd_nth)
  have sh: "same_shape (tab s) (exit_close p (tab s))"
    unfolding exit_close_def by (rule same_shape_upd) (simp_all add: p I(6))
  have w: "wait_inv (exit_close p (tab s))"
    by (rule wait_inv_same [OF sh I(1,3)]) (simp_all add: n split: if_splits)
  show ?thesis
  proof (rule proc_inv_move [OF i])
    show "cpu_inv (s\<lparr>tab := exit_close p (tab s)\<rparr>)" by (rule cpu_inv_keep [OF I(4)]) (simp_all add: n)
    fix q j assume f: "forking s q = Some j"
    show "st (tab (s\<lparr>tab := exit_close p (tab s)\<rparr>)) q = RUNNING
        \<or> st (tab (s\<lparr>tab := exit_close p (tab s)\<rparr>)) q = RUNNABLE"
      using fork_state [OF I(5) f] by (auto simp: n)
  qed (simp_all add: sh w)
qed

lemma proc_step_inv: "proc_step s s' \<Longrightarrow> proc_inv s \<Longrightarrow> proc_inv s'"
  by (induction rule: proc_step.induct)
    (blast intro: inv_fork_alloc inv_fork_fail inv_fork_set inv_fork_done inv_closes inv_exit
      inv_wait_returns inv_wait_sleeps inv_sleeps inv_wakes inv_kills inv_yields inv_schedules)+

abbreviation proc_reach :: "psys \<Rightarrow> psys \<Rightarrow> bool" where
  "proc_reach \<equiv> proc_step\<^sup>*\<^sup>*"

lemma proc_reach_inv: "proc_reach (psys_boot pd root) s \<Longrightarrow> proc_inv s"
  by (induction rule: rtranclp_induct) (auto intro: proc_step_inv proc_inv_boot)

section \<open>Properties\<close>

text \<open>A run of a fork on the booted machine, for the witnesses.\<close>

inductive_cases proc_stepE: "proc_step s s'"

lemma boot_runs: "proc_reach (psys_boot pd root)
    (psys_boot pd root \<lparr>tab := run_proc 0 (tab (psys_boot pd root)), on_cpu := (\<lambda>_. None)(0 := Some 0)\<rparr>)"
proof -
  have "proc_step (psys_boot pd root) ((psys_boot pd root)
      \<lparr>tab := run_proc 0 (tab (psys_boot pd root)), on_cpu := (on_cpu (psys_boot pd root))(0 := Some 0)\<rparr>)"
    by (rule proc_step.schedules) (simp_all add: boot_slots NPROC_def, simp add: psys_boot_def)
  then show ?thesis by (auto simp: psys_boot_def)
qed

text \<open>
  C20. The process tree. However forks, exits, waits and kills interleave on any
  number of CPUs, init stays alive, the parent of every process is a living process,
  and only init and the children of unfinished forks have no parent, so every
  zombie has a process that can reap it.
\<close>

theorem process_tree:
  assumes "proc_reach (psys_boot pd root) s"
  shows "alive (st (tab s) (initproc (tab s)))
    \<and> (\<forall>i<NPROC. \<forall>q. parent (procs (tab s) ! i) = Some q \<longrightarrow> q \<noteq> i \<and> alive (st (tab s) q))
    \<and> (\<forall>i<NPROC. st (tab s) i \<noteq> UNUSED \<longrightarrow> st (tab s) i \<noteq> EMBRYO \<longrightarrow> i \<noteq> initproc (tab s) \<longrightarrow>
        parent (procs (tab s) ! i) \<noteq> None)"
  using tree_invD(3,5,7) [OF proc_invD(1) [OF proc_reach_inv [OF assms]]] by blast

theorem process_tree_witness: "alive (st (tab (psys_boot 0 0)) (initproc (tab (psys_boot 0 0))))"
  using process_tree [of 0 0 "psys_boot 0 0"] by simp

text \<open>
  Two processes in use never have the same pid, and a process is RUNNING exactly
  while one CPU runs it: the scheduler never puts one process on two CPUs.
\<close>

theorem pids_and_cpus:
  assumes "proc_reach (psys_boot pd root) s" "i < NPROC" "j < NPROC"
  shows "(st (tab s) i \<noteq> UNUSED \<longrightarrow> st (tab s) j \<noteq> UNUSED \<longrightarrow>
      pid (procs (tab s) ! i) = pid (procs (tab s) ! j) \<longrightarrow> i = j)
    \<and> (st (tab s) i = RUNNING \<longleftrightarrow> (\<exists>c. on_cpu s c = Some i))
    \<and> (on_cpu s c = Some i \<longrightarrow> on_cpu s d = Some i \<longrightarrow> c = d)"
proof (intro conjI)
  note I = proc_invD [OF proc_reach_inv [OF assms(1)]]
  show "st (tab s) i \<noteq> UNUSED \<longrightarrow> st (tab s) j \<noteq> UNUSED \<longrightarrow>
      pid (procs (tab s) ! i) = pid (procs (tab s) ! j) \<longrightarrow> i = j"
    using I(2) assms(2,3) unfolding pid_inv_def by blast
  show "st (tab s) i = RUNNING \<longleftrightarrow> (\<exists>c. on_cpu s c = Some i)"
    using I(4) assms(2) unfolding cpu_inv_def by blast
  show "on_cpu s c = Some i \<longrightarrow> on_cpu s d = Some i \<longrightarrow> c = d"
    using I(4) unfolding cpu_inv_def by blast
qed

theorem pids_and_cpus_witness:
  "st (run_proc 0 (tab (psys_boot 0 0))) 0 = RUNNING"
proof -
  let ?s = "psys_boot 0 0 \<lparr>tab := run_proc 0 (tab (psys_boot 0 0)), on_cpu := (\<lambda>_. None)(0 := Some 0)\<rparr>"
  have "0 < NPROC" by (simp add: NPROC_def)
  from pids_and_cpus [OF boot_runs this this]
  have "st (tab ?s) 0 = RUNNING \<longleftrightarrow> (\<exists>c. on_cpu ?s c = Some 0)" by blast
  moreover have "on_cpu ?s 0 = Some 0" by simp
  ultimately have "st (tab ?s) 0 = RUNNING" by blast
  then show ?thesis by simp
qed

text \<open>
  C21. No lost wakeup between \<open>wait\<close> and \<open>exit\<close>: a process asleep in \<open>wait\<close> has
  children, and none of them is a zombie it could reap.
\<close>

theorem wait_no_lost_wakeup:
  assumes "proc_reach (psys_boot pd root) s" "p < NPROC" "st (tab s) p = SLEEPING"
    "chan (procs (tab s) ! p) = Some (ChProc p)"
  shows "(\<exists>i<NPROC. parent (procs (tab s) ! i) = Some p)
    \<and> (\<forall>i<NPROC. parent (procs (tab s) ! i) = Some p \<longrightarrow> st (tab s) i \<noteq> ZOMBIE)"
  using proc_invD(3) [OF proc_reach_inv [OF assms(1)]] assms(2-4) unfolding wait_inv_def by blast

text \<open>Init forks and waits for its child.\<close>

definition run1 :: ptable where "run1 = run_proc 0 (tab (psys_boot 0 0))"
definition run2 :: ptable where "run2 = snd (the (allocproc run1))"
definition run3 :: ptable where "run3 = set_runnable 1 (fork_parent 0 1 run2)"
definition run4 :: ptable where "run4 = snd (wait_scan 0 run3)"

lemma run_facts: "map_option fst (allocproc run1) = Some 1" "parent (procs (fork_parent 0 1 run2) ! 1) = Some 0"
  "fst (wait_scan 0 run3) = WaitSleeps" "st run4 0 = SLEEPING" "chan (procs run4 ! 0) = Some (ChProc 0)"
  "parent (procs run4 ! 1) = Some 0"
  by code_simp+

lemma run4_reach: "proc_reach (psys_boot 0 0) \<lparr>tab = run4, on_cpu = \<lambda>_. None, forking = \<lambda>_. None\<rparr>"
proof -
  let ?c = "(\<lambda>_. None)(0 := Some 0) :: nat \<Rightarrow> nat option" and ?n = "\<lambda>_. None :: nat option"
  let ?f = "(\<lambda>_. None)(0 := Some 1) :: nat \<Rightarrow> nat option"
  have 1: "proc_reach (psys_boot 0 0) \<lparr>tab = run1, on_cpu = ?c, forking = ?n\<rparr>"
    using boot_runs [of 0 0] by (simp add: psys_boot_def run1_def)
  have a: "allocproc run1 = Some (1, run2)"
    using run_facts(1) by (cases "allocproc run1") (auto simp: run2_def)
  have 2: "proc_step \<lparr>tab = run1, on_cpu = ?c, forking = ?n\<rparr> \<lparr>tab = run2, on_cpu = ?c, forking = ?f\<rparr>"
    using proc_step.fork_alloc [of "\<lparr>tab = run1, on_cpu = ?c, forking = ?n\<rparr>" 0 0 1 run2] a by simp
  have 3: "proc_step \<lparr>tab = run2, on_cpu = ?c, forking = ?f\<rparr> \<lparr>tab = fork_parent 0 1 run2, on_cpu = ?c, forking = ?f\<rparr>"
    using proc_step.fork_set [of "\<lparr>tab = run2, on_cpu = ?c, forking = ?f\<rparr>" 0 0 1] by simp
  have 4: "proc_step \<lparr>tab = fork_parent 0 1 run2, on_cpu = ?c, forking = ?f\<rparr> \<lparr>tab = run3, on_cpu = ?c, forking = ?n\<rparr>"
    using proc_step.fork_done [of "\<lparr>tab = fork_parent 0 1 run2, on_cpu = ?c, forking = ?f\<rparr>" 0 0 1] run_facts(2)
    by (simp add: run3_def)
  have w: "wait_scan 0 run3 = (WaitSleeps, run4)" using run_facts(3) by (metis prod.collapse run4_def)
  have 5: "proc_step \<lparr>tab = run3, on_cpu = ?c, forking = ?n\<rparr> \<lparr>tab = run4, on_cpu = ?n, forking = ?n\<rparr>"
    using proc_step.wait_sleeps [of "\<lparr>tab = run3, on_cpu = ?c, forking = ?n\<rparr>" 0 0 run4] w by simp
  show ?thesis by (rule rtranclp.rtrancl_into_rtrancl [OF rtranclp.rtrancl_into_rtrancl [OF
    rtranclp.rtrancl_into_rtrancl [OF rtranclp.rtrancl_into_rtrancl [OF 1 2] 3] 4] 5])
qed

theorem wait_no_lost_wakeup_witness: "\<exists>i<NPROC. parent (procs run4 ! i) = Some 0"
  using wait_no_lost_wakeup [OF run4_reach, of 0] run_facts(4,5) by (simp add: NPROC_def)

text \<open>The three exits of \<open>fork\<close>.\<close>

lemma alloc_kstack_ok:
  assumes "alloc_kstack i k t = (ok, k', t')" "i < length (procs t)"
  shows "length (procs t') = length (procs t)" "nextpid t' = nextpid t" "initproc t' = initproc t"
    "j \<noteq> i \<Longrightarrow> procs t' ! j = procs t ! j"
    "pid (procs t' ! i) = pid (procs t ! i)" "ofile (procs t' ! i) = ofile (procs t ! i)"
    "\<not> ok \<Longrightarrow> st t' i = UNUSED"
  using assms by (auto simp: alloc_kstack_def alloc_failed_def upd_nth Let_def split: prod.splits if_splits)

lemma allocproc_slot:
  assumes "allocproc t = Some (i, t1)"
  shows "i < length (procs t)" "st t i = UNUSED" "length (procs t1) = length (procs t)"
    "nextpid t1 = nextpid t + 1" "\<And>j. j \<noteq> i \<Longrightarrow> procs t1 ! j = procs t ! j" "pid (procs t1 ! i) = nextpid t"
    "ofile (procs t1 ! i) = ofile (procs t ! i)"
proof -
  have fi: "first_index (\<lambda>p. pstate p = UNUSED) (procs t) = Some i"
    using assms by (auto simp: allocproc_def split: option.splits)
  show i: "i < length (procs t)" "st t i = UNUSED" using first_index_Some [OF fi] by auto
  show "length (procs t1) = length (procs t)" "nextpid t1 = nextpid t + 1" "pid (procs t1 ! i) = nextpid t"
    "\<And>j. j \<noteq> i \<Longrightarrow> procs t1 ! j = procs t ! j" "ofile (procs t1 ! i) = ofile (procs t ! i)"
    using assms fi i by (auto simp: allocproc_def upd_nth)
qed

definition untouched :: "ptable \<Rightarrow> ptable \<Rightarrow> bool" where
  "untouched t t' \<longleftrightarrow> (\<forall>j<length (procs t). st t j = UNUSED \<and> st t' j = UNUSED \<or> procs t' ! j = procs t ! j)"

definition forked :: "nat \<Rightarrow> ptable \<Rightarrow> nat \<Rightarrow> ptable \<Rightarrow> bool" where
  "forked cur t i t' \<longleftrightarrow> i < length (procs t) \<and> st t i = UNUSED \<and> st t' i = RUNNABLE
     \<and> pid (procs t' ! i) = nextpid t \<and> parent (procs t' ! i) = Some cur \<and> sz (procs t' ! i) = sz (procs t ! cur)
     \<and> tf (procs t' ! i) = (tf (procs t ! cur))\<lparr>eax := 0\<rparr> \<and> cwd (procs t' ! i) = cwd (procs t ! cur)
     \<and> alarm_interval (procs t' ! i) = 0 \<and> alarm_tf (procs t' ! i) = None
     \<and> (\<forall>j<length (procs t). j \<noteq> i \<longrightarrow> procs t' ! j = procs t ! j)"

lemma untouchedI:
  assumes "i < length (procs t)" "st t i = UNUSED" "st t' i = UNUSED" "\<And>j. j \<noteq> i \<Longrightarrow> procs t' ! j = procs t ! j"
  shows "untouched t t'"
  unfolding untouched_def
proof (intro allI impI)
  fix j show "st t j = UNUSED \<and> st t' j = UNUSED \<or> procs t' ! j = procs t ! j"
    using assms by (cases "j = i") auto
qed

text \<open>What follows the kernel stack, on a table that only differs in the new slot.\<close>

lemma fork_tail:
  assumes i: "i < length (procs t)" "st t i = UNUSED" "i \<noteq> cur"
    and t3: "length (procs t3) = length (procs t)" "pid (procs t3 ! i) = nextpid t"
      "\<And>j. j \<noteq> i \<Longrightarrow> procs t3 ! j = procs t ! j"
  shows "untouched t (alloc_failed i t3)" "forked cur t i (set_runnable i (fork_parent cur i t3))"
proof -
  show "untouched t (alloc_failed i t3)"
    by (rule untouchedI [of i]) (use i t3 in \<open>simp_all add: alloc_failed_def upd_nth\<close>)
  show "forked cur t i (set_runnable i (fork_parent cur i t3))"
    using i t3 unfolding forked_def set_runnable_def fork_parent_def by (simp add: upd_nth)
qed

text \<open>A table that differs from \<open>t\<close> in the slot \<open>i\<close> the new process has got.\<close>

definition fork_slot :: "nat \<Rightarrow> ptable \<Rightarrow> ptable \<Rightarrow> bool" where
  "fork_slot i t t' \<longleftrightarrow> i < length (procs t) \<and> st t i = UNUSED \<and> length (procs t') = length (procs t)
     \<and> nextpid t' = nextpid t + 1 \<and> pid (procs t' ! i) = nextpid t \<and> ofile (procs t' ! i) = ofile (procs t ! i)
     \<and> (\<forall>j. j \<noteq> i \<longrightarrow> procs t' ! j = procs t ! j)"

lemma fork_cases:
  assumes f: "fork kend kdata cur k t = Inr (r, k', t')"
  obtains (none) "r = - 1" "t' = t"
  | (failed) i where "r = - 1" "fork_slot i t t'" "st t' i = UNUSED"
  | (forks) i t3 where "r = nextpid t" "fork_slot i t t3" "t' = set_runnable i (fork_parent cur i t3)"
proof (cases "allocproc t")
  case None
  then show ?thesis using f none by (simp add: fork_def)
next
  case (Some it)
  obtain i t1 where it: "allocproc t = Some (i, t1)" using Some by (cases it) auto
  note A = allocproc_slot [OF it]
  obtain ok k2 t2 where ks: "alloc_kstack i k t1 = (ok, k2, t2)" by (cases "alloc_kstack i k t1") auto
  have i1: "i < length (procs t1)" using A by simp
  note K = alloc_kstack_ok [OF ks i1]
  have s2: "fork_slot i t t2" using A K by (simp add: fork_slot_def)
  show ?thesis
  proof (cases ok)
    case False
    then show ?thesis using f it ks failed [of i] s2 K(7) by (simp add: fork_def)
  next
    case True
    obtain pd k3 where c: "copyuvm kend kdata (pgdir (procs t2 ! cur)) (sz (procs t2 ! cur)) k2 = Inr (pd, k3)"
      using f it ks True by (auto simp: fork_def rbind_eq_Inr)
    have s3: "fork_slot i t (upd i (\<lambda>p. p\<lparr>pgdir := pd\<rparr>) t2)"
      and s4: "fork_slot i t (alloc_failed i (upd i (\<lambda>p. p\<lparr>pgdir := pd\<rparr>) t2))"
      and u: "st (alloc_failed i (upd i (\<lambda>p. p\<lparr>pgdir := pd\<rparr>) t2)) i = UNUSED"
      using s2 by (auto simp: fork_slot_def alloc_failed_def upd_nth)
    show ?thesis
    proof (cases "pd = 0")
      case True
      then have "r = - 1" "t' = alloc_failed i (upd i (\<lambda>p. p\<lparr>pgdir := pd\<rparr>) t2)"
        using f it ks \<open>ok\<close> c by (auto simp: fork_def Let_def rbind_eq_Inr)
      then show ?thesis using failed s4 u by blast
    next
      case False
      moreover have "pid (procs (upd i (\<lambda>p. p\<lparr>pgdir := pd\<rparr>) t2) ! i) = nextpid t" using s3 by (simp add: fork_slot_def)
      ultimately have "r = nextpid t" "t' = set_runnable i (fork_parent cur i (upd i (\<lambda>p. p\<lparr>pgdir := pd\<rparr>) t2))"
        using f it ks \<open>ok\<close> c by (auto simp: fork_def Let_def)
      then show ?thesis using forks s3 by blast
    qed
  qed
qed

text \<open>
  \<open>fork\<close>. Either it returns the pid of a new runnable process, a copy of the caller
  that sees 0 as its own result and has no alarm, or it returns -1; in both cases no
  other process has changed, and after a failure the slot is free again.
\<close>

theorem fork_child:
  assumes f: "fork kend kdata cur k t = Inr (r, k', t')"
    and cur: "cur < length (procs t)" "st t cur \<noteq> UNUSED"
  shows "r = - 1 \<and> untouched t t' \<or> r = nextpid t \<and> nextpid t' = nextpid t + 1 \<and> (\<exists>i. forked cur t i t')"
  using f cur(2)
proof (cases rule: fork_cases)
  case none
  then show ?thesis by (simp add: untouched_def)
next
  case (failed i)
  then show ?thesis using untouchedI [of i t t'] by (simp add: fork_slot_def)
next
  case (forks i t3)
  then have "i \<noteq> cur" using cur(2) by (auto simp: fork_slot_def)
  moreover have "nextpid t' = nextpid t + 1" using forks by (simp add: fork_slot_def set_runnable_def fork_parent_def)
  ultimately show ?thesis using forks fork_tail(2) [of i t cur t3] by (auto simp: fork_slot_def)
qed

text \<open>With no free page \<open>fork\<close> fails and leaves the slot free.\<close>

theorem fork_child_witness:
  "\<exists>r k' t'. fork 0x80100000 0x80108000 0 \<lparr>kbytes = \<lambda>_. 0, use_lock = False, freelist = 0\<rparr> (tab (psys_boot 0 0)) = Inr (r, k', t')
     \<and> (r = - 1 \<or> r = 2)"
proof -
  let ?t = "tab (psys_boot 0 0)" and ?k = "\<lparr>kbytes = \<lambda>_. 0, use_lock = False, freelist = 0\<rparr> :: kmem"
  note B = boot_slots [where pd = 0 and root = 0]
  have "allocproc ?t \<noteq> None"
  proof
    assume "allocproc ?t = None"
    then have "\<forall>p\<in>set (procs ?t). pstate p \<noteq> UNUSED"
      by (auto simp: allocproc_def first_index_None split: option.splits)
    moreover have "procs ?t ! 1 \<in> set (procs ?t)" using B(1) by (intro nth_mem) (simp add: NPROC_def)
    ultimately show False using B(4) [of 1] by (simp add: NPROC_def)
  qed
  then obtain i t1 where it: "allocproc ?t = Some (i, t1)" by (cases "allocproc ?t") auto
  have f: "fork 0x80100000 0x80108000 0 ?k ?t = Inr (- 1, ?k, alloc_failed i (upd i (\<lambda>p. p\<lparr>kstack := 0\<rparr>) t1))"
    by (simp add: fork_def it alloc_kstack_def kalloc_def)
  have "0 < length (procs ?t)" "st ?t 0 \<noteq> UNUSED" using B(1) B(4) [of 0] by (simp_all add: NPROC_def)
  then show ?thesis using fork_child [OF f] f B(3) by auto
qed

text \<open>\<open>kill(0)\<close> finds a free slot, whose next process is born killed.\<close>

theorem kill_zero_poisons:
  assumes z: "first_index (\<lambda>p. pstate p = UNUSED) (procs t) = Some i"
    "first_index (\<lambda>p. pid p = 0) (procs t) = Some i"
    and k: "kill 0 t = (r, t1)" and a: "allocproc t1 = Some (j, t2)"
  shows "r = 0 \<and> j = i \<and> killed (procs t2 ! j)"
proof -
  have i: "i < length (procs t)" "st t i = UNUSED" "\<And>j. j < i \<Longrightarrow> st t j \<noteq> UNUSED"
    using first_index_Some [OF z(1)] by auto
  have t1: "r = 0" "procs t1 ! j = (if j = i then (procs t ! i)\<lparr>killed := True\<rparr> else procs t ! j)"
    "length (procs t1) = length (procs t)" for j
    using k z(2) i by (auto simp: kill_def upd_nth)
  have "first_index (\<lambda>p. pstate p = UNUSED) (procs t1) = Some i"
    by (rule first_index_hit) (use i in \<open>simp_all add: t1\<close>)
  then have "j = i \<and> procs t2 ! i = (procs t1 ! i)\<lparr>pstate := EMBRYO, pid := nextpid t1, alarm_interval := 0,
      alarm_ticks := 0, alarm_handler := 0, alarm_in_handler := False, alarm_tf := None\<rparr>"
    using a i t1(3) by (auto simp: allocproc_def upd_nth)
  then show ?thesis using t1 by simp
qed

text \<open>
  Shrinking to size 0: the pages are gone, yet \<open>growproc\<close> reports failure and the
  recorded size stays.
\<close>

theorem growproc_to_zero:
  assumes "sz (procs t ! cur) = m" "0 <s m" "growproc kend cur (- m) k t = Inr (ok, k', t')"
    "- m <s 0"
  shows "\<not> ok \<and> t' = t \<and> deallocuvm kend (pgdir (procs t ! cur)) m 0 k = Inr (0, k')"
proof -
  have "\<not> 0 <s - m" "- m \<noteq> 0" using assms(4) by auto
  moreover have "m \<noteq> 0" using assms(2) by auto
  ultimately show ?thesis
    using assms by (auto simp: growproc_def Let_def deallocuvm_def rbind_eq_Inr split: if_splits)
qed

end
