(* ===== verification/Bio.thy ===== *)
theory Bio
  imports Prelude
begin

text \<open>
  The buffer cache (bio.c) over the memory disk driver (memide.c). The linked list
  from \<open>bcache.head\<close> is the list of slots in most-recently-used order. A \<open>bread\<close> is two
  steps, \<open>bget\<close> up to \<open>release(&bcache.lock)\<close> and what follows once the sleep lock is
  free, so the step relation interleaves any number of uses of buffers; a use is one
  \<open>bread\<close> until its \<open>brelse\<close>.
\<close>

section \<open>buf.h, fs.h and param.h\<close>

definition BSIZE :: nat where "BSIZE = 512"
definition NBUF :: nat where "NBUF = 30"
definition ROOTDEV :: u32 where "ROOTDEV = 1"

type_synonym blk = "u8 list"

text \<open>\<open>blocked\<close> is \<open>lock.locked\<close>; the flags \<open>B_VALID\<close> and \<open>B_DIRTY\<close> are the fields of that name.\<close>

record buf =
  valid :: bool
  dirty :: bool
  bdev :: u32
  blockno :: u32
  blocked :: bool
  refcnt :: nat
  bdata :: blk

record bcache =
  lru :: "nat list"
  bufs :: "buf list"
  disk :: "u32 \<Rightarrow> blk"
  disksize :: u32

abbreviation the_buf :: "bcache \<Rightarrow> nat \<Rightarrow> buf" where
  "the_buf c i \<equiv> bufs c ! i"

definition bset :: "nat \<Rightarrow> (buf \<Rightarrow> buf) \<Rightarrow> bcache \<Rightarrow> bcache" where
  "bset i f c = c\<lparr>bufs := (bufs c)[i := f (bufs c ! i)]\<rparr>"

section \<open>memide.c\<close>

definition iderw :: "nat \<Rightarrow> bcache \<Rightarrow> bcache res" where
  "iderw i c =
     (let b = the_buf c i in
      if \<not> blocked b then Inl (Panic ''iderw: buf not locked'')
      else if valid b \<and> \<not> dirty b then Inl (Panic ''iderw: nothing to do'')
      else if bdev b \<noteq> 1 then Inl (Panic ''iderw: request not for disk 1'')
      else if blockno b \<ge> disksize c then Inl (Panic ''iderw: block out of range'')
      else if dirty b
      then Inr (bset i (\<lambda>b. b\<lparr>valid := True, dirty := False\<rparr>) (c\<lparr>disk := (disk c)(blockno b := bdata b)\<rparr>))
      else Inr (bset i (\<lambda>b. b\<lparr>valid := True, bdata := disk c (blockno b)\<rparr>) c))"

section \<open>bio.c\<close>

text \<open>Each buffer goes to the front, so the last one is the most recently used.\<close>

definition zero_buf :: buf where
  "zero_buf = \<lparr>valid = False, dirty = False, bdev = 0, blockno = 0, blocked = False, refcnt = 0,
     bdata = replicate BSIZE 0\<rparr>"

definition binit :: "(u32 \<Rightarrow> blk) \<Rightarrow> u32 \<Rightarrow> bcache" where
  "binit d n = \<lparr>lru = fold (\<lambda>i l. i # l) [0..<NBUF] [], bufs = replicate NBUF zero_buf, disk = d, disksize = n\<rparr>"

text \<open>\<open>bget\<close> up to its \<open>acquiresleep\<close>: the two scans of the list, forwards and backwards.\<close>

definition bget :: "u32 \<Rightarrow> u32 \<Rightarrow> bcache \<Rightarrow> (nat \<times> bcache) res" where
  "bget d n c =
     (case find (\<lambda>i. bdev (the_buf c i) = d \<and> blockno (the_buf c i) = n) (lru c) of
        Some i \<Rightarrow> Inr (i, bset i (\<lambda>b. b\<lparr>refcnt := refcnt b + 1\<rparr>) c)
      | None \<Rightarrow>
          (case find (\<lambda>i. refcnt (the_buf c i) = 0 \<and> \<not> dirty (the_buf c i)) (rev (lru c)) of
             Some i \<Rightarrow> Inr (i, bset i (\<lambda>b. b\<lparr>bdev := d, blockno := n, valid := False, dirty := False, refcnt := 1\<rparr>) c)
           | None \<Rightarrow> Inl (Panic ''bget: no buffers'')))"

text \<open>The rest of \<open>bread\<close>: \<open>acquiresleep\<close>, then the read.\<close>

definition bread_locked :: "nat \<Rightarrow> bcache \<Rightarrow> bcache res" where
  "bread_locked i c =
     (if blocked (the_buf c i) then Inl Blocked
      else let c = bset i (\<lambda>b. b\<lparr>blocked := True\<rparr>) c in
        if \<not> valid (the_buf c i) then iderw i c else Inr c)"

definition bread :: "u32 \<Rightarrow> u32 \<Rightarrow> bcache \<Rightarrow> (nat \<times> bcache) res" where
  "bread d n c = rbind (bget d n c) (\<lambda>(i, c). rbind (bread_locked i c) (\<lambda>c. Inr (i, c)))"

definition bwrite :: "nat \<Rightarrow> bcache \<Rightarrow> bcache res" where
  "bwrite i c =
     (if \<not> blocked (the_buf c i) then Inl (Panic ''bwrite'')
      else iderw i (bset i (\<lambda>b. b\<lparr>dirty := True\<rparr>) c))"

text \<open>The part of \<open>log_write\<close> that concerns the buffer.\<close>

definition pin :: "nat \<Rightarrow> bcache \<Rightarrow> bcache" where
  "pin i c = bset i (\<lambda>b. b\<lparr>dirty := True\<rparr>) c"

definition brelse :: "nat \<Rightarrow> bcache \<Rightarrow> bcache res" where
  "brelse i c =
     (if \<not> blocked (the_buf c i) then Inl (Panic ''brelse'')
      else let c = bset i (\<lambda>b. b\<lparr>blocked := False, refcnt := refcnt b - 1\<rparr>) c in
        Inr (if refcnt (the_buf c i) = 0 then c\<lparr>lru := i # remove1 i (lru c)\<rparr> else c))"

section \<open>Uses of buffers\<close>

text \<open>
  \<open>Wants i d n\<close>: past \<open>bget\<close>, waiting for the sleep lock of buffer \<open>i\<close>.
  \<open>Has i d n m\<close>: inside; \<open>m\<close> says that the data changed since the last \<open>bwrite\<close> or
  \<open>log_write\<close>. The code always calls one of the two before \<open>brelse\<close>.
\<close>

datatype buse = NoUse | Wants nat u32 u32 | Has nat u32 u32 bool

record bsys =
  bc :: bcache
  use :: "nat \<Rightarrow> buse"

text \<open>\<open>N\<close> bounds the uses at one time; device 0 is what unused buffers carry, no caller asks for it.\<close>

inductive bstep :: "nat \<Rightarrow> bsys \<Rightarrow> bsys \<Rightarrow> bool" for N where
  get: "h < N \<Longrightarrow> use s h = NoUse \<Longrightarrow> d \<noteq> 0 \<Longrightarrow> bget d n (bc s) = Inr (i, c) \<Longrightarrow>
    bstep N s (s\<lparr>bc := c, use := (use s)(h := Wants i d n)\<rparr>)"
| lock: "h < N \<Longrightarrow> use s h = Wants i d n \<Longrightarrow> bread_locked i (bc s) = Inr c \<Longrightarrow>
    bstep N s (s\<lparr>bc := c, use := (use s)(h := Has i d n False)\<rparr>)"
| modify: "h < N \<Longrightarrow> use s h = Has i d n m \<Longrightarrow>
    bstep N s (s\<lparr>bc := bset i (\<lambda>b. b\<lparr>bdata := v\<rparr>) (bc s), use := (use s)(h := Has i d n True)\<rparr>)"
| write_out: "h < N \<Longrightarrow> use s h = Has i d n m \<Longrightarrow> bwrite i (bc s) = Inr c \<Longrightarrow>
    bstep N s (s\<lparr>bc := c, use := (use s)(h := Has i d n False)\<rparr>)"
| pin: "h < N \<Longrightarrow> use s h = Has i d n m \<Longrightarrow>
    bstep N s (s\<lparr>bc := pin i (bc s), use := (use s)(h := Has i d n False)\<rparr>)"
| release: "h < N \<Longrightarrow> use s h = Has i d n False \<Longrightarrow> brelse i (bc s) = Inr c \<Longrightarrow>
    bstep N s (s\<lparr>bc := c, use := (use s)(h := NoUse)\<rparr>)"

inductive_cases bstepE: "bstep N s s'"

definition bsys0 :: "(u32 \<Rightarrow> blk) \<Rightarrow> u32 \<Rightarrow> bsys" where
  "bsys0 d n = \<lparr>bc = binit d n, use = (\<lambda>_. NoUse)\<rparr>"

section \<open>Invariant\<close>

fun on :: "nat \<Rightarrow> buse \<Rightarrow> bool" where
  "on i NoUse = False"
| "on i (Wants j d n) = (j = i)"
| "on i (Has j d n m) = (j = i)"

fun holds :: "nat \<Rightarrow> buse \<Rightarrow> bool" where
  "holds i (Has j d n m) = (j = i)"
| "holds i u = False"

text \<open>What a use says of its buffer.\<close>

fun use_ok :: "bcache \<Rightarrow> buse \<Rightarrow> bool" where
  "use_ok c NoUse = True"
| "use_ok c (Wants i d n) = (i < NBUF \<and> bdev (the_buf c i) = d \<and> blockno (the_buf c i) = n \<and> d \<noteq> 0)"
| "use_ok c (Has i d n m) = (i < NBUF \<and> bdev (the_buf c i) = d \<and> blockno (the_buf c i) = n \<and> d \<noteq> 0
     \<and> valid (the_buf c i))"

definition cache_ok :: "bcache \<Rightarrow> bool" where
  "cache_ok c \<longleftrightarrow> length (bufs c) = NBUF \<and> distinct (lru c) \<and> set (lru c) = {..<NBUF}
     \<and> (\<forall>i<NBUF. \<forall>j<NBUF. bdev (the_buf c i) \<noteq> 0 \<longrightarrow> bdev (the_buf c i) = bdev (the_buf c j) \<longrightarrow>
          blockno (the_buf c i) = blockno (the_buf c j) \<longrightarrow> i = j)"

definition use_inv :: "nat \<Rightarrow> bsys \<Rightarrow> bool" where
  "use_inv N s \<longleftrightarrow>
     (\<forall>h. use_ok (bc s) (use s h)) \<and> (\<forall>h\<ge>N. use s h = NoUse)
     \<and> (\<forall>i<NBUF. refcnt (the_buf (bc s) i) = card {h. h < N \<and> on i (use s h)})
     \<and> (\<forall>i<NBUF. blocked (the_buf (bc s) i) \<longleftrightarrow> (\<exists>h. holds i (use s h)))
     \<and> (\<forall>i h k. holds i (use s h) \<longrightarrow> holds i (use s k) \<longrightarrow> h = k)"

text \<open>A clean buffer nobody is changing agrees with the disk.\<close>

definition clean_inv :: "bsys \<Rightarrow> bool" where
  "clean_inv s \<longleftrightarrow> (\<forall>i<NBUF. valid (the_buf (bc s) i) \<longrightarrow> \<not> dirty (the_buf (bc s) i) \<longrightarrow>
     (\<forall>h d n. use s h \<noteq> Has i d n True) \<longrightarrow> bdata (the_buf (bc s) i) = disk (bc s) (blockno (the_buf (bc s) i)))
     \<and> (\<forall>i<NBUF. valid (the_buf (bc s) i) \<longrightarrow> bdev (the_buf (bc s) i) = 1)
     \<and> (\<forall>i<NBUF. dirty (the_buf (bc s) i) \<longrightarrow> valid (the_buf (bc s) i))"

lemma bset_simps [simp]: "length (bufs (bset i f c)) = length (bufs c)" "lru (bset i f c) = lru c"
  "disk (bset i f c) = disk c" "disksize (bset i f c) = disksize c"
  by (simp_all add: bset_def)

lemma bset_nth: "i < length (bufs c) \<Longrightarrow> the_buf (bset i f c) j = (if j = i then f (the_buf c i) else the_buf c j)"
  by (simp add: bset_def)

lemma use_ok_frame:
  assumes "use_ok c u" "\<And>i. on i u \<Longrightarrow> bdev (the_buf c' i) = bdev (the_buf c i)
      \<and> blockno (the_buf c' i) = blockno (the_buf c i) \<and> (valid (the_buf c i) \<longrightarrow> valid (the_buf c' i))"
  shows "use_ok c' u"
  using assms by (cases u) auto

lemma holds_on: "holds i u \<Longrightarrow> on i u"
  by (cases u) auto

lemma on_one: "on i u \<Longrightarrow> on j u \<Longrightarrow> i = j"
  by (cases u) auto

text \<open>One use moves, and only its buffer changes.\<close>

lemma use_inv_move:
  assumes inv: "use_inv N s" and h: "h < N" "i < NBUF"
    and old: "use s h = NoUse \<or> on i (use s h)" and new: "u = NoUse \<or> on i u"
    and s': "use s' = (use s)(h := u)" "\<And>j. j \<noteq> i \<Longrightarrow> the_buf (bc s') j = the_buf (bc s) j"
    and ok: "use_ok (bc s') u"
    and cnt: "refcnt (the_buf (bc s') i) + (if on i (use s h) then 1 else 0)
        = refcnt (the_buf (bc s) i) + (if on i u then 1 else 0)"
    and same: "\<And>k. k \<noteq> h \<Longrightarrow> on i (use s k) \<Longrightarrow> bdev (the_buf (bc s') i) = bdev (the_buf (bc s) i)
        \<and> blockno (the_buf (bc s') i) = blockno (the_buf (bc s) i)
        \<and> (valid (the_buf (bc s) i) \<longrightarrow> valid (the_buf (bc s') i))"
    and lk: "blocked (the_buf (bc s') i) \<longleftrightarrow> holds i u \<or> (\<exists>k. k \<noteq> h \<and> holds i (use s k))"
    and one: "\<And>k. holds i u \<Longrightarrow> k \<noteq> h \<Longrightarrow> \<not> holds i (use s k)"
  shows "use_inv N s'"
proof -
  have I: "\<And>h. use_ok (bc s) (use s h)" "\<And>h. N \<le> h \<Longrightarrow> use s h = NoUse"
    "\<And>i. i < NBUF \<Longrightarrow> refcnt (the_buf (bc s) i) = card {h. h < N \<and> on i (use s h)}"
    "\<And>i. i < NBUF \<Longrightarrow> blocked (the_buf (bc s) i) \<longleftrightarrow> (\<exists>h. holds i (use s h))"
    "\<And>i h k. holds i (use s h) \<Longrightarrow> holds i (use s k) \<Longrightarrow> h = k"
    using inv unfolding use_inv_def by blast+
  have off: "on j (use s h) = on j u" if "j \<noteq> i" for j
  proof -
    have "\<not> on j (use s h)" using old that on_one by fastforce
    moreover have "\<not> on j u" using new that on_one by fastforce
    ultimately show ?thesis by simp
  qed
  show ?thesis
    unfolding use_inv_def
  proof (intro conjI allI impI)
    fix k show "use_ok (bc s') (use s' k)"
    proof (cases "k = h")
      case False
      have "use_ok (bc s') (use s k)"
        using use_ok_frame [OF I(1), of k "bc s'"] same [OF False] s'(2) by metis
      then show ?thesis using False s'(1) by simp
    qed (use ok s'(1) in simp)
  next
    fix k assume "N \<le> k" then show "use s' k = NoUse" using I(2) h(1) s'(1) by simp
  next
    fix j assume j: "j < NBUF"
    show "refcnt (the_buf (bc s') j) = card {k. k < N \<and> on j (use s' k)}"
    proof (cases "j = i")
      case False
      then show ?thesis
        using counted_same [of "on j" "use s" h u N, OF off [OF False]] I(3) [OF j] s'(2) [OF False] s'(1) by simp
    next
      case True
      have e: "refcnt (the_buf (bc s) i) = card {k. k < N \<and> on i (use s k)}" by (rule I(3) [OF h(2)])
      consider "on i (use s h) = on i u" | "on i u" "\<not> on i (use s h)" | "\<not> on i u" "on i (use s h)" by blast
      then have "refcnt (the_buf (bc s') i) = card {k. k < N \<and> on i (((use s)(h := u)) k)}"
      proof cases
        case 1
        then show ?thesis using counted_same [of "on i" "use s" h u N] cnt e by simp
      next
        case 2
        then show ?thesis using counted_in [of h N "on i" "use s" u, OF h(1)] cnt e by simp
      next
        case 3
        then show ?thesis using counted_out [of h N "on i" "use s" u, OF h(1)] cnt e by simp
      qed
      then show ?thesis using True s'(1) by simp
    qed
    have hj: "holds j (use s' k) \<longleftrightarrow> (if k = h then holds j u else holds j (use s k))" for k by (simp add: s'(1))
    show "blocked (the_buf (bc s') j) \<longleftrightarrow> (\<exists>k. holds j (use s' k))"
    proof (cases "j = i")
      case False
      then have "\<not> holds j u" "\<not> holds j (use s h)"
        using old new holds_on on_one by (metis on.simps(1))+
      then show ?thesis using I(4) [OF j] s'(2) [OF False] unfolding hj by metis
    next
      case True
      then show ?thesis using lk unfolding hj by metis
    qed
  next
    fix j k l assume kl: "holds j (use s' k)" "holds j (use s' l)"
    show "k = l"
    proof (cases "k = h \<or> l = h")
      case False
      then show ?thesis using kl I(5) s'(1) by simp
    next
      case True
      have ji: "holds j u \<Longrightarrow> j = i" using new holds_on on_one by (metis on.simps(1))
      show ?thesis
      proof (rule ccontr)
        assume ne: "k \<noteq> l"
        from True show False
        proof
          assume "k = h"
          then have "holds j u" "holds j (use s l)" using kl ne s'(1) by simp_all
          then show False using one [of l] ji ne \<open>k = h\<close> by simp
        next
          assume "l = h"
          then have "holds j u" "holds j (use s k)" using kl ne s'(1) by simp_all
          then show False using one [of k] ji ne \<open>l = h\<close> by simp
        qed
      qed
    qed
  qed
qed

lemma iderw_Inr:
  assumes "iderw i c = Inr c'" "i < length (bufs c)"
  shows "bdev (the_buf c i) = 1" "lru c' = lru c" "length (bufs c') = length (bufs c)" "disksize c' = disksize c"
    "j \<noteq> i \<Longrightarrow> the_buf c' j = the_buf c j"
    "dirty (the_buf c i) \<Longrightarrow> the_buf c' i = (the_buf c i)\<lparr>valid := True, dirty := False\<rparr>
       \<and> disk c' = (disk c)(blockno (the_buf c i) := bdata (the_buf c i))"
    "\<not> dirty (the_buf c i) \<Longrightarrow> the_buf c' i = (the_buf c i)\<lparr>valid := True, bdata := disk c (blockno (the_buf c i))\<rparr>
       \<and> disk c' = disk c"
  using assms by (auto simp: iderw_def Let_def bset_def split: if_splits)

lemma bget_Inr:
  assumes "bget d n c = Inr (i, c')" and c: "cache_ok c"
  shows "i < NBUF" "lru c' = lru c" "disk c' = disk c" "length (bufs c') = length (bufs c)"
    "j \<noteq> i \<Longrightarrow> the_buf c' j = the_buf c j"
    "bdev (the_buf c' i) = d" "blockno (the_buf c' i) = n" "blocked (the_buf c' i) = blocked (the_buf c i)"
    "refcnt (the_buf c' i) = refcnt (the_buf c i) + 1"
    "bdev (the_buf c i) = d \<and> blockno (the_buf c i) = n \<and> valid (the_buf c' i) = valid (the_buf c i)
       \<and> dirty (the_buf c' i) = dirty (the_buf c i) \<and> bdata (the_buf c' i) = bdata (the_buf c i)
     \<or> refcnt (the_buf c i) = 0 \<and> \<not> dirty (the_buf c i) \<and> \<not> valid (the_buf c' i) \<and> \<not> dirty (the_buf c' i)
       \<and> (\<forall>j<NBUF. bdev (the_buf c j) = d \<longrightarrow> blockno (the_buf c j) \<noteq> n)"
proof -
  have L: "set (lru c) = {..<NBUF}" "length (bufs c) = NBUF" using c by (auto simp: cache_ok_def)
  have "i < NBUF \<and> lru c' = lru c \<and> disk c' = disk c \<and> length (bufs c') = length (bufs c)
    \<and> (\<forall>j. j \<noteq> i \<longrightarrow> the_buf c' j = the_buf c j)
    \<and> bdev (the_buf c' i) = d \<and> blockno (the_buf c' i) = n \<and> blocked (the_buf c' i) = blocked (the_buf c i)
    \<and> refcnt (the_buf c' i) = refcnt (the_buf c i) + 1
    \<and> (bdev (the_buf c i) = d \<and> blockno (the_buf c i) = n \<and> valid (the_buf c' i) = valid (the_buf c i)
       \<and> dirty (the_buf c' i) = dirty (the_buf c i) \<and> bdata (the_buf c' i) = bdata (the_buf c i)
     \<or> refcnt (the_buf c i) = 0 \<and> \<not> dirty (the_buf c i) \<and> \<not> valid (the_buf c' i) \<and> \<not> dirty (the_buf c' i)
       \<and> (\<forall>j<NBUF. bdev (the_buf c j) = d \<longrightarrow> blockno (the_buf c j) \<noteq> n))"
  proof (cases "find (\<lambda>i. bdev (the_buf c i) = d \<and> blockno (the_buf c i) = n) (lru c)")
    case (Some k)
    then have k: "k \<in> set (lru c)" "bdev (the_buf c k) = d" "blockno (the_buf c k) = n"
      by (auto simp: find_Some_iff)
    then have "i = k" "c' = bset k (\<lambda>b. b\<lparr>refcnt := refcnt b + 1\<rparr>) c" using assms(1) Some by (auto simp: bget_def)
    then show ?thesis using k L by (auto simp: bset_nth)
  next
    case None
    then have no: "\<forall>j<NBUF. bdev (the_buf c j) = d \<longrightarrow> blockno (the_buf c j) \<noteq> n"
      using L by (auto simp: find_None_iff)
    obtain k where f: "find (\<lambda>i. refcnt (the_buf c i) = 0 \<and> \<not> dirty (the_buf c i)) (rev (lru c)) = Some k"
      and e: "i = k" "c' = bset k (\<lambda>b. b\<lparr>bdev := d, blockno := n, valid := False, dirty := False, refcnt := 1\<rparr>) c"
      using assms(1) None by (auto simp: bget_def split: option.splits)
    from f have "k \<in> set (rev (lru c)) \<and> refcnt (the_buf c k) = 0 \<and> \<not> dirty (the_buf c k)"
      unfolding find_Some_iff by (metis nth_mem)
    then have "k \<in> set (lru c)" "refcnt (the_buf c k) = 0" "\<not> dirty (the_buf c k)" by auto
    then show ?thesis using e L no by (auto simp: bset_nth)
  qed
  then show "i < NBUF" "lru c' = lru c" "disk c' = disk c" "length (bufs c') = length (bufs c)"
    "j \<noteq> i \<Longrightarrow> the_buf c' j = the_buf c j"
    "bdev (the_buf c' i) = d" "blockno (the_buf c' i) = n" "blocked (the_buf c' i) = blocked (the_buf c i)"
    "refcnt (the_buf c' i) = refcnt (the_buf c i) + 1"
    "bdev (the_buf c i) = d \<and> blockno (the_buf c i) = n \<and> valid (the_buf c' i) = valid (the_buf c i)
       \<and> dirty (the_buf c' i) = dirty (the_buf c i) \<and> bdata (the_buf c' i) = bdata (the_buf c i)
     \<or> refcnt (the_buf c i) = 0 \<and> \<not> dirty (the_buf c i) \<and> \<not> valid (the_buf c' i) \<and> \<not> dirty (the_buf c' i)
       \<and> (\<forall>j<NBUF. bdev (the_buf c j) = d \<longrightarrow> blockno (the_buf c j) \<noteq> n)"
    by blast+
qed

lemma use_invD:
  assumes "use_inv N s"
  shows "use_ok (bc s) (use s h)" "N \<le> h \<Longrightarrow> use s h = NoUse"
    "i < NBUF \<Longrightarrow> refcnt (the_buf (bc s) i) = card {h. h < N \<and> on i (use s h)}"
    "i < NBUF \<Longrightarrow> blocked (the_buf (bc s) i) \<longleftrightarrow> (\<exists>h. holds i (use s h))"
    "holds i (use s h) \<Longrightarrow> holds i (use s k) \<Longrightarrow> h = k"
  using assms unfolding use_inv_def by blast+

lemma cache_okD:
  assumes "cache_ok c"
  shows "length (bufs c) = NBUF" "distinct (lru c)" "set (lru c) = {..<NBUF}"
    "\<And>i j. i < NBUF \<Longrightarrow> j < NBUF \<Longrightarrow> bdev (the_buf c i) \<noteq> 0 \<Longrightarrow> bdev (the_buf c i) = bdev (the_buf c j) \<Longrightarrow>
       blockno (the_buf c i) = blockno (the_buf c j) \<Longrightarrow> i = j"
  using assms unfolding cache_ok_def by blast+

lemma cache_ok_same:
  assumes "cache_ok c" "length (bufs c') = length (bufs c)" "lru c' = lru c"
    "\<And>i. bdev (the_buf c' i) = bdev (the_buf c i)" "\<And>i. blockno (the_buf c' i) = blockno (the_buf c i)"
  shows "cache_ok c'"
  using assms by (simp add: cache_ok_def)

lemma busy_ref:
  assumes "use_inv N s" "on i (use s h)" "i < NBUF"
  shows "refcnt (the_buf (bc s) i) \<noteq> 0"
proof -
  have "h < N" using assms(1,2) use_invD(2) [OF assms(1), of h] by (cases "N \<le> h") auto
  then have "h \<in> {h. h < N \<and> on i (use s h)}" using assms(2) by simp
  then have "{h. h < N \<and> on i (use s h)} \<noteq> {}" by blast
  then show ?thesis using use_invD(3) [OF assms(1,3)] by simp
qed

definition binv :: "nat \<Rightarrow> bsys \<Rightarrow> bool" where
  "binv N s \<longleftrightarrow> cache_ok (bc s) \<and> use_inv N s \<and> clean_inv s"

text \<open>The invariants after \<open>bget\<close>.\<close>

lemma binv_get:
  assumes i: "binv N s" and h: "h < N" "use s h = NoUse" "d \<noteq> 0" and g: "bget d n (bc s) = Inr (i, c)"
  shows "binv N (s\<lparr>bc := c, use := (use s)(h := Wants i d n)\<rparr>)"
proof -
  have C: "cache_ok (bc s)" and U: "use_inv N s" and K: "clean_inv s" using i by (auto simp: binv_def)
  note G = bget_Inr [OF g C] and Cd = cache_okD [OF C]
  let ?s = "s\<lparr>bc := c, use := (use s)(h := Wants i d n)\<rparr>"
  have reused: "refcnt (the_buf (bc s) i) = 0 \<Longrightarrow> \<not> on i (use s k)" for k using busy_ref [OF U _ G(1)] by blast
  have "cache_ok c"
    unfolding cache_ok_def
  proof (intro conjI allI impI)
    show "length (bufs c) = NBUF" "distinct (lru c)" "set (lru c) = {..<NBUF}" using G Cd by simp_all
    fix a b assume ab: "a < NBUF" "b < NBUF" "bdev (the_buf c a) \<noteq> 0"
      "bdev (the_buf c a) = bdev (the_buf c b)" "blockno (the_buf c a) = blockno (the_buf c b)"
    have key: "\<not> (x \<noteq> i \<and> x < NBUF \<and> bdev (the_buf c x) = d \<and> blockno (the_buf c x) = n)" for x
    proof
      assume x: "x \<noteq> i \<and> x < NBUF \<and> bdev (the_buf c x) = d \<and> blockno (the_buf c x) = n"
      then have x': "bdev (the_buf (bc s) x) = d" "blockno (the_buf (bc s) x) = n" using G(5) [of x] by auto
      from G(10) show False using x x' Cd(4) [of x i] h(3) G(1) by metis
    qed
    show "a = b"
    proof (cases "a = i \<or> b = i")
      case True
      then show ?thesis using key [of a] key [of b] ab G(6,7) by metis
    next
      case False
      then show ?thesis using ab G(5) Cd(4) by metis
    qed
  qed
  moreover have "use_inv N ?s"
  proof (rule use_inv_move [OF U h(1) G(1), where u = "Wants i d n"])
    fix k assume k: "k \<noteq> h" "on i (use s k)"
    then have "refcnt (the_buf (bc s) i) \<noteq> 0" using reused by blast
    then show "bdev (the_buf (bc ?s) i) = bdev (the_buf (bc s) i) \<and> blockno (the_buf (bc ?s) i) = blockno (the_buf (bc s) i)
        \<and> (valid (the_buf (bc s) i) \<longrightarrow> valid (the_buf (bc ?s) i))" using G(6,7,10) by auto
  next
    show "blocked (the_buf (bc ?s) i) \<longleftrightarrow> holds i (Wants i d n) \<or> (\<exists>k. k \<noteq> h \<and> holds i (use s k))"
    proof -
      have "\<not> holds i (use s h)" by (simp add: h(2))
      then show ?thesis using G(8) use_invD(4) [OF U G(1)] by (simp, metis)
    qed
  qed (use h G in auto)
  moreover have "clean_inv ?s"
    unfolding clean_inv_def bsys.select_convs bsys.update_convs
  proof (intro conjI allI impI)
    fix j assume j: "j < NBUF" "valid (the_buf (bc ?s) j)"
    have same: "valid (the_buf (bc s) j) \<and> dirty (the_buf (bc s) j) = dirty (the_buf c j)
        \<and> bdata (the_buf c j) = bdata (the_buf (bc s) j) \<and> bdev (the_buf c j) = bdev (the_buf (bc s) j)
        \<and> blockno (the_buf c j) = blockno (the_buf (bc s) j)"
      using j G(5-7,10) by (cases "j = i") auto
    then show "bdev (the_buf (bc ?s) j) = 1" using K j(1) unfolding clean_inv_def by simp
    assume nd: "\<not> dirty (the_buf (bc ?s) j)" and nm: "\<forall>k d n. use ?s k \<noteq> Has j d n True"
    have "use s k \<noteq> Has j d' n' True" for k d' n'
    proof (cases "k = h")
      case True then show ?thesis using h(2) by simp
    next
      case False then show ?thesis using nm [rule_format, of k] by simp
    qed
    then show "bdata (the_buf (bc ?s) j) = disk (bc ?s) (blockno (the_buf (bc ?s) j))"
      using K j(1) same nd G(3) unfolding clean_inv_def by simp
  next
    fix j assume "j < NBUF" "dirty (the_buf (bc ?s) j)"
    then show "valid (the_buf (bc ?s) j)" using K G(1,5,10) unfolding clean_inv_def by (cases "j = i") auto
  qed
  ultimately show ?thesis by (simp add: binv_def)
qed

text \<open>The other steps are by a use that has or wants the buffer.\<close>

lemma clean_inv_move:
  assumes K: "clean_inv s" and C: "cache_ok (bc s)" and i: "i < NBUF" "bdev (the_buf (bc s) i) = 1"
    and s': "\<And>j. j \<noteq> i \<Longrightarrow> the_buf (bc s') j = the_buf (bc s) j" "use s' = (use s)(h := u)"
      "\<And>n. n \<noteq> blockno (the_buf (bc s) i) \<Longrightarrow> disk (bc s') n = disk (bc s) n"
    and old: "on i (use s h)"
    and new: "bdev (the_buf (bc s') i) = 1" "dirty (the_buf (bc s') i) \<Longrightarrow> valid (the_buf (bc s') i)"
      "valid (the_buf (bc s') i) \<Longrightarrow> \<not> dirty (the_buf (bc s') i) \<Longrightarrow> \<forall>h d n. use s' h \<noteq> Has i d n True \<Longrightarrow>
         bdata (the_buf (bc s') i) = disk (bc s') (blockno (the_buf (bc s') i))"
  shows "clean_inv s'"
  unfolding clean_inv_def
proof (intro conjI allI impI)
  fix j assume j: "j < NBUF" "valid (the_buf (bc s') j)"
  show "bdev (the_buf (bc s') j) = 1" using K j new(1) s'(1) unfolding clean_inv_def by (cases "j = i") auto
  assume nd: "\<not> dirty (the_buf (bc s') j)" and nm: "\<forall>h d n. use s' h \<noteq> Has j d n True"
  show "bdata (the_buf (bc s') j) = disk (bc s') (blockno (the_buf (bc s') j))"
  proof (cases "j = i")
    case True
    then show ?thesis using new(3) j nd nm by simp
  next
    case False
    have b: "the_buf (bc s') j = the_buf (bc s) j" by (rule s'(1) [OF False])
    have "use s k \<noteq> Has j d n True" for k d n
    proof (cases "k = h")
      case True
      then show ?thesis using old False by auto
    next
      case k: False
      then show ?thesis using nm s'(2) by (metis fun_upd_other)
    qed
    then have e: "bdata (the_buf (bc s) j) = disk (bc s) (blockno (the_buf (bc s) j))" "bdev (the_buf (bc s) j) = 1"
      using K j nd unfolding clean_inv_def b by blast+
    have "blockno (the_buf (bc s) j) \<noteq> blockno (the_buf (bc s) i)"
      using cache_okD(4) [OF C, of j i] j(1) i e(2) False by auto
    then show ?thesis using e s'(3) unfolding b by simp
  qed
next
  fix j assume "j < NBUF" "dirty (the_buf (bc s') j)"
  then show "valid (the_buf (bc s') j)" using K new(2) s'(1) unfolding clean_inv_def by (cases "j = i") auto
qed

lemma clean_invD:
  assumes "clean_inv s" "i < NBUF"
  shows "valid (the_buf (bc s) i) \<Longrightarrow> bdev (the_buf (bc s) i) = 1"
    "dirty (the_buf (bc s) i) \<Longrightarrow> valid (the_buf (bc s) i)"
    "valid (the_buf (bc s) i) \<Longrightarrow> \<not> dirty (the_buf (bc s) i) \<Longrightarrow> \<forall>h d n. use s h \<noteq> Has i d n True \<Longrightarrow>
      bdata (the_buf (bc s) i) = disk (bc s) (blockno (the_buf (bc s) i))"
  using assms unfolding clean_inv_def by blast+

lemma binvD: "binv N s \<Longrightarrow> cache_ok (bc s) \<and> use_inv N s \<and> clean_inv s \<and> length (bufs (bc s)) = NBUF"
  by (simp add: binv_def cache_ok_def)

text \<open>A use that has the buffer changes data and flags.\<close>

lemma binv_holder:
  assumes i: "binv N s" and h: "h < N" "use s h = Has i d n m"
    and c: "\<And>j. j \<noteq> i \<Longrightarrow> the_buf c j = the_buf (bc s) j" "length (bufs c) = length (bufs (bc s))" "lru c = lru (bc s)"
      "\<And>k. k \<noteq> n \<Longrightarrow> disk c k = disk (bc s) k"
    and b: "bdev (the_buf c i) = d" "blockno (the_buf c i) = n" "valid (the_buf c i)" "blocked (the_buf c i)"
      "refcnt (the_buf c i) = refcnt (the_buf (bc s) i)"
    and cl: "\<not> dirty (the_buf c i) \<Longrightarrow> \<not> m' \<Longrightarrow> bdata (the_buf c i) = disk c n"
  shows "binv N (s\<lparr>bc := c, use := (use s)(h := Has i d n m')\<rparr>)"
proof -
  have I: "cache_ok (bc s)" "use_inv N s" "clean_inv s" using i by (auto simp: binv_def)
  have ok: "i < NBUF" "bdev (the_buf (bc s) i) = d" "blockno (the_buf (bc s) i) = n" "d \<noteq> 0" "valid (the_buf (bc s) i)"
    using use_invD(1) [OF I(2), of h] h(2) by auto
  have d: "d = 1" using clean_invD(1) [OF I(3) ok(1,5)] ok(2) by simp
  let ?s = "s\<lparr>bc := c, use := (use s)(h := Has i d n m')\<rparr>"
  have bb: "bdev (the_buf c j) = bdev (the_buf (bc s) j)" "blockno (the_buf c j) = blockno (the_buf (bc s) j)" for j
    using b(1,2) ok(2,3) c(1) by (cases "j = i"; simp)+
  have "cache_ok c" by (rule cache_ok_same [OF I(1) c(2,3) bb])
  moreover have "use_inv N ?s"
  proof (rule use_inv_move [OF I(2) h(1) ok(1), where u = "Has i d n m'"])
    show "use_ok (bc ?s) (Has i d n m')" using b ok by simp
    fix k assume "k \<noteq> h"
    then show "\<not> holds i (use s k)" using use_invD(5) [OF I(2), of i h k] h(2) by auto
  qed (use h b ok c(1) in simp_all)
  moreover have "clean_inv ?s"
  proof (rule clean_inv_move [OF I(3,1) ok(1), where h = h and u = "Has i d n m'"])
    show "bdev (the_buf (bc s) i) = 1" "bdev (the_buf (bc ?s) i) = 1" using ok(2) d b(1) by simp_all
    show "\<And>j. j \<noteq> i \<Longrightarrow> the_buf (bc ?s) j = the_buf (bc s) j" using c(1) by simp
    show "\<And>k. k \<noteq> blockno (the_buf (bc s) i) \<Longrightarrow> disk (bc ?s) k = disk (bc s) k" using c(4) ok(3) by simp
    show "use ?s = (use s)(h := Has i d n m')" "on i (use s h)" using h(2) by simp_all
    show "valid (the_buf (bc ?s) i)" using b(3) by simp
    assume "\<not> dirty (the_buf (bc ?s) i)" "\<forall>k d n. use ?s k \<noteq> Has i d n True"
    moreover from this(2) [rule_format, of h d n] have "\<not> m'" by simp
    ultimately show "bdata (the_buf (bc ?s) i) = disk (bc ?s) (blockno (the_buf (bc ?s) i))" using cl b(2) by simp
  qed
  ultimately show ?thesis by (simp add: binv_def)
qed

lemma has_facts:
  assumes "binv N s" "use s h = Has i d n m"
  shows "i < NBUF" "d = 1" "bdev (the_buf (bc s) i) = d" "blockno (the_buf (bc s) i) = n" "valid (the_buf (bc s) i)"
    "blocked (the_buf (bc s) i)" "i < length (bufs (bc s))"
proof -
  have I: "cache_ok (bc s)" "use_inv N s" "clean_inv s" "length (bufs (bc s)) = NBUF" using binvD [OF assms(1)] by auto
  show "i < NBUF" "bdev (the_buf (bc s) i) = d" "blockno (the_buf (bc s) i) = n" "valid (the_buf (bc s) i)"
    using use_invD(1) [OF I(2), of h] assms(2) by auto
  then show "d = 1" "i < length (bufs (bc s))" using clean_invD(1) [OF I(3), of i] I(4) by auto
  show "blocked (the_buf (bc s) i)"
    using use_invD(4) [OF I(2) \<open>i < NBUF\<close>] assms(2) holds.simps(1) by metis
qed

lemma bwrite_Inr:
  assumes "bwrite i c = Inr c'" "i < length (bufs c)"
  shows "bdev (the_buf c i) = 1" "lru c' = lru c" "length (bufs c') = length (bufs c)"
    "j \<noteq> i \<Longrightarrow> the_buf c' j = the_buf c j"
    "the_buf c' i = (the_buf c i)\<lparr>valid := True, dirty := False\<rparr>"
    "disk c' = (disk c)(blockno (the_buf c i) := bdata (the_buf c i))"
proof -
  let ?c = "bset i (\<lambda>b. b\<lparr>dirty := True\<rparr>) c"
  have w: "iderw i ?c = Inr c'" using assms by (auto simp: bwrite_def split: if_splits)
  have l: "i < length (bufs ?c)" using assms(2) by simp
  have n: "the_buf ?c k = (if k = i then (the_buf c i)\<lparr>dirty := True\<rparr> else the_buf c k)" for k
    using assms(2) by (simp add: bset_nth)
  note I = iderw_Inr [OF w l]
  show "bdev (the_buf c i) = 1" "lru c' = lru c" "length (bufs c') = length (bufs c)" "j \<noteq> i \<Longrightarrow> the_buf c' j = the_buf c j"
    using I(1-3,5) by (simp_all add: n)
  show "the_buf c' i = (the_buf c i)\<lparr>valid := True, dirty := False\<rparr>"
    "disk c' = (disk c)(blockno (the_buf c i) := bdata (the_buf c i))"
    using I(6) by (simp_all add: n)
qed

lemma bread_locked_Inr:
  assumes "bread_locked i c = Inr c'" "i < length (bufs c)" "valid (the_buf c i) \<or> \<not> dirty (the_buf c i)"
  shows "\<not> blocked (the_buf c i)" "lru c' = lru c" "length (bufs c') = length (bufs c)" "disk c' = disk c"
    "j \<noteq> i \<Longrightarrow> the_buf c' j = the_buf c j"
    "the_buf c' i = (the_buf c i)\<lparr>blocked := True, valid := True,
       bdata := if valid (the_buf c i) then bdata (the_buf c i) else disk c (blockno (the_buf c i))\<rparr>"
    "valid (the_buf c i) \<or> bdev (the_buf c i) = 1"
proof -
  let ?c = "bset i (\<lambda>b. b\<lparr>blocked := True\<rparr>) c"
  have n: "the_buf ?c k = (if k = i then (the_buf c i)\<lparr>blocked := True\<rparr> else the_buf c k)" for k
    using assms(2) by (simp add: bset_nth)
  have l: "i < length (bufs ?c)" using assms(2) by simp
  have b: "\<not> blocked (the_buf c i)" and r: "(if valid (the_buf c i) then Inr ?c else iderw i ?c) = Inr c'"
    using assms(1) by (auto simp: bread_locked_def n split: if_splits)
  show "\<not> blocked (the_buf c i)" by (rule b)
  have "lru c' = lru c \<and> length (bufs c') = length (bufs c) \<and> disk c' = disk c
    \<and> (\<forall>j. j \<noteq> i \<longrightarrow> the_buf c' j = the_buf c j)
    \<and> the_buf c' i = (the_buf c i)\<lparr>blocked := True, valid := True,
       bdata := if valid (the_buf c i) then bdata (the_buf c i) else disk c (blockno (the_buf c i))\<rparr>
    \<and> (valid (the_buf c i) \<or> bdev (the_buf c i) = 1)"
  proof (cases "valid (the_buf c i)")
    case True
    then have "c' = ?c" using r by simp
    then show ?thesis using True by (simp add: n)
  next
    case False
    then have w: "iderw i ?c = Inr c'" "\<not> dirty (the_buf c i)" using r assms(3) by auto
    note I = iderw_Inr [OF w(1) l]
    show ?thesis using I(1-3,5,7) w(2) False by (simp add: n)
  qed
  then show "lru c' = lru c" "length (bufs c') = length (bufs c)" "disk c' = disk c"
    "j \<noteq> i \<Longrightarrow> the_buf c' j = the_buf c j"
    "the_buf c' i = (the_buf c i)\<lparr>blocked := True, valid := True,
       bdata := if valid (the_buf c i) then bdata (the_buf c i) else disk c (blockno (the_buf c i))\<rparr>"
    "valid (the_buf c i) \<or> bdev (the_buf c i) = 1" by blast+
qed

lemma wants_facts:
  assumes "binv N s" "use s h = Wants i d n"
  shows "i < NBUF" "d \<noteq> 0" "bdev (the_buf (bc s) i) = d" "blockno (the_buf (bc s) i) = n" "i < length (bufs (bc s))"
    "valid (the_buf (bc s) i) \<or> \<not> dirty (the_buf (bc s) i)"
proof -
  have I: "cache_ok (bc s)" "use_inv N s" "clean_inv s" "length (bufs (bc s)) = NBUF" using binvD [OF assms(1)] by auto
  show *: "i < NBUF" "d \<noteq> 0" "bdev (the_buf (bc s) i) = d" "blockno (the_buf (bc s) i) = n"
    using use_invD(1) [OF I(2), of h] assms(2) by auto
  then show "i < length (bufs (bc s))" "valid (the_buf (bc s) i) \<or> \<not> dirty (the_buf (bc s) i)"
    using clean_invD(2) [OF I(3), of i] I(4) by auto
qed

lemma binv_lock:
  assumes i: "binv N s" and h: "h < N" "use s h = Wants i d n" and r: "bread_locked i (bc s) = Inr c"
  shows "binv N (s\<lparr>bc := c, use := (use s)(h := Has i d n False)\<rparr>)"
proof -
  have I: "cache_ok (bc s)" "use_inv N s" "clean_inv s" using i by (auto simp: binv_def)
  note W = wants_facts [OF i h(2)] and R = bread_locked_Inr [OF r W(5,6)]
  let ?s = "s\<lparr>bc := c, use := (use s)(h := Has i d n False)\<rparr>"
  have d: "bdev (the_buf (bc s) i) = 1" using R(7) clean_invD(1) [OF I(3) W(1)] by blast
  have nh: "\<not> holds i (use s k)" for k using R(1) use_invD(4) [OF I(2) W(1)] by blast
  have "cache_ok c"
  proof (rule cache_ok_same [OF I(1) R(3,2)])
    show "bdev (the_buf c j) = bdev (the_buf (bc s) j)" "blockno (the_buf c j) = blockno (the_buf (bc s) j)" for j
      using R(5) [of j] R(6) by (cases "j = i"; simp)+
  qed
  moreover have "use_inv N ?s"
  proof (rule use_inv_move [OF I(2) h(1) W(1), where u = "Has i d n False"])
    show "use_ok (bc ?s) (Has i d n False)" using W R(6) by simp
    show "blocked (the_buf (bc ?s) i) = (holds i (Has i d n False) \<or> (\<exists>k. k \<noteq> h \<and> holds i (use s k)))"
      using R(6) by simp
    show "\<not> holds i (use s k)" for k by (rule nh)
    show "refcnt (the_buf (bc ?s) i) + (if on i (use s h) then 1 else 0)
        = refcnt (the_buf (bc s) i) + (if on i (Has i d n False) then 1 else 0)" using h(2) R(6) by simp
    show "the_buf (bc ?s) j = the_buf (bc s) j" if "j \<noteq> i" for j using R(5) that by simp
  qed (use h R(6) in simp_all)
  moreover have "clean_inv ?s"
  proof (rule clean_inv_move [OF I(3,1) W(1) d, where h = h and u = "Has i d n False"])
    show "\<And>j. j \<noteq> i \<Longrightarrow> the_buf (bc ?s) j = the_buf (bc s) j" using R(5) by simp
    show "use ?s = (use s)(h := Has i d n False)" "on i (use s h)" using h(2) by simp_all
    show "\<And>k. k \<noteq> blockno (the_buf (bc s) i) \<Longrightarrow> disk (bc ?s) k = disk (bc s) k" using R(4) by simp
    show "bdev (the_buf (bc ?s) i) = 1" "valid (the_buf (bc ?s) i)" using d R(6) by simp_all
    assume nd: "\<not> dirty (the_buf (bc ?s) i)"
    have nm: "\<forall>k d n. use s k \<noteq> Has i d n True"
    proof (intro allI notI)
      fix k d n assume "use s k = Has i d n True"
      then have "holds i (use s k)" by simp
      then show False using nh by blast
    qed
    show "bdata (the_buf (bc ?s) i) = disk (bc ?s) (blockno (the_buf (bc ?s) i))"
      using clean_invD(3) [OF I(3) W(1) _ _ nm] nd R(4,6) by (cases "valid (the_buf (bc s) i)") simp_all
  qed
  ultimately show ?thesis by (simp add: binv_def)
qed

lemma brelse_Inr:
  assumes "brelse i c = Inr c'" "cache_ok c" "i < NBUF"
  shows "set (lru c') = {..<NBUF}" "distinct (lru c')" "length (bufs c') = length (bufs c)" "disk c' = disk c"
    "j \<noteq> i \<Longrightarrow> the_buf c' j = the_buf c j"
    "the_buf c' i = (the_buf c i)\<lparr>blocked := False, refcnt := refcnt (the_buf c i) - 1\<rparr>"
proof -
  let ?c = "bset i (\<lambda>b. b\<lparr>blocked := False, refcnt := refcnt b - 1\<rparr>) c"
  have C: "set (lru c) = {..<NBUF}" "distinct (lru c)" "i < length (bufs c)"
    using cache_okD(1-3) [OF assms(2)] assms(3) by auto
  have e: "c' = (if refcnt (the_buf ?c i) = 0 then ?c\<lparr>lru := i # remove1 i (lru ?c)\<rparr> else ?c)"
    using assms(1) by (auto simp: brelse_def Let_def split: if_splits)
  have "insert i (set (lru c) - {i}) = {..<NBUF}" using C(1) assms(3) by auto
  then have l: "set (i # remove1 i (lru c)) = {..<NBUF}" "distinct (i # remove1 i (lru c))"
    using C(2) by (simp_all add: set_remove1_eq)
  show "set (lru c') = {..<NBUF}" "distinct (lru c')" using l C unfolding e by auto
  show "length (bufs c') = length (bufs c)" "disk c' = disk c" unfolding e by simp_all
  show "j \<noteq> i \<Longrightarrow> the_buf c' j = the_buf c j"
    "the_buf c' i = (the_buf c i)\<lparr>blocked := False, refcnt := refcnt (the_buf c i) - 1\<rparr>"
    using C(3) unfolding e by (simp_all add: bset_nth)
qed

lemma binv_release:
  assumes i: "binv N s" and h: "h < N" "use s h = Has i d n False" and r: "brelse i (bc s) = Inr c"
  shows "binv N (s\<lparr>bc := c, use := (use s)(h := NoUse)\<rparr>)"
proof -
  have I: "cache_ok (bc s)" "use_inv N s" "clean_inv s" using i by (auto simp: binv_def)
  note W = has_facts [OF i h(2)] and R = brelse_Inr [OF r I(1) W(1)]
  let ?s = "s\<lparr>bc := c, use := (use s)(h := NoUse)\<rparr>"
  have only: "holds i (use s k) \<Longrightarrow> k = h" for k using use_invD(5) [OF I(2), of i h k] h(2) by simp
  have same: "bdev (the_buf c j) = bdev (the_buf (bc s) j)" "blockno (the_buf c j) = blockno (the_buf (bc s) j)"
    "valid (the_buf c j) = valid (the_buf (bc s) j)" "dirty (the_buf c j) = dirty (the_buf (bc s) j)"
    "bdata (the_buf c j) = bdata (the_buf (bc s) j)" for j
    using R(5) [of j] R(6) by (cases "j = i"; simp)+
  have "cache_ok c" using cache_okD [OF I(1)] R(1-3) by (simp add: cache_ok_def same)
  moreover have "use_inv N ?s"
  proof (rule use_inv_move [OF I(2) h(1) W(1), where u = NoUse])
    show "blocked (the_buf (bc ?s) i) = (holds i NoUse \<or> (\<exists>k. k \<noteq> h \<and> holds i (use s k)))"
      using R(6) only by auto
    show "refcnt (the_buf (bc ?s) i) + (if on i (use s h) then 1 else 0)
        = refcnt (the_buf (bc s) i) + (if on i NoUse then 1 else 0)"
      using h(2) R(6) busy_ref [OF I(2) _ W(1), of h] by simp
  qed (use h same R(5) in simp_all)
  moreover have "clean_inv ?s"
  proof (rule clean_inv_move [OF I(3,1) W(1), where h = h and u = NoUse])
    show "bdev (the_buf (bc s) i) = 1" using W by simp
    then show "bdev (the_buf (bc ?s) i) = 1" by (simp add: same)
    show "valid (the_buf (bc ?s) i)" using W by (simp add: same)
    show "\<And>j. j \<noteq> i \<Longrightarrow> the_buf (bc ?s) j = the_buf (bc s) j" using R(5) by simp
    show "use ?s = (use s)(h := NoUse)" "on i (use s h)" using h(2) by simp_all
    show "\<And>k. k \<noteq> blockno (the_buf (bc s) i) \<Longrightarrow> disk (bc ?s) k = disk (bc s) k" using R(4) by simp
    assume nd: "\<not> dirty (the_buf (bc ?s) i)"
    have nm: "\<forall>k d n. use s k \<noteq> Has i d n True"
    proof (intro allI notI)
      fix k d' n' assume k: "use s k = Has i d' n' True"
      then have "k = h" by (intro only) simp
      then show False using k h(2) by simp
    qed
    show "bdata (the_buf (bc ?s) i) = disk (bc ?s) (blockno (the_buf (bc ?s) i))"
      using clean_invD(3) [OF I(3) W(1,5) _ nm] nd R(4) by (simp add: same)
  qed
  ultimately show ?thesis by (simp add: binv_def)
qed

lemma binv_modify:
  assumes i: "binv N s" and h: "h < N" "use s h = Has i d n m"
  shows "binv N (s\<lparr>bc := bset i (\<lambda>b. b\<lparr>bdata := v\<rparr>) (bc s), use := (use s)(h := Has i d n True)\<rparr>)"
  by (rule binv_holder [OF i h]) (use has_facts [OF i h(2)] in \<open>simp_all add: bset_nth\<close>)

lemma binv_pin:
  assumes i: "binv N s" and h: "h < N" "use s h = Has i d n m"
  shows "binv N (s\<lparr>bc := pin i (bc s), use := (use s)(h := Has i d n False)\<rparr>)"
  by (rule binv_holder [OF i h]) (use has_facts [OF i h(2)] in \<open>simp_all add: pin_def bset_nth\<close>)

lemma binv_write:
  assumes i: "binv N s" and h: "h < N" "use s h = Has i d n m" and w: "bwrite i (bc s) = Inr c"
  shows "binv N (s\<lparr>bc := c, use := (use s)(h := Has i d n False)\<rparr>)"
proof -
  note F = has_facts [OF i h(2)]
  note W = bwrite_Inr [OF w F(7)]
  show ?thesis by (rule binv_holder [OF i h]) (use F W in simp_all)
qed

lemma binv_step: "bstep N s s' \<Longrightarrow> binv N s \<Longrightarrow> binv N s'"
  by (induction rule: bstep.induct)
    (blast intro: binv_get binv_lock binv_modify binv_write binv_pin binv_release)+

lemma fold_Cons: "fold (\<lambda>i l. i # l) xs ys = rev xs @ ys"
  by (induction xs arbitrary: ys) simp_all

lemma binv_init: "binv N (bsys0 d n)"
proof -
  have z: "j < NBUF \<Longrightarrow> the_buf (binit d n) j = zero_buf" for j by (simp add: binit_def)
  have "cache_ok (binit d n)"
    unfolding cache_ok_def by (auto simp: z zero_buf_def) (auto simp: binit_def fold_Cons)
  then show ?thesis
    by (simp add: binv_def bsys0_def use_inv_def clean_inv_def z zero_buf_def)
qed

abbreviation breach :: "nat \<Rightarrow> (u32 \<Rightarrow> blk) \<Rightarrow> u32 \<Rightarrow> bsys \<Rightarrow> bool" where
  "breach N d n s \<equiv> (bstep N)\<^sup>*\<^sup>* (bsys0 d n) s"

lemma breach_binv: "breach N d n s \<Longrightarrow> binv N s"
  by (induction rule: rtranclp_induct) (auto intro: binv_step binv_init)

section \<open>What a block contains\<close>

text \<open>The abstract disk behind the cache: a valid buffer's data, else what is on the disk.\<close>

definition cached :: "bcache \<Rightarrow> u32 \<Rightarrow> nat \<Rightarrow> bool" where
  "cached c n i \<longleftrightarrow> valid (the_buf c i) \<and> bdev (the_buf c i) = 1 \<and> blockno (the_buf c i) = n"

definition content :: "bcache \<Rightarrow> u32 \<Rightarrow> blk" where
  "content c n = (case find (cached c n) [0..<NBUF] of Some i \<Rightarrow> bdata (the_buf c i) | None \<Rightarrow> disk c n)"

lemma content_cached:
  assumes "cache_ok c" "i < NBUF" "cached c n i"
  shows "content c n = bdata (the_buf c i)"
proof (cases "find (cached c n) [0..<NBUF]")
  case None
  then show ?thesis using assms(2,3) by (auto simp: find_None_iff)
next
  case (Some j)
  then have "j < NBUF" "cached c n j" by (auto simp: find_Some_iff)
  then have "j = i" using cache_okD(4) [OF assms(1), of j i] assms(2,3) by (simp add: cached_def)
  then show ?thesis using Some by (simp add: content_def)
qed

lemma content_uncached:
  assumes "\<And>i. i < NBUF \<Longrightarrow> \<not> cached c n i"
  shows "content c n = disk c n"
proof -
  have "find (cached c n) [0..<NBUF] = None" using assms by (auto simp: find_None_iff)
  then show ?thesis by (simp add: content_def)
qed

text \<open>One buffer changes without changing what its block contains.\<close>

lemma content_same:
  assumes C: "cache_ok c" "cache_ok c'" and i: "i < NBUF"
    and j: "\<And>j. j \<noteq> i \<Longrightarrow> the_buf c' j = the_buf c j"
    and new: "cached c' n i \<Longrightarrow> bdata (the_buf c' i) = content c n"
    and gone: "cached c n i \<Longrightarrow> \<not> cached c' n i \<Longrightarrow> bdata (the_buf c i) = disk c' n"
    and d: "\<And>n. (\<And>j. j < NBUF \<Longrightarrow> \<not> cached c n j) \<Longrightarrow> disk c' n = disk c n"
  shows "content c' n = content c n"
proof (cases "cached c' n i")
  case True
  then show ?thesis using content_cached [OF C(2) i True] new by simp
next
  case False
  have other: "cached c' n k = cached c n k" if "k \<noteq> i" for k using j [OF that] by (simp add: cached_def)
  show ?thesis
  proof (cases "\<exists>k<NBUF. k \<noteq> i \<and> cached c n k")
    case True
    then obtain k where k: "k < NBUF" "k \<noteq> i" "cached c n k" by blast
    then show ?thesis
      using content_cached [OF C(1) k(1,3)] content_cached [OF C(2) k(1)] other [OF k(2)] j [OF k(2)] by simp
  next
    case none: False
    have e: "content c' n = disk c' n"
    proof (rule content_uncached)
      fix k assume "k < NBUF"
      then show "\<not> cached c' n k" using none False other by (cases "k = i") auto
    qed
    show ?thesis
    proof (cases "cached c n i")
      case True
      then show ?thesis using e gone [OF True False] content_cached [OF C(1) i True] by simp
    next
      case nc: False
      have un: "\<not> cached c n k" if "k < NBUF" for k using none nc that by (cases "k = i") auto
      show ?thesis using e d [OF un] content_uncached [OF un] by simp
    qed
  qed
qed

lemma content_get:
  assumes i: "binv N s" and g: "bget d n (bc s) = Inr (i, c)" and c: "cache_ok c" and d: "d \<noteq> 0"
  shows "content c = content (bc s)"
proof
  fix k
  have I: "cache_ok (bc s)" "use_inv N s" "clean_inv s" using i by (auto simp: binv_def)
  note G = bget_Inr [OF g I(1)]
  show "content c k = content (bc s) k"
  proof (rule content_same [OF I(1) c G(1,5)])
    assume n: "cached c k i"
    then have "cached (bc s) k i" "bdata (the_buf c i) = bdata (the_buf (bc s) i)"
      using G(6,7,10) by (auto simp: cached_def)
    then show "bdata (the_buf c i) = content (bc s) k" using content_cached [OF I(1) G(1)] by simp
  next
    assume a: "cached (bc s) k i" "\<not> cached c k i"
    then have r: "refcnt (the_buf (bc s) i) = 0" "\<not> dirty (the_buf (bc s) i)" using G(6,7,10) by (auto simp: cached_def)
    have nm: "\<forall>h d n. use s h \<noteq> Has i d n True" using busy_ref [OF I(2) _ G(1)] r(1) on.simps(3) by metis
    show "bdata (the_buf (bc s) i) = disk c k"
      using clean_invD(3) [OF I(3) G(1) _ r(2) nm] a(1) G(3) by (simp add: cached_def)
  next
    show "disk c m = disk (bc s) m" for m by (simp only: G(3))
  qed
qed

lemma content_lock:
  assumes i: "binv N s" and h: "use s h = Wants i d n" and r: "bread_locked i (bc s) = Inr c" and c: "cache_ok c"
  shows "content c = content (bc s)"
proof
  fix k
  have I: "cache_ok (bc s)" "clean_inv s" using i by (auto simp: binv_def)
  note W = wants_facts [OF i h] and R = bread_locked_Inr [OF r W(5,6)]
  have d: "bdev (the_buf (bc s) i) = 1" using R(7) clean_invD(1) [OF I(2) W(1)] by blast
  show "content c k = content (bc s) k"
  proof (rule content_same [OF I(1) c W(1) R(5)])
    assume n: "cached c k i"
    then have k: "blockno (the_buf (bc s) i) = k" using R(6) by (simp add: cached_def)
    show "bdata (the_buf c i) = content (bc s) k"
    proof (cases "valid (the_buf (bc s) i)")
      case True
      then have "cached (bc s) k i" using k d by (simp add: cached_def)
      then show ?thesis using content_cached [OF I(1) W(1)] R(6) True by simp
    next
      case False
      have "\<not> cached (bc s) k j" if "j < NBUF" for j
        using cache_okD(4) [OF I(1) that W(1)] d k False by (cases "j = i") (auto simp: cached_def)
      then show ?thesis using content_uncached R(6) k False by simp
    qed
  next
    assume "cached (bc s) k i" "\<not> cached c k i"
    then show "bdata (the_buf (bc s) i) = disk c k" using R(6) by (simp add: cached_def)
  next
    show "disk c m = disk (bc s) m" for m by (simp only: R(4))
  qed
qed

text \<open>A use that has its buffer: what it does to the contents.\<close>

lemma content_holder:
  assumes i: "binv N s" and h: "use s h = Has i d n m" and c: "cache_ok c"
    and b: "\<And>j. j \<noteq> i \<Longrightarrow> the_buf c j = the_buf (bc s) j"
      "valid (the_buf c i)" "bdev (the_buf c i) = d" "blockno (the_buf c i) = n"
    and dk: "\<And>k. k \<noteq> n \<Longrightarrow> disk c k = disk (bc s) k"
  shows "content c = (content (bc s))(n := bdata (the_buf c i))"
proof
  fix k
  have I: "cache_ok (bc s)" using i by (auto simp: binv_def)
  note W = has_facts [OF i h]
  have ci: "cached c n i" using b W(2) by (simp add: cached_def)
  show "content c k = ((content (bc s))(n := bdata (the_buf c i))) k"
  proof (cases "k = n")
    case True
    then show ?thesis using content_cached [OF c W(1) ci] by simp
  next
    case False
    have "content c k = content (bc s) k"
    proof (rule content_same [OF I c W(1) b(1)])
      show "disk c m = disk (bc s) m" if "\<And>j. j < NBUF \<Longrightarrow> \<not> cached (bc s) m j" for m
      proof (cases "m = n")
        case True
        then have "cached (bc s) m i" using W by (simp add: cached_def)
        then show ?thesis using that W(1) by blast
      qed (use dk in simp)
    qed (use False b(4) W(4) in \<open>simp_all add: cached_def\<close>)
    then show ?thesis using False by simp
  qed
qed

lemma has_content:
  assumes i: "binv N s" and h: "use s h = Has i d n m"
  shows "bdata (the_buf (bc s) i) = content (bc s) n"
proof -
  note W = has_facts [OF i h]
  have "cached (bc s) n i" using W by (simp add: cached_def)
  then show ?thesis using content_cached [of "bc s" i n] W(1) i by (simp add: binv_def)
qed

text \<open>
  One buffer per block: two uses past \<open>bread\<close> of the same block are the same use,
  and two different uses never share a buffer, whatever is cached, recycled and
  released in between.
\<close>

theorem bcache_exclusive:
  assumes "breach N d0 n0 s" "use s h = Has i d n m" "use s k = Has j d' n' m'" "h \<noteq> k"
  shows "i \<noteq> j \<and> (d, n) \<noteq> (d', n')"
proof -
  note B = breach_binv [OF assms(1)]
  have I: "cache_ok (bc s)" "use_inv N s" using B by (auto simp: binv_def)
  have ij: "i \<noteq> j" using use_invD(5) [OF I(2), of i h k] assms(2-4) by auto
  then show ?thesis
    using cache_okD(4) [OF I(1), of i j] has_facts [OF B assms(2)] has_facts [OF B assms(3)] by auto
qed

text \<open>
  C18. The cache refines a plain array of blocks. A use has the contents of its block;
  no step changes the contents of any block, except that a use writes its own buffer,
  and \<open>bwrite\<close> makes the disk agree with them: recycling a buffer loses nothing.
\<close>

theorem bcache_refines_blocks:
  assumes r: "breach N d0 n0 s" and st: "bstep N s s'"
  shows "(content (bc s') = content (bc s)
      \<or> (\<exists>h i d n m v. use s h = Has i d n m \<and> use s' h = Has i d n True
          \<and> content (bc s') = (content (bc s))(n := v)))
    \<and> (\<forall>h i d n m. use s' h = Has i d n m \<longrightarrow> bdata (the_buf (bc s') i) = content (bc s') n)"
proof -
  note B = breach_binv [OF r] and B' = binv_step [OF st breach_binv [OF r]]
  have c': "cache_ok (bc s')" using B' by (simp add: binv_def)
  have "content (bc s') = content (bc s)
      \<or> (\<exists>h i d n m v. use s h = Has i d n m \<and> use s' h = Has i d n True
          \<and> content (bc s') = (content (bc s))(n := v))"
    using st c'
  proof (cases rule: bstep.cases)
    case (get h d n i c)
    then show ?thesis using content_get [OF B get(5)] c' by simp
  next
    case (lock h i d n c)
    then show ?thesis using content_lock [OF B lock(3,4)] c' by simp
  next
    case (modify h i d n m v)
    have "content (bc s') = (content (bc s))(n := bdata (the_buf (bc s') i))"
      by (rule content_holder [OF B modify(3) c'])
        (use has_facts [OF B modify(3)] in \<open>simp_all add: modify(1) bset_nth\<close>)
    then show ?thesis using modify by auto
  next
    case (write_out h i d n m c)
    note F = has_facts [OF B write_out(3)]
    note W = bwrite_Inr [OF write_out(4) F(7)]
    have "content (bc s') = (content (bc s))(n := bdata (the_buf (bc s') i))"
      by (rule content_holder [OF B write_out(3) c']) (use F W in \<open>simp_all add: write_out(1)\<close>)
    moreover have "bdata (the_buf (bc s') i) = content (bc s) n"
      using has_content [OF B write_out(3)] W(5) by (simp add: write_out(1))
    ultimately show ?thesis by simp
  next
    case (pin h i d n m)
    note F = has_facts [OF B pin(3)]
    have "content (bc s') = (content (bc s))(n := bdata (the_buf (bc s') i))"
      by (rule content_holder [OF B pin(3) c']) (use F in \<open>simp_all add: pin(1) Bio.pin_def bset_nth\<close>)
    moreover have "bdata (the_buf (bc s') i) = content (bc s) n"
      using has_content [OF B pin(3)] F(7) by (simp add: pin(1) Bio.pin_def bset_nth)
    ultimately show ?thesis by simp
  next
    case (release h i d n c)
    note F = has_facts [OF B release(3)]
    have I: "cache_ok (bc s)" using B by (simp add: binv_def)
    note R = brelse_Inr [OF release(4) I F(1)]
    have "content (bc s') = (content (bc s))(n := bdata (the_buf (bc s') i))"
      by (rule content_holder [OF B release(3) c']) (use F R in \<open>simp_all add: release(1)\<close>)
    moreover have "bdata (the_buf (bc s') i) = content (bc s) n"
      using has_content [OF B release(3)] R(6) by (simp add: release(1))
    ultimately show ?thesis by simp
  qed
  then show ?thesis using has_content [OF B'] by blast
qed

text \<open>Two uses of two blocks on a fresh cache, for the witnesses.\<close>

definition bw1 :: bcache where
  "bw1 = bset 0 (\<lambda>b. b\<lparr>bdev := 1, blockno := 5, valid := False, dirty := False, refcnt := 1\<rparr>) (binit (\<lambda>_. []) 10)"

definition bw2 :: bcache where
  "bw2 = bset 0 (\<lambda>b. b\<lparr>valid := True, bdata := []\<rparr>) (bset 0 (\<lambda>b. b\<lparr>blocked := True\<rparr>) bw1)"

definition bw3 :: bcache where
  "bw3 = bset 1 (\<lambda>b. b\<lparr>bdev := 1, blockno := 6, valid := False, dirty := False, refcnt := 1\<rparr>) bw2"

definition bw4 :: bcache where
  "bw4 = bset 1 (\<lambda>b. b\<lparr>valid := True, bdata := []\<rparr>) (bset 1 (\<lambda>b. b\<lparr>blocked := True\<rparr>) bw3)"

lemma bw_len: "length (bufs bw1) = NBUF" "length (bufs bw2) = NBUF" "length (bufs bw3) = NBUF"
  "lru bw2 = rev [0..<NBUF]" "disk bw1 = (\<lambda>_. [])" "disk bw3 = (\<lambda>_. [])" "disksize bw1 = 10" "disksize bw3 = 10"
  by (simp_all add: bw1_def bw2_def bw3_def binit_def fold_Cons)

lemma upt_NBUF: "[0..<NBUF] = 0 # 1 # [2..<NBUF]"
  by (simp add: NBUF_def upt_conv_Cons)

lemma bw_nth: "j < NBUF \<Longrightarrow> the_buf (binit (\<lambda>_. []) 10) j = zero_buf"
  "the_buf bw1 0 = zero_buf\<lparr>bdev := 1, blockno := 5, valid := False, dirty := False, refcnt := 1\<rparr>"
  "the_buf bw2 0 = zero_buf\<lparr>bdev := 1, blockno := 5, valid := True, dirty := False, refcnt := 1, blocked := True, bdata := []\<rparr>"
  "0 < j \<Longrightarrow> j < NBUF \<Longrightarrow> the_buf bw2 j = zero_buf"
  "the_buf bw3 1 = zero_buf\<lparr>bdev := 1, blockno := 6, valid := False, dirty := False, refcnt := 1\<rparr>"
proof -
  show z: "j < NBUF \<Longrightarrow> the_buf (binit (\<lambda>_. []) 10) j = zero_buf" for j by (simp add: binit_def)
  have n: "0 < NBUF" "1 < NBUF" "length (bufs (binit (\<lambda>_. []) 10)) = NBUF" by (simp_all add: NBUF_def binit_def)
  show one: "the_buf bw1 0 = zero_buf\<lparr>bdev := 1, blockno := 5, valid := False, dirty := False, refcnt := 1\<rparr>"
    using n z [of 0] by (simp add: bw1_def bset_nth)
  show "the_buf bw2 0 = zero_buf\<lparr>bdev := 1, blockno := 5, valid := True, dirty := False, refcnt := 1, blocked := True, bdata := []\<rparr>"
    using n one bw_len by (simp add: bw2_def bset_nth)
  show two: "0 < j \<Longrightarrow> j < NBUF \<Longrightarrow> the_buf bw2 j = zero_buf" for j
    using n z [of j] bw_len by (simp add: bw2_def bw1_def bset_nth)
  show "the_buf bw3 1 = zero_buf\<lparr>bdev := 1, blockno := 6, valid := False, dirty := False, refcnt := 1\<rparr>"
    using n two [of 1] bw_len by (simp add: bw3_def bset_nth)
qed

lemma bw_steps: "bget 1 5 (binit (\<lambda>_. []) 10) = Inr (0, bw1)" "bread_locked 0 bw1 = Inr bw2"
  "bget 1 6 bw2 = Inr (1, bw3)" "bread_locked 1 bw3 = Inr bw4"
proof -
  have n: "0 < NBUF" "1 < NBUF" "lru (binit (\<lambda>_. []) 10) = rev [0..<NBUF]"
    by (simp_all add: NBUF_def binit_def fold_Cons)
  have "find (\<lambda>i. bdev (the_buf (binit (\<lambda>_. []) 10) i) = 1 \<and> blockno (the_buf (binit (\<lambda>_. []) 10) i) = 5) (rev [0..<NBUF]) = None"
    by (auto simp: find_None_iff bw_nth zero_buf_def)
  then show "bget 1 5 (binit (\<lambda>_. []) 10) = Inr (0, bw1)"
    using n by (simp add: bget_def bw1_def upt_NBUF bw_nth zero_buf_def)
  show "bread_locked 0 bw1 = Inr bw2"
    using bw_len by (simp add: bread_locked_def bw_nth bset_nth iderw_def zero_buf_def bw2_def NBUF_def)
  have "find (\<lambda>i. bdev (the_buf bw2 i) = 1 \<and> blockno (the_buf bw2 i) = 6) (rev [0..<NBUF]) = None"
  proof -
    have "\<not> (bdev (the_buf bw2 i) = 1 \<and> blockno (the_buf bw2 i) = 6)" if "i < NBUF" for i
      using bw_nth(3,4) that by (cases "i = 0") (simp_all add: zero_buf_def)
    then show ?thesis by (auto simp: find_None_iff)
  qed
  then show "bget 1 6 bw2 = Inr (1, bw3)"
    using n bw_len by (simp add: bget_def bw3_def upt_NBUF bw_nth zero_buf_def)
  show "bread_locked 1 bw3 = Inr bw4"
    using bw_len bw_nth(5) by (simp add: bread_locked_def bset_nth iderw_def zero_buf_def bw4_def NBUF_def)
qed

lemma bw_reach: "breach 2 (\<lambda>_. []) 10 \<lparr>bc = bw2, use = (\<lambda>_. NoUse)(0 := Has 0 1 5 False)\<rparr>"
  "breach 2 (\<lambda>_. []) 10 \<lparr>bc = bw4, use = (\<lambda>_. NoUse)(0 := Has 0 1 5 False, 1 := Has 1 1 6 False)\<rparr>"
proof -
  let ?u = "(\<lambda>_. NoUse)(0 := Has 0 1 5 False)"
  have "bstep 2 (bsys0 (\<lambda>_. []) 10) \<lparr>bc = bw1, use = (\<lambda>_. NoUse)(0 := Wants 0 1 5)\<rparr>"
    using bstep.get [of 0 2 "bsys0 (\<lambda>_. []) 10" 1 5 0 bw1] bw_steps(1) by (simp add: bsys0_def)
  moreover have "bstep 2 \<lparr>bc = bw1, use = (\<lambda>_. NoUse)(0 := Wants 0 1 5)\<rparr> \<lparr>bc = bw2, use = ?u\<rparr>"
    using bstep.lock [of 0 2 "\<lparr>bc = bw1, use = (\<lambda>_. NoUse)(0 := Wants 0 1 5)\<rparr>" 0 1 5 bw2] bw_steps(2) by simp
  ultimately show 2: "breach 2 (\<lambda>_. []) 10 \<lparr>bc = bw2, use = ?u\<rparr>" by auto
  have "bstep 2 \<lparr>bc = bw2, use = ?u\<rparr> \<lparr>bc = bw3, use = ?u(1 := Wants 1 1 6)\<rparr>"
    using bstep.get [of 1 2 "\<lparr>bc = bw2, use = ?u\<rparr>" 1 6 1 bw3] bw_steps(3) by simp
  moreover have "bstep 2 \<lparr>bc = bw3, use = ?u(1 := Wants 1 1 6)\<rparr> \<lparr>bc = bw4, use = ?u(1 := Has 1 1 6 False)\<rparr>"
    using bstep.lock [of 1 2 "\<lparr>bc = bw3, use = ?u(1 := Wants 1 1 6)\<rparr>" 1 1 6 bw4] bw_steps(4) by simp
  ultimately show "breach 2 (\<lambda>_. []) 10 \<lparr>bc = bw4, use = ?u(1 := Has 1 1 6 False)\<rparr>"
    using 2 by (auto intro: rtranclp.rtrancl_into_rtrancl)
qed

theorem bcache_exclusive_witness: "(0 :: nat) \<noteq> 1 \<and> ((1 :: u32), (5 :: u32)) \<noteq> (1, 6)"
  using bcache_exclusive [OF bw_reach(2), of 0 0 1 5 False 1 1 1 6 False] by simp

theorem bcache_refines_blocks_witness:
  "content (bc \<lparr>bc = bset 0 (\<lambda>b. b\<lparr>bdata := [7]\<rparr>) bw2, use = (\<lambda>_. NoUse)(0 := Has 0 1 5 True)\<rparr>) 5 = [7]"
proof -
  let ?s = "\<lparr>bc = bset 0 (\<lambda>b. b\<lparr>bdata := [7]\<rparr>) bw2, use = (\<lambda>_. NoUse)(0 := Has 0 1 5 True)\<rparr>"
  have "bstep 2 \<lparr>bc = bw2, use = (\<lambda>_. NoUse)(0 := Has 0 1 5 False)\<rparr> ?s"
    using bstep.modify [of 0 2 "\<lparr>bc = bw2, use = (\<lambda>_. NoUse)(0 := Has 0 1 5 False)\<rparr>" 0 1 5 False "[7]"] by simp
  from conjunct2 [OF bcache_refines_blocks [OF bw_reach(1) this], rule_format, of 0 0 1 5 True]
  have "content (bc ?s) 5 = bdata (the_buf (bc ?s) 0)" by simp
  also have "\<dots> = [7]" using bw_len(2) by (simp add: bset_nth NBUF_def)
  finally show ?thesis .
qed
end
