(* ===== verification/Blocks.thy ===== *)
theory Blocks
  imports Bio
begin

text \<open>
  Reading and writing the structures the file system keeps inside blocks:
  little-endian 16- and 32-bit fields at an offset of a block's bytes.
\<close>

named_theorems blk_simps "fields of blocks"

definition get16 :: "blk \<Rightarrow> nat \<Rightarrow> u16" where
  "get16 b i = ucast (b ! i) OR push_bit 8 (ucast (b ! (i + 1)))"

definition put16 :: "nat \<Rightarrow> u16 \<Rightarrow> blk \<Rightarrow> blk" where
  "put16 i w b = b[i := ucast w, i + 1 := ucast (drop_bit 8 w)]"

definition get32 :: "blk \<Rightarrow> nat \<Rightarrow> u32" where
  "get32 b i = ucast (b ! i) OR push_bit 8 (ucast (b ! (i + 1)))
     OR push_bit 16 (ucast (b ! (i + 2))) OR push_bit 24 (ucast (b ! (i + 3)))"

definition put32 :: "nat \<Rightarrow> u32 \<Rightarrow> blk \<Rightarrow> blk" where
  "put32 i w b = b[i := ucast w, i + 1 := ucast (drop_bit 8 w),
     i + 2 := ucast (drop_bit 16 w), i + 3 := ucast (drop_bit 24 w)]"

lemma length_put [simp]: "length (put16 i h b) = length b" "length (put32 i w b) = length b"
  by (simp_all add: put16_def put32_def)

lemma le16_join: "(ucast (ucast w :: u8) :: u16) OR push_bit 8 (ucast (ucast (drop_bit 8 w) :: u8)) = w"
proof (rule bit_word_eqI)
  fix n assume "n < LENGTH(16)"
  then consider "n < 8" | "8 \<le> n" "n < 16" by fastforce
  then show "bit ((ucast (ucast w :: u8) :: u16) OR push_bit 8 (ucast (ucast (drop_bit 8 w) :: u8))) n = bit w n"
    by cases (auto simp: bit_simps)
qed

lemma get16_put16 [blk_simps]: "i + 1 < length b \<Longrightarrow> get16 (put16 i w b) i = w"
  by (simp add: get16_def put16_def nth_list_update le16_join)

lemma get32_put32 [blk_simps]: "i + 3 < length b \<Longrightarrow> get32 (put32 i w b) i = w"
  by (simp add: get32_def put32_def nth_list_update le_bytes_join)

lemma put32_nth: "k < i \<or> i + 3 < k \<Longrightarrow> put32 i w b ! k = b ! k"
  by (auto simp: put32_def)

lemma put16_nth: "k < i \<or> i + 1 < k \<Longrightarrow> put16 i w b ! k = b ! k"
  by (auto simp: put16_def)

lemma get_put_apart [blk_simps]:
  "i + 3 < j \<or> j + 3 < i \<Longrightarrow> get32 (put32 i w b) j = get32 b j"
  "i + 1 < j \<or> j + 3 < i \<Longrightarrow> get32 (put16 i h b) j = get32 b j"
  "i + 3 < j \<or> j + 1 < i \<Longrightarrow> get16 (put32 i w b) j = get16 b j"
  "i + 1 < j \<or> j + 1 < i \<Longrightarrow> get16 (put16 i h b) j = get16 b j"
  by (auto simp: get32_def get16_def put32_nth put16_nth)

text \<open>A run of 32-bit fields.\<close>

fun put32s :: "nat \<Rightarrow> u32 list \<Rightarrow> blk \<Rightarrow> blk" where
  "put32s i [] b = b"
| "put32s i (w # ws) b = put32s (i + 4) ws (put32 i w b)"

definition get32s :: "nat \<Rightarrow> nat \<Rightarrow> blk \<Rightarrow> u32 list" where
  "get32s i n b = map (\<lambda>k. get32 b (i + 4 * k)) [0..<n]"

lemma length_put32s [simp]: "length (put32s i ws b) = length b"
  by (induction ws arbitrary: i b) simp_all

lemma put32s_below [blk_simps]: "j + 3 < i \<Longrightarrow> get32 (put32s i ws b) j = get32 b j"
  by (induction ws arbitrary: i b) (simp_all add: blk_simps)

lemma get32s_put32s: "i + 4 * length ws \<le> length b \<Longrightarrow> get32s i (length ws) (put32s i ws b) = ws"
proof (induction ws arbitrary: i b)
  case Nil
  then show ?case by (simp add: get32s_def)
next
  case (Cons w ws)
  have ih: "get32s (i + 4) (length ws) (put32s (i + 4) ws (put32 i w b)) = ws"
    by (rule Cons.IH) (use Cons.prems in simp)
  have "get32s i (length (w # ws)) (put32s i (w # ws) b)
      = get32 (put32s (i + 4) ws (put32 i w b)) i # get32s (i + 4) (length ws) (put32s (i + 4) ws (put32 i w b))"
    by (simp add: get32s_def upt_conv_Cons map_Suc_upt [symmetric] del: upt_Suc) (simp add: algebra_simps)
  moreover have "get32 (put32s (i + 4) ws (put32 i w b)) i = w"
    using Cons.prems by (simp add: blk_simps)
  ultimately show ?case using ih by simp
qed

end
