(* ===== verification/Log.thy ===== *)
theory Log
  imports Blocks
begin

text \<open>
  The write-ahead log (log.c). The device is what the buffer cache offers: the
  contents of every block (\<open>cview\<close>, the refined view of the cache theory), what is on
  the disk (\<open>dview\<close>), and the history of disk writes, so that a crash is the disk after a
  prefix of them. Disk writes of one block are atomic. A crash loses the cache.
\<close>

definition MAXOPBLOCKS :: nat where "MAXOPBLOCKS = 10"
definition LOGSIZE :: nat where "LOGSIZE = MAXOPBLOCKS * 3"

section \<open>The device\<close>

record ldev =
  cview :: "u32 \<Rightarrow> blk"
  dview :: "u32 \<Rightarrow> blk"
  hist :: "(u32 \<times> blk) list"

definition dev_write :: "u32 \<Rightarrow> blk \<Rightarrow> ldev \<Rightarrow> ldev" where
  "dev_write n b d = d\<lparr>cview := (cview d)(n := b), dview := (dview d)(n := b), hist := hist d @ [(n, b)]\<rparr>"

definition dev_boot :: "(u32 \<Rightarrow> blk) \<Rightarrow> ldev" where
  "dev_boot D = \<lparr>cview = D, dview = D, hist = []\<rparr>"

definition apply_writes :: "(u32 \<times> blk) list \<Rightarrow> (u32 \<Rightarrow> blk) \<Rightarrow> u32 \<Rightarrow> blk" where
  "apply_writes ws D = fold (\<lambda>(n, b) D. D(n := b)) ws D"

section \<open>log.c\<close>

text \<open>\<open>lh\<close> is \<open>lh.block[0..lh.n)\<close>.\<close>

record log =
  lstart :: u32
  lsize :: int
  outstanding :: int
  committing :: bool
  lh :: "u32 list"

text \<open>The header read from a block; more than \<open>LOGSIZE\<close> entries overrun the array.\<close>

definition head_blocks :: "blk \<Rightarrow> u32 list" where
  "head_blocks b = get32s 4 (nat (sint (get32 b 0))) b"

definition read_head :: "log \<Rightarrow> ldev \<Rightarrow> log res" where
  "read_head lg d =
     (let b = cview d (lstart lg) in
      if sint (get32 b 0) > int LOGSIZE then Inl Fault else Inr (lg\<lparr>lh := head_blocks b\<rparr>))"

definition head_of :: "u32 list \<Rightarrow> blk \<Rightarrow> blk" where
  "head_of bs b = put32s 4 bs (put32 0 (of_nat (length bs)) b)"

definition write_head :: "log \<Rightarrow> ldev \<Rightarrow> ldev" where
  "write_head lg d = dev_write (lstart lg) (head_of (lh lg) (cview d (lstart lg))) d"

fun install_loop :: "nat \<Rightarrow> u32 list \<Rightarrow> u32 \<Rightarrow> ldev \<Rightarrow> ldev" where
  "install_loop tail [] start d = d"
| "install_loop tail (n # ns) start d =
     install_loop (tail + 1) ns start (dev_write n (cview d (start + of_nat tail + 1)) d)"

definition install_trans :: "log \<Rightarrow> ldev \<Rightarrow> ldev" where
  "install_trans lg d = install_loop 0 (lh lg) (lstart lg) d"

fun write_log_loop :: "nat \<Rightarrow> u32 list \<Rightarrow> u32 \<Rightarrow> ldev \<Rightarrow> ldev" where
  "write_log_loop tail [] start d = d"
| "write_log_loop tail (n # ns) start d =
     write_log_loop (tail + 1) ns start (dev_write (start + of_nat tail + 1) (cview d n) d)"

definition write_log :: "log \<Rightarrow> ldev \<Rightarrow> ldev" where
  "write_log lg d = write_log_loop 0 (lh lg) (lstart lg) d"

definition commit :: "log \<Rightarrow> ldev \<Rightarrow> log \<times> ldev" where
  "commit lg d =
     (if lh lg \<noteq> [] then
        let d = write_log lg d; d = write_head lg d; d = install_trans lg d;
            lg = lg\<lparr>lh := []\<rparr>; d = write_head lg d
        in (lg, d)
      else (lg, d))"

definition recover_from_log :: "log \<Rightarrow> ldev \<Rightarrow> (log \<times> ldev) res" where
  "recover_from_log lg d =
     rbind (read_head lg d) (\<lambda>lg.
       let d = install_trans lg d; lg = lg\<lparr>lh := []\<rparr> in Inr (lg, write_head lg d))"

definition initlog :: "u32 \<Rightarrow> int \<Rightarrow> ldev \<Rightarrow> (log \<times> ldev) res" where
  "initlog start sz d =
     recover_from_log \<lparr>lstart = start, lsize = sz, outstanding = 0, committing = False, lh = []\<rparr> d"

definition begin_op :: "log \<Rightarrow> log res" where
  "begin_op lg =
     (if committing lg then Inl Blocked
      else if int (length (lh lg)) + (outstanding lg + 1) * int MAXOPBLOCKS > int LOGSIZE then Inl Blocked
      else Inr (lg\<lparr>outstanding := outstanding lg + 1\<rparr>))"

text \<open>\<open>end_op\<close> up to the release of the lock; the flag is \<open>do_commit\<close>.\<close>

definition end_op :: "log \<Rightarrow> (bool \<times> log) res" where
  "end_op lg =
     (let lg = lg\<lparr>outstanding := outstanding lg - 1\<rparr> in
      if committing lg then Inl (Panic ''log.committing'')
      else if outstanding lg = 0 then Inr (True, lg\<lparr>committing := True\<rparr>)
      else Inr (False, lg))"

text \<open>The rest of \<open>end_op\<close> when \<open>do_commit\<close>.\<close>

definition end_commit :: "log \<Rightarrow> ldev \<Rightarrow> log \<times> ldev" where
  "end_commit lg d = (let (lg, d) = commit lg d in (lg\<lparr>committing := False\<rparr>, d))"

definition log_write :: "u32 \<Rightarrow> log \<Rightarrow> log res" where
  "log_write n lg =
     (if length (lh lg) \<ge> LOGSIZE \<or> int (length (lh lg)) \<ge> lsize lg - 1
      then Inl (Panic ''too big a transaction'')
      else if outstanding lg < 1 then Inl (Panic ''log_write outside of trans'')
      else Inr (if n \<in> set (lh lg) then lg else lg\<lparr>lh := lh lg @ [n]\<rparr>))"

section \<open>Disk writes\<close>

lemma apply_writes_simps [simp]: "apply_writes [] D = D" "apply_writes ((n, b) # ws) D = apply_writes ws (D(n := b))"
  "apply_writes (ws @ vs) D = apply_writes vs (apply_writes ws D)"
  by (simp_all add: apply_writes_def)

definition consistent :: "(u32 \<Rightarrow> blk) \<Rightarrow> ldev \<Rightarrow> bool" where
  "consistent D d \<longleftrightarrow> dview d = apply_writes (hist d) D"

lemma consistent_write [simp]: "consistent D d \<Longrightarrow> consistent D (dev_write n b d)"
  by (simp add: consistent_def dev_write_def)

lemma dev_write_simps [simp]: "cview (dev_write n b d) = (cview d)(n := b)" "dview (dev_write n b d) = (dview d)(n := b)"
  "hist (dev_write n b d) = hist d @ [(n, b)]"
  by (simp_all add: dev_write_def)

text \<open>The log area: the header and the \<open>LOGSIZE\<close> blocks after it.\<close>

definition slot :: "u32 \<Rightarrow> nat \<Rightarrow> u32" where
  "slot start k = start + of_nat k + 1"

definition log_area :: "u32 \<Rightarrow> u32 set" where
  "log_area start = insert start (slot start ` {..<LOGSIZE})"

lemma LOGSIZE_30: "LOGSIZE = 30"
  by (simp add: LOGSIZE_def MAXOPBLOCKS_def)

lemma slot_inj: "i < LOGSIZE \<Longrightarrow> j < LOGSIZE \<Longrightarrow> slot start i = slot start j \<longleftrightarrow> i = j"
proof -
  assume a: "i < LOGSIZE" "j < LOGSIZE"
  have "i < 2 ^ LENGTH(32)" "j < 2 ^ LENGTH(32)" using a by (simp_all add: LOGSIZE_30)
  then have "(of_nat i :: u32) = of_nat j \<longleftrightarrow> i = j"
    using unat_of_nat_small [of i, where 'a = 32] unat_of_nat_small [of j, where 'a = 32] by metis
  then show ?thesis by (simp add: slot_def)
qed

lemma slot_not_start: "i < LOGSIZE \<Longrightarrow> slot start i \<noteq> start"
proof
  assume a: "i < LOGSIZE" "slot start i = start"
  then have "(of_nat (Suc i) :: u32) = 0" by (simp add: slot_def add.commute)
  moreover have "unat (of_nat (Suc i) :: u32) = Suc i" using a(1) by (intro unat_of_nat_small) (simp add: LOGSIZE_30)
  ultimately show False by simp
qed

definition dev_writes :: "(u32 \<times> blk) list \<Rightarrow> ldev \<Rightarrow> ldev" where
  "dev_writes ws d = fold (\<lambda>(n, b) d. dev_write n b d) ws d"

lemma dev_writes_simps [simp]: "dev_writes [] d = d" "dev_writes ((n, b) # ws) d = dev_writes ws (dev_write n b d)"
  by (simp_all add: dev_writes_def)

lemma dev_writes_views: "cview (dev_writes ws d) = apply_writes ws (cview d)"
  "dview (dev_writes ws d) = apply_writes ws (dview d)" "hist (dev_writes ws d) = hist d @ ws"
proof -
  have "cview (dev_writes ws d) = apply_writes ws (cview d) \<and> dview (dev_writes ws d) = apply_writes ws (dview d)
      \<and> hist (dev_writes ws d) = hist d @ ws"
    by (induction ws arbitrary: d) auto
  then show "cview (dev_writes ws d) = apply_writes ws (cview d)"
    "dview (dev_writes ws d) = apply_writes ws (dview d)" "hist (dev_writes ws d) = hist d @ ws" by auto
qed

lemma apply_writes_old: "n \<notin> fst ` set ws \<Longrightarrow> apply_writes ws D n = D n"
  by (induction ws arbitrary: D) auto

lemma apply_writes_new: "n \<in> fst ` set ws \<Longrightarrow> (n, apply_writes ws D n) \<in> set ws"
proof (induction ws arbitrary: D)
  case (Cons w ws)
  obtain m b where w: "w = (m, b)" by (cases w)
  show ?case
  proof (cases "n \<in> fst ` set ws")
    case True
    then show ?thesis using Cons.IH w by simp
  next
    case False
    then have "n = m" using Cons.prems w by simp
    then show ?thesis using apply_writes_old [OF False] w by simp
  qed
qed simp

text \<open>The two copying loops as lists of writes.\<close>

definition slots :: "u32 \<Rightarrow> nat \<Rightarrow> nat \<Rightarrow> u32 list" where
  "slots start i n = map (slot start) [i..<i + n]"

lemma slots_Suc: "slots start i (Suc n) = slot start i # slots start (Suc i) n"
  by (simp add: slots_def upt_conv_Cons del: upt_Suc)

lemma slots_in_area: "i + n \<le> LOGSIZE \<Longrightarrow> set (slots start i n) \<subseteq> log_area start - {start}"
  using slot_not_start [of _ start] by (auto simp: slots_def log_area_def)

lemma length_slots [simp]: "length (slots start i n) = n"
  by (simp add: slots_def)

lemma install_loop_writes:
  "set ns \<inter> log_area start = {} \<Longrightarrow> i + length ns \<le> LOGSIZE \<Longrightarrow>
   install_loop i ns start d = dev_writes (zip ns (map (cview d) (slots start i (length ns)))) d"
proof (induction ns arbitrary: i d)
  case (Cons n ns)
  let ?d = "dev_write n (cview d (slot start i)) d"
  have ih: "install_loop (Suc i) ns start ?d = dev_writes (zip ns (map (cview ?d) (slots start (Suc i) (length ns)))) ?d"
    by (rule Cons.IH) (use Cons.prems in auto)
  have "n \<notin> set (slots start (Suc i) (length ns))"
    using Cons.prems slots_in_area [of "Suc i" "length ns" start] by auto
  then have m: "map (cview ?d) (slots start (Suc i) (length ns)) = map (cview d) (slots start (Suc i) (length ns))" by auto
  have e: "start + of_nat i + 1 = slot start i" by (simp add: slot_def)
  show ?case using ih unfolding m by (simp add: slots_Suc e)
qed simp

lemma write_log_writes:
  "set ns \<inter> log_area start = {} \<Longrightarrow> i + length ns \<le> LOGSIZE \<Longrightarrow>
   write_log_loop i ns start d = dev_writes (zip (slots start i (length ns)) (map (cview d) ns)) d"
proof (induction ns arbitrary: i d)
  case (Cons n ns)
  let ?d = "dev_write (slot start i) (cview d n) d"
  have ih: "write_log_loop (Suc i) ns start ?d = dev_writes (zip (slots start (Suc i) (length ns)) (map (cview ?d) ns)) ?d"
    by (rule Cons.IH) (use Cons.prems in auto)
  have "slot start i \<in> log_area start" using Cons.prems by (auto simp: log_area_def)
  then have m: "map (cview ?d) ns = map (cview d) ns" using Cons.prems by auto
  have e: "start + of_nat i + 1 = slot start i" by (simp add: slot_def)
  show ?case using ih unfolding m by (simp add: slots_Suc e)
qed simp

section \<open>The header\<close>

lemma head_of_blocks:
  assumes "length b = BSIZE" "length bs \<le> LOGSIZE"
  shows "head_blocks (head_of bs b) = bs" "sint (get32 (head_of bs b) 0) = int (length bs)" "length (head_of bs b) = BSIZE"
proof -
  have n: "get32 (head_of bs b) 0 = of_nat (length bs)"
    using assms(1) by (simp add: head_of_def blk_simps BSIZE_def)
  have "length bs < 2 ^ 31" using assms(2) by (simp add: LOGSIZE_30)
  then show s: "sint (get32 (head_of bs b) 0) = int (length bs)"
    unfolding n by (rule sint_of_nat_small)
  show "length (head_of bs b) = BSIZE" using assms(1) by (simp add: head_of_def)
  show "head_blocks (head_of bs b) = bs"
    unfolding head_blocks_def s
    using get32s_put32s [of 4 bs "put32 0 (of_nat (length bs)) b"] assms
    by (simp add: head_of_def BSIZE_def LOGSIZE_30)
qed

lemma head_nil [simp]: "length b = BSIZE \<Longrightarrow> head_blocks (head_of [] b) = []"
  by (rule head_of_blocks) (simp_all add: LOGSIZE_30)

section \<open>What a disk means after recovery\<close>

definition head_at :: "u32 \<Rightarrow> (u32 \<Rightarrow> blk) \<Rightarrow> u32 list" where
  "head_at start D = head_blocks (D start)"

definition log_ok :: "u32 \<Rightarrow> u32 list \<Rightarrow> bool" where
  "log_ok start bs \<longleftrightarrow> length bs \<le> LOGSIZE \<and> distinct bs \<and> set bs \<inter> log_area start = {}"

definition disk_ok :: "u32 \<Rightarrow> (u32 \<Rightarrow> blk) \<Rightarrow> bool" where
  "disk_ok start D \<longleftrightarrow> length (D start) = BSIZE \<and> sint (get32 (D start) 0) \<le> int LOGSIZE \<and> log_ok start (head_at start D)"

text \<open>The contents of the home blocks: a logged block is in the log, the others at home.\<close>

definition logical :: "u32 \<Rightarrow> (u32 \<Rightarrow> blk) \<Rightarrow> u32 \<Rightarrow> blk" where
  "logical start D n = (case first_index (\<lambda>m. m = n) (head_at start D) of
     Some k \<Rightarrow> D (slot start k) | None \<Rightarrow> D n)"

lemma logical_at:
  assumes "distinct (head_at start D)" "k < length (head_at start D)"
  shows "logical start D (head_at start D ! k) = D (slot start k)"
proof -
  have "first_index (\<lambda>m. m = head_at start D ! k) (head_at start D) = Some k"
    using assms by (intro first_index_hit) (auto simp: nth_eq_iff_index_eq)
  then show ?thesis by (simp add: logical_def)
qed

lemma logical_home: "n \<notin> set (head_at start D) \<Longrightarrow> logical start D n = D n"
  using first_index_None [of "\<lambda>m. m = n" "head_at start D"] by (auto simp: logical_def)

text \<open>Part of the log has been installed.\<close>

definition partly :: "u32 \<Rightarrow> (u32 \<Rightarrow> blk) \<Rightarrow> (u32 \<Rightarrow> blk) \<Rightarrow> bool" where
  "partly start D E \<longleftrightarrow> (\<forall>n\<in>log_area start. E n = D n)
     \<and> (\<forall>n. n \<notin> log_area start \<longrightarrow> E n = D n \<or> E n = logical start D n)"

lemma start_in_area: "start \<in> log_area start" and slot_in_area: "k < LOGSIZE \<Longrightarrow> slot start k \<in> log_area start"
  by (auto simp: log_area_def)

lemma partly_logical:
  assumes p: "partly start D E" and d: "disk_ok start D" and n: "n \<notin> log_area start"
  shows "logical start E n = logical start D n" "disk_ok start E" "head_at start E = head_at start D"
proof -
  have s: "E start = D start" using p start_in_area by (auto simp: partly_def)
  then show h: "head_at start E = head_at start D" by (simp add: head_at_def)
  show "disk_ok start E" using d s by (simp add: disk_ok_def h)
  have L: "length (head_at start D) \<le> LOGSIZE" "distinct (head_at start D)"
    using d by (auto simp: disk_ok_def log_ok_def)
  show "logical start E n = logical start D n"
  proof (cases "n \<in> set (head_at start D)")
    case True
    then obtain k where k: "k < length (head_at start D)" "n = head_at start D ! k" by (metis in_set_conv_nth)
    have "E (slot start k) = D (slot start k)" using p k(1) L(1) slot_in_area [of k start] by (simp add: partly_def)
    then show ?thesis using logical_at [of start D k] logical_at [of start E k] k L(2) h by simp
  next
    case False
    then show ?thesis using logical_home [of n start] p n h by (auto simp: partly_def)
  qed
qed

section \<open>Recovery\<close>

definition install_writes :: "u32 \<Rightarrow> (u32 \<Rightarrow> blk) \<Rightarrow> (u32 \<times> blk) list" where
  "install_writes start D = zip (head_at start D) (map D (slots start 0 (length (head_at start D))))"

definition recovery_writes :: "u32 \<Rightarrow> (u32 \<Rightarrow> blk) \<Rightarrow> (u32 \<times> blk) list" where
  "recovery_writes start D = install_writes start D @ [(start, head_of [] (D start))]"

lemma install_entry:
  assumes "(n, b) \<in> set (install_writes start D)" "disk_ok start D"
  shows "n \<notin> log_area start" "b = logical start D n"
proof -
  let ?bs = "head_at start D"
  obtain k where k: "k < length ?bs" "n = ?bs ! k" "b = map D (slots start 0 (length ?bs)) ! k"
    using assms(1) by (auto simp: install_writes_def set_zip)
  then have "n \<in> set ?bs" by simp
  then show "n \<notin> log_area start" using assms(2) by (auto simp: disk_ok_def log_ok_def)
  have "b = D (slot start k)" using k(1,3) by (simp add: slots_def)
  then show "b = logical start D n" using logical_at [of start D k] k(1,2) assms(2) by (simp add: disk_ok_def log_ok_def)
qed

lemma install_prefix:
  assumes d: "disk_ok start D" and ws: "set ws \<subseteq> set (install_writes start D)"
  shows "partly start D (apply_writes ws D)"
proof -
  have in_ws: "n \<notin> log_area start \<and> apply_writes ws D n = logical start D n" if "n \<in> fst ` set ws" for n
    using apply_writes_new [OF that, of D] ws install_entry [OF _ d] by blast
  show ?thesis
    unfolding partly_def
  proof (intro conjI ballI allI impI)
    fix n assume "n \<in> log_area start"
    then show "apply_writes ws D n = D n" using in_ws by (intro apply_writes_old) blast
  next
    fix n assume "n \<notin> log_area start"
    then show "apply_writes ws D n = D n \<or> apply_writes ws D n = logical start D n"
      using in_ws apply_writes_old by (cases "n \<in> fst ` set ws") auto
  qed
qed

lemma install_all:
  assumes d: "disk_ok start D" and n: "n \<notin> log_area start"
  shows "apply_writes (install_writes start D) D n = logical start D n"
proof (cases "n \<in> set (head_at start D)")
  case True
  then have "n \<in> fst ` set (install_writes start D)"
    by (metis install_writes_def length_map length_slots list.set_map map_fst_zip)
  then show ?thesis using apply_writes_new [of n "install_writes start D" D] install_entry [OF _ d] by blast
next
  case False
  then have "n \<notin> fst ` set (install_writes start D)" by (auto simp: install_writes_def dest: set_zip_leftD)
  then show ?thesis using apply_writes_old logical_home [OF False] by simp
qed

text \<open>The header is cleared once everything is installed.\<close>

lemma clear_head:
  assumes l: "length (E start) = BSIZE" and n: "n \<notin> log_area start"
  shows "logical start (E(start := head_of [] (E start))) n = E n" "disk_ok start (E(start := head_of [] (E start)))"
    "head_at start (E(start := head_of [] (E start))) = []"
proof -
  have H: "head_blocks (head_of [] (E start)) = []" "sint (get32 (head_of [] (E start)) 0) = 0"
    "length (head_of [] (E start)) = BSIZE"
    using head_of_blocks [OF l, of "[]"] by simp_all
  show h: "head_at start (E(start := head_of [] (E start))) = []" using H by (simp add: head_at_def)
  have "n \<noteq> start" using n start_in_area by auto
  then show "logical start (E(start := head_of [] (E start))) n = E n" using logical_home [of n start] h by simp
  show "disk_ok start (E(start := head_of [] (E start)))"
    using H by (simp add: disk_ok_def h log_ok_def)
qed

lemma take_recovery:
  "take j (recovery_writes start D) = (if j \<le> length (install_writes start D) then take j (install_writes start D)
     else recovery_writes start D)"
  by (simp add: recovery_writes_def)

lemma recovery_prefix:
  assumes d: "disk_ok start D" and n: "n \<notin> log_area start"
  shows "logical start (apply_writes (take j (recovery_writes start D)) D) n = logical start D n"
    "disk_ok start (apply_writes (take j (recovery_writes start D)) D)"
proof -
  let ?E = "apply_writes (install_writes start D) D"
  have P: "partly start D (apply_writes (take j (install_writes start D)) D)" for j
    by (rule install_prefix [OF d]) (rule set_take_subset)
  have E: "partly start D ?E" using P [of "length (install_writes start D)"] by simp
  then have st: "?E start = D start" using start_in_area by (auto simp: partly_def)
  have l: "length (?E start) = BSIZE" using d by (simp add: st disk_ok_def)
  have whole: "apply_writes (recovery_writes start D) D = ?E(start := head_of [] (?E start))"
    by (simp add: recovery_writes_def st)
  show "logical start (apply_writes (take j (recovery_writes start D)) D) n = logical start D n"
    using partly_logical(1) [OF P d n] clear_head(1) [where E = ?E and start = start, OF l n] install_all [OF d n]
    by (simp add: take_recovery whole)
  show "disk_ok start (apply_writes (take j (recovery_writes start D)) D)"
    using partly_logical(2) [OF P d n] clear_head(2) [where E = ?E and start = start, OF l n] by (simp add: take_recovery whole)
qed

lemma recover_runs:
  assumes d: "disk_ok (lstart lg) D"
  shows "\<exists>lg' d'. recover_from_log lg (dev_boot D) = Inr (lg', d') \<and> lh lg' = []
    \<and> hist d' = recovery_writes (lstart lg) D \<and> dview d' = apply_writes (recovery_writes (lstart lg) D) D
    \<and> cview d' = dview d'"
proof -
  let ?s = "lstart lg" and ?bs = "head_at (lstart lg) D"
  let ?lg = "lg\<lparr>lh := ?bs\<rparr>"
  have r: "read_head lg (dev_boot D) = Inr ?lg"
    using d by (simp add: read_head_def dev_boot_def head_at_def disk_ok_def)
  have B: "set ?bs \<inter> log_area ?s = {}" "0 + length ?bs \<le> LOGSIZE" using d by (auto simp: disk_ok_def log_ok_def)
  have i: "install_trans ?lg (dev_boot D) = dev_writes (install_writes ?s D) (dev_boot D)"
    using install_loop_writes [OF B, of "dev_boot D"] by (simp add: install_trans_def install_writes_def dev_boot_def)
  have st: "apply_writes (install_writes ?s D) D ?s = D ?s"
    using install_prefix [OF d, of "install_writes ?s D"] start_in_area by (auto simp: partly_def)
  show ?thesis
    by (simp add: recover_from_log_def r i write_head_def dev_writes_views recovery_writes_def st)
      (simp add: dev_boot_def st)
qed

section \<open>Commit\<close>

definition commit_ready :: "log \<Rightarrow> ldev \<Rightarrow> bool" where
  "commit_ready lg d \<longleftrightarrow> log_ok (lstart lg) (lh lg) \<and> disk_ok (lstart lg) (dview d)
     \<and> head_at (lstart lg) (dview d) = [] \<and> cview d (lstart lg) = dview d (lstart lg)"

text \<open>What a committed transaction makes of the home blocks.\<close>

definition new_home :: "log \<Rightarrow> ldev \<Rightarrow> u32 \<Rightarrow> blk" where
  "new_home lg d n = (if n \<in> set (lh lg) then cview d n else dview d n)"

definition log_writes :: "log \<Rightarrow> ldev \<Rightarrow> (u32 \<times> blk) list" where
  "log_writes lg d = zip (slots (lstart lg) 0 (length (lh lg))) (map (cview d) (lh lg))"

definition committed :: "log \<Rightarrow> ldev \<Rightarrow> u32 \<Rightarrow> blk" where
  "committed lg d = (apply_writes (log_writes lg d) (dview d))(lstart lg := head_of (lh lg) (dview d (lstart lg)))"

lemma log_writes_old: "n \<notin> log_area (lstart lg) - {lstart lg} \<Longrightarrow> length (lh lg) \<le> LOGSIZE \<Longrightarrow> set ws \<subseteq> set (log_writes lg d) \<Longrightarrow>
    apply_writes ws D n = D n"
  using slots_in_area [of 0 "length (lh lg)" "lstart lg"]
  by (intro apply_writes_old) (auto simp: log_writes_def dest!: set_zip_leftD subsetD)

lemma log_writes_slot:
  assumes "k < length (lh lg)" "length (lh lg) \<le> LOGSIZE"
  shows "apply_writes (log_writes lg d) D (slot (lstart lg) k) = cview d (lh lg ! k)"
proof -
  let ?ws = "log_writes lg d" and ?n = "slot (lstart lg) k"
  have "?n \<in> set (slots (lstart lg) 0 (length (lh lg)))" using assms(1) by (auto simp: slots_def)
  then have "?n \<in> fst ` set ?ws" by (metis length_map length_slots list.set_map log_writes_def map_fst_zip)
  then have "(?n, apply_writes ?ws D ?n) \<in> set ?ws" by (rule apply_writes_new)
  then obtain j where j: "j < length (lh lg)" "?n = slot (lstart lg) j" "apply_writes ?ws D ?n = cview d (lh lg ! j)"
    by (auto simp: log_writes_def set_zip slots_def)
  then have "k = j" using slot_inj [of k j] assms by simp
  then show ?thesis using j by simp
qed

lemma committed_logical:
  assumes r: "commit_ready lg d"
  shows "disk_ok (lstart lg) (committed lg d)" "head_at (lstart lg) (committed lg d) = lh lg"
    "\<And>k. k < length (lh lg) \<Longrightarrow> committed lg d (slot (lstart lg) k) = cview d (lh lg ! k)"
    "\<And>n. n \<notin> log_area (lstart lg) \<Longrightarrow> logical (lstart lg) (committed lg d) n = new_home lg d n"
proof -
  let ?C = "committed lg d"
  have L: "length (lh lg) \<le> LOGSIZE" "distinct (lh lg)" "set (lh lg) \<inter> log_area (lstart lg) = {}"
    and D: "length (dview d (lstart lg)) = BSIZE" using r by (auto simp: commit_ready_def log_ok_def disk_ok_def)
  have C: "?C (lstart lg) = head_of (lh lg) (dview d (lstart lg))" by (simp add: committed_def)
  note H = head_of_blocks [OF D L(1)]
  show h: "head_at (lstart lg) ?C = lh lg" using H by (simp add: head_at_def C)
  show "disk_ok (lstart lg) ?C" unfolding disk_ok_def h using H r L(1) by (simp add: C commit_ready_def)
  show s: "?C (slot (lstart lg) k) = cview d (lh lg ! k)" if "k < length (lh lg)" for k
    using log_writes_slot [OF that L(1)] slot_not_start [of k "lstart lg"] that L(1) by (simp add: committed_def)
  show "logical (lstart lg) ?C n = new_home lg d n" if n: "n \<notin> log_area (lstart lg)" for n
  proof (cases "n \<in> set (lh lg)")
    case True
    then obtain k where k: "k < length (lh lg)" "n = lh lg ! k" by (metis in_set_conv_nth)
    then show ?thesis using logical_at [of "lstart lg" ?C k] L(2) h s [OF k(1)] by (simp add: new_home_def)
  next
    case False
    have "?C n = dview d n"
      using n start_in_area [of "lstart lg"] log_writes_old [of n lg "log_writes lg d" d, OF _ L(1)]
      by (auto simp: committed_def)
    then show ?thesis using logical_home [of n "lstart lg" ?C] False h by (simp add: new_home_def)
  qed
qed

lemma commit_writes:
  assumes r: "commit_ready lg d" and ne: "lh lg \<noteq> []"
  shows "hist (snd (commit lg d)) = hist d @ log_writes lg d
      @ (lstart lg, head_of (lh lg) (dview d (lstart lg))) # recovery_writes (lstart lg) (committed lg d)"
    "lh (fst (commit lg d)) = []"
    "dview (snd (commit lg d)) = apply_writes (recovery_writes (lstart lg) (committed lg d)) (committed lg d)"
proof -
  let ?s = "lstart lg" and ?C = "committed lg d"
  have L: "0 + length (lh lg) \<le> LOGSIZE" "set (lh lg) \<inter> log_area ?s = {}"
    using r by (auto simp: commit_ready_def log_ok_def)
  define d1 where "d1 = write_log lg d"
  define d2 where "d2 = write_head lg d1"
  define d3 where "d3 = install_trans lg d2"
  have d1: "d1 = dev_writes (log_writes lg d) d"
    using write_log_writes [OF L(2,1), of d] by (simp add: d1_def write_log_def log_writes_def)
  have c1: "cview d1 ?s = dview d ?s"
    using log_writes_old [of ?s lg "log_writes lg d" d] L(1) r by (simp add: d1 dev_writes_views commit_ready_def)
  have d2v: "dview d2 = ?C" "hist d2 = hist d @ log_writes lg d @ [(?s, head_of (lh lg) (dview d ?s))]"
    unfolding d2_def write_head_def by (simp_all add: c1) (simp_all add: d1 dev_writes_views committed_def)
  have cs: "map (cview d2) (slots ?s 0 (length (lh lg))) = map ?C (slots ?s 0 (length (lh lg)))"
  proof (rule map_cong [OF refl])
    fix m assume "m \<in> set (slots ?s 0 (length (lh lg)))"
    then obtain k where k: "k < length (lh lg)" "m = slot ?s k" by (auto simp: slots_def)
    have "slot ?s k \<noteq> ?s" using k(1) L(1) by (intro slot_not_start) simp
    then have "cview d2 m = cview d1 m" unfolding d2_def write_head_def by (simp add: k)
    also have "\<dots> = cview d (lh lg ! k)" using log_writes_slot [OF k(1)] L(1) by (simp add: d1 dev_writes_views k)
    also have "\<dots> = ?C m" using committed_logical(3) [OF r k(1)] k by simp
    finally show "cview d2 m = ?C m" .
  qed
  have d3: "d3 = dev_writes (install_writes ?s ?C) d2"
    using install_loop_writes [OF L(2,1), of d2] cs committed_logical(2) [OF r]
    by (simp add: d3_def install_trans_def install_writes_def)
  have c3: "cview d3 ?s = ?C ?s"
  proof -
    have "cview d2 ?s = ?C ?s" unfolding d2_def write_head_def by (simp add: c1 committed_def)
    moreover have "?s \<notin> fst ` set (install_writes ?s ?C)"
    proof
      assume "?s \<in> fst ` set (install_writes ?s ?C)"
      then obtain b where "(?s, b) \<in> set (install_writes ?s ?C)" by auto
      then show False using install_entry(1) [OF _ committed_logical(1) [OF r]] start_in_area by blast
    qed
    ultimately show ?thesis using apply_writes_old by (simp add: d3 dev_writes_views)
  qed
  have e: "commit lg d = (lg\<lparr>lh := []\<rparr>, dev_write ?s (head_of [] (?C ?s)) d3)"
  proof -
    have "commit lg d = (lg\<lparr>lh := []\<rparr>, write_head (lg\<lparr>lh := []\<rparr>) d3)"
      using ne by (simp add: commit_def Let_def d1_def d2_def d3_def)
    then show ?thesis using c3 by (simp add: write_head_def)
  qed
  show "lh (fst (commit lg d)) = []" by (simp add: e)
  show "hist (snd (commit lg d)) = hist d @ log_writes lg d
      @ (?s, head_of (lh lg) (dview d ?s)) # recovery_writes ?s ?C"
    by (simp add: e d3 dev_writes_views d2v recovery_writes_def)
  show "dview (snd (commit lg d)) = apply_writes (recovery_writes ?s ?C) ?C"
    by (simp add: e d3 dev_writes_views d2v recovery_writes_def)
qed

lemma commit_crash:
  fixes k :: nat
  assumes r: "commit_ready lg d" and h: "hist (snd (commit lg d)) = hist d @ W" and n: "n \<notin> log_area (lstart lg)"
  defines "E \<equiv> apply_writes (take k W) (dview d)"
  shows "disk_ok (lstart lg) E" "logical (lstart lg) E n = (if k \<le> length (lh lg) then dview d n else new_home lg d n)"
proof -
  let ?s = "lstart lg" and ?C = "committed lg d"
  have L: "length (lh lg) \<le> LOGSIZE" using r by (simp add: commit_ready_def log_ok_def)
  have D: "disk_ok ?s (dview d)" "head_at ?s (dview d) = []" using r by (auto simp: commit_ready_def)
  have lw: "length (log_writes lg d) = length (lh lg)" by (simp add: log_writes_def)
  have before: "disk_ok ?s E \<and> logical ?s E n = dview d n" if "E = apply_writes (take k (log_writes lg d)) (dview d)"
  proof -
    have sub: "set (take k (log_writes lg d)) \<subseteq> set (log_writes lg d)" by (rule set_take_subset)
    have s: "E ?s = dview d ?s" and e: "E n = dview d n"
      using log_writes_old [OF _ L sub] n unfolding that by auto
    have "head_at ?s E = []" using D(2) s by (simp add: head_at_def)
    moreover from this have "disk_ok ?s E" using D(1) s by (simp add: disk_ok_def log_ok_def)
    ultimately show ?thesis using logical_home [of n ?s E] e by simp
  qed
  have "disk_ok ?s E \<and> logical ?s E n = (if k \<le> length (lh lg) then dview d n else new_home lg d n)"
  proof (cases "lh lg = []")
    case True
    then have "W = []" using h by (simp add: commit_def)
    then show ?thesis using before True by (simp add: E_def log_writes_def new_home_def)
  next
    case False
    have W: "W = log_writes lg d @ (?s, head_of (lh lg) (dview d ?s)) # recovery_writes ?s ?C"
      using commit_writes(1) [OF r False] h by simp
    show ?thesis
    proof (cases "k \<le> length (lh lg)")
      case True
      then show ?thesis using before by (simp add: E_def W lw)
    next
      case after: False
      then obtain j where j: "k = length (lh lg) + Suc j" by (metis add_Suc_right less_iff_Suc_add not_le)
      have "E = apply_writes (take j (recovery_writes ?s ?C)) ?C"
        by (simp add: E_def W lw j committed_def)
      then show ?thesis
        using recovery_prefix [OF committed_logical(1) [OF r] n] committed_logical(4) [OF r n] after by simp
    qed
  qed
  then show "disk_ok ?s E" "logical ?s E n = (if k \<le> length (lh lg) then dview d n else new_home lg d n)" by auto
qed

lemma recovered_home:
  assumes d: "disk_ok start D" and n: "n \<notin> log_area start"
  shows "apply_writes (recovery_writes start D) D n = logical start D n"
proof -
  have "start \<noteq> n" using n start_in_area by auto
  then show ?thesis using install_all [OF d n] by (simp add: recovery_writes_def)
qed

text \<open>
  C15. Commit is atomic. Crash after any number of the disk writes of \<open>commit\<close>, lose
  the cache and run \<open>initlog\<close>: recovery succeeds, and the blocks outside the log are
  either all as before the transaction, when the header was not yet written,
  or all as the transaction left them.
\<close>

theorem commit_crash_atomic:
  assumes r: "commit_ready lg d" and h: "hist (snd (commit lg d)) = hist d @ W"
  shows "\<exists>lg' d'. initlog (lstart lg) sz (dev_boot (apply_writes (take k W) (dview d))) = Inr (lg', d')
    \<and> lh lg' = [] \<and> cview d' = dview d'
    \<and> (\<forall>n. n \<notin> log_area (lstart lg) \<longrightarrow>
         dview d' n = (if k \<le> length (lh lg) then dview d n else new_home lg d n))"
proof -
  let ?E = "apply_writes (take k W) (dview d)" and ?s = "lstart lg"
  have ok: "disk_ok ?s ?E"
  proof -
    obtain n where "n \<notin> log_area ?s"
    proof -
      have "card (log_area ?s) \<le> Suc LOGSIZE"
        by (metis (no_types, lifting) card_image_le card_insert_le_m1 card_lessThan finite_lessThan
            log_area_def card_insert_if Suc_le_mono finite_imageI le_SucI)
      then have "card (log_area ?s) < card (UNIV :: u32 set)" by (simp add: LOGSIZE_30 card_word)
      then have "log_area ?s \<noteq> UNIV" by (metis less_irrefl)
      then show ?thesis using that by blast
    qed
    then show ?thesis using commit_crash(1) [OF r h] by blast
  qed
  obtain lg' d' where R: "initlog ?s sz (dev_boot ?E) = Inr (lg', d')" "lh lg' = []"
    "dview d' = apply_writes (recovery_writes ?s ?E) ?E" "cview d' = dview d'"
    using recover_runs [of "\<lparr>lstart = ?s, lsize = sz, outstanding = 0, committing = False, lh = []\<rparr>" ?E] ok
    by (auto simp: initlog_def)
  have "dview d' n = (if k \<le> length (lh lg) then dview d n else new_home lg d n)" if "n \<notin> log_area ?s" for n
    using recovered_home [OF ok that] commit_crash(2) [OF r h that] R(3) by simp
  then show ?thesis using R by blast
qed

text \<open>A small transaction for the witnesses: one logged block on a zero disk.\<close>

definition zero_disk :: "u32 \<Rightarrow> blk" where "zero_disk = (\<lambda>_. replicate BSIZE 0)"

definition lg1 :: log where
  "lg1 = \<lparr>lstart = 2, lsize = 31, outstanding = 0, committing = True, lh = [50]\<rparr>"

definition ld1 :: ldev where
  "ld1 = \<lparr>cview = zero_disk(50 := replicate BSIZE 1), dview = zero_disk, hist = []\<rparr>"

lemma area_2: "50 \<notin> log_area 2"
proof
  assume "50 \<in> log_area 2"
  then obtain k where k: "k < 30" "(50 :: u32) = slot 2 k" by (auto simp: log_area_def LOGSIZE_30)
  then have "unat (of_nat k :: u32) = unat (47 :: u32)" by (simp add: slot_def algebra_simps)
  moreover have "unat (of_nat k :: u32) = k" using k(1) by (intro unat_of_nat_small) simp
  ultimately show False using k(1) by simp
qed

lemma zero_head: "get32 (zero_disk n) 0 = 0" "head_at n zero_disk = []" "length (zero_disk n) = BSIZE"
proof -
  show "get32 (zero_disk n) 0 = 0" by (simp add: zero_disk_def get32_def BSIZE_def)
  then show "head_at n zero_disk = []" by (simp add: head_at_def head_blocks_def get32s_def)
qed (simp add: zero_disk_def)

lemma ready_1: "commit_ready lg1 ld1"
  using area_2 zero_head [of 2]
  by (simp add: commit_ready_def lg1_def ld1_def log_ok_def disk_ok_def LOGSIZE_30)

theorem commit_crash_atomic_witness:
  "\<exists>lg' d'. initlog 2 31 (dev_boot (apply_writes (take 2 (hist (snd (commit lg1 ld1)))) zero_disk)) = Inr (lg', d')
     \<and> dview d' 50 = replicate BSIZE 1"
proof -
  have h: "hist (snd (commit lg1 ld1)) = hist ld1 @ hist (snd (commit lg1 ld1))" by (simp add: ld1_def)
  have s: "lstart lg1 = 2" "dview ld1 = zero_disk" "length (lh lg1) = 1" "new_home lg1 ld1 50 = replicate BSIZE 1"
    by (simp_all add: lg1_def ld1_def new_home_def)
  from commit_crash_atomic [OF ready_1 h, of 31 2, unfolded s]
  obtain lg' d' where i: "initlog 2 31 (dev_boot (apply_writes (take 2 (hist (snd (commit lg1 ld1)))) zero_disk)) = Inr (lg', d')"
    and v: "\<forall>n. n \<notin> log_area 2 \<longrightarrow> dview d' n = (if 2 \<le> (1 :: nat) then zero_disk n else new_home lg1 ld1 n)"
    by blast
  have "dview d' 50 = replicate BSIZE 1" using v [rule_format, OF area_2] s(4) by simp
  then show ?thesis using i by blast
qed

text \<open>
  Recovery is idempotent: crash after any number of its own disk writes and recover
  again, and the blocks outside the log are the ones an undisturbed recovery leaves.
\<close>

theorem recovery_idempotent:
  assumes ok: "disk_ok (lstart lg) D" and r: "recover_from_log lg (dev_boot D) = Inr (l1, d1)"
    and n: "n \<notin> log_area (lstart lg)"
  shows "\<exists>l2 d2. recover_from_log lg (dev_boot (apply_writes (take j (hist d1)) D)) = Inr (l2, d2)
    \<and> dview d2 n = dview d1 n"
proof -
  let ?E = "apply_writes (take j (hist d1)) D"
  have h: "hist d1 = recovery_writes (lstart lg) D" "dview d1 = apply_writes (recovery_writes (lstart lg) D) D"
    using recover_runs [OF ok] r by auto
  note P = recovery_prefix [OF ok n, of j, folded h(1)]
  obtain lg2 d2 where R: "recover_from_log lg (dev_boot ?E) = Inr (lg2, d2)"
    "dview d2 = apply_writes (recovery_writes (lstart lg) ?E) ?E"
    using recover_runs [OF P(2)] by auto
  have "dview d2 n = logical (lstart lg) ?E n" using recovered_home [OF P(2) n] R(2) by simp
  also have "\<dots> = dview d1 n" using P(1) recovered_home [OF ok n] h(2) by simp
  finally show ?thesis using R(1) by blast
qed

theorem recovery_idempotent_witness:
  "\<exists>lg2 d2. recover_from_log lg1 (dev_boot (apply_writes (take 1 (hist (snd (projr (recover_from_log lg1
      (dev_boot (committed lg1 ld1))))))) (committed lg1 ld1))) = Inr (lg2, d2)"
proof -
  have ok: "disk_ok (lstart lg1) (committed lg1 ld1)" by (rule committed_logical(1) [OF ready_1])
  obtain lg' d' where r: "recover_from_log lg1 (dev_boot (committed lg1 ld1)) = Inr (lg', d')"
    using recover_runs [OF ok] by blast
  have "50 \<notin> log_area (lstart lg1)" using area_2 by (simp add: lg1_def)
  from recovery_idempotent [OF ok r this, of 1] show ?thesis by (auto simp: r)
qed

section \<open>Operations sharing the log\<close>

text \<open>
  Any number of system calls between \<open>begin_op\<close> and \<open>end_op\<close>; \<open>op h = Some B\<close> says that \<open>h\<close> is inside and has
  passed the blocks \<open>B\<close> to \<open>log_write\<close>, each as often as it likes: the contract of the log (param.h) is that they are
  at most \<open>MAXOPBLOCKS\<close>. The last one out commits.
\<close>

record lsys =
  lg :: log
  op :: "nat \<Rightarrow> u32 set option"

inductive lstep :: "nat \<Rightarrow> lsys \<Rightarrow> lsys \<Rightarrow> bool" for N where
  begins: "h < N \<Longrightarrow> op s h = None \<Longrightarrow> begin_op (lg s) = Inr l \<Longrightarrow>
    lstep N s (s\<lparr>lg := l, op := (op s)(h := Some {})\<rparr>)"
| writes: "h < N \<Longrightarrow> op s h = Some B \<Longrightarrow> card (insert n B) \<le> MAXOPBLOCKS \<Longrightarrow> log_write n (lg s) = Inr l \<Longrightarrow>
    lstep N s (s\<lparr>lg := l, op := (op s)(h := Some (insert n B))\<rparr>)"
| ends: "h < N \<Longrightarrow> op s h = Some B \<Longrightarrow> end_op (lg s) = Inr (c, l) \<Longrightarrow>
    lstep N s (s\<lparr>lg := l, op := (op s)(h := None)\<rparr>)"
| commits: "committing (lg s) \<Longrightarrow> lstep N s (s\<lparr>lg := fst (end_commit (lg s) d)\<rparr>)"

definition left :: "u32 set option \<Rightarrow> nat" where
  "left x = (case x of None \<Rightarrow> 0 | Some B \<Rightarrow> MAXOPBLOCKS - card B)"

text \<open>
  There is room for all that the operations may still write, and what they have written is in the log, so that writing
  it again takes no room.
\<close>

definition lsys_inv :: "nat \<Rightarrow> lsys \<Rightarrow> bool" where
  "lsys_inv N s \<longleftrightarrow> length (lh (lg s)) + (\<Sum>h<N. left (op s h)) \<le> LOGSIZE
     \<and> outstanding (lg s) = int (card {h. h < N \<and> op s h \<noteq> None})
     \<and> (\<forall>h\<ge>N. op s h = None)
     \<and> (committing (lg s) \<longrightarrow> outstanding (lg s) = 0)
     \<and> (\<forall>h B. op s h = Some B \<longrightarrow> B \<subseteq> set (lh (lg s)))"

definition lsys0 :: "u32 \<Rightarrow> int \<Rightarrow> lsys" where
  "lsys0 start sz = \<lparr>lg = \<lparr>lstart = start, lsize = sz, outstanding = 0, committing = False, lh = []\<rparr>, op = (\<lambda>_. None)\<rparr>"

lemma left_simps [simp]: "left None = 0" "left (Some {}) = MAXOPBLOCKS"
  by (simp_all add: left_def)

lemma sum_left_upd:
  assumes "h < (N :: nat)"
  shows "(\<Sum>k<N. left ((f(h := x)) k)) + left (f h) = (\<Sum>k<N. left (f k)) + left x"
proof -
  have e: "(\<Sum>k<N. left (g k)) = left (g h) + (\<Sum>k\<in>{..<N} - {h}. left (g k))" for g
    using assms by (intro sum.remove) auto
  have "(\<Sum>k\<in>{..<N} - {h}. left ((f(h := x)) k)) = (\<Sum>k\<in>{..<N} - {h}. left (f k))"
    by (rule sum.cong) auto
  then show ?thesis using e [of "f(h := x)"] e [of f] by simp
qed

lemma sum_left_bound: "(\<Sum>h<(N :: nat). left (f h)) \<le> card {h. h < N \<and> f h \<noteq> None} * MAXOPBLOCKS"
proof -
  have "(\<Sum>h<N. left (f h)) = (\<Sum>h\<in>{h. h < N \<and> f h \<noteq> None}. left (f h))"
    by (rule sum.mono_neutral_right) auto
  also have "\<dots> \<le> (\<Sum>h\<in>{h. h < N \<and> f h \<noteq> None}. MAXOPBLOCKS)"
    by (rule sum_mono) (auto simp: left_def split: option.splits)
  finally show ?thesis by simp
qed

lemma commit_lg: "lh (fst (end_commit l d)) = []" "outstanding (fst (end_commit l d)) = outstanding l"
  "committing (fst (end_commit l d)) = False" "lsize (fst (end_commit l d)) = lsize l"
  by (auto simp: end_commit_def commit_def Let_def)

lemma lsys_inv_step:
  assumes st: "lstep N s s'" and i: "lsys_inv N s"
  shows "lsys_inv N s'"
proof -
  have I: "length (lh (lg s)) + (\<Sum>h<N. left (op s h)) \<le> LOGSIZE"
    "outstanding (lg s) = int (card {h. h < N \<and> op s h \<noteq> None})" "\<forall>h\<ge>N. op s h = None"
    "committing (lg s) \<longrightarrow> outstanding (lg s) = 0" "\<forall>h B. op s h = Some B \<longrightarrow> B \<subseteq> set (lh (lg s))"
    using i by (auto simp: lsys_inv_def)
  show ?thesis
    using st
  proof cases
    case (begins h l)
    have l: "\<not> committing (lg s)" "l = (lg s)\<lparr>outstanding := outstanding (lg s) + 1\<rparr>"
      and room: "int (length (lh (lg s))) + (outstanding (lg s) + 1) * int MAXOPBLOCKS \<le> int LOGSIZE"
      using begins(4) by (auto simp: begin_op_def split: if_splits)
    have "int (length (lh (lg s)) + (card {h. h < N \<and> op s h \<noteq> None} + 1) * MAXOPBLOCKS) \<le> int LOGSIZE"
      using room I(2) by (simp add: algebra_simps)
    then have "length (lh (lg s)) + (card {h. h < N \<and> op s h \<noteq> None} + 1) * MAXOPBLOCKS \<le> LOGSIZE" by (simp only: of_nat_le_iff)
    moreover have "(\<Sum>k<N. left (((op s)(h := Some {})) k)) = (\<Sum>k<N. left (op s k)) + MAXOPBLOCKS"
      using sum_left_upd [OF begins(2), of "op s" "Some {}"] begins(3) by simp
    moreover have "(\<Sum>k<N. left (op s k)) \<le> card {h. h < N \<and> op s h \<noteq> None} * MAXOPBLOCKS" by (rule sum_left_bound)
    ultimately have "length (lh (lg s)) + (\<Sum>k<N. left (((op s)(h := Some {})) k)) \<le> LOGSIZE" by simp
    moreover have "card {k. k < N \<and> ((op s)(h := Some {})) k \<noteq> None} = Suc (card {h. h < N \<and> op s h \<noteq> None})"
      using counted_in [OF begins(2), of "\<lambda>x. x \<noteq> None" "op s" "Some {}"] begins(3) by simp
    ultimately show ?thesis using I begins(1,2) l by (simp add: lsys_inv_def)
  next
    case (writes h B n l)
    have o: "outstanding l = outstanding (lg s)" "committing l = committing (lg s)"
      and new: "lh l = (if n \<in> set (lh (lg s)) then lh (lg s) else lh (lg s) @ [n])"
      using writes(5) by (auto simp: log_write_def split: if_splits)
    have fin: "finite B" using I(5) writes(3) finite_subset by blast
    let ?op = "(op s)(h := Some (insert n B))"
    have sum: "(\<Sum>j<N. left (?op j)) + left (op s h) = (\<Sum>j<N. left (op s j)) + left (Some (insert n B))"
      by (rule sum_left_upd [OF writes(2)])
    have "length (lh l) + left (Some (insert n B)) \<le> length (lh (lg s)) + left (op s h)"
    proof (cases "n \<in> set (lh (lg s))")
      case True
      have "card B \<le> card (insert n B)" using fin by (intro card_mono) auto
      then show ?thesis using True new writes(3) by (simp add: left_def)
    next
      case False
      then have "n \<notin> B" using I(5) writes(3) by blast
      then show ?thesis using False new writes(3,4) fin by (simp add: left_def)
    qed
    then have "length (lh l) + (\<Sum>j<N. left (?op j)) \<le> LOGSIZE" using sum I(1) by linarith
    moreover have "{j. j < N \<and> ?op j \<noteq> None} = {j. j < N \<and> op s j \<noteq> None}"
      using counted_same [of "\<lambda>x. x \<noteq> None" "op s" h "Some (insert n B)" N] writes(3) by simp
    moreover have "\<forall>j A. ?op j = Some A \<longrightarrow> A \<subseteq> set (lh l)" using I(5) writes(3) new by auto
    ultimately show ?thesis using I writes(1,2) o by (simp add: lsys_inv_def)
  next
    case (ends h B c l)
    have l: "\<not> committing (lg s)" "outstanding l = outstanding (lg s) - 1" "lh l = lh (lg s)"
      "committing l \<longrightarrow> outstanding l = 0"
      using ends(4) by (auto simp: end_op_def Let_def split: if_splits)
    have "(\<Sum>j<N. left (((op s)(h := None)) j)) \<le> (\<Sum>j<N. left (op s j))"
      using sum_left_upd [OF ends(2), of "op s" None] by simp
    then have "length (lh l) + (\<Sum>j<N. left (((op s)(h := None)) j)) \<le> LOGSIZE" using l I(1) by simp
    moreover have "Suc (card {j. j < N \<and> ((op s)(h := None)) j \<noteq> None}) = card {j. j < N \<and> op s j \<noteq> None}"
      using counted_out [OF ends(2), of "\<lambda>x. x \<noteq> None" "op s" None] ends(3) by simp
    ultimately show ?thesis using I ends(1,2) l by (simp add: lsys_inv_def)
  next
    case (commits d)
    have "card {h. h < N \<and> op s h \<noteq> None} = 0" using I(2,4) commits(2) by simp
    then have "{h. h < N \<and> op s h \<noteq> None} = {}" using finite_subset [of "{h. h < N \<and> op s h \<noteq> None}" "{..<N}"] by auto
    then have "\<forall>h. op s h = None" using I(3) by (metis (mono_tags, lifting) empty_Collect_eq not_le)
    then show ?thesis using commits I(2) by (simp add: lsys_inv_def commit_lg)
  qed
qed

abbreviation lreach :: "nat \<Rightarrow> u32 \<Rightarrow> int \<Rightarrow> lsys \<Rightarrow> bool" where
  "lreach N start sz s \<equiv> (lstep N)\<^sup>*\<^sup>* (lsys0 start sz) s"

lemma lreach_inv: "lreach N start sz s \<Longrightarrow> lsys_inv N s \<and> lsize (lg s) = sz"
proof (induction rule: rtranclp_induct)
  case base
  show ?case by (simp add: lsys_inv_def lsys0_def)
next
  case (step s s')
  have "lsize (lg s') = lsize (lg s)"
    using step.hyps(2) by (cases rule: lstep.cases)
      (auto simp: begin_op_def log_write_def end_op_def Let_def commit_lg split: if_splits)
  then show ?case using lsys_inv_step [OF step.hyps(2)] step.IH by simp
qed

text \<open>
  C22. The log never overflows. On a log of more than \<open>LOGSIZE\<close> blocks, however system calls that write at most
  \<open>MAXOPBLOCKS\<close> different blocks each, any of them any number of times, interleave, an operation that has written fewer
  can write any block, which is then in the log with all it wrote before; \<open>end_op\<close> never panics inside an operation,
  and no operation is inside while the log commits.
\<close>

theorem log_never_overflows:
  assumes r: "lreach N start sz s" and sz: "int LOGSIZE < sz" and h: "op s h = Some B"
  shows "(card B < MAXOPBLOCKS \<longrightarrow> (\<exists>l. log_write n (lg s) = Inr l \<and> insert n B \<subseteq> set (lh l) \<and> length (lh l) \<le> LOGSIZE))
    \<and> B \<subseteq> set (lh (lg s)) \<and> (\<exists>l. end_op (lg s) = Inr l) \<and> \<not> committing (lg s)"
proof -
  have I: "length (lh (lg s)) + (\<Sum>h<N. left (op s h)) \<le> LOGSIZE" "lsize (lg s) = sz"
    "outstanding (lg s) = int (card {h. h < N \<and> op s h \<noteq> None})" "\<forall>h\<ge>N. op s h = None"
    "committing (lg s) \<longrightarrow> outstanding (lg s) = 0" "\<forall>h B. op s h = Some B \<longrightarrow> B \<subseteq> set (lh (lg s))"
    using lreach_inv [OF r] by (auto simp: lsys_inv_def)
  have hN: "h < N" using I(4) h by (cases "h < N") auto
  then have "h \<in> {h. h < N \<and> op s h \<noteq> None}" using h by simp
  then have "card {h. h < N \<and> op s h \<noteq> None} \<noteq> 0" using finite_subset [of "{h. h < N \<and> op s h \<noteq> None}" "{..<N}"] by auto
  then have o: "outstanding (lg s) \<ge> 1" unfolding I(3) by linarith
  then have nc: "\<not> committing (lg s)" using I(5) by auto
  have B: "B \<subseteq> set (lh (lg s))" using I(6) h by blast
  have "\<exists>l. log_write n (lg s) = Inr l \<and> insert n B \<subseteq> set (lh l) \<and> length (lh l) \<le> LOGSIZE" if "card B < MAXOPBLOCKS"
  proof -
    have "left (op s h) \<le> (\<Sum>h<N. left (op s h))" using hN by (intro member_le_sum) auto
    then have "length (lh (lg s)) < LOGSIZE" using I(1) h that by (simp add: left_def)
    then show ?thesis using o I(2) sz B by (auto simp: log_write_def)
  qed
  moreover have "\<exists>l. end_op (lg s) = Inr l" using nc by (auto simp: end_op_def Let_def)
  ultimately show ?thesis using nc B by blast
qed

text \<open>One operation on an empty log, for the witness.\<close>

theorem log_never_overflows_witness:
  "\<exists>l. log_write 7 (lg (lsys0 2 31) \<lparr>outstanding := 1\<rparr>) = Inr l \<and> 7 \<in> set (lh l)"
proof -
  let ?l = "lg (lsys0 2 31) \<lparr>outstanding := 1\<rparr>"
  have b: "begin_op (lg (lsys0 2 31)) = Inr ?l" by (simp add: begin_op_def lsys0_def LOGSIZE_30 MAXOPBLOCKS_def)
  have "lstep 1 (lsys0 2 31) \<lparr>lg = ?l, op = (\<lambda>_. None)(0 := Some {})\<rparr>"
    using lstep.begins [of 0 1 "lsys0 2 31" ?l] b by (simp add: lsys0_def)
  then have "lreach 1 2 31 \<lparr>lg = ?l, op = (\<lambda>_. None)(0 := Some {})\<rparr>" by auto
  from log_never_overflows [OF this, of 0 "{}" 7] show ?thesis by (auto simp: LOGSIZE_30 MAXOPBLOCKS_def)
qed

text \<open>
  The bound of the theorem is strict because the code tests for a full log before it looks whether the block is in it:
  three operations that have used up their blocks may not write one of them again.
\<close>

lemma write_list:
  assumes "h < N" "op s h = Some B" "1 \<le> outstanding (lg s)" "distinct ns" "set ns \<inter> (B \<union> set (lh (lg s))) = {}"
    "finite B" "card B + length ns \<le> MAXOPBLOCKS" "length (lh (lg s)) + length ns \<le> LOGSIZE" "int LOGSIZE < lsize (lg s)"
  shows "(lstep N)\<^sup>*\<^sup>* s (s\<lparr>lg := (lg s)\<lparr>lh := lh (lg s) @ ns\<rparr>, op := (op s)(h := Some (B \<union> set ns))\<rparr>)"
  using assms
proof (induction ns arbitrary: s B)
  case Nil
  then have "s\<lparr>lg := (lg s)\<lparr>lh := lh (lg s) @ []\<rparr>, op := (op s)(h := Some (B \<union> set []))\<rparr> = s"
    by (simp add: fun_upd_idem)
  then show ?case by (simp only: rtranclp.rtrancl_refl)
next
  case (Cons n ns)
  let ?t = "s\<lparr>lg := (lg s)\<lparr>lh := lh (lg s) @ [n]\<rparr>, op := (op s)(h := Some (insert n B))\<rparr>"
  have w: "log_write n (lg s) = Inr ((lg s)\<lparr>lh := lh (lg s) @ [n]\<rparr>)" using Cons.prems by (simp add: log_write_def)
  let ?u = "?t\<lparr>lg := (lg ?t)\<lparr>lh := lh (lg ?t) @ ns\<rparr>, op := (op ?t)(h := Some (insert n B \<union> set ns))\<rparr>"
  have 1: "lstep N s ?t" using lstep.writes [OF Cons.prems(1,2) _ w] Cons.prems by simp
  have 2: "(lstep N)\<^sup>*\<^sup>* ?t ?u" by (rule Cons.IH) (use Cons.prems in auto)
  have u: "?u = s\<lparr>lg := (lg s)\<lparr>lh := lh (lg s) @ n # ns\<rparr>, op := (op s)(h := Some (B \<union> set (n # ns)))\<rparr>" by simp
  show ?case using converse_rtranclp_into_rtranclp [of "lstep N", OF 1 2] unfolding u .
qed

definition full_lsys :: "u32 list \<Rightarrow> u32 list \<Rightarrow> u32 list \<Rightarrow> lsys" where
  "full_lsys as bs cs = \<lparr>lg = \<lparr>lstart = 2, lsize = 31, outstanding = 3, committing = False, lh = as @ bs @ cs\<rparr>,
     op = (\<lambda>_. None)(0 := Some (set as), 1 := Some (set bs), 2 := Some (set cs))\<rparr>"

lemma full_log_reached:
  assumes "distinct (as @ bs @ cs)" "length as = 10" "length bs = 10" "length cs = 10"
  shows "lreach 3 2 31 (full_lsys as bs cs)"
proof -
  let ?l = "\<lambda>k. \<lparr>lstart = 2, lsize = 31, outstanding = k, committing = False, lh = []\<rparr> :: log"
  have b: "begin_op (?l k) = Inr (?l (k + 1))" if "k \<le> 2" for k
    using that by (simp add: begin_op_def LOGSIZE_30 MAXOPBLOCKS_def)
  let ?s = "\<lambda>k f. \<lparr>lg = ?l k, op = f\<rparr> :: lsys"
  have start: "lsys0 2 31 = ?s 0 (\<lambda>_. None)" by (simp add: lsys0_def)
  have "lstep 3 (?s 0 (\<lambda>_. None)) (?s 1 ((\<lambda>_. None)(0 := Some {})))"
    using lstep.begins [of 0 3 "?s 0 (\<lambda>_. None)" "?l 1"] b [of 0] by simp
  moreover have "lstep 3 (?s 1 ((\<lambda>_. None)(0 := Some {}))) (?s 2 ((\<lambda>_. None)(0 := Some {}, 1 := Some {})))"
    using lstep.begins [of 1 3 "?s 1 ((\<lambda>_. None)(0 := Some {}))" "?l 2"] b [of 1] by simp
  moreover have "lstep 3 (?s 2 ((\<lambda>_. None)(0 := Some {}, 1 := Some {}))) (?s 3 ((\<lambda>_. None)(0 := Some {}, 1 := Some {}, 2 := Some {})))"
    using lstep.begins [of 2 3 "?s 2 ((\<lambda>_. None)(0 := Some {}, 1 := Some {}))" "?l 3"] b [of 2] by simp
  moreover note w = write_list [where N = 3, unfolded MAXOPBLOCKS_def LOGSIZE_30]
  let ?m = "\<lambda>ns f. \<lparr>lg = (?l 3)\<lparr>lh := ns\<rparr>, op = f\<rparr> :: lsys"
  have "(lstep 3)\<^sup>*\<^sup>* (?m [] ((\<lambda>_. None)(0 := Some {}, 1 := Some {}, 2 := Some {})))
      (?m as ((\<lambda>_. None)(0 := Some (set as), 1 := Some {}, 2 := Some {})))"
    using w [of 0 "?m [] ((\<lambda>_. None)(0 := Some {}, 1 := Some {}, 2 := Some {}))" "{}" as] assms
    by (simp add: fun_upd_twist)
  moreover have "(lstep 3)\<^sup>*\<^sup>* (?m as ((\<lambda>_. None)(0 := Some (set as), 1 := Some {}, 2 := Some {})))
      (?m (as @ bs) ((\<lambda>_. None)(0 := Some (set as), 1 := Some (set bs), 2 := Some {})))"
    using w [of 1 "?m as ((\<lambda>_. None)(0 := Some (set as), 1 := Some {}, 2 := Some {}))" "{}" bs] assms
    by (auto simp: fun_upd_twist Int_Un_distrib Int_commute)
  moreover have "(lstep 3)\<^sup>*\<^sup>* (?m (as @ bs) ((\<lambda>_. None)(0 := Some (set as), 1 := Some (set bs), 2 := Some {})))
      (?m (as @ bs @ cs) ((\<lambda>_. None)(0 := Some (set as), 1 := Some (set bs), 2 := Some (set cs))))"
    using w [of 2 "?m (as @ bs) ((\<lambda>_. None)(0 := Some (set as), 1 := Some (set bs), 2 := Some {}))" "{}" cs] assms
    by (simp add: Int_Un_distrib Int_commute)
  ultimately show ?thesis unfolding start full_lsys_def by simp
qed

lemma full_log_rewrite_panics:
  assumes "distinct (as @ bs @ cs)" "length as = 10" "length bs = 10" "length cs = 10"
  shows "lreach 3 2 31 (full_lsys as bs cs) \<and> op (full_lsys as bs cs) 2 = Some (set cs) \<and> card (set cs) = MAXOPBLOCKS \<and>
    (\<forall>n\<in>set cs. log_write n (lg (full_lsys as bs cs)) = Inl (Panic ''too big a transaction''))"
  using full_log_reached [OF assms] assms
  by (simp add: full_lsys_def log_write_def LOGSIZE_30 MAXOPBLOCKS_def distinct_card)

text \<open>
  mkfs lays out a log of \<open>LOGSIZE\<close> blocks, header included, one too few: three operations
  within their budgets make \<open>log_write\<close> panic.
\<close>

theorem log_of_LOGSIZE_panics:
  assumes "begin_op \<lparr>lstart = 2, lsize = 30, outstanding = 2, committing = False, lh = []\<rparr> = Inr l"
    and "length bs = 29"
  shows "log_write n (l\<lparr>lh := bs\<rparr>) = Inl (Panic ''too big a transaction'')"
  using assms by (auto simp: begin_op_def log_write_def LOGSIZE_30 MAXOPBLOCKS_def)

end
