(* ===== verification/Fs.thy ===== *)
theory Fs
  imports Log
begin

text \<open>
  The file system (fs.c) over the block contents and the log. A buffer is its block's
  contents: \<open>fs_bread\<close> reads \<open>cview\<close>, \<open>log_write\<close> after a change sets it and logs the block
  number. Pointers to in-memory inodes are indices of the inode cache. A function
  returns \<open>Inl\<close> where the code panics, or would sleep on an inode another process
  has locked.
\<close>

section \<open>fs.h, file.h, stat.h\<close>

record superblock =
  sb_size :: u32
  sb_nblocks :: u32
  sb_ninodes :: u32
  sb_nlog :: u32
  sb_logstart :: u32
  sb_inodestart :: u32
  sb_bmapstart :: u32

definition NDIRECT :: nat where "NDIRECT = 12"
definition NINDIRECT :: nat where "NINDIRECT = BSIZE div 4"
definition MAXFILE :: nat where "MAXFILE = NDIRECT + NINDIRECT"
definition IPB :: nat where "IPB = BSIZE div 64"
definition BPB :: nat where "BPB = BSIZE * 8"
definition DIRSIZ :: nat where "DIRSIZ = 14"
definition ROOTINO :: u32 where "ROOTINO = 1"
definition NINODE :: nat where "NINODE = 50"
definition NDEV :: nat where "NDEV = 10"

definition T_DIR :: u16 where "T_DIR = 1"
definition T_FILE :: u16 where "T_FILE = 2"
definition T_DEV :: u16 where "T_DEV = 3"

record inode =
  idev :: u32
  inum :: u32
  iref :: nat
  ilocked :: bool
  ivalid :: bool
  itype :: u16
  imajor :: u16
  iminor :: u16
  inlink :: u16
  isize :: u32
  addrs :: "u32 list"

text \<open>\<open>fdisk\<close> is the number of blocks of the device.\<close>

record fs =
  dev :: ldev
  flog :: log
  sb :: superblock
  icache :: "inode list"
  fdisk :: u32

abbreviation the_ip :: "fs \<Rightarrow> nat \<Rightarrow> inode" where
  "the_ip s ip \<equiv> icache s ! ip"

definition iset :: "nat \<Rightarrow> (inode \<Rightarrow> inode) \<Rightarrow> fs \<Rightarrow> fs" where
  "iset ip f s = s\<lparr>icache := (icache s)[ip := f (icache s ! ip)]\<rparr>"

definition IBLOCK :: "u32 \<Rightarrow> fs \<Rightarrow> u32" where
  "IBLOCK i s = i div of_nat IPB + sb_inodestart (sb s)"

definition BBLOCK :: "u32 \<Rightarrow> fs \<Rightarrow> u32" where
  "BBLOCK b s = b div of_nat BPB + sb_bmapstart (sb s)"

section \<open>Buffers\<close>

text \<open>
  The contents that \<open>bread\<close> of the cache returns, on the memory disk (\<open>memide.c\<close>): all inodes are on the device \<open>ROOTDEV\<close>,
  which is this disk, so that its test of the device passes. That \<open>bget\<close> finds a buffer is an assumption of this theory: where it
  finds none the kernel panics, as \<open>Bio\<close> models it.
\<close>

definition fs_bread :: "u32 \<Rightarrow> fs \<Rightarrow> blk res" where
  "fs_bread n s = (if n < fdisk s then Inr (cview (dev s) n) else Inl (Panic ''iderw: block out of range''))"

text \<open>The buffer's data becomes \<open>b\<close> and \<open>log_write\<close> is called.\<close>

definition blog :: "u32 \<Rightarrow> blk \<Rightarrow> fs \<Rightarrow> fs res" where
  "blog n b s = rbind (log_write n (flog s)) (\<lambda>l.
     Inr (s\<lparr>flog := l, dev := (dev s)\<lparr>cview := (cview (dev s))(n := b)\<rparr>\<rparr>))"

definition sb_of :: "blk \<Rightarrow> superblock" where
  "sb_of b = \<lparr>sb_size = get32 b 0, sb_nblocks = get32 b 4, sb_ninodes = get32 b 8, sb_nlog = get32 b 12,
     sb_logstart = get32 b 16, sb_inodestart = get32 b 20, sb_bmapstart = get32 b 24\<rparr>"

definition readsb :: "fs \<Rightarrow> fs res" where
  "readsb s = rbind (fs_bread 1 s) (\<lambda>b. Inr (s\<lparr>sb := sb_of b\<rparr>))"

definition bzero :: "u32 \<Rightarrow> fs \<Rightarrow> fs res" where
  "bzero bno s = rbind (fs_bread bno s) (\<lambda>b. blog bno (replicate BSIZE 0) s)"

section \<open>The block allocator\<close>

definition bit_mask :: "nat \<Rightarrow> u8" where
  "bit_mask bi = push_bit (bi mod 8) 1"

definition in_use :: "blk \<Rightarrow> nat \<Rightarrow> bool" where
  "in_use d bi \<longleftrightarrow> d ! (bi div 8) AND bit_mask bi \<noteq> 0"

text \<open>One round per block of the bitmap; \<open>b\<close> is the first block number it describes.\<close>

fun balloc_loop :: "nat list \<Rightarrow> fs \<Rightarrow> (u32 \<times> fs) res" where
  "balloc_loop [] s = Inl (Panic ''balloc: out of blocks'')"
| "balloc_loop (b # bs) s = rbind (fs_bread (BBLOCK (of_nat b) s) s) (\<lambda>d.
     case find (\<lambda>bi. \<not> in_use d bi) [0..<min BPB (unat (sb_size (sb s)) - b)] of
       Some bi \<Rightarrow>
         rbind (blog (BBLOCK (of_nat b) s) (d[bi div 8 := d ! (bi div 8) OR bit_mask bi]) s) (\<lambda>s.
         rbind (bzero (of_nat (b + bi)) s) (\<lambda>s. Inr (of_nat (b + bi), s)))
     | None \<Rightarrow> balloc_loop bs s)"

definition balloc :: "fs \<Rightarrow> (u32 \<times> fs) res" where
  "balloc s = balloc_loop (map (\<lambda>k. k * BPB) [0..<(unat (sb_size (sb s)) + BPB - 1) div BPB]) s"

definition bfree :: "u32 \<Rightarrow> fs \<Rightarrow> fs res" where
  "bfree b s = rbind (readsb s) (\<lambda>s. rbind (fs_bread (BBLOCK b s) s) (\<lambda>d.
     let bi = unat b mod BPB in
     if \<not> in_use d bi then Inl (Panic ''freeing free block'')
     else blog (BBLOCK b s) (d[bi div 8 := d ! (bi div 8) AND NOT (bit_mask bi)]) s))"

section \<open>Inodes\<close>

text \<open>Where inode \<open>i\<close> starts in its block.\<close>

definition ioff :: "u32 \<Rightarrow> nat" where
  "ioff i = 64 * (unat i mod IPB)"

definition dinode_put :: "inode \<Rightarrow> blk \<Rightarrow> blk" where
  "dinode_put ip b = (let k = ioff (inum ip) in
     put32s (k + 12) (addrs ip) (put32 (k + 8) (isize ip) (put16 (k + 6) (inlink ip)
       (put16 (k + 4) (iminor ip) (put16 (k + 2) (imajor ip) (put16 k (itype ip) b))))))"

definition dinode_get :: "blk \<Rightarrow> inode \<Rightarrow> inode" where
  "dinode_get b ip = (let k = ioff (inum ip) in
     ip\<lparr>itype := get16 b k, imajor := get16 b (k + 2), iminor := get16 b (k + 4), inlink := get16 b (k + 6),
        isize := get32 b (k + 8), addrs := get32s (k + 12) (NDIRECT + 1) b\<rparr>)"

definition iget :: "u32 \<Rightarrow> u32 \<Rightarrow> fs \<Rightarrow> (nat \<times> fs) res" where
  "iget d i s =
     (case first_index (\<lambda>p. iref p > 0 \<and> idev p = d \<and> inum p = i) (icache s) of
        Some k \<Rightarrow> Inr (k, iset k (\<lambda>p. p\<lparr>iref := iref p + 1\<rparr>) s)
      | None \<Rightarrow>
          (case first_index (\<lambda>p. iref p = 0) (icache s) of
             None \<Rightarrow> Inl (Panic ''iget: no inodes'')
           | Some k \<Rightarrow> Inr (k, iset k (\<lambda>p. p\<lparr>idev := d, inum := i, iref := 1, ivalid := False\<rparr>) s)))"

fun ialloc_loop :: "u32 \<Rightarrow> u16 \<Rightarrow> nat list \<Rightarrow> fs \<Rightarrow> (nat \<times> fs) res" where
  "ialloc_loop d ty [] s = Inl (Panic ''ialloc: no inodes'')"
| "ialloc_loop d ty (i # is) s = rbind (fs_bread (IBLOCK (of_nat i) s) s) (\<lambda>b.
     let k = ioff (of_nat i) in
     if get16 b k = 0
     then rbind (blog (IBLOCK (of_nat i) s) (put16 k ty (take k b @ replicate 64 0 @ drop (k + 64) b)) s)
            (iget d (of_nat i))
     else ialloc_loop d ty is s)"

definition ialloc :: "u32 \<Rightarrow> u16 \<Rightarrow> fs \<Rightarrow> (nat \<times> fs) res" where
  "ialloc d ty s = ialloc_loop d ty [1..<unat (sb_ninodes (sb s))] s"

definition iupdate :: "nat \<Rightarrow> fs \<Rightarrow> fs res" where
  "iupdate ip s = (let p = the_ip s ip in rbind (fs_bread (IBLOCK (inum p) s) s) (\<lambda>b.
     blog (IBLOCK (inum p) s) (dinode_put p b) s))"

definition idup :: "nat \<Rightarrow> fs \<Rightarrow> nat \<times> fs" where
  "idup ip s = (ip, iset ip (\<lambda>p. p\<lparr>iref := iref p + 1\<rparr>) s)"

definition ilock :: "nat \<Rightarrow> fs \<Rightarrow> fs res" where
  "ilock ip s =
     (if iref (the_ip s ip) < 1 then Inl (Panic ''ilock'')
      else if ilocked (the_ip s ip) then Inl Blocked
      else let s = iset ip (\<lambda>p. p\<lparr>ilocked := True\<rparr>) s in
        if ivalid (the_ip s ip) then Inr s
        else rbind (fs_bread (IBLOCK (inum (the_ip s ip)) s) s) (\<lambda>b.
          let s = iset ip (\<lambda>p. (dinode_get b p)\<lparr>ivalid := True\<rparr>) s in
          if itype (the_ip s ip) = 0 then Inl (Panic ''ilock: no type'') else Inr s))"

definition iunlock :: "nat \<Rightarrow> fs \<Rightarrow> fs res" where
  "iunlock ip s =
     (if \<not> ilocked (the_ip s ip) \<or> iref (the_ip s ip) < 1 then Inl (Panic ''iunlock'')
      else Inr (iset ip (\<lambda>p. p\<lparr>ilocked := False\<rparr>) s))"

section \<open>Inode content\<close>

definition bmap :: "nat \<Rightarrow> nat \<Rightarrow> fs \<Rightarrow> (u32 \<times> fs) res" where
  "bmap ip bn s =
     (if bn < NDIRECT
      then let a = addrs (the_ip s ip) ! bn in
        if a = 0 then rbind (balloc s) (\<lambda>(a, s). Inr (a, iset ip (\<lambda>p. p\<lparr>addrs := (addrs p)[bn := a]\<rparr>) s))
        else Inr (a, s)
      else let bn = bn - NDIRECT in
        if bn < NINDIRECT
        then let a = addrs (the_ip s ip) ! NDIRECT in
          rbind (if a = 0 then rbind (balloc s) (\<lambda>(a, s). Inr (a, iset ip (\<lambda>p. p\<lparr>addrs := (addrs p)[NDIRECT := a]\<rparr>) s))
                 else Inr (a, s)) (\<lambda>(ia, s).
          rbind (fs_bread ia s) (\<lambda>b.
            let a = get32 b (4 * bn) in
            if a = 0 then rbind (balloc s) (\<lambda>(a, s). rbind (blog ia (put32 (4 * bn) a b) s) (\<lambda>s. Inr (a, s)))
            else Inr (a, s)))
        else Inl (Panic ''bmap: out of range''))"

fun bfree_all :: "u32 list \<Rightarrow> fs \<Rightarrow> fs res" where
  "bfree_all [] s = Inr s"
| "bfree_all (a # as) s = rbind (if a \<noteq> 0 then bfree a s else Inr s) (bfree_all as)"

text \<open>The loop over the direct blocks; each freed entry becomes 0.\<close>

fun itrunc_direct :: "nat \<Rightarrow> nat list \<Rightarrow> fs \<Rightarrow> fs res" where
  "itrunc_direct ip [] s = Inr s"
| "itrunc_direct ip (i # is) s =
     (let a = addrs (the_ip s ip) ! i in
      if a \<noteq> 0 then rbind (bfree a s) (\<lambda>s. itrunc_direct ip is (iset ip (\<lambda>p. p\<lparr>addrs := (addrs p)[i := 0]\<rparr>) s))
      else itrunc_direct ip is s)"

definition itrunc :: "nat \<Rightarrow> fs \<Rightarrow> fs res" where
  "itrunc ip s = rbind (itrunc_direct ip [0..<NDIRECT] s) (\<lambda>s.
     let ia = addrs (the_ip s ip) ! NDIRECT in
     rbind (if ia \<noteq> 0
            then rbind (fs_bread ia s) (\<lambda>b. rbind (bfree_all (get32s 0 NINDIRECT b) s) (\<lambda>s.
                 rbind (bfree ia s) (\<lambda>s. Inr (iset ip (\<lambda>p. p\<lparr>addrs := (addrs p)[NDIRECT := 0]\<rparr>) s))))
            else Inr s)
       (\<lambda>s. iupdate ip (iset ip (\<lambda>p. p\<lparr>isize := 0\<rparr>) s)))"

definition iput :: "nat \<Rightarrow> fs \<Rightarrow> fs res" where
  "iput ip s =
     (if ilocked (the_ip s ip) then Inl Blocked
      else rbind (if ivalid (the_ip s ip) \<and> inlink (the_ip s ip) = 0 \<and> iref (the_ip s ip) = 1
                  then rbind (itrunc ip s) (\<lambda>s. rbind (iupdate ip (iset ip (\<lambda>p. p\<lparr>itype := 0\<rparr>) s))
                         (\<lambda>s. Inr (iset ip (\<lambda>p. p\<lparr>ivalid := False\<rparr>) s)))
                  else Inr s)
             (\<lambda>s. Inr (iset ip (\<lambda>p. p\<lparr>iref := iref p - 1\<rparr>) s)))"

definition iunlockput :: "nat \<Rightarrow> fs \<Rightarrow> fs res" where
  "iunlockput ip s = rbind (iunlock ip s) (iput ip)"

record stat =
  st_type :: u16
  st_dev :: u32
  st_ino :: u32
  st_nlink :: u16
  st_size :: u32

definition stati :: "inode \<Rightarrow> stat" where
  "stati p = \<lparr>st_type = itype p, st_dev = idev p, st_ino = inum p, st_nlink = inlink p, st_size = isize p\<rparr>"

text \<open>\<open>min(n - tot, BSIZE - off % BSIZE)\<close>; \<open>r\<close> is \<open>n - tot\<close>.\<close>

definition chunk :: "nat \<Rightarrow> nat \<Rightarrow> nat" where
  "chunk off r = min r (BSIZE - off mod BSIZE)"

lemma chunk_pos: "0 < r \<Longrightarrow> 0 < chunk off r"
  by (simp add: chunk_def BSIZE_def)

function readi_loop :: "nat \<Rightarrow> nat \<Rightarrow> nat \<Rightarrow> fs \<Rightarrow> (u8 list \<times> fs) res" where
  "readi_loop ip off r s =
     (if r = 0 then Inr ([], s)
      else rbind (bmap ip (off div BSIZE) s) (\<lambda>(a, s). rbind (fs_bread a s) (\<lambda>b.
        let m = chunk off r in
        rbind (readi_loop ip (off + m) (r - m) s) (\<lambda>(bs, s).
          Inr (take m (drop (off mod BSIZE) b) @ bs, s)))))"
  by pat_completeness auto
termination
  by (relation "measure (\<lambda>(ip, off, r, s). r)") (auto simp: chunk_pos)

declare readi_loop.simps [simp del]

text \<open>
  \<open>dsw\<close> stands for the \<open>read\<close> entries of \<open>devsw\<close>: what a device makes of a length and
  the state. \<open>None\<close> is the return value -1.
\<close>

definition readi :: "(u16 \<Rightarrow> (nat \<Rightarrow> fs \<Rightarrow> (u8 list option \<times> fs) res) option) \<Rightarrow> nat \<Rightarrow> u32 \<Rightarrow> u32 \<Rightarrow> fs
    \<Rightarrow> (u8 list option \<times> fs) res" where
  "readi dsw ip off n s =
     (let p = the_ip s ip in
      if itype p = T_DEV
      then (if imajor p <s 0 \<or> of_nat NDEV \<le>s imajor p then Inr (None, s)
            else case dsw (imajor p) of None \<Rightarrow> Inr (None, s) | Some f \<Rightarrow> f (unat n) s)
      else if off > isize p \<or> off + n < off then Inr (None, s)
      else let n = (if off + n > isize p then isize p - off else n) in
        rbind (readi_loop ip (unat off) (unat n) s) (\<lambda>(bs, s). Inr (Some bs, s)))"

function writei_loop :: "nat \<Rightarrow> u8 list \<Rightarrow> nat \<Rightarrow> fs \<Rightarrow> fs res" where
  "writei_loop ip src off s =
     (if src = [] then Inr s
      else rbind (bmap ip (off div BSIZE) s) (\<lambda>(a, s). rbind (fs_bread a s) (\<lambda>b.
        let m = chunk off (length src); k = off mod BSIZE in
        rbind (blog a (take k b @ take m src @ drop (k + m) b) s)
          (writei_loop ip (drop m src) (off + m)))))"
  by pat_completeness auto
termination
  by (relation "measure (\<lambda>(ip, src, off, s). length src)") (auto simp: chunk_pos)

declare writei_loop.simps [simp del]

text \<open>The result is \<open>n\<close>, the length of \<open>src\<close>, or \<open>None\<close> for -1.\<close>

definition writei :: "(u16 \<Rightarrow> (u8 list \<Rightarrow> fs \<Rightarrow> (nat option \<times> fs) res) option) \<Rightarrow> nat \<Rightarrow> u8 list \<Rightarrow> u32 \<Rightarrow> fs
    \<Rightarrow> (nat option \<times> fs) res" where
  "writei dsw ip src off s =
     (let p = the_ip s ip; n = (of_nat (length src) :: u32) in
      if itype p = T_DEV
      then (if imajor p <s 0 \<or> of_nat NDEV \<le>s imajor p then Inr (None, s)
            else case dsw (imajor p) of None \<Rightarrow> Inr (None, s) | Some f \<Rightarrow> f src s)
      else if off > isize p \<or> off + n < off then Inr (None, s)
      else if off + n > of_nat (MAXFILE * BSIZE) then Inr (None, s)
      else rbind (writei_loop ip src (unat off) s) (\<lambda>s.
        rbind (if n > 0 \<and> off + n > isize (the_ip s ip)
               then iupdate ip (iset ip (\<lambda>p. p\<lparr>isize := off + n\<rparr>) s) else Inr s)
          (\<lambda>s. Inr (Some (length src), s))))"

section \<open>The bitmap\<close>

lemma in_use_bit: "in_use d bi \<longleftrightarrow> bit (d ! (bi div 8)) (bi mod 8)"
  by (simp add: in_use_def bit_mask_def bit_iff_and_push_bit_not_eq_0)

lemma bit_mask_bit: "bit (bit_mask bi) n \<longleftrightarrow> n = bi mod 8"
proof -
  have "bi mod 8 < 8" by simp
  then show ?thesis by (auto simp: bit_mask_def bit_simps)
qed

lemma bit_of_div_mod: "(bi div 8 = bj div 8 \<and> bi mod 8 = bj mod 8) = (bi = (bj :: nat))"
  by (metis div_mult_mod_eq)

lemma in_use_set:
  assumes "length d = BSIZE" "bi < BPB" "bj < BPB"
  shows "in_use (d[bi div 8 := d ! (bi div 8) OR bit_mask bi]) bj \<longleftrightarrow> bj = bi \<or> in_use d bj"
proof -
  have "bi div 8 < length d" using assms by (simp add: BPB_def BSIZE_def)
  then show ?thesis
    using bit_of_div_mod [of bi bj] by (auto simp: in_use_bit nth_list_update bit_or_iff bit_mask_bit)
qed

lemma in_use_clear:
  assumes "length d = BSIZE" "bi < BPB" "bj < BPB"
  shows "in_use (d[bi div 8 := d ! (bi div 8) AND NOT (bit_mask bi)]) bj \<longleftrightarrow> bj \<noteq> bi \<and> in_use d bj"
proof -
  have "bi div 8 < length d" "bj mod 8 < 8" using assms by (simp_all add: BPB_def BSIZE_def)
  then show ?thesis
    using bit_of_div_mod [of bi bj] by (auto simp: in_use_bit nth_list_update bit_and_iff bit_not_iff bit_mask_bit)
qed

definition marked :: "fs \<Rightarrow> u32 \<Rightarrow> bool" where
  "marked s b \<longleftrightarrow> in_use (cview (dev s) (BBLOCK b s)) (unat b mod BPB)"

definition bitmap_blocks :: "fs \<Rightarrow> u32 set" where
  "bitmap_blocks s = (\<lambda>b. BBLOCK b s) ` {b. b < sb_size (sb s)}"

definition inode_blocks :: "fs \<Rightarrow> u32 set" where
  "inode_blocks s = (\<lambda>i. IBLOCK i s) ` {i. i < sb_ninodes (sb s)}"

text \<open>
  A well-formed disk: the boot block, the super block, the inode blocks and the bitmap
  are in use, the bitmap is apart from the others, the super block is the one in memory.
\<close>

definition fs_ok :: "fs \<Rightarrow> bool" where
  "fs_ok s \<longleftrightarrow> sb_size (sb s) \<le> fdisk s \<and> (\<forall>n. length (cview (dev s) n) = BSIZE)
     \<and> (\<forall>b\<in>insert 0 (insert 1 (inode_blocks s \<union> bitmap_blocks s)). b < sb_size (sb s) \<and> marked s b)
     \<and> insert 0 (insert 1 (inode_blocks s)) \<inter> bitmap_blocks s = {} \<and> 1 \<notin> inode_blocks s
     \<and> sb_of (cview (dev s) 1) = sb s"

lemma fs_okD:
  assumes "fs_ok s"
  shows "sb_size (sb s) \<le> fdisk s" "length (cview (dev s) n) = BSIZE"
    "b \<in> insert 0 (insert 1 (inode_blocks s \<union> bitmap_blocks s)) \<Longrightarrow> b < sb_size (sb s) \<and> marked s b"
    "insert 0 (insert 1 (inode_blocks s)) \<inter> bitmap_blocks s = {}" "sb_of (cview (dev s) 1) = sb s"
    "1 \<notin> inode_blocks s"
  using assms unfolding fs_ok_def by blast+

lemma BBLOCK_eq: "BBLOCK b s = of_nat (unat b div BPB) + sb_bmapstart (sb s)"
proof -
  have "b div 4096 = of_nat (unat b div 4096)" by (simp add: word_arith_nat_div)
  then show ?thesis by (simp add: BBLOCK_def BPB_def BSIZE_def)
qed

lemma BBLOCK_inj: "BBLOCK b s = BBLOCK c s \<longleftrightarrow> unat b div BPB = unat c div BPB"
proof
  assume "BBLOCK b s = BBLOCK c s"
  then have "(of_nat (unat b div BPB) :: u32) = of_nat (unat c div BPB)" by (simp add: BBLOCK_eq)
  moreover have "unat b div BPB < 2 ^ LENGTH(32)" "unat c div BPB < 2 ^ LENGTH(32)"
    by (metis div_le_dividend le_less_trans unat_bound)+
  ultimately show "unat b div BPB = unat c div BPB" by (metis unat_of_nat_small)
qed (simp add: BBLOCK_eq)

lemma block_parts: "unat b div BPB = unat c div BPB \<and> unat b mod BPB = unat c mod BPB \<longleftrightarrow> b = (c :: u32)"
  by (metis div_mult_mod_eq unsigned_word_eqI)

text \<open>\<open>blog\<close> sets the contents of one block.\<close>

lemma blog_Inr:
  assumes "blog n b s = Inr s'"
  shows "cview (dev s') = (cview (dev s))(n := b)" "sb s' = sb s" "icache s' = icache s" "fdisk s' = fdisk s"
  using assms by (auto simp: blog_def rbind_eq_Inr)

lemma bread_Inr: "fs_bread n s = Inr b \<longleftrightarrow> n < fdisk s \<and> b = cview (dev s) n"
  by (auto simp: fs_bread_def)

lemma blocks_cong: "sb s' = sb s \<Longrightarrow> BBLOCK b s' = BBLOCK b s" "sb s' = sb s \<Longrightarrow> IBLOCK i s' = IBLOCK i s"
  "sb s' = sb s \<Longrightarrow> bitmap_blocks s' = bitmap_blocks s" "sb s' = sb s \<Longrightarrow> inode_blocks s' = inode_blocks s"
  by (simp_all add: BBLOCK_def IBLOCK_def bitmap_blocks_def inode_blocks_def)

text \<open>One bit of the bitmap changes.\<close>

lemma marked_bit:
  assumes ok: "fs_ok s" and a: "a < sb_size (sb s)" and sb: "sb s' = sb s" and b: "b < sb_size (sb s)"
    and c: "cview (dev s') (BBLOCK a s) = D" "\<And>n. n \<in> bitmap_blocks s \<Longrightarrow> n \<noteq> BBLOCK a s \<Longrightarrow> cview (dev s') n = cview (dev s) n"
    and D: "\<And>bj. bj < BPB \<Longrightarrow> in_use D bj = (if bj = unat a mod BPB then v else in_use (cview (dev s) (BBLOCK a s)) bj)"
  shows "marked s' b = (if b = a then v else marked s b)"
proof (cases "BBLOCK b s = BBLOCK a s")
  case True
  have m: "unat b mod BPB < BPB" by (simp add: BPB_def BSIZE_def)
  have "(unat b mod BPB = unat a mod BPB) = (b = a)" using block_parts [of b a] True BBLOCK_inj [of b s a] by blast
  then show ?thesis using D [OF m] c(1) True by (simp add: marked_def blocks_cong(1) [OF sb])
next
  case False
  then have "b \<noteq> a" by auto
  moreover have "BBLOCK b s \<in> bitmap_blocks s" using b by (auto simp: bitmap_blocks_def)
  ultimately show ?thesis using c(2) False by (simp add: marked_def blocks_cong(1) [OF sb])
qed

text \<open>The state after a change outside the reserved blocks and to the bitmap.\<close>

lemma fs_ok_frame:
  assumes ok: "fs_ok s" and e: "sb s' = sb s" "fdisk s' = fdisk s"
    and l: "\<And>n. length (cview (dev s') n) = BSIZE"
    and u: "\<And>b. b \<in> insert 0 (insert 1 (inode_blocks s \<union> bitmap_blocks s)) \<Longrightarrow> marked s' b"
    and one: "cview (dev s') 1 = cview (dev s) 1"
  shows "fs_ok s'"
  using fs_okD(1,4,6) [OF ok] fs_okD(3,5) [OF ok] u l
  unfolding fs_ok_def blocks_cong(3,4) [OF e(1)] e one by blast

definition balloc_post :: "fs \<Rightarrow> u32 \<Rightarrow> fs \<Rightarrow> bool" where
  "balloc_post s a s' \<longleftrightarrow> a < sb_size (sb s) \<and> \<not> marked s a \<and> fs_ok s'
     \<and> sb s' = sb s \<and> icache s' = icache s \<and> fdisk s' = fdisk s
     \<and> (\<forall>b. b < sb_size (sb s) \<longrightarrow> marked s' b = (b = a \<or> marked s b))
     \<and> (\<forall>n. n \<notin> bitmap_blocks s \<longrightarrow> cview (dev s') n = (if n = a then replicate BSIZE 0 else cview (dev s) n))"

lemma balloc_found:
  assumes ok: "fs_ok s" and b: "b mod BPB = 0" and bi: "bi < BPB" "b + bi < unat (sb_size (sb s))"
    and free: "\<not> in_use d bi" and d: "d = cview (dev s) (BBLOCK (of_nat b) s)"
    and s1: "blog (BBLOCK (of_nat b) s) (d[bi div 8 := d ! (bi div 8) OR bit_mask bi]) s = Inr s1"
    and s2: "bzero (of_nat (b + bi)) s1 = Inr s2"
  shows "balloc_post s (of_nat (b + bi)) s2"
proof -
  let ?a = "of_nat (b + bi) :: u32" and ?D = "d[bi div 8 := d ! (bi div 8) OR bit_mask bi]"
  have small: "b + bi < 2 ^ LENGTH(32)" using bi(2) unat_bound [of "sb_size (sb s)"] by linarith
  have ua: "unat ?a = b + bi" "unat (of_nat b :: u32) = b" using small by (simp_all only: unat_of_nat_small)
  have parts: "(b + bi) div BPB = b div BPB" "(b + bi) mod BPB = bi"
  proof -
    obtain q where q: "b = BPB * q" using b by (metis mod_0_imp_dvd dvdE)
    have "0 < BPB" using bi(1) by simp
    then show "(b + bi) div BPB = b div BPB" "(b + bi) mod BPB = bi" using bi(1) q by simp_all
  qed
  have a: "?a < sb_size (sb s)" using bi(2) ua by (simp add: word_less_nat_alt)
  have BB: "BBLOCK ?a s = BBLOCK (of_nat b) s" using parts(1) unfolding BBLOCK_inj ua by simp
  have nu: "\<not> marked s ?a" using free parts(2) unfolding marked_def BB ua d by simp
  have nr: "?a \<notin> insert 0 (insert 1 (inode_blocks s \<union> bitmap_blocks s))" using fs_okD(3) [OF ok] nu by blast
  note S1 = blog_Inr [OF s1]
  have w: "blog ?a (replicate BSIZE 0) s1 = Inr s2" using s2 by (auto simp: bzero_def rbind_eq_Inr)
  note S2 = blog_Inr [OF w]
  have cv: "cview (dev s2) = (cview (dev s))(BBLOCK ?a s := ?D, ?a := replicate BSIZE 0)"
    using S1(1) S2(1) BB by simp
  have BBin: "BBLOCK ?a s \<in> bitmap_blocks s" using a by (auto simp: bitmap_blocks_def)
  have e: "sb s2 = sb s" "icache s2 = icache s" "fdisk s2 = fdisk s" using S1 S2 by simp_all
  have ld: "length d = BSIZE" using fs_okD(2) [OF ok] d by simp
  have nab: "n \<in> bitmap_blocks s \<Longrightarrow> n \<noteq> ?a" for n using nr by blast
  have us: "marked s2 c = (c = ?a \<or> marked s c)" if c: "c < sb_size (sb s)" for c
  proof -
    have "marked s2 c = (if c = ?a then True else marked s c)"
    proof (rule marked_bit [OF ok a e(1) c, where D = ?D])
      show "cview (dev s2) (BBLOCK ?a s) = ?D" using cv nab [OF BBin] by simp
      fix bj assume "bj < BPB"
      then show "in_use ?D bj = (if bj = unat ?a mod BPB then True else in_use (cview (dev s) (BBLOCK ?a s)) bj)"
        using in_use_set [OF ld bi(1)] parts(2) unfolding ua BB d by simp
    next
      fix n assume "n \<in> bitmap_blocks s" "n \<noteq> BBLOCK ?a s"
      then show "cview (dev s2) n = cview (dev s) n" using cv nab by simp
    qed
    then show ?thesis by simp
  qed
  have out: "cview (dev s2) n = (if n = ?a then replicate BSIZE 0 else cview (dev s) n)" if "n \<notin> bitmap_blocks s" for n
    using that BBin cv by auto
  have "fs_ok s2"
  proof (rule fs_ok_frame [OF ok e(1,3)])
    show "length (cview (dev s2) n) = BSIZE" for n using cv ld fs_okD(2) [OF ok] by simp
    show "marked s2 c" if "c \<in> insert 0 (insert 1 (inode_blocks s \<union> bitmap_blocks s))" for c
      using us [of c] fs_okD(3) [OF ok that] by blast
    have "1 \<notin> bitmap_blocks s" "?a \<noteq> 1" using fs_okD(4) [OF ok] nr by blast+
    then show "cview (dev s2) 1 = cview (dev s) 1" using out by auto
  qed
  then show ?thesis using a nu e us out unfolding balloc_post_def by blast
qed

lemma balloc_loop_post:
  assumes "fs_ok s" "balloc_loop bs s = Inr (a, s')" "\<forall>b\<in>set bs. b mod BPB = 0"
  shows "balloc_post s a s'"
  using assms
proof (induction bs)
  case (Cons b bs)
  let ?d = "cview (dev s) (BBLOCK (of_nat b) s)" and ?r = "[0..<min BPB (unat (sb_size (sb s)) - b)]"
  have br: "fs_bread (BBLOCK (of_nat b) s) s = Inr ?d"
    using Cons.prems(2) by (auto simp: rbind_eq_Inr bread_Inr)
  show ?case
  proof (cases "find (\<lambda>bi. \<not> in_use ?d bi) ?r")
    case None
    then show ?thesis using Cons.IH Cons.prems br by simp
  next
    case (Some bi)
    then have bi: "bi < BPB" "b + bi < unat (sb_size (sb s))" "\<not> in_use ?d bi" by (auto simp: find_Some_iff)
    obtain s1 s2 where s: "blog (BBLOCK (of_nat b) s) (?d[bi div 8 := ?d ! (bi div 8) OR bit_mask bi]) s = Inr s1"
      "bzero (of_nat (b + bi)) s1 = Inr s2" "a = of_nat (b + bi)" "s' = s2"
      using Cons.prems(2) br Some by (auto simp: rbind_eq_Inr)
    then show ?thesis using balloc_found [OF Cons.prems(1) _ bi(1,2,3) refl s(1,2)] Cons.prems(3) by simp
  qed
qed simp

lemma balloc_ok: "fs_ok s \<Longrightarrow> balloc s = Inr (a, s') \<Longrightarrow> balloc_post s a s'"
  unfolding balloc_def by (rule balloc_loop_post) auto

section \<open>The blocks of a file\<close>

text \<open>
  A file has 13 addresses in its inode and 128 in the indirect block; \<open>faddr\<close> numbers
  them 0 to 140, 12 being the indirect block itself.
\<close>

definition FSLOTS :: nat where "FSLOTS = 141"

lemma fs_consts: "NDIRECT = 12" "NINDIRECT = 128" "MAXFILE = 140" "BSIZE = 512" "BPB = 4096" "IPB = 8"
  by (simp_all add: NDIRECT_def NINDIRECT_def MAXFILE_def BSIZE_def BPB_def IPB_def)

definition faddr :: "fs \<Rightarrow> nat \<Rightarrow> nat \<Rightarrow> u32" where
  "faddr s ip k = (let p = the_ip s ip in
     if k < 13 then addrs p ! k
     else if addrs p ! 12 = 0 then 0 else get32 (cview (dev s) (addrs p ! 12)) (4 * (k - 13)))"

definition fslot :: "nat \<Rightarrow> nat" where
  "fslot bn = (if bn < 12 then bn else bn + 1)"

definition reserved :: "fs \<Rightarrow> u32 set" where
  "reserved s = insert 0 (insert 1 (inode_blocks s \<union> bitmap_blocks s))"

definition file_ok :: "fs \<Rightarrow> nat \<Rightarrow> bool" where
  "file_ok s ip \<longleftrightarrow> ip < length (icache s) \<and> length (addrs (the_ip s ip)) = 13
     \<and> (\<forall>k<FSLOTS. faddr s ip k \<noteq> 0 \<longrightarrow> faddr s ip k < sb_size (sb s) \<and> marked s (faddr s ip k)
          \<and> faddr s ip k \<notin> reserved s)
     \<and> (\<forall>j<FSLOTS. \<forall>k<FSLOTS. faddr s ip j \<noteq> 0 \<longrightarrow> faddr s ip j = faddr s ip k \<longrightarrow> j = k)"

text \<open>The bytes of a file; what has no block yet reads as 0.\<close>

definition fbyte :: "fs \<Rightarrow> nat \<Rightarrow> nat \<Rightarrow> u8" where
  "fbyte s ip i = (let a = faddr s ip (fslot (i div BSIZE)) in
     if a = 0 then 0 else cview (dev s) a ! (i mod BSIZE))"

lemma file_okD:
  assumes "file_ok s ip"
  shows "ip < length (icache s)" "length (addrs (the_ip s ip)) = 13"
    "k < FSLOTS \<Longrightarrow> faddr s ip k \<noteq> 0 \<Longrightarrow> faddr s ip k < sb_size (sb s)"
    "k < FSLOTS \<Longrightarrow> faddr s ip k \<noteq> 0 \<Longrightarrow> marked s (faddr s ip k)"
    "k < FSLOTS \<Longrightarrow> faddr s ip k \<noteq> 0 \<Longrightarrow> faddr s ip k \<notin> reserved s"
    "j < FSLOTS \<Longrightarrow> k < FSLOTS \<Longrightarrow> faddr s ip j \<noteq> 0 \<Longrightarrow> faddr s ip j = faddr s ip k \<Longrightarrow> j = k"
  using assms unfolding file_ok_def by blast+

lemma fslot_bound: "bn < MAXFILE \<Longrightarrow> fslot bn < FSLOTS" "fslot bn \<noteq> 12"
  by (auto simp: fslot_def FSLOTS_def fs_consts)

lemma fslot_inj: "fslot b = fslot c \<longleftrightarrow> b = c"
  by (auto simp: fslot_def)

text \<open>How \<open>bmap\<close> and the loops over it change a state, except for the bytes of the file.\<close>

definition grows :: "fs \<Rightarrow> nat \<Rightarrow> fs \<Rightarrow> bool" where
  "grows s ip s' \<longleftrightarrow> fs_ok s' \<and> file_ok s' ip \<and> sb s' = sb s \<and> fdisk s' = fdisk s
     \<and> length (icache s') = length (icache s) \<and> (\<forall>q. q \<noteq> ip \<longrightarrow> the_ip s' q = the_ip s q)
     \<and> the_ip s' ip = (the_ip s ip)\<lparr>addrs := addrs (the_ip s' ip)\<rparr>
     \<and> (\<forall>n. n < sb_size (sb s) \<longrightarrow> marked s n \<longrightarrow> marked s' n)
     \<and> (\<forall>k<FSLOTS. faddr s' ip k = faddr s ip k \<or> faddr s ip k = 0 \<and> \<not> marked s (faddr s' ip k))
     \<and> (\<forall>n. n < sb_size (sb s) \<longrightarrow> marked s n \<longrightarrow> n \<notin> bitmap_blocks s \<longrightarrow> n \<notin> faddr s ip ` {..<FSLOTS} \<longrightarrow>
          cview (dev s') n = cview (dev s) n)"

lemma growsD:
  assumes "grows s ip s'"
  shows "fs_ok s'" "file_ok s' ip" "sb s' = sb s" "fdisk s' = fdisk s" "length (icache s') = length (icache s)"
    "q \<noteq> ip \<Longrightarrow> the_ip s' q = the_ip s q" "the_ip s' ip = (the_ip s ip)\<lparr>addrs := addrs (the_ip s' ip)\<rparr>"
    "n < sb_size (sb s) \<Longrightarrow> marked s n \<Longrightarrow> marked s' n"
    "k < FSLOTS \<Longrightarrow> faddr s' ip k = faddr s ip k \<or> faddr s ip k = 0 \<and> \<not> marked s (faddr s' ip k)"
    "n < sb_size (sb s) \<Longrightarrow> marked s n \<Longrightarrow> n \<notin> bitmap_blocks s \<Longrightarrow> n \<notin> faddr s ip ` {..<FSLOTS} \<Longrightarrow>
       cview (dev s') n = cview (dev s) n"
  using assms unfolding grows_def by blast+

lemma grows_refl: "fs_ok s \<Longrightarrow> file_ok s ip \<Longrightarrow> grows s ip s"
  by (simp add: grows_def)

lemma grows_trans:
  assumes a: "grows s ip s1" and b: "grows s1 ip s2"
  shows "grows s ip s2"
proof -
  note A = growsD [OF a] and B = growsD [OF b]
  have slots: "faddr s2 ip k = faddr s ip k \<or> faddr s ip k = 0 \<and> \<not> marked s (faddr s2 ip k)" if k: "k < FSLOTS" for k
  proof (cases "faddr s2 ip k = faddr s1 ip k")
    case True
    then show ?thesis using A(9) [OF k] by simp
  next
    case False
    then have z: "faddr s1 ip k = 0" "\<not> marked s1 (faddr s2 ip k)" using B(9) [OF k] by auto
    have f2: "faddr s2 ip k \<noteq> 0" using False z by simp
    then have "faddr s2 ip k < sb_size (sb s)" using file_okD(3) [OF B(2) k] A(3) B(3) by simp
    then have "\<not> marked s (faddr s2 ip k)" using A(8) z(2) by blast
    moreover have "faddr s ip k = 0"
    proof (rule ccontr)
      assume "faddr s ip k \<noteq> 0"
      then have "faddr s1 ip k = faddr s ip k" using A(9) [OF k] by blast
      then show False using z(1) \<open>faddr s ip k \<noteq> 0\<close> by simp
    qed
    ultimately show ?thesis by blast
  qed
  have iso: "cview (dev s2) n = cview (dev s) n"
    if n: "n < sb_size (sb s)" "marked s n" "n \<notin> bitmap_blocks s" "n \<notin> faddr s ip ` {..<FSLOTS}" for n
  proof -
    have "n \<notin> faddr s1 ip ` {..<FSLOTS}"
    proof
      assume "n \<in> faddr s1 ip ` {..<FSLOTS}"
      then obtain k where k: "k < FSLOTS" "n = faddr s1 ip k" by auto
      then show False using A(9) [OF k(1)] n(2,4) by auto
    qed
    then show ?thesis using B(10) [of n] A(8,10) n A(3) blocks_cong(3) [OF A(3)] by simp
  qed
  have ipf: "the_ip s2 ip = (the_ip s ip)\<lparr>addrs := addrs (the_ip s2 ip)\<rparr>"
  proof -
    have "the_ip s2 ip = ((the_ip s ip)\<lparr>addrs := addrs (the_ip s1 ip)\<rparr>)\<lparr>addrs := addrs (the_ip s2 ip)\<rparr>"
      using A(7) B(7) by simp
    then show ?thesis by simp
  qed
  show ?thesis
    unfolding grows_def using B(1,2) A(3-6,8) B(3-6,8) ipf slots iso by simp
qed

lemma balloc_postD:
  assumes "balloc_post s a s'"
  shows "a < sb_size (sb s)" "\<not> marked s a" "fs_ok s'" "sb s' = sb s" "icache s' = icache s" "fdisk s' = fdisk s"
    "b < sb_size (sb s) \<Longrightarrow> marked s' b = (b = a \<or> marked s b)"
    "n \<notin> bitmap_blocks s \<Longrightarrow> cview (dev s') n = (if n = a then replicate BSIZE 0 else cview (dev s) n)"
  using assms unfolding balloc_post_def by blast+

lemma fresh_block:
  assumes ok: "fs_ok s" and p: "balloc_post s a s'"
  shows "a \<noteq> 0" "a \<notin> reserved s" "a \<notin> bitmap_blocks s"
  using fs_okD(3) [OF ok] balloc_postD(2) [OF p] unfolding reserved_def by blast+

text \<open>
  What a change of one slot must satisfy; \<open>s1\<close> is the state after \<open>balloc\<close> gave \<open>a\<close>,
  \<open>s2\<close> the state after \<open>a\<close> was entered.
\<close>

lemma enter_block:
  assumes ok: "fs_ok s" and f: "file_ok s ip" and p: "balloc_post s a s1" and k: "k < FSLOTS" "faddr s ip k = 0"
    and e: "sb s2 = sb s" "fdisk s2 = fdisk s" "length (icache s2) = length (icache s)"
      "\<And>q. q \<noteq> ip \<Longrightarrow> the_ip s2 q = the_ip s q" "the_ip s2 ip = (the_ip s ip)\<lparr>addrs := addrs (the_ip s2 ip)\<rparr>"
      "length (addrs (the_ip s2 ip)) = 13"
    and slots: "\<And>j. j < FSLOTS \<Longrightarrow> faddr s2 ip j = (if j = k then a else faddr s ip j)"
    and cv: "\<And>n. n \<noteq> faddr s ip 12 \<or> k \<le> 12 \<Longrightarrow> cview (dev s2) n = cview (dev s1) n"
      "\<And>n. length (cview (dev s2) n) = BSIZE"
    and ind: "12 < k \<Longrightarrow> faddr s ip 12 \<noteq> 0"
  shows "grows s ip s2" "i < MAXFILE * BSIZE \<Longrightarrow> fbyte s2 ip i = fbyte s ip i"
proof -
  note F = file_okD [OF f] and P = balloc_postD [OF p] and N = fresh_block [OF ok p]
  have bmap_not_12: "faddr s ip 12 \<notin> bitmap_blocks s" if "12 < k"
    using F(5) [of 12] ind [OF that] by (simp add: FSLOTS_def reserved_def)
  have us: "marked s2 n = (n = a \<or> marked s n)" if n: "n < sb_size (sb s)" for n
  proof -
    have "BBLOCK n s \<in> bitmap_blocks s" using n by (auto simp: bitmap_blocks_def)
    then have "cview (dev s2) (BBLOCK n s) = cview (dev s1) (BBLOCK n s)" using cv(1) bmap_not_12 by (metis leI)
    then have "marked s2 n = marked s1 n" by (simp add: marked_def blocks_cong(1) [OF e(1)] blocks_cong(1) [OF P(4)])
    then show ?thesis using P(7) [OF n] by simp
  qed
  have keep: "cview (dev s2) n = cview (dev s) n"
    if "n \<notin> bitmap_blocks s" "n \<noteq> a" "n \<noteq> faddr s ip 12 \<or> k \<le> 12" for n
    using cv(1) [OF that(3)] P(8) [OF that(1)] that(2) by simp
  have fk: "fs_ok s2"
  proof (rule fs_ok_frame [OF ok e(1,2) cv(2)])
    show "marked s2 b" if "b \<in> insert 0 (insert 1 (inode_blocks s \<union> bitmap_blocks s))" for b
      using us [of b] fs_okD(3) [OF ok that] by blast
    have "1 \<notin> bitmap_blocks s" "1 \<noteq> a" using fs_okD(4) [OF ok] N(2) unfolding reserved_def by blast+
    moreover have "1 \<noteq> faddr s ip 12 \<or> k \<le> 12"
    proof (cases "k \<le> 12")
      case False
      then have "faddr s ip 12 \<notin> reserved s" using F(5) [of 12] ind by (simp add: FSLOTS_def)
      then show ?thesis unfolding reserved_def by auto
    qed simp
    ultimately show "cview (dev s2) 1 = cview (dev s) 1" by (rule keep)
  qed
  have nota: "faddr s ip j \<noteq> 0 \<Longrightarrow> j < FSLOTS \<Longrightarrow> faddr s ip j \<noteq> a" for j using F(4) [of j] P(2) by auto
  have res: "reserved s2 = reserved s" by (simp add: reserved_def blocks_cong(3,4) [OF e(1)])
  have fo: "file_ok s2 ip"
    unfolding file_ok_def
  proof (intro conjI allI impI)
    show "ip < length (icache s2)" "length (addrs (the_ip s2 ip)) = 13" using F(1) e by simp_all
    fix j assume j: "j < FSLOTS" "faddr s2 ip j \<noteq> 0"
    then show "faddr s2 ip j < sb_size (sb s2)" "marked s2 (faddr s2 ip j)" "faddr s2 ip j \<notin> reserved s2"
      using P(1) F(3,4,5) [of j] us N(2) e(1) unfolding slots [OF j(1)] res by (auto split: if_splits)
  next
    fix i j assume ij: "i < FSLOTS" "j < FSLOTS" "faddr s2 ip i \<noteq> 0" "faddr s2 ip i = faddr s2 ip j"
    show "i = j"
    proof (cases "i = k \<or> j = k")
      case True
      then show ?thesis using ij(3,4) nota [OF _ ij(1)] nota [OF _ ij(2)] N(1)
        unfolding slots [OF ij(1)] slots [OF ij(2)] by (auto split: if_splits)
    next
      case False
      then show ?thesis using ij F(6) [OF ij(1,2)] unfolding slots [OF ij(1)] slots [OF ij(2)] by simp
    qed
  qed
  have iso: "cview (dev s2) n = cview (dev s) n"
    if n: "marked s n" "n \<notin> bitmap_blocks s" "n \<notin> faddr s ip ` {..<FSLOTS}" for n
  proof (rule keep [OF n(2)])
    show "n \<noteq> a" using n(1) P(2) by auto
    show "n \<noteq> faddr s ip 12 \<or> k \<le> 12" using n(3) by (auto simp: FSLOTS_def)
  qed
  show "grows s ip s2"
    unfolding grows_def using fk fo e us iso slots k(2) P(2) by (auto split: if_splits)
  assume i: "i < MAXFILE * BSIZE"
  let ?j = "fslot (i div BSIZE)"
  have "i div BSIZE < MAXFILE" using i by (simp add: fs_consts)
  then have j: "?j < FSLOTS" "?j \<noteq> 12" by (simp_all add: fslot_bound)
  show "fbyte s2 ip i = fbyte s ip i"
  proof (cases "?j = k")
    case True
    have "12 < k \<longrightarrow> a \<noteq> faddr s ip 12" using nota [of 12] ind by (auto simp: FSLOTS_def)
    then have "cview (dev s2) a = replicate BSIZE 0" using cv(1) [of a] P(8) [OF N(3)] by auto
    then show ?thesis using True k(2) N(1) slots [OF k(1)] by (simp add: fbyte_def Let_def fs_consts)
  next
    case False
    have "cview (dev s2) (faddr s ip ?j) = cview (dev s) (faddr s ip ?j)" if nz: "faddr s ip ?j \<noteq> 0"
    proof (rule keep)
      show "faddr s ip ?j \<notin> bitmap_blocks s" using F(5) [OF j(1) nz] by (simp add: reserved_def)
      show "faddr s ip ?j \<noteq> a" by (rule nota [OF nz j(1)])
      show "faddr s ip ?j \<noteq> faddr s ip 12 \<or> k \<le> 12" using F(6) [of ?j 12] j nz by (auto simp: FSLOTS_def)
    qed
    then show ?thesis using False by (simp add: fbyte_def slots [OF j(1)] Let_def)
  qed
qed

text \<open>The two shapes of the step: an address in the inode, an entry of the indirect block.\<close>

lemma enter_direct:
  assumes ok: "fs_ok s" and f: "file_ok s ip" and p: "balloc_post s a s1" and k: "k < 13" "addrs (the_ip s ip) ! k = 0"
  defines "s2 \<equiv> iset ip (\<lambda>p. p\<lparr>addrs := (addrs p)[k := a]\<rparr>) s1"
  shows "grows s ip s2" "i < MAXFILE * BSIZE \<Longrightarrow> fbyte s2 ip i = fbyte s ip i" "addrs (the_ip s2 ip) ! k = a" "a \<noteq> 0"
proof -
  note F = file_okD [OF f] and P = balloc_postD [OF p] and N = fresh_block [OF ok p]
  have kk: "k < FSLOTS" "faddr s ip k = 0" using k by (simp_all add: FSLOTS_def faddr_def)
  have ic: "the_ip s2 q = (if q = ip then (the_ip s ip)\<lparr>addrs := (addrs (the_ip s ip))[k := a]\<rparr> else the_ip s q)" for q
    using F(1) by (simp add: s2_def iset_def P(5))
  have d: "dev s2 = dev s1" by (simp add: s2_def iset_def)
  have e: "sb s2 = sb s" "fdisk s2 = fdisk s" "length (icache s2) = length (icache s)"
    by (simp_all add: s2_def iset_def P)
  have slots: "faddr s2 ip j = (if j = k then a else faddr s ip j)" if j: "j < FSLOTS" for j
  proof (cases "j < 13")
    case True
    then show ?thesis using k F(2) by (simp add: faddr_def ic)
  next
    case False
    let ?ia = "addrs (the_ip s ip) ! 12"
    show ?thesis
    proof (cases "k = 12")
      case True
      have "cview (dev s2) a = replicate BSIZE 0" using P(8) [OF N(3)] d by simp
      then have "get32 (cview (dev s2) a) (4 * (j - 13)) = 0"
        using j False by (simp add: get32_def fs_consts FSLOTS_def)
      then show ?thesis using True False k F(2) by (simp add: faddr_def ic)
    next
      case False': False
      have "cview (dev s2) ?ia = cview (dev s) ?ia" if "?ia \<noteq> 0"
      proof -
        have ia: "?ia = faddr s ip 12" by (simp add: faddr_def)
        have "?ia \<notin> bitmap_blocks s" "?ia \<noteq> a"
          using F(4,5) [of 12] P(2) that unfolding ia by (auto simp: FSLOTS_def reserved_def)
        then show ?thesis using P(8) d by simp
      qed
      then show ?thesis using False False' k F(2) by (simp add: faddr_def ic)
    qed
  qed
  have len: "length (cview (dev s2) n) = BSIZE" for n using fs_okD(2) [OF P(3)] d by simp
  show "grows s ip s2"
    by (rule enter_block(1) [OF ok f p kk]) (use e ic slots d len k F(2) in simp_all)
  show "i < MAXFILE * BSIZE \<Longrightarrow> fbyte s2 ip i = fbyte s ip i"
    by (rule enter_block(2) [OF ok f p kk]) (use e ic slots d len k F(2) in simp_all)
  show "addrs (the_ip s2 ip) ! k = a" "a \<noteq> 0" using ic k F(2) N(1) by simp_all
qed

lemma enter_indirect:
  assumes ok: "fs_ok s" and f: "file_ok s ip" and p: "balloc_post s a s1" and j: "j < 128"
    and ia: "ia = addrs (the_ip s ip) ! 12" "ia \<noteq> 0" and z: "get32 (cview (dev s) ia) (4 * j) = 0"
    and w: "blog ia (put32 (4 * j) a (cview (dev s) ia)) s1 = Inr s2"
  shows "grows s ip s2" "i < MAXFILE * BSIZE \<Longrightarrow> fbyte s2 ip i = fbyte s ip i" "faddr s2 ip (13 + j) = a" "a \<noteq> 0"
proof -
  note F = file_okD [OF f] and P = balloc_postD [OF p] and N = fresh_block [OF ok p] and W = blog_Inr [OF w]
  have f12: "faddr s ip 12 = ia" by (simp add: faddr_def ia)
  have kk: "13 + j < FSLOTS" "faddr s ip (13 + j) = 0" using j z ia by (simp_all add: FSLOTS_def faddr_def)
  have len: "length (cview (dev s) n) = BSIZE" for n by (rule fs_okD(2) [OF ok])
  have e: "sb s2 = sb s" "fdisk s2 = fdisk s" "icache s2 = icache s" using W P by simp_all
  have cia: "cview (dev s2) ia = put32 (4 * j) a (cview (dev s) ia)" using W(1) by simp
  have slots: "faddr s2 ip l = (if l = 13 + j then a else faddr s ip l)" if l: "l < FSLOTS" for l
  proof (cases "l < 13")
    case True
    then show ?thesis by (simp add: faddr_def e)
  next
    case False
    show ?thesis
    proof (cases "l = 13 + j")
      case True
      have "4 * j + 3 < length (cview (dev s) ia)" using j len by (simp add: fs_consts)
      then show ?thesis using True ia e cia by (simp add: faddr_def get32_put32)
    next
      case ne: False
      then have "4 * j + 3 < 4 * (l - 13) \<or> 4 * (l - 13) + 3 < 4 * j" using False by linarith
      then show ?thesis using ne False ia e cia by (simp add: faddr_def get_put_apart)
    qed
  qed
  have l2: "length (cview (dev s2) n) = BSIZE" for n using W(1) len fs_okD(2) [OF P(3)] by simp
  have ad: "length (addrs (the_ip s2 ip)) = 13" "the_ip s2 ip = (the_ip s ip)\<lparr>addrs := addrs (the_ip s2 ip)\<rparr>"
    using F(2) by (simp_all add: e)
  have cvo: "cview (dev s2) n = cview (dev s1) n" if "n \<noteq> faddr s ip 12 \<or> 13 + j \<le> 12" for n
    using that W(1) f12 by simp
  show "grows s ip s2"
    by (rule enter_block(1) [OF ok f p kk e(1,2) _ _ ad(2,1) slots cvo l2]) (use e f12 ia in simp_all)
  show "i < MAXFILE * BSIZE \<Longrightarrow> fbyte s2 ip i = fbyte s ip i"
    by (rule enter_block(2) [OF ok f p kk e(1,2) _ _ ad(2,1) slots cvo l2]) (use e f12 ia in simp_all)
  show "faddr s2 ip (13 + j) = a" "a \<noteq> 0" using slots [OF kk(1)] N(1) by simp_all
qed

text \<open>\<open>bmap\<close> finds the block of the file, or adds a zeroed one.\<close>

lemma bmap_indirect:
  assumes "\<not> bn < 12"
  shows "bmap ip bn s = (if bn - 12 < 128
    then rbind (if addrs (the_ip s ip) ! 12 = 0
                then rbind (balloc s) (\<lambda>(a, s). Inr (a, iset ip (\<lambda>p. p\<lparr>addrs := (addrs p)[12 := a]\<rparr>) s))
                else Inr (addrs (the_ip s ip) ! 12, s))
      (\<lambda>(ia, s1). rbind (fs_bread ia s1) (\<lambda>b. let a = get32 b (4 * (bn - 12)) in
        if a = 0 then rbind (balloc s1) (\<lambda>(a, s). rbind (blog ia (put32 (4 * (bn - 12)) a b) s) (\<lambda>s. Inr (a, s)))
        else Inr (a, s1)))
    else Inl (Panic ''bmap: out of range''))"
  unfolding bmap_def fs_consts Let_def using assms by simp

lemma bmap_spec:
  assumes ok: "fs_ok s" and f: "file_ok s ip" and m: "bmap ip bn s = Inr (a, s')"
  shows "bn < MAXFILE" "grows s ip s'" "a = faddr s' ip (fslot bn)" "a \<noteq> 0"
    "i < MAXFILE * BSIZE \<Longrightarrow> fbyte s' ip i = fbyte s ip i"
proof -
  have "bn < MAXFILE \<and> grows s ip s' \<and> a = faddr s' ip (fslot bn) \<and> a \<noteq> 0
    \<and> (\<forall>i. i < MAXFILE * BSIZE \<longrightarrow> fbyte s' ip i = fbyte s ip i)"
  proof (cases "bn < 12")
    case True
    then have fs: "fslot bn = bn" by (simp add: fslot_def)
    show ?thesis
    proof (cases "addrs (the_ip s ip) ! bn = 0")
      case z: True
      obtain s1 where b: "balloc s = Inr (a, s1)" "s' = iset ip (\<lambda>p. p\<lparr>addrs := (addrs p)[bn := a]\<rparr>) s1"
        using m True z by (auto simp: bmap_def fs_consts rbind_eq_Inr)
      have k: "bn < 13" using True by simp
      note E = enter_direct [OF ok f balloc_ok [OF ok b(1)] k z, folded b(2)]
      show ?thesis using True E k fs by (simp add: fs_consts faddr_def)
    next
      case nz: False
      then have "s' = s" "a = addrs (the_ip s ip) ! bn" using m True by (auto simp: bmap_def fs_consts)
      then show ?thesis using True fs nz grows_refl [OF ok f] by (simp add: fs_consts faddr_def)
    qed
  next
    case ge: False
    have bn: "bn - 12 < 128" using m unfolding bmap_indirect [OF ge] by (simp split: if_splits)
    then have fs: "fslot bn = 13 + (bn - 12)" "bn < MAXFILE" using ge by (simp_all add: fslot_def fs_consts)
    obtain ia s1 where st1: "(if addrs (the_ip s ip) ! 12 = 0
        then rbind (balloc s) (\<lambda>(a, s). Inr (a, iset ip (\<lambda>p. p\<lparr>addrs := (addrs p)[12 := a]\<rparr>) s))
        else Inr (addrs (the_ip s ip) ! 12, s)) = Inr (ia, s1)"
      and st2: "rbind (fs_bread ia s1) (\<lambda>b. let a = get32 b (4 * (bn - 12)) in
        if a = 0 then rbind (balloc s1) (\<lambda>(a, s). rbind (blog ia (put32 (4 * (bn - 12)) a b) s) (\<lambda>s. Inr (a, s)))
        else Inr (a, s1)) = Inr (a, s')"
      using m unfolding bmap_indirect [OF ge] if_P [OF bn] rbind_pair_Inr by blast
    have first: "grows s ip s1 \<and> ia = addrs (the_ip s1 ip) ! 12 \<and> ia \<noteq> 0
      \<and> (\<forall>i. i < MAXFILE * BSIZE \<longrightarrow> fbyte s1 ip i = fbyte s ip i)"
    proof (cases "addrs (the_ip s ip) ! 12 = 0")
      case True
      then obtain s0 where b: "balloc s = Inr (ia, s0)" "s1 = iset ip (\<lambda>p. p\<lparr>addrs := (addrs p)[12 := ia]\<rparr>) s0"
        using st1 by (auto simp: rbind_eq_Inr)
      have k: "(12 :: nat) < 13" by simp
      show ?thesis using enter_direct [OF ok f balloc_ok [OF ok b(1)] k True, folded b(2)] by simp
    next
      case False
      then show ?thesis using st1 grows_refl [OF ok f] by auto
    qed
    then have g: "grows s ip s1" and ia: "ia = addrs (the_ip s1 ip) ! 12" "ia \<noteq> 0" by auto
    note G = growsD [OF g]
    let ?b = "cview (dev s1) ia"
    have br: "fs_bread ia s1 = Inr ?b" using st2 by (auto simp: rbind_eq_Inr bread_Inr)
    have second: "grows s1 ip s' \<and> a = faddr s' ip (13 + (bn - 12)) \<and> a \<noteq> 0
      \<and> (\<forall>i. i < MAXFILE * BSIZE \<longrightarrow> fbyte s' ip i = fbyte s1 ip i)"
    proof (cases "get32 ?b (4 * (bn - 12)) = 0")
      case True
      then obtain s2 where b: "balloc s1 = Inr (a, s2)" "blog ia (put32 (4 * (bn - 12)) a ?b) s2 = Inr s'"
        using st2 br by (auto simp: rbind_eq_Inr)
      show ?thesis using enter_indirect [OF G(1,2) balloc_ok [OF G(1) b(1)] bn ia True b(2)] by simp
    next
      case False
      then have "s' = s1" "a = get32 ?b (4 * (bn - 12))" using st2 br by auto
      then show ?thesis using False grows_refl [OF G(1,2)] ia by (simp add: faddr_def)
    qed
    show ?thesis using first second grows_trans fs by metis
  qed
  then show "bn < MAXFILE" "grows s ip s'" "a = faddr s' ip (fslot bn)" "a \<noteq> 0"
    "i < MAXFILE * BSIZE \<Longrightarrow> fbyte s' ip i = fbyte s ip i" by blast+
qed

section \<open>Reading and writing a file\<close>

lemma div_block:
  fixes off k :: nat
  assumes "off mod BSIZE + k < BSIZE"
  shows "(off + k) div BSIZE = off div BSIZE \<and> (off + k) mod BSIZE = off mod BSIZE + k"
proof -
  define q r where "q = off div BSIZE" and "r = off mod BSIZE"
  have "off = 512 * q + r" by (simp add: q_def r_def BSIZE_def)
  moreover have "r + k < 512" using assms by (simp add: r_def BSIZE_def)
  then have "(512 * q + (r + k)) div 512 = q" "(512 * q + (r + k)) mod 512 = r + k" by simp_all
  ultimately show ?thesis by (simp add: q_def [symmetric] r_def [symmetric] BSIZE_def add.assoc)
qed

lemma block_end:
  fixes off m :: nat
  assumes "off div BSIZE < MAXFILE" "m \<le> BSIZE - off mod BSIZE"
  shows "off + m \<le> MAXFILE * BSIZE"
proof -
  define q r where "q = off div BSIZE" and "r = off mod BSIZE"
  have "off = 512 * q + r" "r < 512" by (simp_all add: q_def r_def BSIZE_def)
  moreover have "q < 140" "m \<le> 512 - r" using assms by (simp_all add: q_def r_def fs_consts)
  ultimately show ?thesis by (simp add: fs_consts)
qed

lemma upt_split: "m \<le> r \<Longrightarrow> [off..<off + r] = [off..<off + m] @ [off + m..<off + r]"
  using upt_add_eq_append [of off "off + m" "r - m"] by simp

lemma block_lt: "i < MAXFILE * BSIZE \<Longrightarrow> i div BSIZE < MAXFILE" for i :: nat
  by (simp add: fs_consts less_mult_imp_div_less)

text \<open>What one round of \<open>readi\<close> copies out.\<close>

lemma read_chunk:
  assumes a: "a = faddr s ip (fslot (off div BSIZE))" "a \<noteq> 0" and l: "length (cview (dev s) a) = BSIZE"
    and m: "m \<le> BSIZE - off mod BSIZE"
  shows "take m (drop (off mod BSIZE) (cview (dev s) a)) = map (fbyte s ip) [off..<off + m]"
proof (rule nth_equalityI)
  fix k assume "k < length (take m (drop (off mod BSIZE) (cview (dev s) a)))"
  then have k: "k < m" "off mod BSIZE + k < BSIZE" using l m by auto
  then show "take m (drop (off mod BSIZE) (cview (dev s) a)) ! k = map (fbyte s ip) [off..<off + m] ! k"
    using div_block [OF k(2)] a l by (simp add: fbyte_def)
qed (use m l in simp)

lemma readi_loop_spec:
  "fs_ok s \<Longrightarrow> file_ok s ip \<Longrightarrow> readi_loop ip off r s = Inr (bs, s') \<Longrightarrow>
   grows s ip s' \<and> bs = map (fbyte s ip) [off..<off + r]
     \<and> (\<forall>i. i < MAXFILE * BSIZE \<longrightarrow> fbyte s' ip i = fbyte s ip i) \<and> (r = 0 \<or> off + r \<le> MAXFILE * BSIZE)"
proof (induction ip off r s arbitrary: bs s' rule: readi_loop.induct)
  case (1 ip off r s)
  show ?case
  proof (cases "r = 0")
    case True
    then show ?thesis using 1(2-4) by (simp add: readi_loop.simps grows_refl)
  next
    case False
    let ?m = "chunk off r"
    obtain a s1 bs' where b: "bmap ip (off div BSIZE) s = Inr (a, s1)" "a < fdisk s1"
        "readi_loop ip (off + ?m) (r - ?m) s1 = Inr (bs', s')"
        "bs = take ?m (drop (off mod BSIZE) (cview (dev s1) a)) @ bs'"
      using 1(4) False by (subst (asm) readi_loop.simps) (auto simp: rbind_eq_Inr bread_Inr Let_def)
    note B = bmap_spec [OF 1(2,3) b(1)] and G = growsD [OF bmap_spec(2) [OF 1(2,3) b(1)]]
    have IH: "grows s1 ip s' \<and> bs' = map (fbyte s1 ip) [off + ?m..<off + ?m + (r - ?m)]
      \<and> (\<forall>i. i < MAXFILE * BSIZE \<longrightarrow> fbyte s' ip i = fbyte s1 ip i) \<and> (r - ?m = 0 \<or> off + ?m + (r - ?m) \<le> MAXFILE * BSIZE)"
      by (rule 1(1) [OF False refl G(1,2) b(3)])
    have m: "?m \<le> r" "?m \<le> BSIZE - off mod BSIZE" by (simp_all add: chunk_def)
    have bnd: "off + ?m \<le> MAXFILE * BSIZE" by (rule block_end [OF B(1) m(2)])
    have fst: "take ?m (drop (off mod BSIZE) (cview (dev s1) a)) = map (fbyte s1 ip) [off..<off + ?m]"
      by (rule read_chunk [OF B(3,4) fs_okD(2) [OF G(1)] m(2)])
    have all: "off + r \<le> MAXFILE * BSIZE" using IH bnd m by auto
    note up = upt_split [OF m(1), of off]
    have "bs = map (fbyte s1 ip) [off..<off + r]" using b(4) fst IH m(1) up by simp
    then have "bs = map (fbyte s ip) [off..<off + r]" using B(5) all by simp
    then show ?thesis using grows_trans [OF B(2)] IH B(5) all by metis
  qed
qed

lemma bmap_mapped:
  assumes "bn < MAXFILE" "faddr s ip (fslot bn) \<noteq> 0" "addrs (the_ip s ip) ! 12 < fdisk s"
  shows "bmap ip bn s = Inr (faddr s ip (fslot bn), s)"
proof (cases "bn < 12")
  case True
  then show ?thesis using assms by (simp add: bmap_def fs_consts fslot_def faddr_def Let_def)
next
  case False
  then have "faddr s ip (fslot bn) = get32 (cview (dev s) (addrs (the_ip s ip) ! 12)) (4 * (bn - 12))"
      "addrs (the_ip s ip) ! 12 \<noteq> 0" "bn - 12 < 128"
    using assms(1,2) by (auto simp: fslot_def faddr_def Let_def fs_consts split: if_splits)
  then show ?thesis using assms False unfolding bmap_indirect [OF False] by (simp add: fs_bread_def Let_def)
qed

lemma readi_loop_mapped:
  "fs_ok s \<Longrightarrow> file_ok s ip \<Longrightarrow> off + r \<le> MAXFILE * BSIZE \<Longrightarrow>
   \<forall>i. off \<le> i \<and> i < off + r \<longrightarrow> faddr s ip (fslot (i div BSIZE)) \<noteq> 0 \<Longrightarrow>
   readi_loop ip off r s = Inr (map (fbyte s ip) [off..<off + r], s)"
proof (induction ip off r s rule: readi_loop.induct)
  case (1 ip off r s)
  show ?case
  proof (cases "r = 0")
    case True
    then show ?thesis by (simp add: readi_loop.simps)
  next
    case False
    let ?m = "chunk off r" and ?a = "faddr s ip (fslot (off div BSIZE))"
    note F = file_okD [OF 1(3)]
    have m: "?m \<le> r" "?m \<le> BSIZE - off mod BSIZE" by (simp_all add: chunk_def)
    have bn: "off div BSIZE < MAXFILE" using 1(4) False by (intro block_lt) simp
    have a0: "?a \<noteq> 0" using 1(5) False by auto
    have a: "?a < fdisk s" using F(3) [OF fslot_bound(1) [OF bn] a0] fs_okD(1) [OF 1(2)] by simp
    have f12: "addrs (the_ip s ip) ! 12 = faddr s ip 12" by (simp add: faddr_def)
    have ia: "addrs (the_ip s ip) ! 12 < fdisk s"
    proof (cases "faddr s ip 12 = 0")
      case True
      then show ?thesis using a f12 by (simp add: word_less_nat_alt)
    next
      case False
      then show ?thesis using F(3) [of 12] fs_okD(1) [OF 1(2)] f12 by (simp add: FSLOTS_def)
    qed
    have bm: "bmap ip (off div BSIZE) s = Inr (?a, s)" by (rule bmap_mapped [OF bn a0 ia])
    have IH: "readi_loop ip (off + ?m) (r - ?m) s = Inr (map (fbyte s ip) [off + ?m..<off + ?m + (r - ?m)], s)"
    proof (rule 1(1) [OF False refl 1(2,3)])
      show "off + ?m + (r - ?m) \<le> MAXFILE * BSIZE" using m(1) 1(4) by simp
      show "\<forall>i. off + ?m \<le> i \<and> i < off + ?m + (r - ?m) \<longrightarrow> faddr s ip (fslot (i div BSIZE)) \<noteq> 0"
        using m(1) 1(5) by simp
    qed
    have fst: "take ?m (drop (off mod BSIZE) (cview (dev s) ?a)) = map (fbyte s ip) [off..<off + ?m]"
      by (rule read_chunk [OF refl a0 fs_okD(2) [OF 1(2)] m(2)])
    note up = upt_split [OF m(1), of off]
    show ?thesis using IH fst bm a m(1) False up
      by (subst readi_loop.simps) (simp add: fs_bread_def Let_def)
  qed
qed

text \<open>The write of one data block.\<close>

lemma write_block:
  assumes ok: "fs_ok s" and f: "file_ok s ip" and bn: "bn < MAXFILE"
    and a: "a = faddr s ip (fslot bn)" "a \<noteq> 0" and d: "length d = BSIZE" and w: "blog a d s = Inr s'"
  shows "grows s ip s'" "i < MAXFILE * BSIZE \<Longrightarrow> fbyte s' ip i = (if i div BSIZE = bn then d ! (i mod BSIZE) else fbyte s ip i)"
    "k < FSLOTS \<Longrightarrow> faddr s' ip k = faddr s ip k"
proof -
  note F = file_okD [OF f] and W = blog_Inr [OF w] and S = fslot_bound(1) [OF bn] fslot_bound(2) [of bn]
  have nr: "a \<notin> reserved s" "a < sb_size (sb s)" using F(3,5) [OF S(1)] a by simp_all
  have us: "marked s' b = marked s b" if "b < sb_size (sb s)" for b
  proof -
    have "BBLOCK b s \<in> bitmap_blocks s" using that by (auto simp: bitmap_blocks_def)
    then have "BBLOCK b s \<noteq> a" using nr(1) by (auto simp: reserved_def)
    then show ?thesis using W(1) by (simp add: marked_def blocks_cong(1) [OF W(2)])
  qed
  have f12: "addrs (the_ip s ip) ! 12 = faddr s ip 12" by (simp add: faddr_def)
  have slots: "faddr s' ip k = faddr s ip k" if k: "k < FSLOTS" for k
  proof (cases "faddr s ip 12 = 0")
    case True
    then have "addrs (the_ip s ip) ! 12 = 0" by (simp add: faddr_def)
    then show ?thesis using W(3) by (simp add: faddr_def Let_def)
  next
    case False
    have "(12 :: nat) < FSLOTS" by (simp add: FSLOTS_def)
    then have "faddr s ip 12 \<noteq> a" using F(6) [OF S(1), of 12] S(2) a by metis
    then have "cview (dev s') (addrs (the_ip s ip) ! 12) = cview (dev s) (addrs (the_ip s ip) ! 12)"
      using W(1) f12 by simp
    then show ?thesis using W(3) by (simp add: faddr_def Let_def)
  qed
  have len: "length (cview (dev s') n) = BSIZE" for n using W(1) d fs_okD(2) [OF ok] by simp
  have res: "reserved s' = reserved s" by (simp add: reserved_def blocks_cong(3,4) [OF W(2)])
  have fk: "fs_ok s'"
  proof (rule fs_ok_frame [OF ok W(2,4) len])
    show "marked s' b" if "b \<in> insert 0 (insert 1 (inode_blocks s \<union> bitmap_blocks s))" for b
      using fs_okD(3) [OF ok that] us by simp
    show "cview (dev s') 1 = cview (dev s) 1" using nr(1) W(1) by (auto simp: reserved_def)
  qed
  have fo: "file_ok s' ip"
    unfolding file_ok_def
  proof (intro conjI allI impI)
    show "ip < length (icache s')" "length (addrs (the_ip s' ip)) = 13" using F(1,2) W(3) by simp_all
    fix j assume j: "j < FSLOTS" "faddr s' ip j \<noteq> 0"
    then show "faddr s' ip j < sb_size (sb s')" "marked s' (faddr s' ip j)" "faddr s' ip j \<notin> reserved s'"
      using F(3,4,5) [of j] us W(2) unfolding slots [OF j(1)] res by auto
  next
    fix i j assume ij: "i < FSLOTS" "j < FSLOTS" "faddr s' ip i \<noteq> 0" "faddr s' ip i = faddr s' ip j"
    then show "i = j" using F(6) [OF ij(1,2)] unfolding slots [OF ij(1)] slots [OF ij(2)] by simp
  qed
  have "a \<in> faddr s ip ` {..<FSLOTS}" using S(1) a by simp
  then have iso: "cview (dev s') n = cview (dev s) n" if "n \<notin> faddr s ip ` {..<FSLOTS}" for n using W(1) that by auto
  show "grows s ip s'"
    unfolding grows_def
    by (intro conjI allI impI) (use fk fo W(2-4) in \<open>simp_all add: us slots iso\<close>)
  show "fbyte s' ip i = (if i div BSIZE = bn then d ! (i mod BSIZE) else fbyte s ip i)" if i: "i < MAXFILE * BSIZE"
  proof -
    have j: "fslot (i div BSIZE) < FSLOTS" by (rule fslot_bound(1) [OF block_lt [OF i]])
    have "faddr s ip (fslot (i div BSIZE)) = a \<longleftrightarrow> i div BSIZE = bn"
      using F(6) [OF S(1) j] a fslot_inj by metis
    moreover have "fbyte s' ip i = (if faddr s ip (fslot (i div BSIZE)) = a then d ! (i mod BSIZE) else fbyte s ip i)"
      using W(1) a(2) by (simp add: fbyte_def slots [OF j] Let_def)
    ultimately show ?thesis by simp
  qed
  show "k < FSLOTS \<Longrightarrow> faddr s' ip k = faddr s ip k" by (rule slots)
qed

text \<open>The block \<open>writei\<close> builds: the chunk, within the old contents.\<close>

lemma splice_nth:
  assumes "k + m \<le> length b" "m \<le> length src" "j < length b"
  shows "(take k b @ take m src @ drop (k + m) b) ! j = (if k \<le> j \<and> j < k + m then src ! (j - k) else b ! j)"
  using assms by (auto simp: nth_append min_def)

lemma in_chunk:
  fixes off m i :: nat
  assumes "off mod BSIZE + m \<le> BSIZE"
  shows "i div BSIZE = off div BSIZE \<and> off mod BSIZE \<le> i mod BSIZE \<and> i mod BSIZE < off mod BSIZE + m
    \<longleftrightarrow> off \<le> i \<and> i < off + m"
proof
  assume a: "i div BSIZE = off div BSIZE \<and> off mod BSIZE \<le> i mod BSIZE \<and> i mod BSIZE < off mod BSIZE + m"
  have "i = BSIZE * (i div BSIZE) + i mod BSIZE" "off = BSIZE * (off div BSIZE) + off mod BSIZE" by simp_all
  then show "off \<le> i \<and> i < off + m" using a by (metis add.assoc add_le_cancel_left nat_add_left_cancel_less)
next
  assume a: "off \<le> i \<and> i < off + m"
  then obtain k where k: "i = off + k" "k < m" by (metis le_Suc_ex nat_add_left_cancel_less)
  then show "i div BSIZE = off div BSIZE \<and> off mod BSIZE \<le> i mod BSIZE \<and> i mod BSIZE < off mod BSIZE + m"
    using div_block [of off k] assms by simp
qed

lemma mod_sub:
  fixes off i :: nat
  assumes "i div BSIZE = off div BSIZE"
  shows "i mod BSIZE - off mod BSIZE = i - off"
proof -
  have "i - off = (BSIZE * (off div BSIZE) + i mod BSIZE) - (BSIZE * (off div BSIZE) + off mod BSIZE)"
    using assms by (metis mult_div_mod_eq)
  then show ?thesis by (simp only: diff_cancel)
qed

lemma writei_loop_spec:
  "fs_ok s \<Longrightarrow> file_ok s ip \<Longrightarrow> writei_loop ip src off s = Inr s' \<Longrightarrow>
   grows s ip s' \<and> (src = [] \<or> off + length src \<le> MAXFILE * BSIZE)
     \<and> (\<forall>i. i < MAXFILE * BSIZE \<longrightarrow>
          fbyte s' ip i = (if off \<le> i \<and> i < off + length src then src ! (i - off) else fbyte s ip i))
     \<and> (\<forall>i. off \<le> i \<and> i < off + length src \<longrightarrow> faddr s' ip (fslot (i div BSIZE)) \<noteq> 0)"
proof (induction ip src off s arbitrary: s' rule: writei_loop.induct)
  case (1 ip src off s)
  show ?case
  proof (cases "src = []")
    case True
    then show ?thesis using 1(2-4) by (auto simp: writei_loop.simps grows_refl)
  next
    case False
    let ?m = "chunk off (length src)" and ?k = "off mod BSIZE"
    obtain a s1 s2 where b: "bmap ip (off div BSIZE) s = Inr (a, s1)"
        "blog a (take ?k (cview (dev s1) a) @ take ?m src @ drop (?k + ?m) (cview (dev s1) a)) s1 = Inr s2"
        "writei_loop ip (drop ?m src) (off + ?m) s2 = Inr s'"
      using 1(4) False by (subst (asm) writei_loop.simps) (auto simp: rbind_eq_Inr bread_Inr Let_def)
    let ?d = "take ?k (cview (dev s1) a) @ take ?m src @ drop (?k + ?m) (cview (dev s1) a)"
    note B = bmap_spec [OF 1(2,3) b(1)] and G = growsD [OF bmap_spec(2) [OF 1(2,3) b(1)]]
    have m: "?m \<le> length src" "?m \<le> BSIZE - ?k" "?k < BSIZE" by (simp_all add: chunk_def BSIZE_def)
    have lb: "length (cview (dev s1) a) = BSIZE" by (rule fs_okD(2) [OF G(1)])
    have ld: "length ?d = BSIZE" using m lb by simp
    note W = write_block [OF G(1,2) B(1,3,4) ld b(2)] and H = growsD [OF write_block(1) [OF G(1,2) B(1,3,4) ld b(2)]]
    have IH: "grows s2 ip s' \<and> (drop ?m src = [] \<or> off + ?m + length (drop ?m src) \<le> MAXFILE * BSIZE)
      \<and> (\<forall>i. i < MAXFILE * BSIZE \<longrightarrow> fbyte s' ip i = (if off + ?m \<le> i \<and> i < off + ?m + length (drop ?m src)
            then drop ?m src ! (i - (off + ?m)) else fbyte s2 ip i))
      \<and> (\<forall>i. off + ?m \<le> i \<and> i < off + ?m + length (drop ?m src) \<longrightarrow> faddr s' ip (fslot (i div BSIZE)) \<noteq> 0)"
      by (rule 1(1) [OF False refl refl H(1,2) b(3)])
    have step: "fbyte s2 ip i = (if off \<le> i \<and> i < off + ?m then src ! (i - off) else fbyte s ip i)"
      if i: "i < MAXFILE * BSIZE" for i
    proof -
      have j: "i mod BSIZE < length (cview (dev s1) a)" using lb by (simp add: BSIZE_def)
      have km: "?k + ?m \<le> length (cview (dev s1) a)" "?k + ?m \<le> BSIZE" using m lb by simp_all
      have same: "i div BSIZE = off div BSIZE \<Longrightarrow> fbyte s1 ip i = cview (dev s1) a ! (i mod BSIZE)"
        using B(3,4) by (simp add: fbyte_def Let_def)
      show ?thesis
        using W(2) [OF i] splice_nth [OF km(1) m(1) j] in_chunk [OF km(2), of i] mod_sub [of i off] same B(5) [OF i]
        by (auto split: if_splits)
    qed
    have bnd: "off + ?m \<le> MAXFILE * BSIZE" by (rule block_end [OF B(1) m(2)])
    have mapped: "faddr s' ip (fslot (i div BSIZE)) \<noteq> 0" if i: "off \<le> i" "i < off + ?m" for i
    proof -
      have "i div BSIZE = off div BSIZE" using in_chunk [of off ?m i] m i by simp
      then show ?thesis using H(9) growsD(9) [of s2 ip s' "fslot (i div BSIZE)"] IH W(3) B(3,4) fslot_bound(1) [OF B(1)] by auto
    qed
    have bytes: "fbyte s' ip i = (if off \<le> i \<and> i < off + length src then src ! (i - off) else fbyte s ip i)"
      if i: "i < MAXFILE * BSIZE" for i
    proof (cases "off + ?m \<le> i \<and> i < off + length src")
      case True
      then show ?thesis using IH i m(1) by (simp add: nth_drop)
    next
      case False
      then show ?thesis using IH i m(1) step [OF i] by auto
    qed
    have all: "faddr s' ip (fslot (i div BSIZE)) \<noteq> 0" if i: "off \<le> i" "i < off + length src" for i
      using IH mapped [of i] i m(1) by (cases "i < off + ?m") auto
    have "off + length src \<le> MAXFILE * BSIZE" using IH bnd m(1) by auto
    then show ?thesis using grows_trans [OF B(2) grows_trans [OF W(1)]] IH bytes all by blast
  qed
qed

section \<open>The file operations\<close>

text \<open>A file whose addresses and blocks are left alone.\<close>

lemma file_same:
  assumes ad: "addrs (the_ip s' q) = addrs (the_ip s q)"
    and cv: "\<And>k. k < FSLOTS \<Longrightarrow> faddr s q k \<noteq> 0 \<Longrightarrow> cview (dev s') (faddr s q k) = cview (dev s) (faddr s q k)"
  shows "k < FSLOTS \<Longrightarrow> faddr s' q k = faddr s q k" "i < MAXFILE * BSIZE \<Longrightarrow> fbyte s' q i = fbyte s q i"
proof -
  have f12: "faddr s q 12 = addrs (the_ip s q) ! 12" by (simp add: faddr_def)
  have c12: "addrs (the_ip s q) ! 12 \<noteq> 0 \<Longrightarrow>
      cview (dev s') (addrs (the_ip s q) ! 12) = cview (dev s) (addrs (the_ip s q) ! 12)"
    using cv [of 12] unfolding f12 by (simp add: FSLOTS_def)
  show f: "faddr s' q k = faddr s q k" if "k < FSLOTS" for k
    using c12 by (simp add: faddr_def ad Let_def)
  show "fbyte s' q i = fbyte s q i" if i: "i < MAXFILE * BSIZE"
  proof -
    have k: "fslot (i div BSIZE) < FSLOTS" by (rule fslot_bound(1) [OF block_lt [OF i]])
    show ?thesis using cv [OF k] by (simp add: fbyte_def f [OF k] Let_def)
  qed
qed

lemma file_ok_same:
  assumes f: "file_ok s q" and ad: "addrs (the_ip s' q) = addrs (the_ip s q)"
    and cv: "\<And>k. k < FSLOTS \<Longrightarrow> faddr s q k \<noteq> 0 \<Longrightarrow> cview (dev s') (faddr s q k) = cview (dev s) (faddr s q k)"
    and e: "sb s' = sb s" "length (icache s') = length (icache s)"
    and us: "\<And>b. b < sb_size (sb s) \<Longrightarrow> marked s b \<Longrightarrow> marked s' b"
  shows "file_ok s' q"
proof -
  note F = file_okD [OF f]
  have S: "faddr s' q k = faddr s q k" if "k < FSLOTS" for k
    by (rule file_same(1) [OF ad _ that]) (rule cv)
  have res: "reserved s' = reserved s" by (simp add: reserved_def blocks_cong(3,4) [OF e(1)])
  show ?thesis
    unfolding file_ok_def
  proof (intro conjI allI impI)
    show "q < length (icache s')" "length (addrs (the_ip s' q)) = 13" using F(1,2) ad e by simp_all
    fix j assume j: "j < FSLOTS" "faddr s' q j \<noteq> 0"
    then show "faddr s' q j < sb_size (sb s')" "marked s' (faddr s' q j)" "faddr s' q j \<notin> reserved s'"
      using F(3,4,5) [of j] us e(1) unfolding S [OF j(1)] res by auto
  next
    fix i j assume ij: "i < FSLOTS" "j < FSLOTS" "faddr s' q i \<noteq> 0" "faddr s' q i = faddr s' q j"
    then show "i = j" using F(6) [OF ij(1,2)] unfolding S [OF ij(1)] S [OF ij(2)] by simp
  qed
qed

lemma length_dinode_put: "length (dinode_put ip b) = length b"
  by (simp add: dinode_put_def Let_def blk_simps)

lemma iupdate_frame:
  assumes ok: "fs_ok s" and i: "inum (the_ip s ip) < sb_ninodes (sb s)" and u: "iupdate ip s = Inr s'"
  shows "fs_ok s'" "sb s' = sb s" "fdisk s' = fdisk s" "icache s' = icache s"
    "b < sb_size (sb s) \<Longrightarrow> marked s' b = marked s b" "n \<notin> inode_blocks s \<Longrightarrow> cview (dev s') n = cview (dev s) n"
proof -
  let ?I = "IBLOCK (inum (the_ip s ip)) s"
  have w: "blog ?I (dinode_put (the_ip s ip) (cview (dev s) ?I)) s = Inr s'"
    using u by (auto simp: iupdate_def Let_def rbind_eq_Inr bread_Inr)
  note W = blog_Inr [OF w]
  have I: "?I \<in> inode_blocks s" using i by (auto simp: inode_blocks_def)
  show us: "marked s' b = marked s b" if b: "b < sb_size (sb s)" for b
  proof -
    have "BBLOCK b s \<in> bitmap_blocks s" using b by (auto simp: bitmap_blocks_def)
    then have "BBLOCK b s \<noteq> ?I" using I fs_okD(4) [OF ok] by auto
    then show ?thesis using W(1) by (simp add: marked_def blocks_cong(1) [OF W(2)])
  qed
  show out: "cview (dev s') n = cview (dev s) n" if "n \<notin> inode_blocks s" for n using that I W(1) by auto
  show "fs_ok s'"
  proof (rule fs_ok_frame [OF ok W(2,4)])
    show "length (cview (dev s') n) = BSIZE" for n using W(1) fs_okD(2) [OF ok] by (simp add: length_dinode_put)
    show "marked s' b" if "b \<in> insert 0 (insert 1 (inode_blocks s \<union> bitmap_blocks s))" for b
      using fs_okD(3) [OF ok that] us by simp
    show "cview (dev s') 1 = cview (dev s) 1" by (rule out [OF fs_okD(6) [OF ok]])
  qed
  show "sb s' = sb s" "fdisk s' = fdisk s" "icache s' = icache s" by (rule W)+
qed

text \<open>What a successful \<open>writei\<close> leaves.\<close>

definition written :: "fs \<Rightarrow> nat \<Rightarrow> u8 list \<Rightarrow> nat \<Rightarrow> fs \<Rightarrow> bool" where
  "written s ip src off s' \<longleftrightarrow> off \<le> unat (isize (the_ip s ip)) \<and> off + length src \<le> MAXFILE * BSIZE \<and> fs_ok s' \<and> file_ok s' ip
     \<and> sb s' = sb s \<and> unat (isize (the_ip s' ip)) = max (unat (isize (the_ip s ip))) (off + length src)
     \<and> (\<forall>i. i < MAXFILE * BSIZE \<longrightarrow>
          fbyte s' ip i = (if off \<le> i \<and> i < off + length src then src ! (i - off) else fbyte s ip i))
     \<and> (\<forall>i. off \<le> i \<and> i < off + length src \<longrightarrow> faddr s' ip (fslot (i div BSIZE)) \<noteq> 0)
     \<and> the_ip s' ip = (the_ip s ip)\<lparr>addrs := addrs (the_ip s' ip), isize := isize (the_ip s' ip)\<rparr>
     \<and> length (icache s') = length (icache s) \<and> (\<forall>q. q \<noteq> ip \<longrightarrow> the_ip s' q = the_ip s q)
     \<and> (\<forall>n. n < sb_size (sb s) \<longrightarrow> marked s n \<longrightarrow> marked s' n)
     \<and> (\<forall>n. n < sb_size (sb s) \<longrightarrow> marked s n \<longrightarrow> n \<notin> reserved s \<longrightarrow> n \<notin> faddr s ip ` {..<FSLOTS} \<longrightarrow>
          cview (dev s') n = cview (dev s) n)"

text \<open>Setting the size and \<open>iupdate\<close>.\<close>

lemma set_size:
  assumes ok: "fs_ok s" and f: "file_ok s ip" and i: "inum (the_ip s ip) < sb_ninodes (sb s)"
    and u: "iupdate ip (iset ip (\<lambda>p. p\<lparr>isize := z\<rparr>) s) = Inr s'"
  shows "fs_ok s'" "file_ok s' ip" "sb s' = sb s" "the_ip s' ip = (the_ip s ip)\<lparr>isize := z\<rparr>"
    "length (icache s') = length (icache s)" "q \<noteq> ip \<Longrightarrow> the_ip s' q = the_ip s q" "n < sb_size (sb s) \<Longrightarrow> marked s' n = marked s n"
    "n \<notin> reserved s \<Longrightarrow> cview (dev s') n = cview (dev s) n"
    "i < MAXFILE * BSIZE \<Longrightarrow> fbyte s' ip i = fbyte s ip i" "k < FSLOTS \<Longrightarrow> faddr s' ip k = faddr s ip k"
proof -
  let ?t = "iset ip (\<lambda>p. p\<lparr>isize := z\<rparr>) s"
  note F = file_okD [OF f]
  have t: "dev ?t = dev s" "sb ?t = sb s" "fdisk ?t = fdisk s" "length (icache ?t) = length (icache s)"
    "the_ip ?t q = (if q = ip then (the_ip s ip)\<lparr>isize := z\<rparr> else the_ip s q)" for q
    using F(1) by (simp_all add: iset_def)
  have ut: "marked ?t b = marked s b" for b by (simp add: marked_def BBLOCK_def t)
  have okt: "fs_ok ?t"
    by (rule fs_ok_frame [OF ok t(2,3)]) (use fs_okD(2,3) [OF ok] t(1) ut in auto)
  have it: "inum (the_ip ?t ip) < sb_ninodes (sb ?t)" using i t by simp
  note U = iupdate_frame [OF okt it u]
  have IB: "inode_blocks ?t = inode_blocks s" by (rule blocks_cong(4) [OF t(2)])
  show "fs_ok s'" "sb s' = sb s" "length (icache s') = length (icache s)" using U t by simp_all
  show "the_ip s' ip = (the_ip s ip)\<lparr>isize := z\<rparr>" "q \<noteq> ip \<Longrightarrow> the_ip s' q = the_ip s q" using U(4) t(5) by simp_all
  show us: "marked s' n = marked s n" if "n < sb_size (sb s)" for n using U(5) [of n] ut t that by simp
  show out: "cview (dev s') n = cview (dev s) n" if "n \<notin> reserved s" for n
    using U(6) [of n] that t(1) unfolding IB by (simp add: reserved_def)
  have ad: "addrs (the_ip s' ip) = addrs (the_ip s ip)" using U(4) t(5) by simp
  have cv: "cview (dev s') (faddr s ip k) = cview (dev s) (faddr s ip k)" if "k < FSLOTS" "faddr s ip k \<noteq> 0" for k
    by (rule out [OF F(5) [OF that]])
  show "file_ok s' ip" by (rule file_ok_same [OF f ad cv]) (use U t us in auto)
  show "fbyte s' ip i = fbyte s ip i" if "i < MAXFILE * BSIZE" by (rule file_same(2) [OF ad _ that]) (rule cv)
  show "faddr s' ip k = faddr s ip k" if "k < FSLOTS" by (rule file_same(1) [OF ad _ that]) (rule cv)
qed

lemma written_loop:
  assumes ok: "fs_ok s" and f: "file_ok s ip" and w: "writei_loop ip src off s = Inr s'"
    and sz: "off \<le> unat (isize (the_ip s ip))" "off + length src \<le> unat (isize (the_ip s ip))"
    and b: "off + length src \<le> MAXFILE * BSIZE"
  shows "written s ip src off s'"
proof -
  have W: "grows s ip s'" and B: "(\<forall>i. i < MAXFILE * BSIZE \<longrightarrow>
          fbyte s' ip i = (if off \<le> i \<and> i < off + length src then src ! (i - off) else fbyte s ip i))"
    "(\<forall>i. off \<le> i \<and> i < off + length src \<longrightarrow> faddr s' ip (fslot (i div BSIZE)) \<noteq> 0)"
    using writei_loop_spec [OF ok f w] by blast+
  note G = growsD [OF W]
  have "isize (the_ip s' ip) = isize (the_ip s ip)" by (subst G(7)) simp
  moreover have "the_ip s' ip = (the_ip s ip)\<lparr>addrs := addrs (the_ip s' ip), isize := isize (the_ip s ip)\<rparr>"
    by (subst G(7)) simp
  ultimately show ?thesis
    unfolding written_def using G(1-3,5,6,8,10) B sz b by (simp add: reserved_def)
qed

lemma written_size:
  assumes ok: "fs_ok s" and f: "file_ok s ip" and i: "inum (the_ip s ip) < sb_ninodes (sb s)"
    and w: "writei_loop ip src off s = Inr s1" and u: "iupdate ip (iset ip (\<lambda>p. p\<lparr>isize := z\<rparr>) s1) = Inr s'"
    and z: "unat z = off + length src" "unat (isize (the_ip s ip)) < off + length src"
    and b: "off \<le> unat (isize (the_ip s ip))" "off + length src \<le> MAXFILE * BSIZE"
  shows "written s ip src off s'"
proof -
  have W: "grows s ip s1" and B: "(\<forall>i. i < MAXFILE * BSIZE \<longrightarrow>
          fbyte s1 ip i = (if off \<le> i \<and> i < off + length src then src ! (i - off) else fbyte s ip i))"
    "(\<forall>i. off \<le> i \<and> i < off + length src \<longrightarrow> faddr s1 ip (fslot (i div BSIZE)) \<noteq> 0)"
    using writei_loop_spec [OF ok f w] by blast+
  note G = growsD [OF W]
  have i1: "inum (the_ip s1 ip) < sb_ninodes (sb s1)" using i G(3) by (subst G(7)) simp
  note U = set_size [OF G(1,2) i1 u]
  have ip: "the_ip s' ip = (the_ip s ip)\<lparr>addrs := addrs (the_ip s' ip), isize := isize (the_ip s' ip)\<rparr>"
    unfolding U(4) by (subst G(7)) simp
  have sz: "isize (the_ip s' ip) = z" by (simp add: U(4))
  have mapped: "faddr s' ip (fslot (i div BSIZE)) \<noteq> 0" if "off \<le> i" "i < off + length src" for i
    using B(2) that U(10) [OF fslot_bound(1) [OF block_lt [of i]]] b by simp
  have out: "cview (dev s') n = cview (dev s) n"
    if "n < sb_size (sb s)" "marked s n" "n \<notin> reserved s" "n \<notin> faddr s ip ` {..<FSLOTS}" for n
    using that U(8) [of n] G(10) [of n] G(3) by (auto simp: reserved_def blocks_cong(3,4) [OF G(3)])
  have us: "marked s' n" if "n < sb_size (sb s)" "marked s n" for n using that U(7) G(3,8) by simp
  have byt: "fbyte s' ip i = (if off \<le> i \<and> i < off + length src then src ! (i - off) else fbyte s ip i)"
    if "i < MAXFILE * BSIZE" for i using B(1) U(9) [OF that] that by simp
  show ?thesis
    unfolding written_def
    by (intro conjI allI impI) (use b U G z sz ip us out byt mapped in auto)
qed

text \<open>The bounds \<open>writei\<close> checks in 32 bits, as numbers.\<close>

lemma writei_bounds:
  fixes off z :: u32
  assumes n: "n < 2 ^ LENGTH(32)"
  shows "off + of_nat n < off \<or> of_nat (MAXFILE * BSIZE) < off + of_nat n \<longleftrightarrow> MAXFILE * BSIZE < unat off + n"
    "\<not> off + of_nat n < off \<Longrightarrow> unat (off + of_nat n) = unat off + n"
proof -
  have un: "unat (of_nat n :: u32) = n" by (rule unat_of_nat_small [OF n])
  have ov: "off + of_nat n < off \<longleftrightarrow> \<not> unat off + n < 2 ^ LENGTH(32)"
    using un unat_bound [of off] n by (simp add: word_less_nat_alt unat_word_ariths) (simp add: mod_if, linarith)
  show u: "unat (off + of_nat n) = unat off + n" if "\<not> off + of_nat n < off"
    using that un unfolding ov by (simp add: unat_word_ariths)
  have "unat (of_nat (MAXFILE * BSIZE) :: u32) = MAXFILE * BSIZE" by (simp add: fs_consts)
  then have "of_nat (MAXFILE * BSIZE) < off + of_nat n \<longleftrightarrow> MAXFILE * BSIZE < unat (off + of_nat n)"
    by (simp only: word_less_nat_alt)
  then show "off + of_nat n < off \<or> of_nat (MAXFILE * BSIZE) < off + of_nat n \<longleftrightarrow> MAXFILE * BSIZE < unat off + n"
    using u ov by (cases "off + of_nat n < off") (auto simp: fs_consts)
qed

text \<open>Either nothing is changed, or the file is written.\<close>

lemma writei_result:
  assumes ok: "fs_ok s" and f: "file_ok s ip" and ty: "itype (the_ip s ip) \<noteq> T_DEV"
    and i: "inum (the_ip s ip) < sb_ninodes (sb s)" and n: "length src < 2 ^ 32"
    and w: "writei dsw ip src off s = Inr (r, s')"
  shows "case r of None \<Rightarrow> s' = s \<and> (isize (the_ip s ip) < off \<or> MAXFILE * BSIZE < unat off + length src)
    | Some n \<Rightarrow> n = length src \<and> written s ip src (unat off) s'"
proof (cases "isize (the_ip s ip) < off \<or> MAXFILE * BSIZE < unat off + length src")
  case True
  have n': "length src < 2 ^ LENGTH(32)" using n by simp
  have "r = None \<and> s' = s"
    using w ty True writei_bounds(1) [OF n', of off] by (auto simp: writei_def Let_def split: if_splits)
  then show ?thesis using True by simp
next
  case False
  let ?n = "of_nat (length src) :: u32"
  have n': "length src < 2 ^ LENGTH(32)" using n by simp
  have c: "\<not> off + ?n < off" "\<not> of_nat (MAXFILE * BSIZE) < off + ?n" "\<not> isize (the_ip s ip) < off"
    using False writei_bounds(1) [OF n', of off] by blast+
  note un = writei_bounds(2) [OF n' c(1)]
  obtain s1 where l: "writei_loop ip src (unat off) s = Inr s1"
    and u: "(if ?n > 0 \<and> off + ?n > isize (the_ip s1 ip)
             then iupdate ip (iset ip (\<lambda>p. p\<lparr>isize := off + ?n\<rparr>) s1) else Inr s1) = Inr s'"
    and r: "r = Some (length src)"
    using w ty c by (auto simp: writei_def Let_def rbind_eq_Inr)
  have b: "unat off + length src \<le> MAXFILE * BSIZE" using False by simp
  have sz: "unat off \<le> unat (isize (the_ip s ip))" using c(3) by (simp add: word_less_nat_alt)
  have W: "grows s ip s1" using writei_loop_spec [OF ok f l] by blast
  have same: "isize (the_ip s1 ip) = isize (the_ip s ip)" by (subst growsD(7) [OF W]) simp
  have "written s ip src (unat off) s'"
  proof (cases "?n > 0 \<and> off + ?n > isize (the_ip s1 ip)")
    case True
    then have "unat (isize (the_ip s ip)) < unat off + length src" using un same by (simp add: word_less_nat_alt)
    then show ?thesis using written_size [OF ok f i l _ un _ sz b] u True by simp
  next
    case no: False
    have "unat off + length src \<le> unat (isize (the_ip s ip))"
    proof (cases "?n > 0")
      case True
      then show ?thesis using no un same by (simp add: word_less_nat_alt)
    next
      case False
      have "unat ?n = length src" by (rule unat_of_nat_small [OF n'])
      then have "length src = 0" using False by (simp add: word_gt_0 del: length_0_conv)
      then show ?thesis using sz by simp
    qed
    then show ?thesis using written_loop [OF ok f l sz _ b] u no by simp
  qed
  then show ?thesis using r by simp
qed

section \<open>Files as byte lists\<close>

text \<open>The abstract file: its bytes, as many as its size.\<close>

definition fcontent :: "fs \<Rightarrow> nat \<Rightarrow> u8 list" where
  "fcontent s ip = map (fbyte s ip) [0..<unat (isize (the_ip s ip))]"

lemma length_content [simp]: "length (fcontent s ip) = unat (isize (the_ip s ip))"
  by (simp add: fcontent_def)

lemma fcontent_slice:
  "off + n \<le> unat (isize (the_ip s ip)) \<Longrightarrow> take n (drop off (fcontent s ip)) = map (fbyte s ip) [off..<off + n]"
  by (rule nth_equalityI) (simp_all add: fcontent_def)

lemma fcontent_same:
  assumes "isize (the_ip s' ip) = isize (the_ip s ip)" "unat (isize (the_ip s ip)) \<le> MAXFILE * BSIZE"
    "\<And>i. i < MAXFILE * BSIZE \<Longrightarrow> fbyte s' ip i = fbyte s ip i"
  shows "fcontent s' ip = fcontent s ip"
  using assms by (simp add: fcontent_def)

lemma readi_spec:
  assumes ok: "fs_ok s" and f: "file_ok s ip" and ty: "itype (the_ip s ip) \<noteq> T_DEV"
    and sz: "unat (isize (the_ip s ip)) \<le> MAXFILE * BSIZE" and r: "readi dsr ip off n s = Inr (r, s')"
  shows "(case r of None \<Rightarrow> s' = s \<and> (isize (the_ip s ip) < off \<or> off + n < off)
    | Some bs \<Rightarrow> bs = take (unat n) (drop (unat off) (fcontent s ip)))
    \<and> fcontent s' ip = fcontent s ip \<and> grows s ip s'"
proof (cases "isize (the_ip s ip) < off \<or> off + n < off")
  case True
  then show ?thesis using r ty grows_refl [OF ok f] by (auto simp: readi_def Let_def)
next
  case False
  let ?n = "if off + n > isize (the_ip s ip) then isize (the_ip s ip) - off else n"
  have le: "off \<le> isize (the_ip s ip)" "off \<le> off + n" using False by (auto simp: not_less)
  have u: "unat (off + n) = unat off + unat n" using le(2) by (simp add: unat_plus_simple)
  obtain bs where b: "readi_loop ip (unat off) (unat ?n) s = Inr (bs, s')" "r = Some bs"
    using r ty False by (auto simp: readi_def Let_def rbind_eq_Inr split: if_splits)
  note R = readi_loop_spec [OF ok f b(1)]
  have g: "grows s ip s'" using R by blast
  have n: "unat ?n = min (unat n) (unat (isize (the_ip s ip)) - unat off)"
    using u le(1) by (auto simp: word_less_nat_alt unat_sub word_le_nat_alt)
  have "bs = take (unat ?n) (drop (unat off) (fcontent s ip))"
    using R fcontent_slice [of "unat off" "unat ?n" s ip] n le(1) by (simp add: word_le_nat_alt)
  also have "\<dots> = take (unat n) (drop (unat off) (fcontent s ip))" unfolding n by (simp add: min_def)
  finally have bs: "bs = take (unat n) (drop (unat off) (fcontent s ip))" .
  have "isize (the_ip s' ip) = isize (the_ip s ip)" by (subst growsD(7) [OF g]) simp
  then have "fcontent s' ip = fcontent s ip" using fcontent_same [OF _ sz] R by blast
  then show ?thesis using bs b(2) g by simp
qed

lemma writei_spec:
  assumes "fs_ok s" "file_ok s ip" "itype (the_ip s ip) \<noteq> T_DEV" "inum (the_ip s ip) < sb_ninodes (sb s)"
    and n: "length src < 2 ^ 32" and sz: "unat (isize (the_ip s ip)) \<le> MAXFILE * BSIZE"
    and w: "writei dsw ip src off s = Inr (r, s')"
  shows "case r of None \<Rightarrow> s' = s \<and> (isize (the_ip s ip) < off \<or> MAXFILE * BSIZE < unat off + length src)
    | Some n \<Rightarrow> n = length src \<and> written s ip src (unat off) s'
        \<and> fcontent s' ip = take (unat off) (fcontent s ip) @ src @ drop (unat off + length src) (fcontent s ip)"
proof (cases r)
  case None
  then show ?thesis using writei_result [OF assms(1-5) w] by simp
next
  case (Some m)
  let ?o = "unat off" and ?c = "fcontent s ip"
  have W: "written s ip src ?o s'" and m: "m = length src" using writei_result [OF assms(1-5) w] Some by simp_all
  have le: "?o \<le> length ?c" "?o + length src \<le> MAXFILE * BSIZE"
    and l: "length (fcontent s' ip) = max (length ?c) (?o + length src)"
    and byt: "\<And>i. i < MAXFILE * BSIZE \<Longrightarrow>
      fbyte s' ip i = (if ?o \<le> i \<and> i < ?o + length src then src ! (i - ?o) else fbyte s ip i)"
    using W unfolding written_def by auto
  have "fcontent s' ip = take ?o ?c @ src @ drop (?o + length src) ?c"
  proof (rule nth_equalityI)
    show "length (fcontent s' ip) = length (take ?o ?c @ src @ drop (?o + length src) ?c)" using l le by simp
    fix i assume i: "i < length (fcontent s' ip)"
    then have "i < MAXFILE * BSIZE" using l le sz by auto
    then show "fcontent s' ip ! i = (take ?o ?c @ src @ drop (?o + length src) ?c) ! i"
      using i l le byt by (auto simp: fcontent_def nth_append)
  qed
  then show ?thesis using W m Some by simp
qed

text \<open>
  \<open>readi\<close> on a file returns -1 when the offset lies past the end or offset plus count
  overflows; otherwise it returns the bytes of the file from the offset on, at most as
  many as asked for, and no file content changes.
\<close>

theorem readi_refines:
  assumes ok: "fs_ok s" and f: "file_ok s ip" and ty: "itype (the_ip s ip) \<noteq> T_DEV"
    and sz: "unat (isize (the_ip s ip)) \<le> MAXFILE * BSIZE" and r: "readi dsr ip off n s = Inr (r, s')"
  shows "(case r of None \<Rightarrow> s' = s \<and> (isize (the_ip s ip) < off \<or> off + n < off)
    | Some bs \<Rightarrow> bs = take (unat n) (drop (unat off) (fcontent s ip)))
    \<and> fcontent s' ip = fcontent s ip \<and> fs_ok s' \<and> file_ok s' ip"
  using readi_spec [OF assms] growsD(1,2) [of s ip s'] by blast

text \<open>
  C1. \<open>writei\<close> on a file either changes nothing, because the write would start past the
  end or go past the largest file, or replaces the bytes from the offset on by the
  new ones, extending the file when they go past its end.
\<close>

theorem writei_refines:
  assumes "fs_ok s" "file_ok s ip" "itype (the_ip s ip) \<noteq> T_DEV" "inum (the_ip s ip) < sb_ninodes (sb s)"
    and n: "length src < 2 ^ 32" and sz: "unat (isize (the_ip s ip)) \<le> MAXFILE * BSIZE"
    and w: "writei dsw ip src off s = Inr (r, s')"
  shows "case r of None \<Rightarrow> s' = s \<and> (isize (the_ip s ip) < off \<or> MAXFILE * BSIZE < unat off + length src)
    | Some n \<Rightarrow> n = length src \<and> fs_ok s' \<and> file_ok s' ip
        \<and> fcontent s' ip = take (unat off) (fcontent s ip) @ src @ drop (unat off + length src) (fcontent s ip)"
  using writei_spec [OF assms] by (cases r) (auto simp: written_def)

text \<open>
  C2. A write to one file leaves the others: if two inodes share no block, \<open>writei\<close> to
  one changes nothing of the content of the other.
\<close>

theorem write_isolated:
  assumes "fs_ok s" "file_ok s ip" "itype (the_ip s ip) \<noteq> T_DEV" "inum (the_ip s ip) < sb_ninodes (sb s)"
    "length src < 2 ^ 32" "writei dsw ip src off s = Inr (Some n, s')"
    and q: "file_ok s q" "q \<noteq> ip" "\<forall>j<FSLOTS. \<forall>k<FSLOTS. faddr s q j \<noteq> 0 \<longrightarrow> faddr s q j \<noteq> faddr s ip k"
    and sz: "unat (isize (the_ip s q)) \<le> MAXFILE * BSIZE"
  shows "fcontent s' q = fcontent s q \<and> file_ok s' q"
proof -
  have W: "written s ip src (unat off) s'" using writei_result [OF assms(1-6)] by simp
  note F = file_okD [OF q(1)]
  have cv: "cview (dev s') (faddr s q k) = cview (dev s) (faddr s q k)" if k: "k < FSLOTS" "faddr s q k \<noteq> 0" for k
  proof -
    have "faddr s q k \<notin> faddr s ip ` {..<FSLOTS}" using q(3) k by auto
    then show ?thesis using W F(3,4,5) [OF k] unfolding written_def by blast
  qed
  have ip: "the_ip s' q = the_ip s q" using W q(2) by (simp add: written_def)
  have ad: "addrs (the_ip s' q) = addrs (the_ip s q)" by (simp add: ip)
  have "file_ok s' q"
    by (rule file_ok_same [OF q(1) ad]) (use cv W in \<open>auto simp: written_def\<close>)
  moreover have "fcontent s' q = fcontent s q"
    by (rule fcontent_same [OF _ sz]) (simp_all add: ip file_same(2) [OF ad] cv)
  ultimately show ?thesis by simp
qed

text \<open>
  What \<open>writei\<close> wrote, \<open>readi\<close> reads back at the same offset, and the reading
  changes nothing.
\<close>

theorem write_read:
  assumes "fs_ok s" "file_ok s ip" "itype (the_ip s ip) \<noteq> T_DEV" "inum (the_ip s ip) < sb_ninodes (sb s)"
    "length src < 2 ^ 32" "writei dsw ip src off s = Inr (Some n, s')"
  shows "readi dsr ip off (of_nat (length src)) s' = Inr (Some src, s')"
proof -
  let ?n = "of_nat (length src) :: u32" and ?z = "isize (the_ip s' ip)"
  have W: "written s ip src (unat off) s'" using writei_result [OF assms(1-6)] by simp
  then have ok: "fs_ok s'" "file_ok s' ip" and b: "unat off + length src \<le> MAXFILE * BSIZE"
    and z: "unat ?z = max (unat (isize (the_ip s ip))) (unat off + length src)"
    and map: "\<forall>i. unat off \<le> i \<and> i < unat off + length src \<longrightarrow> faddr s' ip (fslot (i div BSIZE)) \<noteq> 0"
    and byt: "\<And>i. i < MAXFILE * BSIZE \<Longrightarrow> fbyte s' ip i
        = (if unat off \<le> i \<and> i < unat off + length src then src ! (i - unat off) else fbyte s ip i)"
    unfolding written_def by auto
  have n': "length src < 2 ^ LENGTH(32)" using assms(5) by simp
  have un: "unat ?n = length src" by (rule unat_of_nat_small [OF n'])
  have nov: "\<not> off + ?n < off" using writei_bounds(1) [OF n', of off] b by auto
  have uo: "unat (off + ?n) = unat off + length src" by (rule writei_bounds(2) [OF n' nov])
  have le: "\<not> ?z < off" "\<not> ?z < off + ?n" using z uo by (simp_all add: word_less_nat_alt)
  have "the_ip s' ip = (the_ip s ip)\<lparr>addrs := addrs (the_ip s' ip), isize := ?z\<rparr>" using W by (simp add: written_def)
  then have ty: "itype (the_ip s' ip) = itype (the_ip s ip)" by (metis inode.select_convs(6) inode.surjective inode.update_convs(10,11))
  have "map (fbyte s' ip) [unat off..<unat off + length src] = src"
    by (rule nth_equalityI) (use byt b in auto)
  then show ?thesis
    using readi_loop_mapped [OF ok b map] ty assms(3) nov le un by (simp add: readi_def Let_def)
qed

section \<open>A small disk\<close>

text \<open>
  Eight blocks: boot, super block, one block of inodes, the bitmap and four for data, of which the first
  two are in use. Two inodes are in memory, of two files of two bytes.
\<close>

definition sb0 :: superblock where
  "sb0 = \<lparr>sb_size = 8, sb_nblocks = 4, sb_ninodes = 8, sb_nlog = 0, sb_logstart = 2, sb_inodestart = 2, sb_bmapstart = 3\<rparr>"

definition ino0 :: "u32 \<Rightarrow> u32 \<Rightarrow> inode" where
  "ino0 i a = \<lparr>idev = 1, inum = i, iref = 1, ilocked = True, ivalid = True, itype = T_FILE, imajor = 0, iminor = 0,
     inlink = 1, isize = 2, addrs = a # replicate 12 0\<rparr>"

definition disk0 :: "u32 \<Rightarrow> blk" where
  "disk0 n = (if n = 1 then put32s 0 [8, 4, 8, 0, 2, 2, 3] (replicate BSIZE 0)
     else if n = 3 then 0x3F # replicate 511 0 else replicate BSIZE 0)"

definition fs0 :: fs where
  "fs0 = \<lparr>dev = \<lparr>cview = disk0, dview = disk0, hist = []\<rparr>,
     flog = \<lparr>lstart = 2, lsize = 31, outstanding = 1, committing = False, lh = []\<rparr>,
     sb = sb0, icache = [ino0 1 4, ino0 2 5], fdisk = 8\<rparr>"

lemma fs0_simps:
  "sb fs0 = sb0" "cview (dev fs0) = disk0" "fdisk fs0 = 8" "icache fs0 = [ino0 1 4, ino0 2 5]"
  by (simp_all add: fs0_def)

lemma small_word: "b < 8 \<Longrightarrow> unat b < 8" "b < 8 \<Longrightarrow> b div 4096 = 0" "b < 8 \<Longrightarrow> b div 8 = 0" for b :: u32
  by (simp_all add: word_less_nat_alt word_arith_nat_div)

lemma fs0_blocks: "b < 8 \<Longrightarrow> BBLOCK b fs0 = 3" "b < 8 \<Longrightarrow> IBLOCK b fs0 = 2"
  "bitmap_blocks fs0 = {3}" "inode_blocks fs0 = {2}"
proof -
  show B: "BBLOCK b fs0 = 3" if "b < 8" for b
    using small_word(2) [OF that] by (simp add: BBLOCK_def fs0_simps sb0_def fs_consts)
  show I: "IBLOCK b fs0 = 2" if "b < 8" for b
    using small_word(3) [OF that] by (simp add: IBLOCK_def fs0_simps sb0_def fs_consts)
  have "(0 :: u32) < 8" by simp
  then show "bitmap_blocks fs0 = {3}" "inode_blocks fs0 = {2}"
    using B I unfolding bitmap_blocks_def inode_blocks_def by (auto simp: fs0_simps sb0_def intro!: image_eqI [of _ _ 0])
qed

lemma fs0_used: "b \<in> {0, 1, 2, 3, 4, 5} \<Longrightarrow> marked fs0 b"
  by (auto simp: marked_def fs0_blocks fs0_simps disk0_def in_use_def bit_mask_def fs_consts)

lemma fs0_ok: "fs_ok fs0"
proof -
  have "sb_of (disk0 1) = sb0"
    by (simp add: sb_of_def disk0_def sb0_def blk_simps fs_consts)
  then show ?thesis
    unfolding fs_ok_def fs0_blocks
    by (auto simp: fs0_simps sb0_def disk0_def fs_consts intro: fs0_used)
qed

lemma fs0_faddr: "k < FSLOTS \<Longrightarrow> ip < 2 \<Longrightarrow> faddr fs0 ip k = (if k = 0 then if ip = 0 then 4 else 5 else 0)"
  by (auto simp: faddr_def fs0_simps ino0_def FSLOTS_def Let_def nth_Cons' less_2_cases_iff)

lemma fs0_file: "ip < 2 \<Longrightarrow> file_ok fs0 ip"
  unfolding file_ok_def
  by (auto simp: fs0_faddr fs0_simps reserved_def fs0_blocks sb0_def ino0_def less_2_cases_iff intro: fs0_used split: if_splits)

lemma fs0_write: "\<exists>s'. writei (\<lambda>_. None) 0 [65, 66] 1 fs0 = Inr (Some 2, s')"
  by (simp add: writei_def writei_loop.simps bmap_def fs_bread_def blog_def log_write_def iupdate_def iset_def chunk_def
      fs0_simps ino0_def sb0_def fs_consts T_FILE_def T_DEV_def IBLOCK_def rbind_eq_Inr LOGSIZE_30 fs0_def Let_def)

lemma fs0_hyps: "itype (the_ip fs0 0) \<noteq> T_DEV" "inum (the_ip fs0 0) < sb_ninodes (sb fs0)"
  "unat (isize (the_ip fs0 ip)) \<le> MAXFILE * BSIZE \<or> 1 < ip" "length [65, 66 :: u8] < 2 ^ 32"
  by (auto simp: fs0_simps ino0_def sb0_def T_FILE_def T_DEV_def fs_consts nth_Cons' )

lemma fs0_content: "ip < 2 \<Longrightarrow> fcontent fs0 ip = [0, 0]"
  by (auto simp: fcontent_def fbyte_def fs0_faddr FSLOTS_def fslot_def fs0_simps ino0_def disk0_def fs_consts
      less_2_cases_iff upt_rec)

theorem readi_refines_witness:
  "\<exists>s'. readi (\<lambda>_. None) 0 1 5 fs0 = Inr (Some [0], s') \<and> fcontent s' 0 = [0, 0]"
proof -
  have "\<exists>bs s'. readi (\<lambda>_. None) 0 1 5 fs0 = Inr (Some bs, s')"
    by (simp add: readi_def readi_loop.simps bmap_def fs_bread_def chunk_def fs0_simps ino0_def fs_consts
        T_FILE_def T_DEV_def rbind_eq_Inr Let_def)
  then obtain bs s' where r: "readi (\<lambda>_. None) 0 1 5 fs0 = Inr (Some bs, s')" by blast
  have sz: "unat (isize (the_ip fs0 0)) \<le> MAXFILE * BSIZE" using fs0_hyps(3) [of 0] by simp
  show ?thesis
    using readi_refines [OF fs0_ok fs0_file fs0_hyps(1) sz r] fs0_content [of 0] r by simp
qed

theorem writei_refines_witness:
  "\<exists>s'. writei (\<lambda>_. None) 0 [65, 66] 1 fs0 = Inr (Some 2, s') \<and> fcontent s' 0 = [0, 65, 66]"
proof -
  obtain s' where r: "writei (\<lambda>_. None) 0 [65, 66] 1 fs0 = Inr (Some 2, s')" using fs0_write by blast
  have sz: "unat (isize (the_ip fs0 0)) \<le> MAXFILE * BSIZE" using fs0_hyps(3) [of 0] by simp
  show ?thesis
    using writei_refines [OF fs0_ok fs0_file fs0_hyps(1,2,4) sz r] fs0_content [of 0] r by simp
qed

theorem write_isolated_witness:
  "\<exists>s'. writei (\<lambda>_. None) 0 [65, 66] 1 fs0 = Inr (Some 2, s') \<and> fcontent s' 1 = [0, 0]"
proof -
  obtain s' where r: "writei (\<lambda>_. None) 0 [65, 66] 1 fs0 = Inr (Some 2, s')" using fs0_write by blast
  have sz: "unat (isize (the_ip fs0 1)) \<le> MAXFILE * BSIZE" using fs0_hyps(3) [of 1] by simp
  have d: "\<forall>j<FSLOTS. \<forall>k<FSLOTS. faddr fs0 1 j \<noteq> 0 \<longrightarrow> faddr fs0 1 j \<noteq> faddr fs0 0 k"
    by (simp add: fs0_faddr)
  show ?thesis
    using write_isolated [OF fs0_ok fs0_file fs0_hyps(1,2,4) r fs0_file _ d sz] fs0_content [of 1] r by simp
qed

theorem write_read_witness:
  "\<exists>s'. writei (\<lambda>_. None) 0 [65, 66] 1 fs0 = Inr (Some 2, s') \<and> readi (\<lambda>_. None) 0 1 2 s' = Inr (Some [65, 66], s')"
proof -
  obtain s' where r: "writei (\<lambda>_. None) 0 [65, 66] 1 fs0 = Inr (Some 2, s')" using fs0_write by blast
  show ?thesis
    using write_read [OF fs0_ok fs0_file fs0_hyps(1,2,4) r, where dsr = "\<lambda>_. None"] r by simp
qed

end
