(* ===== verification/Dir.thy ===== *)
theory Dir
  imports Fs CString
begin

text \<open>
  Directories and paths (the second half of fs.c). A C string is the list of its bytes before
  the terminator, a name buffer may also be a full array without one: reading at the end
  of a list yields the terminator. A directory is a file of 16-byte entries.
\<close>

section \<open>Names\<close>

definition byte0 :: "u8 list \<Rightarrow> u8" where
  "byte0 s = (case s of [] \<Rightarrow> 0 | c # _ \<Rightarrow> c)"

text \<open>\<open>strncmp\<close> and \<open>strncpy\<close> on the bytes.\<close>

fun strncmp_b :: "nat \<Rightarrow> u8 list \<Rightarrow> u8 list \<Rightarrow> int" where
  "strncmp_b 0 s t = 0"
| "strncmp_b (Suc n) s t =
     (if byte0 s \<noteq> 0 \<and> byte0 s = byte0 t then strncmp_b n (tl s) (tl t) else int (unat (byte0 s)) - int (unat (byte0 t)))"

fun strncpy_b :: "nat \<Rightarrow> u8 list \<Rightarrow> u8 list" where
  "strncpy_b 0 s = []"
| "strncpy_b (Suc n) s = (if byte0 s \<noteq> 0 then byte0 s # strncpy_b n (tl s) else replicate (Suc n) 0)"

definition namecmp :: "u8 list \<Rightarrow> u8 list \<Rightarrow> int" where
  "namecmp s t = strncmp_b DIRSIZ s t"

text \<open>The name as it is compared: at most \<open>n\<close> bytes, up to the terminator.\<close>

definition cname :: "nat \<Rightarrow> u8 list \<Rightarrow> u8 list" where
  "cname n s = takeWhile (\<lambda>c. c \<noteq> 0) (take n s)"

lemma cname_Suc: "cname (Suc n) s = (if byte0 s = 0 then [] else byte0 s # cname n (tl s))"
  by (cases s) (simp_all add: cname_def byte0_def)

lemma strncmp_b_zero: "strncmp_b n s t = 0 \<longleftrightarrow> cname n s = cname n t"
proof (induction n arbitrary: s t)
  case (Suc n)
  show ?case using Suc.IH byte_diff_zero [of "byte0 s" "byte0 t"] unfolding strncmp_b.simps cname_Suc by auto
qed (simp add: cname_def)

lemma cname_strncpy: "cname n (strncpy_b n s) = cname n s"
proof (induction n arbitrary: s)
  case (Suc n)
  then show ?case by (auto simp: cname_Suc byte0_def split: list.splits)
qed (simp add: cname_def)

lemma length_strncpy_b [simp]: "length (strncpy_b n s) = n"
  by (induction n arbitrary: s) simp_all

text \<open>They are the functions of string.c on the bytes in memory.\<close>

lemma bytes_Suc: "bytes (Suc n) p m = m p # bytes n (p + 1) m"
  by (simp add: bytes_def upt_conv_Cons map_Suc_upt [symmetric] add.commute add.left_commute del: upt_Suc)

lemma strncmp_bytes: "strncmp p q n m = strncmp_b n (bytes n p m) (bytes n q m)"
  by (induction n arbitrary: p q) (simp_all add: bytes_Suc byte0_def)

section \<open>Directory entries\<close>

record dirent =
  d_inum :: u16
  d_name :: "u8 list"

definition dirent_bytes :: "dirent \<Rightarrow> u8 list" where
  "dirent_bytes de = ucast (d_inum de) # ucast (drop_bit 8 (d_inum de)) # d_name de"

definition dirent_of :: "u8 list \<Rightarrow> dirent" where
  "dirent_of bs = \<lparr>d_inum = get16 bs 0, d_name = drop 2 bs\<rparr>"

lemma dirent_roundtrip: "dirent_of (dirent_bytes de) = de"
  by (cases de) (simp add: dirent_of_def dirent_bytes_def get16_def le16_join)

text \<open>No device is behind a directory: \<open>readi\<close> and \<open>writei\<close> use \<open>devsw\<close> for \<open>T_DEV\<close> only.\<close>

definition read_dirent :: "nat \<Rightarrow> nat \<Rightarrow> string \<Rightarrow> fs \<Rightarrow> (dirent \<times> fs) res" where
  "read_dirent dp off msg s = rbind (readi (\<lambda>_. None) dp (of_nat off) 16 s) (\<lambda>(bs, s).
     case bs of Some bs \<Rightarrow> (if length bs = 16 then Inr (dirent_of bs, s) else Inl (Panic msg))
     | None \<Rightarrow> Inl (Panic msg))"

text \<open>The offsets of the entries of a directory of \<open>n\<close> bytes.\<close>

definition dir_offs :: "nat \<Rightarrow> nat list" where
  "dir_offs n = map (\<lambda>k. 16 * k) [0..<(n + 15) div 16]"

text \<open>The result is the inode and the offset, what \<open>poff\<close> receives.\<close>

fun dirlookup_loop :: "nat \<Rightarrow> u8 list \<Rightarrow> nat list \<Rightarrow> fs \<Rightarrow> ((nat \<times> nat) option \<times> fs) res" where
  "dirlookup_loop dp name [] s = Inr (None, s)"
| "dirlookup_loop dp name (off # offs) s =
     rbind (read_dirent dp off ''dirlookup read'' s) (\<lambda>(de, s).
       if d_inum de = 0 then dirlookup_loop dp name offs s
       else if namecmp name (d_name de) = 0
       then rbind (iget (idev (the_ip s dp)) (ucast (d_inum de)) s) (\<lambda>(ip, s). Inr (Some (ip, off), s))
       else dirlookup_loop dp name offs s)"

definition dirlookup :: "nat \<Rightarrow> u8 list \<Rightarrow> fs \<Rightarrow> ((nat \<times> nat) option \<times> fs) res" where
  "dirlookup dp name s =
     (if itype (the_ip s dp) \<noteq> T_DIR then Inl (Panic ''dirlookup not DIR'')
      else dirlookup_loop dp name (dir_offs (unat (isize (the_ip s dp)))) s)"

text \<open>The offset of an empty entry, or the end of the directory.\<close>

fun dirlink_loop :: "nat \<Rightarrow> nat \<Rightarrow> nat list \<Rightarrow> fs \<Rightarrow> (nat \<times> fs) res" where
  "dirlink_loop dp end_off [] s = Inr (end_off, s)"
| "dirlink_loop dp end_off (off # offs) s =
     rbind (read_dirent dp off ''dirlink read'' s) (\<lambda>(de, s).
       if d_inum de = 0 then Inr (off, s) else dirlink_loop dp end_off offs s)"

definition dirlink :: "nat \<Rightarrow> u8 list \<Rightarrow> u32 \<Rightarrow> fs \<Rightarrow> (int \<times> fs) res" where
  "dirlink dp name i s = rbind (dirlookup dp name s) (\<lambda>(r, s).
     case r of Some (ip, _) \<Rightarrow> rbind (iput ip s) (\<lambda>s. Inr (-1, s))
     | None \<Rightarrow>
         (let offs = dir_offs (unat (isize (the_ip s dp))) in
          rbind (dirlink_loop dp (16 * length offs) offs s) (\<lambda>(off, s).
          rbind (writei (\<lambda>_. None) dp (dirent_bytes \<lparr>d_inum = ucast i, d_name = strncpy_b DIRSIZ name\<rparr>) (of_nat off) s)
            (\<lambda>(w, s). if w \<noteq> Some 16 then Inl (Panic ''dirlink'') else Inr (0, s)))))"

section \<open>Paths\<close>

abbreviation slash :: u8 where "slash \<equiv> 47"

text \<open>The rest of the path and the name buffer, or \<open>None\<close> for the return value 0.\<close>

definition skipelem :: "u8 list \<Rightarrow> u8 list \<Rightarrow> (u8 list \<times> u8 list) option" where
  "skipelem path name =
     (let path = dropWhile (\<lambda>c. c = slash) path in
      if path = [] then None
      else let e = takeWhile (\<lambda>c. c \<noteq> slash) path;
               name = (if length e \<ge> DIRSIZ then take DIRSIZ e @ drop DIRSIZ name else e @ 0 # drop (length e + 1) name)
           in Some (dropWhile (\<lambda>c. c = slash) (dropWhile (\<lambda>c. c \<noteq> slash) path), name))"

lemma skipelem_shorter: "skipelem path name = Some (path', name') \<Longrightarrow> length path' < length path"
proof -
  assume a: "skipelem path name = Some (path', name')"
  let ?p = "dropWhile (\<lambda>c. c = slash) path"
  have ne: "?p \<noteq> []" and p': "path' = dropWhile (\<lambda>c. c = slash) (dropWhile (\<lambda>c. c \<noteq> slash) ?p)"
    using a by (auto simp: skipelem_def Let_def split: if_splits)
  have "hd ?p \<noteq> slash" using hd_dropWhile [OF ne] .
  then have "length (dropWhile (\<lambda>c. c \<noteq> slash) ?p) < length ?p"
    using ne by (cases ?p) (auto simp: less_Suc_eq_le length_dropWhile_le)
  moreover have "length path' \<le> length (dropWhile (\<lambda>c. c \<noteq> slash) ?p)" unfolding p' by (rule length_dropWhile_le)
  moreover have "length ?p \<le> length path" by (rule length_dropWhile_le)
  ultimately show ?thesis by linarith
qed

text \<open>The loop of \<open>namex\<close>. \<open>nip\<close> is \<open>nameiparent\<close>.\<close>

function namex_loop :: "bool \<Rightarrow> nat \<Rightarrow> u8 list \<Rightarrow> u8 list \<Rightarrow> fs \<Rightarrow> (nat option \<times> u8 list \<times> fs) res" where
  "namex_loop nip ip path name s =
     (case skipelem path name of
        None \<Rightarrow> if nip then rbind (iput ip s) (\<lambda>s. Inr (None, name, s)) else Inr (Some ip, name, s)
      | Some (path', name) \<Rightarrow>
          rbind (ilock ip s) (\<lambda>s.
            if itype (the_ip s ip) \<noteq> T_DIR then rbind (iunlockput ip s) (\<lambda>s. Inr (None, name, s))
            else if nip \<and> path' = [] then rbind (iunlock ip s) (\<lambda>s. Inr (Some ip, name, s))
            else rbind (dirlookup ip name s) (\<lambda>(r, s).
              rbind (iunlockput ip s) (\<lambda>s.
                case r of None \<Rightarrow> Inr (None, name, s) | Some (next, _) \<Rightarrow> namex_loop nip next path' name s))))"
  by pat_completeness auto
termination
  by (relation "measure (\<lambda>(nip, ip, path, name, s). length path)") (auto dest: skipelem_shorter)

declare namex_loop.simps [simp del]

text \<open>\<open>cwd\<close> is the working directory of the calling process; the root is inode 1 of device 1.\<close>

definition namex :: "nat \<Rightarrow> bool \<Rightarrow> u8 list \<Rightarrow> u8 list \<Rightarrow> fs \<Rightarrow> (nat option \<times> u8 list \<times> fs) res" where
  "namex cwd nip path name s =
     rbind (if byte0 path = slash then iget 1 ROOTINO s else Inr (idup cwd s)) (\<lambda>(ip, s).
       namex_loop nip ip path name s)"

definition namei :: "nat \<Rightarrow> u8 list \<Rightarrow> u8 list \<Rightarrow> fs \<Rightarrow> (nat option \<times> u8 list \<times> fs) res" where
  "namei cwd path name s = namex cwd False path name s"

definition nameiparent :: "nat \<Rightarrow> u8 list \<Rightarrow> u8 list \<Rightarrow> fs \<Rightarrow> (nat option \<times> u8 list \<times> fs) res" where
  "nameiparent cwd path name s = namex cwd True path name s"

section \<open>A directory as a map from names to inode numbers\<close>

definition entry :: "fs \<Rightarrow> nat \<Rightarrow> nat \<Rightarrow> dirent" where
  "entry s dp k = dirent_of (take 16 (drop (16 * k) (fcontent s dp)))"

definition hit :: "fs \<Rightarrow> nat \<Rightarrow> u8 list \<Rightarrow> nat \<Rightarrow> bool" where
  "hit s dp c k \<longleftrightarrow> d_inum (entry s dp k) \<noteq> 0 \<and> cname DIRSIZ (d_name (entry s dp k)) = c"

definition nent :: "fs \<Rightarrow> nat \<Rightarrow> nat" where
  "nent s dp = unat (isize (the_ip s dp)) div 16"

definition dmap :: "fs \<Rightarrow> nat \<Rightarrow> u8 list \<rightharpoonup> u16" where
  "dmap s dp c = map_option (\<lambda>k. d_inum (entry s dp k)) (find (hit s dp c) [0..<nent s dp])"

definition dir_ok :: "fs \<Rightarrow> nat \<Rightarrow> bool" where
  "dir_ok s dp \<longleftrightarrow> fs_ok s \<and> file_ok s dp \<and> itype (the_ip s dp) = T_DIR
     \<and> unat (isize (the_ip s dp)) \<le> MAXFILE * BSIZE \<and> 16 dvd unat (isize (the_ip s dp))
     \<and> inum (the_ip s dp) < sb_ninodes (sb s)"

text \<open>What reading entries leaves.\<close>

definition dir_same :: "fs \<Rightarrow> nat \<Rightarrow> fs \<Rightarrow> bool" where
  "dir_same s dp t \<longleftrightarrow> dir_ok t dp \<and> fcontent t dp = fcontent s dp \<and> isize (the_ip t dp) = isize (the_ip s dp)
     \<and> idev (the_ip t dp) = idev (the_ip s dp)"

lemma dir_same_refl: "dir_ok s dp \<Longrightarrow> dir_same s dp s"
  by (simp add: dir_same_def)

lemma dir_same_trans: "dir_same s dp t \<Longrightarrow> dir_same t dp u \<Longrightarrow> dir_same s dp u"
  by (simp add: dir_same_def)

lemma dir_same_entry: "dir_same s dp t \<Longrightarrow> entry t dp k = entry s dp k \<and> hit t dp c k = hit s dp c k \<and> nent t dp = nent s dp"
  by (simp add: dir_same_def entry_def hit_def nent_def)

lemma grows_dir_same:
  assumes d: "dir_ok s dp" and g: "grows s dp t" and c: "fcontent t dp = fcontent s dp"
  shows "dir_same s dp t"
proof -
  note G = growsD [OF g]
  have "isize (the_ip t dp) = isize (the_ip s dp)" "itype (the_ip t dp) = itype (the_ip s dp)"
    "inum (the_ip t dp) = inum (the_ip s dp)" "idev (the_ip t dp) = idev (the_ip s dp)"
    by (subst G(7), simp)+
  then show ?thesis using d c G(1-3) by (simp add: dir_same_def dir_ok_def)
qed

lemma dir_ok_size: "dir_ok s dp \<Longrightarrow> unat (isize (the_ip s dp)) = 16 * nent s dp \<and> nent s dp \<le> 4480"
  by (auto simp: dir_ok_def nent_def fs_consts)

lemma read_dirent_spec:
  assumes d: "dir_ok s dp" and k: "k < nent s dp" and r: "read_dirent dp (16 * k) msg s = Inr (de, s')"
  shows "de = entry s dp k" "dir_same s dp s'"
proof -
  obtain bs where b: "readi (\<lambda>_. None) dp (of_nat (16 * k)) 16 s = Inr (Some bs, s')" "length bs = 16" "de = dirent_of bs"
    using r by (auto simp: read_dirent_def rbind_eq_Inr split: option.splits if_splits)
  have D: "fs_ok s" "file_ok s dp" "itype (the_ip s dp) \<noteq> T_DEV" "unat (isize (the_ip s dp)) \<le> MAXFILE * BSIZE"
    using d by (auto simp: dir_ok_def T_DIR_def T_DEV_def)
  have "16 * k < 2 ^ LENGTH(32)" using dir_ok_size [OF d] k by simp
  then have u: "unat (of_nat (16 * k) :: u32) = 16 * k" by (rule unat_of_nat_small)
  show "de = entry s dp k" "dir_same s dp s'"
    using readi_spec [OF D b(1)] b(3) u grows_dir_same [OF d] by (simp_all add: entry_def)
qed

lemma dir_offs_upt: "dir_ok s dp \<Longrightarrow> dir_offs (unat (isize (the_ip s dp))) = map (\<lambda>k. 16 * k) [0..<nent s dp]"
  by (auto simp: dir_offs_def dir_ok_def nent_def)

text \<open>The first entry of the name is found and nothing else happens.\<close>

lemma dirlookup_loop_spec:
  "dir_ok s dp \<Longrightarrow> \<forall>k\<in>set ks. k < nent s dp \<Longrightarrow> dirlookup_loop dp name (map (\<lambda>k. 16 * k) ks) s = Inr (r, s') \<Longrightarrow>
   \<exists>t. dir_same s dp t \<and> (case find (hit s dp (cname DIRSIZ name)) ks of
     None \<Rightarrow> r = None \<and> s' = t
   | Some k \<Rightarrow> \<exists>ip. r = Some (ip, 16 * k) \<and> iget (idev (the_ip s dp)) (ucast (d_inum (entry s dp k))) t = Inr (ip, s'))"
proof (induction ks arbitrary: s)
  case Nil
  then show ?case using dir_same_refl by auto
next
  case (Cons k ks)
  obtain de s1 where e: "read_dirent dp (16 * k) ''dirlookup read'' s = Inr (de, s1)"
    and rest: "(if d_inum de = 0 then dirlookup_loop dp name (map (\<lambda>k. 16 * k) ks) s1
       else if namecmp name (d_name de) = 0
       then rbind (iget (idev (the_ip s1 dp)) (ucast (d_inum de)) s1) (\<lambda>(ip, s). Inr (Some (ip, 16 * k), s))
       else dirlookup_loop dp name (map (\<lambda>k. 16 * k) ks) s1) = Inr (r, s')"
    using Cons.prems(3) by (simp add: rbind_eq_Inr) blast
  have kn: "k < nent s dp" using Cons.prems(2) by simp
  note E = read_dirent_spec [OF Cons.prems(1) kn e]
  have D: "dir_ok s1 dp" "idev (the_ip s1 dp) = idev (the_ip s dp)" using E(2) by (simp_all add: dir_same_def)
  have h: "hit s dp (cname DIRSIZ name) k \<longleftrightarrow> d_inum de \<noteq> 0 \<and> namecmp name (d_name de) = 0"
    unfolding hit_def namecmp_def strncmp_b_zero E(1) by auto
  show ?case
  proof (cases "hit s dp (cname DIRSIZ name) k")
    case True
    then obtain ip where "iget (idev (the_ip s dp)) (ucast (d_inum (entry s dp k))) s1 = Inr (ip, s')" "r = Some (ip, 16 * k)"
      using rest h D(2) E(1) by (auto simp: rbind_eq_Inr)
    then show ?thesis using True E(2) by auto
  next
    case False
    then have l: "dirlookup_loop dp name (map (\<lambda>k. 16 * k) ks) s1 = Inr (r, s')" using rest h by (auto split: if_splits)
    have b: "\<forall>k\<in>set ks. k < nent s1 dp" using Cons.prems(2) dir_same_entry [OF E(2)] by simp
    have eq: "hit s1 dp (cname DIRSIZ name) = hit s dp (cname DIRSIZ name)" "entry s1 dp = entry s dp"
      using dir_same_entry [OF E(2)] by auto
    obtain t where "dir_same s1 dp t" "case find (hit s dp (cname DIRSIZ name)) ks of None \<Rightarrow> r = None \<and> s' = t
      | Some k \<Rightarrow> \<exists>ip. r = Some (ip, 16 * k) \<and> iget (idev (the_ip s dp)) (ucast (d_inum (entry s dp k))) t = Inr (ip, s')"
      using Cons.IH [OF D(1) b l] unfolding eq D(2) by blast
    then show ?thesis using False dir_same_trans [OF E(2)] by auto
  qed
qed

lemma dirlookup_spec:
  assumes d: "dir_ok s dp" and l: "dirlookup dp name s = Inr (r, s')"
  shows "\<exists>t. dir_same s dp t \<and> (case dmap s dp (cname DIRSIZ name) of
     None \<Rightarrow> r = None \<and> s' = t
   | Some i \<Rightarrow> \<exists>ip off. r = Some (ip, off) \<and> iget (idev (the_ip s dp)) (ucast i) t = Inr (ip, s'))"
proof -
  have "dirlookup_loop dp name (map (\<lambda>k. 16 * k) [0..<nent s dp]) s = Inr (r, s')"
    using l dir_offs_upt [OF d] d by (simp add: dirlookup_def dir_ok_def)
  from dirlookup_loop_spec [OF d _ this] show ?thesis
    by (cases "find (hit s dp (cname DIRSIZ name)) [0..<nent s dp]") (auto simp: dmap_def)
qed

lemma find_only: "k \<in> set xs \<Longrightarrow> P k \<Longrightarrow> \<forall>j\<in>set xs. j \<noteq> k \<longrightarrow> \<not> P j \<Longrightarrow> find P xs = Some k"
  by (induction xs) auto

lemma find_skip_last: "\<not> P n \<Longrightarrow> find P (xs @ [n]) = find P xs"
  by (induction xs) auto

lemma dirlink_loop_spec:
  "dir_ok s dp \<Longrightarrow> \<forall>k\<in>set ks. k < nent s dp \<Longrightarrow> dirlink_loop dp e (map (\<lambda>k. 16 * k) ks) s = Inr (off, t) \<Longrightarrow>
   dir_same s dp t \<and> off = (case find (\<lambda>k. d_inum (entry s dp k) = 0) ks of None \<Rightarrow> e | Some k \<Rightarrow> 16 * k)"
proof (induction ks arbitrary: s)
  case Nil
  then show ?case using dir_same_refl by auto
next
  case (Cons k ks)
  obtain de s1 where e: "read_dirent dp (16 * k) ''dirlink read'' s = Inr (de, s1)"
    and rest: "(if d_inum de = 0 then Inr (16 * k, s1) else dirlink_loop dp e (map (\<lambda>k. 16 * k) ks) s1) = Inr (off, t)"
    using Cons.prems(3) by (simp add: rbind_eq_Inr) blast
  have kn: "k < nent s dp" using Cons.prems(2) by simp
  note E = read_dirent_spec [OF Cons.prems(1) kn e]
  have D: "dir_ok s1 dp" using E(2) by (simp add: dir_same_def)
  have b: "\<forall>k\<in>set ks. k < nent s1 dp" using Cons.prems(2) dir_same_entry [OF E(2)] by simp
  have eq: "entry s1 dp = entry s dp" using dir_same_entry [OF E(2)] by auto
  show ?case
    using rest E Cons.IH [OF D b] dir_same_trans [OF E(2)] unfolding eq by (auto split: if_splits)
qed

text \<open>One entry is overwritten, or added at the end.\<close>

lemma entry_written:
  assumes c: "fcontent s' dp = take (16 * k) (fcontent s dp) @ dirent_bytes de @ drop (16 * k + 16) (fcontent s dp)"
    and k: "16 * k \<le> length (fcontent s dp)" and l: "length (d_name de) = 14"
    and d: "16 dvd length (fcontent s dp)"
  shows "nent s' dp = (if k < nent s dp then nent s dp else Suc k)"
    "j < nent s' dp \<Longrightarrow> entry s' dp j = (if j = k then de else entry s dp j)" "16 dvd length (fcontent s' dp)"
proof -
  obtain n where n: "length (fcontent s dp) = 16 * n" using d by (auto elim: dvdE)
  have nn: "nent s dp = n" using n by (simp add: nent_def)
  have lb: "length (dirent_bytes de) = 16" using l by (simp add: dirent_bytes_def)
  have "length (fcontent s' dp) = (if k < n then 16 * n else 16 * Suc k)" using c lb n k by auto
  then have len': "unat (isize (the_ip s' dp)) = (if k < n then 16 * n else 16 * Suc k)" by simp
  show n': "nent s' dp = (if k < nent s dp then nent s dp else Suc k)" unfolding nent_def [of s'] nn len' by simp
  show "16 dvd length (fcontent s' dp)" using len' by auto
  have kn: "k \<le> n" using k n by simp
  show "entry s' dp j = (if j = k then de else entry s dp j)" if j: "j < nent s' dp"
  proof -
    consider "j = k" | "j < k" | "k < j" by linarith
    then have "take 16 (drop (16 * j) (fcontent s' dp))
      = (if j = k then dirent_bytes de else take 16 (drop (16 * j) (fcontent s dp)))"
    proof cases
      case 1
      then show ?thesis unfolding c using lb n kn by simp
    next
      case 2
      then have jk: "16 * j + 16 \<le> 16 * k" by simp
      have app: "take 16 (drop (16 * j) (take (16 * k) C @ D)) = take 16 (drop (16 * j) C)"
        if "length C = 16 * n" for C D :: "u8 list"
        by (rule nth_equalityI) (use jk that n kn in \<open>auto simp: nth_append\<close>)
      have "j \<noteq> k" using 2 by simp
      then show ?thesis unfolding c by (simp only: app [OF n] if_False)
    next
      case 3
      then have "16 * j - (16 * k + 16) + (16 * k + 16) = 16 * j" by simp
      then show ?thesis unfolding c using 3 lb n kn by (simp add: add.commute)
    qed
    then show ?thesis using dirent_roundtrip by (simp add: entry_def)
  qed
qed

lemma dmap_written:
  assumes e: "\<And>j. j < nent s' dp \<Longrightarrow> entry s' dp j = (if j = k then de else entry s dp j)"
    and n: "nent s' dp = (if k < nent s dp then nent s dp else Suc k)" "k \<le> nent s dp"
    and free: "k < nent s dp \<Longrightarrow> d_inum (entry s dp k) = 0"
    and new: "d_inum de \<noteq> 0" "dmap s dp (cname DIRSIZ (d_name de)) = None"
  shows "dmap s' dp = (dmap s dp)(cname DIRSIZ (d_name de) \<mapsto> d_inum de)"
proof
  fix c
  have kn: "k < nent s' dp" using n by auto
  have h: "hit s' dp c j = (if j = k then c = cname DIRSIZ (d_name de) else hit s dp c j)" if "j < nent s' dp" for j
    using e [OF that] new(1) by (auto simp: hit_def)
  have hk: "\<not> hit s dp c k" if "k < nent s dp" using free [OF that] by (simp add: hit_def)
  show "dmap s' dp c = ((dmap s dp)(cname DIRSIZ (d_name de) \<mapsto> d_inum de)) c"
  proof (cases "c = cname DIRSIZ (d_name de)")
    case True
    have no: "\<not> hit s dp c j" if "j < nent s dp" for j
      using new(2) that unfolding True by (auto simp: dmap_def find_None_iff)
    have "find (hit s' dp c) [0..<nent s' dp] = Some k"
      by (rule find_only) (use kn h True no n in \<open>auto split: if_splits\<close>)
    then show ?thesis using True e [OF kn] by (simp add: dmap_def)
  next
    case False
    have same: "find (hit s' dp c) [0..<nent s dp] = find (hit s dp c) [0..<nent s dp]"
      by (rule find_cong [OF refl]) (use h hk False n in \<open>auto split: if_splits\<close>)
    have all: "find (hit s' dp c) [0..<nent s' dp] = find (hit s dp c) [0..<nent s dp]"
    proof (cases "k < nent s dp")
      case True
      then show ?thesis using same n by simp
    next
      case nk: False
      then have "k = nent s dp" "nent s' dp = Suc k" using n by auto
      then show ?thesis using same h [OF kn] False by (simp add: find_skip_last)
    qed
    have "d_inum (entry s' dp j) = d_inum (entry s dp j)" if "find (hit s dp c) [0..<nent s dp] = Some j" for j
    proof -
      have j: "j < nent s dp" "hit s dp c j" using that by (auto simp: find_Some_iff)
      then have "j \<noteq> k" "j < nent s' dp" using hk n by auto
      then show ?thesis using e by simp
    qed
    then show ?thesis using False all by (cases "find (hit s dp c) [0..<nent s dp]") (simp_all add: dmap_def)
  qed
qed

lemma dir_ok_written:
  assumes d: "dir_ok s dp" and w: "written s dp src off s'" and v: "16 dvd length (fcontent s' dp)"
  shows "dir_ok s' dp"
proof -
  have ip: "the_ip s' dp = (the_ip s dp)\<lparr>addrs := addrs (the_ip s' dp), isize := isize (the_ip s' dp)\<rparr>"
    and W: "fs_ok s'" "file_ok s' dp" "sb s' = sb s"
    "unat (isize (the_ip s' dp)) = max (unat (isize (the_ip s dp))) (off + length src)" "off + length src \<le> MAXFILE * BSIZE"
    using w by (simp_all add: written_def)
  have "itype (the_ip s' dp) = itype (the_ip s dp)" "inum (the_ip s' dp) = inum (the_ip s dp)" by (subst ip, simp)+
  then show ?thesis using d v W by (simp add: dir_ok_def)
qed

text \<open>What \<open>dirlink\<close> does once the name is found absent.\<close>

lemma dirlink_fresh:
  assumes d: "dir_ok s dp" and i: "(ucast i :: u16) \<noteq> 0" and l: "dirlink dp name i s = Inr (r, s')"
    and none: "dmap s dp (cname DIRSIZ name) = None"
  shows "r = 0 \<and> dir_ok s' dp \<and> dmap s' dp = (dmap s dp)(cname DIRSIZ name \<mapsto> ucast i)"
proof -
  let ?de = "\<lparr>d_inum = ucast i, d_name = strncpy_b DIRSIZ name\<rparr> :: dirent"
  obtain rl t where look: "dirlookup dp name s = Inr (rl, t)" using l by (auto simp: dirlink_def rbind_eq_Inr)
  have rl: "rl = None" and t: "dir_same s dp t" using dirlookup_spec [OF d look] none by auto
  have dt: "dir_ok t dp" using t by (simp add: dir_same_def)
  let ?offs = "dir_offs (unat (isize (the_ip t dp)))"
  obtain off u w where lp: "dirlink_loop dp (16 * length ?offs) ?offs t = Inr (off, u)"
    and wr: "writei (\<lambda>_. None) dp (dirent_bytes ?de) (of_nat off) u = Inr (w, s')" and w: "w = Some 16" "r = 0"
    using l look rl by (auto simp: dirlink_def rbind_eq_Inr Let_def split: if_splits)
  have lp': "dirlink_loop dp (16 * nent t dp) (map (\<lambda>k. 16 * k) [0..<nent t dp]) t = Inr (off, u)"
    using lp unfolding dir_offs_upt [OF dt] by simp
  have U: "dir_same t dp u" "off = (case find (\<lambda>k. d_inum (entry t dp k) = 0) [0..<nent t dp] of None \<Rightarrow> 16 * nent t dp | Some k \<Rightarrow> 16 * k)"
    using dirlink_loop_spec [OF dt _ lp'] by auto
  have du: "dir_ok u dp" using U(1) by (simp add: dir_same_def)
  note same = dir_same_entry [OF dir_same_trans [OF t U(1)]]
  obtain k where k: "off = 16 * k" "k \<le> nent u dp" "k < nent u dp \<Longrightarrow> d_inum (entry u dp k) = 0"
    using U(2) dir_same_entry [OF U(1)] by (auto simp: find_Some_iff split: option.splits)
  have du': "fs_ok u" "file_ok u dp" "itype (the_ip u dp) \<noteq> T_DEV" "inum (the_ip u dp) < sb_ninodes (sb u)"
    "unat (isize (the_ip u dp)) \<le> MAXFILE * BSIZE" "16 dvd length (fcontent u dp)"
    using du by (auto simp: dir_ok_def T_DIR_def T_DEV_def)
  have len: "length (dirent_bytes ?de) < 2 ^ 32" by (simp add: dirent_bytes_def DIRSIZ_def)
  have "off < 2 ^ LENGTH(32)" using k dir_ok_size [OF du] by simp
  then have uo: "unat (of_nat off :: u32) = 16 * k" using unat_of_nat_small k(1) by blast
  have W: "written u dp (dirent_bytes ?de) (16 * k) s'"
    "fcontent s' dp = take (16 * k) (fcontent u dp) @ dirent_bytes ?de @ drop (16 * k + 16) (fcontent u dp)"
    using writei_spec [OF du'(1-4) len du'(5) wr] w uo by (simp_all add: dirent_bytes_def DIRSIZ_def)
  have le: "16 * k \<le> length (fcontent u dp)" using k(2) dir_ok_size [OF du] by simp
  have ln: "length (d_name ?de) = 14" by (simp add: DIRSIZ_def)
  note E = entry_written [OF W(2) le ln du'(6)]
  have cn: "cname DIRSIZ (d_name ?de) = cname DIRSIZ name" by (simp add: cname_strncpy)
  have dm: "dmap u dp = dmap s dp" using same by (auto simp: dmap_def fun_eq_iff cong: find_cong)
  have "dmap s' dp = (dmap u dp)(cname DIRSIZ (d_name ?de) \<mapsto> d_inum ?de)"
    by (rule dmap_written [OF E(2) E(1) k(2,3)]) (use i none dm cn in simp_all)
  then show ?thesis using w(2) dm cn dir_ok_written [OF du W(1) E(3)] by simp
qed

text \<open>
  A directory is a map from names to inode numbers, a name being at most \<open>DIRSIZ\<close> bytes up to
  the terminator. \<open>dirlookup\<close> returns 0 exactly for the names it does not have; otherwise it
  returns what \<open>iget\<close> gives for the number of the name, and the directory stays the same.
\<close>

theorem dirlookup_reads_map:
  assumes "dir_ok s dp" and "dirlookup dp name s = Inr (r, s')"
  shows "\<exists>t. dir_ok t dp \<and> fcontent t dp = fcontent s dp \<and> (case dmap s dp (cname DIRSIZ name) of
     None \<Rightarrow> r = None \<and> s' = t
   | Some i \<Rightarrow> \<exists>ip off. r = Some (ip, off) \<and> iget (idev (the_ip s dp)) (ucast i) t = Inr (ip, s'))"
  using dirlookup_spec [OF assms] unfolding dir_same_def by blast

text \<open>
  C3. \<open>dirlink\<close> refines a map update: it returns -1 exactly when the name is there already;
  otherwise it adds the name with its inode number, in a free entry or at the end, and
  leaves every other name as it was.
\<close>

theorem dirlink_updates_map:
  assumes d: "dir_ok s dp" and i: "(ucast i :: u16) \<noteq> 0" and l: "dirlink dp name i s = Inr (r, s')"
  shows "case dmap s dp (cname DIRSIZ name) of
     Some _ \<Rightarrow> r = -1
   | None \<Rightarrow> r = 0 \<and> dir_ok s' dp \<and> dmap s' dp = (dmap s dp)(cname DIRSIZ name \<mapsto> ucast i)"
proof (cases "dmap s dp (cname DIRSIZ name)")
  case None
  then show ?thesis using dirlink_fresh [OF d i l] by simp
next
  case (Some j)
  obtain rl t where look: "dirlookup dp name s = Inr (rl, t)" using l by (auto simp: dirlink_def rbind_eq_Inr)
  have "rl \<noteq> None" using dirlookup_spec [OF d look] Some by auto
  then show ?thesis using l look Some by (auto simp: dirlink_def rbind_eq_Inr split: option.splits)
qed

section \<open>Paths as lists of names\<close>

text \<open>The names of a path: what lies between the slashes, the empty parts left out.\<close>

fun split_slash :: "u8 list \<Rightarrow> u8 list list" where
  "split_slash [] = [[]]"
| "split_slash (c # cs) = (if c = slash then [] # split_slash cs else (c # hd (split_slash cs)) # tl (split_slash cs))"

definition elems :: "u8 list \<Rightarrow> u8 list list" where
  "elems path = filter (\<lambda>e. e \<noteq> []) (split_slash path)"

lemma elems_slash [simp]: "elems (slash # p) = elems p" "elems [] = []"
  by (simp_all add: elems_def)

lemma split_slash_first:
  "split_slash p = takeWhile (\<lambda>c. c \<noteq> slash) p # (case dropWhile (\<lambda>c. c \<noteq> slash) p of [] \<Rightarrow> [] | _ # r \<Rightarrow> split_slash r)"
  by (induction p) auto

lemma elems_dropWhile: "elems (dropWhile (\<lambda>c. c = slash) p) = elems p"
  by (induction p) auto

lemma elems_first:
  assumes "c \<noteq> slash"
  shows "elems (c # p) = takeWhile (\<lambda>c. c \<noteq> slash) (c # p) # elems (dropWhile (\<lambda>c. c \<noteq> slash) (c # p))"
proof (cases "dropWhile (\<lambda>c. c \<noteq> slash) (c # p)")
  case Nil
  then show ?thesis using split_slash_first [of "c # p"] assms unfolding elems_def Nil by simp
next
  case (Cons d r)
  then have "d = slash" by (metis (mono_tags, lifting) dropWhile_eq_Cons_conv)
  then show ?thesis using split_slash_first [of "c # p"] assms Cons unfolding elems_def by simp
qed

lemma elems_Nil_iff: "elems (dropWhile (\<lambda>c. c = slash) p) = [] \<longleftrightarrow> dropWhile (\<lambda>c. c = slash) p = []"
proof (cases "dropWhile (\<lambda>c. c = slash) p")
  case (Cons c q)
  then have "c \<noteq> slash" by (metis (mono_tags, lifting) dropWhile_eq_Cons_conv)
  then show ?thesis unfolding Cons by (simp only: elems_first list.distinct simp_thms)
qed (simp only: elems_slash simp_thms)

lemma cname_id: "0 \<notin> set e \<Longrightarrow> cname n e = take n e"
  by (auto simp: cname_def takeWhile_eq_all_conv dest: in_set_takeD)

lemma takeWhile_ends: "0 \<notin> set e \<Longrightarrow> takeWhile (\<lambda>c. c \<noteq> 0) (e @ 0 # r) = e" for e :: "u8 list"
  by (induction e) auto

lemma cname_ends: "0 \<notin> set e \<Longrightarrow> length e < n \<Longrightarrow> cname n (e @ 0 # r) = e"
  unfolding cname_def by (cases "n - length e") (auto simp: takeWhile_ends)

lemma buffer_name:
  assumes "0 \<notin> set e" "length name = n"
  shows "cname n (if n \<le> length e then take n e @ drop n name else e @ 0 # drop (length e + 1) name) = cname n e"
proof (cases "n \<le> length e")
  case True
  then show ?thesis using assms by (simp add: cname_def)
next
  case False
  then show ?thesis using cname_ends [OF assms(1), of n] cname_id [OF assms(1), of n] by simp
qed

lemma skipelem_elems:
  assumes n: "length name = DIRSIZ" and z: "0 \<notin> set path"
  shows "case skipelem path name of None \<Rightarrow> elems path = []
    | Some (path', name') \<Rightarrow> \<exists>e. elems path = e # elems path' \<and> cname DIRSIZ name' = cname DIRSIZ e
        \<and> (path' = [] \<longleftrightarrow> elems path' = []) \<and> length name' = DIRSIZ \<and> 0 \<notin> set path'"
proof (cases "dropWhile (\<lambda>c. c = slash) path")
  case Nil
  then show ?thesis using elems_dropWhile [of path] unfolding skipelem_def Let_def Nil by simp
next
  case (Cons c p)
  let ?q = "c # p" and ?rest = "dropWhile (\<lambda>c. c = slash) (dropWhile (\<lambda>c. c \<noteq> slash) (c # p))"
  let ?e = "takeWhile (\<lambda>c. c \<noteq> slash) ?q"
  let ?n = "if length ?e \<ge> DIRSIZ then take DIRSIZ ?e @ drop DIRSIZ name else ?e @ 0 # drop (length ?e + 1) name"
  have c: "c \<noteq> slash" using Cons by (metis (mono_tags, lifting) dropWhile_eq_Cons_conv)
  have sk: "skipelem path name = Some (?rest, ?n)" using Cons by (simp add: skipelem_def Let_def)
  have "set ?q \<subseteq> set path" unfolding Cons [symmetric] by (auto dest: set_dropWhileD)
  then have z': "0 \<notin> set ?q" using z by blast
  have e0: "0 \<notin> set ?e" "0 \<notin> set ?rest" using z' by (auto dest!: set_takeWhileD set_dropWhileD)
  have "cname DIRSIZ ?n = cname DIRSIZ ?e" by (rule buffer_name [OF e0(1) n])
  moreover have "elems path = ?e # elems ?rest"
    using elems_dropWhile [of path] elems_first [OF c, of p] elems_dropWhile [of "dropWhile (\<lambda>c. c \<noteq> slash) ?q"] Cons by simp
  moreover have "length ?n = DIRSIZ" using n by simp
  ultimately show ?thesis using sk e0(2) elems_Nil_iff by auto
qed

text \<open>Only the compared part of a name counts.\<close>

lemma dirlookup_loop_cname:
  "cname DIRSIZ n = cname DIRSIZ m \<Longrightarrow> dirlookup_loop dp n offs s = dirlookup_loop dp m offs s"
proof (induction offs arbitrary: s)
  case (Cons off offs)
  have "namecmp n x = 0 \<longleftrightarrow> namecmp m x = 0" for x using Cons.prems by (simp add: namecmp_def strncmp_b_zero)
  then show ?case using Cons.IH [OF Cons.prems] by (auto intro: rbind_ext)
qed simp

lemma dirlookup_cname: "cname DIRSIZ n = cname DIRSIZ m \<Longrightarrow> dirlookup dp n s = dirlookup dp m s"
  by (simp add: dirlookup_def dirlookup_loop_cname [of n m])

text \<open>The walk of \<open>namex\<close> over a list of names.\<close>

primrec walk :: "bool \<Rightarrow> nat \<Rightarrow> u8 list list \<Rightarrow> fs \<Rightarrow> (nat option \<times> fs) res" where
  "walk nip ip [] s = (if nip then rbind (iput ip s) (\<lambda>s. Inr (None, s)) else Inr (Some ip, s))"
| "walk nip ip (e # es) s = rbind (ilock ip s) (\<lambda>s.
     if itype (the_ip s ip) \<noteq> T_DIR then rbind (iunlockput ip s) (\<lambda>s. Inr (None, s))
     else if nip \<and> es = [] then rbind (iunlock ip s) (\<lambda>s. Inr (Some ip, s))
     else rbind (dirlookup ip e s) (\<lambda>(r, s). rbind (iunlockput ip s) (\<lambda>s.
       case r of None \<Rightarrow> Inr (None, s) | Some (next, _) \<Rightarrow> walk nip next es s)))"

definition without_name :: "('a \<times> 'b \<times> 'c) res \<Rightarrow> ('a \<times> 'c) res" where
  "without_name m = rbind m (\<lambda>(r, _, s). Inr (r, s))"

lemma without_name_simps [simp]: "without_name (Inl e) = Inl e" "without_name (Inr (r, n, s)) = Inr (r, s)"
  by (simp_all add: without_name_def)

lemma without_name_rbind [simp]: "without_name (rbind m f) = rbind m (\<lambda>x. without_name (f x))"
  by (cases m) simp_all

lemma namex_loop_walk:
  "length name = DIRSIZ \<Longrightarrow> 0 \<notin> set path \<Longrightarrow> without_name (namex_loop nip ip path name s) = walk nip ip (elems path) s"
proof (induction "length path" arbitrary: ip path name s rule: less_induct)
  case less
  note S = skipelem_elems [OF less.prems]
  show ?case
  proof (cases "skipelem path name")
    case None
    then show ?thesis using S by (subst namex_loop.simps) (simp cong del: rbind_cong)
  next
    case (Some pn)
    obtain path' name' where pn: "pn = (path', name')" by (cases pn)
    obtain e where e: "elems path = e # elems path'" "cname DIRSIZ name' = cname DIRSIZ e" "path' = [] \<longleftrightarrow> elems path' = []"
      "length name' = DIRSIZ" "0 \<notin> set path'" using S Some pn by auto
    have look: "dirlookup ip name' t = dirlookup ip e t" for t by (rule dirlookup_cname [OF e(2)])
    have IH: "without_name (namex_loop nip n path' name' u) = walk nip n (elems path') u" for n u
      by (rule less.hyps) (use skipelem_shorter Some pn e(4,5) in auto)
    have walk: "walk nip ip (elems path) s = rbind (ilock ip s) (\<lambda>s.
       if itype (the_ip s ip) \<noteq> T_DIR then rbind (iunlockput ip s) (\<lambda>s. Inr (None, s))
       else if nip \<and> path' = [] then rbind (iunlock ip s) (\<lambda>s. Inr (Some ip, s))
       else rbind (dirlookup ip e s) (\<lambda>(r, s). rbind (iunlockput ip s) (\<lambda>s.
         case r of None \<Rightarrow> Inr (None, s) | Some (next, _) \<Rightarrow> walk nip next (elems path') s)))"
      unfolding e(1,3) walk.simps by (rule refl)
    have "namex_loop nip ip path name s = rbind (ilock ip s) (\<lambda>s.
       if itype (the_ip s ip) \<noteq> T_DIR then rbind (iunlockput ip s) (\<lambda>s. Inr (None, name', s))
       else if nip \<and> path' = [] then rbind (iunlock ip s) (\<lambda>s. Inr (Some ip, name', s))
       else rbind (dirlookup ip name' s) (\<lambda>(r, s). rbind (iunlockput ip s) (\<lambda>s.
         case r of None \<Rightarrow> Inr (None, name', s) | Some (next, _) \<Rightarrow> namex_loop nip next path' name' s)))"
      by (subst namex_loop.simps) (simp add: Some pn)
    note loop = this [unfolded look]
    show ?thesis
      unfolding loop walk without_name_rbind
      by (intro rbind_ext) (use IH in \<open>auto intro!: rbind_ext split: option.splits\<close>)
  qed
qed

lemma namex_loop_name:
  "length name = DIRSIZ \<Longrightarrow> 0 \<notin> set path \<Longrightarrow> namex_loop True ip path name s = Inr (Some q, name', s') \<Longrightarrow>
   elems path \<noteq> [] \<and> cname DIRSIZ name' = cname DIRSIZ (last (elems path))"
proof (induction "length path" arbitrary: ip path name s rule: less_induct)
  case less
  note S = skipelem_elems [OF less.prems(1,2)]
  obtain path' nm where sk: "skipelem path name = Some (path', nm)"
    using less.prems(3) by (subst (asm) namex_loop.simps) (auto simp: rbind_eq_Inr split: option.splits)
  obtain e where e: "elems path = e # elems path'" "cname DIRSIZ nm = cname DIRSIZ e" "path' = [] \<longleftrightarrow> elems path' = []"
    "length nm = DIRSIZ" "0 \<notin> set path'" using S sk by auto
  show ?case
  proof (cases "path' = []")
    case True
    then have "name' = nm" using less.prems(3) sk
      by (subst (asm) namex_loop.simps) (auto simp: rbind_eq_Inr split: if_splits)
    then show ?thesis using e True by simp
  next
    case False
    then obtain n u where "namex_loop True n path' nm u = Inr (Some q, name', s')"
      using less.prems(3) sk
      by (subst (asm) namex_loop.simps) (auto simp: rbind_eq_Inr split: if_splits option.splits)
    then have "elems path' \<noteq> [] \<and> cname DIRSIZ name' = cname DIRSIZ (last (elems path'))"
      by (intro less.hyps) (use skipelem_shorter sk e in auto)
    then show ?thesis using e by simp
  qed
qed

text \<open>
  C4. \<open>namex\<close> walks the names of the path, whatever the number of slashes between them: from the
  root for an absolute path, else from the working directory, it looks every name up in the
  directory reached, stopping before the last name for \<open>nameiparent\<close>, which also
  leaves that name in the buffer.
\<close>

theorem namex_walks:
  assumes "length name = DIRSIZ" and "0 \<notin> set path"
  shows "without_name (namex cwd nip path name s)
    = rbind (if byte0 path = slash then iget 1 ROOTINO s else Inr (idup cwd s)) (\<lambda>(ip, s). walk nip ip (elems path) s)
  \<and> (\<forall>q name' s'. nip \<and> namex cwd nip path name s = Inr (Some q, name', s') \<longrightarrow>
       elems path \<noteq> [] \<and> cname DIRSIZ name' = cname DIRSIZ (last (elems path)))"
proof (intro conjI allI impI)
  show "without_name (namex cwd nip path name s)
    = rbind (if byte0 path = slash then iget 1 ROOTINO s else Inr (idup cwd s)) (\<lambda>(ip, s). walk nip ip (elems path) s)"
    unfolding namex_def without_name_rbind by (rule rbind_ext) (auto simp: namex_loop_walk [OF assms])
  fix q name' s'
  assume a: "nip \<and> namex cwd nip path name s = Inr (Some q, name', s')"
  then obtain ip t where "namex_loop True ip path name t = Inr (Some q, name', s')"
    by (auto simp: namex_def rbind_eq_Inr)
  from namex_loop_name [OF assms this]
  show "elems path \<noteq> []" "cname DIRSIZ name' = cname DIRSIZ (last (elems path))" by blast+
qed

section \<open>A small directory\<close>

text \<open>The first file of the small disk as a directory of two free entries.\<close>

definition fsd :: fs where
  "fsd = fs0\<lparr>icache := [(ino0 1 4)\<lparr>itype := T_DIR, isize := 32\<rparr>]\<rparr>"

lemma fsd_simps: "dev fsd = dev fs0" "sb fsd = sb0" "fdisk fsd = 8" "flog fsd = flog fs0"
  "icache fsd = [(ino0 1 4)\<lparr>itype := T_DIR, isize := 32\<rparr>]"
  by (simp_all add: fsd_def fs0_simps)

lemma fsd_ok: "dir_ok fsd 0"
proof -
  have e: "sb fsd = sb fs0" "fdisk fsd = fdisk fs0" by (simp_all add: fsd_def)
  have m: "marked fsd b = marked fs0 b" for b by (simp add: marked_def BBLOCK_def fsd_simps fs0_simps)
  have "fs_ok fsd"
    by (rule fs_ok_frame [OF fs0_ok e]) (use fs_okD(2,3) [OF fs0_ok] m fsd_simps(1) in auto)
  moreover have "file_ok fsd 0"
  proof -
    have f: "faddr fsd 0 k = faddr fs0 0 k" for k by (simp add: faddr_def fsd_simps fs0_simps ino0_def Let_def)
    have r: "reserved fsd = reserved fs0" by (simp add: reserved_def blocks_cong(3,4) [OF e(1)])
    show ?thesis using fs0_file [of 0] unfolding file_ok_def f r m e by (simp add: fsd_simps fs0_simps ino0_def)
  qed
  ultimately show ?thesis by (simp add: dir_ok_def fsd_simps ino0_def sb0_def fs_consts)
qed

lemma fsd_reads:
  assumes "off \<in> {0, 16}"
  shows "read_dirent 0 off msg fsd = Inr (\<lparr>d_inum = 0, d_name = replicate 14 0\<rparr>, fsd)"
proof -
  have D: "fs_ok fsd" "file_ok fsd 0" using fsd_ok by (simp_all add: dir_ok_def)
  have b: "i div 512 = 0" "i mod 512 = i" if "i < off + 16" for i using that assms by auto
  have f: "faddr fsd 0 (fslot 0) = 4" by (simp add: faddr_def fsd_simps ino0_def fslot_def Let_def)
  have m: "\<forall>i. off \<le> i \<and> i < off + 16 \<longrightarrow> faddr fsd 0 (fslot (i div BSIZE)) \<noteq> 0" using b f by (simp add: fs_consts)
  have o: "off + 16 \<le> MAXFILE * BSIZE" "unat (of_nat off :: u32) = off" using assms by (auto simp: fs_consts)
  have "map (fbyte fsd 0) [off..<off + 16] = replicate 16 0"
    using b f assms by (intro nth_equalityI) (auto simp: fbyte_def fs_consts fsd_simps fs0_simps disk0_def Let_def)
  then have "readi (\<lambda>_. None) 0 (of_nat off) 16 fsd = Inr (Some (replicate 16 0), fsd)"
    using readi_loop_mapped [OF D o(1) m] o(2) assms by (auto simp: readi_def fsd_simps ino0_def T_DIR_def T_DEV_def Let_def)
  then show ?thesis by (simp add: read_dirent_def dirent_of_def get16_def numeral_eq_Suc)
qed

lemma fsd_offs: "dir_offs (unat (isize (the_ip fsd 0))) = [0, 16]"
  by (simp add: dir_offs_def fsd_simps upt_rec)

lemma fsd_lookup: "dirlookup 0 [97] fsd = Inr (None, fsd)"
  unfolding dirlookup_def fsd_offs by (simp add: fsd_reads) (simp add: fsd_simps)

lemma fsd_link: "\<exists>s'. dirlink 0 [97] 5 fsd = Inr (0, s')"
proof -
  have w: "\<exists>s'. writei (\<lambda>_. None) 0 bs 0 fsd = Inr (Some 16, s')" if "length bs = 16" for bs
  proof -
    have "bs \<noteq> []" using that by auto
    then show ?thesis using that
      by (simp add: writei_def writei_loop.simps bmap_def fs_bread_def blog_def log_write_def chunk_def fsd_simps fs0_simps ino0_def
          fs_consts T_DIR_def T_DEV_def LOGSIZE_30 fs0_def Let_def)
  qed
  have "length (dirent_bytes \<lparr>d_inum = ucast (5 :: u32), d_name = strncpy_b DIRSIZ [97]\<rparr>) = 16"
    by (simp add: dirent_bytes_def DIRSIZ_def)
  from w [OF this] show ?thesis
    by (auto simp: dirlink_def fsd_lookup fsd_offs fsd_reads Let_def)
qed

lemma fsd_dmap: "dmap fsd 0 (cname DIRSIZ [97]) = None"
  using dirlookup_spec [OF fsd_ok fsd_lookup] by (auto split: option.splits)

theorem dirlookup_reads_map_witness:
  "\<exists>t. dir_ok t 0 \<and> fcontent t 0 = fcontent fsd 0 \<and> dirlookup 0 [97] fsd = Inr (None, t)"
  using dirlookup_reads_map [OF fsd_ok fsd_lookup] fsd_dmap fsd_lookup by auto

theorem dirlink_updates_map_witness:
  "\<exists>s'. dirlink 0 [97] 5 fsd = Inr (0, s') \<and> dmap s' 0 (cname DIRSIZ [97]) = Some 5"
proof -
  obtain s' where l: "dirlink 0 [97] 5 fsd = Inr (0, s')" using fsd_link by blast
  have i: "(ucast (5 :: u32) :: u16) \<noteq> 0" "(ucast (5 :: u32) :: u16) = 5" by simp_all
  show ?thesis using dirlink_updates_map [OF fsd_ok i(1) l] fsd_dmap l i(2) by simp
qed

theorem namex_walks_witness:
  "without_name (namex 0 False [47, 97, 47, 47, 98] (replicate 14 0) fsd)
    = rbind (iget 1 ROOTINO fsd) (\<lambda>(ip, s). walk False ip [[97], [98]] s)"
proof -
  let ?p = "[47, 97, 47, 47, 98] :: u8 list"
  have p: "elems ?p = [[97], [98]]" "byte0 ?p = slash" "length (replicate 14 0 :: u8 list) = DIRSIZ" "0 \<notin> set ?p"
    by (simp_all add: elems_def byte0_def DIRSIZ_def)
  show ?thesis using namex_walks [OF p(3,4), of 0 False fsd] unfolding p(1) if_P [OF p(2)] by (rule conjunct1)
qed

end
