(* ===== verification/File.thy ===== *)
theory File
  imports Dir Pipe Kalloc
begin

text \<open>
  Open files (file.c and the allocation of pipes in pipe.c). A pointer to a \<open>struct file\<close> is its
  index in the file table, a pointer to a pipe the address of its page. A call runs to its
  end here; where it would sleep its result is \<open>Blocked\<close>. The operations of devices are
  parameters: \<open>dsr\<close> and \<open>dsw\<close> are the \<open>read\<close> and \<open>write\<close> entries of \<open>devsw\<close>.
\<close>

section \<open>file.h\<close>

datatype fdtype = FD_NONE | FD_PIPE | FD_INODE

record kfile =
  ftype :: fdtype
  fref :: int
  freadable :: bool
  fwritable :: bool
  fpipe :: u32
  fip :: nat
  foff :: u32

definition NFILE :: nat where "NFILE = 100"

record fstate =
  ffs :: Fs.fs
  ftab :: "kfile list"
  fpipes :: "u32 \<Rightarrow> pipe option"
  fkm :: kmem

type_synonym dev_read = "u16 \<Rightarrow> (nat \<Rightarrow> Fs.fs \<Rightarrow> (u8 list option \<times> Fs.fs) res) option"
type_synonym dev_write = "u16 \<Rightarrow> (u8 list \<Rightarrow> Fs.fs \<Rightarrow> (nat option \<times> Fs.fs) res) option"

abbreviation the_file :: "fstate \<Rightarrow> nat \<Rightarrow> kfile" where
  "the_file s f \<equiv> ftab s ! f"

definition fset :: "nat \<Rightarrow> (kfile \<Rightarrow> kfile) \<Rightarrow> fstate \<Rightarrow> fstate" where
  "fset f g s = s\<lparr>ftab := (ftab s)[f := g (ftab s ! f)]\<rparr>"

text \<open>A file system operation within the state.\<close>

definition on_fs :: "(Fs.fs \<Rightarrow> Fs.fs res) \<Rightarrow> fstate \<Rightarrow> fstate res" where
  "on_fs g s = rbind (g (ffs s)) (\<lambda>x. Inr (s\<lparr>ffs := x\<rparr>))"

definition on_fs2 :: "(Fs.fs \<Rightarrow> ('a \<times> Fs.fs) res) \<Rightarrow> fstate \<Rightarrow> ('a \<times> fstate) res" where
  "on_fs2 g s = rbind (g (ffs s)) (\<lambda>(r, x). Inr (r, s\<lparr>ffs := x\<rparr>))"

text \<open>Transactions: \<open>end_op\<close> commits when it is the last.\<close>

definition fs_begin :: "Fs.fs \<Rightarrow> Fs.fs res" where
  "fs_begin s = rbind (begin_op (flog s)) (\<lambda>l. Inr (s\<lparr>flog := l\<rparr>))"

definition fs_end :: "Fs.fs \<Rightarrow> Fs.fs res" where
  "fs_end s = rbind (end_op (flog s)) (\<lambda>(c, l).
     Inr (if c then let (l, d) = end_commit l (dev s) in s\<lparr>flog := l, dev := d\<rparr> else s\<lparr>flog := l\<rparr>))"

section \<open>file.c\<close>

definition filealloc :: "fstate \<Rightarrow> (nat \<times> fstate) option" where
  "filealloc s = (case first_index (\<lambda>f. fref f = 0) (ftab s) of
     None \<Rightarrow> None | Some f \<Rightarrow> Some (f, fset f (\<lambda>x. x\<lparr>fref := 1\<rparr>) s))"

definition filedup :: "nat \<Rightarrow> fstate \<Rightarrow> fstate res" where
  "filedup f s = (if fref (the_file s f) < 1 then Inl (Panic ''filedup'')
     else Inr (fset f (\<lambda>x. x\<lparr>fref := fref x + 1\<rparr>) s))"

text \<open>\<open>pipeclose\<close> with the page: it goes back to the pool when both ends are closed.\<close>

definition pipe_shut :: "u32 \<Rightarrow> u32 \<Rightarrow> bool \<Rightarrow> fstate \<Rightarrow> fstate res" where
  "pipe_shut kend a w s = (case fpipes s a of None \<Rightarrow> Inl Fault
     | Some p \<Rightarrow> let (p, free) = pipeclose p w in
         if free then rbind (kfree kend a (fkm s)) (\<lambda>k. Inr (s\<lparr>fpipes := (fpipes s)(a := None), fkm := k\<rparr>))
         else Inr (s\<lparr>fpipes := (fpipes s)(a := Some p)\<rparr>))"

definition fileclose :: "u32 \<Rightarrow> nat \<Rightarrow> fstate \<Rightarrow> fstate res" where
  "fileclose kend f s =
     (if fref (the_file s f) < 1 then Inl (Panic ''fileclose'')
      else let s = fset f (\<lambda>x. x\<lparr>fref := fref x - 1\<rparr>) s in
        if fref (the_file s f) > 0 then Inr s
        else let ff = the_file s f; s = fset f (\<lambda>x. x\<lparr>fref := 0, ftype := FD_NONE\<rparr>) s in
          case ftype ff of
            FD_PIPE \<Rightarrow> pipe_shut kend (fpipe ff) (fwritable ff) s
          | FD_INODE \<Rightarrow> rbind (on_fs fs_begin s) (\<lambda>s. rbind (on_fs (iput (fip ff)) s) (on_fs fs_end))
          | FD_NONE \<Rightarrow> Inr s)"

text \<open>\<open>None\<close> is the result -1.\<close>

definition filestat :: "nat \<Rightarrow> fstate \<Rightarrow> (stat option \<times> fstate) res" where
  "filestat f s =
     (let x = the_file s f in
      if ftype x = FD_INODE
      then rbind (on_fs (ilock (fip x)) s) (\<lambda>s. let r = stati (the_ip (ffs s) (fip x)) in
             rbind (on_fs (iunlock (fip x)) s) (\<lambda>s. Inr (Some r, s)))
      else Inr (None, s))"

text \<open>The bytes \<open>fileread\<close> puts at \<open>addr\<close>; \<open>kd\<close> is \<open>myproc()->killed\<close>.\<close>

definition fileread :: "dev_read \<Rightarrow> bool \<Rightarrow> nat \<Rightarrow> nat \<Rightarrow> fstate \<Rightarrow> (u8 list option \<times> fstate) res" where
  "fileread dsr kd f n s =
     (let x = the_file s f in
      if \<not> freadable x then Inr (None, s)
      else case ftype x of
        FD_PIPE \<Rightarrow> (case fpipes s (fpipe x) of None \<Rightarrow> Inl Fault
          | Some p \<Rightarrow> (case piperead kd n p of
              (RDone bs, p) \<Rightarrow> Inr (Some bs, s\<lparr>fpipes := (fpipes s)(fpipe x := Some p)\<rparr>)
            | (RKilled, p) \<Rightarrow> Inr (None, s)
            | (RSleeps, p) \<Rightarrow> Inl Blocked))
      | FD_INODE \<Rightarrow>
          rbind (on_fs (ilock (fip x)) s) (\<lambda>s.
          rbind (on_fs2 (readi dsr (fip x) (foff x) (of_nat n)) s) (\<lambda>(r, s).
          let s = (case r of Some bs \<Rightarrow> if bs \<noteq> [] then fset f (\<lambda>x. x\<lparr>foff := foff x + of_nat (length bs)\<rparr>) s else s
                   | None \<Rightarrow> s) in
          rbind (on_fs (iunlock (fip x)) s) (\<lambda>s. Inr (r, s))))
      | FD_NONE \<Rightarrow> Inl (Panic ''fileread''))"

text \<open>The most bytes one transaction of \<open>filewrite\<close> writes.\<close>

definition write_max :: nat where
  "write_max = ((MAXOPBLOCKS - 1 - 1 - 2) div 2) * 512"

text \<open>One round of the loop; \<open>None\<close> is the break after a failed \<open>writei\<close>.\<close>

definition write_round :: "dev_write \<Rightarrow> nat \<Rightarrow> u8 list \<Rightarrow> fstate \<Rightarrow> (nat option \<times> fstate) res" where
  "write_round dsw f bs s =
     (let ip = fip (the_file s f) in
      rbind (on_fs fs_begin s) (\<lambda>s. rbind (on_fs (ilock ip) s) (\<lambda>s.
      rbind (on_fs2 (writei dsw ip bs (foff (the_file s f))) s) (\<lambda>(r, s).
      let s = (case r of Some n \<Rightarrow> if n > 0 then fset f (\<lambda>x. x\<lparr>foff := foff x + of_nat n\<rparr>) s else s | None \<Rightarrow> s) in
      rbind (on_fs (iunlock ip) s) (\<lambda>s. rbind (on_fs fs_end s) (\<lambda>s. Inr (r, s)))))))"

text \<open>The result tells whether all of \<open>src\<close> is written.\<close>

function filewrite_loop :: "dev_write \<Rightarrow> nat \<Rightarrow> u8 list \<Rightarrow> fstate \<Rightarrow> (bool \<times> fstate) res" where
  "filewrite_loop dsw f src s =
     (if src = [] then Inr (True, s)
      else let bs = take write_max src in
        rbind (write_round dsw f bs s) (\<lambda>(r, s).
          case r of None \<Rightarrow> Inr (False, s)
          | Some n \<Rightarrow> if n \<noteq> length bs then Inl (Panic ''short filewrite'')
                     else filewrite_loop dsw f (drop (length bs) src) s))"
  by pat_completeness auto
termination
  by (relation "measure (\<lambda>(dsw, f, src, s). length src)") (auto simp: write_max_def MAXOPBLOCKS_def)

declare filewrite_loop.simps [simp del]

text \<open>A killed writer of a pipe gets -1; \<open>Some n\<close> is the count.\<close>

definition filewrite :: "dev_write \<Rightarrow> bool \<Rightarrow> nat \<Rightarrow> u8 list \<Rightarrow> fstate \<Rightarrow> (nat option \<times> fstate) res" where
  "filewrite dsw kd f src s =
     (let x = the_file s f in
      if \<not> fwritable x then Inr (None, s)
      else case ftype x of
        FD_PIPE \<Rightarrow> (case fpipes s (fpipe x) of None \<Rightarrow> Inl Fault
          | Some p \<Rightarrow> (case pipewrite_loop kd src p of
              (WDone, p) \<Rightarrow> Inr (Some (length src), s\<lparr>fpipes := (fpipes s)(fpipe x := Some p)\<rparr>)
            | (WBroken _, p) \<Rightarrow> Inr (None, s\<lparr>fpipes := (fpipes s)(fpipe x := Some p)\<rparr>)
            | (WSleeps _, p) \<Rightarrow> Inl Blocked))
      | FD_INODE \<Rightarrow> rbind (filewrite_loop dsw f src s) (\<lambda>(ok, s). Inr (if ok then Some (length src) else None, s))
      | FD_NONE \<Rightarrow> Inl (Panic ''filewrite''))"

section \<open>pipealloc\<close>

text \<open>The array \<open>data\<close> of a new pipe is what the page holds behind the lock of 52 bytes.\<close>

definition new_pipe :: "u32 \<Rightarrow> kmem \<Rightarrow> pipe" where
  "new_pipe a k = pipe_init (map (\<lambda>i. kbytes k (a + 52 + of_nat i)) [0..<PIPESIZE])"

definition pipe_file :: "u32 \<Rightarrow> bool \<Rightarrow> kfile \<Rightarrow> kfile" where
  "pipe_file a w x = x\<lparr>ftype := FD_PIPE, freadable := \<not> w, fwritable := w, fpipe := a\<rparr>"

definition pipealloc :: "u32 \<Rightarrow> fstate \<Rightarrow> ((nat \<times> nat) option \<times> fstate) res" where
  "pipealloc kend s =
     (case filealloc s of None \<Rightarrow> Inr (None, s)
      | Some (f0, s) \<Rightarrow> (case filealloc s of
          None \<Rightarrow> rbind (fileclose kend f0 s) (\<lambda>s. Inr (None, s))
        | Some (f1, s) \<Rightarrow>
            let (a, k) = kalloc (fkm s) in
            if a = 0 then rbind (fileclose kend f0 s) (\<lambda>s. rbind (fileclose kend f1 s) (\<lambda>s. Inr (None, s)))
            else Inr (Some (f0, f1),
              fset f1 (pipe_file a True) (fset f0 (pipe_file a False)
                (s\<lparr>fkm := k, fpipes := (fpipes s)(a := Some (new_pipe a k))\<rparr>)))))"

end
