(* ===== verification/Syscall.thy ===== *)
theory Syscall
  imports File Proc
begin

text \<open>
  System calls (syscall.c, sysproc.c). \<open>ksys\<close> puts the components together: the process
  table, the files over the file system and the pipes, kernel memory, the ticks and the running
  process. User memory is kernel memory seen through the page table of that process; below
  \<open>sz\<close> every page is mapped. The limits of the kernel image \<open>kend\<close> and
  \<open>kdata\<close> are parameters, as in the page allocator.
\<close>

record ksys =
  kpt :: ptable
  kcur :: nat
  kst :: fstate
  kticks :: u32

abbreviation kproc :: "ksys \<Rightarrow> proc" where
  "kproc s \<equiv> procs (kpt s) ! kcur s"

definition kset :: "(proc \<Rightarrow> proc) \<Rightarrow> ksys \<Rightarrow> ksys" where
  "kset f s = s\<lparr>kpt := upd (kcur s) f (kpt s)\<rparr>"

text \<open>The address a user address stands for, and the byte there.\<close>

definition uaddr :: "u32 \<Rightarrow> kmem \<Rightarrow> u32 \<Rightarrow> u32" where
  "uaddr pd k a = P2V (PTE_ADDR (pte_of pd (kbytes k) a)) + (a AND 0xFFF)"

definition umem :: "ksys \<Rightarrow> mem" where
  "umem s = (\<lambda>a. kbytes (fkm (kst s)) (uaddr (pgdir (kproc s)) (fkm (kst s)) a))"

fun uput :: "u32 \<Rightarrow> u32 \<Rightarrow> u8 list \<Rightarrow> kmem \<Rightarrow> kmem" where
  "uput pd a [] k = k"
| "uput pd a (b # bs) k = uput pd (a + 1) bs (k\<lparr>kbytes := (kbytes k)(uaddr pd k a := b)\<rparr>)"

definition kput :: "u32 \<Rightarrow> u8 list \<Rightarrow> ksys \<Rightarrow> ksys" where
  "kput a bs s = s\<lparr>kst := (kst s)\<lparr>fkm := uput (pgdir (kproc s)) a bs (fkm (kst s))\<rparr>\<rparr>"

definition on_kst :: "(fstate \<Rightarrow> fstate res) \<Rightarrow> ksys \<Rightarrow> ksys res" where
  "on_kst g s = rbind (g (kst s)) (\<lambda>x. Inr (s\<lparr>kst := x\<rparr>))"

definition on_kst2 :: "(fstate \<Rightarrow> ('a \<times> fstate) res) \<Rightarrow> ksys \<Rightarrow> ('a \<times> ksys) res" where
  "on_kst2 g s = rbind (g (kst s)) (\<lambda>(r, x). Inr (r, s\<lparr>kst := x\<rparr>))"

section \<open>syscall.c: arguments\<close>

definition fetchint :: "ksys \<Rightarrow> u32 \<Rightarrow> u32 option" where
  "fetchint s addr = (if addr \<ge> sz (kproc s) \<or> addr + 4 > sz (kproc s) then None else Some (load32 (umem s) addr))"

text \<open>The address and the length.\<close>

definition fetchstr :: "ksys \<Rightarrow> u32 \<Rightarrow> (u32 \<times> nat) option" where
  "fetchstr s addr = (if addr \<ge> sz (kproc s) then None
     else map_option (\<lambda>k. (addr, k)) (find (\<lambda>k. umem s (addr + of_nat k) = 0) [0..<unat (sz (kproc s) - addr)]))"

definition argint :: "ksys \<Rightarrow> nat \<Rightarrow> u32 option" where
  "argint s n = fetchint s (esp (tf (kproc s)) + 4 + 4 * of_nat n)"

definition argptr :: "ksys \<Rightarrow> nat \<Rightarrow> u32 \<Rightarrow> u32 option" where
  "argptr s n len = (case argint s n of None \<Rightarrow> None
     | Some i \<Rightarrow> if len <s 0 \<or> i \<ge> sz (kproc s) \<or> i + len > sz (kproc s) then None else Some i)"

definition argstr :: "ksys \<Rightarrow> nat \<Rightarrow> (u32 \<times> nat) option" where
  "argstr s n = (case argint s n of None \<Rightarrow> None | Some addr \<Rightarrow> fetchstr s addr)"

text \<open>The bytes of a string argument, as the file system takes it.\<close>

definition ustring :: "ksys \<Rightarrow> u32 \<times> nat \<Rightarrow> u8 list" where
  "ustring s = (\<lambda>(a, n). map (\<lambda>k. umem s (a + of_nat k)) [0..<n])"

section \<open>sysproc.c\<close>

text \<open>The result is what goes to \<open>eax\<close>.\<close>

type_synonym kcall = "ksys \<Rightarrow> (u32 \<times> ksys) res"

definition neg1 :: kcall where
  "neg1 s = Inr (- 1, s)"

fun dup_files :: "nat option list \<Rightarrow> fstate \<Rightarrow> fstate res" where
  "dup_files [] s = Inr s"
| "dup_files (None # ofs) s = dup_files ofs s"
| "dup_files (Some f # ofs) s = rbind (filedup f s) (dup_files ofs)"

text \<open>\<open>fork\<close> with the references it takes on the files and the working directory.\<close>

definition sys_fork :: "u32 \<Rightarrow> u32 \<Rightarrow> kcall" where
  "sys_fork kend kdata s = rbind (fork kend kdata (kcur s) (fkm (kst s)) (kpt s)) (\<lambda>(r, k, t).
     let s' = s\<lparr>kpt := t, kst := (kst s)\<lparr>fkm := k\<rparr>\<rparr> in
     if r = - 1 then Inr (- 1, s')
     else rbind (dup_files (ofile (kproc s)) (kst s')) (\<lambda>x. case cwd (kproc s) of
         None \<Rightarrow> Inl Fault
       | Some ip \<Rightarrow> Inr (of_int r, s'\<lparr>kst := x\<lparr>ffs := snd (idup ip (ffs x))\<rparr>\<rparr>)))"

fun close_files :: "u32 \<Rightarrow> nat option list \<Rightarrow> fstate \<Rightarrow> fstate res" where
  "close_files kend [] s = Inr s"
| "close_files kend (None # ofs) s = close_files kend ofs s"
| "close_files kend (Some f # ofs) s = rbind (fileclose kend f s) (close_files kend ofs)"

text \<open>
  \<open>exit\<close> does not return: the result is the state it leaves to the scheduler. The
  page of the saved trap frame is not an address here, \<open>atf\<close> stands for it.
\<close>

definition exit_call :: "u32 \<Rightarrow> u32 \<Rightarrow> ksys \<Rightarrow> ksys res" where
  "exit_call kend atf s =
     (if kcur s = initproc (kpt s) then Inl (Panic ''init exiting'')
      else rbind (if alarm_tf (kproc s) = None then Inr s
                  else rbind (kfree kend atf (fkm (kst s))) (\<lambda>k. Inr (s\<lparr>kst := (kst s)\<lparr>fkm := k\<rparr>\<rparr>))) (\<lambda>s.
        rbind (on_kst (close_files kend (ofile (kproc s))) s) (\<lambda>s.
        rbind (on_kst (on_fs fs_begin) s) (\<lambda>s.
        rbind (case cwd (kproc s) of None \<Rightarrow> Inl Fault | Some ip \<Rightarrow> on_kst (on_fs (iput ip)) s) (\<lambda>s.
        rbind (on_kst (on_fs fs_end) s) (\<lambda>s.
        rbind (exit_zombie (kcur s) (exit_close (kcur s) (kpt s))) (\<lambda>t. Inr (s\<lparr>kpt := t\<rparr>))))))))"

definition sys_wait :: "u32 \<Rightarrow> kcall" where
  "sys_wait kend s = (case wait_scan (kcur s) (kpt s) of
     (Reaped p i, t) \<Rightarrow>
       rbind (kfree kend (kstack (procs (kpt s) ! i)) (fkm (kst s))) (\<lambda>k.
       rbind (freevm kend (pgdir (procs (kpt s) ! i)) k) (\<lambda>k.
         Inr (of_int p, s\<lparr>kpt := t, kst := (kst s)\<lparr>fkm := k\<rparr>\<rparr>)))
   | (NoChildren, t) \<Rightarrow> neg1 s
   | (WaitSleeps, t) \<Rightarrow> Inl Blocked)"

definition sys_kill :: kcall where
  "sys_kill s = (case argint s 0 of None \<Rightarrow> neg1 s
     | Some n \<Rightarrow> let (r, t) = kill (sint n) (kpt s) in Inr (of_int r, s\<lparr>kpt := t\<rparr>))"

definition sys_getpid :: kcall where
  "sys_getpid s = Inr (of_int (pid (kproc s)), s)"

definition sys_sbrk :: "u32 \<Rightarrow> kcall" where
  "sys_sbrk kend s = (case argint s 0 of None \<Rightarrow> neg1 s
     | Some n \<Rightarrow> let addr = sz (kproc s) in
         rbind (growproc kend (kcur s) n (fkm (kst s)) (kpt s)) (\<lambda>(ok, k, t).
           Inr (if ok then addr else - 1, s\<lparr>kpt := t, kst := (kst s)\<lparr>fkm := k\<rparr>\<rparr>)))"

text \<open>
  The loop of \<open>sys_sleep\<close> at one of its tests, \<open>t0\<close> being \<open>ticks0\<close>: the
  comparison of the unsigned difference with the \<open>int\<close> is unsigned.
\<close>

definition sleep_test :: "u32 \<Rightarrow> u32 \<Rightarrow> kcall" where
  "sleep_test n t0 s =
     (if kticks s - t0 < n then (if Proc.killed (kproc s) then neg1 s else Inl Blocked) else Inr (0, s))"

definition sys_sleep :: kcall where
  "sys_sleep s = (case argint s 0 of None \<Rightarrow> neg1 s | Some n \<Rightarrow> sleep_test n (kticks s) s)"

definition sys_uptime :: kcall where
  "sys_uptime s = Inr (kticks s, s)"

definition sys_alarm :: kcall where
  "sys_alarm s = (case argint s 0 of None \<Rightarrow> neg1 s
     | Some n \<Rightarrow> (case argptr s 1 4 of None \<Rightarrow> neg1 s
       | Some h \<Rightarrow> Inr (0, kset (\<lambda>p. p\<lparr>alarm_interval := sint n, alarm_ticks := 0, alarm_handler := h,
           alarm_in_handler := False\<rparr>) s)))"

end
