(* ===== verification/Sysfile.thy ===== *)
theory Sysfile
  imports Syscall
begin

text \<open>
  The file system calls (sysfile.c). What happens between \<open>begin_op\<close> and \<open>end_op\<close> is a function
  on the file system, which each call brackets. A name buffer on the stack starts
  as anything, here zeros: only what \<open>skipelem\<close> writes to it is used.
\<close>

definition O_WRONLY :: u32 where "O_WRONLY = 1"
definition O_RDWR :: u32 where "O_RDWR = 2"
definition O_CREATE :: u32 where "O_CREATE = 0x200"

definition name_buf :: "u8 list" where
  "name_buf = replicate DIRSIZ 0"

abbreviation dot :: "u8 list" where "dot \<equiv> [46]"
abbreviation dotdot :: "u8 list" where "dotdot \<equiv> [46, 46]"

section \<open>Descriptors\<close>

definition argfd :: "ksys \<Rightarrow> nat \<Rightarrow> (nat \<times> nat) option" where
  "argfd s n = (case argint s n of None \<Rightarrow> None
     | Some fd \<Rightarrow> if fd <s 0 \<or> of_nat NOFILE \<le>s fd then None
         else map_option (\<lambda>f. (unat fd, f)) (ofile (kproc s) ! unat fd))"

definition fdalloc :: "nat \<Rightarrow> ksys \<Rightarrow> (nat \<times> ksys) option" where
  "fdalloc f s = (case first_index (\<lambda>x. x = None) (ofile (kproc s)) of
     None \<Rightarrow> None
   | Some fd \<Rightarrow> Some (fd, kset (\<lambda>p. p\<lparr>ofile := (ofile p)[fd := Some f]\<rparr>) s))"

definition fdfree :: "nat \<Rightarrow> ksys \<Rightarrow> ksys" where
  "fdfree fd s = kset (\<lambda>p. p\<lparr>ofile := (ofile p)[fd := None]\<rparr>) s"

definition sys_dup :: kcall where
  "sys_dup s = (case argfd s 0 of None \<Rightarrow> neg1 s
     | Some (_, f) \<Rightarrow> (case fdalloc f s of None \<Rightarrow> neg1 s
       | Some (fd, s) \<Rightarrow> rbind (on_kst (filedup f) s) (\<lambda>s. Inr (of_nat fd, s))))"

definition sys_read :: "dev_read \<Rightarrow> kcall" where
  "sys_read dsr s = (case (argfd s 0, argint s 2) of
     (Some (_, f), Some n) \<Rightarrow> (case argptr s 1 n of None \<Rightarrow> neg1 s
       | Some p \<Rightarrow> rbind (on_kst2 (fileread dsr (Proc.killed (kproc s)) f (unat n)) s) (\<lambda>(r, s).
           case r of None \<Rightarrow> neg1 s | Some bs \<Rightarrow> Inr (of_nat (length bs), kput p bs s)))
   | _ \<Rightarrow> neg1 s)"

definition sys_write :: "dev_write \<Rightarrow> kcall" where
  "sys_write dsw s = (case (argfd s 0, argint s 2) of
     (Some (_, f), Some n) \<Rightarrow> (case argptr s 1 n of None \<Rightarrow> neg1 s
       | Some p \<Rightarrow> rbind (on_kst2 (filewrite dsw (Proc.killed (kproc s)) f (ustring s (p, unat n))) s) (\<lambda>(r, s).
           case r of None \<Rightarrow> neg1 s | Some k \<Rightarrow> Inr (of_nat k, s)))
   | _ \<Rightarrow> neg1 s)"

definition sys_close :: "u32 \<Rightarrow> kcall" where
  "sys_close kend s = (case argfd s 0 of None \<Rightarrow> neg1 s
     | Some (fd, f) \<Rightarrow> rbind (on_kst (fileclose kend f) (fdfree fd s)) (\<lambda>s. Inr (0, s)))"

text \<open>\<open>struct stat\<close> as the 20 bytes the compiler lays out; the two padding bytes keep their value.\<close>

definition put_stat :: "u32 \<Rightarrow> stat \<Rightarrow> ksys \<Rightarrow> ksys" where
  "put_stat a x s = kput a (put32 16 (st_size x) (put16 12 (st_nlink x) (put32 8 (st_ino x) (put32 4 (st_dev x)
     (put16 0 (st_type x) (ustring s (a, 20))))))) s"

definition sys_fstat :: kcall where
  "sys_fstat s = (case (argfd s 0, argptr s 1 20) of
     (Some (_, f), Some a) \<Rightarrow> rbind (on_kst2 (filestat f) s) (\<lambda>(r, s).
       case r of None \<Rightarrow> neg1 s | Some x \<Rightarrow> Inr (0, put_stat a x s))
   | _ \<Rightarrow> neg1 s)"

section \<open>Links\<close>

text \<open>The end \<open>bad\<close> of \<open>sys_link\<close>.\<close>

definition set_nlink :: "nat \<Rightarrow> u16 \<Rightarrow> Fs.fs \<Rightarrow> Fs.fs res" where
  "set_nlink ip d s = iupdate ip (iset ip (\<lambda>p. p\<lparr>inlink := inlink p + d\<rparr>) s)"

definition link_bad :: "nat \<Rightarrow> Fs.fs \<Rightarrow> (bool \<times> Fs.fs) res" where
  "link_bad ip s = rbind (ilock ip s) (\<lambda>s. rbind (set_nlink ip (- 1) s) (\<lambda>s.
     rbind (iunlockput ip s) (\<lambda>s. Inr (False, s))))"

definition link_body :: "nat \<Rightarrow> u8 list \<Rightarrow> u8 list \<Rightarrow> Fs.fs \<Rightarrow> (bool \<times> Fs.fs) res" where
  "link_body wd old new s = rbind (namei wd old name_buf s) (\<lambda>(r, _, s).
     case r of None \<Rightarrow> Inr (False, s)
     | Some ip \<Rightarrow> rbind (ilock ip s) (\<lambda>s.
         if itype (the_ip s ip) = T_DIR then rbind (iunlockput ip s) (\<lambda>s. Inr (False, s))
         else rbind (set_nlink ip 1 s) (\<lambda>s. rbind (iunlock ip s) (\<lambda>s.
           rbind (nameiparent wd new name_buf s) (\<lambda>(r, name, s).
           case r of None \<Rightarrow> link_bad ip s
           | Some dp \<Rightarrow> rbind (ilock dp s) (\<lambda>s.
               rbind (if idev (the_ip s dp) \<noteq> idev (the_ip s ip) then Inr (- 1, s)
                      else dirlink dp name (inum (the_ip s ip)) s) (\<lambda>(r, s).
               rbind (iunlockput dp s) (\<lambda>s.
                 if r < 0 then link_bad ip s else rbind (iput ip s) (\<lambda>s. Inr (True, s))))))))))"

fun isdirempty_loop :: "nat \<Rightarrow> nat list \<Rightarrow> Fs.fs \<Rightarrow> (bool \<times> Fs.fs) res" where
  "isdirempty_loop dp [] s = Inr (True, s)"
| "isdirempty_loop dp (off # offs) s = rbind (read_dirent dp off ''isdirempty: readi'' s) (\<lambda>(de, s).
     if d_inum de \<noteq> 0 then Inr (False, s) else isdirempty_loop dp offs s)"

definition isdirempty :: "nat \<Rightarrow> Fs.fs \<Rightarrow> (bool \<times> Fs.fs) res" where
  "isdirempty dp s = isdirempty_loop dp (drop 2 (dir_offs (unat (isize (the_ip s dp))))) s"

text \<open>From the checks of \<open>sys_unlink\<close> on, with the entry at \<open>off\<close> found.\<close>

definition unlink_entry :: "nat \<Rightarrow> nat \<Rightarrow> nat \<Rightarrow> Fs.fs \<Rightarrow> (bool \<times> Fs.fs) res" where
  "unlink_entry dp ip off s = rbind (ilock ip s) (\<lambda>s.
     if inlink (the_ip s ip) <s 1 then Inl (Panic ''unlink: nlink < 1'')
     else rbind (if itype (the_ip s ip) = T_DIR then isdirempty ip s else Inr (True, s)) (\<lambda>(ok, s).
       if \<not> ok then rbind (iunlockput ip s) (\<lambda>s. rbind (iunlockput dp s) (\<lambda>s. Inr (False, s)))
       else rbind (writei (\<lambda>_. None) dp (replicate 16 0) (of_nat off) s) (\<lambda>(w, s).
         if w \<noteq> Some 16 then Inl (Panic ''unlink: writei'')
         else rbind (if itype (the_ip s ip) = T_DIR then set_nlink dp (- 1) s else Inr s) (\<lambda>s.
           rbind (iunlockput dp s) (\<lambda>s. rbind (set_nlink ip (- 1) s) (\<lambda>s.
           rbind (iunlockput ip s) (\<lambda>s. Inr (True, s))))))))"

definition unlink_body :: "nat \<Rightarrow> u8 list \<Rightarrow> Fs.fs \<Rightarrow> (bool \<times> Fs.fs) res" where
  "unlink_body wd path s = rbind (nameiparent wd path name_buf s) (\<lambda>(r, name, s).
     case r of None \<Rightarrow> Inr (False, s)
     | Some dp \<Rightarrow> rbind (ilock dp s) (\<lambda>s.
         if namecmp name dot = 0 \<or> namecmp name dotdot = 0
         then rbind (iunlockput dp s) (\<lambda>s. Inr (False, s))
         else rbind (dirlookup dp name s) (\<lambda>(r, s).
           case r of None \<Rightarrow> rbind (iunlockput dp s) (\<lambda>s. Inr (False, s))
           | Some (ip, off) \<Rightarrow> unlink_entry dp ip off s)))"

section \<open>Creation\<close>

text \<open>The entries "." and ".." of a new directory.\<close>

definition create_dots :: "nat \<Rightarrow> nat \<Rightarrow> Fs.fs \<Rightarrow> Fs.fs res" where
  "create_dots dp ip s = rbind (set_nlink dp 1 s) (\<lambda>s.
     rbind (dirlink ip dot (inum (the_ip s ip)) s) (\<lambda>(r, s).
     if r < 0 then Inl (Panic ''create dots'')
     else rbind (dirlink ip dotdot (inum (the_ip s dp)) s) (\<lambda>(r, s).
       if r < 0 then Inl (Panic ''create dots'') else Inr s)))"

definition create_new :: "nat \<Rightarrow> u8 list \<Rightarrow> u16 \<Rightarrow> u16 \<Rightarrow> u16 \<Rightarrow> Fs.fs \<Rightarrow> (nat option \<times> Fs.fs) res" where
  "create_new dp name ty ma mi s = rbind (ialloc (idev (the_ip s dp)) ty s) (\<lambda>(ip, s).
     rbind (ilock ip s) (\<lambda>s.
     rbind (iupdate ip (iset ip (\<lambda>p. p\<lparr>imajor := ma, iminor := mi, inlink := 1\<rparr>) s)) (\<lambda>s.
     rbind (if ty = T_DIR then create_dots dp ip s else Inr s) (\<lambda>s.
     rbind (dirlink dp name (inum (the_ip s ip)) s) (\<lambda>(r, s).
     if r < 0 then Inl (Panic ''create: dirlink'')
     else rbind (iunlockput dp s) (\<lambda>s. Inr (Some ip, s)))))))"

definition create :: "nat \<Rightarrow> u8 list \<Rightarrow> u16 \<Rightarrow> u16 \<Rightarrow> u16 \<Rightarrow> Fs.fs \<Rightarrow> (nat option \<times> Fs.fs) res" where
  "create wd path ty ma mi s = rbind (nameiparent wd path name_buf s) (\<lambda>(r, name, s).
     case r of None \<Rightarrow> Inr (None, s)
     | Some dp \<Rightarrow> rbind (ilock dp s) (\<lambda>s. rbind (dirlookup dp name s) (\<lambda>(r, s).
         case r of Some (ip, _) \<Rightarrow> rbind (iunlockput dp s) (\<lambda>s. rbind (ilock ip s) (\<lambda>s.
             if ty = T_FILE \<and> itype (the_ip s ip) = T_FILE then Inr (Some ip, s)
             else rbind (iunlockput ip s) (\<lambda>s. Inr (None, s))))
         | None \<Rightarrow> create_new dp name ty ma mi s)))"

section \<open>The system calls\<close>

definition kfs :: "(Fs.fs \<Rightarrow> Fs.fs res) \<Rightarrow> ksys \<Rightarrow> ksys res" where
  "kfs g = on_kst (on_fs g)"

definition kfs2 :: "(Fs.fs \<Rightarrow> ('a \<times> Fs.fs) res) \<Rightarrow> ksys \<Rightarrow> ('a \<times> ksys) res" where
  "kfs2 g = on_kst2 (on_fs2 g)"

text \<open>A transaction whose body tells 0 or -1.\<close>

definition transaction :: "(Fs.fs \<Rightarrow> (bool \<times> Fs.fs) res) \<Rightarrow> kcall" where
  "transaction g s = rbind (kfs fs_begin s) (\<lambda>s. rbind (kfs2 g s) (\<lambda>(ok, s). rbind (kfs fs_end s) (\<lambda>s.
     Inr (if ok then 0 else - 1, s))))"

definition wd_of :: "ksys \<Rightarrow> nat" where
  "wd_of s = the (cwd (kproc s))"

definition sys_link :: kcall where
  "sys_link s = (case (argstr s 0, argstr s 1) of
     (Some old, Some new) \<Rightarrow> transaction (link_body (wd_of s) (ustring s old) (ustring s new)) s
   | _ \<Rightarrow> neg1 s)"

definition sys_unlink :: kcall where
  "sys_unlink s = (case argstr s 0 of None \<Rightarrow> neg1 s
     | Some path \<Rightarrow> transaction (unlink_body (wd_of s) (ustring s path)) s)"

text \<open>What \<open>sys_open\<close> finds under the path: the inode, locked.\<close>

definition open_ip :: "nat \<Rightarrow> u8 list \<Rightarrow> u32 \<Rightarrow> Fs.fs \<Rightarrow> (nat option \<times> Fs.fs) res" where
  "open_ip wd path omode s =
     (if omode AND O_CREATE \<noteq> 0 then create wd path T_FILE 0 0 s
      else rbind (namei wd path name_buf s) (\<lambda>(r, _, s).
        case r of None \<Rightarrow> Inr (None, s)
        | Some ip \<Rightarrow> rbind (ilock ip s) (\<lambda>s.
            if itype (the_ip s ip) = T_DIR \<and> omode \<noteq> 0 then rbind (iunlockput ip s) (\<lambda>s. Inr (None, s))
            else Inr (Some ip, s))))"

definition open_file :: "nat \<Rightarrow> u32 \<Rightarrow> kfile \<Rightarrow> kfile" where
  "open_file ip omode x = x\<lparr>ftype := FD_INODE, fip := ip, foff := 0, freadable := (omode AND O_WRONLY = 0),
     fwritable := (omode AND O_WRONLY \<noteq> 0 \<or> omode AND O_RDWR \<noteq> 0)\<rparr>"

text \<open>No file or no descriptor: the file allocated, if any, is closed again.\<close>

definition open_fails :: "u32 \<Rightarrow> nat \<Rightarrow> nat option \<Rightarrow> kcall" where
  "open_fails kend ip f s = rbind (case f of None \<Rightarrow> Inr s | Some f \<Rightarrow> on_kst (fileclose kend f) s) (\<lambda>s.
     rbind (kfs (iunlockput ip) s) (\<lambda>s. rbind (kfs fs_end s) neg1))"

definition sys_open :: "u32 \<Rightarrow> kcall" where
  "sys_open kend s = (case (argstr s 0, argint s 1) of
     (Some path, Some omode) \<Rightarrow> rbind (kfs fs_begin s) (\<lambda>s.
       rbind (kfs2 (open_ip (wd_of s) (ustring s path) omode) s) (\<lambda>(r, s).
       case r of None \<Rightarrow> rbind (kfs fs_end s) neg1
       | Some ip \<Rightarrow> (case filealloc (kst s) of
           None \<Rightarrow> open_fails kend ip None s
         | Some (f, x) \<Rightarrow> (case fdalloc f (s\<lparr>kst := x\<rparr>) of
             None \<Rightarrow> open_fails kend ip (Some f) (s\<lparr>kst := x\<rparr>)
           | Some (fd, s) \<Rightarrow> rbind (kfs (iunlock ip) s) (\<lambda>s. rbind (kfs fs_end s) (\<lambda>s.
               Inr (of_nat fd, s\<lparr>kst := fset f (open_file ip omode) (kst s)\<rparr>)))))))
   | _ \<Rightarrow> neg1 s)"

definition create_body :: "nat \<Rightarrow> u8 list \<Rightarrow> u16 \<Rightarrow> u16 \<Rightarrow> u16 \<Rightarrow> Fs.fs \<Rightarrow> (bool \<times> Fs.fs) res" where
  "create_body wd path ty ma mi s = rbind (create wd path ty ma mi s) (\<lambda>(r, s).
     case r of None \<Rightarrow> Inr (False, s) | Some ip \<Rightarrow> rbind (iunlockput ip s) (\<lambda>s. Inr (True, s)))"

definition sys_mkdir :: kcall where
  "sys_mkdir s = transaction (\<lambda>x. case argstr s 0 of None \<Rightarrow> Inr (False, x)
     | Some path \<Rightarrow> create_body (wd_of s) (ustring s path) T_DIR 0 0 x) s"

definition sys_mknod :: kcall where
  "sys_mknod s = transaction (\<lambda>x. case (argstr s 0, argint s 1, argint s 2) of
     (Some path, Some ma, Some mi) \<Rightarrow> create_body (wd_of s) (ustring s path) T_DEV (ucast ma) (ucast mi) x
   | _ \<Rightarrow> Inr (False, x)) s"

definition chdir_body :: "nat \<Rightarrow> u8 list \<Rightarrow> Fs.fs \<Rightarrow> (nat option \<times> Fs.fs) res" where
  "chdir_body wd path s = rbind (namei wd path name_buf s) (\<lambda>(r, _, s).
     case r of None \<Rightarrow> Inr (None, s)
     | Some ip \<Rightarrow> rbind (ilock ip s) (\<lambda>s.
         if itype (the_ip s ip) \<noteq> T_DIR then rbind (iunlockput ip s) (\<lambda>s. Inr (None, s))
         else rbind (iunlock ip s) (\<lambda>s. rbind (iput wd s) (\<lambda>s. Inr (Some ip, s)))))"

definition sys_chdir :: kcall where
  "sys_chdir s = rbind (kfs fs_begin s) (\<lambda>s.
     case argstr s 0 of None \<Rightarrow> rbind (kfs fs_end s) neg1
     | Some path \<Rightarrow> rbind (kfs2 (chdir_body (wd_of s) (ustring s path)) s) (\<lambda>(r, s).
         rbind (kfs fs_end s) (\<lambda>s.
           case r of None \<Rightarrow> neg1 s | Some ip \<Rightarrow> Inr (0, kset (\<lambda>p. p\<lparr>cwd := Some ip\<rparr>) s))))"

definition pipe_fails :: "u32 \<Rightarrow> nat \<Rightarrow> nat \<Rightarrow> kcall" where
  "pipe_fails kend rf wr s = rbind (on_kst (fileclose kend rf) s) (\<lambda>s. rbind (on_kst (fileclose kend wr) s) neg1)"

definition sys_pipe :: "u32 \<Rightarrow> kcall" where
  "sys_pipe kend s = (case argptr s 0 8 of None \<Rightarrow> neg1 s
     | Some a \<Rightarrow> rbind (on_kst2 (pipealloc kend) s) (\<lambda>(r, s).
         case r of None \<Rightarrow> neg1 s
         | Some (rf, wr) \<Rightarrow> (case fdalloc rf s of None \<Rightarrow> pipe_fails kend rf wr s
           | Some (fd0, s) \<Rightarrow> (case fdalloc wr s of None \<Rightarrow> pipe_fails kend rf wr (fdfree fd0 s)
             | Some (fd1, s) \<Rightarrow>
                 Inr (0, kput a (put32 4 (of_nat fd1) (put32 0 (of_nat fd0) (replicate 8 0))) s)))))"

end
