(* ===== verification/Exec.thy ===== *)
theory Exec
  imports Sysfile
begin

text \<open>
  \<open>exec\<close> (exec.c, \<open>loaduvm\<close> of vm.c, \<open>sys_exec\<close>). The program is read from its inode into a new
  page table, the arguments are pushed on its stack, and only then the process takes the
  new image over. Argument strings are the bytes they hold when the call starts.
\<close>

definition ELF_MAGIC :: u32 where "ELF_MAGIC = 0x464C457F"
definition ELF_PROG_LOAD :: u32 where "ELF_PROG_LOAD = 1"
definition MAXARG :: nat where "MAXARG = 32"

record elfhdr =
  e_magic :: u32
  e_entry :: u32
  e_phoff :: u32
  e_phnum :: u16

record proghdr =
  ph_type :: u32
  ph_off :: u32
  ph_vaddr :: u32
  ph_filesz :: u32
  ph_memsz :: u32

text \<open>The fields \<open>exec\<close> uses, at their offsets in the 52 and 32 bytes of the headers.\<close>

definition elf_of :: "u8 list \<Rightarrow> elfhdr" where
  "elf_of b = \<lparr>e_magic = get32 b 0, e_entry = get32 b 24, e_phoff = get32 b 28, e_phnum = get16 b 44\<rparr>"

definition ph_of :: "u8 list \<Rightarrow> proghdr" where
  "ph_of b = \<lparr>ph_type = get32 b 0, ph_off = get32 b 4, ph_vaddr = get32 b 8, ph_filesz = get32 b 16, ph_memsz = get32 b 20\<rparr>"

text \<open>Bytes stored in kernel memory.\<close>

fun kput_bytes :: "u32 \<Rightarrow> u8 list \<Rightarrow> mem \<Rightarrow> mem" where
  "kput_bytes a [] m = m"
| "kput_bytes a (b # bs) m = kput_bytes (a + 1) bs (m(a := b))"

text \<open>A short or failed read is \<open>None\<close>.\<close>

definition read_exact :: "dev_read \<Rightarrow> nat \<Rightarrow> u32 \<Rightarrow> u32 \<Rightarrow> Fs.fs \<Rightarrow> (u8 list option \<times> Fs.fs) res" where
  "read_exact dsr ip off n s = rbind (readi dsr ip off n s) (\<lambda>(r, s).
     Inr (case r of None \<Rightarrow> None | Some bs \<Rightarrow> if length bs = unat n then Some bs else None, s))"

fun loaduvm_loop :: "nat \<Rightarrow> dev_read \<Rightarrow> u32 \<Rightarrow> u32 \<Rightarrow> nat \<Rightarrow> u32 \<Rightarrow> u32 \<Rightarrow> u32 \<Rightarrow> Fs.fs \<Rightarrow> kmem
    \<Rightarrow> (bool \<times> Fs.fs \<times> kmem) res" where
  "loaduvm_loop 0 dsr pd addr ip offset n i s k = Inl OutOfFuel"
| "loaduvm_loop (Suc fuel) dsr pd addr ip offset n i s k =
     (if i < n
      then let (pte, k) = walkpgdir pd (addr + i) False k in
        if pte = 0 then Inl (Panic ''loaduvm: address should exist'')
        else let pa = PTE_ADDR (load32 (kbytes k) pte); m = (if n - i < PGSIZE then n - i else PGSIZE) in
          rbind (read_exact dsr ip (offset + i) m s) (\<lambda>(r, s).
            case r of None \<Rightarrow> Inr (False, s, k)
            | Some bs \<Rightarrow> loaduvm_loop fuel dsr pd addr ip offset n (i + PGSIZE) s
                (k\<lparr>kbytes := kput_bytes (P2V pa) bs (kbytes k)\<rparr>))
      else Inr (True, s, k))"

definition loaduvm :: "dev_read \<Rightarrow> u32 \<Rightarrow> u32 \<Rightarrow> nat \<Rightarrow> u32 \<Rightarrow> u32 \<Rightarrow> Fs.fs \<Rightarrow> kmem \<Rightarrow> (bool \<times> Fs.fs \<times> kmem) res" where
  "loaduvm dsr pd addr ip offset n s k =
     (if addr mod PGSIZE \<noteq> 0 then Inl (Panic ''loaduvm: addr must be page aligned'')
      else loaduvm_loop page_fuel dsr pd addr ip offset n 0 s k)"

text \<open>The loop over the program headers; \<open>None\<close> is \<open>goto bad\<close>.\<close>

fun exec_segs :: "dev_read \<Rightarrow> u32 \<Rightarrow> nat \<Rightarrow> u32 \<Rightarrow> nat \<Rightarrow> u32 \<Rightarrow> u32 \<Rightarrow> Fs.fs \<Rightarrow> kmem
    \<Rightarrow> (u32 option \<times> Fs.fs \<times> kmem) res" where
  "exec_segs dsr kend ip pd 0 off z s k = Inr (Some z, s, k)"
| "exec_segs dsr kend ip pd (Suc n) off z s k = rbind (read_exact dsr ip off 32 s) (\<lambda>(r, s).
     case r of None \<Rightarrow> Inr (None, s, k)
     | Some b \<Rightarrow> let ph = ph_of b in
         if ph_type ph \<noteq> ELF_PROG_LOAD then exec_segs dsr kend ip pd n (off + 32) z s k
         else if ph_memsz ph < ph_filesz ph \<or> ph_vaddr ph + ph_memsz ph < ph_vaddr ph then Inr (None, s, k)
         else rbind (allocuvm kend pd z (ph_vaddr ph + ph_memsz ph) k) (\<lambda>(z, k).
           if z = 0 \<or> ph_vaddr ph mod PGSIZE \<noteq> 0 then Inr (None, s, k)
           else rbind (loaduvm dsr pd (ph_vaddr ph) ip (ph_off ph) (ph_filesz ph) s k) (\<lambda>(ok, s, k).
             if \<not> ok then Inr (None, s, k) else exec_segs dsr kend ip pd n (off + 32) z s k)))"

text \<open>
  From the header to the last segment: the page table, 0 where there is none yet,
  and the size and entry point, \<open>None\<close> for \<open>goto bad\<close>.
\<close>

definition exec_load :: "dev_read \<Rightarrow> u32 \<Rightarrow> u32 \<Rightarrow> nat \<Rightarrow> Fs.fs \<Rightarrow> kmem
    \<Rightarrow> (u32 \<times> (u32 \<times> u32) option \<times> Fs.fs \<times> kmem) res" where
  "exec_load dsr kend kdata ip s k = rbind (read_exact dsr ip 0 52 s) (\<lambda>(r, s).
     case r of None \<Rightarrow> Inr (0, None, s, k)
     | Some b \<Rightarrow> let e = elf_of b in
         if e_magic e \<noteq> ELF_MAGIC then Inr (0, None, s, k)
         else rbind (setupkvm kend kdata k) (\<lambda>(pd, k).
           if pd = 0 then Inr (0, None, s, k)
           else rbind (exec_segs dsr kend ip pd (unat (e_phnum e)) (e_phoff e) 0 s k) (\<lambda>(z, s, k).
             Inr (pd, map_option (\<lambda>z. (z, e_entry e)) z, s, k))))"

text \<open>\<open>copyout\<close> of given bytes: the parts of the pages, one after the other.\<close>

function copyout_bytes :: "u32 \<Rightarrow> u32 \<Rightarrow> u8 list \<Rightarrow> kmem \<Rightarrow> (bool \<times> kmem) res" where
  "copyout_bytes pd va bs k =
     (if bs = [] then Inr (True, k)
      else let va0 = PGROUNDDOWN va in
        rbind (uva2ka pd va0 k) (\<lambda>pa0.
          if pa0 = 0 then Inr (False, k)
          else let n = min (unat (PGSIZE - (va - va0))) (length bs)
               in copyout_bytes pd (va0 + PGSIZE) (drop n bs)
                    (k\<lparr>kbytes := kput_bytes (pa0 + (va - va0)) (take n bs) (kbytes k)\<rparr>)))"
  by pat_completeness auto

termination
proof (relation "measure (\<lambda>(pd, va, bs, k). length bs)", simp)
  fix pd va :: u32 and bs :: "u8 list" and k :: kmem and va0 pa0 n
  assume a: "bs \<noteq> []" "va0 = PGROUNDDOWN va" "n = min (unat (PGSIZE - (va - va0))) (length bs)"
  have "va - va0 < PGSIZE" unfolding a(2) by (rule PGROUNDDOWN_offset)
  then have "0 < unat (PGSIZE - (va - va0))" by (auto simp: unat_gt_0)
  then show "((pd, va0 + PGSIZE, drop n bs, k\<lparr>kbytes := kput_bytes (pa0 + (va - va0)) (take n bs) (kbytes k)\<rparr>), pd, va, bs, k)
      \<in> measure (\<lambda>(pd, va, bs, k). length bs)"
    using a(1,3) by simp
qed

declare copyout_bytes.simps [simp del]

text \<open>The argument strings, from the top of the stack down; \<open>None\<close> is \<open>goto bad\<close>.\<close>

fun push_args :: "u32 \<Rightarrow> nat \<Rightarrow> u8 list list \<Rightarrow> u32 \<Rightarrow> kmem \<Rightarrow> ((u32 \<times> u32 list) option \<times> kmem) res" where
  "push_args pd argc [] sp k = Inr (Some (sp, []), k)"
| "push_args pd argc (a # as) sp k =
     (if argc \<ge> MAXARG then Inr (None, k)
      else let sp = (sp - of_nat (length a + 1)) AND NOT 3 in
        rbind (copyout_bytes pd sp (a @ [0]) k) (\<lambda>(ok, k).
          if \<not> ok then Inr (None, k)
          else rbind (push_args pd (argc + 1) as sp k) (\<lambda>(r, k).
            Inr (map_option (\<lambda>(sp', ps). (sp', sp # ps)) r, k))))"

text \<open>\<open>ustack\<close>: the return address, \<open>argc\<close>, \<open>argv\<close> and the pointers with the final 0.\<close>

definition ustack :: "u32 \<Rightarrow> u32 list \<Rightarrow> u32 list" where
  "ustack sp ps = 0xFFFFFFFF # of_nat (length ps) # (sp - of_nat ((length ps + 1) * 4)) # ps @ [0]"

definition word_bytes :: "u32 list \<Rightarrow> u8 list" where
  "word_bytes ws = put32s 0 ws (replicate (4 * length ws) 0)"

text \<open>The stack pages and what goes on them: the size and the stack pointer.\<close>

definition exec_stack :: "u32 \<Rightarrow> u32 \<Rightarrow> u32 \<Rightarrow> u8 list list \<Rightarrow> kmem \<Rightarrow> ((u32 \<times> u32) option \<times> kmem) res" where
  "exec_stack kend pd z argv k =
     (let z = PGROUNDUP z in
      rbind (allocuvm kend pd z (z + 2 * PGSIZE) k) (\<lambda>(z, k).
        if z = 0 then Inr (None, k)
        else rbind (clearpteu pd (z - 2 * PGSIZE) k) (\<lambda>k.
          rbind (push_args pd 0 argv z k) (\<lambda>(r, k).
            case r of None \<Rightarrow> Inr (None, k)
            | Some (sp, ps) \<Rightarrow>
                let sp' = sp - of_nat ((3 + length ps + 1) * 4) in
                rbind (copyout_bytes pd sp' (word_bytes (ustack sp ps)) k) (\<lambda>(ok, k).
                  Inr (if ok then Some (z, sp') else None, k))))))"

text \<open>The program name: what follows the last slash, cut to 15 characters by \<open>safestrcpy\<close>.\<close>

definition base_name :: "u8 list \<Rightarrow> u8 list" where
  "base_name path = rev (takeWhile (\<lambda>c. c \<noteq> slash) (rev path))"

definition exec_commit :: "u32 \<Rightarrow> u32 \<Rightarrow> u32 \<Rightarrow> u32 \<Rightarrow> u8 list \<Rightarrow> proc \<Rightarrow> proc" where
  "exec_commit pd z ent sp path p = p\<lparr>pname := map (\<lambda>c. char_of (unat c)) (take 15 (base_name path)),
     pgdir := pd, sz := z, tf := (tf p)\<lparr>eip := ent, esp := sp\<rparr>\<rparr>"

definition set_kmem :: "kmem \<Rightarrow> ksys \<Rightarrow> ksys" where
  "set_kmem k s = s\<lparr>kst := (kst s)\<lparr>fkm := k\<rparr>\<rparr>"

definition exec_bad :: "u32 \<Rightarrow> u32 \<Rightarrow> nat option \<Rightarrow> kcall" where
  "exec_bad kend pd ip s = rbind (if pd = 0 then Inr s
       else rbind (freevm kend pd (fkm (kst s))) (\<lambda>k. Inr (set_kmem k s))) (\<lambda>s.
     rbind (case ip of None \<Rightarrow> Inr s | Some ip \<Rightarrow> rbind (kfs (iunlockput ip) s) (kfs fs_end)) neg1)"

definition exec :: "dev_read \<Rightarrow> u32 \<Rightarrow> u32 \<Rightarrow> u8 list \<Rightarrow> u8 list list \<Rightarrow> kcall" where
  "exec dsr kend kdata path argv s = rbind (kfs fs_begin s) (\<lambda>s.
     rbind (kfs2 (\<lambda>x. without_name (namei (wd_of s) path name_buf x)) s) (\<lambda>(r, s).
     case r of None \<Rightarrow> rbind (kfs fs_end s) neg1
     | Some ip \<Rightarrow> rbind (kfs (ilock ip) s) (\<lambda>s.
         rbind (exec_load dsr kend kdata ip (ffs (kst s)) (fkm (kst s))) (\<lambda>(pd, r, x, k).
         let s = s\<lparr>kst := (kst s)\<lparr>ffs := x, fkm := k\<rparr>\<rparr> in
         case r of None \<Rightarrow> exec_bad kend pd (Some ip) s
         | Some (z, ent) \<Rightarrow> rbind (kfs (iunlockput ip) s) (\<lambda>s. rbind (kfs fs_end s) (\<lambda>s.
             rbind (exec_stack kend pd z argv (fkm (kst s))) (\<lambda>(r, k).
             let s = set_kmem k s in
             case r of None \<Rightarrow> exec_bad kend pd None s
             | Some (z, sp) \<Rightarrow> let old = pgdir (kproc s); s = kset (exec_commit pd z ent sp path) s in
                 rbind (freevm kend old k) (\<lambda>k. Inr (0, set_kmem k s)))))))))"

text \<open>The argument vector from user memory, at most \<open>MAXARG\<close> pointers with the final 0.\<close>

fun fetch_argv :: "nat \<Rightarrow> ksys \<Rightarrow> u32 \<Rightarrow> u8 list list option" where
  "fetch_argv 0 s a = None"
| "fetch_argv (Suc n) s a = (case fetchint s a of None \<Rightarrow> None
     | Some u \<Rightarrow> if u = 0 then Some []
         else (case fetchstr s u of None \<Rightarrow> None
           | Some x \<Rightarrow> map_option (\<lambda>as. ustring s x # as) (fetch_argv n s (a + 4))))"

definition sys_exec :: "dev_read \<Rightarrow> u32 \<Rightarrow> u32 \<Rightarrow> kcall" where
  "sys_exec dsr kend kdata s = (case (argstr s 0, argint s 1) of
     (Some path, Some uargv) \<Rightarrow> (case fetch_argv MAXARG s uargv of None \<Rightarrow> neg1 s
       | Some argv \<Rightarrow> exec dsr kend kdata (ustring s path) argv s)
   | _ \<Rightarrow> neg1 s)"

end
