(* ===== verification/Trap.thy ===== *)
theory Trap
  imports Exec
begin

text \<open>
  Traps (trap.c), the dispatch of system calls (syscall.c) and the alarm. A trap from user mode
  pushes its frame at the top of the kernel stack, where \<open>p->tf\<close> points: it is the \<open>tf\<close> of the
  process. The handlers of the devices are a parameter \<open>dintr\<close>, indexed by the
  interrupt.
\<close>

definition T_SYSCALL :: u32 where "T_SYSCALL = 64"
definition T_IRQ0 :: u32 where "T_IRQ0 = 32"
definition IRQ_TIMER :: u32 where "IRQ_TIMER = 0"
definition IRQ_KBD :: u32 where "IRQ_KBD = 1"
definition IRQ_COM1 :: u32 where "IRQ_COM1 = 4"
definition IRQ_IDE :: u32 where "IRQ_IDE = 14"
definition IRQ_SPURIOUS :: u32 where "IRQ_SPURIOUS = 31"

definition from_user :: "trapframe \<Rightarrow> bool" where
  "from_user f \<longleftrightarrow> cs f AND 3 = 3"

text \<open>How a trap ends: it returns to what it interrupted, or the process gives the CPU up, or exits.\<close>

datatype trap_end = TReturn ksys | TYield ksys | TExit ksys

section \<open>syscall\<close>

text \<open>The table; entry 2 is \<open>exit\<close>, which does not return.\<close>

definition syscalls :: "dev_read \<Rightarrow> dev_write \<Rightarrow> u32 \<Rightarrow> u32 \<Rightarrow> kcall option list" where
  "syscalls dsr dsw kend kdata =
     [None, Some (sys_fork kend kdata), None, Some (sys_wait kend), Some (sys_pipe kend), Some (sys_read dsr), Some sys_kill,
      Some (sys_exec dsr kend kdata), Some sys_fstat, Some sys_chdir, Some sys_dup, Some sys_getpid,
      Some (sys_sbrk kend), Some sys_sleep, Some sys_uptime, Some (sys_open kend), Some (sys_write dsw),
      Some sys_mknod, Some sys_unlink, Some sys_link, Some sys_mkdir, Some (sys_close kend), Some sys_alarm]"

definition set_eax :: "u32 \<Rightarrow> ksys \<Rightarrow> ksys" where
  "set_eax r = kset (\<lambda>p. p\<lparr>tf := (tf p)\<lparr>eax := r\<rparr>\<rparr>)"

definition syscall :: "dev_read \<Rightarrow> dev_write \<Rightarrow> u32 \<Rightarrow> u32 \<Rightarrow> u32 \<Rightarrow> ksys \<Rightarrow> trap_end res" where
  "syscall dsr dsw kend kdata atf s =
     (let num = eax (tf (kproc s)); tab = syscalls dsr dsw kend kdata in
      if num = 2 then rbind (exit_call kend atf s) (\<lambda>s. Inr (TExit s))
      else case (if 0 <s num \<and> unat num < length tab then tab ! unat num else None) of
        Some f \<Rightarrow> rbind (f s) (\<lambda>(r, s). Inr (TReturn (set_eax r s)))
      | None \<Rightarrow> Inr (TReturn (set_eax (- 1) s)))"

section \<open>The alarm\<close>

definition restored_tf :: "trapframe \<Rightarrow> trapframe \<Rightarrow> trapframe" where
  "restored_tf a f = f\<lparr>eax := eax a, ebx := ebx a, ecx := ecx a, edx := edx a, esi := esi a, edi := edi a,
     ebp := ebp a, ds := ds a, es := es a, fs := fs a, gs := gs a\<rparr>"

text \<open>The handler has returned when the stack pointer is the saved one.\<close>

definition alarm_restore :: "proc \<Rightarrow> proc" where
  "alarm_restore p = (case alarm_tf p of
     Some a \<Rightarrow> if alarm_in_handler p \<and> esp (tf p) = esp a
       then p\<lparr>tf := restored_tf a (tf p), alarm_in_handler := False\<rparr> else p
   | None \<Rightarrow> p)"

text \<open>The page for the saved frame; \<open>None\<close> when there is none.\<close>

definition alarm_page :: "ksys \<Rightarrow> ksys option" where
  "alarm_page s = (if alarm_tf (kproc s) \<noteq> None then Some s
     else let (a, k) = kalloc (fkm (kst s)) in if a = 0 then None else Some (set_kmem k s))"

text \<open>
  A word that the kernel writes at a user address: each byte must be in a page that is there and can be written. If not,
  the store faults in the kernel, and \<open>trap\<close>, entered again for it, panics.
\<close>

definition can_store :: "ksys \<Rightarrow> u32 \<Rightarrow> bool" where
  "can_store s a =
     (let pd = pgdir (kproc s); m = kbytes (fkm (kst s)) in
      list_all (\<lambda>i. present (pte_of pd m (a + i)) \<and> pte_of pd m (a + i) AND PTE_W \<noteq> 0 \<and> pde_of pd m (PDX (a + i)) AND PTE_W \<noteq> 0) [0, 1, 2, 3])"

definition alarm_fire :: "ksys \<Rightarrow> ksys res" where
  "alarm_fire s = (case alarm_page s of None \<Rightarrow> Inr s
     | Some s \<Rightarrow> let f = tf (kproc s); sp = esp f - 4 in
         if \<not> can_store s sp then Inl (Panic ''trap'')
         else Inr (kset (\<lambda>p. p\<lparr>tf := f\<lparr>esp := sp, eip := alarm_handler p\<rparr>, alarm_tf := Some f, alarm_in_handler := True\<rparr>)
           (kput sp (word_bytes [eip f]) s)))"

definition alarm_count :: "ksys \<Rightarrow> ksys res" where
  "alarm_count s =
     (let p = kproc s in
      if \<not> alarm_in_handler p \<and> alarm_interval p > 0
      then let t = alarm_ticks p + 1 in
        if t \<ge> alarm_interval p then alarm_fire (kset (\<lambda>p. p\<lparr>alarm_ticks := 0\<rparr>) s)
        else Inr (kset (\<lambda>p. p\<lparr>alarm_ticks := t\<rparr>) s)
      else Inr s)"

text \<open>What a timer interrupt in user mode does about the alarm.\<close>

definition alarm_tick :: "ksys \<Rightarrow> ksys res" where
  "alarm_tick s = alarm_count (kset alarm_restore s)"

section \<open>trap\<close>

text \<open>\<open>cpu0\<close>: the interrupt is on the CPU that counts the ticks. \<open>run\<close>: a process runs on this CPU.\<close>

definition timer_intr :: "bool \<Rightarrow> bool \<Rightarrow> trapframe \<Rightarrow> ksys \<Rightarrow> ksys res" where
  "timer_intr cpu0 run f s =
     (let s = (if cpu0 then s\<lparr>kticks := kticks s + 1, kpt := wakeup ChTicks (kpt s)\<rparr> else s) in
      if run \<and> st (kpt s) (kcur s) = RUNNING \<and> from_user f then alarm_tick s else Inr s)"

definition default_trap :: "bool \<Rightarrow> trapframe \<Rightarrow> ksys \<Rightarrow> ksys res" where
  "default_trap run f s =
     (if \<not> run \<or> cs f AND 3 = 0 then Inl (Panic ''trap'') else Inr (kset (\<lambda>p. p\<lparr>Proc.killed := True\<rparr>) s))"

definition interrupt :: "(u32 \<Rightarrow> ksys \<Rightarrow> ksys) \<Rightarrow> bool \<Rightarrow> bool \<Rightarrow> trapframe \<Rightarrow> ksys \<Rightarrow> ksys res" where
  "interrupt dintr cpu0 run f s =
     (let n = trapno f in
      if n = T_IRQ0 + IRQ_TIMER then timer_intr cpu0 run f s
      else if n \<in> {T_IRQ0 + IRQ_IDE, T_IRQ0 + IRQ_KBD, T_IRQ0 + IRQ_COM1} then Inr (dintr n s)
      else if n \<in> {T_IRQ0 + IRQ_IDE + 1, T_IRQ0 + 7, T_IRQ0 + IRQ_SPURIOUS} then Inr s
      else default_trap run f s)"

text \<open>The end of a trap; after \<open>yield\<close> the same test is made again.\<close>

definition killed_exit :: "u32 \<Rightarrow> u32 \<Rightarrow> bool \<Rightarrow> trapframe \<Rightarrow> (ksys \<Rightarrow> trap_end res) \<Rightarrow> ksys \<Rightarrow> trap_end res" where
  "killed_exit kend atf run f k s =
     (if run \<and> Proc.killed (kproc s) \<and> from_user f then rbind (exit_call kend atf s) (\<lambda>s. Inr (TExit s)) else k s)"

definition trap :: "dev_read \<Rightarrow> dev_write \<Rightarrow> u32 \<Rightarrow> u32 \<Rightarrow> u32 \<Rightarrow> (u32 \<Rightarrow> ksys \<Rightarrow> ksys) \<Rightarrow> bool \<Rightarrow> bool \<Rightarrow> trapframe
    \<Rightarrow> ksys \<Rightarrow> trap_end res" where
  "trap dsr dsw kend kdata atf dintr cpu0 run f s =
     (let s = (if run \<and> from_user f then kset (\<lambda>p. p\<lparr>tf := f\<rparr>) s else s) in
      if trapno f = T_SYSCALL
      then if Proc.killed (kproc s) then rbind (exit_call kend atf s) (\<lambda>s. Inr (TExit s))
        else rbind (syscall dsr dsw kend kdata atf s) (\<lambda>r. case r of
            TReturn s \<Rightarrow> if Proc.killed (kproc s) then rbind (exit_call kend atf s) (\<lambda>s. Inr (TExit s)) else Inr (TReturn s)
          | _ \<Rightarrow> Inr r)
      else rbind (interrupt dintr cpu0 run f s) (\<lambda>s. killed_exit kend atf run f (\<lambda>s.
        if run \<and> st (kpt s) (kcur s) = RUNNING \<and> trapno f = T_IRQ0 + IRQ_TIMER
        then Inr (TYield (s\<lparr>kpt := yield (kcur s) (kpt s)\<rparr>)) else Inr (TReturn s)) s))"

section \<open>The bounds of system call arguments\<close>

lemma sum_in_bounds:
  fixes a b z :: u32
  assumes z: "unat z \<le> 2 ^ 31" and a: "a < z" and b: "\<not> b <s 0" and s: "a + b \<le> z"
  shows "unat a + unat b \<le> unat z" "unat b < 2 ^ 31"
proof -
  have "0 \<le> sint b" using b by (simp add: word_sless_alt)
  then show ub: "unat b < 2 ^ 31" by (rule sint_nonneg)
  have "unat a < 2 ^ 31" using a z by (simp add: word_less_nat_alt)
  then have "unat a + unat b < 2 ^ 32" using ub by simp
  then have "unat (a + b) = unat a + unat b" by (simp add: unat_word_ariths)
  then show "unat a + unat b \<le> unat z" using s by (simp add: word_le_nat_alt)
qed

text \<open>
  C17. The argument checks are safe: with a process size of at most \<open>KERNBASE\<close>, a pointer argument that
  passes \<open>argptr\<close> has its whole block below the size, without wrap-around, and a string
  argument that passes \<open>argstr\<close> ends, at its first zero byte, below the size. A string is
  refused only when it starts outside or has no end inside.
\<close>

theorem arguments_in_bounds:
  assumes z: "sz (kproc s) \<le> KERNBASE"
  shows "(\<forall>a. argptr s n len = Some a \<longrightarrow> unat a + unat len \<le> unat (sz (kproc s)) \<and> unat len < 2 ^ 31)
    \<and> (\<forall>a k. argstr s n = Some (a, k) \<longrightarrow> unat a + k < unat (sz (kproc s))
          \<and> umem s (a + of_nat k) = 0 \<and> (\<forall>j<k. umem s (a + of_nat j) \<noteq> 0))
    \<and> (\<forall>a. fetchstr s a = None \<longleftrightarrow>
          sz (kproc s) \<le> a \<or> (\<forall>j. unat a + j < unat (sz (kproc s)) \<longrightarrow> umem s (a + of_nat j) \<noteq> 0))"
proof (intro conjI allI impI)
  have z': "unat (sz (kproc s)) \<le> 2 ^ 31" using z by (simp add: KERNBASE_def word_le_nat_alt)
  fix a assume "argptr s n len = Some a"
  then show "unat a + unat len \<le> unat (sz (kproc s))" "unat len < 2 ^ 31"
    using sum_in_bounds [OF z', of a len] by (auto simp: argptr_def split: option.splits if_splits)
next
  fix a k assume "argstr s n = Some (a, k)"
  then have f: "fetchstr s a = Some (a, k)" by (auto simp: argstr_def fetchstr_def split: option.splits if_splits)
  then have lt: "a < sz (kproc s)" by (auto simp: fetchstr_def split: if_splits)
  have sub: "unat (sz (kproc s) - a) = unat (sz (kproc s)) - unat a" using lt by (simp add: unat_sub)
  have k: "k < unat (sz (kproc s) - a)" "umem s (a + of_nat k) = 0" "\<forall>j<k. umem s (a + of_nat j) \<noteq> 0"
    using f lt by (auto simp: fetchstr_def find_Some_iff split: if_splits)
  then show "unat a + k < unat (sz (kproc s))" "umem s (a + of_nat k) = 0" using sub by simp_all
  show "umem s (a + of_nat j) \<noteq> 0" if "j < k" for j using k(3) that by simp
next
  fix a
  show "fetchstr s a = None \<longleftrightarrow>
      sz (kproc s) \<le> a \<or> (\<forall>j. unat a + j < unat (sz (kproc s)) \<longrightarrow> umem s (a + of_nat j) \<noteq> 0)"
  proof (cases "sz (kproc s) \<le> a")
    case False
    then have "unat (sz (kproc s) - a) = unat (sz (kproc s)) - unat a" by (simp add: unat_sub not_le)
    then show ?thesis using False by (auto simp: fetchstr_def find_None_iff)
  qed (simp add: fetchstr_def)
qed

section \<open>The alarm, tick by tick\<close>

text \<open>The timer interrupt that finds the process in user mode with the frame \<open>f\<close>, up to the end of the \<open>switch\<close>.\<close>

definition user_tick :: "bool \<Rightarrow> trapframe \<Rightarrow> ksys \<Rightarrow> ksys res" where
  "user_tick cpu0 f s = timer_intr cpu0 True f (kset (\<lambda>p. p\<lparr>tf := f\<rparr>) s)"

text \<open>
  The alarm as a machine of its own: it counts ticks or it has started the handler from a frame. A tick gives its next
  state, the frame with which the process goes on, and whether it starts the handler. \<open>h\<close> is the handler, \<open>pg\<close>
  says whether there is a page for the frame.
\<close>

datatype alarm = Counting nat | Handling trapframe

definition alarm_counts :: "nat \<Rightarrow> u32 \<Rightarrow> bool \<Rightarrow> nat \<Rightarrow> trapframe \<Rightarrow> alarm \<times> trapframe \<times> bool" where
  "alarm_counts n h pg t f =
     (if Suc t < n then (Counting (Suc t), f, False)
      else if pg then (Handling f, f\<lparr>esp := esp f - 4, eip := h\<rparr>, True)
      else (Counting 0, f, False))"

primrec alarm_spec :: "nat \<Rightarrow> u32 \<Rightarrow> bool \<Rightarrow> alarm \<Rightarrow> trapframe \<Rightarrow> alarm \<times> trapframe \<times> bool" where
  "alarm_spec n h pg (Counting t) f = alarm_counts n h pg t f"
| "alarm_spec n h pg (Handling a) f =
     (if esp f = esp a then alarm_counts n h pg 0 (restored_tf a f) else (Handling a, f, False))"


text \<open>A process that has called \<open>alarm (n, h)\<close>, with the machine in the state \<open>a\<close>.\<close>

definition alarm_is :: "nat \<Rightarrow> u32 \<Rightarrow> alarm \<Rightarrow> ksys \<Rightarrow> bool" where
  "alarm_is n h a s \<longleftrightarrow> kcur s < length (procs (kpt s)) \<and> st (kpt s) (kcur s) = RUNNING \<and> 0 < n \<and>
     alarm_interval (kproc s) = int n \<and> alarm_handler (kproc s) = h \<and>
     (case a of Counting t \<Rightarrow> t < n \<and> alarm_ticks (kproc s) = int t \<and> \<not> alarm_in_handler (kproc s)
      | Handling f \<Rightarrow> alarm_ticks (kproc s) = 0 \<and> alarm_in_handler (kproc s) \<and> alarm_tf (kproc s) = Some f)"



lemma kset_simps [simp]:
  "kcur (kset f s) = kcur s" "kst (kset f s) = kst s" "kticks (kset f s) = kticks s"
  "length (procs (kpt (kset f s))) = length (procs (kpt s))"
  "i < length (procs (kpt s)) \<Longrightarrow> procs (kpt (kset f s)) ! i = (if i = kcur s then f (procs (kpt s) ! i) else procs (kpt s) ! i)"
  by (simp_all add: kset_def upd_def)

lemma kset_id: "f (kproc s) = kproc s \<Longrightarrow> kset f s = s"
  by (simp add: kset_def upd_def)

lemma kput_simps [simp]: "kcur (kput a bs s) = kcur s" "kpt (kput a bs s) = kpt s"
  by (simp_all add: kput_def)

lemma kput_cong: "kst s = kst t \<Longrightarrow> pgdir (kproc s) = pgdir (kproc t) \<Longrightarrow> kst (kput a bs s) = kst (kput a bs t)"
  by (simp add: kput_def)

lemma set_kmem_simps [simp]: "kcur (set_kmem k s) = kcur s" "kpt (set_kmem k s) = kpt s"
  by (simp_all add: set_kmem_def)

lemma alarm_page_keeps: "alarm_page s = Some t \<Longrightarrow> kcur t = kcur s \<and> kpt t = kpt s \<and> kbytes (fkm (kst t)) = kbytes (fkm (kst s))"
  by (auto simp: alarm_page_def set_kmem_def kalloc_def Let_def split: if_splits prod.splits)

lemma alarm_page_iff: "alarm_page s \<noteq> None \<longleftrightarrow> alarm_tf (kproc s) \<noteq> None \<or> fst (kalloc (fkm (kst s))) \<noteq> 0"
  by (auto simp: alarm_page_def split: prod.splits)

text \<open>Whether there is a page depends on the process and the allocator only.\<close>

lemma alarm_page_cong:
  assumes "alarm_tf (kproc s) = alarm_tf (kproc t)" "kst s = kst t"
  shows "map_option kst (alarm_page s) = map_option kst (alarm_page t)"
  using assms by (auto simp: alarm_page_def set_kmem_def split: prod.splits)

lemma can_store_cong:
  "pgdir (kproc s) = pgdir (kproc t) \<Longrightarrow> kbytes (fkm (kst s)) = kbytes (fkm (kst t)) \<Longrightarrow> can_store s a = can_store t a"
  by (simp add: can_store_def)

text \<open>What a tick does: \<open>x\<close> is what the machine says, \<open>s\<close> the system before it.\<close>

definition alarm_does :: "nat \<Rightarrow> u32 \<Rightarrow> alarm \<times> trapframe \<times> bool \<Rightarrow> u32 \<Rightarrow> ksys \<Rightarrow> ksys res \<Rightarrow> bool" where
  "alarm_does n h x ip s r = (case x of (a, g, starts) \<Rightarrow>
     if starts \<and> \<not> can_store s (esp g) then r = Inl (Panic ''trap'')
     else \<exists>s'. r = Inr s' \<and> alarm_is n h a s' \<and>
       kproc s' = (kproc s)\<lparr>tf := g, alarm_ticks := alarm_ticks (kproc s'), alarm_tf := alarm_tf (kproc s'),
         alarm_in_handler := alarm_in_handler (kproc s')\<rparr> \<and>
       Some (kst s') = (if starts then map_option (\<lambda>v. kst (kput (esp g) (word_bytes [ip]) v)) (alarm_page s) else Some (kst s)))"

lemma count_does:
  assumes "alarm_is n h (Counting t) s"
  shows "alarm_does n h (alarm_counts n h (alarm_page s \<noteq> None) t (tf (kproc s))) (eip (tf (kproc s))) s (alarm_count s)"
proof (cases "Suc t < n")
  case True
  then have "alarm_count s = Inr (kset (\<lambda>p. p\<lparr>alarm_ticks := int t + 1\<rparr>) s)"
    using assms by (simp add: alarm_count_def alarm_is_def)
  then show ?thesis using assms True by (simp add: alarm_does_def alarm_counts_def alarm_is_def)
next
  case False
  let ?u = "kset (\<lambda>p. p\<lparr>alarm_ticks := 0\<rparr>) s"
  have c: "alarm_count s = alarm_fire ?u" using assms False by (simp add: alarm_count_def alarm_is_def)
  have k: "kcur s < length (procs (kpt s))" using assms by (simp add: alarm_is_def)
  have pg: "map_option kst (alarm_page ?u) = map_option kst (alarm_page s)" by (rule alarm_page_cong) (use k in simp_all)
  show ?thesis
  proof (cases "alarm_page s")
    case None
    then have "alarm_page ?u = None" using pg by simp
    then have "alarm_count s = Inr ?u" unfolding c alarm_fire_def by simp
    then show ?thesis using assms False None by (simp add: alarm_does_def alarm_counts_def alarm_is_def)
  next
    case (Some v)
    then obtain w where w: "alarm_page ?u = Some w" "kst w = kst v" using pg by auto
    have kw: "kcur w = kcur s" "kpt w = kpt ?u" using alarm_page_keeps [OF w(1)] by simp_all
    have kv: "kcur v = kcur s" "kpt v = kpt s" "kbytes (fkm (kst v)) = kbytes (fkm (kst s))" using alarm_page_keeps [OF Some] by simp_all
    have pw: "kproc w = (kproc s)\<lparr>alarm_ticks := 0\<rparr>" using kw k by simp
    have cs: "can_store w a = can_store s a" for a by (rule can_store_cong) (use pw kv w in simp_all)
    let ?f = "tf (kproc s)"
    have fire: "alarm_fire ?u = (if \<not> can_store s (esp ?f - 4) then Inl (Panic ''trap'')
        else Inr (kset (\<lambda>p. p\<lparr>tf := ?f\<lparr>esp := esp ?f - 4, eip := alarm_handler p\<rparr>, alarm_tf := Some ?f, alarm_in_handler := True\<rparr>)
          (kput (esp ?f - 4) (word_bytes [eip ?f]) w)))"
      unfolding alarm_fire_def w(1) using pw by (simp add: cs Let_def)
    have sp: "alarm_counts n h (alarm_page s \<noteq> None) t ?f = (Handling ?f, ?f\<lparr>esp := esp ?f - 4, eip := h\<rparr>, True)"
      using False Some by (simp add: alarm_counts_def)
    show ?thesis
    proof (cases "can_store s (esp ?f - 4)")
      case False
      then show ?thesis unfolding alarm_does_def sp by (simp add: c fire)
    next
      case True
      let ?s = "kset (\<lambda>p. p\<lparr>tf := ?f\<lparr>esp := esp ?f - 4, eip := alarm_handler p\<rparr>, alarm_tf := Some ?f, alarm_in_handler := True\<rparr>)
          (kput (esp ?f - 4) (word_bytes [eip ?f]) w)"
      have r: "alarm_count s = Inr ?s" using True by (simp add: c fire)
      have ks: "kproc ?s = (kproc s)\<lparr>tf := ?f\<lparr>esp := esp ?f - 4, eip := h\<rparr>, alarm_ticks := 0, alarm_tf := Some ?f, alarm_in_handler := True\<rparr>"
        using kw k pw assms by (simp add: alarm_is_def)
      have "kst ?s = kst (kput (esp ?f - 4) (word_bytes [eip ?f]) v)"
        using kput_cong [of w v] w(2) pw kv by simp
      moreover have "alarm_is n h (Handling ?f) ?s" using ks kw k assms by (simp add: alarm_is_def)
      ultimately show ?thesis unfolding alarm_does_def sp using True ks Some by (simp add: r)
    qed
  qed
qed

lemma page_put_cong:
  assumes "alarm_tf (kproc s) = alarm_tf (kproc t)" "kst s = kst t" "pgdir (kproc s) = pgdir (kproc t)"
  shows "map_option (\<lambda>v. kst (kput a bs v)) (alarm_page s) = map_option (\<lambda>v. kst (kput a bs v)) (alarm_page t)"
proof (cases "alarm_page s")
  case None
  then show ?thesis using alarm_page_cong [OF assms(1,2)] by simp
next
  case (Some v)
  then obtain w where w: "alarm_page t = Some w" "kst w = kst v" using alarm_page_cong [OF assms(1,2)] by (cases "alarm_page t") auto
  have "pgdir (kproc v) = pgdir (kproc w)" using alarm_page_keeps [OF Some] alarm_page_keeps [OF w(1)] assms(3) by simp
  then show ?thesis using Some w kput_cong [of v w] by simp
qed

text \<open>The registers and the mark of the handler do not matter to what the rest of the tick does.\<close>

lemma does_cong:
  assumes "alarm_does n h x ip t r" and k: "kproc t = (kproc s)\<lparr>tf := g, alarm_in_handler := b\<rparr>" and m: "kst t = kst s"
  shows "alarm_does n h x ip s r"
proof -
  have p: "map_option (\<lambda>v. kst (kput a bs v)) (alarm_page t) = map_option (\<lambda>v. kst (kput a bs v)) (alarm_page s)" for a bs
    by (rule page_put_cong) (use k m in simp_all)
  have c: "can_store t a = can_store s a" for a by (rule can_store_cong) (use k m in simp_all)
  obtain a f starts where x: "x = (a, f, starts)" by (cases x) auto
  show ?thesis using assms(1) unfolding alarm_does_def x by (cases starts; cases "can_store s (esp f)") (simp_all add: c p k m)
qed

lemma page_same: "kproc t = (kproc s)\<lparr>tf := g, alarm_in_handler := b\<rparr> \<Longrightarrow> kst t = kst s \<Longrightarrow> (alarm_page t \<noteq> None) = (alarm_page s \<noteq> None)"
  unfolding alarm_page_iff by simp

text \<open>Waking sleepers up is nothing to the running process.\<close>

lemma tick_wakes:
  fixes k
  assumes "kcur s < length (procs (kpt s))" "st (kpt s) (kcur s) = RUNNING"
  defines "t \<equiv> s\<lparr>kticks := k, kpt := wakeup ChTicks (kpt s)\<rparr>"
  shows "kproc t = kproc s" "kst t = kst s" "kcur t < length (procs (kpt t))"
  using assms(1,2) by (simp_all add: t_def wakeup_def wakeup1_nth)

lemma tick_does:
  assumes a: "alarm_is n h a s" and u: "from_user f"
  shows "alarm_does n h (alarm_spec n h (alarm_page s \<noteq> None) a f) (eip f) s (user_tick cpu0 f s)"
proof -
  have k: "kcur s < length (procs (kpt s))" "st (kpt s) (kcur s) = RUNNING" using a by (simp_all add: alarm_is_def)
  let ?t = "kset (\<lambda>p. p\<lparr>tf := f\<rparr>) s"
  have kt: "kcur ?t < length (procs (kpt ?t))" "st (kpt ?t) (kcur ?t) = RUNNING" using k by simp_all
  define v where "v = (if cpu0 then ?t\<lparr>kticks := kticks ?t + 1, kpt := wakeup ChTicks (kpt ?t)\<rparr> else ?t)"
  have v: "kproc v = (kproc s)\<lparr>tf := f\<rparr>" "kst v = kst s" "kcur v < length (procs (kpt v))"
    using tick_wakes [OF kt, of "kticks ?t + 1"] k by (simp_all add: v_def)
  have run: "user_tick cpu0 f s = alarm_count (kset alarm_restore v)"
    using v(1) k u unfolding user_tick_def timer_intr_def v_def [symmetric] Let_def by (simp add: alarm_tick_def)
  show ?thesis
  proof (cases a)
    case (Counting t)
    then have "alarm_restore (kproc v) = kproc v" using a v(1) by (simp add: alarm_restore_def alarm_is_def split: option.splits)
    then have r: "kset alarm_restore v = v" by (rule kset_id)
    have e: "kproc v = (kproc s)\<lparr>tf := f, alarm_in_handler := alarm_in_handler (kproc s)\<rparr>" using v(1) by simp
    have "alarm_is n h (Counting t) v" using a v Counting by (simp add: alarm_is_def)
    from count_does [OF this] show ?thesis unfolding run r page_same [OF e v(2)] Counting
      using does_cong [OF _ e v(2)] v(1) by simp
  next
    case (Handling b)
    then have b: "alarm_in_handler (kproc v)" "alarm_tf (kproc v) = Some b" using a v(1) by (simp_all add: alarm_is_def)
    show ?thesis
    proof (cases "esp f = esp b")
      case True
      let ?w = "kset alarm_restore v"
      have e: "kproc ?w = (kproc s)\<lparr>tf := restored_tf b f, alarm_in_handler := False\<rparr>" "kst ?w = kst s"
        using b v True by (simp_all add: alarm_restore_def)
      have "alarm_is n h (Counting 0) ?w" using a v e(1) Handling by (simp add: alarm_is_def)
      from count_does [OF this] have "alarm_does n h (alarm_counts n h (alarm_page s \<noteq> None) 0 (restored_tf b f)) (eip f) ?w (alarm_count ?w)"
        unfolding page_same [OF e] using e(1) by (simp add: restored_tf_def)
      then show ?thesis unfolding run Handling using does_cong [OF _ e] True by simp
    next
      case False
      have "alarm_restore (kproc v) = kproc v" using b False v(1) by (simp add: alarm_restore_def)
      then have r: "kset alarm_restore v = v" by (rule kset_id)
      have "alarm_count v = Inr v" using b(1) by (simp add: alarm_count_def Let_def)
      moreover have "alarm_is n h (Handling b) v" using a v Handling by (simp add: alarm_is_def)
      ultimately show ?thesis unfolding run r Handling using False v by (simp add: alarm_does_def)
    qed
  qed
qed






text \<open>
  The saved registers come back at the first tick that finds the saved stack pointer, not when the handler
  returns: what the program computes in between, on the handler's registers, is lost.
\<close>

lemma tick_undoes_registers:
  assumes "alarm_is n h (Handling a) s" "1 < n" "from_user (g\<lparr>esp := esp a, eax := r\<rparr>)"
  shows "\<exists>s'. user_tick cpu0 (g\<lparr>esp := esp a, eax := r\<rparr>) s = Inr s' \<and> eax (tf (kproc s')) = eax a"
proof -
  let ?g = "g\<lparr>esp := esp a, eax := r\<rparr>"
  have "alarm_spec n h (alarm_page s \<noteq> None) (Handling a) ?g = (Counting 1, restored_tf a ?g, False)"
    using assms(2) by (simp add: alarm_counts_def)
  from tick_does [OF assms(1,3), of cpu0, unfolded this alarm_does_def prod.case]
  obtain s' where s': "user_tick cpu0 ?g s = Inr s'" "kproc s' = (kproc s)\<lparr>tf := restored_tf a ?g, alarm_ticks := alarm_ticks (kproc s'),
      alarm_tf := alarm_tf (kproc s'), alarm_in_handler := alarm_in_handler (kproc s')\<rparr>" by auto
  have "tf (kproc s') = restored_tf a ?g" using arg_cong [OF s'(2), of tf] by simp
  then show ?thesis using s'(1) by (simp add: restored_tf_def)
qed

section \<open>A small system\<close>

text \<open>One process with one page of memory, at the physical address 0x3000, and an alarm that is one tick away.\<close>

definition ksys0 :: ksys where
  "ksys0 = \<lparr>kpt = \<lparr>procs = [zero_proc\<lparr>sz := 0x1000, pgdir := 0x80001000, pstate := RUNNING, cwd := Some 0, alarm_interval := 2,
        alarm_ticks := 1, alarm_handler := 0x100, alarm_tf := Some zero_tf\<rparr>], nextpid = 2, initproc = 0\<rparr>,
     kcur = 0, kst = \<lparr>ffs = fs0, ftab = replicate 3 \<lparr>ftype = FD_NONE, fref = 0, freadable = False, fwritable = False,
        fpipe = 0, fip = 0, foff = 0\<rparr>, fpipes = (\<lambda>_. None),
        fkm = \<lparr>kbytes = (\<lambda>_. 0)(0x80001000 := 7, 0x80001001 := 0x20, 0x80002000 := 7, 0x80002001 := 0x30),
          use_lock = True, freelist = 0\<rparr>\<rparr>,
     kticks = 0\<rparr>"

definition user_tf :: trapframe where "user_tf = zero_tf\<lparr>cs := 3, esp := 0x20, eip := 0x44\<rparr>"

theorem arguments_in_bounds_witness:
  "argptr ksys0 0 4 = Some 0 \<and> unat (0 :: u32) + unat (4 :: u32) \<le> unat (sz (kproc ksys0))"
proof -
  have z: "sz (kproc ksys0) \<le> KERNBASE" by (simp add: ksys0_def KERNBASE_def)
  have "argptr ksys0 0 4 = Some 0"
    by (simp add: argptr_def argint_def fetchint_def ksys0_def zero_proc_def zero_tf_def umem_def uaddr_def pte_of_def pde_of_def
        table_of_def present_def load32_def PDX_def PTX_def PTE_P_def PTE_ADDR_def P2V_def KERNBASE_def word_sless_alt)
  then show ?thesis using arguments_in_bounds [OF z, where n = 0 and len = 4] by blast
qed


text \<open>
  The store of the instruction pointer is not checked: a program whose stack pointer is outside of its memory at the
  tick makes the kernel panic.
\<close>

lemma bad_stack_panics: "user_tick False (user_tf\<lparr>esp := 0\<rparr>) ksys0 = Inl (Panic ''trap'')"
proof -
  let ?f = "user_tf\<lparr>esp := 0\<rparr>"
  have h: "alarm_is 2 0x100 (Counting 1) ksys0" by (simp add: alarm_is_def ksys0_def zero_proc_def)
  have u: "from_user ?f" by (simp add: from_user_def user_tf_def)
  have p: "alarm_page ksys0 = Some ksys0" by (simp add: alarm_page_def ksys0_def zero_proc_def)
  have s: "alarm_spec 2 0x100 (alarm_page ksys0 \<noteq> None) (Counting 1) ?f = (Handling ?f, ?f\<lparr>esp := - 4, eip := 0x100\<rparr>, True)"
    using p by (simp add: alarm_counts_def)
  have "\<not> can_store ksys0 (- 4)"
    by (simp add: can_store_def ksys0_def pte_of_def pde_of_def table_of_def present_def load32_def PDX_def PTX_def PTE_P_def PTE_W_def
        PTE_ADDR_def P2V_def KERNBASE_def Let_def)
  then show ?thesis using tick_does [OF h u, of False, unfolded s alarm_does_def prod.case] by simp
qed


end
