(* ===== verification/Ide.thy ===== *)
theory Ide
  imports Prelude
begin

text \<open>
  The disk driver (ide.c): a queue of buffers linked through \<open>qnext\<close>, whose first one the disk works at. The disk
  itself is a parameter, known by the values of its status register and what is read from its data port; the driver
  is known to it by its port writes. Calls of \<open>iderw\<close> and interrupts hold \<open>idelock\<close>, so each segment between two sleeps
  is one step. \<open>OutOfFuel\<close> is a wait or a walk that does not end.
\<close>

section \<open>State\<close>

definition B_VALID :: u32 where "B_VALID = 0x2"
definition B_DIRTY :: u32 where "B_DIRTY = 0x4"
definition BSIZE :: nat where "BSIZE = 512"
definition FSSIZE :: nat where "FSSIZE = 1000"
definition SECTOR_SIZE :: nat where "SECTOR_SIZE = 512"
definition IDE_BSY :: u8 where "IDE_BSY = 0x80"
definition IDE_DRDY :: u8 where "IDE_DRDY = 0x40"
definition IDE_DF :: u8 where "IDE_DF = 0x20"
definition IDE_ERR :: u8 where "IDE_ERR = 0x01"
definition IDE_CMD_READ :: u8 where "IDE_CMD_READ = 0x20"
definition IDE_CMD_WRITE :: u8 where "IDE_CMD_WRITE = 0x30"
definition IDE_CMD_RDMUL :: u8 where "IDE_CMD_RDMUL = 0xc4"
definition IDE_CMD_WRMUL :: u8 where "IDE_CMD_WRMUL = 0xc5"

type_synonym blk = "u8 list"

text \<open>\<open>held\<close> is \<open>holdingsleep(&b->lock)\<close> of the caller; buffers are named by their addresses, 0 is the null pointer.\<close>

record buf =
  flags :: u32
  dev :: u32
  blockno :: u32
  held :: bool
  qnext :: nat
  bdata :: blk

datatype io = Outb u16 u8 | Outsl u16 blk

text \<open>
  The holder of a buffer is outside of \<open>iderw\<close>, asleep in it on the buffer, or runnable again. \<open>ports\<close> is the history
  of port writes, \<open>reads\<close> counts the reads of the status register.
\<close>

datatype holder = Outside | Asleep | Runs

record ide =
  bufs :: "nat \<Rightarrow> buf"
  idequeue :: nat
  havedisk1 :: bool
  ports :: "io list"
  reads :: nat
  holder :: "nat \<Rightarrow> holder"

definition bset :: "nat \<Rightarrow> (buf \<Rightarrow> buf) \<Rightarrow> ide \<Rightarrow> ide" where
  "bset b f s = s\<lparr>bufs := (bufs s)(b := f (bufs s b))\<rparr>"

definition out :: "io list \<Rightarrow> ide \<Rightarrow> ide" where
  "out ios s = s\<lparr>ports := ports s @ ios\<rparr>"

section \<open>The driver\<close>

type_synonym status = "nat \<Rightarrow> u8"

partial_function (option) wait_loop :: "status \<Rightarrow> nat \<Rightarrow> (u8 \<times> nat) option" where
  "wait_loop st t = (if st t AND (IDE_BSY OR IDE_DRDY) \<noteq> IDE_DRDY then wait_loop st (t + 1) else Some (st t, t + 1))"

text \<open>The result is whether it is 0.\<close>

definition idewait :: "status \<Rightarrow> bool \<Rightarrow> ide \<Rightarrow> (bool \<times> ide) res" where
  "idewait st checkerr s =
     (case wait_loop st (reads s) of None \<Rightarrow> Inl OutOfFuel
      | Some (r, t) \<Rightarrow> Inr (\<not> (checkerr \<and> r AND (IDE_DF OR IDE_ERR) \<noteq> 0), s\<lparr>reads := t\<rparr>))"

definition probe :: "status \<Rightarrow> ide \<Rightarrow> ide" where
  "probe st s =
     (case find (\<lambda>i. st (reads s + i) \<noteq> 0) [0..<1000] of
        None \<Rightarrow> s\<lparr>reads := reads s + 1000\<rparr>
      | Some i \<Rightarrow> s\<lparr>reads := reads s + i + 1, havedisk1 := True\<rparr>)"

definition ideinit :: "status \<Rightarrow> ide \<Rightarrow> ide res" where
  "ideinit st s =
     rbind (idewait st False s) (\<lambda>(_, s).
       Inr (out [Outb 0x1f6 (0xe0 OR push_bit 4 0)] (probe st (out [Outb 0x1f6 (0xe0 OR push_bit 4 1)] s))))"

definition registers :: "u32 \<Rightarrow> u32 \<Rightarrow> nat \<Rightarrow> io list" where
  "registers d sector n =
     [Outb 0x3f6 0, Outb 0x1f2 (of_nat n), Outb 0x1f3 (ucast (sector AND 0xff)),
      Outb 0x1f4 (ucast (drop_bit 8 sector AND 0xff)), Outb 0x1f5 (ucast (drop_bit 16 sector AND 0xff)),
      Outb 0x1f6 (ucast (0xe0 OR push_bit 4 (d AND 1) OR (drop_bit 24 sector AND 0x0f)))]"

definition idestart :: "status \<Rightarrow> nat \<Rightarrow> ide \<Rightarrow> ide res" where
  "idestart st b s =
     (if b = 0 then Inl (Panic ''idestart'')
      else if blockno (bufs s b) \<ge> of_nat FSSIZE then Inl (Panic ''incorrect blockno'')
      else let sector_per_block = BSIZE div SECTOR_SIZE; sector = blockno (bufs s b) * of_nat sector_per_block;
        read_cmd = (if sector_per_block = 1 then IDE_CMD_READ else IDE_CMD_RDMUL);
        write_cmd = (if sector_per_block = 1 then IDE_CMD_WRITE else IDE_CMD_WRMUL) in
      if sector_per_block > 7 then Inl (Panic ''idestart'')
      else rbind (idewait st False s) (\<lambda>(_, s).
        let s = out (registers (dev (bufs s b)) sector sector_per_block) s in
        Inr (if flags (bufs s b) AND B_DIRTY \<noteq> 0
             then out [Outb 0x1f7 write_cmd, Outsl 0x1f0 (bdata (bufs s b))] s
             else out [Outb 0x1f7 read_cmd] s)))"

text \<open>\<open>insl\<close> is what is read from the data port after the port writes so far.\<close>

definition ideintr :: "(io list \<Rightarrow> blk) \<Rightarrow> status \<Rightarrow> ide \<Rightarrow> ide res" where
  "ideintr insl st s =
     (let b = idequeue s in
      if b = 0 then Inr s
      else let s = s\<lparr>idequeue := qnext (bufs s b)\<rparr> in
      rbind (if flags (bufs s b) AND B_DIRTY = 0
             then rbind (idewait st True s) (\<lambda>(ok, s). Inr (if ok then bset b (\<lambda>x. x\<lparr>bdata := insl (ports s)\<rparr>) s else s))
             else Inr s) (\<lambda>s.
      let s = bset b (\<lambda>x. x\<lparr>flags := flags x OR B_VALID\<rparr>) s;
          s = bset b (\<lambda>x. x\<lparr>flags := flags x AND NOT B_DIRTY\<rparr>) s;
          s = (if holder s b = Asleep then s\<lparr>holder := (holder s)(b := Runs)\<rparr> else s) in
      if idequeue s \<noteq> 0 then idestart st (idequeue s) s else Inr s))"

text \<open>The walk to the end of the queue gives the buffer whose \<open>qnext\<close> is to be set.\<close>

partial_function (option) queue_end :: "(nat \<Rightarrow> buf) \<Rightarrow> nat \<Rightarrow> nat option" where
  "queue_end bs p = (if qnext (bs p) = 0 then Some p else queue_end bs (qnext (bs p)))"

definition enqueue :: "nat \<Rightarrow> ide \<Rightarrow> ide res" where
  "enqueue b s =
     (let s = bset b (\<lambda>x. x\<lparr>qnext := 0\<rparr>) s in
      if idequeue s = 0 then Inr (s\<lparr>idequeue := b\<rparr>)
      else (case queue_end (bufs s) (idequeue s) of None \<Rightarrow> Inl OutOfFuel
            | Some p \<Rightarrow> Inr (bset p (\<lambda>x. x\<lparr>qnext := b\<rparr>) s)))"

text \<open>The test of the loop that sleeps, made when \<open>iderw\<close> gets there and at each wakeup.\<close>

definition iderw_wait :: "nat \<Rightarrow> ide \<Rightarrow> ide" where
  "iderw_wait b s = s\<lparr>holder := (holder s)(b :=
     if flags (bufs s b) AND (B_VALID OR B_DIRTY) \<noteq> B_VALID then Asleep else Outside)\<rparr>"

definition iderw :: "status \<Rightarrow> nat \<Rightarrow> ide \<Rightarrow> ide res" where
  "iderw st b s =
     (if \<not> held (bufs s b) then Inl (Panic ''iderw: buf not locked'')
      else if flags (bufs s b) AND (B_VALID OR B_DIRTY) = B_VALID then Inl (Panic ''iderw: nothing to do'')
      else if dev (bufs s b) \<noteq> 0 \<and> \<not> havedisk1 s then Inl (Panic ''iderw: ide disk 1 not present'')
      else rbind (enqueue b s) (\<lambda>s.
        rbind (if idequeue s = b then idestart st b s else Inr s) (\<lambda>s. Inr (iderw_wait b s))))"

section \<open>Interleaving\<close>

text \<open>What a caller of \<open>iderw\<close> owes.\<close>

definition may_request :: "nat \<Rightarrow> ide \<Rightarrow> bool" where
  "may_request b s \<longleftrightarrow> b \<noteq> 0 \<and> holder s b = Outside \<and> held (bufs s b) \<and>
     flags (bufs s b) AND (B_VALID OR B_DIRTY) \<noteq> B_VALID \<and> (dev (bufs s b) = 0 \<or> havedisk1 s) \<and>
     blockno (bufs s b) < of_nat FSSIZE"

text \<open>A buffer that no call of \<open>iderw\<close> has is changed at will.\<close>

inductive ide_step :: "(io list \<Rightarrow> blk) \<Rightarrow> status \<Rightarrow> ide \<Rightarrow> ide \<Rightarrow> bool" for insl st where
  request: "may_request b s \<Longrightarrow> iderw st b s = Inr s' \<Longrightarrow> ide_step insl st s s'"
| resume: "holder s b = Runs \<Longrightarrow> ide_step insl st s (iderw_wait b s)"
| interrupt: "ideintr insl st s = Inr s' \<Longrightarrow> ide_step insl st s s'"
| change: "holder s b = Outside \<Longrightarrow> ide_step insl st s (bset b (\<lambda>_. x) s)"


definition ide0 :: "(nat \<Rightarrow> buf) \<Rightarrow> bool \<Rightarrow> io list \<Rightarrow> nat \<Rightarrow> ide" where
  "ide0 bs h ios t = \<lparr>bufs = bs, idequeue = 0, havedisk1 = h, ports = ios, reads = t, holder = (\<lambda>_. Outside)\<rparr>"

definition ide_reachable :: "(io list \<Rightarrow> blk) \<Rightarrow> status \<Rightarrow> ide \<Rightarrow> bool" where
  "ide_reachable insl st s \<longleftrightarrow> (\<exists>bs h ios t. (ide_step insl st)\<^sup>*\<^sup>* (ide0 bs h ios t) s)"

section \<open>The disk\<close>

text \<open>
  What the driver relies on: the disk is ready again and again, and it keeps to the command set. After the six
  registers, a command acts on the drive and sector they name; a read makes the sector available at the data port and
  a write stores what is written there. The status may show an error (\<open>read_fails\<close>: the first value read with the disk
  ready after \<open>t\<close> reads of the status register), which the driver looks at before it takes the data of a read.
\<close>

type_synonym array = "bool \<times> nat \<Rightarrow> blk"

definition address :: "u8 \<Rightarrow> u8 \<Rightarrow> u8 \<Rightarrow> u8 \<Rightarrow> bool \<times> nat" where
  "address a0 a1 a2 a3 = (bit a3 4, unat a0 + 2 ^ 8 * unat a1 + 2 ^ 16 * unat a2 + 2 ^ 24 * unat (a3 AND 0x0f))"

definition ready_status :: "status \<Rightarrow> bool" where
  "ready_status st \<longleftrightarrow> (\<forall>t. \<exists>t' \<ge> t. st t' AND (IDE_BSY OR IDE_DRDY) = IDE_DRDY)"

definition read_fails :: "status \<Rightarrow> nat \<Rightarrow> bool" where
  "read_fails st t = (case wait_loop st t of None \<Rightarrow> False | Some (r, _) \<Rightarrow> r AND (IDE_DF OR IDE_ERR) \<noteq> 0)"

definition ata_disk :: "(io list \<Rightarrow> array) \<Rightarrow> (io list \<Rightarrow> blk) \<Rightarrow> bool" where
  "ata_disk disk insl \<longleftrightarrow> (\<forall>ios a0 a1 a2 a3 d.
     let regs = [Outb 0x3f6 0, Outb 0x1f2 1, Outb 0x1f3 a0, Outb 0x1f4 a1, Outb 0x1f5 a2, Outb 0x1f6 a3]; a = address a0 a1 a2 a3 in
     disk (ios @ regs @ [Outb 0x1f7 0x20]) = disk ios \<and> insl (ios @ regs @ [Outb 0x1f7 0x20]) = disk ios a \<and>
     disk (ios @ regs @ [Outb 0x1f7 0x30, Outsl 0x1f0 d]) = (disk ios)(a := d))"

section \<open>The queue\<close>

fun chain :: "(nat \<Rightarrow> buf) \<Rightarrow> nat \<Rightarrow> nat list \<Rightarrow> bool" where
  "chain bs p [] \<longleftrightarrow> p = 0"
| "chain bs p (b # q) \<longleftrightarrow> p = b \<and> b \<noteq> 0 \<and> chain bs (qnext (bs b)) q"

definition queue :: "ide \<Rightarrow> nat list \<Rightarrow> bool" where
  "queue s q \<longleftrightarrow> chain (bufs s) (idequeue s) q \<and> distinct q"

lemma queue_cong: "(\<And>b. b \<in> set q \<Longrightarrow> qnext (bs' b) = qnext (bs b)) \<Longrightarrow> chain bs' p q = chain bs p q"
  by (induction q arbitrary: p) auto

lemma queue_upd: "b \<notin> set q \<Longrightarrow> chain (bs(b := x)) p q = chain bs p q"
  by (rule queue_cong) auto

lemma chain_unique: "chain bs p q \<Longrightarrow> chain bs p q' \<Longrightarrow> q = q'"
  by (induction q arbitrary: p q') (case_tac q'; auto)+

lemma queue_end_last: "chain bs p q \<Longrightarrow> q \<noteq> [] \<Longrightarrow> queue_end bs p = Some (last q)"
proof (induction q arbitrary: p)
  case (Cons b q)
  then show ?case by (subst queue_end.simps) (cases q; auto)
qed simp

lemma chain_append:
  assumes "chain bs p q" "q \<noteq> []" "distinct (q @ [b])" "b \<noteq> 0" "qnext (bs b) = 0"
  shows "chain (bs(last q := bs (last q)\<lparr>qnext := b\<rparr>)) p (q @ [b])"
  using assms(1-3)
proof (induction q arbitrary: p)
  case (Cons x q)
  show ?case
  proof (cases "q = []")
    case True
    then show ?thesis using Cons.prems assms(4,5) by auto
  next
    case False
    then have "x \<noteq> last q" using Cons.prems(3) by (auto dest: last_in_set)
    then show ?thesis using Cons False by auto
  qed
qed simp

section \<open>What each call does\<close>

definition pending :: "buf \<Rightarrow> bool" where
  "pending x \<longleftrightarrow> flags x AND (B_VALID OR B_DIRTY) \<noteq> B_VALID \<and> blockno x < of_nat FSSIZE"

definition command :: "buf \<Rightarrow> io list" where
  "command x = registers (dev x) (blockno x) 1 @
     (if flags x AND B_DIRTY \<noteq> 0 then [Outb 0x1f7 0x30, Outsl 0x1f0 (bdata x)] else [Outb 0x1f7 0x20])"

text \<open>
  The queue is the set of buffers whose holders sleep; the last command is that of its first buffer.
\<close>

definition ide_ok :: "nat list \<Rightarrow> ide \<Rightarrow> bool" where
  "ide_ok q s \<longleftrightarrow> queue s q \<and> (\<forall>b. holder s b = Asleep \<longleftrightarrow> b \<in> set q) \<and> (\<forall>b\<in>set q. pending (bufs s b)) \<and>
     (\<forall>b. holder s b = Runs \<longrightarrow> flags (bufs s b) AND (B_VALID OR B_DIRTY) = B_VALID) \<and>
     (q \<noteq> [] \<longrightarrow> (\<exists>ios. ports s = ios @ command (bufs s (hd q))))"

lemma wait_returns:
  assumes "ready_status st"
  shows "\<exists>r t'. wait_loop st t = Some (r, t')"
proof -
  obtain t1 where t1: "t1 \<ge> t" "st t1 AND (IDE_BSY OR IDE_DRDY) = IDE_DRDY" using assms by (auto simp: ready_status_def)
  then show ?thesis
  proof (induction "t1 - t" arbitrary: t)
    case 0
    then show ?case by (subst wait_loop.simps) auto
  next
    case (Suc k)
    then have "k = t1 - (t + 1)" "t + 1 \<le> t1" by auto
    then obtain r t' where "wait_loop st (t + 1) = Some (r, t')" using Suc.hyps(1) t1(2) by blast
    then show ?case by (subst wait_loop.simps) auto
  qed
qed

lemma idewait_ok:
  assumes "ready_status st"
  obtains t where "idewait st c s = Inr (\<not> (c \<and> read_fails st (reads s)), s\<lparr>reads := t\<rparr>)"
  using wait_returns [OF assms, of "reads s"] by (auto simp: idewait_def read_fails_def)

lemma idestart_ok:
  assumes st: "ready_status st" and b: "b \<noteq> 0" "blockno (bufs s b) < of_nat FSSIZE"
  obtains t where "idestart st b s = Inr (s\<lparr>ports := ports s @ command (bufs s b), reads := t\<rparr>)"
proof -
  obtain t where t: "idewait st False s = Inr (True, s\<lparr>reads := t\<rparr>)" using idewait_ok [OF st, of False s] by auto
  have "idestart st b s = Inr (s\<lparr>ports := ports s @ command (bufs s b), reads := t\<rparr>)"
    using b t by (simp add: idestart_def out_def command_def not_le IDE_CMD_READ_def IDE_CMD_WRITE_def
      BSIZE_def SECTOR_SIZE_def)
  then show ?thesis by (rule that)
qed

definition done_flags :: "u32 \<Rightarrow> u32" where
  "done_flags f = (f OR B_VALID) AND NOT B_DIRTY"

lemma done_flags_done: "done_flags f AND (B_VALID OR B_DIRTY) = B_VALID"
proof -
  have "((f OR 2) AND NOT 4) AND (2 OR 4) = (2 :: u32)"
  proof -
    have e: "(2 OR 4 :: u32) = 6" "NOT (4 :: u32) AND 6 = 2" by simp_all
    have "((f OR 2) AND NOT 4) AND 6 = (f OR 2) AND (2 :: u32)" by (simp only: and.assoc e)
    also have "\<dots> = 2" by (simp add: bit.conj_disj_distrib2)
    finally show ?thesis by (simp only: e)
  qed
  then show ?thesis by (simp add: done_flags_def B_VALID_def B_DIRTY_def)
qed

definition finished :: "bool \<Rightarrow> blk \<Rightarrow> buf \<Rightarrow> buf" where
  "finished bad d x = (if flags x AND B_DIRTY = 0 \<and> \<not> bad then x\<lparr>bdata := d\<rparr> else x)\<lparr>flags := done_flags (flags x)\<rparr>"

lemma ideintr_ok:
  assumes st: "ready_status st" and ok: "ide_ok (b # q) s"
  obtains t where "ideintr insl st s = Inr (s\<lparr>idequeue := qnext (bufs s b),
    bufs := (bufs s)(b := finished (read_fails st (reads s)) (insl (ports s)) (bufs s b)), holder := (holder s)(b := Runs),
    ports := ports s @ (if q = [] then [] else command (bufs s (hd q))), reads := t\<rparr>)"
proof -
  let ?x = "finished (read_fails st (reads s)) (insl (ports s)) (bufs s b)"
  have b: "idequeue s = b" "b \<noteq> 0" "chain (bufs s) (qnext (bufs s b)) q" "b \<notin> set q" "holder s b = Asleep"
    using ok by (auto simp: ide_ok_def queue_def)
  let ?s = "\<lambda>t. s\<lparr>idequeue := qnext (bufs s b), reads := t, bufs := (bufs s)(b := ?x), holder := (holder s)(b := Runs)\<rparr>"
  obtain t where t: "idewait st True (s\<lparr>idequeue := qnext (bufs s b)\<rparr>)
      = Inr (\<not> read_fails st (reads s), s\<lparr>idequeue := qnext (bufs s b), reads := t\<rparr>)"
    using idewait_ok [OF st, of True "s\<lparr>idequeue := qnext (bufs s b)\<rparr>"] by auto
  have "\<exists>t. ideintr insl st s = (if idequeue (?s t) \<noteq> 0 then idestart st (idequeue (?s t)) (?s t) else Inr (?s t))"
  proof (cases "flags (bufs s b) AND B_DIRTY = 0")
    case True
    show ?thesis by (rule exI [of _ t]) (use b t True in \<open>simp add: ideintr_def Let_def bset_def finished_def done_flags_def\<close>)
  next
    case False
    have "s\<lparr>idequeue := i, reads := reads s\<rparr> = s\<lparr>idequeue := i\<rparr>" for i by (rule ide.equality) simp_all
    then show ?thesis
      by (intro exI [of _ "reads s"]) (use b False in \<open>simp add: ideintr_def Let_def bset_def finished_def done_flags_def\<close>)
  qed
  then obtain t where e: "ideintr insl st s = (if idequeue (?s t) \<noteq> 0 then idestart st (idequeue (?s t)) (?s t) else Inr (?s t))" ..
  show ?thesis
  proof (cases q)
    case Nil
    moreover have "?s t = s\<lparr>idequeue := qnext (bufs s b), bufs := (bufs s)(b := ?x), holder := (holder s)(b := Runs),
      ports := ports s, reads := t\<rparr>" by (rule ide.equality) simp_all
    ultimately show ?thesis using e b(3) that [of t] by simp
  next
    case (Cons c q')
    then have c: "qnext (bufs s b) = c" "c \<noteq> 0" "c \<noteq> b" using b by auto
    have "blockno (bufs (?s t) c) < of_nat FSSIZE" using ok Cons c by (auto simp: ide_ok_def pending_def)
    from idestart_ok [OF st c(2) this] obtain t' where
      "idestart st c (?s t) = Inr ((?s t)\<lparr>ports := ports (?s t) @ command (bufs (?s t) c), reads := t'\<rparr>)" by metis
    moreover have "(?s t)\<lparr>ports := ps, reads := t'\<rparr> = s\<lparr>idequeue := qnext (bufs s b), bufs := (bufs s)(b := ?x),
      holder := (holder s)(b := Runs), ports := ps, reads := t'\<rparr>" for ps by (rule ide.equality) simp_all
    ultimately show ?thesis using e c Cons that [of t'] by simp
  qed
qed

definition linked :: "nat list \<Rightarrow> nat \<Rightarrow> ide \<Rightarrow> ide" where
  "linked q b s = (let bs = (bufs s)(b := bufs s b\<lparr>qnext := 0\<rparr>) in
     if q = [] then s\<lparr>bufs := bs, idequeue := b\<rparr>
     else s\<lparr>bufs := bs(last q := bs (last q)\<lparr>qnext := b\<rparr>)\<rparr>)"

lemma linked_same: "b \<notin> set q \<Longrightarrow> \<exists>n. bufs (linked q b s) x = bufs s x\<lparr>qnext := n\<rparr>"
proof -
  have same: "\<exists>n. y = y\<lparr>qnext := n\<rparr>" for y :: buf by (rule exI [of _ "qnext y"]) simp
  let ?z = "bufs (linked q b s) x"
  have "?z = bufs s x \<or> (\<exists>n. ?z = bufs s x\<lparr>qnext := n\<rparr>) \<or> (\<exists>m n. ?z = bufs s x\<lparr>qnext := m, qnext := n\<rparr>)"
    unfolding linked_def Let_def by (cases "q = []"; cases "x = last q"; cases "x = b"; simp; blast?)
  then show ?thesis using same [of "bufs s x"] by force
qed

lemma linked_queue:
  assumes "queue s q" "b \<notin> set q" "b \<noteq> 0"
  shows "queue (linked q b s) (q @ [b])"
proof (cases "q = []")
  case True
  then show ?thesis using assms by (auto simp: queue_def linked_def)
next
  case False
  let ?bs = "(bufs s)(b := bufs s b\<lparr>qnext := 0\<rparr>)"
  have "chain ?bs (idequeue s) q" using assms by (simp add: queue_def queue_upd)
  then have "chain (?bs(last q := ?bs (last q)\<lparr>qnext := b\<rparr>)) (idequeue s) (q @ [b])"
    by (rule chain_append [OF _ False]) (use assms in \<open>auto simp: queue_def\<close>)
  then show ?thesis using False assms by (auto simp: queue_def linked_def Let_def)
qed

lemma enqueue_ok:
  assumes "queue s q" "b \<notin> set q" "b \<noteq> 0"
  shows "enqueue b s = Inr (linked q b s)" "idequeue (linked q b s) = b \<longleftrightarrow> q = []"
proof -
  let ?bs = "(bufs s)(b := bufs s b\<lparr>qnext := 0\<rparr>)"
  have c: "chain ?bs (idequeue s) q" using assms by (simp add: queue_def queue_upd)
  show "enqueue b s = Inr (linked q b s)"
  proof (cases q)
    case Nil
    then show ?thesis using c by (simp add: enqueue_def linked_def bset_def)
  next
    case (Cons x q')
    then have "idequeue s \<noteq> 0" "queue_end ?bs (idequeue s) = Some (last q)" using c queue_end_last [OF c] by auto
    then show ?thesis using Cons by (simp add: enqueue_def linked_def bset_def Let_def)
  qed
  show "idequeue (linked q b s) = b \<longleftrightarrow> q = []" using c assms(2) by (cases q) (auto simp: linked_def Let_def)
qed

lemma not_queued:
  assumes "ide_ok q s" "holder s b \<noteq> Asleep"
  shows "b \<notin> set q"
proof
  assume "b \<in> set q"
  then show False using assms unfolding ide_ok_def by blast
qed

lemma iderw_ok:
  assumes st: "ready_status st" and ok: "ide_ok q s" and m: "may_request b s"
  obtains t where "iderw st b s = Inr ((linked q b s)\<lparr>holder := (holder s)(b := Asleep),
    ports := ports s @ (if q = [] then command (bufs s b) else []), reads := t\<rparr>)"
proof -
  have b: "b \<noteq> 0" "b \<notin> set q" "queue s q" "held (bufs s b)" "pending (bufs s b)"
    using m not_queued [OF ok, of b] ok by (auto simp: may_request_def pending_def ide_ok_def)
  let ?l = "linked q b s"
  have f: "holder ?l = holder s" "ports ?l = ports s" "reads ?l = reads s" by (simp_all add: linked_def Let_def)
  obtain n where n: "bufs ?l b = bufs s b\<lparr>qnext := n\<rparr>" using linked_same [OF b(2)] by blast
  have cmd: "command (bufs ?l b) = command (bufs s b)" by (simp add: n command_def)
  have wait: "iderw_wait b x = x\<lparr>holder := (holder x)(b := Asleep)\<rparr>" if "bufs x = bufs ?l" for x
    using b(5) by (simp add: iderw_wait_def that n pending_def)
  have e: "iderw st b s = rbind (if q = [] then idestart st b ?l else Inr ?l) (\<lambda>s. Inr (iderw_wait b s))"
    using m by (auto simp: iderw_def may_request_def enqueue_ok [OF b(3,2,1)])
  show ?thesis
  proof (cases "q = []")
    case True
    have "blockno (bufs ?l b) < of_nat FSSIZE" using b(5) by (simp add: n pending_def)
    from idestart_ok [OF st b(1) this] obtain t where
      "idestart st b ?l = Inr (?l\<lparr>ports := ports ?l @ command (bufs ?l b), reads := t\<rparr>)" by metis
    then have "iderw st b s = Inr (?l\<lparr>ports := ports s @ command (bufs s b), reads := t, holder := (holder s)(b := Asleep)\<rparr>)"
      using e True wait f cmd by simp
    also have "?l\<lparr>ports := ports s @ command (bufs s b), reads := t, holder := (holder s)(b := Asleep)\<rparr> =
        ?l\<lparr>holder := (holder s)(b := Asleep), ports := ports s @ command (bufs s b), reads := t\<rparr>" by (rule ide.equality) simp_all
    finally show ?thesis using that [of t] True by simp
  next
    case False
    then have "iderw st b s = Inr (?l\<lparr>holder := (holder s)(b := Asleep)\<rparr>)" using e wait f by simp
    also have "?l\<lparr>holder := (holder s)(b := Asleep)\<rparr> = ?l\<lparr>holder := (holder s)(b := Asleep), ports := ports s, reads := reads s\<rparr>"
      by (rule ide.equality) (simp_all add: f)
    finally show ?thesis using that [of "reads s"] False by simp
  qed
qed

section \<open>The invariant\<close>

lemma command_qnext: "command (x\<lparr>qnext := n\<rparr>) = command x" "pending (x\<lparr>qnext := n\<rparr>) = pending x"
  by (simp_all add: command_def pending_def)

lemma request_keeps_ok:
  assumes ok: "ide_ok q s" and m: "may_request b s"
  shows "ide_ok (q @ [b]) ((linked q b s)\<lparr>holder := (holder s)(b := Asleep),
    ports := ports s @ (if q = [] then command (bufs s b) else []), reads := t\<rparr>)" (is "ide_ok _ ?s")
proof -
  have b: "b \<noteq> 0" "b \<notin> set q" "queue s q" "pending (bufs s b)"
    using m not_queued [OF ok, of b] ok by (auto simp: may_request_def pending_def ide_ok_def)
  have x: "\<exists>n. bufs ?s x = bufs s x\<lparr>qnext := n\<rparr>" for x using linked_same [OF b(2)] by simp
  have p: "pending (bufs ?s x) = pending (bufs s x)" "command (bufs ?s x) = command (bufs s x)"
    "flags (bufs ?s x) = flags (bufs s x)" for x using x [of x] by (auto simp: command_qnext)
  have "queue ?s (q @ [b])" using linked_queue [OF b(3,2,1)] by (simp add: queue_def)
  moreover have "q \<noteq> [] \<Longrightarrow> \<exists>ios. ports s = ios @ command (bufs s (hd q))" using ok by (simp add: ide_ok_def)
  then have "\<exists>ios. ports ?s = ios @ command (bufs ?s (hd (q @ [b])))" unfolding p by (cases "q = []") auto
  ultimately show ?thesis using ok b(4) unfolding ide_ok_def p by auto
qed

lemma interrupt_keeps_ok:
  assumes ok: "ide_ok (b # q) s"
  shows "ide_ok q (s\<lparr>idequeue := qnext (bufs s b),
    bufs := (bufs s)(b := finished bad d (bufs s b)), holder := (holder s)(b := Runs),
    ports := ports s @ (if q = [] then [] else command (bufs s (hd q))), reads := t\<rparr>)" (is "ide_ok _ ?s")
proof -
  have b: "b \<notin> set q" "chain (bufs s) (qnext (bufs s b)) q" "distinct q" using ok by (auto simp: ide_ok_def queue_def)
  have x: "bufs ?s x = bufs s x" if "x \<in> set q" for x using that b(1) by auto
  have "queue ?s q" using b by (simp add: queue_def queue_upd)
  moreover have "q \<noteq> [] \<Longrightarrow> \<exists>ios. ports ?s = ios @ command (bufs ?s (hd q))" using x [of "hd q"] by simp
  moreover have "flags (bufs ?s b) AND (B_VALID OR B_DIRTY) = B_VALID" by (simp add: finished_def done_flags_done)
  ultimately show ?thesis using ok x b(1) unfolding ide_ok_def by auto
qed

lemma change_keeps_ok:
  assumes ok: "ide_ok q s" and o: "holder s b = Outside"
  shows "ide_ok q (bset b (\<lambda>_. x) s)"
proof -
  have b: "b \<notin> set q" using not_queued [OF ok] o by simp
  have "bufs (bset b (\<lambda>_. x) s) y = bufs s y" if "y \<noteq> b" for y using that by (simp add: bset_def)
  then show ?thesis using ok o b hd_in_set [of q]
    by (auto simp: ide_ok_def bset_def queue_def queue_upd)
qed

lemma resume_keeps_ok:
  assumes ok: "ide_ok q s" and r: "holder s b = Runs"
  shows "ide_ok q (iderw_wait b s)"
  using ok r not_queued [OF ok, of b] by (auto simp: ide_ok_def iderw_wait_def queue_def)

lemma step_keeps_ok:
  assumes st: "ready_status st" and ok: "ide_ok q s" and s: "ide_step insl st s s'"
  shows "\<exists>q'. ide_ok q' s'"
  using s
proof (cases rule: ide_step.cases)
  case (request b)
  obtain t where "s' = (linked q b s)\<lparr>holder := (holder s)(b := Asleep),
      ports := ports s @ (if q = [] then command (bufs s b) else []), reads := t\<rparr>"
    using iderw_ok [OF st ok request(1)] request(2) by (metis sum.inject(2))
  then show ?thesis using request_keeps_ok [OF ok request(1)] by blast
next
  case (interrupt)
  show ?thesis
  proof (cases q)
    case Nil
    then have "s' = s" using ok interrupt by (auto simp: ideintr_def ide_ok_def queue_def)
    then show ?thesis using ok by blast
  next
    case (Cons b q')
    obtain t where "s' = s\<lparr>idequeue := qnext (bufs s b),
      bufs := (bufs s)(b := finished (read_fails st (reads s)) (insl (ports s)) (bufs s b)), holder := (holder s)(b := Runs),
      ports := ports s @ (if q' = [] then [] else command (bufs s (hd q'))), reads := t\<rparr>"
      using ideintr_ok [OF st ok [unfolded Cons], of insl] interrupt by (metis sum.inject(2))
    then show ?thesis using interrupt_keeps_ok [OF ok [unfolded Cons]] by blast
  qed
qed (use ok resume_keeps_ok change_keeps_ok in blast)+

lemma reachable_ok:
  assumes "ide_reachable insl st s" "ready_status st"
  shows "\<exists>q. ide_ok q s"
proof -
  obtain bs h ios t where "(ide_step insl st)\<^sup>*\<^sup>* (ide0 bs h ios t) s" using assms(1) by (auto simp: ide_reachable_def)
  then show ?thesis
  proof (induction rule: rtranclp_induct)
    case base
    have "ide_ok [] (ide0 bs h ios t)" by (simp add: ide_ok_def ide0_def queue_def)
    then show ?case ..
  qed (use step_keeps_ok [OF assms(2)] in blast)
qed

section \<open>The disk behind the queue\<close>

text \<open>
  The sector of a buffer, the disk before the command that is under way, and what serving a buffer does: a read that
  fails leaves the buffer's data as they are.
\<close>

definition sector_of :: "buf \<Rightarrow> bool \<times> nat" where
  "sector_of x = (bit (dev x) 0, unat (blockno x))"

definition array_of :: "(io list \<Rightarrow> array) \<Rightarrow> ide \<Rightarrow> nat list \<Rightarrow> array" where
  "array_of disk s q = disk (if q = [] then ports s else take (length (ports s) - length (command (bufs s (hd q)))) (ports s))"

definition served :: "bool \<Rightarrow> array \<Rightarrow> buf \<Rightarrow> blk \<times> array" where
  "served bad D x = (if flags x AND B_DIRTY \<noteq> 0 then (bdata x, D(sector_of x := bdata x))
     else (if bad then bdata x else D (sector_of x), D))"

lemma low_byte: "unat (ucast (w AND 0xff) :: u8) = unat w mod 256" for w :: u32
proof -
  have m: "(0xff :: u32) = mask 8" by (simp add: mask_eq_exp_minus_1)
  have "unat (w AND mask 8) = unat w mod 2 ^ 8"
    by (metis take_bit_eq_mask unsigned_take_bit_eq take_bit_eq_mod)
  then have "unat (w AND 0xff) = unat w mod 256" unfolding m by simp
  then show ?thesis by (simp add: unsigned_ucast_eq take_bit_eq_mod)
qed

lemma drop_bit_div: "unat (drop_bit n w) = unat w div 2 ^ n" for w :: u32
  by (metis unat_drop_bit_eq drop_bit_eq_div)

lemma drive_byte:
  fixes d n :: u32
  assumes "n < 2 ^ 24"
  shows "bit (ucast (0xe0 OR push_bit 4 (d AND 1) OR (drop_bit 24 n AND 0x0f)) :: u8) 4 \<longleftrightarrow> bit d 0"
    "(ucast (0xe0 OR push_bit 4 (d AND 1) OR (drop_bit 24 n AND 0x0f)) :: u8) AND 0x0f = 0"
proof -
  have "unat n < 2 ^ 24" using assms by (simp add: word_less_nat_alt)
  then have z: "drop_bit 24 n = 0" using drop_bit_div [of 24 n] by (simp flip: unat_eq_zero)
  have d: "d AND 1 = (if bit d 0 then 1 else 0)" by (rule bit_word_eqI) (auto simp: bit_simps intro!: gr0I)
  show "bit (ucast (0xe0 OR push_bit 4 (d AND 1) OR (drop_bit 24 n AND 0x0f)) :: u8) 4 \<longleftrightarrow> bit d 0"
    unfolding z d by simp
  show "(ucast (0xe0 OR push_bit 4 (d AND 1) OR (drop_bit 24 n AND 0x0f)) :: u8) AND 0x0f = 0"
    unfolding z d by simp
qed

text \<open>The registers name the sector of the buffer.\<close>

lemma registers_address:
  assumes "n < of_nat FSSIZE"
  obtains a0 a1 a2 a3 where "registers d n 1 =
      [Outb 0x3f6 0, Outb 0x1f2 1, Outb 0x1f3 a0, Outb 0x1f4 a1, Outb 0x1f5 a2, Outb 0x1f6 a3]"
    "address a0 a1 a2 a3 = (bit d 0, unat n)"
proof -
  have "unat (of_nat FSSIZE :: u32) = 1000" by (simp add: FSSIZE_def)
  then have u: "unat n < 1000" using assms by (simp add: word_less_nat_alt)
  then have n: "n < 2 ^ 24" by (simp add: word_less_nat_alt)
  have "unat n mod 256 + 256 * (unat n div 256) = unat n" by simp
  moreover have "unat n div 256 mod 256 = unat n div 256" "unat n div 65536 = 0" using u by simp_all
  ultimately have "address (ucast (n AND 0xff)) (ucast (drop_bit 8 n AND 0xff)) (ucast (drop_bit 16 n AND 0xff))
      (ucast (0xe0 OR push_bit 4 (d AND 1) OR (drop_bit 24 n AND 0x0f))) = (bit d 0, unat n)"
    unfolding address_def low_byte drop_bit_div drive_byte [OF n] by simp
  then show ?thesis using that by (simp add: registers_def)
qed

lemma command_effect:
  assumes a: "ata_disk disk insl" and p: "pending x"
  shows "disk (ios @ command x) = snd (served bad (disk ios) x)"
    "flags x AND B_DIRTY = 0 \<Longrightarrow> insl (ios @ command x) = fst (served False (disk ios) x)"
proof -
  obtain a0 a1 a2 a3 where r: "registers (dev x) (blockno x) 1 =
      [Outb 0x3f6 0, Outb 0x1f2 1, Outb 0x1f3 a0, Outb 0x1f4 a1, Outb 0x1f5 a2, Outb 0x1f6 a3]"
    and s: "address a0 a1 a2 a3 = sector_of x"
    using registers_address [of "blockno x" "dev x"] p unfolding pending_def sector_of_def by metis
  have A: "disk (ios @ registers (dev x) (blockno x) 1 @ [Outb 0x1f7 0x20]) = disk ios"
    "insl (ios @ registers (dev x) (blockno x) 1 @ [Outb 0x1f7 0x20]) = disk ios (sector_of x)"
    "disk (ios @ registers (dev x) (blockno x) 1 @ [Outb 0x1f7 0x30, Outsl 0x1f0 d]) = (disk ios)(sector_of x := d)" for d
    unfolding r s [symmetric] using a by (simp_all only: ata_disk_def Let_def)
  show "disk (ios @ command x) = snd (served bad (disk ios) x)"
    by (simp add: command_def served_def A [unfolded One_nat_def])
  show "insl (ios @ command x) = fst (served False (disk ios) x)" if "flags x AND B_DIRTY = 0"
    using that by (simp add: command_def served_def A [unfolded One_nat_def])
qed

lemma array_under_way:
  assumes "ide_ok (b # q) s"
  obtains ios where "ports s = ios @ command (bufs s b)" "array_of disk s (b # q) = disk ios"
  using assms by (auto simp: ide_ok_def array_of_def)

lemma request_serves:
  assumes st: "ready_status st" and ok: "ide_ok q s" and m: "may_request b s"
  shows "\<exists>s'. iderw st b s = Inr s' \<and> queue s' (q @ [b]) \<and> holder s' b = Asleep \<and>
    array_of disk s' (q @ [b]) = array_of disk s q \<and> (\<forall>x. bdata (bufs s' x) = bdata (bufs s x))"
proof -
  obtain t where e: "iderw st b s = Inr ((linked q b s)\<lparr>holder := (holder s)(b := Asleep),
      ports := ports s @ (if q = [] then command (bufs s b) else []), reads := t\<rparr>)" (is "_ = Inr ?s")
    using iderw_ok [OF st ok m] by metis
  have b: "b \<notin> set q" using not_queued [OF ok] m by (simp add: may_request_def)
  have same: "bdata (bufs ?s x) = bdata (bufs s x)" "command (bufs ?s x) = command (bufs s x)" for x
    using linked_same [OF b, of s x] by (auto simp: command_qnext)
  have "array_of disk ?s (q @ [b]) = array_of disk s q" unfolding array_of_def same by (cases q) simp_all
  then show ?thesis using e same request_keeps_ok [OF ok m, of t] by (auto simp: ide_ok_def)
qed

lemma interrupt_serves:
  assumes st: "ready_status st" and ok: "ide_ok q s" and a: "ata_disk disk insl"
  shows "\<exists>s'. ideintr insl st s = Inr s' \<and> queue s' (tl q) \<and>
       (case q of [] \<Rightarrow> s' = s
        | b # q' \<Rightarrow> holder s' b = Runs \<and> flags (bufs s' b) AND (B_VALID OR B_DIRTY) = B_VALID \<and>
            (bdata (bufs s' b), array_of disk s' q') = served (read_fails st (reads s)) (array_of disk s q) (bufs s b) \<and>
            (\<forall>x. x \<noteq> b \<longrightarrow> bufs s' x = bufs s x))"
proof (cases q)
  case Nil
  then show ?thesis using ok by (auto simp: ide_ok_def queue_def ideintr_def)
next
  case (Cons b q')
  note ok = ok [unfolded Cons]
  let ?bad = "read_fails st (reads s)"
  obtain t where e: "ideintr insl st s = Inr (s\<lparr>idequeue := qnext (bufs s b),
      bufs := (bufs s)(b := finished ?bad (insl (ports s)) (bufs s b)), holder := (holder s)(b := Runs),
      ports := ports s @ (if q' = [] then [] else command (bufs s (hd q'))), reads := t\<rparr>)" (is "_ = Inr ?s")
    using ideintr_ok [OF st ok, of insl] by metis
  obtain ios where ios: "ports s = ios @ command (bufs s b)" "array_of disk s (b # q') = disk ios"
    using array_under_way [OF ok] by metis
  have p: "pending (bufs s b)" "b \<notin> set q'" using ok by (auto simp: ide_ok_def queue_def)
  have "array_of disk ?s q' = disk (ports s)" using p(2) by (cases q') (auto simp: array_of_def)
  then have "array_of disk ?s q' = snd (served ?bad (disk ios) (bufs s b))" using command_effect(1) [OF a p(1)] ios(1) by simp
  moreover have "bdata (bufs ?s b) = fst (served ?bad (disk ios) (bufs s b))"
    using command_effect(2) [OF a p(1), of ios] ios(1) by (auto simp: finished_def served_def)
  ultimately have "(bdata (bufs ?s b), array_of disk ?s q') = served ?bad (array_of disk s q) (bufs s b)"
    unfolding Cons ios(2) by (simp add: prod_eq_iff)
  moreover have "queue ?s (tl q)"
    using interrupt_keeps_ok [OF ok, where bad = ?bad and d = "insl (ports s)" and t = t] Cons by (simp add: ide_ok_def)
  moreover have "flags (bufs ?s b) AND (B_VALID OR B_DIRTY) = B_VALID" by (simp add: finished_def done_flags_done)
  ultimately show ?thesis using e Cons by auto
qed

text \<open>
  C19. The driver serves requests in the order of the calls, whatever the interleaving of callers and interrupts: a
  process asleep in \<open>iderw\<close> always has its buffer in the queue; \<open>iderw\<close> never panics for a caller that keeps the rules
  and appends its buffer; an interrupt takes the first buffer off, marks it valid and clean, wakes its holder, and
  what it read or wrote is the sector of the disk as the requests before it left it, but for a read whose status shows
  an error: its buffer keeps the bytes it had.
\<close>

theorem ide_serves_in_order:
  assumes r: "ide_reachable insl st s" and st: "ready_status st" and a: "ata_disk disk insl"
  shows "\<exists>q. queue s q \<and> (\<forall>b. holder s b = Asleep \<longleftrightarrow> b \<in> set q) \<and>
    (\<forall>b. may_request b s \<longrightarrow> (\<exists>s'. iderw st b s = Inr s' \<and> queue s' (q @ [b]) \<and> holder s' b = Asleep \<and>
       array_of disk s' (q @ [b]) = array_of disk s q \<and> (\<forall>x. bdata (bufs s' x) = bdata (bufs s x)))) \<and>
    (\<exists>s'. ideintr insl st s = Inr s' \<and> queue s' (tl q) \<and>
       (case q of [] \<Rightarrow> s' = s
        | b # q' \<Rightarrow> holder s' b = Runs \<and> flags (bufs s' b) AND (B_VALID OR B_DIRTY) = B_VALID \<and>
            (bdata (bufs s' b), array_of disk s' q') = served (read_fails st (reads s)) (array_of disk s q) (bufs s b) \<and>
            (\<forall>x. x \<noteq> b \<longrightarrow> bufs s' x = bufs s x)))"
proof -
  obtain q where ok: "ide_ok q s" using reachable_ok [OF r st] ..
  have "queue s q" "\<forall>b. holder s b = Asleep \<longleftrightarrow> b \<in> set q" using ok unfolding ide_ok_def by blast+
  then show ?thesis using request_serves [OF st ok] interrupt_serves [OF st ok a] by blast
qed

text \<open>A disk that does what it is told: the last registers before a command are its sector.\<close>

fun last_address :: "io list \<Rightarrow> bool \<times> nat" where
  "last_address (c # Outb _ a3 # Outb _ a2 # Outb _ a1 # Outb _ a0 # _) = address a0 a1 a2 a3"
| "last_address _ = (False, 0)"

fun written :: "io list \<Rightarrow> array" where
  "written [] = (\<lambda>_. [])"
| "written (Outb p v # ios) = written ios"
| "written (Outsl p d # ios) = (written ios)(last_address ios := d)"

definition a_disk :: "io list \<Rightarrow> array" where "a_disk ios = written (rev ios)"
definition a_data :: "io list \<Rightarrow> blk" where "a_data ios = a_disk ios (last_address (rev ios))"

lemma a_disk_ok: "ata_disk a_disk a_data"
  by (simp add: ata_disk_def a_disk_def a_data_def Let_def)

lemma always_ready: "ready_status (\<lambda>_. 0x40)"
  by (auto simp: ready_status_def IDE_BSY_def IDE_DRDY_def)

text \<open>Buffer 1 holds data for block 5; it is written by a call and the interrupt that follows.\<close>

definition one_dirty :: ide where
  "one_dirty = ide0 (\<lambda>_. \<lparr>flags = 4, dev = 0, blockno = 5, held = True, qnext = 0, bdata = [7]\<rparr>) False [] 0"

theorem ide_serves_in_order_witness:
  "\<exists>s1 s2. iderw (\<lambda>_. 0x40) 1 one_dirty = Inr s1 \<and> holder s1 1 = Asleep \<and> ideintr a_data (\<lambda>_. 0x40) s1 = Inr s2 \<and>
    holder s2 1 = Runs \<and> array_of a_disk s2 [] (False, 5) = [7]"
proof -
  have ok: "ide_ok [] one_dirty" by (simp add: one_dirty_def ide0_def ide_ok_def queue_def)
  have m: "may_request 1 one_dirty"
    by (simp add: one_dirty_def ide0_def may_request_def B_VALID_def B_DIRTY_def FSSIZE_def)
  obtain t where e: "iderw (\<lambda>_. 0x40) 1 one_dirty = Inr ((linked [] 1 one_dirty)\<lparr>holder := (holder one_dirty)(1 := Asleep),
      ports := ports one_dirty @ command (bufs one_dirty 1), reads := t\<rparr>)" (is "_ = Inr ?s")
    using iderw_ok [OF always_ready ok m] by auto
  have "ide_step a_data (\<lambda>_. 0x40) one_dirty ?s" by (rule ide_step.request [OF m e])
  then have r: "ide_reachable a_data (\<lambda>_. 0x40) ?s"
    unfolding ide_reachable_def one_dirty_def by blast
  have q1: "queue ?s [1]" by (simp add: queue_def linked_def one_dirty_def ide0_def)
  obtain q where q: "queue ?s q" and i: "\<exists>s'. ideintr a_data (\<lambda>_. 0x40) ?s = Inr s' \<and> queue s' (tl q) \<and>
       (case q of [] \<Rightarrow> s' = ?s
        | b # q' \<Rightarrow> holder s' b = Runs \<and> flags (bufs s' b) AND (B_VALID OR B_DIRTY) = B_VALID \<and>
            (bdata (bufs s' b), array_of a_disk s' q') = served (read_fails (\<lambda>_. 0x40) (reads ?s)) (array_of a_disk ?s q) (bufs ?s b) \<and>
            (\<forall>x. x \<noteq> b \<longrightarrow> bufs s' x = bufs ?s x))"
    using ide_serves_in_order [OF r always_ready a_disk_ok] by blast
  have "q = [1]" using q q1 chain_unique by (auto simp: queue_def)
  then have "\<exists>s'. ideintr a_data (\<lambda>_. 0x40) ?s = Inr s' \<and> holder s' 1 = Runs \<and>
      (bdata (bufs s' 1), array_of a_disk s' []) = served (read_fails (\<lambda>_. 0x40) (reads ?s)) (array_of a_disk ?s [1]) (bufs ?s 1)"
    using i by auto
  moreover have "snd (served bad D (bufs ?s 1)) (False, 5) = [7]" for bad D
    by (simp add: served_def sector_of_def linked_def one_dirty_def ide0_def B_DIRTY_def)
  moreover have "holder ?s 1 = Asleep" by simp
  ultimately show ?thesis using e by (metis snd_conv)
qed

section \<open>A failed read\<close>

text \<open>When the disk reports an error the buffer still becomes valid, with the bytes it had.\<close>

lemma read_error_ignored:
  assumes "idequeue s = b" "b \<noteq> 0" "qnext (bufs s b) = 0" "flags (bufs s b) = 0"
    and "st (reads s) = IDE_DRDY OR IDE_ERR"
  shows "\<exists>s'. ideintr insl st s = Inr s' \<and> flags (bufs s' b) = B_VALID \<and> bdata (bufs s' b) = bdata (bufs s b)"
proof -
  have "wait_loop st (reads s) = Some (st (reads s), reads s + 1)"
    using assms(5) by (subst wait_loop.simps) (simp add: IDE_BSY_def IDE_DRDY_def IDE_ERR_def)
  then show ?thesis using assms
    by (simp add: ideintr_def idewait_def bset_def Let_def IDE_BSY_def IDE_DRDY_def IDE_ERR_def IDE_DF_def B_VALID_def B_DIRTY_def)
qed

end
