(* ===== verification/Grep.thy ===== *)
theory Grep
  imports Prelude
begin

text \<open>
  The user program grep (grep.c): the matcher of Kernighan and Pike and the loop over the input
  buffer. A C string is the list of its characters before the terminator.
\<close>

section \<open>The matcher\<close>

function matchhere :: "string \<Rightarrow> string \<Rightarrow> bool" and matchstar :: "char \<Rightarrow> string \<Rightarrow> string \<Rightarrow> bool" where
  "matchhere re tx =
     (if re = [] then True
      else if chr_at re 1 = CHR ''*'' then matchstar (hd re) (drop 2 re) tx
      else if hd re = CHR ''$'' \<and> tl re = [] then tx = []
      else if tx \<noteq> [] \<and> (hd re = CHR ''.'' \<or> hd re = hd tx) then matchhere (tl re) (tl tx)
      else False)"
| "matchstar c re tx =
     (if matchhere re tx then True
      else if tx \<noteq> [] \<and> (hd tx = c \<or> c = CHR ''.'') then matchstar c re (tl tx)
      else False)"
  by pat_completeness auto
termination
  by (relation "measures [\<lambda>x. case x of Inl (re, tx) \<Rightarrow> 2 * length re | Inr (c, re, tx) \<Rightarrow> 2 * length re + 1,
      \<lambda>x. case x of Inl (re, tx) \<Rightarrow> length tx | Inr (c, re, tx) \<Rightarrow> length tx]")
    (auto simp: neq_Nil_conv)

declare matchhere.simps [simp del] matchstar.simps [simp del]

text \<open>The loop of \<open>match\<close>, which also looks at the empty end of the tx.\<close>

fun match_loop :: "string \<Rightarrow> string \<Rightarrow> bool" where
  "match_loop re [] = matchhere re []"
| "match_loop re (t # ts) = (matchhere re (t # ts) \<or> match_loop re ts)"

definition match :: "string \<Rightarrow> string \<Rightarrow> bool" where
  "match re tx = (if chr_at re 0 = CHR ''^'' then matchhere (drop 1 re) tx else match_loop re tx)"

section \<open>What a pattern means\<close>

text \<open>A single character, any number of them; \<open>None\<close> stands for the dot.\<close>

datatype piece = One "char option" | Star "char option"

definition item :: "char \<Rightarrow> char option" where
  "item c = (if c = CHR ''.'' then None else Some c)"

definition fits :: "char option \<Rightarrow> char \<Rightarrow> bool" where
  "fits i c \<longleftrightarrow> i = None \<or> i = Some c"

text \<open>The pieces of a pattern and whether a final dollar ties it to the end.\<close>

fun pieces :: "string \<Rightarrow> piece list \<times> bool" where
  "pieces [] = ([], False)"
| "pieces [c] = (if c = CHR ''$'' then ([], True) else ([One (item c)], False))"
| "pieces (c # d # re) =
     (if d = CHR ''*'' then let (ps, e) = pieces re in (Star (item c) # ps, e)
      else let (ps, e) = pieces (d # re) in (One (item c) # ps, e))"

fun lang :: "piece list \<Rightarrow> string set" where
  "lang [] = {[]}"
| "lang (One i # ps) = {c # w | c w. fits i c \<and> w \<in> lang ps}"
| "lang (Star i # ps) = {u @ w | u w. (\<forall>c\<in>set u. fits i c) \<and> w \<in> lang ps}"

text \<open>A prefix of the tx is in the language, all of it for a pattern tied to the end.\<close>

definition begins :: "piece list \<times> bool \<Rightarrow> string \<Rightarrow> bool" where
  "begins p tx \<longleftrightarrow> (\<exists>u v. tx = u @ v \<and> u \<in> lang (fst p) \<and> (snd p \<longrightarrow> v = []))"

lemma begins_Nil: "begins ([], e) tx \<longleftrightarrow> (e \<longrightarrow> tx = [])"
  by (auto simp: begins_def)

lemma beginsI: "u \<in> lang ps \<Longrightarrow> (e \<longrightarrow> v = []) \<Longrightarrow> begins (ps, e) (u @ v)"
  by (auto simp: begins_def)

lemma beginsE:
  assumes "begins (ps, e) tx"
  obtains u v where "tx = u @ v" "u \<in> lang ps" "e \<longrightarrow> v = []"
  using assms by (auto simp: begins_def)

lemma begins_One: "begins (One i # ps, e) tx \<longleftrightarrow> (\<exists>c w. tx = c # w \<and> fits i c \<and> begins (ps, e) w)"
proof
  assume "begins (One i # ps, e) tx"
  then obtain u v where "tx = u @ v" "u \<in> lang (One i # ps)" "e \<longrightarrow> v = []" by (rule beginsE)
  then obtain c w where "tx = c # (w @ v)" "fits i c" "w \<in> lang ps" "e \<longrightarrow> v = []" by auto
  then show "\<exists>c w. tx = c # w \<and> fits i c \<and> begins (ps, e) w" using beginsI by blast
next
  assume "\<exists>c w. tx = c # w \<and> fits i c \<and> begins (ps, e) w"
  then obtain c w where c: "tx = c # w" "fits i c" "begins (ps, e) w" by blast
  obtain u v where "w = u @ v" "u \<in> lang ps" "e \<longrightarrow> v = []" using c(3) by (rule beginsE)
  then show "begins (One i # ps, e) tx" using c beginsI [of "c # u" "One i # ps" e v] by auto
qed

lemma begins_Star:
  "begins (Star i # ps, e) tx \<longleftrightarrow>
     begins (ps, e) tx \<or> (\<exists>c w. tx = c # w \<and> fits i c \<and> begins (Star i # ps, e) w)" (is "?l \<longleftrightarrow> ?a \<or> ?b")
proof
  assume ?l
  then obtain x v where x: "tx = x @ v" "x \<in> lang (Star i # ps)" "e \<longrightarrow> v = []" by (rule beginsE)
  then obtain u w where u: "x = u @ w" "\<forall>c\<in>set u. fits i c" "w \<in> lang ps" by auto
  show "?a \<or> ?b"
  proof (cases u)
    case Nil
    then show ?thesis using u x beginsI [of w ps e v] by simp
  next
    case (Cons c u')
    then have "u' @ w \<in> lang (Star i # ps)" using u by auto
    then show ?thesis using Cons u x beginsI [of "u' @ w" "Star i # ps" e v] by auto
  qed
next
  assume "?a \<or> ?b"
  then show ?l
  proof
    assume ?a
    then obtain w v where w: "tx = w @ v" "w \<in> lang ps" "e \<longrightarrow> v = []" by (rule beginsE)
    then have "[] @ w \<in> lang (Star i # ps)" by fastforce
    then show ?l using w beginsI [of w "Star i # ps" e v] by simp
  next
    assume ?b
    then obtain c and y where y: "tx = c # y" "fits i c" "begins (Star i # ps, e) y" by blast
    obtain x v where x: "y = x @ v" "x \<in> lang (Star i # ps)" "e \<longrightarrow> v = []" using y(3) by (rule beginsE)
    then obtain u w where u: "x = u @ w" "\<forall>c\<in>set u. fits i c" "w \<in> lang ps" by auto
    have "\<forall>d\<in>set (c # u). fits i d" using u y(2) by simp
    then have "(c # u) @ w \<in> lang (Star i # ps)" using u(3) unfolding lang.simps by blast
    then show ?l using u x y beginsI [of "(c # u) @ w" "Star i # ps" e v] by simp
  qed
qed

lemma begins_anchor: "begins ([], e) tx \<longleftrightarrow> (e \<longrightarrow> tx = [])"
  by (auto simp: begins_def)

lemma fits_item: "fits (item c) d \<longleftrightarrow> c = CHR ''.'' \<or> c = d"
  by (auto simp: fits_def item_def)

lemma pieces_star: "chr_at (c # re) 1 = CHR ''*'' \<Longrightarrow> pieces (c # re) = (Star (item c) # fst (pieces (tl re)), snd (pieces (tl re)))"
  by (cases re) (auto simp: chr_at_def split: prod.splits)

lemma pieces_one:
  assumes "chr_at (c # re) 1 \<noteq> CHR ''*''" "\<not> (c = CHR ''$'' \<and> re = [])"
  shows "pieces (c # re) = (One (item c) # fst (pieces re), snd (pieces re))"
  using assms by (cases re) (auto simp: chr_at_def split: prod.splits)

lemma matchhere_begins:
  "matchhere re tx \<longleftrightarrow> begins (pieces re) tx"
  "matchstar c re tx \<longleftrightarrow> begins (Star (item c) # fst (pieces re), snd (pieces re)) tx"
proof (induction re tx and c re tx rule: matchhere_matchstar.induct)
  case (1 re tx)
  show ?case
  proof (cases re)
    case Nil
    then show ?thesis by (simp add: matchhere.simps begins_anchor)
  next
    case (Cons c r)
    consider (star) "chr_at re 1 = CHR ''*''" | (dollar) "chr_at re 1 \<noteq> CHR ''*''" "c = CHR ''$''" "r = []"
      | (one) "chr_at re 1 \<noteq> CHR ''*''" "\<not> (c = CHR ''$'' \<and> r = [])" by blast
    then show ?thesis
    proof cases
      case star
      then have "matchhere re tx = matchstar c (tl r) tx" using Cons by (subst matchhere.simps) (simp add: drop_Suc)
      then show ?thesis using 1(1) star Cons pieces_star [of c r] by (simp add: drop_Suc)
    next
      case dollar
      then show ?thesis using Cons by (subst matchhere.simps) (simp add: begins_anchor)
    next
      case one
      have p: "pieces re = (One (item c) # fst (pieces r), snd (pieces r))" using pieces_one [of c r] one Cons by simp
      show ?thesis
      proof (cases tx)
        case Nil
        then show ?thesis using one Cons unfolding p begins_One by (subst matchhere.simps) auto
      next
        case (Cons t ts)
        have "matchhere re tx = ((c = CHR ''.'' \<or> c = t) \<and> matchhere r ts)"
          using one \<open>re = c # r\<close> Cons by (subst matchhere.simps) auto
        moreover have "c = CHR ''.'' \<or> c = t \<Longrightarrow> matchhere r ts = begins (pieces r) ts"
          using 1(2) one \<open>re = c # r\<close> Cons by auto
        ultimately show ?thesis using Cons unfolding p begins_One by (auto simp: fits_item)
      qed
    qed
  qed
next
  case (2 c re tx)
  have "matchstar c re tx = (matchhere re tx \<or> (\<exists>t ts. tx = t # ts \<and> (c = CHR ''.'' \<or> c = t) \<and> matchstar c re ts))"
    by (subst matchstar.simps) (cases tx; auto)
  also have "\<dots> = (begins (pieces re) tx \<or> (\<exists>t ts. tx = t # ts \<and> fits (item c) t
      \<and> begins (Star (item c) # fst (pieces re), snd (pieces re)) ts))"
    using 2 by (cases "matchhere re tx") (auto simp: fits_item)
  finally show ?case using begins_Star [of "item c" "fst (pieces re)" "snd (pieces re)" tx] by simp
qed

lemma match_loop_iff: "match_loop re tx \<longleftrightarrow> (\<exists>k\<le>length tx. matchhere re (drop k tx))"
proof (induction tx)
  case (Cons t ts)
  have "(\<exists>k\<le>length (t # ts). matchhere re (drop k (t # ts)))
      = (matchhere re (t # ts) \<or> (\<exists>k\<le>length ts. matchhere re (drop k ts)))"
    (is "?l = ?r")
  proof
    assume ?l
    then obtain k where "k \<le> length (t # ts)" "matchhere re (drop k (t # ts))" by blast
    then show ?r by (cases k) auto
  next
    assume ?r
    then show ?l by (auto intro: exI [of _ 0] exI [of _ "Suc _"])
  qed
  then show ?case using Cons.IH by simp
qed simp

text \<open>
  C7. The matcher of grep decides the meaning of its patterns: a line matches exactly when some part of it
  is in the language of the pattern, a part that starts the line after a caret and
  ends it before a final dollar.
\<close>

theorem match_decides:
  "match re tx \<longleftrightarrow>
     (let anchored = chr_at re 0 = CHR ''^''; p = pieces (if anchored then drop 1 re else re) in
      \<exists>u v w. tx = u @ v @ w \<and> v \<in> lang (fst p) \<and> (anchored \<longrightarrow> u = []) \<and> (snd p \<longrightarrow> w = []))"
proof (cases "chr_at re 0 = CHR ''^''")
  case True
  then show ?thesis by (simp add: match_def matchhere_begins begins_def Let_def)
next
  case False
  have "match re tx \<longleftrightarrow> (\<exists>k\<le>length tx. begins (pieces re) (drop k tx))"
    using False by (simp add: match_def match_loop_iff matchhere_begins)
  also have "\<dots> \<longleftrightarrow> (\<exists>u r. tx = u @ r \<and> begins (pieces re) r)"
  proof
    assume "\<exists>k\<le>length tx. begins (pieces re) (drop k tx)"
    then obtain k where "begins (pieces re) (drop k tx)" by blast
    moreover have "tx = take k tx @ drop k tx" by simp
    ultimately show "\<exists>u r. tx = u @ r \<and> begins (pieces re) r" by blast
  next
    assume "\<exists>u r. tx = u @ r \<and> begins (pieces re) r"
    then obtain u r where "tx = u @ r" "begins (pieces re) r" by blast
    then show "\<exists>k\<le>length tx. begins (pieces re) (drop k tx)" by (intro exI [of _ "length u"]) simp
  qed
  also have "\<dots> \<longleftrightarrow> (\<exists>u v w. tx = u @ v @ w \<and> v \<in> lang (fst (pieces re)) \<and> (snd (pieces re) \<longrightarrow> w = []))"
    unfolding begins_def by blast
  finally show ?thesis using False by (simp add: Let_def)
qed

section \<open>The input loop\<close>

text \<open>The pattern \<open>^a*b.$\<close> on a line that it matches: the parts are read off the equivalence.\<close>

theorem match_decides_witness:
  "match ''^a*b.$'' ''aabc'' \<and>
     (\<exists>u v w. ''aabc'' = u @ v @ w \<and> v \<in> lang [Star (Some CHR ''a''), One (Some CHR ''b''), One None] \<and> u = [] \<and> w = [])"
proof -
  have m: "match ''^a*b.$'' ''aabc''" by (simp add: match_def matchhere.simps matchstar.simps chr_at_def)
  have p: "pieces ''a*b.$'' = ([Star (Some CHR ''a''), One (Some CHR ''b''), One None], True)"
    by (simp add: item_def Let_def)
  show ?thesis using m match_decides [of "''^a*b.$''" "''aabc''"] p by (simp add: chr_at_def)
qed

text \<open>
  The lines of the buffer from \<open>p\<close> on: \<open>strchr\<close> looks for the next line end and stops at a zero byte.
  Result: what is written and what is left in the buffer.
\<close>

function buffer_lines :: "string \<Rightarrow> string \<Rightarrow> string list \<times> string" where
  "buffer_lines pattern p =
     (let q = scan_while (\<lambda>c. c \<noteq> CHR 0x0A \<and> c \<noteq> CHR 0x00) p 0 in
      if q < length p \<and> p ! q = CHR 0x0A
      then let line = take q p; (out, rest) = buffer_lines pattern (drop (q + 1) p) in
        (if match pattern line then (line @ [CHR 0x0A]) # out else out, rest)
      else ([], p))"
  by pat_completeness auto
termination
  by (relation "measure (\<lambda>(pattern, p). length p)") auto

declare buffer_lines.simps [simp del]

text \<open>
  One round of the loop: \<open>m\<close> is what the buffer holds, \<open>d\<close> what \<open>read\<close> returned. When no
  line ended the buffer is emptied.
\<close>

definition grep_round :: "string \<Rightarrow> string \<Rightarrow> string \<Rightarrow> string list \<times> string" where
  "grep_round pattern m d =
     (let (out, rest) = buffer_lines pattern (m @ d) in (out, if length rest = length (m @ d) then [] else rest))"

text \<open>
  The input is the list of the pieces that arrive (one for a file, one per write for a pipe); a
  \<open>read\<close> returns at most the room left in the buffer of 1024 bytes, one of which is for the
  terminator, and the loop ends when it returns nothing.
\<close>

function grep :: "string \<Rightarrow> string list \<Rightarrow> string \<Rightarrow> string list" where
  "grep pattern [] m = []"
| "grep pattern (d # ds) m =
     (let n = 1024 - length m - 1 in
      if take n d = [] then []
      else let (out, m) = grep_round pattern m (take n d) in
        out @ grep pattern (if drop n d = [] then ds else drop n d # ds) m)"
  by pat_completeness auto
termination
  by (relation "measure (\<lambda>(pattern, ds, m). sum_list (map length ds))") auto

declare grep.simps(2) [simp del]

text \<open>
  What \<open>read\<close> returns before the line has ended is thrown away: a line that comes in two parts
  is not found, as its first part is gone.
\<close>

lemma grep_loses_partial_line:
  "match ''ab'' ''abc'' \<and> grep ''ab'' [''ab'', ''c'' @ [CHR 0x0A]] [] = []"
  by (simp add: match_def matchhere.simps matchstar.simps chr_at_def grep_round_def grep.simps(2) buffer_lines.simps cstr_simps Let_def)

end
