(* ===== verification/FileRefs.thy ===== *)
theory FileRefs
  imports Trap
begin

text \<open>
  The reference counts of open files through one system call that runs to its end without another process in
  between: before and after it the count of a file is the number of descriptors that name it. The proof follows the
  call through its steps with a surplus \<open>d\<close>, the references the call itself holds. \<open>FdSteps\<close> interleaves the calls.
\<close>

section \<open>Descriptors that name a file\<close>

definition refs :: "ptable \<Rightarrow> nat \<Rightarrow> int" where
  "refs t f = (\<Sum>p\<leftarrow>procs t. int (count_list (ofile p) (Some f)))"

definition idle :: "proc \<Rightarrow> bool" where
  "idle p \<longleftrightarrow> pstate p = UNUSED \<or> pstate p = ZOMBIE"

definition fd_ok :: "nat \<Rightarrow> proc \<Rightarrow> bool" where
  "fd_ok n p \<longleftrightarrow> length (ofile p) = NOFILE \<and> (\<forall>f. Some f \<in> set (ofile p) \<longrightarrow> f < n)
     \<and> (idle p \<longrightarrow> set (ofile p) \<subseteq> {None})"

definition live :: "ksys \<Rightarrow> bool" where
  "live s \<longleftrightarrow> kcur s < length (procs (kpt s)) \<and> \<not> idle (kproc s)"

definition fds_ok :: "ksys \<Rightarrow> bool" where
  "fds_ok s \<longleftrightarrow> 0 < nextpid (kpt s) \<and> (\<forall>p\<in>set (procs (kpt s)). fd_ok (length (ftab (kst s))) p)"

definition bal :: "(nat \<Rightarrow> int) \<Rightarrow> ksys \<Rightarrow> bool" where
  "bal d s \<longleftrightarrow> live s \<and> fds_ok s \<and> (\<forall>f<length (ftab (kst s)). fref (the_file (kst s) f) = refs (kpt s) f + d f)"

lemma balD:
  assumes "bal d s"
  shows "live s" "fds_ok s" "f < length (ftab (kst s)) \<Longrightarrow> fref (the_file (kst s) f) = refs (kpt s) f + d f"
  using assms unfolding bal_def by blast+

lemma bal_fd: "bal d s \<Longrightarrow> fd_ok (length (ftab (kst s))) (kproc s)"
  using balD(1,2) by (simp add: live_def fds_ok_def)

abbreviation frefs :: "fstate \<Rightarrow> int list" where
  "frefs x \<equiv> map fref (ftab x)"

text \<open>Other parts of the state do not matter.\<close>

lemma frefs_eq: "frefs y = frefs x \<Longrightarrow> length (ftab y) = length (ftab x)
    \<and> (\<forall>f<length (ftab x). fref (the_file y f) = fref (the_file x f))"
  by (metis length_map nth_map)

lemma bal_kst: "frefs y = frefs (kst s) \<Longrightarrow> bal d (s\<lparr>kst := y\<rparr>) = bal d s"
  by (drule frefs_eq) (simp add: bal_def live_def fds_ok_def)

lemma bal_kst_upd [simp]:
  "bal d (s\<lparr>kst := kst s\<lparr>ffs := z\<rparr>\<rparr>) = bal d s"
  "bal d (s\<lparr>kst := kst s\<lparr>fkm := k\<rparr>\<rparr>) = bal d s"
  "bal d (s\<lparr>kst := kst s\<lparr>ffs := z, fkm := k\<rparr>\<rparr>) = bal d s"
  "bal d (s\<lparr>kticks := n\<rparr>) = bal d s"
  "bal d (kput a bs s) = bal d s"
  "bal d (set_kmem k s) = bal d s"
  by (simp_all add: bal_def live_def fds_ok_def kput_def set_kmem_def)

lemma post_kfs: "(\<And>z. P (s\<lparr>kst := kst s\<lparr>ffs := z\<rparr>\<rparr>)) \<Longrightarrow> post (kfs g s) P"
  by (auto simp: kfs_def on_kst_def on_fs_def rbind_eq_Inr post_def)

lemma post_kfs2: "(\<And>r z. P (r, s\<lparr>kst := kst s\<lparr>ffs := z\<rparr>\<rparr>)) \<Longrightarrow> post (kfs2 g s) P"
  by (auto simp: kfs2_def on_kst2_def on_fs2_def rbind_eq_Inr post_def)

lemma post_kfs_bal: "bal d s \<Longrightarrow> (\<And>u. bal d u \<Longrightarrow> P u) \<Longrightarrow> post (kfs g s) P"
  by (rule post_kfs) simp

lemma post_kfs2_bal: "bal d s \<Longrightarrow> (\<And>r u. bal d u \<Longrightarrow> P (r, u)) \<Longrightarrow> post (kfs2 g s) P"
  by (rule post_kfs2) simp

lemma post_kst: "post (g (kst s)) (\<lambda>y. P (s\<lparr>kst := y\<rparr>)) \<Longrightarrow> post (on_kst g s) P"
  by (simp add: on_kst_def)

lemma post_kst2: "post (g (kst s)) (\<lambda>(r, y). P (r, s\<lparr>kst := y\<rparr>)) \<Longrightarrow> post (on_kst2 g s) P"
  by (auto simp: on_kst2_def post_def rbind_eq_Inr)

lemma post_on_fs: "(\<And>z. P (x\<lparr>ffs := z\<rparr>)) \<Longrightarrow> post (on_fs g x) P"
  by (auto simp: on_fs_def rbind_eq_Inr post_def)

lemma post_on_fs2: "(\<And>r z. P (r, x\<lparr>ffs := z\<rparr>)) \<Longrightarrow> post (on_fs2 g x) P"
  by (auto simp: on_fs2_def rbind_eq_Inr post_def)

text \<open>One process changes: what its own descriptors do to the sum.\<close>

lemma sum_list_update_int:
  "i < length xs \<Longrightarrow> (\<Sum>p\<leftarrow>xs[i := y]. g p) = (\<Sum>p\<leftarrow>xs. g p) - g (xs ! i) + (g y :: int)"
proof (induction xs arbitrary: i)
  case (Cons x xs)
  then show ?case by (cases i) simp_all
qed simp

lemma refs_upd: "i < length (procs t) \<Longrightarrow> refs (upd i g t) f =
    refs t f - int (count_list (ofile (procs t ! i)) (Some f)) + int (count_list (ofile (g (procs t ! i))) (Some f))"
  by (simp add: refs_def upd_def sum_list_update_int)

lemma refs_cong:
  assumes "length (procs t') = length (procs t)" "\<And>i. i < length (procs t) \<Longrightarrow> ofile (procs t' ! i) = ofile (procs t ! i)"
  shows "refs t' f = refs t f"
proof -
  have "map (\<lambda>p. int (count_list (ofile p) (Some f))) (procs t') = map (\<lambda>p. int (count_list (ofile p) (Some f))) (procs t)"
    using assms by (intro nth_equalityI) simp_all
  then show ?thesis by (simp add: refs_def)
qed

lemma count_list_update:
  "i < length xs \<Longrightarrow> int (count_list (xs[i := v]) x)
     = int (count_list xs x) - of_bool (xs ! i = x) + of_bool (v = x)"
proof (induction xs arbitrary: i)
  case (Cons y ys)
  then show ?case by (cases i) simp_all
qed simp

text \<open>What changes no descriptor and makes no process idle.\<close>

definition calm :: "ptable \<Rightarrow> ptable \<Rightarrow> bool" where
  "calm t t' \<longleftrightarrow> nextpid t \<le> nextpid t' \<and> length (procs t') = length (procs t)
     \<and> (\<forall>i<length (procs t). ofile (procs t' ! i) = ofile (procs t ! i) \<and> idle (procs t' ! i) = idle (procs t ! i))"

lemma bal_calm:
  assumes c: "calm (kpt s) t" and b: "bal d s"
  shows "bal d (s\<lparr>kpt := t\<rparr>)"
proof -
  have l: "length (procs t) = length (procs (kpt s))" "nextpid (kpt s) \<le> nextpid t"
    and o: "\<And>i. i < length (procs (kpt s)) \<Longrightarrow> ofile (procs t ! i) = ofile (procs (kpt s) ! i)"
    and i: "\<And>i. i < length (procs (kpt s)) \<Longrightarrow> idle (procs t ! i) = idle (procs (kpt s) ! i)"
    using c unfolding calm_def by blast+
  have "live (s\<lparr>kpt := t\<rparr>)" using balD(1) [OF b] l i by (simp add: live_def)
  moreover have "fds_ok (s\<lparr>kpt := t\<rparr>)"
    using balD(2) [OF b] l o i
    by (simp add: fds_ok_def fd_ok_def all_set_conv_all_nth [of "procs t"] all_set_conv_all_nth [of "procs (kpt s)"])
  ultimately show ?thesis using balD(3) [OF b] refs_cong [OF l(1) o] by (simp add: bal_def)
qed

lemma calm_upd: "(\<And>p. ofile (g p) = ofile p) \<Longrightarrow> (\<And>p. idle (g p) = idle p) \<Longrightarrow> calm t (upd i g t)"
  by (simp add: calm_def upd_def nth_upd)

lemma calm_upd_at: "ofile (g (procs t ! i)) = ofile (procs t ! i) \<Longrightarrow> idle (g (procs t ! i)) = idle (procs t ! i) \<Longrightarrow> calm t (upd i g t)"
  by (simp add: calm_def upd_def nth_upd)

lemma bal_kset: "(\<And>p. ofile (g p) = ofile p) \<Longrightarrow> (\<And>p. idle (g p) = idle p) \<Longrightarrow> bal d s \<Longrightarrow> bal d (kset g s)"
  unfolding kset_def by (rule bal_calm [OF calm_upd])


section \<open>File operations that move no reference\<close>

lemma fset_frefs: "fref (g (the_file x f)) = fref (the_file x f) \<Longrightarrow> frefs (fset f g x) = frefs x"
  by (cases "f < length (ftab x)") (simp_all add: fset_def map_update list_update_same_conv list_update_beyond)

lemma fset_off_frefs [simp]: "frefs (fset f (\<lambda>x. x\<lparr>foff := h x\<rparr>) x) = frefs x"
  by (rule fset_frefs) simp

lemma filestat_frefs: "post (filestat f x) (\<lambda>(r, y). frefs y = frefs x)"
  by (auto simp: filestat_def Let_def intro!: post_on_fs)

lemma fileread_frefs: "post (fileread dsr kd f n x) (\<lambda>(r, y). frefs y = frefs x)"
  by (auto simp: fileread_def Let_def split: fdtype.splits option.splits prod.splits rresult.splits
      intro!: post_on_fs post_on_fs2)

lemma write_round_frefs: "post (write_round dsw f bs x) (\<lambda>(r, y). frefs y = frefs x)"
  by (auto simp: write_round_def Let_def split: option.splits intro!: post_on_fs post_on_fs2)

lemma filewrite_loop_frefs: "post (filewrite_loop dsw f src x) (\<lambda>(r, y). frefs y = frefs x)"
proof (induction dsw f src x rule: filewrite_loop.induct)
  case (1 dsw f src x)
  show ?case
  proof (cases "src = []")
    case False
    have "post (case r of None \<Rightarrow> Inr (False, z) | Some n \<Rightarrow>
        if n \<noteq> length (take write_max src) then Inl (Panic ''short filewrite'')
        else filewrite_loop dsw f (drop (length (take write_max src)) src) z) (\<lambda>(r, y). frefs y = frefs x)"
      if "frefs z = frefs x" for r z
    proof (cases r)
      case (Some n)
      have "post (filewrite_loop dsw f (drop (length (take write_max src)) src) z) (\<lambda>(r, y). frefs y = frefs z)"
        if "n = length (take write_max src)" by (rule "1.IH" [OF False refl refl]) (simp add: that)
      then show ?thesis using that Some by simp
    qed (use that in simp)
    then show ?thesis using False write_round_frefs [of dsw f "take write_max src" x]
      by (subst filewrite_loop.simps) (auto simp: Let_def elim!: post_mono)
  qed (simp add: filewrite_loop.simps)
qed

lemma filewrite_frefs: "post (filewrite dsw kd f src x) (\<lambda>(r, y). frefs y = frefs x)"
  using filewrite_loop_frefs [of dsw f src x]
  by (auto simp: filewrite_def Let_def split: fdtype.splits option.splits prod.splits wresult.splits elim!: post_mono)


section \<open>Operations that move references\<close>

lemma bal_fset:
  assumes "bal d s" "f < length (ftab (kst s))" "fref (g (the_file (kst s) f)) = fref (the_file (kst s) f) + k"
  shows "bal (d(f := d f + k)) (s\<lparr>kst := fset f g (kst s)\<rparr>)"
  using assms by (auto simp: bal_def live_def fds_ok_def fset_def nth_list_update)

lemma filealloc_Some:
  assumes "filealloc x = Some (f, y)"
  shows "f < length (ftab x)" "fref (the_file x f) = 0" "y = fset f (\<lambda>x. x\<lparr>fref := 1\<rparr>) x"
  using assms first_index_Some by (auto simp: filealloc_def split: option.splits)

lemma filealloc_bal:
  assumes "filealloc (kst s) = Some (f, x)" "bal d s"
  shows "bal (d(f := d f + 1)) (s\<lparr>kst := x\<rparr>) \<and> f < length (ftab x) \<and> length (ftab x) = length (ftab (kst s))"
  using filealloc_Some [OF assms(1)] bal_fset [OF assms(2), of f "\<lambda>x. x\<lparr>fref := 1\<rparr>" 1] by (simp add: fset_def)

lemma filedup_bal:
  assumes "bal d s" "f < length (ftab (kst s))"
  shows "post (filedup f (kst s)) (\<lambda>x. bal (d(f := d f + 1)) (s\<lparr>kst := x\<rparr>) \<and> length (ftab x) = length (ftab (kst s)))"
  using bal_fset [OF assms, of "\<lambda>x. x\<lparr>fref := fref x + 1\<rparr>" 1] by (auto simp: filedup_def fset_def)

lemma fclose_frefs: "post (pipe_shut kend a w x) (\<lambda>y. frefs y = frefs x)"
  by (auto simp: pipe_shut_def post_def rbind_eq_Inr split: option.splits prod.splits if_splits)

lemma fileclose_bal:
  assumes "bal d s" "f < length (ftab (kst s))"
  shows "post (fileclose kend f (kst s)) (\<lambda>x. bal (d(f := d f - 1)) (s\<lparr>kst := x\<rparr>) \<and> length (ftab x) = length (ftab (kst s)))"
proof -
  let ?a = "fset f (\<lambda>x. x\<lparr>fref := fref x - 1\<rparr>) (kst s)"
  have a: "bal (d(f := d f - 1)) (s\<lparr>kst := ?a\<rparr>)" "length (ftab ?a) = length (ftab (kst s))"
    using bal_fset [OF assms, of "\<lambda>x. x\<lparr>fref := fref x - 1\<rparr>" "- 1"] by (simp_all add: fset_def)
  let ?b = "fset f (\<lambda>x. x\<lparr>fref := 0, ftype := FD_NONE\<rparr>) ?a"
  have b: "frefs ?b = frefs ?a" if "\<not> fref (the_file (kst s) f) < 1" "\<not> fref (the_file ?a f) > 0"
    using that assms(2) by (intro fset_frefs) (simp add: fset_def)
  have fin: "bal (d(f := d f - 1)) (s\<lparr>kst := y\<rparr>) \<and> length (ftab y) = length (ftab (kst s))" if "frefs y = frefs ?a" for y
    using a frefs_eq [OF that] bal_kst [of y "s\<lparr>kst := ?a\<rparr>"] that by simp
  have p: "post (pipe_shut kend u w y) (\<lambda>y. bal (d(f := d f - 1)) (s\<lparr>kst := y\<rparr>) \<and> length (ftab y) = length (ftab (kst s)))"
    if "frefs y = frefs ?a" for u w y
    by (rule post_mono [OF fclose_frefs]) (simp only: fin that)
  show ?thesis unfolding fileclose_def Let_def using b fin p
    by (auto split: fdtype.splits intro!: post_on_fs)
qed

lemma argfd_file:
  assumes "argfd s n = Some (fd, f)" "bal d s"
  shows "fd < NOFILE \<and> ofile (kproc s) ! fd = Some f \<and> f < length (ftab (kst s))"
proof -
  obtain w where w: "argint s n = Some w" "\<not> (w <s 0 \<or> of_nat NOFILE \<le>s w)" "fd = unat w" "ofile (kproc s) ! fd = Some f"
    using assms(1) by (auto simp: argfd_def split: option.splits if_splits)
  have "0 \<le> sint w" "sint w < 16" using w(2) by (simp_all add: word_sless_alt word_sle_eq NOFILE_def)
  then have "unat w < 16" using sint_nonneg(1) [of w] by linarith
  then have fd: "fd < NOFILE" by (simp add: NOFILE_def w(3))
  have "fd_ok (length (ftab (kst s))) (kproc s)" by (rule bal_fd [OF assms(2)])
  then have "f < length (ftab (kst s))" using fd w(4) unfolding fd_ok_def by (metis nth_mem)
  then show ?thesis using fd w(4) by simp
qed


text \<open>One descriptor of the running process changes.\<close>

definition set_fd :: "nat \<Rightarrow> nat option \<Rightarrow> ksys \<Rightarrow> ksys" where
  "set_fd fd v s = kset (\<lambda>p. p\<lparr>ofile := (ofile p)[fd := v]\<rparr>) s"

lemma set_fd_bal:
  assumes b: "bal d s" and fd: "fd < NOFILE" and v: "\<forall>f. v = Some f \<longrightarrow> f < length (ftab (kst s))"
  shows "bal (\<lambda>f. d f + of_bool (ofile (kproc s) ! fd = Some f) - of_bool (v = Some f)) (set_fd fd v s)"
proof -
  note B = balD [OF b]
  have c: "kcur s < length (procs (kpt s))" "\<not> idle (kproc s)" using B(1) by (simp_all add: live_def)
  have ok: "fd_ok (length (ftab (kst s))) (kproc s)" using B(2) c by (simp add: fds_ok_def)
  let ?p = "(kproc s)\<lparr>ofile := (ofile (kproc s))[fd := v]\<rparr>"
  have i: "\<not> idle ?p" using c(2) by (simp add: idle_def)
  have "fd_ok (length (ftab (kst s))) ?p"
    using ok v i set_update_subset_insert [of "ofile (kproc s)" fd v] unfolding fd_ok_def by auto
  then have "\<forall>p\<in>set ((procs (kpt s))[kcur s := ?p]). fd_ok (length (ftab (kst s))) p"
    using B(2) set_update_subset_insert [of "procs (kpt s)" "kcur s" ?p] unfolding fds_ok_def by blast
  then have "fds_ok (set_fd fd v s)" using B(2) by (simp add: fds_ok_def set_fd_def kset_def upd_def)
  moreover have "live (set_fd fd v s)" using c i by (simp add: live_def set_fd_def kset_def upd_def)
  moreover have "fd < length (ofile (kproc s))" using ok fd by (simp add: fd_ok_def)
  ultimately show ?thesis using B(3) c(1)
    by (simp add: bal_def set_fd_def kset_def refs_upd count_list_update)
qed

lemma fdalloc_bal:
  assumes "fdalloc f s = Some (fd, s')" "bal d s" "f < length (ftab (kst s))"
  shows "bal (d(f := d f - 1)) s' \<and> kst s' = kst s \<and> ofile (kproc s') ! fd = Some f \<and> fd < NOFILE"
proof -
  have l: "kcur s < length (procs (kpt s))" "length (ofile (kproc s)) = NOFILE"
    using balD(1,2) [OF assms(2)] by (simp_all add: live_def fds_ok_def fd_ok_def)
  have f: "fd < NOFILE" "ofile (kproc s) ! fd = None" and s': "s' = set_fd fd (Some f) s"
    using assms(1) first_index_Some [of "\<lambda>x. x = None" "ofile (kproc s)" fd] l(2)
    by (auto simp: fdalloc_def set_fd_def split: option.splits)
  have e: "(\<lambda>g. d g + of_bool (ofile (kproc s) ! fd = Some g) - of_bool (Some f = Some g)) = d(f := d f - 1)"
    using f(2) by auto
  have "bal (\<lambda>g. d g + of_bool (ofile (kproc s) ! fd = Some g) - of_bool (Some f = Some g)) s'"
    unfolding s' by (rule set_fd_bal [OF assms(2) f(1)]) (simp add: assms(3))
  then have "bal (d(f := d f - 1)) s'" unfolding e .
  then show ?thesis using s' l f by (simp add: set_fd_def kset_def upd_def)
qed

lemma fdfree_bal:
  assumes b: "bal d s" and f: "ofile (kproc s) ! fd = Some f" "fd < NOFILE"
  shows "bal (d(f := d f + 1)) (fdfree fd s) \<and> kst (fdfree fd s) = kst s"
proof -
  have "(\<lambda>g. d g + of_bool (ofile (kproc s) ! fd = Some g) - of_bool (None = Some g)) = d(f := d f + 1)"
    using f(1) by auto
  moreover have "fdfree fd s = set_fd fd None s" by (simp add: fdfree_def set_fd_def)
  moreover have "kst (fdfree fd s) = kst s" by (simp add: fdfree_def)
  ultimately show ?thesis using set_fd_bal [OF b f(2), of None] by simp
qed

lemma dup_files_bal:
  "bal d s \<Longrightarrow> \<forall>f. Some f \<in> set ofs \<longrightarrow> f < length (ftab (kst s)) \<Longrightarrow>
    post (dup_files ofs (kst s)) (\<lambda>x. bal (\<lambda>f. d f + int (count_list ofs (Some f))) (s\<lparr>kst := x\<rparr>))"
proof (induction ofs arbitrary: d s)
  case (Cons v ofs)
  show ?case
  proof (cases v)
    case None
    then show ?thesis using Cons by simp
  next
    case (Some f)
  have "post (dup_files ofs x) (\<lambda>y. bal (\<lambda>g. d g + int (count_list (Some f # ofs) (Some g))) (s\<lparr>kst := y\<rparr>))"
    if x: "filedup f (kst s) = Inr x" "bal (d(f := d f + 1)) (s\<lparr>kst := x\<rparr>)" "length (ftab x) = length (ftab (kst s))" for x
  proof -
    have "post (dup_files ofs x) (\<lambda>y. bal (\<lambda>g. (d(f := d f + 1)) g + int (count_list ofs (Some g))) (s\<lparr>kst := y\<rparr>))"
      using Cons.IH [OF x(2)] x(3) Cons.prems(2) by (simp del: fun_upd_apply)
    moreover have "(\<lambda>g. (d(f := d f + 1)) g + int (count_list ofs (Some g))) = (\<lambda>g. d g + int (count_list (Some f # ofs) (Some g)))"
      by auto
    ultimately show ?thesis by simp
  qed
  then show ?thesis using filedup_bal [OF Cons.prems(1), of f] Cons.prems(2) Some by (auto elim!: post_mono)
  qed
qed simp

lemma close_files_bal:
  "bal d s \<Longrightarrow> \<forall>f. Some f \<in> set ofs \<longrightarrow> f < length (ftab (kst s)) \<Longrightarrow>
    post (close_files kend ofs (kst s)) (\<lambda>x. bal (\<lambda>f. d f - int (count_list ofs (Some f))) (s\<lparr>kst := x\<rparr>))"
proof (induction ofs arbitrary: d s)
  case (Cons v ofs)
  show ?case
  proof (cases v)
    case None
    then show ?thesis using Cons by simp
  next
    case (Some f)
  have "post (close_files kend ofs x) (\<lambda>y. bal (\<lambda>g. d g - int (count_list (Some f # ofs) (Some g))) (s\<lparr>kst := y\<rparr>))"
    if x: "fileclose kend f (kst s) = Inr x" "bal (d(f := d f - 1)) (s\<lparr>kst := x\<rparr>)" "length (ftab x) = length (ftab (kst s))" for x
  proof -
    have "post (close_files kend ofs x) (\<lambda>y. bal (\<lambda>g. (d(f := d f - 1)) g - int (count_list ofs (Some g))) (s\<lparr>kst := y\<rparr>))"
      using Cons.IH [OF x(2)] x(3) Cons.prems(2) by (simp del: fun_upd_apply)
    moreover have "(\<lambda>g. (d(f := d f - 1)) g - int (count_list ofs (Some g))) = (\<lambda>g. d g - int (count_list (Some f # ofs) (Some g)))"
      by auto
    ultimately show ?thesis by simp
  qed
  then show ?thesis using fileclose_bal [OF Cons.prems(1), of f kend] Cons.prems(2) Some by (auto elim!: post_mono)
  qed
qed simp


section \<open>The system calls keep the counts\<close>

abbreviation zero :: "nat \<Rightarrow> int" where
  "zero \<equiv> \<lambda>_. 0"

lemma neg1_post [simp]: "post (neg1 s) P = P (- 1, s)"
  by (simp add: neg1_def)

lemma calm_kset: "(\<And>p. ofile (g p) = ofile p) \<Longrightarrow> (\<And>p. pstate (g p) = pstate p) \<Longrightarrow> bal d s \<Longrightarrow> bal d (kset g s)"
  by (rule bal_kset) (simp_all add: idle_def)

lemma transaction_bal: "bal d s \<Longrightarrow> post (transaction g s) (\<lambda>(r, s'). bal d s')"
  by (auto simp: transaction_def intro!: post_kfs post_kfs2)

lemma dup_bal:
  assumes b: "bal zero s"
  shows "post (sys_dup s) (\<lambda>(r, s'). bal zero s')"
proof -
  have "post (on_kst (filedup f) s1) (\<lambda>s2. bal zero s2)"
    if a: "argfd s 0 = Some (x, f)" and f: "fdalloc f s = Some (fd, s1)" for x f fd s1
  proof -
    have "f < length (ftab (kst s))" using argfd_file [OF a b] by simp
    then have "bal (zero(f := zero f - 1)) s1" "f < length (ftab (kst s1))" using fdalloc_bal [OF f b] by simp_all
    moreover have "(zero(f := zero f - 1))(f := (zero(f := zero f - 1)) f + 1) = zero" by auto
    ultimately show ?thesis using filedup_bal [of "zero(f := zero f - 1)" s1 f] by (intro post_kst) (auto elim!: post_mono)
  qed
  then show ?thesis using b by (auto simp: sys_dup_def split: option.splits elim!: post_mono)
qed

lemma read_bal: "bal d s \<Longrightarrow> post (sys_read dsr s) (\<lambda>(r, s'). bal d s')"
  by (auto simp: sys_read_def bal_kst split: option.splits intro!: post_kst2 post_mono [OF fileread_frefs])

lemma write_bal: "bal d s \<Longrightarrow> post (sys_write dsw s) (\<lambda>(r, s'). bal d s')"
  by (auto simp: sys_write_def bal_kst split: option.splits intro!: post_kst2 post_mono [OF filewrite_frefs])

lemma fstat_bal: "bal d s \<Longrightarrow> post (sys_fstat s) (\<lambda>(r, s'). bal d s')"
  by (auto simp: sys_fstat_def put_stat_def bal_kst split: option.splits intro!: post_kst2 post_mono [OF filestat_frefs])

lemma close_bal:
  assumes b: "bal zero s"
  shows "post (sys_close kend s) (\<lambda>(r, s'). bal zero s')"
proof -
  have "post (on_kst (fileclose kend f) (fdfree fd s)) (\<lambda>s2. bal zero s2)" if a: "argfd s 0 = Some (fd, f)" for fd f
  proof -
    have f: "f < length (ftab (kst s))" "fd < NOFILE" "ofile (kproc s) ! fd = Some f" using argfd_file [OF a b] by simp_all
    have "bal (zero(f := zero f + 1)) (fdfree fd s)" "f < length (ftab (kst (fdfree fd s)))"
      using fdfree_bal [OF b f(3,2)] f(1) by simp_all
    moreover have "(zero(f := zero f + 1))(f := (zero(f := zero f + 1)) f - 1) = zero" by auto
    ultimately show ?thesis using fileclose_bal [of "zero(f := zero f + 1)" "fdfree fd s" f kend]
      by (intro post_kst) (auto elim!: post_mono)
  qed
  then show ?thesis using b by (auto simp: sys_close_def split: option.splits elim!: post_mono)
qed


lemma chdir_bal: "bal d s \<Longrightarrow> post (sys_chdir s) (\<lambda>(r, s'). bal d s')"
  by (auto simp: sys_chdir_def split: option.splits intro!: post_kfs post_kfs2 calm_kset)

lemma open_fails_bal:
  assumes "case f of None \<Rightarrow> bal zero s | Some f \<Rightarrow> bal (zero(f := 1)) s \<and> f < length (ftab (kst s))"
  shows "post (open_fails kend ip f s) (\<lambda>(r, s'). bal zero s')"
proof (cases f)
  case (Some f)
  have e: "(zero(f := 1))(f := (zero(f := 1)) f - 1) = zero" by auto
  have "post (on_kst (fileclose kend f) s) (\<lambda>s. bal zero s)"
    using assms Some fileclose_bal [of "zero(f := 1)" s f kend, unfolded e] by (intro post_kst) (auto elim!: post_mono)
  then show ?thesis using Some by (auto simp: open_fails_def intro!: post_kfs elim!: post_mono)
qed (use assms in \<open>auto simp: open_fails_def intro!: post_kfs\<close>)

lemma open_bal:
  assumes b: "bal zero s"
  shows "post (sys_open kend s) (\<lambda>(r, s'). bal zero s')"
proof -
  have tail: "post (case filealloc (kst u) of None \<Rightarrow> open_fails kend ip None u
      | Some (f, x) \<Rightarrow> (case fdalloc f (u\<lparr>kst := x\<rparr>) of
          None \<Rightarrow> open_fails kend ip (Some f) (u\<lparr>kst := x\<rparr>)
        | Some (fd, s) \<Rightarrow> rbind (kfs (iunlock ip) s) (\<lambda>s. rbind (kfs fs_end s) (\<lambda>s.
            Inr (of_nat fd, s\<lparr>kst := fset f (open_file ip omode) (kst s)\<rparr>))))) (\<lambda>(r, s'). bal zero s')"
    if u: "bal zero u" for u ip omode
  proof (cases "filealloc (kst u)")
    case None
    then show ?thesis using u open_fails_bal [where f = None and s = u] by simp
  next
    case (Some fx)
    obtain f x where fx: "fx = (f, x)" by fastforce
    have a: "bal (zero(f := 1)) (u\<lparr>kst := x\<rparr>)" "f < length (ftab (kst (u\<lparr>kst := x\<rparr>)))"
      using filealloc_bal [of u f x zero] Some fx u by simp_all
    show ?thesis
    proof (cases "fdalloc f (u\<lparr>kst := x\<rparr>)")
      case None
      then show ?thesis using Some fx a open_fails_bal [where f = "Some f"] by simp
    next
      case fd: (Some y)
      obtain n v where y: "y = (n, v)" by fastforce
      have "(zero(f := 1))(f := (zero(f := 1)) f - 1) = zero" by auto
      then have v: "bal zero v" using fdalloc_bal [OF _ a] fd y by simp
      have "bal zero (v\<lparr>kst := fset f (open_file ip omode) (kst v\<lparr>ffs := z\<rparr>)\<rparr>)" for z
        using v by (simp add: bal_kst fset_frefs open_file_def)
      then show ?thesis using Some fx fd y v by (auto intro!: post_kfs)
    qed
  qed
  show ?thesis
  proof (cases "argstr s 0 = None \<or> argint s 1 = None")
    case False
    then obtain p m where a: "argstr s 0 = Some p" "argint s 1 = Some m" by auto
    have body: "post (case (r, u) of (None, s) \<Rightarrow> rbind (kfs fs_end s) neg1
        | (Some ip, s) \<Rightarrow> (case filealloc (kst s) of None \<Rightarrow> open_fails kend ip None s
            | Some (f, x) \<Rightarrow> (case fdalloc f (s\<lparr>kst := x\<rparr>) of
                None \<Rightarrow> open_fails kend ip (Some f) (s\<lparr>kst := x\<rparr>)
              | Some (fd, s) \<Rightarrow> rbind (kfs (iunlock ip) s) (\<lambda>s. rbind (kfs fs_end s) (\<lambda>s.
                  Inr (of_nat fd, s\<lparr>kst := fset f (open_file ip m) (kst s)\<rparr>)))))) (\<lambda>(r, s'). bal zero s')"
      if "bal zero u" for r :: "nat option" and u
      using that tail [OF that] by (cases r) (auto intro!: post_kfs_bal)
    show ?thesis unfolding sys_open_def a option.case prod.case post_simps
      by (rule post_kfs_bal [OF b], rule post_kfs2_bal, assumption, rule body)
  qed (use b in \<open>auto simp: sys_open_def split: option.splits\<close>)
qed

lemma pipe_fails_bal:
  assumes b: "bal (zero(rf := 1, wr := 1)) s" "rf \<noteq> wr" and l: "rf < length (ftab (kst s))" "wr < length (ftab (kst s))"
  shows "post (pipe_fails kend rf wr s) (\<lambda>(r, s'). bal zero s')"
proof -
  have e: "(zero(rf := 1, wr := 1))(rf := (zero(rf := 1, wr := 1)) rf - 1) = zero(wr := 1)"
    "(zero(wr := 1))(wr := (zero(wr := 1)) wr - 1) = zero" using b(2) by auto
  have "post (fileclose kend wr x) (\<lambda>y. bal zero (s\<lparr>kst := y\<rparr>))"
    if "bal (zero(wr := 1)) (s\<lparr>kst := x\<rparr>) \<and> length (ftab x) = length (ftab (kst s))" for x
    using fileclose_bal [of "zero(wr := 1)" "s\<lparr>kst := x\<rparr>" wr kend, unfolded e(2)] that l(2) by (auto elim!: post_mono)
  then show ?thesis using post_mono [OF fileclose_bal [OF b(1) l(1), of kend, unfolded e(1)]]
    by (simp add: pipe_fails_def on_kst_def)
qed


lemma pipe_files_frefs: "frefs (fset f1 (pipe_file a True) (fset f0 (pipe_file a False) x)) = frefs x"
  by (simp add: fset_frefs pipe_file_def)

lemma pipealloc_bal:
  assumes b: "bal zero s"
  shows "post (pipealloc kend (kst s)) (\<lambda>(r, x). case r of None \<Rightarrow> bal zero (s\<lparr>kst := x\<rparr>)
    | Some (rf, wr) \<Rightarrow> bal (zero(rf := 1, wr := 1)) (s\<lparr>kst := x\<rparr>) \<and> rf \<noteq> wr \<and> rf < length (ftab x) \<and> wr < length (ftab x))"
proof (cases "filealloc (kst s)")
  case (Some fx)
  obtain f0 x where fx: "fx = (f0, x)" by fastforce
  have a: "bal (zero(f0 := 1)) (s\<lparr>kst := x\<rparr>)" "f0 < length (ftab x)" using filealloc_bal [OF _ b] Some fx by simp_all
  have r1: "fref (the_file x f0) = 1" using filealloc_Some [of "kst s" f0 x] Some fx by (simp add: fset_def)
  have e: "(zero(f0 := 1))(f0 := (zero(f0 := 1)) f0 - 1) = zero" by auto
  show ?thesis
  proof (cases "filealloc x")
    case None
    have "post (fileclose kend f0 x) (\<lambda>x. bal zero (s\<lparr>kst := x\<rparr>))"
      using fileclose_bal [OF a(1), of f0 kend, unfolded e] a(2) by (auto elim!: post_mono)
    then show ?thesis using Some fx None by (simp add: pipealloc_def)
  next
    case s1: (Some fy)
    obtain f1 y where fy: "fy = (f1, y)" by fastforce
    have ne: "f1 \<noteq> f0" using r1 filealloc_Some(2) [of x f1 y] s1 fy by auto
    have "(zero(f0 := 1))(f1 := (zero(f0 := 1)) f1 + 1) = zero(f0 := 1, f1 := 1)" using ne by auto
    then have c: "bal (zero(f0 := 1, f1 := 1)) (s\<lparr>kst := y\<rparr>)" "f1 < length (ftab y)" "length (ftab y) = length (ftab x)"
      using filealloc_bal [of "s\<lparr>kst := x\<rparr>" f1 y, OF _ a(1)] s1 fy by simp_all
    have cl: "post (rbind (fileclose kend f0 y) (fileclose kend f1)) (\<lambda>z. bal zero (s\<lparr>kst := z\<rparr>))"
      using pipe_fails_bal [of f0 f1 "s\<lparr>kst := y\<rparr>" kend] c a(2) ne by (simp add: pipe_fails_def on_kst_def)
    have ok: "bal (zero(f0 := 1, f1 := 1)) (s\<lparr>kst := z\<rparr>)" "length (ftab z) = length (ftab y)" if "frefs z = frefs y" for z
      using bal_kst [of z "s\<lparr>kst := y\<rparr>"] frefs_eq [OF that] that c(1) by simp_all
    let ?z = "\<lambda>k P. fset f1 (pipe_file (fst (kalloc (fkm y))) True) (fset f0 (pipe_file (fst (kalloc (fkm y))) False)
      (y\<lparr>fkm := k, fpipes := P\<rparr>))"
    have o: "bal (zero(f0 := 1, f1 := 1)) (s\<lparr>kst := ?z k P\<rparr>)" "length (ftab (?z k P)) = length (ftab y)" for k P
      by (rule ok, simp add: pipe_files_frefs)+
    obtain p k where k: "kalloc (fkm y) = (p, k)" by fastforce
    show ?thesis
    proof (cases "p = 0")
      case True
      then show ?thesis using cl by (simp add: pipealloc_def Some fx s1 fy k Let_def)
    next
      case False
      then show ?thesis using o ne c(2,3) a(2) by (simp add: pipealloc_def Some fx s1 fy k Let_def)
    qed
  qed
qed (use b in \<open>simp add: pipealloc_def\<close>)


lemma pipe_bal:
  assumes b: "bal zero s"
  shows "post (sys_pipe kend s) (\<lambda>(r, s'). bal zero s')"
proof -
  have e: "(zero(rf := 1, wr := 1))(rf := (zero(rf := 1, wr := 1)) rf - 1) = zero(wr := 1)"
    "(zero(wr := 1))(wr := (zero(wr := 1)) wr - 1) = zero"
    "(zero(wr := 1))(rf := (zero(wr := 1)) rf + 1) = zero(rf := 1, wr := 1)" if "rf \<noteq> wr" for rf wr :: nat
    using that by auto
  have "post (case fdalloc rf u of None \<Rightarrow> pipe_fails kend rf wr u
      | Some (fd0, s) \<Rightarrow> (case fdalloc wr s of None \<Rightarrow> pipe_fails kend rf wr (fdfree fd0 s)
        | Some (fd1, s) \<Rightarrow>
            Inr (0, kput a (put32 4 (of_nat fd1) (put32 0 (of_nat fd0) (replicate 8 0))) s))) (\<lambda>(r, s'). bal zero s')"
    if u: "bal (zero(rf := 1, wr := 1)) u" "rf \<noteq> wr" "rf < length (ftab (kst u))" "wr < length (ftab (kst u))" for rf wr u a
  proof (cases "fdalloc rf u")
    case None
    then show ?thesis using pipe_fails_bal [OF u] by simp
  next
    case (Some x)
    obtain fd0 v where x: "fdalloc rf u = Some (fd0, v)" using Some by (cases x) simp
    have v: "bal (zero(wr := 1)) v" "kst v = kst u" "ofile (kproc v) ! fd0 = Some rf" "fd0 < NOFILE"
      using fdalloc_bal [OF x u(1,3)] unfolding e(1) [OF u(2)] by simp_all
    show ?thesis
    proof (cases "fdalloc wr v")
      case None
      have f: "bal (zero(rf := 1, wr := 1)) (fdfree fd0 v)" "kst (fdfree fd0 v) = kst u"
        using fdfree_bal [OF v(1,3,4)] v(2) unfolding e(3) [OF u(2)] by simp_all
      then show ?thesis using x None pipe_fails_bal [OF f(1) u(2), of kend] u(3,4) by simp
    next
      case (Some y)
      obtain fd1 w where y: "fdalloc wr v = Some (fd1, w)" using Some by (cases y) simp
      have "bal zero w" using fdalloc_bal [OF y v(1)] u(4) v(2) unfolding e(2) [OF u(2)] by simp
      then show ?thesis using x y by simp
    qed
  qed
  note body = this
  show ?thesis
  proof (cases "argptr s 0 8")
    case (Some a)
    show ?thesis unfolding sys_pipe_def Some option.case post_simps
    proof (rule post_kst2, rule post_mono [OF pipealloc_bal [OF b]], simp only: split_paired_all prod.case)
      fix r y assume "case r of None \<Rightarrow> bal zero (s\<lparr>kst := y\<rparr>) | Some (rf, wr) \<Rightarrow>
        bal (zero(rf := 1, wr := 1)) (s\<lparr>kst := y\<rparr>) \<and> rf \<noteq> wr \<and> rf < length (ftab y) \<and> wr < length (ftab y)"
      then show "post (case r of None \<Rightarrow> neg1 (s\<lparr>kst := y\<rparr>)
        | Some (rf, wr) \<Rightarrow> (case fdalloc rf (s\<lparr>kst := y\<rparr>) of None \<Rightarrow> pipe_fails kend rf wr (s\<lparr>kst := y\<rparr>)
           | Some (fd0, s) \<Rightarrow> (case fdalloc wr s of None \<Rightarrow> pipe_fails kend rf wr (fdfree fd0 s)
             | Some (fd1, s) \<Rightarrow>
                 Inr (0, kput a (put32 4 (of_nat fd1) (put32 0 (of_nat fd0) (replicate 8 0))) s)))) (\<lambda>(r, s'). bal zero s')"
        by (cases r; cases "the r") (auto intro!: body)
    qed
  qed (simp add: sys_pipe_def b)
qed


lemma count_none: "set xs \<subseteq> {None} \<Longrightarrow> count_list xs (Some f) = 0"
  by (induction xs) auto

lemma fork_files_bal:
  assumes b: "bal zero s" and f: "fork_slot i (kpt s) t" and r: "t' = set_runnable i (fork_parent (kcur s) i t)"
  shows "bal (\<lambda>f. 0 - int (count_list (ofile (kproc s)) (Some f))) (s\<lparr>kpt := t'\<rparr>)"
proof -
  let ?n = "length (ftab (kst s))"
  have i: "i < length (procs (kpt s))" "i < length (procs t)" "st (kpt s) i = UNUSED"
    and t: "length (procs t) = length (procs (kpt s))" "nextpid t = nextpid (kpt s) + 1"
      "ofile (procs t ! i) = ofile (procs (kpt s) ! i)" "\<And>j. j \<noteq> i \<Longrightarrow> procs t ! j = procs (kpt s) ! j"
    using f by (auto simp: fork_slot_def)
  have c: "kcur s < length (procs (kpt s))" "\<not> idle (kproc s)" using balD(1) [OF b] by (simp_all add: live_def)
  then have ne: "kcur s \<noteq> i" using i(3) by (auto simp: idle_def)
  have ok: "fd_ok ?n (procs (kpt s) ! j)" if "j < length (procs (kpt s))" for j using balD(2) [OF b] that by (simp add: fds_ok_def)
  have o: "length (ofile (kproc s)) = NOFILE" "length (ofile (procs (kpt s) ! i)) = NOFILE" "set (ofile (procs (kpt s) ! i)) \<subseteq> {None}"
    using ok [OF c(1)] ok [OF i(1)] i(3) by (simp_all add: fd_ok_def idle_def)
  have new: "ofile (procs t' ! i) = ofile (kproc s)" "pstate (procs t' ! i) = RUNNABLE"
  proof -
    have n: "ofile (procs (kpt s) ! i) ! k = None" if "k < NOFILE" for k
      using o(3) that nth_mem [of k "ofile (procs (kpt s) ! i)"] unfolding o(2) by blast
    have "map2 (\<lambda>f g. if f \<noteq> None then f else g) (ofile (kproc s)) (ofile (procs (kpt s) ! i)) = ofile (kproc s)"
      by (rule nth_equalityI) (simp_all add: o n)
    then show "ofile (procs t' ! i) = ofile (kproc s)" "pstate (procs t' ! i) = RUNNABLE"
      using i t ne by (simp_all add: r set_runnable_def fork_parent_def upd_nth)
  qed
  have old: "procs t' ! j = procs (kpt s) ! j" if "j \<noteq> i" for j
    using that i(2) t(4) by (simp add: r set_runnable_def fork_parent_def upd_nth)
  have l: "length (procs t') = length (procs (kpt s))" "nextpid t' = nextpid (kpt s) + 1"
    using t by (simp_all add: r set_runnable_def fork_parent_def)
  have eq: "procs t' = (procs (kpt s))[i := procs t' ! i]"
    by (rule nth_equalityI) (use l(1) old in \<open>simp_all add: nth_upd\<close>)
  have "refs t' f = refs (kpt s) f + int (count_list (ofile (kproc s)) (Some f))" for f
    unfolding refs_def by (subst eq) (simp add: sum_list_update_int [OF i(1)] new count_none [OF o(3)])
  moreover have "live (s\<lparr>kpt := t'\<rparr>)" using c l(1) old [OF ne] by (simp add: live_def)
  moreover have "fd_ok ?n (procs t' ! j)" if "j < length (procs t')" for j
  proof (cases "j = i")
    case True
    then show ?thesis using ok [OF c(1)] new by (simp add: fd_ok_def idle_def)
  qed (use that ok l(1) old in simp)
  then have "fds_ok (s\<lparr>kpt := t'\<rparr>)" using balD(2) [OF b] l by (simp add: fds_ok_def all_set_conv_all_nth [of "procs t'"])
  ultimately show ?thesis using balD(3) [OF b] by (simp add: bal_def)
qed

lemma fork_bal:
  assumes b: "bal zero s"
  shows "post (sys_fork kend kdata s) (\<lambda>(r, s'). bal zero s')"
proof -
  have pos: "0 < nextpid (kpt s)" using balD(2) [OF b] by (simp add: fds_ok_def)
  have fin: "post (if r = - 1 then Inr (- 1, u) else rbind (dup_files (ofile (kproc s)) (kst u)) (\<lambda>x. case cwd (kproc s) of
      None \<Rightarrow> Inl Fault | Some ip \<Rightarrow> Inr (of_int r, u\<lparr>kst := x\<lparr>ffs := snd (idup ip (ffs x))\<rparr>\<rparr>))) (\<lambda>(r, s'). bal zero s')"
    if fk: "fork kend kdata (kcur s) (fkm (kst s)) (kpt s) = Inr (r, k, t)"
      and u: "u = s\<lparr>kpt := t, kst := (kst s)\<lparr>fkm := k\<rparr>\<rparr>" for r k t u
    using fk
  proof (cases rule: fork_cases)
    case none
    then show ?thesis using b u by simp
  next
    case (failed i)
    then have "calm (kpt s) t" unfolding calm_def fork_slot_def by (metis idle_def order_refl zle_add1_eq_le less_imp_le zless_add1_eq)
    then have "bal zero (s\<lparr>kpt := t\<rparr>)" using b by (rule bal_calm)
    then show ?thesis using failed u bal_kst_upd(2) [of zero k "s\<lparr>kpt := t\<rparr>"] by simp
  next
    case (forks i t3)
    let ?o = "ofile (kproc s)"
    have b1: "bal (\<lambda>f. 0 - int (count_list ?o (Some f))) (s\<lparr>kpt := t\<rparr>)"
      by (rule fork_files_bal [OF b forks(2,3)])
    then have b2: "bal (\<lambda>f. 0 - int (count_list ?o (Some f))) u"
      using u bal_kst_upd(2) [of _ k "s\<lparr>kpt := t\<rparr>"] by simp
    have "\<forall>f. Some f \<in> set ?o \<longrightarrow> f < length (ftab (kst u))"
      using bal_fd [OF b] u by (simp add: fd_ok_def)
    then have "post (dup_files ?o (kst u)) (\<lambda>x. bal zero (u\<lparr>kst := x\<rparr>))" using dup_files_bal [OF b2, of ?o] by simp
    moreover have "bal zero (u\<lparr>kst := x\<lparr>ffs := z\<rparr>\<rparr>)" if "bal zero (u\<lparr>kst := x\<rparr>)" for x z
      using that bal_kst [of "x\<lparr>ffs := z\<rparr>" "u\<lparr>kst := x\<rparr>"] by simp
    ultimately show ?thesis using forks(1) pos by (auto elim!: post_mono split: option.split)
  qed
  show ?thesis unfolding sys_fork_def post_simps
    by (rule postI) (auto simp: Let_def intro: fin [OF _ refl, simplified])
qed


lemma reap_calm:
  assumes "wait_scan cur t = (Reaped p i, t')"
  shows "calm t t'"
proof -
  have "first_index (\<lambda>p. parent p = Some cur \<and> pstate p = ZOMBIE) (procs t) = Some i"
    and t': "t' = upd i (\<lambda>p. p\<lparr>kstack := 0, pid := 0, parent := None, pname := [], killed := False, pstate := UNUSED\<rparr>) t"
    using assms by (auto simp: wait_scan_def split: option.splits if_splits)
  then have "st t i = ZOMBIE" using first_index_Some by blast
  then show ?thesis unfolding t' by (intro calm_upd_at) (simp_all add: idle_def)
qed

lemma bal_kpt_fkm: "calm (kpt s) t \<Longrightarrow> bal d s \<Longrightarrow> bal d (s\<lparr>kpt := t, kst := (kst s)\<lparr>fkm := k\<rparr>\<rparr>)"
  using bal_kst_upd(2) [of d k "s\<lparr>kpt := t\<rparr>"] bal_calm by simp

lemma wait_bal: "bal d s \<Longrightarrow> post (sys_wait kend s) (\<lambda>(r, s'). bal d s')"
  by (auto simp: sys_wait_def neg1_def post_def rbind_eq_Inr intro!: bal_kpt_fkm dest: reap_calm
      split: prod.splits wait_result.splits)

lemma kill_calm: "calm t (snd (kill n t))"
  by (auto simp: kill_def idle_def calm_def upd_def nth_upd split: option.split)

lemma kill_bal: "bal d s \<Longrightarrow> post (sys_kill s) (\<lambda>(r, s'). bal d s')"
  using kill_calm [of "kpt s"] by (auto simp: sys_kill_def case_prod_beta intro!: bal_calm split: option.split)

lemma growproc_calm: "growproc kend cur n k t = Inr (ok, k', t') \<Longrightarrow> calm t t'"
  by (auto simp: growproc_def rbind_eq_Inr Let_def calm_def upd_def nth_upd idle_def split: if_splits)

lemma sbrk_bal: "bal d s \<Longrightarrow> post (sys_sbrk kend s) (\<lambda>(r, s'). bal d s')"
  by (auto simp: sys_sbrk_def neg1_def post_def rbind_eq_Inr Let_def intro!: bal_kpt_fkm dest: growproc_calm split: option.splits)

lemma small_bal:
  assumes "bal d s"
  shows "post (sys_getpid s) (\<lambda>(r, s'). bal d s')" "post (sys_sleep s) (\<lambda>(r, s'). bal d s')"
    "post (sys_uptime s) (\<lambda>(r, s'). bal d s')" "post (sys_alarm s) (\<lambda>(r, s'). bal d s')"
  using assms by (auto simp: sys_getpid_def sys_sleep_def sleep_test_def sys_uptime_def sys_alarm_def
      intro!: calm_kset split: option.split)

lemma exec_bad_bal: "bal d s \<Longrightarrow> post (exec_bad kend pd ip s) (\<lambda>(r, s'). bal d s')"
  by (cases "freevm kend pd (fkm (kst s))"; cases ip) (auto simp: exec_bad_def intro!: post_kfs_bal)


lemma post_res: "(\<And>x. P x) \<Longrightarrow> post m P"
  by (simp add: post_def)

lemma exec_bal:
  assumes b: "bal d s"
  shows "post (exec dsr kend kdata path argv s) (\<lambda>(r, s'). bal d s')"
proof -
  have commit: "bal d (set_kmem k (kset (exec_commit pd z ent sp path) u))" if "bal d u" for k pd z ent sp u
    using that by (auto simp: exec_commit_def intro!: calm_kset)
  have stack: "post (rbind (exec_stack kend pd z argv k) (\<lambda>(r, k). let s = set_kmem k u in
      case r of None \<Rightarrow> exec_bad kend pd None s
      | Some (z, sp) \<Rightarrow> let old = pgdir (kproc s); s = kset (exec_commit pd z ent sp path) s in
          rbind (freevm kend old k) (\<lambda>k. Inr (0, set_kmem k s)))) (\<lambda>(r, s'). bal d s')"
    if u: "bal d u" for u k pd z ent
    unfolding post_simps using u commit
    by (auto simp: Let_def exec_bad_bal split: option.split prod.split intro!: post_res)
  have load: "post (case w of (pd, r, x, k) \<Rightarrow> let s = u\<lparr>kst := (kst u)\<lparr>ffs := x, fkm := k\<rparr>\<rparr> in
      case r of None \<Rightarrow> exec_bad kend pd (Some ip) s
      | Some (z, ent) \<Rightarrow> rbind (kfs (iunlockput ip) s) (\<lambda>s. rbind (kfs fs_end s) (\<lambda>s.
          rbind (exec_stack kend pd z argv (fkm (kst s))) (\<lambda>(r, k).
          let s = set_kmem k s in
          case r of None \<Rightarrow> exec_bad kend pd None s
          | Some (z, sp) \<Rightarrow> let old = pgdir (kproc s); s = kset (exec_commit pd z ent sp path) s in
              rbind (freevm kend old k) (\<lambda>k. Inr (0, set_kmem k s)))))) (\<lambda>(r, s'). bal d s')"
    if u: "bal d u" for u ip w
  proof -
    obtain pd r x k where w: "w = (pd, r, x, k)" by (cases w) auto
    have u': "bal d (u\<lparr>kst := (kst u)\<lparr>ffs := x, fkm := k\<rparr>\<rparr>)" using u by simp
    show ?thesis
    proof (cases r)
      case None
      then show ?thesis using exec_bad_bal [OF u'] by (simp add: w Let_def)
    next
      case (Some ze)
      obtain z ent where ze: "ze = (z, ent)" by fastforce
      show ?thesis unfolding w prod.case Let_def Some option.case ze post_simps(3)
        by (rule post_kfs_bal [OF u'], rule post_kfs_bal, assumption)
          (rule stack [unfolded Let_def post_simps(3)])
    qed
  qed
  show ?thesis unfolding exec_def post_simps(3)
  proof (rule post_kfs_bal [OF b], rule post_kfs2_bal, assumption)
    fix r :: "nat option" and u assume u: "bal d u"
    show "post (case (r, u) of (None, s) \<Rightarrow> rbind (kfs fs_end s) neg1
      | (Some ip, s) \<Rightarrow> rbind (kfs (ilock ip) s) (\<lambda>s.
          rbind (exec_load dsr kend kdata ip (ffs (kst s)) (fkm (kst s))) (\<lambda>(pd, r, x, k).
          let s = s\<lparr>kst := (kst s)\<lparr>ffs := x, fkm := k\<rparr>\<rparr> in
          case r of None \<Rightarrow> exec_bad kend pd (Some ip) s
          | Some (z, ent) \<Rightarrow> rbind (kfs (iunlockput ip) s) (\<lambda>s. rbind (kfs fs_end s) (\<lambda>s.
              rbind (exec_stack kend pd z argv (fkm (kst s))) (\<lambda>(r, k).
              let s = set_kmem k s in
              case r of None \<Rightarrow> exec_bad kend pd None s
              | Some (z, sp) \<Rightarrow> let old = pgdir (kproc s); s = kset (exec_commit pd z ent sp path) s in
                  rbind (freevm kend old k) (\<lambda>k. Inr (0, set_kmem k s)))))))) (\<lambda>(r, s'). bal d s')"
    proof (cases r)
      case None
      then show ?thesis using u by (auto intro!: post_kfs_bal)
    next
      case (Some ip)
      show ?thesis unfolding Some prod.case option.case post_simps(3)
        by (rule post_kfs_bal [OF u], rule post_res, rule load)
    qed
  qed
qed

lemma sys_exec_bal: "bal d s \<Longrightarrow> post (sys_exec dsr kend kdata s) (\<lambda>(r, s'). bal d s')"
  by (auto simp: sys_exec_def exec_bal split: option.split)


text \<open>With nothing in hand: the counts are the descriptors. This holds between calls.\<close>

definition files_ok :: "ksys \<Rightarrow> bool" where
  "files_ok s \<longleftrightarrow> fds_ok s \<and> (\<forall>f<length (ftab (kst s)). fref (the_file (kst s) f) = refs (kpt s) f)"

lemma bal_zero: "bal zero s \<longleftrightarrow> live s \<and> files_ok s"
  by (simp add: bal_def files_ok_def conj_assoc)

text \<open>The table that \<open>exit\<close> leaves: the descriptors are gone, the process is a zombie.\<close>

lemma exit_table:
  assumes b: "bal (\<lambda>f. 0 - int (count_list (ofile (kproc s)) (Some f))) s"
    and e: "exit_zombie (kcur s) (exit_close (kcur s) (kpt s)) = Inr t"
  shows "files_ok (s\<lparr>kpt := t\<rparr>)"
proof -
  let ?c = "kcur s" and ?n = "length (ftab (kst s))" and ?t1 = "exit_close (kcur s) (kpt s)"
  have c: "?c < length (procs (kpt s))" using balD(1) [OF b] by (simp add: live_def)
  have l1: "length (procs ?t1) = length (procs (kpt s))" "nextpid ?t1 = nextpid (kpt s)" by (simp_all add: exit_close_def)
  have o1: "ofile (procs ?t1 ! j) = (if j = ?c then map (\<lambda>_. None) (ofile (kproc s)) else ofile (procs (kpt s) ! j))" for j
    using c by (simp add: exit_close_def upd_nth)
  have s1: "st ?t1 j = st (kpt s) j" for j using c by (simp add: exit_close_def upd_nth)
  note E = exit_zombie_spec [OF e, unfolded l1(1), OF c]
  have l: "length (procs t) = length (procs ?t1)" "nextpid t = nextpid (kpt s)" using E l1 by simp_all
  have o: "ofile (procs t ! j) = ofile (procs ?t1 ! j)" if "j < length (procs ?t1)" for j using E that l1(1) by simp
  have i: "idle (procs t ! j) = (j = ?c \<or> idle (procs (kpt s) ! j))" if "j < length (procs ?t1)" for j
    using E that l1(1) s1 by (auto simp: idle_def)
  have "refs t f = refs ?t1 f" for f by (rule refs_cong [OF l(1) o])
  moreover have "refs ?t1 f = refs (kpt s) f - int (count_list (ofile (kproc s)) (Some f))" for f
    unfolding exit_close_def by (subst refs_upd [OF c]) (simp add: count_none image_subset_iff)
  moreover have "fd_ok ?n (procs t ! j)" if j: "j < length (procs t)" for j
  proof -
    have "fd_ok ?n (procs (kpt s) ! j)" using balD(2) [OF b] j l(1) l1(1) by (simp add: fds_ok_def)
    then show ?thesis using o [of j] o1 [of j] i [of j] j l(1) by (auto simp: fd_ok_def)
  qed
  then have "fds_ok (s\<lparr>kpt := t\<rparr>)"
    using balD(2) [OF b] l by (simp add: fds_ok_def all_set_conv_all_nth [of "procs t"])
  ultimately show ?thesis using balD(3) [OF b] by (simp add: files_ok_def)
qed

lemma exit_ok:
  assumes b: "bal zero s"
  shows "post (exit_call kend atf s) files_ok"
proof -
  let ?d = "\<lambda>o' f. 0 - int (count_list o' (Some f))"
  have fin: "post (exit_zombie (kcur u) (exit_close (kcur u) (kpt u))) (\<lambda>t. files_ok (u\<lparr>kpt := t\<rparr>))"
    if "bal (?d (ofile (kproc s))) u" "kpt u = kpt s" "kcur u = kcur s" for u
    using exit_table [of u] that by (intro postI) simp
  have close: "post (on_kst (close_files kend (ofile (kproc u))) u) (\<lambda>v. bal (?d (ofile (kproc s))) v \<and> kpt v = kpt s \<and> kcur v = kcur s)"
    if u: "bal zero u" "kpt u = kpt s" "kcur u = kcur s" for u
  proof -
    have "\<forall>f. Some f \<in> set (ofile (kproc u)) \<longrightarrow> f < length (ftab (kst u))" using bal_fd [OF u(1)] by (simp add: fd_ok_def)
    then show ?thesis using close_files_bal [OF u(1), of "ofile (kproc u)" kend] u(2,3)
      by (intro post_kst) (auto elim!: post_mono)
  qed
  have fs: "post (on_kst (on_fs g) u) Q" if "bal d u" "\<And>v. bal d v \<Longrightarrow> kpt v = kpt u \<Longrightarrow> kcur v = kcur u \<Longrightarrow> Q v" for d g u Q
    unfolding kfs_def [symmetric] by (rule post_kfs) (use that in simp)
  have after: "post (rbind (on_kst (close_files kend (ofile (kproc s))) u) (\<lambda>s.
      rbind (on_kst (on_fs fs_begin) s) (\<lambda>s.
      rbind (case cwd (kproc s) of None \<Rightarrow> Inl Fault | Some ip \<Rightarrow> on_kst (on_fs (iput ip)) s) (\<lambda>s.
      rbind (on_kst (on_fs fs_end) s) (\<lambda>s.
      rbind (exit_zombie (kcur s) (exit_close (kcur s) (kpt s))) (\<lambda>t. Inr (s\<lparr>kpt := t\<rparr>))))))) files_ok"
    if u: "bal zero u" "kpt u = kpt s" "kcur u = kcur s" for u
    using close [OF u] u unfolding post_simps
    by (auto elim!: post_mono intro!: fs fin split: option.split)
  have "bal zero (s\<lparr>kst := (kst s)\<lparr>fkm := k\<rparr>\<rparr>)" for k using b by simp
  then show ?thesis unfolding exit_call_def using b after
    by (auto split: option.split intro!: post_res)
qed


lemma transactions_bal:
  assumes "bal d s"
  shows "post (sys_link s) (\<lambda>(r, s'). bal d s')" "post (sys_unlink s) (\<lambda>(r, s'). bal d s')"
    "post (sys_mkdir s) (\<lambda>(r, s'). bal d s')" "post (sys_mknod s) (\<lambda>(r, s'). bal d s')"
  using assms by (auto simp: sys_link_def sys_unlink_def sys_mkdir_def sys_mknod_def intro!: transaction_bal split: option.split)

lemmas calls_bal = fork_bal wait_bal pipe_bal read_bal kill_bal sys_exec_bal fstat_bal chdir_bal dup_bal small_bal
  sbrk_bal open_bal write_bal transactions_bal close_bal

lemma syscalls_bal: "Some f \<in> set (syscalls dsr dsw kend kdata) \<Longrightarrow> bal zero s \<Longrightarrow> post (f s) (\<lambda>(r, s'). bal zero s')"
  by (auto simp: syscalls_def calls_bal)

definition end_ok :: "trap_end \<Rightarrow> bool" where
  "end_ok r = (case r of TReturn s \<Rightarrow> bal zero s | TYield s \<Rightarrow> files_ok s | TExit s \<Rightarrow> files_ok s)"

lemma set_eax_bal: "bal d s \<Longrightarrow> bal d (set_eax r s)"
  by (simp add: set_eax_def calm_kset)

lemma syscall_ok:
  assumes b: "bal zero s"
  shows "post (syscall dsr dsw kend kdata atf s) end_ok"
proof -
  let ?tab = "syscalls dsr dsw kend kdata" and ?num = "eax (tf (kproc s))"
  have "post (rbind (f s) (\<lambda>(r, s). Inr (TReturn (set_eax r s)))) end_ok" if "unat ?num < length ?tab" "?tab ! unat ?num = Some f" for f
    using syscalls_bal [OF nth_mem [OF that(1), unfolded that(2)] b] unfolding post_simps
    by (auto elim!: post_mono simp: end_ok_def set_eax_bal)
  moreover have "post (rbind (exit_call kend atf s) (\<lambda>s. Inr (TExit s))) end_ok"
    using exit_ok [OF b] unfolding post_simps by (simp add: end_ok_def)
  moreover have "end_ok (TReturn (set_eax (- 1) s))" using b by (simp add: end_ok_def set_eax_bal)
  ultimately show ?thesis unfolding syscall_def Let_def by (auto split: option.split simp del: post_simps(3))
qed

text \<open>The handlers of the disk, the keyboard and the serial line only wake processes up.\<close>

definition quiet_devices :: "(u32 \<Rightarrow> ksys \<Rightarrow> ksys) \<Rightarrow> bool" where
  "quiet_devices dintr \<longleftrightarrow> (\<forall>n s. \<exists>chs. dintr n s = s\<lparr>kpt := fold wakeup chs (kpt s)\<rparr>)"

lemma calm_refl: "calm t t"
  by (simp add: calm_def)

lemma calm_trans: "calm t u \<Longrightarrow> calm u v \<Longrightarrow> calm t v"
  by (simp add: calm_def)

lemma wakeup_calm: "calm t (wakeup ch t)"
  by (simp add: calm_def wakeup_def wakeup1_nth idle_def)

lemma wakeups_calm: "calm t (fold wakeup chs t)"
proof (induction chs arbitrary: t)
  case (Cons ch chs)
  show ?case using calm_trans [OF wakeup_calm Cons.IH] by simp
qed (simp add: calm_refl)

lemma alarm_bal: "bal d s \<Longrightarrow> post (alarm_tick s) (bal d)"
proof -
  assume b: "bal d s"
  have fire: "post (alarm_fire u) (bal d)" if "bal d u" for u
    using that by (auto simp: alarm_fire_def alarm_page_def Let_def intro!: calm_kset split: option.splits prod.splits if_splits)
  have "bal d (kset alarm_restore s)" using b by (intro calm_kset) (auto simp: alarm_restore_def split: option.split)
  then show ?thesis unfolding alarm_tick_def alarm_count_def Let_def by (auto intro!: fire calm_kset)
qed

lemma interrupt_bal:
  assumes "bal d s" "quiet_devices dintr"
  shows "post (interrupt dintr cpu0 run f s) (bal d)"
proof -
  have "bal d (s\<lparr>kticks := n, kpt := wakeup ChTicks (kpt s)\<rparr>)" for n
    using bal_calm [of "s\<lparr>kticks := n\<rparr>" "wakeup ChTicks (kpt s)" d] wakeup_calm assms(1) by simp
  then have t: "post (timer_intr cpu0 run f s) (bal d)" using assms(1) by (simp add: timer_intr_def Let_def alarm_bal)
  have "bal d (dintr n s)" for n using assms by (metis quiet_devices_def bal_calm wakeups_calm)
  then show ?thesis using assms(1) t
    by (auto simp: interrupt_def Let_def default_trap_def intro!: calm_kset)
qed

lemma trap_ok:
  assumes b: "bal zero s" and q: "quiet_devices dintr"
  shows "post (trap dsr dsw kend kdata atf dintr cpu0 run f s) end_ok"
proof -
  have ex: "post (exit_call kend atf u) (\<lambda>x. end_ok (TExit x))" if "bal zero u" for u
    using exit_ok [OF that] by (simp add: end_ok_def)
  have sys: "post (syscall dsr dsw kend kdata atf u) (\<lambda>x. post (case x of
      TReturn s \<Rightarrow> if Proc.killed (kproc s) then rbind (exit_call kend atf s) (\<lambda>s. Inr (TExit s)) else Inr (TReturn s)
    | _ \<Rightarrow> Inr x) end_ok)" if "bal zero u" for u
    by (rule post_mono [OF syscall_ok [OF that]]) (auto split: trap_end.split intro!: exit_ok simp: end_ok_def)
  have yd: "files_ok (u\<lparr>kpt := yield (kcur u) (kpt u)\<rparr>)" if u: "bal zero u" for u
  proof -
    have "calm (kpt u) (yield (kcur u) (kpt u))"
      using balD(1) [OF u] unfolding yield_def by (intro calm_upd_at) (simp_all add: live_def idle_def)
    then show ?thesis using bal_calm [OF _ u] bal_zero by blast
  qed
  have int: "post (interrupt dintr cpu0 run f u) (\<lambda>s. post (killed_exit kend atf run f (\<lambda>s.
      if run \<and> st (kpt s) (kcur s) = RUNNING \<and> trapno f = T_IRQ0 + IRQ_TIMER
      then Inr (TYield (s\<lparr>kpt := yield (kcur s) (kpt s)\<rparr>)) else Inr (TReturn s)) s) end_ok)" if "bal zero u" for u
    by (rule post_mono [OF interrupt_bal [OF that q]]) (auto simp: killed_exit_def intro!: exit_ok yd simp: end_ok_def)
  have "bal zero (if run \<and> from_user f then kset (\<lambda>p. p\<lparr>tf := f\<rparr>) s else s)" using b by (simp add: calm_kset)
  then show ?thesis unfolding trap_def Let_def using sys int ex by auto
qed

end
