(* ===== verification/FdSteps.thy ===== *)
theory FdSteps
  imports FileRefs
begin

text \<open>
  Open files under interleaving. A system call that moves references is cut where another process can run: the file
  table is changed under \<open>ftable.lock\<close>, a descriptor is written by its own process, and \<open>fileclose\<close> may sleep after it
  has given its reference up. Each process is at a point of such a call, and the processes go on in any order.
\<close>

section \<open>Points of a call\<close>

text \<open>
  \<open>Duping fd f\<close>: \<open>sys_dup\<close> has the descriptor \<open>fd\<close> and has not called \<open>filedup\<close>. \<open>Opening f\<close>: \<open>sys_open\<close> has the file, no
  descriptor. \<open>Piping1\<close>, \<open>Piping2\<close>, \<open>PipingFd\<close>: \<open>sys_pipe\<close> with one file, with both, with the descriptor of the first.
  \<open>Dropping fs\<close>: these are to be closed. \<open>Forking i j\<close>: \<open>fork\<close> has allocated process \<open>i\<close> and is at the \<open>j\<close>-th descriptor;
  \<open>ForkHas i j f\<close>: it has called \<open>filedup\<close>, and not stored the result. \<open>Exiting fd\<close>: \<open>exit\<close> is at the descriptor \<open>fd\<close>;
  \<open>ExitHole fd\<close>: it has given up the reference of \<open>fd\<close>, which still names the file. \<open>Born\<close>: a process that \<open>fork\<close> makes.
\<close>

datatype act = Free | Born | Duping nat nat | Opening nat | Piping1 nat | Piping2 nat nat | PipingFd nat nat nat
  | Dropping "nat list" | Forking nat nat | ForkHas nat nat nat | Exiting nat | ExitHole nat

text \<open>The part of \<open>fileclose\<close> under the lock, and what follows when the file is no more in use.\<close>

definition drop_ref :: "nat \<Rightarrow> fstate \<Rightarrow> (kfile option \<times> fstate) res" where
  "drop_ref f s =
     (if fref (the_file s f) < 1 then Inl (Panic ''fileclose'')
      else let s = fset f (\<lambda>x. x\<lparr>fref := fref x - 1\<rparr>) s in
        if fref (the_file s f) > 0 then Inr (None, s)
        else Inr (Some (the_file s f), fset f (\<lambda>x. x\<lparr>fref := 0, ftype := FD_NONE\<rparr>) s))"

definition tear_down :: "u32 \<Rightarrow> kfile \<Rightarrow> fstate \<Rightarrow> fstate res" where
  "tear_down kend ff s = (case ftype ff of
     FD_PIPE \<Rightarrow> pipe_shut kend (fpipe ff) (fwritable ff) s
   | FD_INODE \<Rightarrow> rbind (on_fs fs_begin s) (\<lambda>s. rbind (on_fs (iput (fip ff)) s) (on_fs fs_end))
   | FD_NONE \<Rightarrow> Inr s)"

lemma fileclose_parts:
  "fileclose kend f s = rbind (drop_ref f s) (\<lambda>(r, s). case r of None \<Rightarrow> Inr s | Some ff \<Rightarrow> tear_down kend ff s)"
  by (simp add: fileclose_def drop_ref_def tear_down_def Let_def split: fdtype.split)

datatype fdcall = CDup | CClose | COpen | CPipe | CExit

text \<open>The first segment of a call, and each further one; \<open>mem\<close> is whether \<open>pipealloc\<close> gets its page.\<close>

definition enter :: "fdcall \<Rightarrow> ksys \<Rightarrow> (act \<times> ksys) res" where
  "enter c s = (case c of
     CDup \<Rightarrow> (case argfd s 0 of None \<Rightarrow> Inr (Free, s)
       | Some (_, f) \<Rightarrow> (case fdalloc f s of None \<Rightarrow> Inr (Free, s) | Some (fd, s) \<Rightarrow> Inr (Duping fd f, s)))
   | CClose \<Rightarrow> (case argfd s 0 of None \<Rightarrow> Inr (Free, s) | Some (fd, f) \<Rightarrow> Inr (Dropping [f], fdfree fd s))
   | COpen \<Rightarrow> (case filealloc (kst s) of None \<Rightarrow> Inr (Free, s) | Some (f, x) \<Rightarrow> Inr (Opening f, s\<lparr>kst := x\<rparr>))
   | CPipe \<Rightarrow> (case filealloc (kst s) of None \<Rightarrow> Inr (Free, s) | Some (f, x) \<Rightarrow> Inr (Piping1 f, s\<lparr>kst := x\<rparr>))
   | CExit \<Rightarrow> if kcur s = initproc (kpt s) then Inl (Panic ''init exiting'') else Inr (Exiting 0, s))"

fun segment :: "bool \<Rightarrow> act \<Rightarrow> ksys \<Rightarrow> (act \<times> ksys) res" where
  "segment mem (Duping fd f) s = rbind (on_kst (filedup f) s) (\<lambda>s. Inr (Free, s))"
| "segment mem (Opening f) s = (case fdalloc f s of None \<Rightarrow> Inr (Dropping [f], s) | Some (fd, s) \<Rightarrow> Inr (Free, s))"
| "segment mem (Piping1 f0) s = (case filealloc (kst s) of None \<Rightarrow> Inr (Dropping [f0], s)
     | Some (f1, x) \<Rightarrow> Inr (if mem then Piping2 f0 f1 else Dropping [f0, f1], s\<lparr>kst := x\<rparr>))"
| "segment mem (Piping2 rf wr) s = (case fdalloc rf s of None \<Rightarrow> Inr (Dropping [rf, wr], s)
     | Some (fd0, s) \<Rightarrow> Inr (PipingFd fd0 rf wr, s))"
| "segment mem (PipingFd fd0 rf wr) s = (case fdalloc wr s of None \<Rightarrow> Inr (Dropping [rf, wr], fdfree fd0 s)
     | Some (fd1, s) \<Rightarrow> Inr (Free, s))"
| "segment mem (Dropping []) s = Inr (Free, s)"
| "segment mem (Dropping (f # todo)) s = rbind (on_kst2 (drop_ref f) s) (\<lambda>(_, s). Inr (Dropping todo, s))"
| "segment mem (Forking i j) s =
     (if j < NOFILE then (case ofile (kproc s) ! j of None \<Rightarrow> Inr (Forking i (j + 1), s)
        | Some f \<Rightarrow> rbind (on_kst (filedup f) s) (\<lambda>s. Inr (ForkHas i j f, s)))
      else Inr (Forking i j, s))"
| "segment mem (ForkHas i j f) s = Inr (Forking i (j + 1), s\<lparr>kpt := upd i (\<lambda>p. p\<lparr>ofile := (ofile p)[j := Some f]\<rparr>) (kpt s)\<rparr>)"
| "segment mem (Exiting fd) s =
     (if fd < NOFILE then (case ofile (kproc s) ! fd of None \<Rightarrow> Inr (Exiting (fd + 1), s)
        | Some f \<Rightarrow> rbind (on_kst2 (drop_ref f) s) (\<lambda>(_, s). Inr (ExitHole fd, s)))
      else rbind (exit_zombie (kcur s) (kpt s)) (\<lambda>t. Inr (Free, s\<lparr>kpt := t\<rparr>)))"
| "segment mem (ExitHole fd) s = Inr (Exiting (fd + 1), fdfree fd s)"
| "segment mem Free s = Inr (Free, s)"
| "segment mem Born s = Inr (Born, s)"

section \<open>The processes\<close>

record fsys =
  kern :: ksys
  acts :: "nat \<Rightarrow> act"

definition at :: "nat \<Rightarrow> fsys \<Rightarrow> ksys" where
  "at p s = (kern s)\<lparr>kcur := p\<rparr>"

definition alive :: "nat \<Rightarrow> fsys \<Rightarrow> bool" where
  "alive p s \<longleftrightarrow> p < length (procs (kpt (kern s))) \<and> \<not> idle (procs (kpt (kern s)) ! p)"

text \<open>
  \<open>elsewhere\<close> is all other code of the kernel, and of the user: it moves no reference and no descriptor and makes no
  process idle that was not, or the other way round; memory, files, sleeping and waking, \<open>kill\<close> and \<open>wait\<close> are free.
\<close>

inductive fd_step :: "fsys \<Rightarrow> fsys \<Rightarrow> bool" where
  enters: "alive p s \<Longrightarrow> acts s p = Free \<Longrightarrow> enter c (at p s) = Inr (a, k) \<Longrightarrow>
    fd_step s (s\<lparr>kern := k, acts := (acts s)(p := a)\<rparr>)"
| goes_on: "alive p s \<Longrightarrow> acts s p \<noteq> Born \<Longrightarrow> segment mem (acts s p) (at p s) = Inr (a, k) \<Longrightarrow>
    fd_step s (s\<lparr>kern := k, acts := (acts s)(p := a)\<rparr>)"
| forks: "alive p s \<Longrightarrow> acts s p = Free \<Longrightarrow> allocproc (kpt (kern s)) = Some (i, t) \<Longrightarrow>
    fd_step s (s\<lparr>kern := (kern s)\<lparr>kpt := t\<rparr>, acts := (acts s)(p := Forking i 0, i := Born)\<rparr>)"
| fork_fails: "alive p s \<Longrightarrow> acts s p = Forking i 0 \<Longrightarrow>
    fd_step s (s\<lparr>kern := (kern s)\<lparr>kpt := alloc_failed i (kpt (kern s))\<rparr>, acts := (acts s)(p := Free, i := Free)\<rparr>)"
| fork_ends: "alive p s \<Longrightarrow> acts s p = Forking i NOFILE \<Longrightarrow>
    fd_step s (s\<lparr>kern := (kern s)\<lparr>kpt := set_runnable i (kpt (kern s))\<rparr>, acts := (acts s)(p := Free, i := Free)\<rparr>)"
| elsewhere: "calm (kpt (kern s)) (kpt k) \<Longrightarrow> frefs (kst k) = frefs (kst (kern s)) \<Longrightarrow> fd_step s (s\<lparr>kern := k\<rparr>)"

text \<open>The state in which init starts to run: no file is open.\<close>

definition fd_boot :: "u32 \<Rightarrow> nat \<Rightarrow> fstate \<Rightarrow> fsys" where
  "fd_boot pd root x = \<lparr>kern = \<lparr>kpt = run_proc 0 (tab (psys_boot pd root)), kcur = 0, kst = x, kticks = 0\<rparr>, acts = \<lambda>_. Free\<rparr>"

definition fd_reachable :: "fsys \<Rightarrow> bool" where
  "fd_reachable s \<longleftrightarrow> (\<exists>pd root x. (\<forall>f<length (ftab x). fref (the_file x f) = 0) \<and> fd_step\<^sup>*\<^sup>* (fd_boot pd root x) s)"

section \<open>Who has a reference\<close>

text \<open>The descriptors whose reference is counted, and the references that the call holds besides.\<close>

fun counted :: "act \<Rightarrow> nat option list \<Rightarrow> nat option list" where
  "counted (Duping fd f) fds = fds[fd := None]"
| "counted (ExitHole fd) fds = fds[fd := None]"
| "counted _ fds = fds"

fun in_hand :: "act \<Rightarrow> nat list" where
  "in_hand (Opening f) = [f]"
| "in_hand (Piping1 f) = [f]"
| "in_hand (Piping2 f g) = [f, g]"
| "in_hand (PipingFd _ f g) = [g]"
| "in_hand (Dropping todo) = todo"
| "in_hand (ForkHas _ _ f) = [f]"
| "in_hand _ = []"

definition descs :: "nat \<Rightarrow> fsys \<Rightarrow> nat option list" where
  "descs p s = ofile (procs (kpt (kern s)) ! p)"

definition own :: "act \<Rightarrow> nat option list \<Rightarrow> nat \<Rightarrow> int" where
  "own a fds f = int (count_list (counted a fds) (Some f)) + int (count_list (in_hand a) f)"

fun kid :: "act \<Rightarrow> (nat \<times> nat) option" where
  "kid (Forking i j) = Some (i, j)"
| "kid (ForkHas i j f) = Some (i, j)"
| "kid _ = None"

fun act_ok :: "nat \<Rightarrow> nat option list \<Rightarrow> act \<Rightarrow> bool" where
  "act_ok n fds (Duping fd f) \<longleftrightarrow> fd < NOFILE \<and> fds ! fd = Some f \<and> Some f \<in> set (fds[fd := None])"
| "act_ok n fds (PipingFd fd f g) \<longleftrightarrow> fd < NOFILE \<and> fds ! fd = Some f \<and> f < n \<and> g < n"
| "act_ok n fds (Exiting fd) \<longleftrightarrow> fd \<le> NOFILE \<and> (\<forall>j<fd. fds ! j = None)"
| "act_ok n fds (ExitHole fd) \<longleftrightarrow> fd < NOFILE \<and> fds ! fd \<noteq> None \<and> (\<forall>j<fd. fds ! j = None)"
| "act_ok n fds (ForkHas i j f) \<longleftrightarrow> j < NOFILE \<and> f < n"
| "act_ok n fds (Forking i j) \<longleftrightarrow> j \<le> NOFILE"
| "act_ok n fds a \<longleftrightarrow> (\<forall>f\<in>set (in_hand a). f < n)"

definition kid_ok :: "fsys \<Rightarrow> nat \<times> nat \<Rightarrow> bool" where
  "kid_ok s = (\<lambda>(i, j). alive i s \<and> acts s i = Born \<and> (\<forall>l. j \<le> l \<and> l < NOFILE \<longrightarrow> descs i s ! l = None))"

abbreviation nproc :: "fsys \<Rightarrow> nat" where "nproc s \<equiv> length (procs (kpt (kern s)))"
abbreviation nfile :: "fsys \<Rightarrow> nat" where "nfile s \<equiv> length (ftab (kst (kern s)))"

definition proc_ok :: "fsys \<Rightarrow> nat \<Rightarrow> bool" where
  "proc_ok s p \<longleftrightarrow> fd_ok (nfile s) (procs (kpt (kern s)) ! p) \<and> act_ok (nfile s) (descs p s) (acts s p) \<and>
     (idle (procs (kpt (kern s)) ! p) \<longrightarrow> acts s p = Free) \<and> (\<forall>ij. kid (acts s p) = Some ij \<longrightarrow> kid_ok s ij)"

definition exact :: "fsys \<Rightarrow> bool" where
  "exact s \<longleftrightarrow> (\<forall>f<nfile s. fref (the_file (kst (kern s)) f) = (\<Sum>p<nproc s. own (acts s p) (descs p s) f))"

definition fd_inv :: "fsys \<Rightarrow> bool" where
  "fd_inv s \<longleftrightarrow> exact s \<and> (\<forall>p<nproc s. proc_ok s p) \<and>
     (\<forall>p<nproc s. \<forall>q<nproc s. \<forall>i j l. kid (acts s p) = Some (i, j) \<and> kid (acts s q) = Some (i, l) \<longrightarrow> p = q)"

lemma sum_one:
  fixes p n :: nat
  assumes "p < n" "\<And>q. q < n \<Longrightarrow> q \<noteq> p \<Longrightarrow> g' q = g q"
  shows "(\<Sum>q<n. g' q) = (\<Sum>q<n. g q) - g p + (g' p :: int)"
proof -
  have r: "(\<Sum>q<n. h q) = h p + (\<Sum>q\<in>{..<n} - {p}. h q)" for h :: "nat \<Rightarrow> int"
    by (rule sum.remove) (use assms(1) in simp_all)
  have "(\<Sum>q<n. g q) = g p + (\<Sum>q\<in>{..<n} - {p}. g q)" "(\<Sum>q<n. g' q) = g' p + (\<Sum>q\<in>{..<n} - {p}. g' q)"
    by (rule r)+
  moreover have "(\<Sum>q\<in>{..<n} - {p}. g' q) = (\<Sum>q\<in>{..<n} - {p}. g q)" using assms(2) by (intro sum.cong) auto
  ultimately show ?thesis by linarith
qed

text \<open>One process goes on; the others keep their descriptors.\<close>

lemma one_step:
  assumes I: "fd_inv s" and p: "p < nproc s" "acts s p \<noteq> Born" and a: "a \<noteq> Born"
    and len: "length (procs (kpt k)) = nproc s" "length (ftab (kst k)) = nfile s"
    and others: "\<And>q. q < nproc s \<Longrightarrow> q \<noteq> p \<Longrightarrow> ofile (procs (kpt k) ! q) = descs q s \<and>
      idle (procs (kpt k) ! q) = idle (procs (kpt (kern s)) ! q)"
    and ok: "fd_ok (nfile s) (procs (kpt k) ! p)" "act_ok (nfile s) (ofile (procs (kpt k) ! p)) a"
      "idle (procs (kpt k) ! p) \<Longrightarrow> a = Free"
    and kid: "\<And>i j. kid a = Some (i, j) \<Longrightarrow> \<exists>l\<le>j. kid (acts s p) = Some (i, l)"
    and cnt: "\<And>f. f < nfile s \<Longrightarrow> fref (the_file (kst k) f) - fref (the_file (kst (kern s)) f)
      = own a (ofile (procs (kpt k) ! p)) f - own (acts s p) (descs p s) f"
  shows "fd_inv (s\<lparr>kern := k, acts := (acts s)(p := a)\<rparr>)" (is "fd_inv ?s")
proof -
  have o: "descs q ?s = (if q = p then ofile (procs (kpt k) ! p) else descs q s)" if "q < nproc s" for q
    using others that by (simp add: descs_def)
  have E: "exact s" and P: "\<And>q. q < nproc s \<Longrightarrow> proc_ok s q"
    and D: "\<And>q r i j l. q < nproc s \<Longrightarrow> r < nproc s \<Longrightarrow> kid (acts s q) = Some (i, j) \<Longrightarrow> kid (acts s r) = Some (i, l) \<Longrightarrow> q = r"
    using I unfolding fd_inv_def by blast+
  have "exact ?s" unfolding exact_def
  proof (intro allI impI)
    fix f assume f: "f < nfile ?s"
    let ?g = "\<lambda>q. own (acts s q) (descs q s) f" and ?g' = "\<lambda>q. own (acts ?s q) (descs q ?s) f"
    have "(\<Sum>q<nproc s. ?g' q) = (\<Sum>q<nproc s. ?g q) - ?g p + ?g' p"
      by (rule sum_one [OF p(1)]) (use o in simp)
    then show "fref (the_file (kst (kern ?s)) f) = (\<Sum>q<nproc ?s. ?g' q)"
      using cnt [of f] f E o [OF p(1)] len by (simp add: exact_def)
  qed
  moreover have kids: "kid_ok ?s (i, j)" if "kid_ok s (i, l)" "l \<le> j" for i j l
  proof -
    have "i \<noteq> p" "i < nproc s" using that p(2) by (auto simp: kid_ok_def alive_def)
    then show ?thesis using that others [of i] o [of i] len by (auto simp: kid_ok_def alive_def)
  qed
  have "proc_ok ?s q" if q: "q < nproc s" for q
  proof (cases "q = p")
    case True
    have "kid_ok ?s ij" if "kid a = Some ij" for ij
      using kid [of "fst ij" "snd ij"] that P [OF p(1)] kids unfolding proc_ok_def by (metis prod.collapse)
    then show ?thesis using True ok len by (simp add: proc_ok_def descs_def)
  next
    case False
    have "kid_ok ?s ij" if "kid (acts s q) = Some ij" for ij
      using that P [OF q] kids unfolding proc_ok_def by (metis prod.collapse order_refl)
    then show ?thesis using False P [OF q] others [OF q False] o [OF q] len
      by (simp add: proc_ok_def fd_ok_def) (simp add: descs_def)
  qed
  moreover have "q = r" if "q < nproc s" "r < nproc s" "kid (acts ?s q) = Some (i, j)" "kid (acts ?s r) = Some (i, l)" for q r i j l
    using that D [of q r i] kid [of i] p(1) by (auto split: if_splits)
  ultimately show ?thesis unfolding fd_inv_def using len by simp
qed

section \<open>Each segment keeps the counts\<close>

lemma at_simps [simp]: "kpt (at p s) = kpt (kern s)" "kcur (at p s) = p" "kst (at p s) = kst (kern s)"
  by (simp_all add: at_def)

lemma inv_proc:
  assumes "fd_inv s" "alive p s"
  shows "p < nproc s" "fd_ok (nfile s) (procs (kpt (kern s)) ! p)" "length (descs p s) = NOFILE"
    "act_ok (nfile s) (descs p s) (acts s p)" "Some f \<in> set (descs p s) \<Longrightarrow> f < nfile s"
    "kid (acts s p) = Some ij \<Longrightarrow> kid_ok s ij"
  using assms unfolding fd_inv_def alive_def proc_ok_def fd_ok_def descs_def by blast+

lemma fref_fset: "f < length (ftab x) \<Longrightarrow>
    fref (the_file (fset f g x) h) = (if h = f then fref (g (the_file x f)) else fref (the_file x h))"
  by (simp add: fset_def nth_list_update)

lemma length_fset [simp]: "length (ftab (fset f g x)) = length (ftab x)"
  by (simp add: fset_def)

lemma drop_ref_spec:
  assumes "drop_ref f x = Inr (r, y)" "f < length (ftab x)"
  shows "length (ftab y) = length (ftab x)" "fref (the_file y h) - fref (the_file x h) = - of_bool (h = f)"
  using assms by (auto simp: drop_ref_def Let_def fref_fset split: if_splits)

lemma filedup_spec:
  assumes "filedup f x = Inr y" "f < length (ftab x)"
  shows "length (ftab y) = length (ftab x)" "fref (the_file y h) - fref (the_file x h) = of_bool (h = f)"
  using assms by (auto simp: filedup_def fref_fset split: if_splits)

lemma filealloc_spec:
  assumes "filealloc x = Some (f, y)"
  shows "f < length (ftab x)" "length (ftab y) = length (ftab x)" "fref (the_file y h) - fref (the_file x h) = of_bool (h = f)"
  using filealloc_Some [OF assms] by (simp_all add: fref_fset)

text \<open>A new value of one descriptor of the process.\<close>

definition put_fd :: "nat \<Rightarrow> nat \<Rightarrow> nat option \<Rightarrow> ksys \<Rightarrow> ksys" where
  "put_fd p fd v k = k\<lparr>kpt := upd p (\<lambda>p. p\<lparr>ofile := (ofile p)[fd := v]\<rparr>) (kpt k)\<rparr>"

lemma put_fd_proc:
  assumes "p < length (procs (kpt k))"
  shows "ofile (procs (kpt (put_fd p fd v k)) ! q) = (if q = p then (ofile (procs (kpt k) ! p))[fd := v] else ofile (procs (kpt k) ! q))"
    "idle (procs (kpt (put_fd p fd v k)) ! q) = idle (procs (kpt k) ! q)"
    "length (procs (kpt (put_fd p fd v k))) = length (procs (kpt k))" "kst (put_fd p fd v k) = kst k" "kcur (put_fd p fd v k) = kcur k"
  using assms by (simp_all add: put_fd_def upd_nth idle_def)

lemma fdfree_put: "fdfree fd k = put_fd (kcur k) fd None k"
  by (simp add: fdfree_def put_fd_def kset_def)

lemma fdalloc_put:
  assumes "fdalloc f k = Some (fd, k')"
  shows "k' = put_fd (kcur k) fd (Some f) k" "fd < length (ofile (kproc k))" "ofile (kproc k) ! fd = None"
  using assms first_index_Some [of "\<lambda>x. x = None" "ofile (kproc k)" fd]
  by (auto simp: fdalloc_def put_fd_def kset_def split: option.splits)

lemma argfd_desc:
  assumes "fd_inv s" "alive p s" "argfd (at p s) 0 = Some (fd, f)"
  shows "fd < NOFILE" "descs p s ! fd = Some f" "f < nfile s"
proof -
  obtain v where v: "argint (at p s) 0 = Some v" using assms(3) by (auto simp: argfd_def split: option.splits)
  have w: "\<not> (v <s 0 \<or> of_nat NOFILE \<le>s v)" "fd = unat v" "ofile (kproc (at p s)) ! fd = Some f"
    using assms(3) v by (auto simp: argfd_def split: if_splits)
  have "0 \<le> sint v" "sint v < 16" using w(1) by (simp_all add: word_sless_alt word_sle_eq NOFILE_def)
  then have "unat v < 16" using sint_nonneg(1) [of v] by linarith
  then show fd: "fd < NOFILE" by (simp add: NOFILE_def w(2))
  show d: "descs p s ! fd = Some f" using w(3) by (simp add: descs_def)
  then show "f < nfile s" using inv_proc(3,5) [OF assms(1,2)] fd by (metis nth_mem)
qed

text \<open>Only the process at work, its descriptors and the counts change.\<close>

lemma put_step:
  assumes I: "fd_inv s" and p: "alive p s" "acts s p \<noteq> Born" and a: "a \<noteq> Born"
    and fd: "\<forall>f. v = Some f \<longrightarrow> f < nfile s"
    and ok: "act_ok (nfile s) ((descs p s)[fd := v]) a"
    and kid: "\<And>i j. kid a = Some (i, j) \<Longrightarrow> \<exists>l\<le>j. kid (acts s p) = Some (i, l)"
    and len: "length (ftab x) = nfile s"
    and cnt: "\<And>f. f < nfile s \<Longrightarrow> fref (the_file x f) - fref (the_file (kst (kern s)) f)
      = own a ((descs p s)[fd := v]) f - own (acts s p) (descs p s) f"
    and k: "k = (put_fd p fd v (at p s))\<lparr>kst := x\<rparr>"
  shows "fd_inv (s\<lparr>kern := k, acts := (acts s)(p := a)\<rparr>)"
proof -
  have n: "p < length (procs (kpt (at p s)))" "\<not> idle (procs (kpt (kern s)) ! p)" using p(1) by (simp_all add: alive_def)
  note F = put_fd_proc [OF n(1), of fd v]
  have o: "ofile (procs (kpt k) ! p) = (descs p s)[fd := v]" using F(1) [of p] by (simp add: k descs_def)
  have i: "\<not> idle (procs (kpt k) ! p)" using F(2) [of p] n(2) by (simp add: k)
  have "fd_ok (nfile s) (procs (kpt k) ! p)"
    using inv_proc(3,5) [OF I p(1)] fd i o set_update_subset_insert [of "descs p s" fd v] by (auto simp: fd_ok_def)
  moreover have "ofile (procs (kpt k) ! q) = descs q s \<and> idle (procs (kpt k) ! q) = idle (procs (kpt (kern s)) ! q)" if "q \<noteq> p" for q
    using F(1,2) [of q] that by (simp add: k descs_def)
  ultimately show ?thesis using F(3) n i o
    by (intro one_step [OF I _ p(2) a _ _ _ _ _ _ kid]) (simp_all add: k len ok cnt)
qed

text \<open>Steps that leave the descriptors as they are.\<close>

lemma still_step:
  assumes I: "fd_inv s" and p: "alive p s" "acts s p \<noteq> Born" and a: "a \<noteq> Born"
    and ok: "act_ok (nfile s) (descs p s) a"
    and kid: "\<And>i j. kid a = Some (i, j) \<Longrightarrow> \<exists>l\<le>j. kid (acts s p) = Some (i, l)"
    and len: "length (ftab x) = nfile s"
    and cnt: "\<And>f. f < nfile s \<Longrightarrow> fref (the_file x f) - fref (the_file (kst (kern s)) f)
      = own a (descs p s) f - own (acts s p) (descs p s) f"
    and k: "k = (at p s)\<lparr>kst := x\<rparr>"
  shows "fd_inv (s\<lparr>kern := k, acts := (acts s)(p := a)\<rparr>)"
proof -
  have i: "\<not> idle (procs (kpt (kern s)) ! p)" "p < nproc s" using p(1) by (simp_all add: alive_def)
  show ?thesis using i inv_proc(2) [OF I p(1)] ok
    by (intro one_step [OF I _ p(2) a _ _ _ _ _ _ kid]) (simp_all add: k len cnt descs_def)
qed

lemma own_free: "own Free fds f = int (count_list fds (Some f))"
  by (simp add: own_def)

lemma enter_inv:
  assumes I: "fd_inv s" and p: "alive p s" and a: "acts s p = Free" and e: "enter c (at p s) = Inr (a', k)"
  shows "fd_inv (s\<lparr>kern := k, acts := (acts s)(p := a')\<rparr>)"
proof -
  have nb: "acts s p \<noteq> Born" using a by simp
  have l: "length (descs p s) = NOFILE" by (rule inv_proc(3) [OF I p])
  have same: "fd_inv (s\<lparr>kern := at p s, acts := (acts s)(p := Free)\<rparr>)"
    by (rule still_step [OF I p nb, where x = "kst (kern s)"]) (simp_all add: a at_def)
  have alloc: "fd_inv (s\<lparr>kern := (at p s)\<lparr>kst := x\<rparr>, acts := (acts s)(p := b)\<rparr>)"
    if "filealloc (kst (kern s)) = Some (f, x)" "in_hand b = [f]" "b = Opening f \<or> b = Piping1 f" for f x b
    using filealloc_spec [OF that(1)] that(2,3)
    by (intro still_step [OF I p nb, where x = x]) (auto simp: a own_def)
  show ?thesis
  proof (cases c)
    case CDup
    show ?thesis
    proof (cases "argfd (at p s) 0")
      case None
      then show ?thesis using same e CDup by (simp add: enter_def)
    next
      case (Some x)
      obtain fd0 f where x: "argfd (at p s) 0 = Some (fd0, f)" using Some by (cases x) simp
      note A = argfd_desc [OF I p x]
      show ?thesis
      proof (cases "fdalloc f (at p s)")
        case None
        then show ?thesis using same e CDup x by (simp add: enter_def)
      next
        case (Some y)
        obtain fd k' where y: "fdalloc f (at p s) = Some (fd, k')" using Some by (cases y) simp
        note F = fdalloc_put [OF y, simplified]
        have fd: "fd < NOFILE" "descs p s ! fd = None" using F(2,3) l by (simp_all add: descs_def)
        have ek: "a' = Duping fd f" "k = k'" using e CDup x y by (simp_all add: enter_def)
        have "(descs p s)[fd := Some f, fd := None] ! fd0 = Some f" "fd0 < length ((descs p s)[fd := Some f, fd := None])"
          using A(1,2) fd l by (auto simp: nth_list_update)
        then have "Some f \<in> set ((descs p s)[fd := Some f, fd := None])" by (metis nth_mem)
        then show ?thesis using fd l A(3)
          by (intro put_step [OF I p nb, where x = "kst (kern s)" and fd = fd and v = "Some f"])
            (simp_all add: ek F(1) put_fd_def at_def a own_def count_list_update)
      qed
    qed
  next
    case CClose
    show ?thesis
    proof (cases "argfd (at p s) 0")
      case None
      then show ?thesis using same e CClose by (simp add: enter_def)
    next
      case (Some x)
      obtain fd f where x: "argfd (at p s) 0 = Some (fd, f)" using Some by (cases x) simp
      note A = argfd_desc [OF I p x]
      have ek: "a' = Dropping [f]" "k = put_fd p fd None (at p s)" using e CClose x by (simp_all add: enter_def fdfree_put)
      show ?thesis using A l
        by (intro put_step [OF I p nb, where x = "kst (kern s)" and fd = fd and v = None])
          (simp_all add: ek put_fd_def at_def a own_def count_list_update)
    qed
  next
    case COpen
    then show ?thesis using e same alloc by (auto simp: enter_def split: option.splits)
  next
    case CPipe
    then show ?thesis using e same alloc by (auto simp: enter_def split: option.splits)
  next
    case CExit
    then have ek: "a' = Exiting 0" "k = at p s" using e by (auto simp: enter_def split: if_splits)
    show ?thesis by (rule still_step [OF I p nb, where x = "kst (kern s)"]) (simp_all add: ek a at_def own_def)
  qed
qed

text \<open>\<open>ForkHas\<close> stores into the descriptors of the child.\<close>

lemma store_inv:
  assumes I: "fd_inv s" and p: "alive p s" and a: "acts s p = ForkHas i j f"
  shows "fd_inv (s\<lparr>kern := put_fd i j (Some f) (at p s), acts := (acts s)(p := Forking i (j + 1))\<rparr>)" (is "fd_inv ?s")
proof -
  have n: "p < nproc s" using p by (simp add: alive_def)
  have K: "kid_ok s (i, j)" and A: "j < NOFILE" "f < nfile s" using inv_proc(4,6) [OF I p] a by auto
  have i: "alive i s" "acts s i = Born" "descs i s ! j = None" and ni: "i < nproc s" "i \<noteq> p"
    using K A(1) a by (auto simp: kid_ok_def alive_def)
  have P: "proc_ok s q" if "q < nproc s" for q using I that by (simp add: fd_inv_def)
  have D: "q = r" if "q < nproc s" "r < nproc s" "kid (acts s q) = Some (i, j)" "kid (acts s r) = Some (i, l)" for q r i j l
    using I that unfolding fd_inv_def by blast
  have li: "length (descs i s) = NOFILE" by (rule inv_proc(3) [OF I i(1)])
  note F = put_fd_proc [of i "at p s" j "Some f", simplified, OF ni(1)]
  have o: "descs q (s\<lparr>kern := put_fd i j (Some f) (at p s), acts := A\<rparr>) = (if q = i then (descs i s)[j := Some f] else descs q s)"
    for q A by (simp add: descs_def F)
  have al: "alive q (s\<lparr>kern := put_fd i j (Some f) (at p s), acts := A\<rparr>) = alive q s" for q A by (simp add: alive_def F)
  let ?g = "\<lambda>q. own (acts s q) (descs q s)" and ?g' = "\<lambda>q. own (acts ?s q) (descs q ?s)"
  have "exact ?s" unfolding exact_def
  proof (intro allI impI)
    fix h assume h: "h < nfile ?s"
    let ?m = "\<lambda>q. if q = i then ?g' i h else ?g q h"
    have "(\<Sum>q<nproc s. ?m q) = (\<Sum>q<nproc s. ?g q h) - ?g i h + ?m i" by (rule sum_one [OF ni(1)]) simp
    moreover have "(\<Sum>q<nproc s. ?g' q h) = (\<Sum>q<nproc s. ?m q) - ?m p + ?g' p h" by (rule sum_one [OF n]) (simp add: o)
    moreover have "?m i - ?g i h = of_bool (h = f)" using i ni A(1) li by (auto simp: o own_def count_list_update)
    moreover have "?g' p h - ?m p = - of_bool (h = f)" using ni(2) a by (auto simp: o own_def)
    ultimately show "fref (the_file (kst (kern ?s)) h) = (\<Sum>q<nproc ?s. ?g' q h)"
      using h I by (simp add: fd_inv_def exact_def F)
  qed
  moreover have "proc_ok ?s q" if q: "q < nproc s" for q
  proof -
    have kids: "kid_ok ?s (i', j')" if "kid_ok s (i', l)" "l \<le> j'" "i' \<noteq> i \<or> j' > j" for i' j' l
      using that ni a li by (auto simp: kid_ok_def al o nth_list_update)
    have other: "i' \<noteq> i" if "q \<noteq> p" "kid (acts s q) = Some (i', l)" for i' l
      using D [of q p i' l j] that q n a by auto
    have k: "kid_ok ?s (i', j')" if "kid (acts ?s q) = Some (i', j')" for i' j'
    proof (cases "q = p")
      case True
      then show ?thesis using kids [OF K, of "j + 1"] that by auto
    next
      case False
      then have "kid (acts s q) = Some (i', j')" using that by simp
      then show ?thesis using kids [of i' j' j'] other [OF False] P [OF q] by (auto simp: proc_ok_def)
    qed
    have ofile: "ofile (procs (kpt (kern ?s)) ! q) = (if q = i then (descs i s)[j := Some f] else ofile (procs (kpt (kern s)) ! q))"
      by (simp add: F descs_def)
    have pi: "ofile (procs (kpt (put_fd i j (Some f) (at p s))) ! i) = (descs i s)[j := Some f]" by (simp add: F descs_def)
    have "fd_ok (nfile s) (procs (kpt (kern ?s)) ! q)"
    proof (cases "q = i")
      case True
      then show ?thesis using inv_proc(3,5) [OF I i(1)] A(2) i(1) set_update_subset_insert [of "descs i s" j "Some f"]
        by (auto simp: fd_ok_def pi F(2) alive_def)
    next
      case False
      then show ?thesis using P [OF q] by (simp add: proc_ok_def fd_ok_def ofile F)
    qed
    moreover have "act_ok (nfile s) (descs q ?s) (acts ?s q)"
      using P [OF q] i(2) ni(2) A(1) by (auto simp: proc_ok_def o)
    moreover have "idle (procs (kpt (kern ?s)) ! q) \<longrightarrow> acts ?s q = Free"
      using P [OF q] p by (auto simp: proc_ok_def F alive_def)
    ultimately show ?thesis using k by (auto simp: proc_ok_def F)
  qed
  moreover have "q = r" if "q < nproc s" "r < nproc s" "kid (acts ?s q) = Some (i', j')" "kid (acts ?s r) = Some (i', l)" for q r i' j' l
    using D [of q r i'] that a by (auto split: if_splits)
  ultimately show ?thesis unfolding fd_inv_def by (simp add: F)
qed

lemma segment_inv:
  assumes I: "fd_inv s" and p: "alive p s" and nb: "acts s p \<noteq> Born" and e: "segment mem (acts s p) (at p s) = Inr (a', k)"
  shows "fd_inv (s\<lparr>kern := k, acts := (acts s)(p := a')\<rparr>)"
proof -
  have l: "length (descs p s) = NOFILE" by (rule inv_proc(3) [OF I p])
  have A: "act_ok (nfile s) (descs p s) (acts s p)" by (rule inv_proc(4) [OF I p])
  have N: "descs p s ! j = Some f \<Longrightarrow> j < NOFILE \<Longrightarrow> f < nfile s" for j f using inv_proc(5) [OF I p] l by (metis nth_mem)
  have kp: "ofile (procs (kpt (kern s)) ! p) = descs p s" by (simp add: descs_def)
  note still = still_step [OF I p nb] and put = put_step [OF I p nb]
  have same: "fd_inv (s\<lparr>kern := at p s, acts := (acts s)(p := b)\<rparr>)"
    if "b \<noteq> Born" "act_ok (nfile s) (descs p s) b" "\<And>f. own b (descs p s) f = own (acts s p) (descs p s) f"
      "\<And>i j. kid b = Some (i, j) \<Longrightarrow> \<exists>l\<le>j. kid (acts s p) = Some (i, l)" for b
    by (rule still [where x = "kst (kern s)"]) (use that in \<open>simp_all add: at_def\<close>)
  have alloc: "fd < NOFILE \<and> descs p s ! fd = None \<and> k' = put_fd p fd (Some f) (at p s)" if "fdalloc f (at p s) = Some (fd, k')" for f fd k'
    using fdalloc_put [OF that] l by (simp add: kp)
  show ?thesis
  proof (cases "acts s p")
    case (Duping fd f)
    obtain x where x: "filedup f (kst (kern s)) = Inr x" "a' = Free" "k = (at p s)\<lparr>kst := x\<rparr>"
      using e Duping by (auto simp: on_kst_def rbind_eq_Inr)
    have f: "fd < NOFILE" "descs p s ! fd = Some f" using A Duping by simp_all
    show ?thesis using filedup_spec [OF x(1) N [OF f(2,1)]] f l
      by (intro still [where x = x]) (auto simp: x(2,3) Duping own_def count_list_update)
  next
    case (Opening f)
    show ?thesis
    proof (cases "fdalloc f (at p s)")
      case None
      then have "a' = Dropping [f]" "k = at p s" using e Opening by simp_all
      then show ?thesis using same [of "Dropping [f]"] A Opening by (simp add: own_def)
    next
      case (Some y)
      obtain fd k' where y: "fdalloc f (at p s) = Some (fd, k')" using Some by (cases y) simp
      then have "a' = Free" "k = k'" using e Opening by simp_all
      then show ?thesis using alloc [OF y] A Opening l
        by (intro put [where x = "kst (kern s)" and fd = fd and v = "Some f"]) (simp_all add: put_fd_def at_def own_def count_list_update)
    qed
  next
    case (Piping1 f0)
    show ?thesis
    proof (cases "filealloc (kst (kern s))")
      case None
      then have "a' = Dropping [f0]" "k = at p s" using e Piping1 by simp_all
      then show ?thesis using same [of "Dropping [f0]"] A Piping1 by (simp add: own_def)
    next
      case (Some y)
      obtain f1 x where y: "filealloc (kst (kern s)) = Some (f1, x)" using Some by (cases y) simp
      then have "a' = (if mem then Piping2 f0 f1 else Dropping [f0, f1])" "k = (at p s)\<lparr>kst := x\<rparr>" using e Piping1 by auto
      then show ?thesis using filealloc_spec [OF y] A Piping1
        by (intro still [where x = x]) (auto simp: own_def split: if_splits)
    qed
  next
    case (Piping2 rf wr)
    show ?thesis
    proof (cases "fdalloc rf (at p s)")
      case None
      then have "a' = Dropping [rf, wr]" "k = at p s" using e Piping2 by simp_all
      then show ?thesis using same [of "Dropping [rf, wr]"] A Piping2 by (simp add: own_def)
    next
      case (Some y)
      obtain fd k' where y: "fdalloc rf (at p s) = Some (fd, k')" using Some by (cases y) simp
      then have "a' = PipingFd fd rf wr" "k = k'" using e Piping2 by simp_all
      then show ?thesis using alloc [OF y] A Piping2 l
        by (intro put [where x = "kst (kern s)" and fd = fd and v = "Some rf"]) (simp_all add: put_fd_def at_def own_def count_list_update)
    qed
  next
    case (PipingFd fd0 rf wr)
    show ?thesis
    proof (cases "fdalloc wr (at p s)")
      case None
      then have "a' = Dropping [rf, wr]" "k = put_fd p fd0 None (at p s)" using e PipingFd by (simp_all add: fdfree_put)
      then show ?thesis using A PipingFd l
        by (intro put [where x = "kst (kern s)" and fd = fd0 and v = None]) (simp_all add: put_fd_def at_def own_def count_list_update)
    next
      case (Some y)
      obtain fd k' where y: "fdalloc wr (at p s) = Some (fd, k')" using Some by (cases y) simp
      then have "a' = Free" "k = k'" using e PipingFd by simp_all
      then show ?thesis using alloc [OF y] A PipingFd l
        by (intro put [where x = "kst (kern s)" and fd = fd and v = "Some wr"]) (simp_all add: put_fd_def at_def own_def count_list_update)
    qed
  next
    case (Dropping todo)
    show ?thesis
    proof (cases todo)
      case Nil
      then have "a' = Free" "k = at p s" using e Dropping by simp_all
      then show ?thesis using same [of Free] Dropping Nil by (simp add: own_def)
    next
      case (Cons f rest)
      obtain r x where x: "drop_ref f (kst (kern s)) = Inr (r, x)" "a' = Dropping rest" "k = (at p s)\<lparr>kst := x\<rparr>"
        using e Dropping Cons by (auto simp: on_kst2_def rbind_eq_Inr)
      have f: "f < nfile s" using A Dropping Cons by simp
      show ?thesis using drop_ref_spec [OF x(1) f] A
        by (intro still [where x = x]) (auto simp: x(2,3) Dropping Cons own_def)
    qed
  next
    case (Forking i j)
    have K: "kid (acts s p) = Some (i, j)" using Forking by simp
    show ?thesis
    proof (cases "j < NOFILE")
      case False
      then have "a' = Forking i j" "k = at p s" using e Forking by simp_all
      then show ?thesis using same [of "Forking i j"] A Forking by simp
    next
      case True
      show ?thesis
      proof (cases "descs p s ! j")
        case None
        then have "a' = Forking i (j + 1)" "k = at p s" using e Forking True by (simp_all add: kp)
        then show ?thesis using same [of "Forking i (j + 1)"] True Forking by (simp add: own_def)
      next
        case (Some f)
        then obtain x where x: "filedup f (kst (kern s)) = Inr x" "a' = ForkHas i j f" "k = (at p s)\<lparr>kst := x\<rparr>"
          using e Forking True by (auto simp: on_kst_def rbind_eq_Inr kp)
        show ?thesis using filedup_spec [OF x(1) N [OF Some True]] N [OF Some True] True
          by (intro still [where x = x]) (auto simp: x(2,3) Forking own_def)
      qed
    qed
  next
    case (ForkHas i j f)
    then have "a' = Forking i (j + 1)" "k = put_fd i j (Some f) (at p s)" using e by (simp_all add: put_fd_def at_def)
    then show ?thesis using store_inv [OF I p ForkHas] by simp
  next
    case (Exiting fd)
    show ?thesis
    proof (cases "fd < NOFILE")
      case True
      show ?thesis
      proof (cases "descs p s ! fd")
        case None
        then have "a' = Exiting (fd + 1)" "k = at p s" using e Exiting True by (simp_all add: kp)
        then show ?thesis using same [of "Exiting (fd + 1)"] True Exiting A None by (auto simp: own_def less_Suc_eq)
      next
        case (Some f)
        then obtain r x where x: "drop_ref f (kst (kern s)) = Inr (r, x)" "a' = ExitHole fd" "k = (at p s)\<lparr>kst := x\<rparr>"
          using e Exiting True by (auto simp: on_kst2_def rbind_eq_Inr kp)
        show ?thesis using drop_ref_spec [OF x(1) N [OF Some True]] True A Some l
          by (intro still [where x = x]) (auto simp: x(2,3) Exiting own_def count_list_update)
      qed
    next
      case False
      then obtain t where t: "exit_zombie p (kpt (kern s)) = Inr t" "a' = Free" "k = (at p s)\<lparr>kpt := t\<rparr>"
        using e Exiting by (auto simp: rbind_eq_Inr)
      have n: "p < nproc s" "\<not> idle (procs (kpt (kern s)) ! p)" using p by (simp_all add: alive_def)
      note E = exit_zombie_spec [OF t(1) n(1)]
      have "descs p s ! j = None" if "j < NOFILE" for j using A Exiting False that by simp
      then have empty: "set (descs p s) \<subseteq> {None}" using l by (auto simp: in_set_conv_nth)
      have ofl: "ofile (procs t ! q) = descs q s" if "q < nproc s" for q using E that by (simp add: descs_def)
      have idl: "idle (procs t ! q) = idle (procs (kpt (kern s)) ! q)" if "q < nproc s" "q \<noteq> p" for q
        using E that by (auto simp: idle_def)
      show ?thesis using E n ofl idl empty l
        by (intro one_step [OF I n(1) nb]) (auto simp: t(2,3) fd_ok_def Exiting own_def)
    qed
  next
    case (ExitHole fd)
    have "a' = Exiting (fd + 1)" "k = put_fd p fd None (at p s)" using e ExitHole by (simp_all add: fdfree_put)
    then show ?thesis using A ExitHole l
      by (intro put [where x = "kst (kern s)" and fd = fd and v = None])
        (auto simp: put_fd_def at_def own_def count_list_update less_Suc_eq nth_list_update)
  next
    case Free
    then have "a' = Free" "k = at p s" using e by simp_all
    then show ?thesis using same [of Free] Free by simp
  qed (use nb in simp)
qed

text \<open>A slot that \<open>fork\<close> takes, gives back or lets run: no descriptor changes.\<close>

lemma fork_moves:
  assumes I: "fd_inv s" and p: "alive p s" and ne: "i \<noteq> p" "i < nproc s"
    and len: "length (procs t) = nproc s"
    and keep: "\<And>q. q < nproc s \<Longrightarrow> ofile (procs t ! q) = descs q s"
      "\<And>q. q < nproc s \<Longrightarrow> q \<noteq> i \<Longrightarrow> idle (procs t ! q) = idle (procs (kpt (kern s)) ! q)"
    and i: "idle (procs t ! i) \<longrightarrow> b = Free \<and> set (descs i s) \<subseteq> {None}" "b = Free \<or> b = Born"
      "acts s i = Free \<or> acts s i = Born"
    and p0: "acts s p = Free \<or> (\<exists>j. acts s p = Forking i j)"
    and a: "a = Free \<and> b = Free \<or> a = Forking i 0 \<and> b = Born \<and> \<not> idle (procs t ! i) \<and> set (descs i s) \<subseteq> {None}"
    and sole: "\<And>q l. q < nproc s \<Longrightarrow> q \<noteq> p \<Longrightarrow> kid (acts s q) \<noteq> Some (i, l)"
  shows "fd_inv (s\<lparr>kern := (kern s)\<lparr>kpt := t\<rparr>, acts := (acts s)(p := a, i := b)\<rparr>)" (is "fd_inv ?s")
proof -
  have n: "p < nproc s" "\<not> idle (procs (kpt (kern s)) ! p)" using p by (simp_all add: alive_def)
  have P: "proc_ok s q" if "q < nproc s" for q using I that by (simp add: fd_inv_def)
  have D: "q = r" if "q < nproc s" "r < nproc s" "kid (acts s q) = Some (i, j)" "kid (acts s r) = Some (i, l)" for q r i j l
    using I that unfolding fd_inv_def by blast
  have o: "descs q ?s = descs q s" if "q < nproc s" for q using keep(1) [OF that] by (simp add: descs_def)
  have A: "acts ?s q = (if q = i then b else if q = p then a else acts s q)" for q by simp
  have own: "own (acts ?s q) fds f = own (acts s q) fds f" for q fds f
    using i(2,3) p0 a ne(1) by (auto simp: own_def)
  have sum: "(\<Sum>q<nproc s. own (acts ?s q) (descs q ?s) f) = (\<Sum>q<nproc s. own (acts s q) (descs q s) f)" for f
    by (rule sum.cong) (simp_all only: own o lessThan_iff)
  have "exact ?s" unfolding exact_def
  proof (intro allI impI)
    fix f assume "f < nfile ?s"
    then show "fref (the_file (kst (kern ?s)) f) = (\<Sum>q<nproc ?s. own (acts ?s q) (descs q ?s) f)"
      using I sum [of f] len by (simp add: fd_inv_def exact_def)
  qed
  moreover have "proc_ok ?s q" if q: "q < nproc s" for q
  proof -
    have nk: "kid_ok ?s (h, j)" if "kid_ok s (h, j)" "h \<noteq> i" for h j
    proof -
      have "h \<noteq> p" "h < nproc s" using that(1) p0 by (auto simp: kid_ok_def alive_def)
      then show ?thesis using that keep(2) [of h] o [of h] len by (auto simp: kid_ok_def alive_def)
    qed
    have ki: "kid_ok ?s (i, 0)" if "b = Born"
    proof -
      have "descs i s ! l = None" if "l < NOFILE" for l
      proof -
        have "length (descs i s) = NOFILE" using P [OF ne(2)] by (simp add: proc_ok_def fd_ok_def descs_def)
        moreover have "set (descs i s) \<subseteq> {None}" using a \<open>b = Born\<close> by auto
        ultimately show ?thesis using that by (metis nth_mem singletonD subsetD)
      qed
      then show ?thesis using that a ne o [OF ne(2)] len by (auto simp: kid_ok_def alive_def)
    qed
    have kids: "kid_ok ?s hj" if "kid (acts ?s q) = Some hj" for hj
    proof (cases "q = i \<or> q = p")
      case True
      then show ?thesis using that i(2) a ki ne(1) by (auto simp: A split: if_splits)
    next
      case False
      obtain h j where hj: "hj = (h, j)" by fastforce
      have k: "kid (acts s q) = Some (h, j)" using that False hj by simp
      then have "h \<noteq> i" using sole [OF q] False by auto
      then show ?thesis using nk [of h j] P [OF q] k hj by (simp add: proc_ok_def)
    qed
    have "act_ok (nfile s) (descs q s) (acts ?s q)" using P [OF q] i(2) a by (auto simp: A proc_ok_def)
    moreover have "idle (procs t ! q) \<longrightarrow> acts ?s q = Free"
      using P [OF q] keep(2) [OF q] i(1) n ne by (auto simp: A proc_ok_def)
    moreover have "fd_ok (nfile s) (procs t ! q)"
      using P [OF q] keep [OF q] i(1) by (cases "q = i") (auto simp: proc_ok_def fd_ok_def descs_def)
    ultimately show ?thesis using o [OF q] kids by (simp add: proc_ok_def)
  qed
  moreover have "q = r" if "q < nproc s" "r < nproc s" "kid (acts ?s q) = Some (h, j)" "kid (acts ?s r) = Some (h, l)" for q r h j l
    using D [of q r h j l] sole [of q j] sole [of r l] that i(2) a ne by (auto simp: A split: if_splits)
  ultimately show ?thesis unfolding fd_inv_def using len by simp
qed

lemma alloc_failed_slot:
  "length (procs (alloc_failed i t)) = length (procs t)" "ofile (procs (alloc_failed i t) ! q) = ofile (procs t ! q)"
  "q \<noteq> i \<Longrightarrow> procs (alloc_failed i t) ! q = procs t ! q" "i < length (procs t) \<Longrightarrow> idle (procs (alloc_failed i t) ! i)"
  by (cases "i < length (procs t)"; simp add: alloc_failed_def upd_def nth_list_update idle_def list_update_beyond)+

lemma set_runnable_slot:
  "length (procs (set_runnable i t)) = length (procs t)" "ofile (procs (set_runnable i t) ! q) = ofile (procs t ! q)"
  "q \<noteq> i \<Longrightarrow> procs (set_runnable i t) ! q = procs t ! q" "i < length (procs t) \<Longrightarrow> \<not> idle (procs (set_runnable i t) ! i)"
  by (cases "i < length (procs t)"; simp add: set_runnable_def upd_def nth_list_update idle_def list_update_beyond)+

lemma forking_kid:
  assumes I: "fd_inv s" and p: "alive p s" and a: "acts s p = Forking i j"
  shows "i \<noteq> p" "i < nproc s" "acts s i = Born" "kid_ok s (i, j)" "q < nproc s \<Longrightarrow> q \<noteq> p \<Longrightarrow> kid (acts s q) \<noteq> Some (i, l)"
proof -
  show k: "kid_ok s (i, j)" using inv_proc(6) [OF I p] a by simp
  then show "i \<noteq> p" "i < nproc s" "acts s i = Born" using a by (auto simp: kid_ok_def alive_def)
  show "kid (acts s q) \<noteq> Some (i, l)" if "q < nproc s" "q \<noteq> p"
  proof
    assume "kid (acts s q) = Some (i, l)"
    moreover have "kid (acts s p) = Some (i, j)" "p < nproc s" using a p by (simp_all add: alive_def)
    ultimately show False using I that unfolding fd_inv_def by blast
  qed
qed

lemma elsewhere_inv:
  assumes I: "fd_inv s" and c: "calm (kpt (kern s)) (kpt k)" and f: "frefs (kst k) = frefs (kst (kern s))"
  shows "fd_inv (s\<lparr>kern := k\<rparr>)" (is "fd_inv ?s")
proof -
  have l: "length (procs (kpt k)) = nproc s" and q: "\<And>q. q < nproc s \<Longrightarrow> ofile (procs (kpt k) ! q) = descs q s
      \<and> idle (procs (kpt k) ! q) = idle (procs (kpt (kern s)) ! q)" using c by (simp_all add: calm_def descs_def)
  note F = frefs_eq [OF f]
  have o: "descs p ?s = descs p s" if "p < nproc s" for p using q [OF that] by (simp add: descs_def)
  have "(\<Sum>p<nproc s. own (acts s p) (descs p ?s) g) = (\<Sum>p<nproc s. own (acts s p) (descs p s) g)" for g
    by (rule sum.cong) (simp_all add: o)
  then have ex: "exact ?s" using I F l by (simp add: exact_def fd_inv_def)
  have "kid_ok ?s ij" if "kid_ok s ij" for ij
    using that q o l by (auto simp: kid_ok_def alive_def)
  moreover have "proc_ok s p" if "p < nproc s" for p using I that by (simp add: fd_inv_def)
  ultimately have "proc_ok ?s p" if "p < nproc s" for p
    using q [OF that, unfolded descs_def] o [OF that] F that by (simp add: proc_ok_def fd_ok_def)
  then show ?thesis using I l ex by (simp add: fd_inv_def)
qed

lemma step_inv:
  assumes I: "fd_inv s" and step: "fd_step s s'"
  shows "fd_inv s'"
  using step
proof (cases rule: fd_step.cases)
  case (enters p c a k)
  then show ?thesis using enter_inv [OF I] by simp
next
  case (goes_on p mem a k)
  then show ?thesis using segment_inv [OF I] by simp
next
  case (forks p i t)
  have i: "i < nproc s" "st (kpt (kern s)) i = UNUSED"
    and t: "t = (upd i (\<lambda>p. p\<lparr>pstate := EMBRYO, pid := nextpid (kpt (kern s)), alarm_interval := 0, alarm_ticks := 0,
      alarm_handler := 0, alarm_in_handler := False, alarm_tf := None\<rparr>) (kpt (kern s)))\<lparr>nextpid := nextpid (kpt (kern s)) + 1\<rparr>"
    using forks(4) first_index_Some by (auto simp: allocproc_def split: option.splits)
  have ofl: "ofile (procs t ! q) = descs q s" "q \<noteq> i \<Longrightarrow> idle (procs t ! q) = idle (procs (kpt (kern s)) ! q)" for q
    using i(1) by (auto simp: t upd_nth descs_def)
  have e: "\<not> idle (procs t ! i)" using i(1) by (simp add: t upd_nth idle_def)
  have id: "idle (procs (kpt (kern s)) ! i)" using i(2) by (simp add: idle_def)
  have ne: "i \<noteq> p" using id forks(2) by (auto simp: alive_def)
  have Pi: "proc_ok s i" using I i(1) by (simp add: fd_inv_def)
  then have none: "set (descs i s) \<subseteq> {None}" "acts s i = Free" using id by (simp_all add: proc_ok_def fd_ok_def descs_def)
  have sole: "kid (acts s q) \<noteq> Some (i, l)" if "q < nproc s" for q l
    using I that none(2) by (fastforce simp: fd_inv_def proc_ok_def kid_ok_def)
  show ?thesis unfolding forks(1)
    by (rule fork_moves [OF I forks(2) ne i(1)]) (use ofl e none forks(3) sole in \<open>simp_all add: t\<close>)
next
  case (fork_fails p i)
  note K = forking_kid [OF I fork_fails(2,3)]
  have none: "set (descs i s) \<subseteq> {None}"
    using K(4) inv_proc(3) [OF I, of i] by (auto simp: kid_ok_def in_set_conv_nth)
  show ?thesis unfolding fork_fails(1)
    by (rule fork_moves [OF I fork_fails(2) K(1,2)])
      (use K(3) none fork_fails(3) in \<open>auto simp: alloc_failed_slot descs_def dest: K(5)\<close>)
next
  case (fork_ends p i)
  note K = forking_kid [OF I fork_ends(2,3)]
  show ?thesis unfolding fork_ends(1)
    by (rule fork_moves [OF I fork_ends(2) K(1,2)])
      (use K(2,3) fork_ends(3) in \<open>auto simp: set_runnable_slot descs_def dest: K(5)\<close>)
next
  case (elsewhere k)
  then show ?thesis using elsewhere_inv [OF I] by simp
qed

lemma boot_inv:
  assumes "\<forall>f<length (ftab x). fref (the_file x f) = 0"
  shows "fd_inv (fd_boot pd root x)" (is "fd_inv ?s")
proof -
  let ?t = "run_proc 0 (tab (psys_boot pd root))"
  have k: "kern ?s = \<lparr>kpt = ?t, kcur = 0, kst = x, kticks = 0\<rparr>" "acts ?s p = Free" for p by (simp_all add: fd_boot_def)
  have o: "ofile p = replicate NOFILE None" if "p \<in> set (procs ?t)" for p
    using that by (auto simp: run_proc_def psys_boot_def first_proc_def set_runnable_def upd_def allocproc_def
        ptable_zero_def zero_proc_def NPROC_def numeral_eq_Suc)
  then have d: "descs p ?s = replicate NOFILE None" if "p < nproc ?s" for p using that by (simp add: descs_def k)
  have "(\<Sum>p<nproc ?s. own (acts ?s p) (descs p ?s) f) = 0" for f
    by (rule sum.neutral) (auto simp: d k own_def)
  then have "exact ?s" using assms by (simp add: exact_def k)
  moreover have "proc_ok ?s p" if "p < nproc ?s" for p using d [OF that] by (auto simp: proc_ok_def k fd_ok_def descs_def)
  ultimately show ?thesis by (simp add: fd_inv_def k)
qed

lemma reachable_inv:
  assumes "fd_reachable s"
  shows "fd_inv s"
proof -
  obtain pd root x where x: "\<forall>f<length (ftab x). fref (the_file x f) = 0" "fd_step\<^sup>*\<^sup>* (fd_boot pd root x) s"
    using assms by (auto simp: fd_reachable_def)
  show ?thesis using x(2) by induction (use boot_inv [OF x(1)] step_inv in blast)+
qed

lemma in_use:
  assumes I: "fd_inv s" and p: "p < nproc s" and f: "Some f \<in> set (counted (acts s p) (descs p s)) \<or> f \<in> set (in_hand (acts s p))"
  shows "f < nfile s \<and> 1 \<le> fref (the_file (kst (kern s)) f)"
proof -
  have P: "fd_ok (nfile s) (procs (kpt (kern s)) ! p)" "act_ok (nfile s) (descs p s) (acts s p)"
    using I p by (simp_all add: fd_inv_def proc_ok_def)
  have "set (counted (acts s p) (descs p s)) \<subseteq> insert None (set (descs p s))"
    by (cases "acts s p") (auto dest: set_update_subset_insert [THEN subsetD])
  then have c: "f < nfile s" if "Some f \<in> set (counted (acts s p) (descs p s))"
    using P(1) that by (auto simp: fd_ok_def descs_def)
  have "f < nfile s" if "f \<in> set (in_hand (acts s p))" using P(2) that by (cases "acts s p") auto
  then have n: "f < nfile s" using f c by blast
  have "own (acts s p) (descs p s) f \<ge> 1"
    using f count_list_0_iff [of "counted (acts s p) (descs p s)" "Some f"] count_list_0_iff [of "in_hand (acts s p)" f]
    unfolding own_def by linarith
  moreover have "own (acts s p) (descs p s) f \<le> (\<Sum>q<nproc s. own (acts s q) (descs q s) f)"
    by (rule member_le_sum) (use p in \<open>auto simp: own_def\<close>)
  ultimately show ?thesis using I n by (simp add: fd_inv_def exact_def)
qed

lemma no_panic:
  assumes I: "fd_inv s" and p: "alive p s"
  shows "segment mem (acts s p) (at p s) \<noteq> Inl (Panic ''filedup'')" "segment mem (acts s p) (at p s) \<noteq> Inl (Panic ''fileclose'')"
proof -
  have n: "p < nproc s" using p by (simp add: alive_def)
  have A: "act_ok (nfile s) (descs p s) (acts s p)" and l: "length (descs p s) = NOFILE" using inv_proc(3,4) [OF I p] by blast+
  have kp: "ofile (procs (kpt (kern s)) ! p) = descs p s" by (simp add: descs_def)
  have dup: "\<exists>x. on_kst (filedup f) (at p s) = Inr x"
    if "Some f \<in> set (counted (acts s p) (descs p s)) \<or> f \<in> set (in_hand (acts s p))" for f
    using in_use [OF I n that] by (simp add: filedup_def on_kst_def)
  have drop: "\<exists>r x. on_kst2 (drop_ref f) (at p s) = Inr (r, x)"
    if "Some f \<in> set (counted (acts s p) (descs p s)) \<or> f \<in> set (in_hand (acts s p))" for f
    using in_use [OF I n that] by (simp add: drop_ref_def on_kst2_def Let_def)
  have mem: "descs p s ! j = Some f \<Longrightarrow> j < NOFILE \<Longrightarrow> Some f \<in> set (descs p s)" for j f using l by (metis nth_mem)
  have "segment mem (acts s p) (at p s) \<notin> {Inl (Panic ''filedup''), Inl (Panic ''fileclose'')}"
  proof (cases "acts s p")
    case (Duping fd f)
    then show ?thesis using dup [of f] A by auto
  next
    case (Dropping todo)
    show ?thesis
    proof (cases todo)
      case (Cons f rest)
      then show ?thesis using drop [of f] Dropping by auto
    qed (simp add: Dropping)
  next
    case (Forking i j)
    show ?thesis
    proof (cases "descs p s ! j")
      case (Some f)
      then show ?thesis using dup [of f] mem [OF Some] Forking by (cases "j < NOFILE") (auto simp: kp)
    qed (simp add: kp Forking)
  next
    case (Exiting fd)
    show ?thesis
    proof (cases "fd < NOFILE")
      case True
      then show ?thesis using drop mem [of fd] Exiting by (cases "descs p s ! fd") (fastforce simp: kp)+
    qed (simp add: Exiting exit_zombie_def Let_def)
  qed (auto split: option.split)
  then show "segment mem (acts s p) (at p s) \<noteq> Inl (Panic ''filedup'')" "segment mem (acts s p) (at p s) \<noteq> Inl (Panic ''fileclose'')"
    by blast+
qed

text \<open>
  C6. Reference counts of open files are exact under every interleaving: the count of an entry of the file table is the
  number of descriptors, over all processes, that name it, except those for which \<open>sys_dup\<close> has not counted yet or
  \<open>exit\<close> has given up the reference already, and of the references that calls under way hold besides. When no such call
  is under way it is the number of descriptors.
\<close>

theorem file_refs_exact:
  assumes "fd_reachable s" and "f < nfile s"
  shows "fref (the_file (kst (kern s)) f)
      = (\<Sum>p<nproc s. int (count_list (counted (acts s p) (descs p s)) (Some f)) + int (count_list (in_hand (acts s p)) f))
    \<and> ((\<forall>p<nproc s. acts s p = Free) \<longrightarrow>
        fref (the_file (kst (kern s)) f) = (\<Sum>p<nproc s. int (count_list (descs p s) (Some f))))"
  using reachable_inv [OF assms(1)] assms(2) by (auto simp: fd_inv_def exact_def own_def)

text \<open>
  C8. Descriptors are well typed under every interleaving: each process has \<open>NOFILE\<close> of them, they name entries of the
  file table, those of a free or dead process name none. What is named by a descriptor whose reference is counted, or held
  by a call under way, is in use, so that \<open>filealloc\<close> does not hand it out, and no call reaches the panic of \<open>filedup\<close> or of
  \<open>fileclose\<close>.
\<close>

theorem descriptors_typed:
  assumes "fd_reachable s" and "p < nproc s"
  shows "length (descs p s) = NOFILE \<and> (\<forall>f. Some f \<in> set (descs p s) \<longrightarrow> f < nfile s)
    \<and> (pstate (procs (kpt (kern s)) ! p) \<in> {UNUSED, ZOMBIE} \<longrightarrow> set (descs p s) \<subseteq> {None} \<and> acts s p = Free)
    \<and> (\<forall>f. Some f \<in> set (counted (acts s p) (descs p s)) \<or> f \<in> set (in_hand (acts s p)) \<longrightarrow>
        f < nfile s \<and> 1 \<le> fref (the_file (kst (kern s)) f) \<and> (\<forall>g y. filealloc (kst (kern s)) = Some (g, y) \<longrightarrow> g \<noteq> f))
    \<and> (alive p s \<longrightarrow> (\<forall>mem. segment mem (acts s p) (at p s) \<notin> {Inl (Panic ''filedup''), Inl (Panic ''fileclose'')}))"
proof -
  note I = reachable_inv [OF assms(1)]
  have P: "proc_ok s p" using I assms(2) by (simp add: fd_inv_def)
  then have t: "length (descs p s) = NOFILE \<and> (\<forall>f. Some f \<in> set (descs p s) \<longrightarrow> f < nfile s)
      \<and> (pstate (procs (kpt (kern s)) ! p) \<in> {UNUSED, ZOMBIE} \<longrightarrow> set (descs p s) \<subseteq> {None} \<and> acts s p = Free)"
    by (auto simp: proc_ok_def fd_ok_def descs_def idle_def)
  show ?thesis using t in_use [OF I assms(2)] no_panic [OF I, of p] filealloc_Some(2) [of "kst (kern s)"] by fastforce
qed

text \<open>The first process opens a file: in \<open>sys_open\<close>, between \<open>filealloc\<close> and \<open>fdalloc\<close>.\<close>

definition fstate0 :: fstate where
  "fstate0 = \<lparr>ffs = Fs.fs0, ftab = replicate NFILE \<lparr>ftype = FD_NONE, fref = 0, freadable = False, fwritable = False,
     fpipe = 0, fip = 0, foff = 0\<rparr>, fpipes = Map.empty, fkm = \<lparr>kbytes = \<lambda>_. 0, use_lock = False, freelist = 0\<rparr>\<rparr>"

definition opening0 :: fsys where
  "opening0 = (fd_boot 0 0 fstate0)\<lparr>kern := (at 0 (fd_boot 0 0 fstate0))\<lparr>kst := fset 0 (\<lambda>x. x\<lparr>fref := 1\<rparr>) fstate0\<rparr>,
     acts := (\<lambda>_. Free)(0 := Opening 0)\<rparr>"

lemma opening0_reachable: "fd_reachable opening0" "0 < nproc opening0" "nfile opening0 = NFILE"
proof -
  have s: "0 < length (procs (run_proc 0 (tab (psys_boot 0 0))))" "st (run_proc 0 (tab (psys_boot 0 0))) 0 = RUNNING"
    using boot_slots [where pd = 0 and root = 0] by (simp_all add: run_proc_def upd_nth NPROC_def)
  then have a: "alive 0 (fd_boot 0 0 fstate0)" by (simp add: alive_def fd_boot_def idle_def)
  have "filealloc fstate0 = Some (0, fset 0 (\<lambda>x. x\<lparr>fref := 1\<rparr>) fstate0)"
    by (simp add: filealloc_def fstate0_def NFILE_def numeral_eq_Suc)
  then have e: "enter COpen (at 0 (fd_boot 0 0 fstate0))
      = Inr (Opening 0, (at 0 (fd_boot 0 0 fstate0))\<lparr>kst := fset 0 (\<lambda>x. x\<lparr>fref := 1\<rparr>) fstate0\<rparr>)"
    by (simp add: enter_def fd_boot_def)
  have "fd_step (fd_boot 0 0 fstate0) opening0"
    using fd_step.enters [OF a _ e] by (simp add: opening0_def fd_boot_def)
  moreover have "\<forall>f<length (ftab fstate0). fref (the_file fstate0 f) = 0" by (simp add: fstate0_def)
  ultimately show "fd_reachable opening0" unfolding fd_reachable_def by blast
  show "0 < nproc opening0" using s by (simp add: opening0_def fd_boot_def)
  show "nfile opening0 = NFILE" by (simp add: opening0_def fstate0_def)
qed

theorem file_refs_exact_witness:
  "(\<Sum>p<nproc opening0. int (count_list (counted (acts opening0 p) (descs p opening0)) (Some 0))
     + int (count_list (in_hand (acts opening0 p)) 0)) = 1"
  using file_refs_exact [OF opening0_reachable(1), of 0] opening0_reachable(3)
  by (simp add: NFILE_def) (simp add: opening0_def fstate0_def NFILE_def fref_fset)

theorem descriptors_typed_witness: "length (descs 0 opening0) = NOFILE \<and> 1 \<le> fref (the_file (kst (kern opening0)) 0)"
proof -
  have "0 \<in> set (in_hand (acts opening0 0))" by (simp add: opening0_def)
  then show ?thesis using descriptors_typed [OF opening0_reachable(1,2)] by blast
qed

end
