(* ===== verification/Umalloc.thy ===== *)
theory Umalloc
  imports Proc
begin

text \<open>
  The allocator of the user programs (umalloc.c): a circular list of free blocks in address order. A
  header is the address of its 8 bytes; the fields \<open>ptr\<close> and \<open>size\<close> of all headers are two
  functions on addresses. Sizes count units of 8 bytes, header included. A loop that would not end
  is \<open>None\<close>.
\<close>

section \<open>umalloc.c\<close>

record uheap =
  hptr :: "u32 \<Rightarrow> u32"
  hsize :: "u32 \<Rightarrow> u32"
  freep :: u32
  brk :: u32

text \<open>The loop of \<open>free\<close> that looks for the place of the block.\<close>

partial_function (option) free_loop :: "u32 \<Rightarrow> (u32 \<Rightarrow> u32) \<Rightarrow> u32 \<Rightarrow> u32 option" where
  "free_loop bp nx p =
     (if bp > p \<and> bp < nx p then Some p
      else if p \<ge> nx p \<and> (bp > p \<or> bp < nx p) then Some p
      else free_loop bp nx (nx p))"

text \<open>The block goes in behind \<open>p\<close>, joined with its neighbours where they touch.\<close>

definition join_next :: "u32 \<Rightarrow> u32 \<Rightarrow> uheap \<Rightarrow> uheap" where
  "join_next bp p s =
     (let q = hptr s p in
      if bp + 8 * hsize s bp = q
      then s\<lparr>hsize := (hsize s)(bp := hsize s bp + hsize s q), hptr := (hptr s)(bp := hptr s q)\<rparr>
      else s\<lparr>hptr := (hptr s)(bp := q)\<rparr>)"

definition join_prev :: "u32 \<Rightarrow> u32 \<Rightarrow> uheap \<Rightarrow> uheap" where
  "join_prev bp p s =
     (if p + 8 * hsize s p = bp
      then s\<lparr>hsize := (hsize s)(p := hsize s p + hsize s bp), hptr := (hptr s)(p := hptr s bp)\<rparr>
      else s\<lparr>hptr := (hptr s)(p := bp)\<rparr>)"

definition free :: "u32 \<Rightarrow> uheap \<Rightarrow> uheap option" where
  "free ap s = (let bp = ap - 8 in
     map_option (\<lambda>p. (join_prev bp p (join_next bp p s))\<lparr>freep := p\<rparr>) (free_loop bp (hptr s) (freep s)))"

text \<open>
  The system call \<open>sbrk\<close> as the program sees it, with \<open>growproc\<close> of proc.c behind it; \<open>grant\<close> tells
  whether the kernel has the memory.
\<close>

definition sbrk :: "(u32 \<Rightarrow> u32 \<Rightarrow> bool) \<Rightarrow> u32 \<Rightarrow> uheap \<Rightarrow> u32 \<times> uheap" where
  "sbrk grant n s =
     (let a = brk s in
      if 0 <s n then (if a + n \<ge> KERNBASE \<or> \<not> grant a n then (- 1, s) else (a, s\<lparr>brk := a + n\<rparr>))
      else if n <s 0 then (let z = (if a + n \<ge> a then a else a + n) in if z = 0 then (- 1, s) else (a, s\<lparr>brk := z\<rparr>))
      else (a, s))"

definition morecore :: "(u32 \<Rightarrow> u32 \<Rightarrow> bool) \<Rightarrow> u32 \<Rightarrow> uheap \<Rightarrow> (u32 \<times> uheap) option" where
  "morecore grant nu s =
     (let nu = (if nu < 4096 then 4096 else nu); (p, s) = sbrk grant (nu * 8) s in
      if p = - 1 then Some (0, s)
      else map_option (\<lambda>s. (freep s, s)) (free (p + 8) (s\<lparr>hsize := (hsize s)(p := nu)\<rparr>)))"

text \<open>A block that is big enough: all of it, or its tail.\<close>

definition take_block :: "u32 \<Rightarrow> u32 \<Rightarrow> u32 \<Rightarrow> uheap \<Rightarrow> u32 \<times> uheap" where
  "take_block nunits prevp p s =
     (if hsize s p = nunits
      then (p + 8, s\<lparr>hptr := (hptr s)(prevp := hptr s p), freep := prevp\<rparr>)
      else let r = hsize s p - nunits; t = p + 8 * r in
        (t + 8, s\<lparr>hsize := (hsize s)(p := r, t := nunits), freep := prevp\<rparr>))"

partial_function (option) malloc_loop :: "(u32 \<Rightarrow> u32 \<Rightarrow> bool) \<Rightarrow> u32 \<Rightarrow> u32 \<Rightarrow> u32 \<Rightarrow> uheap \<Rightarrow> (u32 \<times> uheap) option" where
  "malloc_loop grant nunits prevp p s =
     (if hsize s p \<ge> nunits then Some (take_block nunits prevp p s)
      else if p = freep s
      then Option.bind (morecore grant nunits s) (\<lambda>(p, s).
        if p = 0 then Some (0, s) else malloc_loop grant nunits p (hptr s p) s)
      else malloc_loop grant nunits p (hptr s p) s)"

definition malloc_init :: "u32 \<Rightarrow> uheap \<Rightarrow> uheap" where
  "malloc_init base s = (if freep s = 0
     then s\<lparr>hptr := (hptr s)(base := base), freep := base, hsize := (hsize s)(base := 0)\<rparr> else s)"

definition malloc :: "(u32 \<Rightarrow> u32 \<Rightarrow> bool) \<Rightarrow> u32 \<Rightarrow> u32 \<Rightarrow> uheap \<Rightarrow> (u32 \<times> uheap) option" where
  "malloc grant base nbytes s =
     (let nunits = (nbytes + 8 - 1) div 8 + 1; s = malloc_init base s in
      malloc_loop grant nunits (freep s) (hptr s (freep s)) s)"

text \<open>It is what \<open>growproc\<close> of the kernel does, whatever memory it finds.\<close>

lemma allocuvm_loop_result: "allocuvm_loop n kend pd a old new k = Inr (r, k') \<Longrightarrow> r = 0 \<or> r = new"
proof (induction n arbitrary: a k)
  case (Suc n)
  then show ?case by (auto simp: Let_def rbind_eq_Inr split: if_splits prod.splits)
qed simp

lemma sbrk_is_growproc:
  assumes g: "growproc kend cur n k t = Inr (ok, k', t')" and c: "cur < length (procs t)" and z: "sz (procs t ! cur) \<le> KERNBASE"
    and b: "brk s = sz (procs t ! cur)"
  shows "\<exists>grant. sbrk grant n s = (if ok then sz (procs t ! cur) else - 1, s\<lparr>brk := sz (procs t' ! cur)\<rparr>)"
proof -
  let ?p = "procs t ! cur"
  have eq: "s\<lparr>brk := sz ?p\<rparr> = s" using b by simp
  consider "0 <s n" | "n <s 0" "\<not> 0 <s n" | "n = 0" by (metis sint_0 signed_word_eqI word_sless_alt linorder_neqE_linordered_idom)
  then show ?thesis
  proof cases
    case 1
    obtain r where a: "allocuvm kend (pgdir ?p) (sz ?p) (sz ?p + n) k = Inr (r, k')"
      and r: "if n \<noteq> 0 \<and> r = 0 then \<not> ok \<and> t' = t else ok \<and> t' = upd cur (\<lambda>p. p\<lparr>sz := r\<rparr>) t"
      using g 1 by (auto simp: growproc_def Let_def rbind_eq_Inr split: if_splits)
    have n: "sint n = int (unat n)" "unat n < 2 ^ 31" using sint_nonneg [of n] 1 by (simp_all add: word_sless_alt)
    have w: "unat (sz ?p + n) = unat (sz ?p) + unat n"
      using n(2) z by (simp add: unat_word_ariths KERNBASE_def word_le_nat_alt)
    then have ge: "\<not> sz ?p + n < sz ?p" by (simp add: word_less_nat_alt)
    have r': "r = 0 \<or> r = sz ?p + n \<and> sz ?p + n < KERNBASE"
      using a ge allocuvm_loop_result by (auto simp: allocuvm_def not_le simp del: allocuvm_loop.simps split: if_splits)
    have n0: "n \<noteq> 0" using 1 by auto
    have "0 < unat n" using n0 by (simp add: unat_gt_0)
    then have "sz ?p + n \<noteq> 0" using w by (metis add_gr_0 less_irrefl unat_0)
    then show ?thesis using r r' n0 1 b c eq
      by (intro exI [of _ "\<lambda>_ _. r \<noteq> 0"]) (auto simp: sbrk_def Let_def upd_nth not_le split: if_splits)
  next
    case 2
    obtain r where a: "deallocuvm kend (pgdir ?p) (sz ?p) (sz ?p + n) k = Inr (r, k')"
      and r: "if n \<noteq> 0 \<and> r = 0 then \<not> ok \<and> t' = t else ok \<and> t' = upd cur (\<lambda>p. p\<lparr>sz := r\<rparr>) t"
      using g 2 by (auto simp: growproc_def Let_def rbind_eq_Inr split: if_splits)
    have "r = (if sz ?p + n \<ge> sz ?p then sz ?p else sz ?p + n)" using a by (auto simp: deallocuvm_def rbind_eq_Inr split: if_splits)
    moreover have "n \<noteq> 0" using 2 by auto
    ultimately show ?thesis using r 2 b c eq by (auto simp: sbrk_def Let_def upd_nth split: if_splits)
  next
    case 3
    then show ?thesis using g b c eq by (auto simp: growproc_def sbrk_def Let_def upd_nth)
  qed
qed

text \<open>
  What the sizes that \<open>malloc\<close> does not check lead to: a request of nearly 4 GB wraps to one unit, and one of
  2 GB makes \<open>sbrk\<close>, whose argument is signed, succeed without giving anything.
\<close>

lemma malloc_wraps: "malloc grant base 0xFFFFFFFF s = malloc grant base 0 s"
  by (simp add: malloc_def)

lemma sbrk_phantom: "brk s < KERNBASE - 8 \<Longrightarrow> brk s \<noteq> 0 \<Longrightarrow> sbrk grant (0x10000001 * 8) s = (brk s, s)"
proof -
  assume b: "brk s < KERNBASE - 8" "brk s \<noteq> 0"
  then have "unat (brk s + 0x80000008) = unat (brk s) + 0x80000008"
    by (simp add: unat_word_ariths KERNBASE_def word_less_nat_alt)
  then have "brk s \<le> brk s + 0x80000008" by (simp add: word_le_nat_alt)
  then show ?thesis using b by (simp add: sbrk_def Let_def word_sless_alt)
qed

section \<open>The list of free blocks\<close>

text \<open>Following \<open>ptr\<close> from \<open>a\<close> one meets \<open>xs\<close> and then \<open>b\<close>.\<close>

fun path :: "(u32 \<Rightarrow> u32) \<Rightarrow> u32 \<Rightarrow> u32 list \<Rightarrow> u32 \<Rightarrow> bool" where
  "path nx a [] b \<longleftrightarrow> a = b"
| "path nx a (x # xs) b \<longleftrightarrow> a = x \<and> path nx (nx x) xs b"

lemma path_append [simp]: "path nx a (xs @ ys) b \<longleftrightarrow> (\<exists>c. path nx a xs c \<and> path nx c ys b)"
  by (induction xs arbitrary: a) auto

lemma path_upd [simp]: "x \<notin> set xs \<Longrightarrow> path (nx(x := v)) a xs b = path nx a xs b"
  by (induction xs arbitrary: a) auto

definition bend :: "uheap \<Rightarrow> u32 \<Rightarrow> nat" where
  "bend s b = unat b + 8 * unat (hsize s b)"

definition ulist :: "u32 \<Rightarrow> u32 list \<Rightarrow> uheap \<Rightarrow> bool" where
  "ulist base xs s \<longleftrightarrow> path (hptr s) base (base # xs) base \<and> freep s \<in> set (base # xs) \<and> base \<noteq> 0 \<and> hsize s base = 0
     \<and> sorted_wrt (\<lambda>x y. bend s x < unat y) (base # xs) \<and> (\<forall>x\<in>set xs. unat base + 8 \<le> unat x \<and> 0 < hsize s x \<and> bend s x \<le> unat (brk s))
     \<and> unat base + 8 \<le> unat (brk s) \<and> unat (brk s) < 2 ^ 31"

text \<open>The bytes of the free blocks.\<close>

definition block :: "uheap \<Rightarrow> u32 \<Rightarrow> nat set" where
  "block s b = {unat b..<bend s b}"

definition free_bytes :: "u32 list \<Rightarrow> uheap \<Rightarrow> nat set" where
  "free_bytes xs s = (\<Union>x\<in>set xs. block s x)"

lemma ulistD:
  assumes "ulist base xs s"
  shows "path (hptr s) base (base # xs) base" "freep s \<in> set (base # xs)" "base \<noteq> 0" "hsize s base = 0"
    "sorted_wrt (\<lambda>x y. bend s x < unat y) (base # xs)" "x \<in> set xs \<Longrightarrow> unat base + 8 \<le> unat x"
    "x \<in> set xs \<Longrightarrow> 0 < hsize s x" "x \<in> set xs \<Longrightarrow> bend s x \<le> unat (brk s)" "unat (brk s) < 2 ^ 31" "unat base + 8 \<le> unat (brk s)"
  using assms unfolding ulist_def by blast+

lemma bend_ge: "unat x \<le> bend s x"
  by (simp add: bend_def)

lemma bend_word: "bend s b < 2 ^ 32 \<Longrightarrow> unat (b + 8 * hsize s b) = bend s b"
  by (simp add: bend_def unat_word_ariths)

lemma ulist_sorted:
  assumes "ulist base xs s"
  shows "sorted_wrt (\<lambda>x y. unat x < unat y) (base # xs)" "distinct (base # xs)"
proof -
  show s: "sorted_wrt (\<lambda>x y. unat x < unat y) (base # xs)"
    by (rule sorted_wrt_mono_rel [OF _ ulistD(5) [OF assms]]) (use bend_ge le_less_trans in blast)
  show "distinct (base # xs)" unfolding distinct_conv_nth
  proof (intro allI impI)
    fix i j assume "i < length (base # xs)" "j < length (base # xs)" "i \<noteq> j"
    then have "unat ((base # xs) ! i) \<noteq> unat ((base # xs) ! j)" using s unfolding sorted_wrt_iff_nth_less
      by (metis less_irrefl linorder_neqE_nat)
    then show "(base # xs) ! i \<noteq> (base # xs) ! j" by metis
  qed
qed


section \<open>\<open>free\<close> finds the place\<close>

lemma free_walk_up:
  "path nx x (ms @ [p]) q \<Longrightarrow> sorted_wrt (\<lambda>x y. unat x < unat y) (ms @ [p]) \<Longrightarrow> \<forall>y\<in>set (ms @ [p]). y < bp
    \<Longrightarrow> bp < q \<or> q \<le> p \<Longrightarrow> free_loop bp nx x = Some p"
proof (induction ms arbitrary: x)
  case Nil
  then show ?case by (subst free_loop.simps) auto
next
  case (Cons m ms)
  obtain y ys where y: "ms @ [p] = y # ys" by (cases "ms @ [p]") auto
  then have "nx m = y" "m < y" "y < bp" using Cons.prems by (auto simp: word_less_nat_alt)
  then have "free_loop bp nx m = free_loop bp nx (nx m)" by (subst free_loop.simps) auto
  then show ?case using Cons by auto
qed

lemma free_walk_round:
  "path nx x ms q \<Longrightarrow> sorted_wrt (\<lambda>x y. unat x < unat y) ms \<Longrightarrow> \<forall>y\<in>set ms. bp < y \<Longrightarrow> q < bp
    \<Longrightarrow> free_loop bp nx x = free_loop bp nx q"
proof (induction ms arbitrary: x)
  case (Cons m ms)
  have "free_loop bp nx m = free_loop bp nx (nx m)"
  proof (cases ms)
    case Nil
    then show ?thesis using Cons.prems by (subst free_loop.simps) auto
  next
    case (Cons y ys)
    then have "nx m = y" "m < y" using Cons.prems by (auto simp: word_less_nat_alt)
    then show ?thesis using Cons.prems by (subst free_loop.simps) auto
  qed
  then show ?case using Cons by auto
qed simp

text \<open>The blocks below and above \<open>bp\<close>.\<close>

lemma split_at:
  assumes "sorted_wrt (\<lambda>x y. unat x < unat y) (base # xs)" "base < bp" "bp \<notin> set xs"
  obtains us p vs where "base # xs = us @ p # vs" "\<forall>x\<in>set (us @ [p]). x < bp" "\<forall>x\<in>set vs. bp < x"
proof -
  let ?P = "\<lambda>x. x < bp"
  have ne: "takeWhile ?P (base # xs) \<noteq> []" using assms(2) by simp
  have l: "base # xs = butlast (takeWhile ?P (base # xs)) @ last (takeWhile ?P (base # xs)) # dropWhile ?P (base # xs)"
    using append_butlast_last_id [OF ne] takeWhile_dropWhile_id [of ?P "base # xs"]
    by (metis append.assoc append_Cons append_Nil)
  have "bp < x" if x: "x \<in> set (dropWhile ?P (base # xs))" for x
  proof -
    have d: "dropWhile ?P (base # xs) \<noteq> []" using x by (metis empty_iff list.set(1))
    let ?h = "hd (dropWhile ?P (base # xs))"
    have "\<not> ?P ?h" using hd_dropWhile [OF d] .
    moreover have "?h \<in> set (base # xs)" using d hd_in_set set_dropWhileD by metis
    then have "?h \<noteq> bp" using assms(2,3) by auto
    ultimately have h: "bp < ?h" by (metis linorder_less_linear)
    have "sorted_wrt (\<lambda>x y. unat x < unat y) (dropWhile ?P (base # xs))"
      using assms(1) takeWhile_dropWhile_id [of ?P "base # xs"] sorted_wrt_append by metis
    then have "x = ?h \<or> ?h < x" using x d by (cases "dropWhile ?P (base # xs)") (auto simp: word_less_nat_alt)
    then show ?thesis using h by auto
  qed
  moreover have "\<forall>x\<in>set (takeWhile ?P (base # xs)). ?P x" using set_takeWhileD by metis
  ultimately show thesis using that [OF l] append_butlast_last_id [OF ne] by metis
qed

lemma free_loop_ends:
  assumes L: "path nx base (base # xs) base" "sorted_wrt (\<lambda>x y. unat x < unat y) (base # xs)"
    and l: "base # xs = us @ p # vs" "\<forall>x\<in>set (us @ [p]). x < bp" "\<forall>x\<in>set vs. bp < x" and f: "f \<in> set (base # xs)"
  shows "free_loop bp nx f = Some p"
proof -
  have b: "base < bp" "base \<le> p"
  proof -
    have "base \<in> set (us @ [p])" using l(1) by (cases us) auto
    then show "base < bp" using l(2) by blast
    show "base \<le> p" using l(1) L(2) by (cases us) (auto simp: word_le_nat_alt)
  qed
  obtain q where q: "path nx base (us @ [p]) q" "path nx q vs base" using L(1) l(1) by (metis append.assoc append_Cons append_Nil path_append)
  have qp: "bp < q \<or> q \<le> p" using q(2) l(3) b(2) by (cases vs) auto
  have srt: "sorted_wrt (\<lambda>x y. unat x < unat y) (us @ [p])" "sorted_wrt (\<lambda>x y. unat x < unat y) vs"
    using L(2) unfolding l(1) by (simp_all add: sorted_wrt_append)
  have low: "free_loop bp nx g = Some p" if g: "g \<in> set (us @ [p])" for g
  proof -
    obtain as ms where s: "us @ [p] = as @ g # ms" using g by (meson split_list)
    then obtain ms' where m: "g # ms = ms' @ [p]" by (metis append_butlast_last_id last_appendR last_snoc list.distinct(1))
    have "path nx g (ms' @ [p]) q" using q(1) unfolding s m by (auto simp flip: m)
    then show ?thesis by (rule free_walk_up) (use srt(1) l(2) qp in \<open>simp_all add: s sorted_wrt_append flip: m\<close>)
  qed
  show ?thesis
  proof (cases "f \<in> set (us @ [p])")
    case False
    then have "f \<in> set vs" using f unfolding l(1) by auto
    then obtain as ms where s: "vs = as @ f # ms" by (meson split_list)
    have "path nx f (f # ms) base" using q(2) unfolding s by auto
    then have "free_loop bp nx f = free_loop bp nx base"
      by (rule free_walk_round) (use srt(2) l(3) b(1) in \<open>simp_all add: s sorted_wrt_append\<close>)
    moreover have "base \<in> set (us @ [p])" using l(1) by (cases us) auto
    ultimately show ?thesis using low by simp
  qed (rule low)
qed


section \<open>\<open>free\<close> keeps the list\<close>

text \<open>A block that the program holds: outside the free ones, in the heap.\<close>

definition held :: "u32 \<Rightarrow> u32 list \<Rightarrow> uheap \<Rightarrow> u32 \<Rightarrow> bool" where
  "held base xs s bp \<longleftrightarrow> unat base + 8 \<le> unat bp \<and> 0 < hsize s bp \<and> bend s bp \<le> unat (brk s)
     \<and> block s bp \<inter> free_bytes xs s = {}"

lemma heldD:
  assumes "held base xs s bp" "x \<in> set xs" "0 < hsize s x"
  shows "unat bp \<noteq> unat x" "unat x < unat bp \<Longrightarrow> bend s x \<le> unat bp" "unat bp < unat x \<Longrightarrow> bend s bp \<le> unat x"
proof -
  have d: "\<forall>n. n \<in> block s bp \<longrightarrow> n \<notin> block s x" using assms(1,2) by (auto simp: held_def free_bytes_def)
  have "unat bp \<in> block s bp" "unat x \<in> block s x" using assms unfolding block_def bend_def held_def
    by (simp_all add: word_gt_0_no word_less_nat_alt)
  then show "unat bp \<noteq> unat x" using d by metis
  show "bend s x \<le> unat bp" if "unat x < unat bp" using d \<open>unat bp \<in> block s bp\<close> that unfolding block_def by (metis atLeastLessThan_iff less_imp_le not_less)
  show "bend s bp \<le> unat x" if "unat bp < unat x" using d \<open>unat x \<in> block s x\<close> that unfolding block_def by (metis atLeastLessThan_iff less_imp_le not_less)
qed


lemma bend_cong: "hsize s1 x = hsize s x \<Longrightarrow> bend s1 x = bend s x \<and> block s1 x = block s x"
  by (simp add: bend_def block_def)

lemma free_bytes_cong: "(\<And>x. x \<in> set xs \<Longrightarrow> hsize s1 x = hsize s x) \<Longrightarrow> free_bytes xs s1 = free_bytes xs s"
  by (simp add: free_bytes_def block_def bend_def)

lemma free_bytes_simps [simp]: "free_bytes [] s = {}" "free_bytes (x # xs) s = block s x \<union> free_bytes xs s"
  "free_bytes (xs @ ys) s = free_bytes xs s \<union> free_bytes ys s"
  by (auto simp: free_bytes_def)

lemma join_next_ok:
  assumes L: "ulist base xs s" "base # xs = us @ p # vs" and bp: "held base xs s bp" "\<forall>x\<in>set us. x < bp" "p < bp" "\<forall>x\<in>set vs. bp < x"
  defines "s1 \<equiv> join_next bp p s"
  obtains ws where "path (hptr s1) (hptr s1 bp) ws base" "\<And>x. x \<noteq> bp \<Longrightarrow> hptr s1 x = hptr s x \<and> hsize s1 x = hsize s x"
    "\<forall>y\<in>set ws. bend s1 bp < unat y" "sorted_wrt (\<lambda>x y. bend s x < unat y) ws" "set ws \<subseteq> set vs" "bend s1 bp \<le> unat (brk s)"
    "block s1 bp \<union> free_bytes ws s = block s bp \<union> free_bytes vs s" "0 < hsize s1 bp" "brk s1 = brk s" "freep s1 = freep s"
proof -
  note U = ulistD [OF L(1)]
  have d: "distinct (us @ p # vs)" using ulist_sorted(2) [OF L(1)] L(2) by simp
  have vx: "set vs \<subseteq> set xs" using L(2) by (cases us) auto
  have q: "path (hptr s) (hptr s p) vs base" using U(1) unfolding L(2) by auto
  have srt: "sorted_wrt (\<lambda>x y. bend s x < unat y) vs" using U(5) unfolding L(2) by (simp add: sorted_wrt_append)
  have nb: "bp \<notin> set vs" using bp(4) by auto
  have b: "0 < hsize s bp" "bend s bp \<le> unat (brk s)" "unat base + 8 \<le> unat bp" using bp(1) by (auto simp: held_def)
  have gap: "bend s bp \<le> unat y" if "y \<in> set vs" for y
    using heldD(3) [OF bp(1) subsetD [OF vx that] U(7) [OF subsetD [OF vx that]]] bp(4) that by (simp add: word_less_nat_alt)
  have w: "unat (bp + 8 * hsize s bp) = bend s bp" using b(2) U(9) by (intro bend_word) simp
  show thesis
  proof (cases "bp + 8 * hsize s bp = hptr s p")
    case False
    have "bend s bp < unat y" if y: "y \<in> set vs" for y
    proof -
      obtain v vs' where v: "vs = v # vs'" using y by (cases vs) auto
      have "bend s bp \<noteq> unat v" using False q v w by (metis path.simps(2) word_unat_eq_iff)
      then have "bend s bp < unat v" using gap [of v] v by simp
      moreover have "y = v \<or> unat v < unat y" using srt v y bend_ge [of v s] by (auto intro: le_less_trans)
      ultimately show ?thesis by auto
    qed
    then show thesis using that [of vs] False q nb srt b by (simp add: s1_def join_next_def Let_def bend_def block_def)
  next
    case True
    have "vs \<noteq> []"
    proof
      assume "vs = []"
      then have "unat base = bend s bp" using q True w by simp
      then show False using b(3) bend_ge [of bp s] by simp
    qed
    then obtain v ws where v: "vs = v # ws" by (cases vs) auto
    have hv: "hptr s p = v" "bend s bp = unat v" using q v True w by auto
    have vin: "v \<in> set xs" using vx v by simp
    have le: "bend s v \<le> unat (brk s)" "unat (brk s) < 2 ^ 31" using U(8) [OF vin] U(9) by auto
    have "unat (hsize s bp) + unat (hsize s v) < 2 ^ 32" using le hv(2) by (simp add: bend_def)
    then have sum: "unat (hsize s bp + hsize s v) = unat (hsize s bp) + unat (hsize s v)" by (simp add: unat_word_ariths)
    have e: "hsize s1 = (hsize s)(bp := hsize s bp + hsize s v)" "hptr s1 = (hptr s)(bp := hptr s v)" "brk s1 = brk s" "freep s1 = freep s"
      using True hv by (simp_all add: s1_def join_next_def Let_def)
    have be: "bend s1 bp = bend s v" using sum hv(2) by (simp add: bend_def e)
    have "block s1 bp = block s bp \<union> block s v" using be hv(2) bend_ge [of bp s] bend_ge [of v s] by (auto simp: block_def)
    moreover have "0 < hsize s1 bp" using sum b(1) by (simp add: e word_less_nat_alt)
    moreover have "path (hptr s1) (hptr s1 bp) ws base" using q v nb by (simp add: e)
    ultimately show thesis using that [of ws] v srt le(1) be e by (auto simp: Un_assoc)
  qed
qed


lemma sorted_bend_cong:
  "\<forall>x\<in>set xs. hsize s1 x = hsize s x \<Longrightarrow> sorted_wrt (\<lambda>x y. bend s1 x < unat y) xs = sorted_wrt (\<lambda>x y. bend s x < unat y) xs"
  by (induction xs) (simp_all add: bend_def)

definition good :: "u32 \<Rightarrow> uheap \<Rightarrow> u32 \<Rightarrow> bool" where
  "good base s x \<longleftrightarrow> unat base + 8 \<le> unat x \<and> 0 < hsize s x \<and> bend s x \<le> unat (brk s)"

lemma good_ne: "good base s x \<Longrightarrow> x \<noteq> base"
  by (auto simp: good_def)

text \<open>The list with a new middle part \<open>M\<close> behind \<open>p\<close>.\<close>

lemma rebuild:
  assumes L: "ulist base xs s" "base # xs = us @ p # vs"
    and ws: "set ws \<subseteq> set vs" "sorted_wrt (\<lambda>x y. bend s x < unat y) ws"
    and P: "path (hptr t) p (p # M) c" "path (hptr t) c ws base" "\<And>x. x \<in> set us \<Longrightarrow> hptr t x = hptr s x"
    and same: "\<And>x. x \<in> set us \<union> set ws \<Longrightarrow> hsize t x = hsize s x"
    and M: "sorted_wrt (\<lambda>x y. bend t x < unat y) (p # M)" "\<And>x y. x \<in> set (p # M) \<Longrightarrow> y \<in> set ws \<Longrightarrow> bend t x < unat y"
      "\<And>x. x \<in> set M \<Longrightarrow> good base t x" "p = base \<and> hsize t p = 0 \<or> good base t p"
    and t: "brk t = brk s" "freep t = p"
  shows "ulist base (tl (us @ p # M @ ws)) t"
proof -
  note U = ulistD [OF L(1)]
  let ?L = "us @ p # M @ ws"
  have bl: "base # tl ?L = ?L" using L(2) by (cases us) auto
  have srt: "sorted_wrt (\<lambda>x y. bend s x < unat y) us" "\<forall>x\<in>set us. bend s x < unat p" "\<forall>x\<in>set us. \<forall>y\<in>set vs. bend s x < unat y"
    using U(5) unfolding L(2) by (auto simp: sorted_wrt_append)
  have bs: "bend t x = bend s x" if "x \<in> set us \<union> set ws" for x using same [OF that] by (simp add: bend_def)
  have pu: "path (hptr s) base us p" using U(1) unfolding L(2) by auto
  have "path (hptr t) a us p" if "path (hptr s) a us p" for a
    using that P(3) by (induction us arbitrary: a) auto
  then have path: "path (hptr t) base ?L base" using pu P(1,2) by auto
  have up: "unat p \<le> unat y" if "y \<in> set (p # M)" for y using M(1) that bend_ge [of p t] by (auto intro: le_trans less_imp_le)
  have ul: "bend t x < unat y" if "x \<in> set us" "y \<in> set (p # M)" for x y
    using up [OF that(2)] srt(2) that(1) bs [of x] by (auto intro: less_le_trans)
  have "bend t x < unat y" if "x \<in> set us" "y \<in> set ws" for x y using srt(3) ws(1) that bs [of x] by auto
  moreover have "sorted_wrt (\<lambda>x y. bend t x < unat y) us" "sorted_wrt (\<lambda>x y. bend t x < unat y) ws"
    using srt(1) ws(2) same sorted_bend_cong [of us t s] sorted_bend_cong [of ws t s] by auto
  ultimately have S: "sorted_wrt (\<lambda>x y. bend t x < unat y) ?L"
    using M(1,2) ul by (auto simp: sorted_wrt_append)
  have "x = base \<and> hsize t x = 0 \<or> good base t x" if x: "x \<in> set ?L" for x
  proof (cases "x \<in> set (p # M)")
    case False
    then have x': "x \<in> set us \<union> set ws" using x by auto
    then have "x \<in> set (base # xs)" unfolding L(2) using ws(1) by auto
    then have "x = base \<or> good base s x" using U(6-8) by (auto simp: good_def)
    then show ?thesis using U(4) same [OF x'] bs [OF x'] t(1) by (auto simp: good_def)
  qed (use M(3,4) in auto)
  then have mem: "\<forall>x\<in>set (base # tl ?L). x = base \<and> hsize t x = 0 \<or> good base t x" unfolding bl by blast
  have S': "sorted_wrt (\<lambda>x y. bend t x < unat y) (base # tl ?L)" unfolding bl by (rule S)
  have "x \<noteq> base" if "x \<in> set (tl ?L)" for x using S' that bend_ge [of base t] by auto
  moreover have "path (hptr t) base (base # tl ?L) base" unfolding bl by (rule path)
  moreover have "freep t \<in> set (base # tl ?L)" unfolding bl t(2) by simp
  moreover have "hsize t base = 0" using mem good_ne by auto
  ultimately show ?thesis using U(3,9,10) S' mem t(1) unfolding ulist_def good_def by auto
qed

lemma rebuild_free:
  assumes "ulist base xs s" "base # xs = us @ p # vs" "\<And>x. x \<in> set us \<union> set ws \<Longrightarrow> hsize t x = hsize s x"
    and "hsize t base = 0" "free_bytes (p # M) t \<union> free_bytes ws s = block s p \<union> B \<union> free_bytes vs s"
  shows "free_bytes (tl (us @ p # M @ ws)) t = free_bytes xs s \<union> B"
proof -
  have e: "block s base = {}" "block t base = {}" using ulistD(4) [OF assms(1)] assms(4) by (simp_all add: block_def bend_def)
  have bl: "base # tl (us @ p # M @ ws) = us @ p # M @ ws" using assms(2) by (cases us) auto
  have "free_bytes us t = free_bytes us s" "free_bytes ws t = free_bytes ws s"
    using assms(3) by (auto intro!: free_bytes_cong)
  then have "free_bytes (us @ p # M @ ws) t = free_bytes (us @ p # vs) s \<union> B" using assms(5) by auto
  then have "free_bytes (base # tl (us @ p # M @ ws)) t = free_bytes (base # xs) s \<union> B" unfolding bl assms(2) .
  then show ?thesis using e by simp
qed


text \<open>\<open>free\<close> refines adding the block's bytes to the free ones.\<close>

lemma join_ok:
  assumes L: "ulist base xs s" "base # xs = us @ p # vs" and bp: "held base xs s bp" "\<forall>x\<in>set us. x < bp" "p < bp" "\<forall>x\<in>set vs. bp < x"
  defines "t \<equiv> (join_prev bp p (join_next bp p s))\<lparr>freep := p\<rparr>"
  shows "\<exists>ys. ulist base ys t \<and> free_bytes ys t = free_bytes xs s \<union> block s bp \<and> brk t = brk s
    \<and> (\<forall>x. x \<notin> set (base # xs) \<and> x \<noteq> bp \<longrightarrow> hsize t x = hsize s x)"
proof -
  note U = ulistD [OF L(1)]
  let ?s1 = "join_next bp p s"
  obtain ws where J: "path (hptr ?s1) (hptr ?s1 bp) ws base" "\<And>x. x \<noteq> bp \<Longrightarrow> hptr ?s1 x = hptr s x \<and> hsize ?s1 x = hsize s x"
    "\<forall>y\<in>set ws. bend ?s1 bp < unat y" "sorted_wrt (\<lambda>x y. bend s x < unat y) ws" "set ws \<subseteq> set vs" "bend ?s1 bp \<le> unat (brk s)"
    "block ?s1 bp \<union> free_bytes ws s = block s bp \<union> free_bytes vs s" "0 < hsize ?s1 bp" "brk ?s1 = brk s" "freep ?s1 = freep s"
    by (rule join_next_ok [OF L bp]) blast
  have d: "distinct (us @ p # vs)" using ulist_sorted(2) [OF L(1)] L(2) by simp
  have pv: "bend s p < unat y" if "y \<in> set ws" for y using U(5) J(5) that unfolding L(2) by (auto simp: sorted_wrt_append)
  have ne: "x \<noteq> bp \<and> x \<noteq> p" if "x \<in> set us \<union> set ws" for x using that bp J(5) d by auto
  have pb: "p \<noteq> bp" "base \<noteq> bp" using bp(1,3) by (auto simp: held_def)
  have pm: "p = base \<or> p \<in> set xs" using L(2) by (cases us) auto
  have pg: "p = base \<and> hsize s p = 0 \<or> good base s p" using pm U(4,6-8) by (auto simp: good_def)
  have gp: "bend s p \<le> unat bp"
    using pm heldD(2) [OF bp(1)] U(4,7) bp(1,3) by (auto simp: bend_def held_def word_less_nat_alt)
  have w: "unat (p + 8 * hsize s p) = bend s p" using gp unat_bound [of bp] by (intro bend_word) simp
  have bb: "unat bp < bend ?s1 bp" "unat base + 8 \<le> unat bp" using J(8) bp(1) by (simp_all add: bend_def held_def word_less_nat_alt)
  show ?thesis
  proof (cases "p + 8 * hsize s p = bp")
    case False
    have t: "t = ?s1\<lparr>hptr := (hptr ?s1)(p := bp), freep := p\<rparr>"
      using False J(2) [OF pb(1)] by (simp add: t_def join_prev_def)
    have lt: "bend s p < unat bp" using gp w False by (metis le_neq_implies_less word_unat_eq_iff)
    have ts: "hsize t = hsize ?s1" "brk t = brk s" "freep t = p" "\<And>x. x \<noteq> p \<Longrightarrow> hptr t x = hptr ?s1 x" "hptr t p = bp"
      by (simp_all add: t J(9))
    have tb: "bend t bp = bend ?s1 bp" "bend t p = bend s p" "block t bp = block ?s1 bp" "block t p = block s p"
      using J(2) [OF pb(1)] by (simp_all add: bend_def block_def ts)
    have same: "hsize t x = hsize s x" if "x \<in> set us \<union> set ws" for x using J(2) ne [OF that] ts(1) by simp
    have "ulist base (tl (us @ p # [bp] @ ws)) t"
    proof (rule rebuild [OF L J(5,4) _ _ _ same])
      show "path (hptr t) p (p # [bp]) (hptr ?s1 bp)" using ts(4,5) pb by simp
      have "path (hptr ?s1) a ys base \<Longrightarrow> p \<notin> set ys \<Longrightarrow> path (hptr t) a ys base" for a ys
        using ts(4) by (induction ys arbitrary: a) auto
      then show "path (hptr t) (hptr ?s1 bp) ws base" using J(1) ne by auto
      show "\<And>x. x \<in> set us \<Longrightarrow> hptr t x = hptr s x" using ts(4) J(2) ne by auto
      show "\<And>x y. x \<in> set (p # [bp]) \<Longrightarrow> y \<in> set ws \<Longrightarrow> bend t x < unat y" using pv J(3) tb by auto
      show "\<And>x. x \<in> set [bp] \<Longrightarrow> good base t x" using bb J(6,8) tb ts by (simp add: good_def)
      show "p = base \<and> hsize t p = 0 \<or> good base t p" using pg tb ts J(2) [OF pb(1)] by (simp add: good_def)
    qed (use lt tb ts in simp_all)
    moreover have "free_bytes (tl (us @ p # [bp] @ ws)) t = free_bytes xs s \<union> block s bp"
      by (rule rebuild_free [OF L same]) (use J(2,7) pb U(4) tb ts in auto)
    ultimately show ?thesis using ts J(2) by (intro exI conjI) auto
  next
    case True
    have pn: "p \<noteq> base" using True U(4) pb by auto
    then have pos: "good base s p" using pg by auto
    have t: "t = ?s1\<lparr>hsize := (hsize ?s1)(p := hsize s p + hsize ?s1 bp), hptr := (hptr ?s1)(p := hptr ?s1 bp), freep := p\<rparr>"
      using True J(2) [OF pb(1)] by (simp add: t_def join_prev_def)
    have pe: "bend s p = unat bp" using True w by simp
    have "unat (hsize s p) + unat (hsize ?s1 bp) < 2 ^ 32" using pe J(6) U(9) by (simp add: bend_def)
    then have sum: "unat (hsize s p + hsize ?s1 bp) = unat (hsize s p) + unat (hsize ?s1 bp)" by (simp add: unat_word_ariths)
    have ts: "hsize t p = hsize s p + hsize ?s1 bp" "brk t = brk s" "freep t = p" "hptr t p = hptr ?s1 bp"
      "\<And>x. x \<noteq> p \<Longrightarrow> hsize t x = hsize ?s1 x \<and> hptr t x = hptr ?s1 x" by (simp_all add: t J(9))
    have tb: "bend t p = bend ?s1 bp" using sum pe by (simp add: bend_def ts)
    have same: "hsize t x = hsize s x" if "x \<in> set us \<union> set ws" for x using J(2) ne [OF that] ts(5) by simp
    have "good base t p" using pos tb J(6) sum ts by (simp add: good_def word_less_nat_alt)
    then have "ulist base (tl (us @ p # [] @ ws)) t"
    proof (intro rebuild [OF L J(5,4) _ _ _ same])
      show "path (hptr t) p (p # []) (hptr ?s1 bp)" using ts(4) by simp
      have "path (hptr ?s1) a ys base \<Longrightarrow> p \<notin> set ys \<Longrightarrow> path (hptr t) a ys base" for a ys
        using ts(5) by (induction ys arbitrary: a) auto
      then show "path (hptr t) (hptr ?s1 bp) ws base" using J(1) ne by auto
      show "\<And>x. x \<in> set us \<Longrightarrow> hptr t x = hptr s x" using ts(5) J(2) ne by auto
      show "\<And>x y. x \<in> set (p # []) \<Longrightarrow> y \<in> set ws \<Longrightarrow> bend t x < unat y" using J(3) tb by auto
    qed (use ts in simp_all)
    moreover have "block t p = block s p \<union> block ?s1 bp" using tb pe bb bend_ge [of p s] by (auto simp: block_def)
    then have "free_bytes (tl (us @ p # [] @ ws)) t = free_bytes xs s \<union> block s bp"
      by (intro rebuild_free [OF L same]) (use J(2,7) pb pn U(4) ts in auto)
    moreover have "hsize t x = hsize s x" if "x \<notin> set (base # xs)" "x \<noteq> bp" for x
      using ts(5) [of x] J(2) [OF that(2)] pm that by auto
    ultimately show ?thesis using ts(2) by blast
  qed
qed


lemma free_ok:
  assumes L: "ulist base xs s" and bp: "held base xs s (ap - 8)"
  shows "\<exists>t ys. free ap s = Some t \<and> ulist base ys t \<and> free_bytes ys t = free_bytes xs s \<union> block s (ap - 8) \<and> brk t = brk s
    \<and> (\<forall>x. x \<notin> set (base # xs) \<and> x \<noteq> ap - 8 \<longrightarrow> hsize t x = hsize s x)"
proof -
  note U = ulistD [OF L] and S = ulist_sorted [OF L]
  have "base < ap - 8" "ap - 8 \<notin> set xs"
    using bp heldD(1) [OF bp] U(7) by (auto simp: held_def word_less_nat_alt)
  then obtain us p vs where l: "base # xs = us @ p # vs" "\<forall>x\<in>set (us @ [p]). x < ap - 8" "\<forall>x\<in>set vs. ap - 8 < x"
    using split_at [OF S(1)] by metis
  have "free_loop (ap - 8) (hptr s) (freep s) = Some p" by (rule free_loop_ends [OF U(1) S(1) l U(2)])
  then show ?thesis using join_ok [OF L l(1) bp] l(2,3) unfolding free_def Let_def by fastforce
qed

section \<open>\<open>malloc\<close> walks round the list\<close>

text \<open>From any block one goes round to \<open>freep\<close>, which comes last.\<close>

lemma round_path:
  assumes "ulist base xs s"
  obtains ks where "path (hptr s) (hptr s (freep s)) (ks @ [freep s]) (hptr s (freep s))"
    "set (ks @ [freep s]) = set (base # xs)" "distinct (ks @ [freep s])"
proof -
  obtain us vs where l: "base # xs = us @ freep s # vs" using ulistD(2) [OF assms] by (meson split_list)
  have "path (hptr s) base (us @ freep s # vs) base" using ulistD(1) [OF assms] unfolding l .
  then have "path (hptr s) (hptr s (freep s)) ((vs @ us) @ [freep s]) (hptr s (freep s))" by auto
  moreover have "distinct ((vs @ us) @ [freep s])" "set ((vs @ us) @ [freep s]) = set (base # xs)"
    using ulist_sorted(2) [OF assms] unfolding l by auto
  ultimately show thesis using that by blast
qed

text \<open>Small blocks are skipped.\<close>

lemma malloc_skip:
  "path (hptr s) p ks q \<Longrightarrow> \<forall>x\<in>set ks. hsize s x < n \<and> x \<noteq> freep s \<Longrightarrow> path (hptr s) (hptr s pr) ks q
    \<Longrightarrow> malloc_loop grant n pr (hptr s pr) s = malloc_loop grant n (last (pr # ks)) q s"
proof (induction ks arbitrary: p pr)
  case (Cons c ks)
  have "malloc_loop grant n pr c s = malloc_loop grant n c (hptr s c) s"
    using Cons.prems(2) by (subst malloc_loop.simps) (auto simp: not_le)
  then show ?case using Cons by auto
qed simp

text \<open>A list with a block that is big enough: the first one found is taken.\<close>

lemma malloc_finds:
  assumes L: "ulist base xs s" and big: "x \<in> set xs" "n \<le> hsize s x" and n: "0 < n"
  shows "\<exists>pr y. malloc_loop grant n (freep s) (hptr s (freep s)) s = Some (take_block n pr y s)
    \<and> pr \<in> set (base # xs) \<and> y \<in> set xs \<and> hptr s pr = y \<and> n \<le> hsize s y"
proof -
  let ?f = "freep s" and ?small = "\<lambda>x. hsize s x < n"
  obtain ks where c: "path (hptr s) (hptr s ?f) (ks @ [?f]) (hptr s ?f)" "set (ks @ [?f]) = set (base # xs)" "distinct (ks @ [?f])"
    by (rule round_path [OF L])
  have ex: "\<exists>x\<in>set (ks @ [?f]). \<not> ?small x" using c(2) big by (intro bexI [of _ x]) auto
  obtain zs y ts where l: "ks @ [?f] = zs @ y # ts" "\<forall>x\<in>set zs. ?small x" "\<not> ?small y"
    using split_list_first_prop [OF ex] by blast
  have ns: "?f \<notin> set zs" using c(3) l(1) by (metis Un_iff append_butlast_last_id butlast.simps(2) butlast_append
      butlast_snoc distinct_append last_ConsL last_appendR last_snoc list.distinct(1) not_distinct_conv_prefix set_append)
  have p: "path (hptr s) (hptr s ?f) zs y" "path (hptr s) y (y # ts) (hptr s ?f)" using c(1) unfolding l(1) by auto
  have "malloc_loop grant n ?f (hptr s ?f) s = malloc_loop grant n (last (?f # zs)) y s"
    by (rule malloc_skip [OF p(1) _ p(1)]) (use l(2) ns in auto)
  also have "\<dots> = Some (take_block n (last (?f # zs)) y s)" using l(3) by (subst malloc_loop.simps) (simp add: not_less)
  finally have m: "malloc_loop grant n ?f (hptr s ?f) s = Some (take_block n (last (?f # zs)) y s)" .
  have in': "set (ks @ [?f]) = set zs \<union> {y} \<union> set ts" unfolding l(1) by auto
  have pr: "last (?f # zs) \<in> set (base # xs)" using c(2) in' last_in_set [of "?f # zs"] by auto
  have "hptr s (last (?f # zs)) = y"
    using p(1) by (cases zs rule: rev_cases) auto
  moreover have "y \<noteq> base" using l(3) n ulistD(4) [OF L] by auto
  then have "y \<in> set xs" using c(2) in' by auto
  ultimately show ?thesis using m pr l(3) by (auto simp: not_less)
qed


section \<open>\<open>malloc\<close> takes a block off the list\<close>

lemma blocks_disjoint:
  assumes "ulist base xs s" "x \<in> set (base # xs)" "y \<in> set (base # xs)" "x \<noteq> y"
  shows "bend s x < unat y \<or> bend s y < unat x"
proof -
  obtain i j where i: "i < length (base # xs)" "(base # xs) ! i = x" and j: "j < length (base # xs)" "(base # xs) ! j = y"
    using assms(2,3) unfolding in_set_conv_nth by blast
  then have "i \<noteq> j" using assms(4) by auto
  then show ?thesis using ulistD(5) [OF assms(1)] i j unfolding sorted_wrt_iff_nth_less by (metis linorder_neqE_nat)
qed

lemma block_off:
  assumes "ulist base xs s" "y \<in> set xs" "base # xs = us @ y # vs"
  shows "free_bytes (us @ vs) s = free_bytes xs s - block s y"
proof -
  have "block s x \<inter> block s y = {}" if "x \<in> set (us @ vs)" for x
  proof -
    have "x \<in> set (base # xs)" "x \<noteq> y" using that ulist_sorted(2) [OF assms(1)] unfolding assms(3) by auto
    then have "bend s x < unat y \<or> bend s y < unat x" using blocks_disjoint [OF assms(1)] assms(2) by auto
    then show ?thesis by (auto simp: block_def)
  qed
  then have "free_bytes (us @ vs) s \<inter> block s y = {}" by (auto simp: free_bytes_def)
  moreover have "free_bytes (base # xs) s = free_bytes (us @ vs) s \<union> block s y" unfolding assms(3) by auto
  moreover have "block s base = {}" using ulistD(4) [OF assms(1)] by (simp add: block_def bend_def)
  ultimately show ?thesis by auto
qed

lemma list_pred:
  assumes L: "ulist base xs s" and y: "pr \<in> set (base # xs)" "y \<in> set xs" "hptr s pr = y"
  obtains us vs where "base # xs = us @ pr # y # vs"
proof -
  obtain us ws where l: "base # xs = us @ pr # ws" using y(1) by (meson split_list)
  have p: "path (hptr s) base (us @ pr # ws) base" using ulistD(1) [OF L] unfolding l .
  have "y \<noteq> base" using y(2) ulist_sorted(2) [OF L] by auto
  then have "ws = y # tl ws" using p y(3) by (cases ws) auto
  then show thesis using that l by metis
qed

text \<open>What the taken block is, whichever way.\<close>

definition taken :: "u32 \<Rightarrow> u32 list \<Rightarrow> uheap \<Rightarrow> u32 \<Rightarrow> u32 \<Rightarrow> uheap \<Rightarrow> bool" where
  "taken base xs s n r t \<longleftrightarrow> (\<exists>ys. ulist base ys t \<and> held base ys t (r - 8) \<and> hsize t (r - 8) = n
     \<and> block t (r - 8) \<subseteq> free_bytes xs s \<and> free_bytes ys t = free_bytes xs s - block t (r - 8) \<and> brk t = brk s
     \<and> (\<forall>x. unat x \<notin> free_bytes xs s \<and> x \<noteq> base \<longrightarrow> hsize t x = hsize s x))"

lemma in_free: "ulist base xs s \<Longrightarrow> x \<in> set xs \<Longrightarrow> unat x \<in> free_bytes xs s"
  using ulistD(7) [of base xs s x] by (auto simp: free_bytes_def block_def bend_def word_less_nat_alt intro!: bexI [of _ x])

lemma take_exact:
  assumes L: "ulist base xs s" and y: "base # xs = us @ pr # y # vs" "hsize s y = n"
  shows "taken base xs s n (y + 8) (s\<lparr>hptr := (hptr s)(pr := hptr s y), freep := pr\<rparr>)"
proof -
  let ?t = "s\<lparr>hptr := (hptr s)(pr := hptr s y), freep := pr\<rparr>"
  note U = ulistD [OF L]
  have d: "distinct (us @ pr # y # vs)" using ulist_sorted(2) [OF L] unfolding y(1) .
  have yin: "y \<in> set xs" using y(1) by (cases us) auto
  have p: "path (hptr s) (hptr s y) vs base" using U(1) unfolding y(1) by auto
  have srt: "sorted_wrt (\<lambda>x y. bend s x < unat y) (us @ pr # y # vs)" using U(5) unfolding y(1) .
  have bt: "bend ?t x = bend s x" "block ?t x = block s x" for x by (simp_all add: bend_def block_def)
  have pg: "pr = base \<and> hsize s pr = 0 \<or> good base s pr" using U(4,6-8) y(1) by (cases us) (auto simp: good_def)
  have U': "ulist base (tl (us @ pr # [] @ vs)) ?t"
  proof (rule rebuild [OF L y(1)])
    show "path (hptr ?t) (hptr s y) vs base" using p d by simp
    show "path (hptr ?t) pr (pr # []) (hptr s y)" by simp
    show "pr = base \<and> hsize ?t pr = 0 \<or> good base ?t pr" using pg by (simp add: good_def bend_def)
  qed (use srt d in \<open>auto simp: sorted_wrt_append bt\<close>)
  have l': "base # xs = (us @ [pr]) @ y # vs" using y(1) by simp
  have "free_bytes (base # tl (us @ pr # [] @ vs)) s = free_bytes ((us @ [pr]) @ vs) s" using y(1) by (cases us) auto
  then have F: "free_bytes (tl (us @ pr # [] @ vs)) ?t = free_bytes xs s - block s y"
    using block_off [OF L yin l'] U(4) by (simp add: free_bytes_def block_def bend_def)
  have sub: "block s y \<subseteq> free_bytes xs s" using yin by (auto simp: free_bytes_def)
  have H: "held base (tl (us @ pr # [] @ vs)) ?t y" unfolding held_def F using U(6-8) [OF yin] bt by auto
  show ?thesis unfolding taken_def using U' H F sub y(2) bt by (intro exI [of _ "tl (us @ pr # [] @ vs)"]) simp
qed

lemma take_tail:
  assumes L: "ulist base xs s" and y: "base # xs = us @ pr # y # vs" "n < hsize s y" "0 < n"
  defines "r \<equiv> hsize s y - n"
  shows "taken base xs s n (y + 8 * r + 8) (s\<lparr>hsize := (hsize s)(y := r, y + 8 * r := n), freep := pr\<rparr>)"
proof -
  let ?b = "y + 8 * r" and ?t = "s\<lparr>hsize := (hsize s)(y := r, y + 8 * r := n), freep := pr\<rparr>"
  note U = ulistD [OF L]
  have d: "distinct (us @ pr # y # vs)" using ulist_sorted(2) [OF L] unfolding y(1) .
  have yin: "y \<in> set xs" using y(1) by (cases us) auto
  have r: "unat r = unat (hsize s y) - unat n" "0 < unat r" using y(2) by (simp_all add: r_def unat_sub word_less_nat_alt less_imp_le)
  have n: "unat n < unat (hsize s y)" "0 < unat n" using y(2,3) by (simp_all add: word_less_nat_alt)
  have bs: "bend s y < 2 ^ 31" using U(8) [OF yin] U(9) by simp
  have b: "unat ?b = unat y + 8 * unat r" using bs r by (simp add: unat_word_ariths bend_def)
  have be: "unat ?b + 8 * unat n = bend s y" using b r n by (simp add: bend_def)
  have bin: "unat ?b \<in> block s y" "?b \<noteq> y" using b be n r by (auto simp: block_def)
  have bo: "?b \<noteq> x" if "x \<in> set (base # xs)" "x \<noteq> y" for x
    using blocks_disjoint [OF L that(1) _ that(2)] yin bin(1) bend_ge [of x s] by (auto simp: block_def)
  have ht: "hsize ?t y = r" "hsize ?t ?b = n" "\<And>x. x \<noteq> y \<Longrightarrow> x \<noteq> ?b \<Longrightarrow> hsize ?t x = hsize s x" using bin(2) by simp_all
  have mem: "x \<in> set (base # xs) \<and> x \<noteq> y" if "x \<in> set us \<union> {pr} \<union> set vs" for x using that d unfolding y(1) by auto
  have same: "hsize ?t x = hsize s x" if "x \<in> set us \<union> {pr} \<union> set vs" for x
    using mem [OF that] bo ht(3) by auto
  have bt: "bend ?t x = bend s x" if "x \<in> set us \<union> {pr} \<union> set vs" for x using same [OF that] by (simp add: bend_def)
  have e: "bend ?t ?b = bend s y" using be ht(2) by (simp only: bend_def)
  have by': "bend ?t y = unat ?b" "block ?t ?b = {unat ?b..<bend s y}" "bend ?t ?b = bend s y"
    using b ht(1) by (simp_all add: bend_def [of ?t y]) (simp_all only: block_def e)
  have srt: "sorted_wrt (\<lambda>x y. bend s x < unat y) (us @ pr # y # vs)" using U(5) unfolding y(1) .
  have yv: "unat ?b < unat v" if "v \<in> set vs" for v using srt that be by (auto simp: sorted_wrt_append intro: le_less_trans)
  have pg: "pr = base \<and> hsize s pr = 0 \<or> good base s pr" using U(4,6-8) y(1) by (cases us) (auto simp: good_def)
  have p: "hptr s pr = y" "path (hptr s) (hptr s y) vs base" using U(1) unfolding y(1) by auto
  have U': "ulist base (tl (us @ pr # [y] @ vs)) ?t"
  proof (rule rebuild [OF L y(1)])
    show "path (hptr ?t) pr (pr # [y]) (hptr s y)" using p by simp
    show "path (hptr ?t) (hptr s y) vs base" using p by simp
    show "sorted_wrt (\<lambda>x y. bend ?t x < unat y) (pr # [y])" using srt bt by (auto simp: sorted_wrt_append)
    show "\<And>x z. x \<in> set (pr # [y]) \<Longrightarrow> z \<in> set vs \<Longrightarrow> bend ?t x < unat z"
      using srt bt yv by' by (auto simp: sorted_wrt_append)
    show "\<And>x. x \<in> set [y] \<Longrightarrow> good base ?t x" using U(6,8) [OF yin] r by' be ht by (simp add: good_def word_less_nat_alt)
    show "pr = base \<and> hsize ?t pr = 0 \<or> good base ?t pr" using pg bt same by (auto simp: good_def)
  qed (use srt same in \<open>auto simp: sorted_wrt_append\<close>)
  have l': "base # xs = (us @ [pr]) @ y # vs" using y(1) by simp
  have "free_bytes ((us @ [pr]) @ vs) ?t = free_bytes ((us @ [pr]) @ vs) s" using same by (intro free_bytes_cong) auto
  then have "free_bytes ((us @ [pr]) @ vs) ?t = free_bytes xs s - block s y" using block_off [OF L yin l'] by simp
  moreover have sub: "block s y \<subseteq> free_bytes xs s" using yin by (auto simp: free_bytes_def)
  moreover have "block ?t y = block s y - block ?t ?b" using by' bin(1) be by (auto simp: block_def)
  moreover have "block ?t ?b \<subseteq> block s y" using by' b by (auto simp: block_def)
  ultimately have F: "free_bytes (us @ pr # y # vs) ?t = free_bytes xs s - block ?t ?b" by auto
  have bl: "base # tl (us @ pr # [y] @ vs) = us @ pr # y # vs" using y(1) by (cases us) auto
  have "base \<noteq> y" using yin ulist_sorted(2) [OF L] by auto
  moreover from this have "?b \<noteq> base" by (intro bo) simp_all
  ultimately have "hsize ?t base = 0" using U(4) by simp
  then have nb: "block ?t base = {}" by (simp only: block_def bend_def) simp
  have "free_bytes (base # tl (us @ pr # [y] @ vs)) ?t = free_bytes xs s - block ?t ?b" unfolding bl by (rule F)
  then have F': "free_bytes (tl (us @ pr # [y] @ vs)) ?t = free_bytes xs s - block ?t ?b"
    unfolding free_bytes_simps(2) nb Un_empty_left .
  have bsub: "block ?t ?b \<subseteq> free_bytes xs s" using sub by' b by (auto simp: block_def)
  have H: "held base (tl (us @ pr # [y] @ vs)) ?t ?b" unfolding held_def F'
  proof (intro conjI)
    show "unat base + 8 \<le> unat ?b" using U(6) [OF yin] b by simp
    show "0 < hsize ?t ?b" unfolding ht(2) by (rule y(3))
    show "bend ?t ?b \<le> unat (brk ?t)" unfolding by'(3) using U(8) [OF yin] by simp
  qed (rule Diff_disjoint)
  have frame: "hsize ?t x = hsize s x" if "unat x \<notin> free_bytes xs s" for x
    using ht(3) [of x] that bin(1) sub in_free [OF L yin] by auto
  have a: "?b + 8 - 8 = ?b" by simp
  show ?thesis unfolding taken_def a
    by (intro exI [of _ "tl (us @ pr # [y] @ vs)"] conjI allI impI U' H F' bsub ht(2)) (use frame in simp_all)
qed


lemma take_ok:
  assumes L: "ulist base xs s" and y: "pr \<in> set (base # xs)" "y \<in> set xs" "hptr s pr = y" "n \<le> hsize s y" "0 < n"
  shows "\<exists>r t. take_block n pr y s = (r, t) \<and> r \<noteq> 0 \<and> taken base xs s n r t"
proof -
  obtain us vs where l: "base # xs = us @ pr # y # vs" by (rule list_pred [OF L y(1-3)])
  have nz: "b + 8 \<noteq> 0" if "held base ys t (b + 8 - 8)" "ulist base ys t" for b ys t
  proof
    assume "b + 8 = 0"
    then have "b = - 8" by (simp add: eq_neg_iff_add_eq_0)
    then have "unat b = 2 ^ 32 - 8" by simp
    moreover have "unat b < 2 ^ 31" using that ulistD(9) [OF that(2)] bend_ge [of b t] by (auto simp: held_def)
    ultimately show False by simp
  qed
  show ?thesis
  proof (cases "hsize s y = n")
    case True
    have "taken base xs s n (y + 8) (snd (take_block n pr y s))" using take_exact [OF L l True] True y(3) by (simp add: take_block_def)
    then show ?thesis using True nz unfolding taken_def by (fastforce simp: take_block_def)
  next
    case False
    then have "n < hsize s y" using y(4) by simp
    then have "taken base xs s n (y + 8 * (hsize s y - n) + 8) (snd (take_block n pr y s))"
      using take_tail [OF L l _ y(5)] False by (simp add: take_block_def Let_def)
    then show ?thesis using False nz unfolding taken_def by (fastforce simp: take_block_def Let_def)
  qed
qed

section \<open>More memory\<close>

lemma malloc_none:
  assumes L: "ulist base xs s" and small: "\<forall>x\<in>set xs. hsize s x < n" "0 < n"
  shows "malloc_loop grant n (freep s) (hptr s (freep s)) s
    = Option.bind (morecore grant n s) (\<lambda>(p, s). if p = 0 then Some (0, s) else malloc_loop grant n p (hptr s p) s)"
proof -
  let ?f = "freep s"
  obtain ks where c: "path (hptr s) (hptr s ?f) (ks @ [?f]) (hptr s ?f)" "set (ks @ [?f]) = set (base # xs)" "distinct (ks @ [?f])"
    by (rule round_path [OF L])
  have p: "path (hptr s) (hptr s ?f) ks ?f" using c(1) by auto
  have sm: "hsize s x < n" if "x \<in> set (ks @ [?f])" for x using that small ulistD(4) [OF L] unfolding c(2) by auto
  have "malloc_loop grant n ?f (hptr s ?f) s = malloc_loop grant n (last (?f # ks)) ?f s"
    by (rule malloc_skip [OF p _ p]) (use sm c(3) in auto)
  also have "\<dots> = Option.bind (morecore grant n s) (\<lambda>(p, s). if p = 0 then Some (0, s) else malloc_loop grant n p (hptr s p) s)"
  proof -
    have "\<not> n \<le> hsize s ?f" using sm [of ?f] by simp
    then show ?thesis by (subst malloc_loop.simps) (simp only: if_False if_True refl)
  qed
  finally show ?thesis .
qed

text \<open>The block around an address that is free covers all free bytes from there on without a gap.\<close>

lemma block_covers:
  assumes L: "ulist base xs s" and sub: "{a..<b} \<subseteq> free_bytes xs s" "a < b"
  obtains x where "x \<in> set xs" "unat x \<le> a" "b \<le> bend s x"
proof -
  obtain x where x: "x \<in> set xs" "a \<in> block s x" using sub by (force simp: free_bytes_def)
  have "b \<le> bend s x"
  proof (rule ccontr)
    assume "\<not> b \<le> bend s x"
    then have "bend s x \<in> free_bytes xs s" using sub x(2) by (auto simp: block_def)
    then obtain y where y: "y \<in> set xs" "bend s x \<in> block s y" by (auto simp: free_bytes_def)
    then have "x \<noteq> y" by (auto simp: block_def)
    then have "bend s x < unat y \<or> bend s y < unat x" using blocks_disjoint [OF L] x(1) y(1) by auto
    then show False using y(2) bend_ge [of x s] by (auto simp: block_def)
  qed
  then show thesis using that x by (auto simp: block_def)
qed


text \<open>What grows the list: the new block is held until \<open>free\<close> takes it.\<close>

lemma sbrk_grows:
  assumes L: "ulist base xs s" and n: "0 < unat n" "unat n < 2 ^ 31" and sb: "sbrk grant n s = (p, u)"
  shows "p = - 1 \<and> u = s \<or> p = brk s \<and> u = s\<lparr>brk := brk s + n\<rparr> \<and> unat (brk s + n) = unat (brk s) + unat n \<and> unat (brk s + n) < 2 ^ 31
    \<and> brk s \<noteq> - 1"
proof -
  have "0 <s n"
  proof (rule ccontr)
    assume "\<not> 0 <s n"
    moreover have "sint n = int (unat n)" using sint_of_nat_small [OF n(2)] by simp
    moreover have "sint n \<le> 0" using calculation(1) by (simp add: word_sless_alt)
    ultimately show False using n(1) by linarith
  qed
  moreover have "unat (brk s) < 2 ^ 31" using ulistD(9) [OF L] .
  moreover have "unat (brk s + n) = unat (brk s) + unat n" using calculation(2) n(2) by (simp add: unat_word_ariths)
  moreover have "brk s \<noteq> - 1" using calculation(2) unat_neg_one [where 'a = 32] by auto
  ultimately show ?thesis using sb by (auto simp: sbrk_def Let_def KERNBASE_def word_le_nat_alt not_le split: if_splits)
qed

lemma morecore_ok:
  assumes L: "ulist base xs s" and n: "0 < unat n" "unat n \<le> 2 ^ 28 - 1"
  shows "\<exists>p t. morecore grant n s = Some (p, t) \<and> (p = 0 \<and> t = s \<or> p = freep t \<and> p \<noteq> 0 \<and> (\<exists>ys. ulist base ys t
    \<and> free_bytes ys t = free_bytes xs s \<union> {unat (brk s)..<unat (brk t)} \<and> brk s \<le> brk t \<and> (\<exists>y\<in>set ys. n \<le> hsize t y)
    \<and> (\<forall>x. x \<notin> set (base # xs) \<and> x \<noteq> brk s \<longrightarrow> hsize t x = hsize s x)))"
proof -
  define nu where "nu = (if n < 4096 then 4096 else n)"
  have nu: "0 < unat nu" "unat nu \<le> 2 ^ 28 - 1" "n \<le> nu" using n by (simp_all add: nu_def less_imp_le)
  have m: "unat (nu * 8) = 8 * unat nu" using nu(2) by (simp add: unat_word_ariths)
  obtain p u where sb: "sbrk grant (nu * 8) s = (p, u)" by fastforce
  have cases: "p = - 1 \<and> u = s \<or> p = brk s \<and> u = s\<lparr>brk := brk s + nu * 8\<rparr> \<and> unat (brk s + nu * 8) = unat (brk s) + 8 * unat nu
      \<and> unat (brk s + nu * 8) < 2 ^ 31 \<and> brk s \<noteq> - 1"
    using sbrk_grows [OF L _ _ sb] nu m by simp
  show ?thesis
  proof (cases "p = - 1")
    case True
    then show ?thesis using cases sb by (auto simp: morecore_def Let_def simp flip: nu_def)
  next
    case False
    note U = ulistD [OF L]
    let ?a = "brk s" and ?v = "s\<lparr>brk := brk s + nu * 8, hsize := (hsize s)(brk s := nu)\<rparr>"
    have p: "p = ?a" "u = s\<lparr>brk := ?a + nu * 8\<rparr>" and b: "unat (?a + nu * 8) = unat ?a + 8 * unat nu" "unat (?a + nu * 8) < 2 ^ 31"
      using cases False by auto
    have ax: "x \<noteq> ?a \<and> unat x < unat ?a" if "x \<in> set (base # xs)" for x
      using that U(7,8) [of x] U(10) by (force simp: bend_def word_less_nat_alt)
    have hs: "hsize ?v x = hsize s x" "bend ?v x = bend s x" if "x \<in> set (base # xs)" for x using ax [OF that] by (simp_all add: bend_def)
    have "sorted_wrt (\<lambda>x y. bend ?v x < unat y) (base # xs)" using U(5) hs(1) sorted_bend_cong [of "base # xs" ?v s] by blast
    then have V: "ulist base xs ?v" using U hs b unfolding ulist_def by fastforce
    have "free_bytes xs ?v = free_bytes xs s" using hs(1) by (intro free_bytes_cong) auto
    moreover have blk: "block ?v ?a = {unat ?a..<unat ?a + 8 * unat nu}" by (simp add: block_def bend_def)
    moreover have "n < unat ?a" if "n \<in> free_bytes xs s" for n using that U(8) by (fastforce simp: free_bytes_def block_def)
    ultimately have F: "free_bytes xs ?v = free_bytes xs s" "block ?v ?a \<inter> free_bytes xs ?v = {}" by fastforce+
    have H: "held base xs ?v (?a + 8 - 8)" using F(2) U(10) nu(1) b by (simp add: held_def bend_def word_less_nat_alt)
    obtain t ys where t: "free (?a + 8) ?v = Some t" "ulist base ys t" "free_bytes ys t = free_bytes xs ?v \<union> block ?v (?a + 8 - 8)"
      "brk t = brk ?v" "\<forall>x. x \<notin> set (base # xs) \<and> x \<noteq> ?a + 8 - 8 \<longrightarrow> hsize t x = hsize ?v x"
      using free_ok [OF V H] by blast
    have sub: "{unat ?a..<unat ?a + 8 * unat nu} \<subseteq> free_bytes ys t" "unat ?a < unat ?a + 8 * unat nu" using t(3) blk nu(1) by auto
    obtain y where y: "y \<in> set ys" "unat y \<le> unat ?a" "unat ?a + 8 * unat nu \<le> bend t y" by (rule block_covers [OF t(2) sub])
    then have "n \<le> hsize t y" using nu(3) by (simp add: bend_def word_le_nat_alt)
    moreover have "freep t \<noteq> 0" using ulistD(2,3) [OF t(2)] ulistD(6) [OF t(2), of "freep t"] by auto
    moreover have "free_bytes ys t = free_bytes xs s \<union> {unat ?a..<unat (brk t)}" using t(3,4) F(1) blk b by simp
    moreover have "?a \<le> brk t" using t(4) b by (simp add: word_le_nat_alt)
    moreover have "\<forall>x. x \<notin> set (base # xs) \<and> x \<noteq> ?a \<longrightarrow> hsize t x = hsize s x" using t(5) by auto
    moreover have "morecore grant n s = Some (freep t, t)"
      using sb p t(1) False by (simp add: morecore_def Let_def flip: nu_def)
    ultimately show ?thesis using t(2) y(1) by blast
  qed
qed


section \<open>\<open>malloc\<close> as a whole\<close>

lemma heldD2:
  assumes L: "ulist base xs s" and h: "held base xs s b"
  shows "unat b \<notin> free_bytes xs s" "b \<notin> set (base # xs)" "unat b < unat (brk s)" "b \<noteq> brk s"
proof -
  have b: "unat b \<in> block s b" using h by (simp add: held_def block_def bend_def word_less_nat_alt)
  then show f: "unat b \<notin> free_bytes xs s" using h by (auto simp: held_def)
  then show "b \<notin> set (base # xs)" using in_free [OF L] h by (auto simp: held_def)
  show "unat b < unat (brk s)" using b h by (auto simp: block_def held_def)
  then show "b \<noteq> brk s" by auto
qed

text \<open>All that the result of \<open>malloc\<close> promises; \<open>F\<close> are the bytes that were free or are new.\<close>

definition malloc_post :: "u32 \<Rightarrow> u32 list \<Rightarrow> uheap \<Rightarrow> u32 \<Rightarrow> u32 \<Rightarrow> uheap \<Rightarrow> bool" where
  "malloc_post base xs s n r t \<longleftrightarrow> (\<exists>ys. ulist base ys t \<and> held base ys t (r - 8) \<and> hsize t (r - 8) = n \<and> brk s \<le> brk t
     \<and> block t (r - 8) \<subseteq> free_bytes xs s \<union> {unat (brk s)..<unat (brk t)}
     \<and> free_bytes ys t = (free_bytes xs s \<union> {unat (brk s)..<unat (brk t)}) - block t (r - 8)
     \<and> (\<forall>b. held base xs s b \<longrightarrow> hsize t b = hsize s b))"

lemma taken_post:
  assumes "ulist base xs s" "taken base xs s n r t"
  shows "malloc_post base xs s n r t"
proof -
  obtain ys where "ulist base ys t" "held base ys t (r - 8)" "hsize t (r - 8) = n"
     "block t (r - 8) \<subseteq> free_bytes xs s" "free_bytes ys t = free_bytes xs s - block t (r - 8)" "brk t = brk s"
     "\<forall>x. unat x \<notin> free_bytes xs s \<and> x \<noteq> base \<longrightarrow> hsize t x = hsize s x"
    using assms(2) unfolding taken_def by blast
  then show ?thesis unfolding malloc_post_def using heldD2(1,2) [OF assms(1)] by (intro exI [of _ ys]) auto
qed

lemma malloc_loop_ok:
  assumes L: "ulist base xs s" and n: "0 < unat n" "unat n \<le> 2 ^ 28 - 1"
  shows "\<exists>r t. malloc_loop grant n (freep s) (hptr s (freep s)) s = Some (r, t) \<and> (r = 0 \<and> t = s \<or> r \<noteq> 0 \<and> malloc_post base xs s n r t)"
proof (cases "\<exists>x\<in>set xs. n \<le> hsize s x")
  case True
  have n0: "0 < n" using n by (simp add: word_less_nat_alt)
  obtain x where "x \<in> set xs" "n \<le> hsize s x" using True by blast
  then obtain pr y where m: "malloc_loop grant n (freep s) (hptr s (freep s)) s = Some (take_block n pr y s)"
    and y: "pr \<in> set (base # xs)" "y \<in> set xs" "hptr s pr = y" "n \<le> hsize s y" using malloc_finds [OF L _ _ n0] by blast
  then show ?thesis using take_ok [OF L y n0] taken_post [OF L] by metis
next
  case False
  have n0: "0 < n" using n by (simp add: word_less_nat_alt)
  note loop = malloc_none [OF L _ n0, of grant]
  obtain p u where mc: "morecore grant n s = Some (p, u)" and c: "p = 0 \<and> u = s \<or> p = freep u \<and> p \<noteq> 0 \<and> (\<exists>ys. ulist base ys u
    \<and> free_bytes ys u = free_bytes xs s \<union> {unat (brk s)..<unat (brk u)} \<and> brk s \<le> brk u \<and> (\<exists>y\<in>set ys. n \<le> hsize u y)
    \<and> (\<forall>x. x \<notin> set (base # xs) \<and> x \<noteq> brk s \<longrightarrow> hsize u x = hsize s x))"
    using morecore_ok [OF L n, of grant] by blast
  show ?thesis
  proof (cases "p = 0")
    case True
    then show ?thesis using loop False mc c by (auto simp: not_le)
  next
    case pn: False
    then obtain ys x where u: "p = freep u" "ulist base ys u" "free_bytes ys u = free_bytes xs s \<union> {unat (brk s)..<unat (brk u)}"
      "brk s \<le> brk u" "x \<in> set ys" "n \<le> hsize u x" "\<And>x. x \<notin> set (base # xs) \<Longrightarrow> x \<noteq> brk s \<Longrightarrow> hsize u x = hsize s x" using c by blast
    obtain pr y where m: "malloc_loop grant n (freep u) (hptr u (freep u)) u = Some (take_block n pr y u)"
      and y: "pr \<in> set (base # ys)" "y \<in> set ys" "hptr u pr = y" "n \<le> hsize u y" using malloc_finds [OF u(2,5,6) n0] by blast
    obtain r t where t: "take_block n pr y u = (r, t)" "r \<noteq> 0" "taken base ys u n r t" using take_ok [OF u(2) y n0] by blast
    then obtain zs where z: "ulist base zs t" "held base zs t (r - 8)" "hsize t (r - 8) = n"
      "block t (r - 8) \<subseteq> free_bytes ys u" "free_bytes zs t = free_bytes ys u - block t (r - 8)" "brk t = brk u"
      "\<forall>x. unat x \<notin> free_bytes ys u \<and> x \<noteq> base \<longrightarrow> hsize t x = hsize u x"
      unfolding taken_def by blast
    have "hsize t b = hsize s b" if h: "held base xs s b" for b
    proof -
      have "unat b \<notin> free_bytes ys u" "b \<noteq> base" using heldD2 [OF L h] u(3) by auto
      then show ?thesis using z(7) u(7) heldD2 [OF L h] by metis
    qed
    then have "malloc_post base xs s n r t" unfolding malloc_post_def using z u by (intro exI [of _ zs]) simp
    then show ?thesis using loop False mc pn m u(1) t by (auto simp: not_le)
  qed
qed

text \<open>The heap as its client uses it: \<open>A\<close> are the pointers it has and has not given back.\<close>

inductive ustep :: "(u32 \<Rightarrow> u32 \<Rightarrow> bool) \<Rightarrow> u32 \<Rightarrow> uheap \<times> u32 list \<Rightarrow> uheap \<times> u32 list \<Rightarrow> bool" for grant base where
  mallocs: "malloc grant base n s = Some (r, t) \<Longrightarrow> unat n + 16 \<le> 2 ^ 31 \<Longrightarrow> ustep grant base (s, A) (t, if r = 0 then A else r # A)"
| frees: "r \<in> set A \<Longrightarrow> free r s = Some t \<Longrightarrow> ustep grant base (s, A) (t, remove1 r A)"

inductive_cases ustepE: "ustep grant base (s, A) (t, B)"

definition uinv :: "u32 \<Rightarrow> uheap \<Rightarrow> u32 list \<Rightarrow> bool" where
  "uinv base s A \<longleftrightarrow> (\<exists>xs. ulist base xs (malloc_init base s) \<and> (A \<noteq> [] \<longrightarrow> freep s \<noteq> 0)
     \<and> distinct A \<and> (\<forall>r\<in>set A. held base xs s (r - 8)) \<and> (\<forall>r\<in>set A. \<forall>q\<in>set A. r \<noteq> q \<longrightarrow> block s (r - 8) \<inter> block s (q - 8) = {}))"

lemma malloc_units:
  assumes "unat nbytes + 16 \<le> 2 ^ 31"
  shows "unat ((nbytes + 8 - 1) div 8 + 1 :: u32) = (unat nbytes + 7) div 8 + 1"
proof -
  have "unat (nbytes + 8 - 1) = unat nbytes + 7" using assms by (simp add: unat_word_ariths)
  then have "unat ((nbytes + 8 - 1) div 8) = (unat nbytes + 7) div 8" by (simp add: unat_div)
  then show ?thesis using assms by (simp add: unat_word_ariths)
qed

lemma malloc_ok:
  assumes "ulist base xs (malloc_init base s)" "unat nbytes + 16 \<le> 2 ^ 31"
  shows "\<exists>r t. malloc grant base nbytes s = Some (r, t)
    \<and> (r = 0 \<and> t = malloc_init base s \<or> r \<noteq> 0 \<and> malloc_post base xs (malloc_init base s) ((nbytes + 8 - 1) div 8 + 1) r t)"
  unfolding malloc_def Let_def
  by (rule malloc_loop_ok [OF assms(1)]) (use malloc_units [OF assms(2)] assms(2) in auto)


lemma ulist_init: "ulist base xs t \<Longrightarrow> malloc_init base t = t \<and> freep t \<noteq> 0"
  using ulistD(2,3) [of base xs t] ulistD(6) [of base xs t "freep t"] by (auto simp: malloc_init_def)

lemma held_block: "hsize t b = hsize s b \<Longrightarrow> block t b = block s b \<and> bend t b = bend s b"
  by (simp add: block_def bend_def)

lemma malloc_inv:
  assumes I: "uinv base s A" and m: "malloc grant base n s = Some (r, t)" "unat n + 16 \<le> 2 ^ 31"
  shows "uinv base t (if r = 0 then A else r # A)"
proof -
  let ?s = "malloc_init base s"
  obtain xs where L: "ulist base xs ?s" and A: "A \<noteq> [] \<longrightarrow> freep s \<noteq> 0" "distinct A" "\<forall>r\<in>set A. held base xs s (r - 8)"
    "\<forall>r\<in>set A. \<forall>q\<in>set A. r \<noteq> q \<longrightarrow> block s (r - 8) \<inter> block s (q - 8) = {}" using I unfolding uinv_def by blast
  have s: "?s = s" if "A \<noteq> []" using A(1) that by (simp add: malloc_init_def)
  show ?thesis
  proof (cases "r = 0")
    case True
    then have "t = ?s" using malloc_ok [OF L m(2), of grant] m(1) by auto
    then show ?thesis using True L A s ulist_init [OF L] unfolding uinv_def by (cases "A = []") auto
  next
    case False
    then have "malloc_post base xs ?s ((n + 8 - 1) div 8 + 1) r t" using malloc_ok [OF L m(2), of grant] m(1) by auto
    then obtain ys where P: "ulist base ys t" "held base ys t (r - 8)" "brk ?s \<le> brk t"
      "block t (r - 8) \<subseteq> free_bytes xs ?s \<union> {unat (brk ?s)..<unat (brk t)}"
      "free_bytes ys t = (free_bytes xs ?s \<union> {unat (brk ?s)..<unat (brk t)}) - block t (r - 8)"
      "\<forall>b. held base xs ?s b \<longrightarrow> hsize t b = hsize ?s b" unfolding malloc_post_def by blast
    have old: "held base ys t (q - 8) \<and> block t (q - 8) = block s (q - 8) \<and> block t (r - 8) \<inter> block s (q - 8) = {} \<and> q \<noteq> r"
      if q: "q \<in> set A" for q
    proof -
      have sq: "?s = s" "held base xs s (q - 8)" using q s A(3) by (metis empty_iff list.set(1))+
      then have hq: "hsize t (q - 8) = hsize s (q - 8)" using P(6) by auto
      note b = held_block [OF hq]
      have out: "block s (q - 8) \<inter> free_bytes xs s = {}" "bend s (q - 8) \<le> unat (brk s)" "unat base + 8 \<le> unat (q - 8)" "0 < hsize s (q - 8)"
        using sq(2) unfolding held_def by blast+
      have below: "block s (q - 8) \<inter> {unat (brk s)..<unat (brk t)} = {}" using out(2) by (auto simp: block_def)
      have d: "block t (r - 8) \<inter> block s (q - 8) = {}" using P(4) out(1) below sq(1) by auto
      moreover have "q \<noteq> r" using d b out(4) P(2) by (auto simp: held_def block_def bend_def word_less_nat_alt)
      moreover have "block t (q - 8) \<inter> free_bytes ys t = {}" unfolding P(5) using b out(1) below sq(1) by auto
      then have "held base ys t (q - 8)" unfolding held_def using out b hq P(3) sq(1) by (auto simp: word_le_nat_alt)
      ultimately show ?thesis using b by blast
    qed
    have "distinct (r # A)" using A(2) old by auto
    moreover have "\<forall>q\<in>set (r # A). held base ys t (q - 8)" using P(2) old by auto
    moreover have "\<forall>p\<in>set (r # A). \<forall>q\<in>set (r # A). p \<noteq> q \<longrightarrow> block t (p - 8) \<inter> block t (q - 8) = {}"
      using old A(4) by (auto simp: Int_commute)
    ultimately show ?thesis using False P(1) ulist_init [OF P(1)] unfolding uinv_def by auto
  qed
qed

lemma free_inv:
  assumes I: "uinv base s A" and r: "r \<in> set A" "free r s = Some t"
  shows "uinv base t (remove1 r A)"
proof -
  obtain xs where L: "ulist base xs s" and A: "distinct A" "\<forall>r\<in>set A. held base xs s (r - 8)"
    "\<forall>r\<in>set A. \<forall>q\<in>set A. r \<noteq> q \<longrightarrow> block s (r - 8) \<inter> block s (q - 8) = {}"
  proof -
    obtain xs where x: "ulist base xs (malloc_init base s)" "A \<noteq> [] \<longrightarrow> freep s \<noteq> 0" "distinct A" "\<forall>r\<in>set A. held base xs s (r - 8)"
      "\<forall>r\<in>set A. \<forall>q\<in>set A. r \<noteq> q \<longrightarrow> block s (r - 8) \<inter> block s (q - 8) = {}" using I unfolding uinv_def by blast
    moreover have "malloc_init base s = s" using x(2) r(1) by (auto simp: malloc_init_def)
    ultimately show thesis using that by simp
  qed
  obtain ys where P: "ulist base ys t" "free_bytes ys t = free_bytes xs s \<union> block s (r - 8)" "brk t = brk s"
    "\<forall>x. x \<notin> set (base # xs) \<and> x \<noteq> r - 8 \<longrightarrow> hsize t x = hsize s x"
    using free_ok [OF L, of r] A(2) r by auto
  have old: "held base ys t (q - 8) \<and> block t (q - 8) = block s (q - 8)" if q: "q \<in> set A" "q \<noteq> r" for q
  proof -
    have h: "held base xs s (q - 8)" using A(2) q by blast
    have "q - 8 \<noteq> r - 8" using q(2) by simp
    then have hq: "hsize t (q - 8) = hsize s (q - 8)" using P(4) heldD2(2) [OF L h] by blast
    note b = held_block [OF hq]
    have "block t (q - 8) \<inter> free_bytes ys t = {}" unfolding P(2) using b h A(3) q r(1) by (auto simp: held_def)
    then show ?thesis using h b hq P(3) by (simp add: held_def)
  qed
  have s: "set (remove1 r A) = set A - {r}" using A(1) by simp
  have "\<forall>q\<in>set (remove1 r A). held base ys t (q - 8)" unfolding s using old by auto
  moreover have "\<forall>p\<in>set (remove1 r A). \<forall>q\<in>set (remove1 r A). p \<noteq> q \<longrightarrow> block t (p - 8) \<inter> block t (q - 8) = {}"
    unfolding s using old A(3) by auto
  ultimately show ?thesis using P(1) ulist_init [OF P(1)] A(1) unfolding uinv_def by (intro exI [of _ ys]) auto
qed

abbreviation ureach :: "(u32 \<Rightarrow> u32 \<Rightarrow> bool) \<Rightarrow> u32 \<Rightarrow> uheap \<Rightarrow> uheap \<times> u32 list \<Rightarrow> bool" where
  "ureach grant base s0 \<equiv> (ustep grant base)\<^sup>*\<^sup>* (s0, [])"

lemma ureach_inv:
  assumes "ureach grant base s0 (s, A)" "freep s0 = 0" "base \<noteq> 0" "unat base + 8 \<le> unat (brk s0)" "unat (brk s0) < 2 ^ 31"
  shows "uinv base s A"
  using assms(1)
proof (induction "(s, A)" arbitrary: s A rule: rtranclp_induct)
  case base
  have "ulist base [] (malloc_init base s0)" using assms by (simp add: ulist_def malloc_init_def)
  then show ?case using base by (auto simp: uinv_def intro!: exI [of _ "[]"])
next
  case (step sA)
  obtain s1 A1 where s1: "sA = (s1, A1)" by fastforce
  show ?case using step(2) step(3) unfolding s1
    by (auto elim!: ustepE simp: malloc_inv free_inv)
qed

text \<open>
  C10. The user allocator always returns: whatever a program has allocated and freed before, \<open>malloc\<close> of
  less than 2 GB and \<open>free\<close> of a pointer it still has end, although both walk round a circular list and
  \<open>malloc\<close> may extend it on the way.
\<close>

theorem malloc_free_return:
  assumes "ureach grant base s0 (s, A)" "freep s0 = 0" "base \<noteq> 0" "unat base + 8 \<le> unat (brk s0)" "unat (brk s0) < 2 ^ 31"
  shows "(\<forall>n. unat n + 16 \<le> 2 ^ 31 \<longrightarrow> (\<exists>r t. malloc grant base n s = Some (r, t))) \<and> (\<forall>r\<in>set A. \<exists>t. free r s = Some t)"
proof -
  have I: "uinv base s A" by (rule ureach_inv [OF assms])
  then obtain xs where L: "ulist base xs (malloc_init base s)" and A: "A \<noteq> [] \<longrightarrow> freep s \<noteq> 0" "\<forall>r\<in>set A. held base xs s (r - 8)"
    unfolding uinv_def by blast
  have "\<exists>t. free r s = Some t" if r: "r \<in> set A" for r
  proof -
    have "malloc_init base s = s" using A(1) r by (auto simp: malloc_init_def)
    then show ?thesis using free_ok [of base xs s r] L A(2) r by auto
  qed
  then show ?thesis using malloc_ok [OF L, of _ grant] by blast
qed

text \<open>
  C9. What a program holds is its own: in every state a program can reach with \<open>malloc\<close> and \<open>free\<close>, the
  blocks behind any two pointers it has not freed do not overlap, lie in the heap, and a new one is as long as asked for.
\<close>

theorem malloc_disjoint:
  assumes "ureach grant base s0 (s, A)" "freep s0 = 0" "base \<noteq> 0" "unat base + 8 \<le> unat (brk s0)" "unat (brk s0) < 2 ^ 31"
  shows "(\<forall>r\<in>set A. unat base + 8 \<le> unat (r - 8) \<and> bend s (r - 8) \<le> unat (brk s))
    \<and> (\<forall>r\<in>set A. \<forall>q\<in>set A. r \<noteq> q \<longrightarrow> block s (r - 8) \<inter> block s (q - 8) = {})
    \<and> (\<forall>n r t. unat n + 16 \<le> 2 ^ 31 \<and> malloc grant base n s = Some (r, t) \<and> r \<noteq> 0 \<longrightarrow> r \<notin> set A \<and> unat n \<le> 8 * (unat (hsize t (r - 8)) - 1))"
proof -
  have I: "uinv base s A" by (rule ureach_inv [OF assms])
  then obtain xs where L: "ulist base xs (malloc_init base s)" unfolding uinv_def by blast
  have new: "r \<notin> set A \<and> unat n \<le> 8 * (unat (hsize t (r - 8)) - 1)"
    if n: "unat n + 16 \<le> 2 ^ 31" "malloc grant base n s = Some (r, t)" "r \<noteq> 0" for n r t
  proof -
    have "hsize t (r - 8) = (n + 8 - 1) div 8 + 1" using malloc_ok [OF L n(1), of grant] n(2,3) by (auto simp: malloc_post_def)
    then have "unat n \<le> 8 * (unat (hsize t (r - 8)) - 1)" using malloc_units [OF n(1)] by simp
    moreover have "uinv base t (r # A)" using malloc_inv [OF I n(2,1)] n(3) by simp
    then have "distinct (r # A)" unfolding uinv_def by blast
    ultimately show ?thesis by simp
  qed
  show ?thesis using I new unfolding uinv_def held_def by blast
qed

text \<open>
  Two blocks of a fresh program and the first of them given back. The heap starts at 0x2000 and the
  kernel grants everything.
\<close>

definition uheap0 :: uheap where
  "uheap0 = \<lparr>hptr = \<lambda>_. 0, hsize = \<lambda>_. 0, freep = 0, brk = 0x2000\<rparr>"

definition heap1 :: "u32 \<times> uheap" where
  "heap1 = the (malloc (\<lambda>_ _. True) 0x1000 100 uheap0)"

lemma heap1_eq: "malloc (\<lambda>_ _. True) 0x1000 100 uheap0 = Some heap1" "fst heap1 = 0x9F98"
proof -
  show m: "malloc (\<lambda>_ _. True) 0x1000 100 uheap0 = Some heap1"
    using malloc_ok [of "0x1000" "[]" uheap0 100 "\<lambda>_ _. True"]
    by (auto simp: heap1_def ulist_def malloc_init_def uheap0_def)
  show "fst heap1 = 0x9F98"
    by (simp add: heap1_def malloc_def malloc_init_def uheap0_def malloc_loop.simps [of _ _ "0x1000"] malloc_loop.simps [of _ _ _ "0x2000"]
        morecore_def sbrk_def free_def free_loop.simps join_next_def join_prev_def take_block_def KERNBASE_def word_sless_alt Let_def)
qed

lemma heap1_reach: "ureach (\<lambda>_ _. True) 0x1000 uheap0 (snd heap1, [fst heap1])"
proof -
  have "ustep (\<lambda>_ _. True) 0x1000 (uheap0, []) (snd heap1, if fst heap1 = 0 then [] else fst heap1 # [])"
    by (rule ustep.mallocs [of _ _ 100]) (simp_all add: heap1_eq(1))
  then show ?thesis using heap1_eq(2) by auto
qed

theorem malloc_free_return_witness: "\<exists>t. free (fst heap1) (snd heap1) = Some t"
  using malloc_free_return [OF heap1_reach] by (simp add: uheap0_def)

theorem malloc_disjoint_witness: "bend (snd heap1) (fst heap1 - 8) \<le> unat (brk (snd heap1))"
  using malloc_disjoint [OF heap1_reach] by (simp add: uheap0_def)

end
