(* ===== verification/Sh.thy ===== *)
theory Sh
  imports Prelude
begin

text \<open>
  The parser of the shell (sh.c). The line is a character list \<open>buf\<close> with its terminator behind it, a pointer
  into it an index, \<open>es\<close> its length. A word of a command is the pair of its start and end.
\<close>

section \<open>Commands\<close>

definition MAXARGS :: nat where "MAXARGS = 10"

datatype 'w cmd =
    EXEC "'w list"
  | REDIR "'w cmd" 'w u32 nat
  | PIPE "'w cmd" "'w cmd"
  | LIST "'w cmd" "'w cmd"
  | BACK "'w cmd"

type_synonym word = "nat \<times> nat"

definition whitespace :: string where
  "whitespace = [CHR '' '', CHR 0x09, CHR 0x0D, CHR 0x0A, CHR 0x0B]"

definition symbols :: string where
  "symbols = ''<|>&;()''"

section \<open>Tokens\<close>

definition skip_ws :: "string \<Rightarrow> nat \<Rightarrow> nat" where
  "skip_ws buf s = scan_while (\<lambda>c. c \<in> set whitespace) buf s"

text \<open>The end of the token at \<open>s\<close> and its kind: itself for a symbol, \<open>+\<close> for \<open>>>\<close>, \<open>a\<close> for a word, 0 at the end.\<close>

definition token_at :: "string \<Rightarrow> nat \<Rightarrow> char \<times> nat" where
  "token_at buf s =
     (let c = chr_at buf s in
      if c = NUL then (NUL, s)
      else if c \<in> set ''|();&<'' then (c, s + 1)
      else if c = CHR ''>'' then (if chr_at buf (s + 1) = CHR ''>'' then (CHR ''+'', s + 2) else (c, s + 1))
      else (CHR ''a'', scan_while (\<lambda>c. c \<notin> set whitespace \<and> c \<notin> set symbols) buf s))"

text \<open>The kind, the start and end of the token, and the new position.\<close>

definition gettoken :: "string \<Rightarrow> nat \<Rightarrow> char \<times> nat \<times> nat \<times> nat" where
  "gettoken buf s = (let q = skip_ws buf s; (ret, eq) = token_at buf q in (ret, q, eq, skip_ws buf eq))"

text \<open>A token whose bounds the caller does not want.\<close>

definition next_token :: "string \<Rightarrow> nat \<Rightarrow> nat" where
  "next_token buf s = snd (snd (snd (gettoken buf s)))"

definition peek :: "string \<Rightarrow> nat \<Rightarrow> string \<Rightarrow> bool \<times> nat" where
  "peek buf s toks = (let s = skip_ws buf s; c = chr_at buf s in (c \<noteq> NUL \<and> c \<in> set toks, s))"

section \<open>The parser\<close>

definition O_RDONLY :: u32 where "O_RDONLY = 0"
definition O_WRONLY :: u32 where "O_WRONLY = 1"
definition O_CREATE :: u32 where "O_CREATE = 0x200"

definition redir_of :: "char \<Rightarrow> word cmd \<Rightarrow> nat \<Rightarrow> nat \<Rightarrow> word cmd" where
  "redir_of tok cmd q eq =
     (if tok = CHR ''<'' then REDIR cmd (q, eq) O_RDONLY 0
      else if tok = CHR ''>'' then REDIR cmd (q, eq) (O_WRONLY OR O_CREATE) 1
      else if tok = CHR ''+'' then REDIR cmd (q, eq) (O_WRONLY OR O_CREATE) 1
      else cmd)"

lemma skip_ws_ge: "s \<le> skip_ws buf s"
  by (simp add: skip_ws_def scan_while_ge)

lemma token_at_ge: "s \<le> snd (token_at buf s)"
  by (simp add: token_at_def Let_def scan_while_ge)

lemma word_char: "c \<notin> set ''|();&<'' \<Longrightarrow> c \<noteq> CHR ''>'' \<Longrightarrow> c \<notin> set symbols"
  by (auto simp: symbols_def)

lemma token_at_gt:
  assumes c: "chr_at buf s \<noteq> NUL" "chr_at buf s \<notin> set whitespace"
  shows "s < snd (token_at buf s)"
proof -
  have s: "s < length buf" "buf ! s = chr_at buf s" using c(1) by (auto simp: chr_at_def split: if_splits)
  let ?P = "\<lambda>c. c \<notin> set whitespace \<and> c \<notin> set symbols"
  have "s < scan_while ?P buf s" if "chr_at buf s \<notin> set ''|();&<''" "chr_at buf s \<noteq> CHR ''>''"
    by (rule scan_while_gt [OF s(1)]) (use c(2) s(2) word_char [OF that] in simp)
  then show ?thesis unfolding token_at_def Let_def using c(1) by (simp split: if_split del: list.set)
qed

lemma NUL_special [simp]: "NUL \<notin> set whitespace" "NUL \<notin> set symbols"
  by (simp_all add: whitespace_def symbols_def)

lemma skip_ws_stops: "chr_at buf (skip_ws buf s) \<notin> set whitespace"
proof (cases "skip_ws buf s < length buf")
  case True
  then show ?thesis using scan_while_stops [of "\<lambda>c. c \<in> set whitespace" buf s] by (simp add: skip_ws_def chr_at_def)
qed (simp add: chr_at_def)

lemma skip_ws_stay: "chr_at buf s \<notin> set whitespace \<Longrightarrow> skip_ws buf s = s"
  unfolding skip_ws_def by (subst scan_while.simps) simp

lemma skip_ws_idem [simp]: "skip_ws buf (skip_ws buf s) = skip_ws buf s"
  by (rule skip_ws_stay [OF skip_ws_stops])

lemma peekD:
  assumes "peek buf s toks = (hit, s1)"
  shows "s \<le> s1" "s1 = skip_ws buf s" "hit \<Longrightarrow> s1 < length buf" "hit \<Longrightarrow> chr_at buf s1 \<noteq> NUL"
    "hit \<longleftrightarrow> chr_at buf s1 \<noteq> NUL \<and> chr_at buf s1 \<in> set toks"
proof -
  have e: "s1 = skip_ws buf s" "hit \<longleftrightarrow> chr_at buf s1 \<noteq> NUL \<and> chr_at buf s1 \<in> set toks"
    using assms by (auto simp: peek_def Let_def)
  then show "s \<le> s1" "s1 = skip_ws buf s" "hit \<longleftrightarrow> chr_at buf s1 \<noteq> NUL \<and> chr_at buf s1 \<in> set toks"
    "hit \<Longrightarrow> chr_at buf s1 \<noteq> NUL" by (auto simp: skip_ws_ge)
  show "s1 < length buf" if hit using that e(2) by (auto simp: chr_at_def split: if_splits)
qed

lemma gettokenD:
  assumes "gettoken buf s = (ret, q, eq, s1)"
  shows "q = skip_ws buf s" "token_at buf q = (ret, eq)" "s1 = skip_ws buf eq"
  using assms by (simp_all add: gettoken_def Let_def split: prod.splits)

lemma gettoken_ge:
  assumes "gettoken buf s = (ret, q, eq, s1)"
  shows "s \<le> q" "q \<le> eq" "eq \<le> s1"
  unfolding gettokenD(1,3) [OF assms] using token_at_ge [of q buf] gettokenD [OF assms] by (simp_all add: skip_ws_ge)

lemma gettoken_gt:
  assumes "gettoken buf s = (ret, q, eq, s1)" "chr_at buf q \<noteq> NUL"
  shows "q < eq"
proof -
  have "chr_at buf q \<notin> set whitespace" using skip_ws_stops [of buf s] gettokenD(1) [OF assms(1)] by simp
  then show ?thesis using token_at_gt [OF assms(2)] gettokenD(2) [OF assms(1)] by simp
qed

lemma next_token_ge: "s \<le> next_token buf s"
proof -
  obtain tok q eq s1 where g: "gettoken buf s = (tok, q, eq, s1)" by (rule prod_cases4)
  show ?thesis using gettoken_ge [OF g] g by (simp add: next_token_def)
qed

lemma token_NUL: "token_at buf q = (ret, eq) \<Longrightarrow> ret \<noteq> NUL \<Longrightarrow> chr_at buf q \<noteq> NUL"
  by (auto simp: token_at_def)

lemma peek_gettoken:
  assumes p: "peek buf s toks = (True, s1)" and g: "gettoken buf s1 = (ret, q, eq, s2)"
  shows "s \<le> s1" "s1 < s2" "s1 < length buf"
proof -
  note P = peekD [OF p]
  have "q = s1" using gettokenD(1) [OF g] P(2) by simp
  then show "s1 < s2" using gettoken_gt [OF g] P(4) gettoken_ge(3) [OF g] by simp
  show "s \<le> s1" "s1 < length buf" using P by simp_all
qed

lemma peek_next:
  assumes "peek buf s toks = (True, s1)"
  shows "s \<le> s1" "s1 < next_token buf s1" "s1 < length buf"
proof -
  obtain tok q eq s2 where g: "gettoken buf s1 = (tok, q, eq, s2)" by (rule prod_cases4)
  show "s \<le> s1" "s1 < next_token buf s1" "s1 < length buf"
    using peek_gettoken [OF assms g] g by (simp_all add: next_token_def)
qed

text \<open>The loop of \<open>parseredirs\<close>.\<close>

function parseredirs :: "string \<Rightarrow> word cmd \<Rightarrow> nat \<Rightarrow> (word cmd \<times> nat) res" where
  "parseredirs buf cmd s =
     (let (hit, s) = peek buf s ''<>'' in
      if \<not> hit then Inr (cmd, s)
      else let (tok, _, _, s) = gettoken buf s; (t, q, eq, s) = gettoken buf s in
        if t \<noteq> CHR ''a'' then Inl (Panic ''missing file for redirection'')
        else parseredirs buf (redir_of tok cmd q eq) s)"
  by pat_completeness auto
termination
proof (relation "measure (\<lambda>(buf, cmd, s). length buf - s)", simp, goal_cases)
  case (1 buf cmd s p hit s1 g tok r1 q1 r2 eq1 s2 g2 t r3 q r4 eq s3)
  note a = peek_gettoken [of buf s "''<>''" s1 tok q1 eq1 s2] gettoken_ge [of buf s2 t q eq s3]
  show ?case using 1 a by simp
qed

declare parseredirs.simps [simp del]

text \<open>A successful run of the loop, one redirection at a time.\<close>

lemma parseredirs_Inr [consumes 1, case_names stop step]:
  assumes "parseredirs buf cmd s = Inr (c, s')"
    and "\<And>cmd s s1. peek buf s ''<>'' = (False, s1) \<Longrightarrow> P cmd s cmd s1"
    and "\<And>cmd s s1 tok q eq s2 q' eq' s3 c s'. peek buf s ''<>'' = (True, s1) \<Longrightarrow> gettoken buf s1 = (tok, q, eq, s2) \<Longrightarrow>
      gettoken buf s2 = (CHR ''a'', q', eq', s3) \<Longrightarrow> P (redir_of tok cmd q' eq') s3 c s' \<Longrightarrow> P cmd s c s'"
  shows "P cmd s c s'"
  using assms(1)
proof (induction "length buf - s" arbitrary: cmd s rule: less_induct)
  case less
  obtain hit s1 where p: "peek buf s ''<>'' = (hit, s1)" by fastforce
  obtain tok q eq s2 where g: "gettoken buf s1 = (tok, q, eq, s2)" by (metis prod_cases4)
  obtain t q' eq' s3 where g': "gettoken buf s2 = (t, q', eq', s3)" by (metis prod_cases4)
  show ?case
  proof (cases hit)
    case True
    then have p1: "peek buf s ''<>'' = (True, s1)" using p by simp
    have "t = CHR ''a''" "parseredirs buf (redir_of tok cmd q' eq') s3 = Inr (c, s')"
      using less.prems p1 g g' by (simp_all add: parseredirs.simps [of buf cmd s] split: if_splits)
    moreover have "length buf - s3 < length buf - s"
      using peek_gettoken [OF p1 g] gettoken_ge [OF g'] by linarith
    ultimately show ?thesis using assms(3) [OF p1 g] g' less.hyps by blast
  next
    case False
    then show ?thesis using less.prems p assms(2) by (simp add: parseredirs.simps [of buf cmd s])
  qed
qed

lemma redirs_ge: "parseredirs buf cmd s = Inr (c, s') \<Longrightarrow> s \<le> s'"
proof (induction rule: parseredirs_Inr)
  case (stop cmd s s1)
  then show ?case by (rule peekD(1))
next
  case (step cmd s s1 tok q eq s2 q' eq' s3 c s')
  then show ?case using peekD(1) [OF step(1)] gettoken_ge [OF step(2)] gettoken_ge [OF step(3)] by linarith
qed

text \<open>The arguments go to the command at the end of the chain of redirections.\<close>

primrec add_arg :: "'w \<Rightarrow> 'w cmd \<Rightarrow> 'w cmd" where
  "add_arg w (EXEC ws) = EXEC (ws @ [w])"
| "add_arg w (REDIR c f mode fd) = REDIR (add_arg w c) f mode fd"
| "add_arg w (PIPE l r) = PIPE l r"
| "add_arg w (LIST l r) = LIST l r"
| "add_arg w (BACK c) = BACK c"

function parse_args :: "string \<Rightarrow> word cmd \<Rightarrow> nat \<Rightarrow> nat \<Rightarrow> (word cmd \<times> nat) res" where
  "parse_args buf ret argc s =
     (let (hit, s) = peek buf s ''|)&;'' in
      if hit then Inr (ret, s)
      else let (tok, q, eq, s) = gettoken buf s in
        if tok = NUL then Inr (ret, s)
        else if tok \<noteq> CHR ''a'' then Inl (Panic ''syntax'')
        else if argc + 1 \<ge> MAXARGS then Inl (Panic ''too many args'')
        else rbind (parseredirs buf (add_arg (q, eq) ret) s) (\<lambda>(ret, s). parse_args buf ret (argc + 1) s))"
  by pat_completeness auto
termination
  by (relation "measure (\<lambda>(buf, ret, argc, s). MAXARGS - argc)") auto

declare parse_args.simps [simp del]

text \<open>The loop of \<open>parseline\<close> over \<open>&\<close>.\<close>

function back_loop :: "string \<Rightarrow> word cmd \<Rightarrow> nat \<Rightarrow> word cmd \<times> nat" where
  "back_loop buf cmd s =
     (let (hit, s) = peek buf s ''&'' in
      if \<not> hit then (cmd, s) else back_loop buf (BACK cmd) (next_token buf s))"
  by pat_completeness auto
termination
proof (relation "measure (\<lambda>(buf, cmd, s). length buf - s)", simp, goal_cases)
  case (1 buf cmd s p hit s1)
  show ?case using 1 peek_next [of buf s "''&''" s1] by simp
qed

declare back_loop.simps [simp del]

section \<open>The grammar\<close>

lemma parse_args_Inr [consumes 1, case_names close eof word]:
  assumes "parse_args buf ret argc s = Inr (c, s')"
    and "\<And>ret argc s s1. peek buf s ''|)&;'' = (True, s1) \<Longrightarrow> P ret argc s ret s1"
    and "\<And>ret argc s s1 q eq s2. peek buf s ''|)&;'' = (False, s1) \<Longrightarrow> gettoken buf s1 = (NUL, q, eq, s2) \<Longrightarrow> P ret argc s ret s2"
    and "\<And>ret argc s s1 q eq s2 ret' s3 c s'. peek buf s ''|)&;'' = (False, s1) \<Longrightarrow> gettoken buf s1 = (CHR ''a'', q, eq, s2) \<Longrightarrow>
      argc + 1 < MAXARGS \<Longrightarrow> parseredirs buf (add_arg (q, eq) ret) s2 = Inr (ret', s3) \<Longrightarrow>
      P ret' (argc + 1) s3 c s' \<Longrightarrow> P ret argc s c s'"
  shows "P ret argc s c s'"
  using assms(1)
proof (induction "MAXARGS - argc" arbitrary: ret argc s rule: less_induct)
  case less
  obtain hit s1 where p: "peek buf s ''|)&;'' = (hit, s1)" by fastforce
  obtain tok q eq s2 where g: "gettoken buf s1 = (tok, q, eq, s2)" by (metis prod_cases4)
  note u = less.prems [simplified parse_args.simps [of buf ret argc s] Let_def p g prod.case]
  consider "hit" | "\<not> hit" "tok = NUL" | "\<not> hit" "tok \<noteq> NUL" by blast
  then show ?case
  proof cases
    case 3
    then have t: "tok = CHR ''a''" "argc + 1 < MAXARGS" using u by (auto split: if_splits)
    obtain ret' s3 where "parseredirs buf (add_arg (q, eq) ret) s2 = Inr (ret', s3)"
        "parse_args buf ret' (argc + 1) s3 = Inr (c, s')"
      using u 3 t by (auto simp: rbind_pair_Inr)
    then show ?thesis using less.hyps [of "argc + 1" ret' s3] assms(4) [of s s1 q eq s2 argc ret ret' s3 c s'] p g t 3 by auto
  qed (use u p g assms(2,3) in auto)
qed

declare rbind_fcong [fundef_cong]

function parseline :: "string \<Rightarrow> nat \<Rightarrow> (word cmd \<times> nat) res"
  and parsepipe :: "string \<Rightarrow> nat \<Rightarrow> (word cmd \<times> nat) res"
  and parseexec :: "string \<Rightarrow> nat \<Rightarrow> (word cmd \<times> nat) res"
  and parseblock :: "string \<Rightarrow> nat \<Rightarrow> (word cmd \<times> nat) res" where
  "parseline buf s = rbind (parsepipe buf s) (\<lambda>(cmd, s).
     let (cmd, s) = back_loop buf cmd s; (hit, s) = peek buf s '';'' in
     if hit then let s = next_token buf s in
       rbind (parseline buf s) (\<lambda>(right, s). Inr (LIST cmd right, s))
     else Inr (cmd, s))"
| "parsepipe buf s = rbind (parseexec buf s) (\<lambda>(cmd, s).
     let (hit, s) = peek buf s ''|'' in
     if hit then let s = next_token buf s in
       rbind (parsepipe buf s) (\<lambda>(right, s). Inr (PIPE cmd right, s))
     else Inr (cmd, s))"
| "parseexec buf s =
     (let (hit, s) = peek buf s ''('' in
      if hit then parseblock buf s
      else rbind (parseredirs buf (EXEC []) s) (\<lambda>(ret, s). parse_args buf ret 0 s))"
| "parseblock buf s =
     (let (hit, s) = peek buf s ''('' in
      if \<not> hit then Inl (Panic ''parseblock'')
      else let s = next_token buf s in
        rbind (parseline buf s) (\<lambda>(cmd, s).
          let (hit, s) = peek buf s '')'' in
          if \<not> hit then Inl (Panic ''syntax - missing )'')
          else let s = next_token buf s in parseredirs buf cmd s))"
  by pat_completeness auto



lemma back_loop_ge: "back_loop buf cmd s = (c, s') \<Longrightarrow> s \<le> s'"
proof (induction buf cmd s rule: back_loop.induct)
  case (1 buf cmd s)
  obtain hit s1 where p: "peek buf s ''&'' = (hit, s1)" by fastforce
  show ?case
  proof (cases hit)
    case True
    then have "back_loop buf (BACK cmd) (next_token buf s1) = (c, s')"
      using "1.prems" p by (simp add: back_loop.simps [of buf cmd s])
    then have "next_token buf s1 \<le> s'" using "1.IH" [OF p [symmetric] refl] True by simp
    then show ?thesis using peekD(1) [OF p] next_token_ge [of s1 buf] by linarith
  qed (use "1.prems" p peekD(1) [OF p] in \<open>simp add: back_loop.simps [of buf cmd s]\<close>)
qed

lemma parse_args_ge: "parse_args buf ret argc s = Inr (c, s') \<Longrightarrow> s \<le> s'"
proof (induction rule: parse_args_Inr)
  case (close ret argc s s1)
  then show ?case by (rule peekD(1))
next
  case (eof ret argc s s1 q eq s2)
  then show ?case using peekD(1) [OF eof(1)] gettoken_ge [OF eof(2)] by linarith
next
  case (word ret argc s s1 q eq s2 ret' s3 c s')
  then show ?case using peekD(1) [OF word(1)] gettoken_ge [OF word(2)] redirs_ge [OF word(4)] by linarith
qed

abbreviation "parts_dom \<equiv> parseline_parsepipe_parseexec_parseblock_dom"

lemma parts_ge:
  shows "parts_dom (Inl (Inl (buf, s))) \<Longrightarrow> post (parseline buf s) (\<lambda>(c, s'). s \<le> s')"
    and "parts_dom (Inl (Inr (buf, s))) \<Longrightarrow> post (parsepipe buf s) (\<lambda>(c, s'). s \<le> s')"
    and "parts_dom (Inr (Inl (buf, s))) \<Longrightarrow> post (parseexec buf s) (\<lambda>(c, s'). s \<le> s')"
    and "parts_dom (Inr (Inr (buf, s))) \<Longrightarrow> post (parseblock buf s) (\<lambda>(c, s'). s \<le> s')"
proof (induction buf s and buf s and buf s and buf s rule: parseline_parsepipe_parseexec_parseblock.pinduct)
  case (1 buf s)
  show ?case unfolding parseline.psimps [OF 1(1)] post_simps
  proof (rule post_mono [OF 1(2)], clarify)
    fix cmd s1 assume a: "parsepipe buf s = Inr (cmd, s1)" "s \<le> s1"
    obtain c s2 where b: "back_loop buf cmd s1 = (c, s2)" by fastforce
    obtain hit s3 where p: "peek buf s2 '';'' = (hit, s3)" by fastforce
    have "s \<le> s3" using back_loop_ge [OF b] peekD(1) [OF p] a(2) by linarith
    then show "post (let (cmd, s) = back_loop buf cmd s1; (hit, s) = peek buf s '';''
        in if hit then let s = next_token buf s in rbind (parseline buf s) (\<lambda>(right, s). Inr (LIST cmd right, s))
           else Inr (cmd, s)) (\<lambda>(c, s'). s \<le> s')"
      using 1(3) [OF a(1) refl b [symmetric] refl p [symmetric] refl _ refl] next_token_ge [of s3 buf] b p
      by (auto elim!: post_mono)
  qed
next
  case (2 buf s)
  show ?case unfolding parsepipe.psimps [OF 2(1)] post_simps
  proof (rule post_mono [OF 2(2)], clarify)
    fix cmd s1 assume a: "parseexec buf s = Inr (cmd, s1)" "s \<le> s1"
    obtain hit s3 where p: "peek buf s1 ''|'' = (hit, s3)" by fastforce
    have "s \<le> s3" using peekD(1) [OF p] a(2) by linarith
    then show "post (let (hit, s) = peek buf s1 ''|''
        in if hit then let s = next_token buf s in rbind (parsepipe buf s) (\<lambda>(right, s). Inr (PIPE cmd right, s))
           else Inr (cmd, s)) (\<lambda>(c, s'). s \<le> s')"
      using 2(3) [OF a(1) refl p [symmetric] refl _ refl] next_token_ge [of s3 buf] p
      by (auto elim!: post_mono)
  qed
next
  case (3 buf s)
  obtain hit s1 where p: "peek buf s ''('' = (hit, s1)" by fastforce
  have "post (rbind (parseredirs buf (EXEC []) s1) (\<lambda>(ret, s). parse_args buf ret 0 s)) (\<lambda>(c, s'). s1 \<le> s')"
    by (auto simp: post_def rbind_pair_Inr dest!: redirs_ge parse_args_ge)
  then show ?case using 3(2) [OF p [symmetric] refl] peekD(1) [OF p] p
    by (auto simp: parseexec.psimps [OF 3(1)] elim!: post_mono)
next
  case (4 buf s)
  obtain hit s1 where p: "peek buf s ''('' = (hit, s1)" by fastforce
  have post2: "post (let (hit, s) = peek buf s2 '')'' in
      if \<not> hit then Inl (Panic ''syntax - missing )'') else let s = next_token buf s in parseredirs buf c s)
    (\<lambda>(c, s'). s2 \<le> s')" for c s2
    using peekD(1) [of buf s2 "'')''"] next_token_ge [of _ buf] redirs_ge [of buf c]
    by (fastforce simp: post_def Let_def split: prod.splits if_splits dest: order_trans)
  show ?case
  proof (cases hit)
    case True
    have "post (rbind (parseline buf (next_token buf s1)) (\<lambda>(cmd, s). let (hit, s) = peek buf s '')'' in
        if \<not> hit then Inl (Panic ''syntax - missing )'') else let s = next_token buf s in parseredirs buf cmd s))
      (\<lambda>(c, s'). s \<le> s')"
      unfolding post_simps
    proof (rule post_mono [OF 4(2) [OF p [symmetric] refl _ refl]], use True in simp, clarify)
      fix c s2 assume "next_token buf s1 \<le> s2"
      then have "s \<le> s2" using peekD(1) [OF p] next_token_ge [of s1 buf] by linarith
      then show "post (let (hit, s) = peek buf s2 '')''
         in if \<not> hit then Inl (Panic ''syntax - missing )'') else let s = next_token buf s in parseredirs buf c s)
         (\<lambda>(c, s'). s \<le> s')" 
        by - (rule post_mono [OF post2], auto)
    qed
    then show ?thesis using p True by (simp add: parseblock.psimps [OF 4(1)])
  qed (use p in \<open>simp add: parseblock.psimps [OF 4(1)]\<close>)
qed

termination parseline
proof (relation "measure (\<lambda>x. case x of
     Inl (Inl (buf, s)) \<Rightarrow> 4 * (length buf - s) + 3
   | Inl (Inr (buf, s)) \<Rightarrow> 4 * (length buf - s) + 2
   | Inr (Inl (buf, s)) \<Rightarrow> 4 * (length buf - s) + 1
   | Inr (Inr (buf, s)) \<Rightarrow> 4 * (length buf - s))", goal_cases)
  case (3 buf s x cmd s1 p b s2 q hit s3 s4)
  have "s \<le> s2" using postD [OF parts_ge(2) [OF 3(9)] 3(1)] back_loop_ge [of buf cmd s1 b s2] 3(2-4) by auto
  then show ?case using peek_next [of buf s2 "'';''" s3] 3 by auto
next
  case (5 buf s x cmd s1 q hit s3 s4)
  have "s \<le> s1" using postD [OF parts_ge(3) [OF 5(7)] 5(1)] 5(2) by auto
  then show ?case using peek_next [of buf s1 "''|''" s3] 5 by auto
next
  case (6 buf s q hit s1)
  then show ?case using peekD(1) [of buf s "''(''" hit s1] by auto
next
  case (7 buf s q hit s3 s4)
  then show ?case using peek_next [of buf s "''(''" s3] by auto
qed auto

declare parseline.simps [simp del] parsepipe.simps [simp del] parseexec.simps [simp del] parseblock.simps [simp del]

text \<open>Each word of a command gets a terminator in the buffer the line was read into.\<close>

primrec nulterminate :: "word cmd \<Rightarrow> string \<Rightarrow> string" where
  "nulterminate (EXEC ws) mem = foldl (\<lambda>mem (q, eq). mem[eq := NUL]) mem ws"
| "nulterminate (REDIR c f mode fd) mem = (nulterminate c mem)[snd f := NUL]"
| "nulterminate (PIPE l r) mem = nulterminate r (nulterminate l mem)"
| "nulterminate (LIST l r) mem = nulterminate r (nulterminate l mem)"
| "nulterminate (BACK c) mem = nulterminate c mem"

text \<open>The string of the buffer is parsed, up to its terminator; the command comes with the buffer as it is then.\<close>

definition parsecmd :: "string \<Rightarrow> (word cmd \<times> string) res" where
  "parsecmd mem =
     (let buf = takeWhile (\<lambda>c. c \<noteq> NUL) mem in
      rbind (parseline buf 0) (\<lambda>(cmd, s). let (_, s) = peek buf s '''' in
        if s \<noteq> length buf then Inl (Panic ''syntax'') else Inr (cmd, nulterminate cmd mem)))"

section \<open>What is parsed\<close>

definition plain :: "char \<Rightarrow> bool" where
  "plain c \<longleftrightarrow> c \<noteq> NUL \<and> c \<notin> set whitespace \<and> c \<notin> set symbols"

definition is_word :: "string \<Rightarrow> bool" where
  "is_word w \<longleftrightarrow> w \<noteq> [] \<and> list_all plain w"

definition substr :: "string \<Rightarrow> word \<Rightarrow> string" where
  "substr buf w = take (snd w - fst w) (drop (fst w) buf)"

text \<open>A word of the line that ends where no word goes on, so that the write of its terminator is outside every word.\<close>

definition maximal :: "string \<Rightarrow> word \<Rightarrow> bool" where
  "maximal buf w \<longleftrightarrow> fst w < snd w \<and> snd w \<le> length buf \<and> list_all plain (substr buf w) \<and> \<not> plain (chr_at buf (snd w))"

text \<open>The commands that have a line: at most nine arguments, the modes of the three operators.\<close>

primrec wf_cmd :: "string cmd \<Rightarrow> bool" where
  "wf_cmd (EXEC ws) = (length ws < MAXARGS \<and> list_all is_word ws)"
| "wf_cmd (REDIR c f mode fd) = (wf_cmd c \<and> is_word f \<and>
     (fd = 0 \<and> mode = O_RDONLY \<or> fd = 1 \<and> mode = O_WRONLY OR O_CREATE))"
| "wf_cmd (PIPE l r) = (wf_cmd l \<and> wf_cmd r)"
| "wf_cmd (LIST l r) = (wf_cmd l \<and> wf_cmd r)"
| "wf_cmd (BACK c) = wf_cmd c"

definition parsed :: "string \<Rightarrow> word cmd \<Rightarrow> bool" where
  "parsed buf c \<longleftrightarrow> wf_cmd (map_cmd (substr buf) c) \<and> (\<forall>w\<in>set_cmd c. maximal buf w)"

lemma parsed_simps [simp]:
  "parsed buf (EXEC ws) \<longleftrightarrow> length ws < MAXARGS \<and> (\<forall>w\<in>set ws. is_word (substr buf w) \<and> maximal buf w)"
  "parsed buf (REDIR c f mode fd) \<longleftrightarrow> parsed buf c \<and> is_word (substr buf f) \<and> maximal buf f \<and>
     (fd = 0 \<and> mode = O_RDONLY \<or> fd = 1 \<and> mode = O_WRONLY OR O_CREATE)"
  "parsed buf (PIPE l r) \<longleftrightarrow> parsed buf l \<and> parsed buf r"
  "parsed buf (LIST l r) \<longleftrightarrow> parsed buf l \<and> parsed buf r"
  "parsed buf (BACK d) \<longleftrightarrow> parsed buf d"
  by (auto simp: parsed_def list_all_iff)

text \<open>The number of arguments of the command that a chain of redirections ends in.\<close>

primrec nargs :: "'w cmd \<Rightarrow> nat option" where
  "nargs (EXEC ws) = Some (length ws)"
| "nargs (REDIR c f mode fd) = nargs c"
| "nargs (PIPE l r) = None"
| "nargs (LIST l r) = None"
| "nargs (BACK c) = None"

lemma scan_substr:
  assumes "\<forall>c\<in>set buf. c \<noteq> NUL"
  shows "list_all plain (substr buf (q, scan_while (\<lambda>c. c \<notin> set whitespace \<and> c \<notin> set symbols) buf q))"
proof -
  let ?P = "\<lambda>c. c \<notin> set whitespace \<and> c \<notin> set symbols"
  have "substr buf (q, scan_while ?P buf q) = takeWhile ?P (drop q buf)"
    by (simp add: substr_def scan_while_takeWhile flip: takeWhile_eq_take)
  moreover have "plain c" if "c \<in> set (takeWhile ?P (drop q buf))" for c
    using set_takeWhileD [OF that] assms by (auto simp: plain_def dest: in_set_dropD)
  ultimately show ?thesis by (simp add: list_all_iff)
qed

lemma gettoken_maximal:
  assumes n: "\<forall>c\<in>set buf. c \<noteq> NUL" and g: "gettoken buf s = (CHR ''a'', q, eq, s1)"
  shows "maximal buf (q, eq)" "is_word (substr buf (q, eq))"
proof -
  let ?P = "\<lambda>c. c \<notin> set whitespace \<and> c \<notin> set symbols"
  have t: "token_at buf q = (CHR ''a'', eq)" by (rule gettokenD [OF g])
  then have eq: "eq = scan_while ?P buf q"
    by (auto simp: token_at_def Let_def split: if_splits)
  have nz: "chr_at buf q \<noteq> NUL" using t by (rule token_NUL) simp
  then have q: "q < length buf" by (auto simp: chr_at_def split: if_splits)
  have lt: "q < eq" by (rule gettoken_gt [OF g nz])
  have le: "eq \<le> length buf" unfolding eq by (rule scan_while_le) (use q in simp)
  have "\<not> plain (chr_at buf eq)"
  proof (cases "eq < length buf")
    case True
    then show ?thesis using scan_while_stops [of ?P buf q] by (simp add: eq plain_def chr_at_def)
  qed (simp add: plain_def chr_at_def)
  moreover have p: "list_all plain (substr buf (q, eq))" unfolding eq by (rule scan_substr [OF n])
  ultimately show "maximal buf (q, eq)" using lt le by (simp add: maximal_def)
  have "length (substr buf (q, eq)) \<noteq> 0" using lt le by (simp add: substr_def)
  then show "is_word (substr buf (q, eq))" using p by (simp add: is_word_def)
qed

lemma nargs_redir_of: "nargs (redir_of tok c q eq) = nargs c"
  by (simp add: redir_of_def)

lemma nargs_add_arg: "nargs c = Some n \<Longrightarrow> nargs (add_arg w c) = Some (Suc n)"
  by (induction c) auto

lemma parsed_add_arg:
  "parsed buf c \<Longrightarrow> nargs c = Some n \<Longrightarrow> Suc n < MAXARGS \<Longrightarrow> maximal buf w \<Longrightarrow> is_word (substr buf w) \<Longrightarrow> parsed buf (add_arg w c)"
  by (induction c) auto

lemma parsed_redir_of:
  "parsed buf c \<Longrightarrow> maximal buf (q, eq) \<Longrightarrow> is_word (substr buf (q, eq)) \<Longrightarrow> parsed buf (redir_of tok c q eq)"
  by (simp add: redir_of_def)

abbreviation nul_free :: "string \<Rightarrow> bool" where
  "nul_free buf \<equiv> \<forall>c\<in>set buf. c \<noteq> NUL"

lemma redirs_parsed:
  assumes no_nul: "nul_free buf"
  shows "parseredirs buf cmd s = Inr (c, s') \<Longrightarrow> parsed buf cmd \<longrightarrow> parsed buf c \<and> nargs c = nargs cmd"
proof (induction rule: parseredirs_Inr)
  case (step cmd s s1 tok q eq s2 q' eq' s3 c s')
  then show ?case using gettoken_maximal [OF no_nul step(3)] by (simp add: parsed_redir_of nargs_redir_of)
qed simp

lemma args_parsed:
  assumes no_nul: "nul_free buf"
  shows "parse_args buf ret argc s = Inr (c, s') \<Longrightarrow> parsed buf ret \<and> nargs ret = Some argc \<longrightarrow> parsed buf c"
proof (induction rule: parse_args_Inr)
  case (word ret argc s s1 q eq s2 ret' s3 c s')
  show ?case
  proof
    assume r: "parsed buf ret \<and> nargs ret = Some argc"
    then have "parsed buf (add_arg (q, eq) ret)" "nargs (add_arg (q, eq) ret) = Some (argc + 1)"
      using gettoken_maximal [OF no_nul word(2)] word(3) by (simp_all add: parsed_add_arg nargs_add_arg)
    then show "parsed buf c" using redirs_parsed [OF no_nul word(4)] word(5) by simp
  qed
qed simp_all

lemma back_loop_parsed: "back_loop buf cmd s = (c, s') \<Longrightarrow> parsed buf cmd \<Longrightarrow> parsed buf c"
proof (induction buf cmd s rule: back_loop.induct)
  case (1 buf cmd s)
  obtain hit s1 where p: "peek buf s ''&'' = (hit, s1)" by fastforce
  then show ?case using "1.IH" [OF p [symmetric] refl] "1.prems"
    by (auto simp: back_loop.simps [of buf cmd s] split: if_splits)
qed

lemma parts_parsed:
  assumes no_nul: "nul_free buf"
  shows "b = buf \<Longrightarrow> post (parseline b s) (\<lambda>(c, s'). parsed buf c)"
    and "b = buf \<Longrightarrow> post (parsepipe b s) (\<lambda>(c, s'). parsed buf c)"
    and "b = buf \<Longrightarrow> post (parseexec b s) (\<lambda>(c, s'). parsed buf c)"
    and "b = buf \<Longrightarrow> post (parseblock b s) (\<lambda>(c, s'). parsed buf c)"
proof (induction b s and b s and b s and b s rule: parseline_parsepipe_parseexec_parseblock.induct)
  case (1 b s)
  note b = 1(3)
  show ?case unfolding parseline.simps [of b s] post_simps
  proof (rule post_mono [OF 1(1) [OF b]], clarify)
    fix cmd s1 assume a: "parsepipe b s = Inr (cmd, s1)" "parsed buf cmd"
    obtain c s2 where l: "back_loop b cmd s1 = (c, s2)" by fastforce
    obtain hit s3 where p: "peek b s2 '';'' = (hit, s3)" by fastforce
    have "parsed buf c" by (rule back_loop_parsed [OF l [unfolded b] a(2)])
    then show "post (let (cmd, s) = back_loop b cmd s1; (hit, s) = peek b s '';''
        in if hit then let s = next_token b s in rbind (parseline b s) (\<lambda>(right, s). Inr (LIST cmd right, s))
           else Inr (cmd, s)) (\<lambda>(c, s'). parsed buf c)"
      using 1(2) [OF a(1) refl l [symmetric] refl p [symmetric] refl _ refl b] l p by (auto elim!: post_mono)
  qed
next
  case (2 b s)
  note b = 2(3)
  show ?case unfolding parsepipe.simps [of b s] post_simps
  proof (rule post_mono [OF 2(1) [OF b]], clarify)
    fix cmd s1 assume a: "parseexec b s = Inr (cmd, s1)" "parsed buf cmd"
    obtain hit s3 where p: "peek b s1 ''|'' = (hit, s3)" by fastforce
    show "post (let (hit, s) = peek b s1 ''|''
        in if hit then let s = next_token b s in rbind (parsepipe b s) (\<lambda>(right, s). Inr (PIPE cmd right, s))
           else Inr (cmd, s)) (\<lambda>(c, s'). parsed buf c)"
      using 2(2) [OF a(1) refl p [symmetric] refl _ refl b] a(2) p by (auto elim!: post_mono)
  qed
next
  case (3 b s)
  note b = 3(2)
  obtain hit s1 where p: "peek b s ''('' = (hit, s1)" by fastforce
  have "post (rbind (parseredirs b (EXEC []) s1) (\<lambda>(ret, s). parse_args b ret 0 s)) (\<lambda>(c, s'). parsed buf c)"
    using b by (auto simp: post_def rbind_pair_Inr MAXARGS_def dest!: redirs_parsed [OF no_nul] args_parsed [OF no_nul])
  then show ?case using 3(1) [OF p [symmetric] refl _ b] p by (auto simp: parseexec.simps [of b s])
next
  case (4 b s)
  note b = 4(2)
  obtain hit s1 where p: "peek b s ''('' = (hit, s1)" by fastforce
  have tail: "post (case peek b s2 '')'' of (hit, s) \<Rightarrow>
      if \<not> hit then Inl (Panic ''syntax - missing )'') else parseredirs b c (next_token b s))
    (\<lambda>(c, s'). parsed buf c)" if "parsed buf c" for c s2
    using that redirs_parsed [OF no_nul] b by (auto simp: post_def split: prod.splits)
  show ?case
  proof (cases hit)
    case True
    then show ?thesis unfolding parseblock.simps [of b s] p Let_def prod.case
      using 4(1) [OF p [symmetric] refl _ refl b] tail by (auto simp: Let_def elim!: post_mono)
  qed (use p in \<open>simp add: parseblock.simps [of b s]\<close>)
qed

section \<open>The words as C strings\<close>

lemma foldl_nul:
  "length (foldl (\<lambda>mem (q, eq). mem[eq := NUL]) mem ws) = length mem"
  "i < length mem \<Longrightarrow> foldl (\<lambda>mem (q, eq). mem[eq := NUL]) mem ws ! i = (if i \<in> snd ` set ws then NUL else mem ! i)"
proof (induction ws arbitrary: mem)
  case (Cons w ws)
  {
    case 1
    then show ?case using Cons.IH by (simp split: prod.split)
  next
    case 2
    then show ?case using Cons.IH(2) [of "mem[snd w := NUL]"] by (cases "snd w = i") (simp_all add: case_prod_beta)
  }
qed simp_all

lemma length_nulterminate [simp]: "length (nulterminate c mem) = length mem"
  by (induction c arbitrary: mem) (simp_all add: foldl_nul)

lemma nth_nulterminate:
  "i < length mem \<Longrightarrow> nulterminate c mem ! i = (if i \<in> snd ` set_cmd c then NUL else mem ! i)"
proof (induction c arbitrary: mem)
  case (REDIR c f mode fd)
  then show ?case by (cases "snd f = i") auto
qed (auto simp: foldl_nul)

lemma length_substr: "snd w \<le> length buf \<Longrightarrow> length (substr buf w) = snd w - fst w"
  by (simp add: substr_def)

lemma nth_substr: "i < length (substr buf w) \<Longrightarrow> substr buf w ! i = buf ! (fst w + i)"
  by (cases "fst w \<le> length buf") (simp_all add: substr_def)

lemma maximal_inside:
  assumes "maximal buf w" and "fst w \<le> i" "i < snd w"
  shows "plain (buf ! i)"
proof -
  have l: "i - fst w < length (substr buf w)" "list_all plain (substr buf w)"
    using assms by (auto simp: maximal_def length_substr)
  then have "plain (substr buf w ! (i - fst w))" by (auto simp: list_all_length)
  then show ?thesis using l(1) assms(2) by (simp add: nth_substr)
qed

text \<open>A terminator is never written inside a word, whichever words the command has.\<close>

lemma nulterminate_word:
  assumes mem: "mem = buf @ NUL # junk" and c: "\<forall>w\<in>set_cmd c. maximal buf w" and w: "w \<in> set_cmd c"
  shows "takeWhile (\<lambda>c. c \<noteq> NUL) (drop (fst w) (nulterminate c mem)) = substr buf w"
proof -
  let ?m = "nulterminate c mem"
  have m: "maximal buf w" "fst w < snd w" "snd w \<le> length buf" using c w by (auto simp: maximal_def)
  then have len: "snd w < length ?m" by (simp add: mem)
  have out: "i \<notin> snd ` set_cmd c" if i: "fst w \<le> i" "i < snd w" for i
  proof
    assume "i \<in> snd ` set_cmd c"
    then obtain v where v: "v \<in> set_cmd c" "i = snd v" by blast
    then have "\<not> plain (chr_at buf i)" using c by (auto simp: maximal_def)
    then show False using maximal_inside [OF m(1) i] i m(3) by (simp add: chr_at_def)
  qed
  have keep: "?m ! i = buf ! i" if i: "fst w \<le> i" "i < snd w" for i
    using i m(3) out [OF i] by (simp add: nth_nulterminate mem nth_append)
  have "take (snd w - fst w) (drop (fst w) ?m) = substr buf w"
    by (rule nth_equalityI) (use m len keep in \<open>auto simp: substr_def mem\<close>)
  moreover have "drop (snd w - fst w) (drop (fst w) ?m) = NUL # drop (Suc (snd w)) ?m"
    using m(2) Cons_nth_drop_Suc [OF len] imageI [OF w, of snd] len by (simp add: nth_nulterminate)
  ultimately have "drop (fst w) ?m = substr buf w @ NUL # drop (Suc (snd w)) ?m"
    using append_take_drop_id [of "snd w - fst w" "drop (fst w) ?m"] by simp
  moreover have "\<forall>x\<in>set (substr buf w). x \<noteq> NUL" using m(1) by (auto simp: maximal_def list_all_iff plain_def)
  ultimately show ?thesis by (simp add: takeWhile_append2)
qed

lemma split_at_nul:
  assumes "NUL \<in> set mem"
  shows "mem = takeWhile (\<lambda>c. c \<noteq> NUL) mem @ NUL # tl (dropWhile (\<lambda>c. c \<noteq> NUL) mem)"
proof -
  have "dropWhile (\<lambda>c. c \<noteq> NUL) mem \<noteq> []" using assms by (auto simp: dropWhile_eq_Nil_conv)
  then have "dropWhile (\<lambda>c. c \<noteq> NUL) mem = NUL # tl (dropWhile (\<lambda>c. c \<noteq> NUL) mem)"
    using hd_dropWhile [of "\<lambda>c. c \<noteq> NUL" mem] by (metis list.collapse)
  then show ?thesis by (metis takeWhile_dropWhile_id)
qed

lemma parsecmd_Inr:
  assumes "parsecmd mem = Inr (c, mem')"
  obtains s where "parseline (takeWhile (\<lambda>c. c \<noteq> NUL) mem) 0 = Inr (c, s)" "mem' = nulterminate c mem"
proof -
  obtain cmd s where a: "parseline (takeWhile (\<lambda>c. c \<noteq> NUL) mem) 0 = Inr (cmd, s)"
      "(let (_, s) = peek (takeWhile (\<lambda>c. c \<noteq> NUL) mem) s '''' in if s \<noteq> length (takeWhile (\<lambda>c. c \<noteq> NUL) mem)
        then Inl (Panic ''syntax'') else Inr (cmd, nulterminate cmd mem)) = Inr (c, mem')"
    using assms by (auto simp: parsecmd_def Let_def rbind_pair_Inr)
  then have "cmd = c \<and> mem' = nulterminate c mem" by (auto simp: Let_def split: prod.splits if_splits)
  then show ?thesis using a(1) that by blast
qed

lemma parsecmd_parsed:
  assumes "parsecmd mem = Inr (c, mem')"
  shows "parsed (takeWhile (\<lambda>c. c \<noteq> NUL) mem) c"
proof -
  let ?buf = "takeWhile (\<lambda>c. c \<noteq> NUL) mem"
  have n: "nul_free ?buf" by (auto dest: set_takeWhileD)
  obtain s where "parseline ?buf 0 = Inr (c, s)" by (rule parsecmd_Inr [OF assms])
  then show ?thesis using postD [OF parts_parsed(1) [OF n refl]] by fastforce
qed

text \<open>
  C12. Every command that \<open>parsecmd\<close> returns is one of the grammar, with at most nine arguments and no empty word, and in
  the buffer it leaves each of its words is the C string of the characters that it had in the line.
\<close>

theorem parsecmd_words:
  assumes "NUL \<in> set mem" and "parsecmd mem = Inr (c, mem')"
  defines "buf \<equiv> takeWhile (\<lambda>c. c \<noteq> NUL) mem"
  shows "wf_cmd (map_cmd (substr buf) c) \<and>
    (\<forall>w\<in>set_cmd c. takeWhile (\<lambda>c. c \<noteq> NUL) (drop (fst w) mem') = substr buf w \<and> is_word (substr buf w))"
proof
  have p: "parsed buf c" unfolding buf_def by (rule parsecmd_parsed [OF assms(2)])
  then show "wf_cmd (map_cmd (substr buf) c)" by (simp add: parsed_def)
  have m: "mem = buf @ NUL # tl (dropWhile (\<lambda>c. c \<noteq> NUL) mem)"
    unfolding buf_def by (rule split_at_nul [OF assms(1)])
  have mem': "mem' = nulterminate c mem" by (rule parsecmd_Inr [OF assms(2)])
  have w: "is_word (substr buf w)" if "w \<in> set_cmd c" for w
  proof -
    have "maximal buf w" using p that by (simp add: parsed_def)
    then have "length (substr buf w) \<noteq> 0" "list_all plain (substr buf w)" by (simp_all add: maximal_def length_substr)
    then show ?thesis by (simp add: is_word_def)
  qed
  show "\<forall>w\<in>set_cmd c. takeWhile (\<lambda>c. c \<noteq> NUL) (drop (fst w) mem') = substr buf w \<and> is_word (substr buf w)"
    using nulterminate_word [OF m] p w by (auto simp: parsed_def mem')
qed

section \<open>A printer for commands\<close>

text \<open>The level of the grammar that a command belongs to; one of a higher level than allowed is put in parentheses.\<close>

primrec level :: "'w cmd \<Rightarrow> nat" where
  "level (EXEC ws) = 0"
| "level (REDIR c f mode fd) = 0"
| "level (PIPE l r) = 1"
| "level (BACK c) = 2"
| "level (LIST l r) = 3"

definition paren :: "nat \<Rightarrow> 'w cmd \<Rightarrow> string \<Rightarrow> string" where
  "paren n c s = (if level c \<le> n then s else ''( '' @ s @ '') '')"

primrec print :: "string cmd \<Rightarrow> string" where
  "print (EXEC ws) = concat (map (\<lambda>w. w @ '' '') ws)"
| "print (REDIR c f mode fd) = paren 0 c (print c) @ (if fd = 0 then ''< '' else ''> '') @ f @ '' ''"
| "print (PIPE l r) = paren 0 l (print l) @ ''| '' @ paren 1 r (print r)"
| "print (BACK c) = paren 2 c (print c) @ ''& ''"
| "print (LIST l r) = paren 2 l (print l) @ ''; '' @ paren 3 r (print r)"

text \<open>What the tokenizer does at a position whose text is known.\<close>

definition starts :: "string \<Rightarrow> string \<Rightarrow> bool" where
  "starts toks r \<longleftrightarrow> r = [] \<or> hd r \<in> set toks"

definition no_ws :: "string \<Rightarrow> bool" where
  "no_ws r \<longleftrightarrow> r = [] \<or> hd r \<notin> set whitespace"

lemma chr_at_of_drop: "drop s buf = r \<Longrightarrow> chr_at buf s = (if r = [] then NUL else hd r)"
  by (auto simp: chr_at_def hd_drop_conv_nth)

lemma skip_ws_none: "drop s buf = r \<Longrightarrow> no_ws r \<Longrightarrow> skip_ws buf s = s"
  by (rule skip_ws_stay) (auto simp: chr_at_of_drop no_ws_def)

lemma skip_ws_space: "drop s buf = CHR '' '' # r \<Longrightarrow> no_ws r \<Longrightarrow> skip_ws buf s = s + 1"
proof -
  assume d: "drop s buf = CHR '' '' # r" and r: "no_ws r"
  have s: "s < length buf" using d by (metis drop_all linorder_not_less list.distinct(1))
  have c: "chr_at buf s = CHR '' ''" using chr_at_of_drop [OF d] by simp
  have "drop (s + 1) buf = r" using d by (metis Suc_eq_plus1 drop_Suc list.sel(3) tl_drop)
  then have "skip_ws buf (s + 1) = s + 1" by (rule skip_ws_none [OF _ r])
  then show ?thesis using s c unfolding skip_ws_def
    by (subst scan_while.simps) (simp add: whitespace_def)
qed

lemma peek_at: "nul_free buf \<Longrightarrow> drop s buf = r \<Longrightarrow> no_ws r \<Longrightarrow> peek buf s toks = (r \<noteq> [] \<and> hd r \<in> set toks, s)"
proof -
  assume n: "nul_free buf" and d: "drop s buf = r" and r: "no_ws r"
  have "hd r \<noteq> NUL" if "r \<noteq> []"
    using n that d hd_in_set [of r] in_set_dropD [of "hd r" s buf] by blast
  then show ?thesis using skip_ws_none [OF d r] chr_at_of_drop [OF d] by (simp add: peek_def Let_def)
qed

lemma token_symbol:
  assumes d: "drop s buf = c # CHR '' '' # r" and c: "c \<in> set symbols" and r: "no_ws r"
  shows "gettoken buf s = (c, s, s + 1, s + 2)" "drop (s + 2) buf = r"
proof -
  have d1: "drop (s + 1) buf = CHR '' '' # r" using d by (metis Suc_eq_plus1 drop_Suc list.sel(3) tl_drop)
  have c1: "chr_at buf s = c" "chr_at buf (s + 1) = CHR '' ''" using chr_at_of_drop [OF d] chr_at_of_drop [OF d1] by simp_all
  have "c \<notin> set whitespace" using c by (auto simp: symbols_def whitespace_def)
  then have q: "skip_ws buf s = s" by (intro skip_ws_none [OF d]) (simp add: no_ws_def)
  have "token_at buf s = (c, s + 1)" using c c1 by (auto simp: token_at_def symbols_def)
  then show "gettoken buf s = (c, s, s + 1, s + 2)" using skip_ws_space [OF d1 r] q by (simp add: gettoken_def)
  show "drop (s + 2) buf = r" using d1 by (metis add_2_eq_Suc' Suc_eq_plus1 drop_Suc list.sel(3) tl_drop)
qed

lemma token_word:
  assumes d: "drop s buf = w @ CHR '' '' # r" and w: "is_word w" and r: "no_ws r"
  shows "gettoken buf s = (CHR ''a'', s, s + length w, s + length w + 1)" "drop (s + length w + 1) buf = r"
    "substr buf (s, s + length w) = w"
proof -
  let ?P = "\<lambda>c. c \<notin> set whitespace \<and> c \<notin> set symbols"
  have p: "\<forall>c\<in>set w. ?P c" "\<forall>c\<in>set w. plain c" "w \<noteq> []" using w by (auto simp: is_word_def plain_def list_all_iff)
  have d1: "drop (s + length w) buf = CHR '' '' # r" using d by (metis add.commute append_eq_conv_conj drop_drop)
  show "drop (s + length w + 1) buf = r" using d1 by (metis Suc_eq_plus1 drop_Suc list.sel(3) tl_drop)
  show "substr buf (s, s + length w) = w" by (simp add: substr_def d)
  have c: "chr_at buf s = hd w" "hd w \<in> set w" using p(3) chr_at_of_drop [OF d] by simp_all
  then have h: "plain (chr_at buf s)" using p(2) by simp
  have q: "skip_ws buf s = s" by (rule skip_ws_stay) (use h in \<open>simp add: plain_def\<close>)
  have "CHR '' '' \<in> set whitespace" by (simp add: whitespace_def)
  then have "takeWhile ?P (drop s buf) = w" using p(1) by (simp add: d takeWhile_append2)
  then have "scan_while ?P buf s = s + length w" by (simp add: scan_while_takeWhile)
  moreover have "chr_at buf s \<notin> set ''|();&<''" "chr_at buf s \<noteq> CHR ''>''" "chr_at buf s \<noteq> NUL"
    using h by (auto simp: plain_def symbols_def)
  ultimately have "token_at buf s = (CHR ''a'', s + length w)" unfolding token_at_def Let_def by (simp del: list.set)
  then show "gettoken buf s = (CHR ''a'', s, s + length w, s + length w + 1)"
    using skip_ws_space [OF d1 r] q by (simp add: gettoken_def)
qed

lemma map_add_arg: "map_cmd f (add_arg w c) = add_arg (f w) (map_cmd f c)"
  by (induction c) simp_all

lemma add_args_EXEC: "foldl (\<lambda>c w. add_arg w c) (EXEC vs) ws = EXEC (vs @ ws)"
  by (induction ws arbitrary: vs) simp_all

lemma redirs_none:
  assumes "nul_free buf" "drop s buf = r" "no_ws r" "r \<noteq> [] \<Longrightarrow> hd r \<notin> set ''<>''"
  shows "parseredirs buf c s = Inr (c, s)"
  using assms(4) peek_at [OF assms(1-3)] by (subst parseredirs.simps) (auto simp del: list.set)

lemma redirs_one:
  assumes n: "nul_free buf" and d: "drop s buf = op # CHR '' '' # f @ CHR '' '' # r" and r: "no_ws r"
    and op: "op \<in> set ''<>''" and f: "is_word f"
  shows "parseredirs buf c s = parseredirs buf (redir_of op c (s + 2) (s + 2 + length f)) (s + 2 + length f + 1)"
    "drop (s + 2 + length f + 1) buf = r" "substr buf (s + 2, s + 2 + length f) = f"
proof -
  have sym: "op \<in> set symbols" "op \<notin> set whitespace" using op by (auto simp: symbols_def whitespace_def)
  have f1: "no_ws (f @ CHR '' '' # r)" using f by (cases f) (simp_all add: no_ws_def is_word_def plain_def)
  note t = token_symbol [OF d sym(1) f1]
  note w = token_word [OF t(2) f r]
  have "peek buf s ''<>'' = (True, s)" using peek_at [OF n d] op sym(2) by (simp add: no_ws_def)
  then show "parseredirs buf c s = parseredirs buf (redir_of op c (s + 2) (s + 2 + length f)) (s + 2 + length f + 1)"
    using t(1) w(1) by (subst parseredirs.simps) simp
  show "drop (s + 2 + length f + 1) buf = r" "substr buf (s + 2, s + 2 + length f) = f" using w by simp_all
qed

lemma args_stop:
  assumes n: "nul_free buf" and d: "drop s buf = r" and r: "no_ws r" "starts ''|)&;'' r"
  shows "parse_args buf ret argc s = Inr (ret, s)"
proof (cases "r = []")
  case True
  then have "chr_at buf s = NUL" using chr_at_of_drop [OF d] by simp
  then have "gettoken buf s = (NUL, s, s, s)" using skip_ws_none [OF d r(1)] by (simp add: gettoken_def token_at_def)
  then show ?thesis using peek_at [OF n d r(1)] True by (subst parse_args.simps) simp
next
  case False
  then show ?thesis using peek_at [OF n d r(1), of "''|)&;''"] r(2) by (subst parse_args.simps) (simp add: starts_def)
qed

abbreviation spaced :: "string list \<Rightarrow> string" where
  "spaced ws \<equiv> concat (map (\<lambda>w. w @ '' '') ws)"

lemma no_ws_spaced: "list_all is_word ws \<Longrightarrow> no_ws r \<Longrightarrow> no_ws (spaced ws @ r)"
  by (cases ws; cases "hd ws") (auto simp: no_ws_def is_word_def plain_def)

lemma parse_words:
  assumes n: "nul_free buf" and ws: "list_all is_word ws" "argc + length ws < MAXARGS"
    and d: "drop s buf = spaced ws @ r" and r: "no_ws r"
  shows "\<exists>ret'. rbind (parseredirs buf ret s) (\<lambda>(ret, s). parse_args buf ret argc s) =
      rbind (parseredirs buf ret' (s + length (spaced ws))) (\<lambda>(ret, s). parse_args buf ret (argc + length ws) s) \<and>
    map_cmd (substr buf) ret' = foldl (\<lambda>c w. add_arg w c) (map_cmd (substr buf) ret) ws"
  using ws d
proof (induction ws arbitrary: s ret argc)
  case (Cons w ws)
  have w: "is_word w" "w \<noteq> []" "plain (hd w)" using Cons.prems(1) by (auto simp: is_word_def list_all_iff)
  let ?s = "s + length w + 1" and ?ret = "add_arg (s, s + length w) ret"
  have d1: "drop s buf = w @ CHR '' '' # (spaced ws @ r)" using Cons.prems(3) by simp
  note t = token_word [OF d1 w(1) no_ws_spaced [OF _ r]]
  have h: "hd w \<notin> set whitespace" "hd w \<notin> set ''<>''" "hd w \<notin> set ''|)&;''"
    using w(3) by (auto simp: plain_def symbols_def)
  have nw: "no_ws (w @ CHR '' '' # (spaced ws @ r))" using h(1) w(2) by (simp add: no_ws_def)
  have "parseredirs buf ret s = Inr (ret, s)" by (rule redirs_none [OF n d1 nw]) (use h(2) w(2) in simp)
  moreover have "parse_args buf ret argc s = rbind (parseredirs buf ?ret ?s) (\<lambda>(ret, s). parse_args buf ret (argc + 1) s)"
    using peek_at [OF n d1 nw, of "''|)&;''"] h(3) w(2) t(1) Cons.prems(1,2) by (subst parse_args.simps) (simp del: list.set)
  moreover have "map_cmd (substr buf) ?ret = add_arg w (map_cmd (substr buf) ret)"
    using t(3) Cons.prems(1) by (simp add: map_add_arg)
  moreover have "drop ?s buf = spaced ws @ r" using t(2) Cons.prems(1) by simp
  moreover have e: "argc + length (w # ws) = argc + 1 + length ws" "s + length (spaced (w # ws)) = ?s + length (spaced ws)"
    by simp_all
  ultimately show ?case unfolding e using Cons.IH [of "argc + 1" ?s ?ret] Cons.prems(1,2) by simp
next
  case Nil
  have e: "argc + length [] = argc" "s + length (spaced []) = s" by simp_all
  show ?case unfolding e by (intro exI [of _ ret]) simp
qed

text \<open>
  What each of the parsing functions makes of a printed command, at its own level of the grammar. A command of \<open>parseexec\<close>
  may be followed by more redirections.
\<close>

definition exec_reads :: "string \<Rightarrow> string cmd \<Rightarrow> bool" where
  "exec_reads buf t \<longleftrightarrow> (\<forall>s r. drop s buf = paren 0 t (print t) @ r \<longrightarrow> no_ws r \<longrightarrow> starts ''<>|)&;'' r \<longrightarrow>
     (\<exists>c k. map_cmd (substr buf) c = t \<and>
       parseexec buf s = rbind (parseredirs buf c (s + length (paren 0 t (print t)))) k \<and>
       (k = Inr \<or> (\<exists>argc. k = (\<lambda>(ret, s). parse_args buf ret argc s)))))"

definition pipe_reads :: "string \<Rightarrow> string cmd \<Rightarrow> bool" where
  "pipe_reads buf t \<longleftrightarrow> (\<forall>s r. drop s buf = paren 1 t (print t) @ r \<longrightarrow> no_ws r \<longrightarrow> starts '')&;'' r \<longrightarrow>
     (\<exists>c. map_cmd (substr buf) c = t \<and> parsepipe buf s = Inr (c, s + length (paren 1 t (print t)))))"

definition back_reads :: "string \<Rightarrow> string cmd \<Rightarrow> bool" where
  "back_reads buf t \<longleftrightarrow> (\<forall>s r. drop s buf = paren 2 t (print t) @ r \<longrightarrow> no_ws r \<longrightarrow> starts '')&;'' r \<longrightarrow>
     (\<exists>c c0 s0. map_cmd (substr buf) c = t \<and> parsepipe buf s = Inr (c0, s0) \<and>
       back_loop buf c0 s0 = back_loop buf c (s + length (paren 2 t (print t)))))"

definition line_reads :: "string \<Rightarrow> string cmd \<Rightarrow> bool" where
  "line_reads buf t \<longleftrightarrow> (\<forall>s r. drop s buf = paren 3 t (print t) @ r \<longrightarrow> no_ws r \<longrightarrow> starts '')'' r \<longrightarrow>
     (\<exists>c. map_cmd (substr buf) c = t \<and> parseline buf s = Inr (c, s + length (paren 3 t (print t)))))"

lemma starts_mono: "starts toks r \<Longrightarrow> set toks \<subseteq> set toks' \<Longrightarrow> starts toks' r"
  by (auto simp: starts_def simp del: list.set)

lemma starts_not: "starts toks r \<Longrightarrow> set toks \<inter> set toks' = {} \<Longrightarrow> \<not> (r \<noteq> [] \<and> hd r \<in> set toks')"
  by (auto simp: starts_def simp del: list.set)

text \<open>A command of \<open>parseexec\<close> that nothing more of it follows.\<close>

lemma exec_ends:
  assumes n: "nul_free buf" and e: "exec_reads buf t" and d: "drop s buf = paren 0 t (print t) @ r"
    and r: "no_ws r" "starts ''|)&;'' r"
  obtains c where "map_cmd (substr buf) c = t" "parseexec buf s = Inr (c, s + length (paren 0 t (print t)))"
proof -
  let ?s = "s + length (paren 0 t (print t))"
  obtain c k where c: "map_cmd (substr buf) c = t" "parseexec buf s = rbind (parseredirs buf c ?s) k"
      "k = Inr \<or> (\<exists>argc. k = (\<lambda>(ret, s). parse_args buf ret argc s))"
    using e [unfolded exec_reads_def, rule_format, OF d r(1) starts_mono [OF r(2)]] by auto
  have dr: "drop ?s buf = r" using d by (metis add.commute append_eq_conv_conj drop_drop)
  have "parseredirs buf c ?s = Inr (c, ?s)"
    by (rule redirs_none [OF n dr r(1)]) (use starts_not [OF r(2), of "''<>''"] in simp)
  moreover have "k (c, ?s) = Inr (c, ?s)" using c(3) args_stop [OF n dr r] by auto
  ultimately show ?thesis using c that by simp
qed

lemma paren_up: "level t \<le> n \<Longrightarrow> paren n t s = s"
  by (simp add: paren_def)

lemma paren_open: "n < level t \<Longrightarrow> paren n t s = ''( '' @ s @ '') ''"
  by (simp add: paren_def)

lemma paren_same: "level t \<le> n \<or> m < level t \<Longrightarrow> n \<le> m \<Longrightarrow> paren n t s = paren m t s"
  by (auto simp: paren_def)

text \<open>From each level to the next.\<close>

lemma exec_pipe:
  assumes n: "nul_free buf" and e: "exec_reads buf t" and t: "level t \<noteq> 1"
  shows "pipe_reads buf t"
  unfolding pipe_reads_def
proof (intro allI impI)
  fix s r assume d: "drop s buf = paren 1 t (print t) @ r" and r: "no_ws r" "starts '')&;'' r"
  have p: "paren 1 t (print t) = paren 0 t (print t)" using t by (simp add: paren_def)
  obtain c where c: "map_cmd (substr buf) c = t" "parseexec buf s = Inr (c, s + length (paren 0 t (print t)))"
    by (rule exec_ends [OF n e d [unfolded p] r(1) starts_mono [OF r(2)]]) simp
  have dr: "drop (s + length (paren 0 t (print t))) buf = r" using d p by (metis add.commute append_eq_conv_conj drop_drop)
  show "\<exists>c. map_cmd (substr buf) c = t \<and> parsepipe buf s = Inr (c, s + length (paren 1 t (print t)))"
    using c p peek_at [OF n dr r(1), of "''|''"] starts_not [OF r(2), of "''|''"] by (auto simp: parsepipe.simps [of buf s])
qed

lemma pipe_back:
  assumes p: "pipe_reads buf t" and t: "level t \<noteq> 2"
  shows "back_reads buf t"
proof -
  have "paren 2 t (print t) = paren 1 t (print t)" using t by (simp add: paren_def)
  then show ?thesis using p unfolding back_reads_def pipe_reads_def by metis
qed

lemma back_line:
  assumes n: "nul_free buf" and b: "back_reads buf t" and t: "level t \<noteq> 3"
  shows "line_reads buf t"
  unfolding line_reads_def
proof (intro allI impI)
  fix s r assume d: "drop s buf = paren 3 t (print t) @ r" and r: "no_ws r" "starts '')'' r"
  have lt: "level t \<le> 3" by (cases t) simp_all
  have p: "paren 3 t (print t) = paren 2 t (print t)" using t lt by (simp add: paren_def)
  have r2: "starts '')&;'' r" by (rule starts_mono [OF r(2)]) simp
  obtain c c0 s0 where c: "map_cmd (substr buf) c = t" "parsepipe buf s = Inr (c0, s0)"
      "back_loop buf c0 s0 = back_loop buf c (s + length (paren 2 t (print t)))"
    using b [unfolded back_reads_def, rule_format, OF d [unfolded p] r(1) r2] by blast
  have dr: "drop (s + length (paren 2 t (print t))) buf = r" using d p by (metis add.commute append_eq_conv_conj drop_drop)
  note pk = peek_at [OF n dr r(1)]
  have "back_loop buf c (s + length (paren 2 t (print t))) = (c, s + length (paren 2 t (print t)))"
    using pk [of "''&''"] starts_not [OF r(2), of "''&''"] by (subst back_loop.simps) simp
  then show "\<exists>c. map_cmd (substr buf) c = t \<and> parseline buf s = Inr (c, s + length (paren 3 t (print t)))"
    using c p pk [of "'';''"] starts_not [OF r(2), of "'';''"] by (auto simp: parseline.simps [of buf s])
qed

lemma drop_next: "drop s buf = xs @ r \<Longrightarrow> drop (s + length xs) buf = r"
  by (metis add.commute append_eq_conv_conj drop_drop)

lemma no_ws_append: "no_ws xs \<Longrightarrow> no_ws r \<Longrightarrow> no_ws (xs @ r)"
  by (cases xs) (simp_all add: no_ws_def)

lemma no_ws_symbol: "c \<in> set symbols \<Longrightarrow> no_ws (c # r)"
  by (auto simp: no_ws_def symbols_def whitespace_def)

lemma no_ws_paren: "no_ws s \<Longrightarrow> no_ws (paren n t s)"
  by (simp add: paren_def no_ws_symbol symbols_def)

lemma no_ws_print: "wf_cmd t \<Longrightarrow> no_ws (print t)"
proof (induction t)
  case (EXEC ws)
  then show ?case using no_ws_spaced [of ws "[]"] by (simp add: no_ws_def)
qed (auto intro!: no_ws_append no_ws_paren simp: no_ws_symbol symbols_def)

lemma symbol_in: "c \<in> set symbols \<longleftrightarrow> c \<in> {CHR ''<'', CHR ''|'', CHR ''>'', CHR ''&'', CHR '';'', CHR ''('', CHR '')''}"
  by (auto simp: symbols_def)

lemma next_symbol:
  assumes "drop s buf = c # CHR '' '' # r" and "c \<in> set symbols" and "no_ws r"
  shows "next_token buf s = s + 2"
  using token_symbol(1) [OF assms] by (simp add: next_token_def)

lemma rbind_Inr_id: "rbind m Inr = m"
  by (cases m) simp_all

lemma line_exec:
  assumes n: "nul_free buf" and l: "line_reads buf t" and t: "0 < level t" and w: "wf_cmd t"
  shows "exec_reads buf t"
  unfolding exec_reads_def
proof (intro allI impI)
  fix s r assume d: "drop s buf = paren 0 t (print t) @ r" and r: "no_ws r" and "starts ''<>|)&;'' r"
  let ?p = "print t"
  have lt: "level t \<le> 3" by (cases t) simp_all
  have p: "paren 0 t ?p = ''( '' @ ?p @ '') ''" "paren 3 t ?p = ?p" using t lt by (simp_all add: paren_def)
  have d0: "drop s buf = CHR ''('' # CHR '' '' # (?p @ CHR '')'' # CHR '' '' # r)" using d p by simp
  have nw: "no_ws (CHR '')'' # CHR '' '' # r)" by (simp add: no_ws_symbol symbol_in)
  have nw0: "no_ws (?p @ CHR '')'' # CHR '' '' # r)" by (rule no_ws_append [OF no_ws_print [OF w] nw])
  note o = token_symbol [OF d0 _ nw0] next_symbol [OF d0 _ nw0]
  have pk0: "peek buf s ''('' = (True, s)" using peek_at [OF n d0] by (simp add: no_ws_symbol symbol_in)
  obtain c where c: "map_cmd (substr buf) c = t" "parseline buf (s + 2) = Inr (c, s + 2 + length ?p)"
    using l [unfolded line_reads_def p(2), rule_format, OF o(2) nw] by (auto simp: symbol_in starts_def)
  have d1: "drop (s + 2 + length ?p) buf = CHR '')'' # CHR '' '' # r" by (rule drop_next [OF o(2)]) (simp add: symbol_in)
  have pk1: "peek buf (s + 2 + length ?p) '')'' = (True, s + 2 + length ?p)" using peek_at [OF n d1 nw] by simp
  have "parseexec buf s = parseredirs buf c (s + 2 + length ?p + 2)"
    using pk0 pk1 c(2) o(3) next_symbol [OF d1 _ r] by (simp add: parseexec.simps [of buf s] parseblock.simps [of buf s] symbol_in)
  then show "\<exists>c k. map_cmd (substr buf) c = t \<and>
      parseexec buf s = rbind (parseredirs buf c (s + length (paren 0 t ?p))) k \<and>
      (k = Inr \<or> (\<exists>argc. k = (\<lambda>(ret, s). parse_args buf ret argc s)))"
    using c(1) p by (intro exI [of _ c] exI [of _ Inr]) (simp add: rbind_Inr_id add.commute add.left_commute)
qed

text \<open>Each construct at its own level, from its parts.\<close>

lemma EXEC_reads:
  assumes n: "nul_free buf" and w: "wf_cmd (EXEC ws)"
  shows "exec_reads buf (EXEC ws)"
  unfolding exec_reads_def
proof (intro allI impI)
  fix s r assume d: "drop s buf = paren 0 (EXEC ws) (print (EXEC ws)) @ r" and r: "no_ws r" "starts ''<>|)&;'' r"
  have ws: "list_all is_word ws" "0 + length ws < MAXARGS" using w by simp_all
  have d0: "drop s buf = spaced ws @ r" using d by (simp add: paren_def)
  obtain c where c: "rbind (parseredirs buf (EXEC []) s) (\<lambda>(ret, s). parse_args buf ret 0 s) =
      rbind (parseredirs buf c (s + length (spaced ws))) (\<lambda>(ret, s). parse_args buf ret (0 + length ws) s)"
      "map_cmd (substr buf) c = EXEC ws"
    using parse_words [OF n ws d0 r(1), of "EXEC []"] by (auto simp: add_args_EXEC)
  have nw: "no_ws (spaced ws @ r)" by (rule no_ws_spaced [OF ws(1) r(1)])
  have "\<not> (spaced ws @ r \<noteq> [] \<and> hd (spaced ws @ r) = CHR ''('')"
  proof (cases ws)
    case Nil
    then show ?thesis using r(2) by (auto simp: starts_def)
  next
    case (Cons v vs)
    then have "plain (hd v)" "v \<noteq> []" using ws(1) by (auto simp: is_word_def list_all_iff)
    then show ?thesis using Cons by (auto simp: plain_def symbols_def)
  qed
  then have "peek buf s ''('' = (False, s)" using peek_at [OF n d0 nw] by simp
  then show "\<exists>c' k. map_cmd (substr buf) c' = EXEC ws \<and>
      parseexec buf s = rbind (parseredirs buf c' (s + length (paren 0 (EXEC ws) (print (EXEC ws))))) k \<and>
      (k = Inr \<or> (\<exists>argc. k = (\<lambda>(ret, s). parse_args buf ret argc s)))"
    using c by (intro exI [of _ c] exI [of _ "\<lambda>(ret, s). parse_args buf ret (0 + length ws) s"])
      (auto simp: parseexec.simps [of buf s] paren_def)
qed

lemma REDIR_reads:
  assumes n: "nul_free buf" and e: "exec_reads buf t" and w: "wf_cmd (REDIR t f mode fd)"
  shows "exec_reads buf (REDIR t f mode fd)"
  unfolding exec_reads_def
proof (intro allI impI)
  fix s r assume d: "drop s buf = paren 0 (REDIR t f mode fd) (print (REDIR t f mode fd)) @ r"
    and r: "no_ws r" "starts ''<>|)&;'' r"
  let ?p = "paren 0 t (print t)" and ?op = "if fd = 0 then CHR ''<'' else CHR ''>''"
  let ?s = "s + length ?p"
  have f: "is_word f" and op: "?op \<in> set ''<>''" using w by auto
  have d0: "drop s buf = ?p @ (?op # CHR '' '' # f @ CHR '' '' # r)" using d by (simp add: paren_def [of _ "REDIR t f mode fd"])
  have nw: "no_ws (?op # CHR '' '' # f @ CHR '' '' # r)" "starts ''<>|)&;'' (?op # CHR '' '' # f @ CHR '' '' # r)"
    by (auto simp: no_ws_symbol symbol_in starts_def)
  obtain c k where c: "map_cmd (substr buf) c = t" "parseexec buf s = rbind (parseredirs buf c ?s) k"
      "k = Inr \<or> (\<exists>argc. k = (\<lambda>(ret, s). parse_args buf ret argc s))"
    using e [unfolded exec_reads_def, rule_format, OF d0 nw] by blast
  note one = redirs_one [OF n drop_next [OF d0] r(1) op f]
  have len: "s + length (paren 0 (REDIR t f mode fd) (print (REDIR t f mode fd))) = ?s + 2 + length f + 1"
    by (simp add: paren_def [of _ "REDIR t f mode fd"])
  have "map_cmd (substr buf) (redir_of ?op c (?s + 2) (?s + 2 + length f)) = REDIR t f mode fd"
    using w c(1) one(3) by (auto simp: redir_of_def)
  then show "\<exists>c' k'. map_cmd (substr buf) c' = REDIR t f mode fd \<and>
      parseexec buf s = rbind (parseredirs buf c' (s + length (paren 0 (REDIR t f mode fd) (print (REDIR t f mode fd))))) k' \<and>
      (k' = Inr \<or> (\<exists>argc. k' = (\<lambda>(ret, s). parse_args buf ret argc s)))"
    unfolding len using c(2,3) one(1) [of c] by (intro exI conjI) auto
qed

lemma PIPE_reads:
  assumes n: "nul_free buf" and e: "exec_reads buf l" and p: "pipe_reads buf t" and w: "wf_cmd t"
  shows "pipe_reads buf (PIPE l t)"
  unfolding pipe_reads_def
proof (intro allI impI)
  fix s r assume d: "drop s buf = paren 1 (PIPE l t) (print (PIPE l t)) @ r" and r: "no_ws r" "starts '')&;'' r"
  let ?l = "paren 0 l (print l)" and ?t = "paren 1 t (print t)"
  let ?s = "s + length ?l"
  have d0: "drop s buf = ?l @ (CHR ''|'' # CHR '' '' # ?t @ r)" using d by (simp add: paren_def)
  have nw: "no_ws (CHR ''|'' # CHR '' '' # ?t @ r)" "starts ''|)&;'' (CHR ''|'' # CHR '' '' # ?t @ r)"
    by (simp_all add: no_ws_symbol symbol_in starts_def)
  have nt: "no_ws (?t @ r)" by (intro no_ws_append no_ws_paren no_ws_print w r)
  obtain c where c: "map_cmd (substr buf) c = l" "parseexec buf s = Inr (c, ?s)"
    by (rule exec_ends [OF n e d0 nw])
  note d1 = drop_next [OF d0]
  note o = token_symbol(2) [OF d1 _ nt] next_symbol [OF d1 _ nt]
  have pk: "peek buf ?s ''|'' = (True, ?s)" using peek_at [OF n d1 nw(1)] by simp
  obtain c' where c': "map_cmd (substr buf) c' = t" "parsepipe buf (?s + 2) = Inr (c', ?s + 2 + length ?t)"
    using p [unfolded pipe_reads_def, rule_format, OF o(1) r] by (auto simp: symbol_in)
  show "\<exists>c. map_cmd (substr buf) c = PIPE l t \<and>
      parsepipe buf s = Inr (c, s + length (paren 1 (PIPE l t) (print (PIPE l t))))"
    using c c' pk o(2) by (intro exI [of _ "PIPE c c'"]) (simp add: parsepipe.simps [of buf s] paren_def symbol_in)
qed

lemma BACK_reads:
  assumes n: "nul_free buf" and b: "back_reads buf t"
  shows "back_reads buf (BACK t)"
  unfolding back_reads_def
proof (intro allI impI)
  fix s r assume d: "drop s buf = paren 2 (BACK t) (print (BACK t)) @ r" and r: "no_ws r" "starts '')&;'' r"
  let ?t = "paren 2 t (print t)"
  let ?s = "s + length ?t"
  have d0: "drop s buf = ?t @ (CHR ''&'' # CHR '' '' # r)" using d by (simp add: paren_def)
  have nw: "no_ws (CHR ''&'' # CHR '' '' # r)" "starts '')&;'' (CHR ''&'' # CHR '' '' # r)"
    by (simp_all add: no_ws_symbol symbol_in starts_def)
  obtain c c0 s0 where c: "map_cmd (substr buf) c = t" "parsepipe buf s = Inr (c0, s0)"
      "back_loop buf c0 s0 = back_loop buf c ?s"
    using b [unfolded back_reads_def, rule_format, OF d0 nw] by blast
  note d1 = drop_next [OF d0]
  have "peek buf ?s ''&'' = (True, ?s)" using peek_at [OF n d1 nw(1)] by simp
  then have "back_loop buf c ?s = back_loop buf (BACK c) (?s + 2)"
    using next_symbol [OF d1 _ r(1)] by (simp add: back_loop.simps [of buf c ?s] symbol_in)
  then show "\<exists>c c0 s0. map_cmd (substr buf) c = BACK t \<and> parsepipe buf s = Inr (c0, s0) \<and>
      back_loop buf c0 s0 = back_loop buf c (s + length (paren 2 (BACK t) (print (BACK t))))"
    using c by (intro exI [of _ "BACK c"] exI [of _ c0] exI [of _ s0]) (simp add: paren_def)
qed

lemma LIST_reads:
  assumes n: "nul_free buf" and b: "back_reads buf l" and p: "line_reads buf t" and w: "wf_cmd t"
  shows "line_reads buf (LIST l t)"
  unfolding line_reads_def
proof (intro allI impI)
  fix s r assume d: "drop s buf = paren 3 (LIST l t) (print (LIST l t)) @ r" and r: "no_ws r" "starts '')'' r"
  let ?l = "paren 2 l (print l)" and ?t = "paren 3 t (print t)"
  let ?s = "s + length ?l"
  have d0: "drop s buf = ?l @ (CHR '';'' # CHR '' '' # ?t @ r)" using d by (simp add: paren_def)
  have nw: "no_ws (CHR '';'' # CHR '' '' # ?t @ r)" "starts '')&;'' (CHR '';'' # CHR '' '' # ?t @ r)"
    by (simp_all add: no_ws_symbol symbol_in starts_def)
  have nt: "no_ws (?t @ r)" by (intro no_ws_append no_ws_paren no_ws_print w r)
  obtain c c0 s0 where c: "map_cmd (substr buf) c = l" "parsepipe buf s = Inr (c0, s0)"
      "back_loop buf c0 s0 = back_loop buf c ?s"
    using b [unfolded back_reads_def, rule_format, OF d0 nw] by blast
  note d1 = drop_next [OF d0]
  note o = token_symbol(2) [OF d1 _ nt] next_symbol [OF d1 _ nt]
  have "back_loop buf c ?s = (c, ?s)" using peek_at [OF n d1 nw(1), of "''&''"] by (simp add: back_loop.simps [of buf c ?s])
  moreover have "peek buf ?s '';'' = (True, ?s)" using peek_at [OF n d1 nw(1)] by simp
  moreover obtain c' where "map_cmd (substr buf) c' = t" "parseline buf (?s + 2) = Inr (c', ?s + 2 + length ?t)"
    using p [unfolded line_reads_def, rule_format, OF o(1) r] by (auto simp: symbol_in)
  ultimately show "\<exists>c. map_cmd (substr buf) c = LIST l t \<and>
      parseline buf s = Inr (c, s + length (paren 3 (LIST l t) (print (LIST l t))))"
    using c o(2) by (intro exI [of _ "LIST c c'"]) (simp add: parseline.simps [of buf s] paren_def symbol_in)
qed

lemma all_reads:
  assumes n: "nul_free buf"
  shows "wf_cmd t \<Longrightarrow> exec_reads buf t \<and> pipe_reads buf t \<and> back_reads buf t \<and> line_reads buf t"
proof (induction t)
  case (EXEC ws)
  then show ?case using EXEC_reads [OF n] exec_pipe [OF n] pipe_back back_line [OF n] by simp
next
  case (REDIR t f mode fd)
  then show ?case using REDIR_reads [OF n] exec_pipe [OF n] pipe_back back_line [OF n] by simp
next
  case (PIPE l r)
  have "pipe_reads buf (PIPE l r)" using PIPE by (intro PIPE_reads [OF n]) simp_all
  then show ?case using PIPE.prems pipe_back back_line [OF n] line_exec [OF n] by simp
next
  case (LIST l r)
  have l: "line_reads buf (LIST l r)" using LIST by (intro LIST_reads [OF n]) simp_all
  then have "exec_reads buf (LIST l r)" using LIST.prems by (intro line_exec [OF n]) simp_all
  then show ?case using l exec_pipe [OF n] pipe_back by simp
next
  case (BACK t)
  have b: "back_reads buf (BACK t)" using BACK by (intro BACK_reads [OF n]) simp_all
  then have l: "line_reads buf (BACK t)" by (intro back_line [OF n]) simp_all
  then have "exec_reads buf (BACK t)" using BACK.prems by (intro line_exec [OF n]) simp_all
  then show ?case using b l exec_pipe [OF n] by simp
qed

lemma print_nul_free: "wf_cmd t \<Longrightarrow> nul_free (print t)"
  by (induction t) (auto simp: paren_def is_word_def plain_def list_all_iff)

lemma parsecmd_of_print:
  assumes "wf_cmd t"
  shows "\<exists>c. parsecmd (print t @ [NUL]) = Inr (c, nulterminate c (print t @ [NUL])) \<and> map_cmd (substr (print t)) c = t"
proof -
  note n = print_nul_free [OF assms]
  have lt: "level t \<le> 3" by (cases t) simp_all
  have buf: "takeWhile (\<lambda>c. c \<noteq> NUL) (print t @ [NUL]) = print t" using n by (simp add: takeWhile_append2)
  have "drop 0 (print t) = paren 3 t (print t) @ []" using lt by (simp add: paren_def)
  then obtain c where c: "map_cmd (substr (print t)) c = t" "parseline (print t) 0 = Inr (c, length (print t))"
    using all_reads [OF n assms] lt unfolding line_reads_def by (fastforce simp: no_ws_def starts_def paren_def)
  have "peek (print t) (length (print t)) '''' = (False, length (print t))"
    using peek_at [OF n, of "length (print t)" "[]"] by (simp add: no_ws_def)
  then have "parsecmd (print t @ [NUL]) = Inr (c, nulterminate c (print t @ [NUL]))"
    using c(2) unfolding parsecmd_def buf by simp
  then show ?thesis using c(1) by blast
qed

text \<open>
  C11. A command of the grammar, printed with parentheses where its level needs them, is parsed to itself: nothing is left
  over, no panic is reached, and each word of the result is the text that was printed for it.
\<close>

theorem parsecmd_print:
  assumes "wf_cmd t"
  shows "\<exists>c. parsecmd (print t @ [NUL]) = Inr (c, nulterminate c (print t @ [NUL])) \<and> map_cmd (substr (print t)) c = t"
  by (rule parsecmd_of_print [OF assms])

theorem parsecmd_print_witness:
  "\<exists>c. parsecmd (''( ls ; wc ) | cat > o '' @ [NUL]) = Inr (c, nulterminate c (''( ls ; wc ) | cat > o '' @ [NUL])) \<and>
    map_cmd (substr ''( ls ; wc ) | cat > o '') c =
      PIPE (LIST (EXEC [''ls'']) (EXEC [''wc''])) (REDIR (EXEC [''cat'']) ''o'' (O_WRONLY OR O_CREATE) 1)"
proof -
  have w: "wf_cmd (PIPE (LIST (EXEC [''ls'']) (EXEC [''wc''])) (REDIR (EXEC [''cat'']) ''o'' (O_WRONLY OR O_CREATE) 1))"
    by code_simp
  show ?thesis using parsecmd_print [OF w] by (simp add: paren_def)
qed

theorem parsecmd_words_witness:
  "takeWhile (\<lambda>c. c \<noteq> NUL) (drop 3 (''ls'' @ [NUL] @ ''-l'' @ [NUL] @ ''wc'' @ [NUL])) = ''-l'' \<and>
    wf_cmd (PIPE (EXEC [''ls'', ''-l'']) (EXEC [''wc'']))"
proof -
  let ?mem = "''ls -l|wc'' @ [NUL]" and ?c = "PIPE (EXEC [(0, 2), (3, 5)]) (EXEC [(6, 8)])"
  have p: "parsecmd ?mem = Inr (?c, ''ls'' @ [NUL] @ ''-l'' @ [NUL] @ ''wc'' @ [NUL])" by code_simp
  have m: "NUL \<in> set ?mem" by simp
  show ?thesis using parsecmd_words [OF m p] by (simp add: substr_def)
qed

text \<open>A command after \<open>&\<close> is not parsed: only \<open>;\<close> goes on with the line, and the rest of it is a syntax error.\<close>

lemma amp_leftovers: "parsecmd (''a & b'' @ [NUL]) = Inl (Panic ''syntax'')"
  by code_simp

end
