(* ===== verification/ShLine.thy ===== *)
theory ShLine
  imports Sh
begin

section \<open>A line and its last character\<close>

text \<open>
  The lines that \<open>main\<close> parses end in a newline. Here \<open>b @ [c]\<close>, for a character \<open>c\<close> of \<open>whitespace\<close>, is parsed as \<open>b\<close> is:
  where a position at the end of \<open>b\<close> is reached, the one after \<open>c\<close> is.
\<close>

definition past :: "string \<Rightarrow> nat \<Rightarrow> nat" where
  "past b s = (if s = length b then Suc (length b) else s)"

definition same_pos :: "string \<Rightarrow> nat \<Rightarrow> nat \<Rightarrow> bool" where
  "same_pos b s s' \<longleftrightarrow> s \<le> length b \<and> (s' = s \<or> s' = past b s)"

lemma same_past: "s \<le> length b \<Longrightarrow> same_pos b s (past b s)"
  by (simp add: same_pos_def)

lemma skip_ws_le: "s \<le> length b \<Longrightarrow> skip_ws b s \<le> length b"
  by (simp add: skip_ws_def scan_while_le)

lemma skip_ws_past:
  assumes "same_pos b s s'" "c \<in> set whitespace"
  shows "skip_ws (b @ [c]) s' = past b (skip_ws b s)"
proof -
  let ?P = "\<lambda>c. c \<in> set whitespace"
  have a: "skip_ws (b @ [c]) s = past b (skip_ws b s)"
  proof -
    have "takeWhile ?P (drop s b) = drop s b \<longleftrightarrow> length (takeWhile ?P (drop s b)) = length (drop s b)"
      by (metis takeWhile_eq_take take_all_iff order_refl)
    moreover have "takeWhile ?P (drop s b @ [c]) = (if takeWhile ?P (drop s b) = drop s b then drop s b @ [c] else takeWhile ?P (drop s b))"
      using assms(2) by (auto simp: takeWhile_append takeWhile_eq_all_conv)
    ultimately show ?thesis using assms(1)
      by (auto simp: skip_ws_def scan_while_takeWhile past_def same_pos_def)
  qed
  show ?thesis
  proof (cases "s' = s")
    case False
    then have e: "s = length b" "s' = Suc (length b)" using assms(1) by (auto simp: same_pos_def past_def split: if_splits)
    have "skip_ws b (length b) = length b" "skip_ws (b @ [c]) (Suc (length b)) = Suc (length b)"
      by (rule skip_ws_stay, simp add: chr_at_def)+
    then show ?thesis unfolding e by (simp add: past_def)
  qed (use a in simp)
qed

lemma chr_past:
  assumes "q \<le> length b"
  shows "chr_at (b @ [c]) (past b q) = chr_at b q"
  using assms by (auto simp: past_def chr_at_def nth_append)

lemma peek_past:
  assumes "same_pos b s s'" "c \<in> set whitespace" "peek b s toks = (hit, s1)"
  shows "peek (b @ [c]) s' toks = (hit, past b s1) \<and> s1 \<le> length b"
proof -
  have s1: "s1 = skip_ws b s" "s1 \<le> length b" using peekD(2) [OF assms(3)] skip_ws_le assms(1) by (auto simp: same_pos_def)
  then show ?thesis using assms(3) skip_ws_past [OF assms(1,2)] chr_past [OF s1(2)] by (simp add: peek_def Let_def)
qed

lemma token_past:
  assumes c: "c \<in> set whitespace" and q: "q \<le> length b" and t: "token_at b q = (ret, eq)"
  shows "token_at (b @ [c]) (past b q) = (ret, if ret = NUL then past b eq else eq) \<and> eq \<le> length b \<and> (ret \<noteq> NUL \<longrightarrow> q < length b)"
proof (cases "q < length b")
  case False
  then have "q = length b" using q by simp
  then show ?thesis using t by (auto simp: token_at_def past_def chr_at_def)
next
  case True
  let ?P = "\<lambda>c. c \<notin> set whitespace \<and> c \<notin> set symbols"
  have p: "past b q = q" and h: "chr_at (b @ [c]) q = chr_at b q" using True by (simp_all add: past_def chr_at_def nth_append)
  have n: "(chr_at (b @ [c]) (q + 1) = CHR ''>'') = (chr_at b (q + 1) = CHR ''>'')"
    using c True by (cases "q + 1 = length b") (auto simp: chr_at_def nth_append whitespace_def)
  have "takeWhile ?P (drop q b @ [c]) = takeWhile ?P (drop q b)" using c by (simp add: takeWhile_tail)
  then have w: "scan_while ?P (b @ [c]) q = scan_while ?P b q" using True by (simp add: scan_while_takeWhile)
  have e: "token_at (b @ [c]) q = token_at b q" unfolding token_at_def Let_def h n w ..
  have "scan_while ?P b q \<le> length b" by (rule scan_while_le) (use q in simp)
  moreover have "q + 2 \<le> length b" if "chr_at b (q + 1) = CHR ''>''" using that by (auto simp: chr_at_def split: if_splits)
  ultimately have "eq \<le> length b" using t True unfolding token_at_def Let_def by (auto split: if_splits)
  moreover have "eq = q" if "ret = NUL" using t that unfolding token_at_def Let_def by (auto split: if_splits)
  ultimately show ?thesis using e t p True by (simp add: past_def)
qed

lemma gettoken_past:
  assumes s: "same_pos b s s'" and c: "c \<in> set whitespace" and g: "gettoken b s = (ret, q, eq, s1)"
  shows "gettoken (b @ [c]) s' = (ret, past b q, if ret = NUL then past b eq else eq, past b s1) \<and> s1 \<le> length b \<and>
    (ret \<noteq> NUL \<longrightarrow> past b q = q)"
proof -
  note g = gettokenD [OF g]
  have q: "q \<le> length b" using g(1) s skip_ws_le by (simp add: same_pos_def)
  note t = token_past [OF c q g(2)]
  have "same_pos b eq (if ret = NUL then past b eq else eq)" using t by (simp add: same_pos_def)
  from skip_ws_past [OF this c] show ?thesis
    using skip_ws_past [OF s c] g t skip_ws_le [of eq b] by (auto simp: gettoken_def past_def)
qed

lemma next_past:
  assumes "same_pos b s s'" "c \<in> set whitespace"
  shows "next_token (b @ [c]) s' = past b (next_token b s) \<and> next_token b s \<le> length b"
proof -
  obtain ret q eq s1 where g: "gettoken b s = (ret, q, eq, s1)" by (metis prod_cases4)
  show ?thesis using gettoken_past [OF assms g] g by (simp add: next_token_def)
qed

text \<open>The result of a parsing function with its position moved.\<close>

definition past_res :: "string \<Rightarrow> ('c \<times> nat) res \<Rightarrow> ('c \<times> nat) res" where
  "past_res b r = rbind r (\<lambda>(c, s). Inr (c, past b s))"

lemma past_res_simps [simp]: "past_res b (Inr (d, s)) = Inr (d, past b s)" "past_res b (Inl e) = Inl e"
  by (simp_all add: past_res_def)

definition reads_past :: "string \<Rightarrow> ('c \<times> nat) res \<Rightarrow> ('c \<times> nat) res \<Rightarrow> bool" where
  "reads_past b r r' \<longleftrightarrow> r' = past_res b r \<and> post r (\<lambda>(c, s). s \<le> length b)"

lemma reads_past_simps [simp]: "reads_past b (Inr (d, s)) r' \<longleftrightarrow> r' = Inr (d, past b s) \<and> s \<le> length b"
  "reads_past b (Inl e) r' \<longleftrightarrow> r' = Inl e"
  by (simp_all add: reads_past_def)

lemma reads_past_bind:
  assumes "reads_past b r r'" "\<And>d s. r = Inr (d, s) \<Longrightarrow> s \<le> length b \<Longrightarrow> reads_past b (f (d, s)) (f' (d, past b s))"
  shows "reads_past b (rbind r f) (rbind r' f')"
  using assms by (cases r) auto

lemma redirs_past:
  assumes c: "c \<in> set whitespace"
  shows "same_pos b s s' \<Longrightarrow> reads_past b (parseredirs b cmd s) (parseredirs (b @ [c]) cmd s')"
proof (induction "length b - s" arbitrary: cmd s s' rule: less_induct)
  case less
  obtain hit s1 where p: "peek b s ''<>'' = (hit, s1)" by fastforce
  note p' = peek_past [OF less.prems c p]
  note S1 = same_past [OF conjunct2 [OF p']]
  obtain tok q eq s2 where g: "gettoken b s1 = (tok, q, eq, s2)" by (metis prod_cases4)
  note g' = gettoken_past [OF S1 c g]
  note S2 = same_past [OF conjunct1 [OF conjunct2 [OF g']]]
  obtain t r e s3 where h: "gettoken b s2 = (t, r, e, s3)" by (metis prod_cases4)
  note h' = gettoken_past [OF S2 c h]
  note S3 = same_past [OF conjunct1 [OF conjunct2 [OF h']]]
  show ?case
  proof (cases "hit \<and> t = CHR ''a''")
    case True
    have "length b - s3 < length b - s" using peek_gettoken [of b s "''<>''" s1, OF _ g] p True gettoken_ge [OF h] by simp
    from less.hyps [OF this S3] show ?thesis using True p p' g g' h h'
      by (simp add: parseredirs.simps [of b] parseredirs.simps [of "b @ [c]"])
  next
    case False
    then show ?thesis using p p' g g' h h'
      by (cases hit) (simp_all add: parseredirs.simps [of b cmd s] parseredirs.simps [of "b @ [c]" cmd s'])
  qed
qed

lemma args_past:
  assumes c: "c \<in> set whitespace"
  shows "same_pos b s s' \<Longrightarrow> reads_past b (parse_args b ret argc s) (parse_args (b @ [c]) ret argc s')"
proof (induction "MAXARGS - argc" arbitrary: ret argc s s' rule: less_induct)
  case less
  obtain hit s1 where p: "peek b s ''|)&;'' = (hit, s1)" by fastforce
  note p' = peek_past [OF less.prems c p]
  note S1 = same_past [OF conjunct2 [OF p']]
  obtain tok q eq s2 where g: "gettoken b s1 = (tok, q, eq, s2)" by (metis prod_cases4)
  note g' = gettoken_past [OF S1 c g]
  note S2 = same_past [OF conjunct1 [OF conjunct2 [OF g']]]
  show ?case
  proof (cases "\<not> hit \<and> tok = CHR ''a'' \<and> argc + 1 < MAXARGS")
    case True
    have "reads_past b (rbind (parseredirs b (add_arg (q, eq) ret) s2) (\<lambda>(ret, s). parse_args b ret (argc + 1) s))
        (rbind (parseredirs (b @ [c]) (add_arg (q, eq) ret) (past b s2)) (\<lambda>(ret, s). parse_args (b @ [c]) ret (argc + 1) s))"
      by (rule reads_past_bind [OF redirs_past [OF c S2]]) (use True in \<open>auto intro!: less.hyps same_past\<close>)
    then show ?thesis using True p p' g g'
      by (simp add: parse_args.simps [of b ret argc s] parse_args.simps [of "b @ [c]" ret argc s'])
  next
    case False
    then show ?thesis using p p' g g'
      by (cases hit; cases "tok = NUL") (auto simp: parse_args.simps [of b ret argc s] parse_args.simps [of "b @ [c]" ret argc s'])
  qed
qed

lemma back_past:
  assumes c: "c \<in> set whitespace"
  shows "same_pos b s s' \<Longrightarrow> back_loop b cmd s = (d, s1) \<Longrightarrow> back_loop (b @ [c]) cmd s' = (d, past b s1) \<and> s1 \<le> length b"
proof (induction "length b - s" arbitrary: cmd s s' rule: less_induct)
  case less
  obtain hit s2 where p: "peek b s ''&'' = (hit, s2)" by fastforce
  note p' = peek_past [OF less.prems(1) c p]
  note S2 = same_past [OF conjunct2 [OF p']]
  note n' = next_past [OF S2 c]
  show ?case
  proof (cases hit)
    case True
    have "length b - next_token b s2 < length b - s" using peek_next [of b s "''&''" s2] p True by simp
    from less.hyps [OF this same_past [OF conjunct2 [OF n']]] show ?thesis using less.prems(2) p p' n' True
      by (simp add: back_loop.simps [of b cmd s] back_loop.simps [of "b @ [c]" cmd s'])
  next
    case False
    then show ?thesis using less.prems(2) p p'
      by (auto simp: back_loop.simps [of b cmd s] back_loop.simps [of "b @ [c]" d s'])
  qed
qed

lemma parts_past:
  assumes c: "c \<in> set whitespace"
  shows "a = b \<Longrightarrow> same_pos b s s' \<Longrightarrow> reads_past b (parseline a s) (parseline (b @ [c]) s')"
    and "a = b \<Longrightarrow> same_pos b s s' \<Longrightarrow> reads_past b (parsepipe a s) (parsepipe (b @ [c]) s')"
    and "a = b \<Longrightarrow> same_pos b s s' \<Longrightarrow> reads_past b (parseexec a s) (parseexec (b @ [c]) s')"
    and "a = b \<Longrightarrow> same_pos b s s' \<Longrightarrow> reads_past b (parseblock a s) (parseblock (b @ [c]) s')"
proof (induction a s and a s and a s and a s arbitrary: s' and s' and s' and s' rule: parseline_parsepipe_parseexec_parseblock.induct)
  case (1 a s)
  note b = 1(3)
  show ?case unfolding parseline.simps [of a s] parseline.simps [of "b @ [c]" s']
  proof (rule reads_past_bind [OF 1(1) [OF b 1(4)]], unfold prod.case)
    fix d s1 assume r: "parsepipe a s = Inr (d, s1)" "s1 \<le> length b"
    obtain e s2 where l: "back_loop a d s1 = (e, s2)" by fastforce
    note l' = back_past [OF c same_past [OF r(2)] l [unfolded b]]
    obtain hit s3 where p: "peek a s2 '';'' = (hit, s3)" by fastforce
    note p' = peek_past [OF same_past [OF conjunct2 [OF l']] c p [unfolded b]]
    note n' = next_past [OF same_past [OF conjunct2 [OF p']] c]
    show "reads_past b (let (cmd, s) = back_loop a d s1; (hit, s) = peek a s '';''
        in if hit then let s = next_token a s in rbind (parseline a s) (\<lambda>(right, s). Inr (LIST cmd right, s)) else Inr (cmd, s))
      (let (cmd, s) = back_loop (b @ [c]) d (past b s1); (hit, s) = peek (b @ [c]) s '';''
        in if hit then let s = next_token (b @ [c]) s in rbind (parseline (b @ [c]) s) (\<lambda>(right, s). Inr (LIST cmd right, s))
           else Inr (cmd, s))"
      using l p l' p' n' 1(2) [OF r(1) refl l [symmetric] refl p [symmetric] refl _ refl b] b
      by (auto intro!: reads_past_bind simp: same_past)
  qed
next
  case (2 a s)
  note b = 2(3)
  show ?case unfolding parsepipe.simps [of a s] parsepipe.simps [of "b @ [c]" s']
  proof (rule reads_past_bind [OF 2(1) [OF b 2(4)]], unfold prod.case)
    fix d s1 assume r: "parseexec a s = Inr (d, s1)" "s1 \<le> length b"
    obtain hit s3 where p: "peek a s1 ''|'' = (hit, s3)" by fastforce
    note p' = peek_past [OF same_past [OF r(2)] c p [unfolded b]]
    note n' = next_past [OF same_past [OF conjunct2 [OF p']] c]
    show "reads_past b (let (hit, s) = peek a s1 ''|''
        in if hit then let s = next_token a s in rbind (parsepipe a s) (\<lambda>(right, s). Inr (PIPE d right, s)) else Inr (d, s))
      (let (hit, s) = peek (b @ [c]) (past b s1) ''|''
        in if hit then let s = next_token (b @ [c]) s in rbind (parsepipe (b @ [c]) s) (\<lambda>(right, s). Inr (PIPE d right, s))
           else Inr (d, s))"
      using p p' n' 2(2) [OF r(1) refl p [symmetric] refl _ refl b] b by (auto intro!: reads_past_bind simp: same_past)
  qed
next
  case (3 a s)
  note b = 3(2)
  obtain hit s1 where p: "peek a s ''('' = (hit, s1)" by fastforce
  note p' = peek_past [OF 3(3) c p [unfolded b]]
  note S1 = same_past [OF conjunct2 [OF p']]
  have "reads_past b (rbind (parseredirs b (EXEC []) s1) (\<lambda>(ret, s). parse_args b ret 0 s))
      (rbind (parseredirs (b @ [c]) (EXEC []) (past b s1)) (\<lambda>(ret, s). parse_args (b @ [c]) ret 0 s))"
    by (rule reads_past_bind [OF redirs_past [OF c S1]]) (auto intro!: args_past [OF c] same_past)
  then show ?case using 3(1) [OF p [symmetric] refl _ b S1] p p' b
    by (cases hit) (auto simp: parseexec.simps [of b s] parseexec.simps [of "b @ [c]" s'])
next
  case (4 a s)
  note b = 4(2)
  obtain hit s1 where p: "peek a s ''('' = (hit, s1)" by fastforce
  note p' = peek_past [OF 4(3) c p [unfolded b]]
  note n' = next_past [OF same_past [OF conjunct2 [OF p']] c]
  note S2 = same_past [OF conjunct2 [OF n']]
  have tail: "reads_past b
      (let (hit, s) = peek b s2 '')'' in
        if \<not> hit then Inl (Panic ''syntax - missing )'') else let s = next_token b s in parseredirs b d s)
      (let (hit, s) = peek (b @ [c]) (past b s2) '')'' in
        if \<not> hit then Inl (Panic ''syntax - missing )'') else let s = next_token (b @ [c]) s in parseredirs (b @ [c]) d s)"
    if "s2 \<le> length b" for d s2
  proof -
    obtain hit s3 where p: "peek b s2 '')'' = (hit, s3)" by fastforce
    note p' = peek_past [OF same_past [OF that] c p]
    note n' = next_past [OF same_past [OF conjunct2 [OF p']] c]
    show ?thesis using p p' n' redirs_past [OF c same_past [OF conjunct2 [OF n']]] by (cases hit) auto
  qed
  show ?case
  proof (cases hit)
    case True
    have "reads_past b (parseline b (next_token b s1)) (parseline (b @ [c]) (past b (next_token b s1)))"
      using 4(1) [OF p [symmetric] refl _ refl b, unfolded b, OF _ S2] True by simp
    then have "reads_past b
      (rbind (parseline b (next_token b s1)) (\<lambda>(cmd, s). let (hit, s) = peek b s '')'' in
        if \<not> hit then Inl (Panic ''syntax - missing )'') else let s = next_token b s in parseredirs b cmd s))
      (rbind (parseline (b @ [c]) (past b (next_token b s1))) (\<lambda>(cmd, s). let (hit, s) = peek (b @ [c]) s '')'' in
        if \<not> hit then Inl (Panic ''syntax - missing )'') else let s = next_token (b @ [c]) s in parseredirs (b @ [c]) cmd s))"
      by (rule reads_past_bind) (unfold prod.case, rule tail)
    then show ?thesis unfolding b parseblock.simps [of b s] parseblock.simps [of "b @ [c]" s']
      using p [unfolded b] p' n' True by simp
  next
    case False
    then show ?thesis using p p' b by (simp add: parseblock.simps [of b s] parseblock.simps [of "b @ [c]" s'])
  qed
qed

text \<open>Whole lines: one more character of \<open>whitespace\<close> at the end makes no difference to the command.\<close>

lemma parsecmd_result:
  assumes "nul_free b"
  shows "parsecmd (b @ [NUL]) = Inr (d, mem') \<longleftrightarrow> (\<exists>s. parseline b 0 = Inr (d, s) \<and> skip_ws b s = length b) \<and> mem' = nulterminate d (b @ [NUL])"
proof -
  have buf: "takeWhile (\<lambda>c. c \<noteq> NUL) (b @ [NUL]) = b" using assms by (simp add: takeWhile_append2)
  have "peek b s '''' = (False, skip_ws b s)" for s by (simp add: peek_def Let_def)
  then show ?thesis unfolding parsecmd_def buf by (cases "parseline b 0") (auto simp: Let_def split: if_splits)
qed

lemma parsecmd_past:
  assumes b: "nul_free b" and c: "c \<in> set whitespace"
  shows "(\<exists>m. parsecmd (b @ [c] @ [NUL]) = Inr (d, m)) = (\<exists>m. parsecmd (b @ [NUL]) = Inr (d, m))"
proof -
  have bc: "nul_free (b @ [c])" using b c by (auto simp: whitespace_def)
  have r: "reads_past b (parseline b 0) (parseline (b @ [c]) 0)" by (rule parts_past(1) [OF c refl]) (simp add: same_pos_def)
  have k: "(skip_ws (b @ [c]) (past b s) = Suc (length b)) = (skip_ws b s = length b)" if "s \<le> length b" for s
    using skip_ws_past [OF same_past [OF that] c] skip_ws_le [OF that] by (auto simp: past_def split: if_splits)
  show ?thesis
  proof (cases "parseline b 0")
    case (Inr x)
    obtain e s where x: "x = (e, s)" by (cases x)
    then have "parseline (b @ [c]) 0 = Inr (e, past b s)" "s \<le> length b" using r Inr by simp_all
    then show ?thesis using Inr x k parsecmd_result [OF b] parsecmd_result [OF bc] by auto
  next
    case (Inl e)
    then have "parseline (b @ [c]) 0 = Inl e" using r by simp
    then show ?thesis using Inl parsecmd_result [OF b] parsecmd_result [OF bc] by auto
  qed
qed

end
