(* ===== verification/ShRun.thy ===== *)
theory ShRun
  imports ShLine
begin

text \<open>
  What the shell (sh.c) runs: the process that \<open>runcmd\<close> becomes, as the tree of its system calls. Each call that can fail has
  both of its continuations; the descriptors of a process are computed on the way, the lowest free one taken as
  \<open>fdalloc\<close> takes it.
\<close>

section \<open>Processes\<close>

text \<open>What a descriptor can be open on; a pipe is named by the place of its \<open>PIPE\<close> in the command.\<close>

datatype fdobj =
    Given nat
  | Opened string u32
  | ReadEnd "bool list"
  | WriteEnd "bool list"

type_synonym fds = "fdobj option list"

datatype proc =
    Exited
  | Panicked string
  | Execs "string list" fds proc
  | Opens string u32 proc proc
  | Pipes proc proc
  | Forks proc proc proc
  | Waits proc

definition NOFILE :: nat where "NOFILE = 16"

definition close_fd :: "nat \<Rightarrow> fds \<Rightarrow> fds" where
  "close_fd fd fds = fds[fd := None]"

definition new_fd :: "fdobj \<Rightarrow> fds \<Rightarrow> (nat \<times> fds) option" where
  "new_fd x fds = map_option (\<lambda>fd. (fd, fds[fd := Some x])) (first_index (\<lambda>y. y = None) fds)"

text \<open>The result of \<open>dup\<close> is not looked at.\<close>

definition dup_fd :: "nat \<Rightarrow> fds \<Rightarrow> fds" where
  "dup_fd fd fds = (case fds ! fd of None \<Rightarrow> fds | Some x \<Rightarrow>
     (case new_fd x fds of None \<Rightarrow> fds | Some (_, fds') \<Rightarrow> fds'))"

section \<open>Running a command\<close>

text \<open>\<open>fork1\<close>: the child, the parent, and the panic when there is no child.\<close>

definition fork1 :: "proc \<Rightarrow> proc \<Rightarrow> proc" where
  "fork1 child parent = Forks child parent (Panicked ''fork'')"

primrec runcmd :: "string cmd \<Rightarrow> bool list \<Rightarrow> fds \<Rightarrow> proc" where
  "runcmd (EXEC ws) at fds = (if ws = [] then Exited else Execs ws fds Exited)"
| "runcmd (REDIR c f mode fd) at fds =
     Opens f mode
       (case new_fd (Opened f mode) (close_fd fd fds) of None \<Rightarrow> Exited | Some (_, fds) \<Rightarrow> runcmd c at fds) Exited"
| "runcmd (LIST l r) at fds =
     fork1 (runcmd l (at @ [False]) fds) (Waits (runcmd r (at @ [True]) fds))"
| "runcmd (PIPE l r) at fds =
     (case new_fd (ReadEnd at) fds of None \<Rightarrow> Panicked ''pipe'' | Some (p0, fds0) \<Rightarrow>
      (case new_fd (WriteEnd at) fds0 of None \<Rightarrow> Panicked ''pipe'' | Some (p1, fds) \<Rightarrow>
        Pipes
          (fork1 (runcmd l (at @ [False]) (close_fd p1 (close_fd p0 (dup_fd p1 (close_fd 1 fds)))))
            (fork1 (runcmd r (at @ [True]) (close_fd p1 (close_fd p0 (dup_fd p0 (close_fd 0 fds)))))
              (Waits (Waits Exited))))
          (Panicked ''pipe'')))"
| "runcmd (BACK c) at fds = fork1 (runcmd c (at @ [False]) fds) Exited"

text \<open>
  The loop of \<open>main\<close> that opens the console until its descriptor is above the standard ones; the calls of \<open>open\<close> fail
  only when there is no free descriptor.
\<close>

function open_std :: "fdobj \<Rightarrow> fds \<Rightarrow> fds" where
  "open_std console fds = (case new_fd console fds of None \<Rightarrow> fds
     | Some (fd, fds') \<Rightarrow> if fd \<ge> 3 then close_fd fd fds' else open_std console fds')"
  by pat_completeness auto
termination
proof (relation "measure (\<lambda>(console, fds). length (filter (\<lambda>y. y = None) fds))", simp, goal_cases)
  case (1 console fds a fd fds')
  then have a: "fd < length fds" "fds ! fd = None" "fds' = fds[fd := Some console]"
    by (auto simp: new_fd_def dest: first_index_Some)
  have f: "take fd fds @ None # drop (Suc fd) fds = fds" using id_take_nth_drop [OF a(1)] a(2) by simp
  have "length (filter (\<lambda>y. y = None) (take fd fds @ None # drop (Suc fd) fds)) =
      length (filter (\<lambda>y. y = None) (take fd fds)) + 1 + length (filter (\<lambda>y. y = None) (drop (Suc fd) fds))"
    by simp
  then have "length (filter (\<lambda>y. y = None) fds) =
      length (filter (\<lambda>y. y = None) (take fd fds)) + 1 + length (filter (\<lambda>y. y = None) (drop (Suc fd) fds))"
    unfolding f .
  then show ?case using a(1,3) by (simp add: upd_conv_take_nth_drop)
qed

declare open_std.simps [simp del]

text \<open>A word of the parsed command is the C string that its pointer points to.\<close>

definition cstr_at :: "string \<Rightarrow> word \<Rightarrow> string" where
  "cstr_at mem w = takeWhile (\<lambda>c. c \<noteq> NUL) (drop (fst w) mem)"

datatype line_action = Chdir string | Child proc

text \<open>A line of \<open>main\<close>: a change of the directory, of which the newline at the end is chopped off, or a child.\<close>

definition run_line :: "string \<Rightarrow> fds \<Rightarrow> line_action" where
  "run_line mem fds =
     (if chr_at mem 0 = CHR ''c'' \<and> chr_at mem 1 = CHR ''d'' \<and> chr_at mem 2 = CHR '' '' then
        let mem = mem[length (takeWhile (\<lambda>c. c \<noteq> NUL) mem) - 1 := NUL] in Chdir (cstr_at mem (3, 3))
      else Child (case parsecmd mem of
          Inl e \<Rightarrow> (case e of Panic s \<Rightarrow> Panicked s | _ \<Rightarrow> Exited)
        | Inr (c, mem) \<Rightarrow> runcmd (map_cmd (cstr_at mem) c) [] fds))"

section \<open>What the line means\<close>

text \<open>The programs that are started when no call fails, each with its descriptors.\<close>

primrec started :: "proc \<Rightarrow> (string list \<times> fds) list" where
  "started Exited = []"
| "started (Panicked s) = []"
| "started (Execs ws fds k) = [(ws, fds)]"
| "started (Opens f mode ok bad) = started ok"
| "started (Pipes ok bad) = started ok"
| "started (Forks child parent bad) = started child @ started parent"
| "started (Waits k) = started k"

text \<open>The programs that may be started, whichever calls fail.\<close>

primrec may_start :: "proc \<Rightarrow> (string list \<times> fds) set" where
  "may_start Exited = {}"
| "may_start (Panicked s) = {}"
| "may_start (Execs ws fds k) = insert (ws, fds) (may_start k)"
| "may_start (Opens f mode ok bad) = may_start ok \<union> may_start bad"
| "may_start (Pipes ok bad) = may_start ok \<union> may_start bad"
| "may_start (Forks child parent bad) = may_start child \<union> may_start parent \<union> may_start bad"
| "may_start (Waits k) = may_start k"

text \<open>Standard input, output and error, and nothing else open.\<close>

definition std :: "fdobj \<Rightarrow> fdobj \<Rightarrow> fdobj \<Rightarrow> fds" where
  "std i u e = [Some i, Some u, Some e] @ replicate (NOFILE - 3) None"

text \<open>The programs of a command, with what their input and output are.\<close>

primrec meaning :: "string cmd \<Rightarrow> bool list \<Rightarrow> fdobj \<Rightarrow> fdobj \<Rightarrow> fdobj \<Rightarrow> (string list \<times> fds) list" where
  "meaning (EXEC ws) at i u e = (if ws = [] then [] else [(ws, std i u e)])"
| "meaning (REDIR c f mode fd) at i u e =
     (if fd = 0 then meaning c at (Opened f mode) u e else meaning c at i (Opened f mode) e)"
| "meaning (LIST l r) at i u e = meaning l (at @ [False]) i u e @ meaning r (at @ [True]) i u e"
| "meaning (PIPE l r) at i u e =
     meaning l (at @ [False]) i (WriteEnd at) e @ meaning r (at @ [True]) (ReadEnd at) u e"
| "meaning (BACK c) at i u e = meaning c (at @ [False]) i u e"

lemma std_list: "std i u e = [Some i, Some u, Some e, None, None, None, None, None, None, None, None, None, None, None, None, None]"
  by (simp add: std_def NOFILE_def numeral_eq_Suc)

lemma redirect_std:
  "new_fd x (close_fd 0 (std i u e)) = Some (0, std x u e)"
  "new_fd x (close_fd (Suc 0) (std i u e)) = Some (1, std i x e)"
  by (simp_all add: new_fd_def close_fd_def std_list)
text \<open>The two ends are descriptors 3 and 4; in each child they are closed once one of them has become 0 or 1.\<close>

lemma pipe_std:
  "\<exists>f0 f1. new_fd (ReadEnd p) (std i u e) = Some (3, f0) \<and> new_fd (WriteEnd p) f0 = Some (4, f1) \<and>
    close_fd 4 (close_fd 3 (dup_fd 4 (close_fd (Suc 0) f1))) = std i (WriteEnd p) e \<and>
    close_fd 4 (close_fd 3 (dup_fd 3 (close_fd 0 f1))) = std (ReadEnd p) u e"
  by (simp add: new_fd_def close_fd_def dup_fd_def std_list)

lemma runcmd_REDIR_std [simp]:
  "fd = 0 \<or> fd = 1 \<Longrightarrow> runcmd (REDIR c f mode fd) at (std i u e) =
    Opens f mode (runcmd c at (if fd = 0 then std (Opened f mode) u e else std i (Opened f mode) e)) Exited"
  by (auto simp: redirect_std)

lemma runcmd_PIPE_std [simp]:
  "runcmd (PIPE l r) at (std i u e) =
    Pipes (fork1 (runcmd l (at @ [False]) (std i (WriteEnd at) e))
      (fork1 (runcmd r (at @ [True]) (std (ReadEnd at) u e)) (Waits (Waits Exited)))) (Panicked ''pipe'')"
  using pipe_std [of at i u e] by auto

declare runcmd.simps(2,4) [simp del]

lemma started_runcmd: "wf_cmd c \<Longrightarrow> started (runcmd c at (std i u e)) = meaning c at i u e"
  by (induction c arbitrary: at i u) (auto simp: fork1_def)

text \<open>
  When no call fails, a command of the grammar starts exactly the programs it means, in order: each redirection and
  each pipe end is at the descriptor it was written for, and no other descriptor is open in any of them.
\<close>

theorem runcmd_meaning:
  assumes "wf_cmd c"
  shows "started (runcmd c at (std i u e)) = meaning c at i u e"
  by (rule started_runcmd [OF assms])

text \<open>
  C14. Whichever calls fail, a program that is started has its three standard descriptors open, its standard error is the
  shell's, and it holds no other descriptor: no end of a pipe leaks into it.
\<close>

theorem runcmd_no_leaks:
  assumes "wf_cmd c" and "(ws, fds) \<in> may_start (runcmd c at (std i u e))"
  shows "ws \<noteq> [] \<and> (\<exists>i' u'. fds = std i' u' e)"
  using assms by (induction c arbitrary: at i u) (auto simp: fork1_def split: if_splits)

text \<open>A pipeline is a nest of pipes to the right.\<close>

fun pipeline :: "string list list \<Rightarrow> string cmd" where
  "pipeline [] = EXEC []"
| "pipeline [ws] = EXEC ws"
| "pipeline (ws # wss) = PIPE (EXEC ws) (pipeline wss)"

lemma pipeline_meaning:
  assumes "\<forall>ws\<in>set wss. ws \<noteq> []" and "n < length wss"
  shows "meaning (pipeline wss) at i u e ! n = (wss ! n,
    std (if n = 0 then i else ReadEnd (at @ replicate (n - 1) True))
      (if n = length wss - 1 then u else WriteEnd (at @ replicate n True)) e)"
  using assms
proof (induction wss arbitrary: at i n rule: pipeline.induct)
  case (3 ws v vs)
  show ?case
  proof (cases n)
    case (Suc k)
    then have "meaning (pipeline (ws # v # vs)) at i u e ! n = meaning (pipeline (v # vs)) (at @ [True]) (ReadEnd at) u e ! k"
      using "3.prems"(1) by simp
    also have "\<dots> = ((v # vs) ! k, std (if k = 0 then ReadEnd at else ReadEnd ((at @ [True]) @ replicate (k - 1) True))
        (if k = length (v # vs) - 1 then u else WriteEnd ((at @ [True]) @ replicate k True)) e)"
      by (rule "3.IH") (use "3.prems" Suc in auto)
    finally show ?thesis using Suc by (cases k) auto
  qed (use "3.prems" in simp)
qed simp_all

text \<open>
  In a pipeline of commands every program reads from the pipe before it and writes to the pipe after it, the first from
  the shell's input and the last to its output.
\<close>

theorem pipeline_wired:
  assumes "\<forall>ws\<in>set wss. ws \<noteq> [] \<and> length ws < MAXARGS \<and> list_all is_word ws" and "n < length wss"
  shows "started (runcmd (pipeline wss) [] (std i u e)) ! n = (wss ! n,
    std (if n = 0 then i else ReadEnd (replicate (n - 1) True))
      (if n = length wss - 1 then u else WriteEnd (replicate n True)) e)"
proof -
  have "wf_cmd (pipeline wss)" using assms(1) by (induction wss rule: pipeline.induct) (auto simp: MAXARGS_def)
  then have "started (runcmd (pipeline wss) [] (std i u e)) = meaning (pipeline wss) [] i u e"
    by (rule started_runcmd)
  then show ?thesis using pipeline_meaning [of wss n "[]" i u e] assms by simp
qed

section \<open>A line of input\<close>

lemma map_cmd_cong_set: "(\<And>w. w \<in> set_cmd c \<Longrightarrow> f w = g w) \<Longrightarrow> map_cmd f c = map_cmd g c"
  by (rule cmd.map_cong) simp_all

definition newline :: char where "newline = CHR 0x0A"

lemma newline_ws: "newline \<in> set whitespace" "CHR '' '' \<in> set whitespace"
  by (simp_all add: newline_def whitespace_def)

lemma substr_longer: "maximal b w \<Longrightarrow> substr (b @ x) w = substr b w"
  by (simp add: substr_def maximal_def)

lemma parsed_line:
  assumes "nul_free b" "parsecmd (b @ [NUL]) = Inr (c, m)"
  shows "parsed b c"
proof -
  have "takeWhile (\<lambda>c. c \<noteq> NUL) (b @ [NUL]) = b" using assms(1) by (simp add: takeWhile_append2)
  then show ?thesis using parsecmd_parsed [OF assms(2)] by simp
qed

text \<open>A line that is parsed without its newline is run with it; the words are those of the line.\<close>

lemma run_parsed:
  assumes b: "nul_free b" and p: "parsecmd (b @ [NUL]) = Inr (c, m)" and cd: "take 3 b \<noteq> ''cd ''"
  shows "run_line (b @ [newline, NUL]) fds = Child (runcmd (map_cmd (substr b) c) [] fds)"
proof -
  let ?mem = "(b @ [newline]) @ [NUL]"
  have bn: "nul_free (b @ [newline])" using b by (simp add: newline_def)
  obtain m' where m': "parsecmd ?mem = Inr (c, m')" using parsecmd_past [OF b newline_ws(1)] p by fastforce
  then have n: "m' = nulterminate c ?mem" using parsecmd_result [OF bn] by blast
  have mx: "\<forall>w\<in>set_cmd c. maximal b w" "\<forall>w\<in>set_cmd c. maximal (b @ [newline]) w"
    using parsed_line [OF b p] parsed_line [OF bn m'] by (simp_all add: parsed_def)
  have "cstr_at m' w = substr b w" if "w \<in> set_cmd c" for w
  proof -
    have "cstr_at m' w = substr (b @ [newline]) w"
      unfolding cstr_at_def n by (rule nulterminate_word [OF _ mx(2) that]) simp
    then show ?thesis using substr_longer mx(1) that by simp
  qed
  then have "map_cmd (cstr_at m') c = map_cmd (substr b) c" by (rule map_cmd_cong_set)
  moreover have "\<not> (chr_at ?mem 0 = CHR ''c'' \<and> chr_at ?mem 1 = CHR ''d'' \<and> chr_at ?mem 2 = CHR '' '')"
    using cd by (cases b; cases "tl b"; cases "tl (tl b)") (auto simp: chr_at_def nth_append newline_def)
  ultimately show ?thesis using m' by (auto simp: run_line_def)
qed

text \<open>
  C13. A command that is typed as a line, printed with the last space or without it and ended by the newline that \<open>gets\<close>
  leaves, is run by a child that starts the programs the command means; the strings it gives them are read back through
  the terminators that \<open>nulterminate\<close> has written into the line. A line that starts with \<open>cd\<close> and a space changes the
  directory to the rest of it, without the newline.
\<close>

theorem line_runs:
  assumes "wf_cmd t" and "b = print t \<or> b @ '' '' = print t" and "nul_free d"
  shows "(take 3 b \<noteq> ''cd '' \<longrightarrow>
      (\<exists>p. run_line (b @ [newline, NUL]) (std i u e) = Child p \<and> started p = meaning t [] i u e))
    \<and> run_line (''cd '' @ d @ [newline, NUL]) (std i u e) = Chdir d"
proof (intro conjI impI)
  obtain c where c: "parsecmd (print t @ [NUL]) = Inr (c, nulterminate c (print t @ [NUL]))" "map_cmd (substr (print t)) c = t"
    using parsecmd_of_print [OF assms(1)] by blast
  have b: "nul_free b" using print_nul_free [OF assms(1)] assms(2) by (metis UnCI set_append)
  obtain m where m: "parsecmd (b @ [NUL]) = Inr (c, m)"
    using assms(2) c(1) parsecmd_past [OF b newline_ws(2)] by (metis append_assoc)
  have "\<forall>w\<in>set_cmd c. maximal b w" using parsed_line [OF b m] by (simp add: parsed_def)
  then have "substr (print t) w = substr b w" if "w \<in> set_cmd c" for w using that substr_longer assms(2) by metis
  then have t: "map_cmd (substr b) c = t" using c(2) by (metis map_cmd_cong_set)
  assume "take 3 b \<noteq> ''cd ''"
  from run_parsed [OF b m this, of "std i u e"] show "\<exists>p. run_line (b @ [newline, NUL]) (std i u e) = Child p \<and> started p = meaning t [] i u e"
    unfolding t using started_runcmd [OF assms(1)] by blast
next
  let ?l = "''cd '' @ d @ [newline, NUL]"
  have w: "takeWhile (\<lambda>c. c \<noteq> NUL) ?l = ''cd '' @ d @ [newline]" using assms(3) by (simp add: newline_def takeWhile_append2)
  have "?l[length (takeWhile (\<lambda>c. c \<noteq> NUL) ?l) - 1 := NUL] = ''cd '' @ d @ [NUL, NUL]"
    unfolding w by (simp add: list_update_append)
  then show "run_line ?l (std i u e) = Chdir d"
    using assms(3) by (simp add: run_line_def cstr_at_def chr_at_def Let_def takeWhile_append2)
qed

theorem line_runs_witness:
  "(\<exists>p. run_line (''cat < in | wc > out'' @ [newline, NUL]) (std (Given 0) (Given 1) (Given 2)) = Child p \<and>
    started p = [([''cat''], std (Opened ''in'' O_RDONLY) (WriteEnd []) (Given 2)),
      ([''wc''], std (ReadEnd []) (Opened ''out'' (O_WRONLY OR O_CREATE)) (Given 2))]) \<and>
    run_line (''cd '' @ ''dir'' @ [newline, NUL]) (std (Given 0) (Given 1) (Given 2)) = Chdir ''dir''"
proof -
  let ?t = "PIPE (REDIR (EXEC [''cat'']) ''in'' O_RDONLY 0) (REDIR (EXEC [''wc'']) ''out'' (O_WRONLY OR O_CREATE) 1)"
  have w: "wf_cmd ?t" by code_simp
  have b: "''cat < in | wc > out'' = print ?t \<or> ''cat < in | wc > out'' @ '' '' = print ?t" by (simp add: paren_def)
  have d: "nul_free ''dir''" by simp
  show ?thesis using line_runs [OF w b d, of "Given 0" "Given 1" "Given 2"] by simp
qed

theorem runcmd_no_leaks_witness:
  "\<exists>i' u'. std (ReadEnd []) (Given 1) (Given 2) = std i' u' (Given 2)"
proof -
  let ?t = "PIPE (EXEC [''cat'']) (EXEC [''wc''])"
  have w: "wf_cmd ?t" by code_simp
  have m: "([''wc''], std (ReadEnd []) (Given 1) (Given 2)) \<in> may_start (runcmd ?t [] (std (Given 0) (Given 1) (Given 2)))"
    by (simp add: fork1_def)
  show ?thesis using runcmd_no_leaks [OF w m] by simp
qed

text \<open>After the loop at the start of \<open>main\<close> the three standard descriptors are open, and nothing that was open has moved.\<close>

lemma new_fd_Some:
  assumes "new_fd x fds = Some (fd, fds')"
  shows "fd < length fds" "fds ! fd = None" "\<forall>j<fd. fds ! j \<noteq> None" "fds' = fds[fd := Some x]"
  using assms by (auto simp: new_fd_def dest: first_index_Some)

lemma open_std_std:
  "length fds = NOFILE \<Longrightarrow>
    (\<forall>i<3. open_std console fds ! i \<noteq> None) \<and>
    (\<forall>i<NOFILE. 3 \<le> i \<or> fds ! i \<noteq> None \<longrightarrow> open_std console fds ! i = fds ! i)"
proof (induction console fds rule: open_std.induct)
  case (1 console fds)
  show ?case
  proof (cases "new_fd console fds")
    case None
    then have "\<forall>y\<in>set fds. y \<noteq> None" by (auto simp: new_fd_def first_index_None)
    then show ?thesis using None "1.prems" by (subst (1 2) open_std.simps) (auto simp: NOFILE_def intro: nth_mem)
  next
    case (Some p)
    obtain fd fds' where p: "p = (fd, fds')" by fastforce
    note s = new_fd_Some [OF Some [unfolded p]]
    show ?thesis
    proof (cases "fd \<ge> 3")
      case True
      then have "open_std console fds = fds" using Some p s by (subst open_std.simps) (simp add: close_fd_def list_update_same_conv)
      then show ?thesis using True s(3) by auto
    next
      case False
      then have "open_std console fds = open_std console fds'" using Some p by (subst open_std.simps) simp
      moreover have "length fds' = NOFILE" using s(4) "1.prems" by simp
      moreover have "fds' ! i = fds ! i" if "3 \<le> i \<or> fds ! i \<noteq> None" for i
        using that False s by (cases "i = fd") auto
      ultimately show ?thesis using "1.IH" [OF Some p [symmetric]] False p s by (metis option.discI)
    qed
  qed
qed

end
