(* ===== verification/Printf.thy ===== *)
theory Printf
  imports CString
begin

text \<open>
  Formatted output: \<open>printint\<close> and \<open>printf\<close> of the user library with the field width that the date
  command needs (printf.c of syscall/date), and \<open>printint\<close> of the kernel console (console.c). The 16 bytes of
  \<open>buf\<close> are the list filled so far; a write past them is \<open>Fault\<close>. The output is the string of the calls of \<open>putc\<close>.
\<close>

section \<open>Numbers\<close>

definition digits :: string where "digits = ''0123456789ABCDEF''"
definition digits_lower :: string where "digits_lower = ''0123456789abcdef''"

definition BUFSZ :: nat where "BUFSZ = 16"

definition store :: "char \<Rightarrow> string \<Rightarrow> string res" where
  "store c buf = (if length buf < BUFSZ then Inr (buf @ [c]) else Inl Fault)"

lemma store_Inr: "store c buf = Inr buf' \<longleftrightarrow> length buf < BUFSZ \<and> buf' = buf @ [c]"
  by (auto simp: store_def)

declare rbind_fcong [fundef_cong]

text \<open>The division by 0 of a base 0 is a fault; the buffer bounds the number of rounds.\<close>

function digit_loop :: "string \<Rightarrow> u32 \<Rightarrow> u32 \<Rightarrow> string \<Rightarrow> string res" where
  "digit_loop tab base x buf =
     (if base = 0 then Inl Fault
      else rbind (store (tab ! unat (x mod base)) buf) (\<lambda>buf.
        if x div base = 0 then Inr buf else digit_loop tab base (x div base) buf))"
  by pat_completeness auto
termination
  by (relation "measure (\<lambda>(tab, base, x, buf). BUFSZ - length buf)") (auto simp: store_Inr)

declare digit_loop.simps [simp del]

function pad_loop :: "int \<Rightarrow> string \<Rightarrow> string res" where
  "pad_loop len buf = (if int (length buf) < len then rbind (store (CHR ''0'') buf) (pad_loop len) else Inr buf)"
  by pat_completeness auto
termination
  by (relation "measure (\<lambda>(len, buf). BUFSZ - length buf)") (auto simp: store_Inr)

declare pad_loop.simps [simp del]

text \<open>\<open>-xx\<close> wraps around for the smallest number, which is its own absolute value as an unsigned one.\<close>

definition printint :: "u32 \<Rightarrow> u32 \<Rightarrow> bool \<Rightarrow> u32 \<Rightarrow> string res" where
  "printint xx base sg len =
     (let neg = sg \<and> xx <s 0; x = (if neg then - xx else xx) in
      rbind (digit_loop digits base x []) (\<lambda>buf.
      rbind (pad_loop (sint len - of_bool neg) buf) (\<lambda>buf.
      rbind (if neg then store (CHR ''-'') buf else Inr buf) (\<lambda>buf. Inr (rev buf)))))"

definition cons_printint :: "u32 \<Rightarrow> u32 \<Rightarrow> bool \<Rightarrow> string res" where
  "cons_printint xx base sign =
     (let sign = sign \<and> xx <s 0; x = (if sign then - xx else xx) in
      rbind (digit_loop digits_lower base x []) (\<lambda>buf.
      rbind (if sign then store (CHR ''-'') buf else Inr buf) (\<lambda>buf. Inr (rev buf))))"

section \<open>Formats\<close>

text \<open>\<open>readint\<close>: the number at the start of the format and how many characters it has.\<close>

fun readint :: "string \<Rightarrow> u32 \<Rightarrow> nat \<times> u32" where
  "readint [] l = (0, l)"
| "readint (c # s) l =
     (if CHR ''0'' \<le> c \<and> c \<le> CHR ''9''
      then (let (i, l) = readint s (l * 10 + of_char c - of_char CHR ''0'') in (Suc i, l)) else (0, l))"

lemma readint_le: "fst (readint s l) \<le> length s"
  by (induction s arbitrary: l) (auto simp: split_beta)

text \<open>
  The arguments are words; \<open>str\<close> gives the C string at an address. Reading past the arguments is a fault. The state
  \<open>pct\<close> is \<open>'%'\<close> after a percent sign.
\<close>

definition next_arg :: "u32 list \<Rightarrow> (u32 \<times> u32 list) res" where
  "next_arg args = (case args of [] \<Rightarrow> Inl Fault | a # args \<Rightarrow> Inr (a, args))"

definition emit :: "string \<Rightarrow> string res \<Rightarrow> string res" where
  "emit s r = rbind r (\<lambda>rest. Inr (s @ rest))"

function printf :: "(u32 \<Rightarrow> string) \<Rightarrow> string \<Rightarrow> bool \<Rightarrow> u32 \<Rightarrow> u32 list \<Rightarrow> string res" where
  "printf str [] pct len args = Inr []"
| "printf str (c # fmt) pct len args =
     (if \<not> pct then
        (if c = CHR ''%'' then printf str fmt True 0 args else emit [c] (printf str fmt False len args))
      else if c = CHR ''0'' then
        (let (i, len) = readint fmt len in printf str (drop i fmt) True len args)
      else if c = CHR ''d'' then
        rbind (next_arg args) (\<lambda>(a, args). rbind (printint a 10 True len) (\<lambda>s. emit s (printf str fmt False len args)))
      else if c = CHR ''x'' \<or> c = CHR ''p'' then
        rbind (next_arg args) (\<lambda>(a, args). rbind (printint a 16 False len) (\<lambda>s. emit s (printf str fmt False len args)))
      else if c = CHR ''s'' then
        rbind (next_arg args) (\<lambda>(a, args).
          emit (if a = 0 then ''(null)'' else str a) (printf str fmt False len args))
      else if c = CHR ''c'' then
        rbind (next_arg args) (\<lambda>(a, args). emit [char_of (unat (a AND 0xFF))] (printf str fmt False len args))
      else if c = CHR ''%'' then emit [c] (printf str fmt False len args)
      else emit [CHR ''%'', c] (printf str fmt False len args))"
  by pat_completeness auto
termination
  by (relation "measure (\<lambda>(str, fmt, pct, len, args). length fmt)") auto

section \<open>What is printed\<close>

text \<open>The digits of a number, the lowest first.\<close>

fun nat_digits :: "nat \<Rightarrow> nat \<Rightarrow> nat list" where
  "nat_digits b n = (if n < b \<or> b < 2 then [n] else n mod b # nat_digits b (n div b))"

declare nat_digits.simps [simp del]

definition numeral_of :: "string \<Rightarrow> nat \<Rightarrow> nat \<Rightarrow> string" where
  "numeral_of tab b n = rev (map (\<lambda>d. tab ! d) (nat_digits b n))"

lemma nat_digits_bound:
  assumes "2 \<le> b" and "n < b ^ Suc k"
  shows "length (nat_digits b n) \<le> Suc k"
  using assms(2)
proof (induction k arbitrary: n)
  case (Suc k)
  have "n div b < b ^ Suc k" using Suc.prems assms(1) by (simp add: less_mult_imp_div_less mult.commute)
  then show ?case using Suc.IH by (subst nat_digits.simps) simp
qed (subst nat_digits.simps, simp)

lemma nat_digits_length_pos: "0 < length (nat_digits b n)"
  by (subst nat_digits.simps) simp

lemma digit_loop_digits:
  assumes b: "2 \<le> unat base"
  shows "digit_loop tab base x buf =
    (let ds = nat_digits (unat base) (unat x) in
     if length buf + length ds \<le> BUFSZ then Inr (buf @ map (\<lambda>d. tab ! d) ds) else Inl Fault)"
proof (induction "unat x" arbitrary: x buf rule: less_induct)
  case less
  have nz: "base \<noteq> 0" using b by auto
  have u: "unat (x mod base) = unat x mod unat base" "unat (x div base) = unat x div unat base"
    by (simp_all add: unat_mod unat_div)
  show ?case
  proof (cases "unat x < unat base")
    case True
    then have z: "x div base = 0" using u(2) by (simp add: unat_eq_zero [symmetric] del: unat_eq_zero)
    have d: "nat_digits (unat base) (unat x) = [unat x]" using True by (subst nat_digits.simps) simp
    show ?thesis using True by (subst digit_loop.simps) (simp add: nz z d u(1) store_def Let_def)
  next
    case False
    then have nz2: "x div base \<noteq> 0" using u(2) b by (simp add: unat_eq_zero [symmetric] div_eq_0_iff del: unat_eq_zero)
    have lt: "unat (x div base) < unat x" unfolding u(2) using False b by (intro div_less_dividend) auto
    have d: "nat_digits (unat base) (unat x) = unat x mod unat base # nat_digits (unat base) (unat (x div base))"
      unfolding u(2) using False b by (subst nat_digits.simps) simp
    show ?thesis using nat_digits_length_pos [of "unat base" "unat (x div base)"]
      by (subst digit_loop.simps) (simp add: nz nz2 d u(1) store_def Let_def less.hyps [OF lt])
  qed
qed

lemma pad_loop_pads:
  assumes "length buf \<le> BUFSZ"
  shows "pad_loop len buf = (if len \<le> int BUFSZ then Inr (buf @ replicate (nat len - length buf) (CHR ''0'')) else Inl Fault)"
  using assms
proof (induction "BUFSZ - length buf" arbitrary: buf rule: less_induct)
  case less
  show ?case
  proof (cases "int (length buf) < len")
    case True
    show ?thesis
    proof (cases "length buf < BUFSZ")
      case True': True
      have "nat len - length buf = Suc (nat len - Suc (length buf))" using True by simp
      then show ?thesis using True True' less.hyps [of "buf @ [CHR ''0'']"]
        by (subst pad_loop.simps) (simp add: store_def replicate_app_Cons_same)
    qed (use True in \<open>subst pad_loop.simps, simp add: store_def\<close>)
  next
    case False
    then show ?thesis using less.prems by (subst pad_loop.simps) simp
  qed
qed

definition absolute :: "u32 \<Rightarrow> nat" where
  "absolute x = nat \<bar>sint x\<bar>"

lemma unat_absolute: "unat (if x <s 0 then - x else x) = absolute x"
proof (cases "x <s 0")
  case True
  then have s: "sint x < 0" by (simp add: word_sless_alt)
  have r: "- (2 ^ 31) \<le> sint x" using sint_ge [of x] by simp
  have "uint (- x) = (- sint x) mod 2 ^ 32"
  proof -
    have "- x = word_of_int (- sint x)" by simp
    then show ?thesis by (simp only: uint_word_of_int) simp
  qed
  then have "uint (- x) = - sint x" using s r by simp
  then show ?thesis using True s unfolding unat_eq_nat_uint absolute_def by simp
next
  case False
  then have "0 \<le> sint x" by (simp add: word_sless_alt)
  then show ?thesis using False sint_nonneg(1) [of x] by (simp add: absolute_def)
qed

text \<open>
  The decimal form of a number, with its sign, filled up with zeros to the width.
\<close>

definition decimal :: "u32 \<Rightarrow> int \<Rightarrow> string" where
  "decimal xx len = (if sint xx < 0 then ''-'' else '''') @
     replicate (nat (len - of_bool (sint xx < 0)) - length (nat_digits 10 (absolute xx))) (CHR ''0'') @
     numeral_of digits 10 (absolute xx)"

lemma absolute_bound: "absolute xx \<le> 2 ^ 31"
  using sint_ge [of xx] sint_lt [of xx] by (simp add: absolute_def)

lemma decimal_digits_bound: "length (nat_digits 10 (absolute xx)) \<le> 10"
  using nat_digits_bound [of 10 "absolute xx" 9] absolute_bound [of xx] by simp

lemma printint_ok: "printint xx 10 True len = (if sint len \<le> int BUFSZ then Inr (decimal xx (sint len)) else Inl Fault)"
proof -
  let ?x = "if xx <s 0 then - xx else xx" and ?neg = "sint xx < 0"
  let ?ds = "nat_digits 10 (absolute xx)"
  let ?buf = "map (\<lambda>d. digits ! d) ?ds"
  let ?l = "sint len - of_bool ?neg"
  have neg: "xx <s 0 \<longleftrightarrow> ?neg" by (simp add: word_sless_alt)
  have l: "length ?ds \<le> 10" "length ?buf \<le> BUFSZ" using decimal_digits_bound [of xx] by (simp_all add: BUFSZ_def)
  have dl: "digit_loop digits 10 ?x [] = Inr ?buf"
    using l digit_loop_digits [of 10 digits ?x "[]"] unat_absolute [of xx] by (simp add: Let_def)
  have pl: "pad_loop ?l ?buf = (if ?l \<le> int BUFSZ then Inr (?buf @ replicate (nat ?l - length ?ds) (CHR ''0'')) else Inl Fault)"
    using pad_loop_pads [OF l(2), of ?l] by simp
  show ?thesis
  proof (cases ?neg)
    case True
    then show ?thesis using dl pl l(1) neg
      by (auto simp: printint_def Let_def store_def BUFSZ_def decimal_def numeral_of_def)
  next
    case False
    then show ?thesis using dl pl neg
      by (simp add: printint_def Let_def decimal_def numeral_of_def)
  qed
qed

text \<open>Reading digits back.\<close>

lemma digit_cases:
  "d < (10 :: nat) \<Longrightarrow> d = 0 \<or> d = 1 \<or> d = 2 \<or> d = 3 \<or> d = 4 \<or> d = 5 \<or> d = 6 \<or> d = 7 \<or> d = 8 \<or> d = 9"
  by arith

lemma digit_char_ok:
  assumes "d < 10"
  shows "CHR ''0'' \<le> digits ! d" "digits ! d \<le> CHR ''9''"
    "(of_char (digits ! d) :: u32) - of_char CHR ''0'' = of_nat d"
  using digit_cases [OF assms] by (elim disjE; simp add: digits_def less_eq_char_def)+

lemma atoi_digits:
  "list_all (\<lambda>d. d < 10) ds \<Longrightarrow> (\<forall>c. r = [] \<or> hd r < CHR ''0'' \<or> CHR ''9'' < hd r) \<Longrightarrow>
    atoi_loop (map (\<lambda>d. digits ! d) ds @ r) n = foldl (\<lambda>n d. n * 10 + of_nat d) n ds"
proof (induction ds arbitrary: n)
  case Nil
  then show ?case by (cases r) (auto simp: not_le)
next
  case (Cons d ds)
  have d: "d < 10" using Cons.prems(1) by simp
  have e: "n * 10 + of_char (digits ! d) - of_char CHR ''0'' = n * 10 + of_nat d"
    using digit_char_ok(3) [OF d] by (simp add: add_diff_eq [symmetric] del: of_char_Char)
  show ?case using Cons.IH [of "n * 10 + of_nat d"] Cons.prems digit_char_ok(1,2) [OF d]
    by (simp add: e del: of_char_Char)
qed

lemma nat_digits_10: "list_all (\<lambda>d. d < 10) (nat_digits 10 n)"
proof (induction n rule: less_induct)
  case (less n)
  then show ?case by (subst nat_digits.simps) simp
qed

lemma nat_digits_value: "foldl (\<lambda>n d. n * 10 + of_nat d) 0 (rev (nat_digits 10 n)) = (of_nat n :: u32)"
proof (induction n rule: less_induct)
  case (less n)
  show ?case
  proof (cases "n < 10")
    case True
    then show ?thesis by (subst nat_digits.simps) simp
  next
    case False
    have "(of_nat n :: u32) = of_nat (n div 10) * 10 + of_nat (n mod 10)"
      by (metis div_mult_mod_eq of_nat_add of_nat_mult of_nat_numeral)
    then show ?thesis using False less.IH [of "n div 10"] by (subst nat_digits.simps) simp
  qed
qed

lemma leading_zeros: "foldl (\<lambda>n d. n * 10 + of_nat d) 0 (replicate k 0 @ ds) = foldl (\<lambda>n d. n * 10 + of_nat d) (0 :: u32) ds"
  by (induction k) simp_all

lemma atoi_decimal:
  "atoi (replicate k (CHR ''0'') @ numeral_of digits 10 n) = of_nat n"
proof -
  let ?ds = "replicate k 0 @ rev (nat_digits 10 n)"
  have "map (\<lambda>d. digits ! d) ?ds = replicate k (CHR ''0'') @ numeral_of digits 10 n"
    by (simp add: numeral_of_def rev_map digits_def)
  moreover have "list_all (\<lambda>d. d < 10) ?ds" using nat_digits_10 [of n] by (auto simp: list_all_iff)
  then have "atoi_loop (map (\<lambda>d. digits ! d) ?ds @ []) 0 = foldl (\<lambda>n d. n * 10 + of_nat d) 0 ?ds"
    by (rule atoi_digits) simp
  ultimately have "atoi (replicate k (CHR ''0'') @ numeral_of digits 10 n) = foldl (\<lambda>n d. n * 10 + of_nat d) 0 ?ds"
    by (simp only: atoi_def append_Nil2)
  then show ?thesis by (simp only: leading_zeros nat_digits_value)
qed

lemma of_nat_absolute: "of_nat (absolute xx) = (if sint xx < 0 then - xx else xx)"
  using arg_cong [OF unat_absolute [of xx], of "of_nat :: nat \<Rightarrow> u32"] by (simp add: word_sless_alt split: if_splits)

text \<open>
  \<open>atoi\<close> reads back what \<open>printint\<close> prints, for every number and every width of at most 16; a wider field
  runs past the buffer.
\<close>

theorem printint_atoi:
  shows "if sint len \<le> 16
    then \<exists>s. printint xx 10 True len = Inr s \<and>
      (if sint xx < 0 then hd s = CHR ''-'' \<and> atoi (tl s) = - xx else atoi s = xx)
    else printint xx 10 True len = Inl Fault"
  using atoi_decimal [of _ "absolute xx"] of_nat_absolute [of xx] by (simp add: printint_ok BUFSZ_def decimal_def)

section \<open>The date command\<close>

record rtcdate =
  second :: u32
  minute :: u32
  hour :: u32
  day :: u32
  month :: u32
  year :: u32

definition date_format :: string where
  "date_format = ''%d-%02d-%02dT%02d:%02d:%02d'' @ [CHR 0x0A]"

definition print_date :: "rtcdate \<Rightarrow> string res" where
  "print_date d = printf (\<lambda>_. []) date_format False 0 [year d, month d, day d, hour d, minute d, second d]"

definition two_digits :: "u32 \<Rightarrow> string" where
  "two_digits x = [digits ! (unat x div 10), digits ! (unat x mod 10)]"

lemma decimal_two:
  assumes "x < 100"
  shows "decimal x 2 = two_digits x"
proof -
  have u: "unat x < 100" using assms by (simp add: word_less_nat_alt)
  have s: "sint x = int (unat x)" using sint_of_nat_small [of "unat x"] u by simp
  then have a: "\<not> sint x < 0" "absolute x = unat x" by (simp_all add: absolute_def)
  have n: "unat x div 10 < 10" using u by simp
  show ?thesis
  proof (cases "unat x < 10")
    case True
    then have "nat_digits 10 (unat x) = [unat x]" by (subst nat_digits.simps) simp
    then show ?thesis using True a by (simp add: decimal_def numeral_of_def two_digits_def digits_def)
  next
    case False
    then have "nat_digits 10 (unat x) = [unat x mod 10, unat x div 10]"
      using n by (subst nat_digits.simps, subst nat_digits.simps) simp
    then show ?thesis using a by (simp add: decimal_def numeral_of_def two_digits_def)
  qed
qed

lemma print_date_lines:
  "print_date d = Inr (decimal (year d) 0 @ ''-'' @ decimal (month d) 2 @ ''-'' @ decimal (day d) 2 @ ''T'' @
     decimal (hour d) 2 @ '':'' @ decimal (minute d) 2 @ '':'' @ decimal (second d) 2 @ [CHR 0x0A])"
  by (simp add: print_date_def date_format_def next_arg_def printint_ok emit_def BUFSZ_def less_eq_char_def numeral_eq_Suc)

section \<open>The clock\<close>

text \<open>
  The real-time clock is a parameter: what register \<open>reg\<close> returns at the \<open>t\<close>-th read. Each function returns the
  time after its reads.
\<close>

type_synonym rtc = "nat \<Rightarrow> u32 \<Rightarrow> u8"

definition cmos_read :: "rtc \<Rightarrow> u32 \<Rightarrow> nat \<Rightarrow> u32 \<times> nat" where
  "cmos_read rtc reg t = (ucast (rtc t reg), t + 1)"

definition fill_rtcdate :: "rtc \<Rightarrow> nat \<Rightarrow> rtcdate \<times> nat" where
  "fill_rtcdate rtc t =
     (let (s, t) = cmos_read rtc 0x00 t; (mi, t) = cmos_read rtc 0x02 t; (h, t) = cmos_read rtc 0x04 t;
          (d, t) = cmos_read rtc 0x07 t; (mo, t) = cmos_read rtc 0x08 t; (y, t) = cmos_read rtc 0x09 t in
      (\<lparr>second = s, minute = mi, hour = h, day = d, month = mo, year = y\<rparr>, t))"

text \<open>The loop may go on for ever, when the clock never stands still.\<close>

partial_function (option) cmos_loop :: "rtc \<Rightarrow> nat \<Rightarrow> (rtcdate \<times> nat) option" where
  "cmos_loop rtc t =
     (let (t1, t) = fill_rtcdate rtc t; (sa, t) = cmos_read rtc 0x0A t in
      if sa AND 0x80 \<noteq> 0 then cmos_loop rtc t
      else let (t2, t) = fill_rtcdate rtc t in
        if t1 = t2 then Some (t1, t) else cmos_loop rtc t)"

definition conv :: "u32 \<Rightarrow> u32" where
  "conv x = drop_bit 4 x * 10 + (x AND 0xF)"

definition cmostime :: "rtc \<Rightarrow> nat \<Rightarrow> rtcdate option" where
  "cmostime rtc t =
     (let (sb, t) = cmos_read rtc 0x0B t; bcd = (sb AND 4 = 0) in
      map_option (\<lambda>(t1, t).
        let r = (if bcd then \<lparr>second = conv (second t1), minute = conv (minute t1), hour = conv (hour t1),
                   day = conv (day t1), month = conv (month t1), year = conv (year t1)\<rparr> else t1)
        in r\<lparr>year := year r + 2000\<rparr>) (cmos_loop rtc t))"

text \<open>What the registers hold at one moment.\<close>

definition rtc_at :: "rtc \<Rightarrow> nat \<Rightarrow> rtcdate" where
  "rtc_at rtc t = \<lparr>second = ucast (rtc t 0x00), minute = ucast (rtc t 0x02), hour = ucast (rtc t 0x04),
     day = ucast (rtc t 0x07), month = ucast (rtc t 0x08), year = ucast (rtc t 0x09)\<rparr>"

text \<open>The time registers change at most once in a stretch of reads.\<close>

definition one_change :: "rtc \<Rightarrow> nat \<Rightarrow> nat \<Rightarrow> bool" where
  "one_change rtc a b \<longleftrightarrow> (\<exists>j. (\<forall>t. a \<le> t \<and> t < j \<longrightarrow> rtc_at rtc t = rtc_at rtc a) \<and>
     (\<forall>t. j \<le> t \<and> t \<le> b \<longrightarrow> rtc_at rtc t = rtc_at rtc b))"

lemma fill_steps: "fill_rtcdate rtc t =
  (\<lparr>second = second (rtc_at rtc t), minute = minute (rtc_at rtc (t + 1)), hour = hour (rtc_at rtc (t + 2)),
    day = day (rtc_at rtc (t + 3)), month = month (rtc_at rtc (t + 4)), year = year (rtc_at rtc (t + 5))\<rparr>, t + 6)"
  by (simp add: fill_rtcdate_def cmos_read_def rtc_at_def eval_nat_numeral)

lemma fill_steady:
  assumes "\<And>k. k < 6 \<Longrightarrow> rtc_at rtc (t + k) = x"
  shows "fill_rtcdate rtc t = (x, t + 6)"
  using assms [of 0] assms [of 1] assms [of 2] assms [of 3] assms [of 4] assms [of 5] by (simp add: fill_steps)

lemma cmos_round:
  assumes "fill_rtcdate rtc t = (d, t + 6)" "fill_rtcdate rtc (t + 7) = (d, t + 13)"
    and "one_change rtc t (t + 12)"
  shows "\<exists>u. t \<le> u \<and> u \<le> t + 12 \<and> d = rtc_at rtc u"
proof -
  obtain j where a: "\<And>u. t \<le> u \<Longrightarrow> u < j \<Longrightarrow> rtc_at rtc u = rtc_at rtc t"
    and b: "\<And>u. j \<le> u \<Longrightarrow> u \<le> t + 12 \<Longrightarrow> rtc_at rtc u = rtc_at rtc (t + 12)"
    using assms(3) unfolding one_change_def by blast
  show ?thesis
  proof (cases "j \<le> t + 7")
    case True
    then have "fill_rtcdate rtc (t + 7) = (rtc_at rtc (t + 12), t + 7 + 6)" by (intro fill_steady b) auto
    then show ?thesis using assms(2) by (intro exI [of _ "t + 12"]) simp
  next
    case False
    then have "fill_rtcdate rtc t = (rtc_at rtc t, t + 6)" by (intro fill_steady a) auto
    then show ?thesis using assms(1) by (intro exI [of _ t]) simp
  qed
qed

lemma cmos_loop_Some:
  assumes "cmos_loop rtc t = Some y"
  shows "\<exists>t0 \<ge> t. snd y = t0 + 13 \<and> fill_rtcdate rtc t0 = (fst y, t0 + 6) \<and> fill_rtcdate rtc (t0 + 7) = (fst y, t0 + 13)"
proof (rule cmos_loop.raw_induct [where P = "\<lambda>rtc t y. \<exists>t0 \<ge> t. snd y = t0 + 13 \<and>
    fill_rtcdate rtc t0 = (fst y, t0 + 6) \<and> fill_rtcdate rtc (t0 + 7) = (fst y, t0 + 13)", OF _ assms], goal_cases)
  case (1 f rtc t y)
  let ?d1 = "fst (fill_rtcdate rtc t)" and ?d2 = "fst (fill_rtcdate rtc (t + 7))"
  have f: "fill_rtcdate rtc t = (?d1, t + 6)" "fill_rtcdate rtc (t + 7) = (?d2, t + 13)" by (simp_all add: fill_steps)
  have rd: "cmos_read rtc 0x0A (t + 6) = (ucast (rtc (t + 6) 0x0A), t + 7)" by (simp add: cmos_read_def)
  consider (a) "f rtc (t + 7) = Some y" | (b) "f rtc (t + 13) = Some y" | (c) "?d1 = ?d2" "y = (?d1, t + 13)"
    using 1(2) by (subst (asm) f(1), simp only: Let_def prod.case rd, subst (asm) f(2)) (auto split: if_splits)
  then show ?case
  proof cases
    case a
    then show ?thesis using 1(1) [of rtc "t + 7" y] by (meson add_leD1 le_add1 order_trans)
  next
    case b
    then show ?thesis using 1(1) [of rtc "t + 13" y] by (meson add_leD1 le_add1 order_trans)
  next
    case c
    then show ?thesis using f by (intro exI [of _ t]) (auto simp: fill_steps)
  qed
qed

text \<open>
  When the time registers change at most once during the last round of the loop, what the loop returns is what they
  held at one moment of that round: the two readings that agree are not torn.
\<close>

theorem cmos_snapshot:
  assumes "cmos_loop rtc t = Some (d, t')" and "\<forall>t0. t0 + 13 = t' \<longrightarrow> one_change rtc t0 (t0 + 12)"
  shows "\<exists>u. t \<le> u \<and> u < t' \<and> d = rtc_at rtc u"
proof -
  obtain t0 where t0: "t \<le> t0" "t' = t0 + 13" "fill_rtcdate rtc t0 = (d, t0 + 6)" "fill_rtcdate rtc (t0 + 7) = (d, t0 + 13)"
    using cmos_loop_Some [OF assms(1)] by auto
  have "one_change rtc t0 (t0 + 12)" using assms(2) t0(2) by simp
  then obtain u where "t0 \<le> u" "u \<le> t0 + 12" "d = rtc_at rtc u" using cmos_round [OF t0(3,4)] by blast
  then show ?thesis using t0(1,2) by (intro exI [of _ u]) auto
qed

text \<open>The number below 100 that a register in binary coded decimal stands for.\<close>

definition bcd :: "nat \<Rightarrow> u8" where
  "bcd n = of_nat (16 * (n div 10) + n mod 10)"

lemma conv_bcd:
  assumes "n < 100"
  shows "conv (ucast (bcd n)) = of_nat n"
proof -
  have "list_all (\<lambda>n. conv (ucast (bcd n)) = of_nat n) [0..<100]" by code_simp
  then show ?thesis using assms by (simp add: list_all_iff)
qed

definition two :: "nat \<Rightarrow> string" where
  "two n = [digits ! (n div 10), digits ! (n mod 10)]"

lemma two_digits_of_nat: "n < 100 \<Longrightarrow> two_digits (of_nat n) = two n"
  by (simp add: two_digits_def two_def unat_of_nat_small)

lemma decimal_two_nat: "n < 100 \<Longrightarrow> decimal (of_nat n) 2 = two n"
  using decimal_two [of "of_nat n"] two_digits_of_nat [of n] by (simp add: word_less_nat_alt unat_of_nat_small)

lemma decimal_year:
  assumes "y < 100"
  shows "decimal (of_nat y + 2000) 0 = ''20'' @ two y"
proof -
  have e: "of_nat y + 2000 = (of_nat (2000 + y) :: u32)" by simp
  have s: "sint (of_nat (2000 + y) :: u32) = int (2000 + y)" using assms by (intro sint_of_nat_small) simp
  have k: "y div 10 < 10" using assms by auto
  have d: "(2000 + y) div 10 = 200 + y div 10" "(200 + y div 10) div 10 = 20" using assms by auto
  have d': "(200 + y div 10) mod 10 = y div 10" using mod_mult_self1 [of "y div 10" 20 10] k by (simp add: add.commute)
  have d'': "(2000 + y) mod 10 = y mod 10" using mod_mult_self1 [of y 200 10] by (simp add: add.commute)
  have step: "nat_digits 10 n = n mod 10 # nat_digits 10 (n div 10)" if "10 \<le> n" for n
    using that by (subst nat_digits.simps) simp
  have a: "nat_digits 10 2 = [2]" by (subst nat_digits.simps) simp
  have b: "nat_digits 10 20 = [0, 2]" using step [of 20] a by simp
  have "nat_digits 10 (200 + y div 10) = [y div 10, 0, 2]" using step [of "200 + y div 10"] b by (simp only: d(2) d')
  then have "nat_digits 10 (2000 + y) = [y mod 10, y div 10, 0, 2]" using step [of "2000 + y"] by (simp only: d(1) d'')
  then show ?thesis unfolding e using s by (simp add: decimal_def absolute_def numeral_of_def two_def digits_def nat_add_distrib)
qed

text \<open>
  C38. With the clock standing still at a moment of this century, in binary coded decimal and with no update in progress,
  the date command gets that moment and prints it in the format of ISO 8601.
\<close>

theorem date_prints_iso:
  assumes "y < 100" "mo < 100" "d < 100" "h < 100" "mi < 100" "s < 100"
    and "\<forall>u \<ge> t. rtc u 0x00 = bcd s \<and> rtc u 0x02 = bcd mi \<and> rtc u 0x04 = bcd h \<and>
      rtc u 0x07 = bcd d \<and> rtc u 0x08 = bcd mo \<and> rtc u 0x09 = bcd y"
    and "rtc t 0x0B AND 4 = 0" "rtc (t + 7) 0x0A AND 0x80 = 0"
  shows "\<exists>r. cmostime rtc t = Some r \<and>
    print_date r = Inr (''20'' @ two y @ ''-'' @ two mo @ ''-'' @ two d @ ''T'' @ two h @ '':'' @ two mi @ '':'' @ two s @ [CHR 0x0A])"
proof -
  let ?r = "\<lparr>second = ucast (bcd s), minute = ucast (bcd mi), hour = ucast (bcd h), day = ucast (bcd d),
    month = ucast (bcd mo), year = ucast (bcd y)\<rparr> :: rtcdate"
  have f: "fill_rtcdate rtc u = (?r, u + 6)" if "t \<le> u" for u
    using that assms(7) by (intro fill_steady) (simp add: rtc_at_def)
  have m: "(ucast w :: u32) AND ucast k = ucast (w AND k)" for w k :: u8 by (simp add: unsigned_and_eq)
  have z: "(ucast (rtc (t + 7) 0x0A) :: u32) AND 0x80 = 0" using m [of "rtc (t + 7) 0x0A" "0x80"] assms(9) by simp
  have b: "(ucast (rtc t 0x0B) :: u32) AND 4 = 0" using m [of "rtc t 0x0B" 4] assms(8) by simp
  have "cmos_loop rtc (t + 1) = Some (?r, t + 14)"
    using f [of "t + 1"] f [of "t + 8"] z by (subst cmos_loop.simps) (simp add: cmos_read_def eval_nat_numeral)
  then show ?thesis using b assms(1-6)
    by (simp add: cmostime_def cmos_read_def conv_bcd print_date_lines decimal_two_nat decimal_year)
qed

definition leap_day :: rtc where
  "leap_day t reg = (if reg = 0x00 then 0x58 else if reg = 0x02 then 0x59 else if reg = 0x04 then 0x23
     else if reg = 0x07 then 0x29 else if reg = 0x08 then 0x02 else if reg = 0x09 then 0x24 else 0)"

theorem date_prints_iso_witness:
  "\<exists>r. cmostime leap_day 0 = Some r \<and> print_date r = Inr (''2024-02-29T23:59:58'' @ [CHR 0x0A])"
proof -
  have "\<exists>r. cmostime leap_day 0 = Some r \<and>
      print_date r = Inr (''20'' @ two 24 @ ''-'' @ two 2 @ ''-'' @ two 29 @ ''T'' @ two 23 @ '':'' @ two 59 @ '':'' @ two 58 @ [CHR 0x0A])"
    by (rule date_prints_iso) (simp_all add: leap_day_def bcd_def)
  then show ?thesis by (simp add: two_def digits_def)
qed

text \<open>The registers change in the middle of the first reading, which is torn and thrown away.\<close>

definition turning :: rtc where
  "turning t reg = (if reg = 0x0A then 0 else if t < 3 then 0x11 else 0x22)"

lemma turning_loop: "cmos_loop turning 0 = Some (rtc_at turning 3, 26)"
  by (subst cmos_loop.simps, simp add: fill_steps cmos_read_def rtc_at_def turning_def,
      subst cmos_loop.simps, simp add: fill_steps cmos_read_def rtc_at_def turning_def)

theorem cmos_snapshot_witness:
  "\<exists>u. u < 26 \<and> rtc_at turning 3 = rtc_at turning u"
proof -
  have "\<forall>t0. t0 + 13 = 26 \<longrightarrow> one_change turning t0 (t0 + 12)"
    by (auto simp: one_change_def rtc_at_def turning_def intro: exI [of _ 3])
  from cmos_snapshot [OF turning_loop this] show ?thesis by auto
qed

text \<open>The console prints the same digits in lower case.\<close>

lemma cons_printint_hex: "cons_printint 0xBEEF 16 False = Inr ''beef''" by code_simp

lemma width_overflows: "printint 7 10 True 17 = Inl Fault" by (simp add: printint_ok BUFSZ_def)

end
