(* ===== verification/Console.thy ===== *)
theory Console
  imports Ring
begin

text \<open>
  The console's line discipline (console.c): the input buffer between the keyboard interrupt and the processes that
  read. Three free-running counters divide the ring: what has been handed over (from \<open>r\<close> to \<open>w\<close>) and the line that is
  still edited (from \<open>w\<close> to \<open>e\<close>). Interrupts and readers hold \<open>cons.lock\<close>, so each is one step.
\<close>

section \<open>Input\<close>

definition INPUT_BUF :: nat where "INPUT_BUF = 128"

text \<open>\<open>C(x)\<close> and the other keys by their codes; \<open>BACKSPACE\<close> is what the screen is sent.\<close>

definition NL :: u8 where "NL = 10"
definition CR :: u8 where "CR = 13"
definition CtrlD :: u8 where "CtrlD = 4"
definition CtrlP :: u8 where "CtrlP = 16"
definition CtrlU :: u8 where "CtrlU = 21"
definition CtrlH :: u8 where "CtrlH = 8"
definition DEL :: u8 where "DEL = 127"
definition BACKSPACE :: nat where "BACKSPACE = 0x100"

text \<open>\<open>shown\<close> is what \<open>consputc\<close> has been given, \<open>woken\<close> whether \<open>wakeup(&input.r)\<close> was called.\<close>

record input =
  ibuf :: "u8 list"
  ir :: u32
  iw :: u32
  ie :: u32
  shown :: "nat list"
  woken :: bool

definition ring_slot :: "u32 \<Rightarrow> nat" where
  "ring_slot i = unat i mod INPUT_BUF"

definition consputc :: "nat \<Rightarrow> input \<Rightarrow> input" where
  "consputc c s = s\<lparr>shown := shown s @ [c]\<rparr>"

definition rubout :: "input \<Rightarrow> input" where
  "rubout s = consputc BACKSPACE (s\<lparr>ie := ie s - 1\<rparr>)"

function kill_line :: "input \<Rightarrow> input" where
  "kill_line s = (if ie s \<noteq> iw s \<and> ibuf s ! ring_slot (ie s - 1) \<noteq> NL then kill_line (rubout s) else s)"
  by pat_completeness auto
termination
proof (relation "measure (\<lambda>s. unat (ie s - iw s))", simp, goal_cases)
  case (1 s)
  then have "ie s - iw s \<noteq> 0" by simp
  then have "unat (ie s - iw s - 1) < unat (ie s - iw s)" by (metis unat_gt_0 diff_less unat_minus_one zero_less_one)
  then show ?case by (simp add: rubout_def consputc_def algebra_simps)
qed

declare kill_line.simps [simp del]

text \<open>One character of the interrupt; the flag asks for \<open>procdump\<close>.\<close>

definition console_key :: "u8 \<Rightarrow> input \<Rightarrow> bool \<times> input" where
  "console_key c s =
     (if c = CtrlP then (True, s)
      else if c = CtrlU then (False, kill_line s)
      else if c = CtrlH \<or> c = DEL then (False, if ie s \<noteq> iw s then rubout s else s)
      else if c \<noteq> 0 \<and> ie s - ir s < of_nat INPUT_BUF then
        (let c = (if c = CR then NL else c);
             s = s\<lparr>ibuf := (ibuf s)[ring_slot (ie s) := c], ie := ie s + 1\<rparr>;
             s = consputc (unat c) s in
         (False, if c = NL \<or> c = CtrlD \<or> ie s = ir s + of_nat INPUT_BUF then s\<lparr>iw := ie s, woken := True\<rparr> else s))
      else (False, s))"

text \<open>The characters that \<open>getc\<close> gives until it has none.\<close>

fun consoleintr :: "u8 list \<Rightarrow> input \<Rightarrow> bool \<times> input" where
  "consoleintr [] s = (False, s)"
| "consoleintr (c # cs) s = (let (p, s) = console_key c s; (q, s) = consoleintr cs s in (p \<or> q, s))"

text \<open>
  \<open>consoleread\<close> from one check of the buffer to the next: \<open>n\<close> bytes are still wanted, \<open>dst\<close> is what has been stored.
  It returns the bytes, or sleeps on \<open>input.r\<close>, to go on with what it then has.
\<close>

datatype reading = Done "u8 list" | Sleeps "u8 list" nat

fun consoleread :: "u8 list \<Rightarrow> nat \<Rightarrow> input \<Rightarrow> reading \<times> input" where
  "consoleread dst 0 s = (Done dst, s)"
| "consoleread dst (Suc n) s =
     (if ir s = iw s then (Sleeps dst (Suc n), s)
      else let c = ibuf s ! ring_slot (ir s); s = s\<lparr>ir := ir s + 1\<rparr> in
        if c = CtrlD then (Done dst, if dst \<noteq> [] then s\<lparr>ir := ir s - 1\<rparr> else s)
        else if c = NL then (Done (dst @ [c]), s)
        else consoleread (dst @ [c]) n s)"

section \<open>The discipline as queue and line\<close>

definition handed :: "input \<Rightarrow> u8 list" where
  "handed s = ring_contents INPUT_BUF (ibuf s) (ir s) (iw s)"

definition edited :: "input \<Rightarrow> u8 list" where
  "edited s = ring_contents INPUT_BUF (ibuf s) (iw s) (ie s)"

definition input_ok :: "input \<Rightarrow> bool" where
  "input_ok s \<longleftrightarrow> length (ibuf s) = INPUT_BUF \<and> unat (iw s - ir s) + unat (ie s - iw s) \<le> INPUT_BUF \<and>
     (\<forall>c\<in>set (edited s). c \<noteq> NL \<and> c \<noteq> CtrlD)"

text \<open>What a key does to the queue and the line, and what a reader takes.\<close>

definition key_spec :: "u8 \<Rightarrow> u8 list \<times> u8 list \<Rightarrow> u8 list \<times> u8 list" where
  "key_spec c = (\<lambda>(q, l).
     if c = CtrlP then (q, l)
     else if c = CtrlU then (q, [])
     else if c = CtrlH \<or> c = DEL then (q, butlast l)
     else if c \<noteq> 0 \<and> length q + length l < INPUT_BUF then
       (let c = (if c = CR then NL else c); l = l @ [c] in
        if c = NL \<or> c = CtrlD \<or> length q + length l = INPUT_BUF then (q @ l, []) else (q, l))
     else (q, l))"

fun read_spec :: "u8 list \<Rightarrow> nat \<Rightarrow> u8 list \<Rightarrow> reading \<times> u8 list" where
  "read_spec dst 0 q = (Done dst, q)"
| "read_spec dst (Suc n) [] = (Sleeps dst (Suc n), [])"
| "read_spec dst (Suc n) (c # q) =
     (if c = CtrlD then (Done dst, if dst \<noteq> [] then c # q else q)
      else if c = NL then (Done (dst @ [c]), q)
      else read_spec (dst @ [c]) n q)"

lemma ring_append:
  assumes "unat (w - r) + unat (e - w) < 2 ^ 32"
  shows "ring_contents N buf r e = ring_contents N buf r w @ ring_contents N buf w e"
proof (rule nth_equalityI)
  have "e - r = (w - r) + (e - w)" by simp
  then have s: "unat (e - r) = unat (w - r) + unat (e - w)"     using unat_add_lem [of "w - r" "e - w"] assms by simp
  then show "length (ring_contents N buf r e) = length (ring_contents N buf r w @ ring_contents N buf w e)" by simp
  fix k assume k: "k < length (ring_contents N buf r e)"
  show "ring_contents N buf r e ! k = (ring_contents N buf r w @ ring_contents N buf w e) ! k"
  proof (cases "k < unat (w - r)")
    case True
    then show ?thesis using k s by (simp add: nth_append ring_contents_nth)
  next
    case False
    then have "r + of_nat k = w + of_nat (k - unat (w - r))" by (simp add: of_nat_diff)
    then show ?thesis using False k s by (simp add: nth_append ring_contents_nth add.commute)
  qed
qed

definition whole :: "input \<Rightarrow> u8 list" where
  "whole s = ring_contents INPUT_BUF (ibuf s) (ir s) (ie s)"

lemma N32: "INPUT_BUF < 2 ^ 32" "INPUT_BUF dvd 2 ^ 32" "INPUT_BUF \<noteq> 0"
  by (simp_all add: INPUT_BUF_def)

lemma lengths: "length (handed s) = unat (iw s - ir s)" "length (edited s) = unat (ie s - iw s)"
    "length (whole s) = unat (ie s - ir s)"
  by (simp_all add: handed_def edited_def whole_def)

lemma whole_parts:
  assumes "input_ok s"
  shows "whole s = handed s @ edited s"
proof -
  have "unat (iw s - ir s) + unat (ie s - iw s) < 2 ^ 32" using assms N32(1) unfolding input_ok_def by linarith
  then show ?thesis unfolding whole_def handed_def edited_def by (rule ring_append)
qed

lemma room:
  assumes "input_ok s"
  shows "ie s - ir s < of_nat INPUT_BUF \<longleftrightarrow> length (handed s) + length (edited s) < INPUT_BUF"
    "length (handed s) + length (edited s) \<le> INPUT_BUF"
proof -
  have "unat (of_nat INPUT_BUF :: u32) = INPUT_BUF" by (intro unat_of_nat_small) (simp add: INPUT_BUF_def)
  then show "ie s - ir s < of_nat INPUT_BUF \<longleftrightarrow> length (handed s) + length (edited s) < INPUT_BUF"
    using arg_cong [OF whole_parts [OF assms], of length] by (simp add: word_less_nat_alt lengths)
  show "length (handed s) + length (edited s) \<le> INPUT_BUF" using assms by (simp add: input_ok_def lengths)
qed

lemma full:
  assumes "length (whole s) \<le> INPUT_BUF"
  shows "ie s = ir s + of_nat INPUT_BUF \<longleftrightarrow> length (whole s) = INPUT_BUF"
  using ring_full [of "ie s" "ir s" INPUT_BUF] assms N32(1) by (simp add: whole_def)

lemma edited_empty: "edited s = [] \<longleftrightarrow> ie s = iw s"
  unfolding edited_def ring_empty by auto

lemma handed_empty: "handed s = [] \<longleftrightarrow> ir s = iw s"
  unfolding handed_def ring_empty by auto

lemma edited_last: "ie s \<noteq> iw s \<Longrightarrow> ibuf s ! ring_slot (ie s - 1) = last (edited s)"
proof -
  assume ne: "ie s \<noteq> iw s"
  then have z: "ie s - iw s \<noteq> 0" by simp
  have "0 < unat (ie s - iw s)" using z by (simp only: unat_gt_0) simp
  then have l: "unat (ie s - iw s) - 1 < unat (ie s - iw s)" by simp
  have "of_nat (unat (ie s - iw s) - 1) = ie s - iw s - 1"
    unfolding unat_minus_one [OF z, symmetric] by simp
  then have "iw s + of_nat (unat (ie s - iw s) - 1) = ie s - 1" by simp
  then have "edited s ! (unat (ie s - iw s) - 1) = ibuf s ! ring_slot (ie s - 1)"
    unfolding edited_def using l by (simp add: ring_contents_nth ring_slot_def)
  moreover have "edited s \<noteq> []" using ne edited_empty by simp
  ultimately show ?thesis by (simp add: last_conv_nth lengths)
qed

lemma rubout_spec:
  assumes s: "input_ok s" and ne: "ie s \<noteq> iw s"
  shows "input_ok (rubout s)" "handed (rubout s) = handed s" "edited (rubout s) = butlast (edited s)"
proof -
  show e: "edited (rubout s) = butlast (edited s)"
    using ring_unput [of "iw s" "ie s"] ne by (simp add: edited_def rubout_def consputc_def)
  show h: "handed (rubout s) = handed s" by (simp add: handed_def rubout_def consputc_def)
  have l: "unat (iw (rubout s) - ir (rubout s)) = length (handed s)" "unat (ie (rubout s) - iw (rubout s)) = length (edited s) - 1"
    using arg_cong [OF h, of length] arg_cong [OF e, of length] by (simp_all add: lengths(1,2)[symmetric])
  show "input_ok (rubout s)" using s room(2) [OF s] e unfolding input_ok_def l
    by (auto simp: rubout_def consputc_def dest: in_set_butlastD)
qed

lemma kill_line_spec:
  "input_ok s \<Longrightarrow> input_ok (kill_line s) \<and> handed (kill_line s) = handed s \<and> edited (kill_line s) = []"
proof (induction s rule: kill_line.induct)
  case (1 s)
  show ?case
  proof (cases "ie s = iw s")
    case True
    then show ?thesis using "1.prems" edited_empty by (subst (1 2 3) kill_line.simps) simp
  next
    case False
    then have "edited s \<noteq> []" using edited_empty by simp
    then have "last (edited s) \<noteq> NL" using "1.prems" last_in_set unfolding input_ok_def by blast
    then have c: "ie s \<noteq> iw s \<and> ibuf s ! ring_slot (ie s - 1) \<noteq> NL" using False edited_last by simp
    then have k: "kill_line s = kill_line (rubout s)" by (subst kill_line.simps) simp
    show ?thesis unfolding k using "1.IH" [OF c] rubout_spec [OF "1.prems" False] by simp
  qed
qed

text \<open>Storing a character, and handing the line over.\<close>

definition stored :: "u8 \<Rightarrow> input \<Rightarrow> input" where
  "stored c s = consputc (unat c) (s\<lparr>ibuf := (ibuf s)[ring_slot (ie s) := c], ie := ie s + 1\<rparr>)"

lemma stored_whole:
  assumes "input_ok s" "length (handed s) + length (edited s) < INPUT_BUF"
  shows "whole (stored c s) = whole s @ [c]" "handed (stored c s) = handed s" "edited (stored c s) = edited s @ [c]"
proof -
  have l: "unat (ie s - ir s) < INPUT_BUF" using assms(2) arg_cong [OF whole_parts [OF assms(1)], of length] by (simp add: lengths)
  show w: "whole (stored c s) = whole s @ [c]"
    using ring_put [OF l N32(1,2), of "ibuf s" c] assms(1)
    by (simp add: whole_def stored_def consputc_def ring_slot_def input_ok_def)
  have le: "unat (ie s - iw s) < INPUT_BUF" using assms(2) by (simp add: lengths)
  show e: "edited (stored c s) = edited s @ [c]"
    using ring_put [OF le N32(1,2), of "ibuf s" c] assms(1)
    by (simp add: edited_def stored_def consputc_def ring_slot_def input_ok_def)
  have "unat (iw s - ir s) + unat (ie s + 1 - iw s) < 2 ^ 32"
    using unat_Suc_diff [OF le N32(1)] assms(2) by (simp add: lengths INPUT_BUF_def)
  then have "whole (stored c s) = handed (stored c s) @ edited (stored c s)"
    unfolding whole_def handed_def edited_def by (intro ring_append) (simp add: stored_def consputc_def)
  then show "handed (stored c s) = handed s" using w e whole_parts [OF assms(1)] by simp
qed

lemma ok_iff: "input_ok s \<longleftrightarrow> length (ibuf s) = INPUT_BUF \<and> length (handed s) + length (edited s) \<le> INPUT_BUF \<and>
    (\<forall>c\<in>set (edited s). c \<noteq> NL \<and> c \<noteq> CtrlD)"
  by (simp add: input_ok_def lengths)

lemma hand_over:
  assumes "whole s = q" "length (ibuf s) = INPUT_BUF" "length q \<le> INPUT_BUF"
  shows "handed (s\<lparr>iw := ie s, woken := True\<rparr>) = q" "edited (s\<lparr>iw := ie s, woken := True\<rparr>) = []"
    "input_ok (s\<lparr>iw := ie s, woken := True\<rparr>)"
proof -
  let ?s = "s\<lparr>iw := ie s, woken := True\<rparr>"
  show h: "handed ?s = q" using assms(1) by (simp add: handed_def whole_def)
  show e: "edited ?s = []" using edited_empty [of ?s] by simp
  show "input_ok ?s" unfolding ok_iff h e using assms by simp
qed

lemma console_key_step:
  assumes s: "input_ok s"
  shows "input_ok (snd (console_key c s)) \<and>
    (handed (snd (console_key c s)), edited (snd (console_key c s))) = key_spec c (handed s, edited s)"
proof -
  consider (p) "c = CtrlP" | (u) "c = CtrlU" | (h) "c = CtrlH \<or> c = DEL"
    | (ins) "c \<notin> {CtrlP, CtrlU, CtrlH, DEL}" "c \<noteq> 0" "length (handed s) + length (edited s) < INPUT_BUF"
    | (none) "c \<notin> {CtrlP, CtrlU, CtrlH, DEL}" "c = 0 \<or> \<not> length (handed s) + length (edited s) < INPUT_BUF" by blast
  then show ?thesis
  proof cases
    case u
    then show ?thesis using kill_line_spec [OF s] by (auto simp: console_key_def key_spec_def CtrlU_def CtrlP_def)
  next
    case h
    then have c: "c \<noteq> CtrlP" "c \<noteq> CtrlU" by (auto simp: CtrlH_def DEL_def CtrlP_def CtrlU_def)
    show ?thesis
    proof (cases "ie s = iw s")
      case True
      moreover have "edited s = []" using True edited_empty by blast
      ultimately show ?thesis using h c s by (simp add: console_key_def key_spec_def)
    next
      case False
      then show ?thesis using h c rubout_spec [OF s False] by (simp add: console_key_def key_spec_def)
    qed
  next
    case ins
    let ?c = "if c = CR then NL else c"
    note st = stored_whole [OF s ins(3), of ?c]
    let ?l = "edited s @ [?c]"
    have w: "whole (stored ?c s) = handed s @ ?l" using st whole_parts [OF s] by simp
    have len: "length (whole (stored ?c s)) \<le> INPUT_BUF" using w ins(3) by simp
    have b: "length (ibuf (stored ?c s)) = INPUT_BUF" using s by (simp add: stored_def consputc_def input_ok_def)
    have r: "ir (stored ?c s) = ir s" by (simp add: stored_def consputc_def)
    have ck: "console_key c s = (False, if ?c = NL \<or> ?c = CtrlD \<or> ie (stored ?c s) = ir (stored ?c s) + of_nat INPUT_BUF
        then (stored ?c s)\<lparr>iw := ie (stored ?c s), woken := True\<rparr> else stored ?c s)"
      using ins room(1) [OF s] by (simp add: console_key_def stored_def Let_def consputc_def)
    have ks: "key_spec c (handed s, edited s) = (if ?c = NL \<or> ?c = CtrlD \<or> length (handed s) + length ?l = INPUT_BUF
        then (handed s @ ?l, []) else (handed s, ?l))"
      using ins by (simp add: key_spec_def Let_def)
    have cond: "ie (stored ?c s) = ir (stored ?c s) + of_nat INPUT_BUF \<longleftrightarrow> length (handed s) + length ?l = INPUT_BUF"
      using full [OF len] w by simp
    show ?thesis
    proof (cases "?c = NL \<or> ?c = CtrlD \<or> length (handed s) + length ?l = INPUT_BUF")
      case True
      show ?thesis unfolding ck ks cond if_P [OF True] using hand_over [OF w b] len w by simp
    next
      case False
      have "input_ok (stored ?c s)" unfolding ok_iff st(2,3) using b s ins(3) False by (auto simp: input_ok_def)
      then show ?thesis unfolding ck ks cond if_not_P [OF False] using st by simp
    qed
  qed (use s room(1) [OF s] in \<open>auto simp: console_key_def key_spec_def\<close>)
qed

text \<open>
  C31. The interrupt keeps the three counters in order and acts as a line editor on the queue and the line: a character
  is appended, backspace takes the last one of the line, control-U the line, and a newline, control-D or a full buffer
  hands the line over; nothing that has been handed over is changed.
\<close>

theorem console_key_refines:
  assumes "input_ok s"
  shows "input_ok (snd (console_key c s)) \<and>
    (handed (snd (console_key c s)), edited (snd (console_key c s))) = key_spec c (handed s, edited s)"
  by (rule console_key_step [OF assms])

lemma get_handed:
  assumes s: "input_ok s" and ne: "ir s \<noteq> iw s"
  shows "handed s = ibuf s ! ring_slot (ir s) # handed (s\<lparr>ir := ir s + 1\<rparr>)" "input_ok (s\<lparr>ir := ir s + 1\<rparr>)"
    "edited (s\<lparr>ir := ir s + 1\<rparr>) = edited s"
proof -
  show h: "handed s = ibuf s ! ring_slot (ir s) # handed (s\<lparr>ir := ir s + 1\<rparr>)"
    using ring_get [OF ne] by (simp add: handed_def ring_slot_def)
  show e: "edited (s\<lparr>ir := ir s + 1\<rparr>) = edited s" by (simp add: edited_def)
  show "input_ok (s\<lparr>ir := ir s + 1\<rparr>)"
    using s arg_cong [OF h, of length] unfolding ok_iff e by simp
qed

lemma consoleread_step:
  "input_ok s \<Longrightarrow> (case consoleread dst n s of (x, s') \<Rightarrow>
    input_ok s' \<and> edited s' = edited s \<and> (x, handed s') = read_spec dst n (handed s))"
proof (induction dst n s rule: consoleread.induct)
  case (2 dst n s)
  show ?case
  proof (cases "ir s = iw s")
    case True
    moreover have "handed s = []" using True handed_empty by blast
    ultimately show ?thesis using "2.prems" by simp
  next
    case False
    let ?c = "ibuf s ! ring_slot (ir s)" and ?s = "s\<lparr>ir := ir s + 1\<rparr>"
    note g = get_handed [OF "2.prems" False]
    have "read_spec dst (Suc n) (handed s) = (if ?c = CtrlD then (Done dst, if dst \<noteq> [] then handed s else handed ?s)
        else if ?c = NL then (Done (dst @ [?c]), handed ?s) else read_spec (dst @ [?c]) n (handed ?s))"
      by (simp add: g(1))
    moreover have "?s\<lparr>ir := ir ?s - 1\<rparr> = s" by simp
    ultimately show ?thesis using False g(2,3) "2.prems" "2.IH" [OF False refl refl _ _ g(2)] by (auto split: prod.splits)
  qed
qed simp

text \<open>
  A read takes from the queue what has been handed over: up to its count, up to and with a newline, or up to a
  control-D, which is left for the next read unless it comes first; with an empty queue it sleeps and keeps what it has.
\<close>

theorem consoleread_refines:
  assumes "input_ok s"
  shows "case consoleread dst n s of (x, s') \<Rightarrow>
    input_ok s' \<and> edited s' = edited s \<and> (x, handed s') = read_spec dst n (handed s)"
  by (rule consoleread_step [OF assms])

section \<open>The ring as a queue\<close>

definition take_one :: "input \<Rightarrow> u8 \<times> input" where
  "take_one s = (ibuf s ! ring_slot (ir s), s\<lparr>ir := ir s + 1\<rparr>)"

definition whole_ok :: "input \<Rightarrow> bool" where
  "whole_ok s \<longleftrightarrow> length (ibuf s) = INPUT_BUF \<and> length (whole s) \<le> INPUT_BUF"

interpretation con_ring: ring_buffer stored take_one whole whole_ok INPUT_BUF
proof unfold_locales
  fix s :: input and c
  assume s: "whole_ok s" and l: "length (whole s) < INPUT_BUF"
  have "unat (ie s - ir s) < INPUT_BUF" using l by (simp add: lengths)
  then show w: "whole (stored c s) = whole s @ [c]"
    using ring_put [OF _ N32(1,2), of "ie s" "ir s" "ibuf s" c] s
    by (simp add: whole_def stored_def consputc_def ring_slot_def whole_ok_def)
  show "whole_ok (stored c s)" using s l unfolding whole_ok_def w by (simp add: stored_def consputc_def)
next
  fix s :: input
  assume s: "whole_ok s" and ne: "whole s \<noteq> []"
  then have "ir s \<noteq> ie s" by (auto simp: whole_def ring_empty)
  then show g: "whole s = fst (take_one s) # whole (snd (take_one s))"
    using ring_get by (simp add: whole_def take_one_def ring_slot_def)
  show "whole_ok (snd (take_one s))" using s arg_cong [OF g, of length] by (simp add: whole_ok_def take_one_def)
qed

text \<open>Keys that are not editing keys and do not end the line.\<close>

definition text_key :: "u8 \<Rightarrow> bool" where
  "text_key c \<longleftrightarrow> c \<notin> {0, CtrlD, CtrlP, CtrlU, CtrlH, DEL, CR, NL}"

text \<open>While there is room for the end of the line, typing is putting into the ring, and nobody is woken.\<close>

lemma typing:
  "input_ok s \<Longrightarrow> \<forall>c\<in>set cs. text_key c \<Longrightarrow> length (handed s) + length (edited s) + length cs < INPUT_BUF \<Longrightarrow>
    consoleintr cs s = (False, con_ring.put_all cs s) \<and> input_ok (con_ring.put_all cs s) \<and>
    handed (con_ring.put_all cs s) = handed s \<and> edited (con_ring.put_all cs s) = edited s @ cs"
proof (induction cs arbitrary: s)
  case (Cons c cs)
  have c: "text_key c" "length (handed s) + length (edited s) < INPUT_BUF" using Cons.prems by auto
  note st = stored_whole [OF Cons.prems(1) c(2), of c]
  have len: "length (whole (stored c s)) < INPUT_BUF" using st(1) whole_parts [OF Cons.prems(1)] Cons.prems(3) by simp
  then have nf: "ie (stored c s) \<noteq> ir (stored c s) + of_nat INPUT_BUF" using full [of "stored c s"] by simp
  have k: "console_key c s = (False, stored c s)"
    using c room(1) [OF Cons.prems(1)] nf by (simp add: console_key_def text_key_def stored_def consputc_def Let_def)
  have ok: "input_ok (stored c s)" using console_key_step [OF Cons.prems(1), of c] k by simp
  show ?case using Cons.IH [OF ok] Cons.prems(2,3) st(2,3) k by simp
qed simp

lemma read_line: "\<forall>c\<in>set cs. text_key c \<Longrightarrow> length cs < n \<Longrightarrow> read_spec dst n (cs @ NL # q) = (Done (dst @ cs @ [NL]), q)"
proof (induction cs arbitrary: dst n)
  case Nil
  then show ?case by (cases n) (simp_all add: NL_def CtrlD_def)
next
  case (Cons c cs)
  then show ?case by (cases n) (auto simp: text_key_def)
qed

lemma consoleintr_append:
  "consoleintr (xs @ ys) s = (let (p, s) = consoleintr xs s; (q, s) = consoleintr ys s in (p \<or> q, s))"
  by (induction xs arbitrary: s) (auto split: prod.splits)

lemma typed_line:
  assumes "input_ok s" "handed s = []" "edited s = []" "c = CR \<or> c = NL"
    and "\<forall>c\<in>set cs. text_key c" "length cs < INPUT_BUF" "length cs < n"
  shows "\<exists>s'. consoleread [] n (snd (consoleintr (cs @ [c]) s)) = (Done (cs @ [NL]), s') \<and>
    input_ok s' \<and> handed s' = [] \<and> edited s' = []"
proof -
  let ?s = "con_ring.put_all cs s"
  have t: "consoleintr cs s = (False, ?s)" "input_ok ?s" "handed ?s = []" "edited ?s = cs"
    using typing [OF assms(1,5)] assms(2,3,6) by simp_all
  let ?t = "snd (console_key c ?s)"
  have k: "input_ok ?t \<and> (handed ?t, edited ?t) = key_spec c ([], cs)" using console_key_step [OF t(2), of c] t(3,4) by simp
  then have h: "input_ok ?t" "handed ?t = cs @ [NL]" "edited ?t = []"
    using assms(4,6) by (auto simp: key_spec_def CR_def NL_def CtrlP_def CtrlU_def CtrlH_def DEL_def Let_def)
  have i: "snd (consoleintr (cs @ [c]) s) = ?t" using t(1) by (simp add: consoleintr_append split: prod.split)
  obtain x s' where r: "consoleread [] n ?t = (x, s')" by fastforce
  have "input_ok s' \<and> edited s' = [] \<and> (x, handed s') = read_spec [] n (cs @ [NL])"
    using consoleread_step [OF h(1), of "[]" n] r h(2,3) by simp
  then show ?thesis using read_line [OF assms(5,7), of "[]" "[]"] r i by simp
qed

text \<open>
  A line that is typed into an empty console and ended with return is what the next long enough read gets, with a
  newline at its end; nothing of it is left.
\<close>

theorem typed_line_is_read:
  assumes "input_ok s" "handed s = []" "edited s = []"
    and "\<forall>c\<in>set cs. text_key c" "length cs < INPUT_BUF" "length cs < n"
  shows "\<exists>s'. consoleread [] n (snd (consoleintr (cs @ [CR]) s)) = (Done (cs @ [NL]), s') \<and>
    input_ok s' \<and> handed s' = [] \<and> edited s' = []"
  using typed_line [OF assms(1-3) _ assms(4-6), of CR] by simp

section \<open>Readers and interrupts\<close>

datatype reader = Idle | Ready "u8 list" nat | Asleep "u8 list" nat

record console =
  inp :: input
  readers :: "nat \<Rightarrow> reader"

definition wake :: "reader \<Rightarrow> reader" where
  "wake r = (case r of Asleep dst n \<Rightarrow> Ready dst n | _ \<Rightarrow> r)"

definition after_key :: "u8 \<Rightarrow> console \<Rightarrow> console" where
  "after_key c k =
     (let s = snd (console_key c ((inp k)\<lparr>woken := False\<rparr>)) in
      k\<lparr>inp := s, readers := if woken s then wake \<circ> readers k else readers k\<rparr>)"

definition after_read :: "nat \<Rightarrow> u8 list \<Rightarrow> nat \<Rightarrow> console \<Rightarrow> console" where
  "after_read i dst n k =
     (let (x, s) = consoleread dst n (inp k) in
      k\<lparr>inp := s, readers := (readers k)(i := (case x of Done bs \<Rightarrow> Idle | Sleeps dst n \<Rightarrow> Asleep dst n))\<rparr>)"

text \<open>A killed reader wakes up and returns -1 when it finds nothing.\<close>

inductive console_step :: "console \<Rightarrow> console \<Rightarrow> bool" where
  key: "console_step k (after_key c k)"
| start: "readers k i = Idle \<Longrightarrow> console_step k (after_read i [] n k)"
| resume: "readers k i = Ready dst n \<Longrightarrow> console_step k (after_read i dst n k)"
| killed: "readers k i = Asleep dst n \<Longrightarrow> console_step k (k\<lparr>readers := (readers k)(i := Idle)\<rparr>)"

inductive console_run :: "console \<Rightarrow> console \<Rightarrow> bool" where
  refl: "console_run k k"
| step: "console_run k k1 \<Longrightarrow> console_step k1 k2 \<Longrightarrow> console_run k k2"

definition console_inv :: "console \<Rightarrow> bool" where
  "console_inv k \<longleftrightarrow> input_ok (inp k) \<and> (\<forall>i dst n. readers k i = Asleep dst n \<longrightarrow> handed (inp k) = [])"

lemma wake_awake: "wake r \<noteq> Asleep dst n"
  by (cases r) (simp_all add: wake_def)

text \<open>Without a wakeup nothing has been handed over.\<close>

lemma quiet_key:
  assumes "\<not> woken (snd (console_key c s))" "input_ok s"
  shows "handed (snd (console_key c s)) = handed s"
proof -
  have k: "handed (kill_line s) = handed s" using kill_line_spec [OF assms(2)] by simp
  have r: "handed (rubout s) = handed s" if "ie s \<noteq> iw s" using rubout_spec [OF assms(2) that] by simp
  show ?thesis
  proof (cases "c \<notin> {CtrlP, CtrlU, CtrlH, DEL} \<and> c \<noteq> 0 \<and> ie s - ir s < of_nat INPUT_BUF")
    case True
    then have "snd (console_key c s) = stored (if c = CR then NL else c) s"
      using assms(1) by (auto simp: console_key_def Let_def stored_def consputc_def split: if_splits)
    then show ?thesis using stored_whole(2) [OF assms(2)] room(1) [OF assms(2)] True by simp
  qed (use k r in \<open>auto simp: console_key_def\<close>)
qed

lemma read_spec_sleeps: "read_spec dst n q = (Sleeps d m, q') \<Longrightarrow> q' = []"
  by (induction dst n q rule: read_spec.induct) (auto split: if_splits)

lemma read_spec_empty: "snd (read_spec dst n []) = []"
  by (cases n) simp_all

lemma after_read_inv:
  assumes "console_inv k"
  shows "console_inv (after_read i dst n k)"
proof -
  obtain x s' where r: "consoleread dst n (inp k) = (x, s')" by fastforce
  have s: "input_ok s'" "(x, handed s') = read_spec dst n (handed (inp k))"
    using consoleread_step [of "inp k" dst n] assms r by (auto simp: console_inv_def)
  have a: "handed s' = []" if "x = Sleeps d m" for d m
    using read_spec_sleeps [of dst n "handed (inp k)" d m "handed s'"] s(2) that by simp
  have b: "handed s' = []" if "handed (inp k) = []"
    using read_spec_empty [of dst n] s(2) that by (metis snd_conv)
  show ?thesis using assms r s(1) a b by (auto simp: console_inv_def after_read_def split: reading.splits)
qed

lemma console_step_inv: "console_step k k' \<Longrightarrow> console_inv k \<Longrightarrow> console_inv k'"
proof (induction rule: console_step.induct)
  case (key k c)
  let ?s = "(inp k)\<lparr>woken := False\<rparr>"
  have s: "input_ok ?s" "handed ?s = handed (inp k)"
    using key by (simp_all add: console_inv_def input_ok_def edited_def handed_def)
  show ?case
  proof (cases "woken (snd (console_key c ?s))")
    case True
    then show ?thesis using console_key_step [OF s(1), of c]
      by (simp add: console_inv_def after_key_def wake_awake)
  next
    case False
    then show ?thesis using console_key_step [OF s(1), of c] quiet_key [OF False s(1)] s(2) key
      by (simp add: console_inv_def after_key_def)
  qed
next
  case (start k i)
  then show ?case by (intro after_read_inv)
next
  case (resume k i dst n)
  then show ?case by (intro after_read_inv)
qed (auto simp: console_inv_def split: if_splits)

text \<open>
  C34. However keys, readers and kills interleave, a process that sleeps in \<open>consoleread\<close> finds the queue empty: no
  wakeup is lost, and the counters never overtake each other.
\<close>

theorem console_no_lost_wakeup:
  assumes "console_run k k'" and "input_ok (inp k)" and "\<forall>i. readers k i = Idle"
  shows "input_ok (inp k') \<and> (\<forall>i dst n. readers k' i = Asleep dst n \<longrightarrow> handed (inp k') = [])"
proof -
  have "console_inv k" using assms(2,3) by (simp add: console_inv_def)
  with assms(1) have "console_inv k'" by (induction rule: console_run.induct) (auto intro: console_step_inv)
  then show ?thesis by (simp add: console_inv_def)
qed

section \<open>Concrete runs\<close>

definition input0 :: input where
  "input0 = \<lparr>ibuf = replicate INPUT_BUF 0, ir = 0xFFFFFFFE, iw = 0xFFFFFFFE, ie = 0xFFFFFFFE, shown = [], woken = False\<rparr>"

lemma input0_ok: "input_ok input0" "handed input0 = []" "edited input0 = []"
  by (simp_all add: input_ok_def input0_def handed_def edited_def ring_contents_def)

theorem typed_line_is_read_witness:
  "fst (consoleread [] 100 (snd (consoleintr [108, 115, 13] input0))) = Done [108, 115, 10]"
proof -
  have t: "\<forall>c\<in>set [108, 115]. text_key c"
    by (simp add: text_key_def CtrlD_def CtrlP_def CtrlU_def CtrlH_def DEL_def CR_def NL_def)
  have l: "length [108, 115 :: u8] < INPUT_BUF" "length [108, 115 :: u8] < 100" by (simp_all add: INPUT_BUF_def)
  show ?thesis using typed_line_is_read [OF input0_ok t l] by (auto simp: CR_def NL_def)
qed

theorem console_key_refines_witness:
  "(handed (snd (console_key 108 input0)), edited (snd (console_key 108 input0))) = ([], [108])"
  using console_key_refines [OF input0_ok(1), of 108]
  by (simp add: input0_ok(2,3) key_spec_def CtrlP_def CtrlU_def CtrlH_def DEL_def CR_def NL_def CtrlD_def INPUT_BUF_def Let_def)

theorem consoleread_refines_witness: "fst (consoleread [] 5 input0) = Sleeps [] 5"
proof -
  obtain x s' where r: "consoleread [] 5 input0 = (x, s')" by fastforce
  have "read_spec [] 5 [] = (Sleeps [] 5, [])" by (subst numeral_eq_Suc, subst read_spec.simps(2)) simp
  then show ?thesis using consoleread_refines [OF input0_ok(1), of "[]" 5] r by (simp del: consoleread.simps add: input0_ok(2))
qed

theorem console_no_lost_wakeup_witness:
  "\<exists>k'. console_run \<lparr>inp = input0, readers = \<lambda>_. Idle\<rparr> k' \<and> readers k' 0 = Asleep [] 5 \<and> handed (inp k') = []"
proof -
  let ?k = "\<lparr>inp = input0, readers = \<lambda>_. Idle\<rparr>"
  let ?k' = "after_read 0 [] 5 ?k"
  have r: "console_run ?k ?k'" by (rule console_run.step [OF console_run.refl]) (rule console_step.start, simp)
  have s: "readers ?k' 0 = Asleep [] 5" by (simp add: after_read_def input0_def eval_nat_numeral)
  have i: "input_ok (inp ?k)" "\<forall>i. readers ?k i = Idle" by (simp_all add: input0_ok)
  show ?thesis using console_no_lost_wakeup [OF r i] r s by blast
qed

end
