(* ===== verification/Kbd.thy ===== *)
theory Kbd
  imports Console
begin

text \<open>
  The keyboard driver (kbd.c, kbd.h): scan codes to characters. The controller hands over one byte at an interrupt; a
  byte with the top bit is the release of a key, 0xE0 announces a key of the extended block. The bits of \<open>shift\<close> are
  the state of the modifier keys.
\<close>

section \<open>kbd.h\<close>

definition KBS_DIB :: u8 where "KBS_DIB = 1"
definition SHIFT :: u32 where "SHIFT = push_bit 0 1"
definition CTL :: u32 where "CTL = push_bit 1 1"
definition ALT :: u32 where "ALT = push_bit 2 1"
definition CAPSLOCK :: u32 where "CAPSLOCK = push_bit 3 1"
definition NUMLOCK :: u32 where "NUMLOCK = push_bit 4 1"
definition SCROLLLOCK :: u32 where "SCROLLLOCK = push_bit 5 1"
definition E0ESC :: u32 where "E0ESC = push_bit 6 1"

definition shiftcode :: "u8 \<Rightarrow> u32" where
  "shiftcode k = (if k = 0x1D \<or> k = 0x9D then CTL else if k = 0x2A \<or> k = 0x36 then SHIFT
     else if k = 0x38 \<or> k = 0xB8 then ALT else 0)"

definition togglecode :: "u8 \<Rightarrow> u32" where
  "togglecode k = (if k = 0x3A then CAPSLOCK else if k = 0x45 then NUMLOCK else if k = 0x46 then SCROLLLOCK else 0)"

text \<open>A table of 256 characters from its first entries and those with an index of their own.\<close>

definition table :: "u8 list \<Rightarrow> (nat \<times> u8) list \<Rightarrow> u8 list" where
  "table xs ys = fold (\<lambda>(i, c) t. t[i := c]) ys (xs @ replicate (256 - length xs) 0)"

definition normalmap :: "u8 list" where
  "normalmap = table [
    0, 27, 49, 50, 51, 52, 53, 54, 55, 56, 57, 48, 45, 61, 8, 9,
    113, 119, 101, 114, 116, 121, 117, 105, 111, 112, 91, 93, 10, 0, 97, 115,
    100, 102, 103, 104, 106, 107, 108, 59, 39, 96, 0, 92, 122, 120, 99, 118,
    98, 110, 109, 44, 46, 47, 0, 42, 0, 32, 0, 0, 0, 0, 0, 0,
    0, 0, 0, 0, 0, 0, 0, 55, 56, 57, 45, 52, 53, 54, 43, 49,
    50, 51, 48, 46, 0, 0, 0, 0]
    [(0x9C, 10), (0xB5, 47), (0xC8, 226), (0xD0, 227), (0xC9, 230), (0xD1, 231), (0xCB, 228), (0xCD, 229), (0x97, 224), (0xCF, 225), (0xD2, 232), (0xD3, 233)]"

definition shiftmap :: "u8 list" where
  "shiftmap = table [
    0, 27, 33, 64, 35, 36, 37, 94, 38, 42, 40, 41, 95, 43, 8, 9,
    81, 87, 69, 82, 84, 89, 85, 73, 79, 80, 123, 125, 10, 0, 65, 83,
    68, 70, 71, 72, 74, 75, 76, 58, 34, 126, 0, 124, 90, 88, 67, 86,
    66, 78, 77, 60, 62, 63, 0, 42, 0, 32, 0, 0, 0, 0, 0, 0,
    0, 0, 0, 0, 0, 0, 0, 55, 56, 57, 45, 52, 53, 54, 43, 49,
    50, 51, 48, 46, 0, 0, 0, 0]
    [(0x9C, 10), (0xB5, 47), (0xC8, 226), (0xD0, 227), (0xC9, 230), (0xD1, 231), (0xCB, 228), (0xCD, 229), (0x97, 224), (0xCF, 225), (0xD2, 232), (0xD3, 233)]"

definition ctlmap :: "u8 list" where
  "ctlmap = table [
    0, 0, 0, 0, 0, 0, 0, 0, 0, 0, 0, 0, 0, 0, 0, 0,
    17, 23, 5, 18, 20, 25, 21, 9, 15, 16, 0, 0, 13, 0, 1, 19,
    4, 6, 7, 8, 10, 11, 12, 0, 0, 0, 0, 28, 26, 24, 3, 22,
    2, 14, 13, 0, 0, 239, 0, 0]
    [(0x9C, 13), (0xB5, 239), (0xC8, 226), (0xD0, 227), (0xC9, 230), (0xD1, 231), (0xCB, 228), (0xCD, 229), (0x97, 224), (0xCF, 225), (0xD2, 232), (0xD3, 233)]"

section \<open>kbd.c\<close>

definition charcode :: "u32 \<Rightarrow> u8 list" where
  "charcode i = [normalmap, shiftmap, ctlmap, ctlmap] ! unat i"

definition swap_case :: "u8 \<Rightarrow> u8" where
  "swap_case c = (if 97 \<le> c \<and> c \<le> 122 then c - 32 else if 65 \<le> c \<and> c \<le> 90 then c + 32 else c)"

text \<open>What the two ports are read as, and \<open>shift\<close>; the result -1 is \<open>None\<close>.\<close>

definition kbdgetc :: "u8 \<Rightarrow> u8 \<Rightarrow> u32 \<Rightarrow> u8 option \<times> u32" where
  "kbdgetc st data shift =
     (if st AND KBS_DIB = 0 then (None, shift)
      else if data = 0xE0 then (Some 0, shift OR E0ESC)
      else if data AND 0x80 \<noteq> 0
      then (let data = (if shift AND E0ESC \<noteq> 0 then data else data AND 0x7F) in
            (Some 0, shift AND NOT (shiftcode data OR E0ESC)))
      else
        let (data, shift) = (if shift AND E0ESC \<noteq> 0 then (data OR 0x80, shift AND NOT E0ESC) else (data, shift));
            shift = shift OR shiftcode data;
            shift = shift XOR togglecode data;
            c = charcode (shift AND (CTL OR SHIFT)) ! unat data
        in (Some (if shift AND CAPSLOCK \<noteq> 0 then swap_case c else c), shift))"

text \<open>One interrupt per byte: \<open>consoleintr\<close> calls \<open>kbdgetc\<close> until there is nothing in the buffer.\<close>

definition kbdintr :: "u8 \<Rightarrow> u32 \<times> input \<Rightarrow> u32 \<times> input" where
  "kbdintr data ks = (case ks of (shift, s) \<Rightarrow>
     let (c, shift) = kbdgetc KBS_DIB data shift; (e, shift) = kbdgetc 0 0 shift
     in (shift, snd (consoleintr (case c of None \<Rightarrow> [] | Some c \<Rightarrow> [c]) s)))"

section \<open>Keys and modifiers\<close>

text \<open>What is pressed, without codes: a key is a byte, with the top bit if it is in the extended block.\<close>

datatype keyev = Press u8 | Release u8

fun codes :: "keyev \<Rightarrow> u8 list" where
  "codes (Press k) = (if bit k 7 then [0xE0, k AND 0x7F] else [k])"
| "codes (Release k) = (if bit k 7 then [0xE0, k] else [k OR 0x80])"

text \<open>The bytes 0x60 and 0xE0 cannot stand for keys: their release would be the announcement.\<close>

fun key_of :: "keyev \<Rightarrow> u8" where
  "key_of (Press k) = k"
| "key_of (Release k) = k"

definition real_key :: "keyev \<Rightarrow> bool" where
  "real_key e \<longleftrightarrow> key_of e \<noteq> 0x60 \<and> key_of e \<noteq> 0xE0"

record mods =
  m_shift :: bool
  m_ctl :: bool
  m_alt :: bool
  m_caps :: bool
  m_num :: bool
  m_scroll :: bool

definition set_mods :: "bool \<Rightarrow> u8 \<Rightarrow> mods \<Rightarrow> mods" where
  "set_mods v k m =
     (if k = 0x2A \<or> k = 0x36 then m\<lparr>m_shift := v\<rparr> else if k = 0x1D \<or> k = 0x9D then m\<lparr>m_ctl := v\<rparr>
      else if k = 0x38 \<or> k = 0xB8 then m\<lparr>m_alt := v\<rparr> else m)"

definition toggle_mods :: "u8 \<Rightarrow> mods \<Rightarrow> mods" where
  "toggle_mods k m =
     (if k = 0x3A then m\<lparr>m_caps := \<not> m_caps m\<rparr> else if k = 0x45 then m\<lparr>m_num := \<not> m_num m\<rparr>
      else if k = 0x46 then m\<lparr>m_scroll := \<not> m_scroll m\<rparr> else m)"

definition key_char :: "u8 \<Rightarrow> mods \<Rightarrow> u8" where
  "key_char k m = (let c = (if m_ctl m then ctlmap else if m_shift m then shiftmap else normalmap) ! unat k
     in if m_caps m then swap_case c else c)"

fun key_step :: "keyev \<Rightarrow> mods \<Rightarrow> u8 \<times> mods" where
  "key_step (Press k) m = (let m = toggle_mods k (set_mods True k m) in (key_char k m, m))"
| "key_step (Release k) m = (0, set_mods False k m)"

fun type_keys :: "keyev list \<Rightarrow> mods \<Rightarrow> u8 list \<times> mods" where
  "type_keys [] m = ([], m)"
| "type_keys (e # es) m = (let (c, m) = key_step e m; (cs, m) = type_keys es m in (if c = 0 then cs else c # cs, m))"

definition mods_of :: "u32 \<Rightarrow> mods" where
  "mods_of s = \<lparr>m_shift = bit s 0, m_ctl = bit s 1, m_alt = bit s 2, m_caps = bit s 3, m_num = bit s 4, m_scroll = bit s 5\<rparr>"

lemma bit_push_one: "bit (push_bit m 1 :: u32) n \<longleftrightarrow> n = m \<and> m < 32"
  by (simp only: bit_push_bit_iff bit_1_iff) auto

lemma mod_bits: "bit SHIFT n \<longleftrightarrow> n = 0" "bit CTL n \<longleftrightarrow> n = 1" "bit ALT n \<longleftrightarrow> n = 2" "bit CAPSLOCK n \<longleftrightarrow> n = 3"
  "bit NUMLOCK n \<longleftrightarrow> n = 4" "bit SCROLLLOCK n \<longleftrightarrow> n = 5" "bit E0ESC n \<longleftrightarrow> n = 6"
  unfolding SHIFT_def CTL_def ALT_def CAPSLOCK_def NUMLOCK_def SCROLLLOCK_def E0ESC_def by (simp_all only: bit_push_one) simp_all

lemma and_mod: "s AND push_bit n 1 = 0 \<longleftrightarrow> \<not> bit s n" for s :: u32
  by (simp add: bit_iff_and_push_bit_not_eq_0)

lemma mods_set: "mods_of (s OR shiftcode k) = set_mods True k (mods_of s)"
  by (auto simp: mods_of_def set_mods_def shiftcode_def mod_bits bit_simps)

lemma mods_clear: "mods_of (s AND NOT (shiftcode k OR E0ESC)) = set_mods False k (mods_of s)"
  by (auto simp: mods_of_def set_mods_def shiftcode_def mod_bits bit_simps)

lemma mods_toggle: "mods_of (s XOR togglecode k) = toggle_mods k (mods_of s)"
  by (auto simp: mods_of_def toggle_mods_def togglecode_def mod_bits bit_simps)

lemma mods_E0: "mods_of (s OR E0ESC) = mods_of s" "mods_of (s AND NOT E0ESC) = mods_of s"
  by (auto simp: mods_of_def mod_bits bit_simps)

lemma E0_bits: "\<not> bit (shiftcode k) 6" "\<not> bit (togglecode k) 6"
  by (auto simp: shiftcode_def togglecode_def mod_bits bit_simps)

lemma charcode_mods: "charcode (s AND (CTL OR SHIFT)) = (if bit s 1 then ctlmap else if bit s 0 then shiftmap else normalmap)"
proof -
  have "s AND (CTL OR SHIFT) = (if bit s 1 then CTL else 0) OR (if bit s 0 then SHIFT else 0)"
    by (rule bit_word_eqI) (auto simp: bit_and_iff bit_or_iff mod_bits intro!: gr0I)
  then show ?thesis by (auto simp: charcode_def CTL_def SHIFT_def)
qed

lemma top_bit: "k AND 0x80 \<noteq> 0 \<longleftrightarrow> bit k 7" for k :: u8
  using bit_iff_and_push_bit_not_eq_0 [of k 7] by simp

lemma low_bits: "bit (k AND 0x7F) n \<longleftrightarrow> bit k n \<and> n < 7" for k :: u8
proof -
  have "(0x7F :: u8) = mask 7" by (simp add: mask_eq_exp_minus_1)
  then have "bit (k AND 0x7F) n \<longleftrightarrow> bit (k AND mask 7) n" by (simp only:)
  then show ?thesis by (simp only: bit_and_iff bit_mask_iff) auto
qed

lemma high_bit: "bit (k OR 0x80) n \<longleftrightarrow> bit k n \<or> n = 7" for k :: u8
proof -
  have "(0x80 :: u8) = push_bit 7 1" by simp
  then have "bit (k OR 0x80) n \<longleftrightarrow> bit (k OR push_bit 7 1) n" by (simp only:)
  then show ?thesis by (simp only: bit_or_iff bit_push_bit_iff bit_1_iff) auto
qed

lemma bit7: "bit k n \<Longrightarrow> n < 8 \<Longrightarrow> \<not> bit k 7 \<Longrightarrow> n < 7" for k :: u8
  by (cases "n = 7") auto

lemma byte_bits:
  fixes k :: u8
  shows "bit k 7 \<Longrightarrow> (k AND 0x7F) OR 0x80 = k" "\<not> bit k 7 \<Longrightarrow> (k OR 0x80) AND 0x7F = k"
    "\<not> bit k 7 \<Longrightarrow> k \<noteq> 0x60 \<Longrightarrow> k OR 0x80 \<noteq> 0xE0" "\<not> bit k 7 \<Longrightarrow> k \<noteq> 0xE0"
proof -
  show "bit k 7 \<Longrightarrow> (k AND 0x7F) OR 0x80 = k"
    by (rule bit_word_eqI) (auto simp: low_bits high_bit)
  show e: "(k OR 0x80) AND 0x7F = k" if "\<not> bit k 7"
    using that by (intro bit_word_eqI) (auto simp: low_bits high_bit intro: bit7)
  show "k OR 0x80 \<noteq> 0xE0" if "\<not> bit k 7" "k \<noteq> 0x60"
  proof
    assume "k OR 0x80 = 0xE0"
    then have "k = 0xE0 AND 0x7F" using e [OF that(1)] by metis
    then show False using that(2) by simp
  qed
  have "bit (0xE0 :: u8) 7" by simp
  then show "\<not> bit k 7 \<Longrightarrow> k \<noteq> 0xE0" by metis
qed

lemma drop_E0: "\<not> bit s 6 \<Longrightarrow> (s OR E0ESC) AND NOT E0ESC = s"
  by (rule bit_word_eqI) (auto simp: bit_and_iff bit_or_iff bit_not_iff mod_bits)

lemma has_E0: "s AND E0ESC = 0 \<longleftrightarrow> \<not> bit s 6" "bit (s OR E0ESC) 6"
proof -
  show "s AND E0ESC = 0 \<longleftrightarrow> \<not> bit s 6" unfolding E0ESC_def by (rule and_mod)
  show "bit (s OR E0ESC) 6" by (simp add: bit_or_iff mod_bits)
qed

text \<open>The driver on the codes of an event.\<close>

definition pressed :: "u8 \<Rightarrow> u32 \<Rightarrow> u32" where
  "pressed k s = (s OR shiftcode k) XOR togglecode k"

lemma pressed_mods:
  "mods_of (pressed k s) = toggle_mods k (set_mods True k (mods_of s))" "bit (pressed k s) 6 = bit s 6"
  by (simp_all add: pressed_def mods_toggle mods_set bit_xor_iff bit_or_iff E0_bits)

lemma press_char:
  "(let c = charcode (s AND (CTL OR SHIFT)) ! unat k in if s AND CAPSLOCK \<noteq> 0 then swap_case c else c) = key_char k (mods_of s)"
proof -
  have "s AND CAPSLOCK \<noteq> 0 \<longleftrightarrow> bit s 3" unfolding CAPSLOCK_def using and_mod by blast
  then show ?thesis by (simp add: key_char_def mods_of_def charcode_mods Let_def)
qed

lemma dib: "KBS_DIB AND KBS_DIB \<noteq> 0" "0 AND KBS_DIB = 0"
  by (simp_all add: KBS_DIB_def)

lemma kbdgetc_announce: "kbdgetc KBS_DIB 0xE0 s = (Some 0, s OR E0ESC)"
  using dib by (simp add: kbdgetc_def)

lemma kbdgetc_press:
  assumes "data \<noteq> 0xE0" "\<not> bit data 7"
  shows "\<not> bit s 6 \<Longrightarrow> kbdgetc KBS_DIB data s = (Some (key_char data (mods_of (pressed data s))), pressed data s)"
    "\<not> bit s 6 \<Longrightarrow> kbdgetc KBS_DIB data (s OR E0ESC)
      = (Some (key_char (data OR 0x80) (mods_of (pressed (data OR 0x80) s))), pressed (data OR 0x80) s)"
proof -
  have t: "data AND 0x80 = 0" using assms(2) top_bit [of data] by simp
  show "kbdgetc KBS_DIB data s = (Some (key_char data (mods_of (pressed data s))), pressed data s)" if "\<not> bit s 6"
    using that t assms(1) dib has_E0(1) [of s] by (simp add: kbdgetc_def press_char [symmetric] pressed_def Let_def)
  have e: "(s OR E0ESC) AND E0ESC \<noteq> 0" using has_E0(1) [of "s OR E0ESC"] has_E0(2) [of s] by blast
  show "kbdgetc KBS_DIB data (s OR E0ESC)
      = (Some (key_char (data OR 0x80) (mods_of (pressed (data OR 0x80) s))), pressed (data OR 0x80) s)" if "\<not> bit s 6"
    unfolding kbdgetc_def if_not_P [OF dib(1)] if_not_P [OF assms(1)] t if_P [OF e] Let_def drop_E0 [OF that] prod.case
      press_char [symmetric] pressed_def by simp
qed

lemma kbdgetc_release:
  assumes "data \<noteq> 0xE0" "bit data 7"
  shows "kbdgetc KBS_DIB data s
    = (Some 0, s AND NOT (shiftcode (if bit s 6 then data else data AND 0x7F) OR E0ESC))"
  using assms dib top_bit [of data] has_E0(1) [of s] by (simp add: kbdgetc_def)


section \<open>The keyboard\<close>

definition keyboard :: "u8 list \<Rightarrow> u32 \<times> input \<Rightarrow> u32 \<times> input" where
  "keyboard bytes ks = fold kbdintr bytes ks"

lemma kbdintr_some: "kbdgetc KBS_DIB d s = (Some c, s') \<Longrightarrow> kbdintr d (s, i) = (s', snd (consoleintr [c] i))"
  using dib(2) by (simp add: kbdintr_def kbdgetc_def)

lemma consoleintr_zero: "snd (consoleintr [0] i) = i"
  by (simp add: console_key_def CtrlP_def CtrlU_def CtrlH_def DEL_def)

lemma keyboard_event:
  assumes e: "real_key e" and s: "\<not> bit s 6" and k: "key_step e (mods_of s) = (c, m)"
  shows "\<exists>s'. keyboard (codes e) (s, i) = (s', if c = 0 then i else snd (consoleintr [c] i)) \<and> mods_of s' = m \<and> \<not> bit s' 6"
proof (cases e)
  case (Press k)
  have km: "c = key_char k m" "m = mods_of (pressed k s)" using k Press by (auto simp: Let_def pressed_mods(1))
  have r: "\<not> bit (pressed k s) 6" using s pressed_mods(2) by simp
  show ?thesis
  proof (cases "bit k 7")
    case False
    note G = kbdgetc_press(1) [OF byte_bits(4) [OF False] False s]
    show ?thesis using kbdintr_some [OF G, of i] km Press False r consoleintr_zero [of i] by (auto simp: keyboard_def)
  next
    case True
    let ?d = "k AND 0x7F"
    have d: "\<not> bit ?d 7" by (simp add: low_bits)
    note G = kbdgetc_press(2) [OF byte_bits(4) [OF d] d s, unfolded byte_bits(1) [OF True]]
    show ?thesis
      using kbdintr_some [OF G, of i] kbdintr_some [OF kbdgetc_announce, of s i] km Press True r consoleintr_zero [of i]
      by (auto simp: keyboard_def)
  qed
next
  case (Release k)
  have km: "c = 0" "m = set_mods False k (mods_of s)" using k Release by auto
  have kr: "k \<noteq> 0x60" "k \<noteq> 0xE0" using e Release by (auto simp: real_key_def)
  show ?thesis
  proof (cases "bit k 7")
    case False
    have d: "k OR 0x80 \<noteq> 0xE0" "bit (k OR 0x80) 7" using byte_bits(3) [OF False kr(1)] by (simp_all add: high_bit)
    have "\<not> bit (s AND NOT (shiftcode k OR E0ESC)) 6" using s by (simp add: bit_and_iff)
    then show ?thesis
      using kbdintr_some [OF kbdgetc_release [OF d], of s i] s byte_bits(2) [OF False] km Release False consoleintr_zero [of i] mods_clear
      by (auto simp: keyboard_def)
  next
    case True
    have "\<not> bit ((s OR E0ESC) AND NOT (shiftcode k OR E0ESC)) 6" by (simp add: bit_and_iff bit_or_iff bit_not_iff mod_bits)
    then show ?thesis
      using kbdintr_some [OF kbdgetc_release [OF kr(2) True], of "s OR E0ESC" i] kbdintr_some [OF kbdgetc_announce, of s i]
        has_E0(2) [of s] km Release True consoleintr_zero [of i] mods_clear [of "s OR E0ESC" k] mods_E0(1) [of s]
      by (auto simp: keyboard_def)
  qed
qed

lemma keyboard_types:
  "\<forall>e\<in>set es. real_key e \<Longrightarrow> \<not> bit s 6 \<Longrightarrow> type_keys es (mods_of s) = (cs, m) \<Longrightarrow>
   \<exists>s'. keyboard (concat (map codes es)) (s, i) = (s', snd (consoleintr cs i)) \<and> mods_of s' = m \<and> \<not> bit s' 6"
proof (induction es arbitrary: s i cs)
  case Nil
  then show ?case by (simp add: keyboard_def)
next
  case (Cons e es)
  obtain c m1 cs1 where k: "key_step e (mods_of s) = (c, m1)" "type_keys es m1 = (cs1, m)" "cs = (if c = 0 then cs1 else c # cs1)"
    using Cons.prems(3) by (auto split: prod.splits if_splits)
  have rk: "real_key e" using Cons.prems(1) by simp
  obtain s1 where s1: "keyboard (codes e) (s, i) = (s1, if c = 0 then i else snd (consoleintr [c] i))" "mods_of s1 = m1" "\<not> bit s1 6"
    using keyboard_event [OF rk Cons.prems(2) k(1), of i] by blast
  have ty: "type_keys es (mods_of s1) = (cs1, m)" using k(2) s1(2) by simp
  have all: "\<forall>e\<in>set es. real_key e" using Cons.prems(1) by simp
  let ?i = "if c = 0 then i else snd (consoleintr [c] i)"
  obtain s' where s': "keyboard (concat (map codes es)) (s1, ?i) = (s', snd (consoleintr cs1 ?i))" "mods_of s' = m" "\<not> bit s' 6"
    using Cons.IH [OF all s1(3) ty, of ?i] by blast
  have "snd (consoleintr cs1 ?i) = snd (consoleintr cs i)"
    using k(3) consoleintr_append [of "[c]" cs1 i] by (auto split: prod.splits)
  then show ?case using s1(1) s' by (auto simp: keyboard_def)
qed


text \<open>
  C32. What is typed on the keyboard is what a read gets: for any sequence of presses and releases, with shift, control
  and the locks held as they may be, the line of their characters ended with enter is read as it was typed.
\<close>

theorem keys_are_read:
  assumes "\<forall>e\<in>set es. real_key e" "\<not> bit shift 6" "type_keys es (mods_of shift) = (cs @ [NL], m)"
    and "input_ok i" "handed i = []" "edited i = []"
    and "\<forall>c\<in>set cs. text_key c" "length cs < INPUT_BUF" "length cs < n"
  shows "\<exists>shift' i' i''. keyboard (concat (map codes es)) (shift, i) = (shift', i') \<and> mods_of shift' = m \<and>
    consoleread [] n i' = (Done (cs @ [NL]), i'') \<and> handed i'' = [] \<and> edited i'' = []"
  using keyboard_types [OF assms(1-3), of i] typed_line [OF assms(4-6) _ assms(7-9), of NL] by blast

text \<open>Shift and a, b, enter on an idle keyboard and an empty console.\<close>

definition Ab_enter :: "keyev list" where
  "Ab_enter = [Press 0x2A, Press 0x1E, Release 0x1E, Release 0x2A, Press 0x30, Release 0x30, Press 0x1C]"

theorem keys_are_read_witness:
  "\<exists>i'. consoleread [] 10 (snd (keyboard [0x2A, 0x1E, 0x9E, 0xAA, 0x30, 0xB0, 0x1C] (0, input0))) = (Done [65, 98, 10], i')"
proof -
  have t: "type_keys Ab_enter (mods_of 0) = ([65, 98] @ [NL], mods_of 0)"
    by code_simp
  have c: "concat (map codes Ab_enter) = [0x2A, 0x1E, 0x9E, 0xAA, 0x30, 0xB0, 0x1C]" by (simp add: Ab_enter_def)
  have "\<exists>shift' i' i''. keyboard (concat (map codes Ab_enter)) (0, input0) = (shift', i') \<and> mods_of shift' = mods_of 0 \<and>
      consoleread [] 10 i' = (Done ([65, 98] @ [NL]), i'') \<and> handed i'' = [] \<and> edited i'' = []"
    by (rule keys_are_read [OF _ _ t])
      (simp_all add: Ab_enter_def real_key_def input0_ok text_key_def CtrlD_def CtrlP_def CtrlU_def CtrlH_def DEL_def CR_def NL_def INPUT_BUF_def)
  then show ?thesis unfolding c by (auto simp: NL_def)
qed

end
