(* ===== verification/Screen.thy ===== *)
theory Screen
  imports Console Printf
begin

text \<open>
  The console's output (console.c): the screen memory and the cursor of \<open>cgaputc\<close>, and \<open>cprintf\<close>. A cell of the
  screen is a 16-bit word, the character in its low byte; the cursor is the register of the controller.
\<close>

section \<open>cgaputc\<close>

record cga =
  crt :: "nat \<Rightarrow> u16"
  cursor :: u16

definition cell :: "nat \<Rightarrow> u16" where
  "cell c = (of_nat c AND 0xFF) OR 0x0700"

definition moved :: "nat \<Rightarrow> nat \<Rightarrow> cga \<Rightarrow> nat \<times> cga" where
  "moved c pos s =
     (if c = 10 then (pos + (80 - pos mod 80), s)
      else if c = BACKSPACE then (if pos > 0 then pos - 1 else pos, s)
      else (pos + 1, s\<lparr>crt := (crt s)(pos := cell c)\<rparr>))"

text \<open>\<open>memmove\<close> of 23 rows, then \<open>memset\<close> from the cursor to the end of row 24.\<close>

definition scroll :: "nat \<Rightarrow> cga \<Rightarrow> nat \<times> cga" where
  "scroll pos s =
     (if pos div 80 \<ge> 24 then
        let m = (\<lambda>i. if i < 23 * 80 then crt s (i + 80) else crt s i); pos = pos - 80;
            m = (\<lambda>i. if pos \<le> i \<and> i < 24 * 80 then 0 else m i)
        in (pos, s\<lparr>crt := m\<rparr>)
      else (pos, s))"

definition cgaputc :: "nat \<Rightarrow> cga \<Rightarrow> cga res" where
  "cgaputc c s =
     (let (pos, s) = moved c (unat (cursor s)) s in
      if pos > 25 * 80 then Inl (Panic ''pos under/overflow'')
      else let (pos, s) = scroll pos s in
        Inr (s\<lparr>cursor := of_nat pos, crt := (crt s)(pos := cell 32)\<rparr>))"

section \<open>The screen as text\<close>

text \<open>The character that a cell shows; what has been cleared is a blank.\<close>

definition glyph :: "u16 \<Rightarrow> nat" where
  "glyph w = (let c = unat (w AND 0xFF) in if c = 0 then 32 else c)"

definition screen_text :: "cga \<Rightarrow> nat list" where
  "screen_text s = map (\<lambda>i. glyph (crt s i)) [0..<unat (cursor s)]"

text \<open>The cursor is in the 24 rows that are used, and behind it they are blank.\<close>

definition screen_ok :: "cga \<Rightarrow> bool" where
  "screen_ok s \<longleftrightarrow> unat (cursor s) < 24 * 80 \<and> (\<forall>i. unat (cursor s) \<le> i \<and> i < 24 * 80 \<longrightarrow> glyph (crt s i) = 32)"

text \<open>A text on a screen of 24 rows: the first row goes when there is no other room.\<close>

definition put_text :: "nat \<Rightarrow> nat list \<Rightarrow> nat list" where
  "put_text c t =
     (let t = (if c = 10 then t @ replicate (80 - length t mod 80) 32 else if c = BACKSPACE then butlast t
               else t @ [if c = 0 then 32 else c])
      in if length t \<ge> 24 * 80 then drop 80 t else t)"

lemma byte_and: "n < 256 \<Longrightarrow> unat ((of_nat n :: u16) AND 0xFF) = n"
proof -
  assume n: "n < 256"
  have "(0xFF :: u16) = mask 8" by (simp add: mask_eq_exp_minus_1)
  moreover have "unat (w AND mask 8) = unat w mod 2 ^ 8" for w :: u16
    by (metis take_bit_eq_mask unsigned_take_bit_eq take_bit_eq_mod)
  ultimately have "unat ((of_nat n :: u16) AND 0xFF) = unat (of_nat n :: u16) mod 2 ^ 8" by (simp only:)
  then show ?thesis using n by (simp add: unsigned_of_nat take_bit_nat_eq_self)
qed

lemma glyph_cell: "c < 256 \<Longrightarrow> glyph (cell c) = (if c = 0 then 32 else c)"
proof -
  assume c: "c < 256"
  have "((of_nat c AND 0xFF) OR 0x0700) AND 0xFF = (of_nat c AND 0xFF :: u16)"
    by (simp add: bit.conj_disj_distrib2 and.assoc)
  then show ?thesis using byte_and [OF c] by (simp add: glyph_def cell_def)
qed

lemma glyph_0: "glyph 0 = 32"
  by (simp add: glyph_def)

lemma next_row: "p < 1920 \<Longrightarrow> p + (80 - p mod 80) \<le> (1920 :: nat)"
proof -
  assume "p < 1920"
  then have "p div 80 \<le> 23" by (simp add: less_Suc_eq_le [symmetric] div_less_iff_less_mult)
  moreover have "80 * (p div 80) + p mod 80 = p" "p mod 80 < 80" by simp_all
  ultimately show ?thesis by linarith
qed

text \<open>The move, before the screen scrolls.\<close>

lemma moved_text:
  assumes ok: "screen_ok s" and c: "c < 256 \<or> c = BACKSPACE" and m: "moved c (unat (cursor s)) s = (pos, s')"
  defines "t \<equiv> (if c = 10 then screen_text s @ replicate (80 - length (screen_text s) mod 80) 32
      else if c = BACKSPACE then butlast (screen_text s) else screen_text s @ [if c = 0 then 32 else c])"
  shows "pos \<le> 24 * 80" "map (\<lambda>i. glyph (crt s' i)) [0..<pos] = t" "length t = pos"
    "\<forall>i. pos < i \<and> i < 24 * 80 \<longrightarrow> glyph (crt s' i) = 32" "i \<ge> 24 * 80 \<Longrightarrow> crt s' i = crt s i" "cursor s' = cursor s"
proof -
  let ?p = "unat (cursor s)"
  have p: "?p < 1920" and blank: "\<And>i. ?p \<le> i \<Longrightarrow> i < 1920 \<Longrightarrow> glyph (crt s i) = 32" using ok by (auto simp: screen_ok_def)
  have l: "length (screen_text s) = ?p" by (simp add: screen_text_def)
  have "pos \<le> 1920 \<and> map (\<lambda>i. glyph (crt s' i)) [0..<pos] = t \<and> length t = pos \<and>
    (\<forall>i. pos < i \<and> i < 1920 \<longrightarrow> glyph (crt s' i) = 32) \<and> (\<forall>i \<ge> 1920. crt s' i = crt s i) \<and> cursor s' = cursor s"
  proof (cases "c = 10")
    case True
    then have e: "pos = ?p + (80 - ?p mod 80)" "s' = s" using m by (auto simp: moved_def)
    have "pos \<le> 1920" unfolding e by (rule next_row [OF p])
    moreover have "map (\<lambda>i. glyph (crt s i)) [?p..<?p + (80 - ?p mod 80)] = replicate (80 - ?p mod 80) 32"
      by (rule nth_equalityI) (use blank e calculation in auto)
    moreover have "[0..<?p + (80 - ?p mod 80)] = [0..<?p] @ [?p..<?p + (80 - ?p mod 80)]"
      by (rule upt_add_eq_append) simp
    ultimately have "map (\<lambda>i. glyph (crt s' i)) [0..<pos] = t" "pos \<le> 1920"
      unfolding e using True l by (simp_all only: t_def screen_text_def map_append length_map if_True)
        (simp_all add: l e)
    then show ?thesis using e l blank True by (auto simp: t_def)
  next
    case c10: False
    show ?thesis
    proof (cases "c = BACKSPACE")
      case True
      then have e: "pos = ?p - 1" "s' = s" using m by (auto simp: moved_def BACKSPACE_def)
      have "butlast (screen_text s) = map (\<lambda>i. glyph (crt s i)) [0..<?p - 1]"
        by (simp add: screen_text_def butlast_conv_take take_map)
      then show ?thesis using True e p blank l by (auto simp: t_def BACKSPACE_def)
    next
      case False
      then have e: "pos = ?p + 1" "s' = s\<lparr>crt := (crt s)(?p := cell c)\<rparr>" "c < 256" using m c c10 by (auto simp: moved_def)
      then show ?thesis using c10 False p blank glyph_cell [OF e(3)] by (auto simp: t_def screen_text_def)
    qed
  qed
  then show "pos \<le> 24 * 80" "map (\<lambda>i. glyph (crt s' i)) [0..<pos] = t" "length t = pos"
    "\<forall>i. pos < i \<and> i < 24 * 80 \<longrightarrow> glyph (crt s' i) = 32" "i \<ge> 24 * 80 \<Longrightarrow> crt s' i = crt s i" "cursor s' = cursor s"
    by simp_all
qed

lemma putc_text:
  assumes ok: "screen_ok s" and c: "c < 256 \<or> c = BACKSPACE"
  shows "\<exists>s'. cgaputc c s = Inr s' \<and> screen_ok s' \<and> screen_text s' = put_text c (screen_text s) \<and>
    (\<forall>i \<ge> 24 * 80. crt s' i = crt s i)"
proof -
  obtain pos s1 where m: "moved c (unat (cursor s)) s = (pos, s1)" by fastforce
  note M = moved_text [OF ok c m]
  define t where "t = map (\<lambda>i. glyph (crt s1 i)) [0..<pos]"
  have put: "put_text c (screen_text s) = (if pos \<ge> 1920 then drop 80 t else t)"
    using M(2,3) by (simp add: put_text_def t_def Let_def)
  have blank: "glyph (cell 32) = 32" by (simp add: glyph_cell)
  show ?thesis
  proof (cases "pos div 80 \<ge> 24")
    case True
    then have p: "pos = 1920" using M(1) by simp
    let ?m = "\<lambda>i. if 1840 \<le> i \<and> i < 1920 then 0 else if i < 1840 then crt s1 (i + 80) else crt s1 i"
    let ?s = "s1\<lparr>cursor := of_nat 1840, crt := ?m(1840 := cell 32)\<rparr>"
    have e: "cgaputc c s = Inr ?s" using m p by (simp add: cgaputc_def scroll_def Let_def cong: if_cong)
    have u: "unat (cursor ?s) = 1840" by simp
    have "screen_text ?s = drop 80 t"
      unfolding screen_text_def u t_def p by (rule nth_equalityI) (simp_all add: add.commute)
    moreover have "screen_ok ?s" by (auto simp: screen_ok_def u blank glyph_0)
    moreover have "\<forall>i \<ge> 1920. crt ?s i = crt s i" using M(5) by simp
    ultimately show ?thesis using e put p by auto
  next
    case False
    then have p: "pos < 1920" using M(1) by (simp add: not_le div_less_iff_less_mult)
    let ?s = "s1\<lparr>cursor := of_nat pos, crt := (crt s1)(pos := cell 32)\<rparr>"
    have e: "cgaputc c s = Inr ?s" using m False p by (simp add: cgaputc_def scroll_def Let_def)
    have v: "unat (of_nat pos :: u16) = pos" using p by (simp add: unsigned_of_nat take_bit_nat_eq_self)
    then have u: "unat (cursor ?s) = pos" by simp
    have "screen_text ?s = t" unfolding screen_text_def u t_def by simp
    moreover have "screen_ok ?s" using p M(4) by (auto simp: screen_ok_def v blank simp del: unsigned_of_nat)
    moreover have "\<forall>i \<ge> 1920. crt ?s i = crt s i" using M(5) p by simp
    ultimately show ?thesis using e put p by auto
  qed
qed

section \<open>cprintf\<close>

text \<open>What \<open>cprintf\<close> gives to \<open>consputc\<close>; the arguments are words and \<open>str\<close> gives the C string at an address.\<close>

function cprintf :: "(u32 \<Rightarrow> string) \<Rightarrow> string \<Rightarrow> u32 list \<Rightarrow> string res" where
  "cprintf str [] args = Inr []"
| "cprintf str (c # fmt) args =
     (if c \<noteq> CHR ''%'' then emit [c] (cprintf str fmt args)
      else case fmt of
        [] \<Rightarrow> Inr []
      | c # fmt \<Rightarrow>
          if c = CHR ''d'' then
            rbind (next_arg args) (\<lambda>(a, args). rbind (cons_printint a 10 True) (\<lambda>s. emit s (cprintf str fmt args)))
          else if c = CHR ''x'' \<or> c = CHR ''p'' then
            rbind (next_arg args) (\<lambda>(a, args). rbind (cons_printint a 16 False) (\<lambda>s. emit s (cprintf str fmt args)))
          else if c = CHR ''s'' then
            rbind (next_arg args) (\<lambda>(a, args). emit (if a = 0 then ''(null)'' else str a) (cprintf str fmt args))
          else if c = CHR ''%'' then emit [c] (cprintf str fmt args)
          else emit [CHR ''%'', c] (cprintf str fmt args))"
  by pat_completeness auto
termination
  by (relation "measure (\<lambda>(str, fmt, args). length fmt)") auto

definition cga_puts :: "string \<Rightarrow> cga \<Rightarrow> cga res" where
  "cga_puts out s = fold (\<lambda>c r. rbind r (cgaputc (of_char c))) out (Inr s)"

text \<open>The text of a format: the pieces between the directives, and the numbers in decimal or hexadecimal.\<close>

definition signed_decimal :: "u32 \<Rightarrow> string" where
  "signed_decimal x = (if sint x < 0 then ''-'' else []) @ numeral_of digits_lower 10 (absolute x)"

fun rendered :: "(u32 \<Rightarrow> string) \<Rightarrow> string \<Rightarrow> u32 list \<Rightarrow> string" where
  "rendered str [] args = []"
| "rendered str [c] args = (if c = CHR ''%'' then [] else [c])"
| "rendered str (c # d # fmt) args =
     (if c \<noteq> CHR ''%'' then c # rendered str (d # fmt) args
      else if d = CHR ''d'' then signed_decimal (hd args) @ rendered str fmt (tl args)
      else if d = CHR ''x'' \<or> d = CHR ''p'' then numeral_of digits_lower 16 (unat (hd args)) @ rendered str fmt (tl args)
      else if d = CHR ''s'' then (if hd args = 0 then ''(null)'' else str (hd args)) @ rendered str fmt (tl args)
      else (if d = CHR ''%'' then [d] else [CHR ''%'', d]) @ rendered str fmt args)"

fun directives :: "string \<Rightarrow> nat" where
  "directives (c # d # fmt) =
     (if c \<noteq> CHR ''%'' then directives (d # fmt)
      else (if d \<in> {CHR ''d'', CHR ''x'', CHR ''p'', CHR ''s''} then 1 else 0) + directives fmt)"
| "directives fmt = 0"

lemma cons_printint_decimal: "cons_printint x 10 True = Inr (signed_decimal x)"
proof -
  let ?x = "if x <s 0 then - x else x"
  have l: "length (nat_digits 10 (absolute x)) \<le> 10" by (rule decimal_digits_bound)
  have "digit_loop digits_lower 10 ?x [] = Inr (map (\<lambda>d. digits_lower ! d) (nat_digits 10 (absolute x)))"
    using l digit_loop_digits [of 10 digits_lower ?x "[]"] unat_absolute [of x] by (simp add: Let_def BUFSZ_def)
  then show ?thesis using l
    by (auto simp: cons_printint_def Let_def store_def BUFSZ_def signed_decimal_def numeral_of_def word_sless_alt)
qed

lemma cons_printint_hexadecimal: "cons_printint x 16 False = Inr (numeral_of digits_lower 16 (unat x))"
proof -
  have "length (nat_digits 16 (unat x)) \<le> Suc 7" by (rule nat_digits_bound) (use unsigned_less [of x] in auto)
  then show ?thesis using digit_loop_digits [of 16 digits_lower x "[]"]
    by (simp add: cons_printint_def Let_def BUFSZ_def numeral_of_def)
qed

lemma cprintf_renders: "directives fmt \<le> length args \<Longrightarrow> cprintf str fmt args = Inr (rendered str fmt args)"
proof (induction str fmt args rule: rendered.induct)
  case (3 str c d fmt args)
  show ?case
  proof (cases "c = CHR ''%'' \<and> d \<in> {CHR ''d'', CHR ''x'', CHR ''p'', CHR ''s''}")
    case True
    then obtain a as where a: "args = a # as" using "3.prems" by (cases args) auto
    show ?thesis using True 3 a
      by (auto simp: emit_def next_arg_def cons_printint_decimal cons_printint_hexadecimal)
  qed (use 3 in \<open>auto simp: emit_def\<close>)
qed (simp_all add: emit_def)

lemma cga_puts_Cons: "cga_puts (c # out) s = rbind (cgaputc (of_char c) s) (cga_puts out)"
proof -
  have "fold (\<lambda>c r. rbind r (cgaputc (of_char c))) out (Inl e) = Inl e" for e
    by (induction out) simp_all
  then show ?thesis by (cases "cgaputc (of_char c) s") (simp_all add: cga_puts_def)
qed

lemma puts_text:
  "screen_ok s \<Longrightarrow> \<exists>s'. cga_puts out s = Inr s' \<and> screen_ok s' \<and>
    screen_text s' = fold (\<lambda>c. put_text (of_char c)) out (screen_text s) \<and> (\<forall>i \<ge> 24 * 80. crt s' i = crt s i)"
proof (induction out arbitrary: s)
  case Nil
  then show ?case by (simp add: cga_puts_def)
next
  case (Cons c out)
  obtain s1 where s1: "cgaputc (of_char c) s = Inr s1" "screen_ok s1"
    "screen_text s1 = put_text (of_char c) (screen_text s)" "\<forall>i \<ge> 24 * 80. crt s1 i = crt s i"
    using putc_text [OF Cons.prems, of "of_char c"] by auto
  then show ?case using Cons.IH [OF s1(2)] by (auto simp: cga_puts_Cons)
qed

text \<open>
  C33. What \<open>cprintf\<close> prints is what the screen shows: with an argument for each directive it stays in the buffers of
  \<open>printint\<close> and gives the text of the format with its numbers; the screen then shows the text of before with this
  text behind it, scrolled by rows as it fills up. \<open>cgaputc\<close> neither panics nor writes behind the 24 rows.
\<close>

theorem cprintf_on_screen:
  assumes "screen_ok s" and "directives fmt \<le> length args"
  shows "\<exists>s'. rbind (cprintf str fmt args) (\<lambda>out. cga_puts out s) = Inr s' \<and> screen_ok s' \<and>
    screen_text s' = fold (\<lambda>c. put_text (of_char c)) (rendered str fmt args) (screen_text s) \<and>
    (\<forall>i \<ge> 24 * 80. crt s' i = crt s i)"
  using puts_text [OF assms(1), of "rendered str fmt args"] cprintf_renders [OF assms(2), of str] by simp

text \<open>Two lines on an empty screen.\<close>

definition screen0 :: cga where "screen0 = \<lparr>crt = \<lambda>_. 0, cursor = 0\<rparr>"

theorem cprintf_on_screen_witness:
  "\<exists>s'. rbind (cprintf (\<lambda>_. []) ''%d %x'' [- 7, 255]) (\<lambda>out. cga_puts out screen0) = Inr s' \<and>
    screen_text s' = [45, 55, 32, 102, 102]"
proof -
  have ok: "screen_ok screen0" "screen_text screen0 = []"
    by (simp_all add: screen_ok_def screen_text_def screen0_def glyph_0)
  have r: "fold (\<lambda>c. put_text (of_char c)) (rendered (\<lambda>_. []) ''%d %x'' [- 7, 255]) [] = [45, 55, 32, 102, 102]"
    by code_simp
  show ?thesis using cprintf_on_screen [OF ok(1), of "''%d %x''" "[- 7, 255]" "\<lambda>_. []"] r ok(2) by auto
qed

end
