(* ===== verification/Fibers.thy ===== *)
theory Fibers
  imports Prelude
begin

text \<open>
  The library of user threads (fiber.c of fibers/fibers and fibers/pfibers). A pointer to a \<open>struct Fiber\<close> is a number, 0
  is NULL, and what has been freed is \<open>None\<close>: reading it is not defined. The result of an operation is \<open>None\<close> when
  it reads such a fiber or walks round the list for ever.
\<close>

section \<open>The list of fibers\<close>

record fiber =
  fnext :: nat
  ff :: nat
  fargs :: nat
  finished :: bool

type_synonym fheap = "nat \<Rightarrow> fiber option"

record fibers_state =
  fibers :: fheap
  cur :: nat

text \<open>The static variable of the main fiber.\<close>

definition Main_fiber :: nat where "Main_fiber = 1"

definition InitMainFiber :: "fibers_state \<Rightarrow> fibers_state" where
  "InitMainFiber s =
     (if cur s \<noteq> 0 then s
      else s\<lparr>fibers := (fibers s)(Main_fiber \<mapsto> \<lparr>fnext = Main_fiber, ff = 0, fargs = 0, finished = False\<rparr>),
             cur := Main_fiber\<rparr>)"

partial_function (option) tail_loop :: "nat \<Rightarrow> fheap \<Rightarrow> nat \<Rightarrow> nat option" where
  "tail_loop c h t =
     (case h t of None \<Rightarrow> None | Some f \<Rightarrow> if fnext f = c then Some t else tail_loop c h (fnext f))"

text \<open>\<open>p\<close> is what \<open>malloc\<close> returns for the fiber; the code does not look whether it is NULL.\<close>

definition FiberSpawn :: "nat \<Rightarrow> nat \<Rightarrow> nat \<Rightarrow> fibers_state \<Rightarrow> fibers_state option" where
  "FiberSpawn p f args s =
     (if f = 0 then Some s
      else let s = InitMainFiber s in
        if p = 0 then None
        else let h = (fibers s)(p \<mapsto> \<lparr>fnext = cur s, ff = f, fargs = args, finished = False\<rparr>) in
          (case tail_loop (cur s) h (cur s) of None \<Rightarrow> None
           | Some t \<Rightarrow> (case h t of None \<Rightarrow> None
              | Some g \<Rightarrow> Some (s\<lparr>fibers := h(t \<mapsto> g\<lparr>fnext := p\<rparr>)\<rparr>))))"

partial_function (option) free_finished_loop :: "nat \<Rightarrow> fheap \<Rightarrow> nat \<Rightarrow> nat \<Rightarrow> fheap option" where
  "free_finished_loop c h prev x =
     (if x = c then Some h
      else case h x of None \<Rightarrow> None
        | Some f \<Rightarrow>
            if finished f then
              (case h prev of None \<Rightarrow> None
               | Some g \<Rightarrow> free_finished_loop c ((h(prev \<mapsto> g\<lparr>fnext := fnext f\<rparr>))(x := None)) prev (fnext f))
            else free_finished_loop c h x (fnext f))"

definition FreeFinishedFibers :: "fibers_state \<Rightarrow> fibers_state option" where
  "FreeFinishedFibers s =
     (case fibers s (cur s) of None \<Rightarrow> None
      | Some f \<Rightarrow> map_option (\<lambda>h. s\<lparr>fibers := h\<rparr>) (free_finished_loop (cur s) (fibers s) (cur s) (fnext f)))"

text \<open>The current fiber is the one that control goes to.\<close>

definition FiberYield :: "fibers_state \<Rightarrow> fibers_state option" where
  "FiberYield s =
     (case FreeFinishedFibers (InitMainFiber s) of None \<Rightarrow> None
      | Some s \<Rightarrow> (case fibers s (cur s) of None \<Rightarrow> None
         | Some f \<Rightarrow> if fnext f = cur s then Some s else Some (s\<lparr>cur := fnext f\<rparr>)))"

definition FiberTryJoin :: "fibers_state \<Rightarrow> (bool \<times> fibers_state) option" where
  "FiberTryJoin s =
     (case FreeFinishedFibers (InitMainFiber s) of None \<Rightarrow> None
      | Some s \<Rightarrow> (case fibers s (cur s) of None \<Rightarrow> None
         | Some f \<Rightarrow> Some (fnext f = cur s, s)))"

text \<open>The end of \<open>FiberTrampoline\<close>, once the function of the fiber has returned; when control comes back, \<open>assert(0)\<close>.\<close>

definition FiberTrampoline_end :: "fibers_state \<Rightarrow> fibers_state option" where
  "FiberTrampoline_end s =
     (case fibers s (cur s) of None \<Rightarrow> None
      | Some f \<Rightarrow> (case FiberYield (s\<lparr>fibers := (fibers s)(cur s \<mapsto> f\<lparr>finished := True\<rparr>)\<rparr>) of None \<Rightarrow> None
          | Some s' \<Rightarrow> if cur s' = cur s then None else Some s'))"

text \<open>The timer signal of pfibers, as far as the list goes.\<close>

definition fiber_sched :: "fibers_state \<Rightarrow> fibers_state option" where
  "fiber_sched s =
     (case fibers s (cur s) of None \<Rightarrow> None
      | Some f \<Rightarrow> if fnext f = cur s then Some s else Some (s\<lparr>cur := fnext f\<rparr>))"

section \<open>The list as a queue\<close>

fun chain :: "fheap \<Rightarrow> nat \<Rightarrow> nat list \<Rightarrow> nat \<Rightarrow> bool" where
  "chain h x [] y = (x = y)"
| "chain h x (a # as) y = (x = a \<and> (case h a of None \<Rightarrow> False | Some f \<Rightarrow> chain h (fnext f) as y))"

definition unfinished :: "fheap \<Rightarrow> nat \<Rightarrow> bool" where
  "unfinished h x = (case h x of None \<Rightarrow> True | Some f \<Rightarrow> \<not> finished f)"

text \<open>The fibers in the order in which they run, the current one first.\<close>

definition queue :: "fibers_state \<Rightarrow> nat list \<Rightarrow> bool" where
  "queue s xs \<longleftrightarrow> xs \<noteq> [] \<and> distinct xs \<and> chain (fibers s) (cur s) xs (cur s) \<and> 0 \<notin> set xs"

lemma chain_app: "chain h x (as @ bs) y \<longleftrightarrow> (\<exists>z. chain h x as z \<and> chain h z bs y)"
  by (induction as arbitrary: x) (auto split: option.splits)

lemma chain_cong: "(\<And>a. a \<in> set as \<Longrightarrow> map_option fnext (h' a) = map_option fnext (h a)) \<Longrightarrow> chain h' x as y = chain h x as y"
proof (induction as arbitrary: x)
  case (Cons a as)
  have "map_option fnext (h' a) = map_option fnext (h a)" by (rule Cons.prems) simp
  moreover have "chain h' z as y = chain h z as y" for z by (rule Cons.IH) (rule Cons.prems, simp)
  ultimately show ?case by (cases "h a"; cases "h' a") auto
qed simp

lemma chain_upd: "a \<notin> set as \<Longrightarrow> chain (h(a := v)) x as y = chain h x as y"
  by (rule chain_cong) auto

lemma chain_end: "chain h x (as @ [t]) y \<Longrightarrow> \<exists>f. h t = Some f \<and> fnext f = y"
  by (auto simp: chain_app split: option.splits)

lemma tail_loop_finds:
  "chain h x (as @ [t]) c \<Longrightarrow> c \<notin> set (tl (as @ [t])) \<Longrightarrow> tail_loop c h x = Some t"
proof (induction as arbitrary: x)
  case Nil
  then show ?case by (subst tail_loop.simps) (auto split: option.splits)
next
  case (Cons a as)
  then obtain f where f: "h a = Some f" "x = a" "chain h (fnext f) (as @ [t]) c" by (auto split: option.splits)
  have c: "c \<notin> set (as @ [t])" using Cons.prems(2) by simp
  then have "fnext f \<noteq> c" using f(3) by (cases as) (auto split: option.splits)
  moreover have "c \<notin> set (tl (as @ [t]))" using c by (cases as) auto
  ultimately show ?case using Cons.IH [OF f(3)] f(1,2) by (subst tail_loop.simps) simp
qed

text \<open>What a fiber is, apart from its place in the list.\<close>

definition data :: "fheap \<Rightarrow> nat \<Rightarrow> (nat \<times> nat \<times> bool) option" where
  "data h y = map_option (\<lambda>f. (ff f, fargs f, finished f)) (h y)"

definition swept :: "fheap \<Rightarrow> nat \<Rightarrow> nat list \<Rightarrow> nat \<Rightarrow> fheap \<Rightarrow> bool" where
  "swept h prev xs c h' \<longleftrightarrow> chain h' prev (prev # filter (unfinished h) xs) c \<and>
     (\<forall>y. y \<noteq> prev \<and> y \<notin> set xs \<longrightarrow> h' y = h y) \<and>
     (\<forall>y. y = prev \<or> y \<in> set xs \<and> unfinished h y \<longrightarrow> data h' y = data h y) \<and>
     (\<forall>y\<in>set xs. \<not> unfinished h y \<longrightarrow> h' y = None)"

text \<open>One pass over the rest of the list unlinks and frees the finished fibers, and nothing else.\<close>

lemma free_finished_sweeps:
  assumes "chain h x xs c" "h prev = Some g" "fnext g = x" "distinct (prev # xs)" "c \<notin> set xs"
  shows "\<exists>h'. free_finished_loop c h prev x = Some h' \<and> swept h prev xs c h'"
  using assms
proof (induction xs arbitrary: h prev g x)
  case Nil
  then show ?case by (intro exI [of _ h]) (simp add: free_finished_loop.simps swept_def)
next
  case (Cons a xs)
  obtain f where f: "h a = Some f" "x = a" "chain h (fnext f) xs c" using Cons.prems(1) by (auto split: option.splits)
  have xc: "a \<noteq> c" using Cons.prems(5) by auto
  have ne: "a \<noteq> prev" "a \<notin> set xs" "prev \<notin> set xs" "distinct xs" "c \<notin> set xs" using Cons.prems(4,5) by auto
  show ?case
  proof (cases "finished f")
    case False
    have s: "free_finished_loop c h prev x = free_finished_loop c h a (fnext f)" using f xc False by (subst free_finished_loop.simps) simp
    have k: "unfinished h a" using f False by (simp add: unfinished_def)
    obtain h' where h': "free_finished_loop c h a (fnext f) = Some h'" "swept h a xs c h'"
      using Cons.IH [OF f(3) f(1) refl] ne by auto
    have p: "h' prev = Some g" using h'(2) ne Cons.prems(2) unfolding swept_def by metis
    have "swept h prev (a # xs) c h'"
      using h'(2) p k f(2) Cons.prems(2,3) unfolding swept_def by (auto simp: data_def)
    then show ?thesis using s h'(1) by auto
  next
    case True
    let ?h = "(h(prev \<mapsto> g\<lparr>fnext := fnext f\<rparr>))(a := None)"
    have s: "free_finished_loop c h prev x = free_finished_loop c ?h prev (fnext f)" using f xc True Cons.prems(2) by (subst free_finished_loop.simps) simp
    have k: "\<not> unfinished h a" using f True by (simp add: unfinished_def)
    have pr: "chain ?h (fnext f) xs c" using f(3) ne by (simp add: chain_upd)
    have fl: "filter (unfinished ?h) xs = filter (unfinished h) xs"
      by (rule filter_cong [OF refl]) (use ne in \<open>auto simp: unfinished_def\<close>)
    have u: "unfinished ?h y = unfinished h y" if "y \<in> set xs" for y using that ne by (auto simp: unfinished_def)
    obtain h' where h': "free_finished_loop c ?h prev (fnext f) = Some h'" "swept ?h prev xs c h'"
      using Cons.IH [OF pr, of prev "g\<lparr>fnext := fnext f\<rparr>"] ne by (auto simp del: fun_upd_apply simp: fun_upd_same fun_upd_other)
    have d: "data ?h prev = data h prev" using ne Cons.prems(2) by (simp add: data_def)
    have "swept h prev (a # xs) c h'"
      unfolding swept_def
    proof (intro conjI)
      show "chain h' prev (prev # filter (unfinished h) (a # xs)) c" using h'(2) k fl by (simp add: swept_def)
      show "\<forall>y. y \<noteq> prev \<and> y \<notin> set (a # xs) \<longrightarrow> h' y = h y" using h'(2) by (simp add: swept_def)
      show "\<forall>y. y = prev \<or> y \<in> set (a # xs) \<and> unfinished h y \<longrightarrow> data h' y = data h y"
      proof (intro allI impI)
        fix y assume y: "y = prev \<or> y \<in> set (a # xs) \<and> unfinished h y"
        then have y': "y = prev \<or> y \<in> set xs \<and> unfinished ?h y" using k u by auto
        then have "data h' y = data ?h y" using h'(2) unfolding swept_def by blast
        also have "\<dots> = data h y" using y' d ne by (cases "y = prev") (auto simp: data_def)
        finally show "data h' y = data h y" .
      qed
      show "\<forall>y\<in>set (a # xs). \<not> unfinished h y \<longrightarrow> h' y = None"
        using h'(2) u ne unfolding swept_def by auto
    qed
    then show ?thesis using s h'(1) by auto
  qed
qed

section \<open>The operations on the queue\<close>

lemma queueD:
  assumes "queue s (x # ys)"
  obtains f where "fibers s x = Some f" "cur s = x" "chain (fibers s) (fnext f) ys x" "x \<noteq> 0" "x \<notin> set ys" "distinct ys" "0 \<notin> set ys"
  using assms by (auto simp: queue_def split: option.splits)

lemma free_finished:
  assumes "queue s (x # ys)"
  shows "\<exists>h. FreeFinishedFibers s = Some (s\<lparr>fibers := h\<rparr>) \<and> swept (fibers s) x ys x h \<and>
    queue (s\<lparr>fibers := h\<rparr>) (x # filter (unfinished (fibers s)) ys)"
proof -
  obtain f where f: "fibers s x = Some f" "cur s = x" "chain (fibers s) (fnext f) ys x" "x \<noteq> 0" "x \<notin> set ys" "distinct ys" "0 \<notin> set ys"
    by (rule queueD [OF assms])
  obtain h where h: "free_finished_loop x (fibers s) x (fnext f) = Some h" "swept (fibers s) x ys x h"
    using free_finished_sweeps [OF f(3,1) refl] f(5,6) by auto
  have "queue (s\<lparr>fibers := h\<rparr>) (x # filter (unfinished (fibers s)) ys)"
    using h(2) f by (auto simp: queue_def swept_def)
  then show ?thesis using h f(1,2) by (intro exI [of _ h]) (simp add: FreeFinishedFibers_def)
qed

lemma init_started: "cur s \<noteq> 0 \<Longrightarrow> InitMainFiber s = s"
  by (simp add: InitMainFiber_def)

text \<open>The next fiber becomes the current one, and the old one the last.\<close>

lemma queue_rotate:
  assumes "queue s (x # z # zs)" "fibers s x = Some f"
  shows "fnext f = z" "queue (s\<lparr>cur := fnext f\<rparr>) (z # zs @ [x])"
proof -
  have p: "chain (fibers s) (fnext f) (z # zs) x" using assms by (auto elim: queueD)
  then show n: "fnext f = z" by simp
  have "chain (fibers s) x [x] z" using assms(2) n by simp
  then have "chain (fibers s) (fnext f) ((z # zs) @ [x]) z" using p unfolding chain_app by blast
  then show "queue (s\<lparr>cur := fnext f\<rparr>) (z # zs @ [x])" using assms(1) n by (auto simp: queue_def)
qed

lemma yield_queue:
  assumes q: "queue s (x # ys)"
  defines "zs \<equiv> filter (unfinished (fibers s)) ys"
  shows "\<exists>s'. FiberYield s = Some s' \<and> queue s' (zs @ [x]) \<and> swept (fibers s) x ys x (fibers s')"
proof -
  obtain h where h: "FreeFinishedFibers s = Some (s\<lparr>fibers := h\<rparr>)" "swept (fibers s) x ys x h" "queue (s\<lparr>fibers := h\<rparr>) (x # zs)"
    using free_finished [OF q] unfolding zs_def by blast
  obtain f where f: "h x = Some f" "cur s = x" "chain h (fnext f) zs x" "x \<noteq> 0"
    using queueD [OF h(3)] by auto
  show ?thesis
  proof (cases zs)
    case Nil
    then have "FiberYield s = Some (s\<lparr>fibers := h\<rparr>)" using f h(1) by (simp add: FiberYield_def init_started)
    then show ?thesis using h(2,3) Nil by auto
  next
    case (Cons z zs')
    have r: "fnext f = z" "queue ((s\<lparr>fibers := h\<rparr>)\<lparr>cur := fnext f\<rparr>) (z # zs' @ [x])"
      using queue_rotate [OF h(3) [unfolded Cons]] f(1) by simp_all
    have "z \<noteq> x" using h(3) Cons by (auto simp: queue_def)
    then have "FiberYield s = Some ((s\<lparr>fibers := h\<rparr>)\<lparr>cur := fnext f\<rparr>)"
      using f h(1) r(1) by (simp add: FiberYield_def init_started)
    then show ?thesis using r(2) h(2) Cons by auto
  qed
qed

lemma join_queue:
  assumes q: "queue s (x # ys)"
  defines "zs \<equiv> filter (unfinished (fibers s)) ys"
  shows "\<exists>s'. FiberTryJoin s = Some (zs = [], s') \<and> queue s' (x # zs) \<and> swept (fibers s) x ys x (fibers s')"
proof -
  obtain h where h: "FreeFinishedFibers s = Some (s\<lparr>fibers := h\<rparr>)" "swept (fibers s) x ys x h" "queue (s\<lparr>fibers := h\<rparr>) (x # zs)"
    using free_finished [OF q] unfolding zs_def by blast
  obtain f where f: "h x = Some f" "cur s = x" "chain h (fnext f) zs x" "x \<noteq> 0" "x \<notin> set zs"
    using queueD [OF h(3)] by auto
  have "fnext f = x \<longleftrightarrow> zs = []" using f(3,5) by (cases zs) auto
  then show ?thesis using h f(1,2,4) by (auto simp: FiberTryJoin_def init_started)
qed

lemma spawn_queue:
  assumes q: "queue s (x # ys)" and p: "p \<noteq> 0" "p \<notin> set (x # ys)" and f: "fn \<noteq> 0"
  shows "\<exists>s'. FiberSpawn p fn args s = Some s' \<and> queue s' (x # ys @ [p]) \<and> data (fibers s') p = Some (fn, args, False) \<and>
    (\<forall>y. y \<noteq> p \<longrightarrow> data (fibers s') y = data (fibers s) y)"
proof -
  obtain g0 where c: "cur s = x" "x \<noteq> 0" using q by (auto elim: queueD)
  let ?h = "(fibers s)(p \<mapsto> \<lparr>fnext = cur s, ff = fn, fargs = args, finished = False\<rparr>)"
  obtain as t where as: "x # ys = as @ [t]" by (metis append_butlast_last_id list.distinct(1))
  have ph: "chain ?h x (as @ [t]) x" using q p(2) c unfolding as [symmetric] queue_def by (metis chain_upd)
  have "x \<notin> set (tl (as @ [t]))" using q unfolding as [symmetric] by (simp add: queue_def)
  then have tl: "tail_loop x ?h x = Some t" by (rule tail_loop_finds [OF ph])
  obtain g where g: "?h t = Some g" "fnext g = x" using chain_end [OF ph] by blast
  let ?h' = "?h(t \<mapsto> g\<lparr>fnext := p\<rparr>)"
  have tp: "t \<noteq> p" using p(2) as by (metis in_set_conv_decomp)
  have d: "distinct (as @ [t])" using q as by (metis queue_def)
  have "chain ?h x as t" using ph by (auto simp: chain_app split: option.splits)
  then have "chain ?h' x as t" using d by (subst chain_upd) auto
  moreover have "chain ?h' t [t, p] x" using tp c(1) by simp
  ultimately have "chain ?h' x (as @ [t, p]) x" unfolding chain_app by blast
  then have "queue (s\<lparr>fibers := ?h'\<rparr>) (x # ys @ [p])"
  proof -
    have e: "x # ys @ [p] = as @ [t, p]" using arg_cong [OF as, of "\<lambda>zs. zs @ [p]"] by simp
    show ?thesis unfolding e queue_def using \<open>chain ?h' x (as @ [t, p]) x\<close> q p d c(1) tp
      unfolding as [symmetric] queue_def by (auto simp: as simp del: fun_upd_apply)
  qed
  moreover have "FiberSpawn p fn args s = Some (s\<lparr>fibers := ?h'\<rparr>)"
    using tl g f p(1) c by (simp add: FiberSpawn_def init_started Let_def)
  moreover have "data ?h' y = data (fibers s) y" if "y \<noteq> p" for y using g that by (auto simp: data_def)
  ultimately show ?thesis using tp by (auto simp: data_def)
qed

lemma unfinished_data: "data h' y = data h y \<Longrightarrow> unfinished h' y = unfinished h y"
  by (auto simp: data_def unfinished_def split: option.splits)

lemma end_queue:
  assumes q: "queue s (x # ys)" and other: "filter (unfinished (fibers s)) ys \<noteq> []"
  shows "\<exists>s'. FiberTrampoline_end s = Some s' \<and> queue s' (filter (unfinished (fibers s)) ys @ [x]) \<and>
    \<not> unfinished (fibers s') x \<and> (\<forall>y\<in>set ys. unfinished (fibers s) y \<longrightarrow> data (fibers s') y = data (fibers s) y)"
proof -
  obtain f where f: "fibers s x = Some f" "cur s = x" "x \<notin> set ys" by (rule queueD [OF q])
  let ?h = "(fibers s)(x \<mapsto> f\<lparr>finished := True\<rparr>)"
  let ?s = "s\<lparr>fibers := ?h\<rparr>"
  have "chain ?h x (x # ys) x = chain (fibers s) x (x # ys) x" by (rule chain_cong) (use f(1) in auto)
  then have q1: "queue ?s (x # ys)" using q f(2) by (simp add: queue_def)
  have fl: "filter (unfinished ?h) ys = filter (unfinished (fibers s)) ys"
    by (rule filter_cong [OF refl]) (use f(3) in \<open>auto simp: unfinished_def\<close>)
  obtain s' where s': "FiberYield ?s = Some s'" "queue s' (filter (unfinished (fibers s)) ys @ [x])" "swept ?h x ys x (fibers s')"
    using yield_queue [OF q1] fl by auto
  obtain z zs where zs: "filter (unfinished (fibers s)) ys = z # zs" using other by (cases "filter (unfinished (fibers s)) ys") auto
  then have "cur s' = z" using s'(2) by (auto simp: queue_def split: option.splits)
  moreover have "z \<noteq> x" using zs f(3) by (metis filter_is_subset list.set_intros(1) subsetD)
  ultimately have "FiberTrampoline_end s = Some s'" using s'(1) f(1,2) by (simp add: FiberTrampoline_end_def)
  moreover have "\<not> unfinished (fibers s') x"
    using s'(3) unfinished_data [of "fibers s'" x ?h] by (simp add: swept_def unfinished_def)
  moreover have "data (fibers s') y = data (fibers s) y" if "y \<in> set ys" "unfinished (fibers s) y" for y
  proof -
    have "y \<noteq> x" using that f(3) by auto
    then have "unfinished ?h y" "data ?h y = data (fibers s) y" using that(2) by (simp_all add: unfinished_def data_def)
    then show ?thesis using s'(3) that(1) by (simp add: swept_def)
  qed
  ultimately show ?thesis using s'(2) by blast
qed

lemma init_queue: "cur s = 0 \<Longrightarrow> queue (InitMainFiber s) [Main_fiber] \<and> unfinished (fibers (InitMainFiber s)) Main_fiber"
  by (simp add: InitMainFiber_def queue_def Main_fiber_def unfinished_def)

lemma init_idem: "InitMainFiber (InitMainFiber s) = InitMainFiber s"
  by (simp add: InitMainFiber_def Main_fiber_def)

lemma via_init: "FiberYield (InitMainFiber s) = FiberYield s" "FiberTryJoin (InitMainFiber s) = FiberTryJoin s"
    "fn \<noteq> 0 \<Longrightarrow> FiberSpawn p fn args (InitMainFiber s) = FiberSpawn p fn args s"
  by (simp_all add: FiberYield_def FiberTryJoin_def FiberSpawn_def init_idem)

text \<open>What one pass leaves of every fiber, whatever its place.\<close>

lemma swept_rest:
  assumes "queue s (x # ys)" and sw: "swept (fibers s) x ys x h"
  shows "\<forall>y. data h y = (if y \<in> set ys \<and> \<not> unfinished (fibers s) y then None else data (fibers s) y)"
proof
  fix y
  consider (freed) "y \<in> set ys" "\<not> unfinished (fibers s) y" | (kept) "y = x \<or> y \<in> set ys \<and> unfinished (fibers s) y"
    | (other) "y \<noteq> x" "y \<notin> set ys" by blast
  then show "data h y = (if y \<in> set ys \<and> \<not> unfinished (fibers s) y then None else data (fibers s) y)"
  proof cases
    case freed
    then show ?thesis using sw by (simp add: swept_def data_def)
  next
    case kept
    have "x \<notin> set ys" by (rule queueD [OF assms(1)])
    then show ?thesis using sw kept by (auto simp: swept_def)
  next
    case other
    then have "h y = fibers s y" using sw by (simp add: swept_def)
    then show ?thesis using other by (simp add: data_def)
  qed
qed

section \<open>Programs with fibers\<close>

text \<open>
  What a program does between two switches is not of interest here: any fiber may spawn, yield, join or, unless it is
  the main one, return from its function. \<open>malloc\<close> gives an address that is not in use.
\<close>

inductive fiber_step :: "fibers_state \<Rightarrow> fibers_state \<Rightarrow> bool" where
  spawn: "fibers s p = None \<Longrightarrow> p \<notin> {0, Main_fiber} \<Longrightarrow> FiberSpawn p fn args s = Some s' \<Longrightarrow> fiber_step s s'"
| yield: "FiberYield s = Some s' \<Longrightarrow> fiber_step s s'"
| join: "FiberTryJoin s = Some (b, s') \<Longrightarrow> fiber_step s s'"
| leave: "cur s \<notin> {0, Main_fiber} \<Longrightarrow> FiberTrampoline_end s = Some s' \<Longrightarrow> fiber_step s s'"

definition fibers0 :: fibers_state where
  "fibers0 = \<lparr>fibers = \<lambda>_. None, cur = 0\<rparr>"

text \<open>The main fiber is in the list and neither it nor the current one has finished.\<close>

definition running :: "fibers_state \<Rightarrow> bool" where
  "running s \<longleftrightarrow> (\<exists>x ys. queue s (x # ys) \<and> Main_fiber \<in> set (x # ys) \<and>
     unfinished (fibers s) Main_fiber \<and> unfinished (fibers s) x)"

lemma running_init: "cur s = 0 \<or> running s \<Longrightarrow> running (InitMainFiber s)"
proof (cases "cur s = 0")
  case True
  then show ?thesis unfolding running_def using init_queue [OF True] by (intro exI [of _ Main_fiber] exI [of _ "[]"]) simp
qed (simp add: init_started)

lemma swept_unfinished: "swept h x ys c h' \<Longrightarrow> y = x \<or> y \<in> set ys \<and> unfinished h y \<Longrightarrow> unfinished h' y = unfinished h y"
  by (rule unfinished_data) (auto simp: swept_def)

lemma running_yield:
  assumes "running s"
  shows "\<exists>s'. FiberYield s = Some s' \<and> running s'"
proof -
  obtain x ys where r: "queue s (x # ys)" "Main_fiber \<in> set (x # ys)" "unfinished (fibers s) Main_fiber" "unfinished (fibers s) x"
    using assms unfolding running_def by blast
  let ?zs = "filter (unfinished (fibers s)) ys"
  obtain s' where s': "FiberYield s = Some s'" "queue s' (?zs @ [x])" "swept (fibers s) x ys x (fibers s')"
    using yield_queue [OF r(1)] by blast
  have m: "Main_fiber \<in> set (?zs @ [x])" using r(2,3) by auto
  have u: "unfinished (fibers s') y" if "y \<in> set (?zs @ [x])" for y
    using swept_unfinished [OF s'(3), of y] that r(4) by auto
  obtain z zs where "?zs @ [x] = z # zs" by (cases ?zs) auto
  then have "running s'" unfolding running_def using s'(2) m u by (metis list.set_intros(1))
  then show ?thesis using s'(1) by blast
qed

lemma running_join:
  assumes "running s"
  shows "\<exists>b s'. FiberTryJoin s = Some (b, s') \<and> running s'"
proof -
  obtain x ys where r: "queue s (x # ys)" "Main_fiber \<in> set (x # ys)" "unfinished (fibers s) Main_fiber" "unfinished (fibers s) x"
    using assms unfolding running_def by blast
  let ?zs = "filter (unfinished (fibers s)) ys"
  obtain b s' where s': "FiberTryJoin s = Some (b, s')" "queue s' (x # ?zs)" "swept (fibers s) x ys x (fibers s')"
    using join_queue [OF r(1)] by blast
  have "unfinished (fibers s') y" if "y \<in> set (x # ?zs)" for y
    using swept_unfinished [OF s'(3), of y] that r(4) by auto
  moreover have "Main_fiber \<in> set (x # ?zs)" using r(2,3) by auto
  ultimately have "running s'" unfolding running_def using s'(2) by (metis list.set_intros(1))
  then show ?thesis using s'(1) by blast
qed

lemma running_spawn:
  assumes "running s" and p: "fibers s p = None" "p \<notin> {0, Main_fiber}" and f: "fn \<noteq> 0"
  shows "\<exists>s'. FiberSpawn p fn args s = Some s' \<and> running s'"
proof -
  obtain x ys where r: "queue s (x # ys)" "Main_fiber \<in> set (x # ys)" "unfinished (fibers s) Main_fiber" "unfinished (fibers s) x"
    using assms(1) unfolding running_def by blast
  have in_heap: "chain h a as b \<Longrightarrow> y \<in> set as \<Longrightarrow> h y \<noteq> None" for h a as b y
    by (induction as arbitrary: a) (auto split: option.splits)
  have "p \<notin> set (x # ys)" using in_heap [of "fibers s" "cur s" "x # ys" "cur s" p] r(1) p(1) by (auto simp: queue_def)
  then obtain s' where s': "FiberSpawn p fn args s = Some s'" "queue s' (x # ys @ [p])" "\<forall>y. y \<noteq> p \<longrightarrow> data (fibers s') y = data (fibers s) y"
    using spawn_queue [OF r(1), of p fn args] p(2) f by auto
  have x: "x \<noteq> p" using \<open>p \<notin> set (x # ys)\<close> by auto
  have "unfinished (fibers s') x" "unfinished (fibers s') Main_fiber"
    using unfinished_data [of "fibers s'" _ "fibers s"] s'(3) x p(2) r(3,4) by auto
  then have "running s'" unfolding running_def using s'(2) r(2)
    by (intro exI [of _ x] exI [of _ "ys @ [p]"]) auto
  then show ?thesis using s'(1) by blast
qed

lemma running_end:
  assumes "running s" and c: "cur s \<noteq> Main_fiber"
  shows "\<exists>s'. FiberTrampoline_end s = Some s' \<and> running s'"
proof -
  obtain x ys where r: "queue s (x # ys)" "Main_fiber \<in> set (x # ys)" "unfinished (fibers s) Main_fiber" "unfinished (fibers s) x"
    using assms(1) unfolding running_def by blast
  let ?zs = "filter (unfinished (fibers s)) ys"
  have x: "cur s = x" by (rule queueD [OF r(1)])
  then have m: "Main_fiber \<in> set ?zs" using r(2,3) c by auto
  then obtain s' where s': "FiberTrampoline_end s = Some s'" "queue s' (?zs @ [x])"
      "\<forall>y\<in>set ys. unfinished (fibers s) y \<longrightarrow> data (fibers s') y = data (fibers s) y"
    using end_queue [OF r(1)] by (metis empty_iff list.set(1))
  have u: "unfinished (fibers s') y" if "y \<in> set ?zs" for y
    using unfinished_data [of "fibers s'" y "fibers s"] s'(3) that by auto
  obtain z zs where z: "?zs = z # zs" using m by (cases ?zs) auto
  have "queue s' (z # zs @ [x])" using s'(2) z by simp
  moreover have "Main_fiber \<in> set (z # zs @ [x])" using m z by auto
  ultimately have "running s'" unfolding running_def using u m z by (metis list.set_intros(1))
  then show ?thesis using s'(1) by blast
qed

lemma step_running: "fiber_step s s' \<Longrightarrow> cur s = 0 \<or> running s \<Longrightarrow> cur s' = 0 \<or> running s'"
proof (induction rule: fiber_step.induct)
  case (spawn s p fn args s')
  show ?case
  proof (cases "fn = 0")
    case True
    then show ?thesis using spawn by (simp add: FiberSpawn_def)
  next
    case False
    have r: "running (InitMainFiber s)" using running_init spawn.prems by blast
    have "fibers (InitMainFiber s) p = None" using spawn.hyps(1,2) by (simp add: InitMainFiber_def)
    from running_spawn [OF r this spawn.hyps(2) False, of args] spawn.hyps(3) show ?thesis
      by (simp add: via_init(3) [OF False])
  qed
next
  case (yield s s')
  then show ?case using running_yield [OF running_init, of s] by (auto simp: via_init)
next
  case (join s b s')
  then show ?case using running_join [OF running_init, of s] by (auto simp: via_init)
next
  case (leave s s')
  then show ?case using running_end [of s] by auto
qed

lemma reach_running: "fiber_step\<^sup>*\<^sup>* fibers0 s \<Longrightarrow> cur s = 0 \<or> running s"
proof (induction rule: rtranclp_induct)
  case base
  then show ?case by (simp add: fibers0_def)
next
  case (step y z)
  then show ?case using step_running [of y z] by simp
qed

text \<open>
  C35. Whatever a program does with its fibers, every operation returns: none reads a fiber that has been freed, none
  walks for ever, a fiber that has returned is never switched to again, so that \<open>assert(0)\<close> is not reached, and the
  current fiber has not finished.
\<close>

theorem fibers_return:
  assumes "fiber_step\<^sup>*\<^sup>* fibers0 s"
  shows "FiberYield s \<noteq> None \<and> FiberTryJoin s \<noteq> None \<and>
    (\<forall>p fn args. fibers s p = None \<and> p \<notin> {0, Main_fiber} \<longrightarrow> FiberSpawn p fn args s \<noteq> None) \<and>
    (cur s \<notin> {0, Main_fiber} \<longrightarrow> FiberTrampoline_end s \<noteq> None) \<and>
    (cur s \<noteq> 0 \<longrightarrow> unfinished (fibers s) (cur s))"
proof -
  note r = reach_running [OF assms]
  then have i: "running (InitMainFiber s)" by (rule running_init)
  have "FiberYield s \<noteq> None" "FiberTryJoin s \<noteq> None"
    using running_yield [OF i] running_join [OF i] by (auto simp: via_init)
  moreover have "FiberSpawn p fn args s \<noteq> None" if "fibers s p = None" "p \<notin> {0, Main_fiber}" for p fn args
  proof (cases "fn = 0")
    case False
    have "fibers (InitMainFiber s) p = None" using that by (simp add: InitMainFiber_def)
    from running_spawn [OF i this that(2) False] show ?thesis by (auto simp: via_init(3) [OF False])
  qed (simp add: FiberSpawn_def)
  moreover have "FiberTrampoline_end s \<noteq> None" if "cur s \<notin> {0, Main_fiber}"
    using running_end [of s] r that by auto
  moreover have "unfinished (fibers s) (cur s)" if "cur s \<noteq> 0"
    using r that unfolding running_def by (metis queueD)
  ultimately show ?thesis by blast
qed

text \<open>
  C36. The fibers are a queue: a yield frees the finished ones and puts the current one at its end, a join frees the
  finished ones too and is told exactly whether all others have finished, and a new fiber goes to the end. Freed are the
  finished fibers of the list behind the current one and nothing else, and no other fiber's function, argument or mark
  changes.
\<close>

theorem fibers_refine_queue:
  assumes "queue s (x # ys)"
  defines "zs \<equiv> filter (unfinished (fibers s)) ys"
  defines "rest \<equiv> \<lambda>y. if y \<in> set ys \<and> \<not> unfinished (fibers s) y then None else data (fibers s) y"
  shows "(\<exists>s'. FiberYield s = Some s' \<and> queue s' (zs @ [x]) \<and> (\<forall>y. data (fibers s') y = rest y)) \<and>
    (\<exists>s'. FiberTryJoin s = Some (zs = [], s') \<and> queue s' (x # zs) \<and> (\<forall>y. data (fibers s') y = rest y)) \<and>
    (\<forall>p fn args. p \<notin> set (0 # x # ys) \<and> fn \<noteq> 0 \<longrightarrow>
      (\<exists>s'. FiberSpawn p fn args s = Some s' \<and> queue s' (x # ys @ [p]) \<and> data (fibers s') p = Some (fn, args, False) \<and>
         (\<forall>y. y \<noteq> p \<longrightarrow> data (fibers s') y = data (fibers s) y)))"
proof (intro conjI allI impI)
  show "\<exists>s'. FiberYield s = Some s' \<and> queue s' (zs @ [x]) \<and> (\<forall>y. data (fibers s') y = rest y)"
    using yield_queue [OF assms(1)] swept_rest [OF assms(1)] unfolding zs_def rest_def by blast
  show "\<exists>s'. FiberTryJoin s = Some (zs = [], s') \<and> queue s' (x # zs) \<and> (\<forall>y. data (fibers s') y = rest y)"
    using join_queue [OF assms(1)] swept_rest [OF assms(1)] unfolding zs_def rest_def by blast
  fix p fn args :: nat assume "p \<notin> set (0 # x # ys) \<and> fn \<noteq> 0"
  then show "\<exists>s'. FiberSpawn p fn args s = Some s' \<and> queue s' (x # ys @ [p]) \<and> data (fibers s') p = Some (fn, args, False) \<and>
      (\<forall>y. y \<noteq> p \<longrightarrow> data (fibers s') y = data (fibers s) y)"
    using spawn_queue [OF assms(1), of p fn args] by auto
qed

text \<open>
  The timer of pfibers does not look whether the next fiber has finished: it switches to one that has, which then comes
  back from the \<open>FiberYield\<close> at its end to the assertion.
\<close>

definition two_fibers :: fibers_state where
  "two_fibers = \<lparr>fibers = [1 \<mapsto> \<lparr>fnext = 2, ff = 0, fargs = 0, finished = False\<rparr>, 2 \<mapsto> \<lparr>fnext = 1, ff = 5, fargs = 0, finished = False\<rparr>],
     cur = 2\<rparr>"

lemma timer_runs_finished:
  "\<exists>s s'. FiberTrampoline_end two_fibers = Some s \<and> cur s = 1 \<and> fiber_sched s = Some s' \<and>
    cur s' = 2 \<and> \<not> unfinished (fibers s') 2"
  by (simp add: two_fibers_def FiberTrampoline_end_def FiberYield_def InitMainFiber_def FreeFinishedFibers_def free_finished_loop.simps
      fiber_sched_def unfinished_def)

theorem fibers_return_witness: "FiberYield fibers0 \<noteq> None \<and> FiberSpawn 7 1 0 fibers0 \<noteq> None"
  using fibers_return [of fibers0] by (auto simp: fibers0_def Main_fiber_def)

text \<open>Three fibers of which the last has returned: the yield frees it and nothing else.\<close>

definition three_fibers :: fibers_state where
  "three_fibers = \<lparr>fibers = [1 \<mapsto> \<lparr>fnext = 2, ff = 0, fargs = 0, finished = False\<rparr>,
       2 \<mapsto> \<lparr>fnext = 3, ff = 5, fargs = 0, finished = False\<rparr>, 3 \<mapsto> \<lparr>fnext = 1, ff = 6, fargs = 0, finished = True\<rparr>],
     cur = 2\<rparr>"

theorem fibers_refine_queue_witness:
  "\<exists>s'. FiberYield three_fibers = Some s' \<and> queue s' [1, 2] \<and> data (fibers s') 3 = None \<and> data (fibers s') 1 = Some (0, 0, False)"
proof -
  have q: "queue three_fibers [2, 3, 1]" by (simp add: queue_def three_fibers_def)
  have u: "unfinished (fibers three_fibers) 1" "\<not> unfinished (fibers three_fibers) 3"
    by (simp_all add: three_fibers_def unfinished_def)
  then have f: "filter (unfinished (fibers three_fibers)) [3, 1] = [1]" by simp
  obtain s' where s': "FiberYield three_fibers = Some s'" "queue s' ([1] @ [2])"
      "\<forall>y. data (fibers s') y = (if y \<in> set [3, 1] \<and> \<not> unfinished (fibers three_fibers) y then None else data (fibers three_fibers) y)"
    using fibers_refine_queue [OF q] unfolding f by blast
  have "data (fibers s') 3 = None" using s'(3) u by simp
  moreover have "data (fibers s') 1 = Some (0, 0, False)" using s'(3) u by (simp add: data_def three_fibers_def)
  ultimately show ?thesis using s'(1,2) by auto
qed

end
