(* ===== verification/FiberCtx.thy ===== *)
theory FiberCtx
  imports Prelude
begin

text \<open>
  Saving and restoring the registers of a fiber in fibers/pfibers: \<open>SwitchFiberContext\<close> (fiber_asm.S) and the handler of
  the timer signal (\<open>fiber_sched\<close> of fiber.c), which must be able to resume what the other has saved; and
  the first stack of a fiber (\<open>PrepareStack\<close>). Memory is read and written in words of eight bytes. The machine has
  the registers of \<open>struct Context\<close> and, beside them, the x87 and SSE state, which a context has no room for.
\<close>

datatype reg = R8 | R9 | R10 | R11 | R12 | R13 | R14 | R15 | RDI | RSI | RBP | RBX | RDX | RAX | RCX | RSP | RIP | FLAGS

type_synonym ctx = "reg \<Rightarrow> u64"

text \<open>The general registers, the memory, and the x87 and SSE registers in the order in which \<open>FXSAVE\<close> stores them.\<close>

record machine =
  regs :: ctx
  mem :: "u64 \<Rightarrow> u64"
  fpu :: "u64 list"

definition push :: "u64 \<Rightarrow> machine \<Rightarrow> machine" where
  "push v m = (let sp = regs m RSP - 8 in m\<lparr>regs := (regs m)(RSP := sp), mem := (mem m)(sp := v)\<rparr>)"

definition pop :: "machine \<Rightarrow> u64 \<times> machine" where
  "pop m = (mem m (regs m RSP), m\<lparr>regs := (regs m)(RSP := regs m RSP + 8)\<rparr>)"

text \<open>The return address is on the stack when the routine is entered; the slot of \<open>rip\<close> is not written.\<close>

definition save_context :: "ctx \<Rightarrow> machine \<Rightarrow> ctx \<times> machine" where
  "save_context from m =
     (let m = push (regs m FLAGS) m; (fl, m) = pop m; r = regs m in
      (\<lambda>x. if x = RIP then from RIP else if x = FLAGS then fl else r x, m))"

definition load_context :: "ctx \<Rightarrow> machine \<Rightarrow> machine" where
  "load_context to m =
     (let m = m\<lparr>regs := (\<lambda>x. if x = RIP \<or> x = FLAGS \<or> x = RSI then regs m x else to x)\<rparr>;
          m = push (to FLAGS) m;
          (fl, m) = pop m;
          m = m\<lparr>regs := (regs m)(FLAGS := fl)\<rparr>;
          m = m\<lparr>regs := (regs m)(RSI := to RSI)\<rparr>;
          (ip, m) = pop m
      in m\<lparr>regs := (regs m)(RIP := ip)\<rparr>)"

text \<open>The context of the fiber that is left and the machine in the fiber that is entered.\<close>

definition SwitchFiberContext :: "ctx \<Rightarrow> ctx \<Rightarrow> machine \<Rightarrow> ctx \<times> machine" where
  "SwitchFiberContext from to m = (let (c, m) = save_context from m in (c, load_context to m))"

text \<open>
  The handler works on the registers that the kernel has put on the stack of the signal and will load again; it changes
  the general ones, \<open>gregs\<close>, and leaves \<open>fpregs\<close> as they are.
\<close>

definition sched_save :: "machine \<Rightarrow> ctx \<times> machine" where
  "sched_save m = (let sp = regs m RSP - 8 in ((regs m)(RSP := sp), m\<lparr>mem := (mem m)(sp := regs m RIP)\<rparr>))"

definition sched_load :: "ctx \<Rightarrow> machine \<Rightarrow> machine" where
  "sched_load to m = m\<lparr>regs := to(RIP := mem m (to RSP), RSP := to RSP + 8)\<rparr>"

definition fiber_sched_regs :: "ctx \<Rightarrow> machine \<Rightarrow> ctx \<times> machine" where
  "fiber_sched_regs to m = (let (c, m) = sched_save m in (c, sched_load to m))"

text \<open>What the fiber must find when it goes on: the return address popped, everything else as it was.\<close>

definition returned :: "machine \<Rightarrow> ctx" where
  "returned m = (regs m)(RIP := mem m (regs m RSP), RSP := regs m RSP + 8)"

lemma load_context_regs: "regs (load_context to m) = to(RIP := ((mem m)(to RSP - 8 := to FLAGS)) (to RSP), RSP := to RSP + 8)"
  by (rule ext) (simp add: load_context_def push_def pop_def Let_def)

lemma load_context_fpu: "fpu (load_context to m) = fpu m"
  by (simp add: load_context_def push_def pop_def Let_def)

lemma save_context_regs: "fst (save_context from m) = (regs m)(RIP := from RIP)"
  by (rule ext) (auto simp: save_context_def push_def pop_def Let_def)

lemma save_context_fpu: "fpu (snd (save_context from m)) = fpu m"
  by (simp add: save_context_def push_def pop_def Let_def)

lemma below_apart: "(x :: u64) - 8 \<noteq> x" "x \<noteq> x - 8"
  by (simp_all add: diff_eq_eq eq_diff_eq)

text \<open>
  C37. A fiber goes on with its integer registers, its instruction pointer and its flags as they were, whichever of the
  two ways saved it and whichever resumes it, as long as the word on top of its saved stack has been left alone: where
  the signal came, or after the call of \<open>SwitchFiberContext\<close> with the return address popped. The x87 and SSE
  registers are not part of a context: it finds them as the fiber that ran before it left them.
\<close>

theorem context_restored:
  assumes "mem m1 (regs m RSP - 8) = regs m RIP" and "mem m2 (regs m RSP) = mem m (regs m RSP)"
  shows "regs (sched_load (fst (sched_save m)) m1) = regs m
    \<and> regs (load_context (fst (sched_save m)) m1) = regs m
    \<and> regs (load_context (fst (save_context from m)) m2) = returned m
    \<and> regs (sched_load (fst (save_context from m)) m2) = returned m
    \<and> (\<forall>c. fpu (snd (fiber_sched_regs c m)) = fpu m \<and> fpu (snd (SwitchFiberContext from c m)) = fpu m)"
proof (intro conjI allI)
  show "regs (sched_load (fst (sched_save m)) m1) = regs m"
    by (rule ext) (use assms(1) in \<open>simp add: sched_load_def sched_save_def Let_def\<close>)
  show "regs (load_context (fst (sched_save m)) m1) = regs m"
    by (rule ext) (use assms(1) below_apart [of "regs m RSP - 8"] in \<open>simp add: load_context_regs sched_save_def Let_def\<close>)
  show "regs (load_context (fst (save_context from m)) m2) = returned m"
    using assms(2) below_apart [of "regs m RSP"] by (simp add: load_context_regs save_context_regs returned_def fun_upd_twist)
  show "regs (sched_load (fst (save_context from m)) m2) = returned m"
    using assms(2) by (simp add: sched_load_def save_context_regs returned_def)
  fix c
  show "fpu (snd (fiber_sched_regs c m)) = fpu m"
    by (simp add: fiber_sched_regs_def sched_save_def sched_load_def Let_def)
  show "fpu (snd (SwitchFiberContext from c m)) = fpu m"
    by (simp add: SwitchFiberContext_def case_prod_beta load_context_fpu save_context_fpu)
qed

text \<open>
  A switch by a call may leave the x87 and SSE registers alone, since a caller does not rely on most of them; one by the
  timer may not. Here a fiber is interrupted, the next one loads a vector register and is interrupted in turn: the first
  goes on with its integer registers as they were and with the vector register of the other.
\<close>

lemma timer_keeps_other_fpu:
  fixes m :: machine and other :: ctx
  defines "a \<equiv> fiber_sched_regs other m"
  defines "b \<equiv> (snd a)\<lparr>regs := (regs (snd a))(RSP := 0x2000), fpu := [7]\<rparr>"
  assumes "regs m RSP = 0x1000" and "fpu m = [3]"
  shows "regs (snd (fiber_sched_regs (fst a) b)) = regs m \<and> fpu (snd (fiber_sched_regs (fst a) b)) = [7] \<and> fpu m = [3]"
  unfolding a_def b_def using assms(3,4)
  by (auto simp: fiber_sched_regs_def sched_save_def sched_load_def Let_def fun_eq_iff)

text \<open>The handler writes below the stack pointer of the code it interrupts, into the 128 bytes a leaf function may use.\<close>

lemma red_zone_written:
  "mem (snd (fiber_sched_regs to m)) = (mem m)(regs m RSP - 8 := regs m RIP)"
  by (simp add: fiber_sched_regs_def sched_save_def sched_load_def Let_def)

section \<open>The first stack\<close>

text \<open>The entry point is stored 16 bytes below the aligned top; the result is the stack pointer.\<close>

definition PrepareStack :: "u64 \<Rightarrow> u64 \<Rightarrow> (u64 \<Rightarrow> u64) \<Rightarrow> u64 \<times> (u64 \<Rightarrow> u64)" where
  "PrepareStack trampoline stack_top k =
     (let rsp = stack_top AND NOT (push_bit 4 1 - 1) in (rsp - 16, k(rsp - 16 := trampoline)))"

text \<open>
  A new fiber starts in the trampoline with its stack aligned as for a call (8 below a multiple of 16) and inside its
  own memory: less than 32 bytes below the top.
\<close>

theorem new_fiber_starts:
  assumes "PrepareStack tr tp k = (sp, mem m)" and "c RSP = sp" and "32 \<le> tp"
  shows "regs (load_context c m) RIP = tr \<and> regs (load_context c m) RSP AND 15 = 8 \<and> sp < tp \<and> tp - sp < 32"
proof -
  let ?a = "tp AND NOT 15"
  have sp: "sp = ?a - 16" "mem m = k(sp := tr)" using assms(1) by (auto simp: PrepareStack_def Let_def)
  have m: "(15 :: u64) = mask 4" by (simp add: mask_eq_exp_minus_1)
  have low: "unat (w AND 15) = unat w mod 16" for w :: u64
    by (simp add: m take_bit_eq_mask [symmetric] unsigned_take_bit_eq take_bit_eq_mod unat_mod)
  have "tp - (tp AND 15) = tp AND NOT (tp AND 15)"
    by (rule disjunctive_diff_eq_and_not) (rule bit_eqI, simp add: bit_simps)
  moreover have "tp AND NOT (tp AND 15) = ?a" by (rule bit_eqI) (auto simp: bit_and_iff bit_or_iff bit_not_iff)
  ultimately have a: "?a = tp - (tp AND 15)" by simp
  have le: "tp AND 15 \<le> tp" by (simp add: word_le_nat_alt low)
  then have ua: "unat ?a = unat tp - unat tp mod 16" unfolding a by (simp add: unat_sub low)
  have big: "32 \<le> unat tp" using assms(3) by (simp add: word_le_nat_alt)
  have ua16: "unat sp = unat tp - unat tp mod 16 - 16" 
  proof -
    have "16 \<le> unat tp - unat tp mod 16" using big by presburger
    then have "16 \<le> ?a" unfolding word_le_nat_alt ua by simp
    then have "unat (?a - 16) = unat ?a - unat (16 :: u64)" by (rule unat_sub)
    then show ?thesis unfolding sp(1) ua by simp
  qed
  have "unat (tp - sp) = unat tp mod 16 + 16"
    by (subst unat_sub) (use big in \<open>simp_all add: word_le_nat_alt ua16\<close>)
  then have 1: "tp - sp < 32" by (simp add: word_less_nat_alt)
  have 2: "sp < tp" using big ua16 by (simp add: word_less_nat_alt)
  have "unat (sp + 8) = unat sp + 8" using big ua16 unat_bound [of tp] by (simp add: unat_word_ariths)
  then have "unat ((sp + 8) AND 15) = (unat tp - unat tp mod 16 - 16 + 8) mod 16" by (simp add: low ua16)
  also have "\<dots> = 8"
  proof -
    have "unat tp - unat tp mod 16 = 16 * (unat tp div 16)" by (simp add: minus_mod_eq_mult_div)
    moreover obtain q where "unat tp div 16 = Suc q" using big by (cases "unat tp div 16") auto
    ultimately have "unat tp - unat tp mod 16 - 16 + 8 = 8 + 16 * q" by simp
    then show ?thesis by simp
  qed
  finally have 3: "(sp + 8) AND 15 = 8" by (simp add: word_unat_eq_iff)
  have "regs (load_context c m) RIP = tr" "regs (load_context c m) RSP = sp + 8"
    using sp(2) assms(2) below_apart(2) [of sp] by (simp_all add: load_context_regs)
  then show ?thesis using 1 2 3 by simp
qed

theorem context_restored_witness:
  "regs (load_context (fst (sched_save \<lparr>regs = \<lambda>_. 64, mem = \<lambda>_. 0, fpu = []\<rparr>)) \<lparr>regs = \<lambda>_. 1, mem = \<lambda>_. 64, fpu = []\<rparr>) RIP = 64"
  using context_restored [of "\<lparr>regs = \<lambda>_. 1, mem = \<lambda>_. 64, fpu = []\<rparr>" "\<lparr>regs = \<lambda>_. 64, mem = \<lambda>_. 0, fpu = []\<rparr>"
      "\<lparr>regs = \<lambda>_. 1, mem = \<lambda>_. 0, fpu = []\<rparr>" "\<lambda>_. 0"] by simp

theorem new_fiber_starts_witness:
  "regs (load_context (\<lambda>_. 0x0FF0) \<lparr>regs = \<lambda>_. 0, mem = (\<lambda>_. 0)(0x0FF0 := 7), fpu = []\<rparr>) RIP = 7"
proof -
  have p: "PrepareStack 7 0x1007 (\<lambda>_. 0) = (0x0FF0, mem \<lparr>regs = \<lambda>_. 0, mem = (\<lambda>_. 0)(0x0FF0 := 7), fpu = []\<rparr>)"
    by (simp add: PrepareStack_def)
  show ?thesis using new_fiber_starts [OF p, of "\<lambda>_. 0x0FF0"] by simp
qed

end
