(* ===== verification/Jobserver.thy ===== *)
theory Jobserver
  imports Prelude "HOL-Library.Multiset"
begin

text \<open>
  The job server (fs/jobserver/main.c): one process per directory forks one for each directory in it and then starts the
  programs of its own in order, each after taking a byte from the semaphore pipe; a watcher waits for the program and
  puts the byte back. The directories are a tree, each of which can be entered and read (a \<open>chdir\<close> that fails would scan
  the same directory again, an \<open>opendir\<close> that fails crashes the process), the pipe is the number of bytes in it, of which
  it holds at most \<open>cap\<close>. Every \<open>fork\<close> and every \<open>execl\<close> may fail.
\<close>

section \<open>Directories\<close>

text \<open>What \<open>lstat\<close> says of an entry: a directory, a regular file that somebody may execute, anything else.\<close>

datatype node = Directory string "node list" | Program string | Other string

primrec d_name :: "node \<Rightarrow> string" where
  "d_name (Directory n es) = n"
| "d_name (Program n) = n"
| "d_name (Other n) = n"

definition listed :: "node list \<Rightarrow> node list" where
  "listed es = filter (\<lambda>e. d_name e \<noteq> ''.'' \<and> d_name e \<noteq> ''..'') es"

fun progs :: "node list \<Rightarrow> string list" where
  "progs [] = []"
| "progs (Program p # es) = p # progs es"
| "progs (e # es) = progs es"

fun subdirs :: "node list \<Rightarrow> node list list" where
  "subdirs [] = []"
| "subdirs (Directory n d # es) = d # subdirs es"
| "subdirs (e # es) = subdirs es"

text \<open>The executable files of the tree, for each directory those in it.\<close>

fun tree :: "node list \<Rightarrow> string list list" and tree_sub :: "node list \<Rightarrow> string list list" where
  "tree es = progs (listed es) # tree_sub es"
| "tree_sub [] = []"
| "tree_sub (Directory n d # es) = (if n \<noteq> ''.'' \<and> n \<noteq> ''..'' then tree d else []) @ tree_sub es"
| "tree_sub (Program p # es) = tree_sub es"
| "tree_sub (Other p # es) = tree_sub es"

section \<open>Processes\<close>

text \<open>
  A process in \<open>dfs\<close>: the directories it has still to fork for, the programs it has still to start, and whether it has
  taken a byte for the first of them. At its end it waits for the processes it has forked.
\<close>

record proc =
  subs :: "node list list"
  to_run :: "string list"
  holding :: bool

definition dfs :: "node list \<Rightarrow> proc" where
  "dfs es = \<lparr>subs = subdirs (listed es), to_run = progs (listed es), holding = False\<rparr>"

text \<open>
  The watcher of a program: before its own \<open>fork\<close>, with a child before \<open>execl\<close>, with one that runs the program, with one
  that is back from a failed \<open>execl\<close>, and about to put the byte back.
\<close>

datatype phase = Watching | Forked | Running | Failed | Gone

text \<open>
  \<open>executed\<close> are the programs that have been started by an \<open>execl\<close>, \<open>unrun\<close> those whose \<open>execl\<close> failed, \<open>missed\<close> those that no
  process was forked for, and \<open>lost\<close> counts the bytes that were taken and will not be put back.
\<close>

record jobs =
  sem :: nat
  procs :: "proc multiset"
  active :: "(string \<times> phase) multiset"
  executed :: "string multiset"
  unrun :: "string multiset"
  missed :: "string multiset"
  lost :: nat

text \<open>A \<open>write\<close> to the full pipe sleeps; in \<open>sem_init\<close> nobody would ever read.\<close>

primrec sem_init :: "nat \<Rightarrow> nat \<Rightarrow> nat option" where
  "sem_init cap 0 = Some 0"
| "sem_init cap (Suc k) = (case sem_init cap k of None \<Rightarrow> None | Some n \<Rightarrow> if n < cap then Some (Suc n) else None)"

definition server :: "nat \<Rightarrow> nat \<Rightarrow> node list \<Rightarrow> jobs option" where
  "server cap k es = (case sem_init cap k of None \<Rightarrow> None | Some n \<Rightarrow>
     Some \<lparr>sem = n, procs = {#dfs es#}, active = {#}, executed = {#}, unrun = {#}, missed = {#}, lost = 0\<rparr>)"

text \<open>
  A child whose \<open>execl\<close> fails goes on after the block: its \<open>waitpid\<close> fails, it releases and exits; the \<open>waitpid\<close> of a
  watcher without a child fails too. A \<open>fork\<close> that fails in \<open>dfs\<close> is not noticed: the directory or the program is left
  out, and the byte for the program is not put back.
\<close>

inductive job_step :: "nat \<Rightarrow> jobs \<Rightarrow> jobs \<Rightarrow> bool" for cap where
  fork_dir: "procs s = add_mset q P \<Longrightarrow> subs q = d # ds \<Longrightarrow>
    job_step cap s (s\<lparr>procs := add_mset (q\<lparr>subs := ds\<rparr>) (add_mset (dfs d) P)\<rparr>)"
| fork_dir_fails: "procs s = add_mset q P \<Longrightarrow> subs q = d # ds \<Longrightarrow>
    job_step cap s (s\<lparr>procs := add_mset (q\<lparr>subs := ds\<rparr>) P, missed := mset (concat (tree d)) + missed s\<rparr>)"
| acquire: "procs s = add_mset q P \<Longrightarrow> subs q = [] \<Longrightarrow> to_run q = p # ps \<Longrightarrow> \<not> holding q \<Longrightarrow> sem s = Suc n \<Longrightarrow>
    job_step cap s (s\<lparr>sem := n, procs := add_mset (q\<lparr>holding := True\<rparr>) P\<rparr>)"
| fork_watcher: "procs s = add_mset q P \<Longrightarrow> to_run q = p # ps \<Longrightarrow> holding q \<Longrightarrow>
    job_step cap s (s\<lparr>procs := add_mset (q\<lparr>to_run := ps, holding := False\<rparr>) P, active := add_mset (p, Watching) (active s)\<rparr>)"
| fork_watcher_fails: "procs s = add_mset q P \<Longrightarrow> to_run q = p # ps \<Longrightarrow> holding q \<Longrightarrow>
    job_step cap s (s\<lparr>procs := add_mset (q\<lparr>to_run := ps, holding := False\<rparr>) P, missed := add_mset p (missed s), lost := Suc (lost s)\<rparr>)"
| fork_child: "active s = add_mset (p, Watching) A \<Longrightarrow> job_step cap s (s\<lparr>active := add_mset (p, Forked) A\<rparr>)"
| fork_child_fails: "active s = add_mset (p, Watching) A \<Longrightarrow>
    job_step cap s (s\<lparr>active := add_mset (p, Gone) A, missed := add_mset p (missed s)\<rparr>)"
| exec: "active s = add_mset (p, Forked) A \<Longrightarrow>
    job_step cap s (s\<lparr>active := add_mset (p, Running) A, executed := add_mset p (executed s)\<rparr>)"
| exec_fails: "active s = add_mset (p, Forked) A \<Longrightarrow>
    job_step cap s (s\<lparr>active := add_mset (p, Failed) A, unrun := add_mset p (unrun s)\<rparr>)"
| stray_release: "active s = add_mset (p, Failed) A \<Longrightarrow> sem s < cap \<Longrightarrow>
    job_step cap s (s\<lparr>sem := Suc (sem s), active := add_mset (p, Gone) A\<rparr>)"
| ends: "active s = add_mset (p, Running) A \<Longrightarrow> job_step cap s (s\<lparr>active := add_mset (p, Gone) A\<rparr>)"
| release: "active s = add_mset (p, Gone) A \<Longrightarrow> sem s < cap \<Longrightarrow>
    job_step cap s (s\<lparr>sem := Suc (sem s), active := A\<rparr>)"

text \<open>Every process has forked for its directories and started its programs, and every watcher has released.\<close>

definition idle :: "jobs \<Rightarrow> bool" where
  "idle s \<longleftrightarrow> (\<forall>q\<in>#procs s. subs q = [] \<and> to_run q = []) \<and> active s = {#}"

section \<open>What holds\<close>

lemma tree_sub_subdirs: "tree_sub es = concat (map tree (subdirs (listed es)))"
proof (induction es)
  case (Cons e es)
  then show ?case by (cases e) (simp_all add: listed_def del: tree.simps)
qed (simp add: listed_def)

lemma tree_rec: "tree es = progs (listed es) # concat (map tree (subdirs (listed es)))"
  by (simp add: tree_sub_subdirs)

declare tree.simps [simp del]

text \<open>Every program is in one place: to be started, started but not yet at its \<open>execl\<close>, or in one of the three results.\<close>

definition to_start :: "proc \<Rightarrow> string multiset" where
  "to_start q = mset (to_run q) + mset (concat (concat (map tree (subs q))))"

definition starting :: "string \<times> phase \<Rightarrow> string multiset" where
  "starting j = (if snd j = Watching \<or> snd j = Forked then {#fst j#} else {#})"

definition all_progs :: "jobs \<Rightarrow> string multiset" where
  "all_progs s = sum_mset (image_mset to_start (procs s)) + sum_mset (image_mset starting (active s)) + executed s + unrun s + missed s"

lemma to_start_dfs: "to_start (dfs d) = mset (concat (tree d))"
  by (subst tree_rec) (simp add: to_start_def dfs_def)

lemma step_progs: "job_step cap s s' \<Longrightarrow> all_progs s' = all_progs s"
proof (induction rule: job_step.induct)
  case (fork_dir s q P d ds)
  then show ?case by (simp add: all_progs_def to_start_dfs) (simp add: to_start_def)
qed (simp_all add: all_progs_def to_start_def starting_def)

text \<open>Each step uses up some of the work that is left.\<close>

definition dir_work :: "node list \<Rightarrow> nat" where
  "dir_work d = 2 * length (tree d) + 7 * length (concat (tree d))"

definition proc_work :: "proc \<Rightarrow> nat" where
  "proc_work q = sum_list (map dir_work (subs q)) + 7 * length (to_run q) + (if holding q then 0 else 1)"

definition phase_work :: "string \<times> phase \<Rightarrow> nat" where
  "phase_work j = (case snd j of Watching \<Rightarrow> 5 | Forked \<Rightarrow> 4 | Running \<Rightarrow> 2 | Failed \<Rightarrow> 2 | Gone \<Rightarrow> 1)"

definition work :: "jobs \<Rightarrow> nat" where
  "work s = sum_mset (image_mset proc_work (procs s)) + sum_mset (image_mset phase_work (active s))"

lemma dirs_work: "sum_list (map dir_work ds) = 2 * length (concat (map tree ds)) + 7 * length (concat (concat (map tree ds)))"
  by (induction ds) (simp_all add: dir_work_def)

lemma dfs_work: "proc_work (dfs d) < dir_work d"
proof -
  have "dir_work d = 2 + 7 * length (progs (listed d)) + sum_list (map dir_work (subdirs (listed d)))"
    unfolding dirs_work dir_work_def by (subst (1 2) tree_rec) simp
  then show ?thesis by (simp add: proc_work_def dfs_def)
qed

lemma dir_work_pos: "0 < dir_work d"
  by (simp add: dir_work_def tree_rec)

lemma step_work: "job_step cap s s' \<Longrightarrow> work s' < work s"
proof (induction rule: job_step.induct)
  case (fork_dir s q P d ds)
  then show ?case using dfs_work [of d] by (simp add: work_def) (simp add: proc_work_def)
next
  case (fork_dir_fails s q P d ds)
  then show ?case using dir_work_pos [of d] by (simp add: work_def proc_work_def)
qed (simp_all add: work_def proc_work_def phase_work_def)

text \<open>
  The bytes: in the pipe, taken, or lost, where a child that is back from its \<open>execl\<close> has a byte of its own to add. They
  are those of the start and one for each \<open>execl\<close> that failed.
\<close>

definition holder :: "proc \<Rightarrow> nat" where
  "holder q = (if holding q then 1 else 0)"

definition bytes_of :: "string \<times> phase \<Rightarrow> nat" where
  "bytes_of j = (if snd j = Failed then 2 else 1)"

definition tokens :: "jobs \<Rightarrow> nat" where
  "tokens s = sem s + sum_mset (image_mset holder (procs s)) + sum_mset (image_mset bytes_of (active s)) + lost s"

definition jobs_inv :: "nat \<Rightarrow> jobs \<Rightarrow> bool" where
  "jobs_inv k s \<longleftrightarrow> tokens s = k + size (unrun s) \<and> lost s \<le> size (missed s) \<and>
     (\<forall>q\<in>#procs s. holding q \<longrightarrow> to_run q \<noteq> [])"

lemma jobs_step_inv: "job_step cap s s' \<Longrightarrow> jobs_inv k s \<Longrightarrow> jobs_inv k s'"
  by (induction rule: job_step.induct)
    (auto simp: jobs_inv_def tokens_def holder_def bytes_of_def dfs_def)

lemma size_active: "size A \<le> sum_mset (image_mset bytes_of A)"
  by (induction A) (auto simp: bytes_of_def)

text \<open>Work can go on as long as there is any, unless all bytes are lost or the pipe is too small for the stray ones.\<close>

lemma step_enabled:
  assumes inv: "jobs_inv k s" and "lost s < k" "k + size (unrun s) \<le> cap" and "\<not> idle s"
  shows "\<exists>s'. job_step cap s s'"
proof (cases "active s = {#}")
  case False
  then obtain p f A where a: "active s = add_mset (p, f) A" by (metis multiset_cases surj_pair)
  have "sem s < cap" using inv assms(3) a size_active [of "active s"] by (simp add: jobs_inv_def tokens_def)
  then show ?thesis using a by (cases f) (auto intro: job_step.intros)
next
  case True
  then obtain q where q: "q \<in># procs s" "subs q \<noteq> [] \<or> to_run q \<noteq> []" using assms(4) by (auto simp: idle_def)
  show ?thesis
  proof (cases "\<exists>q\<in>#procs s. subs q \<noteq> [] \<or> holding q")
    case True
    then obtain r where r: "r \<in># procs s" "subs r \<noteq> [] \<or> holding r" by blast
    then obtain P where P: "procs s = add_mset r P" by (metis insert_DiffM)
    show ?thesis
    proof (cases "subs r = []")
      case True
      then obtain p ps where "to_run r = p # ps" using inv r by (auto simp: jobs_inv_def neq_Nil_conv)
      then show ?thesis using job_step.fork_watcher [OF P] r(2) True by blast
    next
      case False
      then show ?thesis using job_step.fork_dir [OF P] by (metis neq_Nil_conv)
    qed
  next
    case False
    then have z: "sum_mset (image_mset holder (procs s)) = 0" by (auto simp: holder_def)
    have "tokens s = k + size (unrun s)" using inv by (simp only: jobs_inv_def)
    moreover have "sum_mset (image_mset bytes_of (active s)) = 0" using True by simp
    ultimately have "sem s > 0" using z assms(2) unfolding tokens_def by linarith
    then obtain n where n: "sem s = Suc n" by (cases "sem s") auto
    obtain P where P: "procs s = add_mset q P" using q(1) by (metis insert_DiffM)
    obtain p ps where "to_run q = p # ps" using q False by (auto simp: neq_Nil_conv)
    then show ?thesis using job_step.acquire [OF P _ _ _ n] q(1) False by blast
  qed
qed

lemma sem_init_fits: "sem_init cap k = Some n \<Longrightarrow> n = k \<and> k \<le> cap"
  by (induction k arbitrary: n) (auto split: option.splits if_splits)

lemma server_start:
  "server cap k es = Some s \<Longrightarrow> k \<le> cap \<and> jobs_inv k s \<and> all_progs s = mset (concat (tree es))"
  by (auto simp: server_def jobs_inv_def tokens_def holder_def all_progs_def to_start_dfs dest!: sem_init_fits split: option.splits)
    (simp_all add: dfs_def)

lemma reach_inv:
  assumes "(job_step cap)\<^sup>*\<^sup>* s0 s" "jobs_inv k s0"
  shows "jobs_inv k s \<and> all_progs s = all_progs s0"
  using assms by (induction rule: rtranclp_induct) (auto simp: step_progs intro: jobs_step_inv)

text \<open>What is running has a byte each.\<close>

lemma running_bound:
  assumes "jobs_inv k s"
  shows "size {#j \<in># active s. snd j = Running#} \<le> k + size (unrun s)"
proof -
  have "size {#j \<in># active s. snd j = Running#} \<le> sum_mset (image_mset bytes_of (active s))"
    using size_filter_mset_lesseq size_active le_trans by blast
  then show ?thesis using assms by (simp add: jobs_inv_def tokens_def)
qed

text \<open>
  C39. No run of the job server is endless. A program is started at most once, and at no time do more run than the
  limit, with one more for each \<open>execl\<close> that has failed. A server that cannot go on, and has not lost all its bytes to
  failed forks and whose pipe has room for the stray ones, is done: each executable file of the tree was run, or its
  \<open>execl\<close> failed, or a \<open>fork\<close> for it failed; so with no such failure it has run every one.
\<close>

theorem jobs_complete:
  assumes "server cap k es = Some s0" and "(job_step cap)\<^sup>*\<^sup>* s0 s"
  shows "wf {(b, a). job_step cap a b} \<and> executed s \<subseteq># mset (concat (tree es)) \<and>
    size {#j \<in># active s. snd j = Running#} \<le> k + size (unrun s) \<and>
    ((\<nexists>s'. job_step cap s s') \<and> lost s < k \<and> k + size (unrun s) \<le> cap \<longrightarrow>
       idle s \<and> executed s + unrun s + missed s = mset (concat (tree es))) \<and>
    ((\<nexists>s'. job_step cap s s') \<and> 0 < k \<and> unrun s = {#} \<and> missed s = {#} \<longrightarrow>
       idle s \<and> executed s = mset (concat (tree es)))"
proof -
  have i: "k \<le> cap" "jobs_inv k s" "all_progs s = mset (concat (tree es))"
    using server_start [OF assms(1)] reach_inv [OF assms(2)] by auto
  have "wf {(b, a). job_step cap a b}" by (rule wf_subset [OF wf_measure [of work]]) (auto dest: step_work)
  moreover have "executed s \<subseteq># mset (concat (tree es))"
    unfolding i(3) [symmetric] all_progs_def by (simp add: subset_mset.add_increasing subset_mset.add_increasing2)
  moreover note running_bound [OF i(2)]
  moreover have d: "executed s + unrun s + missed s = mset (concat (tree es))" if "idle s"
  proof -
    have z: "sum_mset (image_mset to_start (procs s)) = {#}" using that by (auto simp: idle_def to_start_def)
    have "sum_mset (image_mset starting (active s)) = {#}" using that by (simp add: idle_def)
    then show ?thesis using i(3) unfolding all_progs_def by (simp only: z empty_neutral)
  qed
  moreover have "idle s" if "\<nexists>s'. job_step cap s s'" "lost s < k" "k + size (unrun s) \<le> cap"
    using step_enabled [OF i(2) that(2,3)] that(1) by blast
  moreover have "lost s = 0" if "missed s = {#}" using i(2) that by (simp add: jobs_inv_def)
  ultimately show ?thesis using i(1) by auto
qed

text \<open>With no failure at most as many programs run at a time as the server was given.\<close>

lemma jobs_bounded:
  assumes "server cap k es = Some s0" "(job_step cap)\<^sup>*\<^sup>* s0 s" "unrun s = {#}"
  shows "size {#j \<in># active s. snd j = Running#} \<le> k"
  using running_bound [of k s] server_start [OF assms(1)] reach_inv [OF assms(2)] assms(3) by simp

text \<open>A run of two programs in a directory and the one below it.\<close>

definition two_jobs :: "node list" where
  "two_jobs = [Program ''a'', Directory ''d'' [Program ''b'']]"

lemma two_jobs_tree: "concat (tree two_jobs) = [''a'', ''b'']"
  by (simp add: two_jobs_def listed_def tree.simps)

theorem jobs_complete_witness:
  "\<exists>s0. server 65536 2 two_jobs = Some s0 \<and> (\<exists>s'. job_step 65536 s0 s')"
proof -
  obtain s0 where s0: "server 65536 2 two_jobs = Some s0" "unrun s0 = {#}" "missed s0 = {#}" "executed s0 = {#}"
    by (simp add: server_def numeral_2_eq_2)
  have "executed s0 \<noteq> mset (concat (tree two_jobs))" using s0(4) by (simp add: two_jobs_tree)
  then show ?thesis using jobs_complete [OF s0(1) rtranclp.rtrancl_refl] s0 by auto
qed

section \<open>What goes wrong\<close>

text \<open>A server with one process, whose directory has no directories in it.\<close>

abbreviation one_proc :: "nat \<Rightarrow> string list \<Rightarrow> bool \<Rightarrow> (string \<times> phase) multiset \<Rightarrow> string multiset \<Rightarrow> string multiset \<Rightarrow> string multiset \<Rightarrow> nat \<Rightarrow> jobs" where
  "one_proc n ps h A R U M l \<equiv> \<lparr>sem = n, procs = {#\<lparr>subs = [], to_run = ps, holding = h\<rparr>#}, active = A,
     executed = R, unrun = U, missed = M, lost = l\<rparr>"

lemma one_acquires: "job_step cap (one_proc (Suc n) (p # ps) False A R U M l) (one_proc n (p # ps) True A R U M l)"
  using job_step.acquire [of "one_proc (Suc n) (p # ps) False A R U M l" "\<lparr>subs = [], to_run = p # ps, holding = False\<rparr>" "{#}" p ps n cap]
  by simp

lemma one_starts:
  "(job_step cap)\<^sup>*\<^sup>* (one_proc (Suc n) (p # ps) False A R U M l) (one_proc n ps False (add_mset (p, Forked) A) R U M l)"
proof -
  have "job_step cap (one_proc n (p # ps) True A R U M l) (one_proc n ps False (add_mset (p, Watching) A) R U M l)"
    using job_step.fork_watcher [of "one_proc n (p # ps) True A R U M l" "\<lparr>subs = [], to_run = p # ps, holding = True\<rparr>" "{#}" p ps cap] by simp
  moreover have "job_step cap (one_proc n ps False (add_mset (p, Watching) A) R U M l) (one_proc n ps False (add_mset (p, Forked) A) R U M l)"
    using job_step.fork_child [of "one_proc n ps False (add_mset (p, Watching) A) R U M l" p A cap] by simp
  ultimately show ?thesis using one_acquires by (meson converse_rtranclp_into_rtranclp rtranclp.rtrancl_refl)
qed

lemma one_runs:
  "(job_step cap)\<^sup>*\<^sup>* (one_proc (Suc n) (p # ps) False A R U M l) (one_proc n ps False (add_mset (p, Running) A) (add_mset p R) U M l)"
proof -
  have "job_step cap (one_proc n ps False (add_mset (p, Forked) A) R U M l) (one_proc n ps False (add_mset (p, Running) A) (add_mset p R) U M l)"
    using job_step.exec [of "one_proc n ps False (add_mset (p, Forked) A) R U M l" p A cap] by simp
  then show ?thesis using one_starts by (meson rtranclp.rtrancl_into_rtrancl)
qed

lemma one_fails:
  assumes "n < cap"
  shows "(job_step cap)\<^sup>*\<^sup>* (one_proc (Suc n) (p # ps) False A R U M l) (one_proc (Suc n) ps False (add_mset (p, Gone) A) R (add_mset p U) M l)"
proof -
  have "job_step cap (one_proc n ps False (add_mset (p, Forked) A) R U M l) (one_proc n ps False (add_mset (p, Failed) A) R (add_mset p U) M l)"
    using job_step.exec_fails [of "one_proc n ps False (add_mset (p, Forked) A) R U M l" p A cap] by simp
  moreover have "job_step cap (one_proc n ps False (add_mset (p, Failed) A) R (add_mset p U) M l)
      (one_proc (Suc n) ps False (add_mset (p, Gone) A) R (add_mset p U) M l)"
    using job_step.stray_release [of "one_proc n ps False (add_mset (p, Failed) A) R (add_mset p U) M l" p A cap] assms by simp
  ultimately show ?thesis using one_starts by (meson rtranclp.rtrancl_into_rtrancl)
qed

lemma start_one: "k \<le> cap \<Longrightarrow> server cap k (map Program ps) = Some (one_proc k (filter (\<lambda>p. p \<noteq> ''.'' \<and> p \<noteq> ''..'') ps) False {#} {#} {#} {#} 0)"
proof -
  have "progs (listed (map Program ps)) = filter (\<lambda>p. p \<noteq> ''.'' \<and> p \<noteq> ''..'') ps" "subdirs (listed (map Program ps)) = []"
    by (induction ps) (simp_all add: listed_def)
  moreover have "k \<le> cap \<Longrightarrow> sem_init cap k = Some k" by (induction k) auto
  ultimately show "k \<le> cap \<Longrightarrow> ?thesis" by (simp add: server_def dfs_def)
qed

text \<open>
  A program that cannot be executed gives its byte back twice: with a limit of one, two programs then run at once.
\<close>

lemma stray_release_breaks_limit:
  assumes "2 \<le> cap"
  shows "\<exists>s0 s. server cap 1 (map Program [''bad'', ''a'', ''b'']) = Some s0 \<and> (job_step cap)\<^sup>*\<^sup>* s0 s \<and>
    active s = {#(''a'', Running), (''b'', Running)#}"
proof -
  let ?s = "one_proc 0 [] False {#(''b'', Running), (''a'', Running)#} {#''b'', ''a''#} {#''bad''#} {#} 0"
  have "(job_step cap)\<^sup>*\<^sup>* (one_proc (Suc 0) [''bad'', ''a'', ''b''] False {#} {#} {#} {#} 0)
      (one_proc (Suc 0) [''a'', ''b''] False {#(''bad'', Gone)#} {#} {#''bad''#} {#} 0)"
    using one_fails [of 0 cap] assms by simp
  moreover have "job_step cap (one_proc (Suc 0) [''a'', ''b''] False {#(''bad'', Gone)#} {#} {#''bad''#} {#} 0)
      (one_proc (Suc (Suc 0)) [''a'', ''b''] False {#} {#} {#''bad''#} {#} 0)"
    using job_step.release [of "one_proc (Suc 0) [''a'', ''b''] False {#(''bad'', Gone)#} {#} {#''bad''#} {#} 0" "''bad''" "{#}" cap] assms
    by simp
  moreover have "(job_step cap)\<^sup>*\<^sup>* (one_proc (Suc (Suc 0)) [''a'', ''b''] False {#} {#} {#''bad''#} {#} 0)
      (one_proc (Suc 0) [''b''] False {#(''a'', Running)#} {#''a''#} {#''bad''#} {#} 0)"
    using one_runs by simp
  moreover have "(job_step cap)\<^sup>*\<^sup>* (one_proc (Suc 0) [''b''] False {#(''a'', Running)#} {#''a''#} {#''bad''#} {#} 0) ?s"
    using one_runs by simp
  ultimately have "(job_step cap)\<^sup>*\<^sup>* (one_proc (Suc 0) [''bad'', ''a'', ''b''] False {#} {#} {#} {#} 0) ?s"
    by (meson rtranclp.rtrancl_into_rtrancl rtranclp_trans)
  then show ?thesis using start_one [of 1 cap "[''bad'', ''a'', ''b'']"] assms
    by (intro exI [of _ "one_proc (Suc 0) [''bad'', ''a'', ''b''] False {#} {#} {#} {#} 0"] exI [of _ ?s]) simp
qed

text \<open>
  The byte that was taken for a watcher whose \<open>fork\<close> fails is lost: with a limit of one, the server then waits for ever
  with programs that nobody has started.
\<close>

lemma lost_byte_hangs:
  assumes "1 \<le> cap"
  shows "\<exists>s0 s. server cap 1 (map Program [''a'', ''b'']) = Some s0 \<and> (job_step cap)\<^sup>*\<^sup>* s0 s \<and>
    (\<nexists>s'. job_step cap s s') \<and> \<not> idle s"
proof -
  let ?s = "one_proc 0 [''b''] False {#} {#} {#} {#''a''#} (Suc 0)"
  have "job_step cap (one_proc 0 [''a'', ''b''] True {#} {#} {#} {#} 0) ?s"
    using job_step.fork_watcher_fails [of "one_proc 0 [''a'', ''b''] True {#} {#} {#} {#} 0"
        "\<lparr>subs = [], to_run = [''a'', ''b''], holding = True\<rparr>" "{#}" "''a''" "[''b'']" cap] by simp
  then have "(job_step cap)\<^sup>*\<^sup>* (one_proc (Suc 0) [''a'', ''b''] False {#} {#} {#} {#} 0) ?s"
    using one_acquires by (meson converse_rtranclp_into_rtranclp r_into_rtranclp)
  moreover have "\<nexists>s'. job_step cap ?s s'" by (auto elim: job_step.cases)
  moreover have "\<not> idle ?s" by (simp add: idle_def)
  ultimately show ?thesis using start_one [of 1 cap "[''a'', ''b'']"] assms
    by (intro exI [of _ "one_proc (Suc 0) [''a'', ''b''] False {#} {#} {#} {#} 0"] exI [of _ ?s]) simp
qed

text \<open>A stray byte may fill the pipe: the watcher of the last program then waits for ever to write its own.\<close>

lemma full_pipe_hangs:
  "\<exists>s0 s. server (Suc n) (Suc n) (map Program [''bad'']) = Some s0 \<and> (job_step (Suc n))\<^sup>*\<^sup>* s0 s \<and>
    (\<nexists>s'. job_step (Suc n) s s') \<and> \<not> idle s"
proof -
  let ?s = "one_proc (Suc n) [] False {#(''bad'', Gone)#} {#} {#''bad''#} {#} 0"
  have "(job_step (Suc n))\<^sup>*\<^sup>* (one_proc (Suc n) [''bad''] False {#} {#} {#} {#} 0) ?s" using one_fails [of n "Suc n"] by simp
  moreover have "\<nexists>s'. job_step (Suc n) ?s s'" by (auto elim: job_step.cases)
  moreover have "\<not> idle ?s" by (simp add: idle_def)
  ultimately show ?thesis using start_one [of "Suc n" "Suc n" "[''bad'']"]
    by (intro exI [of _ "one_proc (Suc n) [''bad''] False {#} {#} {#} {#} 0"] exI [of _ ?s]) simp
qed

end
