(* ===== verification/Logger.thy ===== *)
theory Logger
  imports Prelude
begin

text \<open>
  The logger with rotation (fs/logger/main.c). File 0 is the log, file \<open>i\<close> the one whose name ends in \<open>.i\<close>; a file is
  its contents. The counter is \<open>max_idx + 1\<close>.
\<close>

type_synonym files = "nat \<Rightarrow> string option"

record logger =
  dirfiles :: files
  rotations :: nat
  need_rotate :: bool

text \<open>A \<open>rename\<close> of a file that does not exist fails, which is not looked at.\<close>

definition rename :: "nat \<Rightarrow> nat \<Rightarrow> files \<Rightarrow> files" where
  "rename a b fs = (case fs a of None \<Rightarrow> fs | Some c \<Rightarrow> fs(b \<mapsto> c, a := None))"

primrec rotate_loop :: "nat \<Rightarrow> files \<Rightarrow> files" where
  "rotate_loop 0 fs = fs"
| "rotate_loop (Suc i) fs = rotate_loop i (rename (Suc i) (Suc i + 1) fs)"

definition rotate_files :: "logger \<Rightarrow> logger" where
  "rotate_files s =
     (let max_idx = rotations s; fs = rotate_loop max_idx (dirfiles s) in
      s\<lparr>dirfiles := rename 0 1 fs, rotations := max_idx + 1\<rparr>)"

definition open_log :: "files \<Rightarrow> files" where
  "open_log fs = (case fs 0 of None \<Rightarrow> fs(0 \<mapsto> []) | Some _ \<Rightarrow> fs)"

text \<open>\<open>fputs (buff, log)\<close>: \<open>b\<close> is what \<open>fgets\<close> has put into the buffer, and \<open>fputs\<close> stops at its first NUL.\<close>

definition append_log :: "string \<Rightarrow> files \<Rightarrow> files" where
  "append_log b fs = (case fs 0 of None \<Rightarrow> fs | Some c \<Rightarrow> fs(0 \<mapsto> c @ takeWhile (\<lambda>x. x \<noteq> CHR 0x00) b))"

text \<open>What the program sees: a chunk that \<open>fgets\<close> has read, or the signal.\<close>

datatype event = Chunk string | Hup

definition logger_start :: "files \<Rightarrow> logger" where
  "logger_start fs = \<lparr>dirfiles = open_log fs, rotations = 0, need_rotate = False\<rparr>"

primrec logger_event :: "event \<Rightarrow> logger \<Rightarrow> logger" where
  "logger_event Hup s = s\<lparr>need_rotate := True\<rparr>"
| "logger_event (Chunk b) s =
     (let s = (if need_rotate s then (let s = rotate_files s in s\<lparr>dirfiles := open_log (dirfiles s), need_rotate := False\<rparr>) else s)
      in s\<lparr>dirfiles := append_log b (dirfiles s)\<rparr>)"

definition logger_run :: "event list \<Rightarrow> logger \<Rightarrow> logger" where
  "logger_run evs s = fold logger_event evs s"

section \<open>The files as the parts of the input\<close>

text \<open>The part of a line that reaches the log, and what of an event is input at all.\<close>

definition before_NUL :: "string \<Rightarrow> string" where
  "before_NUL b = takeWhile (\<lambda>x. x \<noteq> CHR 0x00) b"

primrec read_of :: "event \<Rightarrow> string" where
  "read_of Hup = []"
| "read_of (Chunk b) = b"

text \<open>The parts of the input between the rotations, the newest first.\<close>

primrec part :: "event \<Rightarrow> string list \<times> bool \<Rightarrow> string list \<times> bool" where
  "part Hup p = (fst p, True)"
| "part (Chunk b) p =
     (if snd p then (before_NUL b # fst p, False) else ((hd (fst p) @ before_NUL b) # tl (fst p), False))"

definition parts :: "event list \<Rightarrow> string list \<times> bool" where
  "parts evs = fold part evs ([[]], False)"

definition parts_held :: "string list \<Rightarrow> files" where
  "parts_held xs i = (if i < length xs then Some (xs ! i) else None)"

lemma rotate_shifts:
  "fs (Suc i) = None \<Longrightarrow> \<forall>j\<le>i. fs j \<noteq> None \<Longrightarrow>
    rename 0 1 (rotate_loop i fs) = (\<lambda>j. if j = 0 then None else if j \<le> Suc i then fs (j - 1) else fs j)"
proof (induction i arbitrary: fs)
  case 0
  then obtain c where "fs 0 = Some c" by auto
  then show ?case by (auto simp: rename_def)
next
  case (Suc i)
  obtain c where c: "fs (Suc i) = Some c" using Suc.prems(2) by auto
  let ?fs = "fs(Suc (Suc i) \<mapsto> c, Suc i := None)"
  have r: "rename (Suc i) (Suc i + 1) fs = ?fs" using c by (simp add: rename_def)
  have "rename 0 1 (rotate_loop i ?fs) = (\<lambda>j. if j = 0 then None else if j \<le> Suc i then ?fs (j - 1) else ?fs j)"
    by (rule Suc.IH) (use Suc.prems in auto)
  also have "\<dots> = (\<lambda>j. if j = 0 then None else if j \<le> Suc (Suc i) then fs (j - 1) else fs j)"
    using c by (auto simp: fun_eq_iff)
  finally show ?case using r by simp
qed

text \<open>The files are the parts, and there has been one rotation for each but the last.\<close>

definition logs :: "logger \<Rightarrow> string list \<times> bool \<Rightarrow> bool" where
  "logs s p \<longleftrightarrow> fst p \<noteq> [] \<and> dirfiles s = parts_held (fst p) \<and> rotations s = length (fst p) - 1 \<and> need_rotate s = snd p"

lemma append_first: "append_log b (parts_held (x # xs)) = parts_held ((x @ before_NUL b) # xs)"
  by (auto simp: append_log_def before_NUL_def parts_held_def fun_eq_iff nth_Cons split: nat.splits)

lemma rotate_holds:
  assumes "dirfiles s = parts_held (x # xs)" "rotations s = length xs"
  shows "rotate_files s = s\<lparr>dirfiles := (parts_held ([] # x # xs))(0 := None), rotations := length (x # xs)\<rparr>"
proof -
  have "rename 0 1 (rotate_loop (length xs) (parts_held (x # xs))) =
      (\<lambda>j. if j = 0 then None else if j \<le> Suc (length xs) then parts_held (x # xs) (j - 1) else parts_held (x # xs) j)"
    by (rule rotate_shifts) (auto simp: parts_held_def)
  also have "\<dots> = (parts_held ([] # x # xs))(0 := None)"
    by (auto simp: parts_held_def fun_eq_iff nth_Cons split: nat.splits)
  finally show ?thesis using assms by (simp add: rotate_files_def)
qed

lemma event_logs: "logs s p \<Longrightarrow> logs (logger_event e s) (part e p)"
proof (cases e)
  case Hup
  then show "logs s p \<Longrightarrow> ?thesis" by (simp add: logs_def)
next
  case (Chunk b)
  assume l: "logs s p"
  then obtain x xs where p: "fst p = x # xs" unfolding logs_def by (metis list.exhaust)
  have s: "dirfiles s = parts_held (x # xs)" "rotations s = length xs" "need_rotate s = snd p" using l p by (simp_all add: logs_def)
  have o: "open_log ((parts_held ([] # x # xs))(0 := None)) = parts_held ([] # x # xs)" by (auto simp: open_log_def parts_held_def)
  show ?thesis
  proof (cases "snd p")
    case True
    then show ?thesis using s p Chunk append_first [of b "[]" "x # xs"]
      by (simp add: logs_def rotate_holds [OF s(1,2)] o)
  next
    case False
    then show ?thesis using s p Chunk append_first [of b x xs] by (simp add: logs_def)
  qed
qed

lemma part_input:
  "fst p \<noteq> [] \<Longrightarrow> fst (part e p) \<noteq> [] \<and> concat (rev (fst (part e p))) = concat (rev (fst p)) @ before_NUL (read_of e)"
  by (cases e; cases "fst p") (simp_all add: before_NUL_def)

lemma parts_input: "concat (rev (fst (parts evs))) = concat (map (\<lambda>e. before_NUL (read_of e)) evs)"
proof -
  have "concat (rev (fst (fold part evs p))) = concat (rev (fst p)) @ concat (map (\<lambda>e. before_NUL (read_of e)) evs)"
    if "fst p \<noteq> []" for p
    using that by (induction evs arbitrary: p) (simp_all add: part_input)
  from this [of "([[]], False)"] show ?thesis by (simp add: parts_def)
qed

lemma before_NUL_all: "CHR 0x00 \<notin> set b \<Longrightarrow> before_NUL b = b"
  by (simp add: before_NUL_def takeWhile_eq_all_conv) metis

lemma run_logs: "logs s p \<Longrightarrow> logs (fold logger_event evs s) (fold part evs p)"
  by (induction evs arbitrary: s p) (simp_all add: event_logs)

text \<open>
  C40. Started in a directory without logs, the logger keeps all it reads but what follows a NUL in a line: the log and
  the numbered files are the parts of the input between rotations, the highest number the oldest, read from the oldest
  to the log they are the lines that were read, each up to its first NUL, and so the whole input when it has no NUL.
\<close>

theorem logger_keeps_input:
  shows "dirfiles (logger_run evs (logger_start (\<lambda>_. None))) = parts_held (fst (parts evs)) \<and>
    concat (rev (fst (parts evs))) = concat (map (\<lambda>e. before_NUL (read_of e)) evs) \<and>
    ((\<forall>e\<in>set evs. CHR 0x00 \<notin> set (read_of e)) \<longrightarrow> concat (rev (fst (parts evs))) = concat (map read_of evs))"
proof (intro conjI impI)
  have "logs (logger_start (\<lambda>_. None)) ([[]], False)"
    by (auto simp: logs_def logger_start_def open_log_def parts_held_def fun_eq_iff)
  then show "dirfiles (logger_run evs (logger_start (\<lambda>_. None))) = parts_held (fst (parts evs))"
    using run_logs by (simp add: logs_def logger_run_def parts_def)
  show i: "concat (rev (fst (parts evs))) = concat (map (\<lambda>e. before_NUL (read_of e)) evs)" by (rule parts_input)
  assume "\<forall>e\<in>set evs. CHR 0x00 \<notin> set (read_of e)"
  then have "map (\<lambda>e. before_NUL (read_of e)) evs = map read_of evs" by (auto simp: before_NUL_all)
  then show "concat (rev (fst (parts evs))) = concat (map read_of evs)" by (simp only: i)
qed

theorem logger_keeps_input_witness:
  "concat (rev (fst (parts [Chunk ''a'', Hup, Chunk ''bc'']))) = ''abc''"
  using logger_keeps_input [of "[Chunk ''a'', Hup, Chunk ''bc'']"] by (simp add: before_NUL_all)

text \<open>What stands behind a NUL in a line is lost: the logger reads with \<open>fgets\<close> but writes with \<open>fputs\<close>.\<close>

lemma nul_cuts_line:
  "dirfiles (logger_run [Chunk (''a'' @ [CHR 0x00] @ ''b'')] (logger_start (\<lambda>_. None))) 0 = Some ''a''"
  by (simp add: logger_run_def logger_start_def open_log_def append_log_def)

text \<open>The counter starts anew with the program, so a second run moves the log over a file of the first.\<close>

lemma restart_overwrites:
  "dirfiles (logger_run [Hup, Chunk ''c''] (logger_start (parts_held [''b'', ''a'']))) 1 = Some ''b''"
  "dirfiles (logger_run [Hup, Chunk ''c''] (logger_start (parts_held [''b'', ''a'']))) 2 = None"
  by (simp_all add: logger_run_def logger_start_def open_log_def parts_held_def rotate_files_def rename_def append_log_def Let_def)

end
