(* ===== verification/Mkfs.thy ===== *)
theory Mkfs
  imports Dir
begin

text \<open>
  The program that makes the file system (mkfs.c), and what the kernel finds on the disk it has made. A host file is
  the sequence of what \<open>read\<close> returns of it. The image is a file of \<open>nsect\<close> sectors: reading past its end fails,
  and the program exits, as it does at a failed assertion. A \<open>struct dinode\<close> is an inode of which only the fields
  on the disk count. Sector numbers are below 2^23, where \<open>sec * BSIZE\<close> does not wrap around.
\<close>

section \<open>The program\<close>

definition FSSIZE :: nat where "FSSIZE = 1000"
definition NINODES :: nat where "NINODES = 200"
definition nbitmap :: nat where "nbitmap = FSSIZE div (BSIZE * 8) + 1"
definition ninodeblocks :: nat where "ninodeblocks = NINODES div IPB + 1"
definition nlog :: nat where "nlog = LOGSIZE"
definition nmeta :: nat where "nmeta = 2 + nlog + ninodeblocks + nbitmap"

record mkfs =
  img :: "u32 \<Rightarrow> blk"
  nsect :: u32
  msb :: superblock
  freeinode :: u32
  freeblock :: u32

definition zeroes :: blk where "zeroes = replicate BSIZE 0"

definition wsect :: "u32 \<Rightarrow> blk \<Rightarrow> mkfs \<Rightarrow> mkfs" where
  "wsect sec b m = m\<lparr>img := (img m)(sec := b), nsect := max (nsect m) (sec + 1)\<rparr>"

definition rsect :: "u32 \<Rightarrow> mkfs \<Rightarrow> blk res" where
  "rsect sec m = (if sec < nsect m then Inr (img m sec) else Inl (Panic ''read''))"

definition mk_iblock :: "u32 \<Rightarrow> mkfs \<Rightarrow> u32" where
  "mk_iblock i m = i div of_nat IPB + sb_inodestart (msb m)"

definition din0 :: "u32 \<Rightarrow> inode" where
  "din0 i = \<lparr>idev = 0, inum = i, iref = 0, ilocked = False, ivalid = False, itype = 0, imajor = 0, iminor = 0,
     inlink = 0, isize = 0, addrs = replicate (NDIRECT + 1) 0\<rparr>"

definition winode :: "inode \<Rightarrow> mkfs \<Rightarrow> mkfs res" where
  "winode din m = (let bn = mk_iblock (inum din) m in rbind (rsect bn m) (\<lambda>buf. Inr (wsect bn (dinode_put din buf) m)))"

definition rinode :: "u32 \<Rightarrow> mkfs \<Rightarrow> inode res" where
  "rinode i m = rbind (rsect (mk_iblock i m) m) (\<lambda>buf. Inr (dinode_get buf (din0 i)))"

definition mk_ialloc :: "u16 \<Rightarrow> mkfs \<Rightarrow> (u32 \<times> mkfs) res" where
  "mk_ialloc ty m = (let i = freeinode m; m = m\<lparr>freeinode := i + 1\<rparr> in
     rbind (winode ((din0 i)\<lparr>itype := ty, inlink := 1, isize := 0\<rparr>) m) (\<lambda>m. Inr (i, m)))"

definition bitmap_buf :: "nat \<Rightarrow> blk" where
  "bitmap_buf n = fold (\<lambda>i buf. buf[i div 8 := buf ! (i div 8) OR push_bit (i mod 8) 1]) [0..<n] zeroes"

definition mk_balloc :: "nat \<Rightarrow> mkfs \<Rightarrow> mkfs res" where
  "mk_balloc n m = (if \<not> n < BSIZE * 8 then Inl (Panic ''assert'') else Inr (wsect (sb_bmapstart (msb m)) (bitmap_buf n) m))"

text \<open>The first part of the loop in \<open>iappend\<close>: the block \<open>x\<close> of index \<open>fbn\<close>.\<close>

definition new_addr :: "nat \<Rightarrow> inode \<Rightarrow> mkfs \<Rightarrow> inode \<times> mkfs" where
  "new_addr k din m =
     (if addrs din ! k = 0
      then (din\<lparr>addrs := (addrs din)[k := freeblock m]\<rparr>, m\<lparr>freeblock := freeblock m + 1\<rparr>) else (din, m))"

definition file_block :: "nat \<Rightarrow> inode \<Rightarrow> mkfs \<Rightarrow> (u32 \<times> inode \<times> mkfs) res" where
  "file_block fbn din m =
     (if fbn < NDIRECT then let (din, m) = new_addr fbn din m in Inr (addrs din ! fbn, din, m)
      else let (din, m) = new_addr NDIRECT din m; ia = addrs din ! NDIRECT; k = 4 * (fbn - NDIRECT) in
        rbind (rsect ia m) (\<lambda>indirect.
          if get32 indirect k = 0
          then (let a = freeblock m; indirect = put32 k a indirect; m = wsect ia indirect (m\<lparr>freeblock := a + 1\<rparr>)
                in Inr (get32 indirect k, din, m))
          else Inr (get32 indirect k, din, m)))"

text \<open>\<open>n1\<close> is the \<open>chunk\<close> of the file system.\<close>

function iappend_loop :: "inode \<Rightarrow> nat \<Rightarrow> u8 list \<Rightarrow> mkfs \<Rightarrow> (inode \<times> nat \<times> mkfs) res" where
  "iappend_loop din off p m =
     (if p = [] then Inr (din, off, m)
      else if \<not> off div BSIZE < MAXFILE then Inl (Panic ''assert'')
      else rbind (file_block (off div BSIZE) din m) (\<lambda>(x, din, m). rbind (rsect x m) (\<lambda>buf.
        let n1 = chunk off (length p); k = off mod BSIZE in
        iappend_loop din (off + n1) (drop n1 p) (wsect x (take k buf @ take n1 p @ drop (k + n1) buf) m))))"
  by pat_completeness auto
termination
  by (relation "measure (\<lambda>(din, off, p, m). length p)") (auto simp: chunk_pos)

declare iappend_loop.simps [simp del]

definition iappend :: "u32 \<Rightarrow> u8 list \<Rightarrow> mkfs \<Rightarrow> mkfs res" where
  "iappend i p m = rbind (rinode i m) (\<lambda>din. rbind (iappend_loop din (unat (isize din)) p m) (\<lambda>(din, off, m).
     winode (din\<lparr>isize := of_nat off\<rparr>) m))"

text \<open>The loop over what \<open>read\<close> returns; it ends at the first 0.\<close>

fun append_file :: "u32 \<Rightarrow> u8 list list \<Rightarrow> mkfs \<Rightarrow> mkfs res" where
  "append_file i [] m = Inr m"
| "append_file i (buf # rest) m = (if buf = [] then Inr m else rbind (iappend i buf m) (append_file i rest))"

abbreviation underscore :: u8 where "underscore \<equiv> 95"

definition file_name :: "u8 list \<Rightarrow> u8 list" where
  "file_name arg = (if byte0 arg = underscore then tl arg else arg)"

fun add_files :: "(u8 list \<times> u8 list list) list \<Rightarrow> mkfs \<Rightarrow> mkfs res" where
  "add_files [] m = Inr m"
| "add_files ((arg, reads) # rest) m =
     (if slash \<in> set arg then Inl (Panic ''assert'')
      else rbind (mk_ialloc T_FILE m) (\<lambda>(i, m).
        rbind (iappend ROOTINO (dirent_bytes \<lparr>d_inum = ucast i, d_name = strncpy_b DIRSIZ (file_name arg)\<rparr>) m) (\<lambda>m.
        rbind (append_file i reads m) (add_files rest))))"

definition mk_sb :: superblock where
  "mk_sb = \<lparr>sb_size = of_nat FSSIZE, sb_nblocks = of_nat (FSSIZE - nmeta), sb_ninodes = of_nat NINODES, sb_nlog = of_nat nlog,
     sb_logstart = 2, sb_inodestart = of_nat (2 + nlog), sb_bmapstart = of_nat (2 + nlog + ninodeblocks)\<rparr>"

definition sb_words :: "superblock \<Rightarrow> u32 list" where
  "sb_words b = [sb_size b, sb_nblocks b, sb_ninodes b, sb_nlog b, sb_logstart b, sb_inodestart b, sb_bmapstart b]"

definition mk_start :: mkfs where
  "mk_start = (let m = \<lparr>img = (\<lambda>_. zeroes), nsect = 0, msb = mk_sb, freeinode = 1, freeblock = of_nat nmeta\<rparr>;
     m = fold (\<lambda>i. wsect (of_nat i) zeroes) [0..<FSSIZE] m in
     wsect 1 (put32s 0 (sb_words mk_sb) zeroes) m)"

text \<open>The size of the root is made a multiple of the block size.\<close>

definition fix_root :: "mkfs \<Rightarrow> mkfs res" where
  "fix_root m = rbind (rinode ROOTINO m) (\<lambda>din.
     let off = (isize din div of_nat BSIZE + 1) * of_nat BSIZE in winode (din\<lparr>isize := off\<rparr>) m)"

definition mkfs_main :: "(u8 list \<times> u8 list list) list \<Rightarrow> mkfs res" where
  "mkfs_main files =
     rbind (mk_ialloc T_DIR mk_start) (\<lambda>(root, m).
     if root \<noteq> ROOTINO then Inl (Panic ''assert'')
     else rbind (iappend root (dirent_bytes \<lparr>d_inum = ucast root, d_name = strncpy_b DIRSIZ [46]\<rparr>) m) (\<lambda>m.
       rbind (iappend root (dirent_bytes \<lparr>d_inum = ucast root, d_name = strncpy_b DIRSIZ [46, 46]\<rparr>) m) (\<lambda>m.
       rbind (add_files files m) (\<lambda>m.
       rbind (fix_root m) (\<lambda>m. mk_balloc (unat (freeblock m)) m)))))"


section \<open>Inodes in their blocks\<close>

lemma put32s_nth: "k < i \<or> i + 4 * length ws \<le> k \<Longrightarrow> put32s i ws b ! k = b ! k"
  by (induction ws arbitrary: i b) (auto simp: put32_nth)

lemma get16_put32s: "j + 1 < i \<Longrightarrow> get16 (put32s i ws b) j = get16 b j"
  by (simp add: get16_def put32s_nth)

lemma dinode_put_nth:
  assumes "k < ioff (inum din) \<or> ioff (inum din) + 64 \<le> k" and "length (addrs din) = 13"
  shows "dinode_put din b ! k = b ! k"
  using assms by (auto simp: dinode_put_def Let_def put32s_nth put32_nth put16_nth)

lemma dinode_get_cong:
  assumes "\<And>k. ioff (inum p) \<le> k \<Longrightarrow> k < ioff (inum p) + 64 \<Longrightarrow> b ! k = b' ! k"
  shows "dinode_get b p = dinode_get b' p"
  using assms by (simp add: dinode_get_def Let_def get16_def get32_def get32s_def fs_consts)

lemma dinode_get_put:
  assumes "length (addrs din) = 13" and "length b = BSIZE" and "inum p = inum din"
  shows "dinode_get (dinode_put din b) p
    = p\<lparr>itype := itype din, imajor := imajor din, iminor := iminor din, inlink := inlink din, isize := isize din, addrs := addrs din\<rparr>"
proof -
  let ?k = "ioff (inum din)"
  have k: "?k + 64 \<le> length b"
  proof -
    have "unat (inum din) mod 8 \<le> 7" by (simp add: less_Suc_eq_le [symmetric])
    then show ?thesis using assms(2) by (simp add: ioff_def fs_consts)
  qed
  have "get32s (?k + 12) 13 (dinode_put din b) = addrs din"
    using get32s_put32s [of "?k + 12" "addrs din"] assms(1) k by (simp add: dinode_put_def Let_def)
  then show ?thesis using assms k
    by (simp add: dinode_get_def dinode_put_def Let_def get16_put32s blk_simps fs_consts)
qed


section \<open>The image as the kernel sees it\<close>

lemma mk_consts: "nlog = 30" "ninodeblocks = 26" "nbitmap = 1" "nmeta = 59" "FSSIZE = 1000" "NINODES = 200"
  "mk_sb = \<lparr>sb_size = 1000, sb_nblocks = 941, sb_ninodes = 200, sb_nlog = 30, sb_logstart = 2, sb_inodestart = 32, sb_bmapstart = 58\<rparr>"
  by (simp_all add: nlog_def ninodeblocks_def nbitmap_def nmeta_def FSSIZE_def NINODES_def mk_sb_def LOGSIZE_30 fs_consts)

lemma length_zeroes [simp]: "length zeroes = BSIZE"
  by (simp add: zeroes_def)

lemma length_bitmap [simp]: "length (bitmap_buf n) = BSIZE"
  by (induction n) (simp_all add: bitmap_buf_def)

lemma in_use_bitmap:
  assumes "n \<le> BPB" "b < BPB"
  shows "in_use (bitmap_buf n) b \<longleftrightarrow> b < n"
  using assms(1)
proof (induction n)
  case 0
  then show ?case using assms(2) by (simp add: bitmap_buf_def zeroes_def in_use_def fs_consts)
next
  case (Suc n)
  have "bitmap_buf (Suc n) = (bitmap_buf n)[n div 8 := bitmap_buf n ! (n div 8) OR bit_mask n]"
    by (simp add: bitmap_buf_def bit_mask_def)
  moreover have "n < BPB" using Suc.prems by simp
  ultimately have "in_use (bitmap_buf (Suc n)) b \<longleftrightarrow> b = n \<or> in_use (bitmap_buf n) b"
    by (simp only: in_use_set [OF length_bitmap _ assms(2)])
  then show ?case using Suc by auto
qed

text \<open>
  While \<open>mkfs\<close> runs, the state of the kernel that the image stands for: the bitmap is not written yet, and the inode
  that is appended to is in a variable, so both are parts of the view. The cache has a slot for every inode.
\<close>

definition kview :: "mkfs \<Rightarrow> (nat \<Rightarrow> inode) \<Rightarrow> fs" where
  "kview m f = \<lparr>dev = dev_boot ((img m)(58 := bitmap_buf (unat (freeblock m)))),
     flog = \<lparr>lstart = 2, lsize = 31, outstanding = 1, committing = False, lh = []\<rparr>,
     sb = mk_sb, icache = map f [0..<NINODES], fdisk = 1000\<rparr>"

definition mk_ok :: "mkfs \<Rightarrow> bool" where
  "mk_ok m \<longleftrightarrow> nsect m = 1000 \<and> msb m = mk_sb \<and> 59 \<le> freeblock m \<and> freeblock m \<le> 1000
     \<and> (\<forall>n. freeblock m \<le> n \<longrightarrow> img m n = zeroes) \<and> (\<forall>n. length (img m n) = BSIZE) \<and> sb_of (img m 1) = mk_sb"

lemma mk_okD:
  assumes "mk_ok m"
  shows "nsect m = 1000" "msb m = mk_sb" "59 \<le> freeblock m" "freeblock m \<le> 1000"
    "freeblock m \<le> n \<Longrightarrow> img m n = zeroes" "length (img m n) = BSIZE" "sb_of (img m 1) = mk_sb"
  using assms by (simp_all add: mk_ok_def)

lemma kview_simps [simp]: "sb (kview m f) = mk_sb" "fdisk (kview m f) = 1000" "length (icache (kview m f)) = 200"
  "i < 200 \<Longrightarrow> the_ip (kview m f) i = f i" "cview (dev (kview m f)) = (img m)(58 := bitmap_buf (unat (freeblock m)))"
  by (simp_all add: kview_def dev_boot_def mk_consts)

lemma div_small_word: "n < 1000 \<Longrightarrow> n div 4096 = (0 :: u32)" "i < 200 \<Longrightarrow> i div 8 \<le> (24 :: u32)"
proof -
  show "n div 4096 = (0 :: u32)" if "n < 1000"
    using that by (simp add: word_less_nat_alt word_arith_nat_div)
  show "i div 8 \<le> (24 :: u32)" if "i < 200"
  proof -
    have "unat i < 200" using that by (simp add: word_less_nat_alt)
    then have "unat i div 8 \<le> 24" by linarith
    then show ?thesis by (simp add: word_le_nat_alt unat_div)
  qed
qed

lemma kview_blocks:
  shows "n < 1000 \<Longrightarrow> BBLOCK n (kview m f) = 58" "bitmap_blocks (kview m f) = {58}"
    "i < 200 \<Longrightarrow> IBLOCK i (kview m f) \<in> {32..56}" "inode_blocks (kview m f) \<subseteq> {32..56}"
    "IBLOCK i (kview m f) = i div 8 + 32"
proof -
  show B: "BBLOCK n (kview m f) = 58" if "n < 1000" for n
    using div_small_word(1) [OF that] by (simp add: BBLOCK_def mk_consts fs_consts)
  have "(0 :: u32) < 1000" by simp
  then show "bitmap_blocks (kview m f) = {58}"
    using B unfolding bitmap_blocks_def by (auto simp: mk_consts intro!: image_eqI [of _ _ 0])
  show E: "IBLOCK i (kview m f) = i div 8 + 32" for i by (simp add: IBLOCK_def mk_consts fs_consts)
  show I: "IBLOCK i (kview m f) \<in> {32..56}" if "i < 200" for i
  proof -
    have "unat (i div 8) \<le> 24" using div_small_word(2) [OF that] by (simp add: word_le_nat_alt)
    then have "unat (i div 8 + 32) = unat (i div 8) + 32" by (simp add: unat_word_ariths)
    then show ?thesis using \<open>unat (i div 8) \<le> 24\<close> unfolding E by (simp add: word_le_nat_alt)
  qed
  show "inode_blocks (kview m f) \<subseteq> {32..56}"
    using I by (auto simp: inode_blocks_def mk_consts)
qed

lemma kview_marked:
  assumes "mk_ok m" "n < 1000"
  shows "marked (kview m f) n \<longleftrightarrow> n < freeblock m"
proof -
  have "unat n < 1000" "unat (freeblock m) \<le> 1000"
    using assms mk_okD(4) [OF assms(1)] by (simp_all add: word_less_nat_alt word_le_nat_alt)
  then have "in_use (bitmap_buf (unat (freeblock m))) (unat n mod BPB) \<longleftrightarrow> unat n < unat (freeblock m)"
    by (subst in_use_bitmap) (simp_all add: fs_consts)
  then show ?thesis using assms(2) by (simp add: marked_def kview_blocks word_less_nat_alt)
qed

lemma kview_ok:
  assumes m: "mk_ok m"
  shows "fs_ok (kview m f)"
proof -
  note M = mk_okD [OF m]
  have used: "b < 1000 \<and> marked (kview m f) b" if "b < 59" for b
  proof -
    have "b < 1000" using that by (rule order.strict_trans) simp
    then show ?thesis using kview_marked [OF m] that M(3) by auto
  qed
  have small: "b < 59" if "b \<in> insert 0 (insert 1 (inode_blocks (kview m f) \<union> bitmap_blocks (kview m f)))" for b
  proof -
    have "b \<in> {32..56} \<or> b \<in> {0, 1, 58}" using that kview_blocks(2,4) [of m f] by blast
    then show ?thesis by (auto simp: word_le_nat_alt word_less_nat_alt)
  qed
  have ni: "b \<notin> inode_blocks (kview m f)" if "b \<in> {0, 1, 58}" for b
    using kview_blocks(4) [of m f] that by (auto simp: subset_iff word_le_nat_alt)
  show ?thesis
    unfolding fs_ok_def kview_blocks(2)
    using used small ni M(6,7) unfolding kview_blocks(2) by (auto simp: mk_consts)
qed


text \<open>The invariants of the file system look at the contents of the blocks, the super block, the cached inodes and the size.\<close>

definition same_core :: "fs \<Rightarrow> fs \<Rightarrow> bool" where
  "same_core s t \<longleftrightarrow> cview (dev s) = cview (dev t) \<and> sb s = sb t \<and> icache s = icache t \<and> fdisk s = fdisk t"

lemma core_cong:
  assumes "same_core s t"
  shows "fs_ok s = fs_ok t" "file_ok s ip = file_ok t ip" "faddr s ip k = faddr t ip k" "fbyte s ip i = fbyte t ip i"
    "marked s n = marked t n" "fcontent s ip = fcontent t ip" "grows u ip s = grows u ip t" "reserved s = reserved t"
proof -
  have e: "cview (dev s) = cview (dev t)" "sb s = sb t" "icache s = icache t" "fdisk s = fdisk t"
    using assms by (simp_all add: same_core_def)
  note B = blocks_cong [OF e(2)]
  show m: "marked s n = marked t n" for n by (simp add: marked_def B e)
  show ok: "fs_ok s = fs_ok t" by (simp add: fs_ok_def B e m)
  show r: "reserved s = reserved t" by (simp add: reserved_def B)
  show f: "faddr s ip k = faddr t ip k" for ip k by (simp add: faddr_def e Let_def)
  show fo: "file_ok s ip = file_ok t ip" for ip by (simp add: file_ok_def f e m r)
  show b: "fbyte s ip i = fbyte t ip i" for i by (simp add: fbyte_def f e Let_def)
  show "fcontent s ip = fcontent t ip" by (simp add: fcontent_def b e)
  show "grows u ip s = grows u ip t" by (simp add: grows_def ok fo f m e)
qed

section \<open>Appending to a file\<close>

text \<open>A step of \<open>iappend\<close> as the kernel sees it: \<open>din\<close> is the inode of \<open>i\<close>.\<close>

definition extends :: "mkfs \<Rightarrow> (nat \<Rightarrow> inode) \<Rightarrow> nat \<Rightarrow> inode \<Rightarrow> mkfs \<Rightarrow> bool" where
  "extends m f i din m' \<longleftrightarrow> mk_ok m' \<and> freeinode m' = freeinode m \<and> grows (kview m f) i (kview m' (f(i := din)))"

lemma extends_refl: "mk_ok m \<Longrightarrow> file_ok (kview m f) i \<Longrightarrow> extends m f i (f i) m"
  by (simp add: extends_def grows_refl kview_ok)

lemma extends_trans:
  "extends m f i din m1 \<Longrightarrow> extends m1 (f(i := din)) i din' m2 \<Longrightarrow> extends m f i din' m2"
  by (auto simp: extends_def intro: grows_trans)

lemma word_Suc: "a < b \<Longrightarrow> unat (a + 1) = unat a + 1" for b :: u32
proof -
  assume "a < b"
  then have "unat a < unat b" by (simp add: word_less_nat_alt)
  then have "unat a + 1 < 2 ^ LENGTH(32)" using unat_bound [of b] by linarith
  then show "unat (a + 1) = unat a + 1" by (simp add: unat_word_ariths)
qed

lemma word_Suc_le: "a < b \<Longrightarrow> a < a + 1 \<and> a + 1 \<le> (b :: u32)"
  using word_Suc [of a b] by (simp add: word_less_nat_alt word_le_nat_alt)

lemma next_block:
  assumes m: "mk_ok m" and f: "freeblock m < 1000"
  defines "m' \<equiv> m\<lparr>freeblock := freeblock m + 1\<rparr>"
  shows "mk_ok m'" "balloc_post (kview m f') (freeblock m) (kview m' f')"
proof -
  note M = mk_okD [OF m]
  have up: "freeblock m < freeblock m + 1" "freeblock m + 1 \<le> 1000" using word_Suc_le [OF f] by simp_all
  show ok: "mk_ok m'" using M up unfolding mk_ok_def m'_def by auto
  have mk: "marked (kview m' f') b = (b = freeblock m \<or> marked (kview m f') b)" if "b < 1000" for b
    using word_Suc [OF f] kview_marked [OF ok that] kview_marked [OF m that]
    by (auto simp: m'_def word_less_nat_alt word_unat_eq_iff)
  have z: "img m (freeblock m) = zeroes" using M(5) by simp
  have "icache (kview m' f') = icache (kview m f')" by (simp add: kview_def)
  moreover have "\<not> marked (kview m f') (freeblock m)" using kview_marked [OF m f] by simp
  moreover have "freeblock m \<noteq> 58" using M(3) by auto
  ultimately show "balloc_post (kview m f') (freeblock m) (kview m' f')"
    unfolding balloc_post_def kview_blocks(2)
    using f mk kview_ok [OF ok] z by (auto simp: mk_consts m'_def zeroes_def)
qed

lemma new_addr_step:
  assumes m: "mk_ok m" and i: "i < 200" and fo: "file_ok (kview m f) i" and k: "k < 13"
    and n: "new_addr k (f i) m = (din', m')" and lt: "addrs din' ! k < 1000"
  shows "extends m f i din' m'" "addrs din' ! k \<noteq> 0" "b < MAXFILE * BSIZE \<Longrightarrow> fbyte (kview m' (f(i := din'))) i b = fbyte (kview m f) i b"
    "img m' = img m"
proof -
  have "extends m f i din' m' \<and> addrs din' ! k \<noteq> 0 \<and>
    (b < MAXFILE * BSIZE \<longrightarrow> fbyte (kview m' (f(i := din'))) i b = fbyte (kview m f) i b) \<and> img m' = img m"
  proof (cases "addrs (f i) ! k = 0")
    case False
    then show ?thesis using n extends_refl [OF m fo] by (auto simp: new_addr_def)
  next
    case True
    let ?m = "m\<lparr>freeblock := freeblock m + 1\<rparr>"
    have d: "din' = (f i)\<lparr>addrs := (addrs (f i))[k := freeblock m]\<rparr>" "m' = ?m" using n True by (auto simp: new_addr_def)
    have "length (addrs (f i)) = 13" using file_okD(2) [OF fo] i by simp
    then have f: "freeblock m < 1000" using lt k d by simp
    note N = next_block [OF m f]
    have v: "iset i (\<lambda>p. p\<lparr>addrs := (addrs p)[k := freeblock m]\<rparr>) (kview ?m f) = kview ?m (f(i := din'))"
      using i by (auto simp: iset_def kview_def d mk_consts intro!: nth_equalityI simp: nth_list_update)
    have z: "addrs (the_ip (kview m f) i) ! k = 0" using True i by simp
    note E = enter_direct [OF kview_ok [OF m] fo N(2) k z, unfolded v]
    show ?thesis using E N(1) d i by (auto simp: extends_def)
  qed
  then show "extends m f i din' m'" "addrs din' ! k \<noteq> 0" "b < MAXFILE * BSIZE \<Longrightarrow> fbyte (kview m' (f(i := din'))) i b = fbyte (kview m f) i b"
    "img m' = img m" by auto
qed


lemma slot_block:
  assumes m: "mk_ok m" and fo: "file_ok (kview m f) i" and k: "k < FSLOTS" and a: "a = faddr (kview m f) i k" "a \<noteq> 0"
  shows "a < 1000" "a < freeblock m" "a \<noteq> 1" "a \<noteq> 58" "a \<notin> inode_blocks (kview m f)"
proof -
  note F = file_okD(3-5) [OF fo k]
  show "a < 1000" using F(1) a by (simp add: mk_consts)
  then show "a < freeblock m" using F(2) a kview_marked [OF m] by simp
  show "a \<noteq> 1" "a \<noteq> 58" "a \<notin> inode_blocks (kview m f)"
    using F(3) a by (auto simp: reserved_def kview_blocks(2))
qed

lemma wsect_ok:
  assumes m: "mk_ok m" and n: "n < freeblock m" "n \<noteq> 1" and d: "length d = BSIZE"
  shows "mk_ok (wsect n d m)"
proof -
  note M = mk_okD [OF m]
  have "n + 1 \<le> 1000" using word_Suc_le [of n 1000] n(1) M(4) by auto
  then show ?thesis using M n d unfolding mk_ok_def wsect_def by (auto simp: max_def)
qed

text \<open>A write of \<open>mkfs\<close> is what \<open>blog\<close> does in the view.\<close>

lemma blog_kview:
  assumes n: "n \<noteq> 58"
  shows "\<exists>s. blog n d (kview m f) = Inr s \<and> same_core s (kview (wsect n d m) f)"
  using n by (auto simp: blog_def log_write_def kview_def dev_boot_def LOGSIZE_30 same_core_def wsect_def)

definition same_bytes :: "mkfs \<Rightarrow> (nat \<Rightarrow> inode) \<Rightarrow> nat \<Rightarrow> inode \<Rightarrow> mkfs \<Rightarrow> bool" where
  "same_bytes m f i din m' \<longleftrightarrow> (\<forall>b < MAXFILE * BSIZE. fbyte (kview m' (f(i := din))) i b = fbyte (kview m f) i b)"

lemma file_block_step:
  assumes m: "mk_ok m" and i: "i < 200" and fo: "file_ok (kview m f) i" and bn: "fbn < MAXFILE"
    and n: "file_block fbn (f i) m = Inr (x, din', m')" and x: "x < 1000"
  shows "extends m f i din' m'" "same_bytes m f i din' m'" "x = faddr (kview m' (f(i := din'))) i (fslot fbn)" "x \<noteq> 0"
proof -
  have "extends m f i din' m' \<and> same_bytes m f i din' m' \<and> x = faddr (kview m' (f(i := din'))) i (fslot fbn) \<and> x \<noteq> 0"
  proof (cases "fbn < 12")
    case True
    then have "new_addr fbn (f i) m = (din', m')" "x = addrs din' ! fbn"
      using n by (auto simp: file_block_def fs_consts split: prod.splits)
    then show ?thesis
      using new_addr_step [OF m i fo, of fbn din' m'] x True i by (auto simp: same_bytes_def faddr_def fslot_def)
  next
    case ge: False
    obtain din1 m1 where n1: "new_addr 12 (f i) m = (din1, m1)" by fastforce
    let ?ia = "addrs din1 ! 12" and ?k = "4 * (fbn - 12)" and ?f = "f(i := din1)"
    have bn12: "fbn - 12 < 128" "fslot fbn = 13 + (fbn - 12)" using bn ge by (auto simp: fs_consts fslot_def)
    have rest: "rbind (rsect ?ia m1) (\<lambda>ind. if get32 ind ?k = 0
        then (let a = freeblock m1; ind = put32 ?k a ind; m = wsect ?ia ind (m1\<lparr>freeblock := a + 1\<rparr>) in Inr (get32 ind ?k, din1, m))
        else Inr (get32 ind ?k, din1, m1)) = Inr (x, din', m')"
      using n ge n1 by (simp add: file_block_def fs_consts Let_def)
    have "nsect m1 = 1000" using n1 mk_okD(1) [OF m] by (auto simp: new_addr_def split: if_splits)
    then have ia: "?ia < 1000" and rs: "rsect ?ia m1 = Inr (img m1 ?ia)"
      using rest by (auto simp: rbind_eq_Inr rsect_def split: if_splits)
    note N = new_addr_step [OF m i fo _ n1 ia]
    have e1: "extends m f i din1 m1" "?ia \<noteq> 0" using N by simp_all
    then have m1: "mk_ok m1" and fo1: "file_ok (kview m1 ?f) i" by (simp_all add: extends_def grows_def)
    have f12: "?ia = faddr (kview m1 ?f) i 12" using i by (simp add: faddr_def)
    note S = slot_block [OF m1 fo1 _ f12 e1(2)]
    have ia58: "?ia \<noteq> 58" "?ia \<noteq> 1" "?ia < freeblock m1" using S by (simp_all add: FSLOTS_def)
    have same1: "fbyte (kview m1 ?f) i b = fbyte (kview m f) i b" if "b < MAXFILE * BSIZE" for b using N(3) [OF _ that] by simp
    show ?thesis
    proof (cases "get32 (img m1 ?ia) ?k = 0")
      case False
      then have "x = get32 (img m1 ?ia) ?k" "din' = din1" "m' = m1" using rest rs by auto
      then show ?thesis using False e1 same1 ia58 i bn12 by (simp add: same_bytes_def faddr_def)
    next
      case True
      let ?a = "freeblock m1" and ?d = "put32 ?k (freeblock m1) (img m1 ?ia)"
      let ?m1 = "m1\<lparr>freeblock := ?a + 1\<rparr>"
      have ld: "length (img m1 ?ia) = 512" using mk_okD(6) [OF m1] by (simp add: fs_consts)
      have k3: "?k + 3 < 512" using bn12 by simp
      have d: "x = ?a" "din' = din1" "m' = wsect ?ia ?d ?m1" using rest rs True ld k3 by (auto simp: Let_def get32_put32)
      have a: "?a < 1000" using x d by simp
      note B = next_block [OF m1 a]
      obtain s where s: "blog ?ia ?d (kview ?m1 ?f) = Inr s" "same_core s (kview m' ?f)"
        using blog_kview [OF ia58(1), of ?d ?m1 ?f] d by auto
      have z: "get32 (cview (dev (kview m1 ?f)) ?ia) ?k = 0" "?ia = addrs (the_ip (kview m1 ?f) i) ! 12"
        using True ia58 i by simp_all
      have s': "blog ?ia (put32 ?k ?a (cview (dev (kview m1 ?f)) ?ia)) (kview ?m1 ?f) = Inr s" using s(1) ia58 by simp
      note E = enter_indirect [OF kview_ok [OF m1] fo1 B(2) bn12(1) z(2) e1(2) z(1) s']
      have mk: "mk_ok m'"
        unfolding d
      proof (rule wsect_ok [OF B(1) _ ia58(2)])
        show "?ia < freeblock ?m1" using ia58(3) word_Suc_le [OF a] by auto
        show "length ?d = BSIZE" using ld by (simp add: fs_consts)
      qed
      have "extends m1 ?f i din1 m'"
        using E(1) mk d by (simp add: extends_def core_cong(7) [OF s(2)] wsect_def)
      then have "extends m f i din1 m'" using extends_trans [OF e1(1)] by simp
      then show ?thesis using E(2-4) same1 d bn12 by (simp add: same_bytes_def core_cong(3,4) [OF s(2)])
    qed
  qed
  then show "extends m f i din' m'" "same_bytes m f i din' m'" "x = faddr (kview m' (f(i := din'))) i (fslot fbn)" "x \<noteq> 0"
    by auto
qed


lemma file_block_nsect:
  assumes "file_block fbn din m = Inr (x, din', m')" "nsect m = 1000"
  shows "nsect m' = 1000"
proof -
  have up: "max 1000 (a + 1) = (1000 :: u32)" if "a < 1000" for a using word_Suc_le [OF that] by (simp only: max_def) auto
  show ?thesis
    using assms by (auto simp: file_block_def new_addr_def rsect_def wsect_def Let_def rbind_eq_Inr up
      split: if_splits prod.splits)
qed

text \<open>One data block is written.\<close>

lemma data_block_step:
  assumes m: "mk_ok m" and fo: "file_ok (kview m f) i" and i: "i < 200" and bn: "off div BSIZE < MAXFILE"
    and x: "x = faddr (kview m f) i (fslot (off div BSIZE))" "x \<noteq> 0" and n: "n \<le> length p" "n \<le> BSIZE - off mod BSIZE"
  defines "k \<equiv> off mod BSIZE"
  defines "m' \<equiv> wsect x (take k (img m x) @ take n p @ drop (k + n) (img m x)) m"
  shows "extends m f i (f i) m'" "b < MAXFILE * BSIZE \<Longrightarrow>
    fbyte (kview m' f) i b = (if off \<le> b \<and> b < off + n then p ! (b - off) else fbyte (kview m f) i b)"
proof -
  let ?d = "take k (img m x) @ take n p @ drop (k + n) (img m x)"
  note S = slot_block [OF m fo fslot_bound(1) [OF bn] x]
  have l: "length (img m x) = BSIZE" by (rule mk_okD(6) [OF m])
  have k: "k < BSIZE" by (simp add: k_def BSIZE_def)
  have ld: "length ?d = BSIZE" using n l k by (simp add: k_def)
  obtain s where s: "blog x ?d (kview m f) = Inr s" "same_core s (kview m' f)"
    using blog_kview [OF S(4), of ?d m f] unfolding m'_def by auto
  note W = write_block [OF kview_ok [OF m] fo bn x ld s(1)]
  have "mk_ok m'" unfolding m'_def by (rule wsect_ok [OF m S(2,3) ld])
  then show "extends m f i (f i) m'"
    using W(1) by (simp add: extends_def core_cong(7) [OF s(2)] m'_def wsect_def)
  assume b: "b < MAXFILE * BSIZE"
  have j: "b mod BSIZE < length (img m x)" using l by (simp add: BSIZE_def)
  have km: "k + n \<le> length (img m x)" "off mod BSIZE + n \<le> BSIZE" using n l k by (simp_all add: k_def)
  have same: "b div BSIZE = off div BSIZE \<Longrightarrow> fbyte (kview m f) i b = img m x ! (b mod BSIZE)"
    using x S(4) by (auto simp: fbyte_def Let_def)
  have "fbyte (kview m' f) i b = (if b div BSIZE = off div BSIZE then ?d ! (b mod BSIZE) else fbyte (kview m f) i b)"
    using W(2) [OF b] by (simp add: core_cong(4) [OF s(2)])
  then show "fbyte (kview m' f) i b = (if off \<le> b \<and> b < off + n then p ! (b - off) else fbyte (kview m f) i b)"
    using splice_nth [OF km(1) n(1) j] in_chunk [OF km(2), of b] mod_sub [of b off] same by (auto simp: k_def split: if_splits)
qed

lemma iappend_loop_spec:
  "mk_ok m \<Longrightarrow> i < 200 \<Longrightarrow> file_ok (kview m f) i \<Longrightarrow> f i = din \<Longrightarrow> iappend_loop din off p m = Inr (din', off', m') \<Longrightarrow>
   extends m f i din' m' \<and> off' = off + length p \<and> (p = [] \<or> off' \<le> MAXFILE * BSIZE)
     \<and> (\<forall>b < MAXFILE * BSIZE. fbyte (kview m' (f(i := din'))) i b
          = (if off \<le> b \<and> b < off + length p then p ! (b - off) else fbyte (kview m f) i b))"
proof (induction din off p m arbitrary: f din' off' m' rule: iappend_loop.induct)
  case (1 din off p m)
  show ?case
  proof (cases "p = []")
    case True
    then have "din' = f i" "off' = off" "m' = m" using 1(5,6) by (simp_all add: iappend_loop.simps)
    then show ?thesis using True extends_refl [OF 1(2,4)] by auto
  next
    case False
    let ?n = "chunk off (length p)" and ?k = "off mod BSIZE"
    have bn: "off div BSIZE < MAXFILE" using 1(6) False by (subst (asm) iappend_loop.simps) (simp split: if_splits)
    obtain x din1 m1 where b: "file_block (off div BSIZE) din m = Inr (x, din1, m1)" "rsect x m1 = Inr (img m1 x)"
      and r: "iappend_loop din1 (off + ?n) (drop ?n p) (wsect x (take ?k (img m1 x) @ take ?n p @ drop (?k + ?n) (img m1 x)) m1)
        = Inr (din', off', m')"
      using 1(6) False bn by (subst (asm) iappend_loop.simps) (auto simp: rbind_eq_Inr Let_def rsect_def split: if_splits)
    let ?m2 = "wsect x (take ?k (img m1 x) @ take ?n p @ drop (?k + ?n) (img m1 x)) m1" and ?f = "f(i := din1)"
    have x: "x < 1000" using b(2) file_block_nsect [OF b(1) mk_okD(1) [OF 1(2)]] by (auto simp: rsect_def split: if_splits)
    note B = file_block_step [OF 1(2,3,4) bn b(1) [folded 1(5)] x]
    have m1: "mk_ok m1" "file_ok (kview m1 ?f) i" using B(1) by (simp_all add: extends_def grows_def)
    have n: "?n \<le> length p" "?n \<le> BSIZE - ?k" by (simp_all add: chunk_def)
    note D = data_block_step [OF m1 1(3) bn B(3,4) n]
    have e: "extends m f i din1 ?m2" using extends_trans [OF B(1), of din1 ?m2] D(1) by simp
    then have m2: "mk_ok ?m2" "file_ok (kview ?m2 ?f) i" by (simp_all add: extends_def grows_def)
    let ?o = "off + ?n"
    have "extends ?m2 ?f i din' m' \<and> off' = ?o + length (drop ?n p) \<and> (drop ?n p = [] \<or> off' \<le> MAXFILE * BSIZE)
      \<and> (\<forall>b < MAXFILE * BSIZE. fbyte (kview m' (?f(i := din'))) i b
          = (if ?o \<le> b \<and> b < ?o + length (drop ?n p) then drop ?n p ! (b - ?o) else fbyte (kview ?m2 ?f) i b))"
      by (rule 1(1) [OF False _ refl refl m2(1) 1(3) m2(2) _ r]) (use bn in simp_all)
    then have ih: "extends ?m2 ?f i din' m'" "off' = ?o + length (drop ?n p)" "drop ?n p = [] \<or> off' \<le> MAXFILE * BSIZE"
      "\<And>b. b < MAXFILE * BSIZE \<Longrightarrow> fbyte (kview m' (f(i := din'))) i b
          = (if ?o \<le> b \<and> b < ?o + length (drop ?n p) then drop ?n p ! (b - ?o) else fbyte (kview ?m2 ?f) i b)"
      unfolding fun_upd_upd by blast+
    have bytes: "fbyte (kview m' (f(i := din'))) i b
        = (if off \<le> b \<and> b < off + length p then p ! (b - off) else fbyte (kview m f) i b)" if bb: "b < MAXFILE * BSIZE" for b
    proof (cases "?o \<le> b \<and> b < off + length p")
      case True
      then show ?thesis using ih(4) [OF bb] n(1) by (simp add: nth_drop)
    next
      case False
      have "fbyte (kview ?m2 ?f) i b = (if off \<le> b \<and> b < ?o then p ! (b - off) else fbyte (kview m f) i b)"
        using D(2) [OF bb] B(2) bb by (simp add: same_bytes_def)
      then show ?thesis using ih(4) [OF bb] n(1) False by auto
    qed
    have "off' \<le> MAXFILE * BSIZE" using ih(2,3) block_end [OF bn n(2)] n(1) by auto
    moreover have "off' = off + length p" using ih(2) n(1) by simp
    ultimately show ?thesis using bytes extends_trans [OF e ih(1)] by blast
  qed
qed


section \<open>The inodes on the disk\<close>

definition disk_ino :: "mkfs \<Rightarrow> nat \<Rightarrow> inode" where
  "disk_ino m i = dinode_get (img m (mk_iblock (of_nat i) m)) (din0 (of_nat i))"

lemma mk_iblock_eq: "mk_ok m \<Longrightarrow> mk_iblock i m = i div 8 + 32" "mk_ok m \<Longrightarrow> mk_iblock i m = IBLOCK i (kview m f)"
  using kview_blocks(5) [of i m f] by (simp_all add: mk_iblock_def mk_okD(2) mk_consts fs_consts)

lemma small_ino: "i < 200 \<Longrightarrow> (of_nat i :: u32) < 200" "i < 200 \<Longrightarrow> unat (of_nat i :: u32) = i"
  by (simp_all add: word_less_nat_alt unat_of_nat_small)

lemma iblock_range:
  assumes "mk_ok m" "i < 200"
  shows "mk_iblock (of_nat i) m \<in> {32..56}" "mk_iblock (of_nat i) m \<in> inode_blocks (kview m f)"
    "mk_iblock (of_nat i) m \<notin> {1, 58}" "mk_iblock (of_nat i) m < freeblock m" "mk_iblock (of_nat i) m < 1000"
proof -
  let ?b = "mk_iblock (of_nat i) m"
  show r: "?b \<in> {32..56}"
    using kview_blocks(3) [OF small_ino(1) [OF assms(2)]] by (simp add: mk_iblock_eq(2) [OF assms(1), of _ "\<lambda>_. din0 0"])
  show "?b \<in> inode_blocks (kview m f)"
    using small_ino(1) [OF assms(2)] by (auto simp: inode_blocks_def mk_iblock_eq(2) [OF assms(1), of _ f] mk_consts)
  show "?b \<notin> {1, 58}" using r by (auto simp: word_le_nat_alt)
  have "?b < 59" using r by (auto simp: word_le_nat_alt word_less_nat_alt)
  then show "?b < freeblock m" using mk_okD(3) [OF assms(1)] by auto
  then show "?b < 1000" using mk_okD(4) [OF assms(1)] by auto
qed

lemma rinode_eq:
  assumes "mk_ok m" "i < 200"
  shows "rinode (of_nat i) m = Inr (disk_ino m i)"
  using iblock_range(5) [OF assms] mk_okD(1) [OF assms(1)] by (simp add: rinode_def rsect_def disk_ino_def)

text \<open>A \<open>struct dinode\<close> has nothing but the fields on the disk.\<close>

definition plain :: "nat \<Rightarrow> inode \<Rightarrow> bool" where
  "plain i din \<longleftrightarrow> idev din = 0 \<and> inum din = of_nat i \<and> iref din = 0 \<and> \<not> ilocked din \<and> \<not> ivalid din \<and> length (addrs din) = 13"

lemma plain_disk: "plain i (disk_ino m i)"
  by (simp add: plain_def disk_ino_def dinode_get_def din0_def Let_def get32s_def fs_consts)

lemma plain_inum: "plain i din \<Longrightarrow> inum din = of_nat i"
  by (simp add: plain_def)

lemma winode_step:
  assumes m: "mk_ok m" and i: "i < 200" and p: "plain i din" and w: "winode din m = Inr m'"
  shows "mk_ok m'" "disk_ino m' i = din" "j < 200 \<Longrightarrow> j \<noteq> i \<Longrightarrow> disk_ino m' j = disk_ino m j"
    "freeinode m' = freeinode m" "freeblock m' = freeblock m" "n \<notin> inode_blocks (kview m f) \<Longrightarrow> img m' n = img m n"
proof -
  let ?b = "mk_iblock (of_nat i) m"
  note R = iblock_range [OF m i]
  have m': "m' = wsect ?b (dinode_put din (img m ?b)) m"
    using w R(5) mk_okD(1) [OF m] plain_inum [OF p] by (simp add: winode_def rsect_def Let_def)
  have l: "length (dinode_put din (img m ?b)) = BSIZE" using mk_okD(6) [OF m] by (simp add: length_dinode_put)
  show ok: "mk_ok m'" unfolding m' by (rule wsect_ok [OF m R(4) _ l]) (use R(3) in auto)
  show "freeinode m' = freeinode m" "freeblock m' = freeblock m" unfolding m' by (simp_all add: wsect_def)
  have im: "img m' n = (if n = ?b then dinode_put din (img m ?b) else img m n)" for n by (simp add: m' wsect_def)
  show "img m' n = img m n" if "n \<notin> inode_blocks (kview m f)" using that R(2) [of f] im by auto
  have sb: "mk_iblock k m' = mk_iblock k m" for k by (simp add: m' wsect_def mk_iblock_def)
  have a13: "length (addrs din) = 13" using p by (simp add: plain_def)
  show "disk_ino m' i = din"
    using dinode_get_put [OF a13 mk_okD(6) [OF m], of "din0 (of_nat i)"] p
    by (simp add: disk_ino_def im sb plain_def din0_def)
  show "disk_ino m' j = disk_ino m j" if j: "j < 200" "j \<noteq> i"
  proof (cases "mk_iblock (of_nat j) m = ?b")
    case False
    then show ?thesis by (simp add: disk_ino_def im sb)
  next
    case True
    have "(of_nat j :: u32) div 8 = of_nat i div 8" using True by (simp add: mk_iblock_eq [OF m])
    then have "unat ((of_nat j :: u32) div 8) = unat ((of_nat i :: u32) div 8)" by simp
    then have "j div 8 = i div 8" using small_ino(2) [OF i] small_ino(2) [OF j(1)] by (simp add: unat_div)
    then have "j mod 8 \<noteq> i mod 8" using j(2) by (metis div_mult_mod_eq)
    then have "dinode_get (dinode_put din (img m ?b)) (din0 (of_nat j)) = dinode_get (img m ?b) (din0 (of_nat j))"
      using small_ino(2) [OF i] small_ino(2) [OF j(1)] plain_inum [OF p] a13
      by (intro dinode_get_cong dinode_put_nth) (auto simp: ioff_def din0_def fs_consts)
    then show ?thesis using True by (simp add: disk_ino_def im sb)
  qed
qed


section \<open>What the image holds\<close>

abbreviation disk_view :: "mkfs \<Rightarrow> fs" where
  "disk_view m \<equiv> kview m (disk_ino m)"

definition files_apart :: "fs \<Rightarrow> bool" where
  "files_apart s \<longleftrightarrow> (\<forall>i<NINODES. \<forall>j<NINODES. i \<noteq> j \<longrightarrow>
     (\<forall>k<FSLOTS. \<forall>l<FSLOTS. faddr s i k \<noteq> 0 \<longrightarrow> faddr s i k \<noteq> faddr s j l))"

definition file_is :: "fs \<Rightarrow> nat \<Rightarrow> u16 \<Rightarrow> u8 list \<Rightarrow> bool" where
  "file_is s i ty bs \<longleftrightarrow> file_ok s i \<and> itype (the_ip s i) = ty \<and> unat (isize (the_ip s i)) = length bs
     \<and> length bs \<le> MAXFILE * BSIZE \<and> (\<forall>b < MAXFILE * BSIZE. fbyte s i b = (if b < length bs then bs ! b else 0))"

definition holds :: "mkfs \<Rightarrow> (nat \<Rightarrow> u16) \<Rightarrow> (nat \<Rightarrow> u8 list) \<Rightarrow> bool" where
  "holds m ty cont \<longleftrightarrow> mk_ok m \<and> (\<forall>i<NINODES. file_is (disk_view m) i (ty i) (cont i)) \<and> files_apart (disk_view m)"

lemma file_kept:
  assumes f: "file_ok s q" and ad: "addrs (the_ip t q) = addrs (the_ip s q)"
    and cv: "\<And>k. k < FSLOTS \<Longrightarrow> faddr s q k \<noteq> 0 \<Longrightarrow> cview (dev t) (faddr s q k) = cview (dev s) (faddr s q k)"
    and e: "sb t = sb s" "length (icache t) = length (icache s)" and us: "\<And>b. b < sb_size (sb s) \<Longrightarrow> marked s b \<Longrightarrow> marked t b"
  shows "file_ok t q" "k < FSLOTS \<Longrightarrow> faddr t q k = faddr s q k" "b < MAXFILE * BSIZE \<Longrightarrow> fbyte t q b = fbyte s q b"
  using file_ok_same [OF f ad cv e us] file_same [OF ad cv] by blast+

text \<open>Setting the inode of \<open>i\<close> on the disk.\<close>

lemma winode_view:
  assumes m: "mk_ok m" and i: "i < 200" and p: "plain i din" and w: "winode din m = Inr m'"
    and f: "\<forall>j<200. j \<noteq> i \<longrightarrow> f j = disk_ino m j" and ad: "addrs (f i) = addrs din"
    and fo: "q < 200" "file_ok (kview m f) q"
  shows "file_ok (disk_view m') q" "k < FSLOTS \<Longrightarrow> faddr (disk_view m') q k = faddr (kview m f) q k"
    "b < MAXFILE * BSIZE \<Longrightarrow> fbyte (disk_view m') q b = fbyte (kview m f) q b"
    "the_ip (disk_view m') q = (if q = i then din else f q)"
proof -
  note W = winode_step [OF m i p w]
  show ip: "the_ip (disk_view m') q = (if q = i then din else f q)" using W(2,3) f fo(1) by simp
  have a: "addrs (the_ip (disk_view m') q) = addrs (the_ip (kview m f) q)" using ip ad fo(1) by simp
  have cv: "cview (dev (disk_view m')) (faddr (kview m f) q k) = cview (dev (kview m f)) (faddr (kview m f) q k)"
    if "k < FSLOTS" "faddr (kview m f) q k \<noteq> 0" for k
    using W(6) [OF slot_block(5) [OF m fo(2) that(1) refl that(2)]] W(5) by simp
  have us: "marked (disk_view m') b" if "b < sb_size (sb (kview m f))" "marked (kview m f) b" for b
    using that W(5) kview_marked [OF m, of b f] kview_marked [OF W(1), of b] by (simp add: mk_consts)
  have e: "sb (disk_view m') = sb (kview m f)" "length (icache (disk_view m')) = length (icache (kview m f))" by simp_all
  note K = file_kept [OF fo(2) a cv e us]
  show "file_ok (disk_view m') q" "k < FSLOTS \<Longrightarrow> faddr (disk_view m') q k = faddr (kview m f) q k"
    "b < MAXFILE * BSIZE \<Longrightarrow> fbyte (disk_view m') q b = fbyte (kview m f) q b" using K by blast+
qed

text \<open>The other files while one is extended.\<close>

lemma extends_others:
  assumes m: "mk_ok m" and e: "extends m f i din m'" and i: "i < 200" "file_ok (kview m f) i" and q: "q < 200" "q \<noteq> i"
    and fo: "file_ok (kview m f) q"
    and ap': "\<forall>k<FSLOTS. \<forall>l<FSLOTS. faddr (kview m f) q k \<noteq> 0 \<longrightarrow> faddr (kview m f) q k \<noteq> faddr (kview m f) i l"
  defines "t \<equiv> kview m' (f(i := din))"
  shows "file_ok t q" "k < FSLOTS \<Longrightarrow> faddr t q k = faddr (kview m f) q k" "b < MAXFILE * BSIZE \<Longrightarrow> fbyte t q b = fbyte (kview m f) q b"
    "k < FSLOTS \<Longrightarrow> l < FSLOTS \<Longrightarrow> faddr t q k \<noteq> 0 \<Longrightarrow> faddr t q k \<noteq> faddr t i l"
    "mk_iblock (of_nat q) m' = mk_iblock (of_nat q) m" "disk_ino m' q = disk_ino m q"
proof -
  let ?s = "kview m f"
  note ap = ap' [rule_format]
  have g: "grows ?s i t" and m': "mk_ok m'" using e by (simp_all add: extends_def t_def)
  note G = growsD [OF g]
  have cv: "cview (dev t) (faddr ?s q k) = cview (dev ?s) (faddr ?s q k)" if k: "k < FSLOTS" "faddr ?s q k \<noteq> 0" for k
  proof (rule G(10))
    show "faddr ?s q k < sb_size (sb ?s)" "marked ?s (faddr ?s q k)" using file_okD(3,4) [OF fo k] by simp_all
    show "faddr ?s q k \<notin> bitmap_blocks ?s" using file_okD(5) [OF fo k] by (simp add: reserved_def)
    show "faddr ?s q k \<notin> faddr ?s i ` {..<FSLOTS}" using ap [OF k(1) _ k(2)] by auto
  qed
  have "addrs (the_ip t q) = addrs (the_ip ?s q)" using G(6) q(2) by simp
  note K = file_kept [OF fo this cv G(3,5,8)]
  show "file_ok t q" "b < MAXFILE * BSIZE \<Longrightarrow> fbyte t q b = fbyte ?s q b" using K by blast+
  show fa: "faddr t q k = faddr ?s q k" if "k < FSLOTS" for k using K(2) that by blast
  show "faddr t q k \<noteq> faddr t i l" if kl: "k < FSLOTS" "l < FSLOTS" "faddr t q k \<noteq> 0"
    using G(9) [OF kl(2)] ap [OF kl(1,2)] file_okD(4) [OF fo kl(1)] fa [OF kl(1)] kl(3) by metis
  show b: "mk_iblock (of_nat q) m' = mk_iblock (of_nat q) m" by (simp add: mk_iblock_eq(1) m m')
  let ?b = "mk_iblock (of_nat q) m"
  note R = iblock_range [OF m q(1)]
  have "cview (dev t) ?b = cview (dev ?s) ?b"
  proof (rule G(10))
    show "?b < sb_size (sb ?s)" "marked ?s ?b" using R(4,5) kview_marked [OF m R(5)] by (simp_all add: mk_consts)
    show "?b \<notin> bitmap_blocks ?s" using R(3) by (simp add: kview_blocks(2))
    show "?b \<notin> faddr ?s i ` {..<FSLOTS}"
    proof
      assume "?b \<in> faddr ?s i ` {..<FSLOTS}"
      then obtain k where k: "k < FSLOTS" "?b = faddr ?s i k" by auto
      moreover have "?b \<noteq> 0" using R(1) by (auto simp: word_le_nat_alt)
      ultimately show False using slot_block(5) [OF m i(2) k(1) k(2)] R(2) by blast
    qed
  qed
  then have "img m' ?b = img m ?b" using R(3) by (simp add: t_def)
  then show "disk_ino m' q = disk_ino m q" using b by (simp add: disk_ino_def)
qed


lemma holdsD:
  assumes "holds m ty cont" "i < 200"
  shows "mk_ok m" "file_ok (disk_view m) i" "itype (disk_ino m i) = ty i" "unat (isize (disk_ino m i)) = length (cont i)"
    "length (cont i) \<le> MAXFILE * BSIZE" "b < MAXFILE * BSIZE \<Longrightarrow> fbyte (disk_view m) i b = (if b < length (cont i) then cont i ! b else 0)"
    "j < 200 \<Longrightarrow> i \<noteq> j \<Longrightarrow> k < FSLOTS \<Longrightarrow> l < FSLOTS \<Longrightarrow> faddr (disk_view m) i k \<noteq> 0 \<Longrightarrow>
       faddr (disk_view m) i k \<noteq> faddr (disk_view m) j l"
  using assms unfolding holds_def file_is_def files_apart_def mk_consts(6) by auto

text \<open>
  How \<open>holds\<close> survives an extension of file \<open>i\<close> and the write of its inode: \<open>m1\<close> is the state between the two.
\<close>

lemma holds_step:
  assumes h: "holds m ty cont" and i: "i < 200" and e: "extends m (disk_ino m) i d m1" and p: "plain i din"
    and ad: "addrs d = addrs din" and w: "winode din m1 = Inr m'"
    and by1: "\<And>b. b < MAXFILE * BSIZE \<Longrightarrow> fbyte (kview m1 ((disk_ino m)(i := d))) i b = (if b < length c then c ! b else 0)"
    and c: "unat (isize din) = length c" "length c \<le> MAXFILE * BSIZE"
  shows "holds m' (ty(i := itype din)) (cont(i := c))" "j < 200 \<Longrightarrow> j \<noteq> i \<Longrightarrow> disk_ino m' j = disk_ino m j"
proof -
  let ?f = "(disk_ino m)(i := d)"
  let ?s = "disk_view m" and ?t = "kview m1 ?f"
  have m1: "mk_ok m1" and g: "grows ?s i ?t" using e by (simp_all add: extends_def)
  have ap: "\<forall>k<FSLOTS. \<forall>l<FSLOTS. faddr ?s q k \<noteq> 0 \<longrightarrow> faddr ?s q k \<noteq> faddr ?s i l" if "q < 200" "q \<noteq> i" for q
    using holdsD(7) [OF h that(1) i that(2)] by blast
  note O = extends_others [OF holdsD(1) [OF h i] e i holdsD(2) [OF h i] _ _ holdsD(2) [OF h] ap]
  have fo: "file_ok ?t q" if "q < 200" for q using O(1) [of q] that growsD(2) [OF g] by (cases "q = i") auto
  have f: "\<forall>j<200. j \<noteq> i \<longrightarrow> ?f j = disk_ino m1 j" using O(6) by simp
  have adi: "addrs (?f i) = addrs din" using ad by simp
  note V = winode_view [OF m1 i p w f adi _ fo]
  note W = winode_step [OF m1 i p w]
  have files: "file_is (disk_view m') q ((ty(i := itype din)) q) ((cont(i := c)) q)" if q: "q < 200" for q
  proof (cases "q = i")
    case True
    then show ?thesis using V(1,3,4) [OF i i] by1 c i by (simp add: file_is_def)
  next
    case False
    note H = holdsD [OF h q]
    have "fbyte (disk_view m') q b = fbyte ?s q b" if b: "b < MAXFILE * BSIZE" for b
      using V(3) [OF q q b] O(3) [OF q False q q False b] by simp
    then show ?thesis using False V(1,4) [OF q q] H by (simp add: file_is_def)
  qed
  have fa: "faddr (disk_view m') q k = faddr ?t q k" if "q < 200" "k < FSLOTS" for q k
    using V(2) [OF that(1,1,2)] .
  have apart: "faddr ?t q k \<noteq> faddr ?t r l"
    if a: "q < 200" "r < 200" "q \<noteq> r" "k < FSLOTS" "l < FSLOTS" "faddr ?t q k \<noteq> 0" for q r k l
  proof (cases "r = i")
    case True
    then have q: "q \<noteq> i" using a(3) by simp
    then show ?thesis using O(4) [OF a(1) q a(1,1) q a(4,5,6)] True by simp
  next
    case r: False
    show ?thesis
    proof (cases "q = i")
      case True
      then show ?thesis using O(4) [OF a(2) r a(2,2) r a(5,4)] a(6) by metis
    next
      case False
      then show ?thesis using O(2) [OF a(1) False a(1,1) False a(4)] O(2) [OF a(2) r a(2,2) r a(5)] holdsD(7) [OF h a(1,2,3,4,5)] a(6) by simp
    qed
  qed
  have "files_apart (disk_view m')"
    unfolding files_apart_def mk_consts(6) using apart fa by simp
  then show "holds m' (ty(i := itype din)) (cont(i := c))" using files W(1) unfolding holds_def mk_consts(6) by blast
  show "disk_ino m' j = disk_ino m j" if "j < 200" "j \<noteq> i" using W(3) [OF that] f that by simp
qed

lemma plain_extends:
  assumes "mk_ok m" "i < 200" "extends m (disk_ino m) i d m1"
  shows "d = (disk_ino m i)\<lparr>addrs := addrs d\<rparr>" "length (addrs d) = 13" "plain i d"
proof -
  have g: "grows (disk_view m) i (kview m1 ((disk_ino m)(i := d)))" using assms(3) by (simp add: extends_def)
  show d: "d = (disk_ino m i)\<lparr>addrs := addrs d\<rparr>" using growsD(7) [OF g] assms(2) by simp
  show l: "length (addrs d) = 13" using file_okD(2) [OF growsD(2) [OF g]] assms(2) by simp
  show "plain i d" using plain_disk [of i m] l by (subst d) (simp add: plain_def)
qed

lemma iappend_holds:
  assumes h: "holds m ty cont" and i: "i < 200" and a: "iappend (of_nat i) p m = Inr m'"
  shows "holds m' ty (cont(i := cont i @ p))" "freeinode m' = freeinode m" "j < 200 \<Longrightarrow> j \<noteq> i \<Longrightarrow> disk_ino m' j = disk_ino m j"
proof -
  note H = holdsD [OF h i]
  let ?o = "length (cont i)"
  obtain d off m1 where l: "iappend_loop (disk_ino m i) ?o p m = Inr (d, off, m1)"
    and w: "winode (d\<lparr>isize := of_nat off\<rparr>) m1 = Inr m'"
    using a rinode_eq [OF H(1) i] H(4) by (auto simp: iappend_def rbind_eq_Inr)
  let ?t = "kview m1 ((disk_ino m)(i := d))"
  have L: "extends m (disk_ino m) i d m1" "off = ?o + length p" "p = [] \<or> off \<le> MAXFILE * BSIZE"
    "\<And>b. b < MAXFILE * BSIZE \<Longrightarrow> fbyte ?t i b
          = (if ?o \<le> b \<and> b < ?o + length p then p ! (b - ?o) else fbyte (disk_view m) i b)"
    using iappend_loop_spec [OF H(1) i H(2) refl l] by blast+
  note P = plain_extends [OF H(1) i L(1)]
  have off: "off \<le> MAXFILE * BSIZE" using L(2,3) H(5) by auto
  then have "off < 2 ^ LENGTH(32)" by (simp add: fs_consts)
  then have sz: "unat (of_nat off :: u32) = length (cont i @ p)" unfolding L(2) by (simp only: unat_of_nat_small length_append)
  have pl: "plain i (d\<lparr>isize := of_nat off\<rparr>)" using P(3) by (simp add: plain_def)
  have byt: "fbyte ?t i b = (if b < length (cont i @ p) then (cont i @ p) ! b else 0)" if "b < MAXFILE * BSIZE" for b
    using L(4) [OF that] H(6) [OF that] by (auto simp: nth_append)
  have le: "unat (isize (d\<lparr>isize := of_nat off\<rparr>)) = length (cont i @ p)" "length (cont i @ p) \<le> MAXFILE * BSIZE"
    using sz off L(2) by simp_all
  have ad: "addrs d = addrs (d\<lparr>isize := of_nat off\<rparr>)" by simp
  note S = holds_step [OF h i L(1) pl ad w byt le]
  show "disk_ino m' j = disk_ino m j" if "j < 200" "j \<noteq> i" using S(2) that by blast
  note S(1)
  moreover have "itype d = ty i" using H(3) by (subst P(1)) simp
  ultimately show "holds m' ty (cont(i := cont i @ p))" by (simp add: fun_upd_idem)
  show "freeinode m' = freeinode m"
    using winode_step(4) [OF _ i pl w] L(1) by (simp add: extends_def)
qed


text \<open>Inodes that have not been allocated are zero.\<close>

definition unused_zero :: "mkfs \<Rightarrow> bool" where
  "unused_zero m \<longleftrightarrow> (\<forall>j<NINODES. unat (freeinode m) \<le> j \<longrightarrow> disk_ino m j = din0 (of_nat j))"

lemma ialloc_holds:
  assumes h: "holds m ty cont" and z: "unused_zero m" and i: "unat (freeinode m) = i" "i < 200"
    and a: "mk_ialloc t m = Inr (n, m')"
  shows "n = of_nat i" "holds m' (ty(i := t)) cont" "unat (freeinode m') = Suc i" "unused_zero m'" "cont i = []"
proof -
  note H = holdsD [OF h i(2)]
  let ?m = "m\<lparr>freeinode := freeinode m + 1\<rparr>" and ?d = "(din0 (of_nat i))\<lparr>itype := t, inlink := 1, isize := 0\<rparr>"
  have fi: "freeinode m = of_nat i" by (simp add: i(1) [symmetric])
  have w: "winode ?d ?m = Inr m'" and n: "n = of_nat i"
    using a fi by (auto simp: mk_ialloc_def Let_def rbind_eq_Inr)
  show "n = of_nat i" by (rule n)
  have v: "disk_ino ?m = disk_ino m" "kview ?m f = kview m f" for f by (auto simp: disk_ino_def kview_def mk_iblock_def)
  have ok: "mk_ok ?m" using H(1) by (simp add: mk_ok_def)
  have h': "holds ?m ty cont" using h ok by (simp add: holds_def v)
  have d0: "disk_ino m i = din0 (of_nat i)" using z i by (simp add: unused_zero_def mk_consts)
  have c: "cont i = []" using H(4) d0 by (simp add: din0_def)
  show "cont i = []" by (rule c)
  have e: "extends ?m (disk_ino ?m) i (disk_ino m i) ?m" using extends_refl [OF ok, of "disk_ino m" i] H(2) by (simp add: v)
  have pl: "plain i ?d" by (simp add: plain_def din0_def fs_consts)
  have ad: "addrs (disk_ino m i) = addrs ?d" using d0 by (simp add: din0_def)
  have byt: "fbyte (kview ?m ((disk_ino ?m)(i := disk_ino m i))) i b = (if b < length [] then [] ! b else 0)" if "b < MAXFILE * BSIZE" for b
    using H(6) [OF that] c by (simp add: v)
  have le: "unat (isize ?d) = length ([] :: u8 list)" "length ([] :: u8 list) \<le> MAXFILE * BSIZE" by simp_all
  note S = holds_step [OF h' i(2) e pl ad w byt le]
  show "holds m' (ty(i := t)) cont" using S(1) c by (simp add: fun_upd_idem din0_def)
  have "unat (freeinode m + 1) = Suc i" using word_Suc [of "freeinode m" 200] i by (simp add: word_less_nat_alt)
  then show f: "unat (freeinode m') = Suc i" using winode_step(4) [OF ok i(2) pl w] by simp
  show "unused_zero m'"
    unfolding unused_zero_def mk_consts f
    using S(2) z i by (simp add: v unused_zero_def mk_consts)
qed

lemma unused_zero_append:
  assumes "holds m ty cont" "i < unat (freeinode m)" "i < 200" "iappend (of_nat i) p m = Inr m'" "unused_zero m"
  shows "unused_zero m'"
  using assms(2,3,5) iappend_holds(2,3) [OF assms(1,3,4)] by (auto simp: unused_zero_def mk_consts)

definition file_bytes :: "u8 list list \<Rightarrow> u8 list" where
  "file_bytes reads = concat (takeWhile (\<lambda>b. b \<noteq> []) reads)"

lemma append_file_holds:
  "holds m ty cont \<Longrightarrow> unused_zero m \<Longrightarrow> i < unat (freeinode m) \<Longrightarrow> i < 200 \<Longrightarrow> append_file (of_nat i) reads m = Inr m' \<Longrightarrow>
   holds m' ty (cont(i := cont i @ file_bytes reads)) \<and> unused_zero m' \<and> freeinode m' = freeinode m"
proof (induction reads arbitrary: m cont)
  case Nil
  then show ?case by (simp add: file_bytes_def fun_upd_idem)
next
  case (Cons b rest)
  show ?case
  proof (cases "b = []")
    case True
    then show ?thesis using Cons.prems by (simp add: file_bytes_def fun_upd_idem)
  next
    case False
    then obtain m1 where a: "iappend (of_nat i) b m = Inr m1" "append_file (of_nat i) rest m1 = Inr m'"
      using Cons.prems(5) by (auto simp: rbind_eq_Inr)
    note A = iappend_holds(1,2) [OF Cons.prems(1,4) a(1)]
    have "unused_zero m1" by (rule unused_zero_append [OF Cons.prems(1,3,4) a(1) Cons.prems(2)])
    moreover have "(cont(i := cont i @ b))(i := (cont(i := cont i @ b)) i @ file_bytes rest) = cont(i := cont i @ file_bytes (b # rest))"
      using False by (simp add: file_bytes_def)
    ultimately show ?thesis using Cons.IH [OF A(1) _ _ Cons.prems(4) a(2)] A(2) Cons.prems(3) by metis
  qed
qed


section \<open>The run of the program\<close>

definition root_entry :: "nat \<Rightarrow> u8 list \<Rightarrow> dirent" where
  "root_entry i name = \<lparr>d_inum = of_nat i, d_name = strncpy_b DIRSIZ name\<rparr>"

definition entries :: "nat \<Rightarrow> (u8 list \<times> u8 list list) list \<Rightarrow> dirent list" where
  "entries i files = map (\<lambda>(k, arg, reads). root_entry k (file_name arg)) (zip [i..<i + length files] files)"

lemma entries_Cons: "entries i ((arg, reads) # files) = root_entry i (file_name arg) # entries (Suc i) files"
  by (simp add: entries_def upt_conv_Cons del: upt_Suc)

lemma entries_nth: "n < length files \<Longrightarrow> entries i files ! n = root_entry (i + n) (file_name (fst (files ! n)))"
  by (simp add: entries_def split_beta)

lemma length_entries [simp]: "length (entries i files) = length files"
  by (simp add: entries_def)

definition added :: "nat \<Rightarrow> (u8 list \<times> u8 list list) list \<Rightarrow> (nat \<Rightarrow> u8 list) \<Rightarrow> nat \<Rightarrow> u8 list" where
  "added i files cont j = (if j = 1 then cont 1 @ concat (map dirent_bytes (entries i files))
     else if i \<le> j \<and> j < i + length files then file_bytes (snd (files ! (j - i))) else cont j)"

definition added_ty :: "nat \<Rightarrow> nat \<Rightarrow> (nat \<Rightarrow> u16) \<Rightarrow> nat \<Rightarrow> u16" where
  "added_ty i n ty j = (if i \<le> j \<and> j < i + n then T_FILE else ty j)"

lemma ucast_ino: "i < 200 \<Longrightarrow> (ucast (of_nat i :: u32) :: u16) = of_nat i"
  by (simp add: word_unat_eq_iff unsigned_ucast_eq unsigned_of_nat take_bit_take_bit)

lemma add_files_holds:
  "holds m ty cont \<Longrightarrow> unused_zero m \<Longrightarrow> unat (freeinode m) = i \<Longrightarrow> 2 \<le> i \<Longrightarrow> i + length files \<le> 200 \<Longrightarrow>
   add_files files m = Inr m' \<Longrightarrow> holds m' (added_ty i (length files) ty) (added i files cont)"
proof (induction files arbitrary: m ty cont i)
  case Nil
  have "added i [] cont = cont" "added_ty i 0 ty = ty" by (auto simp: added_def added_ty_def entries_def fun_eq_iff)
  then show ?case using Nil by simp
next
  case (Cons x files)
  obtain arg reads where x: "x = (arg, reads)" by fastforce
  have i: "i < 200" using Cons.prems(5) by simp
  obtain n m1 m2 m3 where s: "mk_ialloc T_FILE m = Inr (n, m1)"
      "iappend ROOTINO (dirent_bytes \<lparr>d_inum = ucast n, d_name = strncpy_b DIRSIZ (file_name arg)\<rparr>) m1 = Inr m2"
      "append_file n reads m2 = Inr m3" "add_files files m3 = Inr m'"
    using Cons.prems(6) by (auto simp: x rbind_eq_Inr split: if_splits)
  note A = ialloc_holds [OF Cons.prems(1-3) i s(1)]
  have root: "ROOTINO = of_nat 1" by (simp add: ROOTINO_def)
  have e: "\<lparr>d_inum = ucast n, d_name = strncpy_b DIRSIZ (file_name arg)\<rparr> = root_entry i (file_name arg)"
    by (simp add: root_entry_def A(1) ucast_ino [OF i])
  have s2: "iappend (of_nat 1) (dirent_bytes (root_entry i (file_name arg))) m1 = Inr m2" using s(2) unfolding e root .
  let ?c = "cont(1 := cont 1 @ dirent_bytes (root_entry i (file_name arg)))"
  have one: "(1 :: nat) < 200" by simp
  note B = iappend_holds(1,2) [OF A(2) one s2]
  have lt: "1 < unat (freeinode m1)" "i < unat (freeinode m2)" "unat (freeinode m2) = Suc i" using A(3) B(2) Cons.prems(4) by simp_all
  have z: "unused_zero m2" by (rule unused_zero_append [OF A(2) lt(1) one s2 A(4)])
  have C: "holds m3 (ty(i := T_FILE)) (?c(i := ?c i @ file_bytes reads))" "unused_zero m3" "freeinode m3 = freeinode m2"
    using append_file_holds [OF B(1) z lt(2) i s(3) [unfolded A(1)]] by simp_all
  have D: "holds m' (added_ty (Suc i) (length files) (ty(i := T_FILE))) (added (Suc i) files (?c(i := ?c i @ file_bytes reads)))"
    by (rule Cons.IH [OF C(1,2) _ _ _ s(4)]) (use C(3) lt(3) Cons.prems(4,5) in simp_all)
  have "added (Suc i) files (?c(i := ?c i @ file_bytes reads)) = added i (x # files) cont"
    using Cons.prems(4) A(5) by (auto simp: added_def x entries_Cons fun_eq_iff nth_Cons' Suc_diff_le)
  moreover have "added_ty (Suc i) (length files) (ty(i := T_FILE)) = added_ty i (length (x # files)) ty"
    by (auto simp: added_ty_def fun_eq_iff)
  ultimately show ?case using D by simp
qed

lemma zero_fill:
  "n \<le> 1000 \<Longrightarrow> nsect m = 0 \<Longrightarrow> img m = (\<lambda>_. zeroes) \<Longrightarrow>
   fold (\<lambda>i. wsect (of_nat i) zeroes) [0..<n] m = m\<lparr>nsect := of_nat n\<rparr>"
proof (induction n)
  case (Suc n)
  have "unat (of_nat n :: u32) = n" using Suc.prems(1) by (intro unat_of_nat_small) simp
  then have "(of_nat n :: u32) < 1000" using Suc.prems(1) by (simp add: word_less_nat_alt)
  then have "max (of_nat n :: u32) (of_nat n + 1) = of_nat n + 1" using word_Suc_le [of "of_nat n" 1000] by (simp only: max_def) auto
  moreover have "(of_nat (Suc n) :: u32) = of_nat n + 1" by (simp add: add.commute)
  ultimately show ?case using Suc by (simp add: wsect_def fun_upd_idem del: of_nat_Suc)
qed simp

lemma mk_start_eq:
  "mk_start = \<lparr>img = (\<lambda>n. if n = 1 then put32s 0 (sb_words mk_sb) zeroes else zeroes), nsect = 1000, msb = mk_sb,
     freeinode = 1, freeblock = 59\<rparr>"
  unfolding mk_start_def Let_def mk_consts(4,5)
  by (subst zero_fill) (auto simp: wsect_def max_def fun_eq_iff)

lemma mk_start_ok: "mk_ok mk_start"
proof -
  have "sb_of (put32s 0 (sb_words mk_sb) zeroes) = mk_sb"
    by (simp add: sb_of_def sb_words_def mk_consts(7) blk_simps fs_consts zeroes_def)
  then show ?thesis by (auto simp: mk_ok_def mk_start_eq word_le_nat_alt)
qed

lemma disk_ino_start: "i < 200 \<Longrightarrow> disk_ino mk_start i = din0 (of_nat i)"
proof -
  assume i: "i < 200"
  have "mk_iblock (of_nat i) mk_start \<noteq> 1" using iblock_range(3) [OF mk_start_ok i] by simp
  then have "disk_ino mk_start i = dinode_get zeroes (din0 (of_nat i))" by (simp add: disk_ino_def mk_start_eq)
  moreover have "ioff (of_nat i) + 64 \<le> 512"
  proof -
    have "unat (of_nat i :: u32) mod 8 \<le> 7" by (simp add: less_Suc_eq_le [symmetric])
    then show ?thesis by (simp add: ioff_def fs_consts)
  qed
  moreover have "get32s (ioff (of_nat i) + 12) 13 zeroes = replicate 13 0"
    using calculation(2) by (intro nth_equalityI) (simp_all add: get32s_def get32_def zeroes_def fs_consts)
  ultimately show ?thesis
    by (simp add: dinode_get_def din0_def Let_def get16_def get32_def zeroes_def fs_consts)
qed

lemma start_holds: "holds mk_start (\<lambda>_. 0) (\<lambda>_. [])" "unused_zero mk_start"
proof -
  have fa: "faddr (disk_view mk_start) i k = 0" if "i < 200" "k < FSLOTS" for i k
    using that by (simp add: faddr_def disk_ino_start din0_def fs_consts Let_def)
  have fo: "file_is (disk_view mk_start) i 0 []" if "i < 200" for i
    using that fa by (auto simp: file_is_def file_ok_def fbyte_def fslot_bound block_lt disk_ino_start din0_def fs_consts Let_def)
  show "holds mk_start (\<lambda>_. 0) (\<lambda>_. [])"
    using mk_start_ok fo fa by (simp add: holds_def mk_consts(6) files_apart_def)
  show "unused_zero mk_start" by (simp add: unused_zero_def mk_consts disk_ino_start)
qed


lemma round_up: "l \<le> (l div 512 + 1) * (512 :: nat)"
  using dividend_less_div_times [of 512 l] by simp

text \<open>The size of the root grows to the end of its last block or, when that is full, by a block.\<close>

lemma fix_root_holds:
  assumes h: "holds m ty cont" and f: "fix_root m = Inr m'" and l: "length (cont 1) \<le> 139 * 512"
  defines "n \<equiv> (length (cont 1) div 512 + 1) * 512"
  shows "holds m' ty (cont(1 := cont 1 @ replicate (n - length (cont 1)) 0))" "freeblock m' = freeblock m"
proof -
  have one: "(1 :: nat) < 200" by simp
  note H = holdsD [OF h one]
  let ?d = "disk_ino m 1" and ?n = "(isize (disk_ino m 1) div 512 + 1) * (512 :: u32)"
  have w: "winode (?d\<lparr>isize := ?n\<rparr>) m = Inr m'"
    using f rinode_eq [OF H(1) one] by (simp add: fix_root_def ROOTINO_def Let_def fs_consts)
  have q: "length (cont 1) div 512 \<le> 139" using l by simp
  have ud: "unat (isize ?d div 512) = length (cont 1) div 512" using H(4) by (simp add: unat_div)
  define u where "u = isize ?d div 512 + 1"
  have "unat u = length (cont 1) div 512 + 1" using q ud by (simp add: u_def unat_word_ariths)
  moreover have "unat (u * 512) = unat u * 512 mod 2 ^ 32" by (simp add: unat_word_ariths)
  ultimately have un: "unat ?n = n" using q by (simp add: n_def u_def)
  have nl: "length (cont 1) \<le> n" unfolding n_def by (rule round_up)
  have n: "n \<le> MAXFILE * BSIZE" using q by (simp add: n_def fs_consts)
  have e: "extends m (disk_ino m) 1 ?d m" by (rule extends_refl [OF H(1,2)])
  have pl: "plain 1 (?d\<lparr>isize := ?n\<rparr>)" using plain_disk [of 1 m] by (simp add: plain_def)
  have ad: "addrs ?d = addrs (?d\<lparr>isize := ?n\<rparr>)" by simp
  let ?c = "cont 1 @ replicate (n - length (cont 1)) 0"
  have byt: "fbyte (kview m ((disk_ino m)(1 := ?d))) 1 b = (if b < length ?c then ?c ! b else 0)" if "b < MAXFILE * BSIZE" for b
    using H(6) [OF that] by (auto simp: nth_append)
  have le: "unat (isize (?d\<lparr>isize := ?n\<rparr>)) = length ?c" "length ?c \<le> MAXFILE * BSIZE" using un nl n by simp_all
  note S = holds_step [OF h one e pl ad w byt le]
  show "holds m' ty (cont(1 := ?c))" using S(1) H(3) by (simp add: fun_upd_idem)
  show "freeblock m' = freeblock m" using winode_step(5) [OF H(1) one pl w] by simp
qed

text \<open>The contents of the disk when \<open>mkfs\<close> has ended.\<close>

definition root_size :: "nat \<Rightarrow> nat" where
  "root_size n = ((16 * (n + 2)) div 512 + 1) * 512"

definition final_cont :: "(u8 list \<times> u8 list list) list \<Rightarrow> nat \<Rightarrow> u8 list" where
  "final_cont files j = (if j = 1 then
      (let c = concat (map dirent_bytes (root_entry 1 [46] # root_entry 1 [46, 46] # entries 2 files)) in
       c @ replicate (root_size (length files) - length c) 0)
     else if 2 \<le> j \<and> j < 2 + length files then file_bytes (snd (files ! (j - 2))) else [])"

definition final_ty :: "nat \<Rightarrow> nat \<Rightarrow> u16" where
  "final_ty n j = (if j = 1 then T_DIR else if 2 \<le> j \<and> j < 2 + n then T_FILE else 0)"

lemma length_root_entry [simp]: "length (dirent_bytes (root_entry i n)) = 16"
  by (simp add: dirent_bytes_def root_entry_def DIRSIZ_def)

lemma length_root: "length (concat (map dirent_bytes (entries i files))) = 16 * length files"
proof -
  have "length (dirent_bytes e) = 16" if "e \<in> set (entries i files)" for e
    using that by (auto simp: entries_def)
  then show ?thesis by (simp add: length_concat o_def sum_list_triv cong: map_cong)
qed

lemma mkfs_holds:
  assumes r: "mkfs_main files = Inr m" and n: "length files \<le> 198"
  shows "\<exists>m1. holds m1 (final_ty (length files)) (final_cont files) \<and> img m = (img m1)(58 := bitmap_buf (unat (freeblock m1)))
    \<and> nsect m = 1000"
proof -
  obtain m1 i m2 m3 m4 m5 where s: "mk_ialloc T_DIR mk_start = Inr (i, m1)"
      "iappend i (dirent_bytes \<lparr>d_inum = ucast i, d_name = strncpy_b DIRSIZ [46]\<rparr>) m1 = Inr m2"
      "iappend i (dirent_bytes \<lparr>d_inum = ucast i, d_name = strncpy_b DIRSIZ [46, 46]\<rparr>) m2 = Inr m3"
      "add_files files m3 = Inr m4" "fix_root m4 = Inr m5" "mk_balloc (unat (freeblock m5)) m5 = Inr m"
    using r by (auto simp: mkfs_main_def rbind_eq_Inr split: if_splits)
  have one: "(1 :: nat) < 200" "unat (freeinode mk_start) = 1" by (simp_all add: mk_start_eq)
  note A = ialloc_holds [OF start_holds one(2,1) s(1)]
  have e: "\<lparr>d_inum = ucast i, d_name = strncpy_b DIRSIZ nm\<rparr> = root_entry 1 nm" for nm
    by (simp add: root_entry_def A(1))
  note B = iappend_holds(1,2) [OF A(2) one(1) s(2) [unfolded e A(1)]]
  have lt: "1 < unat (freeinode m1)" "1 < unat (freeinode m2)" using A(3) B(2) by simp_all
  have z2: "unused_zero m2" by (rule unused_zero_append [OF A(2) lt(1) one(1) s(2) [unfolded e A(1)] A(4)])
  note C = iappend_holds(1,2) [OF B(1) one(1) s(3) [unfolded e A(1)]]
  have z3: "unused_zero m3" by (rule unused_zero_append [OF B(1) lt(2) one(1) s(3) [unfolded e A(1)] z2])
  have fi: "unat (freeinode m3) = 2" using A(3) B(2) C(2) by simp
  let ?c0 = "(\<lambda>_. []) (1 := dirent_bytes (root_entry 1 [46]) @ dirent_bytes (root_entry 1 [46, 46])) :: nat \<Rightarrow> u8 list"
  have C': "holds m3 ((\<lambda>_. 0)(1 := T_DIR)) ?c0" using C(1) by (simp add: root_entry_def)
  have D: "holds m4 (added_ty 2 (length files) ((\<lambda>_. 0)(1 := T_DIR))) (added 2 files ?c0)"
    by (rule add_files_holds [OF C' z3 fi _ _ s(4)]) (use n in simp_all)
  let ?c = "added 2 files ?c0"
  have l1: "length (?c 1) = 16 * (length files + 2)" by (simp add: added_def length_root)
  then have "length (?c 1) \<le> 139 * 512" using n by simp
  note E = fix_root_holds [OF D s(5) this]
  have "?c(1 := ?c 1 @ replicate ((length (?c 1) div 512 + 1) * 512 - length (?c 1)) 0) = final_cont files"
    using l1 by (auto simp: fun_eq_iff final_cont_def added_def root_size_def Let_def length_root)
  moreover have "added_ty 2 (length files) ((\<lambda>_. 0)(1 := T_DIR)) = final_ty (length files)"
    by (auto simp: fun_eq_iff added_ty_def final_ty_def)
  ultimately have F: "holds m5 (final_ty (length files)) (final_cont files)" using E(1) by (simp only:)
  have ok: "mk_ok m5" using F by (simp add: holds_def)
  have "img m = (img m5)(58 := bitmap_buf (unat (freeblock m5))) \<and> nsect m = 1000"
    using s(6) mk_okD(1,2) [OF ok] by (auto simp: mk_balloc_def wsect_def mk_consts max_def split: if_splits)
  then show ?thesis using F by blast
qed


section \<open>The kernel on the new disk\<close>

text \<open>What a file is depends on its addresses and the blocks only.\<close>

lemma file_moves:
  assumes ad: "addrs (the_ip t q) = addrs (the_ip s i)" and e: "cview (dev t) = cview (dev s)" "sb t = sb s"
    and q: "q < length (icache t)" and f: "file_is s i ty bs"
    and p: "itype (the_ip t q) = itype (the_ip s i)" "isize (the_ip t q) = isize (the_ip s i)"
  shows "file_is t q ty bs"
proof -
  note B = blocks_cong [OF e(2)]
  have m: "marked t n = marked s n" for n by (simp add: marked_def B e)
  have fa: "faddr t q k = faddr s i k" for k by (simp add: faddr_def e ad Let_def)
  have by1: "fbyte t q b = fbyte s i b" for b by (simp add: fbyte_def fa e Let_def)
  have "file_ok s i" using f by (simp add: file_is_def)
  then have "file_ok t q" using q by (simp add: file_ok_def fa ad m e(2) reserved_def B)
  then show ?thesis using f p by (simp add: file_is_def by1)
qed

lemma fcontent_is: "file_is s i ty bs \<Longrightarrow> fcontent s i = bs"
  by (rule nth_equalityI) (auto simp: file_is_def fcontent_def)

lemma drop_concat_entries:
  "k < length ds \<Longrightarrow> \<forall>d\<in>set ds. length (dirent_bytes d) = 16 \<Longrightarrow>
   take 16 (drop (16 * k) (concat (map dirent_bytes ds) @ zs)) = dirent_bytes (ds ! k)"
proof (induction ds arbitrary: k)
  case (Cons d ds)
  then show ?case by (cases k) simp_all
qed simp

text \<open>The map from names to inode numbers that the root stands for; the first entry of a name counts.\<close>

definition root_map :: "(u8 list \<times> u8 list list) list \<Rightarrow> u8 list \<rightharpoonup> u16" where
  "root_map files = map_of (([46], 1) # ([46, 46], 1)
     # zip (map (\<lambda>f. cname DIRSIZ (file_name (fst f))) files) (map of_nat [2..<2 + length files]))"

lemma find_map_of:
  assumes "\<And>k. k < length ds \<Longrightarrow> h k \<longleftrightarrow> fst (ds ! k) = c" and "\<And>k. length ds \<le> k \<Longrightarrow> k < n \<Longrightarrow> \<not> h k" and "length ds \<le> n"
  shows "map_option (\<lambda>k. snd (if k < length ds then ds ! k else d)) (find h [0..<n]) = map_of ds c"
proof -
  have "[0..<n] = [0..<length ds] @ [length ds..<n]" using upt_add_eq_append [of 0 "length ds" "n - length ds"] assms(3) by simp
  moreover have "find h [length ds..<n] = None" using assms(2) by (simp add: find_None_iff)
  moreover have "find h (xs @ ys) = (case find h xs of None \<Rightarrow> find h ys | r \<Rightarrow> r)" for xs ys by (induction xs) auto
  ultimately have f: "find h [0..<n] = find h [0..<length ds]" by (auto split: option.splits)
  have "map_option (\<lambda>k. snd (if k < length ds then ds ! k else d)) (find h [j..<length ds]) = map_of (drop j ds) c"
    if "j \<le> length ds" for j
    using that
  proof (induction j rule: inc_induct)
    case base
    then show ?case by simp
  next
    case (step j)
    obtain a b where ab: "ds ! j = (a, b)" by fastforce
    have "drop j ds = ds ! j # drop (Suc j) ds" "[j..<length ds] = j # [Suc j..<length ds]"
      using step.hyps by (simp_all add: Cons_nth_drop_Suc upt_conv_Cons)
    then show ?case using step.IH assms(1) [OF step.hyps(2)] step.hyps(2) ab by auto
  qed
  from this [of 0] show ?thesis by (simp add: f)
qed


definition root_list :: "(u8 list \<times> u8 list list) list \<Rightarrow> dirent list" where
  "root_list files = root_entry 1 [46] # root_entry 1 [46, 46] # entries 2 files"

lemma root_map_list: "length files \<le> 198 \<Longrightarrow>
  root_map files = map_of (map (\<lambda>d. (cname DIRSIZ (d_name d), d_inum d)) (root_list files))"
proof -
  have "map (\<lambda>d. (cname DIRSIZ (d_name d), d_inum d)) (entries i files)
      = zip (map (\<lambda>f. cname DIRSIZ (file_name (fst f))) files) (map of_nat [i..<i + length files])" for i
    by (rule nth_equalityI) (simp_all add: entries_def root_entry_def cname_strncpy split_beta)
  moreover have "cname DIRSIZ [46] = [46]" "cname DIRSIZ [46, 46] = [46, 46]" by (simp_all add: cname_def DIRSIZ_def)
  ultimately show ?thesis by (simp add: root_map_def root_list_def root_entry_def cname_strncpy)
qed

lemma root_list_inum: "length files \<le> 198 \<Longrightarrow> d \<in> set (root_list files) \<Longrightarrow> d_inum d \<noteq> 0 \<and> length (dirent_bytes d) = 16"
proof -
  assume n: "length files \<le> 198" and d: "d \<in> set (root_list files)"
  have "(of_nat k :: u16) \<noteq> 0" if "k < 200" "k \<noteq> 0" for k
    using that by (simp add: word_unat_eq_iff unsigned_of_nat take_bit_nat_eq_self)
  moreover obtain k nm where "d = root_entry k nm" "k < 200" "k \<noteq> 0"
    using d n by (auto simp: root_list_def in_set_conv_nth entries_nth)
  ultimately show ?thesis by (simp add: root_entry_def dirent_bytes_def DIRSIZ_def)
qed

lemma dmap_root:
  assumes c: "fcontent s ip = concat (map dirent_bytes (root_list files)) @ replicate z 0"
    and n: "length files \<le> 198" and d: "16 dvd length (fcontent s ip)"
  shows "dmap s ip = root_map files"
proof
  fix c
  let ?ds = "root_list files" and ?es = "map (\<lambda>d. (cname DIRSIZ (d_name d), d_inum d)) (root_list files)"
  have l16: "\<forall>d\<in>set ?ds. length (dirent_bytes d) = 16" using root_list_inum [OF n] by blast
  then have lc: "length (concat (map dirent_bytes ?ds)) = 16 * length ?ds"
    by (simp add: length_concat o_def sum_list_triv cong: map_cong)
  have lo: "entry s ip k = ?ds ! k" if "k < length ?ds" for k
    using drop_concat_entries [OF that l16] by (simp only: entry_def c dirent_roundtrip)
  have hi: "d_inum (entry s ip k) = 0" if k: "length ?ds \<le> k" "k < nent s ip" for k
  proof -
    obtain q where q: "length (fcontent s ip) = 16 * q" using d by blast
    then have "k < q" using k(2) by (simp add: nent_def)
    moreover have "16 * length ?ds + z = 16 * q" using q lc unfolding c by (simp only: length_append length_replicate)
    ultimately have z: "16 \<le> z - (16 * k - 16 * length ?ds)" using k(1) by linarith
    have "drop (16 * k) (fcontent s ip) = replicate (z - (16 * k - 16 * length ?ds)) 0"
      using k(1) lc by (simp add: c)
    then have "take 16 (drop (16 * k) (fcontent s ip)) = replicate 16 0" using z by (simp add: min_def)
    then show ?thesis by (simp add: entry_def dirent_of_def get16_def)
  qed
  have "length (fcontent s ip) = 16 * length ?ds + z" using lc unfolding c by (simp only: length_append length_replicate)
  then have ne: "length ?es \<le> nent s ip" by (simp add: nent_def)
  have "map_option (\<lambda>k. snd (if k < length ?es then ?es ! k else (c, 0))) (find (hit s ip c) [0..<nent s ip]) = map_of ?es c"
    by (rule find_map_of [OF _ _ ne]) (use lo hi root_list_inum [OF n] in \<open>auto simp: hit_def\<close>)
  moreover have "(\<lambda>k. snd (if k < length ?es then ?es ! k else (c, 0))) k = d_inum (entry s ip k)" if "k < nent s ip" for k
    using lo hi that by simp
  moreover have "k < nent s ip" if "find (hit s ip c) [0..<nent s ip] = Some k" for k using that by (auto simp: find_Some_iff)
  ultimately have "dmap s ip c = map_of ?es c" by (cases "find (hit s ip c) [0..<nent s ip]") (auto simp: dmap_def)
  then show "dmap s ip c = root_map files c" by (simp add: root_map_list [OF n])
qed


lemma fs_ok_moves:
  assumes e: "cview (dev t) = cview (dev s)" "sb t = sb s" "fdisk t = fdisk s"
  shows "fs_ok t = fs_ok s"
  by (simp add: fs_ok_def blocks_cong [OF e(2)] marked_def e)

text \<open>An inode that \<open>ilock\<close> has read from the disk.\<close>

lemma ilock_reads:
  assumes l: "ilock ip s = Inr s'" and v: "\<not> ivalid (the_ip s ip)" and ip: "ip < length (icache s)"
  defines "b \<equiv> cview (dev s) (IBLOCK (inum (the_ip s ip)) s)"
  shows "cview (dev s') = cview (dev s)" "sb s' = sb s" "fdisk s' = fdisk s" "length (icache s') = length (icache s)"
    "the_ip s' ip = (dinode_get b ((the_ip s ip)\<lparr>ilocked := True\<rparr>))\<lparr>ivalid := True\<rparr>"
  using l v ip by (auto simp: ilock_def Let_def rbind_eq_Inr bread_Inr iset_def b_def IBLOCK_def split: if_splits)

lemma dinode_fields:
  "inum p = inum q \<Longrightarrow> addrs (dinode_get b p) = addrs (dinode_get b q) \<and> itype (dinode_get b p) = itype (dinode_get b q)
    \<and> isize (dinode_get b p) = isize (dinode_get b q) \<and> inum (dinode_get b p) = inum p"
  by (simp add: dinode_get_def Let_def)

text \<open>The state \<open>s'\<close> of a kernel that has locked inode \<open>k\<close> on a disk that \<open>mkfs\<close> has made.\<close>

lemma boot_file:
  assumes h: "holds m ty cont" and im: "cview (dev s) = (img m)(58 := bitmap_buf (unat (freeblock m)))" and d: "fdisk s = 1000"
    and r: "readsb s = Inr s1" and l: "ilock ip s1 = Inr s'" and ip: "ip < length (icache s)"
    and v: "\<not> ivalid (the_ip s ip)" and n: "inum (the_ip s ip) = of_nat k" "k < 200"
  shows "fs_ok s'" "file_is s' ip (ty k) (cont k)" "sb s' = mk_sb" "inum (the_ip s' ip) = of_nat k"
proof -
  have ok: "mk_ok m" using h by (simp add: holds_def)
  have s1: "s1 = s\<lparr>sb := sb_of (cview (dev s) 1)\<rparr>" using r by (auto simp: readsb_def rbind_eq_Inr bread_Inr)
  then have sb: "sb s1 = mk_sb" using mk_okD(7) [OF ok] im by simp
  have e1: "cview (dev s1) = cview (dev s)" "icache s1 = icache s" "fdisk s1 = 1000" using s1 d by simp_all
  note L = ilock_reads [OF l, unfolded e1(2), OF v ip]
  have e: "cview (dev s') = cview (dev (disk_view m))" "sb s' = sb (disk_view m)" "fdisk s' = fdisk (disk_view m)"
    using L(1-3) e1 im sb by simp_all
  show "fs_ok s'" using kview_ok [OF ok] fs_ok_moves [OF e] by simp
  show "sb s' = mk_sb" using e(2) by simp
  let ?b = "mk_iblock (of_nat k) m"
  have I: "IBLOCK (of_nat k) s1 = ?b" by (simp add: IBLOCK_def mk_iblock_def sb mk_okD(2) [OF ok])
  have b: "cview (dev s1) ?b = img m ?b" using iblock_range(3) [OF ok n(2)] im e1 by simp
  have p: "the_ip s' ip = (dinode_get (img m ?b) ((the_ip s ip)\<lparr>ilocked := True\<rparr>))\<lparr>ivalid := True\<rparr>" using L(5) n I b by simp
  have q: "addrs (the_ip s' ip) = addrs (disk_ino m k) \<and> itype (the_ip s' ip) = itype (disk_ino m k)
      \<and> isize (the_ip s' ip) = isize (disk_ino m k) \<and> inum (the_ip s' ip) = of_nat k"
    using dinode_fields [of "(the_ip s ip)\<lparr>ilocked := True\<rparr>" "din0 (of_nat k)" "img m ?b"] n
    by (simp add: p disk_ino_def din0_def)
  then show "inum (the_ip s' ip) = of_nat k" by simp
  have f: "file_is (disk_view m) k (ty k) (cont k)" using h n(2) by (simp add: holds_def mk_consts)
  show "file_is s' ip (ty k) (cont k)"
    by (rule file_moves [OF _ e(1,2) _ f]) (use q n(2) L(4) ip e1(2) in simp_all)
qed

text \<open>
  C5. The disk that \<open>mkfs\<close> makes is a well-formed file system for the kernel: an inode that the kernel locks has the
  type and the bytes it was made with. The root is a directory, as a map it sends ., .. and the names of the files
  (without a leading underscore) to their inodes, and file \<open>j\<close> holds all that was read of the host's file \<open>j\<close>.
\<close>

theorem mkfs_boots:
  assumes "mkfs_main files = Inr m" "length files \<le> 198"
    and "cview (dev s) = img m" "fdisk s = nsect m" "readsb s = Inr s1" "ilock ip s1 = Inr s'"
    and "ip < length (icache s)" "\<not> ivalid (the_ip s ip)" "inum (the_ip s ip) = of_nat k"
  shows "(k = 1 \<longrightarrow> dir_ok s' ip \<and> dmap s' ip = root_map files) \<and>
    (\<forall>j<length files. k = j + 2 \<longrightarrow> fs_ok s' \<and> file_ok s' ip \<and> itype (the_ip s' ip) = T_FILE \<and>
      fcontent s' ip = file_bytes (snd (files ! j)))"
proof -
  obtain m1 where h: "holds m1 (final_ty (length files)) (final_cont files)"
    and im: "img m = (img m1)(58 := bitmap_buf (unat (freeblock m1)))" "nsect m = 1000"
    using mkfs_holds [OF assms(1,2)] by blast
  have B: "fs_ok s' \<and> file_is s' ip (final_ty (length files) k) (final_cont files k) \<and> sb s' = mk_sb \<and> inum (the_ip s' ip) = of_nat k"
    if "k < 200"
    using boot_file [OF h _ _ assms(5-9) that] assms(3,4) im by simp
  have root: "dir_ok s' ip \<and> dmap s' ip = root_map files" if k: "k = 1"
  proof -
    let ?c = "final_cont files 1"
    have f: "fs_ok s'" "file_is s' ip T_DIR ?c" "sb s' = mk_sb" "inum (the_ip s' ip) = 1"
      using B k by (simp_all add: final_ty_def)
    have c: "?c = concat (map dirent_bytes (root_list files)) @ replicate (root_size (length files)
        - length (concat (map dirent_bytes (root_list files)))) 0"
      by (simp add: final_cont_def root_list_def Let_def)
    have "length (concat (map dirent_bytes (root_list files))) = 16 * (length files + 2)"
      by (simp add: root_list_def length_root)
    then have lc: "length ?c = root_size (length files)"
      using round_up [of "16 * (length files + 2)"] unfolding c by (simp add: root_size_def)
    have dv: "16 dvd length ?c" unfolding lc root_size_def by (rule dvd_mult) simp
    have "dir_ok s' ip"
      using f dv by (simp add: dir_ok_def file_is_def mk_consts)
    moreover have "dmap s' ip = root_map files"
      by (rule dmap_root [OF _ assms(2)]) (use fcontent_is [OF f(2)] c dv in simp_all)
    ultimately show ?thesis by blast
  qed
  have "fs_ok s' \<and> file_ok s' ip \<and> itype (the_ip s' ip) = T_FILE \<and> fcontent s' ip = file_bytes (snd (files ! j))"
    if j: "j < length files" "k = j + 2" for j
  proof -
    have "fs_ok s'" "file_is s' ip T_FILE (file_bytes (snd (files ! j)))"
      using B j assms(2) by (simp_all add: final_ty_def final_cont_def)
    then show ?thesis using fcontent_is [of s' ip] by (simp add: file_is_def)
  qed
  with root show ?thesis by blast
qed


section \<open>Enough room\<close>

text \<open>A round of \<open>iappend\<close> takes two blocks at most, and there are no more rounds than bytes.\<close>

lemma rsect_ok: "nsect m = 1000 \<Longrightarrow> n < 1000 \<Longrightarrow> rsect n m = Inr (img m n)"
  by (simp add: rsect_def)

lemma new_addr_total:
  assumes m: "mk_ok m" and i: "i < 200" and fo: "file_ok (kview m f) i" and k: "k < 13" and n: "new_addr k (f i) m = (din', m')"
    and r: "unat (freeblock m) < 1000"
  shows "addrs din' ! k < 1000" "nsect m' = 1000" "unat (freeblock m') \<le> unat (freeblock m) + 1"
proof -
  have l: "length (addrs (f i)) = 13" using file_okD(2) [OF fo] i by simp
  have fb: "freeblock m < 1000" using r by (simp add: word_less_nat_alt)
  have old: "addrs (f i) ! k < 1000" if "addrs (f i) ! k \<noteq> 0"
    using file_okD(3) [OF fo, of k] that k i by (simp add: faddr_def FSLOTS_def mk_consts)
  show "addrs din' ! k < 1000" "nsect m' = 1000" "unat (freeblock m') \<le> unat (freeblock m) + 1"
    using n old fb k l mk_okD(1) [OF m] word_Suc [OF fb] by (auto simp: new_addr_def split: if_splits)
qed

lemma file_block_total:
  assumes m: "mk_ok m" and i: "i < 200" and fo: "file_ok (kview m f) i" and bn: "fbn < MAXFILE"
    and r: "unat (freeblock m) + 2 \<le> 1000"
  obtains x din' m' where "file_block fbn (f i) m = Inr (x, din', m')" "x < 1000" "unat (freeblock m') \<le> unat (freeblock m) + 2"
proof -
  have r1: "unat (freeblock m) < 1000" using r by simp
  show thesis
  proof (cases "fbn < 12")
    case True
    obtain d m1 where n: "new_addr fbn (f i) m = (d, m1)" by fastforce
    show ?thesis
      by (rule that [of "addrs d ! fbn" d m1])
        (use new_addr_total [OF m i fo _ n r1] n True in \<open>auto simp: file_block_def fs_consts\<close>)
  next
    case False
    obtain d m1 where n: "new_addr 12 (f i) m = (d, m1)" by fastforce
    have t: "addrs d ! 12 < 1000" "nsect m1 = 1000" "unat (freeblock m1) \<le> unat (freeblock m) + 1"
      using new_addr_total [OF m i fo _ n r1] by simp_all
    let ?ia = "addrs d ! 12" and ?k = "4 * (fbn - 12)"
    have e: "extends m f i d m1" "?ia \<noteq> 0" using new_addr_step [OF m i fo _ n t(1)] by simp_all
    have m1: "mk_ok m1" and fo1: "file_ok (kview m1 (f(i := d))) i" using e(1) by (simp_all add: extends_def grows_def)
    have f12: "?ia = faddr (kview m1 (f(i := d))) i 12" using i by (simp add: faddr_def)
    have ia58: "?ia \<noteq> 58" using slot_block(4) [OF m1 fo1 _ f12 e(2)] by (simp add: FSLOTS_def)
    have fb: "freeblock m1 < 1000" using t(3) r by (simp add: word_less_nat_alt)
    have k3: "?k + 3 < length (img m1 ?ia)" using bn mk_okD(6) [OF m1] False by (simp add: fs_consts)
    show ?thesis
    proof (cases "get32 (img m1 ?ia) ?k = 0")
      case True
      show ?thesis
        by (rule that [of "freeblock m1" d "wsect ?ia (put32 ?k (freeblock m1) (img m1 ?ia)) (m1\<lparr>freeblock := freeblock m1 + 1\<rparr>)"])
          (use True False n t fb k3 word_Suc [OF fb] in \<open>simp_all add: file_block_def fs_consts rsect_ok Let_def get32_put32 wsect_def\<close>)
    next
      case old: False
      have "13 + (fbn - 12) < FSLOTS" "faddr (kview m1 (f(i := d))) i (13 + (fbn - 12)) = get32 (img m1 ?ia) ?k"
        using bn False i e(2) ia58 by (simp_all add: FSLOTS_def fs_consts faddr_def)
      then have "get32 (img m1 ?ia) ?k < 1000" using file_okD(3) [OF fo1] old by (metis kview_simps(1) mk_consts(7) superblock.select_convs(1))
      then show ?thesis
        by (intro that [of "get32 (img m1 ?ia) ?k" d m1]) (use old False n t in \<open>simp_all add: file_block_def fs_consts rsect_ok Let_def\<close>)
    qed
  qed
qed

lemma iappend_loop_total:
  "mk_ok m \<Longrightarrow> i < 200 \<Longrightarrow> file_ok (kview m f) i \<Longrightarrow> f i = din \<Longrightarrow> off + length p \<le> MAXFILE * BSIZE \<Longrightarrow>
   unat (freeblock m) + 2 * length p \<le> 1000 \<Longrightarrow>
   \<exists>d o' m'. iappend_loop din off p m = Inr (d, o', m') \<and> unat (freeblock m') \<le> unat (freeblock m) + 2 * length p"
proof (induction din off p m arbitrary: f rule: iappend_loop.induct)
  case (1 din off p m)
  show ?case
  proof (cases "p = []")
    case True
    then show ?thesis by (simp add: iappend_loop.simps)
  next
    case False
    let ?n = "chunk off (length p)" and ?k = "off mod BSIZE"
    have n: "1 \<le> ?n" "?n \<le> length p" "?n \<le> BSIZE - ?k" using chunk_pos [of "length p" off] False by (auto simp: chunk_def Suc_le_eq)
    have bn: "off div BSIZE < MAXFILE" using 1(6) False by (intro block_lt) (cases p, simp_all)
    have r: "unat (freeblock m) + 2 \<le> 1000" using 1(7) n by linarith
    obtain x d m1 where b: "file_block (off div BSIZE) (f i) m = Inr (x, d, m1)" "x < 1000" "unat (freeblock m1) \<le> unat (freeblock m) + 2"
      using file_block_total [OF 1(2,3,4) bn r] by blast
    note B = file_block_step [OF 1(2,3,4) bn b(1,2)]
    have m1: "mk_ok m1" "file_ok (kview m1 (f(i := d))) i" using B(1) by (simp_all add: extends_def grows_def)
    let ?m2 = "wsect x (take ?k (img m1 x) @ take ?n p @ drop (?k + ?n) (img m1 x)) m1"
    note D = data_block_step(1) [OF m1 1(3) bn B(3,4) n(2,3)]
    have m2: "mk_ok ?m2" "file_ok (kview ?m2 (f(i := d))) i" using D by (simp_all add: extends_def grows_def)
    have fb: "freeblock ?m2 = freeblock m1" by (simp add: wsect_def)
    have "\<exists>d' o' m'. iappend_loop d (off + ?n) (drop ?n p) ?m2 = Inr (d', o', m')
        \<and> unat (freeblock m') \<le> unat (freeblock ?m2) + 2 * length (drop ?n p)"
      by (rule 1(1) [OF False _ refl refl m2(1) 1(3) m2(2)]) (use bn fb b(3) n 1(6,7) in simp_all)
    then show ?thesis
      using b(1,3) bn False n fb rsect_ok [OF mk_okD(1) [OF m1(1)] b(2)] 1(5)
      by (subst iappend_loop.simps) (auto simp: Let_def)
  qed
qed

lemma winode_total: "mk_ok m \<Longrightarrow> i < 200 \<Longrightarrow> inum d = of_nat i \<Longrightarrow> \<exists>m'. winode d m = Inr m'"
  using iblock_range(5) [of m i] by (simp add: winode_def rsect_def mk_okD(1) Let_def)

lemma iappend_total:
  assumes h: "holds m ty cont" and i: "i < 200" and n: "length (cont i) + length p \<le> MAXFILE * BSIZE"
    and r: "unat (freeblock m) + 2 * length p \<le> 1000"
  obtains m' where "iappend (of_nat i) p m = Inr m'" "unat (freeblock m') \<le> unat (freeblock m) + 2 * length p"
proof -
  note H = holdsD [OF h i]
  obtain d off m1 where l: "iappend_loop (disk_ino m i) (length (cont i)) p m = Inr (d, off, m1)"
    "unat (freeblock m1) \<le> unat (freeblock m) + 2 * length p"
    using iappend_loop_total [OF H(1) i H(2) refl n r] by blast
  have e: "extends m (disk_ino m) i d m1" using iappend_loop_spec [OF H(1) i H(2) refl l(1)] by blast
  then have m1: "mk_ok m1" by (simp add: extends_def)
  have pl: "plain i (d\<lparr>isize := of_nat off\<rparr>)" using plain_extends(3) [OF H(1) i e] by (simp add: plain_def)
  obtain m' where w: "winode (d\<lparr>isize := of_nat off\<rparr>) m1 = Inr m'" using winode_total [OF m1 i plain_inum [OF pl]] by blast
  show thesis
    by (rule that [of m']) (use l w H(4) rinode_eq [OF H(1) i] winode_step(5) [OF m1 i pl w] in \<open>simp_all add: iappend_def\<close>)
qed

lemma ialloc_total:
  assumes h: "holds m ty cont" and i: "unat (freeinode m) = i" "i < 200"
  obtains n m' where "mk_ialloc t m = Inr (n, m')" "freeblock m' = freeblock m"
proof -
  let ?m = "m\<lparr>freeinode := freeinode m + 1\<rparr>"
  have ok: "mk_ok ?m" using holdsD(1) [OF h i(2)] by (simp add: mk_ok_def)
  have fi: "freeinode m = of_nat i" by (simp add: i(1) [symmetric])
  let ?d = "(din0 (of_nat i))\<lparr>itype := t, inlink := 1, isize := 0\<rparr>"
  have pl: "plain i ?d" by (simp add: plain_def din0_def fs_consts)
  obtain m' where w: "winode ?d ?m = Inr m'" using winode_total [OF ok i(2) plain_inum [OF pl]] by blast
  show thesis
    by (rule that [of "of_nat i" m']) (use w fi winode_step(5) [OF ok i(2) pl w] in \<open>simp_all add: mk_ialloc_def\<close>)
qed


lemma append_file_total:
  "holds m ty cont \<Longrightarrow> i < 200 \<Longrightarrow> length (cont i) + length (file_bytes reads) \<le> MAXFILE * BSIZE \<Longrightarrow>
   unat (freeblock m) + 2 * length (file_bytes reads) \<le> 1000 \<Longrightarrow>
   \<exists>m'. append_file (of_nat i) reads m = Inr m' \<and> unat (freeblock m') \<le> unat (freeblock m) + 2 * length (file_bytes reads)"
proof (induction reads arbitrary: m cont)
  case Nil
  then show ?case by simp
next
  case (Cons b rest)
  show ?case
  proof (cases "b = []")
    case False
    then have fb: "file_bytes (b # rest) = b @ file_bytes rest" by (simp add: file_bytes_def)
    have r: "length (cont i) + length b \<le> MAXFILE * BSIZE" "unat (freeblock m) + 2 * length b \<le> 1000" using Cons.prems(3,4) fb by simp_all
    obtain m1 where a: "iappend (of_nat i) b m = Inr m1" "unat (freeblock m1) \<le> unat (freeblock m) + 2 * length b"
      using iappend_total [OF Cons.prems(1,2) r] by blast
    have "\<exists>m'. append_file (of_nat i) rest m1 = Inr m' \<and> unat (freeblock m') \<le> unat (freeblock m1) + 2 * length (file_bytes rest)"
      by (rule Cons.IH [OF iappend_holds(1) [OF Cons.prems(1,2) a(1)] Cons.prems(2)]) (use Cons.prems(3,4) fb a(2) in simp_all)
    then show ?thesis using a fb False by auto
  qed simp
qed

definition room :: "(u8 list \<times> u8 list list) list \<Rightarrow> nat" where
  "room files = (\<Sum>f\<leftarrow>files. 16 + length (file_bytes (snd f)))"

definition fits :: "u8 list \<times> u8 list list \<Rightarrow> bool" where
  "fits f \<longleftrightarrow> slash \<notin> set (fst f) \<and> length (file_bytes (snd f)) \<le> MAXFILE * BSIZE"

lemma add_files_total:
  "holds m ty cont \<Longrightarrow> unused_zero m \<Longrightarrow> unat (freeinode m) = i \<Longrightarrow> 2 \<le> i \<Longrightarrow> i + length files \<le> 200 \<Longrightarrow>
   length (cont 1) + 16 * length files \<le> MAXFILE * BSIZE \<Longrightarrow> \<forall>f\<in>set files. fits f \<Longrightarrow>
   unat (freeblock m) + 2 * room files \<le> 1000 \<Longrightarrow> \<exists>m'. add_files files m = Inr m'"
proof (induction files arbitrary: m ty cont i)
  case (Cons x files)
  obtain arg reads where x: "x = (arg, reads)" by fastforce
  have i: "i < 200" "(1 :: nat) < 200" using Cons.prems(5) by simp_all
  have rm: "room (x # files) = 16 + length (file_bytes reads) + room files" by (simp add: room_def x)
  obtain n m1 where a: "mk_ialloc T_FILE m = Inr (n, m1)" "freeblock m1 = freeblock m"
    using ialloc_total [OF Cons.prems(1,3) i(1)] by blast
  note A = ialloc_holds [OF Cons.prems(1-3) i(1) a(1)]
  let ?e = "dirent_bytes \<lparr>d_inum = ucast n, d_name = strncpy_b DIRSIZ (file_name arg)\<rparr>"
  have le: "length ?e = 16" by (simp add: dirent_bytes_def DIRSIZ_def)
  have r: "length (cont 1) + length ?e \<le> MAXFILE * BSIZE" "unat (freeblock m1) + 2 * length ?e \<le> 1000"
    using Cons.prems(6,8) rm le a(2) by simp_all
  obtain m2 where b: "iappend (of_nat 1) ?e m1 = Inr m2" "unat (freeblock m2) \<le> unat (freeblock m) + 32"
    using iappend_total [OF A(2) i(2) r] le a(2) by auto
  let ?c = "cont(1 := cont 1 @ ?e)"
  note B = iappend_holds(1,2) [OF A(2) i(2) b(1)]
  have lt: "1 < unat (freeinode m1)" "i < unat (freeinode m2)" using A(3) B(2) Cons.prems(4) by simp_all
  have z: "unused_zero m2" by (rule unused_zero_append [OF A(2) lt(1) i(2) b(1) A(4)])
  have r2: "length (?c i) + length (file_bytes reads) \<le> MAXFILE * BSIZE" "unat (freeblock m2) + 2 * length (file_bytes reads) \<le> 1000"
    using Cons.prems(4,7,8) rm b(2) A(5) x by (simp_all add: fits_def)
  obtain m3 where c: "append_file (of_nat i) reads m2 = Inr m3"
      "unat (freeblock m3) \<le> unat (freeblock m2) + 2 * length (file_bytes reads)"
    using append_file_total [OF B(1) i(1) r2] by blast
  note C = append_file_holds [OF B(1) z lt(2) i(1) c(1)]
  have "\<exists>m'. add_files files m3 = Inr m'"
    by (rule Cons.IH [OF conjunct1 [OF C], of "Suc i"]) (use C A(3) B(2) Cons.prems(4-8) rm b(2) c(2) le in \<open>auto simp: fits_def\<close>)
  then show ?case using Cons.prems(7) a(1) b(1) c(1) A(1) by (simp add: x fits_def ROOTINO_def)
qed simp

text \<open>
  \<open>mkfs\<close> succeeds when the names have no slash, no file is too big and all of them take few enough blocks: no
  assertion fails and nothing is read outside of the image.
\<close>

lemma mkfs_succeeds:
  assumes "length files \<le> 198" "\<forall>f\<in>set files. fits f" "123 + 2 * room files \<le> 1000"
  shows "\<exists>m. mkfs_main files = Inr m"
proof -
  have one: "(1 :: nat) < 200" "unat (freeinode mk_start) = 1" "unat (freeblock mk_start) = 59" by (simp_all add: mk_start_eq)
  obtain i m1 where a: "mk_ialloc T_DIR mk_start = Inr (i, m1)" "freeblock m1 = freeblock mk_start"
    using ialloc_total [OF start_holds(1) one(2,1)] by blast
  note A = ialloc_holds [OF start_holds one(2,1) a(1)]
  define e where "e nm = dirent_bytes \<lparr>d_inum = ucast i, d_name = strncpy_b DIRSIZ nm\<rparr>" for nm
  have le: "length (e nm) = 16" for nm by (simp add: e_def dirent_bytes_def DIRSIZ_def)
  obtain m2 where b: "iappend (of_nat 1) (e [46]) m1 = Inr m2" "unat (freeblock m2) \<le> 91"
    using iappend_total [OF A(2) one(1), of "e [46]"] one(3) a(2) le by (auto simp: fs_consts)
  note B = iappend_holds(1,2) [OF A(2) one(1) b(1)]
  have lt: "1 < unat (freeinode m1)" "1 < unat (freeinode m2)" using A(3) B(2) by simp_all
  have z2: "unused_zero m2" by (rule unused_zero_append [OF A(2) lt(1) one(1) b(1) A(4)])
  have r: "length (((\<lambda>_. [])(1 := [] @ e [46])) 1) + length (e [46, 46]) \<le> MAXFILE * BSIZE"
    "unat (freeblock m2) + 2 * length (e [46, 46]) \<le> 1000" using b(2) le by (simp_all add: fs_consts)
  obtain m3 where c: "iappend (of_nat 1) (e [46, 46]) m2 = Inr m3" "unat (freeblock m3) \<le> unat (freeblock m2) + 2 * length (e [46, 46])"
    using iappend_total [OF B(1) one(1) r] by blast
  have c3: "unat (freeblock m3) \<le> 123" using c(2) b(2) le by simp
  note C = iappend_holds(1,2) [OF B(1) one(1) c(1)]
  have z3: "unused_zero m3" by (rule unused_zero_append [OF B(1) lt(2) one(1) c(1) z2])
  have fi: "unat (freeinode m3) = 2" using A(3) B(2) C(2) by simp
  obtain m4 where d: "add_files files m3 = Inr m4"
    using add_files_total [OF C(1) z3 fi _ _ _ assms(2)] assms(1,3) c3 le by (auto simp: fs_consts)
  have D: "holds m4 (added_ty 2 (length files) ((\<lambda>_. 0)(1 := T_DIR)))
      (added 2 files (((\<lambda>_. [])(1 := [] @ e [46]))(1 := ([] @ e [46]) @ e [46, 46])))"
    using add_files_holds [OF C(1) z3 fi _ _ d] assms(1) by simp
  have ok: "mk_ok m4" using D by (simp add: holds_def)
  have "inum ((disk_ino m4 1)\<lparr>isize := n\<rparr>) = of_nat 1" for n using plain_inum [OF plain_disk [of 1 m4]] by simp
  then obtain m5 where f: "fix_root m4 = Inr m5"
    using winode_total [OF ok one(1)] rinode_eq [OF ok one(1)] by (fastforce simp: fix_root_def ROOTINO_def Let_def)
  have l: "length (added 2 files (((\<lambda>_. [])(1 := [] @ e [46]))(1 := ([] @ e [46]) @ e [46, 46])) 1) \<le> 139 * 512"
    using assms(1) le by (simp add: added_def length_root)
  have "mk_ok m5" using fix_root_holds(1) [OF D f l] by (simp add: holds_def)
  then have "unat (freeblock m5) < 4096" using mk_okD(4) [of m5] by (simp add: word_le_nat_alt)
  then show ?thesis
    using a(1) b(1) c(1) d f A(1) by (simp add: mkfs_main_def e_def ROOTINO_def mk_balloc_def fs_consts)
qed


section \<open>The end of the root\<close>

text \<open>
  When the entries fill the last block of the root exactly, its size grows by a block that is not there. Reading it
  allocates a block, also in \<open>fileread\<close>, which is not in a transaction: the kernel panics.
\<close>

lemma balloc_outside:
  assumes "outstanding (flog s) < 1"
  shows "\<exists>e. balloc s = Inl e"
proof -
  have w: "\<exists>e. rbind (blog n b s) f = Inl e" for n b and f :: "fs \<Rightarrow> (u32 \<times> fs) res" using assms by (simp add: blog_def log_write_def)
  have "\<exists>e. balloc_loop bs s = Inl e" for bs
  proof (induction bs)
    case (Cons b bs)
    then show ?case
      using w by (cases "fs_bread (BBLOCK (of_nat b) s) s") (auto split: option.splits)
  qed simp
  then show ?thesis by (simp add: balloc_def)
qed

lemma hole_read_fails:
  assumes "outstanding (flog s) < 1" "itype (the_ip s ip) \<noteq> T_DEV" "unat off div BSIZE < NDIRECT"
    and "addrs (the_ip s ip) ! (unat off div BSIZE) = 0" "off < isize (the_ip s ip)" "\<not> off + n < off" "n \<noteq> 0"
  shows "\<exists>e. readi dsr ip off n s = Inl e"
proof -
  let ?p = "the_ip s ip" and ?n = "if off + n > isize (the_ip s ip) then isize (the_ip s ip) - off else n"
  obtain e where e: "balloc s = Inl e" using balloc_outside [OF assms(1)] by blast
  have nz: "?n \<noteq> 0" using assms(5,7) by auto
  then have un: "unat ?n \<noteq> 0" by (simp only: unat_eq_0) simp
  have b: "bmap ip (unat off div BSIZE) s = Inl e" using assms(3,4) e by (simp add: bmap_def Let_def)
  have "readi_loop ip (unat off) (unat ?n) s = Inl e" by (subst readi_loop.simps) (simp only: un b if_False rbind_Inl)
  moreover have "\<not> off > isize ?p" using assms(5) by simp
  ultimately show ?thesis using assms(2,6) by (simp add: readi_def Let_def)
qed

lemma full_root_grows:
  "length files = 30 \<Longrightarrow> root_size (length files) = 512 + length (concat (map dirent_bytes (root_list files)))"
  by (simp add: root_size_def root_list_def length_root)

section \<open>A disk with one file\<close>

lemma boot_total:
  assumes h: "holds m ty cont" and im: "cview (dev s) = (img m)(58 := bitmap_buf (unat (freeblock m)))" and d: "fdisk s = 1000"
    and ip: "ip < length (icache s)" "iref (the_ip s ip) = 1" "\<not> ilocked (the_ip s ip)" "\<not> ivalid (the_ip s ip)"
    and n: "inum (the_ip s ip) = of_nat k" "k < 200" "ty k \<noteq> 0"
  shows "\<exists>s1 s'. readsb s = Inr s1 \<and> ilock ip s1 = Inr s'"
proof -
  have ok: "mk_ok m" using h by (simp add: holds_def)
  let ?s = "s\<lparr>sb := mk_sb\<rparr>" and ?b = "mk_iblock (of_nat k) m"
  have r: "readsb s = Inr ?s" using mk_okD(7) [OF ok] im d by (simp add: readsb_def fs_bread_def)
  have I: "IBLOCK (of_nat k) t = ?b" if "sb t = mk_sb" for t by (simp add: IBLOCK_def mk_iblock_def that mk_okD(2) [OF ok])
  have b: "cview (dev s) ?b = img m ?b" "?b < 1000" using iblock_range(3,5) [OF ok n(2)] im by simp_all
  have "itype (dinode_get (img m ?b) ((the_ip s ip)\<lparr>ilocked := True\<rparr>)) = itype (disk_ino m k)"
    using dinode_fields [of "(the_ip s ip)\<lparr>ilocked := True\<rparr>" "din0 (of_nat k)" "img m ?b"] n
    by (simp add: disk_ino_def din0_def)
  then have "itype (dinode_get (img m ?b) ((the_ip s ip)\<lparr>ilocked := True\<rparr>)) \<noteq> 0" using holdsD(3) [OF h n(2)] n(3) by simp
  then have "\<exists>s'. ilock ip ?s = Inr s'" using ip n(1) b d by (simp add: ilock_def iset_def I fs_bread_def Let_def)
  then show ?thesis using r by blast
qed

definition one_file :: "(u8 list \<times> u8 list list) list" where
  "one_file = [([95, 97], [[65], [66, 67]])]"

definition boot_state :: "mkfs \<Rightarrow> u32 \<Rightarrow> fs" where
  "boot_state m i = \<lparr>dev = dev_boot (img m), flog = \<lparr>lstart = 2, lsize = 30, outstanding = 0, committing = False, lh = []\<rparr>,
     sb = mk_sb, icache = [(din0 i)\<lparr>iref := 1\<rparr>], fdisk = nsect m\<rparr>"

lemma boot_one:
  assumes m: "mkfs_main one_file = Inr m" and k: "k = 1 \<or> k = 2"
  obtains s1 s' where "readsb (boot_state m (of_nat k)) = Inr s1" "ilock 0 s1 = Inr s'"
proof -
  let ?s = "boot_state m (of_nat k)"
  have n: "length one_file \<le> 198" by (simp add: one_file_def)
  obtain m1 where h: "holds m1 (final_ty (length one_file)) (final_cont one_file)"
    and im: "img m = (img m1)(58 := bitmap_buf (unat (freeblock m1)))" "nsect m = 1000"
    using mkfs_holds [OF m n] by blast
  have "\<exists>s1 s'. readsb ?s = Inr s1 \<and> ilock 0 s1 = Inr s'"
    by (rule boot_total [OF h, where k = k])
      (use im k in \<open>auto simp: boot_state_def dev_boot_def din0_def final_ty_def one_file_def T_DIR_def T_FILE_def\<close>)
  then show thesis using that by blast
qed

theorem mkfs_boots_witness:
  "\<exists>m s1 s' s2 s''. mkfs_main one_file = Inr m
    \<and> readsb (boot_state m 1) = Inr s1 \<and> ilock 0 s1 = Inr s' \<and> dmap s' 0 [97] = Some 2
    \<and> readsb (boot_state m 2) = Inr s2 \<and> ilock 0 s2 = Inr s'' \<and> fcontent s'' 0 = [65, 66, 67]"
proof -
  have "\<exists>m. mkfs_main one_file = Inr m"
    by (rule mkfs_succeeds) (simp_all add: one_file_def fits_def room_def file_bytes_def fs_consts)
  then obtain m where m: "mkfs_main one_file = Inr m" by blast
  have n: "length one_file \<le> 198" by (simp add: one_file_def)
  obtain s1 s' where a: "readsb (boot_state m (of_nat 1)) = Inr s1" "ilock 0 s1 = Inr s'" using boot_one [OF m] by blast
  obtain s2 s'' where b: "readsb (boot_state m (of_nat 2)) = Inr s2" "ilock 0 s2 = Inr s''" using boot_one [OF m] by blast
  have st: "cview (dev (boot_state m i)) = img m" "fdisk (boot_state m i) = nsect m" "0 < length (icache (boot_state m i))"
    "\<not> ivalid (the_ip (boot_state m i) 0)" "inum (the_ip (boot_state m i) 0) = i" for i
    by (simp_all add: boot_state_def dev_boot_def din0_def)
  have "dmap s' 0 = root_map one_file" using mkfs_boots [OF m n st(1,2) a st(3-5)] by simp
  moreover have "root_map one_file [97] = Some 2" by (simp add: root_map_def one_file_def cname_def file_name_def byte0_def DIRSIZ_def)
  moreover have "fcontent s'' 0 = [65, 66, 67]"
    using mkfs_boots [OF m n st(1,2) b st(3-5)] by (simp add: one_file_def file_bytes_def)
  ultimately show ?thesis using m a b by auto
qed

end
