(* ===== verification/Spec2Isabelle.thy ===== *)
theory Spec2Isabelle
  imports CString Bash_Pipe Pipe Atomics KLocks Proc Trap Ide Grep FdSteps Umalloc ShRun Printf Kbd Screen Fibers FiberCtx Jobserver Logger
    Mkfs
begin

text \<open>
  A verification library for the programs of this repository: the operating system labs, whose largest part is a
  modified xv6 (kernel, user library, shell and tools) under \<open>src/signal/alarm\<close>, with small programs around it: shells
  (\<open>src/bash\<close>), locks (\<open>src/atomic\<close>), user threads (\<open>src/fibers\<close>), a job server and a logger (\<open>src/fs\<close>), and the date
  system call (\<open>src/syscall/date\<close>). Unless another directory is named, files are those of \<open>src/signal/alarm\<close>.

  How the parts of the kernel meet. User programs enter through \<open>trap\<close> and \<open>syscall\<close>, which fetch the arguments from
  user memory through the page table and call \<open>sysproc.c\<close> and \<open>sysfile.c\<close>. These work on the process table
  (\<open>proc.c\<close>), page tables (\<open>vm.c\<close>) over the page allocator (\<open>kalloc.c\<close>), open files and pipes (\<open>file.c\<close>, \<open>pipe.c\<close>),
  and the file system (\<open>fs.c\<close>) over the log (\<open>log.c\<close>) over the buffer cache (\<open>bio.c\<close>). The theories have that order,
  and each state record contains the one below it.

  Conventions. A machine integer is a word of its width and wraps around. A panic, an access outside of an array and
  the end of the fuel of a loop are the \<open>Inl\<close> values of \<open>Prelude\<close>; an error that the code returns is part of the
  \<open>Inr\<close> value. A loop that may not end is a \<open>partial_function\<close> (\<open>Umalloc\<close>, \<open>Fibers\<close>, \<open>Ide\<close>, \<open>Printf.cmos_loop\<close>), where \<open>None\<close> is
  not to return; that it does return is part of the theorems on the first three (for a disk that gets ready). Loops over pages have the fuel
  \<open>page_fuel\<close> of 2^20, the number of pages of the address space, plus one where the loop makes one round more: a round
  takes a page, so the fuel is never used up (\<open>VM\<close>).

  Foundations.
  \<^item> \<open>Prelude\<close>: machine types, the result type, C strings, little-endian words, collections of facts.
  \<^item> \<open>CString\<close>: \<open>string.c\<close>, \<open>ulib.c\<close> and the string instructions of \<open>x86.h\<close>: each routine and the memory it leaves.
  \<^item> \<open>Ring\<close>, \<open>Mutex\<close>: the locales \<open>ring_buffer\<close> (free-running counters on a ring) and \<open>mutex\<close>.

  Memory and processes.
  \<^item> \<open>Kalloc\<close> (\<open>kalloc.c\<close>): the free list in memory refines a stack; the locale \<open>page_allocator\<close> is what its users rely on.
  \<^item> \<open>VM\<close> (\<open>vm.c\<close>): walking and filling page tables, growing, shrinking and copying user memory.
  \<^item> \<open>KLocks\<close> (\<open>spinlock.c\<close>, \<open>sleeplock.c\<close>): the locks access by access, with the interrupt flag of each CPU.
  \<^item> \<open>Proc\<close> (\<open>proc.c\<close>): the process table under every interleaving of fork, exit, wait, kill, sleep and the scheduler;
    the tree of processes, pids, and that \<open>wait\<close> loses no wakeup.
  \<^item> \<open>Syscall\<close>, \<open>Trap\<close> (\<open>syscall.c\<close>, \<open>sysproc.c\<close>, \<open>trap.c\<close>): argument checks, the process calls, and the alarm, which
    refines a machine that counts ticks, over any number of periods.

  Storage.
  \<^item> \<open>Bio\<close> (\<open>bio.c\<close>, \<open>memide.c\<close>): the cache refines an array of blocks.
  \<^item> \<open>Ide\<close> (\<open>ide.c\<close>): the queue of requests; the disk, a parameter, is read and written in the order of the calls.
  \<^item> \<open>Log\<close> (\<open>log.c\<close>): a commit is atomic whatever disk write it is cut off after; operations that keep to their number of
    blocks do not overflow the log.
  \<^item> \<open>Blocks\<close>, \<open>Fs\<close>, \<open>Dir\<close> (\<open>fs.c\<close>): files as byte lists, directories as maps, path lookup.
  \<^item> \<open>Mkfs\<close> (\<open>mkfs.c\<close>): the program that makes the disk; the kernel finds on it the root and the files it was given.
  \<^item> \<open>File\<close>, \<open>Sysfile\<close>, \<open>Exec\<close> (\<open>file.c\<close>, \<open>sysfile.c\<close>, \<open>exec.c\<close>): the calls on open files, each as it runs alone.
    \<open>FileRefs\<close>: such a call keeps the reference count of a file equal to the number of descriptors that name it.
    \<open>FdSteps\<close>: the calls that move references cut where another process can run, \<open>fileclose\<close> inside \<open>exit\<close> included;
    under every interleaving the counts are those of the descriptors and of what the calls under way hold.

  Input, output and the other kernel parts.
  \<^item> \<open>Pipe\<close> (\<open>pipe.c\<close>): first in, first out, under every interleaving of readers, writers, closes and kills.
  \<^item> \<open>Console\<close> (\<open>console.c\<close>): the line editor in the interrupt, \<open>consoleread\<close>, and that no wakeup is lost.
  \<^item> \<open>Kbd\<close> (\<open>kbd.c\<close>): what is typed on the keyboard is what a read gets.
  \<^item> \<open>Screen\<close> (\<open>console.c\<close>): \<open>cprintf\<close> and \<open>cgaputc\<close>; the screen shows what is printed.
  \<^item> \<open>Printf\<close> (\<open>printf.c\<close>, \<open>date.c\<close>, \<open>lapic.c\<close> of \<open>src/syscall/date\<close>): formatted output, the clock, the date command.

  User programs.
  \<^item> \<open>Umalloc\<close> (\<open>umalloc.c\<close>): the circular free list; blocks never overlap and both walks end.
  \<^item> \<open>Grep\<close> (\<open>grep.c\<close>): the matcher decides the language of the pattern.
  \<^item> \<open>Sh\<close>, \<open>ShLine\<close>, \<open>ShRun\<close> (\<open>sh.c\<close>): the parser inverts a printer of commands; a newline at the end of a line makes
    no difference to it; what a line starts, with which descriptors.
  \<^item> \<open>Tokenizers\<close>, \<open>Bash\<close>, \<open>Bash_Pipe\<close> (\<open>src/bash\<close>): lexers, redirections, the children and pipes of a pipeline.
  \<^item> \<open>Atomics\<close> (\<open>src/atomic\<close>): spin, read-write and sequence lock, one step per atomic access.
  \<^item> \<open>Fibers\<close>, \<open>FiberCtx\<close> (\<open>src/fibers\<close>): the ring of threads as a queue, and their registers: a context has the general
    ones, the x87 and SSE state is a part of the machine that no switch swaps.
  \<^item> \<open>Jobserver\<close>, \<open>Logger\<close> (\<open>src/fs\<close>): running all programs of a tree with a limit, where any \<open>fork\<close> and \<open>execl\<close> may fail;
    rotation of logs.

  Interfaces. \<open>page_allocator\<close> is interpreted on \<open>kalloc\<close> and \<open>kfree\<close>, \<open>ring_buffer\<close> on the pipe and on the console,
  \<open>mutex\<close> on the user spin lock and both kernel locks; the facts of the interpretations carry the properties of
  \<open>Kalloc\<close>, \<open>Pipe\<close>, \<open>Console\<close>, \<open>KLocks\<close> and \<open>Atomics\<close>.

  Parameters. What lies outside of the repository or depends on the machine is an argument: whether \<open>open\<close> and \<open>execvp\<close>
  of the host succeed, the devices behind \<open>devsw\<close>, the clock registers over time, the disk behind its registers, whether \<open>sbrk\<close> has memory. Memory
  is sequentially consistent, and the write of one disk block is atomic. The file system reads blocks of the one device
  there is and is always given a buffer: that the cache panics when it has none left is modelled in \<open>Bio\<close> alone. The disk
  of \<open>Ide\<close> is ready again and again and keeps to the command set; its status may show errors.

  Not modelled. \<open>src/syscall/date\<close> repeats the files of \<open>src/signal/alarm\<close>; only what differs is modelled. The user tests
  test the system calls. Start-up and device drivers (\<open>main.c\<close>, \<open>bootmain.c\<close>, \<open>mp.c\<close>, \<open>uart.c\<close>, \<open>ioapic.c\<close>)
  consist of accesses to ports and device registers whose meaning is that of the device. The kernel
  of \<open>src/syscall/gate\<close> is JOS around an assembly gate. The exercises on vector
  instructions, ELF files and \<open>mmap\<close> have the behaviour of the compiler and the host.
\<close>

end
